(* ===== verification/Prelude.thy ===== *)
theory Prelude
  imports Main "HOL-Library.Word" "HOL-Library.Multiset" "HOL-Library.AList"
begin

text \<open>
  Shared vocabulary of the development: the machine types of \<^verbatim>\<open>common/types.h\<close>, the
  model of the standard associative containers, the interface the components rely on when they
  use such a container, and generic lemmas on lists and sums.

  A \<^verbatim>\<open>std::unordered_map\<close> is an association list with distinct keys. The iteration order
  of the container is unspecified; no theorem of the development depends on the order of the list.
\<close>

named_theorems dict_simps
named_theorems step_defs

type_synonym u8 = "8 word"
type_synonym u16 = "16 word"
type_synonym u32 = "32 word"
type_synonym u64 = "64 word"

section \<open>Dictionaries\<close>

type_synonym ('k, 'v) umap = "('k \<times> 'v) list"

abbreviation um_find :: "('k, 'v) umap \<Rightarrow> 'k \<Rightarrow> 'v option" where
  "um_find m k \<equiv> map_of m k"

abbreviation um_assign :: "'k \<Rightarrow> 'v \<Rightarrow> ('k, 'v) umap \<Rightarrow> ('k, 'v) umap" where
  "um_assign k v m \<equiv> AList.update k v m"

abbreviation um_erase :: "'k \<Rightarrow> ('k, 'v) umap \<Rightarrow> ('k, 'v) umap" where
  "um_erase k m \<equiv> AList.delete k m"

text \<open>\<^verbatim>\<open>insert\<close> leaves an existing entry alone, as the standard containers do.\<close>

definition um_insert :: "'k \<Rightarrow> 'v \<Rightarrow> ('k, 'v) umap \<Rightarrow> ('k, 'v) umap" where
  "um_insert k v m = (case um_find m k of None \<Rightarrow> um_assign k v m | Some _ \<Rightarrow> m)"

definition um_ok :: "('k, 'v) umap \<Rightarrow> bool" where
  "um_ok m \<longleftrightarrow> distinct (map fst m)"

text \<open>
  What every client of a dictionary relies on: lookups after the three mutators. The lemmas of the
  locale are the two idioms of the code base, \<^verbatim>\<open>operator []\<close> (find or insert a default)
  and an update through a reference obtained from it.
\<close>

locale dictionary =
  fixes find :: "'m \<Rightarrow> 'k \<Rightarrow> 'v option"
    and insert :: "'k \<Rightarrow> 'v \<Rightarrow> 'm \<Rightarrow> 'm"
    and assign :: "'k \<Rightarrow> 'v \<Rightarrow> 'm \<Rightarrow> 'm"
    and erase :: "'k \<Rightarrow> 'm \<Rightarrow> 'm"
    and inv :: "'m \<Rightarrow> bool"
  assumes find_insert: "inv m \<Longrightarrow>
      find (insert k v m) k' = (if k' = k \<and> find m k = None then Some v else find m k')"
    and find_assign: "inv m \<Longrightarrow> find (assign k v m) k' = (if k' = k then Some v else find m k')"
    and find_erase: "inv m \<Longrightarrow> find (erase k m) k' = (if k' = k then None else find m k')"
    and inv_insert: "inv m \<Longrightarrow> inv (insert k v m)"
    and inv_assign: "inv m \<Longrightarrow> inv (assign k v m)"
    and inv_erase: "inv m \<Longrightarrow> inv (erase k m)"
begin

lemma find_insert_same: "inv m \<Longrightarrow> \<exists>v'. find (insert k v m) k = Some v'"
  by (cases "find m k") (auto simp: find_insert)

lemma insert_keeps: "inv m \<Longrightarrow> find m k' = Some v' \<Longrightarrow> find (insert k v m) k' = Some v'"
  by (auto simp: find_insert)

lemma find_insert_assign:
  "inv m \<Longrightarrow> find (assign k w (insert k v m)) k' = (if k' = k then Some w else find m k')"
  by (auto simp: find_assign find_insert inv_insert)

lemma erase_insert_fresh:
  "inv m \<Longrightarrow> find m k = None \<Longrightarrow> find (erase k (insert k v m)) = find m"
  by (auto simp: find_erase find_insert inv_insert)

end

lemma um_find_insert:
  "um_find (um_insert k v m) k' = (if k' = k \<and> um_find m k = None then Some v else um_find m k')"
  by (auto simp: um_insert_def update_conv' split: option.splits)

lemma um_find_assign: "um_find (um_assign k v m) k' = (if k' = k then Some v else um_find m k')"
  by (simp add: update_conv')

lemma um_find_erase: "um_find (um_erase k m) k' = (if k' = k then None else um_find m k')"
  by (simp add: delete_conv')

lemma um_ok_Nil [simp]: "um_ok []"
  by (simp add: um_ok_def)

lemma um_ok_assign: "um_ok m \<Longrightarrow> um_ok (um_assign k v m)"
  by (simp add: um_ok_def distinct_update)

lemma um_ok_insert: "um_ok m \<Longrightarrow> um_ok (um_insert k v m)"
  by (simp add: um_insert_def um_ok_assign split: option.splits)

lemma um_ok_erase: "um_ok m \<Longrightarrow> um_ok (um_erase k m)"
  by (simp add: um_ok_def distinct_delete)

interpretation umap: dictionary um_find um_insert um_assign um_erase um_ok
  by unfold_locales
    (simp_all add: um_find_insert um_find_assign um_find_erase um_ok_assign um_ok_insert um_ok_erase)

declare um_find_insert [dict_simps] um_find_assign [dict_simps] um_find_erase [dict_simps]
declare um_ok_assign [dict_simps] um_ok_insert [dict_simps] um_ok_erase [dict_simps]

lemma um_insert_present: "um_find m k = Some v \<Longrightarrow> um_insert k w m = m"
  by (simp add: um_insert_def)

lemma um_assign_same: "um_find m k = Some v \<Longrightarrow> um_assign k v m = m"
  by (induction m) auto

lemma um_assign_assign: "um_assign k v (um_assign k w m) = um_assign k v m"
  by (induction m) auto

lemma sum_list_assign:
  fixes f :: "'v \<Rightarrow> 'a::ab_group_add"
  shows "sum_list (map (\<lambda>kv. f (snd kv)) (um_assign k v m)) =
    sum_list (map (\<lambda>kv. f (snd kv)) m) + f v - (case um_find m k of None \<Rightarrow> 0 | Some w \<Rightarrow> f w)"
  by (induction m) (auto simp: algebra_simps split: option.splits)

end
