(* ===== verification/Events.thy ===== *)
theory Events
  imports Prelude
begin

text \<open>
  \<^verbatim>\<open>mt::event\<close> of \<^verbatim>\<open>mt/event.h\<close> and \<^verbatim>\<open>mt/src/event_generic.cpp\<close>: a flag a thread waits
  for; waiting for an auto-reset event takes the flag down again.
\<close>

record event =
  ev_state :: bool
  ev_auto :: bool

definition ev_set :: "event \<Rightarrow> event" where
  "ev_set e = e\<lparr>ev_state := True\<rparr>"

definition ev_reset :: "event \<Rightarrow> event" where
  "ev_reset e = e\<lparr>ev_state := False\<rparr>"

text \<open>\<^verbatim>\<open>wait\<close> returns when the event is signalled and takes the signal of an auto-reset one;
  \<^const>\<open>None\<close> while it blocks.\<close>

definition ev_wait :: "event \<Rightarrow> event option" where
  "ev_wait e = (if ev_state e then Some (if ev_auto e then e\<lparr>ev_state := False\<rparr> else e) else None)"

end
