(* ===== verification/Buffers_Queue.thy ===== *)
theory Buffers_Queue
  imports Events Complex_Main
begin

text \<open>
  \<^verbatim>\<open>buffering_policy\<close> of \<^verbatim>\<open>common/types.h\<close> and the
  single-producer single-consumer trace queue of \<^verbatim>\<open>collector/buffers_queue.h\<close>.

  The instrumented thread writes trace records into the active buffer; a full buffer goes to the
  ring of ready buffers and an empty one is taken from a stack under the mutex. The analyzer thread
  consumes ready buffers and puts them back on that stack. Every section under the mutex, and every
  call on the ring or the event, is one atomic step of the model; the two threads interleave freely.

  The ring is \<^verbatim>\<open>polyq::circular_buffer\<close>, a library of its own: it is a parameter, a record
  of operations, and \<open>circular_buffer_laws\<close> is what its documentation promises.
\<close>

section \<open>Buffering policy\<close>

record buffering_policy =
  max_buffers :: nat
  max_empty :: nat
  min_empty :: nat

definition buffer_size :: nat where
  "buffer_size = 384"

text \<open>
  The constructor; \<^const>\<open>None\<close> is the \<^verbatim>\<open>invalid_argument\<close> it throws. The factors are
  exact rationals here: the conversion to \<^verbatim>\<open>size_t\<close> truncates.
\<close>

definition make_policy :: "nat \<Rightarrow> rat \<Rightarrow> rat \<Rightarrow> buffering_policy option" where
  "make_policy max_allocation max_empty_factor min_empty_factor =
     (let mb = max (max_allocation div buffer_size + of_bool (max_allocation mod buffer_size \<noteq> 0)) 1 in
      if max_empty_factor < 0 \<or> max_empty_factor > 1 \<or> min_empty_factor < 0 \<or> min_empty_factor > 1
         \<or> min_empty_factor > max_empty_factor then None
      else Some \<lparr>max_buffers = mb,
        max_empty = max (nat \<lfloor>max_empty_factor * of_nat mb\<rfloor>) 1,
        min_empty = min (nat \<lfloor>min_empty_factor * of_nat mb\<rfloor>) (mb - 1)\<rparr>)"

text \<open>\<^verbatim>\<open>size_t\<close> arithmetic, where the source may wrap.\<close>

definition size_add :: "nat \<Rightarrow> nat \<Rightarrow> nat" where
  "size_add a b = (a + b) mod 2 ^ 64"

definition size_sub :: "nat \<Rightarrow> nat \<Rightarrow> nat" where
  "size_sub a b = (a + (2 ^ 64 - b mod 2 ^ 64)) mod 2 ^ 64"

section \<open>The queue\<close>

record 'e buffer =
  buf_data :: "'e list"
  buf_size :: nat

record ('b, 'q) circular_ops =
  cb_new :: "nat \<Rightarrow> 'q"
  cb_produce :: "'b \<Rightarrow> 'q \<Rightarrow> 'q"
  cb_consume :: "'q \<Rightarrow> (nat \<times> 'b \<times> 'q) option"

record ('e, 'q) buffers_queue =
  bq_id :: u32
  ptr :: nat
  n_left :: nat
  active_buffer :: "'e buffer option"
  ready_buffers :: 'q
  empty_buffers :: "'e buffer list"
  empty_capacity :: nat
  allocated_buffers :: nat
  bq_policy :: buffering_policy
  bq_continue :: event

type_synonym ('e, 'q) ring = "('e buffer, 'q) circular_ops"

text \<open>A fresh buffer has indeterminate contents: \<open>junk\<close> stands for them.\<close>

definition new_buffer :: "'e \<Rightarrow> 'e buffer" where
  "new_buffer junk = \<lparr>buf_data = replicate buffer_size junk, buf_size = 0\<rparr>"

definition start_buffer :: "'e buffer \<Rightarrow> ('e, 'q) buffers_queue \<Rightarrow> ('e, 'q) buffers_queue" where
  "start_buffer b q = q\<lparr>active_buffer := Some b, ptr := 0, n_left := buffer_size\<rparr>"

text \<open>
  The two loops of \<^verbatim>\<open>adjust_empty_buffers\<close>. The array of empty buffers has a fixed extent;
  writing past it is undefined and modelled by \<^const>\<open>None\<close>. The top of the stack is the head of
  the list.
\<close>

fun shrink_empty :: "nat \<Rightarrow> 'e buffer list \<Rightarrow> nat \<Rightarrow> 'e buffer list \<times> nat" where
  "shrink_empty high_water [] allocated = ([], allocated)"
| "shrink_empty high_water (b # bs) allocated =
     (if Suc (length bs) > high_water then shrink_empty high_water bs (allocated - 1) else (b # bs, allocated))"

function grow_empty ::
  "'e \<Rightarrow> nat \<Rightarrow> nat \<Rightarrow> nat \<Rightarrow> 'e buffer list \<Rightarrow> nat \<Rightarrow> ('e buffer list \<times> nat) option" where
  "grow_empty junk capacity max_n low_water bs allocated =
     (if allocated < max_n \<and> length bs < low_water
      then (if length bs < capacity
            then grow_empty junk capacity max_n low_water (new_buffer junk # bs) (allocated + 1)
            else None)
      else Some (bs, allocated))"
  by auto
termination by (relation "measure (\<lambda>(_, _, max_n, _, _, allocated). max_n - allocated)") auto

declare grow_empty.simps [simp del]

definition adjust_empty_buffers ::
  "'e \<Rightarrow> buffering_policy \<Rightarrow> nat \<Rightarrow> ('e, 'q) buffers_queue \<Rightarrow> ('e, 'q) buffers_queue option" where
  "adjust_empty_buffers junk policy base_n q =
     (let high_water = size_add (max_empty policy) base_n;
          low_water = size_add (min_empty policy) base_n;
          (bs, a) = shrink_empty high_water (empty_buffers q) (allocated_buffers q)
      in map_option (\<lambda>(bs', a'). q\<lparr>empty_buffers := bs', allocated_buffers := a'\<rparr>)
           (grow_empty junk (empty_capacity q) (max_buffers policy) low_water bs a))"

definition buffers_queue_init ::
  "('e, 'q) ring \<Rightarrow> 'e \<Rightarrow> buffering_policy \<Rightarrow> u32 \<Rightarrow> ('e, 'q) buffers_queue option" where
  "buffers_queue_init ops junk policy i =
     adjust_empty_buffers junk policy 0 (start_buffer (new_buffer junk)
       \<lparr>bq_id = i, ptr = 0, n_left = 0, active_buffer = None, ready_buffers = cb_new ops (max_buffers policy),
        empty_buffers = [], empty_capacity = max_buffers policy, allocated_buffers = 1, bq_policy = policy,
        bq_continue = \<lparr>ev_state = False, ev_auto = True\<rparr>\<rparr>)"

text \<open>The producer: \<^verbatim>\<open>current() = e\<close>, \<^verbatim>\<open>push\<close>, and the two halves of \<^verbatim>\<open>flush\<close>.\<close>

definition write_current :: "'e \<Rightarrow> ('e, 'q) buffers_queue \<Rightarrow> ('e, 'q) buffers_queue option" where
  "write_current e q =
     (case active_buffer q of None \<Rightarrow> None
      | Some b \<Rightarrow> if ptr q < length (buf_data b)
          then Some (q\<lparr>active_buffer := Some (b\<lparr>buf_data := (buf_data b)[ptr q := e]\<rparr>)\<rparr>) else None)"

definition flush_publish :: "('e, 'q) ring \<Rightarrow> ('e, 'q) buffers_queue \<Rightarrow> ('e, 'q) buffers_queue option" where
  "flush_publish ops q =
     (case active_buffer q of None \<Rightarrow> None
      | Some b \<Rightarrow> Some (q\<lparr>ready_buffers := cb_produce ops (b\<lparr>buf_size := buffer_size - n_left q\<rparr>) (ready_buffers q),
          active_buffer := None\<rparr>))"

text \<open>The locked section of \<^verbatim>\<open>flush\<close>; \<^const>\<open>None\<close> is \<^verbatim>\<open>continue\<close>, which goes on to wait.\<close>

definition flush_take :: "('e, 'q) buffers_queue \<Rightarrow> ('e, 'q) buffers_queue option" where
  "flush_take q =
     (case empty_buffers q of [] \<Rightarrow> None
      | b # bs \<Rightarrow> Some (start_buffer b (q\<lparr>empty_buffers := bs\<rparr>)))"

text \<open>\<^verbatim>\<open>push\<close> up to the call of \<^verbatim>\<open>flush\<close>; the flag says that it is called.\<close>

definition advance :: "('e, 'q) buffers_queue \<Rightarrow> ('e, 'q) buffers_queue \<times> bool" where
  "advance q = (let q' = q\<lparr>ptr := ptr q + 1, n_left := (n_left q + (2 ^ 32 - 1)) mod 2 ^ 32\<rparr> in (q', n_left q' = 0))"

text \<open>The consumer: taking a ready buffer, giving it back, and the end of \<^verbatim>\<open>read_collected\<close>.\<close>

definition consume_ready ::
  "('e, 'q) ring \<Rightarrow> nat \<Rightarrow> ('e, 'q) buffers_queue \<Rightarrow> ('e buffer \<times> nat \<times> ('e, 'q) buffers_queue) option" where
  "consume_ready ops ready_n q =
     (case cb_consume ops (ready_buffers q) of None \<Rightarrow> None
      | Some (n, b, r) \<Rightarrow> Some (b, (if n > ready_n then n else ready_n), q\<lparr>ready_buffers := r\<rparr>))"

definition give_back :: "'e buffer \<Rightarrow> ('e, 'q) buffers_queue \<Rightarrow> (('e, 'q) buffers_queue \<times> bool) option" where
  "give_back b q =
     (let notify_continue = (empty_buffers q = []) in
      if length (empty_buffers q) < empty_capacity q
      then Some (q\<lparr>empty_buffers := b # empty_buffers q\<rparr>, notify_continue) else None)"

definition notify :: "('e, 'q) buffers_queue \<Rightarrow> ('e, 'q) buffers_queue" where
  "notify q = q\<lparr>bq_continue := ev_set (bq_continue q)\<rparr>"

definition finish_read :: "'e \<Rightarrow> nat \<Rightarrow> ('e, 'q) buffers_queue \<Rightarrow> ('e, 'q) buffers_queue option" where
  "finish_read junk ready_n q =
     (let notify_continue = (empty_buffers q = []) in
      map_option (\<lambda>q'. if notify_continue then notify q' else q')
        (adjust_empty_buffers junk (bq_policy q) ready_n q))"

definition bq_set_buffering_policy ::
  "'e \<Rightarrow> buffering_policy \<Rightarrow> ('e, 'q) buffers_queue \<Rightarrow> ('e, 'q) buffers_queue option" where
  "bq_set_buffering_policy junk policy q =
     map_option (\<lambda>q'. q'\<lparr>bq_policy := policy\<rparr>)
       (adjust_empty_buffers junk policy
          (size_sub (size_sub (allocated_buffers q) (length (empty_buffers q))) 1) q)"

section \<open>The two threads\<close>

text \<open>
  Where each thread stands. \<open>Producing\<close>: between two calls; \<open>Checking\<close>: in \<^verbatim>\<open>flush\<close>,
  about to lock the mutex; \<open>Waiting\<close>: in \<^verbatim>\<open>_continue.wait()\<close>. The consumer carries the
  locals \<^verbatim>\<open>n\<close> and \<^verbatim>\<open>ready_n\<close> of \<^verbatim>\<open>read_collected\<close> and the buffer it holds.
\<close>

datatype producer_pc = Producing | Checking | Waiting

datatype 'e consumer_pc =
  Idle
| Looping nat nat
| Returning "'e buffer" nat nat
| Notifying nat nat
| Finishing nat

record ('e, 'q) bq_system =
  sys_queue :: "('e, 'q) buffers_queue"
  producer :: producer_pc
  consumer :: "'e consumer_pc"

datatype 'e action =
  Push 'e | Flush | Take | Wake
| Begin_Read | Consume | Give_Back | Notify | Finish
| Set_Policy buffering_policy

datatype 's outcome = Disabled | Undefined | Next 's

text \<open>
  One step of the system. The second component of the result is what the reader callback is called
  with. \<^verbatim>\<open>set_buffering_policy\<close> and \<^verbatim>\<open>read_collected\<close> exclude each other by the
  mutex of \<^verbatim>\<open>thread_queue_manager\<close>.
\<close>

type_synonym 'e delivery = "(u32 \<times> 'e list) list"

definition or_undefined :: "'a option \<Rightarrow> ('a \<Rightarrow> 'b outcome) \<Rightarrow> 'b outcome" where
  "or_undefined r k = (case r of None \<Rightarrow> Undefined | Some x \<Rightarrow> k x)"

fun bq_step ::
  "('e, 'q) ring \<Rightarrow> 'e \<Rightarrow> 'e action \<Rightarrow> ('e, 'q) bq_system \<Rightarrow> (('e, 'q) bq_system \<times> 'e delivery) outcome" where
  "bq_step ops junk (Push e) s =
     (if producer s \<noteq> Producing then Disabled
      else or_undefined (write_current e (sys_queue s)) (\<lambda>q.
        let (q, full) = advance q in
        if full then or_undefined (flush_publish ops q) (\<lambda>q. Next (s\<lparr>sys_queue := q, producer := Checking\<rparr>, []))
        else Next (s\<lparr>sys_queue := q\<rparr>, [])))"
| "bq_step ops junk Flush s =
     (if producer s \<noteq> Producing then Disabled
      else or_undefined (flush_publish ops (sys_queue s))
        (\<lambda>q. Next (s\<lparr>sys_queue := q, producer := Checking\<rparr>, [])))"
| "bq_step ops junk Take s =
     (if producer s \<noteq> Checking then Disabled
      else case flush_take (sys_queue s) of
        None \<Rightarrow> Next (s\<lparr>producer := Waiting\<rparr>, [])
      | Some q \<Rightarrow> Next (s\<lparr>sys_queue := q, producer := Producing\<rparr>, []))"
| "bq_step ops junk Wake s =
     (if producer s \<noteq> Waiting then Disabled
      else case ev_wait (bq_continue (sys_queue s)) of
        None \<Rightarrow> Disabled
      | Some e \<Rightarrow> Next (s\<lparr>sys_queue := (sys_queue s)\<lparr>bq_continue := e\<rparr>, producer := Checking\<rparr>, []))"
| "bq_step ops junk Begin_Read s =
     (case consumer s of
        Idle \<Rightarrow> Next (s\<lparr>consumer := Looping (max_buffers (bq_policy (sys_queue s))) 0\<rparr>, [])
      | _ \<Rightarrow> Disabled)"
| "bq_step ops junk Consume s =
     (case consumer s of
        Looping n ready_n \<Rightarrow>
          (if n = 0 then Next (s\<lparr>consumer := Finishing ready_n\<rparr>, [])
           else case consume_ready ops ready_n (sys_queue s) of
             None \<Rightarrow> Next (s\<lparr>consumer := Finishing ready_n\<rparr>, [])
           | Some (b, ready_n', q) \<Rightarrow>
               Next (s\<lparr>sys_queue := q, consumer := Returning b (n - 1) ready_n'\<rparr>,
                     [(bq_id q, take (buf_size b) (buf_data b))]))
      | _ \<Rightarrow> Disabled)"
| "bq_step ops junk Give_Back s =
     (case consumer s of
        Returning b n ready_n \<Rightarrow> or_undefined (give_back b (sys_queue s)) (\<lambda>(q, notify_continue).
          Next (s\<lparr>sys_queue := q,
                  consumer := (if notify_continue then Notifying n ready_n else Looping n ready_n)\<rparr>, []))
      | _ \<Rightarrow> Disabled)"
| "bq_step ops junk Notify s =
     (case consumer s of
        Notifying n ready_n \<Rightarrow> Next (s\<lparr>sys_queue := notify (sys_queue s), consumer := Looping n ready_n\<rparr>, [])
      | _ \<Rightarrow> Disabled)"
| "bq_step ops junk Finish s =
     (case consumer s of
        Finishing ready_n \<Rightarrow> or_undefined (finish_read junk ready_n (sys_queue s))
          (\<lambda>q. Next (s\<lparr>sys_queue := q, consumer := Idle\<rparr>, []))
      | _ \<Rightarrow> Disabled)"
| "bq_step ops junk (Set_Policy p) s =
     (case consumer s of
        Idle \<Rightarrow> or_undefined (bq_set_buffering_policy junk p (sys_queue s)) (\<lambda>q. Next (s\<lparr>sys_queue := q\<rparr>, []))
      | _ \<Rightarrow> Disabled)"

fun bq_run ::
  "('e, 'q) ring \<Rightarrow> 'e \<Rightarrow> 'e action list \<Rightarrow> ('e, 'q) bq_system \<Rightarrow> (('e, 'q) bq_system \<times> 'e delivery) outcome" where
  "bq_run ops junk [] s = Next (s, [])"
| "bq_run ops junk (a # as) s =
     (case bq_step ops junk a s of
        Disabled \<Rightarrow> Disabled | Undefined \<Rightarrow> Undefined
      | Next (s', d) \<Rightarrow>
          (case bq_run ops junk as s' of
             Disabled \<Rightarrow> Disabled | Undefined \<Rightarrow> Undefined | Next (s'', d') \<Rightarrow> Next (s'', d @ d')))"

definition bq_start :: "('e, 'q) ring \<Rightarrow> 'e \<Rightarrow> buffering_policy \<Rightarrow> u32 \<Rightarrow> ('e, 'q) bq_system option" where
  "bq_start ops junk policy i =
     map_option (\<lambda>q. \<lparr>sys_queue = q, producer = Producing, consumer = Idle\<rparr>) (buffers_queue_init ops junk policy i)"

text \<open>
  What the ring promises: entries come out in the order they were put in, \<^verbatim>\<open>consume\<close> reports a
  number of entries it sees, and an entry fits while there are fewer than the capacity.
\<close>

definition circular_buffer_laws :: "('b, 'q) circular_ops \<Rightarrow> ('q \<Rightarrow> 'b list) \<Rightarrow> ('q \<Rightarrow> nat) \<Rightarrow> bool" where
  "circular_buffer_laws ops contents cap \<longleftrightarrow>
     (\<forall>n. contents (cb_new ops n) = [] \<and> cap (cb_new ops n) = n) \<and>
     (\<forall>b q. length (contents q) < cap q \<longrightarrow>
        contents (cb_produce ops b q) = contents q @ [b] \<and> cap (cb_produce ops b q) = cap q) \<and>
     (\<forall>q. case cb_consume ops q of
        None \<Rightarrow> contents q = []
      | Some (n, b, q') \<Rightarrow> contents q = b # contents q' \<and> cap q' = cap q \<and> n \<le> length (contents q))"

section \<open>The invariant\<close>

definition policy_ok :: "nat \<Rightarrow> buffering_policy \<Rightarrow> bool" where
  "policy_ok c p \<longleftrightarrow> max_buffers p \<le> c \<and> 1 \<le> max_buffers p \<and> 1 \<le> max_empty p \<and> max_empty p \<le> max_buffers p \<and>
     min_empty p < max_buffers p"

fun held :: "'e consumer_pc \<Rightarrow> 'e buffer list" where
  "held (Returning b _ _) = [b]"
| "held _ = []"

fun seen_ready :: "'e consumer_pc \<Rightarrow> nat" where
  "seen_ready Idle = 0"
| "seen_ready (Looping _ r) = r"
| "seen_ready (Returning _ _ r) = r"
| "seen_ready (Notifying _ r) = r"
| "seen_ready (Finishing r) = r"

definition active_list :: "('e, 'q) buffers_queue \<Rightarrow> 'e buffer list" where
  "active_list q = (case active_buffer q of None \<Rightarrow> [] | Some b \<Rightarrow> [b])"

definition all_buffers :: "('q \<Rightarrow> 'e buffer list) \<Rightarrow> ('e, 'q) bq_system \<Rightarrow> 'e buffer list" where
  "all_buffers contents s = active_list (sys_queue s) @ contents (ready_buffers (sys_queue s)) @
     held (consumer s) @ empty_buffers (sys_queue s)"

definition bq_inv :: "('q \<Rightarrow> 'e buffer list) \<Rightarrow> ('q \<Rightarrow> nat) \<Rightarrow> nat \<Rightarrow> ('e, 'q) bq_system \<Rightarrow> bool" where
  "bq_inv contents cap c s \<longleftrightarrow>
     (let q = sys_queue s in
      c < 2 ^ 62 \<and> empty_capacity q = c \<and> cap (ready_buffers q) = c \<and> policy_ok c (bq_policy q) \<and>
      allocated_buffers q = length (all_buffers contents s) \<and> allocated_buffers q \<le> c \<and>
      (\<forall>b\<in>set (all_buffers contents s). length (buf_data b) = buffer_size) \<and>
      (producer s = Producing \<longleftrightarrow> active_buffer q \<noteq> None) \<and>
      (active_buffer q \<noteq> None \<longrightarrow> ptr q + n_left q = buffer_size \<and> 0 < n_left q) \<and>
      seen_ready (consumer s) \<le> c \<and> ev_auto (bq_continue q))"

text \<open>The records the queue holds: those of the ready buffers and those written to the active one.\<close>

definition valid_part :: "'e buffer \<Rightarrow> 'e list" where
  "valid_part b = take (buf_size b) (buf_data b)"

definition in_flight :: "('q \<Rightarrow> 'e buffer list) \<Rightarrow> ('e, 'q) buffers_queue \<Rightarrow> 'e list" where
  "in_flight contents q = concat (map valid_part (contents (ready_buffers q))) @
     (case active_buffer q of None \<Rightarrow> [] | Some b \<Rightarrow> take (ptr q) (buf_data b))"

fun pushed :: "'e action list \<Rightarrow> 'e list" where
  "pushed [] = []"
| "pushed (Push e # as) = e # pushed as"
| "pushed (_ # as) = pushed as"

fun policies_ok :: "nat \<Rightarrow> 'e action \<Rightarrow> bool" where
  "policies_ok c (Set_Policy p) = policy_ok c p"
| "policies_ok c _ = True"

definition delivered :: "'e delivery \<Rightarrow> 'e list" where
  "delivered d = concat (map snd d)"

lemma shrink_empty_props:
  "shrink_empty h bs a = (bs', a') \<Longrightarrow> length bs \<le> a \<Longrightarrow>
    set bs' \<subseteq> set bs \<and> length bs' = min h (length bs) \<and> a' + length bs = a + length bs'"
proof (induction h bs a rule: shrink_empty.induct)
  case (2 h b bs a)
  show ?case
  proof (cases "Suc (length bs) > h")
    case True
    with 2 have "set bs' \<subseteq> set bs \<and> length bs' = min h (length bs) \<and> a' + length bs = a - 1 + length bs'" by auto
    with True 2(3) show ?thesis by auto
  qed (use 2 in auto)
qed auto

lemma grow_empty_props:
  "c \<ge> m \<Longrightarrow> length bs \<le> a \<Longrightarrow>
    \<exists>k. grow_empty junk c m low bs a = Some (replicate k (new_buffer junk) @ bs, a + k) \<and>
      (k > 0 \<longrightarrow> a + k \<le> m)"
proof (induction junk c m low bs a rule: grow_empty.induct)
  case (1 junk c m low bs a)
  show ?case
  proof (cases "a < m \<and> length bs < low")
    case True
    with 1(2,3) have "length bs < c" by linarith
    from 1(1) [OF True this 1(2)] 1(3) obtain k where
      "grow_empty junk c m low (new_buffer junk # bs) (a + 1) =
        Some (replicate k (new_buffer junk) @ new_buffer junk # bs, a + 1 + k)" "k > 0 \<longrightarrow> a + 1 + k \<le> m"
      by auto
    with True \<open>length bs < c\<close> show ?thesis
      by (intro exI [of _ "Suc k"]) (auto simp: grow_empty.simps [of junk c m low bs] replicate_app_Cons_same)
  qed (auto intro!: exI [of _ 0] simp: grow_empty.simps [of junk c m low bs])
qed

text \<open>Exactly when the array of empty buffers is too small for what is asked.\<close>

lemma grow_empty_None:
  "length bs \<le> c \<Longrightarrow> grow_empty junk c m low bs a = None \<longleftrightarrow> c < low \<and> c < length bs + (m - a)"
proof (induction junk c m low bs a rule: grow_empty.induct)
  case (1 junk c m low bs a)
  show ?case
  proof (cases "a < m \<and> length bs < low \<and> length bs < c")
    case True
    with 1 show ?thesis by (subst grow_empty.simps) auto
  next
    case False
    with 1(2) show ?thesis by (subst grow_empty.simps) auto
  qed
qed

text \<open>
  Adjusting changes the stack of empty buffers and the count alone: it removes \<open>n\<close> of the empty
  buffers and adds \<open>k\<close> fresh ones.
\<close>

lemma adjust_props:
  assumes "max_buffers p \<le> empty_capacity q" "length (empty_buffers q) \<le> allocated_buffers q"
    and "allocated_buffers q \<le> empty_capacity q"
  shows "\<exists>bs a. adjust_empty_buffers junk p n q = Some (q\<lparr>empty_buffers := bs, allocated_buffers := a\<rparr>) \<and>
    a + length (empty_buffers q) = allocated_buffers q + length bs \<and> a \<le> empty_capacity q \<and>
    set bs \<subseteq> insert (new_buffer junk) (set (empty_buffers q)) \<and>
    min (size_add (max_empty p) n) (length (empty_buffers q)) \<le> length bs"
proof -
  obtain bs1 a1 where sh: "shrink_empty (size_add (max_empty p) n) (empty_buffers q) (allocated_buffers q) = (bs1, a1)"
    by fastforce
  note s1 = shrink_empty_props [OF sh assms(2)]
  then have "length bs1 \<le> a1" using assms(2) by linarith
  from grow_empty_props [OF assms(1) this, of junk "size_add (min_empty p) n"] obtain k where
    "grow_empty junk (empty_capacity q) (max_buffers p) (size_add (min_empty p) n) bs1 a1 =
       Some (replicate k (new_buffer junk) @ bs1, a1 + k)" "k > 0 \<longrightarrow> a1 + k \<le> max_buffers p"
    by blast
  with sh s1 assms show ?thesis
    by (intro exI [of _ "replicate k (new_buffer junk) @ bs1"] exI [of _ "a1 + k"])
      (auto simp: adjust_empty_buffers_def set_replicate_conv_if split: if_splits)
qed

lemma size_add_small: "a + b < 2 ^ 64 \<Longrightarrow> size_add a b = a + b"
  by (simp add: size_add_def)

lemma size_sub_small:
  assumes "b \<le> a" "a < 2 ^ 64"
  shows "size_sub a b = a - b"
proof -
  have "a + (2 ^ 64 - b mod 2 ^ 64) = (a - b) + 2 ^ 64" using assms by simp
  then have "size_sub a b = (a - b) mod 2 ^ 64" by (simp only: size_sub_def mod_add_self2)
  with assms show ?thesis by simp
qed

lemma in_flight_irrelevant [simp]:
  "in_flight contents (q\<lparr>bq_continue := e\<rparr>) = in_flight contents q"
  "in_flight contents (q\<lparr>bq_policy := p\<rparr>) = in_flight contents q"
  "in_flight contents (q\<lparr>empty_buffers := bs\<rparr>) = in_flight contents q"
  "in_flight contents (q\<lparr>allocated_buffers := n\<rparr>) = in_flight contents q"
  by (simp_all add: in_flight_def split: option.splits)

lemmas bq_inv_defs = bq_inv_def all_buffers_def active_list_def Let_def

text \<open>
  One step of either thread: never undefined, keeps the invariant, and moves records from the
  producer through the queue to the reader in order.
\<close>

definition step_ok :: "('q \<Rightarrow> 'e buffer list) \<Rightarrow> ('q \<Rightarrow> nat) \<Rightarrow> nat \<Rightarrow> 'e action \<Rightarrow> ('e, 'q) bq_system \<Rightarrow>
  (('e, 'q) bq_system \<times> 'e delivery) outcome \<Rightarrow> bool" where
  "step_ok contents cap c a s r \<longleftrightarrow>
     (case r of Disabled \<Rightarrow> True | Undefined \<Rightarrow> False
      | Next (s', d) \<Rightarrow> bq_inv contents cap c s' \<and>
          delivered d @ in_flight contents (sys_queue s') = in_flight contents (sys_queue s) @ pushed [a])"

lemma laws_produce:
  assumes "circular_buffer_laws ops contents cap" "length (contents q) < cap q"
  shows "contents (cb_produce ops b q) = contents q @ [b]" "cap (cb_produce ops b q) = cap q"
  using assms by (auto simp: circular_buffer_laws_def)

lemma laws_consume:
  assumes "circular_buffer_laws ops contents cap" "cb_consume ops q = Some (n, b, q')"
  shows "contents q = b # contents q'" "cap q' = cap q" "n \<le> length (contents q)"
proof -
  have "case cb_consume ops q of None \<Rightarrow> contents q = []
    | Some (n, b, q') \<Rightarrow> contents q = b # contents q' \<and> cap q' = cap q \<and> n \<le> length (contents q)"
    using assms(1) unfolding circular_buffer_laws_def by blast
  with assms(2) show "contents q = b # contents q'" "cap q' = cap q" "n \<le> length (contents q)" by auto
qed

lemma laws_consume_None:
  "circular_buffer_laws ops contents cap \<Longrightarrow> cb_consume ops q = None \<Longrightarrow> contents q = []"
  unfolding circular_buffer_laws_def by (force split: option.splits)

lemma publish_sound:
  assumes "circular_buffer_laws ops contents cap" "bq_inv contents cap c s0"
    and "sys_queue s0 = q0" "producer s0 = Producing" "active_buffer q0 = Some b0"
    and "q = q0\<lparr>active_buffer := Some b, ptr := p, n_left := n\<rparr>" "p + n = buffer_size"
    and "length (buf_data b) = buffer_size"
  shows "\<exists>q'. flush_publish ops q = Some q' \<and> bq_inv contents cap c (s0\<lparr>sys_queue := q', producer := Checking\<rparr>) \<and>
    in_flight contents q' = concat (map valid_part (contents (ready_buffers q0))) @ take p (buf_data b)"
proof -
  have len: "length (contents (ready_buffers q0)) < cap (ready_buffers q0)"
    using assms(2-5) by (auto simp: bq_inv_defs)
  have "buffer_size - n = p" using assms(7) by simp
  then show ?thesis
    using assms laws_produce [OF assms(1) len]
    by (auto simp: flush_publish_def bq_inv_defs in_flight_def valid_part_def)
qed

lemma adjust_sound:
  assumes "bq_inv contents cap c s" "policy_ok c p"
  shows "\<exists>q'. adjust_empty_buffers junk p n (sys_queue s) = Some q' \<and>
    bq_inv contents cap c (s\<lparr>sys_queue := q'\<lparr>bq_policy := p\<rparr>\<rparr>) \<and>
    in_flight contents q' = in_flight contents (sys_queue s) \<and>
    bq_policy q' = bq_policy (sys_queue s) \<and> bq_continue q' = bq_continue (sys_queue s) \<and>
    min (size_add (max_empty p) n) (length (empty_buffers (sys_queue s))) \<le> length (empty_buffers q')"
proof -
  have "max_buffers p \<le> empty_capacity (sys_queue s)"
    "length (empty_buffers (sys_queue s)) \<le> allocated_buffers (sys_queue s)"
    "allocated_buffers (sys_queue s) \<le> empty_capacity (sys_queue s)"
    using assms by (auto simp: bq_inv_defs policy_ok_def)
  from adjust_props [OF this, of junk n] obtain bs a where adj:
    "adjust_empty_buffers junk p n (sys_queue s) = Some ((sys_queue s)\<lparr>empty_buffers := bs, allocated_buffers := a\<rparr>)"
    and "a + length (empty_buffers (sys_queue s)) = allocated_buffers (sys_queue s) + length bs"
    "a \<le> empty_capacity (sys_queue s)" "set bs \<subseteq> insert (new_buffer junk) (set (empty_buffers (sys_queue s)))"
    "min (size_add (max_empty p) n) (length (empty_buffers (sys_queue s))) \<le> length bs"
    by blast
  moreover from this(4) have "\<forall>b\<in>set bs. length (buf_data b) = buffer_size"
    using assms(1) by (auto simp: bq_inv_defs new_buffer_def)
  ultimately show ?thesis using assms
    by (auto simp: bq_inv_defs in_flight_def)
qed


lemma buffer_size_bounds: "0 < buffer_size" "buffer_size < 2 ^ 32"
  by (simp_all add: buffer_size_def)

lemma decrement_n_left:
  assumes "0 < n" "n \<le> buffer_size"
  shows "(n + (2 ^ 32 - 1)) mod 2 ^ 32 = n - 1"
proof -
  have "n + (2 ^ 32 - 1) = (n - 1) + 2 ^ 32" using assms(1) by simp
  then have "(n + (2 ^ 32 - 1)) mod 2 ^ 32 = (n - 1) mod 2 ^ 32" by (metis mod_add_self2)
  then show ?thesis using assms(2) buffer_size_bounds(2) by simp
qed

lemma push_sound:
  assumes "circular_buffer_laws ops contents cap" "bq_inv contents cap c s"
  shows "step_ok contents cap c (Push e) s (bq_step ops junk (Push e) s)"
proof (cases "producer s = Producing")
  case True
  let ?q = "sys_queue s"
  from assms(2) True obtain b where b: "active_buffer ?q = Some b" "length (buf_data b) = buffer_size"
    "ptr ?q + n_left ?q = buffer_size" "0 < n_left ?q"
    by (auto simp: bq_inv_defs)
  define b' where "b' = b\<lparr>buf_data := (buf_data b)[ptr ?q := e]\<rparr>"
  let ?q' = "?q\<lparr>active_buffer := Some b', ptr := ptr ?q + 1, n_left := n_left ?q - 1\<rparr>"
  have lt: "ptr ?q < length (buf_data b)" using b by simp
  have dec: "(n_left ?q + (2 ^ 32 - 1)) mod 2 ^ 32 = n_left ?q - 1" by (rule decrement_n_left) (use b in simp_all)
  have adv: "write_current e ?q = Some (?q\<lparr>active_buffer := Some b'\<rparr>)"
    "advance (?q\<lparr>active_buffer := Some b'\<rparr>) = (?q', n_left ?q - 1 = 0)"
    using b(1) lt by (simp_all add: write_current_def advance_def Let_def b'_def dec [simplified] b(4))
  have b': "length (buf_data b') = buffer_size" "take (ptr ?q + 1) (buf_data b') = take (ptr ?q) (buf_data b) @ [e]"
    using lt b(2) by (simp_all add: b'_def take_Suc_conv_app_nth)
  have fl: "in_flight contents ?q = concat (map valid_part (contents (ready_buffers ?q))) @ take (ptr ?q) (buf_data b)"
    by (simp add: in_flight_def b(1))
  show ?thesis
  proof (cases "n_left ?q - 1 = 0")
    case full: True
    have "ptr ?q + 1 + (n_left ?q - 1) = buffer_size" using b(3,4) by simp
    from publish_sound [OF assms refl True b(1) refl this b'(1)] full show ?thesis
      by (auto simp: True adv step_ok_def or_undefined_def fl delivered_def b'(2) [simplified])
  next
    case False
    with assms(2) b b' show ?thesis
      by (auto simp: True adv step_ok_def or_undefined_def fl delivered_def bq_inv_defs in_flight_def)
  qed
qed (simp add: step_ok_def)

lemma flush_sound:
  assumes "circular_buffer_laws ops contents cap" "bq_inv contents cap c s"
  shows "step_ok contents cap c Flush s (bq_step ops junk Flush s)"
proof (cases "producer s = Producing")
  case True
  with assms(2) obtain b where b: "active_buffer (sys_queue s) = Some b" "length (buf_data b) = buffer_size"
    "ptr (sys_queue s) + n_left (sys_queue s) = buffer_size"
    by (auto simp: bq_inv_defs)
  have "sys_queue s = (sys_queue s)\<lparr>active_buffer := Some b, ptr := ptr (sys_queue s), n_left := n_left (sys_queue s)\<rparr>"
    using b(1) by simp
  from publish_sound [OF assms refl True b(1) this b(3,2)] show ?thesis
    by (auto simp: True step_ok_def or_undefined_def delivered_def in_flight_def [of _ "sys_queue s"] b(1))
qed (simp add: step_ok_def)

lemma take_sound:
  assumes "bq_inv contents cap c s"
  shows "step_ok contents cap c Take s (bq_step ops junk Take s)"
  using assms buffer_size_bounds(1)
  by (cases "empty_buffers (sys_queue s)")
    (auto simp: step_ok_def flush_take_def start_buffer_def delivered_def in_flight_def bq_inv_defs)

lemma wake_sound:
  assumes "bq_inv contents cap c s"
  shows "step_ok contents cap c Wake s (bq_step ops junk Wake s)"
  using assms by (auto simp: step_ok_def ev_wait_def delivered_def in_flight_def bq_inv_defs)

lemma consume_sound:
  assumes "circular_buffer_laws ops contents cap" "bq_inv contents cap c s"
  shows "step_ok contents cap c Consume s (bq_step ops junk Consume s)"
proof (cases "\<exists>n r m b q'. consumer s = Looping n r \<and> n \<noteq> 0 \<and> cb_consume ops (ready_buffers (sys_queue s)) = Some (m, b, q')")
  case True
  then obtain n r m b q' where c: "consumer s = Looping n r" "n \<noteq> 0"
    "cb_consume ops (ready_buffers (sys_queue s)) = Some (m, b, q')" by blast
  note l = laws_consume [OF assms(1) c(3)]
  from assms(2) c(1) l have "m \<le> c" by (auto simp: bq_inv_defs)
  with assms(2) c l show ?thesis
    by (auto simp: step_ok_def consume_ready_def delivered_def in_flight_def bq_inv_defs valid_part_def)
next
  case False
  with assms show ?thesis
    by (cases "consumer s"; cases "cb_consume ops (ready_buffers (sys_queue s))")
      (auto simp: step_ok_def consume_ready_def delivered_def bq_inv_defs in_flight_def split: if_splits)
qed

lemma reader_sound:
  assumes "bq_inv contents cap c s"
  shows "step_ok contents cap c Begin_Read s (bq_step ops junk Begin_Read s)"
    and "step_ok contents cap c Give_Back s (bq_step ops junk Give_Back s)"
    and "step_ok contents cap c Notify s (bq_step ops junk Notify s)"
  using assms
  by (cases "consumer s"; auto simp: step_ok_def or_undefined_def give_back_def notify_def ev_set_def delivered_def
      in_flight_def bq_inv_defs)+

lemma finish_sound:
  assumes "bq_inv contents cap c s"
  shows "step_ok contents cap c Finish s (bq_step ops junk Finish s)"
proof (cases "\<exists>r. consumer s = Finishing r")
  case True
  then obtain r where r: "consumer s = Finishing r" by blast
  have "policy_ok c (bq_policy (sys_queue s))" using assms by (simp add: bq_inv_defs)
  from adjust_sound [OF assms this, of junk r] obtain q' where q':
    "adjust_empty_buffers junk (bq_policy (sys_queue s)) r (sys_queue s) = Some q'"
    "bq_inv contents cap c (s\<lparr>sys_queue := q'\<lparr>bq_policy := bq_policy (sys_queue s)\<rparr>\<rparr>)"
    "in_flight contents q' = in_flight contents (sys_queue s)" "bq_policy q' = bq_policy (sys_queue s)"
    by blast
  then have "bq_inv contents cap c (s\<lparr>sys_queue := q', consumer := Idle\<rparr>)"
    using r by (simp add: bq_inv_defs)
  then have "bq_inv contents cap c (s\<lparr>sys_queue := notify q', consumer := Idle\<rparr>)"
    by (simp add: notify_def ev_set_def bq_inv_defs)
  moreover have "in_flight contents (notify q') = in_flight contents q'" by (simp add: notify_def)
  ultimately show ?thesis using r q' \<open>bq_inv contents cap c (s\<lparr>sys_queue := q', consumer := Idle\<rparr>)\<close>
    by (simp add: step_ok_def or_undefined_def finish_read_def Let_def delivered_def)
qed (cases "consumer s"; simp add: step_ok_def)

lemma set_policy_sound:
  assumes "bq_inv contents cap c s" "policy_ok c p"
  shows "step_ok contents cap c (Set_Policy p) s (bq_step ops junk (Set_Policy p) s)"
proof (cases "consumer s")
  case Idle
  from adjust_sound [OF assms, of junk
      "size_sub (size_sub (allocated_buffers (sys_queue s)) (length (empty_buffers (sys_queue s)))) 1"] Idle
  show ?thesis by (auto simp: step_ok_def or_undefined_def bq_set_buffering_policy_def delivered_def)
qed (simp_all add: step_ok_def)

text \<open>
  A policy of whatever size, set while the thread is between two calls: it asks for an empty buffer past the end of the array exactly
  if it asks for more of them than the array has, and may allocate as many.
\<close>

lemma set_policy_undefined_iff:
  assumes "bq_inv contents cap c s" "producer s = Producing" "consumer s = Idle"
    and "max_buffers p < 2 ^ 62" "max_empty p \<le> max_buffers p" "min_empty p < max_buffers p"
  shows "bq_step ops junk (Set_Policy p) s = Undefined \<longleftrightarrow>
    c < min_empty p + length (contents (ready_buffers (sys_queue s))) \<and>
    c + length (contents (ready_buffers (sys_queue s))) + 1 < max_buffers p"
proof -
  let ?q = "sys_queue s" and ?n = "length (contents (ready_buffers (sys_queue s)))"
  have inv: "allocated_buffers ?q = 1 + ?n + length (empty_buffers ?q)" "allocated_buffers ?q \<le> c" "c < 2 ^ 62" "empty_capacity ?q = c"
    using assms(1-3) by (auto simp: bq_inv_defs)
  have base: "size_sub (size_sub (allocated_buffers ?q) (length (empty_buffers ?q))) 1 = ?n"
    using inv by (simp add: size_sub_small)
  have water: "size_add (max_empty p) ?n = max_empty p + ?n" "size_add (min_empty p) ?n = min_empty p + ?n"
    using inv assms(4-6) by (simp_all add: size_add_def)
  obtain bs a where sh: "shrink_empty (max_empty p + ?n) (empty_buffers ?q) (allocated_buffers ?q) = (bs, a)" by fastforce
  have bs: "length bs \<le> length (empty_buffers ?q)" "a = 1 + ?n + length bs"
    using shrink_empty_props [OF sh] inv(1) by auto
  have "grow_empty junk c (max_buffers p) (min_empty p + ?n) bs a = None \<longleftrightarrow>
      c < min_empty p + ?n \<and> c < length bs + (max_buffers p - a)"
    using bs(1) inv by (intro grow_empty_None) linarith
  also have "\<dots> \<longleftrightarrow> c < min_empty p + ?n \<and> c + ?n + 1 < max_buffers p" using bs inv by linarith
  finally show ?thesis
    by (simp add: assms(3) bq_set_buffering_policy_def adjust_empty_buffers_def base [simplified] water sh inv(4) or_undefined_def split: option.splits) (metis option.distinct(1))
qed

lemma step_sound:
  assumes "circular_buffer_laws ops contents cap" "bq_inv contents cap c s" "policies_ok c a"
  shows "step_ok contents cap c a s (bq_step ops junk a s)"
  using assms(3) push_sound [OF assms(1,2)] flush_sound [OF assms(1,2)] take_sound [OF assms(2)]
    wake_sound [OF assms(2)] consume_sound [OF assms(1,2)] reader_sound [OF assms(2)] finish_sound [OF assms(2)]
    set_policy_sound [OF assms(2)]
  by (cases a) (simp_all del: bq_step.simps)


section \<open>Runs\<close>

lemma run_sound:
  assumes "circular_buffer_laws ops contents cap"
  shows "bq_inv contents cap c s \<Longrightarrow> list_all (policies_ok c) as \<Longrightarrow>
    (case bq_run ops junk as s of Disabled \<Rightarrow> True | Undefined \<Rightarrow> False
     | Next (s', d) \<Rightarrow> bq_inv contents cap c s' \<and>
         delivered d @ in_flight contents (sys_queue s') = in_flight contents (sys_queue s) @ pushed as)"
proof (induction as arbitrary: s)
  case Nil
  then show ?case by (simp add: delivered_def)
next
  case (Cons a as)
  have pushed_Cons: "pushed (a # as) = pushed [a] @ pushed as" by (cases a) simp_all
  have ok: "step_ok contents cap c a s (bq_step ops junk a s)"
    using step_sound [OF assms Cons.prems(1)] Cons.prems(2) by simp
  show ?case
  proof (cases "bq_step ops junk a s")
    case (Next r)
    obtain s' d where r: "r = (s', d)" by fastforce
    from ok Next r have s': "bq_inv contents cap c s'"
      "delivered d @ in_flight contents (sys_queue s') = in_flight contents (sys_queue s) @ pushed [a]"
      by (simp_all add: step_ok_def)
    have split: "delivered (d @ d') @ x = in_flight contents (sys_queue s) @ pushed (a # as)"
      if "delivered d' @ x = in_flight contents (sys_queue s') @ pushed as" for d' x
    proof -
      have "delivered (d @ d') @ x = (delivered d @ in_flight contents (sys_queue s')) @ pushed as"
        using that by (simp add: delivered_def)
      then show ?thesis by (simp only: s'(2) pushed_Cons append_assoc)
    qed
    show ?thesis using Cons.IH [OF s'(1)] Cons.prems(2) Next r split
      by (auto simp: split: outcome.splits prod.splits)
  qed (use ok in \<open>simp_all add: step_ok_def\<close>)
qed

lemma make_policy_ok:
  assumes "make_policy a f g = Some p" "a < 2 ^ 64"
  shows "policy_ok (max_buffers p) p" "max_buffers p < 2 ^ 62"
proof -
  let ?mb = "max (a div buffer_size + of_bool (a mod buffer_size \<noteq> 0)) 1"
  from assms(1) have p: "p = \<lparr>max_buffers = ?mb, max_empty = max (nat \<lfloor>f * of_nat ?mb\<rfloor>) 1,
      min_empty = min (nat \<lfloor>g * of_nat ?mb\<rfloor>) (?mb - 1)\<rparr>" and f: "0 \<le> f" "f \<le> 1"
    unfolding make_policy_def Let_def by (auto split: if_splits)
  have "f * of_nat ?mb \<le> of_nat ?mb" using f by (simp add: mult_left_le_one_le)
  then have "\<lfloor>f * of_nat ?mb\<rfloor> \<le> int ?mb" by (metis floor_mono floor_of_nat)
  then have "nat \<lfloor>f * of_nat ?mb\<rfloor> \<le> ?mb" by linarith
  then show "policy_ok (max_buffers p) p" unfolding p policy_ok_def by auto
  have "a div buffer_size \<le> a div 384" by (simp add: buffer_size_def)
  also have "\<dots> < 2 ^ 61" using assms(2) by (simp add: div_less_iff_less_mult)
  finally show "max_buffers p < 2 ^ 62" unfolding p by (simp add: of_bool_def)
qed

lemma start_inv:
  assumes "circular_buffer_laws ops contents cap" "policy_ok (max_buffers p) p" "max_buffers p < 2 ^ 62"
  shows "\<exists>s. bq_start ops junk p i = Some s \<and> bq_inv contents cap (max_buffers p) s \<and>
    in_flight contents (sys_queue s) = [] \<and> bq_id (sys_queue s) = i"
proof -
  let ?q = "start_buffer (new_buffer junk)
       \<lparr>bq_id = i, ptr = 0, n_left = 0, active_buffer = None, ready_buffers = cb_new ops (max_buffers p),
        empty_buffers = [], empty_capacity = max_buffers p, allocated_buffers = 1, bq_policy = p,
        bq_continue = \<lparr>ev_state = False, ev_auto = True\<rparr>\<rparr>"
  have new: "contents (cb_new ops (max_buffers p)) = []" "cap (cb_new ops (max_buffers p)) = max_buffers p"
    using assms(1) by (auto simp: circular_buffer_laws_def)
  have "max_buffers p \<le> empty_capacity ?q" "length (empty_buffers ?q) \<le> allocated_buffers ?q"
    "allocated_buffers ?q \<le> empty_capacity ?q"
    using assms(2) by (auto simp: start_buffer_def policy_ok_def)
  from adjust_props [OF this, of junk 0] obtain bs a where adj:
    "adjust_empty_buffers junk p 0 ?q = Some (?q\<lparr>empty_buffers := bs, allocated_buffers := a\<rparr>)"
    "a = 1 + length bs" "a \<le> max_buffers p" "set bs \<subseteq> {new_buffer junk}"
    by (auto simp: start_buffer_def)
  from adj(4) have "\<forall>b\<in>set bs. length (buf_data b) = buffer_size" by (auto simp: new_buffer_def)
  with adj(1-3) new assms(2,3) buffer_size_bounds(1) show ?thesis
    by (auto simp: bq_start_def buffers_queue_init_def bq_inv_defs start_buffer_def in_flight_def)
      (auto simp: new_buffer_def)
qed


section \<open>Waking the producer\<close>

fun keeps_policy :: "'e action \<Rightarrow> bool" where
  "keeps_policy (Set_Policy p) = False"
| "keeps_policy _ = True"

lemma keeps_policy_ok: "keeps_policy a \<Longrightarrow> policies_ok c a"
  by (cases a) simp_all

definition wake_inv :: "('e, 'q) bq_system \<Rightarrow> bool" where
  "wake_inv s \<longleftrightarrow> 1 \<le> allocated_buffers (sys_queue s) \<and>
     (producer s = Waiting \<and> \<not> ev_state (bq_continue (sys_queue s)) \<longrightarrow>
        empty_buffers (sys_queue s) = [] \<or> (\<exists>n r. consumer s = Notifying n r))"

text \<open>At the end of a reading round at least one empty buffer stays, if there was one.\<close>

lemma finish_keeps_empty:
  assumes "bq_inv contents cap c s" "consumer s = Finishing r"
  shows "\<exists>bs a. adjust_empty_buffers junk (bq_policy (sys_queue s)) r (sys_queue s) =
      Some ((sys_queue s)\<lparr>empty_buffers := bs, allocated_buffers := a\<rparr>) \<and>
    (empty_buffers (sys_queue s) \<noteq> [] \<longrightarrow> bs \<noteq> []) \<and> (1 \<le> allocated_buffers (sys_queue s) \<longrightarrow> 1 \<le> a)"
proof -
  let ?q = "sys_queue s" and ?p = "bq_policy (sys_queue s)"
  have "max_buffers ?p \<le> empty_capacity ?q" "length (empty_buffers ?q) \<le> allocated_buffers ?q"
    "allocated_buffers ?q \<le> empty_capacity ?q"
    using assms by (auto simp: bq_inv_defs policy_ok_def)
  from adjust_props [OF this, of junk r] obtain bs a where adj:
    "adjust_empty_buffers junk ?p r ?q = Some (?q\<lparr>empty_buffers := bs, allocated_buffers := a\<rparr>)"
    "a + length (empty_buffers ?q) = allocated_buffers ?q + length bs"
    "min (size_add (max_empty ?p) r) (length (empty_buffers ?q)) \<le> length bs"
    by blast
  have "max_empty ?p + r < 2 ^ 64" "1 \<le> max_empty ?p" using assms by (auto simp: bq_inv_defs policy_ok_def)
  then have "1 \<le> size_add (max_empty ?p) r" by (simp add: size_add_small)
  with adj(3) have "length (empty_buffers ?q) = 0 \<or> 1 \<le> length bs" by linarith
  with adj(1,2) \<open>length (empty_buffers ?q) \<le> allocated_buffers ?q\<close> show ?thesis
    by (intro exI [of _ bs] exI [of _ a]) auto
qed

lemma step_wake_inv:
  assumes "bq_inv contents cap c s" "wake_inv s" "keeps_policy a" "bq_step ops junk a s = Next (s', d)"
  shows "wake_inv s'"
proof (cases a)
  case Finish
  with assms(4) obtain r where r: "consumer s = Finishing r" by (cases "consumer s") auto
  from finish_keeps_empty [OF assms(1) r, of junk] Finish assms(2,4) r show ?thesis
    by (auto simp: or_undefined_def finish_read_def wake_inv_def notify_def ev_set_def Let_def split: if_splits)
qed (use assms(2-4) in \<open>auto simp: wake_inv_def or_undefined_def write_current_def advance_def Let_def
    flush_publish_def flush_take_def start_buffer_def ev_wait_def consume_ready_def give_back_def notify_def ev_set_def
    split: option.splits list.splits consumer_pc.splits if_splits prod.splits\<close>)

lemma run_wake_inv:
  assumes "circular_buffer_laws ops contents cap"
  shows "bq_inv contents cap c s \<Longrightarrow> wake_inv s \<Longrightarrow> list_all keeps_policy as \<Longrightarrow>
    bq_run ops junk as s = Next (s', d) \<Longrightarrow> bq_inv contents cap c s' \<and> wake_inv s'"
proof (induction as arbitrary: s d)
  case (Cons a as)
  then obtain s1 d1 d2 where st: "bq_step ops junk a s = Next (s1, d1)" "bq_run ops junk as s1 = Next (s', d2)"
    by (auto split: outcome.splits prod.splits)
  have "bq_inv contents cap c s1"
    using step_sound [OF assms Cons.prems(1), of a junk] Cons.prems(3) st(1) by (simp add: step_ok_def keeps_policy_ok)
  moreover have "wake_inv s1" using step_wake_inv [OF Cons.prems(1,2) _ st(1)] Cons.prems(3) by simp
  ultimately show ?case using Cons.IH st(2) Cons.prems(3) by simp
qed simp

lemma release_ready:
  assumes "circular_buffer_laws ops contents cap" "bq_inv contents cap c s" "wake_inv s"
    and "producer s = Waiting" "consumer s = Idle" "empty_buffers (sys_queue s) = []"
  shows "\<exists>s' d. bq_run ops junk [Begin_Read, Consume, Give_Back, Notify, Wake, Take] s = Next (s', d) \<and>
    producer s' = Producing"
proof -
  have "contents (ready_buffers (sys_queue s)) \<noteq> []" using assms(2-6) by (auto simp: bq_inv_defs wake_inv_def)
  then obtain n b r where "cb_consume ops (ready_buffers (sys_queue s)) = Some (n, b, r)"
    using laws_consume_None [OF assms(1)] by (metis option.exhaust prod_cases3)
  moreover have "max_buffers (bq_policy (sys_queue s)) \<noteq> 0" "0 < empty_capacity (sys_queue s)"
    using assms(2) by (auto simp: bq_inv_defs policy_ok_def)
  ultimately show ?thesis using assms(4-6)
    by (simp add: consume_ready_def give_back_def or_undefined_def notify_def ev_set_def ev_wait_def flush_take_def
        start_buffer_def)
qed

text \<open>A producer waiting beside an empty buffer without a signal under way is never woken.\<close>

definition stranded :: "('e, 'q) bq_system \<Rightarrow> bool" where
  "stranded s \<longleftrightarrow> producer s = Waiting \<and> \<not> ev_state (bq_continue (sys_queue s)) \<and>
     empty_buffers (sys_queue s) \<noteq> [] \<and> (\<forall>n r. consumer s \<noteq> Notifying n r)"

text \<open>Policies under which at least one empty buffer is kept, whatever is allocated.\<close>

fun keeps_empty :: "nat \<Rightarrow> 'e action \<Rightarrow> bool" where
  "keeps_empty c (Set_Policy p) \<longleftrightarrow> policy_ok c p \<and> 2 \<le> max_empty p"
| "keeps_empty c _ \<longleftrightarrow> True"

lemma keeps_empty_ok: "keeps_empty c a \<Longrightarrow> policies_ok c a"
  by (cases a) simp_all

lemma set_policy_frame:
  assumes "bq_inv contents cap c s" "policy_ok c p" "bq_step ops junk (Set_Policy p) s = Next (s', d)"
  shows "producer s' = producer s" "consumer s' = Idle" "bq_continue (sys_queue s') = bq_continue (sys_queue s)"
    "2 \<le> max_empty p \<Longrightarrow> empty_buffers (sys_queue s) \<noteq> [] \<Longrightarrow> empty_buffers (sys_queue s') \<noteq> []"
proof -
  let ?q = "sys_queue s"
  let ?n = "size_sub (size_sub (allocated_buffers ?q) (length (empty_buffers ?q))) 1"
  from assms(3) have idle: "consumer s = Idle" by (cases "consumer s") auto
  from adjust_sound [OF assms(1,2), of junk ?n] obtain q' where q': "adjust_empty_buffers junk p ?n ?q = Some q'"
    "bq_continue q' = bq_continue ?q" "min (size_add (max_empty p) ?n) (length (empty_buffers ?q)) \<le> length (empty_buffers q')"
    by blast
  then have s': "s' = s\<lparr>sys_queue := q'\<lparr>bq_policy := p\<rparr>\<rparr>"
    using assms(3) idle by (simp add: bq_set_buffering_policy_def or_undefined_def)
  then show "producer s' = producer s" "consumer s' = Idle" "bq_continue (sys_queue s') = bq_continue ?q" using idle q'(2) by simp_all
  assume two: "2 \<le> max_empty p" and ne: "empty_buffers ?q \<noteq> []"
  have c: "length (empty_buffers ?q) \<le> allocated_buffers ?q" "allocated_buffers ?q < 2 ^ 62" "max_empty p < 2 ^ 62"
    using assms(1,2) by (auto simp: bq_inv_defs policy_ok_def)
  have "1 \<le> size_add (max_empty p) ?n"
  proof (cases "allocated_buffers ?q = length (empty_buffers ?q)")
    case True
    then have "?n = 2 ^ 64 - 1" using c by (simp add: size_sub_def)
    moreover have "max_empty p + (2 ^ 64 - 1) = (max_empty p - 1) + 2 ^ 64" using two by simp
    ultimately have "size_add (max_empty p) ?n = (max_empty p - 1) mod 2 ^ 64" by (simp only: size_add_def mod_add_self2)
    with two c(3) show ?thesis by simp
  next
    case False
    then have "?n = allocated_buffers ?q - length (empty_buffers ?q) - 1" using c by (simp add: size_sub_small)
    then show ?thesis using two c by (simp add: size_add_def)
  qed
  with q'(3) ne show "empty_buffers (sys_queue s') \<noteq> []" by (cases "empty_buffers ?q"; cases "empty_buffers q'") (auto simp: s')
qed

lemma step_stranded:
  assumes "bq_inv contents cap c s" "stranded s" "keeps_empty c a" "bq_step ops junk a s = Next (s', d)"
  shows "stranded s'"
proof (cases a)
  case (Set_Policy p)
  with set_policy_frame [OF assms(1) _ assms(4) [unfolded Set_Policy]] assms(2,3) show ?thesis by (simp add: stranded_def)
next
  case Finish
  with assms(4) obtain r where r: "consumer s = Finishing r" by (cases "consumer s") auto
  from finish_keeps_empty [OF assms(1) r, of junk] Finish assms(2,4) r show ?thesis
    by (auto simp: or_undefined_def finish_read_def stranded_def notify_def ev_set_def Let_def split: if_splits)
qed (use assms(2-4) in \<open>auto simp: stranded_def or_undefined_def ev_wait_def consume_ready_def give_back_def
    split: option.splits consumer_pc.splits if_splits prod.splits\<close>)

lemma run_stranded:
  assumes "circular_buffer_laws ops contents cap"
  shows "bq_inv contents cap c s \<Longrightarrow> stranded s \<Longrightarrow> list_all (keeps_empty c) as \<Longrightarrow>
    bq_run ops junk as s = Next (s', d) \<Longrightarrow> producer s' = Waiting"
proof (induction as arbitrary: s d)
  case Nil
  then show ?case by (simp add: stranded_def)
next
  case (Cons a as)
  then obtain s1 d1 d2 where st: "bq_step ops junk a s = Next (s1, d1)" "bq_run ops junk as s1 = Next (s', d2)"
    by (auto split: outcome.splits prod.splits)
  have "bq_inv contents cap c s1"
    using step_sound [OF assms Cons.prems(1), of a junk] Cons.prems(3) st(1) by (simp add: step_ok_def keeps_empty_ok)
  moreover have "stranded s1" using step_stranded [OF Cons.prems(1,2) _ st(1)] Cons.prems(3) by simp
  ultimately show ?case using Cons.IH st(2) Cons.prems(3) by simp
qed

section \<open>A ring of lists\<close>

text \<open>A ring that keeps the laws, on which the properties below are run.\<close>

definition list_ring :: "('b, 'b list \<times> nat) circular_ops" where
  "list_ring = \<lparr>cb_new = (\<lambda>n. ([], n)), cb_produce = (\<lambda>b q. (fst q @ [b], snd q)),
     cb_consume = (\<lambda>q. case fst q of [] \<Rightarrow> None | b # bs \<Rightarrow> Some (length (fst q), b, (bs, snd q)))\<rparr>"

lemma list_ring_laws: "circular_buffer_laws list_ring fst snd"
  by (auto simp: circular_buffer_laws_def list_ring_def split: list.splits)

lemma policy_two:
  "make_policy 768 0 0 = Some \<lparr>max_buffers = 2, max_empty = 1, min_empty = 0\<rparr>"
  "make_policy 768 1 1 = Some \<lparr>max_buffers = 2, max_empty = 2, min_empty = 1\<rparr>"
  by (simp_all add: make_policy_def buffer_size_def)

definition two_buffers :: "(nat, nat buffer list \<times> nat) bq_system" where
  "two_buffers = \<lparr>sys_queue = \<lparr>bq_id = 7, ptr = 0, n_left = buffer_size, active_buffer = Some (new_buffer 0),
     ready_buffers = ([], 2), empty_buffers = [], empty_capacity = 2, allocated_buffers = 1,
     bq_policy = \<lparr>max_buffers = 2, max_empty = 1, min_empty = 0\<rparr>,
     bq_continue = \<lparr>ev_state = False, ev_auto = True\<rparr>\<rparr>, producer = Producing, consumer = Idle\<rparr>"

lemma two_buffers_start:
  "bq_start list_ring 0 \<lparr>max_buffers = 2, max_empty = 1, min_empty = 0\<rparr> 7 = Some two_buffers"
  by (simp add: bq_start_def buffers_queue_init_def adjust_empty_buffers_def grow_empty.simps size_add_def
      list_ring_def start_buffer_def two_buffers_def)

lemmas bq_eval = or_undefined_def write_current_def advance_def flush_publish_def flush_take_def start_buffer_def
  consume_ready_def give_back_def notify_def finish_read_def ev_set_def ev_wait_def list_ring_def new_buffer_def

text \<open>One record is pushed and flushed, then read; then the producer waits.\<close>

lemma two_buffers_run:
  "\<exists>s d. bq_run list_ring 0 [Push 5, Flush, Begin_Read, Consume, Give_Back, Notify, Take] two_buffers = Next (s, d)"
  by (simp add: two_buffers_def bq_eval buffer_size_bounds(1)) (simp add: buffer_size_def)

lemma two_buffers_wait:
  "\<exists>s d. bq_run list_ring 0 [Flush, Take] two_buffers = Next (s, d) \<and> producer s = Waiting \<and> consumer s = Idle"
  by (simp add: two_buffers_def bq_eval)

section \<open>Properties\<close>

text \<open>
  C8. The queue loses, duplicates and reorders nothing: whatever way the two threads interleave, the
  records handed to the reader followed by those still in the queue are the records pushed, in order.
\<close>

theorem queue_fifo:
  assumes "circular_buffer_laws ops contents cap"
    and "make_policy a f g = Some p" "a < 2 ^ 64" "bq_start ops junk p i = Some s0"
    and "list_all (policies_ok (max_buffers p)) as" "bq_run ops junk as s0 = Next (s, d)"
  shows "delivered d @ in_flight contents (sys_queue s) = pushed as"
proof -
  note pol = make_policy_ok [OF assms(2,3)]
  from start_inv [OF assms(1) pol, of junk i] assms(4) have "bq_inv contents cap (max_buffers p) s0"
    "in_flight contents (sys_queue s0) = []" by auto
  with run_sound [OF assms(1) this(1) assms(5), of junk] assms(6) show ?thesis by simp
qed

lemma queue_fifo_witness:
  "\<exists>s d. bq_run list_ring 0 [Push 5, Flush, Begin_Read, Consume, Give_Back, Notify, Take] two_buffers = Next (s, d) \<and>
    delivered d @ in_flight fst (sys_queue s) = [5]"
proof -
  from two_buffers_run obtain s d where
    run: "bq_run list_ring 0 [Push 5, Flush, Begin_Read, Consume, Give_Back, Notify, Take] two_buffers = Next (s, d)"
    by blast
  have "delivered d @ in_flight fst (sys_queue s) =
      pushed [Push 5, Flush, Begin_Read, Consume, Give_Back, Notify, Take]"
    by (rule queue_fifo [OF list_ring_laws policy_two(1) _ two_buffers_start _ run]) simp_all
  with run show ?thesis by auto
qed

text \<open>
  C9. While no policy that is set has more buffers than the one the queue was made with, the queue never touches memory it does not own:
  no interleaving of the two threads writes past the active buffer or past the array of empty buffers, and every buffer
  allocated is accounted for, at most \<^verbatim>\<open>max_buffers\<close> of them. The array does not grow with the policy: where a larger policy is
  set at last, with neither thread inside another call, the queue writes past its end exactly if the policy asks for more empty buffers, beside those that are ready, than the queue
  was made for and lets it allocate that many.
\<close>

theorem queue_stays_in_bounds:
  assumes "circular_buffer_laws ops contents cap"
    and "make_policy a f g = Some p" "a < 2 ^ 64" "bq_start ops junk p i = Some s0"
    and "list_all (policies_ok (max_buffers p)) as"
  shows "bq_run ops junk as s0 \<noteq> Undefined \<and>
    (\<forall>s d. bq_run ops junk as s0 = Next (s, d) \<longrightarrow>
       allocated_buffers (sys_queue s) = length (all_buffers contents s) \<and>
       allocated_buffers (sys_queue s) \<le> max_buffers p \<and>
       (\<forall>a' f' g' p'. make_policy a' f' g' = Some p' \<and> a' < 2 ^ 64 \<and> producer s = Producing \<and> consumer s = Idle \<longrightarrow>
          (bq_step ops junk (Set_Policy p') s = Undefined \<longleftrightarrow>
             max_buffers p < min_empty p' + length (contents (ready_buffers (sys_queue s))) \<and>
             max_buffers p + length (contents (ready_buffers (sys_queue s))) + 1 < max_buffers p')))"
proof -
  note pol = make_policy_ok [OF assms(2,3)]
  from start_inv [OF assms(1) pol, of junk i] assms(4) have "bq_inv contents cap (max_buffers p) s0" by auto
  note run = run_sound [OF assms(1) this assms(5), of junk]
  have inv: "bq_inv contents cap (max_buffers p) s" if "bq_run ops junk as s0 = Next (s, d)" for s d using run that by simp
  have pol: "bq_step ops junk (Set_Policy p') s = Undefined \<longleftrightarrow>
      max_buffers p < min_empty p' + length (contents (ready_buffers (sys_queue s))) \<and>
      max_buffers p + length (contents (ready_buffers (sys_queue s))) + 1 < max_buffers p'"
    if "bq_run ops junk as s0 = Next (s, d)" "make_policy a' f' g' = Some p'" "a' < 2 ^ 64" "producer s = Producing" "consumer s = Idle"
    for s d a' f' g' p'
    using make_policy_ok [OF that(2,3)] by (intro set_policy_undefined_iff [OF inv [OF that(1)] that(4,5)]) (simp_all add: policy_ok_def)
  have count: "allocated_buffers (sys_queue s) = length (all_buffers contents s) \<and> allocated_buffers (sys_queue s) \<le> max_buffers p"
    if "bq_run ops junk as s0 = Next (s, d)" for s d using inv [OF that] by (simp add: bq_inv_def Let_def)
  from run have "bq_run ops junk as s0 \<noteq> Undefined" by auto
  with pol count show ?thesis by blast
qed

lemma policy_six: "make_policy 2304 1 1 = Some \<lparr>max_buffers = 6, max_empty = 6, min_empty = 5\<rparr>"
  by (simp add: make_policy_def buffer_size_def)

lemma queue_stays_in_bounds_witness:
  "\<exists>s d. bq_run list_ring 0 [Push 5, Flush, Begin_Read, Consume, Give_Back, Notify, Take] two_buffers = Next (s, d) \<and>
    allocated_buffers (sys_queue s) = length (all_buffers fst s) \<and> allocated_buffers (sys_queue s) \<le> 2 \<and>
    bq_step list_ring 0 (Set_Policy \<lparr>max_buffers = 6, max_empty = 6, min_empty = 5\<rparr>) two_buffers = Undefined"
proof -
  from two_buffers_run obtain s d where
    "bq_run list_ring 0 [Push 5, Flush, Begin_Read, Consume, Give_Back, Notify, Take] two_buffers = Next (s, d)"
    by blast
  moreover from this queue_stays_in_bounds [OF list_ring_laws policy_two(1) _ two_buffers_start,
      of "[Push 5, Flush, Begin_Read, Consume, Give_Back, Notify, Take]"]
  have "allocated_buffers (sys_queue s) = length (all_buffers fst s) \<and> allocated_buffers (sys_queue s) \<le> 2"
    by (simp del: bq_run.simps bq_step.simps)
  moreover have "bq_step list_ring 0 (Set_Policy \<lparr>max_buffers = 6, max_empty = 6, min_empty = 5\<rparr>) two_buffers = Undefined"
  proof -
    have "(768::nat) < 2 ^ 64" "list_all (policies_ok (max_buffers \<lparr>max_buffers = 2, max_empty = 1, min_empty = 0\<rparr>)) ([] :: nat action list)"
      "bq_run list_ring 0 [] two_buffers = Next (two_buffers, [])" by simp_all
    note q = queue_stays_in_bounds [OF list_ring_laws policy_two(1) this(1) two_buffers_start this(2), THEN conjunct2, rule_format,
        OF this(3), THEN conjunct2, THEN conjunct2, rule_format, of 2304 1 1]
    show ?thesis by (rule iffD2 [OF q]) (simp_all add: policy_six two_buffers_def)
  qed
  ultimately show ?thesis by blast
qed

text \<open>
  No wake-up is lost: in any state the threads reach while the policy stays as it is, a producer
  that waits for an empty buffer goes on either at once or after the reader has taken one buffer in
  its next round.
\<close>

theorem waiting_producer_is_released:
  assumes "circular_buffer_laws ops contents cap"
    and "make_policy a f g = Some p" "a < 2 ^ 64" "bq_start ops junk p i = Some s0"
    and "list_all keeps_policy as" "bq_run ops junk as s0 = Next (s, d)"
    and "producer s = Waiting" "consumer s = Idle"
  shows "\<exists>reading s' d'. reading \<in> {[], [Begin_Read, Consume, Give_Back, Notify]} \<and>
    bq_run ops junk (reading @ [Wake, Take]) s = Next (s', d') \<and> producer s' = Producing"
proof -
  note pol = make_policy_ok [OF assms(2,3)]
  from start_inv [OF assms(1) pol, of junk i] assms(4) have s0: "bq_inv contents cap (max_buffers p) s0" by auto
  have "wake_inv s0" using s0 assms(4) by (auto simp: wake_inv_def bq_start_def bq_inv_defs)
  from run_wake_inv [OF assms(1) s0 this assms(5,6)] have inv: "bq_inv contents cap (max_buffers p) s" "wake_inv s"
    by auto
  show ?thesis
  proof (cases "empty_buffers (sys_queue s)")
    case Nil
    from release_ready [OF assms(1) inv assms(7,8) Nil, of junk] show ?thesis
      by (intro exI [of _ "[Begin_Read, Consume, Give_Back, Notify]"]) auto
  next
    case (Cons b bs)
    with inv(2) assms(7,8) have "ev_state (bq_continue (sys_queue s))" by (auto simp: wake_inv_def)
    with Cons assms(7) show ?thesis
      by (intro exI [of _ "[]"]) (simp add: ev_wait_def flush_take_def start_buffer_def)
  qed
qed

lemma waiting_producer_is_released_witness:
  "\<exists>s d reading s' d'. bq_run list_ring 0 [Flush, Take] two_buffers = Next (s, d) \<and> producer s = Waiting \<and>
    bq_run list_ring 0 (reading @ [Wake, Take]) s = Next (s', d') \<and> producer s' = Producing"
proof -
  from two_buffers_wait obtain s d where run: "bq_run list_ring 0 [Flush, Take] two_buffers = Next (s, d)"
    and "producer s = Waiting" "consumer s = Idle" by blast
  with waiting_producer_is_released [OF list_ring_laws policy_two(1) _ two_buffers_start _ run] obtain reading s' d'
    where "bq_run list_ring 0 (reading @ [Wake, Take]) s = Next (s', d')" "producer s' = Producing"
    by (auto simp del: bq_run.simps)
  with run \<open>producer s = Waiting\<close> show ?thesis by blast
qed

text \<open>
  C29. \<^verbatim>\<open>set_buffering_policy\<close> can strand the producer for good: in whatever state the threads reach, when it makes an empty buffer
  while the producer waits for one and has not been signalled, nobody signals the event, neither then nor in any later reading
  round, and whatever the two threads do the producer goes on waiting. Policies may change too, if they have room for two empty buffers.
\<close>

theorem policy_change_strands_producer:
  assumes "circular_buffer_laws ops contents cap"
    and "make_policy a f g = Some p" "a < 2 ^ 64" "bq_start ops junk p i = Some s0"
    and "list_all (policies_ok (max_buffers p)) as" "bq_run ops junk as s0 = Next (s, d)"
    and "producer s = Waiting" "\<not> ev_state (bq_continue (sys_queue s))"
    and "policy_ok (max_buffers p) p'" "bq_step ops junk (Set_Policy p') s = Next (s', d')" "empty_buffers (sys_queue s') \<noteq> []"
    and "list_all (keeps_empty (max_buffers p)) bs" "bq_run ops junk bs s' = Next (s'', d'')"
  shows "producer s'' = Waiting"
proof -
  note pol = make_policy_ok [OF assms(2,3)]
  from start_inv [OF assms(1) pol, of junk i] assms(4) have "bq_inv contents cap (max_buffers p) s0" by auto
  from run_sound [OF assms(1) this assms(5), of junk] assms(6) have inv: "bq_inv contents cap (max_buffers p) s" by simp
  from step_sound [OF assms(1) inv, of "Set_Policy p'" junk] assms(9,10) have "bq_inv contents cap (max_buffers p) s'"
    by (simp add: step_ok_def del: bq_step.simps)
  moreover have "stranded s'" using set_policy_frame(1-3) [OF inv assms(9,10)] assms(7,8,11) by (simp add: stranded_def)
  ultimately show ?thesis using run_stranded [OF assms(1) _ _ assms(12,13)] by blast
qed

lemma policy_change_strands_producer_witness:
  "\<exists>s d s' d' s'' d''. bq_run list_ring 0 [Flush, Take] two_buffers = Next (s, d) \<and>
    bq_step list_ring 0 (Set_Policy \<lparr>max_buffers = 2, max_empty = 2, min_empty = 1\<rparr>) s = Next (s', d') \<and>
    bq_run list_ring 0 [Begin_Read, Consume, Give_Back] s' = Next (s'', d'') \<and> producer s'' = Waiting"
proof -
  let ?p = "\<lparr>max_buffers = 2, max_empty = 2, min_empty = 1\<rparr>"
  have "\<exists>s d s' d' s'' d''. bq_run list_ring 0 [Flush, Take] two_buffers = Next (s, d) \<and>
      producer s = Waiting \<and> \<not> ev_state (bq_continue (sys_queue s)) \<and> empty_buffers (sys_queue s') \<noteq> [] \<and>
      bq_step list_ring 0 (Set_Policy ?p) s = Next (s', d') \<and> bq_run list_ring 0 [Begin_Read, Consume, Give_Back] s' = Next (s'', d'')"
    by (simp add: two_buffers_def bq_eval bq_set_buffering_policy_def adjust_empty_buffers_def grow_empty.simps
        size_add_def size_sub_def)
  then obtain s d s' d' s'' d'' where run: "bq_run list_ring 0 [Flush, Take] two_buffers = Next (s, d)"
    "producer s = Waiting" "\<not> ev_state (bq_continue (sys_queue s))" "empty_buffers (sys_queue s') \<noteq> []"
    "bq_step list_ring 0 (Set_Policy ?p) s = Next (s', d')" "bq_run list_ring 0 [Begin_Read, Consume, Give_Back] s' = Next (s'', d'')" by blast
  have "producer s'' = Waiting"
    by (rule policy_change_strands_producer [OF list_ring_laws policy_two(1) _ two_buffers_start _ run(1-3) _ run(5,4) _ run(6)])
      (simp_all add: policy_ok_def)
  with run show ?thesis by blast
qed

end
