(* ===== verification/Primitives.thy ===== *)
theory Primitives
  imports Prelude
begin

text \<open>
  The value types shared by the collector and the frontend: \<^verbatim>\<open>function_statistics\<close> of
  \<^verbatim>\<open>common/primitives.h\<close>, \<^verbatim>\<open>overhead\<close> of \<^verbatim>\<open>common/types.h\<close> and
  the trace records of \<^verbatim>\<open>collector/types.h\<close>.

  \<^verbatim>\<open>timestamp_t\<close> is a signed 64-bit integer whose overflow is undefined in C++; it is
  modelled by \<^typ>\<open>int\<close>, which agrees with it on every execution the language defines.
  \<^verbatim>\<open>count_t\<close> is unsigned and wraps, so it is \<^typ>\<open>u64\<close>.
\<close>

type_synonym timestamp_t = int
type_synonym count_t = u64

record function_statistics =
  times_called :: count_t
  inclusive_time :: timestamp_t
  exclusive_time :: timestamp_t
  max_call_time :: timestamp_t

definition function_statistics_init :: function_statistics where
  "function_statistics_init =
     \<lparr>times_called = 0, inclusive_time = 0, exclusive_time = 0, max_call_time = 0\<rparr>"

text \<open>\<^verbatim>\<open>add(function_statistics &, timestamp_t, timestamp_t)\<close>: one more completed call.\<close>

definition add_call :: "function_statistics \<Rightarrow> timestamp_t \<Rightarrow> timestamp_t \<Rightarrow> function_statistics" where
  "add_call lhs rhs_inclusive_time rhs_exclusive_time =
     \<lparr>times_called = times_called lhs + 1,
      inclusive_time = inclusive_time lhs + rhs_inclusive_time,
      exclusive_time = exclusive_time lhs + rhs_exclusive_time,
      max_call_time = (if rhs_inclusive_time > max_call_time lhs then rhs_inclusive_time
                       else max_call_time lhs)\<rparr>"

text \<open>\<^verbatim>\<open>add(function_statistics &, const function_statistics &)\<close>: merge two statistics.\<close>

definition add_stats :: "function_statistics \<Rightarrow> function_statistics \<Rightarrow> function_statistics" where
  "add_stats lhs rhs =
     \<lparr>times_called = times_called lhs + times_called rhs,
      inclusive_time = inclusive_time lhs + inclusive_time rhs,
      exclusive_time = exclusive_time lhs + exclusive_time rhs,
      max_call_time = (if max_call_time rhs > max_call_time lhs then max_call_time rhs
                       else max_call_time lhs)\<rparr>"

record overhead =
  inner :: timestamp_t
  outer :: timestamp_t

text \<open>
  A trace record. The callee is a pointer, null marks the exit of the innermost open function;
  \<^const>\<open>None\<close> stands for null.
\<close>

record 'k call_record =
  timestamp :: timestamp_t
  callee :: "'k option"

record return_entry =
  stack_ptr :: u64
  return_address :: u64

lemma add_call_sel [simp]:
  "times_called (add_call s i e) = times_called s + 1"
  "inclusive_time (add_call s i e) = inclusive_time s + i"
  "exclusive_time (add_call s i e) = exclusive_time s + e"
  "max_call_time (add_call s i e) = max (max_call_time s) i"
  by (simp_all add: add_call_def max_def)

lemma add_stats_sel [simp]:
  "times_called (add_stats s t) = times_called s + times_called t"
  "inclusive_time (add_stats s t) = inclusive_time s + inclusive_time t"
  "exclusive_time (add_stats s t) = exclusive_time s + exclusive_time t"
  "max_call_time (add_stats s t) = max (max_call_time s) (max_call_time t)"
  by (simp_all add: add_stats_def max_def)

lemma init_sel [simp]:
  "times_called function_statistics_init = 0" "inclusive_time function_statistics_init = 0"
  "exclusive_time function_statistics_init = 0" "max_call_time function_statistics_init = 0"
  by (simp_all add: function_statistics_init_def)

lemma statistics_eqI:
  fixes s t :: function_statistics
  assumes "times_called s = times_called t" "inclusive_time s = inclusive_time t"
    and "exclusive_time s = exclusive_time t" "max_call_time s = max_call_time t"
  shows "s = t"
  using assms by simp

text \<open>
  Merging and recording commute, so that statistics recorded into a fresh node can be merged later:
  the frontend merges what the collector sends in portions.
\<close>

lemma add_stats_add_call: "add_stats s (add_call t i e) = add_call (add_stats s t) i e"
  by (rule statistics_eqI) simp_all

lemma add_stats_assoc: "add_stats (add_stats s t) u = add_stats s (add_stats t u)"
  by (rule statistics_eqI) simp_all

lemma add_stats_init: "0 \<le> max_call_time s \<Longrightarrow> add_stats s function_statistics_init = s"
  by (rule statistics_eqI) simp_all

end
