(* ===== verification/Shadow_Stack.thy ===== *)
theory Shadow_Stack
  imports Primitives
begin

text \<open>
  The call graph of \<^verbatim>\<open>collector/primitives.h\<close> and the shadow stack of
  \<^verbatim>\<open>collector/shadow_stack.h\<close>, which turns a trace of enter and exit records into a
  tree of function statistics.

  A stack record of the source holds two pointers into the tree, \<^verbatim>\<open>function\<close> and
  \<^verbatim>\<open>callees\<close>. A pointer is modelled by the path of callees from the root to the node it
  points at; the empty path is the bottom record, whose \<^verbatim>\<open>function\<close> is the local
  \<^verbatim>\<open>root\<close> of \<^verbatim>\<open>update\<close> and whose \<^verbatim>\<open>callees\<close> is the statistics
  map passed in. Nodes of an unordered map do not move, so a path keeps naming the node a pointer
  was taken from. The stack is a list with \<^verbatim>\<open>back()\<close> at its head.

  Following a pointer to a missing node and popping the bottom record are undefined behaviour in
  the source; the model returns \<^const>\<open>None\<close> there.
\<close>

section \<open>The call graph\<close>

datatype 'k call_graph_node =
  Node (node_stats: function_statistics) (node_callees: "('k \<times> 'k call_graph_node) list")

type_synonym 'k nodes_map = "('k, 'k call_graph_node) umap"

definition call_graph_node_init :: "'k call_graph_node" where
  "call_graph_node_init = Node function_statistics_init []"

fun node_at :: "'k list \<Rightarrow> 'k call_graph_node \<Rightarrow> 'k call_graph_node option" where
  "node_at [] n = Some n"
| "node_at (k # p) n = (case um_find (node_callees n) k of None \<Rightarrow> None | Some c \<Rightarrow> node_at p c)"

fun upd_at ::
  "'k list \<Rightarrow> ('k call_graph_node \<Rightarrow> 'k call_graph_node) \<Rightarrow> 'k call_graph_node \<Rightarrow> 'k call_graph_node" where
  "upd_at [] f n = f n"
| "upd_at (k # p) f n =
     (case um_find (node_callees n) k of None \<Rightarrow> n
      | Some c \<Rightarrow> Node (node_stats n) (um_assign k (upd_at p f c) (node_callees n)))"

text \<open>A write through a \<^verbatim>\<open>function\<close> pointer changes the statistics part of a node.\<close>

definition on_stats :: "(function_statistics \<Rightarrow> function_statistics) \<Rightarrow> 'k call_graph_node \<Rightarrow> 'k call_graph_node" where
  "on_stats g n = Node (g (node_stats n)) (node_callees n)"

section \<open>The stack\<close>

record 'k stack_record =
  sr_callee :: "'k option"
  enter_at :: timestamp_t
  children_time_observed :: timestamp_t
  children_overhead :: timestamp_t
  sr_function :: "'k list"
  sr_callees :: "'k list"

record 'k shadow_stack =
  inner_overhead :: timestamp_t
  total_overhead :: timestamp_t
  stack :: "'k stack_record list"

text \<open>
  \<^verbatim>\<open>_stack.push_back()\<close> leaves the bottom record uninitialised. Its callee is never
  read; its times are read by an unbalanced exit only, which the model excludes, and accumulated
  into without being reported, so any initial value is as good as another.
\<close>

definition bottom_record :: "'k stack_record" where
  "bottom_record = \<lparr>sr_callee = None, enter_at = 0, children_time_observed = 0, children_overhead = 0,
     sr_function = [], sr_callees = []\<rparr>"

definition shadow_stack_init :: "overhead \<Rightarrow> 'k shadow_stack" where
  "shadow_stack_init ov = \<lparr>inner_overhead = inner ov, total_overhead = inner ov + outer ov,
     stack = [bottom_record]\<rparr>"

text \<open>\<^verbatim>\<open>get\<close> and \<^verbatim>\<open>get_slow\<close>: find the callee or insert a fresh node.\<close>

definition get_node :: "'k \<Rightarrow> 'k call_graph_node \<Rightarrow> 'k call_graph_node" where
  "get_node k n = Node (node_stats n)
     (case um_find (node_callees n) k of
        Some _ \<Rightarrow> node_callees n
      | None \<Rightarrow> um_insert k call_graph_node_init (node_callees n))"

definition ss_enter ::
  "'k stack_record list \<Rightarrow> 'k \<Rightarrow> timestamp_t \<Rightarrow> 'k call_graph_node
   \<Rightarrow> ('k stack_record list \<times> 'k call_graph_node) option" where
  "ss_enter s k t tree =
     (case s of [] \<Rightarrow> None
      | previous # rest \<Rightarrow>
        (case node_at (sr_callees previous) tree of None \<Rightarrow> None
         | Some _ \<Rightarrow>
           let in_previous = sr_callees previous @ [k];
               current = \<lparr>sr_callee = Some k, enter_at = t, children_time_observed = 0,
                 children_overhead = 0, sr_function = in_previous, sr_callees = in_previous\<rparr>
           in Some (current # s, upd_at (sr_callees previous) (get_node k) tree)))"

definition ss_exit ::
  "timestamp_t \<Rightarrow> timestamp_t \<Rightarrow> 'k stack_record list \<Rightarrow> timestamp_t \<Rightarrow> 'k call_graph_node
   \<Rightarrow> ('k stack_record list \<times> 'k call_graph_node) option" where
  "ss_exit inner_ov total_ov s t tree =
     (case s of
        current # parent # rest \<Rightarrow>
          (case node_at (sr_function current) tree of None \<Rightarrow> None
           | Some _ \<Rightarrow>
             let inclusive_time_observed = (t - enter_at current) - inner_ov;
                 co = children_overhead current;
                 inclusive = inclusive_time_observed - co;
                 exclusive = inclusive_time_observed - children_time_observed current;
                 tree' = upd_at (sr_function current) (on_stats (\<lambda>f. add_call f inclusive exclusive)) tree;
                 parent' = parent\<lparr>
                   children_time_observed := children_time_observed parent + (inclusive_time_observed + total_ov),
                   children_overhead := children_overhead parent + (total_ov + co)\<rparr>
             in Some (parent' # rest, tree'))
      | _ \<Rightarrow> None)"

definition ss_record ::
  "timestamp_t \<Rightarrow> timestamp_t \<Rightarrow> 'k call_record \<Rightarrow> 'k stack_record list \<times> 'k call_graph_node
   \<Rightarrow> ('k stack_record list \<times> 'k call_graph_node) option" where
  "ss_record inner_ov total_ov r st =
     (case callee r of
        Some k \<Rightarrow> ss_enter (fst st) k (timestamp r) (snd st)
      | None \<Rightarrow> ss_exit inner_ov total_ov (fst st) (timestamp r) (snd st))"

fun ss_run ::
  "timestamp_t \<Rightarrow> timestamp_t \<Rightarrow> 'k call_record list \<Rightarrow> 'k stack_record list \<times> 'k call_graph_node
   \<Rightarrow> ('k stack_record list \<times> 'k call_graph_node) option" where
  "ss_run io tot [] st = Some st"
| "ss_run io tot (r # rs) st =
     (case ss_record io tot r st of None \<Rightarrow> None | Some st' \<Rightarrow> ss_run io tot rs st')"

text \<open>
  \<^verbatim>\<open>reset_stack\<close>: the pointers of every record are taken anew from the bottom up, and the
  nodes of the open calls are created where the map lacks them. The argument is the part of the
  stack from \<^verbatim>\<open>begin()\<close> on, \<open>path\<close> the \<^verbatim>\<open>callees\<close> pointer of the
  previous record.
\<close>

fun reset_above ::
  "'k list \<Rightarrow> 'k stack_record list \<Rightarrow> 'k call_graph_node \<Rightarrow> 'k stack_record list \<times> 'k call_graph_node" where
  "reset_above path [] tree = ([], tree)"
| "reset_above path (i # is) tree =
     (case sr_callee i of
        None \<Rightarrow> (i # is, tree)
      | Some k \<Rightarrow>
          let p = path @ [k];
              tree' = upd_at path (get_node k) tree;
              (is', tree'') = reset_above p is tree'
          in (i\<lparr>sr_function := p, sr_callees := p\<rparr> # is', tree''))"

definition reset_stack ::
  "'k stack_record list \<Rightarrow> 'k call_graph_node \<Rightarrow> 'k stack_record list \<times> 'k call_graph_node" where
  "reset_stack s tree =
     (case rev s of [] \<Rightarrow> ([], tree)
      | i # is \<Rightarrow>
          let (is', tree') = reset_above [] is tree
          in (rev (i\<lparr>sr_function := [], sr_callees := []\<rparr> # is'), tree'))"

text \<open>\<^verbatim>\<open>update\<close>: the local \<^verbatim>\<open>root\<close> and the map make up the tree walked.\<close>

definition update ::
  "'k shadow_stack \<Rightarrow> 'k call_record list \<Rightarrow> 'k nodes_map \<Rightarrow> ('k shadow_stack \<times> 'k nodes_map) option" where
  "update ss trace statistics =
     (case ss_run (inner_overhead ss) (total_overhead ss) trace
             (reset_stack (stack ss) (Node function_statistics_init statistics)) of
        None \<Rightarrow> None
      | Some (s, tree) \<Rightarrow> Some (ss\<lparr>stack := s\<rparr>, node_callees tree))"


section \<open>Paths and updates in the tree\<close>

definition stats_at :: "'k list \<Rightarrow> 'k call_graph_node \<Rightarrow> function_statistics option" where
  "stats_at p t = map_option node_stats (node_at p t)"

text \<open>The inclusive times of the direct callees of a node, added up.\<close>

definition callees_inclusive :: "'k call_graph_node \<Rightarrow> timestamp_t" where
  "callees_inclusive n = sum_list (map (\<lambda>kv. inclusive_time (node_stats (snd kv))) (node_callees n))"

definition callees_inclusive_at :: "'k list \<Rightarrow> 'k call_graph_node \<Rightarrow> timestamp_t option" where
  "callees_inclusive_at p t = map_option callees_inclusive (node_at p t)"

lemma node_at_append: "node_at (p @ q) t = Option.bind (node_at p t) (node_at q)"
  by (induction p arbitrary: t) (auto split: option.splits)

lemma node_at_upd_at_same: "node_at p (upd_at p f t) = map_option f (node_at p t)"
  by (induction p arbitrary: t) (auto simp: dict_simps split: option.splits)

lemma node_at_upd_at_below:
  "node_at (p @ q) (upd_at p f t) = Option.bind (node_at p t) (\<lambda>n. node_at q (f n))"
  by (simp add: node_at_append node_at_upd_at_same bind_map_option comp_def)

lemma upd_at_upd_at: "upd_at p f (upd_at p g t) = upd_at p (f \<circ> g) t"
  by (induction p arbitrary: t) (auto simp: dict_simps um_assign_assign split: option.splits)

lemma upd_at_comp: "upd_at p f \<circ> (upd_at p g \<circ> h) = upd_at p (f \<circ> g) \<circ> h"
  by (simp add: fun_eq_iff upd_at_upd_at del: upd_at.simps)

lemma upd_at_append: "upd_at (p @ q) f t = upd_at p (upd_at q f) t"
  by (induction p arbitrary: t) (auto split: option.splits)

lemma upd_at_cong: "node_at p t = Some n \<Longrightarrow> f n = g n \<Longrightarrow> upd_at p f t = upd_at p g t"
  by (induction p arbitrary: t) (auto split: option.splits)

lemma upd_at_ident: "node_at p t = Some n \<Longrightarrow> f n = n \<Longrightarrow> upd_at p f t = t"
  by (induction p arbitrary: t) (auto simp: um_assign_same split: option.splits)

lemma node_stats_upd_at: "p \<noteq> [] \<Longrightarrow> node_stats (upd_at p f t) = node_stats t"
  by (cases p) (auto split: option.splits)

lemma stats_at_simps [simp]:
  "stats_at [] t = Some (node_stats t)"
  "stats_at (k # p) t = Option.bind (um_find (node_callees t) k) (stats_at p)"
  by (auto simp: stats_at_def split: option.splits)

lemma callees_inclusive_at_simps [simp]:
  "callees_inclusive_at [] t = Some (callees_inclusive t)"
  "callees_inclusive_at (k # p) t = Option.bind (um_find (node_callees t) k) (callees_inclusive_at p)"
  by (auto simp: callees_inclusive_at_def split: option.splits)

lemma stats_at_None_iff: "stats_at p t = None \<longleftrightarrow> node_at p t = None"
  by (simp add: stats_at_def)

lemma callees_inclusive_assign:
  "callees_inclusive (Node s (um_assign k c m)) = callees_inclusive (Node s' m) + inclusive_time (node_stats c)
     - (case um_find m k of None \<Rightarrow> 0 | Some c' \<Rightarrow> inclusive_time (node_stats c'))"
  unfolding callees_inclusive_def
  by (simp add: sum_list_assign [where f = "\<lambda>c. inclusive_time (node_stats c)"])

text \<open>Recording a call at a node changes that node's statistics and its parent's sum, nothing else.\<close>

lemma on_stats_sel [simp]:
  "node_stats (on_stats g n) = g (node_stats n)" "node_callees (on_stats g n) = node_callees n"
  by (simp_all add: on_stats_def)

lemma stats_at_on_stats:
  "stats_at q (upd_at p (on_stats g) t) = (if q = p then map_option g (stats_at q t) else stats_at q t)"
proof (induction p arbitrary: q t)
  case Nil
  then show ?case by (cases q) auto
next
  case (Cons k p)
  then show ?case by (cases q) (auto simp: dict_simps split: option.splits)
qed

lemma callees_inclusive_at_on_stats:
  assumes "stats_at p t = Some s"
  shows "callees_inclusive_at q (upd_at p (on_stats g) t) =
    map_option (\<lambda>v. if p \<noteq> [] \<and> q = butlast p then v + (inclusive_time (g s) - inclusive_time s) else v)
      (callees_inclusive_at q t)"
  using assms
proof (induction p arbitrary: q t)
  case Nil
  then show ?case by (cases q) (auto simp: callees_inclusive_def option.map_ident)
next
  case (Cons k p)
  then obtain c where c: "um_find (node_callees t) k = Some c" "stats_at p c = Some s"
    by (auto simp: bind_eq_Some_conv)
  show ?case
  proof (cases q)
    case Nil
    have "p \<noteq> [] \<Longrightarrow> node_stats (upd_at p (on_stats g) c) = node_stats c"
      by (rule node_stats_upd_at)
    with c Nil show ?thesis
      by (cases "p = []") (auto simp: callees_inclusive_assign [where s' = "node_stats t"])
  next
    case (Cons k' q')
    with c Cons.IH [OF c(2), of q'] show ?thesis
      by (auto simp: dict_simps option.map_ident split: option.splits)
  qed
qed

text \<open>Finding or inserting a callee changes nothing but the presence of a fresh node.\<close>

lemma get_node_sel [simp]: "node_stats (get_node k n) = node_stats n"
  by (simp add: get_node_def)

lemma find_get_node:
  "um_find (node_callees (get_node k n)) k' =
    (if k' = k \<and> um_find (node_callees n) k = None then Some call_graph_node_init else um_find (node_callees n) k')"
  by (auto simp: get_node_def dict_simps split: option.splits)

lemma get_node_present: "um_find (node_callees n) k = Some c \<Longrightarrow> get_node k n = n"
  by (cases n) (simp add: get_node_def)

lemma callees_inclusive_get_node: "callees_inclusive (get_node k n) = callees_inclusive n"
  by (cases n)
    (auto simp: get_node_def um_insert_def callees_inclusive_assign [where s' = "node_stats n"]
      call_graph_node_init_def split: option.splits)

lemma stats_at_init:
  "stats_at q call_graph_node_init = (if q = [] then Some function_statistics_init else None)"
  by (cases q) (auto simp: call_graph_node_init_def)

lemma callees_inclusive_at_init:
  "callees_inclusive_at q call_graph_node_init = (if q = [] then Some 0 else None)"
  by (cases q) (auto simp: call_graph_node_init_def callees_inclusive_def)

lemma stats_at_get_node:
  "stats_at q (upd_at p (get_node k) t) =
    (if q = p @ [k] \<and> node_at p t \<noteq> None \<and> stats_at q t = None then Some function_statistics_init
     else stats_at q t)"
proof (induction p arbitrary: q t)
  case Nil
  show ?case
    by (cases q) (auto simp: find_get_node stats_at_init split: option.splits)
next
  case (Cons k p)
  then show ?case by (cases q) (auto simp: dict_simps split: option.splits)
qed

lemma callees_inclusive_at_get_node:
  "callees_inclusive_at q (upd_at p (get_node k) t) =
    (if q = p @ [k] \<and> node_at p t \<noteq> None \<and> node_at q t = None then Some 0 else callees_inclusive_at q t)"
proof (induction p arbitrary: q t)
  case Nil
  show ?case
    by (cases q)
      (auto simp: find_get_node callees_inclusive_at_init callees_inclusive_get_node split: option.splits)
next
  case (Cons k' p)
  show ?case
  proof (cases q)
    case Nil
    then show ?thesis
    proof (cases "um_find (node_callees t) k'")
      case (Some c)
      have "node_stats (upd_at p (get_node k) c) = node_stats c"
        by (cases "p = []") (auto simp: node_stats_upd_at)
      with Some Nil show ?thesis
        by (auto simp: callees_inclusive_assign [where s' = "node_stats t"])
    qed auto
  next
    case (Cons k'' q')
    with Cons.IH show ?thesis by (auto simp: dict_simps split: option.splits)
  qed
qed


section \<open>Well-formed stacks\<close>

text \<open>
  Every record above the bottom one was pushed by \<^verbatim>\<open>enter\<close>: its pointers name the node
  of its callee under the record below it, and that node exists.
\<close>

fun linked :: "'k stack_record list \<Rightarrow> bool" where
  "linked [] = False"
| "linked [b] = (sr_function b = [] \<and> sr_callees b = [])"
| "linked (r # p # s) = ((\<exists>k. sr_callee r = Some k \<and> sr_function r = sr_function p @ [k]) \<and>
     sr_callees r = sr_function r \<and> linked (p # s))"

definition has_node :: "'k list \<Rightarrow> 'k call_graph_node \<Rightarrow> bool" where
  "has_node p t \<longleftrightarrow> node_at p t \<noteq> None"

lemma has_node_stats: "has_node p t \<longleftrightarrow> stats_at p t \<noteq> None"
  by (simp add: has_node_def stats_at_def)

lemma has_node_upd [simp]:
  "has_node p (upd_at q (on_stats g) t) \<longleftrightarrow> has_node p t"
  "has_node p (upd_at q (get_node k) t) \<longleftrightarrow> has_node p t \<or> (p = q @ [k] \<and> has_node q t)"
  unfolding has_node_stats by (auto simp: stats_at_get_node stats_at_on_stats simp flip: stats_at_None_iff)

definition present :: "'k stack_record list \<Rightarrow> 'k call_graph_node \<Rightarrow> bool" where
  "present s tree \<longleftrightarrow> (\<forall>r \<in> set s. has_node (sr_function r) tree)"

definition stack_ok :: "'k stack_record list \<Rightarrow> 'k call_graph_node \<Rightarrow> bool" where
  "stack_ok s tree \<longleftrightarrow> linked s \<and> present s tree"

lemma linked_callees: "linked s \<Longrightarrow> r \<in> set s \<Longrightarrow> sr_callees r = sr_function r"
  by (induction s rule: linked.induct) auto

lemma enter_eq:
  assumes "stack_ok (previous # rest) tree"
  shows "ss_enter (previous # rest) k t tree = Some
    (\<lparr>sr_callee = Some k, enter_at = t, children_time_observed = 0, children_overhead = 0,
      sr_function = sr_function previous @ [k], sr_callees = sr_function previous @ [k]\<rparr> # previous # rest,
     upd_at (sr_function previous) (get_node k) tree)"
proof -
  have "sr_callees previous = sr_function previous" "node_at (sr_function previous) tree \<noteq> None"
    using assms by (auto simp: stack_ok_def present_def has_node_def dest: linked_callees)
  then show ?thesis by (auto simp: ss_enter_def Let_def)
qed

lemma enter_stack_ok:
  assumes "stack_ok s tree" "ss_enter s k t tree = Some (s', tree')"
  shows "stack_ok s' tree'"
proof (cases s)
  case Nil
  with assms show ?thesis by (simp add: stack_ok_def)
next
  case (Cons previous rest)
  with assms enter_eq [of previous rest tree k t] show ?thesis
    by (auto simp: stack_ok_def present_def)
qed

lemma exit_cases:
  assumes ok: "stack_ok s tree" and res: "ss_exit io tot s t tree = Some (s', tree')"
  obtains current parent rest I where "s = current # parent # rest"
    and "I = t - enter_at current - io"
    and "tree' = upd_at (sr_function current)
      (on_stats (\<lambda>f. add_call f (I - children_overhead current) (I - children_time_observed current))) tree"
    and "s' = parent\<lparr>children_time_observed := children_time_observed parent + (I + tot),
      children_overhead := children_overhead parent + (tot + children_overhead current)\<rparr> # rest"
  using res that by (auto simp: ss_exit_def Let_def split: list.splits option.splits)

lemma linked_times:
  "linked (p\<lparr>children_time_observed := x, children_overhead := y\<rparr> # s) = linked (p # s)"
  by (cases s) auto

lemma exit_stack_ok:
  assumes "stack_ok s tree" "ss_exit io tot s t tree = Some (s', tree')"
  shows "stack_ok s' tree'"
proof -
  from exit_cases [OF assms] obtain current parent rest I where
    s: "s = current # parent # rest"
    and tree': "tree' = upd_at (sr_function current)
      (on_stats (\<lambda>f. add_call f (I - children_overhead current) (I - children_time_observed current))) tree"
    and s': "s' = parent\<lparr>children_time_observed := children_time_observed parent + (I + tot),
      children_overhead := children_overhead parent + (tot + children_overhead current)\<rparr> # rest"
    by metis
  have "linked s'"
    using assms(1) by (simp add: stack_ok_def s s' linked_times)
  moreover have "present s' tree'"
    using assms(1) by (simp add: stack_ok_def present_def s s' tree')
  ultimately show ?thesis by (simp add: stack_ok_def)
qed

lemma record_stack_ok:
  assumes "stack_ok s tree" "ss_record io tot r (s, tree) = Some (s', tree')"
  shows "stack_ok s' tree'"
proof (cases "callee r")
  case None
  with assms(2) have "ss_exit io tot s (timestamp r) tree = Some (s', tree')" by (simp add: ss_record_def)
  with assms(1) show ?thesis by (rule exit_stack_ok)
next
  case (Some k)
  with assms(2) have "ss_enter s k (timestamp r) tree = Some (s', tree')" by (simp add: ss_record_def)
  with assms(1) show ?thesis by (rule enter_stack_ok)
qed

lemma run_stack_ok: "stack_ok s tree \<Longrightarrow> ss_run io tot rs (s, tree) = Some (s', tree') \<Longrightarrow> stack_ok s' tree'"
proof (induction rs arbitrary: s tree)
  case (Cons r rs)
  then obtain s1 t1 where r: "ss_record io tot r (s, tree) = Some (s1, t1)"
    and rs: "ss_run io tot rs (s1, t1) = Some (s', tree')"
    by (auto split: option.splits)
  from Cons.IH [OF record_stack_ok [OF Cons.prems(1) r] rs] show ?case .
qed simp

lemma run_append: "ss_run io tot (xs @ ys) st = Option.bind (ss_run io tot xs st) (ss_run io tot ys)"
  by (induction xs arbitrary: st) (auto split: option.splits)

text \<open>The local root is written by an unbalanced exit only.\<close>

lemma linked_path_Nil: "linked (r # p # s) \<Longrightarrow> sr_function r \<noteq> []"
  by auto

lemma node_stats_get_node: "node_stats (upd_at q (get_node k) tree) = node_stats tree"
  by (cases "q = []") (auto simp: node_stats_upd_at)

lemma record_root:
  assumes "stack_ok s tree" "ss_record io tot r (s, tree) = Some (s', tree')"
  shows "node_stats tree' = node_stats tree"
proof (cases "callee r")
  case None
  with assms have res: "ss_exit io tot s (timestamp r) tree = Some (s', tree')" by (simp add: ss_record_def)
  from exit_cases [OF assms(1) res] obtain current parent rest g where
    "s = current # parent # rest" "tree' = upd_at (sr_function current) (on_stats g) tree"
    by metis
  with assms(1) show ?thesis by (auto simp: stack_ok_def node_stats_upd_at)
next
  case (Some k)
  with assms have res: "ss_enter s k (timestamp r) tree = Some (s', tree')" by (simp add: ss_record_def)
  from assms(1) obtain previous rest where "s = previous # rest"
    by (cases s) (auto simp: stack_ok_def)
  with res assms(1) enter_eq [of previous rest tree k "timestamp r"] show ?thesis
    by (auto simp: node_stats_get_node)
qed

lemma run_root:
  "stack_ok s tree \<Longrightarrow> ss_run io tot rs (s, tree) = Some (s', tree') \<Longrightarrow> node_stats tree' = node_stats tree"
proof (induction rs arbitrary: s tree)
  case (Cons r rs)
  then obtain s1 t1 where r: "ss_record io tot r (s, tree) = Some (s1, t1)"
    and rs: "ss_run io tot rs (s1, t1) = Some (s', tree')"
    by (auto split: option.splits)
  from Cons.IH [OF record_stack_ok [OF Cons.prems(1) r] rs] record_root [OF Cons.prems(1) r]
  show ?case by simp
qed simp


section \<open>Resetting the stack\<close>

text \<open>The statistics of a path, with those of an absent node read as the initial ones.\<close>

definition stats0 :: "'k list \<Rightarrow> 'k call_graph_node \<Rightarrow> function_statistics" where
  "stats0 p t = (case stats_at p t of None \<Rightarrow> function_statistics_init | Some s \<Rightarrow> s)"

lemma stats0_get_node [simp]: "stats0 q (upd_at p (get_node k) t) = stats0 q t"
  by (auto simp: stats0_def stats_at_get_node split: option.splits)

lemma stats0_on_stats:
  "has_node p t \<Longrightarrow> stats0 q (upd_at p (on_stats g) t) = (if q = p then g (stats0 q t) else stats0 q t)"
  by (auto simp: stats0_def stats_at_on_stats has_node_stats split: option.splits)

lemma stats0_Nil [simp]: "stats0 [] t = node_stats t"
  by (simp add: stats0_def)

lemma stats0_empty: "stats0 q (Node function_statistics_init []) = function_statistics_init"
  by (cases q) (auto simp: stats0_def)

text \<open>The same linking as \<^const>\<open>linked\<close>, read from the bottom up.\<close>

fun chained :: "'k list \<Rightarrow> 'k stack_record list \<Rightarrow> bool" where
  "chained path [] = True"
| "chained path (i # is) = (\<exists>k. sr_callee i = Some k \<and> sr_function i = path @ [k] \<and>
     sr_callees i = path @ [k] \<and> chained (path @ [k]) is)"

lemma chained_snoc:
  "chained path (is @ [i]) \<longleftrightarrow> chained path is \<and>
     (\<exists>k. sr_callee i = Some k \<and> sr_function i = (if is = [] then path else sr_function (last is)) @ [k] \<and>
       sr_callees i = sr_function i)"
  by (induction "is" arbitrary: path) (auto split: if_splits)

lemma linked_chained:
  "linked s \<longleftrightarrow> (\<exists>b is. rev s = b # is \<and> sr_function b = [] \<and> sr_callees b = [] \<and> chained [] is)"
proof (induction s rule: linked.induct)
  case (3 r p s)
  obtain b "is" where bis: "rev (p # s) = b # is" by (cases "rev (p # s)") auto
  have "sr_function p = (if is = [] then sr_function b else sr_function (last is))"
    using arg_cong [OF bis, of last] by auto
  with 3 bis show ?case by (auto simp: chained_snoc)
qed auto

lemma reset_above_spec:
  assumes "chained path is" "has_node path t"
  shows "\<exists>t'. reset_above path is t = (is, t') \<and> present is t' \<and>
    (\<forall>q. has_node q t' \<longleftrightarrow> has_node q t \<or> q \<in> sr_function ` set is) \<and> (\<forall>q. stats0 q t' = stats0 q t) \<and>
    (present is t \<longrightarrow> t' = t)"
  using assms
proof (induction path "is" t rule: reset_above.induct)
  case (1 path tree)
  then show ?case by (simp add: present_def)
next
  case (2 path i "is" tree)
  then obtain k where k: "sr_callee i = Some k" "sr_function i = path @ [k]" "sr_callees i = path @ [k]"
    and ch: "chained (path @ [k]) is"
    by auto
  define t1 where "t1 = upd_at path (get_node k) tree"
  have h1: "has_node (path @ [k]) t1" using 2(3) by (simp add: t1_def)
  from "2.IH" [OF k(1) refl t1_def ch h1] obtain t' where
    t': "reset_above (path @ [k]) is t1 = (is, t')" "present is t'"
    "\<forall>q. has_node q t' \<longleftrightarrow> has_node q t1 \<or> q \<in> sr_function ` set is" "\<forall>q. stats0 q t' = stats0 q t1"
    "present is t1 \<longrightarrow> t' = t1"
    by blast
  have same: "t1 = tree" if "has_node (path @ [k]) tree"
  proof -
    from that obtain n where n: "node_at path tree = Some n" "um_find (node_callees n) k \<noteq> None"
      by (auto simp: has_node_def node_at_append bind_eq_Some_conv split: option.splits)
    then show ?thesis unfolding t1_def by (auto intro: upd_at_ident get_node_present)
  qed
  have "i\<lparr>sr_function := path @ [k], sr_callees := path @ [k]\<rparr> = i"
    using k by simp
  with t' k h1 have "reset_above path (i # is) tree = (i # is, t')"
    by (simp add: t1_def Let_def)
  moreover have "present (i # is) t'" using t' k h1 by (simp add: present_def)
  moreover have "\<forall>q. has_node q t' \<longleftrightarrow> has_node q tree \<or> q \<in> sr_function ` set (i # is)"
    using t'(3) k 2(3) by (auto simp: t1_def)
  moreover have "\<forall>q. stats0 q t' = stats0 q tree" using t'(4) by (simp add: t1_def)
  moreover have "present (i # is) tree \<longrightarrow> t' = tree"
    using same t'(5) k by (auto simp: present_def)
  ultimately show ?case by blast
qed

lemma reset_stack_spec:
  assumes "linked s"
  shows "\<exists>t'. reset_stack s t = (s, t') \<and> stack_ok s t' \<and>
    (\<forall>q. has_node q t' \<longleftrightarrow> has_node q t \<or> q \<in> sr_function ` set s) \<and>
    (\<forall>q. stats0 q t' = stats0 q t) \<and> (present s t \<longrightarrow> t' = t)"
proof -
  from assms obtain b "is" where r: "rev s = b # is" "sr_function b = []" "sr_callees b = []" "chained [] is"
    by (auto simp: linked_chained)
  have h: "has_node [] t" for t :: "'a call_graph_node" by (simp add: has_node_def)
  from reset_above_spec [OF r(4) h, of t] obtain t' where
    t': "reset_above [] is t = (is, t')" "present is t'"
      "\<forall>q. has_node q t' \<longleftrightarrow> has_node q t \<or> q \<in> sr_function ` set is" "\<forall>q. stats0 q t' = stats0 q t" "present is t \<longrightarrow> t' = t"
    by blast
  have b: "b\<lparr>sr_function := [], sr_callees := []\<rparr> = b" using r by simp
  have s: "s = rev is @ [b]" using r(1) by (metis rev.simps(2) rev_rev_ident)
  have "present s u \<longleftrightarrow> present is u" for u
    using r(2) h [of u] by (auto simp: present_def s)
  moreover have "has_node q t' \<longleftrightarrow> has_node q t \<or> q \<in> sr_function ` set s" for q
    using t'(3) r(2) h [of t] by (auto simp: s)
  ultimately show ?thesis
    using t' b s assms by (auto simp: reset_stack_def stack_ok_def)
qed

lemma reset_stack_id: "stack_ok s t \<Longrightarrow> reset_stack s t = (s, t)"
  using reset_stack_spec [of s t] by (auto simp: stack_ok_def)

section \<open>Batches\<close>

text \<open>A trace reaches the analyzer in buffers; cutting it anywhere changes nothing.\<close>

definition reset_tree :: "'k shadow_stack \<Rightarrow> 'k nodes_map \<Rightarrow> 'k call_graph_node" where
  "reset_tree ss m = snd (reset_stack (stack ss) (Node function_statistics_init m))"

lemma reset_tree:
  assumes "linked (stack ss)"
  shows "stack_ok (stack ss) (reset_tree ss m)"
    and "node_stats (reset_tree ss m) = function_statistics_init"
    and "stats0 q (reset_tree ss m) = stats0 q (Node function_statistics_init m)"
    and "has_node q (reset_tree ss m) \<longleftrightarrow>
      has_node q (Node function_statistics_init m) \<or> q \<in> sr_function ` set (stack ss)"
    and "present (stack ss) (Node function_statistics_init m) \<Longrightarrow>
      reset_tree ss m = Node function_statistics_init m"
    and "update ss trace m = map_option (\<lambda>(s, tree). (ss\<lparr>stack := s\<rparr>, node_callees tree))
      (ss_run (inner_overhead ss) (total_overhead ss) trace (stack ss, reset_tree ss m))"
proof -
  from reset_stack_spec [OF assms, of "Node function_statistics_init m"] obtain t where
    t: "reset_stack (stack ss) (Node function_statistics_init m) = (stack ss, t)" "stack_ok (stack ss) t"
    "\<forall>q. has_node q t \<longleftrightarrow> has_node q (Node function_statistics_init m) \<or> q \<in> sr_function ` set (stack ss)"
    "\<forall>q. stats0 q t = stats0 q (Node function_statistics_init m)"
    "present (stack ss) (Node function_statistics_init m) \<longrightarrow> t = Node function_statistics_init m"
    by blast
  have r: "reset_tree ss m = t" using t(1) by (simp add: reset_tree_def)
  show "stack_ok (stack ss) (reset_tree ss m)" using t(2) by (simp add: r)
  show "node_stats (reset_tree ss m) = function_statistics_init"
    using t(4) [rule_format, of "[]"] by (simp add: r)
  show "stats0 q (reset_tree ss m) = stats0 q (Node function_statistics_init m)" using t(4) by (simp add: r)
  show "has_node q (reset_tree ss m) \<longleftrightarrow>
      has_node q (Node function_statistics_init m) \<or> q \<in> sr_function ` set (stack ss)" using t(3) by (simp add: r)
  show "present (stack ss) (Node function_statistics_init m) \<Longrightarrow>
      reset_tree ss m = Node function_statistics_init m" using t(5) by (simp add: r)
  show "update ss trace m = map_option (\<lambda>(s, tree). (ss\<lparr>stack := s\<rparr>, node_callees tree))
      (ss_run (inner_overhead ss) (total_overhead ss) trace (stack ss, reset_tree ss m))"
    using t(1) by (auto simp: update_def r split: option.splits)
qed

lemma update_runs:
  assumes "linked (stack ss)" "update ss trace m = Some (ss', m')"
  shows "ss_run (inner_overhead ss) (total_overhead ss) trace (stack ss, reset_tree ss m) =
      Some (stack ss', Node function_statistics_init m')"
    and "ss' = ss\<lparr>stack := stack ss'\<rparr>"
proof -
  note rt = reset_tree [OF assms(1)]
  from assms(2) obtain s tree where
    run: "ss_run (inner_overhead ss) (total_overhead ss) trace (stack ss, reset_tree ss m) = Some (s, tree)"
    and ss': "ss' = ss\<lparr>stack := s\<rparr>" and m': "m' = node_callees tree"
    by (auto simp: rt(6))
  have "node_stats tree = function_statistics_init" using run_root [OF rt(1) run] rt(2) by simp
  then have "Node function_statistics_init m' = tree" by (cases tree) (simp add: m')
  with run show "ss_run (inner_overhead ss) (total_overhead ss) trace (stack ss, reset_tree ss m) =
      Some (stack ss', Node function_statistics_init m')"
    by (simp add: ss')
  show "ss' = ss\<lparr>stack := stack ss'\<rparr>" by (simp add: ss')
qed

lemma update_stack_ok:
  assumes "linked (stack ss)" "update ss trace m = Some (ss', m')"
  shows "stack_ok (stack ss') (Node function_statistics_init m')" and "linked (stack ss')"
    and "reset_tree ss' m' = Node function_statistics_init m'"
proof -
  show ok: "stack_ok (stack ss') (Node function_statistics_init m')"
    by (rule run_stack_ok [OF reset_tree(1) [OF assms(1)] update_runs(1) [OF assms]])
  then show "linked (stack ss')" by (simp add: stack_ok_def)
  then show "reset_tree ss' m' = Node function_statistics_init m'"
    using ok by (auto intro: reset_tree(5) simp: stack_ok_def)
qed

lemma update_append:
  assumes "linked (stack ss)"
  shows "update ss (xs @ ys) m = Option.bind (update ss xs m) (\<lambda>(ss', m'). update ss' ys m')"
proof (cases "update ss xs m")
  case None
  then show ?thesis by (simp add: reset_tree(6) [OF assms] run_append)
next
  case (Some r)
  obtain ss' m' where r: "r = (ss', m')" by (cases r)
  note u = Some [unfolded r]
  note runs = update_runs [OF assms u] and ok = update_stack_ok [OF assms u]
  have "update ss' ys m' = map_option (\<lambda>(s, tree). (ss\<lparr>stack := s\<rparr>, node_callees tree))
      (ss_run (inner_overhead ss) (total_overhead ss) ys (stack ss', Node function_statistics_init m'))"
    unfolding reset_tree(6) [OF ok(2)] ok(3) by (subst (1 2 3) runs(2)) simp
  then show ?thesis by (simp add: u r reset_tree(6) [OF assms, of "xs @ ys" m] run_append runs(1))
qed


section \<open>Conservation of time\<close>

text \<open>
  What the completed children of the open call at a path have contributed so far, net of the
  measurement overhead.
\<close>

definition open_children :: "'k list \<Rightarrow> 'k stack_record list \<Rightarrow> timestamp_t" where
  "open_children p s =
     sum_list (map (\<lambda>r. if sr_function r = p then children_time_observed r - children_overhead r else 0) s)"

lemma open_children_simps [simp]:
  "open_children p [] = 0"
  "open_children p (r # s) =
     (if sr_function r = p then children_time_observed r - children_overhead r else 0) + open_children p s"
  by (simp_all add: open_children_def)

lemma open_children_absent: "present s t \<Longrightarrow> \<not> has_node p t \<Longrightarrow> open_children p s = 0"
  by (induction s) (auto simp: present_def)

definition conserved :: "'k stack_record list \<Rightarrow> 'k call_graph_node \<Rightarrow> bool" where
  "conserved s tree \<longleftrightarrow> (\<forall>p st. stats_at p tree = Some st \<longrightarrow>
     callees_inclusive_at p tree = Some (inclusive_time st - exclusive_time st + open_children p s))"

lemma conservedD:
  "conserved s tree \<Longrightarrow> stats_at p tree = Some st \<Longrightarrow>
     callees_inclusive_at p tree = Some (inclusive_time st - exclusive_time st + open_children p s)"
  by (simp add: conserved_def)

lemma enter_conserved:
  assumes "stack_ok s tree" "conserved s tree" "ss_enter s k t tree = Some (s', tree')"
  shows "conserved s' tree'"
proof -
  from assms(1) obtain previous rest where s: "s = previous # rest"
    by (cases s) (auto simp: stack_ok_def)
  define q where "q = sr_function previous @ [k]"
  from enter_eq [OF assms(1) [unfolded s], of k t] assms(3) have
    tree': "tree' = upd_at (sr_function previous) (get_node k) tree" and oc: "open_children p s' = open_children p s" for p
    by (auto simp: s)
  have prev: "node_at (sr_function previous) tree \<noteq> None"
    using assms(1) by (simp add: stack_ok_def present_def s has_node_def)
  show ?thesis unfolding conserved_def
  proof (intro allI impI)
    fix p st
    assume st: "stats_at p tree' = Some st"
    show "callees_inclusive_at p tree' = Some (inclusive_time st - exclusive_time st + open_children p s')"
    proof (cases "p = q \<and> stats_at p tree = None")
      case True
      then have "open_children p s = 0"
        using assms(1) by (auto intro: open_children_absent simp: stack_ok_def has_node_stats)
      with True st prev show ?thesis
        by (auto simp: tree' oc stats_at_get_node callees_inclusive_at_get_node q_def stats_at_None_iff)
    next
      case False
      with st have "stats_at p tree = Some st"
        by (auto simp: tree' stats_at_get_node q_def split: if_splits)
      with False conservedD [OF assms(2) this] show ?thesis
        by (auto simp: tree' oc callees_inclusive_at_get_node q_def simp flip: stats_at_None_iff)
    qed
  qed
qed

lemma exit_conserved:
  assumes "stack_ok s tree" "conserved s tree" "ss_exit io tot s t tree = Some (s', tree')"
  shows "conserved s' tree'"
proof -
  from exit_cases [OF assms(1,3)] obtain current parent rest I where
    s: "s = current # parent # rest"
    and tree': "tree' = upd_at (sr_function current)
      (on_stats (\<lambda>f. add_call f (I - children_overhead current) (I - children_time_observed current))) tree"
    and s': "s' = parent\<lparr>children_time_observed := children_time_observed parent + (I + tot),
      children_overhead := children_overhead parent + (tot + children_overhead current)\<rparr> # rest"
    by metis
  from assms(1) obtain k where k: "sr_function current = sr_function parent @ [k]"
    by (auto simp: stack_ok_def s)
  obtain cs where cs: "stats_at (sr_function current) tree = Some cs"
    using assms(1) by (auto simp: stack_ok_def present_def s has_node_stats)
  show ?thesis unfolding conserved_def
  proof (intro allI impI)
    fix p st
    assume st: "stats_at p tree' = Some st"
    obtain st0 where st0: "stats_at p tree = Some st0"
      using st by (auto simp: tree' stats_at_on_stats split: if_splits)
    from conservedD [OF assms(2) st0] st st0 cs
    show "callees_inclusive_at p tree' = Some (inclusive_time st - exclusive_time st + open_children p s')"
      by (auto simp: tree' s s' k stats_at_on_stats callees_inclusive_at_on_stats split: if_splits)
  qed
qed

lemma run_conserved:
  "stack_ok s tree \<Longrightarrow> conserved s tree \<Longrightarrow> ss_run io tot rs (s, tree) = Some (s', tree') \<Longrightarrow>
    conserved s' tree'"
proof (induction rs arbitrary: s tree)
  case (Cons r rs)
  then obtain s1 t1 where r: "ss_record io tot r (s, tree) = Some (s1, t1)"
    and rs: "ss_run io tot rs (s1, t1) = Some (s', tree')"
    by (auto split: option.splits)
  have "conserved s1 t1"
    using r enter_conserved [OF Cons.prems(1,2)] exit_conserved [OF Cons.prems(1,2)]
    by (auto simp: ss_record_def split: option.splits)
  from Cons.IH [OF record_stack_ok [OF Cons.prems(1) r] this rs] show ?case .
qed simp

lemma shadow_stack_init_sel [simp]:
  "stack (shadow_stack_init ov) = [bottom_record]" "inner_overhead (shadow_stack_init ov) = inner ov"
  "total_overhead (shadow_stack_init ov) = inner ov + outer ov"
  "sr_function bottom_record = []" "sr_callees bottom_record = []"
  by (simp_all add: shadow_stack_init_def bottom_record_def)

lemma init_stack_ok: "stack_ok (stack (shadow_stack_init ov)) tree"
  by (simp add: stack_ok_def present_def has_node_def)

lemma init_linked: "linked (stack (shadow_stack_init ov))"
  by simp

lemma conserved_empty: "conserved (stack (shadow_stack_init ov)) (Node function_statistics_init [])"
proof -
  have "stats_at p (Node function_statistics_init []) = Some st \<Longrightarrow> p = []" for p st
    by (cases p) auto
  then show ?thesis
    by (auto simp: conserved_def shadow_stack_init_def bottom_record_def callees_inclusive_def)
qed

lemma update_conserved:
  assumes "linked (stack ss)" "conserved (stack ss) (reset_tree ss m)" "update ss trace m = Some (ss', m')"
  shows "conserved (stack ss') (Node function_statistics_init m')"
  by (rule run_conserved [OF reset_tree(1) [OF assms(1)] assms(2) update_runs(1) [OF assms(1,3)]])

section \<open>Portions\<close>

text \<open>
  The collector clears its map after each portion it sends and keeps the stack; the receiver merges
  the portions. The relation below holds between the tree of a collector that never clears, the
  tree at the last clearing and the portion collected since.
\<close>

definition merged :: "'k call_graph_node \<Rightarrow> 'k call_graph_node \<Rightarrow> 'k call_graph_node \<Rightarrow> bool" where
  "merged base portion t \<longleftrightarrow> (\<forall>q. (has_node q portion \<longrightarrow> has_node q t) \<and>
     stats0 q t = add_stats (stats0 q base) (stats0 q portion))"

lemma mergedD: "merged base d t \<Longrightarrow> has_node q d \<Longrightarrow> has_node q t"
  by (simp add: merged_def)

lemma merged_get_node: "merged base d t \<Longrightarrow> merged base (upd_at p (get_node k) d) (upd_at p (get_node k) t)"
  by (auto simp: merged_def)

lemma merged_add_call:
  assumes "merged base d t" "has_node p d"
  shows "merged base (upd_at p (on_stats (\<lambda>f. add_call f i e)) d) (upd_at p (on_stats (\<lambda>f. add_call f i e)) t)"
  using assms by (auto simp: merged_def stats0_on_stats add_stats_add_call)

lemma record_merged:
  assumes "stack_ok s d" "stack_ok s t" "merged base d t" "ss_record io tot r (s, d) = Some (s', d')"
  shows "\<exists>t'. ss_record io tot r (s, t) = Some (s', t') \<and> merged base d' t'"
proof (cases "callee r")
  case (Some k)
  from assms(1) obtain previous rest where s: "s = previous # rest" by (cases s) (auto simp: stack_ok_def)
  show ?thesis
    using assms(3,4) enter_eq [OF assms(1) [unfolded s], of k "timestamp r"]
      enter_eq [OF assms(2) [unfolded s], of k "timestamp r"]
    by (auto simp: ss_record_def Some s intro: merged_get_node)
next
  case None
  then have res: "ss_exit io tot s (timestamp r) d = Some (s', d')" using assms(4) by (simp add: ss_record_def)
  from exit_cases [OF assms(1) res] obtain current parent rest where s: "s = current # parent # rest" by metis
  have "has_node (sr_function current) d" "has_node (sr_function current) t"
    using assms(1,2) by (auto simp: stack_ok_def present_def s)
  with res assms(3) show ?thesis
    by (auto simp: ss_record_def None ss_exit_def s Let_def has_node_def [symmetric]
        intro: merged_add_call split: option.splits simp: has_node_def)
qed

lemma run_merged:
  "stack_ok s d \<Longrightarrow> stack_ok s t \<Longrightarrow> merged base d t \<Longrightarrow> ss_run io tot rs (s, d) = Some (s', d') \<Longrightarrow>
    \<exists>t'. ss_run io tot rs (s, t) = Some (s', t') \<and> merged base d' t'"
proof (induction rs arbitrary: s d t)
  case (Cons r rs)
  then obtain s1 d1 where r: "ss_record io tot r (s, d) = Some (s1, d1)"
    and rs: "ss_run io tot rs (s1, d1) = Some (s', d')"
    by (auto split: option.splits)
  from record_merged [OF Cons.prems(1-3) r] obtain t1 where
    t1: "ss_record io tot r (s, t) = Some (s1, t1)" "merged base d1 t1" by blast
  from Cons.IH [OF record_stack_ok [OF Cons.prems(1) r] record_stack_ok [OF Cons.prems(2) t1(1)] t1(2) rs]
  show ?case by (simp add: t1(1))
qed auto


section \<open>The reference: recursion over the tree of calls\<close>

text \<open>
  A complete call with the calls it made, in order, and the trace it leaves. The reference
  processes it recursively, with no stack: the node of the callee is found or created, the inner
  calls are recorded under it, then the call itself.
\<close>

datatype 'k call = Call (call_key: 'k) (call_enter: timestamp_t) (call_inner: "'k call list") (call_exit: timestamp_t)

fun trace_of :: "'k call \<Rightarrow> 'k call_record list" where
  "trace_of (Call k te cs tx) =
     \<lparr>timestamp = te, callee = Some k\<rparr> # concat (map trace_of cs) @ [\<lparr>timestamp = tx, callee = None\<rparr>]"

definition observed :: "timestamp_t \<Rightarrow> 'k call \<Rightarrow> timestamp_t" where
  "observed io c = call_exit c - call_enter c - io"

text \<open>The overhead hidden inside a call: one total overhead per call made below it.\<close>

fun inner_calls :: "'k call \<Rightarrow> int" where
  "inner_calls (Call k te cs tx) = sum_list (map (\<lambda>c. 1 + inner_calls c) cs)"

definition call_inclusive :: "timestamp_t \<Rightarrow> timestamp_t \<Rightarrow> 'k call \<Rightarrow> timestamp_t" where
  "call_inclusive io tot c = observed io c - tot * inner_calls c"

definition call_exclusive :: "timestamp_t \<Rightarrow> timestamp_t \<Rightarrow> 'k call \<Rightarrow> timestamp_t" where
  "call_exclusive io tot c = observed io c - sum_list (map (\<lambda>d. observed io d + tot) (call_inner c))"

definition on_callee :: "'k \<Rightarrow> ('k call_graph_node \<Rightarrow> 'k call_graph_node) \<Rightarrow> 'k call_graph_node \<Rightarrow> 'k call_graph_node" where
  "on_callee k f n = upd_at [k] f (get_node k n)"

lemma on_callee_eq: "on_callee k f = upd_at [k] f \<circ> get_node k"
  by (simp add: on_callee_def fun_eq_iff del: upd_at.simps)

fun record_call :: "timestamp_t \<Rightarrow> timestamp_t \<Rightarrow> 'k call \<Rightarrow> 'k call_graph_node \<Rightarrow> 'k call_graph_node" where
  "record_call io tot (Call k te cs tx) =
     on_callee k (\<lambda>n. on_stats (\<lambda>f. add_call f (call_inclusive io tot (Call k te cs tx))
       (call_exclusive io tot (Call k te cs tx))) (fold (record_call io tot) cs n))"

abbreviation record_calls ::
  "timestamp_t \<Rightarrow> timestamp_t \<Rightarrow> 'k call list \<Rightarrow> 'k call_graph_node \<Rightarrow> 'k call_graph_node" where
  "record_calls io tot cs \<equiv> fold (record_call io tot) cs"

text \<open>What completed calls leave in the record of the caller.\<close>

definition charge :: "timestamp_t \<Rightarrow> timestamp_t \<Rightarrow> 'k call list \<Rightarrow> 'k stack_record \<Rightarrow> 'k stack_record" where
  "charge io tot cs r = r\<lparr>
     children_time_observed := children_time_observed r + sum_list (map (\<lambda>c. observed io c + tot) cs),
     children_overhead := children_overhead r + tot * sum_list (map (\<lambda>c. 1 + inner_calls c) cs)\<rparr>"

lemma charge_sel [simp]:
  "sr_function (charge io tot cs r) = sr_function r" "sr_callees (charge io tot cs r) = sr_callees r"
  "sr_callee (charge io tot cs r) = sr_callee r" "enter_at (charge io tot cs r) = enter_at r"
  "children_time_observed (charge io tot cs r) =
     children_time_observed r + sum_list (map (\<lambda>c. observed io c + tot) cs)"
  "children_overhead (charge io tot cs r) =
     children_overhead r + tot * sum_list (map (\<lambda>c. 1 + inner_calls c) cs)"
  by (simp_all add: charge_def)

lemma charge_Nil: "charge io tot [] r = r"
  by (simp add: charge_def)

lemma charge_Cons: "charge io tot cs (charge io tot [c] r) = charge io tot (c # cs) r"
  by (simp add: charge_def algebra_simps)

lemma run_list:
  assumes one: "\<And>c par rest tree. c \<in> set cs \<Longrightarrow> stack_ok (par # rest) tree \<Longrightarrow>
      ss_run io tot (trace_of c) (par # rest, tree) =
        Some (charge io tot [c] par # rest, upd_at (sr_function par) (record_call io tot c) tree)"
    and ok: "stack_ok (par # rest) tree"
  shows "ss_run io tot (concat (map trace_of cs)) (par # rest, tree) =
    Some (charge io tot cs par # rest, upd_at (sr_function par) (record_calls io tot cs) tree)"
  using assms
proof (induction cs arbitrary: par tree)
  case Nil
  then obtain n where "node_at (sr_function par) tree = Some n"
    by (auto simp: stack_ok_def present_def has_node_def)
  then show ?case by (simp add: charge_Nil upd_at_ident)
next
  case (Cons c cs)
  note r = Cons.prems(1) [of c, OF _ Cons.prems(2), simplified]
  from Cons.IH [OF Cons.prems(1) run_stack_ok [OF Cons.prems(2) r]] show ?case
    by (simp add: run_append r charge_Cons upd_at_upd_at comp_def)
qed

lemma run_call:
  "stack_ok (par # rest) tree \<Longrightarrow> ss_run io tot (trace_of c) (par # rest, tree) =
    Some (charge io tot [c] par # rest, upd_at (sr_function par) (record_call io tot c) tree)"
proof (induction c arbitrary: par rest tree)
  case (Call k te cs tx)
  define cur where "cur = \<lparr>sr_callee = Some k, enter_at = te, children_time_observed = 0, children_overhead = 0,
      sr_function = sr_function par @ [k], sr_callees = sr_function par @ [k]\<rparr>"
  define t1 where "t1 = upd_at (sr_function par) (get_node k) tree"
  define t2 where "t2 = upd_at (sr_function cur) (record_calls io tot cs) t1"
  have enter: "ss_enter (par # rest) k te tree = Some (cur # par # rest, t1)"
    unfolding cur_def t1_def by (rule enter_eq [OF Call.prems])
  have ok1: "stack_ok (cur # par # rest) t1" by (rule enter_stack_ok [OF Call.prems enter])
  have inner: "ss_run io tot (concat (map trace_of cs)) (cur # par # rest, t1) =
      Some (charge io tot cs cur # par # rest, t2)"
    unfolding t2_def by (rule run_list [OF Call.IH ok1])
  have "stack_ok (charge io tot cs cur # par # rest) t2" by (rule run_stack_ok [OF ok1 inner])
  then have ex: "node_at (sr_function cur) t2 \<noteq> None" by (simp add: stack_ok_def present_def has_node_def)
  let ?c = "Call k te cs tx"
  have exit: "ss_exit io tot (charge io tot cs cur # par # rest) tx t2 =
    Some (charge io tot [?c] par # rest, upd_at (sr_function cur)
      (on_stats (\<lambda>f. add_call f (call_inclusive io tot ?c) (call_exclusive io tot ?c))) t2)"
    using ex by (auto simp: ss_exit_def Let_def cur_def observed_def call_inclusive_def call_exclusive_def
        charge_def algebra_simps)
  have path: "sr_function cur = sr_function par @ [k]" by (simp add: cur_def)
  have tree: "upd_at (sr_function cur) (on_stats g) t2 =
      upd_at (sr_function par) (on_callee k (on_stats g \<circ> record_calls io tot cs)) tree" for g
    unfolding t2_def t1_def path upd_at_upd_at upd_at_append on_callee_eq upd_at_comp ..
  show ?case
    using enter inner exit by (simp add: ss_record_def run_append tree comp_def)
qed

lemma run_calls:
  "stack_ok (par # rest) tree \<Longrightarrow> ss_run io tot (concat (map trace_of cs)) (par # rest, tree) =
    Some (charge io tot cs par # rest, upd_at (sr_function par) (record_calls io tot cs) tree)"
  by (rule run_list [OF run_call])

lemma update_of_calls:
  "update (shadow_stack_init ov) (concat (map trace_of cs)) m =
    Some (shadow_stack_init ov
        \<lparr>stack := [charge (inner ov) (inner ov + outer ov) cs bottom_record]\<rparr>,
      node_callees (record_calls (inner ov) (inner ov + outer ov) cs (Node function_statistics_init m)))"
proof -
  have ok: "stack_ok [bottom_record] (Node function_statistics_init m)"
    using init_stack_ok [of ov] by simp
  have "reset_tree (shadow_stack_init ov) m = Node function_statistics_init m"
    using ok by (intro reset_tree(5) init_linked) (simp add: stack_ok_def)
  with run_calls [OF ok] show ?thesis
    by (simp add: reset_tree(6) [OF init_linked])
qed

section \<open>Properties\<close>

text \<open>
  C1. The shadow stack agrees with the recursive reference: whatever the stack holds, a sequence of
  complete calls leaves it as it was but for the times charged to the innermost open call, and
  turns the statistics under that call into those the recursion over the tree of calls computes,
  with inclusive and exclusive times net of the calibrated overhead. On a fresh stack the result is
  the map the recursion builds.
\<close>

theorem update_refines_record_calls:
  "update (shadow_stack_init ov) (concat (map trace_of cs)) m =
    Some (shadow_stack_init ov
        \<lparr>stack := [charge (inner ov) (inner ov + outer ov) cs bottom_record]\<rparr>,
      node_callees (record_calls (inner ov) (inner ov + outer ov) cs (Node function_statistics_init m)))"
  by (rule update_of_calls)

text \<open>
  Cutting the trace into batches anywhere does not matter: processing two batches one after the
  other, with the pointers of the open calls taken anew in between, gives the stack and the
  statistics of the joined batch, and fails exactly where the joined batch fails.
\<close>

theorem update_batches:
  assumes "linked (stack ss)"
  shows "update ss (xs @ ys) m = Option.bind (update ss xs m) (\<lambda>(ss', m'). update ss' ys m')"
  by (rule update_append [OF assms])

lemma update_batches_witness:
  "update (shadow_stack_init \<lparr>inner = 1, outer = 2\<rparr>)
     ([\<lparr>timestamp = 10, callee = Some (7::nat)\<rparr>] @ [\<lparr>timestamp = 30, callee = None\<rparr>]) [] =
   Option.bind (update (shadow_stack_init \<lparr>inner = 1, outer = 2\<rparr>) [\<lparr>timestamp = 10, callee = Some 7\<rparr>] [])
     (\<lambda>(ss', m'). update ss' [\<lparr>timestamp = 30, callee = None\<rparr>] m')"
  by (rule update_batches [OF init_linked])

text \<open>
  C6. Time is conserved: at any moment and for any node of the statistics, the inclusive time is
  the exclusive time plus the inclusive times of the direct callees, less what the completed
  children of the call still open at that node have contributed. With no open call it is an
  equation between the reported numbers.
\<close>

theorem time_conservation:
  assumes "update (shadow_stack_init ov) trace [] = Some (ss, m)"
    and "node_at p (Node function_statistics_init m) = Some n"
  shows "inclusive_time (node_stats n) =
    exclusive_time (node_stats n) + callees_inclusive n - open_children p (stack ss)"
proof -
  have "reset_tree (shadow_stack_init ov) ([] :: 'a nodes_map) = Node function_statistics_init []"
    by (intro reset_tree(5) init_linked) (simp add: present_def has_node_def)
  with update_conserved [OF init_linked _ assms(1)] conserved_empty
  have "conserved (stack ss) (Node function_statistics_init m)" by metis
  from conservedD [OF this, of p "node_stats n"] assms(2) show ?thesis
    by (simp add: stats_at_def callees_inclusive_at_def)
qed

lemmas shadow_stack_eval = update_def reset_stack_def ss_record_def ss_enter_def ss_exit_def
  shadow_stack_init_def bottom_record_def get_node_def um_insert_def call_graph_node_init_def on_stats_def
  add_call_def function_statistics_init_def Let_def

lemma time_conservation_witness:
  "inclusive_time (node_stats (Node \<lparr>times_called = 1, inclusive_time = 16, exclusive_time = 11, max_call_time = 16\<rparr>
      [(8::nat, Node \<lparr>times_called = 1, inclusive_time = 5, exclusive_time = 5, max_call_time = 5\<rparr> [])])) = 11 + 5 - 0"
proof -
  let ?n = "Node \<lparr>times_called = 1, inclusive_time = 16, exclusive_time = 11, max_call_time = 16\<rparr>
      [(8::nat, Node \<lparr>times_called = 1, inclusive_time = 5, exclusive_time = 5, max_call_time = 5\<rparr> [])]"
  have u: "update (shadow_stack_init \<lparr>inner = 1, outer = 2\<rparr>)
     [\<lparr>timestamp = 10, callee = Some (7::nat)\<rparr>, \<lparr>timestamp = 14, callee = Some 8\<rparr>,
      \<lparr>timestamp = 20, callee = None\<rparr>, \<lparr>timestamp = 30, callee = None\<rparr>] [] =
    Some (\<lparr>inner_overhead = 1, total_overhead = 3, stack = [\<lparr>sr_callee = None, enter_at = 0,
      children_time_observed = 22, children_overhead = 6, sr_function = [], sr_callees = []\<rparr>]\<rparr>, [(7, ?n)])"
    by (simp add: shadow_stack_eval)
  show ?thesis
    using time_conservation [OF u, of "[7]" ?n] by (simp add: callees_inclusive_def)
qed

text \<open>
  Portions add up: clearing the map between two portions loses nothing. If the next portion,
  collected into an empty map, is \<open>d\<close>, then without the clearing every path would have the
  statistics of the old map merged with those of \<open>d\<close>, and the stack would be the same.
\<close>

theorem portions_add_up:
  assumes "linked (stack ss)" and "update ss trace [] = Some (ss', d)"
    and "\<forall>p. 0 \<le> max_call_time (stats0 p (Node function_statistics_init m))"
  shows "\<exists>m'. update ss trace m = Some (ss', m') \<and>
    (\<forall>p. stats0 p (Node function_statistics_init m') =
      add_stats (stats0 p (Node function_statistics_init m)) (stats0 p (Node function_statistics_init d)))"
proof -
  note rt = reset_tree [OF assms(1)] and run = update_runs [OF assms(1,2)]
  have "has_node q (Node function_statistics_init []) \<Longrightarrow> has_node q (Node function_statistics_init m)" for q
    by (cases q) (auto simp: has_node_def)
  then have "merged (Node function_statistics_init m) (reset_tree ss []) (reset_tree ss m)"
    using assms(3) by (auto simp: merged_def rt(3,4) stats0_empty add_stats_init)
  from run_merged [OF rt(1) rt(1) this run(1)] obtain t' where
    t': "ss_run (inner_overhead ss) (total_overhead ss) trace (stack ss, reset_tree ss m) = Some (stack ss', t')"
    and merged: "merged (Node function_statistics_init m) (Node function_statistics_init d) t'"
    by blast
  have "update ss trace m = Some (ss', node_callees t')" using run(2) by (simp add: rt(6) t')
  moreover have "Node function_statistics_init (node_callees t') = t'"
    using run_root [OF rt(1) t'] rt(2) by (cases t') simp
  ultimately show ?thesis using merged by (auto simp: merged_def)
qed


lemma portions_add_up_witness:
  "\<exists>m'. update \<lparr>inner_overhead = 1, total_overhead = 3,
      stack = [\<lparr>sr_callee = Some 7, enter_at = 10, children_time_observed = 0, children_overhead = 0,
        sr_function = [7], sr_callees = [7]\<rparr>, bottom_record]\<rparr> [\<lparr>timestamp = 30, callee = None\<rparr>]
      [(7::nat, Node \<lparr>times_called = 1, inclusive_time = 4, exclusive_time = 4, max_call_time = 4\<rparr> [])] =
      Some (\<lparr>inner_overhead = 1, total_overhead = 3, stack = [\<lparr>sr_callee = None, enter_at = 0,
        children_time_observed = 22, children_overhead = 3, sr_function = [], sr_callees = []\<rparr>]\<rparr>, m') \<and>
    stats0 [7] (Node function_statistics_init m') =
      \<lparr>times_called = 2, inclusive_time = 23, exclusive_time = 23, max_call_time = 19\<rparr>"
proof -
  let ?ss = "\<lparr>inner_overhead = 1, total_overhead = 3,
      stack = [\<lparr>sr_callee = Some 7, enter_at = 10, children_time_observed = 0, children_overhead = 0,
        sr_function = [7], sr_callees = [7]\<rparr>, bottom_record]\<rparr>"
  let ?ss' = "\<lparr>inner_overhead = 1, total_overhead = 3, stack = [\<lparr>sr_callee = None, enter_at = 0,
        children_time_observed = 22, children_overhead = 3, sr_function = [], sr_callees = []\<rparr>]\<rparr>"
  let ?m = "[(7::nat, Node \<lparr>times_called = 1, inclusive_time = 4, exclusive_time = 4, max_call_time = 4\<rparr> [])]"
  let ?d = "[(7::nat, Node \<lparr>times_called = 1, inclusive_time = 19, exclusive_time = 19, max_call_time = 19\<rparr> [])]"
  have "linked (stack ?ss)" by simp
  moreover have "update ?ss [\<lparr>timestamp = 30, callee = None\<rparr>] [] = Some (?ss', ?d)"
    by (simp add: shadow_stack_eval)
  moreover have "\<forall>p. 0 \<le> max_call_time (stats0 p (Node function_statistics_init ?m))"
  proof
    show "0 \<le> max_call_time (stats0 p (Node function_statistics_init ?m))" for p
      by (cases p; cases "tl p") (auto simp: stats0_def)
  qed
  ultimately have "\<exists>m'. update ?ss [\<lparr>timestamp = 30, callee = None\<rparr>] ?m = Some (?ss', m') \<and>
    (\<forall>p. stats0 p (Node function_statistics_init m') =
      add_stats (stats0 p (Node function_statistics_init ?m)) (stats0 p (Node function_statistics_init ?d)))"
    by (rule portions_add_up)
  then obtain m' where "update ?ss [\<lparr>timestamp = 30, callee = None\<rparr>] ?m = Some (?ss', m')"
    and "stats0 [7] (Node function_statistics_init m') =
      add_stats (stats0 [7] (Node function_statistics_init ?m)) (stats0 [7] (Node function_statistics_init ?d))"
    by blast
  moreover have "stats0 [7] (Node function_statistics_init ?m) =
      \<lparr>times_called = 1, inclusive_time = 4, exclusive_time = 4, max_call_time = 4\<rparr>"
    "stats0 [7] (Node function_statistics_init ?d) =
      \<lparr>times_called = 1, inclusive_time = 19, exclusive_time = 19, max_call_time = 19\<rparr>"
    by (simp_all add: stats0_def)
  ultimately show ?thesis by (intro exI [of _ m'] conjI) (simp_all add: add_stats_def)
qed

end
