(* ===== verification/Analyzer.thy ===== *)
theory Analyzer
  imports Shadow_Stack
begin

text \<open>
  \<^verbatim>\<open>collector/analyzer.h\<close> and \<^verbatim>\<open>collector/src/analyzer.cpp\<close>: one shadow stack
  and one statistics map per thread. The collector calls \<^verbatim>\<open>accept_calls\<close> with the
  batches of all threads in the order it reads them.
\<close>

record 'k thread_analyzer =
  ta_statistics :: "'k nodes_map"
  ta_stack :: "'k shadow_stack"

definition thread_analyzer_init :: "overhead \<Rightarrow> 'k thread_analyzer" where
  "thread_analyzer_init ov = \<lparr>ta_statistics = [], ta_stack = shadow_stack_init ov\<rparr>"

definition ta_clear :: "'k thread_analyzer \<Rightarrow> 'k thread_analyzer" where
  "ta_clear ta = ta\<lparr>ta_statistics := []\<rparr>"

definition ta_size :: "'k thread_analyzer \<Rightarrow> nat" where
  "ta_size ta = length (ta_statistics ta)"

definition ta_accept_calls :: "'k call_record list \<Rightarrow> 'k thread_analyzer \<Rightarrow> 'k thread_analyzer option" where
  "ta_accept_calls calls ta =
     map_option (\<lambda>(ss, m). \<lparr>ta_statistics = m, ta_stack = ss\<rparr>) (update (ta_stack ta) calls (ta_statistics ta))"

record 'k analyzer =
  an_overhead :: overhead
  an_threads :: "(u32, 'k thread_analyzer) umap"

definition analyzer_init :: "overhead \<Rightarrow> 'k analyzer" where
  "analyzer_init ov = \<lparr>an_overhead = ov, an_threads = []\<rparr>"

definition an_clear :: "'k analyzer \<Rightarrow> 'k analyzer" where
  "an_clear an = an\<lparr>an_threads := map (\<lambda>(tid, ta). (tid, ta_clear ta)) (an_threads an)\<rparr>"

definition an_size :: "'k analyzer \<Rightarrow> nat" where
  "an_size an = length (an_threads an)"

fun an_has_data_from :: "(u32 \<times> 'k thread_analyzer) list \<Rightarrow> bool" where
  "an_has_data_from [] = False"
| "an_has_data_from (i # is) = (if ta_size (snd i) \<noteq> 0 then True else an_has_data_from is)"

definition an_has_data :: "'k analyzer \<Rightarrow> bool" where
  "an_has_data an = an_has_data_from (an_threads an)"

definition an_accept_calls :: "u32 \<Rightarrow> 'k call_record list \<Rightarrow> 'k analyzer \<Rightarrow> 'k analyzer option" where
  "an_accept_calls threadid calls an =
     (let threads = (case um_find (an_threads an) threadid of
            None \<Rightarrow> um_insert threadid (thread_analyzer_init (an_overhead an)) (an_threads an)
          | Some _ \<Rightarrow> an_threads an)
      in case um_find threads threadid of None \<Rightarrow> None
         | Some ta \<Rightarrow> map_option (\<lambda>ta'. an\<lparr>an_threads := um_assign threadid ta' threads\<rparr>) (ta_accept_calls calls ta))"

text \<open>The batches of a reading session, in order.\<close>

fun an_accept_all :: "(u32 \<times> 'k call_record list) list \<Rightarrow> 'k analyzer \<Rightarrow> 'k analyzer option" where
  "an_accept_all [] an = Some an"
| "an_accept_all (b # bs) an = Option.bind (an_accept_calls (fst b) (snd b) an) (an_accept_all bs)"

section \<open>Threads do not interfere\<close>

definition ta_ok :: "'k thread_analyzer \<Rightarrow> bool" where
  "ta_ok ta \<longleftrightarrow> linked (stack (ta_stack ta))"

lemma ta_ok_init: "ta_ok (thread_analyzer_init ov)"
  by (simp add: ta_ok_def thread_analyzer_init_def)

lemma ta_ok_accept: "ta_ok ta \<Longrightarrow> ta_accept_calls calls ta = Some ta' \<Longrightarrow> ta_ok ta'"
  by (auto simp: ta_ok_def ta_accept_calls_def dest: update_stack_ok(2))

lemma ta_accept_append:
  "ta_ok ta \<Longrightarrow> ta_accept_calls (xs @ ys) ta = Option.bind (ta_accept_calls xs ta) (ta_accept_calls ys)"
  unfolding ta_ok_def ta_accept_calls_def
  by (simp add: update_append [of "ta_stack ta"] bind_map_option map_option_bind comp_def case_prod_unfold)

text \<open>The records of one thread in a list of batches.\<close>

definition thread_trace :: "u32 \<Rightarrow> (u32 \<times> 'k call_record list) list \<Rightarrow> 'k call_record list" where
  "thread_trace tid bs = concat (map snd (filter (\<lambda>b. fst b = tid) bs))"

definition thread_state :: "u32 \<Rightarrow> 'k analyzer \<Rightarrow> 'k thread_analyzer" where
  "thread_state tid an =
     (case um_find (an_threads an) tid of None \<Rightarrow> thread_analyzer_init (an_overhead an) | Some ta \<Rightarrow> ta)"

definition an_ok :: "'k analyzer \<Rightarrow> bool" where
  "an_ok an \<longleftrightarrow> (\<forall>tid. ta_ok (thread_state tid an))"

lemma accept_thread_state:
  assumes "an_accept_calls tid calls an = Some an'"
  shows "ta_accept_calls calls (thread_state tid an) = Some (thread_state tid an')"
    and "tid' \<noteq> tid \<Longrightarrow> um_find (an_threads an') tid' = um_find (an_threads an) tid'"
    and "um_find (an_threads an') tid \<noteq> None"
    and "an_overhead an' = an_overhead an"
  using assms
  by (auto simp: an_accept_calls_def thread_state_def Let_def dict_simps split: option.splits if_splits)

lemma thread_state_cong:
  "um_find (an_threads an) tid = um_find (an_threads an') tid \<Longrightarrow> an_overhead an = an_overhead an' \<Longrightarrow>
    thread_state tid an = thread_state tid an'"
  by (simp add: thread_state_def split: option.splits)

lemma accept_an_ok:
  assumes "an_ok an" "an_accept_calls tid calls an = Some an'"
  shows "an_ok an'"
  unfolding an_ok_def
proof
  fix tid'
  note st = accept_thread_state [OF assms(2)]
  show "ta_ok (thread_state tid' an')"
  proof (cases "tid' = tid")
    case True
    with st(1) assms(1) ta_ok_accept show ?thesis by (auto simp: an_ok_def)
  next
    case False
    with st(2,4) have "thread_state tid' an' = thread_state tid' an" by (auto intro: thread_state_cong)
    with assms(1) show ?thesis by (simp add: an_ok_def)
  qed
qed


lemma accept_all_thread:
  "an_ok an \<Longrightarrow> an_accept_all bs an = Some an' \<Longrightarrow>
    (if tid \<in> fst ` set bs
     then ta_accept_calls (thread_trace tid bs) (thread_state tid an) = Some (thread_state tid an') \<and>
       um_find (an_threads an') tid \<noteq> None
     else um_find (an_threads an') tid = um_find (an_threads an) tid) \<and> an_overhead an' = an_overhead an"
proof (induction bs arbitrary: an)
  case Nil
  then show ?case by simp
next
  case (Cons b bs)
  obtain t calls where b: "b = (t, calls)" by (cases b)
  with Cons.prems(2) obtain an1 where an1: "an_accept_calls t calls an = Some an1"
    and rest: "an_accept_all bs an1 = Some an'"
    by (auto simp: bind_eq_Some_conv)
  note st = accept_thread_state [OF an1]
  note ih = Cons.IH [OF accept_an_ok [OF Cons.prems(1) an1] rest]
  show ?case
  proof (cases "t = tid")
    case True
    have "ta_ok (thread_state tid an)" using Cons.prems(1) by (simp add: an_ok_def)
    then have "ta_accept_calls (thread_trace tid (b # bs)) (thread_state tid an) =
      ta_accept_calls (thread_trace tid bs) (thread_state tid an1)"
      using st(1) True by (simp add: thread_trace_def b ta_accept_append)
    moreover have "thread_trace tid bs = [] \<and> thread_state tid an' = thread_state tid an1" if "tid \<notin> fst ` set bs"
      using ih that by (auto simp: thread_trace_def filter_empty_conv image_iff intro: thread_state_cong)
    moreover have "ta_accept_calls [] (thread_state tid an1) = Some (thread_state tid an1)"
      using st(1) True Cons.prems(1) ta_accept_append [of "thread_state tid an" calls "[]"]
      by (simp add: an_ok_def)
    ultimately show ?thesis using ih st True by (auto simp: b split: if_splits)
  next
    case False
    then have "thread_state tid an1 = thread_state tid an" "um_find (an_threads an1) tid = um_find (an_threads an) tid"
      using st(2) [of tid] st(4) by (auto intro: thread_state_cong)
    with ih st(4) False show ?thesis by (auto simp: b thread_trace_def split: if_splits)
  qed
qed

lemma an_ok_init: "an_ok (analyzer_init ov)"
  by (simp add: an_ok_def thread_state_def analyzer_init_def ta_ok_init)

section \<open>Properties\<close>

text \<open>
  C7. Batches of different threads may arrive interleaved in any order and cut in any way: what the
  analyzer holds for a thread is what a fresh shadow stack computes from that thread's own records
  joined together, and a thread no batch came from has no entry.
\<close>

theorem threads_are_independent:
  assumes "an_accept_all bs (analyzer_init ov) = Some an"
  shows "um_find (an_threads an) tid =
    (if tid \<in> fst ` set bs
     then map_option (\<lambda>(ss, m). \<lparr>ta_statistics = m, ta_stack = ss\<rparr>)
       (update (shadow_stack_init ov) (thread_trace tid bs) [])
     else None)"
proof -
  have init: "thread_state tid (analyzer_init ov) = thread_analyzer_init ov"
    "um_find (an_threads (analyzer_init ov)) tid = None"
    by (simp_all add: thread_state_def analyzer_init_def)
  have "an_overhead (analyzer_init ov) = ov" by (simp add: analyzer_init_def)
  with accept_all_thread [OF an_ok_init assms, of tid] show ?thesis unfolding init
    by (auto simp: ta_accept_calls_def thread_analyzer_init_def thread_state_def split: if_splits option.splits)
qed

lemma threads_are_independent_witness:
  "um_find (an_threads \<lparr>an_overhead = \<lparr>inner = 0, outer = 0\<rparr>, an_threads =
      [(1, \<lparr>ta_statistics = [(7::nat, Node \<lparr>times_called = 1, inclusive_time = 5, exclusive_time = 5,
             max_call_time = 5\<rparr> [])],
         ta_stack = \<lparr>inner_overhead = 0, total_overhead = 0, stack = [\<lparr>sr_callee = None, enter_at = 0,
           children_time_observed = 5, children_overhead = 0, sr_function = [], sr_callees = []\<rparr>]\<rparr>\<rparr>),
       (2, \<lparr>ta_statistics = [(7, Node function_statistics_init [])],
         ta_stack = \<lparr>inner_overhead = 0, total_overhead = 0, stack = [\<lparr>sr_callee = Some 7, enter_at = 4,
           children_time_observed = 0, children_overhead = 0, sr_function = [7], sr_callees = [7]\<rparr>,
           bottom_record]\<rparr>\<rparr>)]\<rparr>) (1 :: u32) =
    map_option (\<lambda>(ss, m). \<lparr>ta_statistics = m, ta_stack = ss\<rparr>)
      (update (shadow_stack_init \<lparr>inner = 0, outer = 0\<rparr>)
        [\<lparr>timestamp = 3, callee = Some 7\<rparr>, \<lparr>timestamp = 8, callee = None\<rparr>] [])"
proof -
  let ?bs = "[(1 :: u32, [\<lparr>timestamp = 3, callee = Some (7::nat)\<rparr>]), (2, [\<lparr>timestamp = 4, callee = Some 7\<rparr>]),
     (1, [\<lparr>timestamp = 8, callee = None\<rparr>])]"
  let ?an = "\<lparr>an_overhead = \<lparr>inner = 0, outer = 0\<rparr>, an_threads =
      [(1 :: u32, \<lparr>ta_statistics = [(7::nat, Node \<lparr>times_called = 1, inclusive_time = 5, exclusive_time = 5,
             max_call_time = 5\<rparr> [])],
         ta_stack = \<lparr>inner_overhead = 0, total_overhead = 0, stack = [\<lparr>sr_callee = None, enter_at = 0,
           children_time_observed = 5, children_overhead = 0, sr_function = [], sr_callees = []\<rparr>]\<rparr>\<rparr>),
       (2, \<lparr>ta_statistics = [(7, Node function_statistics_init [])],
         ta_stack = \<lparr>inner_overhead = 0, total_overhead = 0, stack = [\<lparr>sr_callee = Some 7, enter_at = 4,
           children_time_observed = 0, children_overhead = 0, sr_function = [7], sr_callees = [7]\<rparr>,
           bottom_record]\<rparr>\<rparr>)]\<rparr>"
  have "an_accept_all ?bs (analyzer_init \<lparr>inner = 0, outer = 0\<rparr>) = Some ?an"
    by (simp add: an_accept_calls_def analyzer_init_def thread_analyzer_init_def ta_accept_calls_def shadow_stack_eval)
  from threads_are_independent [OF this, of 1] show ?thesis by (simp add: thread_trace_def)
qed

end
