(* ===== verification/Calls_Collector.thy ===== *)
theory Calls_Collector
  imports Analyzer
begin

text \<open>
  \<^verbatim>\<open>collector/calls_collector_thread.h\<close> and \<^verbatim>\<open>.cpp\<close>: what an instrumented thread does on
  entry and exit of a function. The return stack, a \<^verbatim>\<open>pod_vector\<close> of return entries, is a list
  with \<^verbatim>\<open>back()\<close> at its head; at its bottom lies a sentinel with the highest stack pointer.
  The queue the records go to is the base class of the source; here it is reached through the
  interface \<open>trace_queue\<close>, its push operation an argument of the definitions. Reading
  \<^verbatim>\<open>back()\<close> of an empty stack is undefined and yields \<^const>\<open>None\<close>, as does a push that never
  returns.
\<close>

section \<open>The thread collector\<close>

record 'q calls_collector_thread =
  cct_queue :: 'q
  return_stack :: "return_entry list"

definition sentinel :: return_entry where
  "sentinel = \<lparr>stack_ptr = - 1, return_address = 0\<rparr>"

definition calls_collector_thread_init :: "'q \<Rightarrow> 'q calls_collector_thread" where
  "calls_collector_thread_init q = \<lparr>cct_queue = q, return_stack = [sentinel]\<rparr>"

definition track ::
  "('k call_record \<Rightarrow> 'q \<Rightarrow> 'q option) \<Rightarrow> 'k option \<Rightarrow> timestamp_t \<Rightarrow> 'q calls_collector_thread \<Rightarrow>
   'q calls_collector_thread option" where
  "track push f t c =
     map_option (\<lambda>q. c\<lparr>cct_queue := q\<rparr>) (push \<lparr>timestamp = t, callee = f\<rparr> (cct_queue c))"

text \<open>\<open>at_sp\<close> is \<^verbatim>\<open>*stack_ptr\<close>, the return address the caller left on the machine stack.\<close>

definition on_enter ::
  "('k call_record \<Rightarrow> 'q \<Rightarrow> 'q option) \<Rightarrow> u64 \<Rightarrow> u64 \<Rightarrow> timestamp_t \<Rightarrow> 'k \<Rightarrow> 'q calls_collector_thread \<Rightarrow>
   'q calls_collector_thread option" where
  "on_enter push sp at_sp t f c =
     (case return_stack c of [] \<Rightarrow> None
      | back # _ \<Rightarrow>
        Option.bind
          (if stack_ptr back \<noteq> sp
           then Some (c\<lparr>return_stack := \<lparr>stack_ptr = sp, return_address = at_sp\<rparr> # return_stack c\<rparr>)
           else track push None t c)
          (track push (Some f) t))"

text \<open>The \<^verbatim>\<open>do\<close> loop of \<^verbatim>\<open>on_exit\<close>, on the return stack and the queue.\<close>

fun exit_loop ::
  "('k call_record \<Rightarrow> 'q \<Rightarrow> 'q option) \<Rightarrow> u64 \<Rightarrow> timestamp_t \<Rightarrow> return_entry list \<Rightarrow> 'q \<Rightarrow>
   (u64 \<times> return_entry list \<times> 'q) option" where
  "exit_loop push sp t [] q = None"
| "exit_loop push sp t (e # es) q =
     (case push \<lparr>timestamp = t, callee = None\<rparr> q of None \<Rightarrow> None
      | Some q' \<Rightarrow>
        (case es of [] \<Rightarrow> None
         | back # _ \<Rightarrow> if stack_ptr back \<le> sp then exit_loop push sp t es q'
                       else Some (return_address e, es, q')))"

definition on_exit ::
  "('k call_record \<Rightarrow> 'q \<Rightarrow> 'q option) \<Rightarrow> u64 \<Rightarrow> timestamp_t \<Rightarrow> 'q calls_collector_thread \<Rightarrow>
   (u64 \<times> 'q calls_collector_thread) option" where
  "on_exit push sp t c =
     map_option (\<lambda>(ra, es, q). (ra, c\<lparr>return_stack := es, cct_queue := q\<rparr>))
       (exit_loop push sp t (return_stack c) (cct_queue c))"

text \<open>
  The hooks an instrumented thread runs through, one after the other, with the addresses
  \<^verbatim>\<open>on_exit\<close> has the thread return to.
\<close>

datatype 'k hook = Entered u64 u64 timestamp_t 'k | Left u64 timestamp_t

fun run_hook ::
  "('k call_record \<Rightarrow> 'q \<Rightarrow> 'q option) \<Rightarrow> 'k hook \<Rightarrow> 'q calls_collector_thread \<Rightarrow>
   (u64 list \<times> 'q calls_collector_thread) option" where
  "run_hook push (Entered sp at_sp t f) c = map_option (Pair []) (on_enter push sp at_sp t f c)"
| "run_hook push (Left sp t) c = map_option (\<lambda>(ra, c'). ([ra], c')) (on_exit push sp t c)"

fun run_hooks ::
  "('k call_record \<Rightarrow> 'q \<Rightarrow> 'q option) \<Rightarrow> 'k hook list \<Rightarrow> 'q calls_collector_thread \<Rightarrow>
   (u64 list \<times> 'q calls_collector_thread) option" where
  "run_hooks push [] c = Some ([], c)"
| "run_hooks push (h # hs) c =
     Option.bind (run_hook push h c) (\<lambda>(ras, c1).
       map_option (\<lambda>(ras', c2). (ras @ ras', c2)) (run_hooks push hs c1))"

lemma run_hooks_append:
  "run_hooks push (hs @ hs') c =
     Option.bind (run_hooks push hs c) (\<lambda>(ras, c1).
       map_option (\<lambda>(ras', c2). (ras @ ras', c2)) (run_hooks push hs' c1))"
proof (induction hs arbitrary: c)
  case (Cons h hs)
  show ?case
  proof (cases "run_hook push h c")
    case (Some r)
    obtain ras c1 where r: "r = (ras, c1)" by fastforce
    show ?thesis
      by (cases "run_hooks push hs c1") (auto simp: Some r Cons.IH option.map_comp comp_def case_prod_unfold)
  qed simp
qed (simp add: option.map_id)

section \<open>The interface of the queue\<close>

text \<open>Nesting depth of a trace prefix; \<^const>\<open>None\<close> when it closes a call that is not open.\<close>

fun depth_after :: "'k call_record list \<Rightarrow> nat \<Rightarrow> nat option" where
  "depth_after [] d = Some d"
| "depth_after (r # rs) d =
     (case callee r of Some _ \<Rightarrow> depth_after rs (Suc d)
      | None \<Rightarrow> (case d of 0 \<Rightarrow> None | Suc d' \<Rightarrow> depth_after rs d'))"

lemma depth_after_append: "depth_after (xs @ ys) d = Option.bind (depth_after xs d) (depth_after ys)"
  by (induction xs d rule: depth_after.induct) (auto split: option.splits nat.splits)

locale trace_queue =
  fixes push :: "'k call_record \<Rightarrow> 'q \<Rightarrow> 'q option"
    and pending :: "'q \<Rightarrow> 'k call_record list"
    and ok :: "'q \<Rightarrow> bool"
  assumes push_ok: "ok q \<Longrightarrow> push r q = Some q' \<Longrightarrow> ok q'"
    and push_pending: "ok q \<Longrightarrow> push r q = Some q' \<Longrightarrow> pending q' = pending q @ [r]"
begin

lemma track_pending:
  assumes "ok (cct_queue c)" "track push f t c = Some c'"
  shows "ok (cct_queue c')" "return_stack c' = return_stack c"
    "pending (cct_queue c') = pending (cct_queue c) @ [\<lparr>timestamp = t, callee = f\<rparr>]"
  using assms by (auto simp: track_def push_ok push_pending)

text \<open>On entry the top of the return stack stays in step with the records emitted.\<close>

lemma on_enter_pending:
  assumes "ok (cct_queue c)" "on_enter push sp a t f c = Some c'"
  shows "ok (cct_queue c')" "return_stack c \<noteq> []"
    "pending (cct_queue c') = pending (cct_queue c) @
       (if stack_ptr (hd (return_stack c)) = sp then [\<lparr>timestamp = t, callee = None\<rparr>] else []) @
       [\<lparr>timestamp = t, callee = Some f\<rparr>]"
    "return_stack c' = (if stack_ptr (hd (return_stack c)) = sp then return_stack c
       else \<lparr>stack_ptr = sp, return_address = a\<rparr> # return_stack c)"
proof -
  from assms(2) obtain b bs where rs: "return_stack c = b # bs" by (auto simp: on_enter_def split: list.splits)
  have "ok (cct_queue c') \<and> pending (cct_queue c') = pending (cct_queue c) @
       (if stack_ptr b = sp then [\<lparr>timestamp = t, callee = None\<rparr>] else []) @ [\<lparr>timestamp = t, callee = Some f\<rparr>] \<and>
    return_stack c' = (if stack_ptr b = sp then return_stack c
       else \<lparr>stack_ptr = sp, return_address = a\<rparr> # return_stack c)"
  proof (cases "stack_ptr b = sp")
    case True
    with assms(2) rs obtain c1 where c1: "track push None t c = Some c1" "track push (Some f) t c1 = Some c'"
      by (auto simp: on_enter_def bind_eq_Some_conv)
    note t1 = track_pending [OF assms(1) c1(1)] and t2 = track_pending [OF track_pending(1) [OF assms(1) c1(1)] c1(2)]
    from t1 t2 rs True show ?thesis by simp
  next
    case False
    let ?c = "c\<lparr>return_stack := \<lparr>stack_ptr = sp, return_address = a\<rparr> # return_stack c\<rparr>"
    have "track push (Some f) t ?c = Some c'" using assms(2) rs False by (simp add: on_enter_def)
    with track_pending [of ?c "Some f" t c'] assms(1) rs False show ?thesis by simp
  qed
  with rs show "ok (cct_queue c')" "return_stack c \<noteq> []"
    "pending (cct_queue c') = pending (cct_queue c) @
       (if stack_ptr (hd (return_stack c)) = sp then [\<lparr>timestamp = t, callee = None\<rparr>] else []) @
       [\<lparr>timestamp = t, callee = Some f\<rparr>]"
    "return_stack c' = (if stack_ptr (hd (return_stack c)) = sp then return_stack c
       else \<lparr>stack_ptr = sp, return_address = a\<rparr> # return_stack c)" by simp_all
qed

lemma exit_loop_pending:
  "ok q \<Longrightarrow> exit_loop push sp t es q = Some (ra, es', q') \<Longrightarrow>
    ok q' \<and> es' \<noteq> [] \<and> sp < stack_ptr (hd es') \<and>
    (\<exists>popped e. es = popped @ e # es' \<and> ra = return_address e \<and>
      (\<forall>x\<in>set (tl (popped @ [e])). stack_ptr x \<le> sp) \<and>
      pending q' = pending q @ replicate (Suc (length popped)) \<lparr>timestamp = t, callee = None\<rparr>)"
proof (induction es arbitrary: q)
  case (Cons e es)
  then obtain q1 b bs where q1: "push \<lparr>timestamp = t, callee = None\<rparr> q = Some q1" and es: "es = b # bs"
    by (auto split: option.splits list.splits)
  note q1ok = push_ok [OF Cons.prems(1) q1] push_pending [OF Cons.prems(1) q1]
  show ?case
  proof (cases "stack_ptr b \<le> sp")
    case True
    then have "exit_loop push sp t es q1 = Some (ra, es', q')" using Cons.prems(2) q1 es by simp
    from Cons.IH [OF q1ok(1) this] obtain popped e' where ih: "ok q'" "es' \<noteq> []" "sp < stack_ptr (hd es')"
      "es = popped @ e' # es'" "ra = return_address e'" "\<forall>x\<in>set (tl (popped @ [e'])). stack_ptr x \<le> sp"
      "pending q' = pending q1 @ replicate (Suc (length popped)) \<lparr>timestamp = t, callee = None\<rparr>" by blast
    have "hd (popped @ [e']) = b" using ih(4) es by (cases popped) auto
    then have "\<forall>x\<in>set (popped @ [e']). stack_ptr x \<le> sp" using True ih(6) by (cases popped) auto
    with ih q1ok show ?thesis by (intro conjI exI [of _ "e # popped"] exI [of _ e']) auto
  next
    case False
    with Cons.prems(2) q1 es q1ok show ?thesis
      by (intro conjI exI [of _ "[]"] exI [of _ e]) auto
  qed
qed simp

end

text \<open>
  The return stack is in order when the sentinel lies at its bottom and only there. A machine stack
  pointer is never the all-ones address of the sentinel.
\<close>

definition returns_ok :: "return_entry list \<Rightarrow> bool" where
  "returns_ok es \<longleftrightarrow> (\<exists>fs. es = fs @ [sentinel] \<and> (\<forall>e\<in>set fs. stack_ptr e \<noteq> - 1))"

fun hook_ok :: "'k hook \<Rightarrow> bool" where
  "hook_ok (Entered sp _ _ _) \<longleftrightarrow> sp \<noteq> - 1"
| "hook_ok (Left sp _) \<longleftrightarrow> sp \<noteq> - 1"

definition open_calls :: "'q calls_collector_thread \<Rightarrow> nat" where
  "open_calls c = length (return_stack c) - 1"

lemma returns_ok_init: "returns_ok [sentinel]"
  by (simp add: returns_ok_def)

lemma returns_ok_Cons: "returns_ok es \<Longrightarrow> stack_ptr e \<noteq> - 1 \<Longrightarrow> returns_ok (e # es)"
  unfolding returns_ok_def by (metis append_Cons set_ConsD)

lemma returns_ok_suffix: "returns_ok (xs @ ys) \<Longrightarrow> ys \<noteq> [] \<Longrightarrow> returns_ok ys"
proof (induction xs)
  case (Cons x xs)
  then obtain fs where "x # xs @ ys = fs @ [sentinel]" "\<forall>e\<in>set fs. stack_ptr e \<noteq> - 1" "xs @ ys \<noteq> []"
    by (auto simp: returns_ok_def)
  then have "returns_ok (xs @ ys)" unfolding returns_ok_def by (cases fs) auto
  with Cons show ?case by blast
qed simp

lemma returns_ok_nonempty: "returns_ok es \<Longrightarrow> es \<noteq> []"
  by (auto simp: returns_ok_def)

lemma returns_ok_head: "returns_ok (e # es) \<Longrightarrow> stack_ptr e \<noteq> - 1 \<Longrightarrow> es \<noteq> []"
  by (auto simp: returns_ok_def sentinel_def)

lemma depth_after_exits: "depth_after (replicate n \<lparr>timestamp = t, callee = None\<rparr>) (n + d) = Some d"
  by (induction n) simp_all

context trace_queue
begin

text \<open>Every hook leaves as many calls open in the trace as there are return entries above the sentinel.\<close>

lemma run_hook_depth:
  assumes "ok (cct_queue c)" "returns_ok (return_stack c)" "hook_ok h" "run_hook push h c = Some (ras, c')"
  shows "ok (cct_queue c') \<and> returns_ok (return_stack c') \<and>
    (\<exists>emitted. pending (cct_queue c') = pending (cct_queue c) @ emitted \<and>
      depth_after emitted (open_calls c) = Some (open_calls c'))"
proof (cases h)
  case (Entered sp a t f)
  with assms(4) have "on_enter push sp a t f c = Some c'" by simp
  note e = on_enter_pending [OF assms(1) this]
  let ?tail = "if stack_ptr (hd (return_stack c)) = sp then [\<lparr>timestamp = t, callee = None\<rparr>] else []"
  obtain b bs where rs: "return_stack c = b # bs" using returns_ok_nonempty [OF assms(2)] by (cases "return_stack c") auto
  have "stack_ptr b = sp \<Longrightarrow> bs \<noteq> []" using returns_ok_head [of b bs] assms(2,3) Entered rs by auto
  then have "depth_after (?tail @ [\<lparr>timestamp = t, callee = Some f\<rparr>]) (open_calls c) = Some (open_calls c')"
    using e(4) rs by (cases bs) (auto simp: open_calls_def split: nat.splits)
  moreover have "returns_ok (return_stack c')" using e(4) assms(2,3) Entered returns_ok_Cons by auto
  ultimately show ?thesis using e by blast
next
  case (Left sp t)
  with assms(4) obtain ra where "exit_loop push sp t (return_stack c) (cct_queue c) = Some (ra, return_stack c', cct_queue c')"
    by (auto simp: on_exit_def)
  from exit_loop_pending [OF assms(1) this] obtain popped e where x: "ok (cct_queue c')" "return_stack c' \<noteq> []"
    "return_stack c = popped @ e # return_stack c'"
    "pending (cct_queue c') = pending (cct_queue c) @ replicate (Suc (length popped)) \<lparr>timestamp = t, callee = None\<rparr>"
    by blast
  have "open_calls c = Suc (length popped) + open_calls c'" using x(2,3) by (cases "return_stack c'") (auto simp: open_calls_def)
  then have "depth_after (replicate (Suc (length popped)) \<lparr>timestamp = t, callee = None\<rparr>) (open_calls c) =
      Some (open_calls c')" by (metis depth_after_exits)
  moreover have "returns_ok (return_stack c')" using returns_ok_suffix [of "popped @ [e]"] assms(2) x(2,3) by simp
  ultimately show ?thesis using x(1,4) by blast
qed

lemma run_hooks_depth:
  "ok (cct_queue c) \<Longrightarrow> returns_ok (return_stack c) \<Longrightarrow> list_all hook_ok hs \<Longrightarrow> run_hooks push hs c = Some (ras, c') \<Longrightarrow>
    ok (cct_queue c') \<and> returns_ok (return_stack c') \<and>
    (\<exists>emitted. pending (cct_queue c') = pending (cct_queue c) @ emitted \<and>
      depth_after emitted (open_calls c) = Some (open_calls c'))"
proof (induction hs arbitrary: c ras)
  case (Cons h hs)
  then obtain r1 r2 c1 where c1: "run_hook push h c = Some (r1, c1)" "run_hooks push hs c1 = Some (r2, c')"
    by (auto simp: bind_eq_Some_conv)
  from run_hook_depth [OF Cons.prems(1,2) _ c1(1)] Cons.prems(3) obtain e1 where e1: "ok (cct_queue c1)"
    "returns_ok (return_stack c1)" "pending (cct_queue c1) = pending (cct_queue c) @ e1"
    "depth_after e1 (open_calls c) = Some (open_calls c1)" by auto
  from Cons.IH [OF e1(1,2) _ c1(2)] Cons.prems(3) obtain e2 where "ok (cct_queue c')"
    "returns_ok (return_stack c')" "pending (cct_queue c') = pending (cct_queue c1) @ e2"
    "depth_after e2 (open_calls c1) = Some (open_calls c')" by auto
  with e1 show ?case by (auto simp: depth_after_append)
qed simp

end

section \<open>What the program did\<close>

text \<open>
  A call as the program makes it: the function, its frame (stack pointer and return address), the
  calls it makes, a chain of tail calls that take over the frame, and the time of the return. A tail
  call finds some other word at the frame's stack pointer, since the hook has replaced the return
  address there.
\<close>

datatype 'k exec = Exec 'k u64 u64 timestamp_t "'k exec list" "'k tail_call list" timestamp_t
  and 'k tail_call = Tail u64 'k timestamp_t "'k exec list"

primrec exec_hooks :: "'k exec \<Rightarrow> 'k hook list"
  and tail_hooks :: "'k tail_call \<Rightarrow> u64 \<Rightarrow> 'k hook list" where
  "exec_hooks (Exec f sp ra t body tails t') =
     Entered sp ra t f # concat (map exec_hooks body) @ concat (map (\<lambda>h. h sp) (map tail_hooks tails)) @ [Left sp t']"
| "tail_hooks (Tail w g t body) = (\<lambda>sp. Entered sp w t g # concat (map exec_hooks body))"

primrec exec_records :: "'k exec \<Rightarrow> 'k call_record list"
  and tail_records :: "'k tail_call \<Rightarrow> 'k call_record list" where
  "exec_records (Exec f sp ra t body tails t') =
     \<lparr>timestamp = t, callee = Some f\<rparr> # concat (map exec_records body) @ concat (map tail_records tails) @
     [\<lparr>timestamp = t', callee = None\<rparr>]"
| "tail_records (Tail w g t body) =
     \<lparr>timestamp = t, callee = None\<rparr> # \<lparr>timestamp = t, callee = Some g\<rparr> # concat (map exec_records body)"

text \<open>The addresses the program returns to, in order.\<close>

primrec exec_returns :: "'k exec \<Rightarrow> u64 list"
  and tail_returns :: "'k tail_call \<Rightarrow> u64 list" where
  "exec_returns (Exec f sp ra t body tails t') =
     concat (map exec_returns body) @ concat (map tail_returns tails) @ [ra]"
| "tail_returns (Tail w g t body) = concat (map exec_returns body)"

text \<open>Frames of calls lie below the frame of the caller: the machine stack grows down.\<close>

primrec exec_below :: "'k exec \<Rightarrow> u64 \<Rightarrow> bool"
  and tail_below :: "'k tail_call \<Rightarrow> u64 \<Rightarrow> bool" where
  "exec_below (Exec f sp ra t body tails t') =
     (\<lambda>limit. sp < limit \<and> list_all (\<lambda>b. b sp) (map exec_below body) \<and> list_all (\<lambda>b. b sp) (map tail_below tails))"
| "tail_below (Tail w g t body) = (\<lambda>limit. list_all (\<lambda>b. b limit) (map exec_below body))"

context trace_queue
begin

definition runs_as :: "'k hook list \<Rightarrow> u64 list \<Rightarrow> 'k call_record list \<Rightarrow> return_entry list \<Rightarrow> return_entry list \<Rightarrow> bool" where
  "runs_as hs ras rs es es' \<longleftrightarrow>
     (\<forall>c c' ras'. ok (cct_queue c) \<longrightarrow> return_stack c = es \<longrightarrow> run_hooks push hs c = Some (ras', c') \<longrightarrow>
        ok (cct_queue c') \<and> return_stack c' = es' \<and> ras' = ras \<and> pending (cct_queue c') = pending (cct_queue c) @ rs)"

lemma runs_as_Nil: "runs_as [] [] [] es es"
  by (simp add: runs_as_def)

lemma runs_as_append:
  "runs_as hs ras rs es es1 \<Longrightarrow> runs_as hs' ras' rs' es1 es' \<Longrightarrow> runs_as (hs @ hs') (ras @ ras') (rs @ rs') es es'"
  unfolding runs_as_def
proof (intro allI impI)
  fix c c' r assume *: "\<forall>c c' ras'. ok (cct_queue c) \<longrightarrow> return_stack c = es \<longrightarrow> run_hooks push hs c = Some (ras', c') \<longrightarrow>
        ok (cct_queue c') \<and> return_stack c' = es1 \<and> ras' = ras \<and> pending (cct_queue c') = pending (cct_queue c) @ rs"
    "\<forall>c c' ras''. ok (cct_queue c) \<longrightarrow> return_stack c = es1 \<longrightarrow> run_hooks push hs' c = Some (ras'', c') \<longrightarrow>
        ok (cct_queue c') \<and> return_stack c' = es' \<and> ras'' = ras' \<and> pending (cct_queue c') = pending (cct_queue c) @ rs'"
    and c: "ok (cct_queue c)" "return_stack c = es" "run_hooks push (hs @ hs') c = Some (r, c')"
  from c(3) obtain r1 r2 c1 where c1: "run_hooks push hs c = Some (r1, c1)" "run_hooks push hs' c1 = Some (r2, c')" "r = r1 @ r2"
    by (auto simp: run_hooks_append bind_eq_Some_conv)
  from *(1) [rule_format, OF c(1,2) c1(1)] have s1: "ok (cct_queue c1)" "return_stack c1 = es1" "r1 = ras"
    "pending (cct_queue c1) = pending (cct_queue c) @ rs" by simp_all
  from *(2) [rule_format, OF s1(1,2) c1(2)] s1 c1(3)
  show "ok (cct_queue c') \<and> return_stack c' = es' \<and> r = ras @ ras' \<and> pending (cct_queue c') = pending (cct_queue c) @ rs @ rs'"
    by simp
qed

lemma runs_as_concat:
  "list_all (\<lambda>x. runs_as (h x) (a x) (r x) es es) xs \<Longrightarrow>
    runs_as (concat (map h xs)) (concat (map a xs)) (concat (map r xs)) es es"
  by (induction xs) (auto intro: runs_as_Nil runs_as_append)

lemma runs_as_enter:
  assumes "es \<noteq> []" "sp < stack_ptr (hd es)"
  shows "runs_as [Entered sp ra t f] [] [\<lparr>timestamp = t, callee = Some f\<rparr>] es
    (\<lparr>stack_ptr = sp, return_address = ra\<rparr> # es)"
  unfolding runs_as_def
proof (intro allI impI)
  fix c c' ras' assume c: "ok (cct_queue c)" "return_stack c = es" "run_hooks push [Entered sp ra t f] c = Some (ras', c')"
  then have "on_enter push sp ra t f c = Some c'" "ras' = []" by auto
  with on_enter_pending [OF c(1)] c(2) assms show "ok (cct_queue c') \<and>
    return_stack c' = \<lparr>stack_ptr = sp, return_address = ra\<rparr> # es \<and> ras' = [] \<and>
    pending (cct_queue c') = pending (cct_queue c) @ [\<lparr>timestamp = t, callee = Some f\<rparr>]" by (auto simp: less_imp_neq)
qed

lemma runs_as_tail:
  assumes "stack_ptr e = sp"
  shows "runs_as [Entered sp w t f] [] [\<lparr>timestamp = t, callee = None\<rparr>, \<lparr>timestamp = t, callee = Some f\<rparr>] (e # es) (e # es)"
  unfolding runs_as_def
proof (intro allI impI)
  fix c c' ras' assume c: "ok (cct_queue c)" "return_stack c = e # es" "run_hooks push [Entered sp w t f] c = Some (ras', c')"
  then have "on_enter push sp w t f c = Some c'" "ras' = []" by auto
  with on_enter_pending [OF c(1)] c(2) assms show "ok (cct_queue c') \<and> return_stack c' = e # es \<and> ras' = [] \<and>
    pending (cct_queue c') = pending (cct_queue c) @
      [\<lparr>timestamp = t, callee = None\<rparr>, \<lparr>timestamp = t, callee = Some f\<rparr>]" by (auto simp: less_imp_neq)
qed

lemma runs_as_exit:
  assumes "es \<noteq> []" "sp < stack_ptr (hd es)"
  shows "runs_as [Left sp t] [ra] [\<lparr>timestamp = t, callee = None\<rparr>] (\<lparr>stack_ptr = sp, return_address = ra\<rparr> # es) es"
  unfolding runs_as_def using assms
  by (cases es) (auto simp: on_exit_def split: option.splits intro: push_ok push_pending)


lemma exec_runs_as:
  "es \<noteq> [] \<Longrightarrow> exec_below x (stack_ptr (hd es)) \<Longrightarrow>
     runs_as (exec_hooks x) (exec_returns x) (exec_records x) es es"
  "tail_below y (stack_ptr e) \<Longrightarrow>
     runs_as (tail_hooks y (stack_ptr e)) (tail_returns y) (tail_records y) (e # es) (e # es)"
proof (induction x and y arbitrary: es and e es)
  case (Exec f sp ra t body tails t')
  let ?e = "\<lparr>stack_ptr = sp, return_address = ra\<rparr>"
  have sp: "sp < stack_ptr (hd es)" using Exec.prems(2) by simp
  have "list_all (\<lambda>x. runs_as (exec_hooks x) (exec_returns x) (exec_records x) (?e # es) (?e # es)) body"
    using Exec.IH(1) [of _ "?e # es"] Exec.prems(2) by (auto simp: list_all_iff)
  note b = runs_as_concat [OF this]
  have "list_all (\<lambda>y. runs_as (tail_hooks y sp) (tail_returns y) (tail_records y) (?e # es) (?e # es)) tails"
    using Exec.IH(2) [of _ ?e es] Exec.prems(2) by (auto simp: list_all_iff)
  note c = runs_as_concat [OF this]
  from runs_as_append [OF runs_as_enter [OF Exec.prems(1) sp, of ra t f]
      runs_as_append [OF b runs_as_append [OF c runs_as_exit [OF Exec.prems(1) sp, of t' ra]]]]
  show ?case by (simp add: comp_def)
next
  case (Tail w g t body)
  have "list_all (\<lambda>x. runs_as (exec_hooks x) (exec_returns x) (exec_records x) (e # es) (e # es)) body"
    using Tail.IH [of _ "e # es"] Tail.prems by (auto simp: list_all_iff)
  from runs_as_append [OF runs_as_tail [OF refl, of e w t g es] runs_as_concat [OF this]] show ?case by simp
qed

end


text \<open>A queue that takes every record: then the hooks of a program all return.\<close>

locale total_trace_queue = trace_queue +
  assumes push_total: "ok q \<Longrightarrow> \<exists>q'. push r q = Some q'"
begin

definition total_on :: "'a hook list \<Rightarrow> return_entry list \<Rightarrow> bool" where
  "total_on hs es \<longleftrightarrow> (\<forall>c. ok (cct_queue c) \<longrightarrow> return_stack c = es \<longrightarrow> run_hooks push hs c \<noteq> None)"

lemma total_append:
  assumes "total_on hs es" "runs_as hs ras rs es es1" "total_on hs' es1"
  shows "total_on (hs @ hs') es"
  unfolding total_on_def
proof (intro allI impI)
  fix c :: "'b calls_collector_thread" assume c: "ok (cct_queue c)" "return_stack c = es"
  with assms(1) obtain ras' c1 where c1: "run_hooks push hs c = Some (ras', c1)" by (fastforce simp: total_on_def)
  with assms(2) c have "ok (cct_queue c1)" "return_stack c1 = es1" unfolding runs_as_def by blast+
  with assms(3) have "run_hooks push hs' c1 \<noteq> None" by (simp add: total_on_def)
  with c1 show "run_hooks push (hs @ hs') c \<noteq> None" by (auto simp: run_hooks_append)
qed

lemma total_concat:
  "list_all (\<lambda>x. total_on (h x) es \<and> runs_as (h x) (a x) (r x) es es) xs \<Longrightarrow> total_on (concat (map h xs)) es"
  by (induction xs) (auto intro: total_append simp: total_on_def [of "[]"])

lemma total_enter: "es \<noteq> [] \<Longrightarrow> total_on [Entered sp a t f] es"
  unfolding total_on_def
proof (intro allI impI)
  fix c :: "'b calls_collector_thread" assume c: "es \<noteq> []" "ok (cct_queue c)" "return_stack c = es"
  have track: "\<exists>y. track push g t x = Some y \<and> ok (cct_queue y)" if "ok (cct_queue x)" for g x
    using push_total [OF that] push_ok [OF that] by (fastforce simp: track_def)
  from track [OF c(2), of None] obtain c1 where "track push None t c = Some c1" "ok (cct_queue c1)" by blast
  then show "run_hooks push [Entered sp a t f] c \<noteq> None"
    using c track [of c1 "Some f"] track [of "c\<lparr>return_stack := \<lparr>stack_ptr = sp, return_address = a\<rparr> # es\<rparr>" "Some f"]
    by (cases es) (auto simp: on_enter_def)
qed

lemma total_exit: "es \<noteq> [] \<Longrightarrow> sp < stack_ptr (hd es) \<Longrightarrow> total_on [Left sp t] (e # es)"
  unfolding total_on_def
proof (intro allI impI)
  fix c :: "'b calls_collector_thread" assume c: "es \<noteq> []" "sp < stack_ptr (hd es)" "ok (cct_queue c)" "return_stack c = e # es"
  from push_total [OF c(3)] obtain q where "push \<lparr>timestamp = t, callee = None\<rparr> (cct_queue c) = Some q" by blast
  with c show "run_hooks push [Left sp t] c \<noteq> None" by (cases es) (auto simp: on_exit_def)
qed

lemma exec_total:
  "es \<noteq> [] \<Longrightarrow> exec_below x (stack_ptr (hd es)) \<Longrightarrow> total_on (exec_hooks x) es"
  "tail_below y (stack_ptr e) \<Longrightarrow> total_on (tail_hooks y (stack_ptr e)) (e # es)"
proof (induction x and y arbitrary: es and e es)
  case (Exec f sp ra t body tails t')
  let ?e = "\<lparr>stack_ptr = sp, return_address = ra\<rparr>"
  have sp: "sp < stack_ptr (hd es)" using Exec.prems(2) by simp
  have "list_all (\<lambda>x. total_on (exec_hooks x) (?e # es) \<and>
      runs_as (exec_hooks x) (exec_returns x) (exec_records x) (?e # es) (?e # es)) body"
    using Exec.IH(1) [of _ "?e # es"] exec_runs_as(1) [of "?e # es"] Exec.prems(2) by (auto simp: list_all_iff)
  then have b: "total_on (concat (map exec_hooks body)) (?e # es)"
    and br: "runs_as (concat (map exec_hooks body)) (concat (map exec_returns body)) (concat (map exec_records body)) (?e # es) (?e # es)"
    by (auto intro!: total_concat runs_as_concat simp: list_all_iff)
  have "list_all (\<lambda>y. total_on (tail_hooks y sp) (?e # es) \<and>
      runs_as (tail_hooks y sp) (tail_returns y) (tail_records y) (?e # es) (?e # es)) tails"
    using Exec.IH(2) [of _ ?e es] exec_runs_as(2) [of _ ?e es] Exec.prems(2) by (auto simp: list_all_iff)
  then have c: "total_on (concat (map (\<lambda>y. tail_hooks y sp) tails)) (?e # es)"
    and cr: "runs_as (concat (map (\<lambda>y. tail_hooks y sp) tails)) (concat (map tail_returns tails)) (concat (map tail_records tails)) (?e # es) (?e # es)"
    by (auto intro!: total_concat runs_as_concat simp: list_all_iff)
  from total_append [OF total_enter [OF Exec.prems(1), of sp ra t f] runs_as_enter [OF Exec.prems(1) sp]
      total_append [OF b br total_append [OF c cr total_exit [OF Exec.prems(1) sp]]]]
  show ?case by (simp add: comp_def)
next
  case (Tail w g t body)
  have "list_all (\<lambda>x. total_on (exec_hooks x) (e # es) \<and>
      runs_as (exec_hooks x) (exec_returns x) (exec_records x) (e # es) (e # es)) body"
    using Tail.IH [of _ "e # es"] exec_runs_as(1) [of "e # es"] Tail.prems by (auto simp: list_all_iff)
  from total_append [OF total_enter runs_as_tail [OF refl] total_concat [OF this]] show ?case by simp
qed

text \<open>A program that makes calls one after the other from the thread's start.\<close>

lemma program_runs:
  assumes "ok q" "list_all (\<lambda>x. exec_below x (- 1)) xs"
  shows "\<exists>q'. run_hooks push (concat (map exec_hooks xs)) (calls_collector_thread_init q) =
      Some (concat (map exec_returns xs), calls_collector_thread_init q') \<and> ok q' \<and>
    pending q' = pending q @ concat (map exec_records xs)"
proof -
  have "list_all (\<lambda>x. total_on (exec_hooks x) [sentinel] \<and>
      runs_as (exec_hooks x) (exec_returns x) (exec_records x) [sentinel] [sentinel]) xs"
    using exec_total(1) [of "[sentinel]"] exec_runs_as(1) [of "[sentinel]"] assms(2)
    by (auto simp: list_all_iff sentinel_def)
  then have t: "total_on (concat (map exec_hooks xs)) [sentinel]"
    and r: "runs_as (concat (map exec_hooks xs)) (concat (map exec_returns xs)) (concat (map exec_records xs)) [sentinel] [sentinel]"
    by (auto intro!: total_concat runs_as_concat simp: list_all_iff)
  let ?c = "calls_collector_thread_init q"
  have c: "ok (cct_queue ?c)" "return_stack ?c = [sentinel]" using assms(1) by (simp_all add: calls_collector_thread_init_def)
  from t c obtain ras c' where run: "run_hooks push (concat (map exec_hooks xs)) ?c = Some (ras, c')"
    by (fastforce simp: total_on_def)
  with r c have "ok (cct_queue c')" "return_stack c' = [sentinel]" "ras = concat (map exec_returns xs)"
    "pending (cct_queue c') = pending (cct_queue ?c) @ concat (map exec_records xs)" unfolding runs_as_def by blast+
  with run show ?thesis
    by (intro exI [of _ "cct_queue c'"]) (simp add: calls_collector_thread_init_def)
qed

end

text \<open>The simplest queue there is, which the reader has not started to empty.\<close>

definition list_push :: "'k call_record \<Rightarrow> 'k call_record list \<Rightarrow> 'k call_record list option" where
  "list_push r q = Some (q @ [r])"

interpretation list_queue: total_trace_queue list_push "\<lambda>q. q" "\<lambda>_. True"
  by unfold_locales (simp_all add: list_push_def)


section \<open>The calls of a program\<close>

text \<open>
  A chain of tail calls appears in the profile as calls side by side: each ends where the next one
  takes over the frame.
\<close>

fun close_calls :: "('k \<times> timestamp_t \<times> 'k call list) list \<Rightarrow> timestamp_t \<Rightarrow> 'k call list" where
  "close_calls [] t' = []"
| "close_calls [(k, t, cs)] t' = [Call k t cs t']"
| "close_calls ((k, t, cs) # (k2, t2, cs2) # rest) t' = Call k t cs t2 # close_calls ((k2, t2, cs2) # rest) t'"

primrec exec_calls :: "'k exec \<Rightarrow> 'k call list"
  and tail_calls :: "'k tail_call \<Rightarrow> 'k \<times> timestamp_t \<times> 'k call list" where
  "exec_calls (Exec f sp ra t body tails t') =
     close_calls ((f, t, concat (map exec_calls body)) # map tail_calls tails) t'"
| "tail_calls (Tail w g t body) = (g, t, concat (map exec_calls body))"

lemma close_calls_trace:
  "concat (map trace_of (close_calls ((k, t, cs) # segs) t')) =
     \<lparr>timestamp = t, callee = Some k\<rparr> # concat (map trace_of cs) @
     concat (map (\<lambda>(k, t, cs). \<lparr>timestamp = t, callee = None\<rparr> # \<lparr>timestamp = t, callee = Some k\<rparr> # concat (map trace_of cs)) segs) @
     [\<lparr>timestamp = t', callee = None\<rparr>]"
  by (induction segs arbitrary: k t cs) auto

lemma exec_calls_trace:
  fixes x :: "'k exec" and y :: "'k tail_call"
  shows "concat (map trace_of (exec_calls x)) = exec_records x"
  "(case tail_calls y of (k, t, cs) \<Rightarrow>
      \<lparr>timestamp = t, callee = None\<rparr> # \<lparr>timestamp = t, callee = Some k\<rparr> # concat (map trace_of cs)) = tail_records y"
proof (induction x and y)
  case (Exec f sp ra t body tails t')
  have "concat (map trace_of (concat (map exec_calls body))) = concat (map exec_records body)"
    using Exec.IH(1) by (induction body) auto
  moreover have "map (\<lambda>(k, t, cs). \<lparr>timestamp = t, callee = None\<rparr> # \<lparr>timestamp = t, callee = Some k\<rparr> # concat (map trace_of cs))
      (map tail_calls tails) = map tail_records tails"
    using Exec.IH(2) by (induction tails) auto
  ultimately show ?case unfolding exec_calls.simps exec_records.simps close_calls_trace by (simp only:)
next
  case (Tail w g t body)
  then have "concat (map trace_of (concat (map exec_calls body))) = concat (map exec_records body)"
    by (induction body) auto
  then show ?case by simp
qed

lemma program_trace: "concat (map trace_of (concat (map exec_calls xs))) = concat (map exec_records xs)"
  by (induction xs) (simp_all add: exec_calls_trace(1))

section \<open>Properties\<close>

text \<open>
  C26. The hooks are transparent to the program: through nested calls and chains of tail calls every
  function returns to the address it was called from, the trace is the bracketed sequence of the
  calls, and at the end the return stack holds the sentinel alone.
\<close>

theorem hooks_are_transparent:
  assumes "list_all (\<lambda>x. exec_below x (- 1)) xs"
  shows "run_hooks list_push (concat (map exec_hooks xs)) (calls_collector_thread_init []) =
    Some (concat (map exec_returns xs), calls_collector_thread_init (concat (map exec_records xs)))"
  using list_queue.program_runs [OF _ assms, of "[]"] by auto

lemma hooks_are_transparent_witness:
  "run_hooks list_push (exec_hooks (Exec (1::nat) 100 11 3 [Exec 2 90 22 4 [] [Tail 0 3 5 []] 6] [] 8))
    (calls_collector_thread_init []) =
   Some ([22, 11], calls_collector_thread_init
     [\<lparr>timestamp = 3, callee = Some 1\<rparr>, \<lparr>timestamp = 4, callee = Some 2\<rparr>, \<lparr>timestamp = 5, callee = None\<rparr>,
      \<lparr>timestamp = 5, callee = Some 3\<rparr>, \<lparr>timestamp = 6, callee = None\<rparr>, \<lparr>timestamp = 8, callee = None\<rparr>])"
proof -
  have "(100 :: u64) < - 1" "(90 :: u64) < 100" by code_simp+
  then have "list_all (\<lambda>x. exec_below x (- 1)) [Exec (1::nat) 100 11 3 [Exec 2 90 22 4 [] [Tail 0 3 5 []] 6] [] 8]" by simp
  from hooks_are_transparent [OF this] show ?thesis by simp
qed

text \<open>
  An exit that unwinds several frames at once, as after an exception or a jump out of nested
  calls, closes all of them in the trace: every entry with a stack pointer not above the one given
  is taken off, and the thread goes on at the return address of the outermost of them.
\<close>

theorem exit_unwinds_frames:
  assumes "es \<noteq> []" "sp < stack_ptr (hd es)" "\<forall>x\<in>set (tl (popped @ [e])). stack_ptr x \<le> sp"
  shows "on_exit list_push sp t \<lparr>cct_queue = q, return_stack = popped @ e # es\<rparr> =
    Some (return_address e, \<lparr>cct_queue = q @ replicate (Suc (length popped)) \<lparr>timestamp = t, callee = None\<rparr>,
      return_stack = es\<rparr>)"
proof -
  have "exit_loop list_push sp t (popped @ e # es) q =
      Some (return_address e, es, q @ replicate (Suc (length popped)) \<lparr>timestamp = t, callee = None\<rparr>)"
    using assms(3)
  proof (induction popped arbitrary: q)
    case Nil
    with assms(1,2) show ?case by (cases es) (auto simp: list_push_def)
  next
    case (Cons x popped)
    have "\<forall>y\<in>set (tl (popped @ [e])). stack_ptr y \<le> sp" using Cons.prems by (cases popped) auto
    moreover have "stack_ptr (hd (popped @ e # es)) \<le> sp" using Cons.prems by (cases popped) auto
    ultimately show ?case using Cons.IH [of "q @ [\<lparr>timestamp = t, callee = None\<rparr>]"]
      by (cases popped) (auto simp: list_push_def)
  qed
  then show ?thesis by (simp add: on_exit_def)
qed

lemma exit_unwinds_frames_witness:
  "on_exit list_push 80 9 \<lparr>cct_queue = [] :: nat call_record list, return_stack =
     [\<lparr>stack_ptr = 60, return_address = 3\<rparr>, \<lparr>stack_ptr = 70, return_address = 2\<rparr>, \<lparr>stack_ptr = 80, return_address = 1\<rparr>, sentinel]\<rparr> =
   Some (1, \<lparr>cct_queue = [\<lparr>timestamp = 9, callee = None\<rparr>, \<lparr>timestamp = 9, callee = None\<rparr>, \<lparr>timestamp = 9, callee = None\<rparr>],
     return_stack = [sentinel]\<rparr>)"
proof -
  have "(80 :: u64) < - 1" "(70 :: u64) \<le> 80" by code_simp+
  then show ?thesis
    using exit_unwinds_frames [of "[sentinel]" 80 "[\<lparr>stack_ptr = 60, return_address = 3\<rparr>, \<lparr>stack_ptr = 70, return_address = 2\<rparr>]"
        "\<lparr>stack_ptr = 80, return_address = 1\<rparr>" 9 "[]"]
    by (simp add: sentinel_def)
qed

text \<open>
  C2. The profile is exact: a program made of nested calls and tail calls, run with the hooks, leaves
  a trace from which the shadow stack computes precisely the statistics that recursion over the
  program's calls gives, each call with its times net of the calibrated overhead.
\<close>

theorem profile_is_exact:
  assumes "list_all (\<lambda>x. exec_below x (- 1)) xs"
  shows "\<exists>ras trace. run_hooks list_push (concat (map exec_hooks xs)) (calls_collector_thread_init []) =
      Some (ras, calls_collector_thread_init trace) \<and>
    map_option snd (update (shadow_stack_init ov) trace []) =
      Some (node_callees (record_calls (inner ov) (inner ov + outer ov) (concat (map exec_calls xs))
        (Node function_statistics_init [])))"
proof -
  have "update (shadow_stack_init ov) (concat (map exec_records xs)) [] =
    Some (shadow_stack_init ov
        \<lparr>stack := [charge (inner ov) (inner ov + outer ov) (concat (map exec_calls xs)) bottom_record]\<rparr>,
      node_callees (record_calls (inner ov) (inner ov + outer ov) (concat (map exec_calls xs)) (Node function_statistics_init [])))"
    using update_of_calls [of ov "concat (map exec_calls xs)" "[]"] by (simp only: program_trace)
  with list_queue.program_runs [OF _ assms, of "[]"] show ?thesis by auto
qed

lemma profile_is_exact_witness:
  "\<exists>ras trace. run_hooks list_push (exec_hooks (Exec (1::nat) 100 11 3 [] [Tail 0 2 5 []] 8))
      (calls_collector_thread_init []) = Some (ras, calls_collector_thread_init trace) \<and>
    map_option snd (update (shadow_stack_init \<lparr>inner = 0, outer = 0\<rparr>) trace []) =
      Some [(1, Node \<lparr>times_called = 1, inclusive_time = 2, exclusive_time = 2, max_call_time = 2\<rparr> []),
        (2, Node \<lparr>times_called = 1, inclusive_time = 3, exclusive_time = 3, max_call_time = 3\<rparr> [])]"
proof -
  have "(100 :: u64) < - 1" by code_simp
  then have "list_all (\<lambda>x. exec_below x (- 1)) [Exec (1::nat) 100 11 3 [] [Tail 0 2 5 []] 8]" by simp
  from profile_is_exact [OF this, of "\<lparr>inner = 0, outer = 0\<rparr>"] show ?thesis
    by (simp add: on_callee_def shadow_stack_eval call_inclusive_def call_exclusive_def observed_def)
qed

end
