(* ===== verification/Thread_Monitor.thy ===== *)
theory Thread_Monitor
  imports Prelude
begin

text \<open>
  \<^verbatim>\<open>collector/thread_monitor.h\<close> and \<^verbatim>\<open>.cpp\<close>: the registry that numbers the threads
  of the process and keeps what is known of them. What the operating system tells of a thread is an
  argument: \<open>os\<close> maps a native id and the information so far to the information refreshed, as
  the accessor opened by \<^verbatim>\<open>this_thread::open_info\<close> does.

  The source keeps a pointer into the node of \<^verbatim>\<open>_threads\<close> for a live thread; nodes do not
  move and are never erased, so the pointer is modelled by the key of the node.
\<close>

record thread_info =
  ti_native_id :: u64
  ti_description :: string
  ti_start_time :: int
  ti_end_time :: int
  ti_cpu_time :: int
  ti_complete :: bool

type_synonym os_info = "u64 \<Rightarrow> thread_info \<Rightarrow> thread_info"

record thread_monitor =
  tm_threads :: "(u32, thread_info) umap"
  tm_alive :: "(u64, u32) umap"
  tm_next_id :: u32

definition thread_monitor_init :: thread_monitor where
  "thread_monitor_init = \<lparr>tm_threads = [], tm_alive = [], tm_next_id = 0\<rparr>"

definition register_self :: "os_info \<Rightarrow> u64 \<Rightarrow> thread_monitor \<Rightarrow> u32 \<times> thread_monitor" where
  "register_self os native tm =
     (case um_find (tm_alive tm) native of
        Some i \<Rightarrow> (i, tm)
      | None \<Rightarrow>
          let ti = os native \<lparr>ti_native_id = native, ti_description = [], ti_start_time = 0, ti_end_time = 0,
                ti_cpu_time = 0, ti_complete = False\<rparr>;
              i = tm_next_id tm
          in (i, \<lparr>tm_threads = um_insert i ti (tm_threads tm), tm_alive = um_insert native i (tm_alive tm),
                  tm_next_id = i + 1\<rparr>))"

definition update_live_info :: "os_info \<Rightarrow> thread_monitor \<Rightarrow> u64 \<Rightarrow> thread_info \<Rightarrow> thread_info" where
  "update_live_info os tm native info =
     (case um_find (tm_alive tm) native of None \<Rightarrow> info | Some _ \<Rightarrow> os native info)"

text \<open>\<^const>\<open>None\<close>: the thread is not alive, and the source dereferences the end iterator.\<close>

definition thread_exited :: "os_info \<Rightarrow> int \<Rightarrow> u64 \<Rightarrow> thread_monitor \<Rightarrow> thread_monitor option" where
  "thread_exited os uptime native tm =
     Option.bind (um_find (tm_alive tm) native) (\<lambda>i.
       Option.bind (um_find (tm_threads tm) i) (\<lambda>ti.
         let ti = (update_live_info os tm native ti)\<lparr>ti_end_time := uptime, ti_complete := True\<rparr>
         in Some (tm\<lparr>tm_threads := um_assign i ti (tm_threads tm), tm_alive := um_erase native (tm_alive tm)\<rparr>)))"

text \<open>\<^verbatim>\<open>get_info\<close> throws \<^verbatim>\<open>invalid_argument\<close> on an unknown id; \<^const>\<open>Inl\<close> carries it.\<close>

fun get_info :: "os_info \<Rightarrow> thread_monitor \<Rightarrow> u32 list \<Rightarrow> u32 + (u32 \<times> thread_info) list" where
  "get_info os tm [] = Inr []"
| "get_info os tm (i # is) =
     (case um_find (tm_threads tm) i of
        None \<Rightarrow> Inl i
      | Some ti \<Rightarrow>
          let v = (i, if \<not> ti_complete ti then update_live_info os tm (ti_native_id ti) ti else ti)
          in (case get_info os tm is of Inl e \<Rightarrow> Inl e | Inr vs \<Rightarrow> Inr (v # vs)))"

text \<open>The operations a process performs on the monitor, each with what the system reports at that time.\<close>

datatype tm_op = Register os_info u64 | Exited os_info int u64

fun tm_step :: "tm_op \<Rightarrow> thread_monitor \<Rightarrow> thread_monitor option" where
  "tm_step (Register os native) tm = Some (snd (register_self os native tm))"
| "tm_step (Exited os uptime native) tm = thread_exited os uptime native tm"

fun tm_run :: "tm_op list \<Rightarrow> thread_monitor \<Rightarrow> thread_monitor option" where
  "tm_run [] tm = Some tm"
| "tm_run (p # ps) tm = Option.bind (tm_step p tm) (tm_run ps)"

section \<open>The invariant\<close>

text \<open>
  Ids run from 0 up to the next one without gaps, and the live threads are exactly those whose
  information is not complete: \<open>n\<close> counts the registrations.
\<close>

definition tm_inv :: "nat \<Rightarrow> thread_monitor \<Rightarrow> bool" where
  "tm_inv n tm \<longleftrightarrow> tm_next_id tm = of_nat n \<and> n < 2 ^ 32 \<and>
     (\<forall>i. um_find (tm_threads tm) i \<noteq> None \<longleftrightarrow> unat i < n) \<and>
     (\<forall>a b i. um_find (tm_alive tm) a = Some i \<longrightarrow> um_find (tm_alive tm) b = Some i \<longrightarrow> a = b) \<and>
     (\<forall>a i. um_find (tm_alive tm) a = Some i \<longrightarrow> (\<exists>ti. um_find (tm_threads tm) i = Some ti \<and> \<not> ti_complete ti))"

text \<open>What the system reports changes the description and the times, never the flag.\<close>

definition os_ok :: "os_info \<Rightarrow> bool" where
  "os_ok os \<longleftrightarrow> (\<forall>a ti. ti_complete (os a ti) = ti_complete ti)"

fun op_ok :: "tm_op \<Rightarrow> bool" where
  "op_ok (Register os _) = os_ok os"
| "op_ok (Exited os _ _) = os_ok os"

lemma tm_inv_init: "tm_inv 0 thread_monitor_init"
  by (simp add: tm_inv_def thread_monitor_init_def)

lemma register_known: "um_find (tm_alive tm) a = Some i \<Longrightarrow> register_self os a tm = (i, tm)"
  by (simp add: register_self_def)

lemma register_fresh:
  assumes "tm_inv n tm" "um_find (tm_alive tm) a = None" "os_ok os" "Suc n < 2 ^ 32"
  shows "fst (register_self os a tm) = of_nat n" "um_find (tm_threads tm) (of_nat n) = None"
    "um_find (tm_alive (snd (register_self os a tm))) = (um_find (tm_alive tm))(a \<mapsto> of_nat n)"
    "tm_inv (Suc n) (snd (register_self os a tm))"
proof -
  let ?ti = "os a \<lparr>ti_native_id = a, ti_description = [], ti_start_time = 0, ti_end_time = 0, ti_cpu_time = 0,
    ti_complete = False\<rparr>"
  have n: "unat (of_nat n :: u32) = n" using assms(4) by (simp add: unat_of_nat)
  have r: "register_self os a tm = (of_nat n, \<lparr>tm_threads = um_insert (of_nat n) ?ti (tm_threads tm),
      tm_alive = um_insert a (of_nat n) (tm_alive tm), tm_next_id = of_nat n + 1\<rparr>)"
    using assms(1,2) by (simp add: register_self_def tm_inv_def Let_def)
  have dom: "um_find (tm_threads tm) i \<noteq> None \<longleftrightarrow> unat i < n" for i using assms(1) by (simp add: tm_inv_def)
  show "fst (register_self os a tm) = of_nat n" by (simp add: r)
  show none: "um_find (tm_threads tm) (of_nat n) = None" using dom [of "of_nat n"] n by auto
  show "um_find (tm_alive (snd (register_self os a tm))) = (um_find (tm_alive tm))(a \<mapsto> of_nat n)"
    using assms(2) by (auto simp: r dict_simps)
  have less: "unat i < Suc n \<longleftrightarrow> unat i < n \<or> i = of_nat n" for i :: u32
    using n by (metis less_Suc_eq word_unat_eq_iff)
  have used: "um_find (tm_alive tm) b = Some i \<Longrightarrow> i \<noteq> of_nat n" for b i
    using assms(1) none by (force simp: tm_inv_def)
  show "tm_inv (Suc n) (snd (register_self os a tm))"
    unfolding tm_inv_def
  proof (intro conjI allI impI)
    fix i show "um_find (tm_threads (snd (register_self os a tm))) i \<noteq> None \<longleftrightarrow> unat i < Suc n"
      unfolding less using dom [of i] none by (auto simp: r dict_simps)
  next
    fix b c i assume "um_find (tm_alive (snd (register_self os a tm))) b = Some i"
      "um_find (tm_alive (snd (register_self os a tm))) c = Some i"
    with assms(1,2) used show "b = c" by (auto simp: r dict_simps tm_inv_def split: if_splits)
  next
    fix b i assume "um_find (tm_alive (snd (register_self os a tm))) b = Some i"
    with assms(1-3) none show "\<exists>ti. um_find (tm_threads (snd (register_self os a tm))) i = Some ti \<and> \<not> ti_complete ti"
      by (auto simp: r dict_simps tm_inv_def os_ok_def split: if_splits)
  qed (use assms(4) r in simp_all)
qed

lemma exited_props:
  assumes "tm_inv n tm" "thread_exited os up a tm = Some tm'"
  shows "tm_inv n tm'" "um_find (tm_alive tm') = (um_find (tm_alive tm))(a := None)"
    "um_find (tm_threads tm) j = Some tj \<Longrightarrow> ti_complete tj \<Longrightarrow> um_find (tm_threads tm') j = Some tj"
proof -
  from assms(2) obtain i ti where i: "um_find (tm_alive tm) a = Some i" "um_find (tm_threads tm) i = Some ti"
    and tm': "tm' = tm\<lparr>tm_threads := um_assign i ((update_live_info os tm a ti)\<lparr>ti_end_time := up, ti_complete := True\<rparr>)
        (tm_threads tm), tm_alive := um_erase a (tm_alive tm)\<rparr>"
    by (auto simp: thread_exited_def bind_eq_Some_conv Let_def)
  show alive: "um_find (tm_alive tm') = (um_find (tm_alive tm))(a := None)" by (auto simp: tm' dict_simps)
  have "\<not> ti_complete ti" using assms(1) i by (force simp: tm_inv_def)
  then show "um_find (tm_threads tm) j = Some tj \<Longrightarrow> ti_complete tj \<Longrightarrow> um_find (tm_threads tm') j = Some tj"
    using i by (auto simp: tm' dict_simps)
  have other: "um_find (tm_alive tm) b = Some i \<Longrightarrow> b = a" for b using assms(1) i(1) by (auto simp: tm_inv_def)
  show "tm_inv n tm'"
    unfolding tm_inv_def
  proof (intro conjI allI impI)
    fix j show "um_find (tm_threads tm') j \<noteq> None \<longleftrightarrow> unat j < n"
      using assms(1) i(2) by (force simp: tm' dict_simps tm_inv_def)
  next
    fix b c j assume "um_find (tm_alive tm') b = Some j" "um_find (tm_alive tm') c = Some j"
    with assms(1) show "b = c" by (auto simp: alive tm_inv_def split: if_splits)
  next
    fix b j assume b: "um_find (tm_alive tm') b = Some j"
    with alive other have "um_find (tm_alive tm) b = Some j" "j \<noteq> i" by (auto split: if_splits)
    with assms(1) show "\<exists>tj. um_find (tm_threads tm') j = Some tj \<and> \<not> ti_complete tj"
      by (auto simp: tm' dict_simps tm_inv_def)
  qed (use assms(1) in \<open>simp_all add: tm' tm_inv_def\<close>)
qed


lemma register_keeps:
  assumes "tm_inv n tm" "os_ok os" "Suc n < 2 ^ 32" "um_find (tm_threads tm) j = Some tj"
  shows "um_find (tm_threads (snd (register_self os a tm))) j = Some tj"
  using assms(4) by (auto simp: register_self_def Let_def dict_simps split: option.splits)

lemma step_props:
  assumes "tm_inv n tm" "op_ok p" "Suc n < 2 ^ 32" "tm_step p tm = Some tm'"
  shows "\<exists>n'. n' \<le> Suc n \<and> tm_inv n' tm'"
    and "um_find (tm_threads tm) j = Some tj \<Longrightarrow> ti_complete tj \<Longrightarrow> um_find (tm_threads tm') j = Some tj"
proof -
  show "\<exists>n'. n' \<le> Suc n \<and> tm_inv n' tm'"
  proof (cases p)
    case (Register os a)
    with assms(1,4) register_fresh(4) [OF assms(1) _ _ assms(3), of a os] assms(2) register_known [of tm a _ os]
    show ?thesis by (cases "um_find (tm_alive tm) a") (auto intro: exI [of _ n])
  next
    case (Exited os up a)
    with assms(4) exited_props(1) [OF assms(1), of os up a tm'] have "tm_inv n tm'" by simp
    then show ?thesis by (intro exI [of _ n]) simp
  qed
  show "um_find (tm_threads tm) j = Some tj \<Longrightarrow> ti_complete tj \<Longrightarrow> um_find (tm_threads tm') j = Some tj"
    using assms register_keeps [OF assms(1) _ assms(3)] exited_props(3) [OF assms(1)] by (cases p) auto
qed

lemma run_props:
  "tm_inv n tm \<Longrightarrow> list_all op_ok ps \<Longrightarrow> n + length ps < 2 ^ 32 \<Longrightarrow> tm_run ps tm = Some tm' \<Longrightarrow>
    (\<exists>n'. n' \<le> n + length ps \<and> tm_inv n' tm') \<and>
    (\<forall>j tj. um_find (tm_threads tm) j = Some tj \<and> ti_complete tj \<longrightarrow> um_find (tm_threads tm') j = Some tj)"
proof (induction ps arbitrary: n tm)
  case (Cons p ps)
  then obtain tm1 where tm1: "tm_step p tm = Some tm1" "tm_run ps tm1 = Some tm'"
    by (auto simp: bind_eq_Some_conv)
  have "Suc n < 2 ^ 32" "op_ok p" using Cons.prems(2,3) by auto
  note sp = step_props [OF Cons.prems(1) this(2,1) tm1(1)]
  from sp(1) obtain n1 where n1: "n1 \<le> Suc n" "tm_inv n1 tm1" by blast
  have "n1 + length ps < 2 ^ 32" "n1 + length ps \<le> n + length (p # ps)" using Cons.prems(3) n1(1) by simp_all
  with Cons.IH [OF n1(2) _ _ tm1(2)] Cons.prems(2) obtain n2 where "n2 \<le> n1 + length ps" "tm_inv n2 tm'"
    "\<forall>j tj. um_find (tm_threads tm1) j = Some tj \<and> ti_complete tj \<longrightarrow> um_find (tm_threads tm') j = Some tj"
    by auto
  moreover from this(1) have "n2 \<le> n + length (p # ps)" using n1(1) by simp
  ultimately show ?case using sp(2) by blast
qed auto

section \<open>Properties\<close>

text \<open>
  C30. Thread ids are never shared or reused: two live threads have different ids, a live thread gets
  its id back whenever it registers, and a thread not alive gets an id no thread has had.
\<close>

theorem thread_ids_are_unique:
  assumes "tm_run ps thread_monitor_init = Some tm" "list_all op_ok ps" "length ps + 1 < 2 ^ 32" "os_ok os"
  shows "(\<forall>a b i. um_find (tm_alive tm) a = Some i \<and> um_find (tm_alive tm) b = Some i \<longrightarrow> a = b) \<and>
    (case um_find (tm_alive tm) a of
       Some i \<Rightarrow> register_self os a tm = (i, tm)
     | None \<Rightarrow> um_find (tm_threads tm) (fst (register_self os a tm)) = None)"
proof -
  from run_props [OF tm_inv_init assms(2) _ assms(1)] assms(3) obtain n where n: "n \<le> length ps" "tm_inv n tm" by auto
  have "Suc n < 2 ^ 32" using n(1) assms(3) by simp
  with register_fresh(1,2) [OF n(2) _ assms(4)] register_known show ?thesis using n(2)
    by (auto simp: tm_inv_def split: option.splits)
qed

lemma thread_ids_are_unique_witness:
  "um_find (tm_alive \<lparr>tm_threads = [(0, \<lparr>ti_native_id = 5, ti_description = [], ti_start_time = 0, ti_end_time = 9,
       ti_cpu_time = 0, ti_complete = True\<rparr>)], tm_alive = [], tm_next_id = 1\<rparr>) 5 = None \<and>
   um_find [(0, \<lparr>ti_native_id = 5, ti_description = [], ti_start_time = 0, ti_end_time = 9,
       ti_cpu_time = 0, ti_complete = True\<rparr>)] (1 :: u32) = None"
proof -
  let ?tm = "\<lparr>tm_threads = [(0, \<lparr>ti_native_id = 5, ti_description = [], ti_start_time = 0, ti_end_time = 9,
       ti_cpu_time = 0, ti_complete = True\<rparr>)], tm_alive = [], tm_next_id = 1\<rparr>"
  have "tm_run [Register (\<lambda>_ ti. ti) 5, Exited (\<lambda>_ ti. ti) 9 5] thread_monitor_init = Some ?tm"
    by (simp add: register_self_def thread_exited_def thread_monitor_init_def update_live_info_def um_insert_def)
  from thread_ids_are_unique [OF this, of "\<lambda>_ ti. ti" 5] show ?thesis
    by (simp add: os_ok_def register_self_def um_insert_def Let_def)
qed

text \<open>
  What is known of a thread that has ended stays as it was recorded at its end, whatever threads
  register and end afterwards.
\<close>

theorem ended_threads_are_frozen:
  assumes "tm_run ps thread_monitor_init = Some tm" "tm_run qs tm = Some tm'"
    and "list_all op_ok (ps @ qs)" "length (ps @ qs) < 2 ^ 32"
    and "um_find (tm_threads tm) i = Some ti" "ti_complete ti"
  shows "get_info os tm' [i] = Inr [(i, ti)]"
proof -
  from run_props [OF tm_inv_init _ _ assms(1)] assms(3,4) obtain n where n: "n \<le> length ps" "tm_inv n tm" by auto
  from run_props [OF n(2) _ _ assms(2)] n(1) assms(3-6) have "um_find (tm_threads tm') i = Some ti" by auto
  with assms(6) show ?thesis by simp
qed

lemma ended_threads_are_frozen_witness:
  "get_info (\<lambda>_ ti. ti)
    \<lparr>tm_threads = [(0, \<lparr>ti_native_id = 5, ti_description = [], ti_start_time = 0, ti_end_time = 9, ti_cpu_time = 0,
       ti_complete = True\<rparr>), (1, \<lparr>ti_native_id = 5, ti_description = [], ti_start_time = 0, ti_end_time = 0,
       ti_cpu_time = 0, ti_complete = False\<rparr>)], tm_alive = [(5, 1)], tm_next_id = 2\<rparr> [0] =
   Inr [(0, \<lparr>ti_native_id = 5, ti_description = [], ti_start_time = 0, ti_end_time = 9, ti_cpu_time = 0,
       ti_complete = True\<rparr>)]"
proof -
  let ?ti = "\<lparr>ti_native_id = 5, ti_description = [], ti_start_time = 0, ti_end_time = 9, ti_cpu_time = 0,
    ti_complete = True\<rparr>"
  have 1: "tm_run [Register (\<lambda>_ ti. ti) 5, Exited (\<lambda>_ ti. ti) 9 5] thread_monitor_init =
      Some \<lparr>tm_threads = [(0, ?ti)], tm_alive = [], tm_next_id = 1\<rparr>"
    by (simp add: register_self_def thread_exited_def thread_monitor_init_def update_live_info_def um_insert_def)
  have 2: "tm_run [Register (\<lambda>_ ti. ti) 5] \<lparr>tm_threads = [(0, ?ti)], tm_alive = [], tm_next_id = 1\<rparr> =
      Some \<lparr>tm_threads = [(0, ?ti), (1, \<lparr>ti_native_id = 5, ti_description = [], ti_start_time = 0, ti_end_time = 0,
       ti_cpu_time = 0, ti_complete = False\<rparr>)], tm_alive = [(5, 1)], tm_next_id = 2\<rparr>"
    by (simp add: register_self_def um_insert_def)
  show ?thesis by (rule ended_threads_are_frozen [OF 1 2]) (simp_all add: os_ok_def)
qed

end
