(* ===== verification/Thread_Queues.thy ===== *)
theory Thread_Queues
  imports Calls_Collector Thread_Monitor
begin

text \<open>
  \<^verbatim>\<open>collector/thread_queue_manager.h\<close> and \<^verbatim>\<open>collector/calls_collector.h\<close>: one queue
  per thread, found through thread-local storage, made on first use, read by the analyzer in turn.

  The manager is a template over the class of its queues. The members it uses are the record
  \<open>queue_class\<close>; the interface \<open>collected_queue\<close> says what they promise. Thread-local
  storage is a map from native thread ids to indices of \<^verbatim>\<open>_queues\<close>; an entry goes away when
  its thread ends. An operation that never returns, or is undefined, is \<^const>\<open>None\<close>.
\<close>

section \<open>The manager\<close>

type_synonym 'e batches = "(u32 \<times> 'e list) list"

record ('q, 'p, 'e) queue_class =
  qc_new :: "'p \<Rightarrow> u32 \<Rightarrow> 'q option"
  qc_flush :: "'q \<Rightarrow> 'q option"
  qc_set_policy :: "'p \<Rightarrow> 'q \<Rightarrow> 'q option"
  qc_read :: "'q \<Rightarrow> ('q \<times> 'e batches) option"

record ('q, 'p) thread_queue_manager =
  tqm_tls :: "(u64, nat) umap"
  tqm_queues :: "'q list"
  tqm_policy :: 'p

definition thread_queue_manager_init :: "'p \<Rightarrow> ('q, 'p) thread_queue_manager" where
  "thread_queue_manager_init policy = \<lparr>tqm_tls = [], tqm_queues = [], tqm_policy = policy\<rparr>"

fun set_policies :: "('q, 'p, 'e) queue_class \<Rightarrow> 'p \<Rightarrow> 'q list \<Rightarrow> 'q list option" where
  "set_policies qc policy [] = Some []"
| "set_policies qc policy (q # qs) =
     Option.bind (qc_set_policy qc policy q) (\<lambda>q'. map_option (Cons q') (set_policies qc policy qs))"

definition tqm_set_buffering_policy ::
  "('q, 'p, 'e) queue_class \<Rightarrow> 'p \<Rightarrow> ('q, 'p) thread_queue_manager \<Rightarrow> ('q, 'p) thread_queue_manager option" where
  "tqm_set_buffering_policy qc policy m =
     map_option (\<lambda>qs. m\<lparr>tqm_queues := qs, tqm_policy := policy\<rparr>) (set_policies qc policy (tqm_queues m))"

fun read_queues :: "('q, 'p, 'e) queue_class \<Rightarrow> 'q list \<Rightarrow> ('q list \<times> 'e batches) option" where
  "read_queues qc [] = Some ([], [])"
| "read_queues qc (q # qs) =
     Option.bind (qc_read qc q) (\<lambda>(q', d). map_option (\<lambda>(qs', d'). (q' # qs', d @ d')) (read_queues qc qs))"

definition tqm_read_collected ::
  "('q, 'p, 'e) queue_class \<Rightarrow> ('q, 'p) thread_queue_manager \<Rightarrow> (('q, 'p) thread_queue_manager \<times> 'e batches) option" where
  "tqm_read_collected qc m =
     map_option (\<lambda>(qs, d). (m\<lparr>tqm_queues := qs\<rparr>, d)) (read_queues qc (tqm_queues m))"

text \<open>An operation on the queue at an index; the pointer of the source names the same queue.\<close>

definition on_queue ::
  "nat \<Rightarrow> ('q \<Rightarrow> 'q option) \<Rightarrow> ('q, 'p) thread_queue_manager \<Rightarrow> ('q, 'p) thread_queue_manager option" where
  "on_queue i f m =
     (if i < length (tqm_queues m)
      then map_option (\<lambda>q. m\<lparr>tqm_queues := (tqm_queues m)[i := q]\<rparr>) (f (tqm_queues m ! i)) else None)"

definition tqm_flush ::
  "('q, 'p, 'e) queue_class \<Rightarrow> u64 \<Rightarrow> ('q, 'p) thread_queue_manager \<Rightarrow> ('q, 'p) thread_queue_manager option" where
  "tqm_flush qc thread m =
     (case um_find (tqm_tls m) thread of None \<Rightarrow> Some m | Some i \<Rightarrow> on_queue i (qc_flush qc) m)"

text \<open>\<open>id_gen\<close> of the source is a call on the thread monitor, whose state goes along.\<close>

definition construct_queue ::
  "('q, 'p, 'e) queue_class \<Rightarrow> os_info \<Rightarrow> u64 \<Rightarrow> thread_monitor \<times> ('q, 'p) thread_queue_manager \<Rightarrow>
   (nat \<times> thread_monitor \<times> ('q, 'p) thread_queue_manager) option" where
  "construct_queue qc os thread s =
     (let (i, tm) = register_self os thread (fst s); m = snd s in
      map_option (\<lambda>q. (length (tqm_queues m), tm,
          m\<lparr>tqm_tls := um_assign thread (length (tqm_queues m)) (tqm_tls m), tqm_queues := tqm_queues m @ [q]\<rparr>))
        (qc_new qc (tqm_policy m) i))"

definition get_queue ::
  "('q, 'p, 'e) queue_class \<Rightarrow> os_info \<Rightarrow> u64 \<Rightarrow> thread_monitor \<times> ('q, 'p) thread_queue_manager \<Rightarrow>
   (nat \<times> thread_monitor \<times> ('q, 'p) thread_queue_manager) option" where
  "get_queue qc os thread s =
     (case um_find (tqm_tls (snd s)) thread of
        Some i \<Rightarrow> Some (i, s)
      | None \<Rightarrow> construct_queue qc os thread s)"

section \<open>The calls collector\<close>

text \<open>
  The queues are thread collectors, which inherit the members of the trace queue they are built on:
  \<open>qc\<close> is the class of the base, \<open>push\<close> its push.
\<close>

definition cct_class ::
  "('q, 'p, 'e) queue_class \<Rightarrow> ('q calls_collector_thread, 'p, 'e) queue_class" where
  "cct_class qc =
     \<lparr>qc_new = (\<lambda>policy i. map_option calls_collector_thread_init (qc_new qc policy i)),
      qc_flush = (\<lambda>c. map_option (\<lambda>q. c\<lparr>cct_queue := q\<rparr>) (qc_flush qc (cct_queue c))),
      qc_set_policy = (\<lambda>policy c. map_option (\<lambda>q. c\<lparr>cct_queue := q\<rparr>) (qc_set_policy qc policy (cct_queue c))),
      qc_read = (\<lambda>c. map_option (\<lambda>(q, d). (c\<lparr>cct_queue := q\<rparr>, d)) (qc_read qc (cct_queue c)))\<rparr>"

type_synonym ('q, 'p) calls_collector = "thread_monitor \<times> ('q calls_collector_thread, 'p) thread_queue_manager"

definition calls_collector_init :: "'p \<Rightarrow> ('q, 'p) calls_collector" where
  "calls_collector_init policy = (thread_monitor_init, thread_queue_manager_init policy)"

text \<open>\<^verbatim>\<open>on_enter\<close>, \<^verbatim>\<open>on_exit\<close> and \<^verbatim>\<open>track\<close>: the queue of the calling thread, then its method.\<close>

definition on_thread_queue ::
  "('q, 'p, 'e) queue_class \<Rightarrow> os_info \<Rightarrow> u64 \<Rightarrow> ('q calls_collector_thread \<Rightarrow> 'q calls_collector_thread option) \<Rightarrow>
   ('q, 'p) calls_collector \<Rightarrow> ('q, 'p) calls_collector option" where
  "on_thread_queue qc os thread f s =
     Option.bind (get_queue (cct_class qc) os thread s) (\<lambda>(i, tm, m). map_option (Pair tm) (on_queue i f m))"

definition cc_hook ::
  "('q, 'p, 'k call_record) queue_class \<Rightarrow> ('k call_record \<Rightarrow> 'q \<Rightarrow> 'q option) \<Rightarrow> os_info \<Rightarrow> u64 \<Rightarrow> 'k hook \<Rightarrow>
   ('q, 'p) calls_collector \<Rightarrow> ('q, 'p) calls_collector option" where
  "cc_hook qc push os thread h = on_thread_queue qc os thread (\<lambda>c. map_option snd (run_hook push h c))"

definition cc_track ::
  "('q, 'p, 'k call_record) queue_class \<Rightarrow> ('k call_record \<Rightarrow> 'q \<Rightarrow> 'q option) \<Rightarrow> os_info \<Rightarrow> u64 \<Rightarrow> timestamp_t \<Rightarrow>
   'k option \<Rightarrow> ('q, 'p) calls_collector \<Rightarrow> ('q, 'p) calls_collector option" where
  "cc_track qc push os thread t f = on_thread_queue qc os thread (track push f t)"

definition cc_read_collected ::
  "('q, 'p, 'k call_record) queue_class \<Rightarrow> ('q, 'p) calls_collector \<Rightarrow>
   (('q, 'p) calls_collector \<times> 'k call_record batches) option" where
  "cc_read_collected qc s =
     map_option (\<lambda>(m, d). ((fst s, m), d)) (tqm_read_collected (cct_class qc) (snd s))"

definition cc_flush ::
  "('q, 'p, 'k call_record) queue_class \<Rightarrow> u64 \<Rightarrow> ('q, 'p) calls_collector \<Rightarrow> ('q, 'p) calls_collector option" where
  "cc_flush qc thread s = map_option (Pair (fst s)) (tqm_flush (cct_class qc) thread (snd s))"

definition cc_set_buffering_policy ::
  "('q, 'p, 'k call_record) queue_class \<Rightarrow> 'p \<Rightarrow> ('q, 'p) calls_collector \<Rightarrow> ('q, 'p) calls_collector option" where
  "cc_set_buffering_policy qc policy s =
     map_option (Pair (fst s)) (tqm_set_buffering_policy (cct_class qc) policy (snd s))"

text \<open>
  The end of a thread that has a queue: the handlers left with \<^verbatim>\<open>at_thread_exit\<close> flush the
  queue and complete the thread's information, and its storage goes away.
\<close>

definition cc_thread_ends ::
  "('q, 'p, 'k call_record) queue_class \<Rightarrow> os_info \<Rightarrow> int \<Rightarrow> u64 \<Rightarrow> ('q, 'p) calls_collector \<Rightarrow>
   ('q, 'p) calls_collector option" where
  "cc_thread_ends qc os uptime thread s =
     (case um_find (tqm_tls (snd s)) thread of None \<Rightarrow> Some s
      | Some i \<Rightarrow>
          Option.bind (on_queue i (qc_flush (cct_class qc)) (snd s)) (\<lambda>m.
            map_option (\<lambda>tm. (tm, m\<lparr>tqm_tls := um_erase thread (tqm_tls m)\<rparr>)) (thread_exited os uptime thread (fst s))))"

datatype ('k, 'p) cc_op =
  Hooked os_info u64 "'k hook"
| Flush_Thread u64
| Thread_Ends os_info int u64
| Set_Buffering 'p
| Read_Collected

fun cc_step ::
  "('q, 'p, 'k call_record) queue_class \<Rightarrow> ('k call_record \<Rightarrow> 'q \<Rightarrow> 'q option) \<Rightarrow> ('k, 'p) cc_op \<Rightarrow>
   ('q, 'p) calls_collector \<Rightarrow> (('q, 'p) calls_collector \<times> 'k call_record batches) option" where
  "cc_step qc push (Hooked os thread h) s = map_option (\<lambda>s'. (s', [])) (cc_hook qc push os thread h s)"
| "cc_step qc push (Flush_Thread thread) s = map_option (\<lambda>s'. (s', [])) (cc_flush qc thread s)"
| "cc_step qc push (Thread_Ends os uptime thread) s = map_option (\<lambda>s'. (s', [])) (cc_thread_ends qc os uptime thread s)"
| "cc_step qc push (Set_Buffering policy) s = map_option (\<lambda>s'. (s', [])) (cc_set_buffering_policy qc policy s)"
| "cc_step qc push Read_Collected s = cc_read_collected qc s"

fun cc_run ::
  "('q, 'p, 'k call_record) queue_class \<Rightarrow> ('k call_record \<Rightarrow> 'q \<Rightarrow> 'q option) \<Rightarrow> ('k, 'p) cc_op list \<Rightarrow>
   ('q, 'p) calls_collector \<Rightarrow> (('q, 'p) calls_collector \<times> 'k call_record batches) option" where
  "cc_run qc push [] s = Some (s, [])"
| "cc_run qc push (p # ps) s =
     Option.bind (cc_step qc push p s) (\<lambda>(s', d). map_option (\<lambda>(s'', d'). (s'', d @ d')) (cc_run qc push ps s'))"

text \<open>Conditions on the operations: stack pointers are not the sentinel's, policies are admissible.\<close>

fun cc_op_ok :: "('p \<Rightarrow> bool) \<Rightarrow> ('k, 'p) cc_op \<Rightarrow> bool" where
  "cc_op_ok good (Hooked os t h) \<longleftrightarrow> os_ok os \<and> hook_ok h"
| "cc_op_ok good (Thread_Ends os up t) \<longleftrightarrow> os_ok os"
| "cc_op_ok good (Set_Buffering p) \<longleftrightarrow> good p"
| "cc_op_ok good _ \<longleftrightarrow> True"

section \<open>The interface of the queues\<close>

lemma thread_trace_append: "thread_trace i (d @ d') = thread_trace i d @ thread_trace i d'"
  by (simp add: thread_trace_def)

lemma thread_trace_other: "i \<notin> fst ` set d \<Longrightarrow> thread_trace i d = []"
  by (induction d) (auto simp: thread_trace_def)

lemma thread_trace_own: "fst ` set d \<subseteq> {i} \<Longrightarrow> thread_trace i d = concat (map snd d)"
  by (induction d) (auto simp: thread_trace_def)

locale collected_queue = trace_queue push pending ok
  for push :: "'k call_record \<Rightarrow> 'q \<Rightarrow> 'q option" and pending ok +
  fixes qc :: "('q, 'p, 'k call_record) queue_class"
    and qid :: "'q \<Rightarrow> u32"
    and good :: "'p \<Rightarrow> bool"
  assumes push_qid: "ok q \<Longrightarrow> push r q = Some q' \<Longrightarrow> qid q' = qid q"
    and new_ok: "good p \<Longrightarrow> qc_new qc p i = Some q \<Longrightarrow> ok q \<and> pending q = [] \<and> qid q = i"
    and flush_ok: "ok q \<Longrightarrow> qc_flush qc q = Some q' \<Longrightarrow> ok q' \<and> pending q' = pending q \<and> qid q' = qid q"
    and set_policy_ok: "ok q \<Longrightarrow> good p \<Longrightarrow> qc_set_policy qc p q = Some q' \<Longrightarrow>
      ok q' \<and> pending q' = pending q \<and> qid q' = qid q"
    and read_ok: "ok q \<Longrightarrow> qc_read qc q = Some (q', d) \<Longrightarrow>
      ok q' \<and> qid q' = qid q \<and> concat (map snd d) @ pending q' = pending q \<and> fst ` set d \<subseteq> {qid q}"
begin

lemma hook_qid:
  assumes "ok (cct_queue c)" "run_hook push h c = Some (ras, c')"
  shows "qid (cct_queue c') = qid (cct_queue c)"
proof -
  have track: "ok (cct_queue x) \<Longrightarrow> track push f t x = Some y \<Longrightarrow> qid (cct_queue y) = qid (cct_queue x) \<and> ok (cct_queue y)"
    for f t x y by (auto simp: track_def push_qid push_ok)
  have loop: "ok q \<Longrightarrow> exit_loop push sp t es q = Some (ra, es', q') \<Longrightarrow> qid q' = qid q" for sp t es q ra es' q'
  proof (induction es arbitrary: q)
    case (Cons e es)
    then obtain q1 b bs where q1: "push \<lparr>timestamp = t, callee = None\<rparr> q = Some q1" and es: "es = b # bs"
      by (auto split: option.splits list.splits)
    note q1ok = push_ok [OF Cons.prems(1) q1] push_qid [OF Cons.prems(1) q1]
    show ?case
    proof (cases "stack_ptr b \<le> sp")
      case True
      then have "exit_loop push sp t es q1 = Some (ra, es', q')" using Cons.prems(2) q1 es by simp
      from Cons.IH [OF q1ok(1) this] q1ok(2) show ?thesis by simp
    qed (use Cons.prems(2) q1 es q1ok(2) in simp)
  qed simp
  show ?thesis
  proof (cases h)
    case (Entered sp a t f)
    with assms(2) have "on_enter push sp a t f c = Some c'" by simp
    then obtain b bs c1 where b: "return_stack c = b # bs" "track push (Some f) t c1 = Some c'"
      "stack_ptr b \<noteq> sp \<and> cct_queue c1 = cct_queue c \<or> track push None t c = Some c1"
      by (auto simp: on_enter_def bind_eq_Some_conv split: list.splits if_splits)
    then have "ok (cct_queue c1)" "qid (cct_queue c1) = qid (cct_queue c)"
      using assms(1) track [OF assms(1), of None t c1] by auto
    with track [OF this(1) b(2)] show ?thesis by simp
  qed (use assms loop in \<open>auto simp: on_exit_def\<close>)
qed


text \<open>
  The invariant after the batches \<open>d\<close> have been read: each queue has an id of its own that the
  monitor has given out, live threads are those with a queue in their storage, and what was read of
  a thread together with what its queue still holds is a trace with as many open calls as the
  thread has.
\<close>

definition queue_inv :: "'k call_record batches \<Rightarrow> 'q calls_collector_thread \<Rightarrow> bool" where
  "queue_inv d c \<longleftrightarrow> ok (cct_queue c) \<and> returns_ok (return_stack c) \<and>
     depth_after (thread_trace (qid (cct_queue c)) d @ pending (cct_queue c)) 0 = Some (open_calls c)"

definition ids :: "('q, 'p) calls_collector \<Rightarrow> u32 list" where
  "ids s = map (qid \<circ> cct_queue) (tqm_queues (snd s))"

definition cc_inv :: "nat \<Rightarrow> 'k call_record batches \<Rightarrow> ('q, 'p) calls_collector \<Rightarrow> bool" where
  "cc_inv n d s \<longleftrightarrow> tm_inv n (fst s) \<and> good (tqm_policy (snd s)) \<and>
     list_all (queue_inv d) (tqm_queues (snd s)) \<and> distinct (ids s) \<and> fst ` set d \<subseteq> set (ids s) \<and>
     (\<forall>i\<in>set (ids s). um_find (tm_threads (fst s)) i \<noteq> None) \<and>
     (\<forall>t. um_find (tqm_tls (snd s)) t = None \<longleftrightarrow> um_find (tm_alive (fst s)) t = None)"

lemma cc_inv_init: "good p \<Longrightarrow> cc_inv 0 [] (calls_collector_init p)"
  using tm_inv_init
  by (auto simp: cc_inv_def calls_collector_init_def thread_queue_manager_init_def ids_def thread_monitor_init_def)

text \<open>Replacing a queue by one with the same id that keeps its part of the invariant.\<close>

lemma cc_inv_update:
  assumes "cc_inv n d s" "i < length (tqm_queues (snd s))" "queue_inv d c"
    and "qid (cct_queue c) = qid (cct_queue (tqm_queues (snd s) ! i))"
  shows "cc_inv n d (fst s, (snd s)\<lparr>tqm_queues := (tqm_queues (snd s))[i := c]\<rparr>)"
proof -
  have "ids (fst s, (snd s)\<lparr>tqm_queues := (tqm_queues (snd s))[i := c]\<rparr>) = ids s"
    using assms(2,4) by (auto simp: ids_def map_update list_update_same_conv)
  moreover have "list_all (queue_inv d) ((tqm_queues (snd s))[i := c])"
    using assms(1,3) set_update_subset_insert [of "tqm_queues (snd s)" i c] by (auto simp: cc_inv_def list_all_iff)
  ultimately show ?thesis using assms(1) by (simp add: cc_inv_def)
qed

lemma cc_inv_on_queue:
  assumes "cc_inv n d s" "on_queue i f (snd s) = Some m"
    and "\<And>c c'. queue_inv d c \<Longrightarrow> f c = Some c' \<Longrightarrow> queue_inv d c' \<and> qid (cct_queue c') = qid (cct_queue c)"
  shows "cc_inv n d (fst s, m)" "tqm_tls m = tqm_tls (snd s)"
proof -
  from assms(2) obtain c where i: "i < length (tqm_queues (snd s))" and c: "f (tqm_queues (snd s) ! i) = Some c"
    and m: "m = (snd s)\<lparr>tqm_queues := (tqm_queues (snd s))[i := c]\<rparr>"
    by (auto simp: on_queue_def split: if_splits)
  have "queue_inv d (tqm_queues (snd s) ! i)" using assms(1) i by (simp add: cc_inv_def list_all_length)
  from assms(3) [OF this c] show "cc_inv n d (fst s, m)" unfolding m by (intro cc_inv_update assms(1) i) auto
  show "tqm_tls m = tqm_tls (snd s)" by (simp add: m)
qed

lemma queue_inv_same:
  assumes "queue_inv d c" "ok q'" "pending q' = pending (cct_queue c)" "qid q' = qid (cct_queue c)"
  shows "queue_inv d (c\<lparr>cct_queue := q'\<rparr>)"
  using assms by (simp add: queue_inv_def open_calls_def)

lemma queue_inv_flush:
  assumes "queue_inv d c" "qc_flush (cct_class qc) c = Some c'"
  shows "queue_inv d c' \<and> qid (cct_queue c') = qid (cct_queue c)"
proof -
  from assms(2) obtain q' where q': "qc_flush qc (cct_queue c) = Some q'" "c' = c\<lparr>cct_queue := q'\<rparr>"
    by (auto simp: cct_class_def)
  have "ok (cct_queue c)" using assms(1) by (simp add: queue_inv_def)
  from flush_ok [OF this q'(1)] queue_inv_same [OF assms(1)] show ?thesis by (simp add: q'(2))
qed

lemma queue_inv_hook:
  assumes "queue_inv d c" "hook_ok h" "run_hook push h c = Some (ras, c')"
  shows "queue_inv d c' \<and> qid (cct_queue c') = qid (cct_queue c)"
proof -
  have c: "ok (cct_queue c)" "returns_ok (return_stack c)" using assms(1) by (auto simp: queue_inv_def)
  note id = hook_qid [OF c(1) assms(3)]
  from run_hook_depth [OF c assms(2,3)] obtain e where "ok (cct_queue c')" "returns_ok (return_stack c')"
    "pending (cct_queue c') = pending (cct_queue c) @ e" "depth_after e (open_calls c) = Some (open_calls c')" by blast
  with assms(1) show ?thesis
    by (simp add: queue_inv_def id depth_after_append [of "_ @ _" e, simplified])
qed


lemma ids_below:
  assumes "cc_inv n d s" "i \<in> set (ids s)"
  shows "unat i < n"
proof -
  have "um_find (tm_threads (fst s)) i \<noteq> None" "tm_inv n (fst s)" using assms by (auto simp: cc_inv_def)
  then show ?thesis by (simp add: tm_inv_def)
qed

lemma get_queue_inv:
  assumes "cc_inv n d s" "os_ok os" "Suc n < 2 ^ 32" "get_queue (cct_class qc) os t s = Some (i, s')"
  shows "\<exists>n'. n' \<le> Suc n \<and> cc_inv n' d s'"
proof (cases "um_find (tqm_tls (snd s)) t")
  case (Some j)
  with assms(1,4) show ?thesis by (intro exI [of _ n]) (simp add: get_queue_def)
next
  case None
  with assms(1) have "um_find (tm_alive (fst s)) t = None" "tm_inv n (fst s)" by (auto simp: cc_inv_def)
  note reg = register_fresh [OF this(2,1) assms(2,3)] and inv = this(2)
  have n: "unat (of_nat n :: u32) = n" using assms(3) by (simp add: unat_of_nat)
  from assms(4) None obtain c where c: "qc_new (cct_class qc) (tqm_policy (snd s)) (of_nat n) = Some c"
    and s': "s' = (snd (register_self os t (fst s)),
      (snd s)\<lparr>tqm_tls := um_assign t (length (tqm_queues (snd s))) (tqm_tls (snd s)), tqm_queues := tqm_queues (snd s) @ [c]\<rparr>)"
    using reg(1) by (auto simp: get_queue_def construct_queue_def Let_def case_prod_unfold)
  from c obtain q where q: "qc_new qc (tqm_policy (snd s)) (of_nat n) = Some q" "c = calls_collector_thread_init q"
    by (auto simp: cct_class_def)
  have "good (tqm_policy (snd s))" using assms(1) by (simp add: cc_inv_def)
  note new = new_ok [OF this q(1)]
  have fresh: "of_nat n \<notin> set (ids s)" using ids_below [OF assms(1), of "of_nat n"] n by auto
  have "fst ` set d \<subseteq> set (ids s)" using assms(1) by (simp add: cc_inv_def)
  with fresh have tr: "thread_trace (of_nat n) d = []" by (intro thread_trace_other) blast
  have "queue_inv d c"
    using new by (simp add: queue_inv_def q(2) calls_collector_thread_init_def returns_ok_init tr open_calls_def)
  moreover have ids': "ids s' = ids s @ [of_nat n]"
    using new by (simp add: ids_def s' q(2) calls_collector_thread_init_def)
  moreover have "\<forall>i\<in>set (ids s'). um_find (tm_threads (fst s')) i \<noteq> None"
  proof -
    have dom: "um_find (tm_threads (fst s')) i \<noteq> None \<longleftrightarrow> unat i < Suc n" for i
      using reg(4) unfolding tm_inv_def s' fst_conv by blast
    show ?thesis unfolding dom ids' using ids_below [OF assms(1), THEN less_SucI] n by auto
  qed
  ultimately have "cc_inv (Suc n) d s'"
    using assms(1) reg(3,4) fresh unfolding cc_inv_def by (auto simp: s' dict_simps)
  then show ?thesis by blast
qed

lemma hook_step_inv:
  assumes "cc_inv n d s" "os_ok os" "hook_ok h" "Suc n < 2 ^ 32" "cc_hook qc push os t h s = Some s'"
  shows "\<exists>n'. n' \<le> Suc n \<and> cc_inv n' d s'"
proof -
  from assms(5) obtain i s1 m where s1: "get_queue (cct_class qc) os t s = Some (i, s1)"
    and m: "on_queue i (\<lambda>c. map_option snd (run_hook push h c)) (snd s1) = Some m" "s' = (fst s1, m)"
    by (auto simp: cc_hook_def on_thread_queue_def bind_eq_Some_conv)
  from get_queue_inv [OF assms(1,2,4) s1] obtain n' where n': "n' \<le> Suc n" "cc_inv n' d s1" by blast
  have "cc_inv n' d (fst s1, m)"
    by (rule cc_inv_on_queue(1) [OF n'(2) m(1)]) (use queue_inv_hook assms(3) in auto)
  with n'(1) m(2) show ?thesis by blast
qed

text \<open>Reading, or changing the policy of, all queues: each keeps its id and what it has to account for.\<close>

definition moved :: "'k call_record batches \<Rightarrow> 'q calls_collector_thread \<Rightarrow> 'q calls_collector_thread \<Rightarrow> bool" where
  "moved d c c' \<longleftrightarrow> ok (cct_queue c') \<and> qid (cct_queue c') = qid (cct_queue c) \<and> return_stack c' = return_stack c \<and>
     thread_trace (qid (cct_queue c)) d @ pending (cct_queue c') = pending (cct_queue c)"

lemma moved_ids: "list_all2 (moved d) qs qs' \<Longrightarrow> map (qid \<circ> cct_queue) qs' = map (qid \<circ> cct_queue) qs"
  by (induction rule: list_all2_induct) (auto simp: moved_def)

lemma moved_inv: "queue_inv d c \<Longrightarrow> moved d' c c' \<Longrightarrow> queue_inv (d @ d') c'"
  by (auto simp: moved_def queue_inv_def open_calls_def thread_trace_append)

lemma moved_all_inv: "list_all2 (moved d') qs qs' \<Longrightarrow> list_all (queue_inv d) qs \<Longrightarrow> list_all (queue_inv (d @ d')) qs'"
  by (induction rule: list_all2_induct) (auto intro: moved_inv)

lemma read_queues_moved:
  "read_queues (cct_class qc) qs = Some (qs', d) \<Longrightarrow> list_all (\<lambda>c. ok (cct_queue c)) qs \<Longrightarrow>
    distinct (map (qid \<circ> cct_queue) qs) \<Longrightarrow>
    list_all2 (moved d) qs qs' \<and> fst ` set d \<subseteq> set (map (qid \<circ> cct_queue) qs)"
proof (induction qs arbitrary: qs' d)
  case (Cons c qs)
  then obtain q' d1 qs1 d2 where r: "qc_read qc (cct_queue c) = Some (q', d1)"
    "read_queues (cct_class qc) qs = Some (qs1, d2)" "qs' = c\<lparr>cct_queue := q'\<rparr> # qs1" "d = d1 @ d2"
    by (auto simp: cct_class_def bind_eq_Some_conv)
  have "ok (cct_queue c)" using Cons.prems(2) by simp
  note rd = read_ok [OF this r(1)]
  from Cons.IH [OF r(2)] Cons.prems(2,3) have ih: "list_all2 (moved d2) qs qs1"
    "fst ` set d2 \<subseteq> set (map (qid \<circ> cct_queue) qs)" by auto
  have "qid (cct_queue c) \<notin> fst ` set d2" using ih(2) Cons.prems(3) by auto
  then have "moved d c (c\<lparr>cct_queue := q'\<rparr>)"
    using rd by (auto simp: moved_def r(4) thread_trace_append thread_trace_own thread_trace_other)
  moreover have "moved d x y" if "moved d2 x y" "x \<in> set qs" for x y
  proof -
    have "qid (cct_queue x) \<noteq> qid (cct_queue c)" using that(2) Cons.prems(3) by (auto simp: image_iff)
    then have "qid (cct_queue x) \<notin> fst ` set d1" using rd by blast
    with that(1) show ?thesis by (simp add: moved_def r(4) thread_trace_append thread_trace_other)
  qed
  then have "list_all2 (moved d) qs qs1" using ih(1) by (auto simp: list_all2_conv_all_nth)
  ultimately show ?case using ih(2) rd by (auto simp: r(3,4))
qed auto

lemma set_policies_moved:
  "set_policies (cct_class qc) p qs = Some qs' \<Longrightarrow> good p \<Longrightarrow> list_all (\<lambda>c. ok (cct_queue c)) qs \<Longrightarrow>
    list_all2 (moved []) qs qs'"
proof (induction qs arbitrary: qs')
  case (Cons c qs)
  then obtain q' qs1 where r: "qc_set_policy qc p (cct_queue c) = Some q'"
    "set_policies (cct_class qc) p qs = Some qs1" "qs' = c\<lparr>cct_queue := q'\<rparr> # qs1"
    by (auto simp: cct_class_def bind_eq_Some_conv)
  have "ok (cct_queue c)" using Cons.prems(3) by simp
  from set_policy_ok [OF this Cons.prems(2) r(1)] Cons.IH [OF r(2)] Cons.prems(2,3) show ?case
    by (auto simp: r(3) moved_def thread_trace_def)
qed auto

lemma moved_cc_inv:
  assumes "cc_inv n d s" "list_all2 (moved d') (tqm_queues (snd s)) qs'" "fst ` set d' \<subseteq> set (ids s)" "good p"
  shows "cc_inv n (d @ d') (fst s, (snd s)\<lparr>tqm_queues := qs', tqm_policy := p\<rparr>)"
proof -
  have "ids (fst s, (snd s)\<lparr>tqm_queues := qs', tqm_policy := p\<rparr>) = ids s"
    using moved_ids [OF assms(2)] by (simp add: ids_def)
  moreover have "list_all (queue_inv (d @ d')) qs'"
    using assms(1) by (intro moved_all_inv [OF assms(2)]) (simp add: cc_inv_def)
  ultimately show ?thesis using assms(1,3,4) unfolding cc_inv_def by auto
qed


lemma thread_ends_inv:
  assumes "cc_inv n d s" "cc_thread_ends qc os up t s = Some s'"
  shows "cc_inv n d s'"
proof (cases "um_find (tqm_tls (snd s)) t")
  case None
  with assms show ?thesis by (simp add: cc_thread_ends_def)
next
  case (Some i)
  with assms(2) obtain m tm where m: "on_queue i (qc_flush (cct_class qc)) (snd s) = Some m"
    "thread_exited os up t (fst s) = Some tm" "s' = (tm, m\<lparr>tqm_tls := um_erase t (tqm_tls m)\<rparr>)"
    by (auto simp: cc_thread_ends_def bind_eq_Some_conv)
  have inv: "cc_inv n d (fst s, m)" by (rule cc_inv_on_queue(1) [OF assms(1) m(1) queue_inv_flush])
  then have "tm_inv n (fst s)" by (simp add: cc_inv_def)
  note ex = exited_props [OF this m(2)]
  have ids: "ids s' = ids (fst s, m)" by (simp add: ids_def m(3))
  have dom: "um_find (tm_threads (fst s')) i \<noteq> None \<longleftrightarrow> unat i < n" for i
    using ex(1) unfolding tm_inv_def m(3) fst_conv by blast
  have "\<forall>i\<in>set (ids s'). um_find (tm_threads (fst s')) i \<noteq> None"
    unfolding dom ids using ids_below [OF inv] by blast
  with inv ids ex show ?thesis unfolding cc_inv_def by (auto simp: m(3) dict_simps)
qed

lemma cc_inv_oks: "cc_inv n d s \<Longrightarrow> list_all (\<lambda>c. ok (cct_queue c)) (tqm_queues (snd s))"
  by (auto simp: cc_inv_def queue_inv_def list_all_iff)

lemma cc_step_inv:
  assumes "cc_inv n d s" "cc_op_ok good p" "Suc n < 2 ^ 32" "cc_step qc push p s = Some (s', d')"
  shows "\<exists>n'. n' \<le> Suc n \<and> cc_inv n' (d @ d') s'"
proof -
  have same: "cc_inv n (d @ d') s' \<Longrightarrow> ?thesis" by (intro exI [of _ n]) simp
  have good: "good (tqm_policy (snd s))" using assms(1) by (simp add: cc_inv_def)
  show ?thesis
  proof (cases p)
    case (Hooked os t h)
    with hook_step_inv [OF assms(1) _ _ assms(3)] assms(2,4) show ?thesis by auto
  next
    case (Flush_Thread t)
    then have "cc_inv n d s'"
      using assms(1,4) cc_inv_on_queue(1) [OF assms(1) _ queue_inv_flush]
      by (auto simp: cc_flush_def tqm_flush_def split: option.splits)
    with Flush_Thread assms(4) same show ?thesis by auto
  next
    case (Thread_Ends os up t)
    with thread_ends_inv [OF assms(1)] assms(4) same show ?thesis by auto
  next
    case (Set_Buffering q)
    with assms(2,4) obtain qs' where "set_policies (cct_class qc) q (tqm_queues (snd s)) = Some qs'" "good q"
      and s': "s' = (fst s, (snd s)\<lparr>tqm_queues := qs', tqm_policy := q\<rparr>)" "d' = []"
      by (auto simp: cc_set_buffering_policy_def tqm_set_buffering_policy_def)
    from moved_cc_inv [OF assms(1) set_policies_moved [OF this(1,2) cc_inv_oks [OF assms(1)]] _ this(2)]
    show ?thesis by (intro same) (simp add: s')
  next
    case Read_Collected
    with assms(4) obtain qs' where r: "read_queues (cct_class qc) (tqm_queues (snd s)) = Some (qs', d')"
      and s': "s' = (fst s, (snd s)\<lparr>tqm_queues := qs'\<rparr>)"
      by (auto simp: cc_read_collected_def tqm_read_collected_def)
    have "distinct (map (qid \<circ> cct_queue) (tqm_queues (snd s)))" using assms(1) by (simp add: cc_inv_def ids_def)
    note rd = read_queues_moved [OF r cc_inv_oks [OF assms(1)] this]
    have "s' = (fst s, (snd s)\<lparr>tqm_queues := qs', tqm_policy := tqm_policy (snd s)\<rparr>)" by (simp add: s')
    moreover have "cc_inv n (d @ d') \<dots>" by (rule moved_cc_inv [OF assms(1) _ _ good]) (use rd in \<open>simp_all add: ids_def\<close>)
    ultimately show ?thesis by (intro same) simp
  qed
qed

lemma cc_run_inv:
  "cc_inv n d s \<Longrightarrow> list_all (cc_op_ok good) ps \<Longrightarrow> n + length ps < 2 ^ 32 \<Longrightarrow> cc_run qc push ps s = Some (s', d') \<Longrightarrow>
    \<exists>n'. cc_inv n' (d @ d') s'"
proof (induction ps arbitrary: n d s d')
  case (Cons p ps)
  then obtain s1 d1 d2 where s1: "cc_step qc push p s = Some (s1, d1)" "cc_run qc push ps s1 = Some (s', d2)" "d' = d1 @ d2"
    by (auto simp: bind_eq_Some_conv)
  have "cc_op_ok good p" "Suc n < 2 ^ 32" using Cons.prems(2,3) by auto
  from cc_step_inv [OF Cons.prems(1) this s1(1)] obtain n1 where n1: "n1 \<le> Suc n" "cc_inv n1 (d @ d1) s1" by blast
  from Cons.IH [OF n1(2) _ _ s1(2)] Cons.prems(2,3) n1(1) show ?case by (simp add: s1(3))
qed auto

lemma cc_run_thread_depth:
  assumes "good p" "list_all (cc_op_ok good) ps" "length ps < 2 ^ 32" "cc_run qc push ps (calls_collector_init p) = Some (s, d)"
  shows "depth_after (thread_trace i d) 0 \<noteq> None"
proof -
  from cc_run_inv [OF cc_inv_init [OF assms(1)] assms(2) _ assms(4)] assms(3) obtain n where n: "cc_inv n d s" by auto
  show ?thesis
  proof (cases "i \<in> set (ids s)")
    case True
    then obtain c where c: "c \<in> set (tqm_queues (snd s))" "i = qid (cct_queue c)" by (auto simp: ids_def)
    then have "queue_inv d c" using n by (auto simp: cc_inv_def list_all_iff)
    then show ?thesis by (auto simp: queue_inv_def depth_after_append c(2) bind_eq_Some_conv)
  next
    case False
    then have "i \<notin> fst ` set d" using n by (auto simp: cc_inv_def)
    then show ?thesis by (simp add: thread_trace_other)
  qed
qed

end

section \<open>Feeding the analyzer\<close>

text \<open>The shadow stack accepts exactly the traces that close no more calls than they open.\<close>

lemma run_depth:
  "stack_ok s tree \<Longrightarrow> length s = Suc k \<Longrightarrow>
    (case depth_after rs k of
       None \<Rightarrow> ss_run io tot rs (s, tree) = None
     | Some k' \<Rightarrow> \<exists>s' tree'. ss_run io tot rs (s, tree) = Some (s', tree') \<and> length s' = Suc k')"
proof (induction rs arbitrary: s tree k)
  case (Cons r rs)
  obtain top rest where s: "s = top # rest" using Cons.prems(2) by (cases s) auto
  show ?case
  proof (cases "callee r")
    case (Some f)
    then obtain s1 t1 where r: "ss_record io tot r (s, tree) = Some (s1, t1)" "length s1 = Suc (Suc k)"
      using enter_eq [of top rest tree f "timestamp r"] Cons.prems by (auto simp: ss_record_def s)
    from Cons.IH [OF record_stack_ok [OF Cons.prems(1) r(1)] r(2)] Some r(1) show ?thesis by (simp split: option.splits)
  next
    case None
    show ?thesis
    proof (cases k)
      case 0
      with None Cons.prems(2) show ?thesis by (simp add: s ss_record_def ss_exit_def)
    next
      case (Suc k0)
      then obtain parent more where rest: "rest = parent # more" using Cons.prems(2) s by (cases rest) auto
      have "node_at (sr_function top) tree \<noteq> None"
        using Cons.prems(1) by (simp add: stack_ok_def present_def has_node_def s)
      then obtain s1 t1 where r: "ss_record io tot r (s, tree) = Some (s1, t1)" "length s1 = Suc k0"
        using None Cons.prems(2) Suc by (auto simp: s rest ss_record_def ss_exit_def Let_def)
      from Cons.IH [OF record_stack_ok [OF Cons.prems(1) r(1)] r(2)] None Suc r(1) show ?thesis
        by (simp split: option.splits)
    qed
  qed
qed simp

lemma update_defined_iff: "update (shadow_stack_init ov) trace m \<noteq> None \<longleftrightarrow> depth_after trace 0 \<noteq> None"
proof -
  have "stack_ok [bottom_record] (reset_tree (shadow_stack_init ov) m)"
    using reset_tree(1) [OF init_linked, of ov m] by simp
  from run_depth [OF this, where k = 0 and rs = trace and io = "inner ov" and tot = "inner ov + outer ov"] show ?thesis
    by (auto simp: reset_tree(6) [OF init_linked] split: option.splits)
qed

lemma accept_all_append:
  "an_accept_all (xs @ ys) an = Option.bind (an_accept_all xs an) (an_accept_all ys)"
  by (induction xs arbitrary: an) (auto split: bind_splits)

lemma accept_defined:
  "ta_accept_calls calls (thread_state i an) \<noteq> None \<Longrightarrow> an_accept_calls i calls an \<noteq> None"
  by (auto simp: an_accept_calls_def thread_state_def dict_simps split: option.splits)

lemma accept_all_state:
  assumes "an_accept_all d (analyzer_init ov) = Some an"
  shows "ta_accept_calls (thread_trace i d) (thread_analyzer_init ov) = Some (thread_state i an)"
proof (cases "i \<in> fst ` set d")
  case True
  with accept_all_thread [OF an_ok_init assms, of i] show ?thesis by (simp add: thread_state_def analyzer_init_def)
next
  case False
  with accept_all_thread [OF an_ok_init assms, of i] have "thread_state i an = thread_state i (analyzer_init ov)"
    by (intro thread_state_cong) auto
  moreover have "update (shadow_stack_init ov) [] [] = Some (shadow_stack_init ov, [])"
    using update_defined_iff [of ov "[]" "[]"]
    by (simp add: update_def reset_stack_def shadow_stack_init_def bottom_record_def)
  ultimately show ?thesis
    using False by (simp add: thread_trace_other ta_accept_calls_def thread_analyzer_init_def thread_state_def analyzer_init_def)
qed

lemma accept_all_defined:
  "(\<And>i. depth_after (thread_trace i d) 0 \<noteq> None) \<Longrightarrow> an_accept_all d (analyzer_init ov) \<noteq> None"
proof (induction d rule: rev_induct)
  case (snoc b d)
  obtain i calls where b: "b = (i, calls)" by (cases b)
  have "depth_after (thread_trace j d) 0 \<noteq> None" for j
    using snoc.prems [of j] by (auto simp: thread_trace_append depth_after_append bind_eq_Some_conv)
  with snoc.IH obtain an where an: "an_accept_all d (analyzer_init ov) = Some an" by auto
  have trace: "thread_trace i (d @ [b]) = thread_trace i d @ calls" by (simp add: thread_trace_append b thread_trace_def)
  have "update (shadow_stack_init ov) (thread_trace i d @ calls) [] \<noteq> None"
    unfolding update_defined_iff using snoc.prems [of i] trace by simp
  then have "ta_accept_calls (thread_trace i d @ calls) (thread_analyzer_init ov) \<noteq> None"
    by (simp add: ta_accept_calls_def thread_analyzer_init_def)
  then have "ta_accept_calls calls (thread_state i an) \<noteq> None"
    using ta_accept_append [OF ta_ok_init, of "thread_trace i d" calls ov] accept_all_state [OF an, of i] by simp
  from accept_defined [OF this] show ?case by (auto simp: accept_all_append an b)
qed (simp add: analyzer_init_def)

end
