(* ===== verification/Collector_System.thy ===== *)
theory Collector_System
  imports Buffers_Queue Thread_Queues "HOL-Library.Sublist"
begin

text \<open>
  The collector as it is put together: thread collectors over the trace queue of
  \<^verbatim>\<open>buffers_queue.h\<close>, their manager, and the analyzer the batches go to. The methods of the
  queue are the steps of its two threads run to the end of the call.
\<close>

section \<open>Methods of the trace queue\<close>

text \<open>The rest of \<^verbatim>\<open>flush\<close>; \<^const>\<open>None\<close> when it waits.\<close>

definition bq_settle :: "('e, 'q) ring \<Rightarrow> 'e \<Rightarrow> ('e, 'q) bq_system \<Rightarrow> ('e, 'q) bq_system option" where
  "bq_settle ops junk s =
     (if producer s \<noteq> Checking then Some s
      else case bq_step ops junk Take s of
        Next (s', _) \<Rightarrow> if producer s' = Producing then Some s' else None
      | _ \<Rightarrow> None)"

definition bq_push :: "('e, 'q) ring \<Rightarrow> 'e \<Rightarrow> 'e \<Rightarrow> ('e, 'q) bq_system \<Rightarrow> ('e, 'q) bq_system option" where
  "bq_push ops junk e s =
     (case bq_step ops junk (Push e) s of Next (s', _) \<Rightarrow> bq_settle ops junk s' | _ \<Rightarrow> None)"

definition bq_flush :: "('e, 'q) ring \<Rightarrow> 'e \<Rightarrow> ('e, 'q) bq_system \<Rightarrow> ('e, 'q) bq_system option" where
  "bq_flush ops junk s =
     (case bq_step ops junk Flush s of Next (s', _) \<Rightarrow> bq_settle ops junk s' | _ \<Rightarrow> None)"

fun next_action :: "'e consumer_pc \<Rightarrow> 'e action" where
  "next_action Idle = Begin_Read"
| "next_action (Looping _ _) = Consume"
| "next_action (Returning _ _ _) = Give_Back"
| "next_action (Notifying _ _) = Notify"
| "next_action (Finishing _) = Finish"

fun bq_round ::
  "('e, 'q) ring \<Rightarrow> 'e \<Rightarrow> nat \<Rightarrow> ('e, 'q) bq_system \<Rightarrow> (('e, 'q) bq_system \<times> 'e delivery) option" where
  "bq_round ops junk 0 s = None"
| "bq_round ops junk (Suc fuel) s =
     (if consumer s = Idle then Some (s, [])
      else case bq_step ops junk (next_action (consumer s)) s of
        Next (s', d) \<Rightarrow> map_option (\<lambda>(s'', d'). (s'', d @ d')) (bq_round ops junk fuel s')
      | _ \<Rightarrow> None)"

text \<open>Three steps per buffer and three more end a round of reading.\<close>

definition bq_read_collected ::
  "('e, 'q) ring \<Rightarrow> 'e \<Rightarrow> ('e, 'q) bq_system \<Rightarrow> (('e, 'q) bq_system \<times> 'e delivery) option" where
  "bq_read_collected ops junk s =
     (case bq_step ops junk Begin_Read s of
        Next (s', _) \<Rightarrow> bq_round ops junk (3 * max_buffers (bq_policy (sys_queue s)) + 3) s'
      | _ \<Rightarrow> None)"

definition bq_change_policy ::
  "('e, 'q) ring \<Rightarrow> 'e \<Rightarrow> buffering_policy \<Rightarrow> ('e, 'q) bq_system \<Rightarrow> ('e, 'q) bq_system option" where
  "bq_change_policy ops junk p s =
     (case bq_step ops junk (Set_Policy p) s of Next (s', _) \<Rightarrow> Some s' | _ \<Rightarrow> None)"

definition bq_class ::
  "('e, 'q) ring \<Rightarrow> 'e \<Rightarrow> (('e, 'q) bq_system, buffering_policy, 'e) queue_class" where
  "bq_class ops junk =
     \<lparr>qc_new = bq_start ops junk, qc_flush = bq_flush ops junk, qc_set_policy = bq_change_policy ops junk,
      qc_read = bq_read_collected ops junk\<rparr>"

section \<open>A reading round ends\<close>

fun steps_left :: "'e consumer_pc \<Rightarrow> nat" where
  "steps_left Idle = 0"
| "steps_left (Looping n _) = 3 * n + 2"
| "steps_left (Returning _ n _) = 3 * n + 4"
| "steps_left (Notifying n _) = 3 * n + 3"
| "steps_left (Finishing _) = 1"

lemma consumer_advances:
  assumes "circular_buffer_laws ops contents cap" "bq_inv contents cap c s" "consumer s \<noteq> Idle"
  shows "\<exists>s' d. bq_step ops junk (next_action (consumer s)) s = Next (s', d) \<and>
    steps_left (consumer s') < steps_left (consumer s)"
proof -
  have "policies_ok c (next_action (consumer s))" by (cases "consumer s") simp_all
  from step_sound [OF assms(1,2) this, of junk] have "bq_step ops junk (next_action (consumer s)) s \<noteq> Undefined"
    by (auto simp: step_ok_def)
  then show ?thesis using assms(3)
    by (cases "consumer s")
      (auto simp: or_undefined_def split: option.splits prod.splits if_splits)
qed

text \<open>While the producer stands still, the ring loses one buffer per turn of the loop: what is left at the end does not change.\<close>

fun turns_left :: "'e consumer_pc \<Rightarrow> nat" where
  "turns_left (Looping n _) = n"
| "turns_left (Returning _ n _) = n"
| "turns_left (Notifying n _) = n"
| "turns_left _ = 0"

lemma consumer_drains:
  assumes "circular_buffer_laws ops contents cap" "bq_step ops junk (next_action (consumer s)) s = Next (s', d)"
    and "consumer s \<noteq> Idle"
  shows "drop (turns_left (consumer s')) (contents (ready_buffers (sys_queue s'))) =
    drop (turns_left (consumer s)) (contents (ready_buffers (sys_queue s)))"
proof (cases "consumer s")
  case (Looping n r)
  with assms(2) laws_consume(1) [OF assms(1)] laws_consume_None [OF assms(1)] show ?thesis
    by (cases "cb_consume ops (ready_buffers (sys_queue s))"; cases n) (auto simp: consume_ready_def split: if_splits)
qed (use assms(2,3) in \<open>auto simp: or_undefined_def give_back_def notify_def finish_read_def adjust_empty_buffers_def
    Let_def case_prod_unfold split: option.splits if_splits\<close>)

lemma step_keeps_id:
  "bq_step ops junk a s = Next (s', d) \<Longrightarrow> bq_id (sys_queue s') = bq_id (sys_queue s)"
  by (cases a) (auto simp: or_undefined_def write_current_def advance_def flush_publish_def flush_take_def start_buffer_def
      consume_ready_def give_back_def notify_def finish_read_def bq_set_buffering_policy_def adjust_empty_buffers_def
      Let_def case_prod_unfold split: option.splits list.splits if_splits consumer_pc.splits)

lemma step_keeps_policy:
  "bq_step ops junk a s = Next (s', d) \<Longrightarrow> keeps_policy a \<Longrightarrow> bq_policy (sys_queue s') = bq_policy (sys_queue s)"
  by (cases a) (auto simp: or_undefined_def write_current_def advance_def flush_publish_def flush_take_def start_buffer_def
      consume_ready_def give_back_def notify_def finish_read_def adjust_empty_buffers_def
      Let_def case_prod_unfold split: option.splits list.splits if_splits consumer_pc.splits)


lemma round_ends:
  assumes "circular_buffer_laws ops contents cap"
  shows "bq_inv contents cap c s \<Longrightarrow> steps_left (consumer s) < fuel \<Longrightarrow>
    \<exists>s' d. bq_round ops junk fuel s = Some (s', d) \<and> bq_inv contents cap c s' \<and> consumer s' = Idle \<and>
      producer s' = producer s \<and> bq_id (sys_queue s') = bq_id (sys_queue s) \<and>
      bq_policy (sys_queue s') = bq_policy (sys_queue s) \<and>
      fst ` set d \<subseteq> {bq_id (sys_queue s)} \<and>
      delivered d @ in_flight contents (sys_queue s') = in_flight contents (sys_queue s) \<and>
      contents (ready_buffers (sys_queue s')) = drop (turns_left (consumer s)) (contents (ready_buffers (sys_queue s)))"
proof (induction fuel arbitrary: s)
  case (Suc fuel)
  show ?case
  proof (cases "consumer s = Idle")
    case False
    from consumer_advances [OF assms Suc.prems(1) False, of junk] obtain s1 d1 where
      s1: "bq_step ops junk (next_action (consumer s)) s = Next (s1, d1)"
      "steps_left (consumer s1) < steps_left (consumer s)" by blast
    have a: "policies_ok c (next_action (consumer s))" "pushed [next_action (consumer s)] = []"
      by (cases "consumer s"; simp)+
    have inv: "bq_inv contents cap c s1" "delivered d1 @ in_flight contents (sys_queue s1) = in_flight contents (sys_queue s)"
      using step_sound [OF assms Suc.prems(1) a(1), of junk] s1(1) a(2) by (simp_all add: step_ok_def)
    have "keeps_policy (next_action (consumer s))" by (cases "consumer s") simp_all
    note frame = step_keeps_id [OF s1(1)] step_keeps_policy [OF s1(1) this]
    have d1: "producer s1 = producer s" "fst ` set d1 \<subseteq> {bq_id (sys_queue s)}"
      using s1(1) False by (cases "consumer s"; auto simp: or_undefined_def consume_ready_def split: option.splits if_splits)+
    from Suc.IH [OF inv(1)] s1(2) Suc.prems(2) obtain s' d where "bq_round ops junk fuel s1 = Some (s', d)"
      "bq_inv contents cap c s'" "consumer s' = Idle" "producer s' = producer s1" "bq_id (sys_queue s') = bq_id (sys_queue s1)"
      "bq_policy (sys_queue s') = bq_policy (sys_queue s1)" "fst ` set d \<subseteq> {bq_id (sys_queue s1)}"
      "delivered d @ in_flight contents (sys_queue s') = in_flight contents (sys_queue s1)"
      "contents (ready_buffers (sys_queue s')) = drop (turns_left (consumer s1)) (contents (ready_buffers (sys_queue s1)))" by auto
    with s1 frame d1 False inv(2) consumer_drains [OF assms s1(1) False] show ?thesis by (auto simp: delivered_def)
  qed (use Suc.prems in \<open>simp add: delivered_def\<close>)
qed simp


definition bq_ready :: "('q \<Rightarrow> 'e buffer list) \<Rightarrow> ('q \<Rightarrow> nat) \<Rightarrow> nat \<Rightarrow> ('e, 'q) bq_system \<Rightarrow> bool" where
  "bq_ready contents cap c s \<longleftrightarrow> bq_inv contents cap c s \<and> producer s = Producing \<and> consumer s = Idle \<and>
     max_buffers (bq_policy (sys_queue s)) = c"

lemma read_collected_ok:
  assumes "circular_buffer_laws ops contents cap" "bq_inv contents cap c s" "consumer s = Idle"
  shows "\<exists>s' d. bq_read_collected ops junk s = Some (s', d) \<and> bq_inv contents cap c s' \<and> consumer s' = Idle \<and>
      producer s' = producer s \<and> bq_id (sys_queue s') = bq_id (sys_queue s) \<and>
      bq_policy (sys_queue s') = bq_policy (sys_queue s) \<and>
      fst ` set d \<subseteq> {bq_id (sys_queue s)} \<and>
      delivered d @ in_flight contents (sys_queue s') = in_flight contents (sys_queue s) \<and>
      contents (ready_buffers (sys_queue s')) = drop (max_buffers (bq_policy (sys_queue s))) (contents (ready_buffers (sys_queue s)))"
proof -
  let ?n = "max_buffers (bq_policy (sys_queue s))"
  let ?s = "s\<lparr>consumer := Looping ?n 0\<rparr>"
  have "bq_inv contents cap c ?s" using assms(2,3) by (simp add: bq_inv_defs)
  from round_ends [OF assms(1) this, of "3 * ?n + 3" junk] assms(3) show ?thesis
    by (simp add: bq_read_collected_def)
qed

text \<open>A method that runs a producer step and settles keeps the queue ready and its records in order.\<close>

lemma producer_step:
  assumes "bq_step ops junk a s = Next (s', d)" "a = Flush \<or> a = Take \<or> (\<exists>e. a = Push e)"
  shows "consumer s' = consumer s" "d = []" "keeps_policy a"
    "a \<noteq> Take \<Longrightarrow> producer s' \<noteq> Waiting"
  using assms by (auto simp: or_undefined_def Let_def case_prod_unfold split: option.splits if_splits)

lemma step_ready:
  assumes "circular_buffer_laws ops contents cap" "bq_inv contents cap c s" "consumer s = Idle"
    and "bq_policy (sys_queue s) = pol"
    and "bq_step ops junk a s = Next (s', d)" "a = Flush \<or> a = Take \<or> (\<exists>e. a = Push e)"
  shows "bq_inv contents cap c s'" "consumer s' = Idle" "bq_policy (sys_queue s') = pol"
    "in_flight contents (sys_queue s') = in_flight contents (sys_queue s) @ pushed [a]"
    "bq_id (sys_queue s') = bq_id (sys_queue s)"
proof -
  note p = producer_step [OF assms(5,6)]
  have "step_ok contents cap c a s (Next (s', d))"
    using step_sound [OF assms(1,2) keeps_policy_ok [OF p(3)], of junk] assms(5) by simp
  then show "bq_inv contents cap c s'" "in_flight contents (sys_queue s') = in_flight contents (sys_queue s) @ pushed [a]"
    by (simp_all add: step_ok_def p(2) delivered_def)
  show "consumer s' = Idle" "bq_id (sys_queue s') = bq_id (sys_queue s)" "bq_policy (sys_queue s') = pol"
    using p(1,3) assms(3-5) step_keeps_id [OF assms(5)] step_keeps_policy [OF assms(5)] by simp_all
qed

lemma settle_ready:
  assumes "circular_buffer_laws ops contents cap" "bq_inv contents cap c s" "consumer s = Idle" "producer s \<noteq> Waiting"
    and "bq_policy (sys_queue s) = pol" "bq_settle ops junk s = Some s'"
  shows "bq_inv contents cap c s' \<and> producer s' = Producing \<and> consumer s' = Idle \<and> bq_policy (sys_queue s') = pol \<and> in_flight contents (sys_queue s') = in_flight contents (sys_queue s) \<and>
    bq_id (sys_queue s') = bq_id (sys_queue s)"
proof (cases "producer s = Checking")
  case True
  with assms(6) obtain d where st: "bq_step ops junk Take s = Next (s', d)" "producer s' = Producing"
    by (auto simp: bq_settle_def split: outcome.splits prod.splits if_splits simp del: bq_step.simps)
  from step_ready [OF assms(1,2,3,5) st(1)] st(2) show ?thesis by simp
next
  case False
  with assms show ?thesis by (cases "producer s") (auto simp: bq_settle_def)
qed

lemma producer_call:
  assumes "circular_buffer_laws ops contents cap" "bq_inv contents cap c s" "consumer s = Idle"
    and "bq_step ops junk a s = Next (s1, d)" "a = Flush \<or> (\<exists>e. a = Push e)" "bq_settle ops junk s1 = Some s'"
  shows "bq_inv contents cap c s' \<and> producer s' = Producing \<and> consumer s' = Idle \<and> bq_policy (sys_queue s') = bq_policy (sys_queue s) \<and>
    in_flight contents (sys_queue s') = in_flight contents (sys_queue s) @ pushed [a] \<and> bq_id (sys_queue s') = bq_id (sys_queue s)"
proof -
  have a: "a = Flush \<or> a = Take \<or> (\<exists>e. a = Push e)" "a \<noteq> Take" using assms(5) by auto
  note r = step_ready [OF assms(1-3) refl assms(4) a(1)]
  from settle_ready [OF assms(1) r(1,2) producer_step(4) [OF assms(4) a] r(3) assms(6)] r show ?thesis by simp
qed

lemma push_flush_ready:
  assumes "circular_buffer_laws ops contents cap" "bq_ready contents cap c s"
    and "bq_step ops junk a s = Next (s1, d)" "a = Flush \<or> (\<exists>e. a = Push e)" "bq_settle ops junk s1 = Some s'"
  shows "bq_ready contents cap c s' \<and> in_flight contents (sys_queue s') = in_flight contents (sys_queue s) @ pushed [a] \<and>
    bq_id (sys_queue s') = bq_id (sys_queue s)"
  using producer_call [OF assms(1) _ _ assms(3-5), of c] assms(2) by (auto simp: bq_ready_def)

lemma change_policy_ready:
  assumes "circular_buffer_laws ops contents cap" "bq_ready contents cap c s" "policy_ok c p" "max_buffers p = c"
    and "bq_change_policy ops junk p s = Some s'"
  shows "bq_ready contents cap c s' \<and> in_flight contents (sys_queue s') = in_flight contents (sys_queue s) \<and>
    bq_id (sys_queue s') = bq_id (sys_queue s)"
proof -
  from assms(5) obtain d where st: "bq_step ops junk (Set_Policy p) s = Next (s', d)"
    by (auto simp: bq_change_policy_def split: outcome.splits simp del: bq_step.simps)
  from st have "d = []" "producer s' = producer s" "consumer s' = consumer s" "bq_policy (sys_queue s') = p"
    by (auto simp: or_undefined_def bq_set_buffering_policy_def split: option.splits consumer_pc.splits)
  moreover have "step_ok contents cap c (Set_Policy p) s (Next (s', d))"
    using step_sound [OF assms(1), of c s "Set_Policy p" junk] assms(2,3) st by (simp add: bq_ready_def del: bq_step.simps)
  ultimately show ?thesis using assms(2,4) step_keeps_id [OF st] by (simp add: step_ok_def bq_ready_def delivered_def)
qed

lemma start_ready:
  assumes "circular_buffer_laws ops contents cap" "policy_ok (max_buffers p) p" "max_buffers p < 2 ^ 62"
    and "bq_start ops junk p i = Some s"
  shows "bq_ready contents cap (max_buffers p) s" "in_flight contents (sys_queue s) = []" "bq_id (sys_queue s) = i"
proof -
  have "producer s = Producing" "consumer s = Idle" "bq_policy (sys_queue s) = p"
    using assms(4) by (auto simp: bq_start_def buffers_queue_init_def adjust_empty_buffers_def start_buffer_def
        Let_def case_prod_unfold)
  with start_inv [OF assms(1-3), of junk i] assms(4)
  show "bq_ready contents cap (max_buffers p) s" "in_flight contents (sys_queue s) = []" "bq_id (sys_queue s) = i"
    by (simp_all add: bq_ready_def)
qed

lemma flush_starts_buffer:
  assumes "bq_step ops junk Flush s = Next (s', d)" "bq_settle ops junk s' = Some s1"
  shows "ptr (sys_queue s1) = 0"
  using assms
  by (auto simp: bq_settle_def or_undefined_def flush_publish_def flush_take_def start_buffer_def
      split: option.splits if_splits list.splits)

lemma consumer_keeps_ptr:
  "bq_step ops junk (next_action (consumer s)) s = Next (s', d) \<Longrightarrow> ptr (sys_queue s') = ptr (sys_queue s)"
  by (cases "consumer s") (auto simp: or_undefined_def consume_ready_def give_back_def notify_def finish_read_def
      adjust_empty_buffers_def Let_def case_prod_unfold split: option.splits if_splits)

lemma round_keeps_ptr: "bq_round ops junk fuel s = Some (s', d) \<Longrightarrow> ptr (sys_queue s') = ptr (sys_queue s)"
proof (induction fuel arbitrary: s d)
  case (Suc fuel)
  show ?case
  proof (cases "consumer s = Idle")
    case False
    with Suc.prems obtain s1 d1 d2 where "bq_step ops junk (next_action (consumer s)) s = Next (s1, d1)"
      "bq_round ops junk fuel s1 = Some (s', d2)" by (auto split: outcome.splits simp del: bq_step.simps)
    with Suc.IH consumer_keeps_ptr show ?thesis by fastforce
  qed (use Suc.prems in simp)
qed simp

lemma read_keeps_ptr:
  assumes "bq_read_collected ops junk s = Some (s', d)"
  shows "ptr (sys_queue s') = ptr (sys_queue s)"
proof -
  from assms obtain s1 d1 where s1: "bq_step ops junk Begin_Read s = Next (s1, d1)"
    "bq_round ops junk (3 * max_buffers (bq_policy (sys_queue s)) + 3) s1 = Some (s', d)"
    by (auto simp: bq_read_collected_def split: outcome.splits simp del: bq_step.simps)
  from s1(1) have "ptr (sys_queue s1) = ptr (sys_queue s)" by (auto split: consumer_pc.splits)
  with round_keeps_ptr [OF s1(2)] show ?thesis by simp
qed

text \<open>Several rounds of reading, one after another.\<close>

fun bq_read_rounds ::
  "('e, 'q) ring \<Rightarrow> 'e \<Rightarrow> nat \<Rightarrow> ('e, 'q) bq_system \<Rightarrow> (('e, 'q) bq_system \<times> 'e delivery) option" where
  "bq_read_rounds ops junk 0 s = Some (s, [])"
| "bq_read_rounds ops junk (Suc k) s = Option.bind (bq_read_collected ops junk s)
     (\<lambda>(s', d). map_option (\<lambda>(s'', d'). (s'', d @ d')) (bq_read_rounds ops junk k s'))"

lemma flushed_in_flight: "ptr q = 0 \<Longrightarrow> in_flight contents q = concat (map valid_part (contents (ready_buffers q)))"
  by (simp add: in_flight_def split: option.splits)

lemma read_rounds_ok:
  assumes "circular_buffer_laws ops contents cap"
  shows "bq_inv contents cap c s \<Longrightarrow> consumer s = Idle \<Longrightarrow> ptr (sys_queue s) = 0 \<Longrightarrow>
    \<exists>s' d. bq_read_rounds ops junk k s = Some (s', d) \<and> ptr (sys_queue s') = 0 \<and>
      delivered d = concat (map valid_part (take (k * max_buffers (bq_policy (sys_queue s))) (contents (ready_buffers (sys_queue s))))) \<and>
      contents (ready_buffers (sys_queue s')) = drop (k * max_buffers (bq_policy (sys_queue s))) (contents (ready_buffers (sys_queue s)))"
proof (induction k arbitrary: s)
  case (Suc k)
  let ?n = "max_buffers (bq_policy (sys_queue s))" and ?ready = "contents (ready_buffers (sys_queue s))"
  from read_collected_ok [OF assms Suc.prems(1,2), of junk] obtain s1 d1 where r: "bq_read_collected ops junk s = Some (s1, d1)"
    "bq_inv contents cap c s1" "consumer s1 = Idle" "bq_policy (sys_queue s1) = bq_policy (sys_queue s)"
    "delivered d1 @ in_flight contents (sys_queue s1) = in_flight contents (sys_queue s)"
    "contents (ready_buffers (sys_queue s1)) = drop ?n ?ready" by blast
  have p: "ptr (sys_queue s1) = 0" using read_keeps_ptr [OF r(1)] Suc.prems(3) by simp
  have "concat (map valid_part ?ready) = concat (map valid_part (take ?n ?ready)) @ concat (map valid_part (drop ?n ?ready))"
    by (metis append_take_drop_id concat_append map_append)
  with r(5,6) have d1: "delivered d1 = concat (map valid_part (take ?n ?ready))"
    by (simp add: flushed_in_flight [OF p] flushed_in_flight [OF Suc.prems(3)])
  from Suc.IH [OF r(2,3) p] obtain s' d where "bq_read_rounds ops junk k s1 = Some (s', d)" "ptr (sys_queue s') = 0"
    "delivered d = concat (map valid_part (take (k * ?n) (drop ?n ?ready)))" "contents (ready_buffers (sys_queue s')) = drop (k * ?n) (drop ?n ?ready)"
    by (auto simp: r(4,6))
  moreover have "delivered (d1 @ d) = delivered d1 @ delivered d" by (simp add: delivered_def)
  ultimately show ?case by (simp add: r(1) d1 take_add add.commute)
qed (simp add: delivered_def)

section \<open>The trace queue keeps the interface of the collector\<close>

locale trace_ring =
  fixes ops :: "('k call_record, 'q) ring" and contents :: "'q \<Rightarrow> 'k call_record buffer list" and cap :: "'q \<Rightarrow> nat"
    and c :: nat and junk :: "'k call_record"
  assumes laws: "circular_buffer_laws ops contents cap"
    and small: "c < 2 ^ 62"

sublocale trace_ring \<subseteq> queue: collected_queue
  "bq_push ops junk" "\<lambda>s. in_flight contents (sys_queue s)" "bq_ready contents cap c" "bq_class ops junk"
  "\<lambda>s. bq_id (sys_queue s)" "\<lambda>p. policy_ok c p \<and> max_buffers p = c"
proof unfold_locales
  fix s s' and r :: "'k call_record" assume s: "bq_ready contents cap c s" "bq_push ops junk r s = Some s'"
  then obtain s1 d where "bq_step ops junk (Push r) s = Next (s1, d)" "bq_settle ops junk s1 = Some s'"
    by (auto simp: bq_push_def split: outcome.splits simp del: bq_step.simps)
  from push_flush_ready [OF laws s(1) this(1) _ this(2)]
  show "bq_ready contents cap c s'" "in_flight contents (sys_queue s') = in_flight contents (sys_queue s) @ [r]"
    "bq_id (sys_queue s') = bq_id (sys_queue s)" by simp_all
next
  fix p i s assume p: "policy_ok c p \<and> max_buffers p = c" "qc_new (bq_class ops junk) p i = Some s"
  with start_ready [OF laws, of p junk i s] small
  show "bq_ready contents cap c s \<and> in_flight contents (sys_queue s) = [] \<and> bq_id (sys_queue s) = i"
    by (auto simp: bq_class_def)
next
  fix s s' assume s: "bq_ready contents cap c s" "qc_flush (bq_class ops junk) s = Some s'"
  then obtain s1 d where "bq_step ops junk Flush s = Next (s1, d)" "bq_settle ops junk s1 = Some s'"
    by (auto simp: bq_class_def bq_flush_def split: outcome.splits simp del: bq_step.simps)
  from push_flush_ready [OF laws s(1) this(1) _ this(2)]
  show "bq_ready contents cap c s' \<and> in_flight contents (sys_queue s') = in_flight contents (sys_queue s) \<and>
    bq_id (sys_queue s') = bq_id (sys_queue s)" by simp
next
  fix s s' p assume "bq_ready contents cap c s" "policy_ok c p \<and> max_buffers p = c"
    "qc_set_policy (bq_class ops junk) p s = Some s'"
  then show "bq_ready contents cap c s' \<and> in_flight contents (sys_queue s') = in_flight contents (sys_queue s) \<and>
    bq_id (sys_queue s') = bq_id (sys_queue s)"
    using change_policy_ready [OF laws, of c s p junk s'] by (simp add: bq_class_def)
next
  fix s s' d assume s: "bq_ready contents cap c s" "qc_read (bq_class ops junk) s = Some (s', d)"
  from read_collected_ok [OF laws, of c s junk] s
  show "bq_ready contents cap c s' \<and> bq_id (sys_queue s') = bq_id (sys_queue s) \<and>
    concat (map snd d) @ in_flight contents (sys_queue s') = in_flight contents (sys_queue s) \<and>
    fst ` set d \<subseteq> {bq_id (sys_queue s)}"
    by (auto simp: bq_class_def bq_ready_def delivered_def)
qed


context trace_ring
begin

lemma threads_well_nested:
  assumes "policy_ok c p" "max_buffers p = c"
    and "list_all (cc_op_ok (\<lambda>q. policy_ok c q \<and> max_buffers q = c)) steps" "length steps < 2 ^ 32"
    and "cc_run (bq_class ops junk) (bq_push ops junk) steps (calls_collector_init p) = Some (s, d)"
  shows "depth_after (thread_trace i d) 0 \<noteq> None"
  by (rule queue.cc_run_thread_depth [OF conjI [OF assms(1,2)] assms(3-5)])

end

interpretation list_traces: trace_ring list_ring fst snd 2 "\<lparr>timestamp = 0, callee = None\<rparr>"
  by unfold_locales (simp_all add: list_ring_laws)

section \<open>Properties\<close>

text \<open>
  C4. The analyzer never meets an exit without an open call: whatever the threads of the process run
  through, enter, leave, tail-call, unwind, flush, end, in any order, with policy changes that keep
  the number of buffers and with readings in between, the batches read can be fed to the analyzer
  one after the other.
\<close>

theorem collector_feeds_analyzer:
  assumes "circular_buffer_laws ops contents cap" "make_policy a f g = Some p" "a < 2 ^ 64"
    and "list_all (cc_op_ok (\<lambda>q. policy_ok (max_buffers p) q \<and> max_buffers q = max_buffers p)) steps"
    and "length steps < 2 ^ 32"
    and "cc_run (bq_class ops junk) (bq_push ops junk) steps (calls_collector_init p) = Some (s, d)"
  shows "an_accept_all d (analyzer_init ov) \<noteq> None"
proof -
  note pol = make_policy_ok [OF assms(2,3)]
  have ring: "trace_ring ops contents cap (max_buffers p)" using assms(1) pol(2) by unfold_locales
  show ?thesis
    by (rule accept_all_defined, rule trace_ring.threads_well_nested [OF ring pol(1) refl assms(4-6)])
qed

text \<open>The records of a thread that entered a function, left it, and flushed its queue.\<close>

definition demo_steps :: "(nat, buffering_policy) cc_op list" where
  "demo_steps = [Hooked (\<lambda>_ ti. ti) 5 (Entered 100 7 3 1), Hooked (\<lambda>_ ti. ti) 5 (Left 100 8), Flush_Thread 5, Read_Collected]"

lemmas method_eval = cc_hook_def on_thread_queue_def get_queue_def construct_queue_def on_queue_def cct_class_def
  bq_class_def bq_push_def bq_flush_def bq_settle_def bq_read_collected_def on_enter_def on_exit_def track_def
  calls_collector_init_def thread_queue_manager_init_def thread_monitor_init_def register_self_def um_insert_def
  calls_collector_thread_init_def sentinel_def cc_flush_def tqm_flush_def cc_read_collected_def tqm_read_collected_def
  bq_start_def buffers_queue_init_def adjust_empty_buffers_def grow_empty.simps size_add_def Let_def

lemma nine_turns: "bq_round ops junk 9 s = bq_round ops junk (Suc (Suc (Suc (Suc (Suc (Suc (Suc (Suc (Suc 0))))))))) s"
proof -
  have "(9 :: nat) = Suc (Suc (Suc (Suc (Suc (Suc (Suc (Suc (Suc 0))))))))" by simp
  then show ?thesis by (simp only:)
qed

lemma sentinel_above: "\<not> (- 1 :: u64) \<le> 100"
  by code_simp

lemma demo_run:
  "\<exists>s d. cc_run (bq_class list_ring \<lparr>timestamp = 0, callee = None\<rparr>) (bq_push list_ring \<lparr>timestamp = 0, callee = None\<rparr>)
     demo_steps (calls_collector_init \<lparr>max_buffers = 2, max_empty = 2, min_empty = 1\<rparr>) = Some (s, d)"
  by (simp add: demo_steps_def method_eval bq_eval buffer_size_def nine_turns sentinel_above)


lemma collector_feeds_analyzer_witness:
  "\<exists>s d. cc_run (bq_class list_ring \<lparr>timestamp = 0, callee = None\<rparr>) (bq_push list_ring \<lparr>timestamp = 0, callee = None\<rparr>)
     demo_steps (calls_collector_init \<lparr>max_buffers = 2, max_empty = 2, min_empty = 1\<rparr>) = Some (s, d) \<and>
     an_accept_all d (analyzer_init \<lparr>inner = 0, outer = 0\<rparr>) \<noteq> None"
proof -
  from demo_run obtain s d where run: "cc_run (bq_class list_ring \<lparr>timestamp = 0, callee = None\<rparr>)
     (bq_push list_ring \<lparr>timestamp = 0, callee = None\<rparr>) demo_steps
     (calls_collector_init \<lparr>max_buffers = 2, max_empty = 2, min_empty = 1\<rparr>) = Some (s, d)" by blast
  have "an_accept_all d (analyzer_init \<lparr>inner = 0, outer = 0\<rparr>) \<noteq> None"
    by (rule collector_feeds_analyzer [OF list_ring_laws policy_two(2) _ _ _ run])
      (simp_all add: demo_steps_def os_ok_def)
  with run show ?thesis by blast
qed

text \<open>
  C10. Reading rounds end and deliver every record: in whatever state the two threads leave the queue, once the producer has flushed
  and stands still, each round returns, having delivered the first of the ready buffers, as many as the policy set last has for
  \<^verbatim>\<open>max_buffers\<close>. Policies may have changed on the way, if none has more buffers than the first. Rounds that have together as many turns as
  the queue was made for buffers leave nothing in the queue: one round, unless the policy has fewer buffers now.
\<close>

theorem flush_then_read_delivers_all:
  fixes rounds :: nat
  assumes "circular_buffer_laws ops contents cap"
    and "make_policy a f g = Some p" "a < 2 ^ 64" "bq_start ops junk p i = Some s0"
    and "list_all (policies_ok (max_buffers p)) as" "bq_run ops junk as s0 = Next (s, d0)"
    and "consumer s = Idle" "bq_flush ops junk s = Some s1"
  defines "n \<equiv> rounds * max_buffers (bq_policy (sys_queue s))"
  shows "\<exists>s2 d. bq_read_rounds ops junk rounds s1 = Some (s2, d) \<and>
    delivered d = concat (map valid_part (take n (contents (ready_buffers (sys_queue s1))))) \<and>
    (max_buffers p \<le> n \<longrightarrow> delivered d = in_flight contents (sys_queue s) \<and> in_flight contents (sys_queue s2) = [])"
proof -
  note pol = make_policy_ok [OF assms(2,3)]
  from start_inv [OF assms(1) pol, of junk i] assms(4) have "bq_inv contents cap (max_buffers p) s0" by auto
  from run_sound [OF assms(1) this assms(5), of junk] assms(6) have inv: "bq_inv contents cap (max_buffers p) s" by simp
  from assms(8) obtain s' d' where f: "bq_step ops junk Flush s = Next (s', d')" "bq_settle ops junk s' = Some s1"
    by (auto simp: bq_flush_def split: outcome.splits simp del: bq_step.simps)
  from producer_call [OF assms(1) inv assms(7) f(1) _ f(2)] have s1: "bq_inv contents cap (max_buffers p) s1" "consumer s1 = Idle"
    "bq_policy (sys_queue s1) = bq_policy (sys_queue s)" "in_flight contents (sys_queue s1) = in_flight contents (sys_queue s)" by auto
  have p: "ptr (sys_queue s1) = 0" by (rule flush_starts_buffer [OF f])
  from read_rounds_ok [OF assms(1) s1(1,2) p, of junk rounds] obtain s2 d where r: "bq_read_rounds ops junk rounds s1 = Some (s2, d)"
    "ptr (sys_queue s2) = 0" "delivered d = concat (map valid_part (take n (contents (ready_buffers (sys_queue s1)))))"
    "contents (ready_buffers (sys_queue s2)) = drop n (contents (ready_buffers (sys_queue s1)))" by (auto simp: s1(3) n_def)
  have "length (contents (ready_buffers (sys_queue s1))) \<le> max_buffers p" using s1(1) by (auto simp: bq_inv_defs)
  then have "delivered d = in_flight contents (sys_queue s) \<and> in_flight contents (sys_queue s2) = []" if "max_buffers p \<le> n"
    using that r(3,4) by (simp add: s1(4) [symmetric] flushed_in_flight [OF p] flushed_in_flight [OF r(2)])
  with r show ?thesis by blast
qed

text \<open>A record, under a policy of two buffers that is then changed to one.\<close>

lemma flush_then_read_delivers_all_witness:
  "\<exists>s0 s d0 s1 s2 d. bq_start list_ring (0::nat) \<lparr>max_buffers = 2, max_empty = 2, min_empty = 1\<rparr> 7 = Some s0 \<and>
    bq_run list_ring 0 [Push 5, Set_Policy \<lparr>max_buffers = 1, max_empty = 1, min_empty = 0\<rparr>] s0 = Next (s, d0) \<and>
    bq_flush list_ring 0 s = Some s1 \<and>
    bq_read_rounds list_ring 0 2 s1 = Some (s2, d) \<and> delivered d = in_flight fst (sys_queue s) \<and>
    in_flight fst (sys_queue s2) = []"
proof -
  have "\<exists>s0 s d0 s1. bq_start list_ring (0::nat) \<lparr>max_buffers = 2, max_empty = 2, min_empty = 1\<rparr> 7 = Some s0 \<and>
    bq_run list_ring 0 [Push 5, Set_Policy \<lparr>max_buffers = 1, max_empty = 1, min_empty = 0\<rparr>] s0 = Next (s, d0) \<and> consumer s = Idle \<and>
    bq_flush list_ring 0 s = Some s1 \<and> max_buffers (bq_policy (sys_queue s)) = 1"
    by (simp add: bq_start_def buffers_queue_init_def bq_set_buffering_policy_def adjust_empty_buffers_def grow_empty.simps size_add_def
        size_sub_def bq_flush_def bq_settle_def bq_eval buffer_size_def)
  then obtain s0 s d0 s1 where *: "bq_start list_ring (0::nat) \<lparr>max_buffers = 2, max_empty = 2, min_empty = 1\<rparr> 7 = Some s0"
    "bq_run list_ring 0 [Push 5, Set_Policy \<lparr>max_buffers = 1, max_empty = 1, min_empty = 0\<rparr>] s0 = Next (s, d0)" "consumer s = Idle"
    "bq_flush list_ring 0 s = Some s1" "max_buffers (bq_policy (sys_queue s)) = 1" by blast
  from flush_then_read_delivers_all [OF list_ring_laws policy_two(2) _ *(1) _ *(2-4), of 2] * show ?thesis
    by (auto simp: policy_ok_def simp del: bq_run.simps)
qed

text \<open>
  However the thread and the reader interleave inside their calls, what has reached the reader is
  a trace the shadow stack accepts: whatever hooks the thread runs through, any run of the queue that
  pushes the records the hooks emit, up to some point, delivers a prefix with no exit too many.
\<close>

theorem interleaving_keeps_nesting:
  assumes "circular_buffer_laws ops contents cap"
    and "make_policy a f g = Some p" "a < 2 ^ 64" "bq_start ops junk p i = Some s0"
    and "list_all (policies_ok (max_buffers p)) as" "bq_run ops junk as s0 = Next (s, d)"
    and "list_all hook_ok hs" "run_hooks list_push hs (calls_collector_thread_init []) = Some (ras, c)"
    and "prefix (pushed as) (cct_queue c)"
  shows "update (shadow_stack_init ov) (delivered d) [] \<noteq> None"
proof -
  note pol = make_policy_ok [OF assms(2,3)]
  note s0 = start_ready [OF assms(1) pol assms(4)]
  have "delivered d @ in_flight contents (sys_queue s) = pushed as"
    using run_sound [OF assms(1), of "max_buffers p" s0 as junk] s0 assms(5,6) by (simp add: bq_ready_def)
  with assms(9) obtain rest where rest: "cct_queue c = delivered d @ rest"
    by (metis append_assoc prefix_def)
  let ?c0 = "calls_collector_thread_init ([] :: 'a call_record list)"
  have "returns_ok (return_stack ?c0)" "cct_queue ?c0 = []" "open_calls ?c0 = 0"
    by (simp_all add: calls_collector_thread_init_def returns_ok_init open_calls_def)
  with list_queue.run_hooks_depth [OF _ _ assms(7,8)] have "depth_after (cct_queue c) 0 \<noteq> None" by auto
  then have "depth_after (delivered d) 0 \<noteq> None" by (auto simp: rest depth_after_append bind_eq_Some_conv)
  then show ?thesis by (simp only: update_defined_iff not_False_eq_True)
qed

lemma interleaving_keeps_nesting_witness:
  "\<exists>s0 s d. bq_start list_ring \<lparr>timestamp = 0, callee = None\<rparr> \<lparr>max_buffers = 2, max_empty = 2, min_empty = 1\<rparr> 7 = Some s0 \<and>
    bq_run list_ring \<lparr>timestamp = 0, callee = None\<rparr>
      [Begin_Read, Push \<lparr>timestamp = 3, callee = Some (1::nat)\<rparr>, Flush, Consume, Take] s0 = Next (s, d) \<and>
    update (shadow_stack_init \<lparr>inner = 0, outer = 0\<rparr>) (delivered d) [] \<noteq> None"
proof -
  let ?j = "\<lparr>timestamp = 0, callee = None\<rparr> :: nat call_record"
  let ?as = "[Begin_Read, Push \<lparr>timestamp = 3, callee = Some (1::nat)\<rparr>, Flush, Consume, Take]"
  have "\<exists>s0 s d. bq_start list_ring ?j \<lparr>max_buffers = 2, max_empty = 2, min_empty = 1\<rparr> 7 = Some s0 \<and>
    bq_run list_ring ?j ?as s0 = Next (s, d)"
    by (simp add: bq_start_def buffers_queue_init_def adjust_empty_buffers_def grow_empty.simps size_add_def
        bq_eval buffer_size_def)
  then obtain s0 s d where *: "bq_start list_ring ?j \<lparr>max_buffers = 2, max_empty = 2, min_empty = 1\<rparr> 7 = Some s0"
    "bq_run list_ring ?j ?as s0 = Next (s, d)" by blast
  have h: "run_hooks list_push [Entered 100 7 3 1, Left 100 8] (calls_collector_thread_init []) =
    Some ([7], calls_collector_thread_init [\<lparr>timestamp = 3, callee = Some (1::nat)\<rparr>, \<lparr>timestamp = 8, callee = None\<rparr>])"
    using sentinel_above
    by (simp add: calls_collector_thread_init_def sentinel_def on_enter_def on_exit_def track_def list_push_def)
  have "update (shadow_stack_init \<lparr>inner = 0, outer = 0\<rparr>) (delivered d) [] \<noteq> None"
    by (rule interleaving_keeps_nesting [OF list_ring_laws policy_two(2) _ *(1) _ *(2) _ h])
      (simp_all add: calls_collector_thread_init_def)
  with * show ?thesis by blast
qed

end
