(* ===== verification/Task_Queue.thy ===== *)
theory Task_Queue
  imports Events
begin

text \<open>
  \<^verbatim>\<open>scheduler/task_queue.h\<close> and \<^verbatim>\<open>.cpp\<close>: tasks with a deadline, executed in the
  order of their deadlines, first come first served among equals; \<^verbatim>\<open>thread_queue\<close>, which runs
  them on a thread of its own.

  A task is opaque: \<open>prog\<close> gives, for a task and the state of the rest of the program, the new
  state and what gets scheduled while the task runs. The clock is a sequence of readings, the queue
  keeps the number of those taken. \<^verbatim>\<open>std::priority_queue\<close> is the list of its elements with
  \<^verbatim>\<open>top()\<close> first.
\<close>

section \<open>The queue\<close>

record 't deadlined_task =
  dt_task :: 't
  deadline :: int
  order :: nat

text \<open>\<^verbatim>\<open>operator <\<close>: the greatest element, the top of the queue, has the earliest deadline.\<close>

definition dt_less :: "'t deadlined_task \<Rightarrow> 't deadlined_task \<Rightarrow> bool" where
  "dt_less l r = (if deadline l > deadline r then True else if deadline l < deadline r then False else order l > order r)"

fun emplace :: "'t deadlined_task \<Rightarrow> 't deadlined_task list \<Rightarrow> 't deadlined_task list" where
  "emplace t [] = [t]"
| "emplace t (x # xs) = (if dt_less x t then t # x # xs else x # emplace t xs)"

record 't task_queue =
  tq_tasks :: "'t deadlined_task list"
  tq_readings :: nat
  tq_ready :: event
  tq_order :: nat
  omit_notify :: bool
  stopped :: bool

type_synonym wake_up = "int \<times> bool"

definition task_queue_init :: "'t task_queue" where
  "task_queue_init = \<lparr>tq_tasks = [], tq_readings = 0, tq_ready = \<lparr>ev_state = False, ev_auto = True\<rparr>, tq_order = 0,
     omit_notify = False, stopped = False\<rparr>"

definition read_clock :: "(nat \<Rightarrow> int) \<Rightarrow> 't task_queue \<Rightarrow> int \<times> 't task_queue" where
  "read_clock clk tq = (clk (tq_readings tq), tq\<lparr>tq_readings := tq_readings tq + 1\<rparr>)"

definition tq_schedule :: "(nat \<Rightarrow> int) \<Rightarrow> 't \<Rightarrow> int \<Rightarrow> 't task_queue \<Rightarrow> 't task_queue \<times> wake_up" where
  "tq_schedule clk task defer_by tq =
     (if stopped tq then (tq, (0, False))
      else
        let (now, tq) = read_clock clk tq;
            t = \<lparr>dt_task = task, deadline = now + defer_by, order = tq_order tq\<rparr>;
            notify = (\<not> omit_notify tq \<and> (tq_tasks tq = [] \<or> deadline t < deadline (hd (tq_tasks tq))));
            tq = tq\<lparr>tq_order := tq_order tq + 1, tq_tasks := emplace t (tq_tasks tq)\<rparr>
        in if notify then (tq\<lparr>tq_ready := ev_set (tq_ready tq)\<rparr>, (defer_by, True)) else (tq, (0, False)))"

fun schedule_all :: "(nat \<Rightarrow> int) \<Rightarrow> ('t \<times> int) list \<Rightarrow> 't task_queue \<Rightarrow> 't task_queue" where
  "schedule_all clk [] tq = tq"
| "schedule_all clk (x # xs) tq = schedule_all clk xs (fst (tq_schedule clk (fst x) (snd x) tq))"

text \<open>
  The loop of \<^verbatim>\<open>execute_ready\<close>. The log lists the tasks executed with the time they were
  started at. A task may schedule others without end, hence the fuel; \<open>until\<close> is the end of the
  time slot.
\<close>

fun exec_loop ::
  "(nat \<Rightarrow> int) \<Rightarrow> ('t \<Rightarrow> 's \<Rightarrow> 's \<times> ('t \<times> int) list) \<Rightarrow> int \<Rightarrow> nat \<Rightarrow> int \<Rightarrow> 's \<times> 't task_queue \<Rightarrow>
   (int \<times> ('t deadlined_task \<times> int) list \<times> 's \<times> 't task_queue) option" where
  "exec_loop clk prog until fuel now (s, tq) =
     (if \<not> (now < until \<and> tq_tasks tq \<noteq> [] \<and> deadline (hd (tq_tasks tq)) \<le> now) then Some (now, [], s, tq)
      else case fuel of 0 \<Rightarrow> None
        | Suc fuel' \<Rightarrow>
          let t = hd (tq_tasks tq);
              tq = tq\<lparr>tq_tasks := tl (tq_tasks tq)\<rparr>;
              (s, scheduled) = prog (dt_task t) s;
              tq = schedule_all clk scheduled tq;
              (now', tq) = read_clock clk tq
          in map_option (\<lambda>(n, log, s, tq). (n, (t, now) # log, s, tq)) (exec_loop clk prog until fuel' now' (s, tq)))"

declare exec_loop.simps [simp del]

definition execute_ready ::
  "(nat \<Rightarrow> int) \<Rightarrow> ('t \<Rightarrow> 's \<Rightarrow> 's \<times> ('t \<times> int) list) \<Rightarrow> nat \<Rightarrow> int \<Rightarrow> 's \<times> 't task_queue \<Rightarrow>
   (wake_up \<times> ('t deadlined_task \<times> int) list \<times> 's \<times> 't task_queue) option" where
  "execute_ready clk prog fuel max_duration st =
     (let (now, tq) = read_clock clk (snd st) in
      map_option (\<lambda>(now, log, s, tq).
          (case tq_tasks tq of
             [] \<Rightarrow> (0, False)
           | t # _ \<Rightarrow> (if deadline t > now then deadline t - now else 0, True),
           log, s, tq\<lparr>omit_notify := False\<rparr>))
        (exec_loop clk prog (now + max_duration) fuel now (fst st, tq\<lparr>omit_notify := True\<rparr>)))"

text \<open>
  \<^verbatim>\<open>wait\<close>: what the thread does after looking at the queue, and after a wait on the event that
  ended by a signal or by the timeout.
\<close>

datatype wait_state = Checking_Queue | Waiting_For "int option" | Wait_Done

definition wait_check :: "(nat \<Rightarrow> int) \<Rightarrow> 't task_queue \<Rightarrow> wait_state \<times> 't task_queue" where
  "wait_check clk tq =
     (case tq_tasks tq of
        [] \<Rightarrow> (Waiting_For None, tq)
      | t # _ \<Rightarrow> let (time, tq) = read_clock clk tq in
          if time \<ge> deadline t then (Wait_Done, tq) else (Waiting_For (Some (deadline t)), tq))"

definition wait_signalled :: "'t task_queue \<Rightarrow> (wait_state \<times> 't task_queue) option" where
  "wait_signalled tq = map_option (\<lambda>e. (Checking_Queue, tq\<lparr>tq_ready := e\<rparr>)) (ev_wait (tq_ready tq))"

definition wait_timed_out :: "'t task_queue \<Rightarrow> wait_state \<times> 't task_queue" where
  "wait_timed_out tq = (Wait_Done, tq)"

definition tq_stop :: "'t task_queue \<Rightarrow> 't task_queue" where
  "tq_stop tq = tq\<lparr>tq_tasks := [], stopped := True\<rparr>"

section \<open>Order\<close>

definition before :: "'t deadlined_task \<Rightarrow> 't deadlined_task \<Rightarrow> bool" where
  "before a b \<longleftrightarrow> deadline a < deadline b \<or> deadline a = deadline b \<and> order a \<le> order b"

lemma dt_less_before: "dt_less a b \<Longrightarrow> before b a" "\<not> dt_less a b \<Longrightarrow> before a b"
  by (auto simp: dt_less_def before_def split: if_splits)

lemma before_trans: "before a b \<Longrightarrow> before b c \<Longrightarrow> before a c"
  by (auto simp: before_def)

lemma mset_emplace [simp]: "mset (emplace t xs) = add_mset t (mset xs)"
  by (induction xs) auto

lemma set_emplace [simp]: "set (emplace t xs) = insert t (set xs)"
  by (induction xs) auto

lemma emplace_sorted: "sorted_wrt before xs \<Longrightarrow> sorted_wrt before (emplace t xs)"
  by (induction xs) (auto intro: dt_less_before before_trans)


definition tq_inv :: "'t task_queue \<Rightarrow> bool" where
  "tq_inv tq \<longleftrightarrow> sorted_wrt before (tq_tasks tq) \<and> (\<forall>t\<in>set (tq_tasks tq). order t < tq_order tq)"

lemma tq_inv_init: "tq_inv task_queue_init"
  by (simp add: tq_inv_def task_queue_init_def)

text \<open>Scheduling adds one task, with a deadline counted from the reading of the clock.\<close>

lemma schedule_tasks:
  "tq_tasks (fst (tq_schedule clk x d tq)) =
     (if stopped tq then tq_tasks tq
      else emplace \<lparr>dt_task = x, deadline = clk (tq_readings tq) + d, order = tq_order tq\<rparr> (tq_tasks tq))"
  "tq_order (fst (tq_schedule clk x d tq)) = (if stopped tq then tq_order tq else Suc (tq_order tq))"
  "tq_readings (fst (tq_schedule clk x d tq)) = (if stopped tq then tq_readings tq else Suc (tq_readings tq))"
  "stopped (fst (tq_schedule clk x d tq)) = stopped tq"
  "omit_notify (fst (tq_schedule clk x d tq)) = omit_notify tq"
  by (simp_all add: tq_schedule_def read_clock_def Let_def)

lemma schedule_inv: "tq_inv tq \<Longrightarrow> tq_inv (fst (tq_schedule clk x d tq))"
  by (auto simp: tq_inv_def schedule_tasks emplace_sorted less_SucI)

lemma schedule_all_inv: "tq_inv tq \<Longrightarrow> tq_inv (schedule_all clk xs tq)"
  by (induction xs arbitrary: tq) (auto intro: schedule_inv)

text \<open>Tasks scheduled from a time on, none in the past, come after every task due by that time.\<close>

lemma schedule_all_after:
  assumes "mono clk"
  shows "\<forall>x\<in>set xs. 0 \<le> snd x \<Longrightarrow> now \<le> clk (tq_readings tq) \<Longrightarrow>
    (\<forall>t\<in>set (tq_tasks (schedule_all clk xs tq)). t \<in> set (tq_tasks tq) \<or> now \<le> deadline t \<and> tq_order tq \<le> order t) \<and>
    tq_readings tq \<le> tq_readings (schedule_all clk xs tq) \<and> tq_order tq \<le> tq_order (schedule_all clk xs tq)"
proof (induction xs arbitrary: tq)
  case (Cons x xs)
  let ?tq = "fst (tq_schedule clk (fst x) (snd x) tq)"
  have "now \<le> clk (tq_readings ?tq)"
    using Cons.prems(2) monoD [OF assms(1), of "tq_readings tq" "Suc (tq_readings tq)"] by (auto simp: schedule_tasks(3))
  with Cons.IH [of ?tq] Cons.prems have ih:
    "\<forall>t\<in>set (tq_tasks (schedule_all clk xs ?tq)). t \<in> set (tq_tasks ?tq) \<or> now \<le> deadline t \<and> tq_order ?tq \<le> order t"
    "tq_readings ?tq \<le> tq_readings (schedule_all clk xs ?tq)" "tq_order ?tq \<le> tq_order (schedule_all clk xs ?tq)"
    by auto
  have new: "\<forall>t\<in>set (tq_tasks ?tq). t \<in> set (tq_tasks tq) \<or> now \<le> deadline t \<and> tq_order tq \<le> order t"
    using Cons.prems by (auto simp: schedule_tasks(1))
  have mono: "tq_readings tq \<le> tq_readings ?tq" "tq_order tq \<le> tq_order ?tq" by (simp_all add: schedule_tasks)
  show ?case unfolding schedule_all.simps
    using ih new mono by (meson order.trans)
qed simp

lemma read_clock_sel [simp]:
  "fst (read_clock clk tq) = clk (tq_readings tq)" "tq_tasks (snd (read_clock clk tq)) = tq_tasks tq"
  "tq_order (snd (read_clock clk tq)) = tq_order tq" "tq_readings (snd (read_clock clk tq)) = Suc (tq_readings tq)"
  by (simp_all add: read_clock_def)

text \<open>No task asks to be run in the past.\<close>

definition prog_ok :: "('t \<Rightarrow> 's \<Rightarrow> 's \<times> ('t \<times> int) list) \<Rightarrow> bool" where
  "prog_ok prog \<longleftrightarrow> (\<forall>t s. \<forall>x\<in>set (snd (prog t s)). 0 \<le> snd x)"

text \<open>One turn of the loop.\<close>

definition exec_turn ::
  "(nat \<Rightarrow> int) \<Rightarrow> ('t \<Rightarrow> 's \<Rightarrow> 's \<times> ('t \<times> int) list) \<Rightarrow> 's \<times> 't task_queue \<Rightarrow> int \<times> 's \<times> 't task_queue" where
  "exec_turn clk prog st =
     (let r = prog (dt_task (hd (tq_tasks (snd st)))) (fst st);
          tq = schedule_all clk (snd r) ((snd st)\<lparr>tq_tasks := tl (tq_tasks (snd st))\<rparr>)
      in (clk (tq_readings tq), fst r, snd (read_clock clk tq)))"

definition task_due :: "int \<Rightarrow> int \<Rightarrow> 't task_queue \<Rightarrow> bool" where
  "task_due until now tq \<longleftrightarrow> now < until \<and> tq_tasks tq \<noteq> [] \<and> deadline (hd (tq_tasks tq)) \<le> now"

lemma exec_loop_turn:
  "exec_loop clk prog until fuel now (s, tq) =
     (if \<not> task_due until now tq then Some (now, [], s, tq)
      else case fuel of 0 \<Rightarrow> None
        | Suc fuel' \<Rightarrow> let (now', s', tq') = exec_turn clk prog (s, tq) in
            map_option (\<lambda>(n, log, s, tq). (n, (hd (tq_tasks tq0), now) # log, s, tq))
              (exec_loop clk prog until fuel' now' (s', tq')))"
  if "tq0 = tq"
  using that
  by (subst exec_loop.simps) (auto simp: task_due_def exec_turn_def Let_def case_prod_unfold split: nat.splits)

lemma exec_turn_props:
  assumes "mono clk" "prog_ok prog" "tq_inv tq" "now \<le> clk (tq_readings tq)" "task_due until now tq"
    and "exec_turn clk prog (s, tq) = (now', s', tq')"
  shows "tq_inv tq'" "now' \<le> clk (tq_readings tq')" "now \<le> now'" "tq_order tq \<le> tq_order tq'"
    "\<forall>t\<in>set (tq_tasks tq'). t \<in> set (tl (tq_tasks tq)) \<or> now \<le> deadline t \<and> tq_order tq \<le> order t"
    "clk (tq_readings tq) \<le> now'" "now' = clk (tq_readings tq' - 1)" "tq_readings tq < tq_readings tq'"
proof -
  let ?xs = "snd (prog (dt_task (hd (tq_tasks tq))) s)" and ?tq1 = "tq\<lparr>tq_tasks := tl (tq_tasks tq)\<rparr>"
  let ?tq2 = "schedule_all clk ?xs ?tq1"
  have inv1: "tq_inv ?tq1" using assms(3) by (cases "tq_tasks tq") (auto simp: tq_inv_def)
  have "\<forall>x\<in>set ?xs. 0 \<le> snd x" using assms(2) by (auto simp: prog_ok_def)
  note after = schedule_all_after [OF assms(1) this, of now ?tq1]
  have t': "now' = clk (tq_readings ?tq2)" "tq' = snd (read_clock clk ?tq2)"
    using assms(6) by (auto simp: exec_turn_def Let_def)
  show "tq_inv tq'" using schedule_all_inv [OF inv1, of clk ?xs] by (simp add: t' tq_inv_def)
  show "now' \<le> clk (tq_readings tq')" using monoD [OF assms(1)] by (simp add: t')
  show "clk (tq_readings tq) \<le> now'" using after assms(4) monoD [OF assms(1)] by (simp add: t')
  with assms(4) show "now \<le> now'" by simp
  show "tq_order tq \<le> tq_order tq'" "tq_readings tq < tq_readings tq'" "now' = clk (tq_readings tq' - 1)"
    "\<forall>t\<in>set (tq_tasks tq'). t \<in> set (tl (tq_tasks tq)) \<or> now \<le> deadline t \<and> tq_order tq \<le> order t"
    using after assms(4) by (simp_all add: t')
qed

lemma due_task_first:
  assumes "tq_inv tq" "task_due until now tq"
    and "u \<in> set (tl (tq_tasks tq)) \<or> now \<le> deadline u \<and> tq_order tq \<le> order u"
  shows "before (hd (tq_tasks tq)) u"
  using assms by (cases "tq_tasks tq") (auto simp: tq_inv_def task_due_def before_def)

lemma exec_loop_order:
  assumes "mono clk" "prog_ok prog"
  shows "tq_inv tq \<Longrightarrow> now \<le> clk (tq_readings tq) \<Longrightarrow>
    exec_loop clk prog until fuel now (s, tq) = Some (n, log, s', tq') \<Longrightarrow>
    sorted_wrt before (map fst log @ tq_tasks tq') \<and> (\<forall>(t, at)\<in>set log. deadline t \<le> at \<and> at < until) \<and>
    tq_inv tq' \<and> \<not> task_due until n tq' \<and>
    (\<forall>u\<in>set (map fst log @ tq_tasks tq'). u \<in> set (tq_tasks tq) \<or> now \<le> deadline u \<and> tq_order tq \<le> order u)"
proof (induction fuel arbitrary: now s tq log)
  case 0
  then show ?case by (auto simp: exec_loop_turn tq_inv_def split: if_splits)
next
  case (Suc fuel)
  show ?case
  proof (cases "task_due until now tq")
    case False
    with Suc.prems show ?thesis by (auto simp: exec_loop_turn tq_inv_def)
  next
    case True
    obtain now1 s1 tq1 where turn: "exec_turn clk prog (s, tq) = (now1, s1, tq1)" by (metis prod_cases3)
    with Suc.prems(3) True obtain log1 where l: "exec_loop clk prog until fuel now1 (s1, tq1) = Some (n, log1, s', tq')"
      "log = (hd (tq_tasks tq), now) # log1" by (auto simp: exec_loop_turn [OF refl, of _ _ _ "Suc fuel"])
    note p = exec_turn_props [OF assms Suc.prems(1,2) True turn]
    from Suc.IH [OF p(1,2) l(1)] have ih: "sorted_wrt before (map fst log1 @ tq_tasks tq')"
      "\<forall>(t, at)\<in>set log1. deadline t \<le> at \<and> at < until" "tq_inv tq'" "\<not> task_due until n tq'"
      "\<forall>u\<in>set (map fst log1 @ tq_tasks tq'). u \<in> set (tq_tasks tq1) \<or> now1 \<le> deadline u \<and> tq_order tq1 \<le> order u"
      by blast+
    have prov: "\<forall>u\<in>set (map fst log1 @ tq_tasks tq'). u \<in> set (tl (tq_tasks tq)) \<or> now \<le> deadline u \<and> tq_order tq \<le> order u"
      using ih(5) p(3-5) by (meson order.trans)
    then have "\<forall>u\<in>set (map fst log1 @ tq_tasks tq'). before (hd (tq_tasks tq)) u"
      using due_task_first [OF Suc.prems(1) True] by blast
    moreover have "deadline (hd (tq_tasks tq)) \<le> now" "now < until" "hd (tq_tasks tq) \<in> set (tq_tasks tq)"
      using True by (auto simp: task_due_def)
    moreover have "set (tl (tq_tasks tq)) \<subseteq> set (tq_tasks tq)" using True by (cases "tq_tasks tq") (auto simp: task_due_def)
    ultimately show ?thesis using ih(1-4) prov by (auto simp: l(2))
  qed
qed


lemma schedule_all_keeps: "mset (tq_tasks tq) \<subseteq># mset (tq_tasks (schedule_all clk xs tq))"
proof (induction xs arbitrary: tq)
  case (Cons x xs)
  have "mset (tq_tasks tq) \<subseteq># mset (tq_tasks (fst (tq_schedule clk (fst x) (snd x) tq)))"
    by (simp add: schedule_tasks(1))
  with Cons show ?case by (auto intro: subset_mset.order_trans)
qed simp

lemma exec_loop_keeps:
  "exec_loop clk prog until fuel now (s, tq) = Some (n, log, s', tq') \<Longrightarrow>
    mset (tq_tasks tq) \<subseteq># mset (map fst log @ tq_tasks tq')"
proof (induction fuel arbitrary: now s tq log)
  case 0
  then show ?case by (auto simp: exec_loop_turn split: if_splits)
next
  case (Suc fuel)
  show ?case
  proof (cases "task_due until now tq")
    case False
    with Suc.prems show ?thesis by (simp add: exec_loop_turn)
  next
    case True
    obtain now1 s1 tq1 where turn: "exec_turn clk prog (s, tq) = (now1, s1, tq1)" by (metis prod_cases3)
    with Suc.prems True obtain log1 where l: "exec_loop clk prog until fuel now1 (s1, tq1) = Some (n, log1, s', tq')"
      "log = (hd (tq_tasks tq), now) # log1" by (auto simp: exec_loop_turn [OF refl, of _ _ _ "Suc fuel"])
    have "mset (tl (tq_tasks tq)) \<subseteq># mset (tq_tasks tq1)"
      using turn schedule_all_keeps [of "tq\<lparr>tq_tasks := tl (tq_tasks tq)\<rparr>"] by (auto simp: exec_turn_def Let_def)
    with Suc.IH [OF l(1)] have "mset (tl (tq_tasks tq)) \<subseteq># mset (map fst log1 @ tq_tasks tq')"
      by (rule subset_mset.order_trans [rotated])
    with True show ?thesis by (cases "tq_tasks tq") (auto simp: l(2) task_due_def)
  qed
qed

text \<open>Every turn takes a reading of the clock: when it advances, the time slot bounds the number of turns.\<close>

lemma exec_loop_terminates:
  assumes "strict_mono clk" "prog_ok prog"
  shows "tq_inv tq \<Longrightarrow> now < clk (tq_readings tq) \<Longrightarrow> until - now \<le> int fuel \<Longrightarrow>
    \<exists>r. exec_loop clk prog until fuel now (s, tq) = Some r"
proof (induction fuel arbitrary: now s tq)
  case 0
  then show ?case by (auto simp: exec_loop_turn task_due_def)
next
  case (Suc fuel)
  show ?case
  proof (cases "task_due until now tq")
    case True
    obtain now1 s1 tq1 where turn: "exec_turn clk prog (s, tq) = (now1, s1, tq1)" by (metis prod_cases3)
    note p = exec_turn_props [OF strict_mono_mono [OF assms(1)] assms(2) Suc.prems(1) less_imp_le [OF Suc.prems(2)] True turn]
    have "now1 < clk (tq_readings tq1)" using p(7,8) strict_monoD [OF assms(1), of "tq_readings tq1 - 1" "tq_readings tq1"] by simp
    moreover have "until - now1 \<le> int fuel" using Suc.prems(2,3) p(6) by linarith
    ultimately obtain r where "exec_loop clk prog until fuel now1 (s1, tq1) = Some r" using Suc.IH p(1) by blast
    with True turn show ?thesis by (cases r) (simp add: exec_loop_turn [OF refl, of _ _ _ "Suc fuel"])
  qed (simp add: exec_loop_turn)
qed

section \<open>Waiting\<close>

text \<open>The thread that waits and the threads that schedule, interleaved.\<close>

inductive wait_step ::
  "(nat \<Rightarrow> int) \<Rightarrow> wait_state \<times> 't task_queue \<Rightarrow> wait_state \<times> 't task_queue \<Rightarrow> bool" for clk where
  check: "wait_step clk (Checking_Queue, tq) (wait_check clk tq)"
| signalled: "wait_signalled tq = Some r \<Longrightarrow> wait_step clk (Waiting_For x, tq) r"
| timed_out: "wait_step clk (Waiting_For (Some d), tq) (wait_timed_out tq)"
| scheduled: "wait_step clk (w, tq) (w, fst (tq_schedule clk t d tq))"
| stop: "wait_step clk (w, tq) (w, tq_stop tq)"

inductive_cases wait_stepE: "wait_step clk st st'"

definition wait_inv :: "wait_state \<times> 't task_queue \<Rightarrow> bool" where
  "wait_inv st \<longleftrightarrow> tq_inv (snd st) \<and> \<not> omit_notify (snd st) \<and> ev_auto (tq_ready (snd st)) \<and>
     (\<forall>x. fst st = Waiting_For x \<longrightarrow> \<not> ev_state (tq_ready (snd st)) \<longrightarrow>
        (\<forall>t\<in>set (tq_tasks (snd st)). \<exists>d. x = Some d \<and> d \<le> deadline t))"

lemma top_deadline: "tq_inv tq \<Longrightarrow> t \<in> set (tq_tasks tq) \<Longrightarrow> deadline (hd (tq_tasks tq)) \<le> deadline t"
  by (cases "tq_tasks tq") (auto simp: tq_inv_def before_def)

lemma schedule_signal:
  assumes "\<not> omit_notify tq" "\<not> stopped tq"
  shows "ev_state (tq_ready (fst (tq_schedule clk x d tq))) \<longleftrightarrow>
    ev_state (tq_ready tq) \<or> tq_tasks tq = [] \<or> clk (tq_readings tq) + d < deadline (hd (tq_tasks tq))"
    and "ev_auto (tq_ready (fst (tq_schedule clk x d tq))) = ev_auto (tq_ready tq)"
  using assms by (auto simp: tq_schedule_def read_clock_def Let_def ev_set_def)

lemma wait_step_inv: "wait_step clk st st' \<Longrightarrow> wait_inv st \<Longrightarrow> wait_inv st'"
proof (induction rule: wait_step.induct)
  case (check tq)
  then have "tq_inv tq" by (simp add: wait_inv_def)
  with check top_deadline [OF this] show ?case
    by (auto simp: wait_inv_def wait_check_def read_clock_def tq_inv_def split: list.splits if_splits)
next
  case (signalled tq r x)
  then show ?case by (auto simp: wait_inv_def wait_signalled_def ev_wait_def tq_inv_def split: if_splits)
next
  case (timed_out d tq)
  then show ?case by (simp add: wait_inv_def wait_timed_out_def)
next
  case (scheduled w tq t d)
  show ?case
  proof (cases "stopped tq")
    case True
    with scheduled show ?thesis by (simp add: tq_schedule_def)
  next
    case False
    have inv: "tq_inv tq" "\<not> omit_notify tq" "ev_auto (tq_ready tq)" using scheduled by (auto simp: wait_inv_def)
    have "\<exists>e. x = Some e \<and> e \<le> deadline u"
      if w: "w = Waiting_For x" "\<not> ev_state (tq_ready (fst (tq_schedule clk t d tq)))"
        "u \<in> set (tq_tasks (fst (tq_schedule clk t d tq)))" for x u
    proof -
      have quiet: "\<not> ev_state (tq_ready tq)" "tq_tasks tq \<noteq> []" "deadline (hd (tq_tasks tq)) \<le> clk (tq_readings tq) + d"
        using w(2) schedule_signal(1) [OF inv(2) False, of clk t d] by auto
      have old: "\<forall>v\<in>set (tq_tasks tq). \<exists>e. x = Some e \<and> e \<le> deadline v" using scheduled w(1) quiet(1) by (simp add: wait_inv_def)
      from w(3) False have "u \<in> set (tq_tasks tq) \<or> deadline u = clk (tq_readings tq) + d" by (auto simp: schedule_tasks(1))
      moreover have "hd (tq_tasks tq) \<in> set (tq_tasks tq)" using quiet(2) by simp
      ultimately show ?thesis using old quiet(3) by force
    qed
    with inv schedule_inv [OF inv(1), of clk t d] schedule_signal(2) [OF inv(2) False] show ?thesis
      by (simp add: wait_inv_def schedule_tasks(5))
  qed
next
  case (stop w tq)
  then show ?case by (simp add: wait_inv_def tq_stop_def tq_inv_def)
qed

lemma waits_inv: "(wait_step clk)\<^sup>*\<^sup>* st st' \<Longrightarrow> wait_inv st \<Longrightarrow> wait_inv st'"
  by (induction rule: rtranclp_induct) (auto intro: wait_step_inv)


section \<open>The interface of a queue\<close>

text \<open>
  \<^verbatim>\<open>scheduler::queue\<close> of \<^verbatim>\<open>scheduler/scheduler.h\<close>: what its clients, the private queues,
  rely on is that a task scheduled is added to those pending, and nothing else happens to them.
\<close>

locale scheduler_queue =
  fixes schedule :: "'t \<Rightarrow> int \<Rightarrow> 'q \<Rightarrow> 'q" and pending :: "'q \<Rightarrow> 't multiset" and accepts :: "'q \<Rightarrow> bool"
  assumes schedule_accepts: "accepts q \<Longrightarrow> accepts (schedule t d q)"
    and schedule_pending: "accepts q \<Longrightarrow> pending (schedule t d q) = add_mset t (pending q)"
begin

lemma fold_pending:
  "accepts q \<Longrightarrow> accepts (fold (\<lambda>x. schedule (fst x) (snd x)) xs q) \<and>
    pending (fold (\<lambda>x. schedule (fst x) (snd x)) xs q) = pending q + mset (map fst xs)"
  by (induction xs arbitrary: q) (auto simp: schedule_accepts schedule_pending)

end

definition tq_pending :: "'t task_queue \<Rightarrow> 't multiset" where
  "tq_pending tq = image_mset dt_task (mset (tq_tasks tq))"

interpretation task_scheduler: scheduler_queue "\<lambda>t d tq. fst (tq_schedule clk t d tq)" tq_pending "\<lambda>tq. \<not> stopped tq" for clk
  by unfold_locales (simp_all add: schedule_tasks tq_pending_def)

text \<open>
  \<^verbatim>\<open>thread_queue\<close>: the queue, the flag, and one round of its thread after \<^verbatim>\<open>wait\<close> has
  returned. The destructor schedules a last task that raises the flag: \<open>Quit\<close>.
\<close>

datatype 't own_task = Quit | Own 't

definition own_prog ::
  "('t \<Rightarrow> 's \<Rightarrow> 's \<times> ('t \<times> int) list) \<Rightarrow> 't own_task \<Rightarrow> bool \<times> 's \<Rightarrow> (bool \<times> 's) \<times> ('t own_task \<times> int) list" where
  "own_prog prog t st =
     (case t of
        Quit \<Rightarrow> ((True, snd st), [])
      | Own u \<Rightarrow> let (s, xs) = prog u (snd st) in ((fst st, s), map (map_prod Own id) xs))"

definition thr_schedule :: "(nat \<Rightarrow> int) \<Rightarrow> 't \<Rightarrow> int \<Rightarrow> 't own_task task_queue \<Rightarrow> 't own_task task_queue" where
  "thr_schedule clk t d tq = fst (tq_schedule clk (Own t) d tq)"

definition thr_request_stop :: "(nat \<Rightarrow> int) \<Rightarrow> 't own_task task_queue \<Rightarrow> 't own_task task_queue" where
  "thr_request_stop clk tq = fst (tq_schedule clk Quit 0 tq)"

definition thr_round ::
  "(nat \<Rightarrow> int) \<Rightarrow> ('t \<Rightarrow> 's \<Rightarrow> 's \<times> ('t \<times> int) list) \<Rightarrow> (bool \<times> 's) \<times> 't own_task task_queue \<Rightarrow>
   ((bool \<times> 's) \<times> 't own_task task_queue) option" where
  "thr_round clk prog st =
     (if fst (fst st) then Some st
      else map_option (\<lambda>(_, _, s, tq). (s, tq)) (execute_ready clk (own_prog prog) 10 10 st))"

section \<open>Properties\<close>

text \<open>
  C37. Tasks run in the order of their deadlines, first scheduled first among equals, also when tasks
  schedule others while they run: those executed followed by those left are in order, none ran
  before its deadline, none was dropped, and when the time slot is not used up none is left due.
\<close>

theorem tasks_run_in_deadline_order:
  assumes "mono clk" "prog_ok prog" "tq_inv tq"
    and "execute_ready clk prog fuel max_duration (s, tq) = Some (w, log, s', tq')"
  shows "sorted_wrt before (map fst log @ tq_tasks tq') \<and> (\<forall>(t, at)\<in>set log. deadline t \<le> at) \<and>
    mset (tq_tasks tq) \<subseteq># mset (map fst log @ tq_tasks tq') \<and>
    (\<exists>now. (now < clk (tq_readings tq) + max_duration \<longrightarrow> (\<forall>t\<in>set (tq_tasks tq'). now < deadline t)) \<and>
      w = (if tq_tasks tq' = [] then (0, False) else (max 0 (deadline (hd (tq_tasks tq')) - now), True)))"
proof -
  let ?now = "clk (tq_readings tq)" and ?tq = "(snd (read_clock clk tq))\<lparr>omit_notify := True\<rparr>"
  from assms(4) obtain n tq1 where l: "exec_loop clk prog (?now + max_duration) fuel ?now (s, ?tq) = Some (n, log, s', tq1)"
    and tq': "tq' = tq1\<lparr>omit_notify := False\<rparr>"
    and w: "w = (case tq_tasks tq1 of [] \<Rightarrow> (0, False) | t # _ \<Rightarrow> (if deadline t > n then deadline t - n else 0, True))"
    by (auto simp: execute_ready_def read_clock_def Let_def)
  have inv: "tq_inv ?tq" using assms(3) by (simp add: tq_inv_def)
  have now: "?now \<le> clk (tq_readings ?tq)" using monoD [OF assms(1)] by simp
  note o = exec_loop_order [OF assms(1,2) inv now l]
  have "tq_tasks tq1 \<noteq> [] \<Longrightarrow> n < ?now + max_duration \<Longrightarrow> n < deadline (hd (tq_tasks tq1))"
    using o by (auto simp: task_due_def)
  then have "n < ?now + max_duration \<longrightarrow> (\<forall>t\<in>set (tq_tasks tq'). n < deadline t)"
    using top_deadline [of tq1] o by (force simp: tq')
  moreover have "w = (if tq_tasks tq' = [] then (0, False) else (max 0 (deadline (hd (tq_tasks tq')) - n), True))"
    by (cases "tq_tasks tq1") (auto simp: w tq')
  ultimately show ?thesis using o exec_loop_keeps [OF l] by (auto simp: tq')
qed

lemma tasks_run_in_deadline_order_witness:
  "sorted_wrt before (map fst [(\<lparr>dt_task = 7::nat, deadline = 0, order = 0\<rparr>, 1::int)] @
     [\<lparr>dt_task = 8, deadline = 5, order = 1\<rparr>])"
proof -
  have "execute_ready int (\<lambda>t s. (s, if t = 7 then [(8, 3)] else [])) 2 10
      ((), fst (tq_schedule int (7::nat) 0 task_queue_init)) =
    Some ((2, True), [(\<lparr>dt_task = 7, deadline = 0, order = 0\<rparr>, 1)], (),
      \<lparr>tq_tasks = [\<lparr>dt_task = 8, deadline = 5, order = 1\<rparr>], tq_readings = 4,
       tq_ready = \<lparr>ev_state = True, ev_auto = True\<rparr>, tq_order = 2, omit_notify = False, stopped = False\<rparr>)"
    by (simp add: execute_ready_def exec_loop.simps tq_schedule_def read_clock_def task_queue_init_def ev_set_def numeral_2_eq_2)
  from tasks_run_in_deadline_order [OF _ _ _ this] show ?thesis
    by (simp add: monoI prog_ok_def schedule_inv [OF tq_inv_init])
qed

text \<open>
  C38. \<^verbatim>\<open>execute_ready\<close> returns even when tasks schedule themselves again for ever: with a clock
  that advances between readings, it executes at most one task per unit of the time slot.
\<close>

theorem execute_ready_returns:
  assumes "strict_mono clk" "prog_ok prog" "tq_inv tq"
  shows "\<exists>r. execute_ready clk prog (nat max_duration) max_duration (s, tq) = Some r"
proof -
  let ?tq = "(snd (read_clock clk tq))\<lparr>omit_notify := True\<rparr>"
  have inv: "tq_inv ?tq" using assms(3) by (simp add: tq_inv_def)
  have now: "clk (tq_readings tq) < clk (tq_readings ?tq)" using strict_monoD [OF assms(1)] by simp
  have "clk (tq_readings tq) + max_duration - clk (tq_readings tq) \<le> int (nat max_duration)" by simp
  from exec_loop_terminates [OF assms(1,2) inv now this, of s]
  show ?thesis by (auto simp: execute_ready_def read_clock_def Let_def)
qed

lemma execute_ready_returns_witness:
  "tq_tasks (fst (tq_schedule int (7::nat) 0 task_queue_init)) = [\<lparr>dt_task = 7, deadline = 0, order = 0\<rparr>] \<and>
   (\<exists>r. execute_ready int (\<lambda>t s. (s, [(t, 0)])) (nat 10) 10 ((), fst (tq_schedule int (7::nat) 0 task_queue_init)) = Some r)"
proof
  show "tq_tasks (fst (tq_schedule int (7::nat) 0 task_queue_init)) = [\<lparr>dt_task = 7, deadline = 0, order = 0\<rparr>]"
    by (simp add: tq_schedule_def read_clock_def task_queue_init_def)
  have "tq_inv (fst (tq_schedule int (7::nat) 0 task_queue_init))" by (rule schedule_inv [OF tq_inv_init])
  then show "\<exists>r. execute_ready int (\<lambda>t s. (s, [(t, 0)])) (nat 10) 10 ((), fst (tq_schedule int (7::nat) 0 task_queue_init)) = Some r"
    by (intro execute_ready_returns) (simp_all add: strict_mono_def prog_ok_def)
qed

text \<open>
  The waiting thread never oversleeps: however scheduling and stopping interleave with
  \<^verbatim>\<open>wait\<close>, while the thread sleeps without a signal pending every task has a deadline not
  before the time it sleeps to, and with no such time there are no tasks.
\<close>

theorem wait_never_oversleeps:
  assumes "(wait_step clk)\<^sup>*\<^sup>* (Checking_Queue, task_queue_init) (Waiting_For x, tq)"
    and "\<not> ev_state (tq_ready tq)" "t \<in> set (tq_tasks tq)"
  shows "\<exists>d. x = Some d \<and> d \<le> deadline t"
proof -
  have "wait_inv (Checking_Queue, task_queue_init :: 'a task_queue)"
    using tq_inv_init by (simp add: wait_inv_def task_queue_init_def)
  from waits_inv [OF assms(1) this] assms(2,3) show ?thesis by (auto simp: wait_inv_def)
qed

lemma wait_never_oversleeps_witness:
  "\<exists>d. Some 9 = Some d \<and> d \<le> deadline \<lparr>dt_task = 7::nat, deadline = 9, order = 0\<rparr>"
proof -
  let ?t = "\<lparr>dt_task = 7::nat, deadline = 9, order = 0\<rparr>"
  let ?tq1 = "\<lparr>tq_tasks = [?t], tq_readings = 1, tq_ready = \<lparr>ev_state = True, ev_auto = True\<rparr>, tq_order = 1,
    omit_notify = False, stopped = False\<rparr>"
  let ?tq2 = "?tq1\<lparr>tq_ready := \<lparr>ev_state = False, ev_auto = True\<rparr>\<rparr>"
  have 1: "wait_step int (Checking_Queue, task_queue_init) (Waiting_For None, task_queue_init :: nat task_queue)"
    using wait_step.check [of int "task_queue_init :: nat task_queue"] by (simp add: wait_check_def task_queue_init_def)
  have 2: "wait_step int (Waiting_For None, task_queue_init) (Waiting_For None, ?tq1)"
    using wait_step.scheduled [of int "Waiting_For None" task_queue_init "7::nat" 9]
    by (simp add: tq_schedule_def read_clock_def task_queue_init_def ev_set_def)
  have 3: "wait_step int (Waiting_For None, ?tq1) (Checking_Queue, ?tq2)"
    by (rule wait_step.signalled) (simp add: wait_signalled_def ev_wait_def)
  have 4: "wait_step int (Checking_Queue, ?tq2) (Waiting_For (Some 9), ?tq2\<lparr>tq_readings := 2\<rparr>)"
    using wait_step.check [of int ?tq2] by (simp add: wait_check_def read_clock_def numeral_2_eq_2)
  have "(wait_step int)\<^sup>*\<^sup>* (Checking_Queue, task_queue_init) (Waiting_For (Some 9), ?tq2\<lparr>tq_readings := 2\<rparr>)"
    using 1 2 3 4 by (meson converse_rtranclp_into_rtranclp rtranclp.rtrancl_refl)
  from wait_never_oversleeps [OF this, of ?t] show ?thesis by simp
qed

end
