(* ===== verification/Private_Queue.thy ===== *)
theory Private_Queue
  imports Task_Queue
begin

text \<open>
  \<^verbatim>\<open>scheduler/private_queue.h\<close> and \<^verbatim>\<open>.cpp\<close>: a view of a queue whose tasks die with it.
  Each task is wrapped into one that looks at the control block the private queue shares with its
  tasks and does nothing once the queue is gone. A control block is a number; \<open>alive\<close> tells which
  blocks have a living owner. The queue underneath is an argument, reached through
  \<open>scheduler_queue\<close>.
\<close>

section \<open>Private queues\<close>

datatype 't guarded = Guarded (block: nat) (guarded_task: 't)

record control_blocks =
  cb_next :: nat
  cb_alive :: "nat set"

definition control_blocks_init :: control_blocks where
  "control_blocks_init = \<lparr>cb_next = 0, cb_alive = {}\<rparr>"

text \<open>The constructor makes a block, the destructor marks it dead.\<close>

definition private_queue_new :: "control_blocks \<Rightarrow> nat \<times> control_blocks" where
  "private_queue_new cbs = (cb_next cbs, \<lparr>cb_next = Suc (cb_next cbs), cb_alive = insert (cb_next cbs) (cb_alive cbs)\<rparr>)"

definition private_queue_delete :: "nat \<Rightarrow> control_blocks \<Rightarrow> control_blocks" where
  "private_queue_delete cb cbs = cbs\<lparr>cb_alive := cb_alive cbs - {cb}\<rparr>"

definition private_schedule :: "('t guarded \<Rightarrow> int \<Rightarrow> 'q \<Rightarrow> 'q) \<Rightarrow> nat \<Rightarrow> 't \<Rightarrow> int \<Rightarrow> 'q \<Rightarrow> 'q" where
  "private_schedule schedule cb task defer_by q = schedule (Guarded cb task) defer_by q"

text \<open>
  Running a wrapped task. The task sees the control blocks, since it may destroy or create private
  queues, its own included.
\<close>

definition run_guarded ::
  "(nat \<Rightarrow> 't \<Rightarrow> control_blocks \<times> 's \<Rightarrow> (control_blocks \<times> 's) \<times> ('t guarded \<times> int) list) \<Rightarrow> 't guarded \<Rightarrow>
   control_blocks \<times> 's \<Rightarrow> (control_blocks \<times> 's) \<times> ('t guarded \<times> int) list" where
  "run_guarded prog g st =
     (if block g \<in> cb_alive (fst st) then prog (block g) (guarded_task g) st else (st, []))"

section \<open>Private worker queues\<close>

text \<open>
  A task runs on the worker queue and hands progress to the apartment queue, both guarded by the same
  block. \<open>work\<close> gives what the task delivers.
\<close>

datatype ('w, 'p) worker_task = Work 'w | Progress 'p

definition pwq_schedule :: "(('w, 'p) worker_task guarded \<Rightarrow> int \<Rightarrow> 'q \<Rightarrow> 'q) \<Rightarrow> nat \<Rightarrow> 'w \<Rightarrow> 'q \<Rightarrow> 'q" where
  "pwq_schedule schedule cb task q = schedule (Guarded cb (Work task)) 0 q"

definition pwq_deliver :: "(('w, 'p) worker_task guarded \<Rightarrow> int \<Rightarrow> 'q \<Rightarrow> 'q) \<Rightarrow> nat \<Rightarrow> 'p \<Rightarrow> 'q \<Rightarrow> 'q" where
  "pwq_deliver schedule cb progress q = schedule (Guarded cb (Progress progress)) 0 q"

definition pwq_run_work ::
  "(('w, 'p) worker_task guarded \<Rightarrow> int \<Rightarrow> 'q \<Rightarrow> 'q) \<Rightarrow> ('w \<Rightarrow> 'p list) \<Rightarrow> nat \<Rightarrow> 'w \<Rightarrow> control_blocks \<Rightarrow> 'q \<Rightarrow> 'q" where
  "pwq_run_work schedule work cb task cbs apartment =
     (if cb \<in> cb_alive cbs then fold (pwq_deliver schedule cb) (work task) apartment else apartment)"

section \<open>Laws\<close>

context scheduler_queue
begin

lemma private_pending:
  assumes "accepts q"
  shows "pending (private_schedule (\<lambda>g. schedule (h g)) cb t d q) = add_mset (h (Guarded cb t)) (pending q)"
  using assms by (simp add: private_schedule_def schedule_pending)

lemma deliver_pending:
  "accepts q \<Longrightarrow> accepts (fold (pwq_deliver (\<lambda>g. schedule (h g)) cb) ps q) \<and>
    pending (fold (pwq_deliver (\<lambda>g. schedule (h g)) cb) ps q) =
      pending q + mset (map (\<lambda>p. h (Guarded cb (Progress p))) ps)"
  by (induction ps arbitrary: q) (auto simp: pwq_deliver_def schedule_accepts schedule_pending)

end

text \<open>Blocks are made with fresh numbers and a dead one stays dead.\<close>

definition blocks_ok :: "nat \<Rightarrow> control_blocks \<Rightarrow> bool" where
  "blocks_ok cb cbs \<longleftrightarrow> cb < cb_next cbs \<and> cb \<notin> cb_alive cbs"

lemma blocks_ok_keep:
  "blocks_ok cb cbs \<Longrightarrow> blocks_ok cb (snd (private_queue_new cbs))"
  "blocks_ok cb cbs \<Longrightarrow> blocks_ok cb (private_queue_delete cb' cbs)"
  by (auto simp: blocks_ok_def private_queue_new_def private_queue_delete_def)

lemma delete_blocks_ok: "cb < cb_next cbs \<Longrightarrow> blocks_ok cb (private_queue_delete cb cbs)"
  by (simp add: blocks_ok_def private_queue_delete_def)

definition keeps_dead ::
  "(nat \<Rightarrow> 't \<Rightarrow> control_blocks \<times> 's \<Rightarrow> (control_blocks \<times> 's) \<times> ('t guarded \<times> int) list) \<Rightarrow> bool" where
  "keeps_dead prog \<longleftrightarrow> (\<forall>c t st cb. blocks_ok cb (fst st) \<longrightarrow> blocks_ok cb (fst (fst (prog c t st))))"

lemma run_guarded_keeps:
  "keeps_dead prog \<Longrightarrow> blocks_ok cb (fst st) \<Longrightarrow> blocks_ok cb (fst (fst (run_guarded prog g st)))"
  by (cases st) (auto simp: run_guarded_def keeps_dead_def)

lemma exec_loop_dead:
  assumes "keeps_dead prog" "\<And>c t st. c \<noteq> cb \<Longrightarrow> prog c t st = prog' c t st"
  shows "blocks_ok cb (fst s) \<Longrightarrow>
    exec_loop clk (run_guarded prog) until fuel now (s, tq) = exec_loop clk (run_guarded prog') until fuel now (s, tq)"
proof (induction fuel arbitrary: now s tq)
  case 0
  then show ?case by (simp add: exec_loop_turn)
next
  case (Suc fuel)
  have same: "run_guarded prog g s = run_guarded prog' g s" for g
    using assms(2) Suc.prems by (cases "block g = cb") (auto simp: run_guarded_def blocks_ok_def)
  obtain now1 s1 tq1 where turn: "exec_turn clk (run_guarded prog) (s, tq) = (now1, s1, tq1)" by (metis prod_cases3)
  then have turn': "exec_turn clk (run_guarded prog') (s, tq) = (now1, s1, tq1)" by (simp add: exec_turn_def same)
  have "blocks_ok cb (fst s1)"
    using turn run_guarded_keeps [OF assms(1) Suc.prems] by (auto simp: exec_turn_def Let_def)
  with Suc.IH turn turn' show ?case
    by (simp add: exec_loop_turn [OF refl, of _ _ _ "Suc fuel"])
qed

section \<open>Properties\<close>

text \<open>
  Nothing of a destroyed private queue runs: whatever its tasks would have done makes no
  difference to the state, to what gets scheduled or to the order the queue executes in, even though
  the tasks are still in the queue.
\<close>

theorem destroyed_queue_runs_nothing:
  assumes "keeps_dead prog" "\<And>c t st. c \<noteq> cb \<Longrightarrow> prog c t st = prog' c t st" "cb < cb_next cbs"
  shows "execute_ready clk (run_guarded prog) fuel max_duration ((private_queue_delete cb cbs, s), tq) =
    execute_ready clk (run_guarded prog') fuel max_duration ((private_queue_delete cb cbs, s), tq)"
  unfolding execute_ready_def using exec_loop_dead [OF assms(1,2)] delete_blocks_ok [OF assms(3)]
  by (simp add: read_clock_def Let_def)

lemma destroyed_queue_runs_nothing_witness:
  "execute_ready int (run_guarded (\<lambda>c t st. ((fst st, t # snd st), []))) 2 10
     ((private_queue_delete 0 (snd (private_queue_new control_blocks_init)), []),
      fst (tq_schedule int (Guarded 0 (7::nat)) 0 task_queue_init)) =
   execute_ready int (run_guarded (\<lambda>c t st. if c = 0 then (st, []) else ((fst st, t # snd st), []))) 2 10
     ((private_queue_delete 0 (snd (private_queue_new control_blocks_init)), []),
      fst (tq_schedule int (Guarded 0 7) 0 task_queue_init))"
  by (rule destroyed_queue_runs_nothing)
    (simp_all add: keeps_dead_def private_queue_new_def control_blocks_init_def)

text \<open>
  While it lives a private queue neither loses nor duplicates work: scheduling adds exactly its
  wrapped task to the pending ones, and a worker task delivers each of its progress notices to the
  apartment queue exactly once, or none if the queue has been destroyed.
\<close>

theorem worker_delivers_progress_once:
  assumes "\<not> stopped apartment"
  shows "tq_pending (pwq_run_work (\<lambda>g d tq. fst (tq_schedule clk g d tq)) work cb task cbs apartment) =
    tq_pending apartment +
      (if cb \<in> cb_alive cbs then mset (map (\<lambda>p. Guarded cb (Progress p)) (work task)) else {#}) \<and>
    tq_pending (private_schedule (\<lambda>g d tq. fst (tq_schedule clk g d tq)) cb t d apartment) =
      add_mset (Guarded cb t) (tq_pending apartment)"
  using task_scheduler.deliver_pending [OF assms, of clk "\<lambda>g. g" cb "work task"]
    task_scheduler.private_pending [OF assms, of clk "\<lambda>g. g" cb t d] by (simp add: pwq_run_work_def)

lemma worker_delivers_progress_once_witness:
  "tq_pending (pwq_run_work (\<lambda>g d tq. fst (tq_schedule int g d tq)) (\<lambda>w. [w, w + 1]) 0 (5::nat)
     (snd (private_queue_new control_blocks_init)) task_queue_init) =
   {# Guarded 0 (Progress 5), Guarded 0 (Progress 6) :: (nat, nat) worker_task guarded #}"
proof -
  have "\<not> stopped (task_queue_init :: (nat, nat) worker_task guarded task_queue)" by (simp add: task_queue_init_def)
  from worker_delivers_progress_once [OF this, of int "\<lambda>w. [w, w + 1]" 0 5 "snd (private_queue_new control_blocks_init)"]
  show ?thesis by (simp add: private_queue_new_def control_blocks_init_def tq_pending_def task_queue_init_def)
qed

end
