(* ===== verification/Byte_Buffers.thy ===== *)
theory Byte_Buffers
  imports Prelude
begin

text \<open>
  \<^verbatim>\<open>common/pod_vector.h\<close> and \<^verbatim>\<open>common/stream.h\<close>: the growable array of plain values the
  collector and the serialization use, and the reader and writer over byte buffers.

  The array is the list of all cells of the allocation, \<^verbatim>\<open>_end\<close> an index into it. Whether
  \<^verbatim>\<open>new (std::nothrow)\<close> succeeds for a number of elements is an argument, \<open>alloc\<close>; cells
  never written hold \<open>junk\<close>. A write past the allocation and a pop below its beginning are
  undefined, \<^const>\<open>None\<close>.
\<close>

section \<open>pod vector\<close>

record 'a pod_vector =
  pv_cells :: "'a list"
  pv_end :: nat

definition pod_vector_init :: "'a \<Rightarrow> nat \<Rightarrow> 'a pod_vector" where
  "pod_vector_init junk initial_capacity = \<lparr>pv_cells = replicate initial_capacity junk, pv_end = 0\<rparr>"

definition pv_size :: "'a pod_vector \<Rightarrow> nat" where
  "pv_size v = pv_end v"

definition pv_capacity :: "'a pod_vector \<Rightarrow> nat" where
  "pv_capacity v = length (pv_cells v)"

definition pv_empty :: "'a pod_vector \<Rightarrow> bool" where
  "pv_empty v \<longleftrightarrow> pv_end v = 0"

definition pv_byte_size :: "nat \<Rightarrow> 'a pod_vector \<Rightarrow> nat" where
  "pv_byte_size element_size v = pv_end v * element_size"

text \<open>The elements: what lies between \<^verbatim>\<open>begin()\<close> and \<^verbatim>\<open>end()\<close>.\<close>

definition pv_elements :: "'a pod_vector \<Rightarrow> 'a list" where
  "pv_elements v = take (pv_end v) (pv_cells v)"

definition pod_vector_copy :: "'a \<Rightarrow> 'a pod_vector \<Rightarrow> 'a pod_vector" where
  "pod_vector_copy junk other =
     \<lparr>pv_cells = pv_elements other @ replicate (pv_capacity other - pv_size other) junk, pv_end = pv_size other\<rparr>"

definition grow :: "(nat \<Rightarrow> bool) \<Rightarrow> 'a \<Rightarrow> nat \<Rightarrow> 'a pod_vector \<Rightarrow> bool \<times> 'a pod_vector" where
  "grow alloc junk extra v =
     (let n = pv_size v;
          new_capacity = pv_capacity v + (if 2 * extra > pv_capacity v then extra else pv_capacity v div 2)
      in if \<not> alloc new_capacity then (False, v)
         else (True, \<lparr>pv_cells = take n (pv_cells v) @ replicate (new_capacity - n) junk, pv_end = n\<rparr>))"

definition store :: "'a \<Rightarrow> 'a pod_vector \<Rightarrow> 'a pod_vector option" where
  "store element v =
     (if pv_end v < pv_capacity v
      then Some \<lparr>pv_cells = (pv_cells v)[pv_end v := element], pv_end = pv_end v + 1\<rparr> else None)"

definition pv_push_back :: "(nat \<Rightarrow> bool) \<Rightarrow> 'a \<Rightarrow> 'a \<Rightarrow> 'a pod_vector \<Rightarrow> 'a pod_vector option" where
  "pv_push_back alloc junk element v =
     (if pv_end v = pv_capacity v
      then (let (grown, v') = grow alloc junk 0 v in if \<not> grown then Some v' else store element v')
      else store element v)"

text \<open>\<^verbatim>\<open>push_back()\<close> without an element leaves the cell as it is.\<close>

definition pv_push_back0 :: "(nat \<Rightarrow> bool) \<Rightarrow> 'a \<Rightarrow> 'a pod_vector \<Rightarrow> 'a pod_vector option" where
  "pv_push_back0 alloc junk v =
     (let (ok, v') = (if pv_end v = pv_capacity v then grow alloc junk 0 v else (True, v)) in
      if \<not> ok then Some v'
      else if pv_end v' < pv_capacity v' then Some (v'\<lparr>pv_end := pv_end v' + 1\<rparr>) else None)"

definition pv_pop_back :: "'a pod_vector \<Rightarrow> 'a pod_vector option" where
  "pv_pop_back v = (if pv_end v = 0 then None else Some (v\<lparr>pv_end := pv_end v - 1\<rparr>))"

definition pv_back :: "'a pod_vector \<Rightarrow> 'a option" where
  "pv_back v = (if pv_end v = 0 then None else Some (pv_cells v ! (pv_end v - 1)))"

fun store_all :: "'a list \<Rightarrow> 'a pod_vector \<Rightarrow> 'a pod_vector option" where
  "store_all [] v = Some v"
| "store_all (x # xs) v = Option.bind (store x v) (store_all xs)"

text \<open>\<^verbatim>\<open>append\<close> does not look at the result of \<^verbatim>\<open>grow\<close>.\<close>

definition pv_append :: "(nat \<Rightarrow> bool) \<Rightarrow> 'a \<Rightarrow> 'a list \<Rightarrow> 'a pod_vector \<Rightarrow> 'a pod_vector option" where
  "pv_append alloc junk xs v =
     (let demanded = pv_size v + length xs;
          v' = (if demanded > pv_capacity v then snd (grow alloc junk (demanded - pv_capacity v) v) else v)
      in store_all xs v')"

definition pv_clear :: "'a pod_vector \<Rightarrow> 'a pod_vector" where
  "pv_clear v = v\<lparr>pv_end := 0\<rparr>"

section \<open>Streams\<close>

text \<open>The reader: a failed read throws, and leaves the reader as it was; \<^const>\<open>Inl\<close> is the exception.\<close>

record insufficient_buffer_error =
  requested :: nat
  available :: nat

record buffer_reader =
  unread :: "u8 list"

definition buffer_reader_init :: "u8 list \<Rightarrow> buffer_reader" where
  "buffer_reader_init payload = \<lparr>unread = payload\<rparr>"

definition br_read :: "nat \<Rightarrow> buffer_reader \<Rightarrow> insufficient_buffer_error + u8 list \<times> buffer_reader" where
  "br_read n r =
     (if n > length (unread r) then Inl \<lparr>requested = n, available = length (unread r)\<rparr>
      else Inr (take n (unread r), \<lparr>unread = drop n (unread r)\<rparr>))"

definition br_skip :: "nat \<Rightarrow> buffer_reader \<Rightarrow> insufficient_buffer_error + buffer_reader" where
  "br_skip n r =
     (if n > length (unread r) then Inl \<lparr>requested = n, available = length (unread r)\<rparr>
      else Inr \<lparr>unread = drop n (unread r)\<rparr>)"

text \<open>The writer is a template over the buffer: \<open>push\<close> and \<open>app\<close> are its members.\<close>

definition bw_write :: "('a \<Rightarrow> 'b \<Rightarrow> 'b option) \<Rightarrow> ('a list \<Rightarrow> 'b \<Rightarrow> 'b option) \<Rightarrow> 'a list \<Rightarrow> 'b \<Rightarrow> 'b option" where
  "bw_write push app data b = (if length data = 1 then push (hd data) b else app data b)"

fun bw_writes :: "('a \<Rightarrow> 'b \<Rightarrow> 'b option) \<Rightarrow> ('a list \<Rightarrow> 'b \<Rightarrow> 'b option) \<Rightarrow> 'a list list \<Rightarrow> 'b \<Rightarrow> 'b option" where
  "bw_writes push app [] b = Some b"
| "bw_writes push app (d # ds) b = Option.bind (bw_write push app d b) (bw_writes push app ds)"

definition buffer_writer_init :: "('b \<Rightarrow> 'b) \<Rightarrow> 'b \<Rightarrow> 'b" where
  "buffer_writer_init clear b = clear b"

fun br_reads :: "nat list \<Rightarrow> buffer_reader \<Rightarrow> insufficient_buffer_error + u8 list list" where
  "br_reads [] r = Inr []"
| "br_reads (n # ns) r =
     (case br_read n r of Inl e \<Rightarrow> Inl e
      | Inr (d, r') \<Rightarrow> (case br_reads ns r' of Inl e \<Rightarrow> Inl e | Inr ds \<Rightarrow> Inr (d # ds)))"

section \<open>The interface of a buffer\<close>

locale growing_buffer =
  fixes clear :: "'b \<Rightarrow> 'b" and push :: "'a \<Rightarrow> 'b \<Rightarrow> 'b option" and app :: "'a list \<Rightarrow> 'b \<Rightarrow> 'b option"
    and elements :: "'b \<Rightarrow> 'a list" and ok :: "'b \<Rightarrow> bool"
  assumes clear_elements: "ok b \<Longrightarrow> ok (clear b) \<and> elements (clear b) = []"
    and push_elements: "ok b \<Longrightarrow> \<exists>b'. push x b = Some b' \<and> ok b' \<and> elements b' = elements b @ [x]"
    and app_elements: "ok b \<Longrightarrow> \<exists>b'. app xs b = Some b' \<and> ok b' \<and> elements b' = elements b @ xs"
begin

lemma write_elements: "ok b \<Longrightarrow> \<exists>b'. bw_write push app d b = Some b' \<and> ok b' \<and> elements b' = elements b @ d"
  using push_elements [of b "hd d"] app_elements [of b d]
  by (auto simp: bw_write_def length_Suc_conv)

lemma writes_elements:
  "ok b \<Longrightarrow> \<exists>b'. bw_writes push app ds b = Some b' \<and> ok b' \<and> elements b' = elements b @ concat ds"
proof (induction ds arbitrary: b)
  case (Cons d ds)
  from write_elements [OF Cons.prems] obtain b1 where b1: "bw_write push app d b = Some b1" "ok b1"
    "elements b1 = elements b @ d" by blast
  from Cons.IH [OF b1(2)] b1 show ?case by auto
qed simp

lemma written_elements:
  "ok b \<Longrightarrow> \<exists>b'. bw_writes push app ds (buffer_writer_init clear b) = Some b' \<and> elements b' = concat ds"
  using clear_elements [of b] writes_elements [of "clear b" ds] by (auto simp: buffer_writer_init_def)

end

section \<open>A vector that can grow\<close>

definition pv_ok :: "'a pod_vector \<Rightarrow> bool" where
  "pv_ok v \<longleftrightarrow> pv_end v \<le> pv_capacity v \<and> 2 \<le> pv_capacity v"

lemma store_ok:
  assumes "pv_end v < pv_capacity v"
  shows "\<exists>v'. store x v = Some v' \<and> pv_elements v' = pv_elements v @ [x] \<and> pv_capacity v' = pv_capacity v \<and>
    pv_end v' = Suc (pv_end v)"
  using assms by (simp add: store_def pv_elements_def pv_capacity_def take_Suc_conv_app_nth)

lemma store_all_ok:
  "pv_end v + length xs \<le> pv_capacity v \<Longrightarrow>
    \<exists>v'. store_all xs v = Some v' \<and> pv_elements v' = pv_elements v @ xs \<and> pv_capacity v' = pv_capacity v \<and>
      pv_end v' = pv_end v + length xs"
proof (induction xs arbitrary: v)
  case (Cons x xs)
  from store_ok [of v x] Cons.prems obtain v1 where v1: "store x v = Some v1" "pv_elements v1 = pv_elements v @ [x]"
    "pv_capacity v1 = pv_capacity v" "pv_end v1 = Suc (pv_end v)" by auto
  from Cons.IH [of v1] Cons.prems v1 show ?case by auto
qed simp

lemma grow_ok:
  assumes "pv_end v \<le> pv_capacity v" "\<And>n. alloc n"
  shows "fst (grow alloc junk extra v)" "pv_elements (snd (grow alloc junk extra v)) = pv_elements v"
    "pv_end (snd (grow alloc junk extra v)) = pv_end v"
    "pv_capacity (snd (grow alloc junk extra v)) =
       pv_capacity v + (if 2 * extra > pv_capacity v then extra else pv_capacity v div 2)"
  using assms by (auto simp: grow_def Let_def pv_elements_def pv_capacity_def pv_size_def)

lemma push_back_ok:
  assumes "pv_ok v" "\<And>n. alloc n"
  shows "\<exists>v'. pv_push_back alloc junk x v = Some v' \<and> pv_ok v' \<and> pv_elements v' = pv_elements v @ [x]"
proof (cases "pv_end v = pv_capacity v")
  case True
  let ?v = "snd (grow alloc junk 0 v)"
  have "pv_end v \<le> pv_capacity v" using True by simp
  note g = grow_ok [OF this assms(2), where junk = junk and extra = 0]
  have "pv_end ?v < pv_capacity ?v" using g(3,4) True assms(1) by (simp add: pv_ok_def)
  from store_ok [OF this, of x] g assms(1) True show ?thesis
    by (auto simp: pv_push_back_def Let_def case_prod_unfold pv_ok_def)
next
  case False
  with assms(1) have "pv_end v < pv_capacity v" by (simp add: pv_ok_def)
  from store_ok [OF this, of x] False assms(1) \<open>pv_end v < pv_capacity v\<close> show ?thesis
    by (auto simp: pv_push_back_def pv_ok_def)
qed

lemma append_ok:
  assumes "pv_ok v" "\<And>n. alloc n"
  shows "\<exists>v'. pv_append alloc junk xs v = Some v' \<and> pv_ok v' \<and> pv_elements v' = pv_elements v @ xs"
proof -
  let ?d = "pv_size v + length xs"
  define v1 where "v1 = (if ?d > pv_capacity v then snd (grow alloc junk (?d - pv_capacity v) v) else v)"
  have "pv_end v \<le> pv_capacity v" using assms(1) by (simp add: pv_ok_def)
  note g = grow_ok [OF this assms(2), where junk = junk and extra = "?d - pv_capacity v"]
  have v1: "pv_elements v1 = pv_elements v" "pv_end v1 + length xs \<le> pv_capacity v1" "2 \<le> pv_capacity v1"
    using g assms(1) by (auto simp: v1_def pv_ok_def pv_size_def)
  from store_all_ok [OF v1(2)] v1 show ?thesis
    by (auto simp: pv_append_def Let_def v1_def [symmetric] pv_ok_def)
qed

interpretation pod: growing_buffer pv_clear "pv_push_back (\<lambda>_. True) junk" "pv_append (\<lambda>_. True) junk" pv_elements pv_ok
  for junk
proof unfold_locales
  show "pv_ok (pv_clear b) \<and> pv_elements (pv_clear b) = []" if "pv_ok b" for b :: "'a pod_vector"
    using that by (simp add: pv_clear_def pv_ok_def pv_elements_def pv_capacity_def)
qed (rule push_back_ok append_ok; simp)+

lemma reads_of_concat: "br_reads (map length ds) \<lparr>unread = concat ds @ rest\<rparr> = Inr ds"
  by (induction ds) (simp_all add: br_read_def)

section \<open>Properties\<close>

text \<open>
  Reading gives back what was written: chunks written one after the other into a vector, however
  often it has to grow, are read back chunk by chunk, and a read past the end throws the error with
  the sizes and takes nothing.
\<close>

theorem stream_round_trip:
  assumes "pv_ok v"
  shows "\<exists>v'. bw_writes (pv_push_back (\<lambda>_. True) junk) (pv_append (\<lambda>_. True) junk) chunks (buffer_writer_init pv_clear v) = Some v' \<and>
    br_reads (map length chunks) (buffer_reader_init (pv_elements v')) = Inr chunks \<and>
    (\<forall>n > length (concat chunks). br_read n (buffer_reader_init (pv_elements v')) =
       Inl \<lparr>requested = n, available = length (concat chunks)\<rparr>)"
proof -
  from pod.written_elements [OF assms, of junk chunks] obtain v' where
    "bw_writes (pv_push_back (\<lambda>_. True) junk) (pv_append (\<lambda>_. True) junk) chunks (buffer_writer_init pv_clear v) = Some v'"
    "pv_elements v' = concat chunks" by blast
  then show ?thesis using reads_of_concat [of chunks "[]"] by (simp add: buffer_reader_init_def br_read_def)
qed

lemma stream_round_trip_witness:
  "\<exists>v'. bw_writes (pv_push_back (\<lambda>_. True) 0) (pv_append (\<lambda>_. True) 0) [[1, 2, 3], [4]]
      (buffer_writer_init pv_clear (pod_vector_init 0 2)) = Some v' \<and>
    br_reads (map length [[1, 2, 3], [4 :: u8]]) (buffer_reader_init (pv_elements v')) = Inr [[1, 2, 3], [4]]"
proof -
  have "pv_ok (pod_vector_init 0 2 :: u8 pod_vector)" by (simp add: pv_ok_def pod_vector_init_def pv_capacity_def)
  from stream_round_trip [OF this, of 0 "[[1, 2, 3], [4]]"] show ?thesis
    by (elim exE conjE) (rule exI, rule conjI)
qed

text \<open>
  A vector of capacity below two does not survive its first growth: \<^verbatim>\<open>grow\<close> adds half of
  the capacity, which is nothing, reports success, and \<^verbatim>\<open>push_back\<close> writes past the end.
\<close>

theorem tiny_vector_overflows:
  "pv_push_back (\<lambda>_. True) junk x (pod_vector_init junk 0) = None \<and>
   Option.bind (pv_push_back (\<lambda>_. True) junk x (pod_vector_init junk 1)) (pv_push_back (\<lambda>_. True) junk y) = None"
  by (simp add: pv_push_back_def grow_def store_def pod_vector_init_def pv_capacity_def pv_size_def)

text \<open>
  Pushing, popping and copying keep the elements: a push then a pop gives the elements back, also
  across a growth, the top is the element pushed, and a copy has the same elements.
\<close>

theorem vector_is_a_stack:
  assumes "pv_ok v"
  shows "\<exists>v1 v2. pv_push_back (\<lambda>_. True) junk x v = Some v1 \<and> pv_back v1 = Some x \<and> pv_pop_back v1 = Some v2 \<and>
    pv_elements v2 = pv_elements v \<and> pv_elements (pod_vector_copy junk v1) = pv_elements v @ [x]"
proof -
  from push_back_ok [OF assms, of "\<lambda>_. True" junk x] obtain v1 where
    v1: "pv_push_back (\<lambda>_. True) junk x v = Some v1" "pv_ok v1" "pv_elements v1 = pv_elements v @ [x]" by auto
  have len: "length (pv_elements v1) = pv_end v1" "length (pv_elements v) = pv_end v"
    using v1(2) assms by (simp_all add: pv_ok_def pv_elements_def pv_capacity_def)
  then have e: "pv_end v1 = Suc (pv_end v)" using v1(3) by simp
  have "pv_elements v1 ! pv_end v = x" using v1(3) len(2) by (simp add: nth_append)
  then have "pv_cells v1 ! pv_end v = x" using e by (simp add: pv_elements_def)
  moreover have "take (pv_end v) (pv_cells v1) = pv_elements v"
    using arg_cong [OF v1(3), of "take (pv_end v)"] len(2) by (simp add: pv_elements_def e)
  moreover have "pv_elements (pod_vector_copy junk v1) = pv_elements v1"
    using len(1) by (simp add: pod_vector_copy_def pv_size_def pv_elements_def [of "\<lparr>pv_cells = _, pv_end = _\<rparr>"])
  ultimately show ?thesis using v1(1,3) e
    by (auto simp: pv_back_def pv_pop_back_def pv_elements_def [of "v1\<lparr>pv_end := _\<rparr>"])
qed

lemma vector_is_a_stack_witness:
  "\<exists>v1 v2. pv_push_back (\<lambda>_. True) (0::nat) 5 (pod_vector_init 0 2) = Some v1 \<and> pv_back v1 = Some 5 \<and>
     pv_pop_back v1 = Some v2 \<and> pv_elements v2 = []"
  using vector_is_a_stack [of "pod_vector_init 0 2" 0 5]
  by (auto simp: pv_ok_def pod_vector_init_def pv_capacity_def pv_elements_def)

end
