(* ===== verification/Strings.thy ===== *)
theory Strings
  imports Prelude
begin

unbundle bit_operations_syntax

text \<open>
  Text conversions of \<^verbatim>\<open>common/src/string.cpp\<close> and \<^verbatim>\<open>common/formatting.h\<close>: UTF-8 and
  wide strings, integers in a base, and GUIDs.

  Bytes and wide characters are natural numbers; a cast to \<^verbatim>\<open>char\<close> keeps the low eight bits.
  \<^verbatim>\<open>invalid_argument\<close> is the left side of a sum.
\<close>

section \<open>UTF-8\<close>

datatype conversion_error = Not_UTF8

definition to_char :: "nat \<Rightarrow> nat" where
  "to_char n = n mod 256"

text \<open>One wide character; the last branch sets the length to two as the source does.\<close>

definition encode_char :: "nat \<Rightarrow> nat list" where
  "encode_char c =
     (if c \<le> 0x7F then let buffer = [to_char c]; l = 1 in take l buffer
      else if c \<le> 0x7FF then
        let buffer = [to_char (0xC0 OR drop_bit 6 c), to_char (0x80 OR (c AND 0x3F))]; l = 2 in take l buffer
      else
        let buffer = [to_char (0xE0 OR drop_bit 12 c), to_char (0x80 OR (drop_bit 6 c AND 0x3F)), to_char (0x80 OR (c AND 0x3F))];
            l = 2 in take l buffer)"

text \<open>The wide string ends at the first zero.\<close>

fun unicode_from_wide :: "nat list \<Rightarrow> nat list" where
  "unicode_from_wide [] = []"
| "unicode_from_wide (c # cs) = (if c = 0 then [] else encode_char c @ unicode_from_wide cs)"

fun continuation :: "nat \<Rightarrow> nat \<Rightarrow> nat list \<Rightarrow> conversion_error + nat \<times> nat list" where
  "continuation 0 uni bs = Inr (uni, bs)"
| "continuation (Suc todo) uni bs =
     (case bs of [] \<Rightarrow> Inl Not_UTF8
      | ch2 # bs' \<Rightarrow> if ch2 < 0x80 \<or> ch2 > 0xBF then Inl Not_UTF8 else continuation todo (uni * 64 + (ch2 AND 0x3F)) bs')"

definition lead_byte :: "nat \<Rightarrow> conversion_error + nat \<times> nat" where
  "lead_byte ch =
     (if ch \<le> 0x7F then Inr (ch, 0)
      else if ch \<le> 0xBF then Inl Not_UTF8
      else if ch \<le> 0xDF then Inr (ch AND 0x1F, 1)
      else if ch \<le> 0xEF then Inr (ch AND 0x0F, 2)
      else if ch \<le> 0xF7 then Inr (ch AND 0x07, 3)
      else Inl Not_UTF8)"

lemma continuation_length: "continuation todo uni bs = Inr (u, rest) \<Longrightarrow> length rest \<le> length bs"
  by (induction todo uni bs rule: continuation.induct) (auto split: list.splits if_splits)

text \<open>The first loop of \<^verbatim>\<open>unicode\<close>: the scalar values of the string.\<close>

function decode_scalars :: "nat list \<Rightarrow> conversion_error + nat list" where
  "decode_scalars [] = Inr []"
| "decode_scalars (ch # bs) =
     (case lead_byte ch of Inl e \<Rightarrow> Inl e
      | Inr (uni, todo) \<Rightarrow>
        (case continuation todo uni bs of Inl e \<Rightarrow> Inl e
         | Inr (uni, rest) \<Rightarrow>
           if uni \<ge> 0xD800 \<and> uni \<le> 0xDFFF then Inl Not_UTF8
           else if uni > 0x10FFFF then Inl Not_UTF8
           else (case decode_scalars rest of Inl e \<Rightarrow> Inl e | Inr us \<Rightarrow> Inr (uni # us))))"
  by pat_completeness auto
termination by (relation "measure length") (auto dest: continuation_length)

text \<open>The second loop: UTF-16 code units.\<close>

definition utf16_units :: "nat \<Rightarrow> nat list" where
  "utf16_units uni =
     (if uni \<le> 0xFFFF then [uni]
      else let uni = uni - 0x10000 in [drop_bit 10 uni + 0xD800, (uni AND 0x3FF) + 0xDC00])"

definition unicode_to_wide :: "nat list \<Rightarrow> conversion_error + nat list" where
  "unicode_to_wide utf8 =
     (case decode_scalars utf8 of Inl e \<Rightarrow> Inl e | Inr us \<Rightarrow> Inr (concat (map utf16_units us)))"

text \<open>The standard encoding of a scalar value, which the decoder is meant to read.\<close>

definition utf8_bytes :: "nat \<Rightarrow> nat list" where
  "utf8_bytes u =
     (if u \<le> 0x7F then [u]
      else if u \<le> 0x7FF then [0xC0 + u div 64, 0x80 + u mod 64]
      else if u \<le> 0xFFFF then [0xE0 + u div 4096, 0x80 + u div 64 mod 64, 0x80 + u mod 64]
      else [0xF0 + u div 262144, 0x80 + u div 4096 mod 64, 0x80 + u div 64 mod 64, 0x80 + u mod 64])"

definition scalar :: "nat \<Rightarrow> bool" where
  "scalar u \<longleftrightarrow> u \<le> 0x10FFFF \<and> \<not> (0xD800 \<le> u \<and> u \<le> 0xDFFF)"

text \<open>
  The standard reading of UTF-16, which the result is meant for: a leading surrogate with the trailing one after
  it is a scalar value above 0xFFFF, any other code unit stands for itself, and a surrogate alone is ill-formed.
\<close>

fun utf16_scalars :: "nat list \<Rightarrow> nat list option" where
  "utf16_scalars [] = Some []"
| "utf16_scalars (u # us) =
     (if u < 0xD800 \<or> 0xE000 \<le> u \<and> u < 0x10000 then map_option ((#) u) (utf16_scalars us)
      else if 0xD800 \<le> u \<and> u < 0xDC00 then
        (case us of
           v # vs \<Rightarrow> if 0xDC00 \<le> v \<and> v < 0xE000 then map_option ((#) (0x10000 + (u - 0xD800) * 0x400 + (v - 0xDC00))) (utf16_scalars vs) else None
         | [] \<Rightarrow> None)
      else None)"

section \<open>Integers\<close>

definition digit_char :: "nat \<Rightarrow> char" where
  "digit_char d = ''0123456789ABCDEF'' ! d"

text \<open>
  \<^verbatim>\<open>itoa\<close>: the digits go into a local buffer of \<open>max_length\<close> characters from its end;
  a write below its beginning is undefined, \<^const>\<open>None\<close>. \<open>width\<close> is the padding still to do.
\<close>

function itoa_digits :: "nat \<Rightarrow> nat \<Rightarrow> char list" where
  "itoa_digits base value =
     (if base < 2 then [] else
      if value div base = 0 then [digit_char (value mod base)]
      else itoa_digits base (value div base) @ [digit_char (value mod base)])"
  by auto
termination
proof (relation "measure snd")
  fix base "value" :: nat assume "\<not> base < 2" "value div base \<noteq> 0"
  then have "1 < base" "0 < value" by (auto intro: gr0I)
  then show "((base, value div base), base, value) \<in> measure snd" by simp
qed simp

declare itoa_digits.simps [simp del]

definition itoa_unsigned :: "nat \<Rightarrow> nat \<Rightarrow> nat \<Rightarrow> int \<Rightarrow> char \<Rightarrow> string option" where
  "itoa_unsigned base bits value min_width padding =
     (let ds = itoa_digits base value;
          ps = replicate (nat (min_width - int (length ds))) padding;
          max_length = bits + 1
      in if length ds + length ps \<le> max_length then Some (ps @ ds) else None)"

text \<open>A signed value: the sign first, then the magnitude; the magnitude of the least value overflows.\<close>

definition itoa_signed :: "nat \<Rightarrow> nat \<Rightarrow> int \<Rightarrow> int \<Rightarrow> char \<Rightarrow> string option" where
  "itoa_signed base bits value min_width padding =
     (if value < 0 then
        (if - value < 2 ^ (bits - 1)
         then map_option (Cons CHR ''-'') (itoa_unsigned base bits (nat (- value)) (min_width - 1) padding) else None)
      else itoa_unsigned base bits (nat value) min_width padding)"

section \<open>Paths\<close>

abbreviation separator :: "char \<Rightarrow> bool" where
  "separator c \<equiv> c = CHR 0x5C \<or> c = CHR ''/''"

definition path_join :: "string \<Rightarrow> string \<Rightarrow> string" where
  "path_join lhs rhs = (if lhs = [] then rhs else if last lhs = CHR 0x5C \<or> last lhs = CHR ''/'' then lhs @ rhs else lhs @ ''/'' @ rhs)"

definition path_file :: "string \<Rightarrow> string" where
  "path_file value = rev (takeWhile (\<lambda>c. \<not> separator c) (rev value))"

text \<open>\<^verbatim>\<open>operator ~\<close>: what is before the last separator, nothing without one.\<close>

definition path_directory :: "string \<Rightarrow> string" where
  "path_directory value = rev (tl (dropWhile (\<lambda>c. \<not> separator c) (rev value)))"

section \<open>GUIDs\<close>

text \<open>Sixteen bytes; the first eight are printed as one 32-bit and two 16-bit little-endian numbers.\<close>

definition le16 :: "nat \<Rightarrow> nat \<Rightarrow> nat" where
  "le16 a b = a + 256 * b"

definition le32 :: "nat \<Rightarrow> nat \<Rightarrow> nat \<Rightarrow> nat \<Rightarrow> nat" where
  "le32 a b c d = le16 a b + 65536 * le16 c d"

definition guid_fields :: "nat list \<Rightarrow> (string \<times> nat \<times> nat) list" where
  "guid_fields v =
     [(''{'', 8, le32 (v ! 0) (v ! 1) (v ! 2) (v ! 3)), (''-'', 4, le16 (v ! 4) (v ! 5)), (''-'', 4, le16 (v ! 6) (v ! 7)),
      (''-'', 2, v ! 8), ('''', 2, v ! 9), (''-'', 2, v ! 10), ('''', 2, v ! 11), ('''', 2, v ! 12), ('''', 2, v ! 13),
      ('''', 2, v ! 14), ('''', 2, v ! 15)]"

definition guid_to_string :: "nat list \<Rightarrow> string option" where
  "guid_to_string v =
     foldr (\<lambda>(sep, width, value) acc.
        case itoa_unsigned 16 (width * 4) value (int width) CHR ''0'' of None \<Rightarrow> None
        | Some ds \<Rightarrow> map_option (\<lambda>rest. sep @ ds @ rest) acc)
       (guid_fields v) (Some ''}'')"

text \<open>
  \<^verbatim>\<open>sscanf\<close> with the format of \<^verbatim>\<open>from_string\<close>: literal characters must match, \<open>%0nX\<close>
  takes up to \<open>n\<close> hexadecimal digits, at least one. On a mismatch the rest of the bytes is left
  uninitialised, \<^const>\<open>None\<close>.
\<close>

definition hex_value :: "char \<Rightarrow> nat option" where
  "hex_value c =
     (let n = of_char c :: nat in
      if 48 \<le> n \<and> n \<le> 57 then Some (n - 48) else if 65 \<le> n \<and> n \<le> 70 then Some (n - 55)
      else if 97 \<le> n \<and> n \<le> 102 then Some (n - 87) else None)"

fun scan_hex :: "nat \<Rightarrow> nat \<Rightarrow> string \<Rightarrow> nat \<times> string" where
  "scan_hex 0 acc s = (acc, s)"
| "scan_hex (Suc n) acc [] = (acc, [])"
| "scan_hex (Suc n) acc (c # s) = (case hex_value c of None \<Rightarrow> (acc, c # s) | Some d \<Rightarrow> scan_hex n (acc * 16 + d) s)"

definition scan_field :: "nat \<Rightarrow> string \<Rightarrow> (nat \<times> string) option" where
  "scan_field n s = (case s of [] \<Rightarrow> None | c # _ \<Rightarrow> if hex_value c = None then None else Some (scan_hex n 0 s))"

fun scan_literal :: "string \<Rightarrow> string \<Rightarrow> string option" where
  "scan_literal [] s = Some s"
| "scan_literal (l # ls) s = (case s of [] \<Rightarrow> None | c # s' \<Rightarrow> if c = l then scan_literal ls s' else None)"

fun scan_fields :: "(string \<times> nat) list \<Rightarrow> string \<Rightarrow> nat list option" where
  "scan_fields [] s = Some []"
| "scan_fields ((sep, n) # fs) s =
     Option.bind (scan_literal sep s) (\<lambda>s1.
       Option.bind (scan_field n s1) (\<lambda>(v, s2). map_option (Cons v) (scan_fields fs s2)))"

definition guid_format :: "(string \<times> nat) list" where
  "guid_format = [(''{'', 8), (''-'', 4), (''-'', 4), (''-'', 2), ('''', 2), (''-'', 2), ('''', 2), ('''', 2), ('''', 2),
     ('''', 2), ('''', 2)]"

definition guid_from_string :: "string \<Rightarrow> nat list option" where
  "guid_from_string text =
     map_option (\<lambda>vs. [vs ! 0 mod 256, vs ! 0 div 256 mod 256, vs ! 0 div 65536 mod 256, vs ! 0 div 16777216 mod 256,
        vs ! 1 mod 256, vs ! 1 div 256 mod 256, vs ! 2 mod 256, vs ! 2 div 256 mod 256] @ drop 3 vs)
       (scan_fields guid_format text)"


section \<open>Decoding\<close>

lemma and_masks:
  "n AND 0x3F = (n mod 64 :: nat)" "n AND 0x1F = (n mod 32 :: nat)" "n AND 0x0F = (n mod 16 :: nat)"
  "n AND 0x07 = (n mod 8 :: nat)" "n AND 0x3FF = (n mod 1024 :: nat)"
  using take_bit_eq_mask [of 6 n] take_bit_eq_mask [of 5 n] take_bit_eq_mask [of 4 n] take_bit_eq_mask [of 3 n]
    take_bit_eq_mask [of 10 n]
  by (simp_all add: mask_eq_exp_minus_1 take_bit_eq_mod)

lemma or_C0: "x < 32 \<Longrightarrow> 0xC0 OR x = (0xC0 + x :: nat)"
proof -
  have "list_all (\<lambda>x. 0xC0 OR x = (0xC0 + x :: nat)) [0..<32]" by code_simp
  then show "x < 32 \<Longrightarrow> ?thesis" by (simp add: list_all_iff)
qed

lemma or_80: "x < 64 \<Longrightarrow> 0x80 OR x = (0x80 + x :: nat)"
proof -
  have "list_all (\<lambda>x. 0x80 OR x = (0x80 + x :: nat)) [0..<64]" by code_simp
  then show "x < 64 \<Longrightarrow> ?thesis" by (simp add: list_all_iff)
qed

lemma or_E0: "x < 16 \<Longrightarrow> 0xE0 OR x = (0xE0 + x :: nat)"
proof -
  have "list_all (\<lambda>x. 0xE0 OR x = (0xE0 + x :: nat)) [0..<16]" by code_simp
  then show "x < 16 \<Longrightarrow> ?thesis" by (simp add: list_all_iff)
qed

lemma tag_mods:
  "(128 + x) mod 64 = (x mod 64 :: nat)" "(192 + x) mod 32 = (x mod 32 :: nat)" "(224 + x) mod 16 = (x mod 16 :: nat)"
  "(240 + x) mod 8 = (x mod 8 :: nat)"
  using mod_mult_self4 [of 64 2 x] mod_mult_self4 [of 32 6 x] mod_mult_self4 [of 16 14 x] mod_mult_self4 [of 8 30 x]
  by simp_all

lemma continuation_step:
  "x < 64 \<Longrightarrow> continuation (Suc n) u ((128 + x) # bs) = continuation n (u * 64 + x) bs"
  by (simp add: and_masks tag_mods)

lemma decode_utf8_bytes:
  assumes "scalar u"
  shows "decode_scalars (utf8_bytes u @ rest) = (case decode_scalars rest of Inl e \<Rightarrow> Inl e | Inr us \<Rightarrow> Inr (u # us))"
proof -
  consider "u \<le> 0x7F" | "0x80 \<le> u" "u \<le> 0x7FF" | "0x800 \<le> u" "u \<le> 0xFFFF" | "0x10000 \<le> u" by linarith
  then show ?thesis
  proof cases
    case 1
    with assms show ?thesis by (simp add: utf8_bytes_def lead_byte_def scalar_def)
  next
    case 2
    let ?a = "u div 64" and ?b = "u mod 64"
    have a: "?a < 32" "2 \<le> ?a" using 2 by linarith+
    have "continuation 1 ?a ((128 + ?b) # rest) = Inr (u, rest)"
      using continuation_step [of ?b 0 ?a rest] by simp
    moreover have "lead_byte (192 + ?a) = Inr (?a, 1)" using a by (simp add: lead_byte_def and_masks tag_mods)
    ultimately show ?thesis using 2 assms by (simp add: utf8_bytes_def scalar_def)
  next
    case 3
    let ?a = "u div 4096" and ?b = "u div 64 mod 64" and ?c = "u mod 64"
    have a: "?a < 16" using 3 by linarith
    have "(?a * 64 + ?b) * 64 + ?c = u" using div_mult_mod_eq [of u 64] div_mult_mod_eq [of "u div 64" 64]
      by (simp add: div_mult2_eq [of u 64 64, simplified])
    then have "continuation 2 ?a ((128 + ?b) # (128 + ?c) # rest) = Inr (u, rest)"
      using continuation_step [of ?b 1 ?a "(128 + ?c) # rest"] continuation_step [of ?c 0 "?a * 64 + ?b" rest]
      by (simp add: numeral_2_eq_2)
    moreover have "lead_byte (224 + ?a) = Inr (?a, 2)" using a by (simp add: lead_byte_def and_masks tag_mods)
    ultimately show ?thesis using 3 assms by (auto simp: utf8_bytes_def scalar_def)
  next
    case 4
    let ?a = "u div 262144" and ?b = "u div 4096 mod 64" and ?c = "u div 64 mod 64" and ?d = "u mod 64"
    have "u \<le> 0x10FFFF" using assms by (simp add: scalar_def)
    then have a: "?a < 8" by linarith
    have "((?a * 64 + ?b) * 64 + ?c) * 64 + ?d = u"
      using div_mult_mod_eq [of u 64] div_mult_mod_eq [of "u div 64" 64] div_mult_mod_eq [of "u div 4096" 64]
      by (simp add: div_mult2_eq [of u 64 64, simplified] div_mult2_eq [of u 4096 64, simplified])
    then have "continuation 3 ?a ((128 + ?b) # (128 + ?c) # (128 + ?d) # rest) = Inr (u, rest)"
      using continuation_step [of ?b 2 ?a "(128 + ?c) # (128 + ?d) # rest"]
        continuation_step [of ?c 1 "?a * 64 + ?b" "(128 + ?d) # rest"]
        continuation_step [of ?d 0 "(?a * 64 + ?b) * 64 + ?c" rest]
      by (simp add: numeral_3_eq_3 numeral_2_eq_2)
    moreover have "lead_byte (240 + ?a) = Inr (?a, 3)" using a by (simp add: lead_byte_def and_masks tag_mods)
    ultimately show ?thesis using 4 assms by (simp add: utf8_bytes_def scalar_def)
  qed
qed

lemma decode_all: "list_all scalar us \<Longrightarrow> decode_scalars (concat (map utf8_bytes us)) = Inr us"
  by (induction us) (simp_all add: decode_utf8_bytes)

lemma encode_char_utf8:
  assumes "0 < c" "c \<le> 0x7FF"
  shows "encode_char c = utf8_bytes c"
proof (cases "c \<le> 0x7F")
  case True
  then show ?thesis by (simp add: encode_char_def utf8_bytes_def to_char_def)
next
  case False
  have "c div 64 < 32" using assms(2) by linarith
  then show ?thesis using False assms(2)
    by (simp add: encode_char_def utf8_bytes_def to_char_def and_masks or_C0 or_80 drop_bit_eq_div)
qed

lemma encode_all: "list_all (\<lambda>c. 0 < c \<and> c \<le> 0x7FF) cs \<Longrightarrow> unicode_from_wide cs = concat (map utf8_bytes cs)"
  by (induction cs) (auto simp: encode_char_utf8)


section \<open>Digits\<close>

definition digits_value :: "nat \<Rightarrow> nat \<Rightarrow> string \<Rightarrow> nat" where
  "digits_value base acc ds = foldl (\<lambda>a c. a * base + the (hex_value c)) acc ds"

lemma hex_digit: "d < 16 \<Longrightarrow> hex_value (digit_char d) = Some d"
proof -
  have "list_all (\<lambda>d. hex_value (digit_char d) = Some d) [0..<16]" by code_simp
  then show "d < 16 \<Longrightarrow> ?thesis" by (simp add: list_all_iff)
qed

lemma hex_zero: "hex_value (CHR ''0'') = Some 0"
  by code_simp

lemma itoa_digits_props:
  assumes "2 \<le> base" "base \<le> 16"
  shows "digits_value base 0 (itoa_digits base v) = v \<and> (\<forall>c\<in>set (itoa_digits base v). hex_value c \<noteq> None) \<and>
    itoa_digits base v \<noteq> [] \<and> (v < base ^ n \<longrightarrow> 0 < n \<longrightarrow> length (itoa_digits base v) \<le> n)"
  using assms
proof (induction base v arbitrary: n rule: itoa_digits.induct)
  case (1 base v)
  have d: "hex_value (digit_char (v mod base)) = Some (v mod base)"
    using 1(2,3) by (intro hex_digit) (meson less_le_trans mod_less_divisor not_numeral_le_zero order.strict_trans2 zero_less_numeral)
  show ?case
  proof (cases "v div base = 0")
    case True
    then have "v mod base = v" using 1(2) by (simp add: div_eq_0_iff)
    with True d 1(2) show ?thesis by (simp add: itoa_digits.simps [of base v] digits_value_def)
  next
    case False
    have ih: "digits_value base 0 (itoa_digits base (v div base)) = v div base"
      "\<forall>c\<in>set (itoa_digits base (v div base)). hex_value c \<noteq> None"
      "v div base < base ^ m \<longrightarrow> 0 < m \<longrightarrow> length (itoa_digits base (v div base)) \<le> m" for m
      using 1(1) [of m] 1(2,3) False by auto
    have "length (itoa_digits base (v div base)) \<le> n - 1" if "v < base ^ n" "0 < n"
    proof -
      have "1 < n" using that False 1(2) by (cases "n = 1") (auto simp: div_eq_0_iff)
      moreover from this have "v div base < base ^ (n - 1)" using that(1)
        by (cases n) (auto simp: less_mult_imp_div_less mult.commute)
      ultimately show ?thesis using ih(3) [of "n - 1"] by simp
    qed
    with ih(1,2) d False 1(2) show ?thesis
      by (auto simp: itoa_digits.simps [of base v] digits_value_def)
  qed
qed

lemma digits_value_append: "digits_value b a (xs @ ys) = digits_value b (digits_value b a xs) ys"
  by (simp add: digits_value_def)

lemma digits_value_zeros: "digits_value b 0 (replicate n CHR ''0'') = 0"
  by (induction n) (simp_all add: digits_value_def hex_zero)

lemma itoa_props:
  assumes "2 \<le> base" "base \<le> 16" "v < 2 ^ bits" "0 < bits" "w \<le> int (bits + 1)"
  shows "\<exists>s. itoa_unsigned base bits v w CHR ''0'' = Some s \<and> digits_value base 0 s = v \<and>
    (\<forall>c\<in>set s. hex_value c \<noteq> None) \<and> int (length s) = max w (int (length (itoa_digits base v)))"
proof -
  let ?ds = "itoa_digits base v" and ?ps = "replicate (nat (w - int (length (itoa_digits base v)))) CHR ''0''"
  have "v < base ^ bits" using assms(1,3) power_mono [of 2 base bits] by linarith
  with itoa_digits_props [OF assms(1,2), of v bits] assms(4) have ds: "length ?ds \<le> bits" "digits_value base 0 ?ds = v"
    "\<forall>c\<in>set ?ds. hex_value c \<noteq> None" by auto
  then have "length ?ds + length ?ps \<le> bits + 1" using assms(5) by auto
  then show ?thesis using ds
    by (intro exI [of _ "?ps @ ?ds"])
      (auto simp: itoa_unsigned_def Let_def digits_value_append digits_value_zeros hex_zero max_def)
qed

section \<open>Parts of a path\<close>

lemma path_parts:
  shows "\<forall>c\<in>set (path_file p). \<not> separator c"
    and "\<forall>c\<in>set p. \<not> separator c \<Longrightarrow> path_file p = p \<and> path_directory p = []"
    and "\<exists>c\<in>set p. separator c \<Longrightarrow> \<exists>c. separator c \<and> p = path_directory p @ c # path_file p"
proof -
  let ?P = "\<lambda>c. \<not> separator c"
  show "\<forall>c\<in>set (path_file p). \<not> separator c" by (auto simp: path_file_def dest: set_takeWhileD)
  show "path_file p = p \<and> path_directory p = []" if "\<forall>c\<in>set p. \<not> separator c"
    using that by (simp add: path_file_def path_directory_def takeWhile_eq_all_conv [THEN iffD2] dropWhile_eq_Nil_conv [THEN iffD2])
  show "\<exists>c. separator c \<and> p = path_directory p @ c # path_file p" if "\<exists>c\<in>set p. separator c"
  proof -
    have ne: "dropWhile ?P (rev p) \<noteq> []" using that by (auto simp: dropWhile_eq_Nil_conv)
    then obtain c cs where c: "dropWhile ?P (rev p) = c # cs" by (cases "dropWhile ?P (rev p)") auto
    then have "separator c" using hd_dropWhile [OF ne] by simp
    moreover have "p = rev (takeWhile ?P (rev p) @ dropWhile ?P (rev p))" by simp
    then have "p = path_directory p @ c # path_file p" unfolding path_directory_def path_file_def c by (simp del: takeWhile_dropWhile_id)
    ultimately show ?thesis by blast
  qed
qed

section \<open>Scanning GUIDs\<close>

lemma scan_hex_digits:
  "\<forall>c\<in>set ds. hex_value c \<noteq> None \<Longrightarrow> scan_hex (length ds) acc (ds @ rest) = (digits_value 16 acc ds, rest)"
  by (induction ds arbitrary: acc) (auto simp: digits_value_def)

lemma scan_literal_same: "scan_literal ls (ls @ s) = Some s"
  by (induction ls) auto

definition fields_string :: "(string \<times> nat \<times> nat) list \<Rightarrow> string option" where
  "fields_string fs =
     foldr (\<lambda>(sep, width, value) acc.
        case itoa_unsigned 16 (width * 4) value (int width) CHR ''0'' of None \<Rightarrow> None
        | Some ds \<Rightarrow> map_option (\<lambda>rest. sep @ ds @ rest) acc) fs (Some ''}'')"

lemma scan_printed_fields:
  "list_all (\<lambda>(sep, w, v). 0 < w \<and> v < 16 ^ w) fs \<Longrightarrow>
    \<exists>s. fields_string fs = Some s \<and> scan_fields (map (\<lambda>(sep, w, v). (sep, w)) fs) s = Some (map (\<lambda>(sep, w, v). v) fs)"
proof (induction fs)
  case (Cons f fs)
  obtain sep w v where f: "f = (sep, w, v)" by (cases f)
  from Cons obtain s where s: "fields_string fs = Some s"
    "scan_fields (map (\<lambda>(sep, w, v). (sep, w)) fs) s = Some (map (\<lambda>(sep, w, v). v) fs)" by auto
  have w: "0 < w" "v < 16 ^ w" using Cons.prems by (auto simp: f)
  have v: "v < 2 ^ (w * 4)" using w(2) by (simp add: power_mult mult.commute [of w 4])
  from itoa_props [of 16 v "w * 4" "int w"] v w(1) obtain ds where ds:
    "itoa_unsigned 16 (w * 4) v (int w) CHR ''0'' = Some ds" "digits_value 16 0 ds = v" "\<forall>c\<in>set ds. hex_value c \<noteq> None"
    "int (length ds) = max (int w) (int (length (itoa_digits 16 v)))" by auto
  have "length (itoa_digits 16 v) \<le> w" using itoa_digits_props [of 16 v w] w by auto
  then have len: "length ds = w" using ds(4) by simp
  then obtain c ds' where c: "ds = c # ds'" using w(1) by (cases ds) auto
  have "scan_field w (ds @ s) = Some (v, s)"
    using scan_hex_digits [OF ds(3), of 0 s] ds(2,3) len by (auto simp: scan_field_def c)
  then show ?case using s ds(1) by (auto simp: f fields_string_def scan_literal_same)
qed (simp add: fields_string_def)

lemma guid_to_string_fields: "guid_to_string v = fields_string (guid_fields v)"
  by (simp only: guid_to_string_def fields_string_def)

lemma le_bytes:
  assumes "a < 256" "b < 256" "c < 256" "d < 256"
  shows "le16 a b < 65536" "le32 a b c d < 4294967296" "le16 a b mod 256 = a" "le16 a b div 256 mod 256 = b"
    "le32 a b c d mod 256 = a" "le32 a b c d div 256 mod 256 = b" "le32 a b c d div 65536 mod 256 = c"
    "le32 a b c d div 16777216 mod 256 = d"
proof -
  have split: "x < 256 \<Longrightarrow> (x + 256 * y) mod 256 = x \<and> (x + 256 * y) div 256 = y" for x y :: nat by simp
  have l16: "le16 a b mod 256 = a" "le16 a b div 256 = b" unfolding le16_def using split assms(1) by blast+
  have l32: "le32 a b c d = a + 256 * (b + 256 * (c + 256 * d))" by (simp add: le32_def le16_def)
  have d1: "le32 a b c d mod 256 = a" "le32 a b c d div 256 = b + 256 * (c + 256 * d)"
    unfolding l32 using split assms(1) by blast+
  have d2: "le32 a b c d div 256 mod 256 = b" "le32 a b c d div 256 div 256 = c + 256 * d"
    unfolding d1 using split assms(2) by blast+
  have d3: "le32 a b c d div 256 div 256 mod 256 = c" "le32 a b c d div 256 div 256 div 256 = d"
    unfolding d2 using split assms(3) by blast+
  show "le16 a b mod 256 = a" "le16 a b div 256 mod 256 = b" using l16 assms(2) by simp_all
  show "le32 a b c d mod 256 = a" "le32 a b c d div 256 mod 256 = b" by (fact d1(1), fact d2(1))
  show "le32 a b c d div 65536 mod 256 = c" using d3(1) by (simp add: div_mult2_eq [symmetric])
  show "le32 a b c d div 16777216 mod 256 = d" using d3(2) assms(4) by (simp add: div_mult2_eq [symmetric])
  show "le16 a b < 65536" "le32 a b c d < 4294967296" using assms by (simp_all add: le16_def le32_def)
qed

lemmas le16_bytes = le_bytes(1,3,4) [where c = 0 and d = 0, simplified]

section \<open>Properties\<close>

lemma utf16_units_read: "scalar u \<Longrightarrow> utf16_scalars (utf16_units u @ w) = map_option ((#) u) (utf16_scalars w)"
proof (cases "u \<le> 0xFFFF")
  case False
  assume "scalar u"
  let ?v = "u - 0x10000"
  from \<open>scalar u\<close> have v: "?v div 1024 < 1024" "?v mod 1024 < 1024" by (auto simp: scalar_def less_mult_imp_div_less)
  have "0x10000 + ?v div 1024 * 1024 + ?v mod 1024 = u" using False by (simp add: div_mult_mod_eq)
  with v False show ?thesis by (simp add: utf16_units_def Let_def and_masks drop_bit_eq_div)
qed (auto simp: scalar_def utf16_units_def)

lemma utf16_all_read: "list_all scalar us \<Longrightarrow> utf16_scalars (concat (map utf16_units us)) = Some us"
  by (induction us) (simp_all add: utf16_units_read)

lemma decoded_are_scalars: "decode_scalars bytes = Inr vs \<Longrightarrow> list_all scalar vs"
  by (induction bytes arbitrary: vs rule: decode_scalars.induct)
    (auto simp: scalar_def split: sum.splits prod.splits if_splits)

text \<open>
  C40. The UTF-8 decoder reads every well-formed string: for any sequence of Unicode scalar values, one
  to four bytes each, it returns a wide string that the standard reading of UTF-16, surrogate pairs included, turns
  into exactly these values. Whatever other bytes it accepts (forms that are longer than needed are), the result
  is well-formed UTF-16 of scalar values, those its first loop found.
\<close>

theorem utf8_decoder_is_correct:
  "(list_all scalar us \<longrightarrow> (\<exists>w. unicode_to_wide (concat (map utf8_bytes us)) = Inr w \<and> utf16_scalars w = Some us)) \<and>
   (unicode_to_wide bytes = Inr w \<longrightarrow> (\<exists>vs. decode_scalars bytes = Inr vs \<and> list_all scalar vs \<and> utf16_scalars w = Some vs))"
proof
  show "list_all scalar us \<longrightarrow> (\<exists>w. unicode_to_wide (concat (map utf8_bytes us)) = Inr w \<and> utf16_scalars w = Some us)"
    using decode_all [of us] utf16_all_read [of us] by (simp add: unicode_to_wide_def)
  show "unicode_to_wide bytes = Inr w \<longrightarrow> (\<exists>vs. decode_scalars bytes = Inr vs \<and> list_all scalar vs \<and> utf16_scalars w = Some vs)"
    using decoded_are_scalars utf16_all_read by (auto simp: unicode_to_wide_def split: sum.splits)
qed

lemma utf8_decoder_is_correct_witness:
  "\<exists>w. unicode_to_wide [0x24, 0xC2, 0xA3, 0xE2, 0x82, 0xAC, 0xF0, 0x90, 0x8D, 0x88] = Inr w \<and>
    utf16_scalars w = Some [0x24, 0xA3, 0x20AC, 0x10348] \<and> utf16_scalars [0x24, 0xA3, 0x20AC, 0xD800, 0xDF48] = utf16_scalars w"
proof -
  have "list_all scalar [0x24, 0xA3, 0x20AC, 0x10348]" by (simp add: scalar_def)
  with utf8_decoder_is_correct [of "[0x24, 0xA3, 0x20AC, 0x10348]"]
  have "\<exists>w. unicode_to_wide (concat (map utf8_bytes [0x24, 0xA3, 0x20AC, 0x10348])) = Inr w \<and>
    utf16_scalars w = Some [0x24, 0xA3, 0x20AC, 0x10348]" by blast
  then show ?thesis by (auto simp: utf8_bytes_def)
qed

text \<open>
  Wide strings of characters up to 0x7FF survive the way to UTF-8 and back.
\<close>

theorem narrow_round_trip:
  assumes "list_all (\<lambda>c. 0 < c \<and> c \<le> 0x7FF) cs"
  shows "unicode_to_wide (unicode_from_wide cs) = Inr cs"
proof -
  have "list_all scalar cs" "concat (map utf16_units cs) = cs"
    using assms by (induction cs) (auto simp: scalar_def utf16_units_def)
  with decode_all [of cs] encode_all [OF assms] show ?thesis by (simp add: unicode_to_wide_def)
qed

lemma narrow_round_trip_witness: "unicode_to_wide (unicode_from_wide [0x41, 0x42F, 0x7FF]) = Inr [0x41, 0x42F, 0x7FF]"
  by (rule narrow_round_trip) simp

text \<open>
  Characters above 0x7FF do not: the encoder computes three bytes and appends two of them, so that
  the decoder rejects the result for every such character.
\<close>

theorem three_byte_encoding_is_truncated:
  assumes "0x800 \<le> c" "c \<le> 0xFFFF"
  shows "unicode_to_wide (unicode_from_wide [c]) = Inl Not_UTF8"
proof -
  let ?a = "c div 4096" and ?b = "c div 64 mod 64"
  have a: "?a < 16" using assms(2) by linarith
  have "unicode_from_wide [c] = [224 + ?a, 128 + ?b]"
    using assms a by (simp add: encode_char_def to_char_def and_masks or_E0 or_80 drop_bit_eq_div)
  moreover have "lead_byte (224 + ?a) = Inr (?a, 2)" using a by (simp add: lead_byte_def and_masks tag_mods)
  moreover have "continuation 2 ?a [128 + ?b] = Inl Not_UTF8"
    using continuation_step [of ?b 1 ?a "[]"] by (simp add: numeral_2_eq_2)
  ultimately show ?thesis by (simp add: unicode_to_wide_def)
qed

lemma three_byte_encoding_is_truncated_witness: "unicode_to_wide (unicode_from_wide [0x20AC]) = Inl Not_UTF8"
  by (rule three_byte_encoding_is_truncated) simp_all

text \<open>
  \<^verbatim>\<open>itoa\<close> prints numbers so that they can be read back, in any base up to 16: the digits
  have the value printed, the field has the width asked for unless the number needs more, and the
  local buffer is never overrun while the width is within its length.
\<close>

theorem itoa_round_trip:
  assumes "2 \<le> base" "base \<le> 16" "v < 2 ^ bits" "0 < bits" "w \<le> int (bits + 1)"
  shows "\<exists>s. itoa_unsigned base bits v w CHR ''0'' = Some s \<and> digits_value base 0 s = v \<and>
    w \<le> int (length s) \<and> (v < base ^ nat w \<longrightarrow> 0 < w \<longrightarrow> int (length s) = w)"
proof -
  from itoa_props [OF assms] obtain s where s: "itoa_unsigned base bits v w CHR ''0'' = Some s" "digits_value base 0 s = v"
    "int (length s) = max w (int (length (itoa_digits base v)))" by blast
  have "v < base ^ nat w \<Longrightarrow> 0 < w \<Longrightarrow> length (itoa_digits base v) \<le> nat w"
    using itoa_digits_props [OF assms(1,2), of v "nat w"] by simp
  with s show ?thesis by (intro exI [of _ s]) auto
qed

lemma itoa_round_trip_witness:
  "\<exists>s. itoa_unsigned 16 32 48879 8 CHR ''0'' = Some s \<and> digits_value 16 0 s = 48879 \<and> length s = 8"
  using itoa_round_trip [of 16 48879 32 8] by auto

text \<open>
  A GUID printed and scanned again is the same GUID, for all sixteen bytes.
\<close>

theorem guid_round_trip:
  assumes "length v = 16" "list_all (\<lambda>b. b < 256) v"
  shows "\<exists>s. guid_to_string v = Some s \<and> guid_from_string s = Some v"
proof -
  have b: "v ! i < 256" if "i < 16" for i using assms that by (simp add: list_all_length)
  have "list_all (\<lambda>(sep, w, x). 0 < w \<and> x < 16 ^ w) (guid_fields v)"
    using b le16_bytes(1) [of "v ! 4" "v ! 5"] le16_bytes(1) [of "v ! 6" "v ! 7"] le_bytes(2) [of "v ! 0" "v ! 1" "v ! 2" "v ! 3"]
    by (simp add: guid_fields_def)
  from scan_printed_fields [OF this] obtain s where s: "guid_to_string v = Some s"
    "scan_fields guid_format s = Some (map (\<lambda>(sep, w, x). x) (guid_fields v))"
    by (auto simp: guid_to_string_fields guid_fields_def guid_format_def)
  have "guid_from_string s = Some (map (\<lambda>i. v ! i) [0, 1, 2, 3, 4, 5, 6, 7, 8, 9, 10, 11, 12, 13, 14, 15])"
    using b by (simp add: guid_from_string_def s(2) guid_fields_def le16_bytes le_bytes(5-8))
  also have "map (\<lambda>i. v ! i) [0, 1, 2, 3, 4, 5, 6, 7, 8, 9, 10, 11, 12, 13, 14, 15] = map ((!) v) [0..<16]"
    by (simp add: upt_rec numeral_eq_Suc)
  also have "\<dots> = v" using assms(1) map_nth [of v] by simp
  finally show ?thesis using s(1) by blast
qed

lemma guid_round_trip_witness:
  "\<exists>s. guid_to_string [1, 2, 3, 4, 5, 6, 7, 8, 9, 10, 11, 12, 13, 14, 15, 255] = Some s \<and>
     guid_from_string s = Some [1, 2, 3, 4, 5, 6, 7, 8, 9, 10, 11, 12, 13, 14, 15, 255]"
  by (rule guid_round_trip) simp_all

end
