(* ===== verification/Views.thy ===== *)
theory Views
  imports Prelude
begin

text \<open>
  The views of \<^verbatim>\<open>views/\<close>: filtering, flattening and ordering of a sequence that stays where it
  is. Views are templates over the underlying sequence, whose iterators are reached through
  \<open>step\<close> (\<^verbatim>\<open>operator ++\<close>), \<open>deref\<close> (\<^verbatim>\<open>operator *\<close>) and \<open>stop\<close>
  (\<^verbatim>\<open>end()\<close>); these are arguments of the definitions, \<^const>\<open>None\<close> where the use of an
  iterator is undefined. The loops over iterators need not end on a bad sequence, so they are partial.
\<close>

section \<open>Walking a sequence\<close>

partial_function (option) walk ::
  "('i \<Rightarrow> 'i option) \<Rightarrow> ('i \<Rightarrow> 'a option) \<Rightarrow> 'i \<Rightarrow> 'i \<Rightarrow> 'a list option" where
  "walk step deref stop i =
     (if i = stop then Some []
      else Option.bind (deref i) (\<lambda>x. Option.bind (step i) (\<lambda>j.
        Option.bind (walk step deref stop j) (\<lambda>xs. Some (x # xs)))))"

section \<open>filter\<close>

text \<open>The state of a filter is its predicate; an unset predicate matches everything.\<close>

definition filter_init :: "('a \<Rightarrow> bool) option" where
  "filter_init = None"

definition set_filter :: "('a \<Rightarrow> bool) option \<Rightarrow> ('a \<Rightarrow> bool) option \<Rightarrow> ('a \<Rightarrow> bool) option" where
  "set_filter predicate current = predicate"

definition filter_match :: "('a \<Rightarrow> bool) option \<Rightarrow> 'a \<Rightarrow> bool" where
  "filter_match predicate x = (case predicate of None \<Rightarrow> True | Some p \<Rightarrow> p x)"

partial_function (option) find_next ::
  "('i \<Rightarrow> 'i option) \<Rightarrow> ('i \<Rightarrow> 'a option) \<Rightarrow> 'i \<Rightarrow> ('a \<Rightarrow> bool) option \<Rightarrow> 'i \<Rightarrow> 'i option" where
  "find_next step deref stop p i =
     Option.bind (step i) (\<lambda>j.
       if j = stop then Some j
       else Option.bind (deref j) (\<lambda>x. if filter_match p x then Some j else find_next step deref stop p j))"

definition filter_iterator ::
  "('i \<Rightarrow> 'i option) \<Rightarrow> ('i \<Rightarrow> 'a option) \<Rightarrow> 'i \<Rightarrow> ('a \<Rightarrow> bool) option \<Rightarrow> 'i \<Rightarrow> 'i option" where
  "filter_iterator step deref stop p i =
     (if i = stop then Some i
      else Option.bind (deref i) (\<lambda>x. if filter_match p x then Some i else find_next step deref stop p i))"

section \<open>flatten\<close>

text \<open>
  \<open>inner\<close> is \<^verbatim>\<open>equal_range\<close> of the transform, \<open>get\<close> its \<^verbatim>\<open>get\<close>. The inner pair of
  iterators is the list of what lies between them; at the end of the outer sequence, where the
  comparison ignores them, it is empty.
\<close>

definition fetch :: "('i \<Rightarrow> 'a option) \<Rightarrow> ('a \<Rightarrow> 'b list) \<Rightarrow> 'i \<Rightarrow> 'i \<Rightarrow> (bool \<times> 'b list) option" where
  "fetch deref inner stop l1 =
     (if l1 = stop then Some (True, [])
      else Option.bind (deref l1) (\<lambda>x. Some (inner x \<noteq> [], inner x)))"

partial_function (option) skip_empty ::
  "('i \<Rightarrow> 'i option) \<Rightarrow> ('i \<Rightarrow> 'a option) \<Rightarrow> ('a \<Rightarrow> 'b list) \<Rightarrow> 'i \<Rightarrow> 'i \<Rightarrow> ('i \<times> 'b list) option" where
  "skip_empty step deref inner stop l1 =
     Option.bind (fetch deref inner stop l1) (\<lambda>(found, l2).
       if found then Some (l1, l2) else Option.bind (step l1) (\<lambda>l1'. skip_empty step deref inner stop l1'))"

definition flatten_iterator ::
  "('i \<Rightarrow> 'i option) \<Rightarrow> ('i \<Rightarrow> 'a option) \<Rightarrow> ('a \<Rightarrow> 'b list) \<Rightarrow> 'i \<Rightarrow> 'i \<Rightarrow> ('i \<times> 'b list) option" where
  "flatten_iterator step deref inner stop l1 = skip_empty step deref inner stop l1"

definition flatten_next ::
  "('i \<Rightarrow> 'i option) \<Rightarrow> ('i \<Rightarrow> 'a option) \<Rightarrow> ('a \<Rightarrow> 'b list) \<Rightarrow> 'i \<Rightarrow> 'i \<times> 'b list \<Rightarrow> ('i \<times> 'b list) option" where
  "flatten_next step deref inner stop it =
     (case snd it of
        [] \<Rightarrow> None
      | _ # l2 \<Rightarrow> if l2 \<noteq> [] then Some (fst it, l2)
          else Option.bind (step (fst it)) (\<lambda>l1. skip_empty step deref inner stop l1))"

definition flatten_deref ::
  "('i \<Rightarrow> 'a option) \<Rightarrow> ('a \<Rightarrow> 'b \<Rightarrow> 'c) \<Rightarrow> 'i \<times> 'b list \<Rightarrow> 'c option" where
  "flatten_deref deref get it =
     (case snd it of [] \<Rightarrow> None | y # _ \<Rightarrow> map_option (\<lambda>x. get x y) (deref (fst it)))"

section \<open>ordered\<close>

text \<open>
  The vector of iterators is the list of the elements they point at. \<open>sorter\<close> is
  \<^verbatim>\<open>std::sort\<close>, of which the order of equal elements is not specified.
\<close>

record 'a ordered =
  ordered_data :: "'a list"
  ordered_sort :: "('a \<Rightarrow> 'a \<Rightarrow> bool) option"

type_synonym 'a sorter = "('a \<Rightarrow> 'a \<Rightarrow> bool) \<Rightarrow> 'a list \<Rightarrow> 'a list"

definition ordered_fetch :: "'a sorter \<Rightarrow> 'a list \<Rightarrow> 'a ordered \<Rightarrow> 'a ordered" where
  "ordered_fetch sorter underlying v =
     (let v = v\<lparr>ordered_data := underlying\<rparr> in
      case ordered_sort v of None \<Rightarrow> v | Some lt \<Rightarrow> v\<lparr>ordered_data := sorter lt (ordered_data v)\<rparr>)"

definition ordered_init :: "'a sorter \<Rightarrow> 'a list \<Rightarrow> 'a ordered" where
  "ordered_init sorter underlying = ordered_fetch sorter underlying \<lparr>ordered_data = [], ordered_sort = None\<rparr>"

definition set_order :: "'a sorter \<Rightarrow> ('a \<Rightarrow> 'a \<Rightarrow> bool) \<Rightarrow> bool \<Rightarrow> 'a ordered \<Rightarrow> 'a ordered" where
  "set_order sorter predicate ascending v =
     (let lt = (if ascending then (\<lambda>l r. predicate l r) else (\<lambda>l r. predicate r l))
      in v\<lparr>ordered_sort := Some lt, ordered_data := sorter lt (ordered_data v)\<rparr>)"

definition ordered_size :: "'a ordered \<Rightarrow> nat" where
  "ordered_size v = length (ordered_data v)"

definition ordered_at :: "'a ordered \<Rightarrow> nat \<Rightarrow> 'a option" where
  "ordered_at v index = (if index < length (ordered_data v) then Some (ordered_data v ! index) else None)"

section \<open>any\_key\<close>

text \<open>
  A boxed key: its type, the size of its box, the value and the hash. Comparing keys of different
  types reads one box as the other, which is undefined.
\<close>

record 'v any_key =
  ak_type :: nat
  ak_value :: 'v
  ak_hash_fn :: "'v \<Rightarrow> nat"

definition storage_size :: nat where
  "storage_size = 48"

definition any_key_new :: "nat \<Rightarrow> nat \<Rightarrow> nat \<Rightarrow> 'v \<Rightarrow> ('v \<Rightarrow> nat) \<Rightarrow> 'v any_key option" where
  "any_key_new pointer_size ty box_size v h =
     (if box_size > storage_size + pointer_size then None else Some \<lparr>ak_type = ty, ak_value = v, ak_hash_fn = h\<rparr>)"

definition ak_hash :: "'v any_key \<Rightarrow> nat" where
  "ak_hash k = ak_hash_fn k (ak_value k)"

definition ak_equal :: "'v any_key \<Rightarrow> 'v any_key \<Rightarrow> bool option" where
  "ak_equal l r = (if ak_type l = ak_type r then Some (ak_value l = ak_value r) else None)"

section \<open>Sequences\<close>

text \<open>
  What a view relies on: from a valid iterator that is not the end, the element and the next iterator
  are there, and \<open>rest\<close> lists the elements from the iterator on.
\<close>

definition matching :: "('i \<Rightarrow> bool) \<Rightarrow> ('i \<Rightarrow> 'a list) \<Rightarrow> 'i \<Rightarrow> ('a \<Rightarrow> bool) option \<Rightarrow> 'i \<Rightarrow> bool" where
  "matching valid rest stop p i \<longleftrightarrow> valid i \<and> (i = stop \<or> filter_match p (hd (rest i)))"

definition flat :: "('a \<Rightarrow> 'b list) \<Rightarrow> ('a \<Rightarrow> 'b \<Rightarrow> 'c) \<Rightarrow> 'a list \<Rightarrow> 'c list" where
  "flat inner get xs = concat (map (\<lambda>x. map (get x) (inner x)) xs)"

definition flat_rest ::
  "('i \<Rightarrow> 'a list) \<Rightarrow> 'i \<Rightarrow> ('a \<Rightarrow> 'b list) \<Rightarrow> ('a \<Rightarrow> 'b \<Rightarrow> 'c) \<Rightarrow> 'i \<times> 'b list \<Rightarrow> 'c list" where
  "flat_rest rest stop inner get it =
     (if fst it = stop then [] else map (get (hd (rest (fst it)))) (snd it) @ flat inner get (tl (rest (fst it))))"

definition flat_valid :: "('i \<Rightarrow> bool) \<Rightarrow> 'i \<Rightarrow> 'i \<times> 'b list \<Rightarrow> bool" where
  "flat_valid valid stop it \<longleftrightarrow> valid (fst it) \<and> (fst it = stop \<longleftrightarrow> snd it = [])"

locale sequence =
  fixes step :: "'i \<Rightarrow> 'i option" and deref :: "'i \<Rightarrow> 'a option" and stop :: 'i
    and rest :: "'i \<Rightarrow> 'a list" and valid :: "'i \<Rightarrow> bool"
  assumes valid_stop: "valid stop" and rest_stop: "rest stop = []"
    and progress: "valid i \<Longrightarrow> i \<noteq> stop \<Longrightarrow> \<exists>x j. deref i = Some x \<and> step i = Some j \<and> valid j \<and> rest i = x # rest j"
begin

lemma walk_rest: "valid i \<Longrightarrow> walk step deref stop i = Some (rest i)"
proof (induction "rest i" arbitrary: i)
  case Nil
  then have "i = stop" using progress by fastforce
  then show ?case by (simp add: walk.simps rest_stop)
next
  case (Cons x xs)
  then have ne: "i \<noteq> stop" using rest_stop by auto
  from progress [OF Cons.prems ne] obtain y j where "deref i = Some y" "step i = Some j" "valid j" "rest i = y # rest j"
    by blast
  with Cons.hyps ne show ?case by (simp add: walk.simps [of step deref stop i])
qed

end

text \<open>Filtering a sequence gives a sequence.\<close>

locale filtered_sequence = sequence step deref stop rest valid
  for step :: "'i \<Rightarrow> 'i option" and deref :: "'i \<Rightarrow> 'a option" and stop rest valid +
  fixes p :: "('a \<Rightarrow> bool) option"
begin

lemma find_next_rest:
  "valid i \<Longrightarrow> i \<noteq> stop \<Longrightarrow>
    \<exists>j. find_next step deref stop p i = Some j \<and> matching valid rest stop p j \<and> filter (filter_match p) (tl (rest i)) = filter (filter_match p) (rest j)"
proof (induction "length (rest i)" arbitrary: i rule: less_induct)
  case less
  from progress [OF less.prems] obtain x j where j: "deref i = Some x" "step i = Some j" "valid j" "rest i = x # rest j" by blast
  show ?case
  proof (cases "j = stop")
    case True
    with j show ?thesis by (simp add: find_next.simps [of step deref stop p i] matching_def)
  next
    case False
    from progress [OF j(3) False] obtain y k where y: "deref j = Some y" "rest j = y # rest k" by blast
    show ?thesis
    proof (cases "filter_match p y")
      case True
      with j y False show ?thesis by (simp add: find_next.simps [of step deref stop p i] matching_def)
    next
      case no: False
      have "length (rest j) < length (rest i)" by (simp add: j(4))
      from less.hyps [OF this j(3) False] no j y False show ?thesis
        by (simp add: find_next.simps [of step deref stop p i])
    qed
  qed
qed

lemma filter_iterator_rest:
  assumes "valid i"
  shows "\<exists>j. filter_iterator step deref stop p i = Some j \<and> matching valid rest stop p j \<and> filter (filter_match p) (rest j) = filter (filter_match p) (rest i)"
proof (cases "i = stop")
  case False
  from progress [OF assms False] obtain x k where "deref i = Some x" "rest i = x # rest k" by blast
  with find_next_rest [OF assms False] assms False show ?thesis
    by (cases "filter_match p x") (auto simp: filter_iterator_def matching_def)
qed (use assms in \<open>simp add: filter_iterator_def matching_def\<close>)

end

sublocale filtered_sequence \<subseteq> filtered: sequence "find_next step deref stop p" deref stop
  "\<lambda>i. filter (filter_match p) (rest i)" "matching valid rest stop p"
proof unfold_locales
  fix i assume i: "matching valid rest stop p i" "i \<noteq> stop"
  then have v: "valid i" "filter_match p (hd (rest i))" by (auto simp: matching_def)
  from progress [OF v(1) i(2)] obtain x k where "deref i = Some x" "rest i = x # rest k" by blast
  with find_next_rest [OF v(1) i(2)] v(2)
  show "\<exists>x j. deref i = Some x \<and> find_next step deref stop p i = Some j \<and> matching valid rest stop p j \<and>
    filter (filter_match p) (rest i) = x # filter (filter_match p) (rest j)" by auto
qed (simp_all add: matching_def valid_stop rest_stop)

text \<open>So does flattening it.\<close>

locale flattened_sequence = sequence step deref stop rest valid
  for step :: "'i \<Rightarrow> 'i option" and deref :: "'i \<Rightarrow> 'a option" and stop rest valid +
  fixes inner :: "'a \<Rightarrow> 'b list" and get :: "'a \<Rightarrow> 'b \<Rightarrow> 'c"
begin

lemma skip_empty_rest:
  "valid i \<Longrightarrow> \<exists>it. skip_empty step deref inner stop i = Some it \<and> flat_valid valid stop it \<and> flat_rest rest stop inner get it = flat inner get (rest i)"
proof (induction "length (rest i)" arbitrary: i rule: less_induct)
  case less
  show ?case
  proof (cases "i = stop")
    case True
    then show ?thesis
      by (simp add: skip_empty.simps [of step deref inner stop stop] fetch_def flat_valid_def valid_stop flat_rest_def rest_stop flat_def)
  next
    case False
    from progress [OF less.prems False] obtain x j where j: "deref i = Some x" "step i = Some j" "valid j" "rest i = x # rest j" by blast
    show ?thesis
    proof (cases "inner x = []")
      case True
      have "length (rest j) < length (rest i)" by (simp add: j(4))
      from less.hyps [OF this j(3)] True False j show ?thesis
        by (simp add: skip_empty.simps [of step deref inner stop i] fetch_def flat_def)
    next
      case ne: False
      with False j less.prems show ?thesis
        by (simp add: skip_empty.simps [of step deref inner stop i] fetch_def flat_valid_def flat_rest_def flat_def)
    qed
  qed
qed

end

sublocale flattened_sequence \<subseteq> flattened: sequence "flatten_next step deref inner stop" "flatten_deref deref get" "(stop, [])"
  "flat_rest rest stop inner get" "flat_valid valid stop"
proof unfold_locales
  fix it :: "'i \<times> 'b list" assume it: "flat_valid valid stop it" "it \<noteq> (stop, [])"
  obtain i l2 where i: "it = (i, l2)" by fastforce
  from it have ne: "i \<noteq> stop" "valid i" "l2 \<noteq> []" by (auto simp: i flat_valid_def)
  then obtain y ys where l2: "l2 = y # ys" by (cases l2) auto
  from progress [OF ne(2,1)] obtain x j where j: "deref i = Some x" "step i = Some j" "valid j" "rest i = x # rest j" by blast
  from skip_empty_rest [OF j(3)] obtain jt where
    jt: "skip_empty step deref inner stop j = Some jt" "flat_valid valid stop jt" "flat_rest rest stop inner get jt = flat inner get (rest j)"
    by blast
  show "\<exists>z jt. flatten_deref deref get it = Some z \<and> flatten_next step deref inner stop it = Some jt \<and> flat_valid valid stop jt \<and>
    flat_rest rest stop inner get it = z # flat_rest rest stop inner get jt"
  proof (cases ys)
    case Nil
    with ne j jt show ?thesis
      by (intro exI [of _ "get x y"] exI [of _ jt]) (simp add: i l2 flatten_deref_def flatten_next_def flat_rest_def [of rest stop inner get "(i, _)"])
  next
    case (Cons z zs)
    with ne j show ?thesis by (simp add: i l2 flatten_deref_def flatten_next_def flat_rest_def flat_valid_def)
  qed
qed (simp_all add: flat_valid_def valid_stop flat_rest_def)

section \<open>Lists as sequences\<close>

definition list_step :: "'a list \<Rightarrow> nat \<Rightarrow> nat option" where
  "list_step xs i = (if i < length xs then Some (Suc i) else None)"

definition list_deref :: "'a list \<Rightarrow> nat \<Rightarrow> 'a option" where
  "list_deref xs i = (if i < length xs then Some (xs ! i) else None)"

interpretation list_seq: sequence "list_step xs" "list_deref xs" "length xs" "\<lambda>i. drop i xs" "\<lambda>i. i \<le> length xs" for xs
  by unfold_locales (auto simp: list_step_def list_deref_def Cons_nth_drop_Suc)

interpretation list_filter: filtered_sequence "list_step xs" "list_deref xs" "length xs" "\<lambda>i. drop i xs" "\<lambda>i. i \<le> length xs" p
  for xs p ..

interpretation filter_flatten: flattened_sequence "find_next (list_step xs) (list_deref xs) (length xs) p" "list_deref xs" "length xs"
  "\<lambda>i. filter (filter_match p) (drop i xs)" "matching (\<lambda>i. i \<le> length xs) (\<lambda>i. drop i xs) (length xs) p" inner get for xs p inner get ..

section \<open>Properties\<close>

text \<open>
  Walking a filtered view from its beginning to its end visits exactly the matching elements of
  the underlying sequence, in its order, and ends.
\<close>

theorem filter_view_is_filter:
  "\<exists>i. filter_iterator (list_step xs) (list_deref xs) (length xs) p 0 = Some i \<and>
    walk (find_next (list_step xs) (list_deref xs) (length xs) p) (list_deref xs) (length xs) i =
      Some (filter (filter_match p) xs)"
proof -
  from list_filter.filter_iterator_rest [of 0 xs p] obtain i where
    "filter_iterator (list_step xs) (list_deref xs) (length xs) p 0 = Some i" "matching (\<lambda>i. i \<le> length xs) (\<lambda>i. drop i xs) (length xs) p i"
    "filter (filter_match p) (drop i xs) = filter (filter_match p) xs" by auto
  with list_filter.filtered.walk_rest [of xs p i] show ?thesis by simp
qed

text \<open>
  Views compose: flattening a filtered view visits, for each matching element in order, all
  elements of its inner range, elements with an empty range being passed over.
\<close>

theorem flatten_view_is_concat:
  "\<exists>i it. filter_iterator (list_step xs) (list_deref xs) (length xs) p 0 = Some i \<and>
    flatten_iterator (find_next (list_step xs) (list_deref xs) (length xs) p) (list_deref xs) inner (length xs) i = Some it \<and>
    walk (flatten_next (find_next (list_step xs) (list_deref xs) (length xs) p) (list_deref xs) inner (length xs))
        (flatten_deref (list_deref xs) get) (length xs, []) it =
      Some (concat (map (\<lambda>x. map (get x) (inner x)) (filter (filter_match p) xs)))"
proof -
  from list_filter.filter_iterator_rest [of 0 xs p] obtain i where
    i: "filter_iterator (list_step xs) (list_deref xs) (length xs) p 0 = Some i" "matching (\<lambda>i. i \<le> length xs) (\<lambda>i. drop i xs) (length xs) p i"
    "filter (filter_match p) (drop i xs) = filter (filter_match p) xs" by auto
  from filter_flatten.skip_empty_rest [OF i(2), of inner get] obtain it where
    it: "skip_empty (find_next (list_step xs) (list_deref xs) (length xs) p) (list_deref xs) inner (length xs) i = Some it"
    "flat_valid (matching (\<lambda>i. i \<le> length xs) (\<lambda>i. drop i xs) (length xs) p) (length xs) it"
    "flat_rest (\<lambda>i. filter (filter_match p) (drop i xs)) (length xs) inner get it = flat inner get (filter (filter_match p) (drop i xs))"
    by blast
  from filter_flatten.flattened.walk_rest [OF it(2), of inner get] it i show ?thesis
    by (intro exI [of _ i] exI [of _ it]) (simp add: flatten_iterator_def flat_def)
qed

text \<open>
  What the view asks of \<^verbatim>\<open>std::sort\<close>: for a strict weak order, a permutation in which no
  element is before one that is less.
\<close>

definition strict_weak :: "('a \<Rightarrow> 'a \<Rightarrow> bool) \<Rightarrow> bool" where
  "strict_weak lt \<longleftrightarrow> asymp lt \<and> transp lt \<and> transp (\<lambda>x y. \<not> lt x y)"

locale sorting =
  fixes sorter :: "'a sorter"
  assumes sorter_mset: "strict_weak lt \<Longrightarrow> mset (sorter lt xs) = mset xs"
    and sorter_sorted: "strict_weak lt \<Longrightarrow> sorted_wrt (\<lambda>x y. \<not> lt y x) (sorter lt xs)"

text \<open>The changes of an ordered view: the underlying set is new, or the order is.\<close>

datatype 'a ordered_change = Fetch "'a list" | Order "'a \<Rightarrow> 'a \<Rightarrow> bool" bool

fun ordered_apply :: "'a sorter \<Rightarrow> 'a ordered_change \<Rightarrow> 'a ordered \<Rightarrow> 'a ordered" where
  "ordered_apply sorter (Fetch u) v = ordered_fetch sorter u v"
| "ordered_apply sorter (Order p ascending) v = set_order sorter p ascending v"

fun valid_change :: "'a ordered_change \<Rightarrow> bool" where
  "valid_change (Fetch u) = True"
| "valid_change (Order p ascending) = strict_weak p"

fun underlying_after :: "'a list \<Rightarrow> 'a ordered_change \<Rightarrow> 'a list" where
  "underlying_after u (Fetch u') = u'"
| "underlying_after u (Order p ascending) = u"

definition ordered_ok :: "'a list \<Rightarrow> 'a ordered \<Rightarrow> bool" where
  "ordered_ok u v \<longleftrightarrow> mset (ordered_data v) = mset u \<and>
     (\<forall>lt. ordered_sort v = Some lt \<longrightarrow> strict_weak lt \<and> sorted_wrt (\<lambda>x y. \<not> lt y x) (ordered_data v))"

lemma strict_weak_asym: "strict_weak lt \<Longrightarrow> lt x y \<Longrightarrow> \<not> lt y x"
  unfolding strict_weak_def by (elim conjE) (rule asympD)

lemma strict_weak_not_trans: "strict_weak lt \<Longrightarrow> \<not> lt x y \<Longrightarrow> \<not> lt y z \<Longrightarrow> \<not> lt x z"
  unfolding strict_weak_def by (elim conjE) (erule (2) transpD [of "\<lambda>x y. \<not> lt x y"])

lemma strict_weak_key: "strict_weak (\<lambda>l r. f l < (f r :: 'k :: linorder))"
  by (auto simp: strict_weak_def transp_def asymp_on_def)

lemma strict_weak_flip: "strict_weak p \<Longrightarrow> strict_weak (\<lambda>l r. p r l)"
  unfolding strict_weak_def by (intro conjI asympI transpI) (auto dest: asympD transpD)

context sorting
begin

lemma ordered_apply_ok:
  assumes "ordered_ok u v" "valid_change c"
  shows "ordered_ok (underlying_after u c) (ordered_apply sorter c v)"
proof (cases c)
  case (Fetch u')
  with assms show ?thesis
    by (cases "ordered_sort v") (auto simp: ordered_ok_def ordered_fetch_def sorter_mset sorter_sorted)
next
  case (Order p ascending)
  with assms strict_weak_flip [of p] show ?thesis
    by (simp add: ordered_ok_def set_order_def Let_def sorter_mset sorter_sorted)
qed

lemma ordered_changes_ok:
  "ordered_ok u v \<Longrightarrow> list_all valid_change cs \<Longrightarrow>
    ordered_ok (foldl underlying_after u cs) (foldl (\<lambda>v c. ordered_apply sorter c v) v cs)"
  by (induction cs arbitrary: u v) (auto intro: ordered_apply_ok)

end

text \<open>
  Whatever the history of an ordered view - refetched, reordered, in either direction - it holds
  exactly the elements of the sequence last fetched, and from the first choice of an order on, an
  element of the view is never preceded by one that the chosen order places after it.
\<close>

theorem ordered_view_is_sorted:
  assumes "sorting sorter" "list_all valid_change cs"
    and "v = foldl (\<lambda>v c. ordered_apply sorter c v) (ordered_init sorter u) cs"
  shows "ordered_size v = length (foldl underlying_after u cs) \<and>
    mset (ordered_data v) = mset (foldl underlying_after u cs) \<and>
    (\<forall>lt i j x y. ordered_sort v = Some lt \<longrightarrow> i < j \<longrightarrow> ordered_at v i = Some x \<longrightarrow> ordered_at v j = Some y \<longrightarrow> \<not> lt y x)"
proof -
  have "ordered_ok u (ordered_init sorter u)" by (simp add: ordered_ok_def ordered_init_def ordered_fetch_def)
  from sorting.ordered_changes_ok [OF assms(1) this assms(2)]
  have ok: "ordered_ok (foldl underlying_after u cs) v" by (simp add: assms(3))
  then have m: "mset (ordered_data v) = mset (foldl underlying_after u cs)" by (simp add: ordered_ok_def)
  have n: "ordered_size v = length (foldl underlying_after u cs)"
    using arg_cong [OF m, of "\<lambda>m. size m"] by (simp add: ordered_size_def)
  have "\<not> lt y x" if "ordered_sort v = Some lt" "i < j" "ordered_at v i = Some x" "ordered_at v j = Some y" for lt i j x y
    using ok that by (auto simp: ordered_ok_def ordered_at_def sorted_wrt_iff_nth_less split: if_splits)
  with m n show ?thesis by blast
qed

fun insert_before :: "('a \<Rightarrow> 'a \<Rightarrow> bool) \<Rightarrow> 'a \<Rightarrow> 'a list \<Rightarrow> 'a list" where
  "insert_before lt x [] = [x]"
| "insert_before lt x (y # ys) = (if lt y x then y # insert_before lt x ys else x # y # ys)"

definition insertion_sorter :: "'a sorter" where
  "insertion_sorter lt xs = foldr (insert_before lt) xs []"

lemma mset_insert_before [simp]: "mset (insert_before lt x ys) = add_mset x (mset ys)"
  by (induction ys) auto

lemma set_insert_before [simp]: "set (insert_before lt x ys) = insert x (set ys)"
  by (induction ys) auto

lemma sorted_insert_before:
  assumes "strict_weak lt" "sorted_wrt (\<lambda>x y. \<not> lt y x) ys"
  shows "sorted_wrt (\<lambda>x y. \<not> lt y x) (insert_before lt x ys)"
  using assms(2)
proof (induction ys)
  case (Cons y ys)
  show ?case
  proof (cases "lt y x")
    case True
    with Cons strict_weak_asym [OF assms(1) True] show ?thesis by simp
  next
    case False
    with Cons.prems strict_weak_not_trans [OF assms(1) _ False] show ?thesis by simp
  qed
qed simp

interpretation insertion: sorting insertion_sorter
proof unfold_locales
  fix lt :: "'a \<Rightarrow> 'a \<Rightarrow> bool" and xs assume "strict_weak lt"
  then show "mset (insertion_sorter lt xs) = mset xs" "sorted_wrt (\<lambda>x y. \<not> lt y x) (insertion_sorter lt xs)"
    by (induction xs) (simp_all add: insertion_sorter_def sorted_insert_before)
qed

theorem ordered_view_is_sorted_witness:
  "let v = foldl (\<lambda>v c. ordered_apply insertion_sorter c v) (ordered_init insertion_sorter [3, 1, 2 :: nat])
      [Order (<) False, Fetch [5, 9, 7, 6]]
   in ordered_size v = 4 \<and> mset (ordered_data v) = {#5, 6, 7, 9#} \<and> ordered_data v = [9, 7, 6, 5]"
  using ordered_view_is_sorted [OF insertion.sorting_axioms _ refl, of "[Order (<) False, Fetch [5, 9, 7, 6]]" "[3, 1, 2 :: nat]"]
  by (simp add: strict_weak_def transp_def ordered_init_def ordered_fetch_def set_order_def insertion_sorter_def)

end
