(* ===== verification/XXHash.thy ===== *)
theory XXHash
  imports Prelude
begin

unbundle bit_operations_syntax

text \<open>
  The hash of module images: \<^verbatim>\<open>XXHash32\<close> of \<^verbatim>\<open>collector/src/xxhash32.h\<close>, which takes its
  input in chunks and keeps up to fifteen bytes between them, and the loop that feeds it a file in
  \<^verbatim>\<open>collector/src/module_tracker.cpp\<close>. Memory is little-endian.
\<close>

section \<open>The hasher\<close>

type_synonym xx_lanes = "u32 \<times> u32 \<times> u32 \<times> u32"

record xxhash32 =
  xx_state :: xx_lanes
  xx_buffer :: "u8 list"
  xx_total :: u64

definition Prime1 :: u32 where "Prime1 = 2654435761"
definition Prime2 :: u32 where "Prime2 = 2246822519"
definition Prime3 :: u32 where "Prime3 = 3266489917"
definition Prime4 :: u32 where "Prime4 = 668265263"
definition Prime5 :: u32 where "Prime5 = 374761393"

definition MaxBufferSize :: nat where "MaxBufferSize = 15 + 1"

definition rotateLeft :: "u32 \<Rightarrow> nat \<Rightarrow> u32" where
  "rotateLeft x bits = push_bit bits x OR drop_bit (32 - bits) x"

text \<open>A 32-bit load at byte offset \<open>i\<close>.\<close>

definition load32 :: "u8 list \<Rightarrow> nat \<Rightarrow> u32" where
  "load32 d i = ucast (d ! i) OR push_bit 8 (ucast (d ! (i + 1))) OR push_bit 16 (ucast (d ! (i + 2))) OR
     push_bit 24 (ucast (d ! (i + 3)))"

definition xx_process :: "u8 list \<Rightarrow> xx_lanes \<Rightarrow> xx_lanes" where
  "xx_process d s =
     (case s of (s0, s1, s2, s3) \<Rightarrow>
       (rotateLeft (s0 + load32 d 0 * Prime2) 13 * Prime1,
        rotateLeft (s1 + load32 d 4 * Prime2) 13 * Prime1,
        rotateLeft (s2 + load32 d 8 * Prime2) 13 * Prime1,
        rotateLeft (s3 + load32 d 12 * Prime2) 13 * Prime1))"

definition xx_init :: "u32 \<Rightarrow> xxhash32" where
  "xx_init seed = \<lparr>xx_state = (seed + Prime1 + Prime2, seed + Prime2, seed, seed - Prime1), xx_buffer = [], xx_total = 0\<rparr>"

text \<open>The loop over whole blocks; it leaves what is short of a block.\<close>

function xx_blocks :: "u8 list \<Rightarrow> xx_lanes \<Rightarrow> u8 list \<times> xx_lanes" where
  "xx_blocks d s = (if MaxBufferSize \<le> length d then xx_blocks (drop 16 d) (xx_process d s) else (d, s))"
  by auto
termination by (relation "measure (\<lambda>(d, s). length d)") (auto simp: MaxBufferSize_def)

declare xx_blocks.simps [simp del]

definition xx_add :: "u8 list \<Rightarrow> xxhash32 \<Rightarrow> bool \<times> xxhash32" where
  "xx_add input h =
     (if input = [] then (False, h)
      else
        let h = h\<lparr>xx_total := xx_total h + of_nat (length input)\<rparr> in
        if length (xx_buffer h) + length input < MaxBufferSize
        then (True, h\<lparr>xx_buffer := xx_buffer h @ input\<rparr>)
        else
          let n = MaxBufferSize - length (xx_buffer h);
              (d, s) = (if xx_buffer h \<noteq> [] then (drop n input, xx_process (xx_buffer h @ take n input) (xx_state h))
                        else (input, xx_state h));
              (rest, s) = xx_blocks d s
          in (True, h\<lparr>xx_state := s, xx_buffer := rest\<rparr>))"

fun xx_bytes :: "u8 list \<Rightarrow> u32 \<Rightarrow> u32" where
  "xx_bytes [] r = r"
| "xx_bytes (b # bs) r = xx_bytes bs (rotateLeft (r + ucast b * Prime5) 11 * Prime1)"

fun xx_words :: "u8 list \<Rightarrow> u32 \<Rightarrow> u32" where
  "xx_words (a # b # c # e # bs) r = xx_words bs (rotateLeft (r + load32 [a, b, c, e] 0 * Prime3) 17 * Prime4)"
| "xx_words bs r = xx_bytes bs r"

definition xx_mix :: "u32 \<Rightarrow> u32" where
  "xx_mix r =
     (let r = r XOR drop_bit 15 r; r = r * Prime2; r = r XOR drop_bit 13 r; r = r * Prime3; r = r XOR drop_bit 16 r in r)"

definition xx_hash :: "xxhash32 \<Rightarrow> u32" where
  "xx_hash h =
     (let result = ucast (xx_total h);
          result = (if xx_total h \<ge> of_nat MaxBufferSize then
              (case xx_state h of (s0, s1, s2, s3) \<Rightarrow>
                result + (rotateLeft s0 1 + rotateLeft s1 7 + rotateLeft s2 12 + rotateLeft s3 18))
            else result + (fst (snd (snd (xx_state h))) + Prime5))
      in xx_mix (xx_words (xx_buffer h) result))"

definition xx_hash_all :: "u8 list \<Rightarrow> u32 \<Rightarrow> u32" where
  "xx_hash_all input seed = xx_hash (snd (xx_add input (xx_init seed)))"

section \<open>Hashing a file\<close>

text \<open>\<open>read_l\<close>: what \<^verbatim>\<open>fread\<close> takes from the bytes left of the file.\<close>

definition read_l :: "nat \<Rightarrow> u8 list \<Rightarrow> u8 list \<times> u8 list" where
  "read_l n content = (take n content, drop n content)"

function hash_file :: "u8 list \<Rightarrow> xxhash32 \<Rightarrow> xxhash32" where
  "hash_file content h =
     (if length (fst (read_l 1024 content)) = 1024
      then hash_file (snd (read_l 1024 content)) (snd (xx_add (fst (read_l 1024 content)) h))
      else snd (xx_add (fst (read_l 1024 content)) h))"
  by auto
termination by (relation "measure (\<lambda>(f, h). length f)") (auto simp: read_l_def)

declare hash_file.simps [simp del]

definition calculate_hash :: "u8 list \<Rightarrow> u32" where
  "calculate_hash content = xx_hash (hash_file content (xx_init 0))"

section \<open>Chunks do not matter\<close>

text \<open>What the hasher has seen: its lanes and its buffer are those of the blocks of the whole input.\<close>

definition xx_seen :: "u32 \<Rightarrow> u8 list \<Rightarrow> xxhash32 \<Rightarrow> bool" where
  "xx_seen seed d h \<longleftrightarrow> xx_blocks d (xx_state (xx_init seed)) = (xx_buffer h, xx_state h) \<and> xx_total h = of_nat (length d)"

lemma xx_process_cong: "take 16 d = take 16 d' \<Longrightarrow> 16 \<le> length d \<Longrightarrow> 16 \<le> length d' \<Longrightarrow> xx_process d s = xx_process d' s"
proof -
  assume t: "take 16 d = take 16 d'" and l: "16 \<le> length d" "16 \<le> length d'"
  then have "d ! i = d' ! i" if "i < 16" for i using that nth_take [of i 16 d] nth_take [of i 16 d'] by simp
  then show ?thesis by (simp add: xx_process_def load32_def split: prod.splits)
qed

lemma xx_blocks_short: "length d < 16 \<Longrightarrow> xx_blocks d s = (d, s)"
  by (simp add: xx_blocks.simps MaxBufferSize_def)

lemma xx_blocks_rest: "length (fst (xx_blocks d s)) < 16"
  by (induction d s rule: xx_blocks.induct) (simp add: xx_blocks.simps MaxBufferSize_def)

lemma xx_blocks_step:
  assumes "16 \<le> length d"
  shows "xx_blocks d s = xx_blocks (drop 16 d) (xx_process (take 16 d) s)"
proof -
  have "xx_process d s = xx_process (take 16 d) s" by (rule xx_process_cong) (use assms in simp_all)
  with assms show ?thesis by (simp add: xx_blocks.simps [of d] MaxBufferSize_def)
qed

lemma xx_blocks_append: "xx_blocks (d @ e) s = xx_blocks (fst (xx_blocks d s) @ e) (snd (xx_blocks d s))"
proof (induction d s rule: xx_blocks.induct)
  case (1 d s)
  show ?case
  proof (cases "16 \<le> length d")
    case True
    have "xx_process d s = xx_process (take 16 d) s" by (rule xx_process_cong) (use True in simp_all)
    with 1 True show ?thesis by (simp add: xx_blocks_step [of d] xx_blocks_step [of "d @ e"] MaxBufferSize_def)
  qed (simp add: xx_blocks_short)
qed

lemma xx_add_blocks:
  assumes "length (xx_buffer h) < 16"
  shows "(xx_buffer (snd (xx_add input h)), xx_state (snd (xx_add input h))) = xx_blocks (xx_buffer h @ input) (xx_state h)"
    and "xx_total (snd (xx_add input h)) = xx_total h + of_nat (length input)"
proof -
  have "xx_blocks (drop n input) (xx_process (b @ take n input) s) = xx_blocks (b @ input) s"
    if "length b < 16" "16 \<le> length b + length input" "n = 16 - length b" for b s n
    using that by (simp add: xx_blocks_step [of "b @ input"])
  from this [of "xx_buffer h" _ "xx_state h"] assms
  show "(xx_buffer (snd (xx_add input h)), xx_state (snd (xx_add input h))) = xx_blocks (xx_buffer h @ input) (xx_state h)"
    by (auto simp: xx_add_def Let_def MaxBufferSize_def xx_blocks_short split: prod.splits)
  show "xx_total (snd (xx_add input h)) = xx_total h + of_nat (length input)"
    by (simp add: xx_add_def Let_def split: prod.splits)
qed

lemma xx_seen_init: "xx_seen seed [] (xx_init seed)"
  by (simp add: xx_seen_def xx_blocks_short) (simp add: xx_init_def)

lemma xx_seen_add: "xx_seen seed d h \<Longrightarrow> xx_seen seed (d @ e) (snd (xx_add e h))"
  using xx_blocks_rest [of d "xx_state (xx_init seed)"] xx_add_blocks [of h e]
  by (simp add: xx_seen_def xx_blocks_append [of d])

lemma xx_seen_unique: "xx_seen seed d h \<Longrightarrow> xx_seen seed d h' \<Longrightarrow> xx_hash h = xx_hash h'"
  by (cases h; cases h') (simp add: xx_seen_def xx_hash_def)

lemma xx_seen_adds: "xx_seen seed d h \<Longrightarrow> xx_seen seed (d @ concat ds) (foldl (\<lambda>h d. snd (xx_add d h)) h ds)"
proof (induction ds arbitrary: d h)
  case (Cons e ds)
  from Cons.IH [OF xx_seen_add [OF Cons.prems, of e]] show ?case by simp
qed simp

lemma xx_seen_file: "xx_seen seed d h \<Longrightarrow> xx_seen seed (d @ content) (hash_file content h)"
proof (induction content h arbitrary: d rule: hash_file.induct)
  case (1 content h)
  from xx_seen_add [OF "1.prems", of "take 1024 content"] have s: "xx_seen seed (d @ take 1024 content) (snd (xx_add (take 1024 content) h))" .
  show ?case
  proof (cases "length (take 1024 content) = 1024")
    case True
    from "1.IH" [of "d @ take 1024 content"] s True show ?thesis
      by (simp add: hash_file.simps [of content] read_l_def)
  next
    case False
    then have "take 1024 content = content" by simp
    with s False show ?thesis by (simp add: hash_file.simps [of content] read_l_def)
  qed
qed

section \<open>Properties\<close>

text \<open>
  C35. The hash of a module depends only on the bytes hashed, not on how they are cut into chunks: feeding
  any list of chunks, empty ones included, gives the hash of the whole input in one call.
\<close>

theorem chunks_do_not_matter:
  "xx_hash (foldl (\<lambda>h d. snd (xx_add d h)) (xx_init seed) chunks) = xx_hash_all (concat chunks) seed"
  unfolding xx_hash_all_def
  using xx_seen_adds [OF xx_seen_init, of seed chunks] xx_seen_add [OF xx_seen_init, of seed "concat chunks"]
  by (auto intro: xx_seen_unique)

text \<open>Reading a module image block by block until a short read gives the hash of the whole file.\<close>

theorem file_hash_is_hash_of_file: "calculate_hash content = xx_hash_all content 0"
  unfolding calculate_hash_def xx_hash_all_def
  using xx_seen_file [OF xx_seen_init, of 0 content] xx_seen_add [OF xx_seen_init, of 0 content] by (auto intro: xx_seen_unique)

text \<open>The published value for the empty input.\<close>

lemma empty_input_hash: "xx_hash_all [] 0 = 0x02CC5D05"
  by code_simp

lemma abc_hash: "xx_hash_all [0x61, 0x62, 0x63] 0 = 0x32D153FF"
  by code_simp

end
