(* ===== verification/Module_Tracker.thy ===== *)
theory Module_Tracker
  imports XXHash
begin

text \<open>
  The tracker of loaded modules, \<^verbatim>\<open>collector/module_tracker.h\<close> and \<^verbatim>\<open>collector/src/module_tracker.cpp\<close>.
  The operating system is given by arguments: \<open>fid\<close> is the identity of the file at a path
  (\<^verbatim>\<open>file_id\<close>), \<open>files\<close> the content of the files that can be opened, and the list of the
  modules \<^verbatim>\<open>enumerate_process_modules\<close> reports is an argument of \<open>get_changes\<close>. Identifiers are
  counters of the process and taken as unbounded.
\<close>

section \<open>State and operations\<close>

record mapped_module =
  mm_path :: string
  mm_base :: u64

record mapped_module_ex =
  mx_persistent_id :: nat
  mx_path :: string
  mx_base :: u64
  mx_hash :: u32

type_synonym mapped_module_identified = "nat \<times> mapped_module_ex"

record module_info =
  mi_path :: string
  mi_hash :: u32
  mi_mapping :: "mapped_module_identified option"

record 'f module_tracker =
  files_registry :: "('f, nat) umap"
  modules_registry :: "(nat, module_info) umap"
  lqueue :: "mapped_module_identified list"
  uqueue :: "nat list"
  next_instance_id :: nat
  next_persistent_id :: nat

text \<open>
  The exceptions. The use of an invalid iterator or of a null pointer is undefined behaviour: the operation
  has no result then (\<open>None\<close>), and nothing is said of what follows it.
\<close>

datatype tracker_error = File_Not_Found | Invalid_Persistent_Id

definition module_tracker_init :: "'f module_tracker" where
  "module_tracker_init = \<lparr>files_registry = [], modules_registry = [], lqueue = [], uqueue = [],
     next_instance_id = 0, next_persistent_id = 1\<rparr>"

definition mapped_module_from :: "nat \<Rightarrow> nat \<Rightarrow> mapped_module \<Rightarrow> mapped_module_identified" where
  "mapped_module_from instance_id persistent_id mm =
     (instance_id, \<lparr>mx_persistent_id = persistent_id, mx_path = mm_path mm, mx_base = mm_base mm, mx_hash = 0\<rparr>)"

definition register_path ::
  "(string \<Rightarrow> 'f) \<Rightarrow> (string \<Rightarrow> u8 list option) \<Rightarrow> string \<Rightarrow> 'f module_tracker \<Rightarrow> (tracker_error + nat) \<times> 'f module_tracker" where
  "register_path fid files path mt =
     (case um_find (files_registry mt) (fid path) of
        Some persistent_id \<Rightarrow> (Inr persistent_id, mt)
      | None \<Rightarrow>
          let persistent_id = next_persistent_id mt;
              mt = mt\<lparr>next_persistent_id := persistent_id + 1,
                      files_registry := um_insert (fid path) persistent_id (files_registry mt)\<rparr>
          in case files path of
               None \<Rightarrow> (Inl File_Not_Found, mt)
             | Some content \<Rightarrow>
                 (Inr persistent_id,
                  mt\<lparr>modules_registry := um_insert persistent_id
                       \<lparr>mi_path = path, mi_hash = calculate_hash content, mi_mapping = None\<rparr> (modules_registry mt)\<rparr>))"

text \<open>
  The callback of the enumeration, and the enumeration; \<open>seen\<close> is \<^verbatim>\<open>in_snapshot\<close>. An identifier that has no
  module makes the callback dereference \<^verbatim>\<open>end()\<close>.
\<close>

definition map_module :: "nat \<Rightarrow> module_info \<Rightarrow> mapped_module \<Rightarrow> 'f module_tracker \<Rightarrow> 'f module_tracker" where
  "map_module persistent_id mi mm mt =
     (case mi_mapping mi of
        Some _ \<Rightarrow> mt
      | None \<Rightarrow>
          let mmi = mapped_module_from (next_instance_id mt) persistent_id mm;
              mmi = (fst mmi, (snd mmi)\<lparr>mx_hash := mi_hash mi\<rparr>)
          in mt\<lparr>next_instance_id := next_instance_id mt + 1,
                modules_registry := um_assign persistent_id (mi\<lparr>mi_mapping := Some mmi\<rparr>) (modules_registry mt),
                lqueue := lqueue mt @ [mmi]\<rparr>)"

fun track_modules ::
  "(string \<Rightarrow> 'f) \<Rightarrow> (string \<Rightarrow> u8 list option) \<Rightarrow> mapped_module list \<Rightarrow> nat list \<Rightarrow> 'f module_tracker \<Rightarrow>
   ((tracker_error + nat list) \<times> 'f module_tracker) option" where
  "track_modules fid files [] seen mt = Some (Inr seen, mt)"
| "track_modules fid files (mm # mms) seen mt =
     (case register_path fid files (mm_path mm) mt of
        (Inl e, mt) \<Rightarrow> Some (Inl e, mt)
      | (Inr persistent_id, mt) \<Rightarrow>
          (case um_find (modules_registry mt) persistent_id of
             None \<Rightarrow> None
           | Some mi \<Rightarrow> track_modules fid files mms (persistent_id # seen) (map_module persistent_id mi mm mt)))"

fun unmapped :: "nat list \<Rightarrow> (nat, module_info) umap \<Rightarrow> nat list \<times> (nat, module_info) umap" where
  "unmapped seen [] = ([], [])"
| "unmapped seen ((persistent_id, mi) # ms) =
     (let (us, ms') = unmapped seen ms in
      case mi_mapping mi of
        Some mmi \<Rightarrow> if persistent_id \<notin> set seen then (fst mmi # us, (persistent_id, mi\<lparr>mi_mapping := None\<rparr>) # ms')
                    else (us, (persistent_id, mi) # ms')
      | None \<Rightarrow> (us, (persistent_id, mi) # ms'))"

definition get_changes ::
  "(string \<Rightarrow> 'f) \<Rightarrow> (string \<Rightarrow> u8 list option) \<Rightarrow> mapped_module list \<Rightarrow> 'f module_tracker \<Rightarrow>
   ((tracker_error + mapped_module_identified list \<times> nat list) \<times> 'f module_tracker) option" where
  "get_changes fid files snapshot mt =
     (case track_modules fid files snapshot [] mt of
        None \<Rightarrow> None
      | Some (Inl e, mt) \<Rightarrow> Some (Inl e, mt)
      | Some (Inr seen, mt) \<Rightarrow>
          let (us, ms) = unmapped seen (modules_registry mt)
          in Some (Inr (lqueue mt, uqueue mt @ us), mt\<lparr>modules_registry := ms, lqueue := [], uqueue := []\<rparr>))"

text \<open>A module that was unloaded has a null mapping, which is dereferenced.\<close>

definition lock_mapping :: "nat \<Rightarrow> 'f module_tracker \<Rightarrow> (tracker_error + mapped_module_identified \<times> string) option" where
  "lock_mapping persistent_id mt =
     (case um_find (modules_registry mt) persistent_id of
        None \<Rightarrow> Some (Inl Invalid_Persistent_Id)
      | Some mi \<Rightarrow> (case mi_mapping mi of None \<Rightarrow> None | Some mmi \<Rightarrow> Some (Inr (mmi, mi_path mi))))"

definition get_metadata :: "(string \<Rightarrow> 'i) \<Rightarrow> nat \<Rightarrow> 'f module_tracker \<Rightarrow> 'i option" where
  "get_metadata load_image_info persistent_id mt =
     map_option (\<lambda>mi. load_image_info (mi_path mi)) (um_find (modules_registry mt) persistent_id)"

section \<open>A client\<close>

text \<open>
  A client keeps the modules it was told of: the loaded ones come in, the unloaded ones go. A failed
  call tells it nothing.
\<close>

definition client_update :: "mapped_module_identified list \<Rightarrow> nat list \<Rightarrow> mapped_module_identified list \<Rightarrow> mapped_module_identified list" where
  "client_update ls us c = filter (\<lambda>m. fst m \<notin> set us) (c @ ls)"

definition client_poll ::
  "(string \<Rightarrow> 'f) \<Rightarrow> (string \<Rightarrow> u8 list option) \<Rightarrow> mapped_module list \<Rightarrow>
   mapped_module_identified list \<times> 'f module_tracker \<Rightarrow> (mapped_module_identified list \<times> 'f module_tracker) option" where
  "client_poll fid files snapshot s =
     (case get_changes fid files snapshot (snd s) of
        None \<Rightarrow> None
      | Some (Inl e, mt) \<Rightarrow> Some (fst s, mt)
      | Some (Inr (ls, us), mt) \<Rightarrow> Some (client_update ls us (fst s), mt))"

type_synonym poll = "(string \<Rightarrow> u8 list option) \<times> mapped_module list"

fun client_polls ::
  "(string \<Rightarrow> 'f) \<Rightarrow> poll list \<Rightarrow> mapped_module_identified list \<times> 'f module_tracker \<Rightarrow>
   (mapped_module_identified list \<times> 'f module_tracker) option" where
  "client_polls fid [] s = Some s"
| "client_polls fid ((files, snapshot) # ps) s = Option.bind (client_poll fid files snapshot s) (client_polls fid ps)"

section \<open>The invariant\<close>

definition mapping_of :: "'f module_tracker \<Rightarrow> nat \<Rightarrow> mapped_module_identified option" where
  "mapping_of mt pid = Option.bind (um_find (modules_registry mt) pid) mi_mapping"

definition mapped :: "'f module_tracker \<Rightarrow> mapped_module_identified set" where
  "mapped mt = ran (mapping_of mt)"

definition files_inv :: "'f module_tracker \<Rightarrow> bool" where
  "files_inv mt \<longleftrightarrow> (\<forall>f pid. um_find (files_registry mt) f = Some pid \<longrightarrow> pid < next_persistent_id mt) \<and>
     (\<forall>f g pid. um_find (files_registry mt) f = Some pid \<longrightarrow> um_find (files_registry mt) g = Some pid \<longrightarrow> f = g)"

definition mappings_inv :: "(string \<Rightarrow> 'f) \<Rightarrow> 'f module_tracker \<Rightarrow> bool" where
  "mappings_inv fid mt \<longleftrightarrow> um_ok (modules_registry mt) \<and> uqueue mt = [] \<and>
     (\<forall>pid m. mapping_of mt pid = Some m \<longrightarrow> fst m < next_instance_id mt \<and> mx_persistent_id (snd m) = pid \<and>
        um_find (files_registry mt) (fid (mx_path (snd m))) = Some pid) \<and>
     inj_on fst (mapped mt)"

text \<open>
  Where the data come from, over the polls \<open>h\<close>: a hash is that of a content the file had in one of them, and
  path and base of a mapping are those of a module of one of them.
\<close>

definition read_in :: "(string \<Rightarrow> 'f) \<Rightarrow> poll set \<Rightarrow> 'f \<Rightarrow> u32 \<Rightarrow> bool" where
  "read_in fid h f hash \<longleftrightarrow> (\<exists>(files, snapshot)\<in>h. \<exists>mm\<in>set snapshot. \<exists>content.
     fid (mm_path mm) = f \<and> files (mm_path mm) = Some content \<and> hash = calculate_hash content)"

definition loaded_in :: "(string \<Rightarrow> 'f) \<Rightarrow> poll set \<Rightarrow> mapped_module_ex \<Rightarrow> bool" where
  "loaded_in fid h m \<longleftrightarrow> read_in fid h (fid (mx_path m)) (mx_hash m) \<and>
     (\<exists>(files, snapshot)\<in>h. \<lparr>mm_path = mx_path m, mm_base = mx_base m\<rparr> \<in> set snapshot)"

definition data_inv :: "(string \<Rightarrow> 'f) \<Rightarrow> poll set \<Rightarrow> 'f module_tracker \<Rightarrow> bool" where
  "data_inv fid h mt \<longleftrightarrow>
     (\<forall>pid mi. um_find (modules_registry mt) pid = Some mi \<longrightarrow>
        (\<exists>f. um_find (files_registry mt) f = Some pid \<and> read_in fid h f (mi_hash mi))) \<and>
     (\<forall>m\<in>mapped mt. loaded_in fid h (snd m))"

text \<open>What a later state keeps of an earlier one: the identifiers of files, and no instance identifier is given again.\<close>

definition later :: "'f module_tracker \<Rightarrow> 'f module_tracker \<Rightarrow> bool" where
  "later mt mt' \<longleftrightarrow> (\<forall>f pid. um_find (files_registry mt) f = Some pid \<longrightarrow> um_find (files_registry mt') f = Some pid) \<and>
     next_instance_id mt \<le> next_instance_id mt' \<and> (\<forall>m\<in>mapped mt'. fst m < next_instance_id mt \<longrightarrow> m \<in> mapped mt)"

lemma later_refl: "later mt mt"
  by (simp add: later_def)

lemma later_trans [trans]: "later a b \<Longrightarrow> later b c \<Longrightarrow> later a c"
  by (auto simp: later_def)

lemma read_in_mono: "read_in fid h f x \<Longrightarrow> h \<subseteq> h' \<Longrightarrow> read_in fid h' f x"
  unfolding read_in_def by blast

lemma data_inv_mono: "data_inv fid h mt \<Longrightarrow> h \<subseteq> h' \<Longrightarrow> data_inv fid h' mt"
  unfolding data_inv_def loaded_in_def by (meson read_in_mono subsetD)

lemma files_inv_find:
  "files_inv mt \<Longrightarrow> um_find (files_registry mt) f = Some pid \<Longrightarrow> um_find (files_registry mt) g = Some pid \<Longrightarrow> f = g"
  unfolding files_inv_def by blast

lemma init_inv: "files_inv module_tracker_init" "mappings_inv fid module_tracker_init" "mapped module_tracker_init = {}"
    "data_inv fid h module_tracker_init"
  by (simp_all add: files_inv_def mappings_inv_def data_inv_def module_tracker_init_def mapping_of_def [abs_def] mapped_def)

text \<open>Registering a path keeps what is known, and maps nothing.\<close>

lemma register_path_effect:
  assumes "register_path fid files path mt = (r, mt')" "files_inv mt" "mappings_inv fid mt"
  shows "files_inv mt'" "mappings_inv fid mt'" "mapped mt' = mapped mt" "lqueue mt' = lqueue mt"
    "mapping_of mt' = mapping_of mt"
    "um_find (files_registry mt) f = Some pid \<Longrightarrow> um_find (files_registry mt') f = Some pid"
    "r = Inr pid \<Longrightarrow> um_find (files_registry mt') (fid path) = Some pid"
proof -
  let ?F = "um_find (files_registry mt)"
  show g: "um_find (files_registry mt') f = Some pid" if "?F f = Some pid" for f pid
    using assms(1) that by (auto simp: register_path_def Let_def dict_simps split: option.splits)
  show "um_find (files_registry mt') (fid path) = Some pid" if "r = Inr pid"
    using assms(1) that by (auto simp: register_path_def Let_def dict_simps split: option.splits)
  show m: "mapping_of mt' = mapping_of mt"
    using assms(1) by (auto simp: register_path_def Let_def mapping_of_def dict_simps fun_eq_iff split: option.splits)
  then show mm: "mapped mt' = mapped mt" by (simp add: mapped_def)
  show "lqueue mt' = lqueue mt" using assms(1) by (auto simp: register_path_def Let_def split: option.splits)
  have n: "next_instance_id mt' = next_instance_id mt" "uqueue mt' = uqueue mt" "um_ok (modules_registry mt) \<Longrightarrow> um_ok (modules_registry mt')"
    using assms(1) by (auto simp: register_path_def Let_def dict_simps split: option.splits)
  show "mappings_inv fid mt'" using assms(3) m mm n g by (auto simp: mappings_inv_def)
  show "files_inv mt'"
  proof (cases "?F (fid path)")
    case None
    then have F: "um_find (files_registry mt') f = (if f = fid path then Some (next_persistent_id mt) else ?F f)"
      and "next_persistent_id mt' = Suc (next_persistent_id mt)" for f
      using assms(1) by (auto simp: register_path_def Let_def dict_simps split: option.splits)
    moreover have "?F f = Some pid \<Longrightarrow> pid < next_persistent_id mt" for f pid using assms(2) by (auto simp: files_inv_def)
    ultimately show ?thesis using assms(2) unfolding files_inv_def F
      by (auto split: if_splits dest: less_SucI)
  next
    case (Some pid)
    with assms(1,2) show ?thesis by (simp add: register_path_def)
  qed
qed

lemma register_path_data:
  assumes "register_path fid files (mm_path mm) mt = (r, mt')" "files_inv mt" "mappings_inv fid mt"
    and "data_inv fid h mt" "(files, snapshot) \<in> h" "mm \<in> set snapshot"
  shows "data_inv fid h mt'" "later mt mt'"
proof -
  note e = register_path_effect [OF assms(1-3)]
  have n: "next_instance_id mt' = next_instance_id mt" using assms(1) by (auto simp: register_path_def Let_def split: option.splits)
  then show "later mt mt'" using e(3,6) by (simp add: later_def)
  have old: "\<exists>f. um_find (files_registry mt') f = Some pid \<and> read_in fid h f (mi_hash mi)"
    if "um_find (modules_registry mt) pid = Some mi" for pid mi
    using that assms(4) e(6) unfolding data_inv_def by blast
  have "\<exists>f. um_find (files_registry mt') f = Some pid \<and> read_in fid h f (mi_hash mi)"
    if u: "um_find (modules_registry mt') pid = Some mi" "um_find (modules_registry mt) pid \<noteq> Some mi" for pid mi
  proof -
    obtain content where "r = Inr pid" "files (mm_path mm) = Some content" "mi_hash mi = calculate_hash content"
      using assms(1) u by (auto simp: register_path_def Let_def dict_simps split: option.splits if_splits)
    then show ?thesis using e(7) assms(5,6) unfolding read_in_def by blast
  qed
  with old show "data_inv fid h mt'" using assms(4) e(3) unfolding data_inv_def by metis
qed

text \<open>What the client knows, with what is queued for it, is what is mapped.\<close>

definition told :: "mapped_module_identified list \<Rightarrow> 'f module_tracker \<Rightarrow> bool" where
  "told c mt \<longleftrightarrow> set c \<union> set (lqueue mt) = mapped mt"

lemma ran_upd_fresh: "m a = None \<Longrightarrow> ran (m(a \<mapsto> b)) = insert b (ran m)"
  by (rule ran_map_upd)

lemma map_module_effect:
  assumes "mappings_inv fid mt" "um_find (modules_registry mt) pid = Some mi"
    and "um_find (files_registry mt) (fid (mm_path mm)) = Some pid"
  shows "mappings_inv fid (map_module pid mi mm mt)" "told c mt \<Longrightarrow> told c (map_module pid mi mm mt)"
    "mapping_of (map_module pid mi mm mt) pid \<noteq> None"
    "mapping_of mt q \<noteq> None \<Longrightarrow> mapping_of (map_module pid mi mm mt) q \<noteq> None"
    "files_registry (map_module pid mi mm mt) = files_registry mt"
    "next_persistent_id (map_module pid mi mm mt) = next_persistent_id mt"
proof -
  let ?mt = "map_module pid mi mm mt"
  show f: "files_registry ?mt = files_registry mt" "next_persistent_id ?mt = next_persistent_id mt"
    by (simp_all add: map_module_def Let_def split: option.splits)
  have all: "mappings_inv fid ?mt \<and> (told c mt \<longrightarrow> told c ?mt) \<and> mapping_of ?mt pid \<noteq> None \<and>
      (mapping_of mt q \<noteq> None \<longrightarrow> mapping_of ?mt q \<noteq> None)" for c q
  proof (cases "mi_mapping mi")
    case None
    then obtain new where new: "mapping_of ?mt = (mapping_of mt)(pid \<mapsto> new)" "lqueue ?mt = lqueue mt @ [new]"
      "fst new = next_instance_id mt" "mx_persistent_id (snd new) = pid" "mx_path (snd new) = mm_path mm"
      by (auto simp: map_module_def Let_def mapping_of_def dict_simps mapped_module_from_def fun_eq_iff)
    have none: "mapping_of mt pid = None" using assms(2) None by (simp add: mapping_of_def)
    have ran: "mapped ?mt = insert new (mapped mt)" by (simp add: mapped_def new ran_upd_fresh none)
    have "fst m < next_instance_id mt" if "m \<in> mapped mt" for m
      using that assms(1) by (cases m) (auto simp: mapped_def ran_def mappings_inv_def)
    then have "fst new \<notin> fst ` mapped mt" using new(3) by fastforce
    then have "inj_on fst (mapped ?mt)" using assms(1) by (auto simp: ran mappings_inv_def)
    moreover have "um_ok (modules_registry ?mt)" "uqueue ?mt = []" "next_instance_id ?mt = Suc (next_instance_id mt)"
      using assms(1) None by (simp_all add: map_module_def Let_def mappings_inv_def dict_simps)
    ultimately have "mappings_inv fid ?mt"
      using assms(1,3) new(3-5) f by (auto simp: mappings_inv_def new(1) less_Suc_eq)
    then show ?thesis by (simp add: new(1,2) told_def ran)
  next
    case (Some m)
    with assms show ?thesis by (simp add: map_module_def mapping_of_def)
  qed
  from all show "mappings_inv fid ?mt" "told c mt \<Longrightarrow> told c ?mt" "mapping_of ?mt pid \<noteq> None"
    "mapping_of mt q \<noteq> None \<Longrightarrow> mapping_of ?mt q \<noteq> None" by blast+
qed

text \<open>A module mapped before keeps its mapping; a new mapping has the path and base of the module, the hash of its file, and a new number.\<close>

lemma map_module_data:
  assumes "mappings_inv fid mt" "um_find (modules_registry mt) pid = Some mi" "files_inv mt"
    and "um_find (files_registry mt) (fid (mm_path mm)) = Some pid"
    and "data_inv fid h mt" "(files, snapshot) \<in> h" "mm \<in> set snapshot"
  defines "mt' \<equiv> map_module pid mi mm mt"
  shows "data_inv fid h mt'" "later mt mt'" "mapping_of mt q = Some m \<Longrightarrow> mapping_of mt' q = Some m"
    "mapping_of mt' q = Some m \<Longrightarrow> mapping_of mt q = None \<Longrightarrow>
       q = pid \<and> mx_path (snd m) = mm_path mm \<and> mx_base (snd m) = mm_base mm"
proof -
  have all: "data_inv fid h mt' \<and> later mt mt' \<and> (\<forall>q m. mapping_of mt q = Some m \<longrightarrow> mapping_of mt' q = Some m) \<and>
    (\<forall>q m. mapping_of mt' q = Some m \<longrightarrow> mapping_of mt q = None \<longrightarrow>
       q = pid \<and> mx_path (snd m) = mm_path mm \<and> mx_base (snd m) = mm_base mm)"
  proof (cases "mi_mapping mi")
    case None
    obtain new where new: "mapping_of mt' = (mapping_of mt)(pid \<mapsto> new)" "fst new = next_instance_id mt"
      "mx_path (snd new) = mm_path mm" "mx_base (snd new) = mm_base mm" "mx_hash (snd new) = mi_hash mi"
      using None by (auto simp: mt'_def map_module_def Let_def mapping_of_def dict_simps mapped_module_from_def fun_eq_iff)
    have none: "mapping_of mt pid = None" using assms(2) None by (simp add: mapping_of_def)
    have ran: "mapped mt' = insert new (mapped mt)" by (simp add: mapped_def new(1) ran_upd_fresh none)
    have reg: "um_find (modules_registry mt') q = (if q = pid then Some (mi\<lparr>mi_mapping := Some new\<rparr>) else um_find (modules_registry mt) q)"
      "files_registry mt' = files_registry mt" "next_instance_id mt' = Suc (next_instance_id mt)" for q
      using None fun_cong [OF new(1), of pid] by (auto simp: mt'_def map_module_def Let_def dict_simps mapping_of_def)
    obtain f where "um_find (files_registry mt) f = Some pid" "read_in fid h f (mi_hash mi)"
      using assms(2,5) unfolding data_inv_def by blast
    then have rd: "read_in fid h (fid (mm_path mm)) (mi_hash mi)" using files_inv_find [OF assms(3,4)] by metis
    moreover have "\<lparr>mm_path = mm_path mm, mm_base = mm_base mm\<rparr> \<in> set snapshot" using assms(7) by (metis mapped_module.surjective old.unit.exhaust)
    ultimately have "loaded_in fid h (snd new)" using assms(6) unfolding loaded_in_def new(3-5) by blast
    then have "data_inv fid h mt'" using assms(2,5) reg unfolding data_inv_def ran by auto
    moreover have "later mt mt'" using new(2) by (auto simp: later_def ran reg)
    ultimately show ?thesis using new none by (auto split: if_splits)
  next
    case (Some m)
    then show ?thesis using assms(5) by (simp add: mt'_def map_module_def later_refl)
  qed
  from all show "data_inv fid h mt'" "later mt mt'" "mapping_of mt q = Some m \<Longrightarrow> mapping_of mt' q = Some m"
    "mapping_of mt' q = Some m \<Longrightarrow> mapping_of mt q = None \<Longrightarrow> q = pid \<and> mx_path (snd m) = mm_path mm \<and> mx_base (snd m) = mm_base mm"
    by blast+
qed

lemma told_register: "told c mt \<Longrightarrow> mapped mt' = mapped mt \<Longrightarrow> lqueue mt' = lqueue mt \<Longrightarrow> told c mt'"
  by (simp add: told_def)

text \<open>
  The enumeration, failed or not, keeps the invariants and the mappings; a completed one has seen exactly the
  identifiers of the files of the snapshot, each of them mapped, and what is newly mapped is the first module of
  its file in the snapshot.
\<close>

definition tracked :: "(string \<Rightarrow> 'f) \<Rightarrow> poll set \<Rightarrow> mapped_module_identified list \<Rightarrow> 'f module_tracker \<Rightarrow> bool" where
  "tracked fid h c mt \<longleftrightarrow> files_inv mt \<and> mappings_inv fid mt \<and> told c mt \<and> data_inv fid h mt"

definition seen_files :: "(string \<Rightarrow> 'f) \<Rightarrow> 'f set \<Rightarrow> nat list \<Rightarrow> 'f module_tracker \<Rightarrow> bool" where
  "seen_files fid fs seen mt \<longleftrightarrow> (\<forall>pid\<in>set seen. mapping_of mt pid \<noteq> None) \<and>
     Some ` set seen = um_find (files_registry mt) ` fs"

definition module_of :: "(string \<Rightarrow> 'f) \<Rightarrow> mapped_module list \<Rightarrow> 'f \<Rightarrow> mapped_module option" where
  "module_of fid mms f = find (\<lambda>mm. fid (mm_path mm) = f) mms"

definition maps_first :: "(string \<Rightarrow> 'f) \<Rightarrow> mapped_module list \<Rightarrow> 'f module_tracker \<Rightarrow> 'f module_tracker \<Rightarrow> bool" where
  "maps_first fid mms mt mt' \<longleftrightarrow>
     (\<forall>pid m. mapping_of mt pid = Some m \<longrightarrow> mapping_of mt' pid = Some m) \<and>
     (\<forall>pid m. mapping_of mt' pid = Some m \<longrightarrow> mapping_of mt pid = None \<longrightarrow>
        module_of fid mms (fid (mx_path (snd m))) = Some \<lparr>mm_path = mx_path (snd m), mm_base = mx_base (snd m)\<rparr>)"

lemma maps_first_step:
  assumes "mapping_of mt = mapping_of mt1" "maps_first fid mms mt2 mt'" "mappings_inv fid mt'" "files_inv mt'"
    and "um_find (files_registry mt') (fid (mm_path mm)) = Some pid" "mapping_of mt2 pid \<noteq> None"
    and "\<And>q m. mapping_of mt1 q = Some m \<Longrightarrow> mapping_of mt2 q = Some m"
    and "\<And>q m. mapping_of mt2 q = Some m \<Longrightarrow> mapping_of mt1 q = None \<Longrightarrow> q = pid \<and> mx_path (snd m) = mm_path mm \<and> mx_base (snd m) = mm_base mm"
  shows "maps_first fid (mm # mms) mt mt'"
  unfolding maps_first_def
proof (intro conjI allI impI)
  fix q m
  { assume "mapping_of mt q = Some m"
    with assms(1,7) have "mapping_of mt2 q = Some m" by metis
    with assms(2) show "mapping_of mt' q = Some m" unfolding maps_first_def by blast }
  assume m: "mapping_of mt' q = Some m" "mapping_of mt q = None"
  show "module_of fid (mm # mms) (fid (mx_path (snd m))) = Some \<lparr>mm_path = mx_path (snd m), mm_base = mx_base (snd m)\<rparr>"
  proof (cases "mapping_of mt2 q")
    case None
    have "um_find (files_registry mt') (fid (mx_path (snd m))) = Some q" using assms(3) m(1) by (cases m) (simp add: mappings_inv_def)
    with assms(5,6) None have "fid (mm_path mm) \<noteq> fid (mx_path (snd m))" by auto
    moreover have "module_of fid mms (fid (mx_path (snd m))) = Some \<lparr>mm_path = mx_path (snd m), mm_base = mx_base (snd m)\<rparr>"
      using None m(1) assms(2) unfolding maps_first_def by blast
    ultimately show ?thesis by (simp add: module_of_def)
  next
    case (Some m2)
    moreover have "mapping_of mt' q = Some m2" using Some assms(2) unfolding maps_first_def by blast
    ultimately have "mapping_of mt2 q = Some m" "mapping_of mt1 q = None" using m assms(1) by simp_all
    from assms(8) [OF this] have "mx_path (snd m) = mm_path mm" "mx_base (snd m) = mm_base mm" by blast+
    then show ?thesis by (cases mm) (simp add: module_of_def)
  qed
qed

lemma track_modules_effect:
  assumes "track_modules fid files mms seen mt = Some (r, mt')" "tracked fid h c mt" "seen_files fid fs seen mt"
    and "(files, snapshot) \<in> h" "set mms \<subseteq> set snapshot"
  shows "tracked fid h c mt' \<and> later mt mt' \<and>
    (\<forall>seen'. r = Inr seen' \<longrightarrow> seen_files fid (fs \<union> (\<lambda>mm. fid (mm_path mm)) ` set mms) seen' mt' \<and> maps_first fid mms mt mt')"
  using assms(1,2,3,5)
proof (induction mms arbitrary: seen mt fs)
  case (Cons mm mms)
  obtain r1 mt1 where r1: "register_path fid files (mm_path mm) mt = (r1, mt1)" by fastforce
  from Cons.prems(2) have inv: "files_inv mt" "mappings_inv fid mt" "told c mt" "data_inv fid h mt" by (auto simp: tracked_def)
  have mm: "mm \<in> set snapshot" using Cons.prems(4) by simp
  note e = register_path_effect [OF r1 inv(1,2)]
  note d = register_path_data [OF r1 inv(1,2,4) assms(4) mm]
  have t1: "tracked fid h c mt1" using e(1-4) inv(3) d(1) by (simp add: tracked_def told_register)
  show ?case
  proof (cases r1)
    case (Inr pid)
    show ?thesis
    proof (cases "um_find (modules_registry mt1) pid")
      case (Some mi)
      let ?mt = "map_module pid mi mm mt1"
      note f = map_module_effect [OF e(2) Some e(7) [OF Inr]]
      note g = map_module_data [OF e(2) Some e(1) e(7) [OF Inr] d(1) assms(4) mm]
      have "um_find (files_registry mt1) x = um_find (files_registry mt) x" if "x \<in> fs" for x
      proof -
        from Cons.prems(3) that obtain pid where "um_find (files_registry mt) x = Some pid" unfolding seen_files_def by (metis imageE imageI)
        with e(6) show ?thesis by simp
      qed
      then have "seen_files fid (insert (fid (mm_path mm)) fs) (pid # seen) ?mt"
        using Cons.prems(3) f(3,4,5) e(5) e(7) [OF Inr] by (simp add: seen_files_def)
      moreover have "tracked fid h c ?mt" using t1 e(1) f(1,2,5,6) g(1) by (simp add: tracked_def files_inv_def)
      moreover have "track_modules fid files mms (pid # seen) ?mt = Some (r, mt')" using Cons.prems(1) r1 Inr Some by simp
      ultimately have ih: "tracked fid h c mt'" "later ?mt mt'"
        "\<And>seen'. r = Inr seen' \<Longrightarrow> seen_files fid (insert (fid (mm_path mm)) fs \<union> (\<lambda>mm. fid (mm_path mm)) ` set mms) seen' mt' \<and> maps_first fid mms ?mt mt'"
        using Cons.IH [of "pid # seen" ?mt "insert (fid (mm_path mm)) fs"] Cons.prems(4) by auto
      have "um_find (files_registry mt') (fid (mm_path mm)) = Some pid" using ih(2) e(7) [OF Inr] f(5) by (simp add: later_def)
      then have "maps_first fid (mm # mms) mt mt'" if "r = Inr seen'" for seen'
        using ih(1,3) that f(3) g(3,4) e(5) by (intro maps_first_step [of mt mt1 fid mms ?mt]) (auto simp: tracked_def)
      moreover have "later mt mt'" using d(2) g(2) ih(2) by (blast intro: later_trans)
      ultimately show ?thesis using ih by simp
    qed (use Cons.prems(1) r1 Inr t1 d in auto)
  qed (use Cons.prems(1) r1 t1 d in auto)
qed (auto simp: maps_first_def later_refl)

text \<open>The sweep drops the mappings not seen and reports their instances.\<close>

lemma unmapped_effect:
  assumes "unmapped seen ms = (us, ms')" "um_ok ms"
  shows "map fst ms' = map fst ms \<and>
    (\<forall>pid. Option.bind (um_find ms' pid) mi_mapping = (if pid \<in> set seen then Option.bind (um_find ms pid) mi_mapping else None)) \<and>
    set us = {fst m |m pid. pid \<notin> set seen \<and> Option.bind (um_find ms pid) mi_mapping = Some m} \<and>
    (\<forall>pid mi. um_find ms' pid = Some mi \<longrightarrow> (\<exists>mi1. um_find ms pid = Some mi1 \<and> mi_hash mi1 = mi_hash mi))"
  using assms
proof (induction ms arbitrary: us ms')
  case (Cons x ms)
  obtain pid0 mi where x: "x = (pid0, mi)" by fastforce
  obtain us1 ms1 where r: "unmapped seen ms = (us1, ms1)" by fastforce
  from Cons.prems have ok: "um_ok ms" "um_find ms pid0 = None" by (auto simp: um_ok_def x map_of_eq_None_iff)
  note ih = Cons.IH [OF r ok(1)]
  have 1: "map fst ms' = map fst (x # ms)" using ih Cons.prems(1) by (auto simp: x r split: option.splits if_splits)
  have 2: "Option.bind (um_find ms' pid) mi_mapping = (if pid \<in> set seen then Option.bind (um_find (x # ms) pid) mi_mapping else None)" for pid
  proof -
    from ih have "Option.bind (um_find ms1 pid) mi_mapping = (if pid \<in> set seen then Option.bind (um_find ms pid) mi_mapping else None)" by blast
    then show ?thesis using Cons.prems(1) by (auto simp: x r simp del: bind_eq_None_conv split: option.splits if_splits)
  qed
  have "{fst m |m pid. pid \<notin> set seen \<and> Option.bind (um_find (x # ms) pid) mi_mapping = Some m} =
    {fst m |m pid. pid \<notin> set seen \<and> Option.bind (um_find ms pid) mi_mapping = Some m} \<union>
    {fst m |m. pid0 \<notin> set seen \<and> mi_mapping mi = Some m}" using ok(2) by (force simp: x)
  moreover have "set us = set us1 \<union> {fst m |m. pid0 \<notin> set seen \<and> mi_mapping mi = Some m}"
    using Cons.prems(1) by (auto simp: x r split: option.splits if_splits)
  moreover have "\<exists>mi1. um_find (x # ms) pid = Some mi1 \<and> mi_hash mi1 = mi_hash mi'" if "um_find ms' pid = Some mi'" for pid mi'
    using that ih Cons.prems(1) by (auto simp: x r split: option.splits if_splits)
  ultimately show ?case using ih 1 2 by simp
qed simp

lemma get_changes_failed:
  assumes "get_changes fid files snapshot mt = Some (Inl e, mt')" "tracked fid h c mt" "(files, snapshot) \<in> h"
  shows "tracked fid h c mt'" "later mt mt'"
proof -
  obtain r mt1 where r: "track_modules fid files snapshot [] mt = Some (r, mt1)"
    using assms(1) by (auto simp: get_changes_def split: option.splits)
  have "seen_files fid {} [] mt" by (simp add: seen_files_def)
  from track_modules_effect [OF r assms(2) this assms(3)] assms(1) r show "tracked fid h c mt'" "later mt mt'"
    by (cases r; auto simp: get_changes_def Let_def split: prod.splits)+
qed

definition files_of :: "(string \<Rightarrow> 'f) \<Rightarrow> mapped_module_identified list \<Rightarrow> 'f list" where
  "files_of fid c = map (\<lambda>m. fid (mx_path (snd m))) c"

lemma get_changes_effect:
  assumes "get_changes fid files snapshot mt = Some (Inr (ls, us), mt')" "tracked fid h c mt" "(files, snapshot) \<in> h"
  shows "tracked fid h (client_update ls us c) mt'" "lqueue mt' = []" "later mt mt'"
    "set (files_of fid (client_update ls us c)) = (\<lambda>mm. fid (mm_path mm)) ` set snapshot"
    "m \<in> mapped mt \<Longrightarrow> fid (mx_path (snd m)) \<in> (\<lambda>mm. fid (mm_path mm)) ` set snapshot \<Longrightarrow> m \<in> mapped mt'"
    "m \<in> mapped mt' \<Longrightarrow> m \<notin> mapped mt \<Longrightarrow>
       module_of fid snapshot (fid (mx_path (snd m))) = Some \<lparr>mm_path = mx_path (snd m), mm_base = mx_base (snd m)\<rparr>"
proof -
  obtain r mt1 where r: "track_modules fid files snapshot [] mt = Some (r, mt1)"
    using assms(1) by (auto simp: get_changes_def split: option.splits)
  then obtain seen where seen: "r = Inr seen" using assms(1) by (cases r) (auto simp: get_changes_def)
  have "seen_files fid {} [] mt" by (simp add: seen_files_def)
  from track_modules_effect [OF r assms(2) this assms(3)] seen
  have t: "files_inv mt1" "mappings_inv fid mt1" "told c mt1" and t1: "data_inv fid h mt1" "later mt mt1" "maps_first fid snapshot mt mt1"
    and sf: "seen_files fid ((\<lambda>mm. fid (mm_path mm)) ` set snapshot) seen mt1"
    by (simp_all add: tracked_def)
  obtain us' ms where u: "unmapped seen (modules_registry mt1) = (us', ms)" by fastforce
  have mt': "mt' = mt1\<lparr>modules_registry := ms, lqueue := [], uqueue := []\<rparr>" "ls = lqueue mt1" "us = us'"
    using assms(1) r seen u t(2) by (simp_all add: get_changes_def mappings_inv_def)
  have ok: "um_ok (modules_registry mt1)" using t(2) by (simp add: mappings_inv_def)
  from unmapped_effect [OF u ok] have e: "map fst ms = map fst (modules_registry mt1)"
    "\<And>pid. Option.bind (um_find ms pid) mi_mapping = (if pid \<in> set seen then mapping_of mt1 pid else None)"
    "set us' = {fst m |m pid. pid \<notin> set seen \<and> mapping_of mt1 pid = Some m}"
    "\<And>pid mi. um_find ms pid = Some mi \<Longrightarrow> \<exists>mi1. um_find (modules_registry mt1) pid = Some mi1 \<and> mi_hash mi1 = mi_hash mi"
    by (simp_all add: mapping_of_def)
  have m': "mapping_of mt' pid = (if pid \<in> set seen then mapping_of mt1 pid else None)" for pid
    using e(2) by (simp add: mapping_of_def mt')
  have pid: "mx_persistent_id (snd m) = pid" if "mapping_of mt1 pid = Some m" for m pid
    using that t(2) by (cases m) (simp add: mappings_inv_def)
  have mapped': "mapped mt' = {m \<in> mapped mt1. mx_persistent_id (snd m) \<in> set seen}"
    using pid by (auto simp: mapped_def ran_def m' split: if_splits)
  have us: "set us = fst ` {m \<in> mapped mt1. mx_persistent_id (snd m) \<notin> set seen}"
    using pid by (force simp: mt'(3) e(3) mapped_def ran_def)
  have inj: "inj_on fst (mapped mt1)" using t(2) by (simp add: mappings_inv_def)
  have c': "set (client_update ls us c) = mapped mt'"
  proof -
    have "set (client_update ls us c) = {m \<in> mapped mt1. fst m \<notin> set us}"
      using t(3) by (auto simp: client_update_def told_def mt'(2))
    also have "\<dots> = mapped mt'" using inj by (auto simp: us mapped' inj_on_def)
    finally show ?thesis .
  qed
  show "lqueue mt' = []" by (simp add: mt'(1))
  have "inj_on fst (mapped mt')" using inj by (rule inj_on_subset) (auto simp: mapped')
  then have "mappings_inv fid mt'" using t(2) e(1) by (simp add: mappings_inv_def m' um_ok_def) (simp add: mt'(1))
  moreover have "files_inv mt'" using t(1) by (simp add: mt'(1) files_inv_def)
  moreover have "data_inv fid h mt'" unfolding data_inv_def
  proof (intro conjI allI impI ballI)
    fix q mi assume "um_find (modules_registry mt') q = Some mi"
    with e(4) obtain mi1 where "um_find (modules_registry mt1) q = Some mi1" "mi_hash mi1 = mi_hash mi" by (auto simp: mt'(1))
    with t1(1) show "\<exists>f. um_find (files_registry mt') f = Some q \<and> read_in fid h f (mi_hash mi)"
      unfolding data_inv_def mt'(1) by fastforce
  qed (use t1(1) in \<open>auto simp: mapped' data_inv_def\<close>)
  ultimately show "tracked fid h (client_update ls us c) mt'" using c' by (simp add: tracked_def told_def) (simp add: mt'(1))
  have "later mt1 mt'" by (auto simp: later_def mapped') (simp_all add: mt'(1))
  with t1(2) show "later mt mt'" by (rule later_trans)
  have F: "um_find (files_registry mt1) (fid (mx_path (snd m))) = Some (mx_persistent_id (snd m))" if "m \<in> mapped mt1" for m
    using that t(2) by (cases m) (auto simp: mapped_def ran_def mappings_inv_def)
  have "(\<lambda>m. fid (mx_path (snd m))) ` mapped mt' = (\<lambda>mm. fid (mm_path mm)) ` set snapshot" (is "?l = ?r")
  proof (intro set_eqI iffI)
    fix f assume "f \<in> ?l"
    then obtain m where m: "m \<in> mapped mt1" "mx_persistent_id (snd m) \<in> set seen" "f = fid (mx_path (snd m))"
      by (auto simp: mapped')
    then have "Some (mx_persistent_id (snd m)) \<in> Some ` set seen" by blast
    then have "Some (mx_persistent_id (snd m)) \<in> um_find (files_registry mt1) ` ?r" using sf by (simp add: seen_files_def)
    then obtain g where "g \<in> ?r" "um_find (files_registry mt1) g = Some (mx_persistent_id (snd m))" by (metis imageE)
    with files_inv_find [OF t(1) F [OF m(1)], of g] m(3) show "f \<in> ?r" by simp
  next
    fix f assume "f \<in> ?r"
    then have "um_find (files_registry mt1) f \<in> Some ` set seen" using sf unfolding seen_files_def by simp
    then obtain pid where p: "um_find (files_registry mt1) f = Some pid" "pid \<in> set seen" by auto
    then obtain m where m: "mapping_of mt1 pid = Some m" using sf by (auto simp: seen_files_def)
    then have "m \<in> mapped mt1" by (auto simp: mapped_def ran_def)
    with F [OF this] pid [OF m] p files_inv_find [OF t(1) p(1)] show "f \<in> ?l" by (auto simp: mapped')
  qed
  then show "set (files_of fid (client_update ls us c)) = ?r" by (simp add: files_of_def c')
  show "m \<in> mapped mt'" if k: "m \<in> mapped mt" "fid (mx_path (snd m)) \<in> ?r"
  proof -
    have m1: "m \<in> mapped mt1" using k(1) t1(3) unfolding mapped_def ran_def maps_first_def by blast
    from k(2) sf have "um_find (files_registry mt1) (fid (mx_path (snd m))) \<in> Some ` set seen" unfolding seen_files_def by simp
    with F [OF m1] m1 show ?thesis by (auto simp: mapped')
  qed
  show "module_of fid snapshot (fid (mx_path (snd m))) = Some \<lparr>mm_path = mx_path (snd m), mm_base = mx_base (snd m)\<rparr>"
    if k: "m \<in> mapped mt'" "m \<notin> mapped mt"
  proof -
    from k(1) have "m \<in> mapped mt1" by (simp add: mapped')
    then obtain q where q: "mapping_of mt1 q = Some m" by (auto simp: mapped_def ran_def)
    have "mapping_of mt q = None"
    proof (rule ccontr)
      assume "mapping_of mt q \<noteq> None"
      then obtain m0 where m0: "mapping_of mt q = Some m0" by auto
      with t1(3) q have "m0 = m" unfolding maps_first_def by fastforce
      with m0 k(2) show False by (auto simp: mapped_def ran_def)
    qed
    with q t1(3) show ?thesis unfolding maps_first_def by blast
  qed
qed

lemma client_poll_tracked:
  assumes "client_poll fid files snapshot s = Some s'" "tracked fid h (fst s) (snd s)" "(files, snapshot) \<in> h"
  shows "tracked fid h (fst s') (snd s') \<and> later (snd s) (snd s')"
proof -
  obtain r mt' where r: "get_changes fid files snapshot (snd s) = Some (r, mt')"
    using assms(1) by (auto simp: client_poll_def split: option.splits)
  show ?thesis
  proof (cases r)
    case (Inl e)
    with get_changes_failed [of fid files snapshot "snd s" e mt'] assms r show ?thesis by (auto simp: client_poll_def)
  next
    case (Inr lu)
    with get_changes_effect(1,3) [of fid files snapshot "snd s" "fst lu" "snd lu" mt'] assms r show ?thesis
      by (cases lu) (auto simp: client_poll_def)
  qed
qed

lemma client_polls_tracked:
  "client_polls fid ps s = Some s' \<Longrightarrow> tracked fid h (fst s) (snd s) \<Longrightarrow> set ps \<subseteq> h \<Longrightarrow>
     tracked fid h (fst s') (snd s') \<and> later (snd s) (snd s')"
proof (induction ps arbitrary: s)
  case (Cons p ps)
  obtain files snapshot where p: "p = (files, snapshot)" by fastforce
  from Cons.prems(1) obtain s1 where s1: "client_poll fid files snapshot s = Some s1" "client_polls fid ps s1 = Some s'"
    by (auto simp: p bind_eq_Some_conv)
  with client_poll_tracked [OF s1(1) Cons.prems(2)] Cons.IH [OF s1(2)] Cons.prems(3) show ?case by (auto simp: p intro: later_trans)
qed (simp add: later_refl)

lemma client_polls_append: "client_polls fid (ps @ qs) s = Option.bind (client_polls fid ps s) (client_polls fid qs)"
  by (induction fid ps s rule: client_polls.induct) (auto split: Option.bind_splits)

lemma tracked_start: "tracked fid h [] module_tracker_init"
  by (simp add: tracked_def init_inv told_def) (simp add: module_tracker_init_def)

text \<open>Identifiers mean the same to two clients: an instance is one mapping, a persistent identifier one file.\<close>

definition identities_agree :: "(string \<Rightarrow> 'f) \<Rightarrow> mapped_module_identified list \<Rightarrow> mapped_module_identified list \<Rightarrow> bool" where
  "identities_agree fid c c' \<longleftrightarrow> (\<forall>m\<in>set c. \<forall>n\<in>set c'. (fst m = fst n \<longrightarrow> m = n) \<and>
     (mx_persistent_id (snd m) = mx_persistent_id (snd n) \<longleftrightarrow> fid (mx_path (snd m)) = fid (mx_path (snd n))))"

lemma tracked_identities:
  assumes "tracked fid h c mt" "tracked fid h' c' mt'" "later mt mt'"
  shows "identities_agree fid c c'"
  unfolding identities_agree_def
proof (intro ballI)
  have reg: "um_find (files_registry mt) (fid (mx_path (snd m))) = Some (mx_persistent_id (snd m)) \<and> fst m < next_instance_id mt"
    if "m \<in> mapped mt" "mappings_inv fid mt" for m and mt :: "'a module_tracker"
    using that by (cases m) (auto simp: mapped_def ran_def mappings_inv_def)
  fix m n assume mn: "m \<in> set c" "n \<in> set c'"
  have t: "mappings_inv fid mt" "mappings_inv fid mt'" "files_inv mt'" "m \<in> mapped mt" "n \<in> mapped mt'"
    using assms(1,2) mn by (auto simp: tracked_def told_def)
  have f: "um_find (files_registry mt') (fid (mx_path (snd m))) = Some (mx_persistent_id (snd m))"
    using assms(3) reg [OF t(4,1)] by (simp add: later_def)
  have "m = n" if "fst m = fst n"
  proof -
    have "n \<in> mapped mt" using that reg [OF t(4,1)] t(5) assms(3) by (simp add: later_def)
    with that t(1,4) show ?thesis by (auto simp: mappings_inv_def inj_on_def)
  qed
  moreover have "mx_persistent_id (snd m) = mx_persistent_id (snd n) \<longleftrightarrow> fid (mx_path (snd m)) = fid (mx_path (snd n))"
    using f reg [OF t(5,2)] files_inv_find [OF t(3)] by (metis option.inject)
  ultimately show "(fst m = fst n \<longrightarrow> m = n) \<and>
    (mx_persistent_id (snd m) = mx_persistent_id (snd n) \<longleftrightarrow> fid (mx_path (snd m)) = fid (mx_path (snd n)))" by blast
qed

section \<open>Properties\<close>

lemma exact_bases:
  assumes "set (files_of fid c') = (\<lambda>mm. fid (mm_path mm)) ` set snapshot"
    and "\<forall>m\<in>set c' - known. module_of fid snapshot (fid (mx_path (snd m))) = Some \<lparr>mm_path = mx_path (snd m), mm_base = mx_base (snd m)\<rparr>"
    and "\<forall>mm\<in>set snapshot. (\<forall>m\<in>known. fid (mx_path (snd m)) = fid (mm_path mm) \<longrightarrow> mx_base (snd m) = mm_base mm) \<and>
        (\<forall>mm'\<in>set snapshot. fid (mm_path mm') = fid (mm_path mm) \<longrightarrow> mm_base mm' = mm_base mm)"
  shows "(\<lambda>m. (fid (mx_path (snd m)), mx_base (snd m))) ` set c' = (\<lambda>mm. (fid (mm_path mm), mm_base mm)) ` set snapshot"
proof -
  have base: "mx_base (snd m) = mm_base mm" if m: "m \<in> set c'" "mm \<in> set snapshot" "fid (mm_path mm) = fid (mx_path (snd m))" for m mm
  proof (cases "m \<in> known")
    case False
    with m(1) assms(2) have "module_of fid snapshot (fid (mx_path (snd m))) = Some \<lparr>mm_path = mx_path (snd m), mm_base = mx_base (snd m)\<rparr>" by blast
    then have "\<lparr>mm_path = mx_path (snd m), mm_base = mx_base (snd m)\<rparr> \<in> set snapshot" unfolding module_of_def find_Some_iff by (metis nth_mem)
    from bspec [OF conjunct2 [OF bspec [OF assms(3) m(2)]] this] m(3) show ?thesis by simp
  next
    case True
    from bspec [OF conjunct1 [OF bspec [OF assms(3) m(2)]] True] m(3) show ?thesis by simp
  qed
  have f: "(\<lambda>m. fid (mx_path (snd m))) ` set c' = (\<lambda>mm. fid (mm_path mm)) ` set snapshot" using assms(1) by (simp add: files_of_def)
  show ?thesis
  proof (intro set_eqI iffI)
    fix x assume "x \<in> (\<lambda>m. (fid (mx_path (snd m)), mx_base (snd m))) ` set c'"
    then obtain m where m: "m \<in> set c'" "x = (fid (mx_path (snd m)), mx_base (snd m))" by blast
    with f obtain mm where "mm \<in> set snapshot" "fid (mm_path mm) = fid (mx_path (snd m))" by (metis (no_types, lifting) imageE imageI)
    with m base [of m mm] show "x \<in> (\<lambda>mm. (fid (mm_path mm), mm_base mm)) ` set snapshot" by force
  next
    fix x assume "x \<in> (\<lambda>mm. (fid (mm_path mm), mm_base mm)) ` set snapshot"
    then obtain mm where mm: "mm \<in> set snapshot" "x = (fid (mm_path mm), mm_base mm)" by blast
    with f obtain m where "m \<in> set c'" "fid (mm_path mm) = fid (mx_path (snd m))" by (metis (no_types, lifting) imageE imageI)
    with mm base [of m mm] show "x \<in> (\<lambda>m. (fid (mx_path (snd m)), mx_base (snd m))) ` set c'" by force
  qed
qed

text \<open>
  C33. A client that follows the reported changes knows what is loaded. Whatever happened in earlier
  polls - modules loaded, unloaded, reloaded, polls that failed half way because an image could not be
  opened (a later poll that meets such an image again is undefined behaviour and is not covered) - after a
  successful poll:
  the files of the modules it knows are exactly those of the process, one instance for each;
  a module known already, to the client or from a failed poll, and still there is kept with all its data;
  any other module it knows has the path and the base of the first module of its file in this enumeration;
  unless a module moved between two enumerations without being missed, the files and bases it knows are exactly
  those of the process;
  each hash is that of a content its file had in one of the polls, and each path and base that of a module of one;
  and identifiers are consistent with each other and with what the client knew at any earlier time: an
  instance identifier is never given to another mapping, and a persistent identifier means one file.
\<close>

theorem client_follows_process:
  assumes "client_polls fid ps ([], module_tracker_init) = Some (c, mt)"
    and "get_changes fid files snapshot mt = Some (Inr (ls, us), mt')"
  defines "c' \<equiv> client_update ls us c" and "known \<equiv> set c \<union> set (lqueue mt)" and "here \<equiv> (\<lambda>mm. fid (mm_path mm)) ` set snapshot"
  shows "set (files_of fid c') = here \<and> inj_on (\<lambda>m. fid (mx_path (snd m))) (set c') \<and>
    (\<forall>m\<in>known. fid (mx_path (snd m)) \<in> here \<longrightarrow> m \<in> set c') \<and>
    (\<forall>m\<in>set c' - known. module_of fid snapshot (fid (mx_path (snd m))) = Some \<lparr>mm_path = mx_path (snd m), mm_base = mx_base (snd m)\<rparr>) \<and>
    ((\<forall>mm\<in>set snapshot. (\<forall>m\<in>known. fid (mx_path (snd m)) = fid (mm_path mm) \<longrightarrow> mx_base (snd m) = mm_base mm) \<and>
        (\<forall>mm'\<in>set snapshot. fid (mm_path mm') = fid (mm_path mm) \<longrightarrow> mm_base mm' = mm_base mm)) \<longrightarrow>
      (\<lambda>m. (fid (mx_path (snd m)), mx_base (snd m))) ` set c' = (\<lambda>mm. (fid (mm_path mm), mm_base mm)) ` set snapshot) \<and>
    (\<forall>m\<in>set c'. loaded_in fid (set (ps @ [(files, snapshot)])) (snd m)) \<and>
    identities_agree fid c' c' \<and>
    (\<forall>ps1 ps2 c1 mt1. ps = ps1 @ ps2 \<longrightarrow> client_polls fid ps1 ([], module_tracker_init) = Some (c1, mt1) \<longrightarrow> identities_agree fid c1 c')"
proof -
  let ?h = "set (ps @ [(files, snapshot)])"
  have t: "tracked fid ?h c mt" using client_polls_tracked [OF assms(1), of ?h] tracked_start by auto
  have p: "(files, snapshot) \<in> ?h" by simp
  note e = get_changes_effect [OF assms(2) t p]
  have t': "tracked fid ?h c' mt'" and set': "set c' = mapped mt'" using e(1,2) by (simp_all add: c'_def tracked_def told_def)
  have known: "known = mapped mt" using t by (simp add: known_def tracked_def told_def)
  have agree: "identities_agree fid c' c'" using tracked_identities [OF t' t'] later_refl by blast
  have inj: "inj_on (\<lambda>m. fid (mx_path (snd m))) (set c')"
  proof (rule inj_onI)
    fix m n assume mn: "m \<in> set c'" "n \<in> set c'" "fid (mx_path (snd m)) = fid (mx_path (snd n))"
    then obtain p q where pq: "mapping_of mt' p = Some m" "mapping_of mt' q = Some n" by (auto simp: set' mapped_def ran_def)
    with t' have "mx_persistent_id (snd m) = p" "mx_persistent_id (snd n) = q" by (cases m; cases n; simp add: tracked_def mappings_inv_def)+
    moreover have "mx_persistent_id (snd m) = mx_persistent_id (snd n)" using agree mn unfolding identities_agree_def by blast
    ultimately show "m = n" using pq by simp
  qed
  have files': "set (files_of fid c') = here" using e(4) by (simp add: c'_def here_def)
  have keep: "\<forall>m\<in>known. fid (mx_path (snd m)) \<in> here \<longrightarrow> m \<in> set c'" using e(5) by (simp add: known set' here_def)
  have new: "\<forall>m\<in>set c' - known. module_of fid snapshot (fid (mx_path (snd m))) = Some \<lparr>mm_path = mx_path (snd m), mm_base = mx_base (snd m)\<rparr>"
    using e(6) by (simp add: known set')
  have "identities_agree fid c1 c'" if "ps = ps1 @ ps2" "client_polls fid ps1 ([], module_tracker_init) = Some (c1, mt1)" for ps1 ps2 c1 mt1
  proof -
    have t1: "tracked fid ?h c1 mt1" using client_polls_tracked [OF that(2), of ?h] tracked_start that(1) by auto
    have "client_polls fid ps2 (c1, mt1) = Some (c, mt)" using assms(1) that by (simp add: client_polls_append)
    from client_polls_tracked [OF this, of ?h] t1 that(1) have "later mt1 mt" by auto
    with e(3) tracked_identities [OF t1 t'] show ?thesis by (blast intro: later_trans)
  qed
  moreover have "\<forall>m\<in>set c'. loaded_in fid ?h (snd m)" using t' by (simp add: tracked_def data_inv_def set')
  ultimately show ?thesis using files' inj keep new agree exact_bases [OF files' [unfolded here_def] new] by blast
qed

theorem client_follows_process_witness:
  "let a = \<lparr>mm_path = ''a'', mm_base = 0x1000\<rparr>; b = \<lparr>mm_path = ''b'', mm_base = 0x2000\<rparr>;
       files = (\<lambda>p. if p = ''x'' then None else Some [])
   in \<exists>c mt ls mt'. client_polls id [(files, [a]), (files, [a, b, \<lparr>mm_path = ''x'', mm_base = 0\<rparr>])] ([], module_tracker_init) = Some (c, mt) \<and>
     get_changes id files [b] mt = Some (Inr (ls, [0]), mt') \<and>
     (\<lambda>m. (mx_path (snd m), mx_base (snd m))) ` set (client_update ls [0] c) = {(''b'', 0x2000)} \<and>
     (\<forall>m\<in>set (client_update ls [0] c). mx_hash (snd m) = calculate_hash [])"
proof -
  let ?a = "\<lparr>mm_path = ''a'', mm_base = 0x1000\<rparr>" and ?b = "\<lparr>mm_path = ''b'', mm_base = 0x2000\<rparr>" and ?x = "\<lparr>mm_path = ''x'', mm_base = 0\<rparr>"
  let ?files = "\<lambda>p. if p = ''x'' then None else Some []"
  note run = client_poll_def get_changes_def register_path_def map_module_def mapped_module_from_def module_tracker_init_def
    um_insert_def client_update_def Let_def
  have "\<exists>c mt ls mt'. client_polls id [(?files, [?a]), (?files, [?a, ?b, ?x])] ([], module_tracker_init) = Some (c, mt) \<and>
      get_changes id ?files [?b] mt = Some (Inr (ls, [0]), mt') \<and> (\<forall>m\<in>set c \<union> set (lqueue mt). mx_path (snd m) = ''b'' \<longrightarrow> mx_base (snd m) = 0x2000)"
    by (simp add: run)
  then obtain c mt ls mt' where g: "client_polls id [(?files, [?a]), (?files, [?a, ?b, ?x])] ([], module_tracker_init) = Some (c, mt)"
    "get_changes id ?files [?b] mt = Some (Inr (ls, [0]), mt')" "\<forall>m\<in>set c \<union> set (lqueue mt). mx_path (snd m) = ''b'' \<longrightarrow> mx_base (snd m) = 0x2000"
    by blast
  note w = client_follows_process [OF g(1,2)]
  have "(\<lambda>m. (mx_path (snd m), mx_base (snd m))) ` set (client_update ls [0] c) = {(''b'', 0x2000)}" using w g(3) by simp
  moreover have "mx_hash (snd m) = calculate_hash []" if "m \<in> set (client_update ls [0] c)" for m
    using w that by (auto simp: loaded_in_def read_in_def split: if_splits)
  ultimately show ?thesis unfolding Let_def using g(1,2) by blast
qed

text \<open>
  The registry does not recover from an image that cannot be opened: the poll that meets it
  fails, leaving its identifier registered without a module, and the next poll that meets it uses
  the entry the code takes for granted, which is undefined behaviour.
\<close>

theorem unreadable_image_breaks_next_poll:
  assumes "um_find (files_registry mt) (fid path) = None" "files path = None"
    and "um_find (modules_registry mt) (next_persistent_id mt) = None"
  shows "\<exists>mt'. get_changes fid files (\<lparr>mm_path = path, mm_base = base\<rparr> # mms) mt = Some (Inl File_Not_Found, mt') \<and>
    get_changes fid files' (\<lparr>mm_path = path, mm_base = base\<rparr> # mms) mt' = None"
  using assms by (simp add: get_changes_def register_path_def dict_simps Let_def)

theorem unreadable_image_breaks_next_poll_witness:
  "\<exists>mt'. get_changes id (\<lambda>_. None) [\<lparr>mm_path = ''x'', mm_base = 0\<rparr>] module_tracker_init = Some (Inl File_Not_Found, mt') \<and>
    get_changes id (\<lambda>_. Some []) [\<lparr>mm_path = ''x'', mm_base = 0\<rparr>] mt' = None"
  using unreadable_image_breaks_next_poll [of module_tracker_init id "''x''" "\<lambda>_. None" 0 "[]" "\<lambda>_. Some []"]
  by (simp add: module_tracker_init_def)

end
