(* ===== verification/Sdb_Table.thy ===== *)
theory Sdb_Table
  imports Prelude
begin

text \<open>
  The tables of \<^verbatim>\<open>sdb/table.h\<close> and the indices of \<^verbatim>\<open>sdb/index.h\<close> and
  \<^verbatim>\<open>sdb/integrated_index.h\<close>. A record is reached through a handle, the iterator of its list node,
  which stays valid until the record is erased. The components of a table are its indices; the type of
  a component is a number, and \<open>classes\<close> gives the keyer and the kind of map of each type.

  Signals (\<^verbatim>\<open>wpl::signal\<close>) are not part of the repository: an operation that raises them takes
  the subscribers as a function on a state of their own, called with the table as it is at that moment.
\<close>

section \<open>Indices\<close>

type_synonym handle = nat
type_synonym 'r records = "(handle, 'r) umap"
type_synonym 'k nodes = "(nat \<times> 'k \<times> handle) list"

text \<open>The multimap of an index: its nodes in iteration order, and the removal index from records to nodes.\<close>

record 'k index =
  ix_nodes :: "'k nodes"
  ix_next :: nat
  ix_removal :: "(handle, nat) umap"

record ('r, 'k) index_class =
  ic_keyer :: "'r \<Rightarrow> 'k"
  ic_place :: "nat \<times> 'k \<times> handle \<Rightarrow> 'k nodes \<Rightarrow> 'k nodes"

text \<open>
  Insertion into \<^verbatim>\<open>std::unordered_multimap\<close>, where the position is unspecified, and into
  \<^verbatim>\<open>std::multimap\<close>, where it is after the nodes with the same key.
\<close>

definition unordered_place :: "nat \<times> 'k \<times> handle \<Rightarrow> 'k nodes \<Rightarrow> 'k nodes" where
  "unordered_place x xs = xs @ [x]"

definition ordered_place :: "nat \<times> 'k::linorder \<times> handle \<Rightarrow> 'k nodes \<Rightarrow> 'k nodes" where
  "ordered_place x xs =
     takeWhile (\<lambda>y. fst (snd y) \<le> fst (snd x)) xs @ x # dropWhile (\<lambda>y. fst (snd y) \<le> fst (snd x)) xs"

definition index_init :: "'k index" where
  "index_init = \<lparr>ix_nodes = [], ix_next = 0, ix_removal = []\<rparr>"

definition index_created :: "('r, 'k) index_class \<Rightarrow> handle \<Rightarrow> 'r \<Rightarrow> 'k index \<Rightarrow> 'k index" where
  "index_created cls h r ix =
     (let n = ix_next ix in
      ix\<lparr>ix_nodes := ic_place cls (n, ic_keyer cls r, h) (ix_nodes ix), ix_next := n + 1,
         ix_removal := um_insert h n (ix_removal ix)\<rparr>)"

definition index_removed :: "handle \<Rightarrow> 'k index \<Rightarrow> 'k index" where
  "index_removed h ix =
     (case um_find (ix_removal ix) h of
        None \<Rightarrow> ix
      | Some n \<Rightarrow> ix\<lparr>ix_nodes := filter (\<lambda>x. fst x \<noteq> n) (ix_nodes ix), ix_removal := um_erase h (ix_removal ix)\<rparr>)"

definition index_cleared :: "'k index \<Rightarrow> 'k index" where
  "index_cleared ix = ix\<lparr>ix_nodes := [], ix_removal := []\<rparr>"

definition index_build :: "('r, 'k) index_class \<Rightarrow> 'r records \<Rightarrow> 'k index" where
  "index_build cls rs = foldl (\<lambda>ix hr. index_created cls (fst hr) (snd hr) ix) index_init rs"

definition equal_range :: "'k \<Rightarrow> 'k index \<Rightarrow> handle list" where
  "equal_range key ix = map (\<lambda>x. snd (snd x)) (filter (\<lambda>x. fst (snd x) = key) (ix_nodes ix))"

definition upper_bound :: "'k::linorder \<Rightarrow> 'k index \<Rightarrow> handle list" where
  "upper_bound key ix = map (\<lambda>x. snd (snd x)) (dropWhile (\<lambda>x. fst (snd x) \<le> key) (ix_nodes ix))"

section \<open>Tables\<close>

datatype signal = Created handle | Modified handle | Removed handle | Cleared | Invalidate

record ('r, 'k) table =
  t_records :: "'r records"
  t_next :: handle
  t_components :: "(nat, 'k index) umap"

type_synonym ('r, 'k) classes = "nat \<Rightarrow> ('r, 'k) index_class"
type_synonym ('r, 'k, 's) subscribers = "signal \<Rightarrow> ('r, 'k) table \<Rightarrow> 's \<Rightarrow> 's"

definition table_init :: "('r, 'k) table" where
  "table_init = \<lparr>t_records = [], t_next = 0, t_components = []\<rparr>"

definition table_size :: "('r, 'k) table \<Rightarrow> nat" where
  "table_size t = length (t_records t)"

definition for_each_component :: "(nat \<Rightarrow> 'k index \<Rightarrow> 'k index) \<Rightarrow> ('r, 'k) table \<Rightarrow> ('r, 'k) table" where
  "for_each_component f t = t\<lparr>t_components := map (\<lambda>c. (fst c, f (fst c) (snd c))) (t_components t)\<rparr>"

text \<open>The component of a type, constructed from the records there are on its first use.\<close>

definition table_component :: "('r, 'k) classes \<Rightarrow> nat \<Rightarrow> ('r, 'k) table \<Rightarrow> 'k index \<times> ('r, 'k) table" where
  "table_component classes ty t =
     (case um_find (t_components t) ty of
        Some ix \<Rightarrow> (ix, t)
      | None \<Rightarrow> let ix = index_build (classes ty) (t_records t)
                in (ix, t\<lparr>t_components := t_components t @ [(ty, ix)]\<rparr>))"

text \<open>
  Transactions: a record is created or picked for modification, written through the reference, and
  committed or removed. \<open>constructed\<close> is what the constructor of the table returns.
\<close>

record transacted_record =
  tr_record :: handle
  tr_new :: bool

definition table_create :: "'r \<Rightarrow> ('r, 'k) table \<Rightarrow> transacted_record \<times> ('r, 'k) table" where
  "table_create constructed t =
     (\<lparr>tr_record = t_next t, tr_new = True\<rparr>, t\<lparr>t_records := t_records t @ [(t_next t, constructed)], t_next := t_next t + 1\<rparr>)"

definition table_modify :: "handle \<Rightarrow> transacted_record" where
  "table_modify h = \<lparr>tr_record = h, tr_new = False\<rparr>"

definition record_write :: "handle \<Rightarrow> 'r \<Rightarrow> ('r, 'k) table \<Rightarrow> ('r, 'k) table" where
  "record_write h r t = t\<lparr>t_records := map (\<lambda>x. if fst x = h then (h, r) else x) (t_records t)\<rparr>"

definition commit_creation ::
  "('r, 'k) classes \<Rightarrow> ('r, 'k, 's) subscribers \<Rightarrow> handle \<Rightarrow> ('r, 'k) table \<times> 's \<Rightarrow> ('r, 'k) table \<times> 's" where
  "commit_creation classes notify h ts =
     (case um_find (t_records (fst ts)) h of
        None \<Rightarrow> ts
      | Some r \<Rightarrow> let t = for_each_component (\<lambda>ty. index_created (classes ty) h r) (fst ts)
                  in (t, notify (Created h) t (snd ts)))"

text \<open>An index does not react to a modification.\<close>

definition commit_modification :: "('r, 'k, 's) subscribers \<Rightarrow> handle \<Rightarrow> ('r, 'k) table \<times> 's \<Rightarrow> ('r, 'k) table \<times> 's" where
  "commit_modification notify h ts = (fst ts, notify (Modified h) (fst ts) (snd ts))"

definition commit_removal :: "('r, 'k, 's) subscribers \<Rightarrow> handle \<Rightarrow> ('r, 'k) table \<times> 's \<Rightarrow> ('r, 'k) table \<times> 's" where
  "commit_removal notify h ts =
     (let t = for_each_component (\<lambda>_. index_removed h) (fst ts);
          s = notify (Removed h) t (snd ts)
      in (t\<lparr>t_records := um_erase h (t_records t)\<rparr>, s))"

definition tr_commit ::
  "('r, 'k) classes \<Rightarrow> ('r, 'k, 's) subscribers \<Rightarrow> transacted_record \<Rightarrow> ('r, 'k) table \<times> 's \<Rightarrow> ('r, 'k) table \<times> 's" where
  "tr_commit classes notify tr ts =
     (if tr_new tr then commit_creation classes notify (tr_record tr) ts else commit_modification notify (tr_record tr) ts)"

definition tr_remove :: "('r, 'k, 's) subscribers \<Rightarrow> transacted_record \<Rightarrow> ('r, 'k) table \<times> 's \<Rightarrow> ('r, 'k) table \<times> 's" where
  "tr_remove notify tr ts = commit_removal notify (tr_record tr) ts"

definition table_clear :: "('r, 'k, 's) subscribers \<Rightarrow> ('r, 'k) table \<times> 's \<Rightarrow> ('r, 'k) table \<times> 's" where
  "table_clear notify ts =
     (let t = (fst ts)\<lparr>t_records := []\<rparr>;
          s = notify Cleared t (snd ts);
          t = for_each_component (\<lambda>_. index_cleared) t
      in (t, notify Invalidate t s))"

section \<open>Unique indices\<close>

datatype lookup_error = Key_Not_Found

definition unique_find :: "'r records \<Rightarrow> 'k index \<Rightarrow> 'k \<Rightarrow> 'r option" where
  "unique_find rs ix key = (case equal_range key ix of [] \<Rightarrow> None | h # _ \<Rightarrow> um_find rs h)"

definition unique_at :: "'r records \<Rightarrow> 'k index \<Rightarrow> 'k \<Rightarrow> lookup_error + 'r" where
  "unique_at rs ix key = (case unique_find rs ix key of Some r \<Rightarrow> Inr r | None \<Rightarrow> Inl Key_Not_Found)"

text \<open>
  The non-constant \<^verbatim>\<open>operator []\<close>: an existing record, or a new one given the key by the keyer
  (\<open>set_key\<close>), which is not in the index before it is committed.
\<close>

definition unique_record ::
  "('r \<Rightarrow> 'k \<Rightarrow> 'r) \<Rightarrow> 'r \<Rightarrow> 'k index \<Rightarrow> 'k \<Rightarrow> ('r, 'k) table \<Rightarrow> transacted_record \<times> ('r, 'k) table" where
  "unique_record set_key constructed ix key t =
     (case equal_range key ix of
        h # _ \<Rightarrow> (table_modify h, t)
      | [] \<Rightarrow> let (tr, t') = table_create constructed t
              in (tr, record_write (tr_record tr) (set_key constructed key) t'))"

section \<open>The index invariant\<close>

text \<open>What an index needs of its multimap: an inserted node is there, once, with the others.\<close>

locale multimap =
  fixes place :: "nat \<times> 'k \<times> handle \<Rightarrow> 'k nodes \<Rightarrow> 'k nodes"
  assumes place_mset: "mset (place x xs) = add_mset x (mset xs)"
begin

lemma place_set: "set (place x xs) = insert x (set xs)"
  using place_mset [of x xs] by (metis set_mset_add_mset_insert set_mset_mset)

lemma place_distinct: "distinct (map f (place x xs)) \<longleftrightarrow> f x \<notin> f ` set xs \<and> distinct (map f xs)"
proof -
  have "mset (map f (place x xs)) = mset (map f (x # xs))" by (simp add: place_mset)
  then have "distinct (map f (place x xs)) \<longleftrightarrow> distinct (map f (x # xs))" by (rule mset_eq_imp_distinct_iff)
  then show ?thesis by simp
qed

end

interpretation unordered: multimap unordered_place
  by unfold_locales (simp add: unordered_place_def)

interpretation ordered: multimap ordered_place
proof unfold_locales
  fix x :: "nat \<times> 'a \<times> handle" and xs
  have "mset (takeWhile P xs) + mset (dropWhile P xs) = mset xs" for P :: "nat \<times> 'a \<times> handle \<Rightarrow> bool"
    by (metis mset_append takeWhile_dropWhile_id)
  then show "mset (ordered_place x xs) = add_mset x (mset xs)" by (simp add: ordered_place_def)
qed

definition index_inv :: "('r, 'k) index_class \<Rightarrow> 'r records \<Rightarrow> 'k index \<Rightarrow> bool" where
  "index_inv cls rs ix \<longleftrightarrow>
     distinct (map fst (ix_nodes ix)) \<and> distinct (map (\<lambda>x. snd (snd x)) (ix_nodes ix)) \<and>
     (\<forall>x\<in>set (ix_nodes ix). fst x < ix_next ix) \<and>
     (\<forall>h n. um_find (ix_removal ix) h = Some n \<longleftrightarrow> (\<exists>k. (n, k, h) \<in> set (ix_nodes ix))) \<and>
     snd ` set (ix_nodes ix) = (\<lambda>hr. (ic_keyer cls (snd hr), fst hr)) ` set rs"

lemma index_inv_init: "index_inv cls [] index_init"
  by (simp add: index_inv_def index_init_def)

lemma index_inv_removal: "index_inv cls rs ix \<Longrightarrow> um_find (ix_removal ix) h = Some n \<longleftrightarrow> (\<exists>k. (n, k, h) \<in> set (ix_nodes ix))"
  by (simp add: index_inv_def)

lemma index_inv_entries:
  assumes "index_inv cls rs ix"
  shows "(key, h) \<in> snd ` set (ix_nodes ix) \<longleftrightarrow> (\<exists>r. (h, r) \<in> set rs \<and> ic_keyer cls r = key)"
proof -
  have "(key, h) \<in> (\<lambda>hr. (ic_keyer cls (snd hr), fst hr)) ` set rs \<longleftrightarrow> (\<exists>r. (h, r) \<in> set rs \<and> ic_keyer cls r = key)"
    by force
  with assms show ?thesis by (simp add: index_inv_def)
qed

lemma index_inv_handles:
  assumes "index_inv cls rs ix"
  shows "(\<lambda>x. snd (snd x)) ` set (ix_nodes ix) = fst ` set rs"
proof -
  have "(\<lambda>x. snd (snd x)) ` set (ix_nodes ix) = snd ` snd ` set (ix_nodes ix)" by (simp add: image_image)
  also have "\<dots> = fst ` set rs" using assms by (simp add: index_inv_def image_image)
  finally show ?thesis .
qed

lemma index_inv_created:
  assumes "index_inv cls rs ix" "h \<notin> fst ` set rs" "multimap (ic_place cls)"
  shows "index_inv cls (rs @ [(h, r)]) (index_created cls h r ix)"
proof -
  note place = multimap.place_set [OF assms(3)] multimap.place_distinct [OF assms(3)]
  have h: "h \<notin> (\<lambda>x. snd (snd x)) ` set (ix_nodes ix)" using index_inv_handles [OF assms(1)] assms(2) by simp
  have none: "um_find (ix_removal ix) h = None"
  proof (rule ccontr)
    assume "um_find (ix_removal ix) h \<noteq> None"
    with assms(1) obtain n k where "(n, k, h) \<in> set (ix_nodes ix)" by (auto simp: index_inv_def)
    with h show False by force
  qed
  have fresh: "ix_next ix \<notin> fst ` set (ix_nodes ix)" using assms(1) by (auto simp: index_inv_def)
  have "(n, k, h) \<notin> set (ix_nodes ix)" for n k using h by force
  with assms(1) h none fresh show ?thesis
    by (auto simp: index_inv_def index_created_def Let_def place dict_simps less_SucI)
qed

lemma index_inv_build:
  assumes "distinct (map fst rs)" "multimap (ic_place cls)"
  shows "index_inv cls rs (index_build cls rs)"
  using assms(1)
proof (induction rs rule: rev_induct)
  case (snoc hr rs)
  with index_inv_created [OF _ _ assms(2), of rs _ "fst hr" "snd hr"] show ?case by (simp add: index_build_def)
qed (simp add: index_build_def index_inv_init)

lemma index_inv_removed:
  assumes "index_inv cls rs ix" "distinct (map fst rs)"
  shows "index_inv cls (um_erase h rs) (index_removed h ix)"
proof (cases "um_find (ix_removal ix) h")
  case None
  have "h \<notin> fst ` set rs"
  proof
    assume "h \<in> fst ` set rs"
    then have "h \<in> (\<lambda>x. snd (snd x)) ` set (ix_nodes ix)" using index_inv_handles [OF assms(1)] by simp
    then obtain n k where "(n, k, h) \<in> set (ix_nodes ix)" by auto
    with index_inv_removal [OF assms(1), of h n] None show False by simp
  qed
  then have "um_erase h rs = rs" by (simp add: delete_id)
  with assms(1) None show ?thesis by (simp add: index_removed_def)
next
  case (Some n)
  with assms(1) obtain k where n: "(n, k, h) \<in> set (ix_nodes ix)" by (auto simp: index_inv_def)
  have other: "fst x = n \<longleftrightarrow> snd (snd x) = h" if "x \<in> set (ix_nodes ix)" for x
  proof -
    have "distinct (map fst (ix_nodes ix))" "distinct (map (\<lambda>x. snd (snd x)) (ix_nodes ix))" using assms(1) by (simp_all add: index_inv_def)
    then have i: "inj_on fst (set (ix_nodes ix))" "inj_on (\<lambda>x. snd (snd x)) (set (ix_nodes ix))" by (simp_all add: distinct_map)
    show ?thesis using inj_onD [OF i(1) _ that n] inj_onD [OF i(2) _ that n] by (cases x) auto
  qed
  let ?ns = "filter (\<lambda>x. fst x \<noteq> n) (ix_nodes ix)"
  have ns: "?ns = filter (\<lambda>x. snd (snd x) \<noteq> h) (ix_nodes ix)" by (rule filter_cong) (simp_all add: other del: split_paired_All)
  have "snd ` set ?ns = {kh \<in> snd ` set (ix_nodes ix). snd kh \<noteq> h}" unfolding ns by auto
  also have "\<dots> = (\<lambda>hr. (ic_keyer cls (snd hr), fst hr)) ` set (um_erase h rs)"
    using assms(1) by (auto simp: index_inv_def AList.delete_eq)
  finally have entries: "snd ` set ?ns = (\<lambda>hr. (ic_keyer cls (snd hr), fst hr)) ` set (um_erase h rs)" .
  have removal: "um_find (um_erase h (ix_removal ix)) h' = Some m \<longleftrightarrow> (\<exists>k. (m, k, h') \<in> set ?ns)" for h' m
    using assms(1) by (auto simp: index_inv_def dict_simps ns)
  have "distinct (map fst ?ns)" "distinct (map (\<lambda>x. snd (snd x)) ?ns)"
    using assms(1) by (simp_all add: index_inv_def distinct_map_filter)
  moreover have "index_removed h ix = ix\<lparr>ix_nodes := ?ns, ix_removal := um_erase h (ix_removal ix)\<rparr>"
    by (simp add: index_removed_def Some)
  moreover have "\<forall>x\<in>set ?ns. fst x < ix_next ix" using assms(1) by (simp add: index_inv_def)
  ultimately show ?thesis using entries removal by (simp add: index_inv_def)
qed

lemma index_inv_cleared: "index_inv cls [] (index_cleared ix)"
  by (simp add: index_inv_def index_cleared_def)

lemma index_inv_written:
  assumes "index_inv cls rs ix" "\<forall>r'. (h, r') \<in> set rs \<longrightarrow> ic_keyer cls r' = ic_keyer cls r"
  shows "index_inv cls (map (\<lambda>x. if fst x = h then (h, r) else x) rs) ix"
proof -
  have "(\<lambda>hr. (ic_keyer cls (snd hr), fst hr)) ` (\<lambda>x. if fst x = h then (h, r) else x) ` set rs =
    (\<lambda>hr. (ic_keyer cls (snd hr), fst hr)) ` set rs"
    unfolding image_image using assms(2) by (intro image_cong) auto
  with assms(1) show ?thesis by (simp add: index_inv_def)
qed

text \<open>What a lookup returns.\<close>

lemma equal_range_inv:
  assumes "index_inv cls rs ix"
  shows "distinct (equal_range key ix)" "set (equal_range key ix) = {h. \<exists>r. (h, r) \<in> set rs \<and> ic_keyer cls r = key}"
proof -
  have "distinct (map (\<lambda>x. snd (snd x)) (ix_nodes ix))" using assms by (simp add: index_inv_def)
  then show "distinct (equal_range key ix)" by (simp add: equal_range_def distinct_map_filter)
  have "h \<in> set (equal_range key ix) \<longleftrightarrow> (key, h) \<in> snd ` set (ix_nodes ix)" for h
    by (force simp: equal_range_def)
  with index_inv_entries [OF assms] show "set (equal_range key ix) = {h. \<exists>r. (h, r) \<in> set rs \<and> ic_keyer cls r = key}" by auto
qed

section \<open>The table invariant\<close>

text \<open>
  Between transactions every index of a table reflects its records. The kinds of map are those of
  the source; \<open>proper\<close> asks that of \<open>classes\<close>.
\<close>

definition proper :: "('r, 'k) classes \<Rightarrow> bool" where
  "proper classes \<longleftrightarrow> (\<forall>ty. multimap (ic_place (classes ty)))"

definition records_ok :: "('r, 'k) table \<Rightarrow> bool" where
  "records_ok t \<longleftrightarrow> distinct (map fst (t_records t)) \<and> (\<forall>h\<in>fst ` set (t_records t). h < t_next t)"

definition indexed :: "('r, 'k) classes \<Rightarrow> ('r, 'k) table \<Rightarrow> bool" where
  "indexed classes t \<longleftrightarrow> records_ok t \<and> (\<forall>c\<in>set (t_components t). index_inv (classes (fst c)) (t_records t) (snd c))"

lemma indexed_init: "indexed classes table_init"
  by (simp add: indexed_def records_ok_def table_init_def)

lemma indexed_component: "indexed classes t \<Longrightarrow> um_find (t_components t) ty = Some ix \<Longrightarrow> index_inv (classes ty) (t_records t) ix"
  by (auto simp: indexed_def dest!: map_of_SomeD)

lemma table_component_indexed:
  assumes "proper classes" "indexed classes t"
  shows "indexed classes (snd (table_component classes ty t))" "t_records (snd (table_component classes ty t)) = t_records t"
    "index_inv (classes ty) (t_records t) (fst (table_component classes ty t))"
    "um_find (t_components (snd (table_component classes ty t))) ty = Some (fst (table_component classes ty t))"
    "um_find (t_components t) ty' \<noteq> None \<Longrightarrow> um_find (t_components (snd (table_component classes ty t))) ty' = um_find (t_components t) ty'"
proof -
  have "index_inv (classes ty) (t_records t) (index_build (classes ty) (t_records t))"
    using assms by (intro index_inv_build) (auto simp: proper_def indexed_def records_ok_def)
  with assms(2) indexed_component [OF assms(2), of ty]
  show "indexed classes (snd (table_component classes ty t))" "t_records (snd (table_component classes ty t)) = t_records t"
    "index_inv (classes ty) (t_records t) (fst (table_component classes ty t))"
    "um_find (t_components (snd (table_component classes ty t))) ty = Some (fst (table_component classes ty t))"
    "um_find (t_components t) ty' \<noteq> None \<Longrightarrow> um_find (t_components (snd (table_component classes ty t))) ty' = um_find (t_components t) ty'"
    by (auto simp: table_component_def Let_def indexed_def records_ok_def map_add_def split: option.splits)
qed

lemma component_for_each:
  "um_find (t_components (for_each_component f t)) ty = map_option (f ty) (um_find (t_components t) ty)"
proof -
  have "map_of (map (\<lambda>c. (fst c, f (fst c) (snd c))) cs) ty = map_option (f ty) (map_of cs ty)" for cs
    by (induction cs) auto
  then show ?thesis by (simp add: for_each_component_def)
qed

text \<open>A whole transaction that creates a record, one that changes it, one that removes it.\<close>

definition table_insert :: "('r, 'k) classes \<Rightarrow> ('r, 'k, 's) subscribers \<Rightarrow> 'r \<Rightarrow> 'r \<Rightarrow> ('r, 'k) table \<times> 's \<Rightarrow> ('r, 'k) table \<times> 's" where
  "table_insert classes notify constructed r ts =
     (let (tr, t) = table_create constructed (fst ts);
          t = record_write (tr_record tr) r t
      in tr_commit classes notify tr (t, snd ts))"

definition table_update :: "('r, 'k) classes \<Rightarrow> ('r, 'k, 's) subscribers \<Rightarrow> handle \<Rightarrow> 'r \<Rightarrow> ('r, 'k) table \<times> 's \<Rightarrow> ('r, 'k) table \<times> 's" where
  "table_update classes notify h r ts = tr_commit classes notify (table_modify h) (record_write h r (fst ts), snd ts)"

definition table_delete :: "('r, 'k, 's) subscribers \<Rightarrow> handle \<Rightarrow> ('r, 'k) table \<times> 's \<Rightarrow> ('r, 'k) table \<times> 's" where
  "table_delete notify h ts = tr_remove notify (table_modify h) ts"

definition inserted :: "('r, 'k) classes \<Rightarrow> 'r \<Rightarrow> ('r, 'k) table \<Rightarrow> ('r, 'k) table" where
  "inserted classes r t = for_each_component (\<lambda>ty. index_created (classes ty) (t_next t) r)
     (t\<lparr>t_records := t_records t @ [(t_next t, r)], t_next := t_next t + 1\<rparr>)"

lemma records_fresh: "records_ok t \<Longrightarrow> t_next t \<notin> fst ` set (t_records t)"
  by (auto simp: records_ok_def)

lemma map_update_absent: "h \<notin> fst ` set rs \<Longrightarrow> map (\<lambda>x. if fst x = h then (h, r) else x) rs = rs"
  by (induction rs) auto

lemma record_write_created:
  assumes "records_ok t"
  shows "record_write (t_next t) r (snd (table_create c t)) = t\<lparr>t_records := t_records t @ [(t_next t, r)], t_next := t_next t + 1\<rparr>"
  using map_update_absent [OF records_fresh [OF assms], of r] by (simp add: record_write_def table_create_def)

lemma table_insert_eq:
  assumes "records_ok t"
  shows "table_insert classes notify constructed r (t, s) =
    (inserted classes r t, notify (Created (t_next t)) (inserted classes r t) s)"
proof -
  have "um_find (t_records t) (t_next t) = None" using records_fresh [OF assms] by (simp add: map_of_eq_None_iff)
  then have find: "([t_next t \<mapsto> r] ++ um_find (t_records t)) (t_next t) = Some r" by (simp add: map_add_def)
  have tr: "fst (table_create constructed t) = \<lparr>tr_record = t_next t, tr_new = True\<rparr>" by (simp add: table_create_def)
  show ?thesis unfolding table_insert_def split_def Let_def
    by (simp add: tr record_write_created [OF assms] tr_commit_def commit_creation_def find inserted_def Let_def)
qed

lemma inserted_indexed:
  assumes "proper classes" "indexed classes t"
  shows "indexed classes (inserted classes r t)" "t_records (inserted classes r t) = t_records t @ [(t_next t, r)]"
    "t_next (inserted classes r t) = Suc (t_next t)"
proof -
  have ok: "records_ok t" using assms(2) by (simp add: indexed_def)
  show rs: "t_records (inserted classes r t) = t_records t @ [(t_next t, r)]" "t_next (inserted classes r t) = Suc (t_next t)"
    by (simp_all add: inserted_def for_each_component_def)
  have "records_ok (inserted classes r t)" using ok records_fresh [OF ok] by (auto simp: records_ok_def rs less_SucI)
  moreover have "index_inv (classes (fst c)) (t_records t @ [(t_next t, r)]) (snd c)"
    if c: "c \<in> set (t_components (inserted classes r t))" for c
  proof -
    from c obtain d where d: "d \<in> set (t_components t)" "c = (fst d, index_created (classes (fst d)) (t_next t) r (snd d))"
      by (auto simp: inserted_def for_each_component_def)
    with assms(2) have "index_inv (classes (fst d)) (t_records t) (snd d)" by (simp add: indexed_def)
    from index_inv_created [OF this records_fresh [OF ok]] assms(1) d(2) show ?thesis by (simp add: proper_def)
  qed
  ultimately show "indexed classes (inserted classes r t)" by (simp add: indexed_def rs)
qed

lemma table_update_eq: "table_update classes notify h r (t, s) = (record_write h r t, notify (Modified h) (record_write h r t) s)"
  by (simp add: table_update_def tr_commit_def table_modify_def commit_modification_def)

lemma map_of_written: "um_find (map (\<lambda>x. if fst x = h then (h, r) else x) rs) h' =
    (if h' = h then map_option (\<lambda>_. r) (um_find rs h) else um_find rs h')"
  by (induction rs) auto

lemma record_write_indexed:
  assumes "indexed classes t" "um_find (t_records t) h = Some r'" "\<And>ty. ic_keyer (classes ty) r = ic_keyer (classes ty) r'"
  shows "indexed classes (record_write h r t)" "t_components (record_write h r t) = t_components t"
    "um_find (t_records (record_write h r t)) = (um_find (t_records t))(h \<mapsto> r)" "t_next (record_write h r t) = t_next t"
proof -
  have "map fst (map (\<lambda>x. if fst x = h then (h, r) else x) rs) = map fst rs" for rs by (induction rs) auto
  then have f: "map fst (t_records (record_write h r t)) = map fst (t_records t)" by (simp add: record_write_def)
  then have "fst ` set (t_records (record_write h r t)) = fst ` set (t_records t)" by (metis list.set_map)
  with f assms(1) have ok: "records_ok (record_write h r t)" by (simp add: indexed_def records_ok_def) (simp add: record_write_def)
  show c: "t_components (record_write h r t) = t_components t" "t_next (record_write h r t) = t_next t" by (simp_all add: record_write_def)
  have "distinct (map fst (t_records t))" using assms(1) by (simp add: indexed_def records_ok_def)
  from map_of_eq_Some_iff [OF this, of h] assms(2) have "(h, r'') \<in> set (t_records t) \<Longrightarrow> r'' = r'" for r'' by fastforce
  then have "index_inv (classes ty) (t_records (record_write h r t)) ix" if "index_inv (classes ty) (t_records t) ix" for ty ix
    using index_inv_written [OF that, of h r] assms(3) by (simp add: record_write_def)
  with ok assms(1) show "indexed classes (record_write h r t)" by (simp add: indexed_def c)
  show "um_find (t_records (record_write h r t)) = (um_find (t_records t))(h \<mapsto> r)"
    using assms(2) by (auto simp: record_write_def map_of_written)
qed

definition deindexed :: "handle \<Rightarrow> ('r, 'k) table \<Rightarrow> ('r, 'k) table" where
  "deindexed h t = for_each_component (\<lambda>_. index_removed h) t"

definition deleted :: "handle \<Rightarrow> ('r, 'k) table \<Rightarrow> ('r, 'k) table" where
  "deleted h t = (deindexed h t)\<lparr>t_records := um_erase h (t_records t)\<rparr>"

lemma deindexed_simps: "t_records (deindexed h t) = t_records t" "t_next (deindexed h t) = t_next t"
    "um_find (t_components (deindexed h t)) ty = map_option (index_removed h) (um_find (t_components t) ty)"
  by (simp_all add: deindexed_def component_for_each) (simp_all add: for_each_component_def)

lemma table_delete_eq: "table_delete notify h (t, s) = (deleted h t, notify (Removed h) (deindexed h t) s)"
  by (simp add: table_delete_def tr_remove_def table_modify_def commit_removal_def deleted_def deindexed_def Let_def)
    (simp add: for_each_component_def)

lemma deleted_indexed:
  assumes "indexed classes t"
  shows "indexed classes (deleted h t)" "t_records (deleted h t) = um_erase h (t_records t)"
proof -
  show rs: "t_records (deleted h t) = um_erase h (t_records t)" by (simp add: deleted_def)
  have d: "distinct (map fst (t_records t))" using assms by (simp add: indexed_def records_ok_def)
  have "t_next (deleted h t) = t_next t" by (simp add: deleted_def deindexed_simps)
  moreover have "\<forall>x\<in>fst ` set (t_records t). x < t_next t" using assms unfolding indexed_def records_ok_def by blast
  then have "\<forall>x\<in>fst ` set (um_erase h (t_records t)). x < t_next t" using dom_delete_subset [of h "t_records t"] by blast
  ultimately have "records_ok (deleted h t)" unfolding records_ok_def rs using d by (simp add: distinct_delete)
  moreover have "index_inv (classes (fst c)) (um_erase h (t_records t)) (snd c)" if c: "c \<in> set (t_components (deleted h t))" for c
  proof -
    from c obtain e where e: "e \<in> set (t_components t)" "c = (fst e, index_removed h (snd e))"
      by (auto simp: deleted_def deindexed_def for_each_component_def)
    with assms have "index_inv (classes (fst e)) (t_records t) (snd e)" by (simp add: indexed_def)
    from index_inv_removed [OF this d] e(2) show ?thesis by simp
  qed
  ultimately show "indexed classes (deleted h t)" by (simp add: indexed_def rs)
qed

definition emptied :: "('r, 'k) table \<Rightarrow> ('r, 'k) table" where
  "emptied t = for_each_component (\<lambda>_. index_cleared) (t\<lparr>t_records := []\<rparr>)"

lemma table_clear_eq: "table_clear notify (t, s) = (emptied t, notify Invalidate (emptied t) (notify Cleared (t\<lparr>t_records := []\<rparr>) s))"
  by (simp add: table_clear_def emptied_def Let_def)

lemma emptied_indexed: "indexed classes (emptied t)" "t_records (emptied t) = []"
  by (auto simp: emptied_def for_each_component_def indexed_def records_ok_def index_inv_cleared)

text \<open>The components a table has stay.\<close>

lemma components_stay:
  assumes "um_find (t_components t) ty \<noteq> None"
  shows "um_find (t_components (inserted classes r t)) ty \<noteq> None" "um_find (t_components (record_write h r t)) ty \<noteq> None"
    "um_find (t_components (deleted h t)) ty \<noteq> None" "um_find (t_components (emptied t)) ty \<noteq> None"
proof -
  from assms obtain ix where "um_find (t_components t) ty = Some ix" by blast
  then show "um_find (t_components (inserted classes r t)) ty \<noteq> None" "um_find (t_components (record_write h r t)) ty \<noteq> None"
    "um_find (t_components (deleted h t)) ty \<noteq> None" "um_find (t_components (emptied t)) ty \<noteq> None"
    by (simp_all add: inserted_def deleted_def deindexed_simps emptied_def component_for_each) (simp add: record_write_def)
qed

section \<open>Histories\<close>

datatype 'r table_action = Insert 'r | Update handle 'r | Delete handle | Clear | Use_Index nat

fun table_act :: "('r, 'k) classes \<Rightarrow> ('r, 'k, 's) subscribers \<Rightarrow> 'r \<Rightarrow> 'r table_action \<Rightarrow> ('r, 'k) table \<times> 's \<Rightarrow> ('r, 'k) table \<times> 's" where
  "table_act classes notify c (Insert r) ts = table_insert classes notify c r ts"
| "table_act classes notify c (Update h r) ts = table_update classes notify h r ts"
| "table_act classes notify c (Delete h) ts = table_delete notify h ts"
| "table_act classes notify c Clear ts = table_clear notify ts"
| "table_act classes notify c (Use_Index ty) ts = (snd (table_component classes ty (fst ts)), snd ts)"

text \<open>A record that is changed or removed is there, and a change leaves the keys of the record alone.\<close>

fun action_ok :: "('r, 'k) classes \<Rightarrow> 'r table_action \<Rightarrow> 'r records \<Rightarrow> bool" where
  "action_ok classes (Update h r) rs \<longleftrightarrow>
     (\<exists>r'. um_find rs h = Some r' \<and> (\<forall>ty. ic_keyer (classes ty) r = ic_keyer (classes ty) r'))"
| "action_ok classes (Delete h) rs \<longleftrightarrow> um_find rs h \<noteq> None"
| "action_ok classes a rs \<longleftrightarrow> True"

inductive table_history ::
  "('r, 'k) classes \<Rightarrow> ('r, 'k, 's) subscribers \<Rightarrow> 'r \<Rightarrow> 's \<Rightarrow> ('r, 'k) table \<times> 's \<Rightarrow> bool" for classes notify c s0 where
  start: "table_history classes notify c s0 (table_init, s0)"
| act: "table_history classes notify c s0 ts \<Longrightarrow> action_ok classes a (t_records (fst ts)) \<Longrightarrow>
    table_history classes notify c s0 (table_act classes notify c a ts)"

lemma table_act_indexed:
  assumes "proper classes" "indexed classes (fst ts)" "action_ok classes a (t_records (fst ts))"
  shows "indexed classes (fst (table_act classes notify c a ts))"
proof -
  obtain t s where ts: "ts = (t, s)" by fastforce
  have ok: "records_ok t" using assms(2) by (simp add: ts indexed_def)
  show ?thesis
  proof (cases a)
    case (Insert r)
    with assms inserted_indexed(1) [OF assms(1), of t r] show ?thesis by (simp add: ts table_insert_eq [OF ok])
  next
    case (Update h r)
    with assms(3) obtain r' where "um_find (t_records t) h = Some r'" "\<And>ty. ic_keyer (classes ty) r = ic_keyer (classes ty) r'"
      by (auto simp: ts)
    from record_write_indexed(1) [OF _ this] assms(2) Update show ?thesis by (simp add: ts table_update_eq)
  next
    case (Delete h)
    with assms(2) show ?thesis by (simp add: ts table_delete_eq deleted_indexed)
  next
    case Clear
    then show ?thesis by (simp add: ts table_clear_eq emptied_indexed)
  next
    case (Use_Index ty)
    with table_component_indexed(1) [OF assms(1,2), of ty] show ?thesis by simp
  qed
qed

lemma table_history_indexed: "table_history classes notify c s0 ts \<Longrightarrow> proper classes \<Longrightarrow> indexed classes (fst ts)"
  by (induction rule: table_history.induct) (simp_all add: indexed_init table_act_indexed)

section \<open>Properties\<close>

text \<open>
  C14. An index answers from the table: after any history of created, changed and removed records,
  cleared tables and indices taken into use at any moment, the range an index gives for a key holds
  each record of the table with that key once and nothing else; a unique index finds a record with
  the key if there is one, and its constant access fails if there is none.
\<close>

theorem index_reflects_table:
  assumes "proper classes" "table_history classes notify c s0 (t, s)" "um_find (t_components t) ty = Some ix"
  shows "distinct (equal_range key ix) \<and>
    set (equal_range key ix) = {h. \<exists>r. um_find (t_records t) h = Some r \<and> ic_keyer (classes ty) r = key} \<and>
    (case unique_at (t_records t) ix key of
       Inr r \<Rightarrow> r \<in> ran (um_find (t_records t)) \<and> ic_keyer (classes ty) r = key
     | Inl e \<Rightarrow> \<forall>r\<in>ran (um_find (t_records t)). ic_keyer (classes ty) r \<noteq> key)"
proof -
  have ind: "indexed classes t" using table_history_indexed [OF assms(2,1)] by simp
  note inv = indexed_component [OF ind assms(3)]
  have "distinct (map fst (t_records t))" using ind by (simp add: indexed_def records_ok_def)
  from map_of_eq_Some_iff [OF this] equal_range_inv [OF inv, of key]
  have e: "distinct (equal_range key ix)" "set (equal_range key ix) = {h. \<exists>r. um_find (t_records t) h = Some r \<and> ic_keyer (classes ty) r = key}"
    by simp_all
  show ?thesis
  proof (cases "equal_range key ix")
    case Nil
    with e(2) have "\<forall>r\<in>ran (um_find (t_records t)). ic_keyer (classes ty) r \<noteq> key" by (auto simp: ran_def)
    with e Nil show ?thesis by (simp add: unique_at_def unique_find_def)
  next
    case (Cons h hs)
    with e(2) have "h \<in> {h. \<exists>r. um_find (t_records t) h = Some r \<and> ic_keyer (classes ty) r = key}" by auto
    then obtain r where r: "um_find (t_records t) h = Some r" "ic_keyer (classes ty) r = key" by blast
    then have "unique_at (t_records t) ix key = Inr r" "r \<in> ran (um_find (t_records t))"
      by (auto simp: unique_at_def unique_find_def Cons ran_def)
    with e r(2) show ?thesis by simp
  qed
qed

definition by_length :: "(string, nat) classes" where
  "by_length ty = \<lparr>ic_keyer = length, ic_place = (if ty = 0 then unordered_place else ordered_place)\<rparr>"

lemma by_length_proper: "proper by_length"
  by (simp add: proper_def by_length_def unordered.multimap_axioms ordered.multimap_axioms)

theorem index_reflects_table_witness:
  "\<exists>t ix. table_history by_length (\<lambda>_ _ s. s) [] () (t, ()) \<and> um_find (t_components t) 1 = Some ix \<and> um_find (t_records t) 1 = Some ''yz'' \<and> set (equal_range 2 ix) = {1, 2}"
proof -
  let ?n = "\<lambda>_ _ s. s" and ?run = "\<lambda>a ts. table_act by_length (\<lambda>_ _ s. s) [] a ts"
  let ?ts = "?run (Delete 0) (?run (Update 1 ''yz'') (?run (Insert ''cd'') (?run (Insert ''xy'') (?run (Use_Index 1) (?run (Insert ''ab'') (table_init, ()))))))"
  note run = table_insert_def table_create_def record_write_def tr_commit_def commit_creation_def for_each_component_def
    table_update_def table_modify_def commit_modification_def table_delete_def tr_remove_def commit_removal_def
    table_component_def index_build_def index_created_def index_removed_def index_init_def table_init_def um_insert_def by_length_def
    ordered_place_def Let_def
  have "table_history by_length ?n [] () ?ts" by (intro table_history.intros) (simp_all add: run)
  moreover obtain t where t: "?ts = (t, ())" by (cases ?ts) auto
  moreover have "\<exists>ix. um_find (t_components (fst ?ts)) 1 = Some ix" "um_find (t_records (fst ?ts)) 1 = Some ''yz''"
    "t_records (fst ?ts) = [(1, ''yz''), (2, ''cd'')]" by (simp_all add: run)
  ultimately obtain ix where ix: "um_find (t_components t) 1 = Some ix" "um_find (t_records t) 1 = Some ''yz''" and h: "table_history by_length ?n [] () (t, ())"
    and rs: "t_records t = [(1, ''yz''), (2, ''cd'')]" by auto
  from index_reflects_table [OF by_length_proper h ix(1), of 2] have "set (equal_range 2 ix) = {1, 2}" by (auto simp: by_length_def rs split: if_splits)
  with ix h show ?thesis by blast
qed

end
