(* ===== verification/Sdb_Transforms.thy ===== *)
theory Sdb_Transforms
  imports Sdb_Table
begin

text \<open>
  The live transformations of tables of \<^verbatim>\<open>sdb/transforms.h\<close>: \<^verbatim>\<open>join\<close> and
  \<^verbatim>\<open>group_by\<close>. Each subscribes to the signals of its sources and keeps a table of its own up to
  date; that table has subscribers of its own, which may be other transformations or a log of the
  signals. The tables of a join are distinct objects, and the signals a derived table raises do not
  reach back to its sources.
\<close>

definition log_signal :: "signal \<Rightarrow> ('r, 'k) table \<Rightarrow> signal list \<Rightarrow> signal list" where
  "log_signal sig t log = log @ [sig]"

section \<open>join\<close>

text \<open>
  A joined record holds the handles of its left and its right record; the joined table has an index
  by each, of type 0 and 1.
\<close>

type_synonym joined_record = "handle \<times> handle"
type_synonym 'j joined_table = "(joined_record, 'j) table"

definition joined_classes :: "(joined_record, handle) classes" where
  "joined_classes ty = \<lparr>ic_keyer = (if ty = 0 then fst else snd), ic_place = unordered_place\<rparr>"

text \<open>
  \<open>on_create\<close>, for a record with the given key; \<open>opposite\<close> is the index of the other side. The keys of the joined table
  are of a type of its own, in which \<open>hk\<close> is the key of a handle.
\<close>

definition join_created ::
  "(joined_record, 'j) classes \<Rightarrow> (joined_record, 'j, 's) subscribers \<Rightarrow> (handle \<Rightarrow> handle \<Rightarrow> joined_record) \<Rightarrow> 'k index \<Rightarrow> handle \<Rightarrow> 'k \<Rightarrow>
   'j joined_table \<times> 's \<Rightarrow> 'j joined_table \<times> 's" where
  "join_created jcl notify composer opposite i key js =
     foldl (\<lambda>js j. table_insert jcl notify (0, 0) (composer i j) js) js (equal_range key opposite)"

definition join_modified ::
  "(joined_record, 'j) classes \<Rightarrow> (joined_record, 'j, 's) subscribers \<Rightarrow> (handle \<Rightarrow> 'j) \<Rightarrow> nat \<Rightarrow> handle \<Rightarrow> 'j joined_table \<times> 's \<Rightarrow> 'j joined_table \<times> 's" where
  "join_modified jcl notify hk hty i js =
     (case um_find (t_components (fst js)) hty of
        None \<Rightarrow> js
      | Some hindex \<Rightarrow> foldl (\<lambda>js j. tr_commit jcl notify (table_modify j) js) js (equal_range (hk i) hindex))"

definition join_removed :: "(joined_record, 'j, 's) subscribers \<Rightarrow> (handle \<Rightarrow> 'j) \<Rightarrow> nat \<Rightarrow> handle \<Rightarrow> 'j joined_table \<times> 's \<Rightarrow> 'j joined_table \<times> 's" where
  "join_removed notify hk hty i js =
     (case um_find (t_components (fst js)) hty of
        None \<Rightarrow> js
      | Some hindex \<Rightarrow> foldl (\<lambda>js j. tr_remove notify (table_modify j) js) js (equal_range (hk i) hindex))"

text \<open>The slots connected to one side.\<close>

definition maintain_joined ::
  "(joined_record, 'j) classes \<Rightarrow> (joined_record, 'j, 's) subscribers \<Rightarrow> (handle \<Rightarrow> 'j) \<Rightarrow> nat \<Rightarrow> ('a \<Rightarrow> 'k) \<Rightarrow> (handle \<Rightarrow> handle \<Rightarrow> joined_record) \<Rightarrow>
   'k index \<Rightarrow> ('a, 'k, 'j joined_table \<times> 's) subscribers" where
  "maintain_joined jcl notify hk hty keyer composer opposite sig side js =
     (case sig of
        Created i \<Rightarrow> (case um_find (t_records side) i of None \<Rightarrow> js | Some r \<Rightarrow> join_created jcl notify composer opposite i (keyer r) js)
      | Modified i \<Rightarrow> join_modified jcl notify hk hty i js
      | Removed i \<Rightarrow> join_removed notify hk hty i js
      | Cleared \<Rightarrow> table_clear notify js
      | Invalidate \<Rightarrow> (fst js, notify Invalidate (fst js) (snd js)))"

record ('a, 'b, 'k) join_state =
  js_left :: "('a, 'k) table"
  js_right :: "('b, 'k) table"
  js_joined :: "handle joined_table"
  js_log :: "signal list"

definition join_tables ::
  "('a, 'k) classes \<Rightarrow> nat \<Rightarrow> ('b, 'k) classes \<Rightarrow> nat \<Rightarrow> ('a, 'k) table \<Rightarrow> ('b, 'k) table \<Rightarrow> ('a, 'b, 'k) join_state" where
  "join_tables lclasses lty rclasses rty left right =
     (let (rindex, right) = table_component rclasses rty right;
          joined = snd (table_component joined_classes 0 table_init);
          left = snd (table_component lclasses lty left);
          joined = snd (table_component joined_classes 1 joined);
          (joined, log) = foldl (\<lambda>js ir. join_created joined_classes log_signal Pair rindex (fst ir) (ic_keyer (lclasses lty) (snd ir)) js) (joined, []) (t_records left)
      in \<lparr>js_left = left, js_right = right, js_joined = joined, js_log = log\<rparr>)"

text \<open>What a change of the left, or of the right table does, its subscribers included.\<close>

definition left_act ::
  "('a, 'k) classes \<Rightarrow> nat \<Rightarrow> nat \<Rightarrow> 'a \<Rightarrow> 'a table_action \<Rightarrow> ('a, 'b, 'k) join_state \<Rightarrow> ('a, 'b, 'k) join_state" where
  "left_act lclasses lty rty c a st =
     (case um_find (t_components (js_right st)) rty of
        None \<Rightarrow> st
      | Some rindex \<Rightarrow>
          let (left, joined, log) = table_act lclasses (maintain_joined joined_classes log_signal id 0 (ic_keyer (lclasses lty)) Pair rindex) c a
                (js_left st, js_joined st, js_log st)
          in st\<lparr>js_left := left, js_joined := joined, js_log := log\<rparr>)"

definition right_act ::
  "('b, 'k) classes \<Rightarrow> nat \<Rightarrow> nat \<Rightarrow> 'b \<Rightarrow> 'b table_action \<Rightarrow> ('a, 'b, 'k) join_state \<Rightarrow> ('a, 'b, 'k) join_state" where
  "right_act rclasses rty lty c a st =
     (case um_find (t_components (js_left st)) lty of
        None \<Rightarrow> st
      | Some lindex \<Rightarrow>
          let (right, joined, log) = table_act rclasses (maintain_joined joined_classes log_signal id 1 (ic_keyer (rclasses rty)) (\<lambda>i j. (j, i)) lindex) c a
                (js_right st, js_joined st, js_log st)
          in st\<lparr>js_right := right, js_joined := joined, js_log := log\<rparr>)"

section \<open>One side of a join\<close>

lemma joined_proper: "proper joined_classes"
  by (simp add: proper_def joined_classes_def unordered.multimap_axioms)

definition has_indices :: "'j joined_table \<Rightarrow> bool" where
  "has_indices t \<longleftrightarrow> um_find (t_components t) 0 \<noteq> None \<and> um_find (t_components t) 1 \<noteq> None"

lemma has_indices_stay: "has_indices t \<Longrightarrow> has_indices (inserted classes r t)" "has_indices t \<Longrightarrow> has_indices (deleted h t)"
    "has_indices t \<Longrightarrow> has_indices (emptied t)"
  unfolding has_indices_def by (simp_all only: components_stay not_False_eq_True simp_thms)

definition pairs :: "'j joined_table \<Rightarrow> joined_record list" where
  "pairs t = map snd (t_records t)"

lemma inserts_joined:
  assumes "proper jcl" "indexed jcl t" "has_indices t"
  shows "\<exists>t' s'. foldl (\<lambda>js j. table_insert jcl notify c (f j) js) (t, s) hs = (t', s') \<and>
    indexed jcl t' \<and> has_indices t' \<and> pairs t' = pairs t @ map f hs"
  using assms(2,3)
proof (induction hs arbitrary: t s)
  case (Cons h hs)
  have ok: "records_ok t" using Cons.prems(1) by (simp add: indexed_def)
  note i = inserted_indexed [OF assms(1) Cons.prems(1), of "f h"]
  from Cons.IH [OF i(1) has_indices_stay(1) [OF Cons.prems(2)]] show ?case
    by (simp add: table_insert_eq [OF ok] pairs_def i(2))
qed simp

lemma removes_joined:
  assumes "indexed jcl t" "has_indices t"
  shows "\<exists>t' s'. foldl (\<lambda>js j. tr_remove notify (table_modify j) js) (t, s) hs = (t', s') \<and>
    indexed jcl t' \<and> has_indices t' \<and> t_records t' = filter (\<lambda>x. fst x \<notin> set hs) (t_records t)"
  using assms
proof (induction hs arbitrary: t s)
  case (Cons h hs)
  note d = deleted_indexed [OF Cons.prems(1), of h]
  have "filter (\<lambda>x. fst x \<notin> set hs) (um_erase h rs) = filter (\<lambda>x. fst x \<noteq> h \<and> fst x \<notin> set hs) rs" for rs :: "joined_record records"
    by (induction rs) auto
  with Cons.IH [OF d(1) has_indices_stay(2) [OF Cons.prems(2)]] show ?case
    by (simp add: table_delete_def [symmetric] table_delete_eq d(2))
qed simp

lemma modifies_joined: "fst (foldl (\<lambda>js j. tr_commit jcl notify (table_modify j) js) js hs) = fst js"
  by (induction hs arbitrary: js) (simp_all add: tr_commit_def table_modify_def commit_modification_def)

text \<open>The matching pairs, as one side composes them.\<close>

definition matches ::
  "(handle \<Rightarrow> handle \<Rightarrow> joined_record) \<Rightarrow> ('a \<Rightarrow> 'k) \<Rightarrow> ('b \<Rightarrow> 'k) \<Rightarrow> (handle \<rightharpoonup> 'a) \<Rightarrow> (handle \<rightharpoonup> 'b) \<Rightarrow> joined_record set" where
  "matches composer skey okey S opp = {composer i j |i j a b. S i = Some a \<and> opp j = Some b \<and> skey a = okey b}"

lemma matchesI: "S i = Some a \<Longrightarrow> opp j = Some b \<Longrightarrow> skey a = okey b \<Longrightarrow> composer i j \<in> matches composer skey okey S opp"
  unfolding matches_def by blast

lemma matchesE:
  assumes "p \<in> matches composer skey okey S opp"
  obtains i j a b where "p = composer i j" "S i = Some a" "opp j = Some b" "skey a = okey b"
  using assms unfolding matches_def by blast

lemma matches_insert:
  assumes "S i = None"
  shows "matches composer skey okey (S(i \<mapsto> a)) opp = matches composer skey okey S opp \<union> {composer i j |j b. opp j = Some b \<and> skey a = okey b}"
proof (intro equalityI subsetI)
  fix p assume "p \<in> matches composer skey okey (S(i \<mapsto> a)) opp"
  then obtain i' j a' b where p: "p = composer i' j" "(S(i \<mapsto> a)) i' = Some a'" "opp j = Some b" "skey a' = okey b" by (rule matchesE)
  show "p \<in> matches composer skey okey S opp \<union> {composer i j |j b. opp j = Some b \<and> skey a = okey b}"
  proof (cases "i' = i")
    case False
    with p(2) have "S i' = Some a'" by simp
    from matchesI [of S i' a' opp j b skey okey composer, OF this p(3,4)] p(1) show ?thesis by simp
  qed (use p in auto)
next
  fix p assume "p \<in> matches composer skey okey S opp \<union> {composer i j |j b. opp j = Some b \<and> skey a = okey b}"
  then consider "p \<in> matches composer skey okey S opp" | j b where "p = composer i j" "opp j = Some b" "skey a = okey b" by blast
  then show "p \<in> matches composer skey okey (S(i \<mapsto> a)) opp"
  proof cases
    case 1
    then obtain i' j a' b where p: "p = composer i' j" "S i' = Some a'" "opp j = Some b" "skey a' = okey b" by (rule matchesE)
    with assms have "(S(i \<mapsto> a)) i' = Some a'" by auto
    from matchesI [of "S(i \<mapsto> a)" i' a' opp j b skey okey composer, OF this p(3,4)] p(1) show ?thesis by simp
  next
    case 2
    from matchesI [of "S(i \<mapsto> a)" i a opp j b skey okey composer, OF fun_upd_same 2(2,3)] 2(1) show ?thesis by simp
  qed
qed

lemma matches_rekey:
  assumes "S i = Some a'" "skey a = skey a'"
  shows "matches composer skey okey (S(i \<mapsto> a)) opp = matches composer skey okey S opp"
proof -
  have "map_option skey ((S(i \<mapsto> a)) k) = map_option skey (S k)" for k using assms by simp
  moreover have "matches composer skey okey T opp = {composer i j |i j b. map_option skey (T i) = Some (okey b) \<and> opp j = Some b}" for T
    unfolding matches_def by force
  ultimately show ?thesis by presburger
qed

definition joined_ok :: "(joined_record, 'j) classes \<Rightarrow> joined_record set \<Rightarrow> 'j joined_table \<Rightarrow> bool" where
  "joined_ok jcl ps t \<longleftrightarrow> indexed jcl t \<and> has_indices t \<and> distinct (pairs t) \<and> set (pairs t) = ps"

locale join_side =
  fixes composer :: "handle \<Rightarrow> handle \<Rightarrow> joined_record" and hty :: nat and jcl :: "(joined_record, 'j) classes" and hk :: "handle \<Rightarrow> 'j"
  assumes jcl_proper: "proper jcl"
    and handle_of: "ic_keyer (jcl hty) (composer i j) = hk i"
    and hk_inj: "hk i = hk i' \<longleftrightarrow> i = i'"
    and composer_inj: "composer i j = composer i j' \<Longrightarrow> j = j'"
    and hty_known: "has_indices (t :: 'j joined_table) \<Longrightarrow> um_find (t_components t) hty \<noteq> None"
begin

lemma created_ok:
  assumes "joined_ok jcl (matches composer skey okey S opp) t" "S i = None"
    and "distinct (equal_range (skey a) ix)" "set (equal_range (skey a) ix) = {j. \<exists>b. opp j = Some b \<and> okey b = skey a}"
  shows "joined_ok jcl (matches composer skey okey (S(i \<mapsto> a)) opp) (fst (join_created jcl notify composer ix i (skey a) (t, s)))"
proof -
  let ?hs = "equal_range (skey a) ix"
  from assms(1) have t: "indexed jcl t" "has_indices t" "distinct (pairs t)" "set (pairs t) = matches composer skey okey S opp"
    by (simp_all add: joined_ok_def)
  from inserts_joined [OF jcl_proper t(1,2), of notify "(0, 0)" "composer i" s ?hs] obtain t' s' where
    t': "join_created jcl notify composer ix i (skey a) (t, s) = (t', s')" "indexed jcl t'" "has_indices t'" "pairs t' = pairs t @ map (composer i) ?hs"
    by (auto simp: join_created_def)
  have new: "set (map (composer i) ?hs) = {composer i j |j b. opp j = Some b \<and> skey a = okey b}" using assms(4) by auto
  have "composer i j \<notin> matches composer skey okey S opp" for j
  proof
    assume "composer i j \<in> matches composer skey okey S opp"
    then obtain i' j' a' where "composer i j = composer i' j'" "S i' = Some a'" by (auto simp: matches_def)
    with handle_of [of i j] handle_of [of i' j'] assms(2) hk_inj show False by simp
  qed
  then have "set (pairs t) \<inter> set (map (composer i) ?hs) = {}" by (auto simp: t(4))
  moreover have "distinct (map (composer i) ?hs)" using assms(3) composer_inj by (auto simp: distinct_map inj_on_def)
  moreover have "matches composer skey okey (S(i \<mapsto> a)) opp = matches composer skey okey S opp \<union> {composer i j |j b. opp j = Some b \<and> skey a = okey b}"
    using assms(2) by (rule matches_insert)
  ultimately show ?thesis using t t'(2-4) new by (simp add: t'(1) joined_ok_def)
qed

lemma removed_ok:
  assumes "joined_ok jcl (matches composer skey okey S opp) t"
  shows "joined_ok jcl (matches composer skey okey (S(i := None)) opp) (fst (join_removed notify hk hty i (t, s)))"
proof -
  from assms have t: "indexed jcl t" "has_indices t" "distinct (pairs t)" "set (pairs t) = matches composer skey okey S opp"
    by (simp_all add: joined_ok_def)
  from hty_known [OF t(2)] obtain hix where hix: "um_find (t_components t) hty = Some hix" by blast
  note hs = equal_range_inv(2) [OF indexed_component [OF t(1) hix], of "hk i"]
  from removes_joined [OF t(1,2), of notify s "equal_range (hk i) hix"] obtain t' s' where
    t': "join_removed notify hk hty i (t, s) = (t', s')" "indexed jcl t'" "has_indices t'"
      "t_records t' = filter (\<lambda>x. fst x \<notin> set (equal_range (hk i) hix)) (t_records t)"
    by (auto simp: join_removed_def hix)
  have d: "distinct (map fst (t_records t))" using t(1) by (simp add: indexed_def records_ok_def)
  have "fst x \<in> set (equal_range (hk i) hix) \<longleftrightarrow> ic_keyer (jcl hty) (snd x) = hk i" if x: "x \<in> set (t_records t)" for x
  proof -
    have "(fst x, p) \<in> set (t_records t) \<longleftrightarrow> p = snd x" for p
      using x eq_key_imp_eq_value [OF d, of "fst x" p "snd x"] by (metis prod.collapse)
    then show ?thesis by (simp add: hs del: split_paired_Ex)
  qed
  then have "t_records t' = filter (\<lambda>x. ic_keyer (jcl hty) (snd x) \<noteq> hk i) (t_records t)"
    unfolding t'(4) by (intro filter_cong) simp_all
  then have p: "pairs t' = filter (\<lambda>p. ic_keyer (jcl hty) p \<noteq> hk i) (pairs t)" by (simp add: pairs_def filter_map comp_def)
  have "{p \<in> matches composer skey okey S opp. ic_keyer (jcl hty) p \<noteq> hk i} = matches composer skey okey (S(i := None)) opp"
  proof (intro equalityI subsetI)
    fix p assume "p \<in> {p \<in> matches composer skey okey S opp. ic_keyer (jcl hty) p \<noteq> hk i}"
    then obtain i' j a b where p: "p = composer i' j" "S i' = Some a" "opp j = Some b" "skey a = okey b" "i' \<noteq> i"
      by (auto elim!: matchesE simp: handle_of hk_inj)
    then have "(S(i := None)) i' = Some a" by simp
    from matchesI [of "S(i := None)" i' a opp j b skey okey composer, OF this p(3,4)] p(1) show "p \<in> matches composer skey okey (S(i := None)) opp" by simp
  next
    fix p assume "p \<in> matches composer skey okey (S(i := None)) opp"
    then obtain i' j a b where p: "p = composer i' j" "S i' = Some a" "opp j = Some b" "skey a = okey b" "i' \<noteq> i"
      by (elim matchesE) (auto split: if_splits)
    from matchesI [of S i' a opp j b skey okey composer, OF p(2-4)] p(1,5)
    show "p \<in> {p \<in> matches composer skey okey S opp. ic_keyer (jcl hty) p \<noteq> hk i}" by (simp add: handle_of hk_inj)
  qed
  with t(3,4) t'(2,3) p show ?thesis by (simp add: t'(1) joined_ok_def)
qed

lemma act_ok:
  assumes "proper sclasses" "indexed sclasses side" "action_ok sclasses a (t_records side)"
    and "index_inv ocls orecs ix" "distinct (map fst orecs)"
    and "joined_ok jcl (matches composer (ic_keyer (sclasses sty)) (ic_keyer ocls) (um_find (t_records side)) (um_find orecs)) t"
    and r_def: "r = table_act sclasses (maintain_joined jcl notify hk hty (ic_keyer (sclasses sty)) composer ix) c a (side, t, s)"
  shows "joined_ok jcl (matches composer (ic_keyer (sclasses sty)) (ic_keyer ocls) (um_find (t_records (fst r))) (um_find orecs)) (fst (snd r))"
proof -
  let ?k = "ic_keyer (sclasses sty)" and ?S = "um_find (t_records side)"
  note m = maintain_joined_def
  have ok: "records_ok side" using assms(2) by (simp add: indexed_def)
  have rng: "distinct (equal_range key ix)" "set (equal_range key ix) = {j. \<exists>b. um_find orecs j = Some b \<and> ic_keyer ocls b = key}" for key
    using equal_range_inv [OF assms(4), of key] assms(5) by simp_all
  show ?thesis
  proof (cases a)
    case (Insert x)
    have none: "?S (t_next side) = None" using records_fresh [OF ok] by (simp add: map_of_eq_None_iff)
    have recs: "t_records (inserted sclasses x side) = t_records side @ [(t_next side, x)]" using inserted_indexed(2) [OF assms(1,2)] .
    have S: "um_find (t_records side @ [(t_next side, x)]) = ?S(t_next side \<mapsto> x)" using none by (auto simp: map_add_def split: option.splits)
    from created_ok [OF assms(6) none rng, of x notify s] show ?thesis unfolding r_def Insert
      by (simp add: table_insert_eq [OF ok] recs m S fun_upd_same del: map_of_append fun_upd_apply)
  next
    case (Update h x)
    with assms(3) obtain x' where x': "?S h = Some x'" "\<And>ty. ic_keyer (sclasses ty) x = ic_keyer (sclasses ty) x'" by auto
    have "matches composer ?k (ic_keyer ocls) (?S(h \<mapsto> x)) (um_find orecs) = matches composer ?k (ic_keyer ocls) ?S (um_find orecs)"
      using x' by (intro matches_rekey)
    moreover have "fst (join_modified jcl notify hk hty h (t, s)) = t" by (simp add: join_modified_def modifies_joined split: option.splits)
    ultimately show ?thesis using assms(6) record_write_indexed(3) [OF assms(2) x'] unfolding r_def Update
      by (simp add: table_update_eq m del: fun_upd_apply)
  next
    case (Delete h)
    from removed_ok [OF assms(6), of h notify s] show ?thesis unfolding r_def Delete
      by (simp add: table_delete_eq deleted_indexed(2) [OF assms(2)] m delete_conv' del: fun_upd_apply)
  next
    case Clear
    have "matches composer ?k (ic_keyer ocls) Map.empty (um_find orecs) = {}" by (simp add: matches_def)
    moreover have "joined_ok jcl {} (emptied t)" using assms(6) by (simp add: joined_ok_def emptied_indexed has_indices_stay pairs_def)
    ultimately show ?thesis unfolding r_def Clear by (simp add: table_clear_eq emptied_indexed(2) m)
  next
    case (Use_Index ty)
    with assms(6) table_component_indexed(2) [OF assms(1,2)] show ?thesis unfolding r_def by simp
  qed
qed

text \<open>Populating the joined table from the records there are.\<close>

lemma populate_ok:
  assumes "index_inv rcls rrecs ix" "distinct (map fst rrecs)" "distinct (map fst (ys @ xs))"
    and "joined_ok jcl (matches composer lkey (ic_keyer rcls) (um_find ys) (um_find rrecs)) (fst js)"
  shows "joined_ok jcl (matches composer lkey (ic_keyer rcls) (um_find (ys @ xs)) (um_find rrecs))
    (fst (foldl (\<lambda>js ir. join_created jcl notify composer ix (fst ir) (lkey (snd ir)) js) js xs))"
  using assms(3,4)
proof (induction xs arbitrary: ys js)
  case (Cons x xs)
  obtain i a where x: "x = (i, a)" by fastforce
  have none: "um_find ys i = None" using Cons.prems(1) by (auto simp: x map_of_eq_None_iff)
  have "distinct (equal_range (lkey a) ix)" "set (equal_range (lkey a) ix) = {j. \<exists>b. um_find rrecs j = Some b \<and> ic_keyer rcls b = lkey a}"
    using equal_range_inv [OF assms(1), of "lkey a"] assms(2) by simp_all
  from created_ok [of lkey "ic_keyer rcls" "um_find ys" "um_find rrecs" "fst js" i a ix notify "snd js", OF Cons.prems(2) none this]
  have "joined_ok jcl (matches composer lkey (ic_keyer rcls) ((um_find ys)(i \<mapsto> a)) (um_find rrecs)) (fst (join_created jcl notify composer ix i (lkey a) js))" by simp
  moreover have "um_find (ys @ [x]) = (um_find ys)(i \<mapsto> a)" using none by (auto simp: x map_add_def split: option.splits)
  ultimately have "joined_ok jcl (matches composer lkey (ic_keyer rcls) (um_find (ys @ [x])) (um_find rrecs)) (fst (join_created jcl notify composer ix i (lkey a) js))"
    by (simp only:)
  from Cons.IH [OF _ this] Cons.prems(1) show ?case by (simp add: x)
qed simp

text \<open>The empty joined table, with its indices.\<close>

lemma joined_start:
  "joined_ok jcl {} (snd (table_component jcl 1 (snd (table_component jcl 0 table_init))))"
proof -
  note j0 = table_component_indexed [OF jcl_proper indexed_init, of 0]
  note j1 = table_component_indexed [OF jcl_proper j0(1), of 1]
  show ?thesis using j0(2,4) j1(1,2,4) table_component_indexed(5) [OF jcl_proper j0(1), of 0 1]
    by (simp add: joined_ok_def has_indices_def pairs_def table_init_def)
qed

end

interpretation left_side: join_side Pair 0 joined_classes id
  by unfold_locales (simp_all add: joined_proper joined_classes_def has_indices_def)

interpretation right_side: join_side "\<lambda>i j. (j, i)" 1 joined_classes id
  by unfold_locales (simp_all add: joined_proper joined_classes_def has_indices_def)

section \<open>The whole join\<close>

text \<open>States a join can be in: two tables joined, and then changed in any order.\<close>

inductive join_history ::
  "('a, 'k) classes \<Rightarrow> nat \<Rightarrow> 'a \<Rightarrow> ('b, 'k) classes \<Rightarrow> nat \<Rightarrow> 'b \<Rightarrow> ('a, 'b, 'k) join_state \<Rightarrow> bool"
  for lclasses lty lc rclasses rty rc where
  joins: "indexed lclasses left \<Longrightarrow> indexed rclasses right \<Longrightarrow>
    join_history lclasses lty lc rclasses rty rc (join_tables lclasses lty rclasses rty left right)"
| on_left: "join_history lclasses lty lc rclasses rty rc st \<Longrightarrow> action_ok lclasses a (t_records (js_left st)) \<Longrightarrow>
    join_history lclasses lty lc rclasses rty rc (left_act lclasses lty rty lc a st)"
| on_right: "join_history lclasses lty lc rclasses rty rc st \<Longrightarrow> action_ok rclasses b (t_records (js_right st)) \<Longrightarrow>
    join_history lclasses lty lc rclasses rty rc (right_act rclasses rty lty rc b st)"

definition join_inv ::
  "('a, 'k) classes \<Rightarrow> nat \<Rightarrow> ('b, 'k) classes \<Rightarrow> nat \<Rightarrow> ('a, 'b, 'k) join_state \<Rightarrow> bool" where
  "join_inv lclasses lty rclasses rty st \<longleftrightarrow> indexed lclasses (js_left st) \<and> indexed rclasses (js_right st) \<and>
     um_find (t_components (js_left st)) lty \<noteq> None \<and> um_find (t_components (js_right st)) rty \<noteq> None \<and>
     joined_ok joined_classes (matches Pair (ic_keyer (lclasses lty)) (ic_keyer (rclasses rty)) (um_find (t_records (js_left st)))
       (um_find (t_records (js_right st)))) (js_joined st)"

lemma matches_swap: "matches (\<lambda>i j. (j, i)) okey skey opp S = matches Pair skey okey S opp"
  unfolding matches_def by auto

lemma table_act_components:
  assumes "um_find (t_components (fst ts)) ty \<noteq> None" "indexed classes (fst ts)" "proper classes"
  shows "um_find (t_components (fst (table_act classes notify c a ts))) ty \<noteq> None"
proof -
  obtain t s where ts: "ts = (t, s)" by fastforce
  have ok: "records_ok t" "um_find (t_components t) ty \<noteq> None" using assms by (simp_all add: ts indexed_def)
  note stay = components_stay [OF ok(2)]
  show ?thesis
  proof (cases a)
    case (Use_Index ty')
    with table_component_indexed(5) [OF assms(3), of t ty ty'] assms(2) ok(2) show ?thesis by (simp add: ts)
  qed (use stay in \<open>simp_all only: ts table_act.simps table_insert_eq [OF ok(1)] table_update_eq table_delete_eq table_clear_eq fst_conv not_False_eq_True\<close>)
qed

lemma left_act_inv:
  assumes "proper lclasses" "join_inv lclasses lty rclasses rty st" "action_ok lclasses a (t_records (js_left st))"
  shows "join_inv lclasses lty rclasses rty (left_act lclasses lty rty c a st)"
proof -
  from assms(2) obtain ix where ix: "um_find (t_components (js_right st)) rty = Some ix"
    and i: "indexed lclasses (js_left st)" "indexed rclasses (js_right st)" "um_find (t_components (js_left st)) lty \<noteq> None"
    and j: "joined_ok joined_classes (matches Pair (ic_keyer (lclasses lty)) (ic_keyer (rclasses rty)) (um_find (t_records (js_left st)))
       (um_find (t_records (js_right st)))) (js_joined st)"
    by (auto simp: join_inv_def)
  have d: "distinct (map fst (t_records (js_right st)))" using i(2) by (simp add: indexed_def records_ok_def)
  let ?m = "maintain_joined joined_classes log_signal id 0 (ic_keyer (lclasses lty)) Pair ix"
  obtain l t s where r: "table_act lclasses ?m c a (js_left st, js_joined st, js_log st) = (l, t, s)" by (metis prod_cases3)
  from left_side.act_ok [OF assms(1) i(1) assms(3) indexed_component [OF i(2) ix] d j r [symmetric]]
    table_act_indexed [OF assms(1), of "(js_left st, js_joined st, js_log st)" a ?m c] assms(3)
    table_act_components [of "(js_left st, js_joined st, js_log st)" lty lclasses ?m c a] assms(1) i ix r
  show ?thesis by (simp add: join_inv_def left_act_def)
qed

lemma right_act_inv:
  assumes "proper rclasses" "join_inv lclasses lty rclasses rty st" "action_ok rclasses a (t_records (js_right st))"
  shows "join_inv lclasses lty rclasses rty (right_act rclasses rty lty c a st)"
proof -
  from assms(2) obtain ix where ix: "um_find (t_components (js_left st)) lty = Some ix"
    and i: "indexed rclasses (js_right st)" "indexed lclasses (js_left st)" "um_find (t_components (js_right st)) rty \<noteq> None"
    and j: "joined_ok joined_classes (matches (\<lambda>i j. (j, i)) (ic_keyer (rclasses rty)) (ic_keyer (lclasses lty)) (um_find (t_records (js_right st)))
       (um_find (t_records (js_left st)))) (js_joined st)"
    by (auto simp: join_inv_def matches_swap)
  have d: "distinct (map fst (t_records (js_left st)))" using i(2) by (simp add: indexed_def records_ok_def)
  let ?m = "maintain_joined joined_classes log_signal id 1 (ic_keyer (rclasses rty)) (\<lambda>i j. (j, i)) ix"
  obtain l t s where r: "table_act rclasses ?m c a (js_right st, js_joined st, js_log st) = (l, t, s)" by (metis prod_cases3)
  from right_side.act_ok [OF assms(1) i(1) assms(3) indexed_component [OF i(2) ix] d j r [symmetric]]
    table_act_indexed [OF assms(1), of "(js_right st, js_joined st, js_log st)" a ?m c] assms(3)
    table_act_components [of "(js_right st, js_joined st, js_log st)" rty rclasses ?m c a] assms(1) i ix r
  show ?thesis by (simp add: join_inv_def right_act_def matches_swap)
qed

lemma join_tables_inv:
  assumes "proper lclasses" "proper rclasses" "indexed lclasses left" "indexed rclasses right"
  shows "join_inv lclasses lty rclasses rty (join_tables lclasses lty rclasses rty left right)"
proof -
  note l = table_component_indexed [OF assms(1,3), of lty] and r = table_component_indexed [OF assms(2,4), of rty]
  let ?j1 = "snd (table_component joined_classes 1 (snd (table_component joined_classes 0 table_init)))"
  have "joined_ok joined_classes (matches Pair (ic_keyer (lclasses lty)) (ic_keyer (rclasses rty)) (um_find []) (um_find (t_records right))) ?j1"
    using left_side.joined_start by (simp add: matches_def)
  moreover have "distinct (map fst (t_records left))" "distinct (map fst (t_records right))"
    using assms(3,4) by (simp_all add: indexed_def records_ok_def)
  ultimately have "joined_ok joined_classes (matches Pair (ic_keyer (lclasses lty)) (ic_keyer (rclasses rty)) (um_find (t_records left)) (um_find (t_records right)))
    (fst (foldl (\<lambda>js ir. join_created joined_classes log_signal Pair (fst (table_component rclasses rty right)) (fst ir) (ic_keyer (lclasses lty) (snd ir)) js) (?j1, []) (t_records left)))"
    using left_side.populate_ok [OF r(3), of "[]" "t_records left" "ic_keyer (lclasses lty)" "(?j1, [])" log_signal] by simp
  with l r show ?thesis by (simp add: join_tables_def join_inv_def Let_def split_def)
qed

text \<open>
  C11. A join is maintained exactly: whatever was in the two tables when they were joined, and whatever
  records were then created, changed (keeping their keys), removed or cleared on either side, in any
  order, the joined table holds each pair of a left and a right record with equal keys once, and no
  other pair.
\<close>

theorem join_is_matching_pairs:
  assumes "proper lclasses" "proper rclasses" "join_history lclasses lty lc rclasses rty rc st"
  shows "distinct (map snd (t_records (js_joined st))) \<and>
    set (map snd (t_records (js_joined st))) =
      {(i, j). \<exists>a b. um_find (t_records (js_left st)) i = Some a \<and> um_find (t_records (js_right st)) j = Some b \<and>
        ic_keyer (lclasses lty) a = ic_keyer (rclasses rty) b}"
proof -
  have "join_inv lclasses lty rclasses rty st" using assms(3)
  proof (induction rule: join_history.induct)
    case (joins left right)
    then show ?case by (rule join_tables_inv [OF assms(1,2)])
  next
    case (on_left st a)
    then show ?case using left_act_inv [OF assms(1)] by blast
  next
    case (on_right st b)
    then show ?case using right_act_inv [OF assms(2)] by blast
  qed
  then show ?thesis by (simp add: join_inv_def joined_ok_def pairs_def matches_def)
qed

theorem join_is_matching_pairs_witness:
  "\<exists>st. join_history by_length 0 [] by_length 0 [] st \<and> t_records (js_left st) = [(0, ''ab''), (1, ''xyz'')] \<and>
    t_records (js_right st) = [(1, ''cde'')] \<and> set (map snd (t_records (js_joined st))) = {(1, 1)}"
proof -
  let ?l = "\<lambda>a st. left_act by_length 0 0 [] a st" and ?r = "\<lambda>a st. right_act by_length 0 0 [] a st"
  let ?st = "?r (Delete 0) (?l (Insert ''xyz'') (?r (Insert ''cde'') (?r (Insert ''cd'') (?l (Insert ''ab'') (join_tables by_length 0 by_length 0 table_init table_init)))))"
  note run = table_insert_def table_create_def record_write_def tr_commit_def commit_creation_def for_each_component_def
    table_update_def table_modify_def commit_modification_def table_delete_def tr_remove_def commit_removal_def
    table_component_def index_build_def index_created_def index_removed_def index_init_def table_init_def um_insert_def by_length_def
    unordered_place_def Let_def left_act_def right_act_def join_tables_def maintain_joined_def join_created_def equal_range_def
    join_removed_def joined_classes_def
  have h: "join_history by_length 0 [] by_length 0 [] ?st" by (intro join_history.intros indexed_init) (simp_all add: run)
  have rs: "t_records (js_left ?st) = [(0, ''ab''), (1, ''xyz'')]" "t_records (js_right ?st) = [(1, ''cde'')]" by (simp_all add: run)
  from join_is_matching_pairs [OF by_length_proper by_length_proper h]
  have "set (map snd (t_records (js_joined ?st))) = {(1, 1)}" unfolding rs by (auto simp: by_length_def split: if_splits)
  with h rs show ?thesis by blast
qed

end
