(* ===== verification/Sdb_Groups.thy ===== *)
theory Sdb_Groups
  imports Sdb_Transforms
begin

text \<open>
  \<^verbatim>\<open>group_by\<close> of \<^verbatim>\<open>sdb/transforms.h\<close>: a table with a record for every key of an
  underlying table, aggregated from the records with that key. The keyer, which also writes a key into
  a new record, the constructor and the aggregator are arguments.
\<close>

section \<open>Operations\<close>

text \<open>
  \<open>g_new g n\<close> is what the constructor of the aggregated table returns after \<open>n\<close> calls. That table has
  no subscribers before it is returned.
\<close>

record ('u, 'a, 'k) grouping =
  g_new :: "nat \<Rightarrow> 'a"
  g_set_key :: "'a \<Rightarrow> 'k \<Rightarrow> 'a"
  g_aggregate :: "'a \<Rightarrow> 'u list \<Rightarrow> 'a"

definition group_items :: "'u records \<Rightarrow> 'k index \<Rightarrow> 'k \<Rightarrow> 'u list" where
  "group_items rs ix key = List.map_filter (um_find rs) (equal_range key ix)"

text \<open>\<open>update_record\<close>: the record of the key, found or created, is aggregated and committed.\<close>

definition group_update ::
  "('a, 'k) classes \<Rightarrow> ('a, 'k, 's) subscribers \<Rightarrow> nat \<Rightarrow> ('u, 'a, 'k) grouping \<Rightarrow> 'k \<Rightarrow> 'u list \<Rightarrow> ('a, 'k) table \<times> 's \<Rightarrow> ('a, 'k) table \<times> 's" where
  "group_update aclasses notify aty g key us js =
     (case um_find (t_components (fst js)) aty of
        None \<Rightarrow> js
      | Some aindex \<Rightarrow>
          let r = unique_record (g_set_key g) (g_new g (t_next (fst js))) aindex key (fst js);
              h = tr_record (fst r)
          in case um_find (t_records (snd r)) h of
               None \<Rightarrow> js
             | Some a \<Rightarrow> tr_commit aclasses notify (fst r) (record_write h (g_aggregate g a us) (snd r), snd js))"

text \<open>The slot of \<open>removed\<close>: with the last record of a key the aggregated record goes.\<close>

definition group_removed ::
  "('a, 'k) classes \<Rightarrow> ('a, 'k, 's) subscribers \<Rightarrow> nat \<Rightarrow> ('u, 'a, 'k) grouping \<Rightarrow> 'k \<Rightarrow> 'u list \<Rightarrow> ('a, 'k) table \<times> 's \<Rightarrow> ('a, 'k) table \<times> 's" where
  "group_removed aclasses notify aty g key us js =
     (if us = [] then
        case um_find (t_components (fst js)) aty of
          None \<Rightarrow> js
        | Some aindex \<Rightarrow>
            let r = unique_record (g_set_key g) (g_new g (t_next (fst js))) aindex key (fst js)
            in tr_remove notify (fst r) (snd r, snd js)
      else group_update aclasses notify aty g key us js)"

definition on_record ::
  "('u \<Rightarrow> 'k) \<Rightarrow> nat \<Rightarrow> ('k \<Rightarrow> 'u list \<Rightarrow> 's \<Rightarrow> 's) \<Rightarrow> handle \<Rightarrow> ('u, 'k) table \<Rightarrow> 's \<Rightarrow> 's" where
  "on_record ukeyer uty f i u js =
     (case (um_find (t_records u) i, um_find (t_components u) uty) of
        (Some r, Some uindex) \<Rightarrow> f (ukeyer r) (group_items (t_records u) uindex (ukeyer r)) js
      | _ \<Rightarrow> js)"

definition group_slots ::
  "('u \<Rightarrow> 'k) \<Rightarrow> nat \<Rightarrow> ('a, 'k) classes \<Rightarrow> ('a, 'k, 's) subscribers \<Rightarrow> nat \<Rightarrow> ('u, 'a, 'k) grouping \<Rightarrow> ('u, 'k, ('a, 'k) table \<times> 's) subscribers" where
  "group_slots ukeyer uty aclasses notify aty g sig u js =
     (case sig of
        Created i \<Rightarrow> on_record ukeyer uty (group_update aclasses notify aty g) i u js
      | Modified i \<Rightarrow> on_record ukeyer uty (group_update aclasses notify aty g) i u js
      | Removed i \<Rightarrow> on_record ukeyer uty (group_removed aclasses notify aty g) i u js
      | Cleared \<Rightarrow> table_clear notify js
      | Invalidate \<Rightarrow> (fst js, notify Invalidate (fst js) (snd js)))"

definition group_by ::
  "('u, 'k) classes \<Rightarrow> nat \<Rightarrow> ('a, 'k) classes \<Rightarrow> nat \<Rightarrow> ('u, 'a, 'k) grouping \<Rightarrow> ('u, 'k) table \<Rightarrow> ('u, 'k) table \<times> ('a, 'k) table" where
  "group_by uclasses uty aclasses aty g u =
     (let u = snd (table_component uclasses uty u);
          aggregate = snd (table_component aclasses aty table_init)
      in (u, fst (foldl (\<lambda>js ir. on_record (ic_keyer (uclasses uty)) uty (group_update aclasses (\<lambda>_ _ s. s) aty g) (fst ir) u js)
           (aggregate, ()) (t_records u))))"

section \<open>Aggregates\<close>

text \<open>
  The records of a key, and a table of aggregates of given groups. The aggregates of the keys in \<open>K\<close> are
  there, but what they were made of may have changed.
\<close>

definition group_of :: "('u \<Rightarrow> 'k) \<Rightarrow> 'u records \<Rightarrow> 'k \<Rightarrow> 'u multiset" where
  "group_of ukeyer rs key = mset (filter (\<lambda>r. ukeyer r = key) (map snd rs))"

definition aggregates :: "'k set \<Rightarrow> ('a \<Rightarrow> 'k) \<Rightarrow> ('a \<Rightarrow> 'u list \<Rightarrow> 'a) \<Rightarrow> ('k \<Rightarrow> 'u multiset) \<Rightarrow> (handle \<rightharpoonup> 'a) \<Rightarrow> bool" where
  "aggregates K akey aggregate G A \<longleftrightarrow>
     (\<forall>h a. A h = Some a \<longrightarrow> G (akey a) \<noteq> {#} \<and> (akey a \<notin> K \<longrightarrow> (\<exists>a0 us. akey a0 = akey a \<and> mset us = G (akey a) \<and> a = aggregate a0 us))) \<and>
     (\<forall>h h' a a'. A h = Some a \<longrightarrow> A h' = Some a' \<longrightarrow> akey a = akey a' \<longrightarrow> h = h') \<and>
     (\<forall>k. G k \<noteq> {#} \<longrightarrow> (\<exists>h a. A h = Some a \<and> akey a = k))"

lemma aggregates_of: "aggregates K akey aggregate G A \<Longrightarrow> A h = Some a \<Longrightarrow>
    G (akey a) \<noteq> {#} \<and> (akey a \<notin> K \<longrightarrow> (\<exists>a0 us. akey a0 = akey a \<and> mset us = G (akey a) \<and> a = aggregate a0 us))"
  unfolding aggregates_def by blast

lemma aggregates_unique: "aggregates K akey aggregate G A \<Longrightarrow> A h = Some a \<Longrightarrow> A h' = Some a' \<Longrightarrow> akey a = akey a' \<Longrightarrow> h = h'"
  unfolding aggregates_def by blast

lemma aggregates_all: "aggregates K akey aggregate G A \<Longrightarrow> G k \<noteq> {#} \<Longrightarrow> \<exists>h a. A h = Some a \<and> akey a = k"
  unfolding aggregates_def by blast

lemma aggregates_empty: "aggregates K akey aggregate (\<lambda>_. {#}) Map.empty"
  by (simp add: aggregates_def)

lemma aggregates_put:
  assumes "aggregates K akey aggregate G A" "\<And>h' a'. A h' = Some a' \<Longrightarrow> akey a' = k \<longleftrightarrow> h' = h"
    and "us \<noteq> []" "akey a0 = k" "akey (aggregate a0 us) = k"
  shows "aggregates (K - {k}) akey aggregate (G(k := mset us)) (A(h \<mapsto> aggregate a0 us))"
  unfolding aggregates_def
proof (intro conjI allI impI)
  fix h1 a1 assume 1: "(A(h \<mapsto> aggregate a0 us)) h1 = Some a1"
  have "(G(k := mset us)) (akey a1) \<noteq> {#} \<and> (akey a1 \<notin> K - {k} \<longrightarrow>
    (\<exists>a0 us'. akey a0 = akey a1 \<and> mset us' = (G(k := mset us)) (akey a1) \<and> a1 = aggregate a0 us'))"
  proof (cases "h1 = h")
    case True
    with 1 assms(3-5) show ?thesis by auto
  next
    case False
    with 1 have a1: "A h1 = Some a1" by simp
    with assms(2) False have "akey a1 \<noteq> k" by blast
    with aggregates_of [OF assms(1) a1] show ?thesis by simp
  qed
  then show "(G(k := mset us)) (akey a1) \<noteq> {#}"
    "akey a1 \<notin> K - {k} \<Longrightarrow> \<exists>a0 us'. akey a0 = akey a1 \<and> mset us' = (G(k := mset us)) (akey a1) \<and> a1 = aggregate a0 us'" by blast+
next
  fix h1 h2 a1 a2 assume "(A(h \<mapsto> aggregate a0 us)) h1 = Some a1" "(A(h \<mapsto> aggregate a0 us)) h2 = Some a2" "akey a1 = akey a2"
  with aggregates_unique [OF assms(1), of h1 a1 h2 a2] assms(2) [of h1 a1] assms(2) [of h2 a2] assms(5) show "h1 = h2"
    by (auto split: if_splits)
next
  fix k' assume k': "(G(k := mset us)) k' \<noteq> {#}"
  show "\<exists>h' a. (A(h \<mapsto> aggregate a0 us)) h' = Some a \<and> akey a = k'"
  proof (cases "k' = k")
    case True
    with assms(5) show ?thesis by (intro exI [of _ h] exI [of _ "aggregate a0 us"]) simp
  next
    case False
    with k' aggregates_all [OF assms(1), of k'] obtain h1 a1 where h1: "A h1 = Some a1" "akey a1 = k'" by auto
    with assms(2) False have "h1 \<noteq> h" by blast
    with h1 show ?thesis by (intro exI [of _ h1] exI [of _ a1]) simp
  qed
qed

lemma aggregates_drop:
  assumes "aggregates K akey aggregate G A" "A h = Some a" "akey a = k"
  shows "aggregates (K - {k}) akey aggregate (G(k := {#})) (A(h := None))"
  unfolding aggregates_def
proof (intro conjI allI impI)
  fix h1 a1 assume "(A(h := None)) h1 = Some a1"
  then have 1: "A h1 = Some a1" "h1 \<noteq> h" by (auto split: if_splits)
  with aggregates_unique [OF assms(1) 1(1) assms(2)] assms(3) have "akey a1 \<noteq> k" by auto
  with aggregates_of [OF assms(1) 1(1)]
  show "(G(k := {#})) (akey a1) \<noteq> {#}"
    "akey a1 \<notin> K - {k} \<Longrightarrow> \<exists>a0 us. akey a0 = akey a1 \<and> mset us = (G(k := {#})) (akey a1) \<and> a1 = aggregate a0 us" by auto
next
  fix h1 h2 a1 a2 assume "(A(h := None)) h1 = Some a1" "(A(h := None)) h2 = Some a2" "akey a1 = akey a2"
  with aggregates_unique [OF assms(1), of h1 a1 h2 a2] show "h1 = h2" by (auto split: if_splits)
next
  fix k' assume "(G(k := {#})) k' \<noteq> {#}"
  then have k': "k' \<noteq> k" "G k' \<noteq> {#}" by (auto split: if_splits)
  from aggregates_all [OF assms(1) k'(2)] obtain h1 a1 where h1: "A h1 = Some a1" "akey a1 = k'" by blast
  with assms(2,3) k'(1) have "h1 \<noteq> h" by auto
  with h1 show "\<exists>h' a. (A(h := None)) h' = Some a \<and> akey a = k'" by (intro exI [of _ h1] exI [of _ a1]) simp
qed

text \<open>Aggregates depend on what the aggregator makes of their groups, but for the keys in \<open>K\<close>.\<close>

lemma aggregates_cong:
  assumes "aggregates K akey aggregate G A" "K \<subseteq> K'" "\<And>k a us. k \<notin> K' \<Longrightarrow> mset us = G k \<Longrightarrow> aggregate' a us = aggregate a us"
  shows "aggregates K' akey aggregate' G A"
proof -
  have "\<exists>a0 us. akey a0 = akey a \<and> mset us = G (akey a) \<and> a = aggregate' a0 us" if a: "A h = Some a" "akey a \<notin> K'" for h a
  proof -
    from aggregates_of [OF assms(1) a(1)] a(2) assms(2) obtain a0 us where "akey a0 = akey a" "mset us = G (akey a)" "a = aggregate a0 us" by blast
    with assms(3) [OF a(2), of us a0] show ?thesis by (intro exI [of _ a0] exI [of _ us]) simp
  qed
  then show ?thesis using assms(1) unfolding aggregates_def by blast
qed

section \<open>The aggregated table\<close>

text \<open>
  What \<^verbatim>\<open>group_by\<close> asks of its arguments: the keyer writes the key it reads, and the aggregator leaves
  the keys of a record alone.
\<close>

definition grouping_ok :: "('u \<Rightarrow> 'k) \<Rightarrow> ('a, 'k) classes \<Rightarrow> nat \<Rightarrow> ('u, 'a, 'k) grouping \<Rightarrow> bool" where
  "grouping_ok ukeyer aclasses aty g \<longleftrightarrow> proper aclasses \<and> (\<forall>a r. ic_keyer (aclasses aty) (g_set_key g a (ukeyer r)) = ukeyer r) \<and>
     (\<forall>ty a us. ic_keyer (aclasses ty) (g_aggregate g a us) = ic_keyer (aclasses ty) a)"

definition aggregated ::
  "'k set \<Rightarrow> ('a, 'k) classes \<Rightarrow> nat \<Rightarrow> ('u, 'a, 'k) grouping \<Rightarrow> ('k \<Rightarrow> 'u multiset) \<Rightarrow> ('a, 'k) table \<Rightarrow> bool" where
  "aggregated K aclasses aty g G t \<longleftrightarrow> indexed aclasses t \<and> um_find (t_components t) aty \<noteq> None \<and>
     aggregates K (ic_keyer (aclasses aty)) (g_aggregate g) G (um_find (t_records t))"

lemma record_write_twice: "record_write h r (record_write h r' t) = record_write h r t"
  by (simp add: record_write_def)

lemma find_inserted:
  assumes "proper classes" "indexed classes t"
  shows "um_find (t_records (inserted classes r t)) = (um_find (t_records t))(t_next t \<mapsto> r)" "um_find (t_records t) (t_next t) = None"
proof -
  have "records_ok t" using assms(2) by (simp add: indexed_def)
  then show n: "um_find (t_records t) (t_next t) = None" using records_fresh by (auto simp: map_of_eq_None_iff)
  then show "um_find (t_records (inserted classes r t)) = (um_find (t_records t))(t_next t \<mapsto> r)"
    by (auto simp: inserted_indexed(2) [OF assms] map_add_def split: option.splits)
qed

text \<open>The record of a key, by the unique index.\<close>

lemma unique_lookup:
  assumes "indexed aclasses t" "um_find (t_components t) aty = Some ix"
  shows "equal_range k ix = h # hs \<Longrightarrow> \<exists>a. um_find (t_records t) h = Some a \<and> ic_keyer (aclasses aty) a = k"
    and "equal_range k ix = [] \<Longrightarrow> um_find (t_records t) h' = Some a' \<Longrightarrow> ic_keyer (aclasses aty) a' \<noteq> k"
proof -
  have "distinct (map fst (t_records t))" using assms(1) by (simp add: indexed_def records_ok_def)
  with equal_range_inv(2) [OF indexed_component [OF assms], of k]
  have e: "set (equal_range k ix) = {h. \<exists>a. um_find (t_records t) h = Some a \<and> ic_keyer (aclasses aty) a = k}" by simp
  show "\<exists>a. um_find (t_records t) h = Some a \<and> ic_keyer (aclasses aty) a = k" if "equal_range k ix = h # hs"
  proof -
    from that have "h \<in> set (equal_range k ix)" by simp
    then show ?thesis unfolding e by simp
  qed
  show "ic_keyer (aclasses aty) a' \<noteq> k" if "equal_range k ix = []" "um_find (t_records t) h' = Some a'"
    using e that by auto
qed

text \<open>What a slot does is a single action on the aggregated table.\<close>

lemma group_update_act:
  assumes "grouping_ok ukeyer aclasses aty g" "aggregated K aclasses aty g G t" "us \<noteq> []"
  shows "\<exists>a. action_ok aclasses a (t_records t) \<and> group_update aclasses notify aty g (ukeyer r) us (t, s) = table_act aclasses notify (g_new g (t_next t)) a (t, s) \<and>
    aggregated (K - {ukeyer r}) aclasses aty g (G(ukeyer r := mset us)) (fst (table_act aclasses notify (g_new g (t_next t)) a (t, s)))"
proof -
  let ?k = "ukeyer r"
  from assms(2) obtain ix where ix: "um_find (t_components t) aty = Some ix" "indexed aclasses t"
    and A: "aggregates K (ic_keyer (aclasses aty)) (g_aggregate g) G (um_find (t_records t))" by (auto simp: aggregated_def)
  have ok: "records_ok t" and p: "proper aclasses" using ix(2) assms(1) by (simp_all add: indexed_def grouping_ok_def)
  have key: "ic_keyer (aclasses ty) (g_aggregate g a us) = ic_keyer (aclasses ty) a" for ty a us using assms(1) by (simp add: grouping_ok_def)
  note look = unique_lookup [OF ix(2,1), of ?k]
  show ?thesis
  proof (cases "equal_range ?k ix")
    case (Cons h hs)
    then obtain a where a: "um_find (t_records t) h = Some a" "ic_keyer (aclasses aty) a = ?k" using look(1) by blast
    have "group_update aclasses notify aty g ?k us (t, s) = table_act aclasses notify (g_new g (t_next t)) (Update h (g_aggregate g a us)) (t, s)"
      using a by (simp add: group_update_def ix(1) unique_record_def Cons table_modify_def table_update_def Let_def)
    moreover have "action_ok aclasses (Update h (g_aggregate g a us)) (t_records t)" using a(1) key by simp
    moreover have "ic_keyer (aclasses aty) a' = ?k \<longleftrightarrow> h' = h" if "um_find (t_records t) h' = Some a'" for h' a'
      using aggregates_unique [OF A that a(1)] a that by auto
    from aggregates_put [OF A this assms(3) a(2)] record_write_indexed [OF ix(2) a(1), of "g_aggregate g a us"] key a(2) ix(1)
    have "aggregated (K - {?k}) aclasses aty g (G(?k := mset us)) (record_write h (g_aggregate g a us) t)"
      unfolding aggregated_def by (simp del: fun_upd_apply)
    ultimately show ?thesis by (intro exI [of _ "Update h (g_aggregate g a us)"]) (simp add: table_update_eq)
  next
    case Nil
    let ?n = "g_new g (t_next t)"
    let ?v = "g_set_key g ?n ?k"
    have v: "ic_keyer (aclasses aty) ?v = ?k" using assms(1) by (simp add: grouping_ok_def)
    have f: "um_find (t_records (record_write (t_next t) ?v (snd (table_create ?n t)))) (t_next t) = Some ?v"
      using find_inserted(2) [OF p ix(2)] by (simp add: record_write_created [OF ok] map_add_def)
    have tr: "fst (table_create ?n t) = \<lparr>tr_record = t_next t, tr_new = True\<rparr>" by (simp add: table_create_def)
    have "unique_record (g_set_key g) ?n ix ?k t =
        (\<lparr>tr_record = t_next t, tr_new = True\<rparr>, record_write (t_next t) ?v (snd (table_create ?n t)))"
      by (simp add: unique_record_def Nil split_def tr)
    then have "group_update aclasses notify aty g ?k us (t, s) = table_act aclasses notify ?n (Insert (g_aggregate g ?v us)) (t, s)"
      using f by (simp add: group_update_def ix(1) record_write_twice table_insert_def Let_def split_def tr)
    moreover have "ic_keyer (aclasses aty) a' = ?k \<longleftrightarrow> h' = t_next t" if "um_find (t_records t) h' = Some a'" for h' a'
      using look(2) [OF Nil that] that find_inserted(2) [OF p ix(2)] by auto
    from aggregates_put [OF A this assms(3) v] key v inserted_indexed(1) [OF p ix(2)] find_inserted(1) [OF p ix(2)] components_stay(1) [of t aty] ix(1)
    have "aggregated (K - {?k}) aclasses aty g (G(?k := mset us)) (inserted aclasses (g_aggregate g ?v us) t)"
      unfolding aggregated_def by (simp del: fun_upd_apply)
    ultimately show ?thesis by (intro exI [of _ "Insert (g_aggregate g ?v us)"]) (simp add: table_insert_eq [OF ok])
  qed
qed

lemma group_removed_act:
  assumes "grouping_ok ukeyer aclasses aty g" "aggregated K aclasses aty g G t" "G (ukeyer r) \<noteq> {#}"
  shows "\<exists>a. action_ok aclasses a (t_records t) \<and> group_removed aclasses notify aty g (ukeyer r) us (t, s) = table_act aclasses notify (g_new g (t_next t)) a (t, s) \<and>
    aggregated (K - {ukeyer r}) aclasses aty g (G(ukeyer r := mset us)) (fst (table_act aclasses notify (g_new g (t_next t)) a (t, s)))"
proof (cases "us = []")
  case True
  let ?k = "ukeyer r"
  from assms(2) obtain ix where ix: "um_find (t_components t) aty = Some ix" "indexed aclasses t"
    and A: "aggregates K (ic_keyer (aclasses aty)) (g_aggregate g) G (um_find (t_records t))" by (auto simp: aggregated_def)
  from aggregates_all [OF A assms(3)] obtain h0 a0 where "um_find (t_records t) h0 = Some a0" "ic_keyer (aclasses aty) a0 = ?k" by blast
  with unique_lookup(2) [OF ix(2,1), of ?k h0 a0] have "equal_range ?k ix \<noteq> []" by blast
  then obtain h hs where hs: "equal_range ?k ix = h # hs" by (cases "equal_range ?k ix") auto
  from unique_lookup(1) [OF ix(2,1) this] obtain a where a: "um_find (t_records t) h = Some a" "ic_keyer (aclasses aty) a = ?k" by blast
  have "group_removed aclasses notify aty g ?k us (t, s) = table_act aclasses notify (g_new g (t_next t)) (Delete h) (t, s)"
    by (simp add: group_removed_def True ix(1) unique_record_def hs table_delete_def Let_def)
  moreover from aggregates_drop [OF A a] deleted_indexed [OF ix(2)] components_stay(3) [of t aty] ix(1) True
  have "aggregated (K - {?k}) aclasses aty g (G(?k := mset us)) (deleted h t)" unfolding aggregated_def by (simp add: delete_conv' del: fun_upd_apply)
  ultimately show ?thesis using a(1) by (intro exI [of _ "Delete h"]) (simp add: table_delete_eq)
next
  case False
  with group_update_act [OF assms(1,2) False, of notify r s] show ?thesis by (simp add: group_removed_def)
qed

section \<open>Following the underlying table\<close>

lemma group_items_map: "(\<And>h. h \<in> set (equal_range k ix) \<Longrightarrow> um_find rs h \<noteq> None) \<Longrightarrow>
    group_items rs ix k = map (\<lambda>h. the (um_find rs h)) (equal_range k ix)"
  unfolding group_items_def by (induction "equal_range k ix") (auto simp: List.map_filter_def)

lemma group_items_mset:
  assumes "index_inv cls rs ix" "distinct (map fst rs)"
  shows "mset (group_items rs ix k) = group_of (ic_keyer cls) rs k"
proof -
  let ?hs = "equal_range k ix" and ?f = "\<lambda>h. (h, the (um_find rs h))"
  let ?ps = "filter (\<lambda>x. ic_keyer cls (snd x) = k) rs"
  have hs: "distinct ?hs" "set ?hs = {h. \<exists>r. um_find rs h = Some r \<and> ic_keyer cls r = k}"
    using equal_range_inv [OF assms(1), of k] assms(2) by simp_all
  have "set (map ?f ?hs) = set ?ps" using assms(2) by (auto simp: hs(2) image_iff)
  moreover have "distinct (map ?f ?hs)" using hs(1) by (simp add: distinct_map inj_on_def)
  moreover have "distinct ?ps" using assms(2) by (simp add: distinct_map)
  ultimately have "mset (map ?f ?hs) = mset ?ps" by (simp only: set_eq_iff_mset_eq_distinct)
  then have "image_mset snd (mset (map ?f ?hs)) = image_mset snd (mset ?ps)" by simp
  moreover have "group_items rs ix k = map (\<lambda>h. the (um_find rs h)) ?hs" by (rule group_items_map) (auto simp: hs(2))
  ultimately show ?thesis by (simp add: group_of_def filter_map comp_def image_mset.compositionality)
qed

lemma group_of_simps:
  "group_of f (rs @ [(h, r)]) = (group_of f rs)(f r := add_mset r (group_of f rs (f r)))"
  "k \<noteq> f r \<Longrightarrow> (\<And>r'. (h, r') \<in> set rs \<Longrightarrow> f r' = f r) \<Longrightarrow> group_of f (map (\<lambda>x. if fst x = h then (h, r) else x) rs) k = group_of f rs k"
  "(\<And>r'. (h, r') \<in> set rs \<Longrightarrow> f r' \<noteq> k) \<Longrightarrow> group_of f (um_erase h rs) k = group_of f rs k"
  "group_of f [] = (\<lambda>_. {#})"
proof -
  show "group_of f (rs @ [(h, r)]) = (group_of f rs)(f r := add_mset r (group_of f rs (f r)))" "group_of f [] = (\<lambda>_. {#})"
    by (auto simp: group_of_def)
  show "group_of f (map (\<lambda>x. if fst x = h then (h, r) else x) rs) k = group_of f rs k"
    if "k \<noteq> f r" "\<And>r'. (h, r') \<in> set rs \<Longrightarrow> f r' = f r"
    using that(2)
  proof (induction rs)
    case (Cons x rs)
    then have "group_of f (map (\<lambda>x. if fst x = h then (h, r) else x) rs) k = group_of f rs k" by simp
    moreover have "fst x = h \<Longrightarrow> f (snd x) = f r" using Cons.prems [of "snd x"] by (cases x) simp
    ultimately show ?case using that(1) by (auto simp: group_of_def)
  qed simp
  show "group_of f (um_erase h rs) k = group_of f rs k" if "\<And>r'. (h, r') \<in> set rs \<Longrightarrow> f r' \<noteq> k"
    using that
  proof (induction rs)
    case (Cons x rs)
    then have "group_of f (um_erase h rs) k = group_of f rs k" by simp
    moreover have "fst x = h \<Longrightarrow> f (snd x) \<noteq> k" using Cons.prems [of "snd x"] by (cases x) simp
    ultimately show ?case by (auto simp: group_of_def)
  qed simp
qed

lemma group_of_member: "(h, r) \<in> set rs \<Longrightarrow> group_of f rs (f r) \<noteq> {#}"
  by (force simp: group_of_def filter_empty_conv)

definition group_inv ::
  "'k set \<Rightarrow> ('u, 'k) classes \<Rightarrow> nat \<Rightarrow> ('a, 'k) classes \<Rightarrow> nat \<Rightarrow> ('u, 'a, 'k) grouping \<Rightarrow> ('u, 'k) table \<Rightarrow> ('a, 'k) table \<Rightarrow> bool" where
  "group_inv K uclasses uty aclasses aty g u t \<longleftrightarrow> indexed uclasses u \<and> um_find (t_components u) uty \<noteq> None \<and>
     aggregated K aclasses aty g (group_of (ic_keyer (uclasses uty)) (t_records u)) t"

text \<open>A record that is there after its creation or modification updates its group.\<close>

lemma on_record_update:
  assumes "grouping_ok (ic_keyer (uclasses uty)) aclasses aty g" "aggregated K aclasses aty g G t"
    and "indexed uclasses u" "um_find (t_components u) uty \<noteq> None" "um_find (t_records u) i = Some r"
    and "\<And>k. k \<noteq> ic_keyer (uclasses uty) r \<Longrightarrow> G' k = G k"
    and "G' (ic_keyer (uclasses uty) r) = group_of (ic_keyer (uclasses uty)) (t_records u) (ic_keyer (uclasses uty) r)"
  shows "\<exists>a. action_ok aclasses a (t_records t) \<and>
    on_record (ic_keyer (uclasses uty)) uty (group_update aclasses notify aty g) i u (t, s) = table_act aclasses notify (g_new g (t_next t)) a (t, s) \<and>
    aggregated (K - {ic_keyer (uclasses uty) r}) aclasses aty g G' (fst (table_act aclasses notify (g_new g (t_next t)) a (t, s)))"
proof -
  let ?f = "ic_keyer (uclasses uty)"
  from assms(4) obtain ix where ix: "um_find (t_components u) uty = Some ix" by blast
  have d: "distinct (map fst (t_records u))" using assms(3) by (simp add: indexed_def records_ok_def)
  let ?us = "group_items (t_records u) ix (?f r)"
  have us: "mset ?us = group_of ?f (t_records u) (?f r)" by (rule group_items_mset [OF indexed_component [OF assms(3) ix] d])
  have "(i, r) \<in> set (t_records u)" using assms(5) by (rule map_of_SomeD)
  from group_of_member [OF this, of ?f] us have "?us \<noteq> []" by auto
  note act = group_update_act [OF assms(1,2) this, of notify r s]
  have "G(?f r := mset ?us) = G'" using assms(6,7) us by auto
  with act show ?thesis by (simp add: on_record_def assms(5) ix)
qed

lemma on_record_removed:
  assumes "grouping_ok (ic_keyer (uclasses uty)) aclasses aty g" "aggregated K aclasses aty g (group_of (ic_keyer (uclasses uty)) (t_records u)) t"
    and "indexed uclasses u" "um_find (t_components u) uty \<noteq> None" "um_find (t_records u) h = Some r"
  shows "\<exists>a. action_ok aclasses a (t_records t) \<and>
    on_record (ic_keyer (uclasses uty)) uty (group_removed aclasses notify aty g) h (deindexed h u) (t, s) = table_act aclasses notify (g_new g (t_next t)) a (t, s) \<and>
    aggregated (K - {ic_keyer (uclasses uty) r}) aclasses aty g (group_of (ic_keyer (uclasses uty)) (um_erase h (t_records u)))
      (fst (table_act aclasses notify (g_new g (t_next t)) a (t, s)))"
proof -
  let ?f = "ic_keyer (uclasses uty)" and ?rs = "t_records u"
  from assms(4) obtain ix where ix: "um_find (t_components u) uty = Some ix" by blast
  have d: "distinct (map fst ?rs)" using assms(3) by (simp add: indexed_def records_ok_def)
  have inv: "index_inv (uclasses uty) (um_erase h ?rs) (index_removed h ix)" by (rule index_inv_removed [OF indexed_component [OF assms(3) ix] d])
  let ?us = "group_items ?rs (index_removed h ix) (?f r)"
  have "h \<notin> set (equal_range (?f r) (index_removed h ix))"
    using equal_range_inv(2) [OF inv, of "?f r"] delete_notin_dom [of h ?rs] by force
  then have "?us = group_items (um_erase h ?rs) (index_removed h ix) (?f r)"
    unfolding group_items_def List.map_filter_def by (auto simp: um_find_erase intro!: map_cong filter_cong)
  then have us: "mset ?us = group_of ?f (um_erase h ?rs) (?f r)" using group_items_mset [OF inv, of "?f r"] d by (simp add: distinct_delete)
  have hr: "(h, r) \<in> set ?rs" using assms(5) by (rule map_of_SomeD)
  note act = group_removed_act [OF assms(1,2) group_of_member [OF hr], of notify ?us s]
  have "group_of ?f (um_erase h ?rs) k = group_of ?f ?rs k" if "k \<noteq> ?f r" for k
    using that eq_key_imp_eq_value [OF d hr] by (intro group_of_simps(3)) blast
  then have "(group_of ?f ?rs)(?f r := mset ?us) = group_of ?f (um_erase h ?rs)" using us by auto
  with act show ?thesis by (simp add: on_record_def deindexed_simps assms(5) ix)
qed

lemma group_inv_mono: "group_inv K uclasses uty aclasses aty g u t \<Longrightarrow> K \<subseteq> K' \<Longrightarrow> group_inv K' uclasses uty aclasses aty g u t"
  unfolding group_inv_def aggregated_def using aggregates_cong by blast

text \<open>
  So what a change of the underlying table does to the aggregated one is an action on the latter, or passes
  on \<open>Invalidate\<close>: what such actions keep of the aggregated table and its subscribers is kept.
\<close>

lemma group_act:
  assumes "proper uclasses" "grouping_ok (ic_keyer (uclasses uty)) aclasses aty g" "group_inv K uclasses uty aclasses aty g u t"
    and "action_ok uclasses b (t_records u)"
    and P: "P (t, s)" "\<And>t s a c. indexed aclasses t \<Longrightarrow> action_ok aclasses a (t_records t) \<Longrightarrow> P (t, s) \<Longrightarrow> P (table_act aclasses notify c a (t, s))"
      "\<And>t s. P (t, s) \<Longrightarrow> P (t, notify Invalidate t s)"
    and r: "table_act uclasses (group_slots (ic_keyer (uclasses uty)) uty aclasses notify aty g) c b (u, t, s) = (u', t', s')"
  shows "group_inv (case b of Update h r \<Rightarrow> K - {ic_keyer (uclasses uty) r} | _ \<Rightarrow> K) uclasses uty aclasses aty g u' t' \<and> P (t', s')"
proof -
  let ?f = "ic_keyer (uclasses uty)" and ?n = "group_slots (ic_keyer (uclasses uty)) uty aclasses notify aty g"
  from assms(3) have u: "indexed uclasses u" "um_find (t_components u) uty \<noteq> None"
    and t: "aggregated K aclasses aty g (group_of ?f (t_records u)) t" by (simp_all add: group_inv_def)
  have ok: "records_ok u" and d: "distinct (map fst (t_records u))" and it: "indexed aclasses t"
    using u(1) t by (simp_all add: indexed_def records_ok_def aggregated_def)
  have keep: "indexed uclasses u'" "um_find (t_components u') uty \<noteq> None"
    using table_act_indexed [OF assms(1), of "(u, t, s)" b ?n c] table_act_components [of "(u, t, s)" uty uclasses ?n c b] assms(1,4) u by (simp_all add: r)
  have mono: "aggregated (K - X) aclasses aty g G t1 \<Longrightarrow> aggregated K aclasses aty g G t1" for X G t1
    unfolding aggregated_def using aggregates_cong by blast
  have "aggregated (case b of Update h r \<Rightarrow> K - {?f r} | _ \<Rightarrow> K) aclasses aty g (group_of ?f (t_records u')) t' \<and> P (t', s')"
  proof (cases b)
    case (Insert x)
    note i = inserted_indexed [OF assms(1) u(1), of x] and f = find_inserted [OF assms(1) u(1)]
    have "um_find (t_records (inserted uclasses x u)) (t_next u) = Some x" unfolding f(1) by simp
    moreover have e: "u' = inserted uclasses x u" "(t', s') = on_record ?f uty (group_update aclasses notify aty g) (t_next u) (inserted uclasses x u) (t, s)"
      using r [symmetric] by (simp_all add: Insert table_insert_eq [OF ok] group_slots_def)
    ultimately show ?thesis
      using on_record_update [OF assms(2) t i(1) _, of "t_next u" x "group_of ?f (t_records (inserted uclasses x u))" notify s]
        keep(2) P(2) [OF it _ P(1)] by (simp add: Insert i(2) group_of_simps(1)) (metis fst_conv mono)
  next
    case (Update h x)
    with assms(4) obtain x' where x': "um_find (t_records u) h = Some x'" "\<And>ty. ic_keyer (uclasses ty) x = ic_keyer (uclasses ty) x'" by auto
    note w = record_write_indexed [OF u(1) x']
    have "um_find (t_records (record_write h x u)) h = Some x" unfolding w(3) by simp
    moreover have "group_of ?f (t_records (record_write h x u)) k = group_of ?f (t_records u) k" if "k \<noteq> ?f x" for k
      using that x' eq_key_imp_eq_value [OF d map_of_SomeD [OF x'(1)]] unfolding record_write_def by (simp add: group_of_simps(2))
    moreover have e: "u' = record_write h x u" "(t', s') = on_record ?f uty (group_update aclasses notify aty g) h (record_write h x u) (t, s)"
      using r [symmetric] by (simp_all add: Update table_update_eq group_slots_def)
    ultimately show ?thesis
      using on_record_update [OF assms(2) t w(1), of h x "group_of ?f (t_records (record_write h x u))" notify s] u(2) w(2) P(2) [OF it _ P(1)]
      by (simp add: Update) (metis fst_conv)
  next
    case (Delete h)
    with assms(4) obtain x where x: "um_find (t_records u) h = Some x" by auto
    have e: "u' = deleted h u" "(t', s') = on_record ?f uty (group_removed aclasses notify aty g) h (deindexed h u) (t, s)"
      using r [symmetric] by (simp_all add: Delete table_delete_eq group_slots_def)
    show ?thesis using on_record_removed [OF assms(2) t u x, of notify s] P(2) [OF it _ P(1)] unfolding e(1) e(2) [symmetric]
      by (simp add: Delete deleted_indexed(2) [OF u(1)]) (metis fst_conv mono)
  next
    case Clear
    have e: "u' = emptied u" "(t', s') = (emptied t, notify Invalidate (emptied t) (snd (table_clear notify (t, s))))"
      using r [symmetric] by (simp_all add: Clear table_clear_eq group_slots_def)
    have "P (table_clear notify (t, s))" using P(2) [OF it _ P(1), of Clear] by simp
    then have "P (t', s')" using P(3) by (simp add: e(2) table_clear_eq)
    moreover have "aggregated K aclasses aty g (\<lambda>_. {#}) (emptied t)"
      using t components_stay(4) [of t aty] by (simp add: emptied_indexed aggregated_def aggregates_empty)
    ultimately show ?thesis using e by (simp add: Clear emptied_indexed group_of_simps(4))
  next
    case (Use_Index ty)
    with r P(1) t table_component_indexed(2) [OF assms(1) u(1), of ty] show ?thesis by auto
  qed
  with keep show ?thesis by (simp add: group_inv_def)
qed

lemma group_by_inv:
  fixes uclasses :: "('u, 'k) classes"
  assumes "proper uclasses" "grouping_ok (ic_keyer (uclasses uty)) aclasses aty g" "indexed uclasses u0"
    and r: "group_by uclasses uty aclasses aty g u0 = (u, t)"
  shows "group_inv {} uclasses uty aclasses aty g u t" "u = snd (table_component uclasses uty u0)"
proof -
  let ?f = "ic_keyer (uclasses uty)" and ?a = "snd (table_component aclasses aty table_init)"
  show ue: "u = snd (table_component uclasses uty u0)" using r by (simp add: group_by_def Let_def)
  note u = table_component_indexed [OF assms(1,3), of uty, folded ue]
  have p: "proper aclasses" using assms(2) by (simp add: grouping_ok_def)
  note a = table_component_indexed [OF p indexed_init, of aty]
  define G where "G xs k = (if k \<in> ?f ` snd ` set xs then group_of ?f (t_records u) k else {#})" for xs :: "'u records" and k
  let ?step = "\<lambda>js ir. on_record ?f uty (group_update aclasses (\<lambda>_ _ s. s) aty g) (fst ir) u js"
  have d: "distinct (map fst (t_records u))" using u(1) by (simp add: indexed_def records_ok_def)
  have "aggregated {} aclasses aty g (G xs) (fst (foldl ?step (?a, ()) xs))" if "set xs \<subseteq> set (t_records u)" for xs
    using that
  proof (induction xs rule: rev_induct)
    case Nil
    with a show ?case by (simp add: aggregated_def G_def aggregates_empty table_init_def)
  next
    case (snoc x xs)
    obtain i r where x: "x = (i, r)" by fastforce
    have r: "um_find (t_records u) i = Some r" using snoc.prems d by (simp add: x)
    have "aggregated {} aclasses aty g (G xs) (fst (foldl ?step (?a, ()) xs))" using snoc by simp
    moreover have "k \<noteq> ?f r \<Longrightarrow> G (xs @ [x]) k = G xs k" "G (xs @ [x]) (?f r) = group_of ?f (t_records u) (?f r)" for k
      by (simp_all add: G_def x)
    moreover obtain t0 where t0: "foldl ?step (?a, ()) xs = (t0, ())" by (cases "foldl ?step (?a, ()) xs") simp
    ultimately obtain b where "?step (t0, ()) x = table_act aclasses (\<lambda>_ _ s. s) (g_new g (t_next t0)) b (t0, ())"
      "aggregated {} aclasses aty g (G (xs @ [x])) (fst (table_act aclasses (\<lambda>_ _ s. s) (g_new g (t_next t0)) b (t0, ())))"
      using on_record_update [OF assms(2) _ u(1) _ r, of "{}" "G xs" t0 "G (xs @ [x])" "\<lambda>_ _ s. s" "()"] u(4) by (auto simp: x)
    then show ?case unfolding foldl_append foldl.simps t0 by simp
  qed
  from this [of "t_records u"] have "aggregated {} aclasses aty g (G (t_records u)) (fst (foldl ?step (?a, ()) (t_records u)))" by simp
  moreover have "group_of ?f (t_records u) k = {#}" if "k \<notin> ?f ` snd ` set (t_records u)" for k
    using that by (auto simp: group_of_def filter_empty_conv)
  then have "G (t_records u) = group_of ?f (t_records u)" by (auto simp: G_def)
  moreover have "t = fst (foldl ?step (?a, ()) (t_records u))" using r by (simp add: group_by_def Let_def ue)
  ultimately show "group_inv {} uclasses uty aclasses aty g u t" using u by (simp add: group_inv_def)
qed

text \<open>What the invariant says of the records.\<close>

lemma group_inv_rows:
  assumes "group_inv {} uclasses uty aclasses aty g u t"
  shows "(\<exists>r\<in>ran (um_find (t_records u)). ic_keyer (uclasses uty) r = k) \<longleftrightarrow> (\<exists>!h. \<exists>a. um_find (t_records t) h = Some a \<and> ic_keyer (aclasses aty) a = k)"
    "a \<in> ran (um_find (t_records t)) \<Longrightarrow> \<exists>a0 us. a = g_aggregate g a0 us \<and> ic_keyer (aclasses aty) a0 = ic_keyer (aclasses aty) a \<and>
      mset us = mset (filter (\<lambda>r. ic_keyer (uclasses uty) r = ic_keyer (aclasses aty) a) (map snd (t_records u)))"
proof -
  let ?f = "ic_keyer (uclasses uty)" and ?akey = "ic_keyer (aclasses aty)" and ?A = "um_find (t_records t)"
  have A: "aggregates {} ?akey (g_aggregate g) (group_of ?f (t_records u)) ?A" and d: "distinct (map fst (t_records u))"
    using assms by (simp_all add: group_inv_def aggregated_def indexed_def records_ok_def)
  have occurs: "(\<exists>r\<in>ran (um_find (t_records u)). ?f r = k) \<longleftrightarrow> group_of ?f (t_records u) k \<noteq> {#}"
    using d by (force simp: ran_def group_of_def filter_empty_conv)
  have "group_of ?f (t_records u) k \<noteq> {#} \<longleftrightarrow> (\<exists>!h. \<exists>a. ?A h = Some a \<and> ?akey a = k)"
  proof
    assume "group_of ?f (t_records u) k \<noteq> {#}"
    from aggregates_all [OF A this] obtain h a where h: "?A h = Some a" "?akey a = k" by blast
    show "\<exists>!h. \<exists>a. ?A h = Some a \<and> ?akey a = k"
    proof (rule ex1I [of _ h])
      show "\<exists>a. ?A h = Some a \<and> ?akey a = k" using h by blast
      fix h' assume "\<exists>a. ?A h' = Some a \<and> ?akey a = k"
      then obtain a' where "?A h' = Some a'" "?akey a' = k" by blast
      from aggregates_unique [OF A this(1) h(1)] this(2) h(2) show "h' = h" by simp
    qed
  next
    assume "\<exists>!h. \<exists>a. ?A h = Some a \<and> ?akey a = k"
    then obtain h a where "?A h = Some a" "?akey a = k" by blast
    with aggregates_of [OF A, of h a] show "group_of ?f (t_records u) k \<noteq> {#}" by simp
  qed
  then show "(\<exists>r\<in>ran (um_find (t_records u)). ?f r = k) \<longleftrightarrow> (\<exists>!h. \<exists>a. ?A h = Some a \<and> ?akey a = k)" unfolding occurs .
  show "\<exists>a0 us. a = g_aggregate g a0 us \<and> ?akey a0 = ?akey a \<and> mset us = mset (filter (\<lambda>r. ?f r = ?akey a) (map snd (t_records u)))" if "a \<in> ran ?A"
  proof -
    from that obtain h where "?A h = Some a" by (auto simp: ran_def)
    with aggregates_of [OF A this] show ?thesis unfolding group_of_def by auto
  qed
qed

section \<open>Properties\<close>

inductive group_history ::
  "('u, 'k) classes \<Rightarrow> nat \<Rightarrow> 'u \<Rightarrow> ('a, 'k) classes \<Rightarrow> ('a, 'k, 's) subscribers \<Rightarrow> nat \<Rightarrow> ('u, 'a, 'k) grouping \<Rightarrow> ('u, 'k) table \<times> ('a, 'k) table \<times> 's \<Rightarrow> bool"
  for uclasses uty c aclasses notify aty g where
  grouped: "indexed uclasses u0 \<Longrightarrow> group_by uclasses uty aclasses aty g u0 = (u, t) \<Longrightarrow> group_history uclasses uty c aclasses notify aty g (u, t, s)"
| changed: "group_history uclasses uty c aclasses notify aty g st \<Longrightarrow> action_ok uclasses a (t_records (fst st)) \<Longrightarrow>
    group_history uclasses uty c aclasses notify aty g (table_act uclasses (group_slots (ic_keyer (uclasses uty)) uty aclasses notify aty g) c a st)"

text \<open>
  C12. A grouped table is maintained exactly: whatever the table held when it was grouped and whatever
  was then done to it, the grouped table has one record for every key that occurs, none for other keys,
  and each is what the aggregator makes of exactly the present records with its key, whoever subscribed to
  its signals.
\<close>

theorem group_by_is_aggregation:
  assumes "proper uclasses" "grouping_ok (ic_keyer (uclasses uty)) aclasses aty g" "group_history uclasses uty c aclasses notify aty g (u, t, s)"
  shows "(\<forall>k. (\<exists>r\<in>ran (um_find (t_records u)). ic_keyer (uclasses uty) r = k) \<longleftrightarrow>
      (\<exists>!h. \<exists>a. um_find (t_records t) h = Some a \<and> ic_keyer (aclasses aty) a = k)) \<and>
    (\<forall>a\<in>ran (um_find (t_records t)). \<exists>a0 us. a = g_aggregate g a0 us \<and> ic_keyer (aclasses aty) a0 = ic_keyer (aclasses aty) a \<and>
      mset us = mset (filter (\<lambda>r. ic_keyer (uclasses uty) r = ic_keyer (aclasses aty) a) (map snd (t_records u))))"
proof -
  have "group_inv {} uclasses uty aclasses aty g (fst st) (fst (snd st))" if "group_history uclasses uty c aclasses notify aty g st" for st using that
  proof (induction rule: group_history.induct)
    case (grouped u0 u t s)
    then show ?case using group_by_inv [OF assms(1,2)] by simp
  next
    case (changed st a)
    obtain u t s where st: "st = (u, t, s)" by (metis prod_cases3)
    obtain u' t' s' where r: "table_act uclasses (group_slots (ic_keyer (uclasses uty)) uty aclasses notify aty g) c a st = (u', t', s')" by (metis prod_cases3)
    have "group_inv (case a of Update h r \<Rightarrow> {} - {ic_keyer (uclasses uty) r} | _ \<Rightarrow> {}) uclasses uty aclasses aty g u' t' \<and> True"
      using changed by (intro group_act [OF assms(1,2), where P = "\<lambda>_. True" and notify = notify and b = a and u = u and t = t and s = s and s' = s' and c = c])
        (simp_all add: st r [unfolded st])
    then show ?case by (auto simp: r split: table_action.splits)
  qed
  from this [OF assms(3)] have "group_inv {} uclasses uty aclasses aty g u t" by simp
  from group_inv_rows [OF this] show ?thesis by blast
qed

definition by_key :: "(nat \<times> nat, nat) classes" where
  "by_key ty = \<lparr>ic_keyer = fst, ic_place = unordered_place\<rparr>"

definition summing :: "(string, nat \<times> nat, nat) grouping" where
  "summing = \<lparr>g_new = (\<lambda>n. (0, 0)), g_set_key = (\<lambda>a k. (k, snd a)), g_aggregate = (\<lambda>a us. (fst a, length us))\<rparr>"

theorem group_by_is_aggregation_witness:
  "\<exists>t s. group_history by_length 0 [] by_key log_signal 0 summing (\<lparr>t_records = [(1, ''cd''), (2, ''efg'')], t_next = 3, t_components = t\<rparr>, s) \<and>
    (\<exists>!h. \<exists>a. um_find (t_records (fst s)) h = Some a \<and> fst a = 2)"
proof -
  let ?act = "\<lambda>a st. table_act by_length (group_slots length 0 by_key log_signal 0 summing) [] a st"
  let ?gt = "group_by by_length 0 by_key 0 summing table_init"
  let ?st = "?act (Delete 0) (?act (Insert ''efg'') (?act (Insert ''cd'') (?act (Insert ''ab'') (fst ?gt, snd ?gt, []))))"
  note run = table_insert_def table_create_def record_write_def tr_commit_def commit_creation_def for_each_component_def
    table_update_def table_modify_def commit_modification_def table_delete_def tr_remove_def commit_removal_def
    table_component_def index_build_def index_created_def index_removed_def index_init_def table_init_def um_insert_def by_length_def
    unordered_place_def Let_def equal_range_def group_by_def group_slots_def on_record_def group_update_def group_removed_def
    unique_record_def by_key_def summing_def group_items_def List.map_filter_def
  have l: "ic_keyer (by_length 0) = length" by (simp add: by_length_def)
  have g: "grouping_ok (ic_keyer (by_length 0)) by_key 0 summing"
    by (simp add: grouping_ok_def proper_def by_key_def summing_def unordered.multimap_axioms)
  have "group_history by_length 0 [] by_key log_signal 0 summing ?st"
    by (intro group_history.intros(2) [of by_length 0, unfolded l] group_history.intros(1) [OF indexed_init]) (simp_all add: run)
  moreover have "t_records (fst ?st) = [(1, ''cd''), (2, ''efg'')]" "t_next (fst ?st) = 3" by (simp_all add: run)
  moreover obtain u t s where st: "?st = (u, t, s)" by (metis prod_cases3)
  ultimately have h: "group_history by_length 0 [] by_key log_signal 0 summing (u, t, s)" and rs: "t_records u = [(1, ''cd''), (2, ''efg'')]" "t_next u = 3" by simp_all
  have "um_find (t_records u) 1 = Some ''cd''" by (simp add: rs)
  then have "''cd'' \<in> ran (um_find (t_records u))" by (rule ranI)
  then have "\<exists>r\<in>ran (um_find (t_records u)). ic_keyer (by_length 0) r = 2" by (rule rev_bexI) (simp add: l)
  with group_by_is_aggregation [OF by_length_proper g h]
  have "\<exists>!h. \<exists>a. um_find (t_records t) h = Some a \<and> ic_keyer (by_key 0) a = 2" by blast
  then have "\<exists>!h. \<exists>a. um_find (t_records t) h = Some a \<and> fst a = 2" by (simp add: by_key_def)
  moreover have "u = \<lparr>t_records = [(1, ''cd''), (2, ''efg'')], t_next = 3, t_components = t_components u\<rparr>" using rs by simp
  ultimately show ?thesis using h by (intro exI [of _ "t_components u"] exI [of _ "(t, s)"]) simp
qed

end
