(* ===== verification/Code_Memory.thy ===== *)
theory Code_Memory
  imports Prelude
begin

unbundle bit_operations_syntax

text \<open>
  Code as bytes in memory: ranges (\<^verbatim>\<open>common/range.h\<close>), saved bytes (\<^verbatim>\<open>patcher/revert_buffer.h\<close>),
  jump instructions (\<^verbatim>\<open>patcher/src/intel/jump.cpp\<close>) and the length disassembler
  (\<^verbatim>\<open>patcher/src/intel/ldisasm.h\<close>). Addresses are integers; memory gives a byte at every address, so a
  read or write that would fault is not represented. Memory is little-endian.
\<close>

section \<open>Memory\<close>

type_synonym memory = "int \<Rightarrow> u8"

definition mem_read :: "memory \<Rightarrow> int \<Rightarrow> nat \<Rightarrow> u8 list" where
  "mem_read m a n = map (\<lambda>i. m (a + int i)) [0..<n]"

definition mem_copy :: "int \<Rightarrow> u8 list \<Rightarrow> memory \<Rightarrow> memory" where
  "mem_copy a bs m = (\<lambda>x. if a \<le> x \<and> x < a + int (length bs) then bs ! nat (x - a) else m x)"

definition read_dword :: "memory \<Rightarrow> int \<Rightarrow> u32" where
  "read_dword m a = ucast (m a) OR push_bit 8 (ucast (m (a + 1))) OR push_bit 16 (ucast (m (a + 2))) OR push_bit 24 (ucast (m (a + 3)))"

definition dword_bytes :: "u32 \<Rightarrow> u8 list" where
  "dword_bytes w = [ucast w, ucast (drop_bit 8 w), ucast (drop_bit 16 w), ucast (drop_bit 24 w)]"

definition write_dword :: "int \<Rightarrow> u32 \<Rightarrow> memory \<Rightarrow> memory" where
  "write_dword a w m = mem_copy a (dword_bytes w) m"

record byte_range =
  br_begin :: int
  br_length :: nat

definition br_end :: "byte_range \<Rightarrow> int" where
  "br_end r = br_begin r + int (br_length r)"

definition br_inside :: "byte_range \<Rightarrow> int \<Rightarrow> bool" where
  "br_inside r p \<longleftrightarrow> br_begin r \<le> p \<and> p < br_end r"

record revert_entry =
  re_address :: int
  re_original :: "u8 list"

definition revert_entry_new :: "memory \<Rightarrow> int \<Rightarrow> nat \<Rightarrow> revert_entry" where
  "revert_entry_new m p n = \<lparr>re_address = p, re_original = mem_read m p n\<rparr>"

definition re_restore :: "revert_entry \<Rightarrow> memory \<Rightarrow> memory" where
  "re_restore e m = mem_copy (re_address e) (re_original e) m"

section \<open>Jumps\<close>

definition jump_init :: "int \<Rightarrow> int \<Rightarrow> u8 list" where
  "jump_init this address = 0xE9 # dword_bytes (word_of_int (address - (this + 5)))"

definition short_jump_init :: "int \<Rightarrow> int \<Rightarrow> u8 list" where
  "short_jump_init this address = [0xEB, word_of_int (address - (this + 2))]"

definition is_nop_at :: "memory \<Rightarrow> int \<Rightarrow> bool" where
  "is_nop_at m a \<longleftrightarrow> (m a = 0x90 \<and> m (a + 1) = 0x90) \<or> (m a = 0x8B \<and> m (a + 1) = 0xFF) \<or>
     (m a = 0x66 \<and> m (a + 1) = 0x90) \<or> (m a = 0x0F \<and> m (a + 1) = 0x1F)"

definition is_nop_opcode :: "u8 \<Rightarrow> bool" where
  "is_nop_opcode b \<longleftrightarrow> b = 0x90"

section \<open>The length disassembler\<close>

text \<open>
  The bytes are read through \<open>rd\<close>, from the first byte of the instruction; positions count
  from there.
\<close>

definition row :: "u8 \<Rightarrow> u8" where "row b = drop_bit 4 b"
definition col :: "u8 \<Rightarrow> u8" where "col b = b AND 0xF"

definition legacyPrefixes :: "u8 list" where
  "legacyPrefixes = [0xF0, 0xF2, 0xF3, 0x2E, 0x36, 0x3E, 0x26, 0x64, 0x65, 0x66, 0x67]"
definition op1modrm :: "u8 list" where
  "op1modrm = [0x62, 0x63, 0x69, 0x6B, 0xC0, 0xC1, 0xC4, 0xC5, 0xC6, 0xC7, 0xD0, 0xD1, 0xD2, 0xD3, 0xF6, 0xF7, 0xFE, 0xFF]"
definition op1imm8 :: "u8 list" where
  "op1imm8 = [0x6A, 0x6B, 0x80, 0x82, 0x83, 0xA8, 0xC0, 0xC1, 0xC6, 0xCD, 0xD4, 0xD5, 0xEB]"
definition op1imm32 :: "u8 list" where
  "op1imm32 = [0x68, 0x69, 0x81, 0xA9, 0xC7, 0xE8, 0xE9]"
definition op2modrm :: "u8 list" where
  "op2modrm = [0x0D, 0xA3, 0xA4, 0xA5, 0xAB, 0xAC, 0xAD, 0xAE, 0xAF]"

primrec findByte :: "u8 list \<Rightarrow> u8 \<Rightarrow> bool" where
  "findByte [] x = False"
| "findByte (y # ys) x = (if y = x then True else findByte ys x)"

text \<open>\<open>parseModRM\<close>: the position of the last byte of the operand encoding.\<close>

definition parseModRM :: "(nat \<Rightarrow> u8) \<Rightarrow> bool \<Rightarrow> nat \<Rightarrow> nat" where
  "parseModRM rd addressPrefix b =
     (let b = b + 1; modrm = rd b in
      if \<not> addressPrefix \<or> modrm \<ge> 0x40 then
        let hasSIB = (modrm < 0xC0 \<and> modrm AND 7 = 4 \<and> \<not> addressPrefix);
            b = (if hasSIB then b + 1 else b)
        in if modrm \<ge> 0x40 \<and> modrm \<le> 0x7F then b + 1
           else if (modrm \<le> 0x3F \<and> modrm AND 7 = 5) \<or> (modrm \<ge> 0x80 \<and> modrm \<le> 0xBF) then b + (if addressPrefix then 2 else 4)
           else if hasSIB \<and> rd b AND 7 = 5 then b + (if modrm AND 64 \<noteq> 0 then 1 else 4)
           else b
      else if modrm = 0x26 then b + 2 else b)"

record prefix_state =
  ps_pos :: nat
  ps_operand :: bool
  ps_address :: bool
  ps_rexW :: bool

text \<open>The number of legacy prefixes is limited, that of REX prefixes is not: the loop need not end.\<close>

partial_function (option) parse_prefixes :: "bool \<Rightarrow> (nat \<Rightarrow> u8) \<Rightarrow> nat \<Rightarrow> prefix_state \<Rightarrow> prefix_state option" where
  "parse_prefixes x64 rd i s =
     (let b = rd (ps_pos s) in
      if (i < 14 \<and> findByte legacyPrefixes b) \<or> (if x64 then row b = 4 else False) then
        let s = (if b = 0x66 then s\<lparr>ps_operand := True\<rparr>
                 else if b = 0x67 then s\<lparr>ps_address := True\<rparr>
                 else if row b = 4 \<and> col b \<ge> 8 then s\<lparr>ps_rexW := True\<rparr> else s)
        in parse_prefixes x64 rd (i + 1) (s\<lparr>ps_pos := ps_pos s + 1\<rparr>)
      else Some s)"

definition imm_size2 :: "u8 \<Rightarrow> nat" where
  "imm_size2 b =
     (if row b = 8 then 4
      else if (row b = 7 \<and> col b < 4) \<or> b = 0xA4 \<or> b = 0xC2 \<or> (b > 0xC3 \<and> b \<le> 0xC6) \<or> b = 0xBA \<or> b = 0xAC then 1
      else 0)"

definition has_modrm2 :: "u8 \<Rightarrow> bool" where
  "has_modrm2 b \<longleftrightarrow> findByte op2modrm b \<or> (row b \<noteq> 3 \<and> row b > 0 \<and> row b < 7) \<or> b \<ge> 0xD0 \<or> (row b = 7 \<and> col b \<noteq> 7) \<or>
     row b = 9 \<or> row b = 0xB \<or> (row b = 0xC \<and> col b < 8) \<or> (row b = 0 \<and> col b < 4)"

definition imm_size1 :: "prefix_state \<Rightarrow> u8 \<Rightarrow> u8 \<Rightarrow> nat" where
  "imm_size1 s b following =
     (if (row b = 0xE \<and> col b < 8) \<or> (row b = 0xB \<and> col b < 8) \<or> row b = 7 \<or> (row b < 4 \<and> (col b = 4 \<or> col b = 0xC)) \<or>
         (b = 0xF6 \<and> following AND 48 = 0) \<or> findByte op1imm8 b then 1
      else if b = 0xC2 \<or> b = 0xCA then 2
      else if b = 0xC8 then 3
      else if (row b < 4 \<and> (col b = 5 \<or> col b = 0xD)) \<or> (row b = 0xB \<and> col b \<ge> 8) \<or> (b = 0xF7 \<and> following AND 48 = 0) \<or>
         findByte op1imm32 b then (if ps_rexW s then 8 else if ps_operand s then 2 else 4)
      else if row b = 0xA \<and> col b < 4 then (if ps_rexW s then 8 else if ps_address s then 2 else 4)
      else if b = 0xEA \<or> b = 0x9A then (if ps_operand s then 4 else 6)
      else 0)"

definition has_modrm1 :: "u8 \<Rightarrow> bool" where
  "has_modrm1 b \<longleftrightarrow> findByte op1modrm b \<or> (row b < 4 \<and> (col b < 4 \<or> (col b \<ge> 8 \<and> col b < 0xC))) \<or> row b = 8 \<or> (row b = 0xD \<and> col b \<ge> 8)"

definition opcode_length :: "(nat \<Rightarrow> u8) \<Rightarrow> prefix_state \<Rightarrow> nat" where
  "opcode_length rd s =
     (let b = ps_pos s in
      if rd b = 0x0F then
        let b = b + 1 in
        if rd b = 0x38 \<or> rd b = 0x3A then
          let offset = (if rd b = 0x3A then 1 else 0) in parseModRM rd (ps_address s) (b + 1) + 1 + offset
        else
          let offset = imm_size2 (rd b); e = (if has_modrm2 (rd b) then parseModRM rd (ps_address s) b else b)
          in e + 1 + offset
      else
        let offset = imm_size1 s (rd b) (rd (b + 1)); e = (if has_modrm1 (rd b) then parseModRM rd (ps_address s) b else b)
        in e + 1 + offset)"

definition ldisasm :: "bool \<Rightarrow> (nat \<Rightarrow> u8) \<Rightarrow> nat option" where
  "ldisasm x64 rd =
     map_option (opcode_length rd) (parse_prefixes x64 rd 0 \<lparr>ps_pos = 0, ps_operand = False, ps_address = False, ps_rexW = False\<rparr>)"

section \<open>Laws\<close>

lemma length_mem_read [simp]: "length (mem_read m a n) = n"
  by (simp add: mem_read_def)

lemma mem_copy_outside: "x < a \<or> a + int (length bs) \<le> x \<Longrightarrow> mem_copy a bs m x = m x"
  by (auto simp: mem_copy_def)

lemma mem_copy_inside: "i < length bs \<Longrightarrow> mem_copy a bs m (a + int i) = bs ! i"
  by (simp add: mem_copy_def)

lemma mem_copy_restore: "mem_copy a (mem_read m a (length bs)) (mem_copy a bs m) = m"
  by (rule ext) (auto simp: mem_copy_def mem_read_def nat_less_iff)

lemma length_dword_bytes [simp]: "length (dword_bytes w) = 4"
  by (simp add: dword_bytes_def)

lemma read_write_dword: "read_dword (write_dword a w m) a = w"
proof -
  have b: "write_dword a w m a = ucast w" "write_dword a w m (a + 1) = ucast (drop_bit 8 w)"
    "write_dword a w m (a + 2) = ucast (drop_bit 16 w)" "write_dword a w m (a + 3) = ucast (drop_bit 24 w)"
    by (simp_all add: write_dword_def mem_copy_def dword_bytes_def)
  show ?thesis unfolding read_dword_def b
  proof (rule bit_word_eqI)
    fix n assume "n < LENGTH(32)"
    then consider "n < 8" | "8 \<le> n" "n < 16" | "16 \<le> n" "n < 24" | "24 \<le> n" "n < 32" by fastforce
    then show "bit ((ucast (ucast w :: u8) :: u32) OR push_bit 8 (ucast (ucast (drop_bit 8 w) :: u8)) OR
      push_bit 16 (ucast (ucast (drop_bit 16 w) :: u8)) OR push_bit 24 (ucast (ucast (drop_bit 24 w) :: u8))) n = bit w n"
      by cases (auto simp: bit_simps)
  qed
qed

text \<open>An instruction is at least a byte long, and its length is found from its own bytes.\<close>

lemma parseModRM_ge: "b < parseModRM rd ap b"
  by (auto simp: parseModRM_def Let_def)

lemma parseModRM_local:
  assumes "\<And>i. i \<le> parseModRM rd ap b \<Longrightarrow> rd' i = rd i"
  shows "parseModRM rd' ap b = parseModRM rd ap b"
proof -
  have m: "rd' (Suc b) = rd (Suc b)" using assms parseModRM_ge [of b rd ap] by simp
  show ?thesis
  proof (cases "rd (Suc b) < 0xC0 \<and> rd (Suc b) AND 7 = 4 \<and> \<not> ap")
    case True
    then have "Suc (Suc b) \<le> parseModRM rd ap b" by (auto simp: parseModRM_def Let_def)
    with assms have "rd' (Suc (Suc b)) = rd (Suc (Suc b))" by simp
    with m True show ?thesis by (auto simp: parseModRM_def Let_def)
  next
    case False
    with m show ?thesis by (auto simp: parseModRM_def Let_def)
  qed
qed

lemma opcode_length_ge: "ps_pos s < opcode_length rd s"
  using parseModRM_ge [of "ps_pos s" rd "ps_address s"] parseModRM_ge [of "Suc (ps_pos s)" rd "ps_address s"]
    parseModRM_ge [of "Suc (Suc (ps_pos s))" rd "ps_address s"]
  by (auto simp: opcode_length_def Let_def)

lemma imm_size1_local: "has_modrm1 b \<or> imm_size1 s b x = imm_size1 s b y"
proof (cases "b = 0xF6 \<or> b = 0xF7")
  case True
  have "has_modrm1 0xF6" "has_modrm1 0xF7" by (simp_all add: has_modrm1_def op1modrm_def)
  with True show ?thesis by blast
next
  case False
  then have "(b = 0xF6) = False" "(b = 0xF7) = False" by auto
  then show ?thesis by (simp only: imm_size1_def simp_thms)
qed

lemma opcode_length_local:
  assumes "\<And>i. i < opcode_length rd s \<Longrightarrow> rd' i = rd i"
  shows "opcode_length rd' s = opcode_length rd s"
proof -
  let ?b = "ps_pos s"
  have b: "rd' ?b = rd ?b" using assms opcode_length_ge by blast
  have parse: "parseModRM rd' (ps_address s) x = parseModRM rd (ps_address s) x"
    if "parseModRM rd (ps_address s) x < opcode_length rd s" for x
    using that assms by (intro parseModRM_local) simp
  show ?thesis
  proof (cases "rd ?b = 0x0F")
    case True
    have "Suc ?b < opcode_length rd s"
      using True parseModRM_ge [of "Suc ?b" rd "ps_address s"] parseModRM_ge [of "Suc (Suc ?b)" rd "ps_address s"]
      by (auto simp: opcode_length_def Let_def)
    with assms have c: "rd' (Suc ?b) = rd (Suc ?b)" by blast
    have "rd (Suc ?b) = 0x38 \<or> rd (Suc ?b) = 0x3A \<Longrightarrow> parseModRM rd (ps_address s) (Suc (Suc ?b)) < opcode_length rd s"
      "\<not> (rd (Suc ?b) = 0x38 \<or> rd (Suc ?b) = 0x3A) \<Longrightarrow> has_modrm2 (rd (Suc ?b)) \<Longrightarrow> parseModRM rd (ps_address s) (Suc ?b) < opcode_length rd s"
      using True by (auto simp: opcode_length_def Let_def)
    with parse have "rd (Suc ?b) = 0x38 \<or> rd (Suc ?b) = 0x3A \<Longrightarrow> parseModRM rd' (ps_address s) (Suc (Suc ?b)) = parseModRM rd (ps_address s) (Suc (Suc ?b))"
      "\<not> (rd (Suc ?b) = 0x38 \<or> rd (Suc ?b) = 0x3A) \<Longrightarrow> has_modrm2 (rd (Suc ?b)) \<Longrightarrow> parseModRM rd' (ps_address s) (Suc ?b) = parseModRM rd (ps_address s) (Suc ?b)"
      by blast+
    with b c True show ?thesis by (auto simp: opcode_length_def Let_def)
  next
    case False
    have m: "has_modrm1 (rd ?b) \<Longrightarrow> parseModRM rd (ps_address s) ?b < opcode_length rd s"
      using False by (auto simp: opcode_length_def Let_def)
    then have "has_modrm1 (rd ?b) \<Longrightarrow> rd' (Suc ?b) = rd (Suc ?b)"
      using assms parseModRM_ge [of ?b rd "ps_address s"] by (meson Suc_leI le_less_trans)
    then have "imm_size1 s (rd ?b) (rd' (Suc ?b)) = imm_size1 s (rd ?b) (rd (Suc ?b))"
      using imm_size1_local [of "rd ?b" s "rd' (Suc ?b)" "rd (Suc ?b)"] by fastforce
    with parse [OF m] b False show ?thesis by (auto simp: opcode_length_def Let_def)
  qed
qed

lemma parse_prefixes_local:
  assumes "parse_prefixes x64 rd i s = Some t" "\<And>j. j \<le> ps_pos t \<Longrightarrow> rd' j = rd j"
  shows "parse_prefixes x64 rd' i s = Some t"
proof -
  let ?P = "\<lambda>x64 rd i s t. ps_pos s \<le> ps_pos t \<and> ((\<forall>j\<le>ps_pos t. rd' j = rd j) \<longrightarrow> parse_prefixes x64 rd' i s = Some t)"
  have "?P x64 rd i s t"
  proof (rule parse_prefixes.raw_induct [where P = ?P, OF _ assms(1)])
    fix parse x64 and rd :: "nat \<Rightarrow> u8" and i :: nat and s t :: prefix_state
    assume ih: "\<And>x64 rd i s t. parse x64 rd i s = Some t \<Longrightarrow> ?P x64 rd i s t"
    let ?b = "rd (ps_pos s)"
    let ?s = "if ?b = 0x66 then s\<lparr>ps_operand := True\<rparr> else if ?b = 0x67 then s\<lparr>ps_address := True\<rparr>
      else if row ?b = 4 \<and> col ?b \<ge> 8 then s\<lparr>ps_rexW := True\<rparr> else s"
    assume body: "(let b = ?b in if (i < 14 \<and> findByte legacyPrefixes b) \<or> (if x64 then row b = 4 else False) then
        let s = (if b = 0x66 then s\<lparr>ps_operand := True\<rparr> else if b = 0x67 then s\<lparr>ps_address := True\<rparr>
                 else if row b = 4 \<and> col b \<ge> 8 then s\<lparr>ps_rexW := True\<rparr> else s)
        in parse x64 rd (i + 1) (s\<lparr>ps_pos := ps_pos s + 1\<rparr>) else Some s) = Some t"
    have pos: "ps_pos ?s = ps_pos s" by simp
    show "?P x64 rd i s t"
    proof (cases "(i < 14 \<and> findByte legacyPrefixes ?b) \<or> (if x64 then row ?b = 4 else False)")
      case True
      with body have "parse x64 rd (i + 1) (?s\<lparr>ps_pos := ps_pos s + 1\<rparr>) = Some t" unfolding Let_def pos by simp
      note r = ih [OF this]
      have "parse_prefixes x64 rd' i s = parse_prefixes x64 rd' (i + 1) (?s\<lparr>ps_pos := ps_pos s + 1\<rparr>)" if "rd' (ps_pos s) = ?b"
        using True that by (subst parse_prefixes.simps) (simp add: Let_def)
      with r show ?thesis by simp
    next
      case False
      with body have "t = s" by (simp add: Let_def)
      moreover have "parse_prefixes x64 rd' i s = Some s" if "rd' (ps_pos s) = ?b"
        unfolding parse_prefixes.simps [of x64 rd' i s] Let_def that if_not_P [OF False] ..
      ultimately show ?thesis by simp
    qed
  qed
  with assms(2) show ?thesis by blast
qed

text \<open>
  The length of an instruction is found from the instruction: whatever the bytes, a decoded length
  is positive, and the same first bytes give the same length whatever follows them.
\<close>

theorem length_is_local:
  assumes "ldisasm x64 rd = Some n" "\<And>i. i < n \<Longrightarrow> rd' i = rd i"
  shows "0 < n \<and> ldisasm x64 rd' = Some n"
proof -
  let ?s = "\<lparr>ps_pos = 0, ps_operand = False, ps_address = False, ps_rexW = False\<rparr>"
  from assms(1) obtain t where t: "parse_prefixes x64 rd 0 ?s = Some t" "n = opcode_length rd t" by (auto simp: ldisasm_def)
  have n: "ps_pos t < n" using opcode_length_ge t(2) by simp
  have "parse_prefixes x64 rd' 0 ?s = Some t" by (rule parse_prefixes_local [OF t(1)]) (use n assms(2) in simp)
  moreover have "opcode_length rd' t = n" using opcode_length_local [of rd t rd'] assms(2) t(2) by simp
  ultimately show ?thesis using n by (simp add: ldisasm_def)
qed

theorem length_is_local_witness:
  "ldisasm True (\<lambda>i. [0x48, 0x8B, 0x44, 0x24, 0x08] ! i) = Some 5 \<and>
   ldisasm True (\<lambda>i. if i < 5 then [0x48, 0x8B, 0x44, 0x24, 0x08] ! i else 0x48) = Some 5"
proof -
  note run = parse_prefixes.simps Let_def legacyPrefixes_def row_def col_def opcode_length_def imm_size1_def
    has_modrm1_def op1imm8_def op1imm32_def op1modrm_def parseModRM_def
  have "ldisasm True (\<lambda>i. [0x48, 0x8B, 0x44, 0x24, 0x08] ! i) = Some 5" by (simp add: ldisasm_def run)
  with length_is_local [OF this, of "\<lambda>i. if i < 5 then [0x48, 0x8B, 0x44, 0x24, 0x08] ! i else 0x48"] show ?thesis by simp
qed

end
