(* ===== verification/Binary_Translation.thy ===== *)
theory Binary_Translation
  imports Code_Memory
begin

text \<open>
  Moving code: \<^verbatim>\<open>patcher/src/intel/binary_translation_x86.cpp\<close>. A function body is a range of
  memory, walked instruction by instruction with the length disassembler; \<open>x64\<close> is
  \<^verbatim>\<open>sizeof(void*) == 8\<close>. \<^const>\<open>None\<close> stands for a walk that does not end. The displacement of a
  short jump is read as signed (\<^verbatim>\<open>typedef char sbyte\<close>, signed on the targets of this code).
\<close>

section \<open>Instructions\<close>

datatype translation_error = Past_Function_Body | Short_Jump_Outside | Debug_Interrupt | Short_Jump_To_Moved

record instruction_iterator =
  it_ptr :: int
  it_remaining :: nat
  it_length :: nat

definition iterator_init :: "byte_range \<Rightarrow> instruction_iterator" where
  "iterator_init body = \<lparr>it_ptr = br_begin body, it_remaining = br_length body, it_length = 0\<rparr>"

text \<open>The decoded length is kept in a byte.\<close>

definition fetch_instruction :: "bool \<Rightarrow> memory \<Rightarrow> instruction_iterator \<Rightarrow> (translation_error + instruction_iterator option) option" where
  "fetch_instruction x64 m it =
     (if it_remaining it = it_length it then Some (Inr None)
      else
        let ptr = it_ptr it + int (it_length it); remaining = it_remaining it - it_length it in
        case ldisasm x64 (\<lambda>i. m (ptr + int i)) of
          None \<Rightarrow> None
        | Some n \<Rightarrow>
            let len = n mod 256 in
            if len > remaining then Some (Inl Past_Function_Body)
            else Some (Inr (Some \<lparr>it_ptr = ptr, it_remaining = remaining, it_length = len\<rparr>)))"

datatype displacement = No_Displacement | Byte_Displacement int | Dword_Displacement int

definition short_opcodes :: "u8 list" where
  "short_opcodes = [0x70, 0x71, 0x72, 0x73, 0x74, 0x75, 0x76, 0x77, 0x78, 0x79, 0x7A, 0x7B, 0x7C, 0x7D, 0x7E, 0x7F, 0xEB]"

definition near_opcodes2 :: "u8 list" where
  "near_opcodes2 = [0x80, 0x81, 0x82, 0x83, 0x84, 0x85, 0x86, 0x87, 0x88, 0x89, 0x8A, 0x8B, 0x8C, 0x8D, 0x8E, 0x8F]"

definition visit_instruction :: "memory \<Rightarrow> int \<Rightarrow> displacement" where
  "visit_instruction m ptr =
     (if findByte short_opcodes (m ptr) then Byte_Displacement (ptr + 1)
      else if m ptr = 0xE8 \<or> m ptr = 0xE9 then Dword_Displacement (ptr + 1)
      else if m ptr = 0x0F then
        (if findByte near_opcodes2 (m (ptr + 1)) then Dword_Displacement (ptr + 2) else No_Displacement)
      else No_Displacement)"

definition target8 :: "memory \<Rightarrow> int \<Rightarrow> int" where
  "target8 m d = d + 1 + sint (m d)"

definition target32 :: "memory \<Rightarrow> int \<Rightarrow> int" where
  "target32 m d = d + 4 + sint (read_dword m d)"

section \<open>Fragment length\<close>

partial_function (option) fragment_loop ::
  "bool \<Rightarrow> memory \<Rightarrow> instruction_iterator \<Rightarrow> int \<Rightarrow> nat \<Rightarrow> (translation_error + nat) option" where
  "fragment_loop x64 m it remainder actual_length =
     (if remainder > 0 then
        Option.bind (fetch_instruction x64 m it) (\<lambda>r.
          case r of
            Inl e \<Rightarrow> Some (Inl e)
          | Inr None \<Rightarrow> Some (Inr actual_length)
          | Inr (Some it) \<Rightarrow> fragment_loop x64 m it (remainder - int (it_length it)) (actual_length + it_length it))
      else Some (Inr actual_length))"

definition calculate_fragment_length :: "bool \<Rightarrow> memory \<Rightarrow> byte_range \<Rightarrow> nat \<Rightarrow> (translation_error + nat) option" where
  "calculate_fragment_length x64 m source min_length = fragment_loop x64 m (iterator_init source) (int min_length) 0"

section \<open>Moving a function\<close>

definition move_visit :: "byte_range \<Rightarrow> int \<Rightarrow> int \<Rightarrow> int \<Rightarrow> memory \<Rightarrow> translation_error + memory" where
  "move_visit source delta src dest m =
     (case visit_instruction m src of
        No_Displacement \<Rightarrow> Inr m
      | Byte_Displacement d \<Rightarrow> if br_inside source (target8 m d) then Inr m else Inl Short_Jump_Outside
      | Dword_Displacement d \<Rightarrow>
          if br_inside source (target32 m d) then Inr m
          else let a = dest + (d - src) in Inr (write_dword a (read_dword m a + word_of_int delta) m))"

partial_function (option) move_loop ::
  "bool \<Rightarrow> byte_range \<Rightarrow> int \<Rightarrow> instruction_iterator \<Rightarrow> int \<Rightarrow> memory \<Rightarrow> (translation_error option \<times> memory) option" where
  "move_loop x64 source delta it dest m =
     Option.bind (fetch_instruction x64 m it) (\<lambda>r.
       case r of
         Inl e \<Rightarrow> Some (Some e, m)
       | Inr None \<Rightarrow> Some (None, m)
       | Inr (Some it) \<Rightarrow>
           if m (it_ptr it) = 0xCC then Some (Some Debug_Interrupt, m)
           else
             let m = mem_copy dest (mem_read m (it_ptr it) (it_length it)) m in
             (case move_visit source delta (it_ptr it) dest m of
                Inl e \<Rightarrow> Some (Some e, m)
              | Inr m \<Rightarrow> move_loop x64 source delta it (dest + int (it_length it)) m))"

definition move_function :: "bool \<Rightarrow> int \<Rightarrow> byte_range \<Rightarrow> memory \<Rightarrow> (translation_error option \<times> memory) option" where
  "move_function x64 destination source m =
     move_loop x64 source (br_begin source - destination) (iterator_init source) destination m"

section \<open>Offsetting displaced references\<close>

definition offset_visit :: "byte_range \<Rightarrow> int \<Rightarrow> int \<Rightarrow> revert_entry list \<times> memory \<Rightarrow> translation_error + revert_entry list \<times> memory" where
  "offset_visit displaced delta ptr rm =
     (case visit_instruction (snd rm) ptr of
        No_Displacement \<Rightarrow> Inr rm
      | Byte_Displacement d \<Rightarrow> if br_inside displaced (target8 (snd rm) d) then Inl Short_Jump_To_Moved else Inr rm
      | Dword_Displacement d \<Rightarrow>
          if br_inside displaced (target32 (snd rm) d)
          then Inr (fst rm @ [revert_entry_new (snd rm) d 4], write_dword d (read_dword (snd rm) d + word_of_int delta) (snd rm))
          else Inr rm)"

partial_function (option) offset_loop ::
  "bool \<Rightarrow> byte_range \<Rightarrow> int \<Rightarrow> instruction_iterator \<Rightarrow> revert_entry list \<times> memory \<Rightarrow>
   (translation_error option \<times> revert_entry list \<times> memory) option" where
  "offset_loop x64 displaced delta it rm =
     Option.bind (fetch_instruction x64 (snd rm) it) (\<lambda>r.
       case r of
         Inl e \<Rightarrow> Some (Some e, rm)
       | Inr None \<Rightarrow> Some (None, rm)
       | Inr (Some it) \<Rightarrow>
           if snd rm (it_ptr it) = 0xE8 then offset_loop x64 displaced delta it rm
           else (case offset_visit displaced delta (it_ptr it) rm of
                   Inl e \<Rightarrow> Some (Some e, rm)
                 | Inr rm \<Rightarrow> offset_loop x64 displaced delta it rm))"

definition restore_all :: "revert_entry list \<Rightarrow> memory \<Rightarrow> memory" where
  "restore_all rb m = foldl (\<lambda>m e. re_restore e m) m rb"

definition offset_displaced_references ::
  "bool \<Rightarrow> revert_entry list \<Rightarrow> byte_range \<Rightarrow> byte_range \<Rightarrow> int \<Rightarrow> memory \<Rightarrow>
   (translation_error option \<times> revert_entry list \<times> memory) option" where
  "offset_displaced_references x64 rbuffer source displaced displaced_to m =
     Option.bind (offset_loop x64 displaced (displaced_to - br_begin displaced) (iterator_init source) (rbuffer, m)) (\<lambda>(r, rb, m).
       case r of
         None \<Rightarrow> Some (None, rb, m)
       | Some e \<Rightarrow> Some (Some e, [], restore_all rb m))"

section \<open>Instructions hold their displacement\<close>

abbreviation no_prefixes :: prefix_state where
  "no_prefixes \<equiv> \<lparr>ps_pos = 0, ps_operand = False, ps_address = False, ps_rexW = False\<rparr>"

lemma ldisasm_no_prefix:
  assumes "\<not> findByte legacyPrefixes (rd 0)" "row (rd 0) \<noteq> 4"
  shows "ldisasm x64 rd = Some (opcode_length rd no_prefixes)"
proof -
  have "\<not> ((0 < (14::nat) \<and> findByte legacyPrefixes (rd (ps_pos no_prefixes))) \<or> (if x64 then row (rd (ps_pos no_prefixes)) = 4 else False))"
    using assms by simp
  then show ?thesis unfolding ldisasm_def parse_prefixes.simps [of x64 rd 0 no_prefixes] Let_def by (simp only: if_False option.map)
qed

lemma near_jump_length:
  assumes "ldisasm x64 rd = Some n" "rd 0 = 0xE8 \<or> rd 0 = 0xE9"
  shows "n = 5"
proof -
  have i: "imm_size1 no_prefixes 0xE8 x = 4" "imm_size1 no_prefixes 0xE9 x = 4" "\<not> has_modrm1 0xE8" "\<not> has_modrm1 0xE9" for x
    by (simp_all add: imm_size1_def has_modrm1_def row_def col_def op1imm8_def op1imm32_def op1modrm_def)
  have "\<not> findByte legacyPrefixes (rd 0)" "row (rd 0) \<noteq> 4" using assms(2) by (auto simp: legacyPrefixes_def row_def)
  from ldisasm_no_prefix [of rd x64, OF this] assms i show ?thesis by (auto simp: opcode_length_def Let_def)
qed

lemma near_condition_length:
  assumes "ldisasm x64 rd = Some n" "rd 0 = 0x0F" "findByte near_opcodes2 (rd (Suc 0))"
  shows "n = 6"
proof -
  have "imm_size2 (rd (Suc 0)) = 4" "\<not> has_modrm2 (rd (Suc 0))" "rd (Suc 0) \<noteq> 0x38" "rd (Suc 0) \<noteq> 0x3A"
    using assms(3) by (auto simp: near_opcodes2_def imm_size2_def has_modrm2_def op2modrm_def row_def col_def split: if_splits)
  moreover have "\<not> findByte legacyPrefixes (rd 0)" "row (rd 0) \<noteq> 4" using assms(2) by (simp_all add: legacyPrefixes_def row_def)
  ultimately show ?thesis using ldisasm_no_prefix [of rd x64] assms(1,2) by (simp add: opcode_length_def Let_def)
qed

lemma displacement_inside:
  assumes "fetch_instruction x64 m it = Some (Inr (Some it'))" "visit_instruction m (it_ptr it') = Dword_Displacement d"
  shows "it_ptr it' < d" "d + 4 = it_ptr it' + int (it_length it')"
proof -
  let ?p = "it_ptr it + int (it_length it)"
  from assms(1) obtain n where n: "ldisasm x64 (\<lambda>i. m (?p + int i)) = Some n" and it: "it_ptr it' = ?p" "it_length it' = n mod 256"
    by (auto simp: fetch_instruction_def Let_def split: if_splits option.splits)
  from assms(2) consider "m ?p = 0xE8 \<or> m ?p = 0xE9" "d = ?p + 1" | "m ?p = 0x0F" "findByte near_opcodes2 (m (?p + 1))" "d = ?p + 2"
    by (auto simp: visit_instruction_def it(1) split: if_splits)
  then have "it_ptr it' < d \<and> d + 4 = it_ptr it' + int (it_length it')"
  proof cases
    case 1
    with near_jump_length [OF n] show ?thesis by (simp add: it)
  next
    case 2
    with near_condition_length [OF n] show ?thesis by (simp add: it)
  qed
  then show "it_ptr it' < d" "d + 4 = it_ptr it' + int (it_length it')" by blast+
qed

section \<open>Restoring\<close>

definition saved_at :: "revert_entry \<Rightarrow> int \<Rightarrow> bool" where
  "saved_at e x \<longleftrightarrow> re_address e \<le> x \<and> x < re_address e + int (length (re_original e))"

lemma re_restore_outside: "\<not> saved_at e x \<Longrightarrow> re_restore e m x = m x"
  by (auto simp: re_restore_def mem_copy_def saved_at_def)

lemma re_restore_inside: "saved_at e x \<Longrightarrow> re_restore e m x = re_restore e m' x"
  by (auto simp: re_restore_def mem_copy_def saved_at_def)

lemma restore_all_snoc: "restore_all (rb @ [e]) m = re_restore e (restore_all rb m)"
  by (simp add: restore_all_def)

lemma restore_all_outside: "\<forall>e\<in>set rb. \<not> saved_at e x \<Longrightarrow> restore_all rb m x = m x"
  by (induction rb rule: rev_induct) (simp_all add: restore_all_snoc re_restore_outside restore_all_def)

lemma restore_all_inside: "\<exists>e\<in>set rb. saved_at e x \<Longrightarrow> restore_all rb m x = restore_all rb m' x"
proof (induction rb rule: rev_induct)
  case (snoc e rb)
  show ?case
  proof (cases "saved_at e x")
    case True
    then show ?thesis unfolding restore_all_snoc by (rule re_restore_inside)
  next
    case False
    with snoc show ?thesis by (simp add: restore_all_snoc re_restore_outside)
  qed
qed simp

text \<open>The buffer undoes what was written, and all it saved lies before the next instruction.\<close>

definition undoes :: "memory \<Rightarrow> int \<Rightarrow> revert_entry list \<times> memory \<Rightarrow> bool" where
  "undoes m0 bound rm \<longleftrightarrow> restore_all (fst rm) (snd rm) = m0 \<and> (\<forall>x. bound \<le> x \<longrightarrow> (\<forall>e\<in>set (fst rm). \<not> saved_at e x))"

lemma undoes_later: "undoes m0 bound rm \<Longrightarrow> bound \<le> bound' \<Longrightarrow> undoes m0 bound' rm"
  by (auto simp: undoes_def)

lemma undoes_write:
  assumes "undoes m0 bound (rb, m)" "bound \<le> d"
  shows "undoes m0 (d + 4) (rb @ [revert_entry_new m d 4], write_dword d w m)"
proof -
  let ?e = "revert_entry_new m d 4" and ?m = "write_dword d w m"
  have e: "saved_at ?e x \<longleftrightarrow> d \<le> x \<and> x < d + 4" for x by (simp add: saved_at_def revert_entry_new_def)
  have m: "\<forall>e\<in>set rb. \<not> saved_at e x \<Longrightarrow> m x = m0 x" for x using assms(1) restore_all_outside [of rb x m] by (simp add: undoes_def)
  have "restore_all (rb @ [?e]) ?m x = m0 x" for x
  proof (cases "saved_at ?e x")
    case True
    then have x: "d \<le> x" "x < d + 4" by (simp_all add: e)
    have "re_restore ?e (restore_all rb ?m) x = m x" using x by (auto simp: re_restore_def mem_copy_def revert_entry_new_def mem_read_def nat_less_iff)
    moreover have "m x = m0 x" using assms x by (intro m) (auto simp: undoes_def)
    ultimately show ?thesis by (simp add: restore_all_snoc)
  next
    case False
    then have x: "?m x = m x" by (auto simp: e write_dword_def mem_copy_def)
    have "restore_all rb ?m x = m0 x"
    proof (cases "\<exists>e\<in>set rb. saved_at e x")
      case True
      from restore_all_inside [OF this, of ?m m] assms(1) show ?thesis by (simp add: undoes_def)
    next
      case no: False
      with restore_all_outside [of rb x ?m] m [of x] x show ?thesis by simp
    qed
    with False show ?thesis by (simp add: restore_all_snoc re_restore_outside)
  qed
  then have "restore_all (rb @ [?e]) ?m = m0" by blast
  moreover have "d + 4 \<le> x \<Longrightarrow> \<forall>e\<in>set (rb @ [?e]). \<not> saved_at e x" for x using assms by (auto simp: undoes_def e)
  ultimately show ?thesis by (simp add: undoes_def)
qed

lemma offset_visit_undoes:
  assumes "undoes m0 (it_ptr it' ) (rb, m)" "fetch_instruction x64 m it = Some (Inr (Some it'))"
    and "offset_visit displaced delta (it_ptr it') (rb, m) = Inr rm"
  shows "undoes m0 (it_ptr it' + int (it_length it')) rm"
proof (cases "visit_instruction m (it_ptr it')")
  case (Dword_Displacement d)
  note d = displacement_inside [OF assms(2) this]
  show ?thesis
  proof (cases "br_inside displaced (target32 m d)")
    case True
    from undoes_write [OF assms(1), of d] d assms(3) Dword_Displacement True show ?thesis by (auto simp: offset_visit_def)
  next
    case False
    with assms(3) Dword_Displacement undoes_later [OF assms(1)] show ?thesis by (auto simp: offset_visit_def)
  qed
qed (use assms(3) undoes_later [OF assms(1)] in \<open>auto simp: offset_visit_def split: if_splits\<close>)

lemma fetch_moves_on: "fetch_instruction x64 m it = Some (Inr (Some it')) \<Longrightarrow> it_ptr it' = it_ptr it + int (it_length it)"
  by (auto simp: fetch_instruction_def Let_def split: if_splits option.splits)

lemma offset_loop_undoes:
  assumes "offset_loop x64 displaced delta it rm = Some res" "undoes m0 (it_ptr it + int (it_length it)) rm"
  shows "restore_all (fst (snd res)) (snd (snd res)) = m0"
proof -
  let ?P = "\<lambda>x64 displaced delta it rm res. \<forall>m0. undoes m0 (it_ptr it + int (it_length it)) rm \<longrightarrow> restore_all (fst (snd res)) (snd (snd res)) = m0"
  have "?P x64 displaced delta it rm res"
  proof (rule offset_loop.raw_induct [where P = ?P, OF _ assms(1)])
    fix loop :: "bool \<Rightarrow> byte_range \<Rightarrow> int \<Rightarrow> instruction_iterator \<Rightarrow> revert_entry list \<times> memory \<Rightarrow> (translation_error option \<times> revert_entry list \<times> memory) option"
      and x64 displaced delta it rm res
    assume ih: "\<And>x64 displaced delta it rm res. loop x64 displaced delta it rm = Some res \<Longrightarrow> ?P x64 displaced delta it rm res"
    assume body: "Option.bind (fetch_instruction x64 (snd rm) it) (\<lambda>r. case r of
        Inl e \<Rightarrow> Some (Some e, rm) | Inr None \<Rightarrow> Some (None, rm)
      | Inr (Some it) \<Rightarrow> if snd rm (it_ptr it) = 0xE8 then loop x64 displaced delta it rm
          else (case offset_visit displaced delta (it_ptr it) rm of Inl e \<Rightarrow> Some (Some e, rm) | Inr rm \<Rightarrow> loop x64 displaced delta it rm)) = Some res"
    show "?P x64 displaced delta it rm res"
    proof (intro allI impI)
      fix m0 assume u: "undoes m0 (it_ptr it + int (it_length it)) rm"
      obtain rb m where rm: "rm = (rb, m)" by fastforce
      from body obtain r where r: "fetch_instruction x64 m it = Some r"
        by (cases "fetch_instruction x64 m it") (auto simp: rm)
      show "restore_all (fst (snd res)) (snd (snd res)) = m0"
      proof (cases "\<exists>it'. r = Inr (Some it')")
        case False
        with body r u show ?thesis by (auto simp: rm undoes_def split: sum.splits option.splits)
      next
        case True
        then obtain it' where it': "r = Inr (Some it')" by blast
        with r have f: "fetch_instruction x64 m it = Some (Inr (Some it'))" by simp
        have u': "undoes m0 (it_ptr it') (rb, m)" using u fetch_moves_on [OF f] by (simp add: rm)
        show ?thesis
        proof (cases "m (it_ptr it') = 0xE8")
          case True
          with body f ih [of x64 displaced delta it' "(rb, m)" res] undoes_later [OF u', of "it_ptr it' + int (it_length it')"]
          show ?thesis by (simp add: rm)
        next
          case False
          show ?thesis
          proof (cases "offset_visit displaced delta (it_ptr it') (rb, m)")
            case (Inl e)
            with False body f u' show ?thesis by (auto simp: rm undoes_def)
          next
            case (Inr rm')
            with False body f ih [of x64 displaced delta it' rm' res] offset_visit_undoes [OF u' f Inr] show ?thesis by (simp add: rm)
          qed
        qed
      qed
    qed
  qed
  with assms(2) show ?thesis by blast
qed

text \<open>
  C34. Redirecting the jumps into a displaced region is all or nothing, and reversible: a failed pass
  leaves the code as it was and nothing to revert; after a completed pass, restoring the saved
  bytes gives back the code as it was, however many references were changed.
\<close>

theorem displaced_references_revert:
  assumes "offset_displaced_references x64 [] source displaced displaced_to m = Some (r, rb, m')"
  shows "restore_all rb m' = m \<and> (r \<noteq> None \<longrightarrow> m' = m \<and> rb = [])"
proof -
  from assms obtain q rb1 m1 where l: "offset_loop x64 displaced (displaced_to - br_begin displaced) (iterator_init source) ([], m) = Some (q, rb1, m1)"
    and c: "case q of None \<Rightarrow> (r, rb, m') = (None, rb1, m1) | Some e \<Rightarrow> (r, rb, m') = (Some e, [], restore_all rb1 m1)"
    by (auto simp: offset_displaced_references_def bind_eq_Some_conv split: option.splits)
  have "restore_all rb1 m1 = m" using offset_loop_undoes [OF l, of m] by (simp add: undoes_def restore_all_def)
  with c show ?thesis by (auto simp: restore_all_def split: option.splits)
qed

definition sample_code :: memory where
  "sample_code x = (if x = 0 then 0xE9 else if x = 1 then 95 else 0)"

lemma sample_length: "ldisasm x64 (\<lambda>i. sample_code (int i)) = Some 5"
proof -
  have "ldisasm x64 (\<lambda>i. sample_code (int i)) = Some (opcode_length (\<lambda>i. sample_code (int i)) no_prefixes)"
    by (rule ldisasm_no_prefix) (simp_all add: sample_code_def legacyPrefixes_def row_def)
  with near_jump_length [OF this] show ?thesis by (simp add: sample_code_def)
qed

theorem displaced_references_revert_witness:
  "\<exists>rb m'. offset_displaced_references True [] \<lparr>br_begin = 0, br_length = 5\<rparr> \<lparr>br_begin = 100, br_length = 10\<rparr> 200 sample_code = Some (None, rb, m') \<and>
     m' 1 = 195 \<and> restore_all rb m' = sample_code"
proof -
  have d: "read_dword sample_code 1 = 95" by (simp add: read_dword_def sample_code_def)
  have v: "visit_instruction sample_code 0 = Dword_Displacement 1" by (simp add: visit_instruction_def sample_code_def short_opcodes_def)
  have w: "write_dword 1 195 sample_code 1 = 195" by (simp add: write_dword_def mem_copy_def dword_bytes_def)
  have "\<exists>rb. offset_displaced_references True [] \<lparr>br_begin = 0, br_length = 5\<rparr> \<lparr>br_begin = 100, br_length = 10\<rparr> 200 sample_code
      = Some (None, rb, write_dword 1 195 sample_code)"
    by (simp add: offset_displaced_references_def offset_loop.simps iterator_init_def fetch_instruction_def sample_length offset_visit_def v
        target32_def d br_inside_def br_end_def) (simp add: sample_code_def)
  then obtain rb where "offset_displaced_references True [] \<lparr>br_begin = 0, br_length = 5\<rparr> \<lparr>br_begin = 100, br_length = 10\<rparr> 200 sample_code
      = Some (None, rb, write_dword 1 195 sample_code)" by blast
  with displaced_references_revert [OF this] w show ?thesis by blast
qed

section \<open>A moved function\<close>

text \<open>A body that decodes: its instructions, each with its address and length, fill the range.\<close>

inductive decodes :: "bool \<Rightarrow> memory \<Rightarrow> int \<Rightarrow> nat \<Rightarrow> (int \<times> nat) list \<Rightarrow> bool" for x64 m where
  body_end: "decodes x64 m p 0 []"
| instruction: "ldisasm x64 (\<lambda>i. m (p + int i)) = Some n \<Longrightarrow> n < 256 \<Longrightarrow> n \<le> remaining \<Longrightarrow>
    decodes x64 m (p + int n) (remaining - n) is \<Longrightarrow> decodes x64 m p remaining ((p, n) # is)"

definition same_bytes :: "memory \<Rightarrow> int \<Rightarrow> memory \<Rightarrow> int \<Rightarrow> nat \<Rightarrow> bool" where
  "same_bytes m a m' b n \<longleftrightarrow> (\<forall>i<n. m' (b + int i) = m (a + int i))"

text \<open>
  An instruction moved from \<open>a\<close> to \<open>b\<close>. One with a displacement that the code recognises, referring out
  of the body, keeps its opcode, and its new displacement has to be the old one plus \<open>a - b\<close>. When that sum
  is a signed 32-bit number, the instruction reaches exactly the address it did; otherwise it does not,
  and what it reaches agrees with that address only modulo \<open>2 ^ 32\<close> (which is the same address on x86). An
  instruction that refers into the body, and any other instruction, keeps all its bytes.
\<close>

definition reaches :: "int \<Rightarrow> int \<Rightarrow> int \<Rightarrow> bool" where
  "reaches displacement target target' \<longleftrightarrow>
     (target' = target \<longleftrightarrow> - (2 ^ 31) \<le> displacement \<and> displacement < 2 ^ 31) \<and> target' mod 2 ^ 32 = target mod 2 ^ 32"

definition moved :: "byte_range \<Rightarrow> memory \<Rightarrow> memory \<Rightarrow> int \<Rightarrow> int \<Rightarrow> nat \<Rightarrow> bool" where
  "moved source m m' a b n \<longleftrightarrow>
     (case visit_instruction m a of
        Dword_Displacement d \<Rightarrow>
          if br_inside source (target32 m d) then same_bytes m a m' b n
          else same_bytes m a m' b (nat (d - a)) \<and>
            reaches (sint (read_dword m d) + (a - b)) (target32 m d) (target32 m' (b + (d - a)))
      | _ \<Rightarrow> same_bytes m a m' b n)"

lemma sint_add_displacement: "sint ((w :: u32) + word_of_int delta) = signed_take_bit 31 (sint w + delta)"
proof -
  have "w + word_of_int delta = word_of_int (sint w + delta)" by simp
  then have "sint (w + word_of_int delta) = sint (word_of_int (sint w + delta) :: u32)" by (rule arg_cong)
  also have "\<dots> = signed_take_bit 31 (sint w + delta)" by (subst sint_sbintrunc') simp
  finally show ?thesis .
qed

lemma added_displacement:
  assumes s: "s = a + 4 + sint (w :: u32)" and s': "s' = a - delta + 4 + sint (w + word_of_int delta)"
  shows "reaches (sint w + delta) s s'"
proof -
  let ?e = "sint w + delta"
  have "take_bit 32 (signed_take_bit 31 ?e) = take_bit 32 ?e" by (rule take_bit_signed_take_bit) simp
  then have t: "signed_take_bit 31 ?e mod 2 ^ 32 = ?e mod 2 ^ 32" by (simp add: take_bit_eq_mod)
  have "s' mod 2 ^ 32 = (a - delta + 4 + signed_take_bit 31 ?e mod 2 ^ 32) mod 2 ^ 32"
    unfolding s' sint_add_displacement by (simp only: mod_simps)
  also have "\<dots> = s mod 2 ^ 32" unfolding t s by (simp only: mod_simps) (simp add: algebra_simps)
  finally have "s' mod 2 ^ 32 = s mod 2 ^ 32" .
  moreover have "signed_take_bit 31 ?e = ?e \<longleftrightarrow> - (2 ^ 31) \<le> ?e \<and> ?e < 2 ^ 31" by (simp add: signed_take_bit_int_eq_self_iff)
  ultimately show ?thesis using s s' by (auto simp: reaches_def sint_add_displacement)
qed

definition movable :: "byte_range \<Rightarrow> memory \<Rightarrow> int \<Rightarrow> bool" where
  "movable source m a \<longleftrightarrow> m a \<noteq> 0xCC \<and> (\<forall>d. visit_instruction m a = Byte_Displacement d \<longrightarrow> br_inside source (target8 m d))"

lemma two_byte_length: "ldisasm x64 rd = Some n \<Longrightarrow> rd 0 = 0x0F \<Longrightarrow> 2 \<le> n"
proof -
  assume a: "ldisasm x64 rd = Some n" "rd 0 = 0x0F"
  then have "n = opcode_length rd no_prefixes" using ldisasm_no_prefix [of rd x64] by (simp add: legacyPrefixes_def row_def)
  then show "2 \<le> n" using a(2) parseModRM_ge [of "Suc 0" rd False] parseModRM_ge [of "Suc (Suc 0)" rd False]
    by (auto simp: opcode_length_def Let_def)
qed

lemma short_jump_length: "ldisasm x64 rd = Some n \<Longrightarrow> findByte short_opcodes (rd 0) \<Longrightarrow> 2 \<le> n"
proof -
  assume a: "ldisasm x64 rd = Some n" "findByte short_opcodes (rd 0)"
  then have "\<not> findByte legacyPrefixes (rd 0)" "row (rd 0) \<noteq> 4" "rd 0 \<noteq> 0x0F" and r: "row (rd 0) = 7 \<or> findByte op1imm8 (rd 0)"
    by (auto simp: short_opcodes_def legacyPrefixes_def row_def op1imm8_def split: if_splits)
  then have "n = opcode_length rd no_prefixes" "rd 0 \<noteq> 0x0F" using ldisasm_no_prefix [of rd x64] a(1) by simp_all
  moreover have "imm_size1 no_prefixes (rd 0) x = 1" for x using r unfolding imm_size1_def by (intro if_P) blast
  ultimately show "2 \<le> n" by (simp add: opcode_length_def Let_def)
qed

lemma read_dword_cong: "(\<And>i. i < 4 \<Longrightarrow> m' (b + int i) = m (a + int i)) \<Longrightarrow> read_dword m' b = read_dword m a"
proof -
  assume c: "\<And>i. i < 4 \<Longrightarrow> m' (b + int i) = m (a + int i)"
  from c [of 0] c [of 1] c [of 2] c [of 3] show ?thesis by (simp add: read_dword_def)
qed

text \<open>What is read of a decoded instruction lies in its bytes.\<close>

lemma instruction_local:
  assumes n: "ldisasm x64 (\<lambda>i. m (a + int i)) = Some n" "n < 256" and c': "\<forall>i<n. M (a + int i) = m (a + int i)"
  shows "ldisasm x64 (\<lambda>i. M (a + int i)) = Some n" "M a = m a" "visit_instruction M a = visit_instruction m a"
    "visit_instruction m a = Byte_Displacement d \<Longrightarrow> target8 M d = target8 m d"
    "visit_instruction m a = Dword_Displacement d \<Longrightarrow> a < d \<and> d + 4 = a + int n \<and> target32 M d = target32 m d"
proof -
  have c: "i < n \<Longrightarrow> M (a + int i) = m (a + int i)" for i using c' by blast
  from length_is_local [OF n(1), of "\<lambda>i. M (a + int i)"] c have l: "0 < n" "ldisasm x64 (\<lambda>i. M (a + int i)) = Some n" by simp_all
  show "ldisasm x64 (\<lambda>i. M (a + int i)) = Some n" by (rule l)
  show a: "M a = m a" using c [of 0] l(1) by simp
  have f: "m a = 0x0F \<Longrightarrow> M (a + 1) = m (a + 1)" using two_byte_length [OF n(1)] c [of 1] by simp
  have s: "findByte short_opcodes (m a) \<Longrightarrow> M (a + 1) = m (a + 1)" using short_jump_length [OF n(1)] c [of 1] by simp
  show "visit_instruction M a = visit_instruction m a" using a f by (simp add: visit_instruction_def)
  show "target8 M d = target8 m d" if "visit_instruction m a = Byte_Displacement d"
    using that s by (auto simp: visit_instruction_def target8_def split: if_splits)
  show "a < d \<and> d + 4 = a + int n \<and> target32 M d = target32 m d" if v: "visit_instruction m a = Dword_Displacement d"
  proof -
    from v consider "m a = 0xE8 \<or> m a = 0xE9" "d = a + 1" | "m a = 0x0F" "findByte near_opcodes2 (m (a + 1))" "d = a + 2"
      by (auto simp: visit_instruction_def split: if_splits)
    then have d: "a < d" "d + 4 = a + int n"
      using near_jump_length [OF n(1)] near_condition_length [OF n(1)] by (cases; simp)+
    have "read_dword M d = read_dword m d"
    proof (rule read_dword_cong)
      fix i :: nat assume "i < 4"
      with d c [of "nat (d - a) + i"] show "M (d + int i) = m (d + int i)" by simp
    qed
    with d show ?thesis by (simp add: target32_def)
  qed
qed

text \<open>One instruction: it is copied and its displacement adjusted, and nothing else is written.\<close>

lemma move_one:
  assumes n: "ldisasm x64 (\<lambda>i. m (a + int i)) = Some n" "n < 256" and c: "\<And>i. i < n \<Longrightarrow> M (a + int i) = m (a + int i)"
    and apart: "a + int n \<le> dest \<or> dest + int n \<le> a" and "movable source m a" "dest + delta = a"
  shows "\<exists>M2. move_visit source delta a dest (mem_copy dest (mem_read M a n) M) = Inr M2 \<and> moved source m M2 a dest n \<and>
    (\<forall>x. x < dest \<or> dest + int n \<le> x \<longrightarrow> M2 x = M x)"
proof -
  define M1 where "M1 = mem_copy dest (mem_read M a n) M"
  have out: "x < dest \<or> dest + int n \<le> x \<Longrightarrow> M1 x = M x" for x by (auto simp: M1_def mem_copy_def)
  have copied: "M1 (dest + int i) = m (a + int i)" if "i < n" for i
    using that c [OF that] mem_copy_inside [of i "mem_read M a n" dest M] by (simp add: M1_def mem_read_def)
  have "M1 (a + int i) = m (a + int i)" if "i < n" for i using that c [OF that] out [of "a + int i"] apart by auto
  then have "\<forall>i<n. M1 (a + int i) = m (a + int i)" by blast
  note loc = instruction_local [OF n this]
  show ?thesis
  proof (cases "visit_instruction m a")
    case No_Displacement
    with loc(3) copied out show ?thesis unfolding M1_def [symmetric] by (auto simp: move_visit_def moved_def same_bytes_def)
  next
    case (Byte_Displacement d)
    with assms(5) loc(3) loc(4) [OF Byte_Displacement] copied out show ?thesis unfolding M1_def [symmetric]
      by (auto simp: move_visit_def moved_def same_bytes_def movable_def)
  next
    case (Dword_Displacement d)
    note d = loc(5) [OF Dword_Displacement]
    show ?thesis
    proof (cases "br_inside source (target32 m d)")
      case True
      with Dword_Displacement loc(3) d copied out show ?thesis unfolding M1_def [symmetric] by (auto simp: move_visit_def moved_def same_bytes_def)
    next
      case False
      let ?a = "dest + (d - a)"
      let ?M2 = "write_dword ?a (read_dword M1 ?a + word_of_int delta) M1"
      have w: "?M2 x = M1 x" if "x < ?a \<or> ?a + 4 \<le> x" for x using that by (auto simp: write_dword_def mem_copy_def)
      have "read_dword M1 ?a = read_dword m d"
      proof (rule read_dword_cong)
        fix i :: nat assume "i < 4"
        with d have "nat (d - a) + i < n" by linarith
        from copied [OF this] d show "M1 (?a + int i) = m (d + int i)" by (simp add: algebra_simps)
      qed
      then have "target32 ?M2 ?a = ?a + 4 + sint (read_dword m d + word_of_int delta)" by (simp add: target32_def read_write_dword)
      then have "reaches (sint (read_dword m d) + (a - dest)) (target32 m d) (target32 ?M2 ?a)"
        using assms(6) by (intro added_displacement [of _ d]) (auto simp: target32_def algebra_simps)
      moreover have "same_bytes m a ?M2 dest (nat (d - a))"
      proof (unfold same_bytes_def, intro allI impI)
        fix i assume i: "i < nat (d - a)"
        with d have "int i < d - a" "i < n" by linarith+
        with w [of "dest + int i"] copied [of i] show "?M2 (dest + int i) = m (a + int i)" by simp
      qed
      ultimately have "moved source m ?M2 a dest n" using False by (simp add: moved_def Dword_Displacement)
      moreover have "?M2 x = M x" if "x < dest \<or> dest + int n \<le> x" for x using that w [of x] out [of x] d by auto
      moreover have "move_visit source delta a dest M1 = Inr ?M2" using False d loc(3) Dword_Displacement by (simp add: move_visit_def Let_def)
      ultimately show ?thesis unfolding M1_def [symmetric] by blast
    qed
  qed
qed

lemma decodes_range: "decodes x64 m p remaining is \<Longrightarrow> (a, n) \<in> set is \<Longrightarrow> p \<le> a \<and> a + int n \<le> p + int remaining"
  by (induction rule: decodes.induct) auto

lemma moved_cong: "moved source m M a b n \<Longrightarrow> (\<And>x. b \<le> x \<Longrightarrow> x < b + int n \<Longrightarrow> M' x = M x) \<Longrightarrow>
    (\<And>d. visit_instruction m a = Dword_Displacement d \<Longrightarrow> a < d \<and> d + 4 = a + int n) \<Longrightarrow> moved source m M' a b n"
proof -
  assume m: "moved source m M a b n" and e: "\<And>x. b \<le> x \<Longrightarrow> x < b + int n \<Longrightarrow> M' x = M x"
    and d: "\<And>d. visit_instruction m a = Dword_Displacement d \<Longrightarrow> a < d \<and> d + 4 = a + int n"
  have s: "same_bytes m a M' b k" if "same_bytes m a M b k" "k \<le> n" for k using that e by (simp add: same_bytes_def)
  show ?thesis
  proof (cases "visit_instruction m a")
    case (Dword_Displacement dd)
    note dd = d [OF this]
    have "read_dword M' (b + (dd - a)) = read_dword M (b + (dd - a))" using dd by (intro read_dword_cong e) auto
    then have "target32 M' (b + (dd - a)) = target32 M (b + (dd - a))" by (simp add: target32_def)
    moreover have "nat (dd - a) \<le> n" using dd by linarith
    ultimately show ?thesis using m s by (auto simp: moved_def Dword_Displacement split: if_splits)
  qed (use m s in \<open>auto simp: moved_def\<close>)
qed

lemma move_loop_moves:
  assumes "decodes x64 m p remaining is" "\<forall>x. p \<le> x \<and> x < p + int remaining \<longrightarrow> M x = m x"
    and "it_ptr it + int (it_length it) = p" "it_remaining it = it_length it + remaining" "dest + delta = p"
    and "p + int remaining \<le> dest \<or> dest + int remaining \<le> p" "\<forall>an\<in>set is. movable source m (fst an)"
  shows "\<exists>M'. move_loop x64 source delta it dest M = Some (None, M') \<and>
    (\<forall>an\<in>set is. moved source m M' (fst an) (fst an - delta) (snd an)) \<and> (\<forall>x. x < dest \<or> dest + int remaining \<le> x \<longrightarrow> M' x = M x)"
  using assms
proof (induction arbitrary: M it dest rule: decodes.induct)
  case (body_end p)
  then show ?case by (simp add: move_loop.simps fetch_instruction_def)
next
  case (instruction p n remaining "is")
  let ?it = "\<lparr>it_ptr = p, it_remaining = remaining, it_length = n\<rparr>"
  have c: "M (p + int i) = m (p + int i)" if "i < n" for i using that instruction.prems(1) instruction.hyps(3) by simp
  then have c': "\<forall>i<n. M (p + int i) = m (p + int i)" by blast
  note loc = instruction_local [OF instruction.hyps(1,2) c']
  from length_is_local [OF instruction.hyps(1), of "\<lambda>i. m (p + int i)"] have pos: "0 < n" by simp
  have f: "fetch_instruction x64 M it = Some (Inr (Some ?it))"
    using loc(1) instruction.prems(2,3) instruction.hyps(2,3) pos by (simp add: fetch_instruction_def Let_def)
  have mv: "movable source m p" using instruction.prems(6) by simp
  have "p + int n \<le> dest \<or> dest + int n \<le> p" using instruction.prems(5) instruction.hyps(3) by linarith
  from move_one [OF instruction.hyps(1,2) c this mv instruction.prems(4)] obtain M2 where
    M2: "move_visit source delta p dest (mem_copy dest (mem_read M p n) M) = Inr M2" "moved source m M2 p dest n"
      "\<And>x. x < dest \<or> dest + int n \<le> x \<Longrightarrow> M2 x = M x" by blast
  have step: "move_loop x64 source delta it dest M = move_loop x64 source delta ?it (dest + int n) M2"
    using f M2(1) mv loc(2) by (subst move_loop.simps) (simp add: movable_def)
  have "\<forall>x. p + int n \<le> x \<and> x < p + int n + int (remaining - n) \<longrightarrow> M2 x = m x"
  proof (intro allI impI)
    fix x assume x: "p + int n \<le> x \<and> x < p + int n + int (remaining - n)"
    with instruction.prems(5) instruction.hyps(3) have "x < dest \<or> dest + int n \<le> x" by linarith
    with x M2(3) instruction.prems(1) instruction.hyps(3) show "M2 x = m x" by simp
  qed
  moreover have "it_ptr ?it + int (it_length ?it) = p + int n" "it_remaining ?it = it_length ?it + (remaining - n)"
      "dest + int n + delta = p + int n" "\<forall>an\<in>set is. movable source m (fst an)"
    using instruction.prems(4,6) instruction.hyps(3) by simp_all
  moreover have "p + int n + int (remaining - n) \<le> dest + int n \<or> dest + int n + int (remaining - n) \<le> p + int n"
    using instruction.prems(5) instruction.hyps(3) by linarith
  ultimately obtain M' where M': "move_loop x64 source delta ?it (dest + int n) M2 = Some (None, M')"
    "\<forall>an\<in>set is. moved source m M' (fst an) (fst an - delta) (snd an)"
    "\<And>x. x < dest + int n \<or> dest + int n + int (remaining - n) \<le> x \<Longrightarrow> M' x = M2 x"
    using instruction.IH [of M2 ?it "dest + int n"] by metis
  have "moved source m M' p dest n" by (rule moved_cong [OF M2(2)]) (use M'(3) loc(5) in auto)
  moreover have "p - delta = dest" using instruction.prems(4) by simp
  moreover have "M' x = M x" if "x < dest \<or> dest + int remaining \<le> x" for x
    using that M2(3) [of x] M'(3) [of x] instruction.hyps(3) by force
  ultimately show ?case using M' step by auto
qed

text \<open>
  C31. A body that decodes, without breakpoints and without short jumps out of it, is moved without error
  to any place apart from it, and nothing outside the destination is written. The near calls and jumps
  the code recognises (opcodes E8, E9 and 0F 80-8F, without prefixes) that lead out of the body reach exactly
  the address they did whenever the displacement for the new place is a signed 32-bit number; if it is
  not, as after a move of more than 2 GB, the delta is cut to 32 bits, and they reach another address, equal
  modulo \<open>2 ^ 32\<close>. Every other instruction arrives at its offset with all its bytes: references
  within the body keep their relative targets, while a reference out of the body by an instruction that is
  not recognised (a prefixed jump, \<open>loop\<close>, \<open>jecxz\<close>, a RIP-relative operand) is not adjusted.
\<close>

theorem moved_function_keeps_targets:
  assumes "decodes x64 m (br_begin source) (br_length source) is"
    and "br_end source \<le> dest \<or> dest + int (br_length source) \<le> br_begin source"
    and "\<forall>an\<in>set is. movable source m (fst an)"
  shows "\<exists>m'. move_function x64 dest source m = Some (None, m') \<and>
    (\<forall>an\<in>set is. moved source m m' (fst an) (dest + (fst an - br_begin source)) (snd an)) \<and>
    (\<forall>x. x < dest \<or> dest + int (br_length source) \<le> x \<longrightarrow> m' x = m x)"
proof -
  have "fst an - (br_begin source - dest) = dest + (fst an - br_begin source)" for an :: "int \<times> nat" by simp
  with move_loop_moves [OF assms(1), of m "iterator_init source" dest "br_begin source - dest" source] assms(2,3) show ?thesis
    by (simp add: move_function_def iterator_init_def br_end_def)
qed

theorem moved_function_keeps_targets_witness:
  "(\<exists>m'. move_function True 1000 \<lparr>br_begin = 0, br_length = 5\<rparr> sample_code = Some (None, m') \<and> target32 m' 1001 = 100) \<and>
    (\<exists>m'. move_function True (2 ^ 32) \<lparr>br_begin = 0, br_length = 5\<rparr> sample_code = Some (None, m') \<and> target32 m' (2 ^ 32 + 1) \<noteq> 100)"
proof -
  have "decodes True sample_code 0 5 [(0, 5)]"
    using decodes.instruction [of True sample_code 0 5 5 "[]"] decodes.body_end [of True sample_code 5] sample_length by simp
  moreover have v: "visit_instruction sample_code 0 = Dword_Displacement 1" by (simp add: visit_instruction_def sample_code_def short_opcodes_def)
  moreover have d: "read_dword sample_code 1 = 95" by (simp add: read_dword_def sample_code_def)
  ultimately show ?thesis
    using moved_function_keeps_targets [of True sample_code "\<lparr>br_begin = 0, br_length = 5\<rparr>" "[(0, 5)]" 1000]
      moved_function_keeps_targets [of True sample_code "\<lparr>br_begin = 0, br_length = 5\<rparr>" "[(0, 5)]" "2 ^ 32"]
    by (auto simp: movable_def moved_def reaches_def br_inside_def br_end_def target32_def sample_code_def)
qed

end
