(* ===== verification/Jumper.thy ===== *)
theory Jumper
  imports Code_Memory
begin

unbundle bit_operations_syntax

text \<open>
  Diverting a function: \<^verbatim>\<open>patcher/src/jumper.cpp\<close> with \<^verbatim>\<open>patcher/src/replace.h\<close>. A jumper puts a long
  jump into the padding before a function, and switches the function over to it by writing a short jump
  over its first two bytes. The template of the long jump (\<^verbatim>\<open>c_jumper_proto\<close>, assembly) and the size of
  a pointer are arguments. Changing the protection of memory has no effect on its content and is not
  represented.
\<close>

section \<open>Templates\<close>

definition pointer_bytes :: "nat \<Rightarrow> int \<Rightarrow> u8 list" where
  "pointer_bytes psize v = map (\<lambda>i. word_of_int (v div 256 ^ i)) [0..<psize]"

definition c_signature :: int where "c_signature = 0x31415926"

definition construct_replace_seq :: "nat \<Rightarrow> int \<Rightarrow> u8 list" where
  "construct_replace_seq psize ix =
     (let signature = c_signature * 256 ^ (psize - 4) in pointer_bytes psize (signature - signature mod 256 + ix))"

text \<open>
  \<open>replace_bytes\<close>: every occurrence of \<open>sq\<close> in the bytes at \<open>a\<close>, searched for from left to right,
  is replaced with what \<open>writer\<close> gives for the address after it.
\<close>

function replace_bytes :: "u8 list \<Rightarrow> (int \<Rightarrow> u8 list) \<Rightarrow> int \<Rightarrow> u8 list \<Rightarrow> u8 list" where
  "replace_bytes sq writer a bs =
     (if bs = [] then []
      else if sq \<noteq> [] \<and> take (length sq) bs = sq
      then writer (a + int (length sq)) @ replace_bytes sq writer (a + int (length sq)) (drop (length sq) bs)
      else hd bs # replace_bytes sq writer (a + 1) (tl bs))"
  by auto
termination by (relation "measure (\<lambda>(_, _, _, bs). length bs)") auto

declare replace_bytes.simps [simp del]

definition replace :: "nat \<Rightarrow> byte_range \<Rightarrow> int \<Rightarrow> (int \<Rightarrow> int) \<Rightarrow> memory \<Rightarrow> memory" where
  "replace psize r ix writer m =
     mem_copy (br_begin r)
       (replace_bytes (construct_replace_seq psize ix) (\<lambda>a. pointer_bytes psize (writer a)) (br_begin r) (mem_read m (br_begin r) (br_length r))) m"

section \<open>The jumper\<close>

datatype patch_exception = Currently_Prohibited | Leading_Too_Short | Padding_Insufficient
datatype jumper_error = Patch_Exception patch_exception | Jumper_Detached | Bad_Alloc

record jumper =
  j_target :: int
  j_fuse_revert :: "u8 list"
  j_fill :: u8
  j_entry :: int
  j_active :: bool
  j_detached :: bool

definition c_short_jump_size :: int where "c_short_jump_size = 2"

fun is_uniform :: "u8 list \<Rightarrow> bool" where
  "is_uniform [] = True"
| "is_uniform (b # bs) = list_all (\<lambda>x. x = b) bs"

definition prohibited :: "memory \<Rightarrow> int \<Rightarrow> bool" where
  "prohibited m a \<longleftrightarrow>
     (0x70 \<le> m a \<and> m a \<le> 0x7F) \<or> m a = 0xEB \<or> m a = 0xE8 \<or> m a = 0xE9 \<or> (m a = 0x0F \<and> 0x80 \<le> m (a + 1) \<and> m (a + 1) \<le> 0x8F)"

definition prologue_size :: "nat \<Rightarrow> jumper \<Rightarrow> int" where
  "prologue_size c_jumper_size j = (int c_jumper_size + (if j_entry j < 0 then - j_entry j else 0)) mod 256"

definition prologue :: "nat \<Rightarrow> jumper \<Rightarrow> int" where
  "prologue c_jumper_size j = j_target j - prologue_size c_jumper_size j"

text \<open>The length is kept in a signed byte, the entry in a signed field of six bits.\<close>

definition jumper_entry :: "memory \<Rightarrow> int \<Rightarrow> int \<Rightarrow> int" where
  "jumper_entry m target extra =
     sint (word_of_int (if is_nop_at m target then max extra c_short_jump_size else - (c_short_jump_size + extra)) :: 6 word)"

definition jumper_new :: "nat \<Rightarrow> u8 list \<Rightarrow> bool \<Rightarrow> int \<Rightarrow> int \<Rightarrow> memory \<Rightarrow> (patch_exception + jumper \<times> memory) option" where
  "jumper_new psize proto x64 target divert_to m =
     (if prohibited m target then Some (Inl Currently_Prohibited)
      else Option.bind (ldisasm x64 (\<lambda>i. m (target + int i))) (\<lambda>n.
        let extra = sint (word_of_int (int n) :: 8 word) in
        if extra < c_short_jump_size \<and> \<not> is_nop_opcode (m target) then Some (Inl Leading_Too_Short)
        else
          let j = \<lparr>j_target = target, j_fuse_revert = [], j_fill = 0, j_entry = jumper_entry m target extra, j_active = False, j_detached = False\<rparr>;
              p = prologue (length proto) j; ps = prologue_size (length proto) j
          in if \<not> is_uniform (mem_read m p (nat ps)) then Some (Inl Padding_Insufficient)
             else
               let j = j\<lparr>j_fill := m p\<rparr>;
                   r = \<lparr>br_begin = p, br_length = length proto\<rparr>;
                   m1 = mem_copy p proto m;
                   m1 = replace psize r 1 (\<lambda>_. divert_to) m1;
                   m1 = replace psize r 0x81 (\<lambda>a. divert_to - a) m1;
                   m1 = (if j_entry j < 0 then
                           let m1 = mem_copy (target + j_entry j) (mem_read m1 target (nat extra)) m1;
                               s = target - c_short_jump_size
                           in mem_copy s (short_jump_init s (target + extra)) m1
                         else m1)
               in Some (Inr (j, m1))))"

definition jumper_active :: "jumper \<Rightarrow> bool" where
  "jumper_active j \<longleftrightarrow> \<not> j_detached j \<and> j_active j"

definition jumper_delete :: "nat \<Rightarrow> jumper \<Rightarrow> memory \<Rightarrow> memory" where
  "jumper_delete c_jumper_size j m =
     (if j_detached j then m
      else
        let m1 = (if j_active j then mem_copy (j_target j) (j_fuse_revert j) m else m)
        in mem_copy (prologue c_jumper_size j) (replicate (nat (prologue_size c_jumper_size j)) (j_fill j)) m1)"

definition jumper_activate :: "nat \<Rightarrow> jumper \<Rightarrow> memory \<Rightarrow> (jumper_error + bool) \<times> jumper \<times> memory" where
  "jumper_activate c_jumper_size j m =
     (if j_detached j then (Inl Jumper_Detached, j, m)
      else if j_active j then (Inr False, j, m)
      else
        let j1 = j\<lparr>j_fuse_revert := mem_read m (j_target j) 2\<rparr>
        in (Inr True, j1\<lparr>j_active := True\<rparr>, mem_copy (j_target j) (short_jump_init (j_target j) (prologue c_jumper_size j)) m))"

definition jumper_revert :: "jumper \<Rightarrow> memory \<Rightarrow> (jumper_error + bool) \<times> jumper \<times> memory" where
  "jumper_revert j m =
     (if j_detached j then (Inl Jumper_Detached, j, m)
      else if \<not> j_active j then (Inr False, j, m)
      else (Inr True, j\<lparr>j_active := False\<rparr>, mem_copy (j_target j) (j_fuse_revert j) m))"

definition jumper_detach :: "jumper \<Rightarrow> jumper" where
  "jumper_detach j = j\<lparr>j_detached := True\<rparr>"

datatype jumper_op = Op_Activate | Op_Revert

fun jumper_run :: "nat \<Rightarrow> jumper_op list \<Rightarrow> jumper \<times> memory \<Rightarrow> jumper \<times> memory" where
  "jumper_run sz [] s = s"
| "jumper_run sz (Op_Activate # ops) (j, m) = jumper_run sz ops (snd (jumper_activate sz j m))"
| "jumper_run sz (Op_Revert # ops) (j, m) = jumper_run sz ops (snd (jumper_revert j m))"

section \<open>The invariant\<close>

text \<open>The memory as it was, but for the padding and, while active, the first two bytes of the function.\<close>

definition jumper_inv :: "nat \<Rightarrow> memory \<Rightarrow> jumper \<Rightarrow> memory \<Rightarrow> bool" where
  "jumper_inv sz m0 j m \<longleftrightarrow> \<not> j_detached j \<and> 0 \<le> prologue_size sz j \<and>
     (\<forall>x. prologue sz j \<le> x \<and> x < j_target j \<longrightarrow> m0 x = j_fill j) \<and>
     (\<forall>x. x < prologue sz j \<or> j_target j + 2 \<le> x \<longrightarrow> m x = m0 x) \<and>
     (if j_active j then j_fuse_revert j = mem_read m0 (j_target j) 2
      else \<forall>x. j_target j \<le> x \<and> x < j_target j + 2 \<longrightarrow> m x = m0 x)"

lemma prologue_updates [simp]:
  "prologue_size sz (j\<lparr>j_active := a\<rparr>) = prologue_size sz j" "prologue_size sz (j\<lparr>j_fuse_revert := f\<rparr>) = prologue_size sz j"
  "prologue_size sz (j\<lparr>j_fill := b\<rparr>) = prologue_size sz j" "prologue_size sz (j\<lparr>j_detached := d\<rparr>) = prologue_size sz j"
  "prologue sz (j\<lparr>j_active := a\<rparr>) = prologue sz j" "prologue sz (j\<lparr>j_fuse_revert := f\<rparr>) = prologue sz j"
  "prologue sz (j\<lparr>j_fill := b\<rparr>) = prologue sz j" "prologue sz (j\<lparr>j_detached := d\<rparr>) = prologue sz j"
  by (simp_all add: prologue_def prologue_size_def)

lemma is_uniform_read: "is_uniform (mem_read m p n) \<Longrightarrow> p \<le> x \<Longrightarrow> x < p + int n \<Longrightarrow> m x = m p"
proof -
  assume u: "is_uniform (mem_read m p n)" and x: "p \<le> x" "x < p + int n"
  then obtain k where n: "n = Suc k" by (cases n) auto
  have r: "mem_read m p n = m p # map (\<lambda>i. m (p + int i)) [1..<n]" unfolding mem_read_def n by (simp add: upt_conv_Cons del: upt_Suc)
  show "m x = m p"
  proof (cases "x = p")
    case False
    have "\<forall>i\<in>set [1..<n]. m (p + int i) = m p" using u unfolding r by (simp add: list_all_iff)
    from bspec [OF this, of "nat (x - p)"] x False show ?thesis by (simp add: nat_less_iff)
  qed simp
qed

lemma activate_inv:
  assumes "jumper_inv sz m0 j m" "jumper_activate sz j m = (r, j', m')"
  shows "jumper_inv sz m0 j' m'" "j_target j' = j_target j" "j_entry j' = j_entry j"
proof -
  have l: "length (short_jump_init a b) = 2" for a b by (simp add: short_jump_init_def)
  have "mem_read m (j_target j) 2 = mem_read m0 (j_target j) 2" if "\<not> j_active j"
    using assms(1) that by (auto simp: jumper_inv_def mem_read_def)
  then show "jumper_inv sz m0 j' m'" "j_target j' = j_target j" "j_entry j' = j_entry j"
    using assms by (auto simp: jumper_inv_def jumper_activate_def Let_def prologue_def prologue_size_def mem_copy_def l split: if_splits)
qed

lemma revert_inv:
  assumes "jumper_inv sz m0 j m" "jumper_revert j m = (r, j', m')"
  shows "jumper_inv sz m0 j' m'" "j_target j' = j_target j" "j_entry j' = j_entry j"
proof -
  have d: "\<not> j_detached j" using assms(1) by (simp add: jumper_inv_def)
  have all: "jumper_inv sz m0 j' m' \<and> j_target j' = j_target j \<and> j_entry j' = j_entry j"
  proof (cases "j_active j")
    case True
    let ?m = "mem_copy (j_target j) (j_fuse_revert j) m"
    have fr: "j_fuse_revert j = mem_read m0 (j_target j) 2" using assms(1) True by (simp add: jumper_inv_def)
    then have "?m x = m0 x" if "j_target j \<le> x \<and> x < j_target j + 2" for x
      using that by (simp add: mem_copy_def mem_read_def nat_less_iff)
    moreover have "?m x = m x" if "x < j_target j \<or> j_target j + 2 \<le> x" for x using that fr by (auto simp: mem_copy_def)
    moreover have "j' = j\<lparr>j_active := False\<rparr>" "m' = ?m" using assms(2) True d by (simp_all add: jumper_revert_def)
    moreover have "prologue sz j \<le> j_target j" using assms(1) by (simp add: jumper_inv_def prologue_def)
    ultimately show ?thesis using assms(1) by (auto simp: jumper_inv_def)
  next
    case False
    with assms d show ?thesis by (simp add: jumper_revert_def)
  qed
  then show "jumper_inv sz m0 j' m'" "j_target j' = j_target j" "j_entry j' = j_entry j" by blast+
qed

lemma delete_restores:
  assumes "jumper_inv sz m0 j m"
  shows "jumper_delete sz j m = m0"
proof (rule ext)
  fix x
  let ?p = "prologue sz j"
  have p: "?p + int (length (replicate (nat (prologue_size sz j)) (j_fill j))) = j_target j"
    using assms by (simp add: jumper_inv_def prologue_def)
  obtain r j1 m1 where r: "jumper_revert j m = (r, j1, m1)" by (metis prod_cases3)
  note i = revert_inv [OF assms r]
  have d: "\<not> j_detached j" using assms by (simp add: jumper_inv_def)
  have m1: "(if j_active j then mem_copy (j_target j) (j_fuse_revert j) m else m) = m1" "\<not> j_active j1"
    using r d by (auto simp: jumper_revert_def split: if_splits)
  have j1: "prologue sz j1 = ?p" "j_target j1 = j_target j" "j_fill j1 = j_fill j"
    using i r d by (auto simp: prologue_def prologue_size_def jumper_revert_def split: if_splits)
  have "jumper_delete sz j m x = mem_copy ?p (replicate (nat (prologue_size sz j)) (j_fill j)) m1 x"
    using d m1(1) by (simp add: jumper_delete_def Let_def)
  also have "\<dots> = m0 x"
  proof (cases "?p \<le> x \<and> x < j_target j")
    case True
    then have "nat (x - ?p) < nat (prologue_size sz j)" by (simp add: prologue_def nat_less_eq_zless)
    with True p i(1) show ?thesis unfolding mem_copy_def by (auto simp: jumper_inv_def j1)
  next
    case False
    then have "mem_copy ?p (replicate (nat (prologue_size sz j)) (j_fill j)) m1 x = m1 x" unfolding mem_copy_def p by auto
    moreover have "m1 x = m0 x" using False i(1) m1(2) by (cases "x < j_target j + 2") (auto simp: jumper_inv_def j1)
    ultimately show ?thesis by simp
  qed
  finally show "jumper_delete sz j m x = m0 x" .
qed

section \<open>The constructor\<close>

lemma length_replace_bytes: "(\<And>a. length (writer a) = length sq) \<Longrightarrow> length (replace_bytes sq writer a bs) = length bs"
proof (induction sq writer a bs rule: replace_bytes.induct)
  case (1 sq writer a bs)
  show ?case
  proof (cases "bs \<noteq> [] \<and> sq \<noteq> [] \<and> take (length sq) bs = sq")
    case True
    then have "min (length bs) (length sq) = length sq" by (metis length_take)
    then have "length sq \<le> length bs" by (simp add: min_def split: if_splits)
    with True 1 show ?thesis by (simp add: replace_bytes.simps [of sq writer a bs])
  next
    case False
    then show ?thesis
    proof (cases bs)
      case Nil
      then show ?thesis by (simp add: replace_bytes.simps)
    next
      case (Cons b cs)
      with False 1 have "length (replace_bytes sq writer (a + 1) cs) = length cs" by simp
      with False Cons show ?thesis by (auto simp: replace_bytes.simps [of sq writer a "b # cs"])
    qed
  qed
qed

lemma replace_outside: "x < br_begin r \<or> br_end r \<le> x \<Longrightarrow> replace psize r ix writer m x = m x"
proof -
  have l: "length (replace_bytes (construct_replace_seq psize ix) (\<lambda>a. pointer_bytes psize (writer a)) (br_begin r) bs) = length bs" for bs
    by (rule length_replace_bytes) (simp add: construct_replace_seq_def pointer_bytes_def Let_def)
  show "x < br_begin r \<or> br_end r \<le> x \<Longrightarrow> replace psize r ix writer m x = m x"
    unfolding replace_def by (rule mem_copy_outside) (simp add: l br_end_def)
qed

lemma sint_small: "- (2 ^ (LENGTH('a) - 1)) \<le> k \<Longrightarrow> k < 2 ^ (LENGTH('a) - 1) \<Longrightarrow> sint (word_of_int k :: 'a::len word) = k"
proof -
  assume k: "- (2 ^ (LENGTH('a) - 1)) \<le> k" "k < 2 ^ (LENGTH('a) - 1)"
  have "(2::int) ^ LENGTH('a) = 2 * 2 ^ (LENGTH('a) - 1)" by (simp flip: power_Suc)
  with k have "(k + 2 ^ (LENGTH('a) - 1)) mod 2 ^ LENGTH('a) = k + 2 ^ (LENGTH('a) - 1)" by (intro mod_pos_pos_trivial) auto
  then show "sint (word_of_int k :: 'a word) = k" by (simp add: int_word_sint)
qed

lemma small_entry:
  assumes "n \<le> 15"
  shows "sint (word_of_int (int n) :: 8 word) = int n"
    "jumper_entry m target (int n) = (if is_nop_at m target then max (int n) 2 else - (2 + int n))"
proof -
  show "sint (word_of_int (int n) :: 8 word) = int n" using assms by (intro sint_small) auto
  show "jumper_entry m target (int n) = (if is_nop_at m target then max (int n) 2 else - (2 + int n))"
    unfolding jumper_entry_def c_short_jump_size_def using assms by (subst sint_small) auto
qed

text \<open>What the constructor gives: the record, and that only the padding was written to.\<close>

definition new_memory :: "nat \<Rightarrow> u8 list \<Rightarrow> int \<Rightarrow> int \<Rightarrow> int \<Rightarrow> nat \<Rightarrow> int \<Rightarrow> memory \<Rightarrow> memory" where
  "new_memory psize proto target divert_to p n e m =
     (let r = \<lparr>br_begin = p, br_length = length proto\<rparr>;
          m1 = replace psize r 0x81 (\<lambda>a. divert_to - a) (replace psize r 1 (\<lambda>_. divert_to) (mem_copy p proto m))
      in if e < 0 then mem_copy (target - 2) (short_jump_init (target - 2) (target + int n)) (mem_copy (target + e) (mem_read m1 target n) m1) else m1)"

lemma jumper_new_gives:
  assumes "jumper_new psize proto x64 target divert_to m = Some (Inr (j, m1))"
    and n: "ldisasm x64 (\<lambda>i. m (target + int i)) = Some n" "n \<le> 15"
  shows "j_target j = target" "\<not> j_active j" "\<not> j_detached j" "j_fill j = m (prologue (length proto) j)"
    "j_entry j = (if is_nop_at m target then max (int n) 2 else - (2 + int n))"
    "is_uniform (mem_read m (prologue (length proto) j) (nat (prologue_size (length proto) j)))"
    "m1 = new_memory psize proto target divert_to (prologue (length proto) j) n (j_entry j) m"
  using assms(1) unfolding jumper_new_def n(1) Option.bind.bind_lunit Let_def small_entry [OF n(2)] new_memory_def
  by (auto simp: c_short_jump_size_def prologue_def prologue_size_def split: if_splits)

text \<open>The first instruction has two bytes or more, or is a no-operation of one.\<close>

lemma jumper_new_length:
  assumes "jumper_new psize proto x64 target divert_to m = Some (Inr (j, m1))"
    and n: "ldisasm x64 (\<lambda>i. m (target + int i)) = Some n" "n \<le> 15"
  shows "2 \<le> n \<or> n = 1 \<and> m target = 0x90"
proof -
  have "\<not> (int n < c_short_jump_size \<and> \<not> is_nop_opcode (m target))"
  proof
    assume c: "int n < c_short_jump_size \<and> \<not> is_nop_opcode (m target)"
    have "jumper_new psize proto x64 target divert_to m = (if prohibited m target then Some (Inl Currently_Prohibited) else Some (Inl Leading_Too_Short))"
      unfolding jumper_new_def n(1) Option.bind.bind_lunit Let_def small_entry(1) [OF n(2)] if_P [OF c] ..
    with assms(1) show False by (simp split: if_splits)
  qed
  moreover have "0 < n" using length_is_local [OF n(1) refl] by simp
  ultimately show ?thesis by (auto simp: c_short_jump_size_def is_nop_opcode_def)
qed

lemma new_memory_outside:
  assumes "e < 0 \<Longrightarrow> e = - (2 + int n)" "p + int (length proto) + (if e < 0 then - e else 0) = target" "x < p \<or> target \<le> x"
  shows "new_memory psize proto target divert_to p n e m x = m x"
proof -
  let ?r = "\<lparr>br_begin = p, br_length = length proto\<rparr>"
  let ?m = "replace psize ?r 0x81 (\<lambda>a. divert_to - a) (replace psize ?r 1 (\<lambda>_. divert_to) (mem_copy p proto m))"
  have x: "x < p \<or> p + int (length proto) \<le> x" using assms(2,3) by (auto split: if_splits)
  then have m: "?m x = m x" by (simp add: replace_outside br_end_def mem_copy_outside)
  show ?thesis
  proof (cases "e < 0")
    case True
    then have "x < target - 2 \<or> target - 2 + int (length (short_jump_init (target - 2) (target + int n))) \<le> x"
      "x < target + e \<or> target + e + int (length (mem_read ?m target n)) \<le> x"
      using assms by (auto simp: short_jump_init_def mem_read_def)
    with True m show ?thesis by (simp add: new_memory_def Let_def mem_copy_outside)
  next
    case False
    with m show ?thesis by (simp add: new_memory_def Let_def)
  qed
qed

lemma new_geometry:
  assumes "j_entry j = (if is_nop_at m target then max (int n) 2 else - (2 + int n))" "n \<le> 15" "sz \<le> 100"
  shows "prologue_size sz j = int sz + (if j_entry j < 0 then - j_entry j else 0)"
  using assms by (auto simp: prologue_size_def)

lemma jumper_new_inv:
  assumes "jumper_new psize proto x64 target divert_to m = Some (Inr (j, m1))"
    and "ldisasm x64 (\<lambda>i. m (target + int i)) = Some n" "n \<le> 15" "length proto \<le> 100"
  shows "jumper_inv (length proto) m j m1"
proof -
  note g = jumper_new_gives [OF assms(1-3)]
  let ?p = "prologue (length proto) j"
  have ps: "prologue_size (length proto) j = int (length proto) + (if j_entry j < 0 then - j_entry j else 0)"
    by (rule new_geometry [OF g(5) assms(3,4)])
  have s: "0 \<le> prologue_size (length proto) j" using ps by simp
  have e: "j_entry j = - (2 + int n)" if "j_entry j < 0" using that g(5) by (auto split: if_splits)
  have p: "?p + int (length proto) + (if j_entry j < 0 then - j_entry j else 0) = target"
    unfolding prologue_def ps g(1) by simp
  have out: "m1 x = m x" if "x < ?p \<or> target \<le> x" for x
    unfolding g(7) using e p that by (rule new_memory_outside)
  have "m x = j_fill j" if "?p \<le> x" "x < target" for x
    unfolding g(4) using g(6) that(1) by (rule is_uniform_read) (use that s g(1) in \<open>simp add: prologue_def\<close>)
  with out s g(1-3) show ?thesis by (auto simp: jumper_inv_def)
qed

lemma jumper_run_inv: "jumper_inv sz m0 (fst s) (snd s) \<Longrightarrow> jumper_inv sz m0 (fst (jumper_run sz ops s)) (snd (jumper_run sz ops s))"
proof (induction sz ops s rule: jumper_run.induct)
  case (2 sz ops j m)
  obtain r j1 m1 where a: "jumper_activate sz j m = (r, j1, m1)" by (metis prod_cases3)
  with 2 activate_inv(1) [OF _ a] show ?case by simp
next
  case (3 sz ops j m)
  obtain r j1 m1 where a: "jumper_revert j m = (r, j1, m1)" by (metis prod_cases3)
  with 3 revert_inv(1) [OF _ a] show ?case by simp
qed simp

text \<open>
  C27. A jumper leaves no trace. Whatever activations and reverts followed its construction, deleting it
  gives back the memory as it was before. The first instruction has at most 15 bytes, which is what the
  architecture allows, and the template is short enough for a short jump to reach over it.
\<close>

theorem jumper_restores_code:
  assumes "jumper_new psize proto x64 target divert_to m = Some (Inr (j, m1))"
    and "ldisasm x64 (\<lambda>i. m (target + int i)) = Some n" "n \<le> 15" "length proto \<le> 100"
    and "jumper_run (length proto) ops (j, m1) = (j', m')"
  shows "jumper_delete (length proto) j' m' = m"
proof -
  from jumper_run_inv [of "length proto" m "(j, m1)" ops] jumper_new_inv [OF assms(1-4)] assms(5)
  have "jumper_inv (length proto) m j' m'" by simp
  then show ?thesis by (rule delete_restores)
qed

text \<open>A 32-bit function that starts with \<^verbatim>\<open>sub esp, 28h\<close>, after a padding of \<^verbatim>\<open>int 3\<close>.\<close>

definition sample_function :: memory where
  "sample_function = (\<lambda>x. if x = 1000 then 0x83 else if x = 1001 then 0xEC else if x = 1002 then 0x28 else 0xCC)"

definition sample_proto :: "u8 list" where
  "sample_proto = [0xE9, 0x81, 0x59, 0x41, 0x31]"

lemma sample_function_length: "ldisasm False (\<lambda>i. sample_function (1000 + int i)) = Some 3"
  by (simp add: ldisasm_def parse_prefixes.simps Let_def legacyPrefixes_def row_def col_def opcode_length_def imm_size1_def
      has_modrm1_def op1imm8_def op1imm32_def op1modrm_def parseModRM_def sample_function_def)

lemma sample_padding: "is_uniform (mem_read sample_function 990 10)"
  by (simp add: mem_read_def sample_function_def upt_conv_Cons del: upt_Suc)

lemma sample_new: "\<exists>j m1. jumper_new 4 sample_proto False 1000 5000 sample_function = Some (Inr (j, m1))"
proof -
  have e: "jumper_entry sample_function 1000 3 = - 5" using small_entry(2) [of 3 sample_function 1000] by (simp add: is_nop_at_def sample_function_def)
  have "\<not> prohibited sample_function 1000" by (simp add: prohibited_def sample_function_def)
  then show ?thesis
    using sample_padding small_entry(1) [of 3]
    by (simp add: jumper_new_def sample_function_length Let_def e c_short_jump_size_def prologue_def prologue_size_def sample_proto_def)
qed

theorem jumper_restores_code_witness:
  "\<exists>j m1. jumper_new 4 sample_proto False 1000 5000 sample_function = Some (Inr (j, m1)) \<and>
     jumper_delete 5 (fst (jumper_run 5 [Op_Activate, Op_Revert, Op_Activate] (j, m1))) (snd (jumper_run 5 [Op_Activate, Op_Revert, Op_Activate] (j, m1)))
       = sample_function"
proof -
  obtain j m1 where n: "jumper_new 4 sample_proto False 1000 5000 sample_function = Some (Inr (j, m1))" using sample_new by blast
  have l: "length sample_proto = 5" by (simp add: sample_proto_def)
  from jumper_restores_code [OF n sample_function_length, of "[Op_Activate, Op_Revert, Op_Activate]"] n show ?thesis
    unfolding l by (metis prod.collapse numeral_le_iff semiring_norm(68) one_le_numeral rel_simps)
qed

section \<open>The diversion\<close>

lemma mem_read_copy: "n = length bs \<Longrightarrow> mem_read (mem_copy a bs m) a n = bs"
  by (auto simp: mem_read_def mem_copy_inside intro!: nth_equalityI)

lemma mem_read_copy_apart: "a + int n \<le> b \<or> b + int (length bs) \<le> a \<Longrightarrow> mem_read (mem_copy b bs m) a n = mem_read m a n"
  by (auto simp: mem_read_def mem_copy_def)

lemma read_replace:
  "mem_read (replace psize r ix writer m) (br_begin r) (br_length r) =
     replace_bytes (construct_replace_seq psize ix) (\<lambda>a. pointer_bytes psize (writer a)) (br_begin r) (mem_read m (br_begin r) (br_length r))"
  unfolding replace_def
  by (rule mem_read_copy) (simp add: length_replace_bytes construct_replace_seq_def pointer_bytes_def Let_def)

text \<open>The long jump: the template with the address of the trampoline, and its displacement, in the place of the marks.\<close>

definition long_jump :: "nat \<Rightarrow> u8 list \<Rightarrow> int \<Rightarrow> int \<Rightarrow> u8 list" where
  "long_jump psize proto p divert_to =
     replace_bytes (construct_replace_seq psize 0x81) (\<lambda>a. pointer_bytes psize (divert_to - a)) p
       (replace_bytes (construct_replace_seq psize 1) (\<lambda>_. pointer_bytes psize divert_to) p proto)"

lemma new_memory_reads:
  assumes e: "e < 0 \<Longrightarrow> e = - (2 + int n)" and p: "p + int (length proto) + (if e < 0 then - e else 0) = target"
  shows "mem_read (new_memory psize proto target divert_to p n e m) p (length proto) = long_jump psize proto p divert_to"
    "e < 0 \<Longrightarrow> mem_read (new_memory psize proto target divert_to p n e m) (target + e) n = mem_read m target n"
    "e < 0 \<Longrightarrow> mem_read (new_memory psize proto target divert_to p n e m) (target - 2) 2 = short_jump_init (target - 2) (target + int n)"
proof -
  let ?r = "\<lparr>br_begin = p, br_length = length proto\<rparr>"
  let ?m = "replace psize ?r 0x81 (\<lambda>a. divert_to - a) (replace psize ?r 1 (\<lambda>_. divert_to) (mem_copy p proto m))"
  have l: "length (short_jump_init a b) = 2" for a b by (simp add: short_jump_init_def)
  have j: "mem_read ?m p (length proto) = long_jump psize proto p divert_to"
    using read_replace [where r = ?r] by (simp add: long_jump_def mem_read_copy)
  have o: "mem_read ?m target n = mem_read m target n"
    using p by (auto simp: mem_read_def replace_outside br_end_def mem_copy_outside split: if_splits)
  have nm: "new_memory psize proto target divert_to p n e m = (if e < 0 then
      mem_copy (target - 2) (short_jump_init (target - 2) (target + int n)) (mem_copy (target + e) (mem_read ?m target n) ?m) else ?m)"
    by (simp add: new_memory_def Let_def)
  show "mem_read (new_memory psize proto target divert_to p n e m) p (length proto) = long_jump psize proto p divert_to"
    unfolding nm using e p by (auto simp: mem_read_copy_apart l j split: if_splits)
  show "mem_read (new_memory psize proto target divert_to p n e m) (target + e) n = mem_read m target n" if "e < 0"
    unfolding nm using that e by (simp add: mem_read_copy_apart mem_read_copy l o)
  show "mem_read (new_memory psize proto target divert_to p n e m) (target - 2) 2 = short_jump_init (target - 2) (target + int n)" if "e < 0"
    unfolding nm using that by (simp add: mem_read_copy l)
qed

text \<open>Where a short jump at \<open>a\<close> goes to.\<close>

definition short_target :: "memory \<Rightarrow> int \<Rightarrow> int" where
  "short_target m a = a + 2 + sint (m (a + 1))"

lemma short_jump_read:
  assumes "mem_read m a 2 = short_jump_init a b" "-128 \<le> b - (a + 2)" "b - (a + 2) < 128"
  shows "m a = 0xEB" "short_target m a = b"
proof -
  have "sint (word_of_int (b - (a + 2)) :: 8 word) = b - (a + 2)" by (rule sint_small) (use assms in auto)
  with assms(1) show "m a = 0xEB" "short_target m a = b"
    by (simp_all add: mem_read_def short_jump_init_def short_target_def upt_conv_Cons)
qed

text \<open>
  C25. An active jumper diverts the function: its first byte is a short jump to the long jump to the trampoline. Of the original, all but the
  first two bytes is as it was, and an entry is kept. Where the function starts with a no-operation that has two bytes or more, or with two of one,
  the entry is what follows. Otherwise it is a copy of the bytes of the first instruction, wherever they refer to, followed by a short jump to the second
  instruction, which is as it was if the first has two bytes or more. The constructor also accepts a function that starts with a single
  no-operation of one byte: then the entry jumps to the second byte of the function, which is not the original but the displacement of the first jump.
\<close>

theorem jumper_diverts:
  assumes "jumper_new psize proto x64 target divert_to m = Some (Inr (j, m1))"
    and "ldisasm x64 (\<lambda>i. m (target + int i)) = Some n" "n \<le> 15" "length proto \<le> 100"
    and "jumper_activate (length proto) j m1 = (r, j', m')"
  shows "r = Inr True \<and> m' target = 0xEB \<and>
    mem_read m' (short_target m' target) (length proto) = long_jump psize proto (short_target m' target) divert_to \<and>
    (if is_nop_at m target then j_entry j' = max (int n) 2
     else mem_read m' (target + j_entry j') n = mem_read m target n \<and>
       m' (target + j_entry j' + int n) = 0xEB \<and> short_target m' (target + j_entry j' + int n) = target + int n \<and>
       (2 \<le> n \<or> n = 1 \<and> m target = 0x90 \<and> m' (target + 1) = word_of_int (short_target m' target - (target + 2)))) \<and>
    (\<forall>x \<ge> target + 2. m' x = m x)"
proof -
  note g = jumper_new_gives [OF assms(1-3)]
  let ?p = "prologue (length proto) j" and ?s = "short_jump_init target (prologue (length proto) j)"
  have ps: "prologue_size (length proto) j = int (length proto) + (if j_entry j < 0 then - j_entry j else 0)"
    by (rule new_geometry [OF g(5) assms(3,4)])
  have p: "?p + int (length proto) + (if j_entry j < 0 then - j_entry j else 0) = target" unfolding prologue_def ps g(1) by simp
  have e: "j_entry j = - (2 + int n)" if "j_entry j < 0" using that g(5) by (auto split: if_splits)
  note rd = new_memory_reads [OF e p, of psize divert_to m, folded g(7)]
  have a: "r = Inr True" "m' = mem_copy target ?s m1" "j_entry j' = j_entry j"
    using assms(5) g(1-3) by (auto simp: jumper_activate_def Let_def)
  have keep: "mem_read m' b k = mem_read m1 b k" if "b + int k \<le> target" for b k
    unfolding a(2) using that by (simp add: mem_read_copy_apart)
  have bound: "0 \<le> target - ?p" "target - ?p \<le> 117" using p e assms(3,4) by (auto split: if_splits)
  have "mem_read m' target 2 = ?s" unfolding a(2) by (rule mem_read_copy) (simp add: short_jump_init_def)
  note fuse = short_jump_read [OF this]
  have t: "m' target = 0xEB" "short_target m' target = ?p" using fuse bound by auto
  have long: "mem_read m' ?p (length proto) = long_jump psize proto ?p divert_to"
    using rd(1) keep [of ?p "length proto"] p by (auto split: if_splits)
  have entry: "mem_read m' (target + j_entry j') n = mem_read m target n \<and>
      m' (target + j_entry j' + int n) = 0xEB \<and> short_target m' (target + j_entry j' + int n) = target + int n" if "\<not> is_nop_at m target"
  proof -
    have n: "j_entry j < 0" "j_entry j = - (2 + int n)" using that g(5) by auto
    have "mem_read m' (target - 2) 2 = short_jump_init (target - 2) (target + int n)" using rd(3) n(1) keep [of "target - 2" 2] by simp
    from short_jump_read [OF this] assms(3) have "m' (target - 2) = 0xEB" "short_target m' (target - 2) = target + int n" by auto
    with rd(2) n keep [of "target + j_entry j" n] show ?thesis by (simp add: a(3))
  qed
  have "m' x = m x" if "target + 2 \<le> x" for x
    using that new_memory_outside [OF e p, of x psize divert_to m] by (simp add: a(2) g(7) mem_copy_outside short_jump_init_def)
  moreover have "m' (target + 1) = word_of_int (short_target m' target - (target + 2))"
  proof -
    have "m' (target + 1) = word_of_int (?p - (target + 2))" by (simp add: a(2) mem_copy_def short_jump_init_def)
    then show ?thesis by (simp only: t(2))
  qed
  ultimately show ?thesis using a t long entry g(5) jumper_new_length [OF assms(1-3)] by auto
qed

text \<open>A single no-operation and then \<^verbatim>\<open>push ebp\<close>: the jump of the entry is to a byte that is no longer \<^verbatim>\<open>push ebp\<close>.\<close>

definition sample_nop :: memory where
  "sample_nop = (\<lambda>x. if x = 1000 then 0x90 else if x = 1001 then 0x55 else 0xCC)"

lemma single_nop_entry:
  "\<exists>j m1 j' m'. jumper_new 4 sample_proto False 1000 5000 sample_nop = Some (Inr (j, m1)) \<and>
     jumper_activate 5 j m1 = (Inr True, j', m') \<and> m' (1000 + j_entry j') = 0x90 \<and>
     short_target m' (1000 + j_entry j' + 1) = 1001 \<and> m' 1001 = 0xF6"
proof -
  have d: "ldisasm False (\<lambda>i. sample_nop (1000 + int i)) = Some 1"
    by (simp add: ldisasm_def parse_prefixes.simps Let_def legacyPrefixes_def row_def col_def opcode_length_def imm_size1_def
        has_modrm1_def op1imm8_def op1imm32_def op1modrm_def sample_nop_def)
  have nop: "\<not> is_nop_at sample_nop 1000" by (simp add: is_nop_at_def sample_nop_def)
  have e: "jumper_entry sample_nop 1000 1 = - 3" using small_entry(2) [of 1 sample_nop 1000] nop by simp
  have "\<not> prohibited sample_nop 1000" by (simp add: prohibited_def sample_nop_def)
  moreover have "is_uniform (mem_read sample_nop 992 8)" by (simp add: mem_read_def sample_nop_def upt_conv_Cons del: upt_Suc)
  moreover have "is_nop_opcode (sample_nop 1000)" by (simp add: is_nop_opcode_def sample_nop_def)
  ultimately obtain j m1 where n: "jumper_new 4 sample_proto False 1000 5000 sample_nop = Some (Inr (j, m1))" and p: "prologue 5 j = 992"
    using small_entry(1) [of 1]
    by (simp add: jumper_new_def d Let_def e c_short_jump_size_def prologue_def prologue_size_def sample_proto_def)
  note g = jumper_new_gives [OF n d]
  have l: "length sample_proto = 5" by (simp add: sample_proto_def)
  obtain r j' m' where a: "jumper_activate 5 j m1 = (r, j', m')" by (metis prod_cases3)
  have m': "r = Inr True" "m' = mem_copy 1000 (short_jump_init 1000 992) m1" "j_entry j' = j_entry j"
    using a g(1-3) p by (auto simp: jumper_activate_def Let_def)
  have en: "j_entry j = - 3" using g(5) nop by simp
  have nm: "m1 = new_memory 4 sample_proto 1000 5000 992 1 (- 3) sample_nop" using g(7) by (simp only: l p en)
  have rd: "mem_read m1 (1000 - 3) 1 = mem_read sample_nop 1000 1" "mem_read m1 998 2 = short_jump_init 998 1001"
    using new_memory_reads(2,3) [of "- 3" 1 992 sample_proto 1000 4 5000 sample_nop] by (simp_all add: nm sample_proto_def)
  have "m' 997 = 0x90" "m' 998 = m1 998" "m' 999 = m1 999" using rd(1) by (simp_all add: m'(2) mem_copy_def mem_read_def sample_nop_def short_jump_init_def)
  moreover have "m1 999 = 1" using rd(2) by (simp add: mem_read_def short_jump_init_def upt_conv_Cons)
  moreover have "m' 1001 = 0xF6" by (simp add: m'(2) mem_copy_def short_jump_init_def)
  ultimately show ?thesis using n a m' en
    by (intro exI [of _ j] exI [of _ m1] exI [of _ j'] exI [of _ m']) (simp add: short_target_def)
qed

theorem jumper_diverts_witness:
  "\<exists>j m1. jumper_new 4 sample_proto False 1000 5000 sample_function = Some (Inr (j, m1)) \<and>
     snd (snd (jumper_activate 5 j m1)) 1000 = 0xEB \<and> snd (snd (jumper_activate 5 j m1)) 1003 = sample_function 1003"
proof -
  obtain j m1 where n: "jumper_new 4 sample_proto False 1000 5000 sample_function = Some (Inr (j, m1))" using sample_new by blast
  obtain r j' m' where a: "jumper_activate (length sample_proto) j m1 = (r, j', m')" by (metis prod_cases3)
  have "length sample_proto = 5" by (simp add: sample_proto_def)
  with jumper_diverts [OF n sample_function_length _ _ a] n a show ?thesis by (intro exI [of _ j] exI [of _ m1]) simp
qed

end
