(* ===== verification/Allocators.thy ===== *)
theory Allocators
  imports Prelude
begin

text \<open>
  The allocators: executable memory handed out from large blocks (\<^verbatim>\<open>common/src/memory.cpp\<close>) and the pool
  that keeps freed blocks by size (\<^verbatim>\<open>common/src/pool_allocator.cpp\<close>). Where the system puts the blocks of
  executable memory, and what the underlying allocator of a pool returns, one call after another, are
  arguments; neither fails.
\<close>

section \<open>Executable memory\<close>

definition block_size :: nat where "block_size = 0x10000"

record exec_block =
  eb_begin :: int
  eb_occupied :: nat

definition exec_block_new :: "int \<Rightarrow> exec_block" where
  "exec_block_new a = \<lparr>eb_begin = a, eb_occupied = 0\<rparr>"

definition block_allocate :: "nat \<Rightarrow> exec_block \<Rightarrow> int option \<times> exec_block" where
  "block_allocate n b =
     (if n \<le> block_size - eb_occupied b then (Some (eb_begin b + int (eb_occupied b)), b\<lparr>eb_occupied := eb_occupied b + n\<rparr>)
      else (None, b))"

text \<open>The allocator, with the number of blocks taken from the system so far.\<close>

record exec_allocator =
  ea_block :: exec_block
  ea_blocks :: nat

definition exec_allocator_init :: "(nat \<Rightarrow> int) \<Rightarrow> exec_allocator" where
  "exec_allocator_init map_block = \<lparr>ea_block = exec_block_new (map_block 0), ea_blocks = 1\<rparr>"

text \<open>\<open>None\<close> is the exception \<^verbatim>\<open>bad_alloc\<close>.\<close>

definition exec_allocate :: "(nat \<Rightarrow> int) \<Rightarrow> nat \<Rightarrow> exec_allocator \<Rightarrow> int option \<times> exec_allocator" where
  "exec_allocate map_block n a =
     (if n > block_size then (None, a)
      else
        (case block_allocate n (ea_block a) of
           (Some p, b) \<Rightarrow> (Some p, a\<lparr>ea_block := b\<rparr>)
         | (None, _) \<Rightarrow>
             let (p, b) = block_allocate n (exec_block_new (map_block (ea_blocks a)))
             in (p, \<lparr>ea_block = b, ea_blocks = ea_blocks a + 1\<rparr>)))"

fun exec_allocations :: "(nat \<Rightarrow> int) \<Rightarrow> nat list \<Rightarrow> exec_allocator \<Rightarrow> (int option \<times> nat) list" where
  "exec_allocations map_block [] a = []"
| "exec_allocations map_block (n # ns) a =
     (let (p, a) = exec_allocate map_block n a in (p, n) # exec_allocations map_block ns a)"

section \<open>The pool\<close>

text \<open>
  A block of the pool starts with a header that keeps its size: \<open>pa_sizes\<close> is that part of the memory.
  \<open>pa_taken\<close> counts the blocks obtained from the underlying allocator, \<open>pa_returned\<close> are the ones given back to it.
\<close>

record pool_allocator =
  pa_free :: "(nat, int list) umap"
  pa_sizes :: "int \<Rightarrow> nat"
  pa_taken :: nat
  pa_returned :: "int list"

definition pool_init :: pool_allocator where
  "pool_init = \<lparr>pa_free = [], pa_sizes = (\<lambda>_. 0), pa_taken = 0, pa_returned = []\<rparr>"

definition pool_overhead :: int where "pool_overhead = 8"

definition allocate_slow :: "(nat \<Rightarrow> int) \<Rightarrow> nat \<Rightarrow> pool_allocator \<Rightarrow> int \<times> pool_allocator" where
  "allocate_slow underlying n s =
     (let e = underlying (pa_taken s) in
      (e + pool_overhead,
       s\<lparr>pa_free := um_insert n [] (pa_free s), pa_sizes := (pa_sizes s)(e := n), pa_taken := pa_taken s + 1\<rparr>))"

definition pool_allocate :: "(nat \<Rightarrow> int) \<Rightarrow> nat \<Rightarrow> pool_allocator \<Rightarrow> int \<times> pool_allocator" where
  "pool_allocate underlying n s =
     (case um_find (pa_free s) n of
        Some bin \<Rightarrow>
          if bin \<noteq> [] then (last bin + pool_overhead, s\<lparr>pa_free := um_assign n (butlast bin) (pa_free s)\<rparr>)
          else allocate_slow underlying n s
      | None \<Rightarrow> allocate_slow underlying n s)"

text \<open>Freeing a block the pool does not know is undefined: \<open>None\<close>.\<close>

definition pool_deallocate :: "int \<Rightarrow> pool_allocator \<Rightarrow> pool_allocator option" where
  "pool_deallocate memory s =
     (let e = memory - pool_overhead in
      map_option (\<lambda>bin. s\<lparr>pa_free := um_assign (pa_sizes s e) (bin @ [e]) (pa_free s)\<rparr>) (um_find (pa_free s) (pa_sizes s e)))"

definition pool_delete :: "pool_allocator \<Rightarrow> pool_allocator" where
  "pool_delete s =
     s\<lparr>pa_free := map (\<lambda>(n, _). (n, [])) (pa_free s), pa_returned := pa_returned s @ concat (map (\<lambda>(_, bin). rev bin) (pa_free s))\<rparr>"

text \<open>The blocks a client of the pool has in use, by the address of their headers.\<close>

inductive pool_reachable :: "(nat \<Rightarrow> int) \<Rightarrow> int multiset \<Rightarrow> pool_allocator \<Rightarrow> bool" for underlying where
  pool_created: "pool_reachable underlying {#} pool_init"
| pool_allocated: "pool_reachable underlying used s \<Longrightarrow> pool_allocate underlying n s = (p, s') \<Longrightarrow>
    pool_reachable underlying (add_mset (p - pool_overhead) used) s'"
| pool_freed: "pool_reachable underlying used s \<Longrightarrow> e \<in># used \<Longrightarrow> pool_deallocate (e + pool_overhead) s = Some s' \<Longrightarrow>
    pool_reachable underlying (used - {#e#}) s'"

section \<open>Executable blocks do not overlap\<close>

lemma exec_allocate_succeeds: "n \<le> block_size \<Longrightarrow> \<exists>p a'. exec_allocate map_block n a = (Some p, a')"
  by (auto simp: exec_allocate_def block_allocate_def exec_block_new_def split: option.splits)

definition exec_ok :: "(nat \<Rightarrow> int) \<Rightarrow> exec_allocator \<Rightarrow> bool" where
  "exec_ok map_block a \<longleftrightarrow> 0 < ea_blocks a \<and> eb_begin (ea_block a) = map_block (ea_blocks a - 1) \<and> eb_occupied (ea_block a) \<le> block_size"

text \<open>An allocation is at a place of its block that lies after all earlier ones of the same block.\<close>

lemma exec_allocate_step:
  assumes "exec_ok map_block a" "exec_allocate map_block n a = (p, a')"
  shows "exec_ok map_block a'" "ea_blocks a \<le> ea_blocks a'"
    "p = Some q \<Longrightarrow> \<exists>k. q = map_block (ea_blocks a' - 1) + int k \<and> k + n = eb_occupied (ea_block a') \<and>
        (ea_blocks a' = ea_blocks a \<longrightarrow> eb_occupied (ea_block a) \<le> k)"
    "ea_blocks a' = ea_blocks a \<Longrightarrow> eb_occupied (ea_block a) \<le> eb_occupied (ea_block a')"
    "n \<le> block_size \<Longrightarrow> p \<noteq> None"
  using assms
  by (auto simp: exec_allocate_def block_allocate_def exec_ok_def exec_block_new_def split: if_splits prod.splits)

lemma exec_allocations_after:
  assumes "exec_ok map_block a" "(Some q, n) \<in> set (exec_allocations map_block ns a)"
  shows "\<exists>i k. q = map_block i + int k \<and> k + n \<le> block_size \<and> ea_blocks a - 1 \<le> i \<and> (i = ea_blocks a - 1 \<longrightarrow> eb_occupied (ea_block a) \<le> k)"
  using assms
proof (induction ns arbitrary: a)
  case (Cons n1 ns)
  obtain p a' where a': "exec_allocate map_block n1 a = (p, a')" by (cases "exec_allocate map_block n1 a")
  note step = exec_allocate_step [OF Cons.prems(1) a']
  have pos: "0 < ea_blocks a" "0 < ea_blocks a'" "eb_occupied (ea_block a') \<le> block_size"
    using Cons.prems(1) step(1) by (auto simp: exec_ok_def)
  from Cons.prems(2) a' consider "(Some q, n) = (p, n1)" | "(Some q, n) \<in> set (exec_allocations map_block ns a')" by auto
  then show ?case
  proof cases
    case 1
    with step(3) [of q] obtain k where "q = map_block (ea_blocks a' - 1) + int k" "k + n = eb_occupied (ea_block a')"
      "ea_blocks a' = ea_blocks a \<longrightarrow> eb_occupied (ea_block a) \<le> k" by auto
    with pos step(2) show ?thesis by (intro exI [of _ "ea_blocks a' - 1"] exI [of _ k]) auto
  next
    case 2
    from Cons.IH [OF step(1) this] obtain i k where "q = map_block i + int k" "k + n \<le> block_size" "ea_blocks a' - 1 \<le> i"
      "i = ea_blocks a' - 1 \<longrightarrow> eb_occupied (ea_block a') \<le> k" by blast
    with pos step(2,4) show ?thesis by (intro exI [of _ i] exI [of _ k]) (cases "ea_blocks a' = ea_blocks a", auto)
  qed
qed simp

definition apart :: "int option \<times> nat \<Rightarrow> int option \<times> nat \<Rightarrow> bool" where
  "apart x y \<longleftrightarrow> (case (fst x, fst y) of (Some p, Some q) \<Rightarrow> p + int (snd x) \<le> q \<or> q + int (snd y) \<le> p | _ \<Rightarrow> True)"

text \<open>
  Pieces of executable memory never overlap and a request of at most a block always succeeds, if the
  system maps blocks that do not overlap.
\<close>

theorem executable_memory_is_disjoint:
  assumes "\<And>i j. i < j \<Longrightarrow> map_block i + int block_size \<le> map_block j \<or> map_block j + int block_size \<le> map_block i"
    and "exec_ok map_block a"
  shows "sorted_wrt apart (exec_allocations map_block ns a) \<and>
    (\<forall>(p, n)\<in>set (exec_allocations map_block ns a). n \<le> block_size \<longrightarrow> p \<noteq> None)"
  using assms(2)
proof (induction ns arbitrary: a)
  case (Cons n ns)
  obtain p a' where a': "exec_allocate map_block n a = (p, a')" by (cases "exec_allocate map_block n a")
  note step = exec_allocate_step [OF Cons.prems a']
  have "apart (p, n) y" if y: "y \<in> set (exec_allocations map_block ns a')" for y
  proof (cases p; cases "fst y")
    fix x q assume p: "p = Some x" and q: "fst y = Some q"
    obtain k where k: "x = map_block (ea_blocks a' - 1) + int k" "k + n = eb_occupied (ea_block a')" using step(3) p by blast
    have "(Some q, snd y) \<in> set (exec_allocations map_block ns a')" using y q by (metis prod.collapse)
    from exec_allocations_after [OF step(1) this] obtain i l where l: "q = map_block i + int l" "l + snd y \<le> block_size" "ea_blocks a' - 1 \<le> i"
      "i = ea_blocks a' - 1 \<longrightarrow> eb_occupied (ea_block a') \<le> l" by blast
    have o: "eb_occupied (ea_block a') \<le> block_size" using step(1) by (simp add: exec_ok_def)
    show ?thesis
    proof (cases "i = ea_blocks a' - 1")
      case True
      with k l show ?thesis by (simp add: apart_def p q)
    next
      case False
      with l(3) assms(1) [of "ea_blocks a' - 1" i] k l(1,2) o show ?thesis by (auto simp: apart_def p q)
    qed
  qed (simp_all add: apart_def)
  with Cons.IH [OF step(1)] step(5) show ?case by (simp add: a')
qed simp

theorem executable_memory_is_disjoint_witness:
  "sorted_wrt apart (exec_allocations (\<lambda>i. int i * 0x10000) [100, 0xFFF0, 8] (exec_allocator_init (\<lambda>i. int i * 0x10000)))"
  by (rule conjunct1 [OF executable_memory_is_disjoint]) (auto simp: block_size_def exec_ok_def exec_allocator_init_def exec_block_new_def)

section \<open>The pool keeps account\<close>

definition pool_kept :: "pool_allocator \<Rightarrow> int multiset" where
  "pool_kept s = sum_list (map (\<lambda>b. mset (snd b)) (pa_free s))"

text \<open>
  With the set of blocks in use: every block obtained is in use or kept, none is both, and a block in
  use or kept has the size of its bin.
\<close>

definition pool_ok :: "(nat \<Rightarrow> int) \<Rightarrow> int multiset \<Rightarrow> pool_allocator \<Rightarrow> bool" where
  "pool_ok underlying used s \<longleftrightarrow> um_ok (pa_free s) \<and> used + pool_kept s = mset (map underlying [0..<pa_taken s]) \<and>
     (\<forall>n bin. um_find (pa_free s) n = Some bin \<longrightarrow> (\<forall>e\<in>set bin. pa_sizes s e = n)) \<and>
     (\<forall>e\<in>#used. um_find (pa_free s) (pa_sizes s e) \<noteq> None)"

lemma kept_assign: "um_find m n = Some bin \<Longrightarrow>
    sum_list (map (\<lambda>b. mset (snd b)) (um_assign n bin' m)) + mset bin = sum_list (map (\<lambda>b. mset (snd b)) m) + mset bin'"
  by (induction m) (auto simp: ac_simps split: if_splits)

lemma kept_insert: "sum_list (map (\<lambda>b. mset (snd b)) (um_insert n [] m)) = sum_list (map (\<lambda>b. mset (snd b)) m)"
  by (simp add: um_insert_def split: option.splits) (induction m; auto)

lemma bin_in_kept: "um_find (pa_free s) n = Some bin \<Longrightarrow> e \<in> set bin \<Longrightarrow> e \<in># pool_kept s"
  by (auto simp: pool_kept_def dest!: map_of_SomeD intro!: bexI)

lemma allocate_slow_ok:
  assumes "pool_ok underlying used s" "inj underlying" "allocate_slow underlying n s = (p, s')"
  shows "pool_ok underlying (add_mset (p - pool_overhead) used) s' \<and> pa_sizes s' (p - pool_overhead) = n"
proof -
  let ?e = "underlying (pa_taken s)"
  have s': "p = ?e + pool_overhead" "s' = s\<lparr>pa_free := um_insert n [] (pa_free s), pa_sizes := (pa_sizes s)(?e := n), pa_taken := pa_taken s + 1\<rparr>"
    using assms(3) by (simp_all add: allocate_slow_def Let_def)
  have acc: "used + pool_kept s = mset (map underlying [0..<pa_taken s])" using assms(1) by (simp add: pool_ok_def)
  have "?e \<notin> set (map underlying [0..<pa_taken s])" using assms(2) by (auto dest: injD)
  then have new: "?e \<notin># used" "?e \<notin># pool_kept s" using acc by (metis set_mset_mset union_iff)+
  have sizes: "pa_sizes s' e = k" if "um_find (pa_free s') k = Some bin" "e \<in> set bin" for k bin e
  proof -
    from that have k: "um_find (pa_free s) k = Some bin" by (auto simp: s' dict_simps split: if_splits)
    with that(2) new(2) bin_in_kept have "e \<noteq> ?e" by blast
    with k that(2) assms(1) show ?thesis by (auto simp: s' pool_ok_def)
  qed
  have "um_find (pa_free s') (pa_sizes s' e) \<noteq> None" if "e = ?e \<or> e \<in># used" for e
  proof (cases "e = ?e")
    case True
    then show ?thesis by (auto simp: s' dict_simps)
  next
    case False
    with that assms(1) show ?thesis by (auto simp: s' dict_simps pool_ok_def)
  qed
  moreover have "pool_kept s' = pool_kept s" by (simp add: pool_kept_def s' kept_insert)
  ultimately show ?thesis using sizes acc assms(1) by (auto simp: pool_ok_def s' dict_simps)
qed

lemma pool_allocate_ok:
  assumes "pool_ok underlying used s" "inj underlying" "pool_allocate underlying n s = (p, s')"
  shows "pool_ok underlying (add_mset (p - pool_overhead) used) s' \<and> pa_sizes s' (p - pool_overhead) = n"
proof (cases "\<exists>bin. um_find (pa_free s) n = Some bin \<and> bin \<noteq> []")
  case True
  then obtain bin where bin: "um_find (pa_free s) n = Some bin" "bin \<noteq> []" by blast
  then have s': "p = last bin + pool_overhead" "s' = s\<lparr>pa_free := um_assign n (butlast bin) (pa_free s)\<rparr>"
    using assms(3) by (simp_all add: pool_allocate_def)
  have l: "mset bin = add_mset (last bin) (mset (butlast bin))"
    using bin(2) by (metis append_butlast_last_id mset_append mset_single_iff_right union_mset_add_mset_right add.right_neutral mset.simps)
  have "pool_kept s' + mset bin = pool_kept s + mset (butlast bin)" using kept_assign [OF bin(1), of "butlast bin"] by (simp add: pool_kept_def s')
  then have k: "add_mset (last bin) (pool_kept s') = pool_kept s" by (simp add: l)
  have sz: "pa_sizes s e = n" if "e \<in> set bin" for e using assms(1) bin(1) that by (simp add: pool_ok_def)
  have "\<forall>e\<in>set bin'. pa_sizes s e = m" if "um_find (um_assign n (butlast bin) (pa_free s)) m = Some bin'" for m bin'
    using that assms(1) sz by (auto simp: dict_simps pool_ok_def split: if_splits dest: in_set_butlastD)
  moreover have "add_mset (last bin) used + pool_kept s' = used + pool_kept s" using k by (metis union_mset_add_mset_left union_mset_add_mset_right)
  moreover have "pa_sizes s (last bin) = n" using sz bin(2) by simp
  ultimately show ?thesis using assms(1) unfolding pool_ok_def by (simp add: s' dict_simps)
next
  case False
  then have "allocate_slow underlying n s = (p, s')" using assms(3) by (auto simp: pool_allocate_def split: option.splits)
  with assms(1,2) show ?thesis by (rule allocate_slow_ok)
qed

lemma pool_deallocate_ok:
  assumes "pool_ok underlying used s" "e \<in># used" "pool_deallocate (e + pool_overhead) s = Some s'"
  shows "pool_ok underlying (used - {#e#}) s'"
proof -
  let ?n = "pa_sizes s e"
  obtain bin where bin: "um_find (pa_free s) ?n = Some bin" and s': "s' = s\<lparr>pa_free := um_assign ?n (bin @ [e]) (pa_free s)\<rparr>"
    using assms(3) by (auto simp: pool_deallocate_def Let_def)
  have "pool_kept s' + mset bin = pool_kept s + mset (bin @ [e])" using kept_assign [OF bin, of "bin @ [e]"] by (simp add: pool_kept_def s')
  then have k: "pool_kept s' = add_mset e (pool_kept s)" by simp
  have u: "\<forall>x\<in>#used - {#e#}. um_find (pa_free s') (pa_sizes s x) \<noteq> None"
    using assms(1) by (auto simp: pool_ok_def s' dict_simps dest: in_diffD)
  have a: "used - {#e#} + add_mset e (pool_kept s) = used + pool_kept s"
    using multi_member_split [OF assms(2)] by auto
  have z: "\<forall>x\<in>set bin'. pa_sizes s x = n" if "um_find (pa_free s') n = Some bin'" for n bin'
  proof (cases "n = ?n")
    case True
    have "\<forall>x\<in>set bin. pa_sizes s x = ?n" using assms(1) bin by (simp add: pool_ok_def)
    moreover have "bin' = bin @ [e]" using that True by (simp add: s' dict_simps)
    ultimately show ?thesis using True by simp
  next
    case False
    with that have "um_find (pa_free s) n = Some bin'" by (simp add: s' dict_simps)
    with assms(1) show ?thesis by (simp add: pool_ok_def)
  qed
  have same: "pa_sizes s' = pa_sizes s" "pa_taken s' = pa_taken s" by (simp_all add: s')
  show ?thesis unfolding pool_ok_def same k a
  proof (intro conjI allI impI)
    show "um_ok (pa_free s')" "used + pool_kept s = mset (map underlying [0..<pa_taken s])"
      using assms(1) by (simp_all add: pool_ok_def s' dict_simps)
  qed (use z u in blast)+
qed

lemma pool_reachable_ok: "pool_reachable underlying used s \<Longrightarrow> inj underlying \<Longrightarrow> pool_ok underlying used s"
proof (induction rule: pool_reachable.induct)
  case pool_created
  show ?case by (simp add: pool_ok_def pool_kept_def pool_init_def)
next
  case (pool_allocated used s n p s')
  then show ?case using pool_allocate_ok by blast
next
  case (pool_freed used s e s')
  then show ?case using pool_deallocate_ok by blast
qed

lemma pool_reachable_returned: "pool_reachable underlying used s \<Longrightarrow> pa_returned s = []"
  by (induction rule: pool_reachable.induct)
    (auto simp: pool_init_def pool_allocate_def allocate_slow_def pool_deallocate_def Let_def split: option.splits if_splits)

text \<open>
  The pool hands out a block to one client at a time, of the size asked for, and when nothing is in
  use any more its destructor gives every block it ever took back to the underlying allocator, once. The
  underlying allocator does not give an address twice.
\<close>

theorem pool_keeps_account:
  assumes "pool_reachable underlying used s" "inj underlying" "pool_allocate underlying n s = (p, s')"
  shows "p - pool_overhead \<notin># used \<and> pa_sizes s' (p - pool_overhead) = n \<and>
    (used = {#} \<longrightarrow> mset (pa_returned (pool_delete s)) = mset (map underlying [0..<pa_taken s]))"
proof -
  note a = pool_allocate_ok [OF pool_reachable_ok [OF assms(1,2)] assms(2,3)]
  have d: "distinct (map underlying [0..<pa_taken s'])" using assms(2) by (auto simp: distinct_map inj_on_def)
  have "add_mset (p - pool_overhead) used + pool_kept s' = mset (map underlying [0..<pa_taken s'])" using a by (simp add: pool_ok_def)
  with d have "count (add_mset (p - pool_overhead) used + pool_kept s') (p - pool_overhead) \<le> 1"
    by (metis distinct_count_atmost_1 le_numeral_extra(4) zero_le_one)
  then have "p - pool_overhead \<notin># used" by (auto simp: not_in_iff)
  moreover have "mset (concat (map (\<lambda>(_, bin). rev bin) (pa_free s))) = pool_kept s"
  proof -
    have "mset (concat (map (\<lambda>(_, bin). rev bin) m)) = sum_list (map (\<lambda>b. mset (snd b)) m)" for m :: "(nat, int list) umap"
      by (induction m) auto
    then show ?thesis by (simp add: pool_kept_def)
  qed
  ultimately show ?thesis
    using a pool_reachable_ok [OF assms(1,2)] pool_reachable_returned [OF assms(1)] by (auto simp: pool_ok_def pool_delete_def)
qed

theorem pool_keeps_account_witness:
  "fst (pool_allocate (\<lambda>i. int i * 100) 10 pool_init) = 8 \<and> pa_sizes (snd (pool_allocate (\<lambda>i. int i * 100) 10 pool_init)) 0 = 10"
  using pool_keeps_account [OF pool_reachable.pool_created, of "\<lambda>i. int i * 100" 10 8 "snd (pool_allocate (\<lambda>i. int i * 100) 10 pool_init)"]
  by (simp add: inj_def pool_allocate_def allocate_slow_def pool_init_def pool_overhead_def Let_def)

end
