(* ===== verification/Image_Patch_Manager.thy ===== *)
theory Image_Patch_Manager
  imports Jumper Allocators
begin

text \<open>
  Patching the functions of an image: the trampolines (\<^verbatim>\<open>patcher/src/dynamic_hooking.cpp\<close>), one patch
  (\<^verbatim>\<open>patcher/function_patch.h\<close>) and the patches of all images (\<^verbatim>\<open>patcher/src/image_patch_manager.cpp\<close>).
  The templates, the interceptor with its two callbacks and the addresses of the blocks of executable
  memory the system maps, one after another, are arguments. The disassembler may run on for ever, so that
  everything that constructs a patch has an optional value.
\<close>

section \<open>Trampolines\<close>

record patch_env =
  pe_psize :: nat
  pe_x64 :: bool
  pe_jumper_proto :: "u8 list"
  pe_trampoline_proto :: "u8 list"
  pe_interceptor :: int
  pe_on_enter :: int
  pe_on_exit :: int
  pe_map_block :: "nat \<Rightarrow> int"

definition initialize_trampoline :: "patch_env \<Rightarrow> int \<Rightarrow> int \<Rightarrow> int \<Rightarrow> memory \<Rightarrow> memory" where
  "initialize_trampoline e trampoline_address target callee m =
     (let trampoline = \<lparr>br_begin = trampoline_address, br_length = length (pe_trampoline_proto e)\<rparr>;
          m = mem_copy trampoline_address (pe_trampoline_proto e) m;
          m = replace (pe_psize e) trampoline 1 (\<lambda>_. pe_interceptor e) m;
          m = replace (pe_psize e) trampoline 2 (\<lambda>_. callee) m;
          m = replace (pe_psize e) trampoline 3 (\<lambda>_. pe_on_enter e) m;
          m = replace (pe_psize e) trampoline 0x83 (\<lambda>address. pe_on_enter e - address) m;
          m = replace (pe_psize e) trampoline 4 (\<lambda>_. pe_on_exit e) m;
          m = replace (pe_psize e) trampoline 0x84 (\<lambda>address. pe_on_exit e - address) m;
          m = replace (pe_psize e) trampoline 5 (\<lambda>_. target) m
      in replace (pe_psize e) trampoline 0x85 (\<lambda>address. target - address) m)"

section \<open>One patch\<close>

record function_patch =
  fp_trampoline :: int
  fp_jumper :: jumper

text \<open>The memory with the allocator of executable memory.\<close>

type_synonym patch_memory = "exec_allocator \<times> memory"

definition function_patch_new :: "patch_env \<Rightarrow> int \<Rightarrow> patch_memory \<Rightarrow> ((jumper_error + function_patch) \<times> patch_memory) option" where
  "function_patch_new e target pm =
     (case exec_allocate (pe_map_block e) (length (pe_trampoline_proto e)) (fst pm) of
        (None, a) \<Rightarrow> Some (Inl Bad_Alloc, (a, snd pm))
      | (Some trampoline, a) \<Rightarrow>
          map_option (\<lambda>r. case r of
              Inl x \<Rightarrow> (Inl (Patch_Exception x), (a, snd pm))
            | Inr (j, m1) \<Rightarrow> (Inr \<lparr>fp_trampoline = trampoline, fp_jumper = j\<rparr>,
                (a, initialize_trampoline e trampoline (j_target j + j_entry j) target m1)))
            (jumper_new (pe_psize e) (pe_jumper_proto e) (pe_x64 e) target trampoline (snd pm)))"

definition fp_active :: "function_patch \<Rightarrow> bool" where
  "fp_active p = jumper_active (fp_jumper p)"

definition fp_activate :: "patch_env \<Rightarrow> function_patch \<Rightarrow> memory \<Rightarrow> (jumper_error + bool) \<times> function_patch \<times> memory" where
  "fp_activate e p m = (let (r, j, m) = jumper_activate (length (pe_jumper_proto e)) (fp_jumper p) m in (r, p\<lparr>fp_jumper := j\<rparr>, m))"

definition fp_revert :: "function_patch \<Rightarrow> memory \<Rightarrow> (jumper_error + bool) \<times> function_patch \<times> memory" where
  "fp_revert p m = (let (r, j, m) = jumper_revert (fp_jumper p) m in (r, p\<lparr>fp_jumper := j\<rparr>, m))"

definition fp_detach :: "function_patch \<Rightarrow> function_patch" where
  "fp_detach p = p\<lparr>fp_jumper := jumper_detach (fp_jumper p)\<rparr>"

section \<open>The manager\<close>

datatype patch_errors = Patch_Ok | Patch_Error | Patch_Unchanged

record patch_apply =
  pa_result :: patch_errors
  pa_id :: u32

record image_patch =
  ip_lock :: "nat option"
  ip_patched :: "(u32, function_patch) umap"
  ip_patches_applied :: u32

definition image_patch_init :: image_patch where
  "image_patch_init = \<lparr>ip_lock = None, ip_patched = [], ip_patches_applied = 0\<rparr>"

record image_patch_manager =
  pm_patched_images :: "(u32, image_patch) umap"
  pm_memory :: patch_memory

definition detach_all :: "image_patch_manager \<Rightarrow> image_patch_manager" where
  "detach_all s = s\<lparr>pm_patched_images := map (\<lambda>(persistent_id, i). (persistent_id, i\<lparr>ip_patched := map (\<lambda>(rva, p). (rva, fp_detach p)) (ip_patched i)\<rparr>)) (pm_patched_images s)\<rparr>"

definition pm_image :: "image_patch_manager \<Rightarrow> u32 \<Rightarrow> image_patch" where
  "pm_image s persistent_id = (case um_find (pm_patched_images s) persistent_id of Some i \<Rightarrow> i | None \<Rightarrow> image_patch_init)"

text \<open>
  The body of the loop of \<^verbatim>\<open>apply\<close>, on the image and the memory. An exception of the patch class gives
  a result; any other one (\<open>Jumper_Detached\<close>, \<open>Bad_Alloc\<close>) leaves the function.
\<close>

definition apply_one :: "patch_env \<Rightarrow> int \<Rightarrow> u32 \<Rightarrow> image_patch \<times> patch_memory \<Rightarrow> ((jumper_error + patch_errors) \<times> image_patch \<times> patch_memory) option" where
  "apply_one e base rva s =
     (let (image, pm) = s in
      Option.bind
        (case um_find (ip_patched image) rva of
           Some p \<Rightarrow> Some (Inr p, image, pm)
         | None \<Rightarrow> map_option (\<lambda>(r, pm). case r of
               Inl x \<Rightarrow> (Inl x, image, pm)
             | Inr p \<Rightarrow> (Inr p, image\<lparr>ip_patched := um_insert rva p (ip_patched image)\<rparr>, pm)) (function_patch_new e (base + uint rva) pm))
        (\<lambda>(found, image, pm). case found of
           Inl (Patch_Exception x) \<Rightarrow> Some (Inr Patch_Error, image, pm)
         | Inl x \<Rightarrow> Some (Inl x, image, pm)
         | Inr p \<Rightarrow>
             let (r, p, m) = fp_activate e p (snd pm);
                 image = image\<lparr>ip_patched := um_assign rva p (ip_patched image)\<rparr>;
                 pm = (fst pm, m)
             in Some (case r of
                  Inl (Patch_Exception x) \<Rightarrow> (Inr Patch_Error, image, pm)
                | Inl x \<Rightarrow> (Inl x, image, pm)
                | Inr True \<Rightarrow> (Inr Patch_Ok, image\<lparr>ip_patches_applied := ip_patches_applied image + 1\<rparr>, pm)
                | Inr False \<Rightarrow> (Inr Patch_Unchanged, image, pm))))"

fun apply_loop :: "patch_env \<Rightarrow> int \<Rightarrow> u32 list \<Rightarrow> (u32 \<times> patch_apply) list \<Rightarrow> image_patch \<times> patch_memory \<Rightarrow>
    (jumper_error option \<times> (u32 \<times> patch_apply) list \<times> image_patch \<times> patch_memory) option" where
  "apply_loop e base [] results s = Some (None, results, s)"
| "apply_loop e base (rva # targets) results s =
     Option.bind (apply_one e base rva s) (\<lambda>(r, s). case r of
       Inl x \<Rightarrow> Some (Some x, results, s)
     | Inr result \<Rightarrow> apply_loop e base targets (results @ [(rva, \<lparr>pa_result = result, pa_id = 0\<rparr>)]) s)"

definition apply_patches :: "patch_env \<Rightarrow> u32 \<Rightarrow> int \<Rightarrow> nat option \<Rightarrow> u32 list \<Rightarrow> (u32 \<times> patch_apply) list \<Rightarrow> image_patch_manager \<Rightarrow>
    (jumper_error option \<times> (u32 \<times> patch_apply) list \<times> image_patch_manager) option" where
  "apply_patches e persistent_id base lock targets results s =
     map_option (\<lambda>(x, results, image, pm).
         (x, results,
          s\<lparr>pm_patched_images := um_assign persistent_id
              (if x = None \<and> ip_patches_applied image \<noteq> 0 then image\<lparr>ip_lock := lock\<rparr> else image) (pm_patched_images s), pm_memory := pm\<rparr>))
       (apply_loop e base targets results (pm_image s persistent_id, pm_memory s))"

definition revert_one :: "u32 \<Rightarrow> image_patch \<times> patch_memory \<Rightarrow> (jumper_error + patch_errors) \<times> image_patch \<times> patch_memory" where
  "revert_one rva s =
     (let (image, pm) = s in
      case um_find (ip_patched image) rva of
        None \<Rightarrow> (Inr Patch_Unchanged, image, pm)
      | Some p \<Rightarrow>
          let (r, p, m) = fp_revert p (snd pm);
              image = image\<lparr>ip_patched := um_assign rva p (ip_patched image)\<rparr>;
              pm = (fst pm, m)
          in (case r of
                Inl x \<Rightarrow> (Inl x, image, pm)
              | Inr True \<Rightarrow> (Inr Patch_Ok, image\<lparr>ip_patches_applied := ip_patches_applied image - 1\<rparr>, pm)
              | Inr False \<Rightarrow> (Inr Patch_Unchanged, image, pm)))"

fun revert_loop :: "u32 list \<Rightarrow> (u32 \<times> patch_errors) list \<Rightarrow> image_patch \<times> patch_memory \<Rightarrow>
    jumper_error option \<times> (u32 \<times> patch_errors) list \<times> image_patch \<times> patch_memory" where
  "revert_loop [] results s = (None, results, s)"
| "revert_loop (rva # targets) results s =
     (case revert_one rva s of
        (Inl x, s) \<Rightarrow> (Some x, results, s)
      | (Inr result, s) \<Rightarrow> revert_loop targets (results @ [(rva, result)]) s)"

definition revert_patches :: "u32 \<Rightarrow> u32 list \<Rightarrow> (u32 \<times> patch_errors) list \<Rightarrow> image_patch_manager \<Rightarrow>
    jumper_error option \<times> (u32 \<times> patch_errors) list \<times> image_patch_manager" where
  "revert_patches persistent_id targets results s =
     (let (x, results, image, pm) = revert_loop targets results (pm_image s persistent_id, pm_memory s) in
      (x, results,
       s\<lparr>pm_patched_images := um_assign persistent_id
           (if x = None \<and> ip_patches_applied image = 0 then image\<lparr>ip_lock := None\<rparr> else image) (pm_patched_images s), pm_memory := pm\<rparr>))"

text \<open>Everything that can happen to a manager; the flag tells whether the patches were detached.\<close>

inductive pm_reachable :: "patch_env \<Rightarrow> patch_memory \<Rightarrow> bool \<Rightarrow> image_patch_manager \<Rightarrow> bool" for e pm where
  created: "pm_reachable e pm False \<lparr>pm_patched_images = [], pm_memory = pm\<rparr>"
| applied: "pm_reachable e pm d s \<Longrightarrow> lock \<noteq> None \<Longrightarrow>
    apply_patches e persistent_id base lock targets results s = Some (x, results', s') \<Longrightarrow> pm_reachable e pm d s'"
| reverted: "pm_reachable e pm d s \<Longrightarrow> revert_patches persistent_id targets results s = (x, results', s') \<Longrightarrow> pm_reachable e pm d s'"
| detached: "pm_reachable e pm d s \<Longrightarrow> pm_reachable e pm True (detach_all s)"

section \<open>Switches\<close>

text \<open>
  What the manager relies on: a patch that reports a change has changed, and one that reports none or
  fails has not.
\<close>

locale switchable =
  fixes is_on :: "'p \<Rightarrow> bool"
    and turn_on :: "'p \<Rightarrow> 'm \<Rightarrow> ('x + bool) \<times> 'p \<times> 'm"
    and turn_off :: "'p \<Rightarrow> 'm \<Rightarrow> ('x + bool) \<times> 'p \<times> 'm"
  assumes on_changes: "turn_on p m = (Inr b, p', m') \<Longrightarrow> is_on p' \<and> b = (\<not> is_on p)"
    and on_fails: "turn_on p m = (Inl x, p', m') \<Longrightarrow> p' = p"
    and off_changes: "turn_off p m = (Inr b, p', m') \<Longrightarrow> \<not> is_on p' \<and> b = is_on p"
    and off_fails: "turn_off p m = (Inl x, p', m') \<Longrightarrow> p' = p"
begin

definition count_on :: "('k, 'p) umap \<Rightarrow> u32" where
  "count_on ps = sum_list (map (\<lambda>kp. if is_on (snd kp) then 1 else 0) ps)"

lemma count_on_length: "count_on ps = of_nat (length (filter (\<lambda>(k, p). is_on p) ps))"
  by (induction ps) (auto simp: count_on_def)

lemma count_turn_on:
  assumes "um_find ps k = Some p" "turn_on p m = (r, p', m')"
  shows "count_on (um_assign k p' ps) = count_on ps + (if r = Inr True then 1 else 0)"
  using assms on_changes [of p m _ p' m'] on_fails [of p m _ p' m']
  by (cases r) (auto simp: count_on_def sum_list_assign [where f = "\<lambda>p. if is_on p then 1 else 0"])

lemma count_turn_off:
  assumes "um_find ps k = Some p" "turn_off p m = (r, p', m')"
  shows "count_on (um_assign k p' ps) = count_on ps - (if r = Inr True then 1 else 0)"
  using assms off_changes [of p m _ p' m'] off_fails [of p m _ p' m']
  by (cases r) (auto simp: count_on_def sum_list_assign [where f = "\<lambda>p. if is_on p then 1 else 0"])

lemma count_insert_off:
  assumes "um_find ps k = None" "\<not> is_on p"
  shows "count_on (um_insert k p ps) = count_on ps"
  using assms by (simp add: um_insert_def count_on_def sum_list_assign [where f = "\<lambda>p. if is_on p then 1 else 0"])

end

definition fp_on :: "function_patch \<Rightarrow> bool" where
  "fp_on p = j_active (fp_jumper p)"

interpretation jumpers: switchable j_active "jumper_activate sz" jumper_revert
  by unfold_locales (auto simp: jumper_activate_def jumper_revert_def Let_def split: if_splits)

interpretation patches: switchable fp_on "fp_activate e" fp_revert
  by unfold_locales
    (auto simp: fp_activate_def fp_revert_def fp_on_def split: prod.splits dest: jumpers.on_changes jumpers.on_fails jumpers.off_changes jumpers.off_fails)

section \<open>One target\<close>

definition count_ok :: "image_patch \<Rightarrow> bool" where
  "count_ok i \<longleftrightarrow> um_ok (ip_patched i) \<and> ip_patches_applied i = patches.count_on (ip_patched i)"

definition attached :: "image_patch \<Rightarrow> bool" where
  "attached i \<longleftrightarrow> (\<forall>rva p. um_find (ip_patched i) rva = Some p \<longrightarrow> \<not> j_detached (fp_jumper p))"

definition patched_on :: "image_patch \<Rightarrow> u32 \<Rightarrow> bool" where
  "patched_on i rva \<longleftrightarrow> (\<exists>p. um_find (ip_patched i) rva = Some p \<and> fp_on p)"

lemma new_patch_off:
  assumes "function_patch_new e target pm = Some (Inr p, pm')"
  shows "\<not> fp_on p" "\<not> j_detached (fp_jumper p)"
proof -
  have j: "\<not> j_active j \<and> \<not> j_detached j" if "jumper_new a b c d f m = Some (Inr (j, m1))" for a b c d f m j m1
    using that by (auto simp: jumper_new_def Let_def bind_eq_Some_conv split: if_splits)
  obtain a t where a: "exec_allocate (pe_map_block e) (length (pe_trampoline_proto e)) (fst pm) = (t, a)" by (cases "exec_allocate (pe_map_block e) (length (pe_trampoline_proto e)) (fst pm)")
  with assms obtain trampoline where t: "t = Some trampoline" by (cases t) (auto simp: function_patch_new_def)
  with assms a obtain z where z: "jumper_new (pe_psize e) (pe_jumper_proto e) (pe_x64 e) target trampoline (snd pm) = Some z"
    by (auto simp: function_patch_new_def)
  with assms a t obtain j' m1 where "z = Inr (j', m1)" by (cases z) (auto simp: function_patch_new_def)
  with assms z a t j show "\<not> fp_on p" "\<not> j_detached (fp_jumper p)" by (auto simp: function_patch_new_def fp_on_def)
qed

lemma new_patch_fails:
  assumes "function_patch_new e target pm = Some (Inl x, pm')" "length (pe_trampoline_proto e) \<le> block_size"
  shows "\<exists>y. x = Patch_Exception y"
proof -
  obtain p a where a: "exec_allocate (pe_map_block e) (length (pe_trampoline_proto e)) (fst pm) = (Some p, a)"
    using exec_allocate_succeeds [OF assms(2), of "pe_map_block e" "fst pm"] by blast
  with assms(1) obtain z where z: "jumper_new (pe_psize e) (pe_jumper_proto e) (pe_x64 e) target p (snd pm) = Some z"
    by (auto simp: function_patch_new_def)
  with assms(1) a show ?thesis by (cases z) (auto simp: function_patch_new_def)
qed

text \<open>The state in which \<^verbatim>\<open>apply\<close> activates a patch, found or just made.\<close>

lemma apply_one_cases:
  assumes "apply_one e base rva (i, pm) = Some (r, i', pm')"
  obtains (failed) "r = Inr Patch_Error \<or> block_size < length (pe_trampoline_proto e)" "i' = i"
  | (switched) ps p b p' m' m1 where "um_find ps rva = Some p" "ps = ip_patched i \<or> (um_find (ip_patched i) rva = None \<and> ps = um_insert rva p (ip_patched i) \<and> \<not> fp_on p \<and> \<not> j_detached (fp_jumper p))"
      "fp_activate e p m1 = (b, p', m')"
      "i' = i\<lparr>ip_patched := um_assign rva p' ps, ip_patches_applied := ip_patches_applied i + (if b = Inr True then 1 else 0)\<rparr>"
      "r = (case b of Inl (Patch_Exception x) \<Rightarrow> Inr Patch_Error | Inl x \<Rightarrow> Inl x | Inr True \<Rightarrow> Inr Patch_Ok | Inr False \<Rightarrow> Inr Patch_Unchanged)"
proof (cases "um_find (ip_patched i) rva")
  case (Some p)
  obtain b p' m' where a: "fp_activate e p (snd pm) = (b, p', m')" by (metis prod_cases3)
  show ?thesis
    by (rule switched [of "ip_patched i" p "snd pm" b p' m']) (use assms Some a in \<open>auto simp: apply_one_def Let_def split: sum.splits bool.splits jumper_error.splits\<close>)
next
  case None
  from assms None obtain x pm1 where n: "function_patch_new e (base + uint rva) pm = Some (x, pm1)"
    by (auto simp: apply_one_def bind_eq_Some_conv)
  show ?thesis
  proof (cases x)
    case (Inl y)
    have "i' = i" using assms None n Inl by (auto simp: apply_one_def split: jumper_error.splits)
    moreover have "r = Inr Patch_Error" if "length (pe_trampoline_proto e) \<le> block_size"
      using new_patch_fails [OF n [unfolded Inl] that] assms None n Inl by (auto simp: apply_one_def)
    ultimately show ?thesis by (intro failed) (auto simp: not_le [symmetric])
  next
    case (Inr p)
    obtain b p' m' where a: "fp_activate e p (snd pm1) = (b, p', m')" by (metis prod_cases3)
    show ?thesis
      by (rule switched [of "um_insert rva p (ip_patched i)" p "snd pm1" b p' m'])
        (use assms None n a new_patch_off [OF n [unfolded Inr]] Inr in \<open>auto simp: apply_one_def Let_def dict_simps split: sum.splits bool.splits jumper_error.splits\<close>)
  qed
qed

lemma activate_attached:
  assumes "fp_activate e p m = (b, p', m')" "\<not> j_detached (fp_jumper p)"
  shows "\<not> j_detached (fp_jumper p')" "fp_on p'" "\<exists>c. b = Inr c"
  using assms by (auto simp: fp_activate_def fp_on_def jumper_activate_def Let_def split: prod.splits if_splits)

lemma revert_attached:
  assumes "fp_revert p m = (b, p', m')" "\<not> j_detached (fp_jumper p)"
  shows "\<not> j_detached (fp_jumper p')" "\<not> fp_on p'" "\<exists>c. b = Inr c"
  using assms by (auto simp: fp_revert_def fp_on_def jumper_revert_def Let_def split: prod.splits if_splits)

lemma length_assign: "length m \<le> length (um_assign k v m)"
  by (induction m) auto

lemma length_insert: "length m \<le> length (um_insert k v m)"
  by (simp add: um_insert_def length_assign split: option.splits)

lemma apply_one_count:
  assumes "apply_one e base rva (i, pm) = Some (r, i', pm')" "count_ok i"
  shows "count_ok i' \<and> ip_lock i' = ip_lock i \<and> length (ip_patched i) \<le> length (ip_patched i')"
  using assms(1)
proof (cases rule: apply_one_cases)
  case failed
  with assms(2) show ?thesis by simp
next
  case (switched ps p b p' m' m1)
  have "um_ok ps" "patches.count_on ps = patches.count_on (ip_patched i)"
    using assms(2) switched(2) patches.count_insert_off by (auto simp: count_ok_def dict_simps)
  moreover have "length (ip_patched i) \<le> length (um_assign rva p' ps)"
    using switched(2) length_assign [of ps rva p'] length_insert [of "ip_patched i" rva p] by auto
  ultimately show ?thesis using assms(2) switched(4) patches.count_turn_on [OF switched(1,3)] by (simp add: count_ok_def dict_simps)
qed

lemma apply_one_attached:
  assumes "apply_one e base rva (i, pm) = Some (r, i', pm')" "attached i" and small: "length (pe_trampoline_proto e) \<le> block_size"
  shows "attached i' \<and> (\<exists>result. r = Inr result \<and> (result \<noteq> Patch_Error \<longrightarrow> patched_on i' rva)) \<and> (\<forall>k. patched_on i k \<longrightarrow> patched_on i' k)"
  using assms(1)
proof (cases rule: apply_one_cases)
  case failed
  with assms(2) small show ?thesis by auto
next
  case (switched ps p b p' m' m1)
  have d: "\<not> j_detached (fp_jumper p)" using switched(1,2) assms(2) by (auto simp: attached_def)
  note a = activate_attached [OF switched(3) d]
  have "attached i'" using switched(2,4) assms(2) a(1) by (auto simp: attached_def dict_simps split: if_splits)
  moreover have "patched_on i' rva" using switched(4) a(2) by (simp add: patched_on_def dict_simps)
  moreover have "patched_on i k \<Longrightarrow> patched_on i' k" for k using switched(2,4) a(2) by (auto simp: patched_on_def dict_simps)
  moreover have "\<exists>result. r = Inr result" using a(3) switched(5) by (auto split: bool.splits)
  ultimately show ?thesis by blast
qed

lemma revert_one_count:
  assumes "revert_one rva (i, pm) = (r, i', pm')" "count_ok i"
  shows "count_ok i' \<and> ip_lock i' = ip_lock i \<and> length (ip_patched i) \<le> length (ip_patched i')"
proof (cases "um_find (ip_patched i) rva")
  case (Some p)
  obtain b p' m' where b: "fp_revert p (snd pm) = (b, p', m')" by (metis prod_cases3)
  have "i' = i\<lparr>ip_patched := um_assign rva p' (ip_patched i), ip_patches_applied := ip_patches_applied i - (if b = Inr True then 1 else 0)\<rparr>"
    using assms(1) Some b by (auto simp: revert_one_def Let_def split: sum.splits bool.splits)
  with assms(2) patches.count_turn_off [OF Some b] show ?thesis by (simp add: count_ok_def dict_simps length_assign)
qed (use assms in \<open>simp add: revert_one_def\<close>)

lemma revert_one_attached:
  assumes "revert_one rva (i, pm) = (r, i', pm')" "attached i"
  shows "attached i' \<and> (\<exists>result. r = Inr result) \<and> \<not> patched_on i' rva \<and> (\<forall>k. \<not> patched_on i k \<longrightarrow> \<not> patched_on i' k)"
proof (cases "um_find (ip_patched i) rva")
  case (Some p)
  obtain b p' m' where b: "fp_revert p (snd pm) = (b, p', m')" by (metis prod_cases3)
  have "\<not> j_detached (fp_jumper p)" using assms(2) Some by (simp add: attached_def)
  note a = revert_attached [OF b this]
  have i: "ip_patched i' = um_assign rva p' (ip_patched i)" "\<exists>result. r = Inr result"
    using assms(1) Some b a(3) by (auto simp: revert_one_def Let_def split: sum.splits bool.splits)
  then show ?thesis using a assms(2) by (auto simp: attached_def patched_on_def dict_simps)
qed (use assms in \<open>auto simp: revert_one_def patched_on_def\<close>)

section \<open>A request\<close>

lemma apply_loop_count:
  "apply_loop e base targets results s = Some (x, results', s') \<Longrightarrow> count_ok (fst s) \<Longrightarrow> count_ok (fst s') \<and> ip_lock (fst s') = ip_lock (fst s) \<and>
     length (ip_patched (fst s)) \<le> length (ip_patched (fst s'))"
proof (induction targets arbitrary: results s)
  case (Cons rva targets)
  from Cons.prems(1) obtain r s1 where a: "apply_one e base rva s = Some (r, s1)" by (auto simp: bind_eq_Some_conv)
  have c: "count_ok (fst s1) \<and> ip_lock (fst s1) = ip_lock (fst s) \<and> length (ip_patched (fst s)) \<le> length (ip_patched (fst s1))"
    using apply_one_count [of e base rva "fst s" "snd s" r "fst s1" "snd s1"] a Cons.prems(2) by simp
  show ?case
  proof (cases r)
    case (Inl y)
    with Cons.prems(1) a c show ?thesis by simp
  next
    case (Inr result)
    have "apply_loop e base targets (results @ [(rva, \<lparr>pa_result = result, pa_id = 0\<rparr>)]) s1 = Some (x, results', s')"
      using Cons.prems(1) a Inr by simp
    from Cons.IH [OF this] c show ?thesis by auto
  qed
qed simp

lemma apply_loop_attached:
  assumes "apply_loop e base targets results s = Some (x, results', s')" "attached (fst s)" and small: "length (pe_trampoline_proto e) \<le> block_size"
  shows "attached (fst s') \<and> x = None \<and> (\<forall>k. patched_on (fst s) k \<longrightarrow> patched_on (fst s') k) \<and>
    (\<exists>rs. results' = results @ rs \<and> map fst rs = targets \<and> (\<forall>(rva, a)\<in>set rs. pa_result a \<noteq> Patch_Error \<longrightarrow> patched_on (fst s') rva))"
  using assms(1,2)
proof (induction targets arbitrary: results s)
  case (Cons rva targets)
  from Cons.prems(1) obtain r s1 where a: "apply_one e base rva s = Some (r, s1)" by (auto simp: bind_eq_Some_conv)
  obtain result where r: "attached (fst s1)" "r = Inr result" "result \<noteq> Patch_Error \<longrightarrow> patched_on (fst s1) rva"
      "\<forall>k. patched_on (fst s) k \<longrightarrow> patched_on (fst s1) k"
    using apply_one_attached [of e base rva "fst s" "snd s" r "fst s1" "snd s1"] a Cons.prems(2) small by auto
  let ?a = "\<lparr>pa_result = result, pa_id = 0\<rparr>"
  have "apply_loop e base targets (results @ [(rva, ?a)]) s1 = Some (x, results', s')" using Cons.prems(1) a r(2) by simp
  from Cons.IH [OF this r(1)] obtain rs where rs: "attached (fst s')" "x = None" "\<forall>k. patched_on (fst s1) k \<longrightarrow> patched_on (fst s') k"
      "results' = results @ [(rva, ?a)] @ rs" "map fst rs = targets" "\<forall>(rva, a)\<in>set rs. pa_result a \<noteq> Patch_Error \<longrightarrow> patched_on (fst s') rva"
    by auto
  have "\<exists>rs. results' = results @ rs \<and> map fst rs = rva # targets \<and> (\<forall>(rva, a)\<in>set rs. pa_result a \<noteq> Patch_Error \<longrightarrow> patched_on (fst s') rva)"
    by (rule exI [of _ "(rva, ?a) # rs"]) (use rs r(3) in auto)
  with rs(1-3) r(4) show ?case by blast
qed simp

lemma revert_loop_count:
  "revert_loop targets results s = (x, results', s') \<Longrightarrow> count_ok (fst s) \<Longrightarrow> count_ok (fst s') \<and> ip_lock (fst s') = ip_lock (fst s) \<and>
     length (ip_patched (fst s)) \<le> length (ip_patched (fst s'))"
proof (induction targets arbitrary: results s)
  case (Cons rva targets)
  obtain r i pm where a: "revert_one rva s = (r, i, pm)" by (metis prod_cases3)
  have c: "count_ok i \<and> ip_lock i = ip_lock (fst s) \<and> length (ip_patched (fst s)) \<le> length (ip_patched i)"
    using revert_one_count [of rva "fst s" "snd s" r i pm] a Cons.prems(2) by simp
  show ?case
  proof (cases r)
    case (Inl y)
    with Cons.prems(1) a c show ?thesis by auto
  next
    case (Inr result)
    then have "revert_loop targets (results @ [(rva, result)]) (i, pm) = (x, results', s')" using Cons.prems(1) a by simp
    from Cons.IH [OF this] c show ?thesis by auto
  qed
qed simp

lemma revert_loop_attached:
  assumes "revert_loop targets results s = (x, results', s')" "attached (fst s)"
  shows "attached (fst s') \<and> x = None \<and> (\<forall>k. \<not> patched_on (fst s) k \<longrightarrow> \<not> patched_on (fst s') k) \<and>
    (\<forall>rva\<in>set targets. \<not> patched_on (fst s') rva) \<and> map fst results' = map fst results @ targets"
  using assms
proof (induction targets arbitrary: results s)
  case (Cons rva targets)
  obtain r i pm where a: "revert_one rva s = (r, i, pm)" by (metis prod_cases3)
  obtain result where r: "attached i" "r = Inr result" "\<not> patched_on i rva" "\<forall>k. \<not> patched_on (fst s) k \<longrightarrow> \<not> patched_on i k"
    using revert_one_attached [of rva "fst s" "snd s" r i pm] a Cons.prems(2) by auto
  have "revert_loop targets (results @ [(rva, result)]) (i, pm) = (x, results', s')" using Cons.prems(1) a r(2) by simp
  from Cons.IH [OF this] r show ?case by auto
qed simp

section \<open>All images\<close>

definition image_ok :: "bool \<Rightarrow> image_patch \<Rightarrow> bool" where
  "image_ok d i \<longleftrightarrow> count_ok i \<and> (\<not> d \<longrightarrow> attached i \<and>
     (length (ip_patched i) < 2 ^ 32 \<longrightarrow> (ip_lock i = None \<longleftrightarrow> (\<forall>rva. \<not> patched_on i rva))))"

definition manager_ok :: "bool \<Rightarrow> image_patch_manager \<Rightarrow> bool" where
  "manager_ok d s \<longleftrightarrow> (\<forall>persistent_id i. um_find (pm_patched_images s) persistent_id = Some i \<longrightarrow> image_ok d i)"

lemma none_on:
  assumes "count_ok i" "length (ip_patched i) < 2 ^ 32"
  shows "ip_patches_applied i = 0 \<longleftrightarrow> (\<forall>rva. \<not> patched_on i rva)"
proof -
  let ?f = "filter (\<lambda>(k, p). fp_on p) (ip_patched i)"
  have "length ?f < 2 ^ 32" using assms(2) length_filter_le [of "\<lambda>(k, p). fp_on p" "ip_patched i"] by linarith
  then have "(of_nat (length ?f) :: u32) = 0 \<longleftrightarrow> ?f = []" by (auto simp: word_of_nat_eq_0_iff dest: nat_dvd_not_less)
  then have "ip_patches_applied i = 0 \<longleftrightarrow> ?f = []" using assms(1) by (simp add: count_ok_def patches.count_on_length)
  also have "\<dots> \<longleftrightarrow> (\<forall>rva. \<not> patched_on i rva)"
    using assms(1) by (auto simp: filter_empty_conv patched_on_def count_ok_def um_ok_def)
  finally show ?thesis .
qed

lemma pm_image_ok: "manager_ok d s \<Longrightarrow> image_ok d (pm_image s persistent_id)"
  by (auto simp: manager_ok_def pm_image_def image_ok_def image_patch_init_def count_ok_def attached_def patched_on_def patches.count_on_def split: option.splits)

lemma image_ok_lock [simp]: "count_ok (i\<lparr>ip_lock := l\<rparr>) = count_ok i" "attached (i\<lparr>ip_lock := l\<rparr>) = attached i" "patched_on (i\<lparr>ip_lock := l\<rparr>) rva = patched_on i rva"
  by (simp_all add: count_ok_def attached_def patched_on_def)

lemma manager_ok_assign:
  "manager_ok d s \<Longrightarrow> image_ok d i \<Longrightarrow> manager_ok d (s\<lparr>pm_patched_images := um_assign persistent_id i (pm_patched_images s), pm_memory := pm\<rparr>)"
  by (simp add: manager_ok_def dict_simps)

lemma apply_patches_ok:
  assumes "apply_patches e persistent_id base lock targets results s = Some (x, results', s')" "manager_ok d s" "lock \<noteq> None"
    and small: "length (pe_trampoline_proto e) \<le> block_size"
  shows "manager_ok d s'"
proof -
  let ?i = "pm_image s persistent_id"
  have i: "image_ok d ?i" using assms(2) by (rule pm_image_ok)
  from assms(1) obtain i' pm' where l: "apply_loop e base targets results (?i, pm_memory s) = Some (x, results', i', pm')"
    and s': "s' = s\<lparr>pm_patched_images := um_assign persistent_id (if x = None \<and> ip_patches_applied i' \<noteq> 0 then i'\<lparr>ip_lock := lock\<rparr> else i') (pm_patched_images s), pm_memory := pm'\<rparr>"
    by (auto simp: apply_patches_def)
  have c: "count_ok i'" "ip_lock i' = ip_lock ?i" "length (ip_patched ?i) \<le> length (ip_patched i')"
    using apply_loop_count [OF l] i by (simp_all add: image_ok_def)
  have a: "attached i' \<and> x = None \<and> (\<forall>k. patched_on ?i k \<longrightarrow> patched_on i' k)" if "\<not> d"
    using apply_loop_attached [OF l _ small] i that by (simp add: image_ok_def)
  have "image_ok d (if x = None \<and> ip_patches_applied i' \<noteq> 0 then i'\<lparr>ip_lock := lock\<rparr> else i')"
    using i c a assms(3) none_on [OF c(1)] by (auto simp: image_ok_def)
  then show ?thesis unfolding s' by (rule manager_ok_assign [OF assms(2)])
qed

lemma revert_patches_ok:
  assumes "revert_patches persistent_id targets results s = (x, results', s')" "manager_ok d s"
  shows "manager_ok d s'"
proof -
  let ?i = "pm_image s persistent_id"
  have i: "image_ok d ?i" using assms(2) by (rule pm_image_ok)
  from assms(1) obtain i' pm' where l: "revert_loop targets results (?i, pm_memory s) = (x, results', i', pm')"
    and s': "s' = s\<lparr>pm_patched_images := um_assign persistent_id (if x = None \<and> ip_patches_applied i' = 0 then i'\<lparr>ip_lock := None\<rparr> else i') (pm_patched_images s), pm_memory := pm'\<rparr>"
    by (auto simp: revert_patches_def split: prod.splits)
  have c: "count_ok i'" "ip_lock i' = ip_lock ?i" "length (ip_patched ?i) \<le> length (ip_patched i')"
    using revert_loop_count [OF l] i by (simp_all add: image_ok_def)
  have a: "attached i' \<and> x = None \<and> (\<forall>k. \<not> patched_on ?i k \<longrightarrow> \<not> patched_on i' k)" if "\<not> d"
    using revert_loop_attached [OF l] i that by (simp add: image_ok_def)
  have "image_ok d (if x = None \<and> ip_patches_applied i' = 0 then i'\<lparr>ip_lock := None\<rparr> else i')"
    using i c a none_on [OF c(1)] by (auto simp: image_ok_def)
  then show ?thesis unfolding s' by (rule manager_ok_assign [OF assms(2)])
qed

lemma detach_keeps_on [simp]: "fp_on (fp_detach p) = fp_on p"
  by (simp add: fp_on_def fp_detach_def jumper_detach_def)

lemma detach_all_ok: "manager_ok d s \<Longrightarrow> manager_ok True (detach_all s)"
proof -
  assume m: "manager_ok d s"
  have "count_ok (i\<lparr>ip_patched := map (\<lambda>(rva, p). (rva, fp_detach p)) (ip_patched i)\<rparr>)" if "count_ok i" for i
  proof -
    have "patches.count_on (map (\<lambda>(rva, p). (rva, fp_detach p)) ps) = patches.count_on ps" for ps :: "(u32, function_patch) umap"
      by (induction ps) (auto simp: patches.count_on_def)
    moreover have "fst \<circ> (\<lambda>(rva :: u32, p). (rva, fp_detach p)) = fst" by (auto simp: fun_eq_iff)
    ultimately show ?thesis using that by (simp add: count_ok_def um_ok_def)
  qed
  with m show ?thesis by (auto simp: manager_ok_def detach_all_def image_ok_def map_of_map)
qed

lemma reachable_ok: "pm_reachable e pm d s \<Longrightarrow> length (pe_trampoline_proto e) \<le> block_size \<Longrightarrow> manager_ok d s"
proof (induction rule: pm_reachable.induct)
  case created
  show ?case by (simp add: manager_ok_def)
qed (blast intro: apply_patches_ok revert_patches_ok detach_all_ok)+

text \<open>
  C28. In every state a manager gets into, the counter of an image is the number of its active patches,
  and unless the patches were detached, the image is kept loaded (its lock is held) exactly while one of
  its functions is patched. The counter has 32 bits, so that an image has fewer patches than that; the trampoline fits
  a block of executable memory (its size is kept in a byte).
\<close>

theorem patches_are_counted:
  assumes "pm_reachable e pm d s" "um_find (pm_patched_images s) persistent_id = Some i" "length (ip_patched i) < 2 ^ 32"
    and small: "length (pe_trampoline_proto e) \<le> block_size"
  shows "unat (ip_patches_applied i) = length (filter (\<lambda>(rva, p). fp_on p) (ip_patched i)) \<and>
    (\<not> d \<longrightarrow> (ip_lock i \<noteq> None \<longleftrightarrow> ip_patches_applied i \<noteq> 0))"
proof -
  have i: "image_ok d i" using reachable_ok [OF assms(1) small] assms(2) by (simp add: manager_ok_def)
  then have c: "count_ok i" by (simp add: image_ok_def)
  have "length (filter (\<lambda>(rva, p). fp_on p) (ip_patched i)) < 2 ^ 32"
    using assms(3) length_filter_le [of "\<lambda>(k, p). fp_on p" "ip_patched i"] by linarith
  then have "unat (ip_patches_applied i) = length (filter (\<lambda>(rva, p). fp_on p) (ip_patched i))"
    using c by (simp add: count_ok_def patches.count_on_length unsigned_of_nat take_bit_nat_eq_self)
  moreover have "ip_lock i \<noteq> None \<longleftrightarrow> ip_patches_applied i \<noteq> 0" if "\<not> d" using i that assms(3) none_on [OF c assms(3)] by (simp add: image_ok_def)
  ultimately show ?thesis by blast
qed

text \<open>
  A request to patch functions answers for each of them, in order; it does not fail while nothing
  was detached, and every function that is not reported as an error is patched afterwards.
\<close>

theorem apply_reports:
  assumes "pm_reachable e pm False s" "apply_patches e persistent_id base lock targets results s = Some (x, results', s')"
    and small: "length (pe_trampoline_proto e) \<le> block_size"
  shows "x = None \<and> (\<exists>rs. results' = results @ rs \<and> map fst rs = targets \<and>
    (\<forall>(rva, a)\<in>set rs. pa_result a \<noteq> Patch_Error \<longrightarrow> patched_on (pm_image s' persistent_id) rva))"
proof -
  let ?i = "pm_image s persistent_id"
  have "attached ?i" using pm_image_ok [OF reachable_ok [OF assms(1) small]] by (simp add: image_ok_def)
  moreover from assms(2) obtain i' pm' where l: "apply_loop e base targets results (?i, pm_memory s) = Some (x, results', i', pm')"
    and s': "s' = s\<lparr>pm_patched_images := um_assign persistent_id (if x = None \<and> ip_patches_applied i' \<noteq> 0 then i'\<lparr>ip_lock := lock\<rparr> else i') (pm_patched_images s), pm_memory := pm'\<rparr>"
    by (auto simp: apply_patches_def)
  moreover have "patched_on (pm_image s' persistent_id) rva = patched_on i' rva" for rva
    unfolding s' by (auto simp: pm_image_def dict_simps)
  ultimately show ?thesis using apply_loop_attached [OF l _ small] by auto
qed

text \<open>
  A request to revert patches answers for each function, in order; it does not fail while nothing
  was detached, and none of the functions is patched afterwards, whether it was before or not.
\<close>

theorem revert_reports:
  assumes "pm_reachable e pm False s" "revert_patches persistent_id targets results s = (x, results', s')"
    and small: "length (pe_trampoline_proto e) \<le> block_size"
  shows "x = None \<and> map fst results' = map fst results @ targets \<and> (\<forall>rva\<in>set targets. \<not> patched_on (pm_image s' persistent_id) rva)"
proof -
  let ?i = "pm_image s persistent_id"
  have "attached ?i" using pm_image_ok [OF reachable_ok [OF assms(1) small]] by (simp add: image_ok_def)
  moreover from assms(2) obtain i' pm' where l: "revert_loop targets results (?i, pm_memory s) = (x, results', i', pm')"
    and s': "s' = s\<lparr>pm_patched_images := um_assign persistent_id (if x = None \<and> ip_patches_applied i' = 0 then i'\<lparr>ip_lock := None\<rparr> else i') (pm_patched_images s), pm_memory := pm'\<rparr>"
    by (auto simp: revert_patches_def split: prod.splits)
  moreover have "patched_on (pm_image s' persistent_id) rva = patched_on i' rva" for rva
    unfolding s' by (auto simp: pm_image_def dict_simps)
  ultimately show ?thesis using revert_loop_attached [OF l] by simp
qed

section \<open>An example\<close>

definition sample_env :: patch_env where
  "sample_env = \<lparr>pe_psize = 4, pe_x64 = False, pe_jumper_proto = sample_proto, pe_trampoline_proto = [0x90], pe_interceptor = 1, pe_on_enter = 2,
     pe_on_exit = 3, pe_map_block = (\<lambda>i. 5000 + int i * 0x10000)\<rparr>"

definition sample_manager :: image_patch_manager where
  "sample_manager = \<lparr>pm_patched_images = [], pm_memory = (exec_allocator_init (pe_map_block sample_env), sample_function)\<rparr>"

lemma sample_small: "length (pe_trampoline_proto sample_env) \<le> block_size"
  by (simp add: sample_env_def block_size_def)

lemma sample_reachable: "pm_reachable sample_env (exec_allocator_init (pe_map_block sample_env), sample_function) False sample_manager"
  unfolding sample_manager_def by (rule pm_reachable.created)

lemma sample_apply:
  "\<exists>p pm. apply_patches sample_env 1 0 (Some 7) [1000] [] sample_manager =
     Some (None, [(1000, \<lparr>pa_result = Patch_Ok, pa_id = 0\<rparr>)],
       \<lparr>pm_patched_images = [(1, \<lparr>ip_lock = Some 7, ip_patched = [(1000, p)], ip_patches_applied = 1\<rparr>)], pm_memory = pm\<rparr>)"
proof -
  obtain j m1 where n: "jumper_new 4 sample_proto False 1000 5000 sample_function = Some (Inr (j, m1))" using sample_new by blast
  obtain p pm where p: "function_patch_new sample_env 1000 (exec_allocator_init (pe_map_block sample_env), sample_function) = Some (Inr p, pm)"
    using n by (auto simp: function_patch_new_def sample_env_def exec_allocate_def block_allocate_def exec_allocator_init_def exec_block_new_def block_size_def)
  obtain b p' m' where a: "fp_activate sample_env p (snd pm) = (b, p', m')" by (metis prod_cases3)
  note off = new_patch_off [OF p]
  have "b = Inr True" using activate_attached(3) [OF a off(2)] off(1) patches.on_changes [of sample_env p "snd pm" _ p' m'] a by auto
  with p a show ?thesis
    by (auto simp: apply_patches_def sample_manager_def pm_image_def image_patch_init_def apply_one_def um_insert_def)
qed

theorem patches_are_counted_witness:
  "\<exists>p pm. pm_reachable sample_env (exec_allocator_init (pe_map_block sample_env), sample_function) False
       \<lparr>pm_patched_images = [(1, \<lparr>ip_lock = Some 7, ip_patched = [(1000, p)], ip_patches_applied = 1\<rparr>)], pm_memory = pm\<rparr> \<and> fp_on p"
proof -
  obtain p pm where a: "apply_patches sample_env 1 0 (Some 7) [1000] [] sample_manager =
     Some (None, [(1000, \<lparr>pa_result = Patch_Ok, pa_id = 0\<rparr>)],
       \<lparr>pm_patched_images = [(1, \<lparr>ip_lock = Some 7, ip_patched = [(1000, p)], ip_patches_applied = 1\<rparr>)], pm_memory = pm\<rparr>)"
    using sample_apply by blast
  have r: "pm_reachable sample_env (exec_allocator_init (pe_map_block sample_env), sample_function) False
       \<lparr>pm_patched_images = [(1, \<lparr>ip_lock = Some 7, ip_patched = [(1000, p)], ip_patches_applied = 1\<rparr>)], pm_memory = pm\<rparr>"
    by (rule pm_reachable.applied [OF sample_reachable _ a]) simp
  from patches_are_counted [OF r, of 1] sample_small have "fp_on p" by (auto split: if_splits)
  with r show ?thesis by blast
qed

theorem apply_reports_witness:
  "\<exists>s'. patched_on (pm_image s' 1) 1000 \<and> (\<exists>results'. apply_patches sample_env 1 0 (Some 7) [1000] [] sample_manager = Some (None, results', s'))"
proof -
  obtain p pm where a: "apply_patches sample_env 1 0 (Some 7) [1000] [] sample_manager =
     Some (None, [(1000, \<lparr>pa_result = Patch_Ok, pa_id = 0\<rparr>)],
       \<lparr>pm_patched_images = [(1, \<lparr>ip_lock = Some 7, ip_patched = [(1000, p)], ip_patches_applied = 1\<rparr>)], pm_memory = pm\<rparr>)"
    using sample_apply by blast
  from apply_reports [OF sample_reachable a sample_small] a show ?thesis by auto
qed

theorem revert_reports_witness:
  "\<exists>x results' s'. revert_patches 1 [1000] [] sample_manager = (x, results', s') \<and> x = None \<and> map fst results' = [1000]"
proof -
  obtain x results' s' where r: "revert_patches 1 [1000] [] sample_manager = (x, results', s')" by (metis prod_cases3)
  from revert_reports [OF sample_reachable r sample_small] r show ?thesis by simp
qed

end
