(* ===== verification/Ipc_Sessions.thy ===== *)
theory Ipc_Sessions
  imports Prelude
begin

text \<open>
  Requests and responses: the two sides of a session, \<^verbatim>\<open>ipc/src/client_session.cpp\<close> and
  \<^verbatim>\<open>ipc/src/server_session.cpp\<close>. The serialization library is an argument: how it writes and reads an
  identifier and a token. A callback of the client is a name; what a handler of the server does with its
  response object is the list of its calls on it. The queue of the server runs continuations in order.
\<close>

section \<open>Serialization\<close>

type_synonym bytes = "u8 list"

record archive =
  write_id :: "u32 \<Rightarrow> bytes"
  read_id :: "bytes \<Rightarrow> (u32 \<times> bytes) option"
  write_token :: "u64 \<Rightarrow> bytes"
  read_token :: "bytes \<Rightarrow> (u64 \<times> bytes) option"

definition archive_ok :: "archive \<Rightarrow> bool" where
  "archive_ok a \<longleftrightarrow> (\<forall>i rest. read_id a (write_id a i @ rest) = Some (i, rest)) \<and>
     (\<forall>t rest. read_token a (write_token a t @ rest) = Some (t, rest))"

section \<open>The client\<close>

text \<open>What a handle erases when it is released; one with several responses erases the last one first.\<close>

datatype callback_key = Message_Key u32 | Response_Key u32 u64

type_synonym handle = "callback_key list"

record 'c client_session =
  cs_token :: u64
  cs_callbacks :: "(u32 \<times> u64, 'c) umap"
  cs_message_callbacks :: "(u32, 'c) umap"
  cs_outbound :: "bytes list"

definition client_session_init :: "'c client_session" where
  "client_session_init = \<lparr>cs_token = 1, cs_callbacks = [], cs_message_callbacks = [], cs_outbound = []\<rparr>"

fun erase_callback :: "callback_key \<Rightarrow> 'c client_session \<Rightarrow> 'c client_session" where
  "erase_callback (Message_Key i) s = s\<lparr>cs_message_callbacks := um_erase i (cs_message_callbacks s)\<rparr>"
| "erase_callback (Response_Key i t) s = s\<lparr>cs_callbacks := um_erase (i, t) (cs_callbacks s)\<rparr>"

definition release :: "handle \<Rightarrow> 'c client_session \<Rightarrow> 'c client_session" where
  "release h s = fold erase_callback h s"

definition subscribe :: "handle \<Rightarrow> u32 \<Rightarrow> 'c \<Rightarrow> 'c client_session \<Rightarrow> handle \<times> 'c client_session" where
  "subscribe h message_id callback s =
     ([Message_Key message_id], release h (s\<lparr>cs_message_callbacks := um_insert message_id callback (cs_message_callbacks s)\<rparr>))"

definition request_internal :: "archive \<Rightarrow> u32 \<Rightarrow> bytes \<Rightarrow> (u64 \<Rightarrow> 'c client_session \<Rightarrow> handle \<times> 'c client_session) \<Rightarrow> 'c client_session \<Rightarrow>
    handle \<times> 'c client_session" where
  "request_internal a request_id payload callback_ctor s =
     (let token = cs_token s;
          buffer = write_id a request_id @ write_token a token @ payload;
          (h, s) = callback_ctor token (s\<lparr>cs_token := token + 1\<rparr>)
      in (h, s\<lparr>cs_outbound := cs_outbound s @ [buffer]\<rparr>))"

definition add_callback :: "u32 \<Rightarrow> 'c \<Rightarrow> u64 \<Rightarrow> 'c client_session \<Rightarrow> 'c client_session" where
  "add_callback response_id callback token s = s\<lparr>cs_callbacks := um_insert (response_id, token) callback (cs_callbacks s)\<rparr>"

definition request :: "archive \<Rightarrow> handle \<Rightarrow> u32 \<Rightarrow> bytes \<Rightarrow> u32 \<Rightarrow> 'c \<Rightarrow> 'c client_session \<Rightarrow> handle \<times> 'c client_session" where
  "request a h request_id payload response_id callback s =
     request_internal a request_id payload
       (\<lambda>token s. ([Response_Key response_id token], release h (add_callback response_id callback token s))) s"

text \<open>With a list of responses the handle passed in is kept, and released with the new one.\<close>

definition request_multi :: "archive \<Rightarrow> handle \<Rightarrow> u32 \<Rightarrow> bytes \<Rightarrow> (u32 \<times> 'c) list \<Rightarrow> 'c client_session \<Rightarrow> handle \<times> 'c client_session" where
  "request_multi a h request_id payload callbacks s =
     request_internal a request_id payload
       (\<lambda>token s. fold (\<lambda>(i, c) (h, s). (Response_Key i token # h, add_callback i c token s)) callbacks (h, s)) s"

text \<open>What an incoming message does: nothing, a call with the rest of the message, or the exception of a short buffer.\<close>

datatype 'c dispatch = Short_Buffer | Not_Expected | Call 'c bytes

definition client_message :: "archive \<Rightarrow> bytes \<Rightarrow> 'c client_session \<Rightarrow> 'c dispatch" where
  "client_message a payload s =
     (case read_id a payload of
        None \<Rightarrow> Short_Buffer
      | Some (response_id, rest) \<Rightarrow>
          (case um_find (cs_message_callbacks s) response_id of
             Some c \<Rightarrow> Call c rest
           | None \<Rightarrow>
               if list_ex (\<lambda>((i, _), _). i = response_id) (cs_callbacks s) then
                 (case read_token a rest of
                    None \<Rightarrow> Short_Buffer
                  | Some (token, rest) \<Rightarrow>
                      (case um_find (cs_callbacks s) (response_id, token) of Some c \<Rightarrow> Call c rest | None \<Rightarrow> Not_Expected))
               else Not_Expected))"

section \<open>The server\<close>

datatype response_call = Respond u32 bytes | Defer "response_call list"

type_synonym handler = "bytes \<Rightarrow> response_call list"

record server_session =
  ss_handlers :: "(u32, handler) umap"
  ss_apartment :: bool
  ss_scheduled :: "(u64 \<times> response_call list) list"
  ss_outbound :: "bytes list"

datatype server_error = Short_Request | Deferring_Disabled

definition add_handler :: "u32 \<Rightarrow> handler \<Rightarrow> server_session \<Rightarrow> server_session" where
  "add_handler request_id h s = s\<lparr>ss_handlers := um_assign request_id h (ss_handlers s)\<rparr>"

definition server_push :: "archive \<Rightarrow> u32 \<Rightarrow> bytes \<Rightarrow> server_session \<Rightarrow> server_session" where
  "server_push a message_id content s = s\<lparr>ss_outbound := ss_outbound s @ [write_id a message_id @ content]\<rparr>"

definition respond :: "archive \<Rightarrow> u64 \<Rightarrow> u32 \<Rightarrow> bytes \<Rightarrow> server_session \<Rightarrow> server_session" where
  "respond a token response_id content s = server_push a response_id (write_token a token @ content) s"

text \<open>The calls on a response object, with its \<^verbatim>\<open>continuation\<close>.\<close>

fun run_calls :: "archive \<Rightarrow> u64 \<Rightarrow> bool \<Rightarrow> response_call list \<Rightarrow> response_call list option \<Rightarrow> server_session \<Rightarrow>
    server_error option \<times> response_call list option \<times> server_session" where
  "run_calls a token deferral [] continuation s = (None, continuation, s)"
| "run_calls a token deferral (Respond i content # calls) continuation s = run_calls a token deferral calls continuation (respond a token i content s)"
| "run_calls a token deferral (Defer k # calls) continuation s =
     (if \<not> deferral then (Some Deferring_Disabled, continuation, s) else run_calls a token deferral calls (Some k) s)"

definition run_response :: "archive \<Rightarrow> u64 \<Rightarrow> bool \<Rightarrow> response_call list \<Rightarrow> server_session \<Rightarrow> server_error option \<times> server_session" where
  "run_response a token deferral calls s =
     (case run_calls a token deferral calls None s of
        (Some e, _, s) \<Rightarrow> (Some e, s)
      | (None, None, s) \<Rightarrow> (None, s)
      | (None, Some k, s) \<Rightarrow> (None, s\<lparr>ss_scheduled := ss_scheduled s @ [(token, k)]\<rparr>))"

definition server_message :: "archive \<Rightarrow> bytes \<Rightarrow> server_session \<Rightarrow> server_error option \<times> server_session" where
  "server_message a payload s =
     (case read_id a payload of
        None \<Rightarrow> (Some Short_Request, s)
      | Some (request_id, rest) \<Rightarrow>
          (case read_token a rest of
             None \<Rightarrow> (Some Short_Request, s)
           | Some (token, rest) \<Rightarrow>
               (case um_find (ss_handlers s) request_id of
                  None \<Rightarrow> (None, s)
                | Some h \<Rightarrow> run_response a token (ss_apartment s) (h rest) s)))"

text \<open>The queue runs the next continuation.\<close>

definition server_continue :: "archive \<Rightarrow> server_session \<Rightarrow> server_session" where
  "server_continue a s =
     (case ss_scheduled s of
        [] \<Rightarrow> s
      | (token, k) # rest \<Rightarrow> snd (run_response a token True k (s\<lparr>ss_scheduled := rest\<rparr>)))"

section \<open>What a handler answers\<close>

text \<open>All the responses, of the handler and of its continuation: each turn replaces the continuation set before.\<close>

fun last_defer :: "response_call list \<Rightarrow> response_call list option" where
  "last_defer [] = None"
| "last_defer (Respond i c # calls) = last_defer calls"
| "last_defer (Defer k # calls) = (case last_defer calls of None \<Rightarrow> Some k | Some k' \<Rightarrow> Some k')"

fun responses_now :: "response_call list \<Rightarrow> (u32 \<times> bytes) list" where
  "responses_now [] = []"
| "responses_now (Respond i c # calls) = (i, c) # responses_now calls"
| "responses_now (Defer k # calls) = responses_now calls"

lemma size_last_defer: "last_defer calls = Some k \<Longrightarrow> size_list size k < size_list size calls"
  by (induction calls rule: last_defer.induct) (auto split: option.splits)

function answers :: "response_call list \<Rightarrow> (u32 \<times> bytes) list" where
  "answers calls = responses_now calls @ (case last_defer calls of None \<Rightarrow> [] | Some k \<Rightarrow> answers k)"
  by auto
termination by (relation "measure (size_list size)") (auto dest: size_last_defer)

declare answers.simps [simp del]

definition encode :: "archive \<Rightarrow> u64 \<Rightarrow> u32 \<times> bytes \<Rightarrow> bytes" where
  "encode a token ic = write_id a (fst ic) @ write_token a token @ snd ic"

definition token_of :: "archive \<Rightarrow> bytes \<Rightarrow> u64 option" where
  "token_of a message = Option.bind (read_id a message) (\<lambda>(_, rest). map_option fst (read_token a rest))"

lemma token_of_encode: "archive_ok a \<Longrightarrow> token_of a (encode a t ic) = Some t"
  by (simp add: token_of_def encode_def archive_ok_def)

lemma run_calls_deferrable:
  "run_calls a token True calls continuation s =
     (None, (case last_defer calls of None \<Rightarrow> continuation | Some k \<Rightarrow> Some k),
      s\<lparr>ss_outbound := ss_outbound s @ map (encode a token) (responses_now calls)\<rparr>)"
  by (induction calls arbitrary: continuation s rule: last_defer.induct)
    (auto simp: respond_def server_push_def encode_def split: option.splits)

lemma run_response_deferrable:
  "run_response a token True calls s =
     (None, s\<lparr>ss_outbound := ss_outbound s @ map (encode a token) (responses_now calls),
       ss_scheduled := ss_scheduled s @ (case last_defer calls of None \<Rightarrow> [] | Some k \<Rightarrow> [(token, k)])\<rparr>)"
  by (simp add: run_response_def run_calls_deferrable split: option.splits)

text \<open>The messages sent for a token, and the ones its continuation will still send.\<close>

definition sent_for :: "archive \<Rightarrow> u64 \<Rightarrow> server_session \<Rightarrow> bytes list" where
  "sent_for a t s = filter (\<lambda>m. token_of a m = Some t) (ss_outbound s)"

definition pending_for :: "archive \<Rightarrow> u64 \<Rightarrow> server_session \<Rightarrow> bytes list" where
  "pending_for a t s = concat (map (\<lambda>(t', k). if t' = t then map (encode a t) (answers k) else []) (ss_scheduled s))"

lemma filter_encoded: "archive_ok a \<Longrightarrow> filter (\<lambda>m. token_of a m = Some t) (map (encode a t') ics) = (if t' = t then map (encode a t) ics else [])"
  by (induction ics) (auto simp: token_of_encode)

lemma pending_absent: "t \<notin> fst ` set ks \<Longrightarrow> concat (map (\<lambda>(t', k). if t' = t then map (encode a t) (answers k) else []) ks) = []"
  by (induction ks) auto

lemma run_response_accounts:
  assumes "archive_ok a" "token \<notin> fst ` set (ss_scheduled s)"
  shows "sent_for a t (snd (run_response a token True calls s)) @ pending_for a t (snd (run_response a token True calls s)) =
    sent_for a t s @ pending_for a t s @ (if token = t then map (encode a t) (answers calls) else [])"
proof (cases "token = t")
  case True
  with assms(2) have "t \<notin> fst ` set (ss_scheduled s)" by simp
  then show ?thesis
    using True assms(1) by (simp add: pending_absent run_response_deferrable sent_for_def pending_for_def filter_encoded answers.simps [of calls] split: option.splits)
next
  case False
  with assms(1) show ?thesis by (simp add: run_response_deferrable sent_for_def pending_for_def filter_encoded split: option.splits)
qed

lemma continue_accounts:
  assumes "archive_ok a" "distinct (map fst (ss_scheduled s))"
  shows "sent_for a t (server_continue a s) @ pending_for a t (server_continue a s) = sent_for a t s @ pending_for a t s"
proof (cases "ss_scheduled s")
  case (Cons tk rest)
  obtain token k where tk: "tk = (token, k)" by (cases tk)
  have "token \<notin> fst ` set rest" using assms(2) Cons tk by auto
  then have "sent_for a t (server_continue a s) @ pending_for a t (server_continue a s) =
      sent_for a t s @ pending_for a t (s\<lparr>ss_scheduled := rest\<rparr>) @ (if token = t then map (encode a t) (answers k) else [])"
    using run_response_accounts [OF assms(1), of token "s\<lparr>ss_scheduled := rest\<rparr>" t k] by (simp add: server_continue_def Cons tk sent_for_def)
  also have "\<dots> = sent_for a t s @ pending_for a t s"
    using \<open>token \<notin> fst ` set rest\<close> by (auto simp: pending_for_def Cons tk pending_absent)
  finally show ?thesis .
qed (simp add: server_continue_def)

lemma scheduled_tokens:
  "set (map fst (ss_scheduled (snd (run_response a token True calls s)))) \<subseteq> insert token (set (map fst (ss_scheduled s)))"
  "distinct (map fst (ss_scheduled s)) \<Longrightarrow> token \<notin> fst ` set (ss_scheduled s) \<Longrightarrow> distinct (map fst (ss_scheduled (snd (run_response a token True calls s))))"
  by (auto simp: run_response_deferrable split: option.splits)

lemma continue_tokens:
  assumes "distinct (map fst (ss_scheduled s))"
  shows "set (map fst (ss_scheduled (server_continue a s))) \<subseteq> set (map fst (ss_scheduled s))" "distinct (map fst (ss_scheduled (server_continue a s)))"
    "ss_handlers (server_continue a s) = ss_handlers s" "ss_apartment (server_continue a s) = ss_apartment s"
  using assms by (auto simp: server_continue_def run_response_deferrable rev_image_eqI split: list.splits option.splits)

section \<open>A session\<close>

text \<open>
  Both sides, connected by channels that keep the order of messages: how many of the requests the server
  has seen and how many of its messages the client has. The requests made and what each message did to
  the client are recorded.
\<close>

record 'c ipc_system =
  sy_client :: "'c client_session"
  sy_server :: server_session
  sy_served :: nat
  sy_received :: nat
  sy_requests :: "(u32 \<times> bytes \<times> (u32 \<times> 'c) list) list"
  sy_dispatched :: "(bytes \<times> 'c dispatch) list"

definition ipc_start :: "(u32, handler) umap \<Rightarrow> 'c ipc_system" where
  "ipc_start handlers = \<lparr>sy_client = client_session_init,
     sy_server = \<lparr>ss_handlers = handlers, ss_apartment = True, ss_scheduled = [], ss_outbound = []\<rparr>,
     sy_served = 0, sy_received = 0, sy_requests = [], sy_dispatched = []\<rparr>"

inductive ipc_reachable :: "archive \<Rightarrow> (u32, handler) umap \<Rightarrow> 'c ipc_system \<Rightarrow> bool" for a handlers where
  session_start: "ipc_reachable a handlers (ipc_start handlers)"
| client_asks: "ipc_reachable a handlers y \<Longrightarrow> request_multi a [] i payload cbs (sy_client y) = (h, c) \<Longrightarrow>
    ipc_reachable a handlers (y\<lparr>sy_client := c, sy_requests := sy_requests y @ [(i, payload, cbs)]\<rparr>)"
| server_serves: "ipc_reachable a handlers y \<Longrightarrow> sy_served y < length (cs_outbound (sy_client y)) \<Longrightarrow>
    server_message a (cs_outbound (sy_client y) ! sy_served y) (sy_server y) = (e, v) \<Longrightarrow>
    ipc_reachable a handlers (y\<lparr>sy_server := v, sy_served := sy_served y + 1\<rparr>)"
| server_continues: "ipc_reachable a handlers y \<Longrightarrow> ipc_reachable a handlers (y\<lparr>sy_server := server_continue a (sy_server y)\<rparr>)"
| client_receives: "ipc_reachable a handlers y \<Longrightarrow> sy_received y < length (ss_outbound (sy_server y)) \<Longrightarrow> m = ss_outbound (sy_server y) ! sy_received y \<Longrightarrow>
    ipc_reachable a handlers (y\<lparr>sy_received := sy_received y + 1, sy_dispatched := sy_dispatched y @ [(m, client_message a m (sy_client y))]\<rparr>)"

definition token_at :: "nat \<Rightarrow> u64" where
  "token_at k = of_nat (k + 1)"

definition answers_to :: "(u32, handler) umap \<Rightarrow> u32 \<times> bytes \<times> 'x \<Rightarrow> (u32 \<times> bytes) list" where
  "answers_to handlers r = (case um_find handlers (fst r) of None \<Rightarrow> [] | Some h \<Rightarrow> answers (h (fst (snd r))))"

lemma token_at_inj: "i < 2 ^ 64 - 1 \<Longrightarrow> j < 2 ^ 64 - 1 \<Longrightarrow> token_at i = token_at j \<longleftrightarrow> i = j"
proof -
  assume "i < 2 ^ 64 - 1" "j < 2 ^ 64 - 1"
  then have "unat (token_at i) = i + 1" "unat (token_at j) = j + 1"
    unfolding token_at_def by (simp_all add: unsigned_of_nat take_bit_nat_eq_self del: of_nat_Suc of_nat_add)
  then show "token_at i = token_at j \<longleftrightarrow> i = j" by (metis add_right_cancel)
qed

subsection \<open>The client side\<close>

lemma fold_add_callback:
  "fold (\<lambda>(i, c) (h, s). (Response_Key i token # h, add_callback i c token s)) cbs (h, s) =
     (rev (map (\<lambda>(i, c). Response_Key i token) cbs) @ h,
      s\<lparr>cs_callbacks := fold (\<lambda>(i, c). um_insert (i, token) c) cbs (cs_callbacks s)\<rparr>)"
  by (induction cbs arbitrary: h s) (auto simp: add_callback_def)

lemma fold_insert_find:
  "um_find (fold (\<lambda>(i, c). um_insert (i, token) c) cbs m) (i, t) =
     (case um_find m (i, t) of Some c \<Rightarrow> Some c | None \<Rightarrow> if t = token then map_of cbs i else None)"
  by (induction cbs arbitrary: m) (auto simp: dict_simps split: option.splits if_splits)

lemma request_multi_effect:
  assumes "request_multi a h i payload cbs s = (h', s')"
  shows "s' = s\<lparr>cs_token := cs_token s + 1, cs_callbacks := fold (\<lambda>(i, c). um_insert (i, cs_token s) c) cbs (cs_callbacks s),
    cs_outbound := cs_outbound s @ [encode a (cs_token s) (i, payload)]\<rparr>"
  using assms by (auto simp: request_multi_def request_internal_def Let_def fold_add_callback encode_def)

text \<open>A response with a known token is dispatched by its own identifier alone.\<close>

lemma client_message_encoded:
  assumes "archive_ok a" "cs_message_callbacks s = []"
  shows "client_message a (encode a t ic) s = (case um_find (cs_callbacks s) (fst ic, t) of Some c \<Rightarrow> Call c (snd ic) | None \<Rightarrow> Not_Expected)"
proof -
  have "list_ex (\<lambda>((i, _), _). i = fst ic) (cs_callbacks s)" if "um_find (cs_callbacks s) (fst ic, t) = Some c" for c
    using map_of_SomeD [OF that] by (auto simp: list_ex_iff intro!: bexI)
  with assms show ?thesis by (auto simp: client_message_def encode_def archive_ok_def split: option.splits)
qed

definition client_ok :: "archive \<Rightarrow> (u32 \<times> bytes \<times> (u32 \<times> 'c) list) list \<Rightarrow> 'c client_session \<Rightarrow> bool" where
  "client_ok a rs c \<longleftrightarrow> cs_token c = token_at (length rs) \<and> cs_message_callbacks c = [] \<and>
     cs_outbound c = map (\<lambda>k. encode a (token_at k) (fst (rs ! k), fst (snd (rs ! k)))) [0..<length rs] \<and>
     (\<forall>k<length rs. \<forall>i. um_find (cs_callbacks c) (i, token_at k) = map_of (snd (snd (rs ! k))) i) \<and>
     (\<forall>i t. t \<notin> token_at ` {..<length rs} \<longrightarrow> um_find (cs_callbacks c) (i, t) = None)"

lemma token_fresh: "n < 2 ^ 64 - 1 \<Longrightarrow> token_at n \<notin> token_at ` {..<n}"
  by (auto simp: token_at_inj)

lemma client_asks_ok:
  assumes "client_ok a rs c" "request_multi a [] i payload cbs c = (h, c')" "length rs < 2 ^ 64 - 1"
  shows "client_ok a (rs @ [(i, payload, cbs)]) c'"
    "k < length rs \<Longrightarrow> um_find (cs_callbacks c') (j, token_at k) = um_find (cs_callbacks c) (j, token_at k)"
proof -
  note c' = request_multi_effect [OF assms(2)]
  have t: "cs_token c = token_at (length rs)" "cs_message_callbacks c = []" using assms(1) by (simp_all add: client_ok_def)
  have f: "token_at (length rs) \<notin> token_at ` {..<length rs}" using assms(3) by (rule token_fresh)
  have find: "um_find (cs_callbacks c') (j, t) = (case um_find (cs_callbacks c) (j, t) of Some x \<Rightarrow> Some x | None \<Rightarrow> if t = token_at (length rs) then map_of cbs j else None)" for j t
    by (simp add: c' t fold_insert_find)
  show old: "um_find (cs_callbacks c') (j, token_at k) = um_find (cs_callbacks c) (j, token_at k)" if "k < length rs" for k j
  proof -
    have "token_at k \<noteq> token_at (length rs)" using f that by (metis image_eqI lessThan_iff)
    then show ?thesis by (simp add: find split: option.splits)
  qed
  have new: "um_find (cs_callbacks c') (j, token_at (length rs)) = map_of cbs j" for j
    using assms(1) f by (simp add: find client_ok_def)
  have "um_find (cs_callbacks c') (j, token_at k) = map_of (snd (snd ((rs @ [(i, payload, cbs)]) ! k))) j" if "k < Suc (length rs)" for k j
    using that old [of k j] new assms(1) by (cases "k < length rs") (auto simp: client_ok_def nth_append less_Suc_eq)
  moreover have "um_find (cs_callbacks c') (j, t) = None" if "t \<notin> token_at ` {..<Suc (length rs)}" for j t
    using that assms(1) by (auto simp: find client_ok_def lessThan_Suc)
  moreover have "cs_token c' = token_at (Suc (length rs))" by (simp add: c' t token_at_def)
  moreover have "cs_outbound c' = map (\<lambda>k. encode a (token_at k) (fst ((rs @ [(i, payload, cbs)]) ! k), fst (snd ((rs @ [(i, payload, cbs)]) ! k)))) [0..<Suc (length rs)]"
    using assms(1) by (simp add: c' t client_ok_def nth_append)
  ultimately show "client_ok a (rs @ [(i, payload, cbs)]) c'" using t by (simp add: client_ok_def c')
qed

subsection \<open>The server side\<close>

definition server_ok :: "archive \<Rightarrow> (u32, handler) umap \<Rightarrow> (u32 \<times> bytes \<times> (u32 \<times> 'c) list) list \<Rightarrow> nat \<Rightarrow> server_session \<Rightarrow> bool" where
  "server_ok a handlers rs n v \<longleftrightarrow> ss_handlers v = handlers \<and> ss_apartment v \<and> n \<le> length rs \<and>
     distinct (map fst (ss_scheduled v)) \<and> fst ` set (ss_scheduled v) \<subseteq> token_at ` {..<n} \<and>
     (\<forall>k<length rs. sent_for a (token_at k) v @ pending_for a (token_at k) v = (if k < n then map (encode a (token_at k)) (answers_to handlers (rs ! k)) else [])) \<and>
     (\<forall>m\<in>set (ss_outbound v). \<exists>k<n. \<exists>ic. m = encode a (token_at k) ic)"

lemma server_continues_ok:
  assumes "server_ok a handlers rs n v" "archive_ok a"
  shows "server_ok a handlers rs n (server_continue a v)" "\<exists>ms. ss_outbound (server_continue a v) = ss_outbound v @ ms"
proof -
  have d: "distinct (map fst (ss_scheduled v))" using assms(1) by (simp add: server_ok_def)
  note t = continue_tokens [OF d, of a]
  show "\<exists>ms. ss_outbound (server_continue a v) = ss_outbound v @ ms"
    by (auto simp: server_continue_def run_response_deferrable split: list.splits)
  have "\<exists>k<n. \<exists>ic. m = encode a (token_at k) ic" if "m \<in> set (ss_outbound (server_continue a v))" for m
  proof (cases "m \<in> set (ss_outbound v)")
    case True
    with assms(1) show ?thesis by (simp add: server_ok_def)
  next
    case False
    with that obtain token k rest where "ss_scheduled v = (token, k) # rest" "m \<in> set (map (encode a token) (responses_now k))"
      by (auto simp: server_continue_def run_response_deferrable split: list.splits)
    moreover from this assms(1) have "token \<in> token_at ` {..<n}" by (simp add: server_ok_def)
    ultimately show ?thesis by auto
  qed
  moreover have "fst ` set (ss_scheduled (server_continue a v)) \<subseteq> token_at ` {..<n}" using t(1) assms(1) by (auto simp: server_ok_def)
  ultimately show "server_ok a handlers rs n (server_continue a v)"
    using assms(1) t continue_accounts [OF assms(2) d] by (simp add: server_ok_def)
qed

lemma server_serves_ok:
  assumes ok: "server_ok a handlers rs n v" and a: "archive_ok a" and n: "n < length rs" "length rs < 2 ^ 64 - 1"
    and m: "server_message a (encode a (token_at n) (fst (rs ! n), fst (snd (rs ! n)))) v = (e, v')"
  shows "server_ok a handlers rs (Suc n) v'" "\<exists>ms. ss_outbound v' = ss_outbound v @ ms"
proof -
  let ?t = "token_at n" and ?r = "rs ! n"
  have h: "ss_handlers v = handlers" "ss_apartment v" using ok by (simp_all add: server_ok_def)
  have fresh: "?t \<notin> token_at ` {..<n}" using n by (intro token_fresh) simp
  then have sch: "?t \<notin> fst ` set (ss_scheduled v)" using ok by (auto simp: server_ok_def)
  obtain calls where c: "snd (run_response a ?t True calls v) = v' \<and> answers calls = answers_to handlers ?r \<or> v' = v \<and> answers_to handlers ?r = [] \<and> calls = []"
  proof (cases "um_find handlers (fst ?r)")
    case None
    then show ?thesis using m a h by (intro that [of "[]"]) (simp add: server_message_def encode_def archive_ok_def answers_to_def)
  next
    case (Some f)
    then show ?thesis using m a h by (intro that [of "f (fst (snd ?r))"]) (simp add: server_message_def encode_def archive_ok_def answers_to_def)
  qed
  have acc: "sent_for a t v' @ pending_for a t v' = sent_for a t v @ pending_for a t v @ (if ?t = t then map (encode a t) (answers_to handlers ?r) else [])" for t
    using c run_response_accounts [OF a sch, of t calls] by auto
  have one: "sent_for a (token_at k) v' @ pending_for a (token_at k) v' = (if k < Suc n then map (encode a (token_at k)) (answers_to handlers (rs ! k)) else [])"
    if "k < length rs" for k
  proof -
    have "?t = token_at k \<longleftrightarrow> n = k" using that n by (intro token_at_inj) auto
    then show ?thesis using ok that by (auto simp: acc server_ok_def)
  qed
  have out: "ss_outbound v' = ss_outbound v \<or> ss_outbound v' = ss_outbound v @ map (encode a ?t) (responses_now calls)"
    using c by (auto simp: run_response_deferrable)
  have sc: "fst ` set (ss_scheduled v') \<subseteq> insert ?t (fst ` set (ss_scheduled v))" "distinct (map fst (ss_scheduled v'))"
    using c scheduled_tokens(1) [of a ?t calls v] scheduled_tokens(2) [of v ?t a calls] sch ok by (auto simp: server_ok_def)
  have rest: "ss_handlers v' = handlers" "ss_apartment v'" using c h by (auto simp: run_response_deferrable)
  show "\<exists>ms. ss_outbound v' = ss_outbound v @ ms" using out by auto
  have "\<exists>k<Suc n. \<exists>ic. m = encode a (token_at k) ic" if "m \<in> set (ss_outbound v')" for m
  proof (cases "m \<in> set (ss_outbound v)")
    case True
    with ok show ?thesis by (meson server_ok_def less_SucI)
  next
    case False
    with that out have "m \<in> encode a ?t ` set (responses_now calls)" by auto
    then obtain ic where "m = encode a ?t ic" by blast
    then show ?thesis by blast
  qed
  moreover have "fst ` set (ss_scheduled v') \<subseteq> token_at ` {..<Suc n}" using sc(1) ok by (auto simp: server_ok_def lessThan_Suc)
  ultimately show "server_ok a handlers rs (Suc n) v'" using one rest sc(2) n(1) by (simp add: server_ok_def)
qed

lemma server_asked_ok:
  assumes ok: "server_ok a handlers rs n v" and a: "archive_ok a" and l: "length rs < 2 ^ 64 - 1"
  shows "server_ok a handlers (rs @ [r]) n v"
proof -
  let ?t = "token_at (length rs)"
  have fresh: "?t \<notin> token_at ` {..<length rs}" using l by (rule token_fresh)
  have le: "n \<le> length rs" using ok by (simp add: server_ok_def)
  have "token_of a m \<noteq> Some ?t" if "m \<in> set (ss_outbound v)" for m
  proof -
    obtain k ic where "k < n" "m = encode a (token_at k) ic" using ok \<open>m \<in> set (ss_outbound v)\<close> by (auto simp: server_ok_def)
    with le l show ?thesis using a token_at_inj [of k "length rs"] by (simp add: token_of_encode)
  qed
  then have "sent_for a ?t v = []" by (auto simp: sent_for_def filter_empty_conv)
  moreover have "?t \<notin> fst ` set (ss_scheduled v)" using ok fresh le by (auto simp: server_ok_def)
  then have "pending_for a ?t v = []" unfolding pending_for_def by (rule pending_absent)
  ultimately show ?thesis using ok le by (auto simp: server_ok_def nth_append less_Suc_eq)
qed

subsection \<open>Both sides\<close>

definition ipc_ok :: "archive \<Rightarrow> (u32, handler) umap \<Rightarrow> 'c ipc_system \<Rightarrow> bool" where
  "ipc_ok a handlers y \<longleftrightarrow> client_ok a (sy_requests y) (sy_client y) \<and> server_ok a handlers (sy_requests y) (sy_served y) (sy_server y) \<and>
     sy_received y \<le> length (ss_outbound (sy_server y)) \<and>
     sy_dispatched y = map (\<lambda>m. (m, client_message a m (sy_client y))) (take (sy_received y) (ss_outbound (sy_server y)))"

lemma ipc_asks_ok:
  assumes ok: "ipc_ok a handlers y" and a: "archive_ok a" and l: "length (sy_requests y) < 2 ^ 64 - 1"
    and r: "request_multi a [] i payload cbs (sy_client y) = (h, c)"
  shows "ipc_ok a handlers (y\<lparr>sy_client := c, sy_requests := sy_requests y @ [(i, payload, cbs)]\<rparr>)"
proof -
  have cl: "client_ok a (sy_requests y) (sy_client y)" and sv: "server_ok a handlers (sy_requests y) (sy_served y) (sy_server y)"
    using ok by (simp_all add: ipc_ok_def)
  note c = client_asks_ok [OF cl r l]
  have mc: "cs_message_callbacks c = []" "cs_message_callbacks (sy_client y) = []" using c(1) cl by (simp_all add: client_ok_def)
  have "client_message a m c = client_message a m (sy_client y)" if m: "m \<in> set (ss_outbound (sy_server y))" for m
  proof -
    obtain k ic where "k < sy_served y" "m = encode a (token_at k) ic" using sv m by (auto simp: server_ok_def)
    moreover have "sy_served y \<le> length (sy_requests y)" using sv by (simp add: server_ok_def)
    ultimately show ?thesis by (simp add: client_message_encoded [OF a] mc c(2))
  qed
  then have "map (\<lambda>m. (m, client_message a m c)) (take (sy_received y) (ss_outbound (sy_server y))) =
      map (\<lambda>m. (m, client_message a m (sy_client y))) (take (sy_received y) (ss_outbound (sy_server y)))"
    by (auto dest: in_set_takeD)
  with ok c(1) server_asked_ok [OF sv a l] show ?thesis by (simp add: ipc_ok_def)
qed

lemma ipc_server_moves:
  assumes "ipc_ok a handlers y" "server_ok a handlers (sy_requests y) n v" "\<exists>ms. ss_outbound v = ss_outbound (sy_server y) @ ms"
  shows "ipc_ok a handlers (y\<lparr>sy_server := v, sy_served := n\<rparr>)"
  using assms by (auto simp: ipc_ok_def)

lemma ipc_reachable_ok:
  "ipc_reachable a handlers y \<Longrightarrow> archive_ok a \<Longrightarrow> length (sy_requests y) < 2 ^ 64 - 1 \<Longrightarrow> ipc_ok a handlers y"
proof (induction rule: ipc_reachable.induct)
  case session_start
  show ?case by (simp add: ipc_ok_def ipc_start_def client_ok_def server_ok_def client_session_init_def token_at_def)
next
  case (client_asks y i payload cbs h c)
  then show ?case by (intro ipc_asks_ok) simp_all
next
  case (server_serves y e v)
  let ?rs = "sy_requests y" and ?n = "sy_served y"
  have ok: "ipc_ok a handlers y" using server_serves by simp
  have out: "cs_outbound (sy_client y) = map (\<lambda>k. encode a (token_at k) (fst (?rs ! k), fst (snd (?rs ! k)))) [0..<length ?rs]"
    using ok by (simp add: ipc_ok_def client_ok_def)
  have n: "?n < length ?rs" using server_serves.hyps(2) by (simp add: out)
  have "server_message a (encode a (token_at ?n) (fst (?rs ! ?n), fst (snd (?rs ! ?n)))) (sy_server y) = (e, v)"
    using server_serves.hyps(3) n by (simp add: out)
  with server_serves_ok [of a handlers ?rs ?n "sy_server y" e v] ok n server_serves.prems
  show ?case using ipc_server_moves [OF ok, of "Suc ?n" v] by (simp add: ipc_ok_def)
next
  case (server_continues y)
  then have ok: "ipc_ok a handlers y" by simp
  with server_continues_ok [of a handlers "sy_requests y" "sy_served y" "sy_server y"] server_continues.prems(1)
  show ?case using ipc_server_moves [OF ok, of "sy_served y" "server_continue a (sy_server y)"] by (simp add: ipc_ok_def)
next
  case (client_receives y m)
  then show ?case by (simp add: ipc_ok_def take_Suc_conv_app_nth)
qed

text \<open>
  C15. Every request gets its own answers. When all messages have arrived and the server has nothing left
  to run, then for each request of the client, in whatever order requests, continuations and responses
  went, the messages with its token were exactly the answers of its handler, immediate and deferred ones, in
  their order, and each of them called the callback registered for its identifier with that request, or
  nothing if there was none. The serialization library reads back what it writes.
\<close>

theorem requests_get_their_answers:
  assumes "ipc_reachable a handlers y" "archive_ok a" "length (sy_requests y) < 2 ^ 64 - 1"
    and idle: "sy_served y = length (sy_requests y)" "ss_scheduled (sy_server y) = []" "sy_received y = length (ss_outbound (sy_server y))"
    and k: "k < length (sy_requests y)" "sy_requests y ! k = (i, payload, cbs)"
  shows "map snd (filter (\<lambda>(m, _). token_of a m = Some (token_at k)) (sy_dispatched y)) =
    map (\<lambda>(i, content). case map_of cbs i of Some c \<Rightarrow> Call c content | None \<Rightarrow> Not_Expected) (answers_to handlers (i, payload, cbs))"
proof -
  let ?c = "sy_client y" and ?v = "sy_server y" and ?t = "token_at k"
  have ok: "ipc_ok a handlers y" using assms(1-3) by (rule ipc_reachable_ok)
  then have cl: "client_ok a (sy_requests y) ?c" and sv: "server_ok a handlers (sy_requests y) (sy_served y) ?v" by (simp_all add: ipc_ok_def)
  have sent: "filter (\<lambda>m. token_of a m = Some ?t) (ss_outbound ?v) = map (encode a ?t) (answers_to handlers (i, payload, cbs))"
    using sv k idle(1,2) by (auto simp: server_ok_def sent_for_def pending_for_def)
  have "sy_dispatched y = map (\<lambda>m. (m, client_message a m ?c)) (ss_outbound ?v)" using ok idle(3) by (simp add: ipc_ok_def)
  then have "map snd (filter (\<lambda>(m, _). token_of a m = Some ?t) (sy_dispatched y)) =
      map (\<lambda>m. client_message a m ?c) (filter (\<lambda>m. token_of a m = Some ?t) (ss_outbound ?v))"
    by (simp add: filter_map o_def)
  also have "\<dots> = map (\<lambda>ic. client_message a (encode a ?t ic) ?c) (answers_to handlers (i, payload, cbs))" by (simp add: sent o_def)
  also have "\<dots> = map (\<lambda>(i, content). case map_of cbs i of Some c \<Rightarrow> Call c content | None \<Rightarrow> Not_Expected) (answers_to handlers (i, payload, cbs))"
  proof -
    have "cs_message_callbacks ?c = []" "\<And>j. um_find (cs_callbacks ?c) (j, ?t) = map_of cbs j" using cl k by (auto simp: client_ok_def)
    then show ?thesis by (simp add: client_message_encoded [OF assms(2)] split_def)
  qed
  finally show ?thesis .
qed

text \<open>A library that writes numbers in unary, and a server that answers its first request later.\<close>

definition read_unary :: "bytes \<Rightarrow> ('n::len word \<times> bytes) option" where
  "read_unary bs = (let n = length (takeWhile (\<lambda>b. b = 1) bs) in if n < length bs then Some (of_nat n, drop (Suc n) bs) else None)"

definition unary :: archive where
  "unary = \<lparr>write_id = (\<lambda>i. replicate (unat i) 1 @ [0]), read_id = read_unary, write_token = (\<lambda>t. replicate (unat t) 1 @ [0]), read_token = read_unary\<rparr>"

lemma read_unary_replicate: "read_unary (replicate (unat w) 1 @ 0 # rest) = Some (w, rest)" for w :: "'n::len word"
proof -
  have "takeWhile (\<lambda>b :: u8. b = 1) (replicate n 1 @ 0 # rest) = replicate n 1" for n by (induction n) auto
  then show ?thesis by (simp add: read_unary_def Let_def)
qed

lemma unary_ok: "archive_ok unary"
  by (simp add: archive_ok_def unary_def read_unary_replicate)

definition late_handlers :: "(u32, handler) umap" where
  "late_handlers = [(1, \<lambda>p. [Defer [Respond 2 p]])]"

theorem requests_get_their_answers_witness:
  "\<exists>y :: string ipc_system. ipc_reachable unary late_handlers y \<and>
     map snd (filter (\<lambda>(m, _). token_of unary m = Some (token_at 0)) (sy_dispatched y)) = [Call ''done'' [7]]"
proof -
  let ?y0 = "ipc_start late_handlers :: string ipc_system"
  let ?c = "\<lparr>cs_token = 2, cs_callbacks = [((2, 1), ''done'')], cs_message_callbacks = [], cs_outbound = [encode unary 1 (1, [7])]\<rparr> :: string client_session"
  let ?v1 = "\<lparr>ss_handlers = late_handlers, ss_apartment = True, ss_scheduled = [(1, [Respond 2 [7]])], ss_outbound = []\<rparr>"
  let ?v2 = "\<lparr>ss_handlers = late_handlers, ss_apartment = True, ss_scheduled = [], ss_outbound = [encode unary 1 (2, [7])]\<rparr>"
  let ?rs = "[(1, [7], [(2, ''done'')])] :: (u32 \<times> bytes \<times> (u32 \<times> string) list) list"
  have y0: "ipc_reachable unary late_handlers ?y0" by (rule session_start)
  have "\<exists>h. request_multi unary [] 1 [7] [(2, ''done'')] (sy_client ?y0) = (h, ?c)"
    by (simp add: request_multi_def request_internal_def add_callback_def ipc_start_def client_session_init_def um_insert_def encode_def)
  then obtain h where "request_multi unary [] 1 [7] [(2, ''done'')] (sy_client ?y0) = (h, ?c)" by blast
  from client_asks [OF y0 this] have y1: "ipc_reachable unary late_handlers (?y0\<lparr>sy_client := ?c, sy_requests := ?rs\<rparr>)" by (simp add: ipc_start_def)
  have m: "read_id unary (encode unary t (i, x)) = Some (i, write_token unary t @ x)" "read_token unary (write_token unary t @ x) = Some (t, x)" for t i x
    using unary_ok by (simp_all add: encode_def archive_ok_def)
  have "server_message unary (encode unary 1 (1, [7])) (sy_server ?y0) = (None, ?v1)"
    by (simp add: server_message_def m ipc_start_def late_handlers_def run_response_def)
  with server_serves [OF y1, of None ?v1]
  have y2: "ipc_reachable unary late_handlers (?y0\<lparr>sy_client := ?c, sy_requests := ?rs, sy_server := ?v1, sy_served := 1\<rparr>)" by (simp add: ipc_start_def)
  have "server_continue unary ?v1 = ?v2" by (simp add: server_continue_def run_response_deferrable)
  with server_continues [OF y2]
  have y3: "ipc_reachable unary late_handlers (?y0\<lparr>sy_client := ?c, sy_requests := ?rs, sy_server := ?v2, sy_served := 1\<rparr>)" by (simp add: ipc_start_def)
  from client_receives [OF y3, of "encode unary 1 (2, [7])"]
  obtain d where y4: "ipc_reachable unary late_handlers (?y0\<lparr>sy_client := ?c, sy_requests := ?rs, sy_server := ?v2, sy_served := 1, sy_received := 1, sy_dispatched := d\<rparr>)"
    by (auto simp: ipc_start_def)
  from requests_get_their_answers [OF y4 unary_ok, of 0 1 "[7]" "[(2, ''done'')]"] y4 show ?thesis
    by (auto simp: answers_to_def late_handlers_def answers.simps)
qed

section \<open>Ends and edges\<close>

text \<open>
  The queue of the server runs dry: whatever was deferred, after finitely many turns nothing is
  scheduled any more.
\<close>

theorem deferring_ends: "\<exists>n. ss_scheduled ((server_continue a ^^ n) v) = []"
proof (induction "sum_list (map (\<lambda>(t, k). Suc (size_list size k)) (ss_scheduled v))" arbitrary: v rule: less_induct)
  case less
  show ?case
  proof (cases "ss_scheduled v")
    case Nil
    then show ?thesis by (intro exI [of _ 0]) simp
  next
    case (Cons tk rest)
    obtain token k where tk: "tk = (token, k)" by (cases tk)
    have "sum_list (map (\<lambda>(t, k). Suc (size_list size k)) (ss_scheduled (server_continue a v))) <
        sum_list (map (\<lambda>(t, k). Suc (size_list size k)) (ss_scheduled v))"
      by (auto simp: server_continue_def run_response_deferrable Cons tk split: option.splits dest: size_last_defer)
    from less [OF this] obtain n where "ss_scheduled ((server_continue a ^^ n) (server_continue a v)) = []" by blast
    then show ?thesis by (intro exI [of _ "Suc n"]) (simp add: funpow_swap1)
  qed
qed

text \<open>
  A second subscription to the same message is not entered, but its handle erases the first one.
\<close>

lemma second_subscription_is_lost:
  assumes "um_find (cs_message_callbacks s) i = Some c"
  shows "um_find (cs_message_callbacks (snd (subscribe [] i c' s))) i = Some c \<and>
    um_find (cs_message_callbacks (release (fst (subscribe [] i c' s)) (snd (subscribe [] i c' s)))) i = None"
  using assms by (simp add: subscribe_def release_def um_insert_def dict_simps)

text \<open>Renewing a subscription with the handle that holds it leaves none.\<close>

lemma renewed_subscription_is_lost: "um_find (cs_message_callbacks (snd (subscribe [Message_Key i] i c s))) i = None"
  by (simp add: subscribe_def release_def dict_simps)

end
