(* ===== verification/Marshalled_Sessions.thy ===== *)
theory Marshalled_Sessions
  imports Prelude
begin

text \<open>
  Sessions that live on another thread: \<^verbatim>\<open>ipc/src/marshalled_session.cpp\<close> (the passive one) and
  \<^verbatim>\<open>ipc/src/marshalled_server.cpp\<close> with \<^verbatim>\<open>ipc/src/lifetime.h\<close>. A connection thread calls the marshalled
  session; the queue of the apartment runs its tasks in order; the underlying session answers from
  there. A task of a \<^verbatim>\<open>lifetime\<close> runs under its mutex, so that it happens before or after the lifetime is
  marked as destroyed, never during. What the underlying session sees is kept as a trace.
\<close>

type_synonym bytes = "u8 list"

datatype session_event = Session_Created | Session_Message bytes | Session_Disconnect | Session_Destroyed

text \<open>A guarded task runs while the lifetime is; the last one drops the reference it was given.\<close>

datatype apartment_task = Guarded session_event | Drop_Session bool

record marshalled_session =
  mp_alive :: bool
  mp_underlying :: bool
  mp_outbound_alive :: bool
  mp_queue :: "apartment_task list"
  mp_trace :: "session_event list"
  mp_forwarded :: "bytes option list"
  mp_sent :: "session_event list"

definition schedule_safe :: "session_event \<Rightarrow> marshalled_session \<Rightarrow> marshalled_session" where
  "schedule_safe e s = s\<lparr>mp_queue := mp_queue s @ [Guarded e]\<rparr>"

definition create_underlying :: "marshalled_session \<Rightarrow> marshalled_session" where
  "create_underlying s = schedule_safe Session_Created s"

definition marshalled_session_new :: marshalled_session where
  "marshalled_session_new =
     \<lparr>mp_alive = True, mp_underlying = False, mp_outbound_alive = True, mp_queue = [], mp_trace = [], mp_forwarded = [], mp_sent = []\<rparr>"

definition ms_message :: "bytes \<Rightarrow> marshalled_session \<Rightarrow> marshalled_session" where
  "ms_message payload s = (schedule_safe (Session_Message payload) s)\<lparr>mp_sent := mp_sent s @ [Session_Message payload]\<rparr>"

definition ms_disconnect :: "marshalled_session \<Rightarrow> marshalled_session" where
  "ms_disconnect s = (schedule_safe Session_Disconnect s)\<lparr>mp_sent := mp_sent s @ [Session_Disconnect]\<rparr>"

definition outbound_stop :: "marshalled_session \<Rightarrow> marshalled_session" where
  "outbound_stop s = s\<lparr>mp_outbound_alive := False\<rparr>"

definition schedule_destroy :: "marshalled_session \<Rightarrow> marshalled_session" where
  "schedule_destroy s = s\<lparr>mp_underlying := False, mp_queue := mp_queue s @ [Drop_Session (mp_underlying s)]\<rparr>"

definition ms_delete :: "marshalled_session \<Rightarrow> marshalled_session" where
  "ms_delete s = schedule_destroy (outbound_stop (s\<lparr>mp_alive := False\<rparr>))"

text \<open>The wrapper the underlying session talks to; \<open>None\<close> is a disconnection.\<close>

definition outbound_call :: "bytes option \<Rightarrow> marshalled_session \<Rightarrow> marshalled_session" where
  "outbound_call m s = (if mp_outbound_alive s then s\<lparr>mp_forwarded := mp_forwarded s @ [m]\<rparr> else s)"

text \<open>The queue runs its next task.\<close>

fun run_task :: "apartment_task \<Rightarrow> marshalled_session \<Rightarrow> marshalled_session" where
  "run_task (Guarded e) s =
     (if mp_alive s then s\<lparr>mp_trace := mp_trace s @ [e], mp_underlying := mp_underlying s \<or> e = Session_Created\<rparr> else s)"
| "run_task (Drop_Session held) s = (if held then s\<lparr>mp_trace := mp_trace s @ [Session_Destroyed]\<rparr> else s)"

definition run_next :: "marshalled_session \<Rightarrow> marshalled_session" where
  "run_next s = (case mp_queue s of [] \<Rightarrow> s | t # ts \<Rightarrow> run_task t (s\<lparr>mp_queue := ts\<rparr>))"

section \<open>The server\<close>

record marshalled_server =
  mv_alive :: bool
  mv_underlying :: bool

definition marshalled_server_new :: marshalled_server where
  "marshalled_server_new = \<lparr>mv_alive = True, mv_underlying = True\<rparr>"

definition server_stop :: "marshalled_server \<Rightarrow> marshalled_server" where
  "server_stop v = v\<lparr>mv_alive := False, mv_underlying := False\<rparr>"

definition create_session :: "marshalled_server \<Rightarrow> marshalled_session option" where
  "create_session v = (if mv_alive v then Some (create_underlying marshalled_session_new) else None)"

section \<open>Runs\<close>

text \<open>The connection calls a session until it deletes it; the apartment goes on.\<close>

inductive ms_reachable :: "marshalled_session \<Rightarrow> bool" where
  ms_created: "create_session v = Some s \<Longrightarrow> ms_reachable s"
| ms_messaged: "ms_reachable s \<Longrightarrow> mp_alive s \<Longrightarrow> ms_reachable (ms_message payload s)"
| ms_disconnected: "ms_reachable s \<Longrightarrow> mp_alive s \<Longrightarrow> ms_reachable (ms_disconnect s)"
| ms_deleted: "ms_reachable s \<Longrightarrow> mp_alive s \<Longrightarrow> ms_reachable (ms_delete s)"
| ms_ran: "ms_reachable s \<Longrightarrow> ms_reachable (run_next s)"
| ms_answered: "ms_reachable s \<Longrightarrow> ms_reachable (outbound_call m s)"

section \<open>The invariant\<close>

definition ms_ok :: "nat \<Rightarrow> marshalled_session \<Rightarrow> bool" where
  "ms_ok k s \<longleftrightarrow> k \<le> Suc (length (mp_sent s)) \<and>
     (if mp_alive s then
        mp_trace s = take k (Session_Created # mp_sent s) \<and> mp_queue s = map Guarded (drop k (Session_Created # mp_sent s)) \<and>
        mp_underlying s = (0 < k) \<and> mp_outbound_alive s
      else \<not> mp_outbound_alive s \<and>
        ((\<exists>es. mp_trace s = take k (Session_Created # mp_sent s) \<and> mp_queue s = map Guarded es @ [Drop_Session (0 < k)]) \<or>
         (mp_trace s = take k (Session_Created # mp_sent s) @ (if 0 < k then [Session_Destroyed] else []) \<and> mp_queue s = [])))"

lemma run_next_ok:
  assumes "ms_ok k s" shows "\<exists>k'. ms_ok k' (run_next s)"
proof (cases "mp_alive s")
  case True
  show ?thesis
  proof (cases "k < Suc (length (mp_sent s))")
    case less: True
    let ?xs = "Session_Created # mp_sent s"
    have d: "drop k ?xs = ?xs ! k # drop (Suc k) ?xs" using less by (intro Cons_nth_drop_Suc [symmetric]) simp
    have t: "take (Suc k) ?xs = take k ?xs @ [?xs ! k]" using less by (intro take_Suc_conv_app_nth) simp
    have "?xs ! k = Session_Created" if "k = 0" using that by simp
    moreover have q: "mp_queue s = Guarded (?xs ! k) # map Guarded (drop (Suc k) ?xs)" "mp_trace s = take k ?xs" "mp_underlying s = (0 < k)" "mp_outbound_alive s"
      using assms True unfolding ms_ok_def d by simp_all
    ultimately have "run_next s = s\<lparr>mp_queue := map Guarded (drop (Suc k) ?xs), mp_trace := take (Suc k) ?xs, mp_underlying := True\<rparr>"
      using True unfolding t by (cases "k = 0") (auto simp: run_next_def)
    with True less q(4) have "ms_ok (Suc k) (run_next s)" by (simp add: ms_ok_def)
    then show ?thesis by blast
  next
    case False
    with assms True have "run_next s = s" by (auto simp: ms_ok_def run_next_def)
    with assms show ?thesis by auto
  qed
next
  case False
  with assms consider es where "mp_trace s = take k (Session_Created # mp_sent s)" "mp_queue s = map Guarded es @ [Drop_Session (0 < k)]"
    | "mp_queue s = []" by (auto simp: ms_ok_def)
  then show ?thesis
  proof cases
    case (1 es)
    with False assms have "ms_ok k (run_next s)" by (cases es) (auto simp: ms_ok_def run_next_def)
    then show ?thesis by blast
  next
    case 2
    with assms show ?thesis by (auto simp: run_next_def)
  qed
qed

lemma reachable_ms_ok: "ms_reachable s \<Longrightarrow> \<exists>k. ms_ok k s"
proof (induction rule: ms_reachable.induct)
  case (ms_created v s)
  then have "ms_ok 0 s" by (auto simp: create_session_def create_underlying_def schedule_safe_def marshalled_session_new_def ms_ok_def split: if_splits)
  then show ?case by blast
next
  case (ms_messaged s payload)
  then obtain k where "ms_ok k s" by blast
  with ms_messaged have "ms_ok k (ms_message payload s)" by (auto simp: ms_ok_def ms_message_def schedule_safe_def take_Cons' drop_Cons')
  then show ?case by blast
next
  case (ms_disconnected s)
  then obtain k where "ms_ok k s" by blast
  with ms_disconnected have "ms_ok k (ms_disconnect s)" by (auto simp: ms_ok_def ms_disconnect_def schedule_safe_def take_Cons' drop_Cons')
  then show ?case by blast
next
  case (ms_deleted s)
  then obtain k where "ms_ok k s" by blast
  with ms_deleted have "ms_ok k (ms_delete s)" by (auto simp: ms_ok_def ms_delete_def outbound_stop_def schedule_destroy_def)
  then show ?case by blast
next
  case (ms_ran s)
  then show ?case using run_next_ok by blast
next
  case (ms_answered s m)
  then obtain k where "ms_ok k s" by blast
  then have "ms_ok k (outbound_call m s)" unfolding ms_ok_def outbound_call_def by (cases "mp_alive s") simp_all
  then show ?case by blast
qed

text \<open>
  The underlying session is created first, sees the calls of the connection in their order, and
  nothing after the marshalled session is deleted but its own destruction, on its own thread and once.
  When the queue is empty, it has seen every call if the session is still there, and is gone if it is not.
\<close>

theorem calls_are_marshalled_in_order:
  assumes "ms_reachable s"
  shows "\<exists>k. (mp_trace s = take k (Session_Created # mp_sent s) \<or>
      \<not> mp_alive s \<and> 0 < k \<and> mp_trace s = take k (Session_Created # mp_sent s) @ [Session_Destroyed]) \<and>
    (mp_queue s = [] \<longrightarrow> (if mp_alive s then mp_trace s = Session_Created # mp_sent s
       else mp_trace s = [] \<or> last (mp_trace s) = Session_Destroyed))"
proof -
  obtain k where k: "ms_ok k s" using reachable_ms_ok [OF assms] by blast
  show ?thesis
  proof (intro exI [of _ k] conjI impI)
    show "mp_trace s = take k (Session_Created # mp_sent s) \<or>
      \<not> mp_alive s \<and> 0 < k \<and> mp_trace s = take k (Session_Created # mp_sent s) @ [Session_Destroyed]"
      using k by (auto simp: ms_ok_def split: if_splits)
    assume q: "mp_queue s = []"
    show "if mp_alive s then mp_trace s = Session_Created # mp_sent s else mp_trace s = [] \<or> last (mp_trace s) = Session_Destroyed"
      using k q by (cases "mp_alive s") (auto simp: ms_ok_def split: if_splits)
  qed
qed

theorem calls_are_marshalled_in_order_witness:
  "\<exists>s. ms_reachable s \<and> mp_trace s = [Session_Created, Session_Destroyed] \<and> mp_sent s = [Session_Message [1]]"
proof -
  obtain s0 where s0: "create_session marshalled_server_new = Some s0" by (simp add: create_session_def marshalled_server_new_def)
  let ?s1 = "run_next (ms_message [1] s0)"
  let ?s = "run_next (run_next (ms_delete ?s1))"
  note defs = create_session_def marshalled_server_new_def create_underlying_def schedule_safe_def marshalled_session_new_def ms_message_def run_next_def
    ms_delete_def outbound_stop_def schedule_destroy_def
  have "mp_alive s0" using s0 by (auto simp: defs)
  then have r1: "ms_reachable ?s1" using s0 by (intro ms_ran ms_messaged ms_created)
  moreover have "mp_alive ?s1" using s0 by (auto simp: defs)
  ultimately have r: "ms_reachable ?s" by (blast intro: ms_ran ms_deleted)
  have e: "mp_sent ?s = [Session_Message [1]]" "mp_trace ?s = [Session_Created, Session_Destroyed]" using s0 by (auto simp: defs)
  from calls_are_marshalled_in_order [OF r] have "\<exists>k. mp_trace ?s = take k (Session_Created # mp_sent ?s) \<or>
      \<not> mp_alive ?s \<and> 0 < k \<and> mp_trace ?s = take k (Session_Created # mp_sent ?s) @ [Session_Destroyed]" by blast
  with r e show ?thesis by blast
qed

text \<open>After the session is deleted nothing reaches the connection.\<close>

lemma deleted_session_is_silent: "outbound_call m (ms_delete s) = ms_delete s"
  by (simp add: outbound_call_def ms_delete_def outbound_stop_def schedule_destroy_def)

end
