(* ===== verification/Multiplexing.thy ===== *)
theory Multiplexing
  imports Prelude
begin

text \<open>
  Requests for the same thing share one underlying request: \<^verbatim>\<open>reqm/multiplexing_request.h\<close>. A node of
  the list of callbacks is known by a number, which is what a handle refers to; an empty callback is
  \<open>None\<close>. An invocation walks the list while the callbacks it calls create and release handles.
\<close>

record 'c multiplexing_request =
  mx_callbacks :: "(nat \<times> 'c option) list"
  mx_in_progress :: bool
  mx_require_cleanup :: bool

definition mx_new :: "'c multiplexing_request" where
  "mx_new = \<lparr>mx_callbacks = [], mx_in_progress = False, mx_require_cleanup = False\<rparr>"

type_synonym ('k, 'c) mx_map = "('k, 'c multiplexing_request) umap"

text \<open>The flag tells the caller to start the underlying request.\<close>

definition mx_create :: "'k \<Rightarrow> nat \<Rightarrow> 'c \<Rightarrow> ('k, 'c) mx_map \<Rightarrow> bool \<times> ('k, 'c) mx_map" where
  "mx_create key node callback requests =
     (let mx = (case um_find requests key of None \<Rightarrow> mx_new | Some mx \<Rightarrow> mx)
      in (mx_callbacks mx = [], um_assign key (mx\<lparr>mx_callbacks := mx_callbacks mx @ [(node, Some callback)]\<rparr>) requests))"

definition destroy_if_empty :: "'k \<Rightarrow> 'c multiplexing_request \<Rightarrow> ('k, 'c) mx_map \<Rightarrow> ('k, 'c) mx_map" where
  "destroy_if_empty key mx requests = (if mx_callbacks mx \<noteq> [] then um_assign key mx requests else um_erase key requests)"

definition destroy_inner :: "'k \<Rightarrow> nat \<Rightarrow> ('k, 'c) mx_map \<Rightarrow> ('k, 'c) mx_map" where
  "destroy_inner key node requests =
     (case um_find requests key of
        None \<Rightarrow> requests
      | Some mx \<Rightarrow>
          if mx_in_progress mx then
            um_assign key (mx\<lparr>mx_callbacks := map (\<lambda>(n, c). (n, if n = node then None else c)) (mx_callbacks mx), mx_require_cleanup := True\<rparr>) requests
          else destroy_if_empty key (mx\<lparr>mx_callbacks := filter (\<lambda>(n, c). n \<noteq> node) (mx_callbacks mx)\<rparr>) requests)"

definition enter_invocation :: "'k \<Rightarrow> ('k, 'c) mx_map \<Rightarrow> ('k, 'c) mx_map" where
  "enter_invocation key requests =
     (case um_find requests key of None \<Rightarrow> requests | Some mx \<Rightarrow> um_assign key (mx\<lparr>mx_in_progress := True\<rparr>) requests)"

definition exit_invocation :: "'k \<Rightarrow> ('k, 'c) mx_map \<Rightarrow> ('k, 'c) mx_map" where
  "exit_invocation key requests =
     (case um_find requests key of
        None \<Rightarrow> requests
      | Some mx \<Rightarrow>
          let mx = (if mx_require_cleanup mx
                    then mx\<lparr>mx_callbacks := filter (\<lambda>(n, c). c \<noteq> None) (mx_callbacks mx), mx_require_cleanup := False\<rparr> else mx)
          in destroy_if_empty key (mx\<lparr>mx_in_progress := False\<rparr>) requests)"

text \<open>The loop of \<^verbatim>\<open>invoke\<close> stands at the \<open>i\<close>-th callback.\<close>

definition invoke_at :: "'k \<Rightarrow> nat \<Rightarrow> ('k, 'c) mx_map \<Rightarrow> 'c option" where
  "invoke_at key i requests = Option.bind (um_find requests key) (\<lambda>mx. snd (mx_callbacks mx ! i))"

section \<open>Runs\<close>

text \<open>
  The requests with the handles there are, the invocations under way (with the position of each), and the
  callbacks called so far, each with its node. An invocation does not start inside another one of the same request.
\<close>

record ('k, 'c) mx_run =
  mr_requests :: "('k, 'c) mx_map"
  mr_nodes :: nat
  mr_handles :: "('k \<times> nat \<times> 'c) set"
  mr_cursors :: "('k, nat) umap"
  mr_called :: "('k \<times> nat \<times> 'c) list"

definition mr_start :: "('k, 'c) mx_run" where
  "mr_start = \<lparr>mr_requests = [], mr_nodes = 0, mr_handles = {}, mr_cursors = [], mr_called = []\<rparr>"

definition mx_of :: "('k, 'c) mx_map \<Rightarrow> 'k \<Rightarrow> 'c multiplexing_request" where
  "mx_of requests key = (case um_find requests key of None \<Rightarrow> mx_new | Some mx \<Rightarrow> mx)"

inductive mx_step :: "('k, 'c) mx_run \<Rightarrow> ('k, 'c) mx_run \<Rightarrow> bool" where
  created: "mx_create key (mr_nodes r) c (mr_requests r) = (u, m) \<Longrightarrow>
    mx_step r (r\<lparr>mr_requests := m, mr_nodes := Suc (mr_nodes r), mr_handles := insert (key, mr_nodes r, c) (mr_handles r)\<rparr>)"
| released: "(key, n, c) \<in> mr_handles r \<Longrightarrow>
    mx_step r (r\<lparr>mr_requests := destroy_inner key n (mr_requests r), mr_handles := mr_handles r - {(key, n, c)}\<rparr>)"
| entered: "um_find (mr_requests r) key \<noteq> None \<Longrightarrow> um_find (mr_cursors r) key = None \<Longrightarrow>
    mx_step r (r\<lparr>mr_requests := enter_invocation key (mr_requests r), mr_cursors := um_assign key 0 (mr_cursors r)\<rparr>)"
| advanced: "um_find (mr_cursors r) key = Some i \<Longrightarrow> i < length (mx_callbacks (mx_of (mr_requests r) key)) \<Longrightarrow>
    mx_step r (r\<lparr>mr_cursors := um_assign key (Suc i) (mr_cursors r),
      mr_called := mr_called r @ (case invoke_at key i (mr_requests r) of
          None \<Rightarrow> [] | Some c \<Rightarrow> [(key, fst (mx_callbacks (mx_of (mr_requests r) key) ! i), c)])\<rparr>)"
| left: "um_find (mr_cursors r) key = Some i \<Longrightarrow> \<not> i < length (mx_callbacks (mx_of (mr_requests r) key)) \<Longrightarrow>
    mx_step r (r\<lparr>mr_requests := exit_invocation key (mr_requests r), mr_cursors := um_erase key (mr_cursors r)\<rparr>)"

section \<open>The invariant\<close>

definition mx_ok :: "nat \<Rightarrow> (nat \<times> 'c) set \<Rightarrow> bool \<Rightarrow> 'c multiplexing_request option \<Rightarrow> bool" where
  "mx_ok n hs walking entry \<longleftrightarrow> (case entry of
     None \<Rightarrow> hs = {} \<and> \<not> walking
   | Some mx \<Rightarrow> distinct (map fst (mx_callbacks mx)) \<and> (\<forall>x\<in>fst ` set (mx_callbacks mx). x < n) \<and>
       {(x, c). (x, Some c) \<in> set (mx_callbacks mx)} = hs \<and> mx_in_progress mx = walking \<and> mx_callbacks mx \<noteq> [] \<and>
       (\<not> mx_require_cleanup mx \<longrightarrow> (\<forall>x. (x, None) \<notin> set (mx_callbacks mx))) \<and> (mx_require_cleanup mx \<longrightarrow> walking))"

definition handles_of :: "('k, 'c) mx_run \<Rightarrow> 'k \<Rightarrow> (nat \<times> 'c) set" where
  "handles_of r key = {(n, c). (key, n, c) \<in> mr_handles r}"

definition mr_ok :: "('k, 'c) mx_run \<Rightarrow> bool" where
  "mr_ok r \<longleftrightarrow> (\<forall>key. mx_ok (mr_nodes r) (handles_of r key) (um_find (mr_cursors r) key \<noteq> None) (um_find (mr_requests r) key))"

lemma mx_ok_more: "mx_ok n hs w e \<Longrightarrow> mx_ok (Suc n) hs w e"
  by (force simp: mx_ok_def split: option.splits)

lemma create_ok:
  assumes "mx_ok n hs w (um_find m key)" "mx_create key n c m = (u, m')"
  shows "mx_ok (Suc n) (insert (n, c) hs) w (um_find m' key)" "key' \<noteq> key \<Longrightarrow> um_find m' key' = um_find m key'"
    "u \<longleftrightarrow> um_find m key = None"
  using assms by (force simp: mx_create_def mx_ok_def mx_new_def Let_def dict_simps split: option.splits)+

lemma distinct_node: "distinct (map fst xs) \<Longrightarrow> (n, a) \<in> set xs \<Longrightarrow> (n, b) \<in> set xs \<Longrightarrow> a = b"
  by (metis map_of_is_SomeI option.inject)

lemma release_ok:
  assumes "mx_ok n hs w (um_find m key)" "(x, c) \<in> hs"
  shows "mx_ok n (hs - {(x, c)}) w (um_find (destroy_inner key x m) key)"
proof -
  obtain mx where mx: "um_find m key = Some mx" using assms by (cases "um_find m key") (auto simp: mx_ok_def)
  let ?cs = "mx_callbacks mx"
  have ok: "distinct (map fst ?cs)" "\<forall>x\<in>fst ` set ?cs. x < n" "{(x, c). (x, Some c) \<in> set ?cs} = hs" "mx_in_progress mx = w"
      "\<not> mx_require_cleanup mx \<longrightarrow> (\<forall>x. (x, None) \<notin> set ?cs)" "mx_require_cleanup mx \<longrightarrow> w" "?cs \<noteq> []"
    using assms(1) mx by (simp_all add: mx_ok_def)
  have xc: "(x, Some c) \<in> set ?cs" using assms(2) ok(3) by blast
  have only: "d = Some c" if "(x, d) \<in> set ?cs" for d using distinct_node [OF ok(1) that xc] by simp
  show ?thesis
  proof (cases w)
    case True
    let ?cs' = "map (\<lambda>(n, c). (n, if n = x then None else c)) ?cs"
    have fst: "map fst ?cs' = map fst ?cs" by (rule nth_equalityI) (auto simp: split_def)
    have h: "{(y, d). (y, Some d) \<in> set ?cs'} = hs - {(x, c)}"
    proof -
      have "(y, Some d) \<in> set ?cs' \<longleftrightarrow> y \<noteq> x \<and> (y, Some d) \<in> set ?cs" for y d by (force split: if_splits)
      with only show ?thesis unfolding ok(3) [symmetric] by auto
    qed
    have f: "um_find (destroy_inner key x m) key = Some (mx\<lparr>mx_callbacks := ?cs', mx_require_cleanup := True\<rparr>)"
      using mx ok(4) True by (simp add: destroy_inner_def dict_simps)
    have n: "fst ` set ?cs' = fst ` set ?cs" using fst by (metis list.set_map)
    have "distinct (map fst ?cs')" "\<forall>x\<in>fst ` set ?cs'. x < n" "?cs' \<noteq> []" unfolding fst n using ok by simp_all
    with h True ok(4) show ?thesis unfolding f mx_ok_def by simp
  next
    case False
    let ?cs' = "filter (\<lambda>(n, c). n \<noteq> x) ?cs"
    have d: "distinct (map fst ?cs')" using ok(1) by (simp add: distinct_map_filter)
    have h: "{(y, d). (y, Some d) \<in> set ?cs'} = hs - {(x, c)}" using only unfolding ok(3) [symmetric] by auto
    have none: "(y, None) \<notin> set ?cs" for y using ok(5,6) False by blast
    have f: "um_find (destroy_inner key x m) key = (if ?cs' \<noteq> [] then Some (mx\<lparr>mx_callbacks := ?cs'\<rparr>) else None)"
      using mx ok(4) False by (simp add: destroy_inner_def destroy_if_empty_def dict_simps)
    show ?thesis
    proof (cases "?cs' = []")
      case True
      then have "hs - {(x, c)} = {}" unfolding h [symmetric] by (auto simp: True)
      with True False show ?thesis by (simp add: f mx_ok_def)
    next
      case ne: False
      have "\<forall>y\<in>fst ` set ?cs'. y < n" using ok(2) by auto
      with ne d h none ok False show ?thesis by (simp add: f mx_ok_def)
    qed
  qed
qed

lemma destroy_inner_other: "key' \<noteq> key \<Longrightarrow> um_find (destroy_inner key x m) key' = um_find m key'"
  by (simp add: destroy_inner_def destroy_if_empty_def dict_simps split: option.splits)

lemma enter_ok:
  assumes "mx_ok n hs False (um_find m key)" "um_find m key \<noteq> None"
  shows "mx_ok n hs True (um_find (enter_invocation key m) key)" "key' \<noteq> key \<Longrightarrow> um_find (enter_invocation key m) key' = um_find m key'"
  using assms by (auto simp: mx_ok_def enter_invocation_def dict_simps split: option.splits)

lemma exit_ok:
  assumes "mx_ok n hs True (um_find m key)"
  shows "mx_ok n hs False (um_find (exit_invocation key m) key)" "key' \<noteq> key \<Longrightarrow> um_find (exit_invocation key m) key' = um_find m key'"
proof -
  obtain mx where mx: "um_find m key = Some mx" using assms by (cases "um_find m key") (auto simp: mx_ok_def)
  let ?cs = "mx_callbacks mx" and ?cs' = "filter (\<lambda>(n, c). c \<noteq> None) (mx_callbacks mx)"
  have ok: "distinct (map fst ?cs)" "\<forall>x\<in>fst ` set ?cs. x < n" "{(x, c). (x, Some c) \<in> set ?cs} = hs"
      "\<not> mx_require_cleanup mx \<longrightarrow> (\<forall>x. (x, None) \<notin> set ?cs)"
    using assms(1) mx by (simp_all add: mx_ok_def)
  have "c \<noteq> None" if "(x, c) \<in> set ?cs" "\<not> mx_require_cleanup mx" for x c using ok(4) that by (cases c) auto
  then have same: "?cs' = ?cs" if "\<not> mx_require_cleanup mx" using that by (intro filter_True) auto
  have f: "um_find (exit_invocation key m) key =
      (if ?cs' \<noteq> [] then Some (mx\<lparr>mx_callbacks := ?cs', mx_require_cleanup := False, mx_in_progress := False\<rparr>) else None)"
    using mx same by (cases "mx_require_cleanup mx") (simp_all add: exit_invocation_def destroy_if_empty_def Let_def dict_simps)
  have d: "distinct (map fst ?cs')" "\<forall>x\<in>fst ` set ?cs'. x < n" using ok(1,2) by (auto simp: distinct_map_filter)
  have h: "{(x, c). (x, Some c) \<in> set ?cs'} = hs" using ok(3) by auto
  show "mx_ok n hs False (um_find (exit_invocation key m) key)"
  proof (cases "?cs' = []")
    case True
    then have "hs = {}" unfolding h [symmetric] by (auto simp: True)
    with True show ?thesis by (simp add: f mx_ok_def)
  next
    case False
    with d h show ?thesis by (simp add: f mx_ok_def)
  qed
  show "key' \<noteq> key \<Longrightarrow> um_find (exit_invocation key m) key' = um_find m key'"
    by (simp add: exit_invocation_def destroy_if_empty_def Let_def dict_simps split: option.splits)
qed

lemma mx_step_ok:
  assumes "mx_step r r'" "mr_ok r"
  shows "mr_ok r'"
  using assms
proof (cases rule: mx_step.cases)
  case (created key c u m)
  have ok: "mx_ok (mr_nodes r) (handles_of r key) (um_find (mr_cursors r) key \<noteq> None) (um_find (mr_requests r) key)" for key
    using assms(2) by (simp add: mr_ok_def)
  note cr = create_ok [OF ok created(2)]
  have h: "handles_of r' k = (if k = key then insert (mr_nodes r, c) (handles_of r k) else handles_of r k)" for k
    by (auto simp: handles_of_def created(1))
  have "mx_ok (mr_nodes r') (handles_of r' k) (um_find (mr_cursors r') k \<noteq> None) (um_find (mr_requests r') k)" for k
    using cr(1,2) mx_ok_more [OF ok] unfolding h by (cases "k = key") (simp_all add: created(1))
  then show ?thesis by (simp add: mr_ok_def)
next
  case (released key n c)
  have h: "handles_of r' k = (if k = key then handles_of r k - {(n, c)} else handles_of r k)" for k
    by (auto simp: handles_of_def released(1))
  have "(n, c) \<in> handles_of r key" using released(2) by (simp add: handles_of_def)
  have "mx_ok (mr_nodes r') (handles_of r' k) (um_find (mr_cursors r') k \<noteq> None) (um_find (mr_requests r') k)" for k
  proof (cases "k = key")
    case True
    have "mx_ok (mr_nodes r) (handles_of r key) (um_find (mr_cursors r) key \<noteq> None) (um_find (mr_requests r) key)" using assms(2) by (simp add: mr_ok_def)
    from release_ok [OF this \<open>(n, c) \<in> handles_of r key\<close>] True show ?thesis unfolding h by (simp add: released(1))
  next
    case False
    with assms(2) destroy_inner_other [OF False, of n "mr_requests r"] show ?thesis unfolding h by (simp add: mr_ok_def released(1))
  qed
  then show ?thesis by (simp add: mr_ok_def)
next
  case (entered key)
  have h: "handles_of r' k = handles_of r k" for k by (simp add: handles_of_def entered(1))
  have "mx_ok (mr_nodes r') (handles_of r' k) (um_find (mr_cursors r') k \<noteq> None) (um_find (mr_requests r') k)" for k
  proof -
    have ok: "mx_ok (mr_nodes r) (handles_of r k) (um_find (mr_cursors r) k \<noteq> None) (um_find (mr_requests r) k)" for k using assms(2) by (simp add: mr_ok_def)
    have "mx_ok (mr_nodes r) (handles_of r key) False (um_find (mr_requests r) key)" using ok [of key] entered(3) by simp
    note en = enter_ok [OF this entered(2)]
    show ?thesis unfolding h using en ok [of k] by (cases "k = key") (simp_all add: entered(1) dict_simps)
  qed
  then show ?thesis by (simp add: mr_ok_def)
next
  case (advanced key i)
  have h: "handles_of r' k = handles_of r k" for k by (simp add: handles_of_def advanced(1))
  have "mx_ok (mr_nodes r') (handles_of r' k) (um_find (mr_cursors r') k \<noteq> None) (um_find (mr_requests r') k)" for k
  proof -
    have "mx_ok (mr_nodes r) (handles_of r k) (um_find (mr_cursors r) k \<noteq> None) (um_find (mr_requests r) k)" using assms(2) by (simp add: mr_ok_def)
    then show ?thesis unfolding h using advanced(2) by (cases "k = key") (simp_all add: advanced(1) dict_simps)
  qed
  then show ?thesis by (simp add: mr_ok_def)
next
  case (left key i)
  have h: "handles_of r' k = handles_of r k" for k by (simp add: handles_of_def left(1))
  have "mx_ok (mr_nodes r') (handles_of r' k) (um_find (mr_cursors r') k \<noteq> None) (um_find (mr_requests r') k)" for k
  proof -
    have ok: "mx_ok (mr_nodes r) (handles_of r k) (um_find (mr_cursors r) k \<noteq> None) (um_find (mr_requests r) k)" for k using assms(2) by (simp add: mr_ok_def)
    have "mx_ok (mr_nodes r) (handles_of r key) True (um_find (mr_requests r) key)" using ok [of key] left(2) by simp
    note ex = exit_ok [OF this]
    show ?thesis unfolding h using ex ok [of k] by (cases "k = key") (simp_all add: left(1) dict_simps)
  qed
  then show ?thesis by (simp add: mr_ok_def)
qed

lemma mx_reachable_ok: "mx_step\<^sup>*\<^sup>* mr_start r \<Longrightarrow> mr_ok r"
proof (induction rule: rtranclp_induct)
  case base
  show ?case by (simp add: mr_ok_def mr_start_def mx_ok_def handles_of_def)
next
  case (step y z)
  then show ?case using mx_step_ok by blast
qed

text \<open>
  There is an underlying request exactly as long as there are handles for its key (or it is being
  answered), whatever its callbacks do while they are called; a new handle asks for an underlying request
  exactly when there is none; and a callback is called only while its handle exists.
\<close>

theorem request_lives_with_its_handles:
  assumes "mx_step\<^sup>*\<^sup>* mr_start r"
  shows "(um_find (mr_requests r) key \<noteq> None \<longleftrightarrow> handles_of r key \<noteq> {} \<or> um_find (mr_cursors r) key \<noteq> None) \<and>
    (fst (mx_create key (mr_nodes r) c (mr_requests r)) \<longleftrightarrow> um_find (mr_requests r) key = None) \<and>
    (um_find (mr_cursors r) key = Some i \<longrightarrow> i < length (mx_callbacks (mx_of (mr_requests r) key)) \<longrightarrow> invoke_at key i (mr_requests r) = Some d \<longrightarrow>
      (key, fst (mx_callbacks (mx_of (mr_requests r) key) ! i), d) \<in> mr_handles r)"
proof -
  have ok: "mx_ok (mr_nodes r) (handles_of r key) (um_find (mr_cursors r) key \<noteq> None) (um_find (mr_requests r) key)"
    using mx_reachable_ok [OF assms] by (simp add: mr_ok_def)
  have "fst (mx_create key (mr_nodes r) c (mr_requests r)) \<longleftrightarrow> um_find (mr_requests r) key = None"
    using create_ok(3) [OF ok] by (metis prod.collapse)
  moreover have "um_find (mr_requests r) key \<noteq> None \<longleftrightarrow> handles_of r key \<noteq> {} \<or> um_find (mr_cursors r) key \<noteq> None"
  proof (cases "um_find (mr_requests r) key")
    case (Some mx)
    have "handles_of r key \<noteq> {}" if "um_find (mr_cursors r) key = None"
    proof -
      obtain x d where "(x, d) \<in> set (mx_callbacks mx)" using ok Some by (cases "mx_callbacks mx") (auto simp: mx_ok_def)
      moreover have "(x, None) \<notin> set (mx_callbacks mx)" using ok Some that by (auto simp: mx_ok_def)
      ultimately obtain e where "(x, Some e) \<in> set (mx_callbacks mx)" by (cases d) auto
      moreover have "{(x, c). (x, Some c) \<in> set (mx_callbacks mx)} = handles_of r key" using ok Some by (simp add: mx_ok_def)
      ultimately show ?thesis by blast
    qed
    with Some show ?thesis by auto
  qed (use ok in \<open>auto simp: mx_ok_def\<close>)
  moreover have "(key, fst (mx_callbacks (mx_of (mr_requests r) key) ! i), d) \<in> mr_handles r"
    if "i < length (mx_callbacks (mx_of (mr_requests r) key))" "invoke_at key i (mr_requests r) = Some d"
  proof -
    note at = that
    obtain mx where mx: "um_find (mr_requests r) key = Some mx" "snd (mx_callbacks mx ! i) = Some d"
      using at(2) by (auto simp: invoke_at_def bind_eq_Some_conv)
    then have "(fst (mx_callbacks mx ! i), Some d) \<in> set (mx_callbacks mx)" using at(1) by (metis mx_of_def nth_mem option.simps(5) prod.collapse)
    moreover have "{(x, c). (x, Some c) \<in> set (mx_callbacks mx)} = handles_of r key" using ok mx(1) by (simp add: mx_ok_def)
    ultimately show ?thesis using mx(1) by (auto simp: handles_of_def mx_of_def)
  qed
  ultimately show ?thesis by blast
qed

theorem request_lives_with_its_handles_witness:
  "\<exists>r :: (nat, string) mx_run. mx_step\<^sup>*\<^sup>* mr_start r \<and> um_find (mr_requests r) 5 \<noteq> None \<and> (5, 0, ''done'') \<in> mr_handles r"
proof -
  let ?r = "(mr_start :: (nat, string) mx_run)\<lparr>mr_requests := snd (mx_create 5 0 ''done'' []), mr_nodes := 1, mr_handles := {(5, 0, ''done'')}\<rparr>"
  have "mx_create 5 (mr_nodes (mr_start :: (nat, string) mx_run)) ''done'' (mr_requests mr_start) = (True, snd (mx_create 5 0 ''done'' []))"
    by (simp add: mx_create_def mr_start_def mx_new_def)
  from mx_step.created [OF this] have "mx_step mr_start ?r" by (simp add: mr_start_def)
  then have r: "mx_step\<^sup>*\<^sup>* mr_start ?r" by simp
  have "handles_of ?r 5 \<noteq> {}" by (simp add: handles_of_def)
  with request_lives_with_its_handles [OF r, of 5] have "um_find (mr_requests ?r) 5 \<noteq> None" by blast
  with r show ?thesis by (intro exI [of _ ?r]) simp
qed

end
