(* ===== verification/Patching_Session.thy ===== *)
theory Patching_Session
  imports Image_Patch_Manager
begin

text \<open>
  Patching from the other side: the part of the frontend that asks for patches
  (\<^verbatim>\<open>frontend/src/frontend_patcher.cpp\<close>), the handlers of the collector that serve it
  (\<^verbatim>\<open>collector/src/collector_app.cpp\<close>), and both together with the patch manager. The table of patches,
  looked up through its unique index, is a dictionary by image and address; what the module tracker
  knows of an image (its base and a lock) is an argument.
\<close>

section \<open>The frontend\<close>

record patch =
  pt_id :: u32
  pt_requested :: bool
  pt_error :: bool
  pt_active :: bool

definition patch_init :: patch where
  "patch_init = \<lparr>pt_id = 0, pt_requested = False, pt_error = False, pt_active = False\<rparr>"

definition set_requested :: "bool \<Rightarrow> patch \<Rightarrow> bool \<times> patch" where
  "set_requested for_active p =
     (if pt_active p = for_active \<and> \<not> pt_error p \<and> \<not> pt_requested p then (True, p\<lparr>pt_requested := True\<rparr>) else (False, p))"

definition set_complete :: "patch_errors \<Rightarrow> bool \<Rightarrow> patch \<Rightarrow> patch" where
  "set_complete e active p =
     (let p = p\<lparr>pt_requested := False\<rparr> in if e \<noteq> Patch_Ok then p\<lparr>pt_error := True\<rparr> else p\<lparr>pt_active := active\<rparr>)"

type_synonym patches = "(u32 \<times> u32, patch) umap"

definition patch_at :: "patches \<Rightarrow> u32 \<times> u32 \<Rightarrow> patch" where
  "patch_at t k = (case um_find t k of None \<Rightarrow> patch_init | Some p \<Rightarrow> p)"

text \<open>Both requests give the table and the addresses to ask the collector for; nothing is sent for none.\<close>

fun frontend_apply :: "u32 \<Rightarrow> u32 list \<Rightarrow> patches \<Rightarrow> u32 list \<times> patches" where
  "frontend_apply persistent_id [] t = ([], t)"
| "frontend_apply persistent_id (rva # rvas) t =
     (let (b, p) = set_requested False (patch_at t (persistent_id, rva));
          (targets, t) = frontend_apply persistent_id rvas (um_assign (persistent_id, rva) p t)
      in (if b then rva # targets else targets, t))"

fun frontend_revert :: "u32 \<Rightarrow> u32 list \<Rightarrow> patches \<Rightarrow> u32 list \<times> patches" where
  "frontend_revert persistent_id [] t = ([], t)"
| "frontend_revert persistent_id (rva # rvas) t =
     (case um_find t (persistent_id, rva) of
        None \<Rightarrow> frontend_revert persistent_id rvas t
      | Some p \<Rightarrow>
          let (b, p) = set_requested True p;
              (targets, t) = frontend_revert persistent_id rvas (um_assign (persistent_id, rva) p t)
          in (if b then rva # targets else targets, t))"

fun frontend_patched :: "u32 \<Rightarrow> (u32 \<times> patch_apply) list \<Rightarrow> patches \<Rightarrow> patches" where
  "frontend_patched persistent_id [] t = t"
| "frontend_patched persistent_id ((rva, r) # rs) t =
     frontend_patched persistent_id rs
       (um_assign (persistent_id, rva) (set_complete (pa_result r) True ((patch_at t (persistent_id, rva))\<lparr>pt_id := pa_id r\<rparr>)) t)"

fun frontend_reverted :: "u32 \<Rightarrow> (u32 \<times> patch_errors) list \<Rightarrow> patches \<Rightarrow> patches" where
  "frontend_reverted persistent_id [] t = t"
| "frontend_reverted persistent_id ((rva, r) # rs) t =
     frontend_reverted persistent_id rs (um_assign (persistent_id, rva) (set_complete r False (patch_at t (persistent_id, rva))) t)"

section \<open>The session\<close>

datatype patch_request = Request_Apply u32 "u32 list" | Request_Revert u32 "u32 list"
datatype patch_response = Response_Patched u32 "(u32 \<times> patch_apply) list" | Response_Reverted u32 "(u32 \<times> patch_errors) list"

text \<open>The handlers of the collector; \<open>None\<close> if the disassembler does not return or an exception leaves the handler.\<close>

fun handle_patch_request :: "patch_env \<Rightarrow> (u32 \<Rightarrow> int \<times> nat) \<Rightarrow> patch_request \<Rightarrow> image_patch_manager \<Rightarrow> (patch_response \<times> image_patch_manager) option" where
  "handle_patch_request e mapping (Request_Apply persistent_id rvas) s =
     (case apply_patches e persistent_id (fst (mapping persistent_id)) (Some (snd (mapping persistent_id))) rvas [] s of
        Some (None, results, s) \<Rightarrow> Some (Response_Patched persistent_id results, s)
      | _ \<Rightarrow> None)"
| "handle_patch_request e mapping (Request_Revert persistent_id rvas) s =
     (case revert_patches persistent_id rvas [] s of
        (None, results, s) \<Rightarrow> Some (Response_Reverted persistent_id results, s)
      | _ \<Rightarrow> None)"

fun frontend_response :: "patch_response \<Rightarrow> patches \<Rightarrow> patches" where
  "frontend_response (Response_Patched persistent_id rs) t = frontend_patched persistent_id rs t"
| "frontend_response (Response_Reverted persistent_id rs) t = frontend_reverted persistent_id rs t"

record patching =
  ps_table :: patches
  ps_manager :: image_patch_manager
  ps_requests :: "patch_request list"
  ps_responses :: "patch_response list"

inductive patching_reachable :: "patch_env \<Rightarrow> (u32 \<Rightarrow> int \<times> nat) \<Rightarrow> patch_memory \<Rightarrow> patching \<Rightarrow> bool" for e mapping pm where
  patching_start: "patching_reachable e mapping pm
    \<lparr>ps_table = [], ps_manager = \<lparr>pm_patched_images = [], pm_memory = pm\<rparr>, ps_requests = [], ps_responses = []\<rparr>"
| user_applies: "patching_reachable e mapping pm y \<Longrightarrow> frontend_apply persistent_id rvas (ps_table y) = (targets, t) \<Longrightarrow>
    patching_reachable e mapping pm (y\<lparr>ps_table := t, ps_requests := ps_requests y @ (if targets = [] then [] else [Request_Apply persistent_id targets])\<rparr>)"
| user_reverts: "patching_reachable e mapping pm y \<Longrightarrow> frontend_revert persistent_id rvas (ps_table y) = (targets, t) \<Longrightarrow>
    patching_reachable e mapping pm (y\<lparr>ps_table := t, ps_requests := ps_requests y @ (if targets = [] then [] else [Request_Revert persistent_id targets])\<rparr>)"
| collector_handles: "patching_reachable e mapping pm y \<Longrightarrow> ps_requests y = q # qs \<Longrightarrow> handle_patch_request e mapping q (ps_manager y) = Some (r, s) \<Longrightarrow>
    patching_reachable e mapping pm (y\<lparr>ps_manager := s, ps_requests := qs, ps_responses := ps_responses y @ [r]\<rparr>)"
| frontend_hears: "patching_reachable e mapping pm y \<Longrightarrow> ps_responses y = r # rs \<Longrightarrow>
    patching_reachable e mapping pm (y\<lparr>ps_table := frontend_response r (ps_table y), ps_responses := rs\<rparr>)"

section \<open>What the manager does to one function\<close>

lemma apply_one_detail:
  assumes "apply_one e base rva (i, pm) = Some (r, i', pm')" "attached i" "length (pe_trampoline_proto e) \<le> block_size"
  shows "k \<noteq> rva \<Longrightarrow> patched_on i' k = patched_on i k"
    "\<not> patched_on i rva \<Longrightarrow> r = Inr Patch_Ok \<and> patched_on i' rva \<or> r = Inr Patch_Error \<and> \<not> patched_on i' rva"
  using assms(1)
proof (atomize (full), cases rule: apply_one_cases)
  case failed
  with assms(3) show "(k \<noteq> rva \<longrightarrow> patched_on i' k = patched_on i k) \<and>
    (\<not> patched_on i rva \<longrightarrow> r = Inr Patch_Ok \<and> patched_on i' rva \<or> r = Inr Patch_Error \<and> \<not> patched_on i' rva)" by auto
next
  case (switched ps p b p' m' m1)
  have d: "\<not> j_detached (fp_jumper p)" using switched(1,2) assms(2) by (auto simp: attached_def)
  note a = activate_attached [OF switched(3) d]
  have "fp_on p \<longrightarrow> patched_on i rva" using switched(1,2) by (auto simp: patched_on_def)
  moreover obtain c where "b = Inr c" using a(3) by blast
  moreover from this have "c = (\<not> fp_on p)" using patches.on_changes [of e p m1 c p' m'] switched(3) by simp
  ultimately have "\<not> patched_on i rva \<longrightarrow> r = Inr Patch_Ok \<and> patched_on i' rva" using switched(4,5) a(2) by (auto simp: patched_on_def dict_simps)
  moreover have "k \<noteq> rva \<longrightarrow> patched_on i' k = patched_on i k" using switched(2,4) by (auto simp: patched_on_def dict_simps)
  ultimately show "(k \<noteq> rva \<longrightarrow> patched_on i' k = patched_on i k) \<and>
    (\<not> patched_on i rva \<longrightarrow> r = Inr Patch_Ok \<and> patched_on i' rva \<or> r = Inr Patch_Error \<and> \<not> patched_on i' rva)" by blast
qed

lemma apply_loop_detail:
  assumes "apply_loop e base targets results s = Some (x, results', s')" "attached (fst s)"
    and small: "length (pe_trampoline_proto e) \<le> block_size" and "distinct targets" "\<forall>rva\<in>set targets. \<not> patched_on (fst s) rva"
  shows "(\<exists>rs. results' = results @ rs \<and> map fst rs = targets \<and>
      (\<forall>(rva, a)\<in>set rs. pa_result a = Patch_Ok \<and> patched_on (fst s') rva \<or> pa_result a = Patch_Error \<and> \<not> patched_on (fst s') rva)) \<and>
    (\<forall>k. k \<notin> set targets \<longrightarrow> patched_on (fst s') k = patched_on (fst s) k)"
  using assms(1,2,4,5)
proof (induction targets arbitrary: results s)
  case (Cons rva targets)
  from Cons.prems(1) obtain r s1 where a: "apply_one e base rva s = Some (r, s1)" by (auto simp: bind_eq_Some_conv)
  have a': "apply_one e base rva (fst s, snd s) = Some (r, fst s1, snd s1)" using a by simp
  note d = apply_one_detail [OF a' Cons.prems(2) small]
  have at: "attached (fst s1)" using apply_one_attached [OF a' Cons.prems(2) small] by blast
  have "\<not> patched_on (fst s) rva" using Cons.prems(4) by simp
  note off = d(2) [OF this]
  define result where "result = (if patched_on (fst s1) rva then Patch_Ok else Patch_Error)"
  have r: "r = Inr result" "result = Patch_Ok \<and> patched_on (fst s1) rva \<or> result = Patch_Error \<and> \<not> patched_on (fst s1) rva"
    using off by (cases "patched_on (fst s1) rva"; simp add: result_def)+
  let ?a = "\<lparr>pa_result = result, pa_id = 0\<rparr>"
  have l: "apply_loop e base targets (results @ [(rva, ?a)]) s1 = Some (x, results', s')" using Cons.prems(1) a r(1) by simp
  have "\<forall>k\<in>set targets. \<not> patched_on (fst s1) k"
  proof
    fix k assume "k \<in> set targets"
    then show "\<not> patched_on (fst s1) k" using d(1) [of k] Cons.prems(3,4) by auto
  qed
  with Cons.IH [OF l at] Cons.prems(3) obtain rs where rs: "results' = results @ [(rva, ?a)] @ rs" "map fst rs = targets"
      "\<forall>(rva, a)\<in>set rs. pa_result a = Patch_Ok \<and> patched_on (fst s') rva \<or> pa_result a = Patch_Error \<and> \<not> patched_on (fst s') rva"
      "\<forall>k. k \<notin> set targets \<longrightarrow> patched_on (fst s') k = patched_on (fst s1) k" by auto
  have "patched_on (fst s') rva = patched_on (fst s1) rva" using rs(4) Cons.prems(3) by simp
  then have "\<forall>(rva, a)\<in>set ((rva, ?a) # rs). pa_result a = Patch_Ok \<and> patched_on (fst s') rva \<or> pa_result a = Patch_Error \<and> \<not> patched_on (fst s') rva"
    using rs(3) r(2) by simp
  moreover have "results' = results @ (rva, ?a) # rs" "map fst ((rva, ?a) # rs) = rva # targets" using rs(1,2) by simp_all
  moreover have "\<forall>k. k \<notin> set (rva # targets) \<longrightarrow> patched_on (fst s') k = patched_on (fst s) k" using rs(4) d(1) by simp
  ultimately show ?case by (intro conjI exI [of _ "(rva, ?a) # rs"])
qed simp

lemma revert_one_detail:
  assumes "revert_one rva (i, pm) = (r, i', pm')" "attached i" "patched_on i rva"
  shows "r = Inr Patch_Ok" "k \<noteq> rva \<Longrightarrow> patched_on i' k = patched_on i k"
proof -
  obtain p where p: "um_find (ip_patched i) rva = Some p" "fp_on p" using assms(3) by (auto simp: patched_on_def)
  obtain b p' m' where b: "fp_revert p (snd pm) = (b, p', m')" by (metis prod_cases3)
  have "\<not> j_detached (fp_jumper p)" using assms(2) p by (simp add: attached_def)
  with revert_attached(3) [OF b] obtain c where "b = Inr c" by blast
  then have "b = Inr True" using patches.off_changes [of p "snd pm" c p' m'] b p(2) by simp
  with assms(1) p b show "r = Inr Patch_Ok" "k \<noteq> rva \<Longrightarrow> patched_on i' k = patched_on i k"
    by (auto simp: revert_one_def Let_def patched_on_def dict_simps)
qed

lemma revert_loop_detail:
  assumes "revert_loop targets results s = (x, results', s')" "attached (fst s)" "distinct targets" "\<forall>rva\<in>set targets. patched_on (fst s) rva"
  shows "results' = results @ map (\<lambda>rva. (rva, Patch_Ok)) targets \<and> (\<forall>k. k \<notin> set targets \<longrightarrow> patched_on (fst s') k = patched_on (fst s) k)"
  using assms
proof (induction targets arbitrary: results s)
  case (Cons rva targets)
  obtain r i pm where a: "revert_one rva s = (r, i, pm)" by (metis prod_cases3)
  then have a': "revert_one rva (fst s, snd s) = (r, i, pm)" by simp
  have on: "patched_on (fst s) rva" using Cons.prems(4) by simp
  note d = revert_one_detail [OF a' Cons.prems(2) on]
  have at: "attached (fst (i, pm))" using revert_one_attached [OF a' Cons.prems(2)] by simp
  have l: "revert_loop targets (results @ [(rva, Patch_Ok)]) (i, pm) = (x, results', s')" using Cons.prems(1) a d(1) by simp
  have "\<forall>k\<in>set targets. patched_on (fst (i, pm)) k"
  proof
    fix k assume "k \<in> set targets"
    then show "patched_on (fst (i, pm)) k" using d(2) [of k] Cons.prems(3,4) by auto
  qed
  with Cons.IH [OF l at] Cons.prems(3) d(2) show ?case by auto
qed simp

section \<open>What the frontend does to its table\<close>

lemma patch_at_assign [simp]: "patch_at (um_assign k p t) k' = (if k' = k then p else patch_at t k')"
  by (simp add: patch_at_def dict_simps)

definition eligible :: "bool \<Rightarrow> patch \<Rightarrow> bool" where
  "eligible b p \<longleftrightarrow> pt_active p = b \<and> \<not> pt_error p \<and> \<not> pt_requested p"

definition requesting :: "bool \<Rightarrow> u32 \<Rightarrow> u32 list \<Rightarrow> patches \<Rightarrow> patches \<Rightarrow> bool" where
  "requesting b persistent_id targets t t' \<longleftrightarrow> distinct targets \<and> (\<forall>rva\<in>set targets. eligible b (patch_at t (persistent_id, rva))) \<and>
     (\<forall>k. patch_at t' k = (if fst k = persistent_id \<and> snd k \<in> set targets then (patch_at t k)\<lparr>pt_requested := True\<rparr> else patch_at t k))"

lemma requesting_step:
  assumes "requesting b i targets (um_assign (i, rva) (snd (set_requested b (patch_at t (i, rva)))) t) t'"
  shows "requesting b i (if fst (set_requested b (patch_at t (i, rva))) then rva # targets else targets) t t'"
proof (cases "eligible b (patch_at t (i, rva))")
  case True
  then have r: "set_requested b (patch_at t (i, rva)) = (True, (patch_at t (i, rva))\<lparr>pt_requested := True\<rparr>)"
    by (simp add: set_requested_def eligible_def)
  note req = assms [unfolded requesting_def r snd_conv]
  have new: "rva \<notin> set targets" using req by (auto simp: eligible_def)
  have "eligible b (patch_at t (i, x))" if "x \<in> set targets" for x
  proof -
    have "x \<noteq> rva" using that new by blast
    moreover have "eligible b (patch_at (um_assign (i, rva) ((patch_at t (i, rva))\<lparr>pt_requested := True\<rparr>) t) (i, x))" using req that by blast
    ultimately show ?thesis by simp
  qed
  moreover have "patch_at t' k = (if fst k = i \<and> snd k \<in> set (rva # targets) then (patch_at t k)\<lparr>pt_requested := True\<rparr> else patch_at t k)" for k
  proof -
    let ?t = "um_assign (i, rva) ((patch_at t (i, rva))\<lparr>pt_requested := True\<rparr>) t"
    have "patch_at t' k = (if fst k = i \<and> snd k \<in> set targets then (patch_at ?t k)\<lparr>pt_requested := True\<rparr> else patch_at ?t k)" using req by blast
    then show ?thesis using new by (cases "k = (i, rva)") (auto simp: prod_eq_iff)
  qed
  ultimately show ?thesis using req new True by (simp add: requesting_def r)
next
  case False
  then have r: "set_requested b (patch_at t (i, rva)) = (False, patch_at t (i, rva))" by (auto simp: set_requested_def eligible_def)
  with assms show ?thesis unfolding requesting_def r by (auto split: if_splits)
qed

lemma frontend_apply_requests: "frontend_apply i rvas t = (targets, t') \<Longrightarrow> requesting False i targets t t'"
proof (induction rvas arbitrary: t targets)
  case Nil
  then show ?case by (simp add: requesting_def)
next
  case (Cons rva rvas)
  let ?r = "set_requested False (patch_at t (i, rva))"
  obtain ts where ts: "frontend_apply i rvas (um_assign (i, rva) (snd ?r) t) = (ts, t')" "targets = (if fst ?r then rva # ts else ts)"
    using Cons.prems by (auto simp: Let_def split: prod.splits if_splits)
  from requesting_step [OF Cons.IH [OF ts(1)]] ts(2) show ?case by simp
qed

lemma frontend_revert_requests: "frontend_revert i rvas t = (targets, t') \<Longrightarrow> requesting True i targets t t'"
proof (induction rvas arbitrary: t targets)
  case Nil
  then show ?case by (simp add: requesting_def)
next
  case (Cons rva rvas)
  show ?case
  proof (cases "um_find t (i, rva)")
    case None
    with Cons show ?thesis by simp
  next
    case (Some p)
    let ?r = "set_requested True p"
    have p: "p = patch_at t (i, rva)" using Some by (simp add: patch_at_def)
    obtain ts where ts: "frontend_revert i rvas (um_assign (i, rva) (snd ?r) t) = (ts, t')" "targets = (if fst ?r then rva # ts else ts)"
      using Cons.prems Some by (auto simp: Let_def split: prod.splits if_splits)
    from requesting_step [OF Cons.IH [OF ts(1), unfolded p]] ts(2) show ?thesis by (simp add: p)
  qed
qed

lemma frontend_patched_at:
  "distinct (map fst rs) \<Longrightarrow> patch_at (frontend_patched i rs t) k =
     (case if fst k = i then map_of rs (snd k) else None of None \<Rightarrow> patch_at t k
      | Some a \<Rightarrow> set_complete (pa_result a) True ((patch_at t k)\<lparr>pt_id := pa_id a\<rparr>))"
  by (induction i rs t rule: frontend_patched.induct)
    (auto simp: map_of_eq_None_iff rev_image_eqI split: option.splits if_splits)

lemma frontend_reverted_at:
  "distinct (map fst rs) \<Longrightarrow> patch_at (frontend_reverted i rs t) k =
     (case if fst k = i then map_of rs (snd k) else None of None \<Rightarrow> patch_at t k | Some r \<Rightarrow> set_complete r False (patch_at t k))"
  by (induction i rs t rule: frontend_reverted.induct)
    (auto simp: map_of_eq_None_iff rev_image_eqI split: option.splits if_splits)

section \<open>Requests under way\<close>

text \<open>For each function asked about: whether it was active then, and the answer if it is on its way back.\<close>

type_synonym patch_item = "(u32 \<times> u32) \<times> bool \<times> patch_errors option"

fun request_items :: "patch_request \<Rightarrow> patch_item list" where
  "request_items (Request_Apply i rvas) = map (\<lambda>r. ((i, r), False, None)) rvas"
| "request_items (Request_Revert i rvas) = map (\<lambda>r. ((i, r), True, None)) rvas"

fun response_items :: "patch_response \<Rightarrow> patch_item list" where
  "response_items (Response_Patched i rs) = map (\<lambda>(r, a). ((i, r), False, Some (pa_result a))) rs"
| "response_items (Response_Reverted i rs) = map (\<lambda>(r, e). ((i, r), True, Some e)) rs"

definition items :: "patching \<Rightarrow> patch_item list" where
  "items y = concat (map response_items (ps_responses y)) @ concat (map request_items (ps_requests y))"

definition is_patched :: "image_patch_manager \<Rightarrow> u32 \<times> u32 \<Rightarrow> bool" where
  "is_patched s k = patched_on (pm_image s (fst k)) (snd k)"

definition item_ok :: "patches \<Rightarrow> image_patch_manager \<Rightarrow> patch_item \<Rightarrow> bool" where
  "item_ok t s x \<longleftrightarrow> (let (k, was, answer) = x; p = patch_at t k in
     pt_requested p \<and> \<not> pt_error p \<and> pt_active p = was \<and>
     (case answer of
        None \<Rightarrow> is_patched s k = was
      | Some Patch_Ok \<Rightarrow> is_patched s k = (\<not> was)
      | Some Patch_Error \<Rightarrow> is_patched s k = was
      | Some Patch_Unchanged \<Rightarrow> False))"

definition patching_ok :: "patching \<Rightarrow> bool" where
  "patching_ok y \<longleftrightarrow> manager_ok False (ps_manager y) \<and> distinct (map fst (items y)) \<and>
     (\<forall>x\<in>set (items y). item_ok (ps_table y) (ps_manager y) x) \<and>
     (\<forall>k. k \<notin> fst ` set (items y) \<longrightarrow> \<not> pt_requested (patch_at (ps_table y) k) \<and> pt_active (patch_at (ps_table y) k) = is_patched (ps_manager y) k)"

lemma item_ok_cong:
  assumes "patch_at t' (fst x) = patch_at t (fst x)" "is_patched s' (fst x) = is_patched s (fst x)"
  shows "item_ok t' s' x = item_ok t s x"
  unfolding item_ok_def split_def Let_def assms ..

lemma settled:
  "patching_ok y \<Longrightarrow> k \<notin> fst ` set (items y) \<Longrightarrow> \<not> pt_requested (patch_at (ps_table y) k) \<and> pt_active (patch_at (ps_table y) k) = is_patched (ps_manager y) k"
  unfolding patching_ok_def by blast

lemma asked_keys: "k \<in> fst ` set (map (\<lambda>r. ((i, r), x)) rvas) \<longleftrightarrow> fst k = i \<and> snd k \<in> set rvas"
  by (cases k) (auto simp: image_image)

text \<open>The user asks: the functions that are asked for were not under way.\<close>

lemma patching_asks:
  assumes ok: "patching_ok y" and r: "requesting b i targets (ps_table y) t"
    and q: "qs = [] \<and> targets = [] \<or> qs = [q] \<and> request_items q = map (\<lambda>r. ((i, r), b, None)) targets"
  shows "patching_ok (y\<lparr>ps_table := t, ps_requests := ps_requests y @ qs\<rparr>)"
proof -
  let ?y = "y\<lparr>ps_table := t, ps_requests := ps_requests y @ qs\<rparr>" and ?new = "map (\<lambda>r. ((i, r), b, None)) targets :: patch_item list"
  have it: "items ?y = items y @ ?new" using q by (auto simp: items_def)
  have idle: "(i, rva) \<notin> fst ` set (items y)" if "rva \<in> set targets" for rva
  proof
    assume "(i, rva) \<in> fst ` set (items y)"
    then have "pt_requested (patch_at (ps_table y) (i, rva))" using ok by (auto simp: patching_ok_def item_ok_def Let_def)
    moreover have "eligible b (patch_at (ps_table y) (i, rva))" using r that by (simp add: requesting_def)
    ultimately show False by (simp add: eligible_def)
  qed
  have at: "patch_at t k = (if fst k = i \<and> snd k \<in> set targets then (patch_at (ps_table y) k)\<lparr>pt_requested := True\<rparr> else patch_at (ps_table y) k)" for k
    using r unfolding requesting_def by blast
  have d: "distinct (map fst (items ?y))" unfolding it using ok r idle by (auto simp: patching_ok_def requesting_def distinct_map inj_on_def o_def)
  have new: "item_ok t (ps_manager y) ((i, rva), b, None)" if "rva \<in> set targets" for rva
  proof -
    have "eligible b (patch_at (ps_table y) (i, rva))" using r that by (simp add: requesting_def)
    moreover have "pt_active (patch_at (ps_table y) (i, rva)) = is_patched (ps_manager y) (i, rva)" using ok idle [OF that] by (simp add: patching_ok_def)
    ultimately show ?thesis using that by (simp add: item_ok_def at eligible_def)
  qed
  have old: "item_ok t (ps_manager y) x" if "x \<in> set (items y)" for x
  proof -
    have "\<not> (fst (fst x) = i \<and> snd (fst x) \<in> set targets)" using idle that by (metis image_eqI prod.collapse)
    then have "patch_at t (fst x) = patch_at (ps_table y) (fst x)" unfolding at by (rule if_not_P)
    moreover have "item_ok (ps_table y) (ps_manager y) x" using ok that by (simp add: patching_ok_def)
    ultimately show ?thesis using item_ok_cong by blast
  qed
  have rest: "\<not> pt_requested (patch_at t k) \<and> pt_active (patch_at t k) = is_patched (ps_manager y) k" if "k \<notin> fst ` set (items ?y)" for k
  proof -
    have "k \<notin> fst ` set (items y)" "\<not> (fst k = i \<and> snd k \<in> set targets)"
      using that asked_keys [of k i "(b, None :: patch_errors option)" targets] unfolding it by (simp_all add: image_Un)
    moreover from this have "patch_at t k = patch_at (ps_table y) k" unfolding at by (intro if_not_P)
    ultimately show ?thesis using settled [OF ok] by simp
  qed
  have "\<forall>x\<in>set (items ?y). item_ok t (ps_manager y) x" unfolding it using old new by auto
  with ok d rest show ?thesis by (simp add: patching_ok_def)
qed

text \<open>The collector handles the oldest request: what it answers is what it did, and it did nothing else.\<close>

lemma is_patched_assign:
  "is_patched (s\<lparr>pm_patched_images := um_assign i im (pm_patched_images s), pm_memory := m\<rparr>) k =
     (if fst k = i then patched_on im (snd k) else is_patched s k)"
  by (simp add: is_patched_def pm_image_def dict_simps)

lemma handled_request:
  assumes h: "handle_patch_request e mapping q s = Some (r, s')" and ok: "manager_ok False s" and small: "length (pe_trampoline_proto e) \<le> block_size"
    and d: "distinct (map fst (request_items q))" and it: "\<forall>x\<in>set (request_items q). is_patched s (fst x) = fst (snd x)"
  shows "manager_ok False s' \<and> map fst (response_items r) = map fst (request_items q) \<and>
    (\<forall>k. k \<notin> fst ` set (request_items q) \<longrightarrow> is_patched s' k = is_patched s k) \<and>
    (\<forall>x\<in>set (response_items r). (fst x, fst (snd x), None) \<in> set (request_items q) \<and>
      (snd (snd x) = Some Patch_Ok \<and> is_patched s' (fst x) = (\<not> fst (snd x)) \<or> snd (snd x) = Some Patch_Error \<and> is_patched s' (fst x) = fst (snd x)))"
proof (cases q)
  case (Request_Apply i rvas)
  let ?i = "pm_image s i"
  have at: "attached ?i" using pm_image_ok [OF ok] by (simp add: image_ok_def)
  obtain results where a: "apply_patches e i (fst (mapping i)) (Some (snd (mapping i))) rvas [] s = Some (None, results, s')" and r: "r = Response_Patched i results"
    using h Request_Apply by (auto split: option.splits)
  from a obtain im pm where l: "apply_loop e (fst (mapping i)) rvas [] (?i, pm_memory s) = Some (None, results, im, pm)"
    and s': "s' = s\<lparr>pm_patched_images := um_assign i (if ip_patches_applied im \<noteq> 0 then im\<lparr>ip_lock := Some (snd (mapping i))\<rparr> else im) (pm_patched_images s), pm_memory := pm\<rparr>"
    by (auto simp: apply_patches_def)
  have off: "distinct rvas" "\<forall>rva\<in>set (rvas). \<not> patched_on (fst (?i, pm_memory s)) rva"
    using d it by (simp_all add: Request_Apply is_patched_def distinct_map o_def)
  have on: "is_patched s' k = (if fst k = i then patched_on im (snd k) else is_patched s k)" for k unfolding s' is_patched_assign by simp
  from apply_loop_detail [OF l _ small off] at have det: "map fst results = rvas"
      "\<forall>(rva, a)\<in>set results. pa_result a = Patch_Ok \<and> patched_on im rva \<or> pa_result a = Patch_Error \<and> \<not> patched_on im rva"
      "\<forall>k. k \<notin> set rvas \<longrightarrow> patched_on im k = patched_on ?i k" by auto
  have "is_patched s' k = is_patched s k" if "k \<notin> fst ` set (request_items q)" for k
  proof (cases "fst k = i")
    case True
    then have "snd k \<notin> set rvas" using that asked_keys [of k i "(False, None :: patch_errors option)" rvas] by (simp add: Request_Apply)
    with det(3) True show ?thesis by (simp add: on) (simp add: is_patched_def)
  qed (simp add: on)
  moreover have "rva \<in> set rvas" if "(rva, x) \<in> set results" for rva x using det(1) that by (metis fst_conv image_eqI list.set_map)
  ultimately show ?thesis using apply_patches_ok [OF a ok _ small] det
    by (auto simp: Request_Apply r on o_def split_def)
next
  case (Request_Revert i rvas)
  let ?i = "pm_image s i"
  have at: "attached ?i" using pm_image_ok [OF ok] by (simp add: image_ok_def)
  obtain results where a: "revert_patches i rvas [] s = (None, results, s')" and r: "r = Response_Reverted i results"
    using h Request_Revert by (auto split: option.splits prod.splits)
  from a obtain im pm where l: "revert_loop rvas [] (?i, pm_memory s) = (None, results, im, pm)"
    and s': "s' = s\<lparr>pm_patched_images := um_assign i (if ip_patches_applied im = 0 then im\<lparr>ip_lock := None\<rparr> else im) (pm_patched_images s), pm_memory := pm\<rparr>"
    by (auto simp: revert_patches_def split: prod.splits)
  have on0: "distinct rvas" "\<forall>rva\<in>set (rvas). patched_on (fst (?i, pm_memory s)) rva"
    using d it by (simp_all add: Request_Revert is_patched_def distinct_map o_def)
  have on: "is_patched s' k = (if fst k = i then patched_on im (snd k) else is_patched s k)" for k unfolding s' is_patched_assign by simp
  from revert_loop_detail [OF l _ on0] at have det: "results = map (\<lambda>rva. (rva, Patch_Ok)) rvas" "\<forall>k. k \<notin> set rvas \<longrightarrow> patched_on im k = patched_on ?i k" by auto
  have "\<forall>rva\<in>set rvas. \<not> patched_on im rva" using revert_loop_attached [OF l] at by simp
  moreover have "is_patched s' k = is_patched s k" if "k \<notin> fst ` set (request_items q)" for k
  proof (cases "fst k = i")
    case True
    then have "snd k \<notin> set rvas" using that asked_keys [of k i "(True, None :: patch_errors option)" rvas] by (simp add: Request_Revert)
    with det(2) True show ?thesis by (simp add: on) (simp add: is_patched_def)
  qed (simp add: on)
  ultimately show ?thesis using revert_patches_ok [OF a ok] det(1) by (auto simp: Request_Revert r on o_def)
qed

lemma parts_apart: "distinct (map fst (A @ Q @ B)) \<Longrightarrow> x \<in> set A \<union> set B \<Longrightarrow> fst x \<notin> fst ` set Q"
  by (auto simp: rev_image_eqI disjoint_iff)

lemma request_items_open: "x \<in> set (request_items q) \<Longrightarrow> snd (snd x) = None"
  by (cases q) auto

lemma patching_handles:
  assumes ok: "patching_ok y" and q: "ps_requests y = q # qs" and h: "handle_patch_request e mapping q (ps_manager y) = Some (r, s')"
    and small: "length (pe_trampoline_proto e) \<le> block_size"
  shows "patching_ok (y\<lparr>ps_manager := s', ps_requests := qs, ps_responses := ps_responses y @ [r]\<rparr>)"
proof -
  let ?y = "y\<lparr>ps_manager := s', ps_requests := qs, ps_responses := ps_responses y @ [r]\<rparr>" and ?s = "ps_manager y"
  let ?A = "concat (map response_items (ps_responses y))" and ?B = "concat (map request_items qs)"
  have it: "items y = ?A @ request_items q @ ?B" "items ?y = ?A @ response_items r @ ?B" by (simp_all add: items_def q)
  have dis: "distinct (map fst (items y))" and m: "manager_ok False ?s" using ok by (simp_all add: patching_ok_def)
  have iok: "item_ok (ps_table y) ?s x" if "x \<in> set (items y)" for x using ok that by (simp add: patching_ok_def)
  have was: "is_patched ?s (fst x) = fst (snd x)" if "x \<in> set (request_items q)" for x
    using iok [of x] request_items_open [OF that] that by (simp add: it item_ok_def split_def Let_def)
  have "distinct (map fst (request_items q))" using dis by (simp add: it)
  note hr = handled_request [OF h m small this]
  have hd: "manager_ok False s'" "map fst (response_items r) = map fst (request_items q)"
      "\<And>k. k \<notin> fst ` set (request_items q) \<Longrightarrow> is_patched s' k = is_patched ?s k"
      "\<And>x. x \<in> set (response_items r) \<Longrightarrow> (fst x, fst (snd x), None) \<in> set (request_items q) \<and>
        (snd (snd x) = Some Patch_Ok \<and> is_patched s' (fst x) = (\<not> fst (snd x)) \<or> snd (snd x) = Some Patch_Error \<and> is_patched s' (fst x) = fst (snd x))"
    using hr was by blast+
  have keys: "fst ` set (response_items r) = fst ` set (request_items q)" using hd(2) by (metis list.set_map)
  have d: "distinct (map fst (items ?y))" using dis by (simp add: it hd(2) keys)
  have same: "item_ok (ps_table y) s' x" if "x \<in> set ?A \<union> set ?B" for x
  proof -
    have "fst x \<notin> fst ` set (request_items q)" using dis [unfolded it] that by (rule parts_apart)
    with hd(3) have "is_patched s' (fst x) = is_patched ?s (fst x)" by simp
    moreover have "item_ok (ps_table y) ?s x" using that by (intro iok) (auto simp: it)
    ultimately show ?thesis using item_ok_cong by blast
  qed
  have answered: "item_ok (ps_table y) s' x" if "x \<in> set (response_items r)" for x
  proof -
    note x = hd(4) [OF that]
    have "item_ok (ps_table y) ?s (fst x, fst (snd x), None)" using x by (intro iok) (simp add: it)
    with x show ?thesis by (auto simp: item_ok_def split_def Let_def)
  qed
  have rest: "\<not> pt_requested (patch_at (ps_table y) k) \<and> pt_active (patch_at (ps_table y) k) = is_patched s' k" if "k \<notin> fst ` set (items ?y)" for k
  proof -
    have "fst ` set (items ?y) = fst ` set (items y)" unfolding it using keys by (simp add: image_Un)
    with that have "k \<notin> fst ` set (items y)" "k \<notin> fst ` set (request_items q)" by (auto simp: it)
    with settled [OF ok] hd(3) show ?thesis by simp
  qed
  have all: "item_ok (ps_table y) s' x" if "x \<in> set (items ?y)" for x
  proof -
    have "x \<in> set ?A \<union> set ?B \<or> x \<in> set (response_items r)" using that unfolding it set_append by blast
    then show ?thesis using same [of x] answered [of x] by blast
  qed
  show ?thesis unfolding patching_ok_def
  proof (intro conjI ballI allI impI)
    show "manager_ok False (ps_manager ?y)" using hd(1) by simp
    show "distinct (map fst (items ?y))" by (rule d)
  qed (use all rest in simp_all)
qed

text \<open>The frontend hears the oldest answer.\<close>

lemma response_at:
  assumes "distinct (map fst (response_items r))"
  shows "k \<notin> fst ` set (response_items r) \<Longrightarrow> patch_at (frontend_response r t) k = patch_at t k"
    "x \<in> set (response_items r) \<Longrightarrow> \<exists>n. patch_at (frontend_response r t) (fst x) = set_complete (the (snd (snd x))) (\<not> fst (snd x)) ((patch_at t (fst x))\<lparr>pt_id := n\<rparr>)"
proof -
  show "patch_at (frontend_response r t) k = patch_at t k" if "k \<notin> fst ` set (response_items r)"
  proof (cases r)
    case (Response_Patched i rs)
    have "distinct (map fst rs)" using assms by (simp add: Response_Patched o_def split_def distinct_map inj_on_def)
    moreover have "map_of rs (snd k) = None" if "fst k = i" using that \<open>k \<notin> _\<close> by (cases k) (auto simp: Response_Patched map_of_eq_None_iff image_iff split_def)
    ultimately show ?thesis by (simp add: Response_Patched frontend_patched_at)
  next
    case (Response_Reverted i rs)
    have "distinct (map fst rs)" using assms by (simp add: Response_Reverted o_def split_def distinct_map inj_on_def)
    moreover have "map_of rs (snd k) = None" if "fst k = i" using that \<open>k \<notin> _\<close> by (cases k) (auto simp: Response_Reverted map_of_eq_None_iff image_iff split_def)
    ultimately show ?thesis by (simp add: Response_Reverted frontend_reverted_at)
  qed
  show "\<exists>n. patch_at (frontend_response r t) (fst x) = set_complete (the (snd (snd x))) (\<not> fst (snd x)) ((patch_at t (fst x))\<lparr>pt_id := n\<rparr>)"
    if x: "x \<in> set (response_items r)"
  proof (cases r)
    case (Response_Patched i rs)
    have "distinct (map fst rs)" using assms by (simp add: Response_Patched o_def split_def distinct_map inj_on_def)
    moreover obtain rva a where "(rva, a) \<in> set rs" "x = ((i, rva), False, Some (pa_result a))" using x by (auto simp: Response_Patched)
    ultimately show ?thesis by (auto simp: Response_Patched frontend_patched_at)
  next
    case (Response_Reverted i rs)
    have "distinct (map fst rs)" using assms by (simp add: Response_Reverted o_def split_def distinct_map inj_on_def)
    moreover obtain rva e where "(rva, e) \<in> set rs" "x = ((i, rva), True, Some e)" using x by (auto simp: Response_Reverted)
    ultimately have "patch_at (frontend_response r t) (fst x) = set_complete (the (snd (snd x))) (\<not> fst (snd x)) ((patch_at t (fst x))\<lparr>pt_id := pt_id (patch_at t (fst x))\<rparr>)"
      by (simp add: Response_Reverted frontend_reverted_at)
    then show ?thesis by blast
  qed
qed

lemma patching_hears:
  assumes ok: "patching_ok y" and r: "ps_responses y = r # rs"
  shows "patching_ok (y\<lparr>ps_table := frontend_response r (ps_table y), ps_responses := rs\<rparr>)"
proof -
  let ?t = "frontend_response r (ps_table y)" and ?s = "ps_manager y"
  let ?y = "y\<lparr>ps_table := ?t, ps_responses := rs\<rparr>" and ?B = "concat (map response_items rs) @ concat (map request_items (ps_requests y))"
  have it: "items y = response_items r @ ?B" "items ?y = ?B" by (simp_all add: items_def r)
  have dis: "distinct (map fst (items y))" using ok by (simp add: patching_ok_def)
  have iok: "item_ok (ps_table y) ?s x" if "x \<in> set (items y)" for x using ok that by (simp add: patching_ok_def)
  have "distinct (map fst (response_items r))" using dis by (simp add: it)
  note at = response_at [OF this, where t = "ps_table y"]
  have apart: "fst x \<notin> fst ` set (response_items r)" if "x \<in> set ?B" for x
    using parts_apart [of "[]" "response_items r" ?B x] dis [unfolded it] that by simp
  have same: "item_ok ?t ?s x" if "x \<in> set ?B" for x
  proof -
    have "fst x \<notin> fst ` set (response_items r)" using that by (rule apart)
    then have "patch_at ?t (fst x) = patch_at (ps_table y) (fst x)" by (rule at(1))
    moreover have "item_ok (ps_table y) ?s x" using that by (intro iok) (simp add: it)
    ultimately show ?thesis using item_ok_cong by blast
  qed
  have heard: "\<not> pt_requested (patch_at ?t (fst x)) \<and> pt_active (patch_at ?t (fst x)) = is_patched ?s (fst x)" if x: "x \<in> set (response_items r)" for x
  proof -
    obtain n where n: "patch_at ?t (fst x) = set_complete (the (snd (snd x))) (\<not> fst (snd x)) ((patch_at (ps_table y) (fst x))\<lparr>pt_id := n\<rparr>)"
      using at(2) [OF x] by blast
    have "\<exists>a. snd (snd x) = Some a" using x by (cases r) auto
    then obtain a where a: "snd (snd x) = Some a" by blast
    have "item_ok (ps_table y) ?s x" using x by (intro iok) (simp add: it)
    then show ?thesis unfolding n by (cases a) (simp_all add: item_ok_def split_def Let_def a set_complete_def)
  qed
  have rest: "\<not> pt_requested (patch_at ?t k) \<and> pt_active (patch_at ?t k) = is_patched ?s k" if "k \<notin> fst ` set ?B" for k
  proof (cases "k \<in> fst ` set (response_items r)")
    case True
    with heard show ?thesis by blast
  next
    case False
    with that have "k \<notin> fst ` set (items y)" unfolding it by auto
    with settled [OF ok] at(1) [OF False] show ?thesis by simp
  qed
  have "distinct (map fst ?B)" using dis by (simp add: it)
  then show ?thesis unfolding patching_ok_def it(2) using ok same rest by (simp add: patching_ok_def)
qed

lemma patching_reachable_ok:
  "patching_reachable e mapping pm y \<Longrightarrow> length (pe_trampoline_proto e) \<le> block_size \<Longrightarrow> patching_ok y"
proof (induction rule: patching_reachable.induct)
  case patching_start
  show ?case by (simp add: patching_ok_def items_def manager_ok_def patch_at_def patch_init_def is_patched_def pm_image_def image_patch_init_def patched_on_def)
next
  case (user_applies y i rvas targets t)
  then show ?case by (intro patching_asks [OF _ frontend_apply_requests, where q = "Request_Apply i targets"]) auto
next
  case (user_reverts y i rvas targets t)
  then show ?case by (intro patching_asks [OF _ frontend_revert_requests, where q = "Request_Revert i targets"]) auto
next
  case (collector_handles y q qs r s)
  then show ?case by (intro patching_handles) auto
next
  case (frontend_hears y r rs)
  then show ?case by (intro patching_hears) auto
qed

text \<open>
  C20. The frontend knows what is patched. Whatever the user asks for and however requests and answers
  cross, a function with no request under way is shown as active exactly if it is patched in the
  process, a function is never asked for twice at a time, and once everything has been answered no
  function is shown as requested.
\<close>

theorem frontend_knows_patches:
  assumes "patching_reachable e mapping pm y" "length (pe_trampoline_proto e) \<le> block_size"
  shows "(\<not> pt_requested (patch_at (ps_table y) (i, rva)) \<longrightarrow> pt_active (patch_at (ps_table y) (i, rva)) = patched_on (pm_image (ps_manager y) i) rva) \<and>
    length (filter (\<lambda>x. fst x = (i, rva)) (items y)) = (if pt_requested (patch_at (ps_table y) (i, rva)) then 1 else 0)"
proof -
  have ok: "patching_ok y" using assms by (rule patching_reachable_ok)
  let ?k = "(i, rva)"
  show ?thesis
  proof (cases "?k \<in> fst ` set (items y)")
    case True
    then obtain x where x: "x \<in> set (items y)" "fst x = ?k" by auto
    have d: "distinct (map fst (items y))" using ok by (simp add: patching_ok_def)
    have "pt_requested (patch_at (ps_table y) ?k)" using ok x by (auto simp: patching_ok_def item_ok_def split_def Let_def)
    moreover have "filter (\<lambda>x. fst x = ?k) xs = [x]" if "x \<in> set xs" "fst x = ?k" "distinct (map fst xs)" for xs :: "patch_item list"
      using that by (induction xs) (auto simp: filter_empty_conv rev_image_eqI)
    ultimately show ?thesis using x d by simp
  next
    case False
    then have "filter (\<lambda>x. fst x = ?k) (items y) = []" by (auto simp: filter_empty_conv rev_image_eqI)
    with settled [OF ok False] show ?thesis by (simp add: is_patched_def)
  qed
qed

theorem frontend_knows_patches_witness:
  "\<exists>y. patching_reachable sample_env (\<lambda>_. (0, 7)) (pm_memory sample_manager) y \<and> pt_active (patch_at (ps_table y) (1, 1000)) \<and>
     patched_on (pm_image (ps_manager y) 1) 1000"
proof -
  let ?R = "patching_reachable sample_env (\<lambda>_. (0, 7)) (pm_memory sample_manager)"
  let ?p = "patch_init\<lparr>pt_requested := True\<rparr>" and ?m = "\<lparr>pa_result = Patch_Ok, pa_id = 0\<rparr>"
  let ?y0 = "\<lparr>ps_table = [], ps_manager = sample_manager, ps_requests = [], ps_responses = []\<rparr>"
  obtain s where a: "apply_patches sample_env 1 0 (Some 7) [1000] [] sample_manager = Some (None, [(1000, ?m)], s)" using sample_apply by blast
  have y0: "?R ?y0" using patching_start [of sample_env "\<lambda>_. (0, 7)" "pm_memory sample_manager"] by (simp add: sample_manager_def)
  have "frontend_apply 1 [1000] [] = ([1000], [((1, 1000), ?p)])" by (simp add: set_requested_def patch_at_def patch_init_def)
  with user_applies [OF y0, of 1 "[1000]"] have y1: "?R (?y0\<lparr>ps_table := [((1, 1000), ?p)], ps_requests := [Request_Apply 1 [1000]]\<rparr>)" by simp
  from collector_handles [OF y1, of "Request_Apply 1 [1000]" "[]" "Response_Patched 1 [(1000, ?m)]" s] a
  have y2: "?R \<lparr>ps_table = [((1, 1000), ?p)], ps_manager = s, ps_requests = [], ps_responses = [Response_Patched 1 [(1000, ?m)]]\<rparr>" by simp
  from frontend_hears [OF y2, of "Response_Patched 1 [(1000, ?m)]" "[]"]
  have y3: "?R \<lparr>ps_table = frontend_patched 1 [(1000, ?m)] [((1, 1000), ?p)], ps_manager = s, ps_requests = [], ps_responses = []\<rparr>" by simp
  have t: "patch_at (frontend_patched 1 [(1000, ?m)] [((1, 1000), ?p)]) (1, 1000) = patch_init\<lparr>pt_active := True\<rparr>"
    by (simp add: patch_at_def set_complete_def patch_init_def)
  from frontend_knows_patches [OF y3 sample_small, of 1 1000] t have "patched_on (pm_image s 1) 1000" by (simp add: patch_init_def)
  with y3 t show ?thesis by (intro exI [of _ "\<lparr>ps_table = frontend_patched 1 [(1000, ?m)] [((1, 1000), ?p)], ps_manager = s, ps_requests = [], ps_responses = []\<rparr>"]) simp
qed

end
