(* ===== verification/Call_Hierarchy.thy ===== *)
theory Call_Hierarchy
  imports Primitives
begin

text \<open>
  The tree of calls as the frontend shows it: nodes with their paths (\<^verbatim>\<open>frontend/primitives.h\<close>), the
  comparisons of the columns (\<^verbatim>\<open>frontend/src/columns_layout.cpp\<close>, \<^verbatim>\<open>frontend/helpers.h\<close>) and the order of
  rows (\<^verbatim>\<open>frontend/hierarchy.h\<close>, \<^verbatim>\<open>frontend/statistic_models.h\<close>). Looking a node up by its number, the name of a
  function and the information on a thread are arguments. The path is computed when it is first needed
  and kept; as a node never changes its place this is not represented.
\<close>

section \<open>Nodes\<close>

record call_statistics =
  cl_id :: u32
  cl_thread_id :: u32
  cl_parent_id :: u32
  cl_address :: u64
  cl_function :: function_statistics

type_synonym lookup = "u32 \<Rightarrow> call_statistics option"

text \<open>The ancestors, from the parent up. A cycle of parents would never end.\<close>

partial_function (option) ancestors :: "lookup \<Rightarrow> u32 \<Rightarrow> call_statistics list option" where
  "ancestors by_id parent_id =
     (case by_id parent_id of
        None \<Rightarrow> Some []
      | Some item \<Rightarrow> Option.bind (ancestors by_id (cl_parent_id item)) (\<lambda>up. Some (item # up)))"

definition call_path :: "lookup \<Rightarrow> call_statistics \<Rightarrow> u32 list option" where
  "call_path by_id x = map_option (\<lambda>up. rev (cl_id x # map cl_id up)) (ancestors by_id (cl_parent_id x))"

definition reentrance :: "lookup \<Rightarrow> call_statistics \<Rightarrow> nat option" where
  "reentrance by_id x = map_option (\<lambda>up. length (filter (\<lambda>a. cl_address a = cl_address x) up)) (ancestors by_id (cl_parent_id x))"

definition add_node :: "lookup \<Rightarrow> call_statistics \<Rightarrow> call_statistics \<Rightarrow> call_statistics option" where
  "add_node by_id lhs rhs = map_option (\<lambda>r.
     let l = cl_function lhs; f = cl_function rhs;
         l = l\<lparr>times_called := times_called l + times_called f, exclusive_time := exclusive_time l + exclusive_time f\<rparr>
     in lhs\<lparr>cl_function :=
          (if r = 0 then l\<lparr>inclusive_time := inclusive_time l + inclusive_time f,
                           max_call_time := (if max_call_time f > max_call_time l then max_call_time f else max_call_time l)\<rparr>
           else l)\<rparr>) (reentrance by_id rhs)"

fun add_nodes :: "lookup \<Rightarrow> call_statistics \<Rightarrow> call_statistics list \<Rightarrow> call_statistics option" where
  "add_nodes by_id aggregated [] = Some aggregated"
| "add_nodes by_id aggregated (x # xs) = Option.bind (add_node by_id aggregated x) (\<lambda>a. add_nodes by_id a xs)"

definition sum_flat :: "lookup \<Rightarrow> call_statistics \<Rightarrow> call_statistics list \<Rightarrow> call_statistics option" where
  "sum_flat by_id aggregated nodes = add_nodes by_id (aggregated\<lparr>cl_parent_id := 0, cl_function := function_statistics_init\<rparr>) nodes"

section \<open>Comparisons\<close>

definition compare :: "'a::linorder \<Rightarrow> 'a \<Rightarrow> int" where
  "compare lhs rhs = (if lhs = rhs then 0 else if lhs < rhs then -1 else 1)"

definition compare_pointers :: "'a option \<Rightarrow> 'a option \<Rightarrow> int" where
  "compare_pointers lhs rhs = (if (lhs \<noteq> None) = (rhs \<noteq> None) then 0 else if lhs = None then -1 else 1)"

text \<open>A time by a count is an unsigned product: it wraps.\<close>

definition compare_ratios :: "timestamp_t \<Rightarrow> count_t \<Rightarrow> timestamp_t \<Rightarrow> count_t \<Rightarrow> int" where
  "compare_ratios lhs lhs_denominator rhs rhs_denominator =
     (if (lhs_denominator = 0) = (rhs_denominator = 0) then compare (word_of_int lhs * rhs_denominator) (word_of_int rhs * lhs_denominator)
      else if rhs_denominator = 0 then -1 else 1)"

text \<open>\<^verbatim>\<open>strcmp\<close>, by the sign.\<close>

fun strcmp :: "nat list \<Rightarrow> nat list \<Rightarrow> int" where
  "strcmp [] [] = 0"
| "strcmp [] (_ # _) = -1"
| "strcmp (_ # _) [] = 1"
| "strcmp (a # as) (b # bs) = (if a = b then strcmp as bs else if a < b then -1 else 1)"

datatype column = By_Index | By_Name | By_Thread | By_Times_Called | By_Exclusive | By_Inclusive | By_Avg_Exclusive | By_Avg_Inclusive | By_Max

text \<open>The comparison of a column; the first one has none.\<close>

fun column_compare :: "(u64 \<Rightarrow> nat list) \<Rightarrow> (u32 \<Rightarrow> u64 option) \<Rightarrow> column \<Rightarrow> (call_statistics \<Rightarrow> call_statistics \<Rightarrow> int) option" where
  "column_compare name native_id By_Index = None"
| "column_compare name native_id By_Name = Some (\<lambda>l r. strcmp (name (cl_address l)) (name (cl_address r)))"
| "column_compare name native_id By_Thread = Some (\<lambda>l r.
     let c = compare_pointers (native_id (cl_thread_id l)) (native_id (cl_thread_id r))
     in if c \<noteq> 0 then c
        else (case native_id (cl_thread_id l) of
                Some i \<Rightarrow> compare i (case native_id (cl_thread_id r) of Some j \<Rightarrow> j | None \<Rightarrow> 0)
              | None \<Rightarrow> 0))"
| "column_compare name native_id By_Times_Called = Some (\<lambda>l r. compare (times_called (cl_function l)) (times_called (cl_function r)))"
| "column_compare name native_id By_Exclusive = Some (\<lambda>l r. compare (exclusive_time (cl_function l)) (exclusive_time (cl_function r)))"
| "column_compare name native_id By_Inclusive = Some (\<lambda>l r. compare (inclusive_time (cl_function l)) (inclusive_time (cl_function r)))"
| "column_compare name native_id By_Avg_Exclusive = Some (\<lambda>l r.
     compare_ratios (exclusive_time (cl_function l)) (times_called (cl_function l)) (exclusive_time (cl_function r)) (times_called (cl_function r)))"
| "column_compare name native_id By_Avg_Inclusive = Some (\<lambda>l r.
     compare_ratios (inclusive_time (cl_function l)) (times_called (cl_function l)) (inclusive_time (cl_function r)) (times_called (cl_function r)))"
| "column_compare name native_id By_Max = Some (\<lambda>l r. compare (max_call_time (cl_function l)) (max_call_time (cl_function r)))"

section \<open>The order of rows\<close>

record 't hierarchy_access =
  same_parent :: "'t \<Rightarrow> 't \<Rightarrow> bool"
  access_path :: "'t \<Rightarrow> u32 list"
  access_lookup :: "u32 \<Rightarrow> 't"
  total_less :: "'t \<Rightarrow> 't \<Rightarrow> bool"

definition hierarchy_plain :: "'t \<Rightarrow> 't hierarchy_access" where
  "hierarchy_plain x = \<lparr>same_parent = (\<lambda>_ _. True), access_path = (\<lambda>_. []), access_lookup = (\<lambda>_. x), total_less = (\<lambda>_ _. False)\<rparr>"

text \<open>A lookup that finds nothing is dereferenced by the code; the argument \<open>x\<close> stands for what is there.\<close>

definition stack_hierarchy_access :: "call_statistics \<Rightarrow> lookup \<Rightarrow> call_statistics hierarchy_access" where
  "stack_hierarchy_access x by_id =
     \<lparr>same_parent = (\<lambda>lhs rhs. cl_parent_id lhs = cl_parent_id rhs),
      access_path = (\<lambda>item. case call_path by_id item of Some p \<Rightarrow> p | None \<Rightarrow> []),
      access_lookup = (\<lambda>i. case by_id i of Some item \<Rightarrow> item | None \<Rightarrow> x),
      total_less = (\<lambda>lhs rhs. cl_id lhs < cl_id rhs)\<rparr>"

definition total_predicate :: "'t hierarchy_access \<Rightarrow> ('t \<Rightarrow> 't \<Rightarrow> int) \<Rightarrow> 't \<Rightarrow> 't \<Rightarrow> bool" where
  "total_predicate access predicate lhs rhs =
     (let result = predicate lhs rhs in if result \<noteq> 0 then result < 0 else total_less access lhs rhs)"

fun first_difference :: "'a list \<Rightarrow> 'a list \<Rightarrow> ('a \<times> 'a) option" where
  "first_difference (a # as) (b # bs) = (if a = b then first_difference as bs else Some (a, b))"
| "first_difference _ _ = None"

definition hierarchical_less :: "'t hierarchy_access \<Rightarrow> ('t \<Rightarrow> 't \<Rightarrow> int) \<Rightarrow> 't \<Rightarrow> 't \<Rightarrow> bool" where
  "hierarchical_less access predicate lhs rhs =
     (if same_parent access lhs rhs then total_predicate access predicate lhs rhs
      else
        (case first_difference (access_path access lhs) (access_path access rhs) of
           Some (l, r) \<Rightarrow> total_predicate access predicate (access_lookup access l) (access_lookup access r)
         | None \<Rightarrow> length (access_path access lhs) < length (access_path access rhs)))"

text \<open>
  The order \<^verbatim>\<open>table_model_impl\<close> gives to its rows: for no column, for a column with a comparison; a column
  without one leaves the order as it was.
\<close>

definition set_row_order :: "'t hierarchy_access \<Rightarrow> ('c \<Rightarrow> ('t \<Rightarrow> 't \<Rightarrow> int) option) \<Rightarrow> ('t \<Rightarrow> 't \<Rightarrow> bool) \<Rightarrow> 'c option \<Rightarrow> bool \<Rightarrow> 't \<Rightarrow> 't \<Rightarrow> bool" where
  "set_row_order access cmp_of current c ascending =
     (case c of
        None \<Rightarrow> hierarchical_less access (\<lambda>_ _. 0)
      | Some k \<Rightarrow>
          (case cmp_of k of
             None \<Rightarrow> current
           | Some cmp \<Rightarrow> hierarchical_less access (if ascending then cmp else (\<lambda>lhs rhs. cmp rhs lhs))))"

text \<open>The order after some calls of \<^verbatim>\<open>set_order\<close>, beginning with that of the constructor.\<close>

definition row_order :: "'t hierarchy_access \<Rightarrow> ('c \<Rightarrow> ('t \<Rightarrow> 't \<Rightarrow> int) option) \<Rightarrow> ('c option \<times> bool) list \<Rightarrow> 't \<Rightarrow> 't \<Rightarrow> bool" where
  "row_order access cmp_of choices =
     fold (\<lambda>(c, ascending) current. set_row_order access cmp_of current c ascending) choices (hierarchical_less access (\<lambda>_ _. 0))"

section \<open>Three-way comparisons\<close>

text \<open>
  What sorting relies on in a comparison of some elements: swapping the sides swaps the sign, and not
  being greater is transitive.
\<close>

locale two_way =
  fixes S :: "'a set" and cmp :: "'a \<Rightarrow> 'a \<Rightarrow> int"
  assumes swap: "x \<in> S \<Longrightarrow> y \<in> S \<Longrightarrow> cmp x y < 0 \<longleftrightarrow> 0 < cmp y x"
begin

lemma self: "x \<in> S \<Longrightarrow> cmp x x = 0"
  using swap [of x x] by linarith

lemma zero_swap: "x \<in> S \<Longrightarrow> y \<in> S \<Longrightarrow> cmp x y = 0 \<longleftrightarrow> cmp y x = 0"
  using swap [of x y] swap [of y x] by linarith

text \<open>With a number to break ties any two that differ in it are in one order.\<close>

definition tie_break :: "('a \<Rightarrow> 'n::linorder) \<Rightarrow> 'a \<Rightarrow> 'a \<Rightarrow> bool" where
  "tie_break key x y \<longleftrightarrow> (if cmp x y \<noteq> 0 then cmp x y < 0 else key x < key y)"

lemma tie_break_irrefl: "x \<in> S \<Longrightarrow> \<not> tie_break key x x"
  by (simp add: tie_break_def self)

lemma tie_break_asym: "x \<in> S \<Longrightarrow> y \<in> S \<Longrightarrow> tie_break key x y \<Longrightarrow> \<not> tie_break key y x"
  using swap [of x y] swap [of y x] zero_swap [of x y] by (auto simp: tie_break_def split: if_splits)

lemma tie_break_total: "x \<in> S \<Longrightarrow> y \<in> S \<Longrightarrow> key x \<noteq> key y \<Longrightarrow> tie_break key x y \<or> tie_break key y x"
  using swap [of x y] swap [of y x] zero_swap [of x y] by (auto simp: tie_break_def)

end

locale three_way = two_way +
  assumes le_trans: "x \<in> S \<Longrightarrow> y \<in> S \<Longrightarrow> z \<in> S \<Longrightarrow> cmp x y \<le> 0 \<Longrightarrow> cmp y z \<le> 0 \<Longrightarrow> cmp x z \<le> 0"
begin

lemma less_le_trans: "x \<in> S \<Longrightarrow> y \<in> S \<Longrightarrow> z \<in> S \<Longrightarrow> cmp x y < 0 \<Longrightarrow> cmp y z \<le> 0 \<Longrightarrow> cmp x z < 0"
  using le_trans [of y z x] swap [of x y] swap [of x z] swap [of z x] by linarith

lemma le_less_trans: "x \<in> S \<Longrightarrow> y \<in> S \<Longrightarrow> z \<in> S \<Longrightarrow> cmp x y \<le> 0 \<Longrightarrow> cmp y z < 0 \<Longrightarrow> cmp x z < 0"
  using le_trans [of z x y] swap [of y z] swap [of x z] swap [of z x] by linarith

text \<open>With a number to break ties it is a strict linear order.\<close>

lemma tie_break_trans:
  assumes S: "x \<in> S" "y \<in> S" "z \<in> S" and a: "tie_break key x y" "tie_break key y z"
  shows "tie_break key x z"
proof -
  from a have le: "cmp x y \<le> 0" "cmp y z \<le> 0" by (auto simp: tie_break_def split: if_splits)
  show "tie_break key x z"
  proof (cases "cmp x y < 0 \<or> cmp y z < 0")
    case True
    then have "cmp x z < 0" using less_le_trans [OF S] le_less_trans [OF S] le by blast
    then show ?thesis by (simp add: tie_break_def)
  next
    case False
    then have z: "cmp x y = 0" "cmp y z = 0" using le by auto
    then have "cmp z x \<le> 0" using le_trans [of z y x] zero_swap [of x y] zero_swap [of y z] S by simp
    moreover have "cmp x z \<le> 0" using S le by (rule le_trans)
    ultimately have "cmp x z = 0" using swap [of x z] swap [of z x] S by linarith
    with a z show ?thesis by (simp add: tie_break_def)
  qed
qed

end

interpretation keyed: three_way S "\<lambda>l r. compare (k l) (k r)" for S and k :: "'a \<Rightarrow> 'b::linorder"
  by unfold_locales (auto simp: compare_def split: if_splits)

interpretation unordered_rows: three_way S "\<lambda>_ _. 0" for S
  by unfold_locales auto

lemma strcmp_swap: "strcmp as bs < 0 \<longleftrightarrow> 0 < strcmp bs as"
  by (induction as bs rule: strcmp.induct) auto

lemma strcmp_trans: "strcmp as bs \<le> 0 \<Longrightarrow> strcmp bs cs \<le> 0 \<Longrightarrow> strcmp as cs \<le> 0"
proof (induction as bs arbitrary: cs rule: strcmp.induct)
  case 1
  then show ?case by simp
next
  case (2 b bs)
  then show ?case by (cases cs) auto
next
  case (3 a as)
  then show ?case by simp
next
  case (4 a as b bs)
  then show ?case by (cases cs) (auto split: if_splits)
qed

interpretation named: three_way S "\<lambda>l r. strcmp (f l) (f r)" for S and f :: "'a \<Rightarrow> nat list"
  by unfold_locales (rule strcmp_swap, rule strcmp_trans)

lemma two_way_reversed: "two_way S cmp \<Longrightarrow> two_way S (\<lambda>x y. cmp y x)"
  unfolding two_way_def by blast

lemma three_way_reversed: "three_way S cmp \<Longrightarrow> three_way S (\<lambda>x y. cmp y x)"
  unfolding three_way_def two_way_def three_way_axioms_def by blast

lemmas three_way_two_way = three_way.axioms(1)

section \<open>Averages\<close>

text \<open>Averages are compared by cross multiplication, which is right as long as the products fit.\<close>

definition averages_fit :: "('a \<Rightarrow> timestamp_t) \<Rightarrow> ('a \<Rightarrow> count_t) \<Rightarrow> 'a set \<Rightarrow> bool" where
  "averages_fit t n S \<longleftrightarrow> (\<forall>x\<in>S. \<forall>y\<in>S. 0 \<le> t x \<and> t x * uint (n y) < 2 ^ 64)"

lemma product_fits: "0 \<le> a \<Longrightarrow> a * uint d < 2 ^ 64 \<Longrightarrow> uint (word_of_int a * d :: u64) = a * uint d"
proof -
  assume a: "0 \<le> a" "a * uint d < 2 ^ 64"
  have "word_of_int a * d = (word_of_int (a * uint d) :: u64)" by simp
  also have "uint \<dots> = (a * uint d) mod 2 ^ 64" by (simp only: uint_word_of_int) simp
  finally show ?thesis using a by simp
qed

lemma compare_ratios_fit:
  "averages_fit t n S \<Longrightarrow> x \<in> S \<Longrightarrow> y \<in> S \<Longrightarrow> n x \<noteq> 0 \<Longrightarrow> n y \<noteq> 0
   \<Longrightarrow> compare_ratios (t x) (n x) (t y) (n y) = compare (t x * uint (n y)) (t y * uint (n x))"
  by (simp add: compare_ratios_def compare_def averages_fit_def product_fits word_less_def word_uint_eq_iff)

lemma compare_ratios_zero:
  "n = 0 \<Longrightarrow> m = 0 \<Longrightarrow> compare_ratios a n b m = 0"
  "n \<noteq> 0 \<Longrightarrow> m = 0 \<Longrightarrow> compare_ratios a n b m = -1"
  "n = 0 \<Longrightarrow> m \<noteq> 0 \<Longrightarrow> compare_ratios a n b m = 1"
  by (simp_all add: compare_ratios_def compare_def)

lemma cross_multiply_trans:
  assumes "a * e \<le> c * b" "c * g \<le> f * e" "(0::int) < e" "0 < b" "0 < g"
  shows "a * g \<le> f * b"
proof -
  have "e * (a * g) \<le> c * b * g" using assms(1,5) mult_right_mono [of "a * e" "c * b" g] by (simp add: ac_simps)
  also have "\<dots> \<le> e * (f * b)" using assms(2,4) mult_right_mono [of "c * g" "f * e" b] by (simp add: ac_simps)
  finally show ?thesis using assms(3) by simp
qed

text \<open>The sign is swapped with the sides even where a product wraps.\<close>

interpretation averages: two_way S "\<lambda>l r. compare_ratios (t l) (n l) (t r) (n r)"
  for S and t :: "'a \<Rightarrow> timestamp_t" and n :: "'a \<Rightarrow> count_t"
  by unfold_locales (auto simp: compare_ratios_def compare_def)

lemma compare_signs: "compare x y < 0 \<longleftrightarrow> x < y" "0 < compare x y \<longleftrightarrow> y < x" "compare x y \<le> 0 \<longleftrightarrow> x \<le> y"
  for x y :: "'a::linorder"
  by (auto simp: compare_def)

lemma averages_three_way:
  assumes fit: "averages_fit t n S"
  shows "three_way S (\<lambda>l r. compare_ratios (t l) (n l) (t r) (n r))"
proof unfold_locales
  fix x y z assume S: "x \<in> S" "y \<in> S" "z \<in> S"
    and le: "compare_ratios (t x) (n x) (t y) (n y) \<le> 0" "compare_ratios (t y) (n y) (t z) (n z) \<le> 0"
  have pos: "n v \<noteq> 0 \<Longrightarrow> 0 < uint (n v)" for v
    using uint_ge_0 [of "n v"] by (simp add: word_uint_eq_iff order_less_le)
  show "compare_ratios (t x) (n x) (t z) (n z) \<le> 0"
  proof (cases "n z = 0")
    case True
    then show ?thesis by (cases "n x = 0") (simp_all add: compare_ratios_zero)
  next
    case False
    with le have nz: "n y \<noteq> 0" "n x \<noteq> 0"
      by (cases "n y = 0"; cases "n x = 0"; simp add: compare_ratios_zero)+
    show ?thesis
      using le False nz compare_ratios_fit [OF fit S(1,2)] compare_ratios_fit [OF fit S(2,3)] compare_ratios_fit [OF fit S(1,3)]
      by (simp add: compare_signs) (rule cross_multiply_trans [where e = "uint (n y)"], simp_all add: pos)
  qed
qed

text \<open>The comparison by thread is by a number too.\<close>

definition thread_rank :: "u64 option \<Rightarrow> nat" where
  "thread_rank i = (case i of None \<Rightarrow> 0 | Some j \<Rightarrow> Suc (unat j))"

lemma by_thread_rank:
  "column_compare name native_id By_Thread
   = Some (\<lambda>l r. compare (thread_rank (native_id (cl_thread_id l))) (thread_rank (native_id (cl_thread_id r))))"
  by (auto simp: Let_def compare_pointers_def compare_def thread_rank_def word_less_nat_alt word_unat_eq_iff fun_eq_iff split: option.splits)

definition times_fit :: "call_statistics set \<Rightarrow> bool" where
  "times_fit S \<longleftrightarrow> averages_fit (\<lambda>x. exclusive_time (cl_function x)) (\<lambda>x. times_called (cl_function x)) S
     \<and> averages_fit (\<lambda>x. inclusive_time (cl_function x)) (\<lambda>x. times_called (cl_function x)) S"

lemma column_three_way:
  assumes c: "column_compare name native_id c = Some cmp"
    and fit: "c \<in> {By_Avg_Exclusive, By_Avg_Inclusive} \<Longrightarrow> times_fit S"
  shows "three_way S cmp"
proof (cases c)
  case By_Thread
  with c have "cmp = (\<lambda>l r. compare (thread_rank (native_id (cl_thread_id l))) (thread_rank (native_id (cl_thread_id r))))"
    by (simp only: by_thread_rank option.inject)
  then show ?thesis using keyed.three_way_axioms [of S "\<lambda>l. thread_rank (native_id (cl_thread_id l))"] by simp
next
  case By_Name
  with c show ?thesis using named.three_way_axioms [of S "\<lambda>l. name (cl_address l)"] by simp
next
  case By_Avg_Exclusive
  with c fit show ?thesis
    using averages_three_way [of "\<lambda>x. exclusive_time (cl_function x)" "\<lambda>x. times_called (cl_function x)" S]
    by (simp add: times_fit_def)
next
  case By_Avg_Inclusive
  with c fit show ?thesis
    using averages_three_way [of "\<lambda>x. inclusive_time (cl_function x)" "\<lambda>x. times_called (cl_function x)" S]
    by (simp add: times_fit_def)
next
  case By_Times_Called
  with c show ?thesis using keyed.three_way_axioms [of S "\<lambda>l. times_called (cl_function l)"] by simp
next
  case By_Exclusive
  with c show ?thesis using keyed.three_way_axioms [of S "\<lambda>l. exclusive_time (cl_function l)"] by simp
next
  case By_Inclusive
  with c show ?thesis using keyed.three_way_axioms [of S "\<lambda>l. inclusive_time (cl_function l)"] by simp
next
  case By_Max
  with c show ?thesis using keyed.three_way_axioms [of S "\<lambda>l. max_call_time (cl_function l)"] by simp
qed (use c in simp)

lemma column_two_way: "column_compare name native_id c = Some cmp \<Longrightarrow> two_way S cmp"
  using column_three_way [of name native_id c cmp S]
    averages.two_way_axioms [of S "\<lambda>x. exclusive_time (cl_function x)" "\<lambda>x. times_called (cl_function x)"]
    averages.two_way_axioms [of S "\<lambda>x. inclusive_time (cl_function x)" "\<lambda>x. times_called (cl_function x)"]
  by (cases c) (auto dest: three_way_two_way)

section \<open>Flat statistics\<close>

text \<open>The calls of a function that are not made, however indirectly, by the function itself.\<close>

definition outermost :: "lookup \<Rightarrow> call_statistics \<Rightarrow> bool" where
  "outermost by_id x \<longleftrightarrow> reentrance by_id x = Some 0"

definition flat_add :: "lookup \<Rightarrow> call_statistics \<Rightarrow> function_statistics \<Rightarrow> function_statistics" where
  "flat_add by_id x f =
     \<lparr>times_called = times_called f + times_called (cl_function x),
      inclusive_time = inclusive_time f + (if outermost by_id x then inclusive_time (cl_function x) else 0),
      exclusive_time = exclusive_time f + exclusive_time (cl_function x),
      max_call_time = (if outermost by_id x then max (max_call_time (cl_function x)) (max_call_time f) else max_call_time f)\<rparr>"

lemma flat_add_eq:
  "(let l = f\<lparr>times_called := times_called f + n, exclusive_time := exclusive_time f + e\<rparr>
    in if b then l\<lparr>inclusive_time := inclusive_time l + i, max_call_time := (if m > max_call_time l then m else max_call_time l)\<rparr> else l)
   = \<lparr>times_called = times_called f + n, inclusive_time = inclusive_time f + (if b then i else 0),
      exclusive_time = exclusive_time f + e, max_call_time = (if b then max m (max_call_time f) else max_call_time f)\<rparr>"
  by (cases f) (simp add: max_def)

lemma add_node_eq:
  assumes "reentrance by_id x \<noteq> None"
  shows "add_node by_id a x = Some (a\<lparr>cl_function := flat_add by_id x (cl_function a)\<rparr>)"
proof -
  obtain r where r: "reentrance by_id x = Some r" using assms by blast
  have "add_node by_id a x = Some (a\<lparr>cl_function :=
    (let l = (cl_function a)\<lparr>times_called := times_called (cl_function a) + times_called (cl_function x),
                             exclusive_time := exclusive_time (cl_function a) + exclusive_time (cl_function x)\<rparr>
     in if r = 0 then l\<lparr>inclusive_time := inclusive_time l + inclusive_time (cl_function x),
                        max_call_time := (if max_call_time (cl_function x) > max_call_time l then max_call_time (cl_function x) else max_call_time l)\<rparr>
        else l)\<rparr>)"
    unfolding add_node_def r Let_def option.map by (rule refl)
  also have "\<dots> = Some (a\<lparr>cl_function := flat_add by_id x (cl_function a)\<rparr>)"
    unfolding flat_add_eq flat_add_def outermost_def r option.inject by (rule refl)
  finally show ?thesis .
qed

lemma add_nodes_eq:
  "\<forall>x\<in>set xs. reentrance by_id x \<noteq> None
   \<Longrightarrow> add_nodes by_id a xs = Some (a\<lparr>cl_function := fold (flat_add by_id) xs (cl_function a)\<rparr>)"
  by (induction xs arbitrary: a) (simp_all add: add_node_eq)

lemma fold_flat_add_fields:
  "times_called (fold (flat_add by_id) xs f) = times_called f + (\<Sum>x\<leftarrow>xs. times_called (cl_function x))"
  "inclusive_time (fold (flat_add by_id) xs f) = inclusive_time f + (\<Sum>x\<leftarrow>filter (outermost by_id) xs. inclusive_time (cl_function x))"
  "exclusive_time (fold (flat_add by_id) xs f) = exclusive_time f + (\<Sum>x\<leftarrow>xs. exclusive_time (cl_function x))"
  "max_call_time (fold (flat_add by_id) xs f) = fold max (map (\<lambda>x. max_call_time (cl_function x)) (filter (outermost by_id) xs)) (max_call_time f)"
  by (induction xs arbitrary: f) (simp_all add: flat_add_def)

section \<open>The order of a tree\<close>

text \<open>The nodes of a forest: each is found by its own number and the parents of none make a cycle.\<close>

definition forest :: "lookup \<Rightarrow> bool" where
  "forest by_id \<longleftrightarrow> (\<forall>i x. by_id i = Some x \<longrightarrow> cl_id x = i) \<and> (\<forall>i. ancestors by_id i \<noteq> None)"

lemma forest_id: "forest by_id \<Longrightarrow> by_id i = Some x \<Longrightarrow> cl_id x = i"
  by (simp add: forest_def)

lemma forest_found: "forest by_id \<Longrightarrow> x \<in> ran by_id \<Longrightarrow> by_id (cl_id x) = Some x"
  by (auto simp: ran_def dest: forest_id)

lemma forest_ancestors: "forest by_id \<Longrightarrow> \<exists>up. ancestors by_id i = Some up"
  by (auto simp: forest_def)

lemma ancestors_in: "ancestors by_id i = Some up \<Longrightarrow> a \<in> set up \<Longrightarrow> a \<in> ran by_id"
proof (induction up arbitrary: i)
  case Nil
  then show ?case by simp
next
  case (Cons b up)
  from Cons.prems(1) obtain u where "by_id i = Some b" "ancestors by_id (cl_parent_id b) = Some up"
    by (subst (asm) ancestors.simps) (auto split: option.splits bind_splits)
  with Cons.IH [of "cl_parent_id b"] Cons.prems(2) show ?case by (auto simp: ran_def)
qed

definition full_path :: "lookup \<Rightarrow> call_statistics \<Rightarrow> u32 list" where
  "full_path by_id x = (case call_path by_id x of Some p \<Rightarrow> p | None \<Rightarrow> [])"

lemma full_path_eq:
  "ancestors by_id (cl_parent_id x) = Some up \<Longrightarrow> full_path by_id x = rev (map cl_id up) @ [cl_id x]"
  by (simp add: full_path_def call_path_def)

lemma full_path_last: "forest by_id \<Longrightarrow> \<exists>p. full_path by_id x = p @ [cl_id x]"
  using forest_ancestors [of by_id "cl_parent_id x"] full_path_eq by blast

lemma full_path_inj:
  "forest by_id \<Longrightarrow> x \<in> ran by_id \<Longrightarrow> y \<in> ran by_id \<Longrightarrow> full_path by_id x = full_path by_id y \<Longrightarrow> x = y"
  using full_path_last [of by_id x] full_path_last [of by_id y] forest_id by (fastforce simp: ran_def)

lemma full_path_known: "forest by_id \<Longrightarrow> x \<in> ran by_id \<Longrightarrow> set (full_path by_id x) \<subseteq> dom by_id"
proof -
  assume f: "forest by_id" and x: "x \<in> ran by_id"
  obtain up where up: "ancestors by_id (cl_parent_id x) = Some up" using forest_ancestors [OF f] by blast
  have known: "a \<in> ran by_id \<Longrightarrow> cl_id a \<in> dom by_id" for a using forest_id [OF f] by (auto simp: ran_def dom_def)
  then show ?thesis using ancestors_in [OF up] x by (auto simp: full_path_eq [OF up])
qed

lemma full_path_child:
  "forest by_id \<Longrightarrow> by_id (cl_parent_id y) = Some x \<Longrightarrow> full_path by_id y = full_path by_id x @ [cl_id y]"
proof -
  assume f: "forest by_id" and p: "by_id (cl_parent_id y) = Some x"
  obtain up where up: "ancestors by_id (cl_parent_id x) = Some up" using forest_ancestors [OF f] by blast
  then have "ancestors by_id (cl_parent_id y) = Some (x # up)" by (subst ancestors.simps) (simp add: p)
  from full_path_eq [OF this] full_path_eq [OF up] show ?thesis by simp
qed

text \<open>
  Adding the nodes of a function up to its flat statistics counts every call and every exclusive time, but an
  inclusive time and a maximum only of the calls the function does not make itself, so that recursion
  is not counted twice.
\<close>

theorem sum_flat_counts_recursion_once:
  assumes f: "forest by_id"
  shows "sum_flat by_id a nodes = Some (a\<lparr>cl_parent_id := 0, cl_function :=
     \<lparr>times_called = (\<Sum>x\<leftarrow>nodes. times_called (cl_function x)),
      inclusive_time = (\<Sum>x\<leftarrow>filter (\<lambda>x. \<forall>up. ancestors by_id (cl_parent_id x) = Some up \<longrightarrow> cl_address x \<notin> cl_address ` set up) nodes.
                          inclusive_time (cl_function x)),
      exclusive_time = (\<Sum>x\<leftarrow>nodes. exclusive_time (cl_function x)),
      max_call_time = fold max (map (\<lambda>x. max_call_time (cl_function x))
        (filter (\<lambda>x. \<forall>up. ancestors by_id (cl_parent_id x) = Some up \<longrightarrow> cl_address x \<notin> cl_address ` set up) nodes)) 0\<rparr>\<rparr>)"
proof -
  have r: "\<forall>x\<in>set nodes. reentrance by_id x \<noteq> None"
    using f by (simp add: reentrance_def forest_def)
  have out: "outermost by_id x \<longleftrightarrow> (\<forall>up. ancestors by_id (cl_parent_id x) = Some up \<longrightarrow> cl_address x \<notin> cl_address ` set up)" for x
  proof -
    obtain up where "ancestors by_id (cl_parent_id x) = Some up" using forest_ancestors [OF f] by blast
    then show ?thesis by (auto simp: outermost_def reentrance_def filter_empty_conv image_iff)
  qed
  have "sum_flat by_id a nodes = Some (a\<lparr>cl_parent_id := 0, cl_function := fold (flat_add by_id) nodes function_statistics_init\<rparr>)"
    by (simp add: sum_flat_def add_nodes_eq [OF r])
  moreover have "fold (flat_add by_id) nodes function_statistics_init =
     \<lparr>times_called = (\<Sum>x\<leftarrow>nodes. times_called (cl_function x)),
      inclusive_time = (\<Sum>x\<leftarrow>filter (outermost by_id) nodes. inclusive_time (cl_function x)),
      exclusive_time = (\<Sum>x\<leftarrow>nodes. exclusive_time (cl_function x)),
      max_call_time = fold max (map (\<lambda>x. max_call_time (cl_function x)) (filter (outermost by_id) nodes)) 0\<rparr>"
    by (rule function_statistics.equality) (simp_all add: fold_flat_add_fields)
  ultimately show ?thesis unfolding out [symmetric] by simp
qed

text \<open>The order of numbers by the nodes that have them, and of nodes by their paths.\<close>

definition sibling_order :: "lookup \<Rightarrow> (call_statistics \<Rightarrow> call_statistics \<Rightarrow> int) \<Rightarrow> (u32 \<times> u32) set" where
  "sibling_order by_id cmp = {(i, j). \<exists>x y. by_id i = Some x \<and> by_id j = Some y
     \<and> (if cmp x y \<noteq> 0 then cmp x y < 0 else cl_id x < cl_id y)}"

lemma first_difference_lexord:
  assumes "\<forall>a. (a, a) \<notin> R"
  shows "(case first_difference ps qs of Some (a, b) \<Rightarrow> (a, b) \<in> R | None \<Rightarrow> length ps < length qs) \<longleftrightarrow> (ps, qs) \<in> lexord R"
  by (induction ps qs rule: first_difference.induct) (use assms in \<open>auto simp: neq_Nil_conv split: option.splits\<close>)

lemma first_difference_in: "first_difference ps qs = Some (a, b) \<Longrightarrow> a \<in> set ps \<and> b \<in> set qs"
  by (induction ps qs rule: first_difference.induct) (auto split: if_splits)

lemma sibling_order_irrefl: "two_way (ran by_id) cmp \<Longrightarrow> (i, i) \<notin> sibling_order by_id cmp"
  by (auto simp: sibling_order_def ran_def dest: two_way.self)

lemma sibling_order_asym:
  assumes t: "two_way (ran by_id) cmp" shows "asym (sibling_order by_id cmp)"
proof (rule asymI)
  fix i j assume "(i, j) \<in> sibling_order by_id cmp"
  then obtain x y where n: "by_id i = Some x" "by_id j = Some y" and o: "two_way.tie_break cmp cl_id x y"
    by (auto simp: sibling_order_def two_way.tie_break_def [OF t])
  have "\<not> two_way.tie_break cmp cl_id y x" by (rule two_way.tie_break_asym [OF t _ _ o]) (use n in \<open>auto simp: ran_def\<close>)
  then show "(j, i) \<notin> sibling_order by_id cmp" using n by (auto simp: sibling_order_def two_way.tie_break_def [OF t])
qed

lemma sibling_order_iff:
  "forest by_id \<Longrightarrow> x \<in> ran by_id \<Longrightarrow> y \<in> ran by_id
   \<Longrightarrow> (cl_id x, cl_id y) \<in> sibling_order by_id cmp \<longleftrightarrow> (if cmp x y \<noteq> 0 then cmp x y < 0 else cl_id x < cl_id y)"
  by (simp add: sibling_order_def forest_found)

lemma sibling_order_trans:
  assumes t: "three_way (ran by_id) cmp" shows "trans (sibling_order by_id cmp)"
proof (rule transI)
  fix i j k assume "(i, j) \<in> sibling_order by_id cmp" "(j, k) \<in> sibling_order by_id cmp"
  then obtain x y z where n: "by_id i = Some x" "by_id j = Some y" "by_id k = Some z"
    and o: "two_way.tie_break cmp cl_id x y" "two_way.tie_break cmp cl_id y z"
    by (auto simp: sibling_order_def two_way.tie_break_def [OF three_way_two_way [OF t]])
  have "two_way.tie_break cmp cl_id x z"
    by (rule three_way.tie_break_trans [OF t _ _ _ o]) (use n in \<open>auto simp: ran_def\<close>)
  then show "(i, k) \<in> sibling_order by_id cmp"
    using n by (auto simp: sibling_order_def two_way.tie_break_def [OF three_way_two_way [OF t]])
qed

lemma sibling_order_total:
  assumes f: "forest by_id" and t: "two_way (ran by_id) cmp" and k: "i \<in> dom by_id" "j \<in> dom by_id" "i \<noteq> j"
  shows "(i, j) \<in> sibling_order by_id cmp \<or> (j, i) \<in> sibling_order by_id cmp"
proof -
  obtain x y where n: "by_id i = Some x" "by_id j = Some y" using k by auto
  then have "two_way.tie_break cmp cl_id x y \<or> two_way.tie_break cmp cl_id y x"
    using forest_id [OF f] k(3) by (intro two_way.tie_break_total [OF t]) (auto simp: ran_def)
  then show ?thesis using n unfolding two_way.tie_break_def [OF t] sibling_order_def by blast
qed

lemma hierarchical_less_is_lexord:
  assumes f: "forest by_id" and t: "two_way (ran by_id) cmp" and S: "x \<in> ran by_id" "y \<in> ran by_id"
  shows "hierarchical_less (stack_hierarchy_access d by_id) cmp x y
    \<longleftrightarrow> (full_path by_id x, full_path by_id y) \<in> lexord (sibling_order by_id cmp)"
proof -
  let ?a = "stack_hierarchy_access d by_id"
  have irr: "\<forall>a. (a, a) \<notin> sibling_order by_id cmp" using sibling_order_irrefl [OF t] by blast
  have pred: "total_predicate ?a cmp u v \<longleftrightarrow> (cl_id u, cl_id v) \<in> sibling_order by_id cmp"
    if "u \<in> ran by_id" "v \<in> ran by_id" for u v
    using sibling_order_iff [OF f that] by (simp add: total_predicate_def stack_hierarchy_access_def)
  have paths: "access_path ?a u = full_path by_id u" "same_parent ?a u v \<longleftrightarrow> cl_parent_id u = cl_parent_id v" for u v
    by (simp_all add: stack_hierarchy_access_def full_path_def)
  show ?thesis
  proof (cases "cl_parent_id x = cl_parent_id y")
    case True
    obtain up where up: "ancestors by_id (cl_parent_id x) = Some up" using forest_ancestors [OF f] by blast
    have "hierarchical_less ?a cmp x y \<longleftrightarrow> total_predicate ?a cmp x y"
      using True by (simp add: hierarchical_less_def stack_hierarchy_access_def)
    also have "\<dots> \<longleftrightarrow> (cl_id x, cl_id y) \<in> sibling_order by_id cmp" by (rule pred [OF S])
    finally show ?thesis
      using full_path_eq [OF up] full_path_eq [of by_id y up] up True irr by (simp add: lexord_same_pref_iff)
  next
    case False
    let ?p = "full_path by_id x" and ?q = "full_path by_id y"
    have "hierarchical_less ?a cmp x y
      \<longleftrightarrow> (case first_difference ?p ?q of Some (a, b) \<Rightarrow> total_predicate ?a cmp (access_lookup ?a a) (access_lookup ?a b)
           | None \<Rightarrow> length ?p < length ?q)"
      using False unfolding hierarchical_less_def paths by simp
    also have "\<dots> \<longleftrightarrow> (case first_difference ?p ?q of Some (a, b) \<Rightarrow> (a, b) \<in> sibling_order by_id cmp | None \<Rightarrow> length ?p < length ?q)"
    proof (cases "first_difference ?p ?q")
      case (Some ab)
      obtain a b where ab: "ab = (a, b)" by fastforce
      from first_difference_in [OF Some [unfolded ab]] full_path_known [OF f S(1)] full_path_known [OF f S(2)]
      obtain u v where uv: "by_id a = Some u" "by_id b = Some v" by blast
      then have "u \<in> ran by_id" "v \<in> ran by_id" by (auto simp: ran_def)
      from pred [OF this] have "total_predicate ?a cmp u v \<longleftrightarrow> (a, b) \<in> sibling_order by_id cmp"
        using forest_id [OF f] uv by simp
      moreover have "access_lookup ?a a = u" "access_lookup ?a b = v" using uv by (simp_all add: stack_hierarchy_access_def)
      ultimately show ?thesis using Some ab by simp
    qed simp
    also have "\<dots> \<longleftrightarrow> (?p, ?q) \<in> lexord (sibling_order by_id cmp)" by (rule first_difference_lexord [OF irr])
    finally show ?thesis .
  qed
qed

lemma paths_linear:
  assumes f: "forest by_id" and t: "two_way (ran by_id) cmp"
    and "set p \<subseteq> dom by_id" "set q \<subseteq> dom by_id" "p \<noteq> q"
  shows "(p, q) \<in> lexord (sibling_order by_id cmp) \<or> (q, p) \<in> lexord (sibling_order by_id cmp)"
  using assms(3-5)
proof (induction p arbitrary: q)
  case Nil
  then show ?case by (cases q) auto
next
  case (Cons a p)
  then show ?case using sibling_order_total [OF f t, of a] by (cases q) auto
qed

text \<open>In the order of words nothing comes between a word and its continuations but its continuations.\<close>

lemma lexord_between:
  assumes "asym R" "(p, q) \<in> lexord R" "(q, p @ r) \<in> lexord R"
  shows "\<exists>r'. q = p @ r'"
  using assms(2,3)
proof (induction p arbitrary: q)
  case Nil
  then show ?case by simp
next
  case (Cons a p)
  then obtain b q' where q: "q = b # q'" by (cases q) auto
  with Cons.prems assms(1) have "a = b" by (auto dest: asymD)
  with Cons.prems q assms(1) have "(p, q') \<in> lexord R" "(q', p @ r) \<in> lexord R" by (auto dest: asymD)
  from Cons.IH [OF this] q \<open>a = b\<close> show ?case by simp
qed

text \<open>
  The column the rows are ordered by, after some choices: a column without a comparison changes nothing. In either direction its
  comparison is one to sort by, unless averages wrap.
\<close>

definition chosen_column :: "(column option \<times> bool) list \<Rightarrow> column option" where
  "chosen_column choices = fold (\<lambda>(c, _) current. if c = Some By_Index then current else c) choices None"

lemma row_order_cases:
  "\<exists>cmp. row_order access (column_compare name native_id) choices = hierarchical_less access cmp \<and> two_way S cmp \<and>
    ((chosen_column choices \<in> {Some By_Avg_Exclusive, Some By_Avg_Inclusive} \<longrightarrow> times_fit S) \<longrightarrow> three_way S cmp)"
proof (induction choices rule: rev_induct)
  case Nil
  show ?case using unordered_rows.three_way_axioms [of S] three_way_two_way by (auto simp: row_order_def)
next
  case (snoc choice choices)
  obtain c ascending where ch: "choice = (c, ascending)" by (cases choice)
  show ?case
  proof (cases "c = Some By_Index")
    case True
    then show ?thesis using snoc by (simp add: ch row_order_def chosen_column_def set_row_order_def)
  next
    case False
    show ?thesis
    proof (cases c)
      case None
      then show ?thesis using unordered_rows.three_way_axioms [of S] three_way_two_way by (auto simp: ch row_order_def set_row_order_def)
    next
      case (Some k)
      with False obtain cmp where cmp: "column_compare name native_id k = Some cmp" by (cases k) auto
      let ?cmp = "if ascending then cmp else (\<lambda>l r. cmp r l)"
      have "two_way S ?cmp" using column_two_way [OF cmp, of S] two_way_reversed by auto
      moreover have "three_way S ?cmp" if "c \<in> {Some By_Avg_Exclusive, Some By_Avg_Inclusive} \<longrightarrow> times_fit S"
        using column_three_way [OF cmp, of S] three_way_reversed that Some by auto
      ultimately show ?thesis using Some cmp False
        by (intro exI [of _ ?cmp]) (simp add: ch row_order_def chosen_column_def set_row_order_def)
    qed
  qed
qed

text \<open>A node lies under another when its path continues the other's.\<close>

definition lies_under :: "lookup \<Rightarrow> call_statistics \<Rightarrow> call_statistics \<Rightarrow> bool" where
  "lies_under by_id y x \<longleftrightarrow> (\<exists>r. full_path by_id y = full_path by_id x @ r)"

text \<open>
  C22. Whatever columns the calls were sorted by, one after another, and in whichever directions, any two nodes of the forest are in one
  order, a parent comes before its children and the nodes under a node are not interrupted by any other. A column that has no
  comparison leaves the order there was. The order is transitive, so that it is a strict linear order, unless the column it is by is an average and the
  products of times and counts that are compared for it wrap.
\<close>

theorem rows_are_in_tree_order:
  assumes f: "forest by_id"
    and o: "row_order (stack_hierarchy_access d by_id) (column_compare name native_id) choices = ord"
    and S: "x \<in> ran by_id" "y \<in> ran by_id" "z \<in> ran by_id"
  shows "\<not> ord x x
    \<and> (ord x y \<longrightarrow> \<not> ord y x)
    \<and> (x \<noteq> y \<longrightarrow> ord x y \<or> ord y x)
    \<and> (by_id (cl_parent_id y) = Some x \<longrightarrow> ord x y)
    \<and> (lies_under by_id z x \<longrightarrow> ord x y \<longrightarrow> ord y z \<longrightarrow> lies_under by_id y x)
    \<and> ((chosen_column choices \<in> {Some By_Avg_Exclusive, Some By_Avg_Inclusive} \<longrightarrow> times_fit (ran by_id)) \<longrightarrow>
        ord x y \<longrightarrow> ord y z \<longrightarrow> ord x z)"
proof -
  obtain cmp where ord: "ord = hierarchical_less (stack_hierarchy_access d by_id) cmp" and t: "two_way (ran by_id) cmp"
    and t3: "(chosen_column choices \<in> {Some By_Avg_Exclusive, Some By_Avg_Inclusive} \<longrightarrow> times_fit (ran by_id)) \<Longrightarrow> three_way (ran by_id) cmp"
    using row_order_cases [of "stack_hierarchy_access d by_id" name native_id choices "ran by_id"] o by auto
  let ?R = "sibling_order by_id cmp" and ?p = "full_path by_id"
  have L: "ord u v \<longleftrightarrow> (?p u, ?p v) \<in> lexord ?R" if "u \<in> ran by_id" "v \<in> ran by_id" for u v
    using hierarchical_less_is_lexord [OF f t that] ord by simp
  have irr: "\<not> ord x x" using L S lexord_irreflexive sibling_order_irrefl [OF t] by metis
  have asym: "ord x y \<longrightarrow> \<not> ord y x" using L S lexord_asymmetric [OF sibling_order_asym [OF t]] by blast
  have tr: "ord x y \<longrightarrow> ord y z \<longrightarrow> ord x z" if "three_way (ran by_id) cmp"
    using L S lexord_trans [OF _ _ sibling_order_trans [OF that]] by metis
  have tot: "ord x y \<or> ord y x" if "x \<noteq> y"
    using L S full_path_inj [OF f S(1,2)] that paths_linear [OF f t] full_path_known [OF f] by metis
  have parent: "ord x y" if "by_id (cl_parent_id y) = Some x"
    using L [OF S(1,2)] full_path_child [OF f that] by (simp add: lexord_append_rightI)
  have inside: "lies_under by_id y x" if "lies_under by_id z x" "ord x y" "ord y z"
    using that L S lexord_between [OF sibling_order_asym [OF t], of "?p x" "?p y"] by (auto simp: lies_under_def)
  show ?thesis using irr asym tr [OF t3] tot parent inside by blast
qed

definition sample_node :: "u32 \<Rightarrow> u32 \<Rightarrow> int \<Rightarrow> call_statistics" where
  "sample_node i parent_id t =
     \<lparr>cl_id = i, cl_thread_id = 1, cl_parent_id = parent_id, cl_address = 100,
      cl_function = function_statistics_init\<lparr>inclusive_time := t\<rparr>\<rparr>"

definition sample_forest :: lookup where
  "sample_forest = [1 \<mapsto> sample_node 1 0 7, 2 \<mapsto> sample_node 2 1 3, 3 \<mapsto> sample_node 3 0 5]"

lemma sample_forest_eval:
  "sample_forest 0 = None" "sample_forest 1 = Some (sample_node 1 0 7)" "sample_forest 2 = Some (sample_node 2 1 3)"
  "sample_forest 3 = Some (sample_node 3 0 5)"
  "sample_forest i = Some x \<Longrightarrow> i = 1 \<and> x = sample_node 1 0 7 \<or> i = 2 \<and> x = sample_node 2 1 3 \<or> i = 3 \<and> x = sample_node 3 0 5"
  by (auto simp: sample_forest_def split: if_splits)

lemma sample_ancestors:
  "sample_forest i = None \<Longrightarrow> ancestors sample_forest i = Some []"
  "ancestors sample_forest 1 = Some [sample_node 1 0 7]"
  "ancestors sample_forest 2 = Some [sample_node 2 1 3, sample_node 1 0 7]"
  "ancestors sample_forest 3 = Some [sample_node 3 0 5]"
proof -
  show root: "sample_forest i = None \<Longrightarrow> ancestors sample_forest i = Some []" for i
    by (subst ancestors.simps) simp
  show one: "ancestors sample_forest 1 = Some [sample_node 1 0 7]"
    by (subst ancestors.simps) (simp add: sample_forest_eval sample_node_def root)
  show "ancestors sample_forest 2 = Some [sample_node 2 1 3, sample_node 1 0 7]"
    by (subst ancestors.simps) (simp add: sample_forest_eval sample_node_def one [unfolded sample_node_def])
  show "ancestors sample_forest 3 = Some [sample_node 3 0 5]"
    by (subst ancestors.simps) (simp add: sample_forest_eval sample_node_def root)
qed

lemma sample_forest_forest: "forest sample_forest"
proof -
  have "ancestors sample_forest i \<noteq> None" for i
    using sample_ancestors sample_forest_eval(5) by (cases "sample_forest i") fastforce+
  then show ?thesis unfolding forest_def using sample_forest_eval(5) by (fastforce simp: sample_node_def)
qed

lemma sample_nodes: "sample_node 1 0 7 \<in> ran sample_forest" "sample_node 2 1 3 \<in> ran sample_forest" "sample_node 3 0 5 \<in> ran sample_forest"
  using sample_forest_eval(2-4) unfolding ran_def by blast+

theorem sum_flat_counts_recursion_once_witness:
  "map_option (\<lambda>r. inclusive_time (cl_function r)) (sum_flat sample_forest (sample_node 9 9 9) [sample_node 1 0 7, sample_node 2 1 3]) = Some 7"
  unfolding sum_flat_counts_recursion_once [OF sample_forest_forest]
  by (simp add: sample_node_def sample_ancestors [unfolded sample_node_def] sample_forest_eval)

theorem rows_are_in_tree_order_witness:
  "row_order (stack_hierarchy_access (sample_node 1 0 7) sample_forest) (column_compare (\<lambda>_. []) (\<lambda>_. None))
     [(Some By_Inclusive, False), (Some By_Index, True)] (sample_node 1 0 7) (sample_node 2 1 3)"
  using rows_are_in_tree_order [OF sample_forest_forest refl sample_nodes]
  by (simp add: sample_forest_eval sample_node_def)

text \<open>
  An average whose cross product does not fit is out of order: a function with a time of $2^{32}$ in a single call
  counts as faster than one with a time of $1$ in $2^{32}$ calls.
\<close>

lemma averages_can_overflow:
  "compare_ratios (2 ^ 32) 1 0 (2 ^ 32) = 0"
  "compare_ratios (2 ^ 32) 1 1 (2 ^ 32) < 0"
  "compare_ratios 0 (2 ^ 32) 1 (2 ^ 32) < 0"
  by (simp_all add: compare_ratios_def compare_def)

end
