(* ===== verification/Statistics_Table.thy ===== *)
theory Statistics_Table
  imports Call_Hierarchy Sdb_Table Analyzer
begin

text \<open>
  How statistics reach the frontend: the update a collector answers with (\<^verbatim>\<open>collector/serialization.h\<close>) and how it
  is read into the table of calls (\<^verbatim>\<open>frontend/serialization.h\<close>, \<^verbatim>\<open>frontend/serialization_context.h\<close>, keys of
  \<^verbatim>\<open>frontend/keyer.h\<close>, constructor of \<^verbatim>\<open>frontend/constructors.h\<close>). The bytes of an archive are the matter of
  the library \<^verbatim>\<open>strmd\<close>, which is not in the repository: an archive is the value it was written from. Of the versions
  of the format the current one is read.
\<close>

section \<open>The table of calls\<close>

datatype statistics_key = Node_Key u32 u32 u64 | Id_Key u32

definition callnode :: "call_statistics \<Rightarrow> statistics_key" where
  "callnode r = Node_Key (cl_thread_id r) (cl_parent_id r) (cl_address r)"

fun set_callnode :: "call_statistics \<Rightarrow> statistics_key \<Rightarrow> call_statistics" where
  "set_callnode r (Node_Key t p a) = r\<lparr>cl_thread_id := t, cl_parent_id := p, cl_address := a\<rparr>"
| "set_callnode r (Id_Key i) = r"

text \<open>Component 0 is the index by place in the tree, the others are by number.\<close>

definition statistics_classes :: "(call_statistics, statistics_key) classes" where
  "statistics_classes ty = \<lparr>ic_keyer = (if ty = 0 then callnode else (\<lambda>r. Id_Key (cl_id r))), ic_place = unordered_place\<rparr>"

record statistics =
  st_table :: "(call_statistics, statistics_key) table"
  st_next_id :: u32

definition statistics_init :: statistics where
  "statistics_init = \<lparr>st_table = table_init, st_next_id = 1\<rparr>"

text \<open>The constructor leaves the place of a call undefined; it is written at once.\<close>

definition construct :: "u32 \<Rightarrow> call_statistics" where
  "construct i = \<lparr>cl_id = i, cl_thread_id = 0, cl_parent_id = 0, cl_address = 0, cl_function = function_statistics_init\<rparr>"

definition node_record :: "statistics_key \<Rightarrow> statistics \<Rightarrow> transacted_record \<times> statistics" where
  "node_record key st =
     (let (ix, t) = table_component statistics_classes 0 (st_table st);
          (tr, t) = unique_record set_callnode (construct (st_next_id st)) ix key t
      in (tr, \<lparr>st_table = t, st_next_id = (if tr_new tr then st_next_id st + 1 else st_next_id st)\<rparr>))"

type_synonym 's statistics_subscribers = "(call_statistics, statistics_key, 's) subscribers"

definition node_commit :: "'s statistics_subscribers \<Rightarrow> transacted_record \<Rightarrow> statistics \<times> 's \<Rightarrow> statistics \<times> 's" where
  "node_commit notify tr ss =
     (let (t, s) = tr_commit statistics_classes notify tr (st_table (fst ss), snd ss) in ((fst ss)\<lparr>st_table := t\<rparr>, s))"

definition node_add :: "transacted_record \<Rightarrow> function_statistics \<Rightarrow> statistics \<Rightarrow> statistics" where
  "node_add tr f st =
     (case um_find (t_records (st_table st)) (tr_record tr) of
        None \<Rightarrow> st
      | Some r \<Rightarrow> st\<lparr>st_table := record_write (tr_record tr) (r\<lparr>cl_function := add_stats (cl_function r) f\<rparr>) (st_table st)\<rparr>)"

definition node_id :: "transacted_record \<Rightarrow> statistics \<Rightarrow> u32" where
  "node_id tr st = (case um_find (t_records (st_table st)) (tr_record tr) of None \<Rightarrow> 0 | Some r \<Rightarrow> cl_id r)"

section \<open>Reading an update\<close>

function read_items ::
  "'s statistics_subscribers \<Rightarrow> u32 \<Rightarrow> u32 \<Rightarrow> (u64 \<times> u64 call_graph_node) list \<Rightarrow> statistics \<times> 's \<Rightarrow> statistics \<times> 's" where
  "read_items notify thread parent_id [] ss = ss"
| "read_items notify thread parent_id ((a, Node f callees) # items) ss =
     (let key = Node_Key thread parent_id a;
          (tr, st) = node_record key (fst ss);
          ss = node_commit notify tr (st, snd ss);
          (tr, st) = node_record key (fst ss);
          st = node_add tr f st;
          ss = read_items notify thread (node_id tr st) callees (st, snd ss);
          ss = node_commit notify tr ss
      in read_items notify thread parent_id items ss)"
  by pat_completeness auto
termination by (relation "measure (\<lambda>(_, _, _, items, _). size_list (size_prod (\<lambda>_. 0) size) items)") (auto simp: size_list_conv_sum_list)

type_synonym statistics_update = "(u32 \<times> u64 nodes_map) list"

text \<open>The numbers of the threads replace those of the last update once there is one.\<close>

fun read_threads ::
  "'s statistics_subscribers \<Rightarrow> bool \<Rightarrow> statistics_update \<Rightarrow> u32 list \<times> statistics \<times> 's \<Rightarrow> u32 list \<times> statistics \<times> 's" where
  "read_threads notify is_first [] c = c"
| "read_threads notify is_first ((thread, nodes) # rest) (threads, ss) =
     (let ss = read_items notify thread 0 nodes ss
      in read_threads notify False rest ((if is_first then [] else threads) @ [thread], ss))"

definition read_update :: "'s statistics_subscribers \<Rightarrow> statistics_update \<Rightarrow> u32 list \<times> statistics \<times> 's \<Rightarrow> u32 list \<times> statistics \<times> 's" where
  "read_update notify u c =
     (let st = fst (snd c);
          st = st\<lparr>st_table := snd (table_component statistics_classes 0 (st_table st))\<rparr>;
          (threads, st, s) = read_threads notify True u (fst c, st, snd (snd c))
      in (threads, st, notify Invalidate (st_table st) s))"

text \<open>What the collector sends, and the clearing that goes with it.\<close>

definition statistics_message :: "u64 analyzer \<Rightarrow> statistics_update" where
  "statistics_message an = map (\<lambda>(tid, ta). (tid, ta_statistics ta)) (an_threads an)"

section \<open>The invariant of the table\<close>

text \<open>
  Records are only added, so they are numbered from 1 in the order they were added; a place in the tree has
  one record, under an earlier one or under no one.
\<close>

abbreviation st_records :: "statistics \<Rightarrow> call_statistics records" where
  "st_records st \<equiv> t_records (st_table st)"

definition st_size :: "statistics \<Rightarrow> nat" where
  "st_size st = length (st_records st)"

definition st_nodes :: "statistics \<Rightarrow> call_statistics list" where
  "st_nodes st = map snd (st_records st)"

definition st_ok :: "statistics \<Rightarrow> bool" where
  "st_ok st \<longleftrightarrow> indexed statistics_classes (st_table st)
     \<and> st_size st < 2 ^ 32 \<and> st_next_id st = of_nat (Suc (st_size st))
     \<and> map cl_id (st_nodes st) = map of_nat [1..<Suc (st_size st)]
     \<and> distinct (map callnode (st_nodes st))
     \<and> (\<forall>r\<in>set (st_nodes st). cl_parent_id r < cl_id r)"

definition st_find :: "statistics \<Rightarrow> statistics_key \<Rightarrow> call_statistics option" where
  "st_find st key = find (\<lambda>r. callnode r = key) (st_nodes st)"

lemma classes_proper: "proper statistics_classes"
  by (simp add: proper_def statistics_classes_def unordered.multimap_axioms)

lemma classes_keyer [simp]:
  "ic_keyer (statistics_classes 0) = callnode" "ty \<noteq> 0 \<Longrightarrow> ic_keyer (statistics_classes ty) r = Id_Key (cl_id r)"
  by (simp_all add: statistics_classes_def)

lemma distinct_find:
  "distinct (map f xs) \<Longrightarrow> find (\<lambda>x. f x = k) xs = Some x \<longleftrightarrow> x \<in> set xs \<and> f x = k"
  by (induction xs) auto

lemma st_find_iff: "st_ok st \<Longrightarrow> st_find st key = Some r \<longleftrightarrow> r \<in> set (st_nodes st) \<and> callnode r = key"
  by (simp add: st_find_def distinct_find st_ok_def)

lemma st_find_None: "st_find st key = None \<longleftrightarrow> (\<forall>r\<in>set (st_nodes st). callnode r \<noteq> key)"
  by (auto simp: st_find_def find_None_iff)

text \<open>What an access by place does: it picks the record or adds one.\<close>

lemma node_ix:
  assumes "st_ok st"
  shows "set (equal_range key (fst (table_component statistics_classes 0 (st_table st)))) = {h. \<exists>r. (h, r) \<in> set (st_records st) \<and> callnode r = key}"
  using table_component_indexed(3) [OF classes_proper, of "st_table st" 0] equal_range_inv(2) assms
  by (fastforce simp: st_ok_def)

definition use_index :: "statistics \<Rightarrow> statistics" where
  "use_index st = st\<lparr>st_table := snd (table_component statistics_classes 0 (st_table st))\<rparr>"

lemma table_component_next: "t_next (snd (table_component classes ty t)) = t_next t"
  by (simp add: table_component_def Let_def split: option.splits)

lemma use_index_ok:
  "st_ok st \<Longrightarrow> st_ok (use_index st)" "st_ok st \<Longrightarrow> st_records (use_index st) = st_records st"
  "st_next_id (use_index st) = st_next_id st" "t_next (st_table (use_index st)) = t_next (st_table st)"
  using table_component_indexed(1,2) [OF classes_proper, of "st_table st" 0]
  by (simp_all add: use_index_def st_ok_def st_size_def st_nodes_def table_component_next)

lemma node_record_present:
  assumes ok: "st_ok st" and r: "st_find st key = Some r"
  obtains h where "node_record key st = (table_modify h, use_index st)" "um_find (st_records st) h = Some r"
proof -
  let ?c = "table_component statistics_classes 0 (st_table st)"
  from r ok have "r \<in> set (st_nodes st)" "callnode r = key" by (simp_all add: st_find_iff)
  then obtain h0 where "(h0, r) \<in> set (st_records st)" by (auto simp: st_nodes_def)
  with \<open>callnode r = key\<close> have "h0 \<in> set (equal_range key (fst ?c))" unfolding node_ix [OF ok] by blast
  then obtain h hs where e: "equal_range key (fst ?c) = h # hs" by (cases "equal_range key (fst ?c)") auto
  then have "h \<in> set (equal_range key (fst ?c))" by simp
  then obtain r' where r': "(h, r') \<in> set (st_records st)" "callnode r' = key" unfolding node_ix [OF ok] by blast
  then have "r' \<in> set (st_nodes st)" by (force simp: st_nodes_def)
  with r' have "st_find st key = Some r'" using ok by (simp add: st_find_iff)
  with r have "r' = r" by simp
  moreover have "distinct (map fst (st_records st))" using ok by (simp add: st_ok_def indexed_def records_ok_def)
  ultimately have "um_find (st_records st) h = Some r" using r'(1) by simp
  moreover have "node_record key st = (table_modify h, use_index st)"
    by (simp add: node_record_def split_def Let_def unique_record_def e use_index_def table_modify_def)
  ultimately show thesis by (rule that [rotated])
qed

lemma node_record_absent:
  assumes ok: "st_ok st" and r: "st_find st key = None"
  shows "fst (node_record key st) = \<lparr>tr_record = t_next (st_table st), tr_new = True\<rparr>"
    "st_next_id (snd (node_record key st)) = st_next_id st + 1"
    "st_table (snd (node_record key st))
      = record_write (t_next (st_table st)) (set_callnode (construct (st_next_id st)) key) (snd (table_create (construct (st_next_id st)) (st_table (use_index st))))"
proof -
  let ?c = "table_component statistics_classes 0 (st_table st)"
  have "set (equal_range key (fst ?c)) = {}" unfolding node_ix [OF ok] using r by (fastforce simp: st_find_None st_nodes_def)
  then have e: "equal_range key (fst ?c) = []" by simp
  show "fst (node_record key st) = \<lparr>tr_record = t_next (st_table st), tr_new = True\<rparr>"
    "st_next_id (snd (node_record key st)) = st_next_id st + 1"
    "st_table (snd (node_record key st))
      = record_write (t_next (st_table st)) (set_callnode (construct (st_next_id st)) key) (snd (table_create (construct (st_next_id st)) (st_table (use_index st))))"
    by (simp_all add: node_record_def split_def Let_def unique_record_def e use_index_def table_create_def table_component_next)
qed

lemma node_commit_modified: "\<not> tr_new tr \<Longrightarrow> fst (node_commit notify tr ss) = fst ss"
  by (simp add: node_commit_def split_def Let_def tr_commit_def commit_modification_def)

lemma st_ok_append:
  assumes ok: "st_ok st" and room: "Suc (st_size st) < 2 ^ 32" and k: "st_find st (Node_Key t p a) = None" and p: "unat p \<le> st_size st"
    and st': "indexed statistics_classes (st_table st')" "st_next_id st' = st_next_id st + 1"
      "st_nodes st' = st_nodes st @ [set_callnode (construct (st_next_id st)) (Node_Key t p a)]"
  shows "st_ok st'"
proof -
  let ?r = "set_callnode (construct (st_next_id st)) (Node_Key t p a)"
  have size: "st_size st' = Suc (st_size st)" using arg_cong [OF st'(3), of length] by (simp add: st_size_def st_nodes_def)
  have nx: "st_next_id st = of_nat (Suc (st_size st))" using ok by (simp add: st_ok_def)
  have "map cl_id (st_nodes st') = map of_nat [1..<Suc (st_size st)] @ [st_next_id st]" using ok by (simp add: st'(3) st_ok_def construct_def)
  then have ids: "map cl_id (st_nodes st') = map of_nat [1..<Suc (st_size st')]" by (simp add: size nx)
  have "callnode ?r = Node_Key t p a" by (simp add: callnode_def)
  then have keys: "distinct (map callnode (st_nodes st'))" using ok k by (auto simp: st'(3) st_ok_def st_find_None)
  have "unat (of_nat (Suc (st_size st)) :: u32) = Suc (st_size st)" using room by (simp only: unat_of_nat) simp
  then have "p < st_next_id st" using p by (simp only: nx word_less_nat_alt)
  then have "cl_parent_id ?r < cl_id ?r" by (simp add: construct_def)
  then have parents: "\<forall>r\<in>set (st_nodes st'). cl_parent_id r < cl_id r" using ok by (auto simp: st'(3) st_ok_def)
  show ?thesis unfolding st_ok_def using st'(1) room ids keys parents by (simp add: size st'(2) nx ac_simps)
qed

lemma touch:
  assumes ok: "st_ok st" and room: "Suc (st_size st) < 2 ^ 32" and p: "unat p \<le> st_size st" and key: "key = Node_Key t p a"
    and nr: "node_record key st = (tr, st1)" and cm: "node_commit notify tr (st1, s) = (st', s')"
  shows "st_ok st'"
    "st_nodes st' = (if st_find st key = None then st_nodes st @ [set_callnode (construct (st_next_id st)) key] else st_nodes st)"
proof -
  show "st_ok st'" "st_nodes st' = (if st_find st key = None then st_nodes st @ [set_callnode (construct (st_next_id st)) key] else st_nodes st)"
  proof (atomize (full), cases "st_find st key")
    case (Some r)
    obtain h where "node_record key st = (table_modify h, use_index st)" by (rule node_record_present [OF ok Some])
    with nr have "tr = table_modify h" "st1 = use_index st" by simp_all
    with cm node_commit_modified [of tr notify "(st1, s)"] have "st' = use_index st" by (simp add: table_modify_def)
    then show "st_ok st' \<and> st_nodes st' = (if st_find st key = None then st_nodes st @ [set_callnode (construct (st_next_id st)) key] else st_nodes st)"
      using use_index_ok [of st] ok Some by (simp add: st_nodes_def)
  next
    case None
    let ?r = "set_callnode (construct (st_next_id st)) key" and ?t = "st_table (use_index st)"
    note abs = node_record_absent [OF ok None, unfolded nr fst_conv snd_conv]
    have idx: "indexed statistics_classes ?t" using use_index_ok(1) [OF ok] by (simp add: st_ok_def)
    then have rok: "records_ok ?t" by (simp add: indexed_def)
    have nx: "t_next (st_table st) = t_next ?t" by (simp add: use_index_ok(4))
    have "tr_commit statistics_classes notify tr (st_table st1, s) = table_insert statistics_classes notify (construct (st_next_id st)) ?r (?t, s)"
      unfolding table_insert_def abs nx split_def Let_def by (simp add: table_create_def)
    also have "\<dots> = (inserted statistics_classes ?r ?t, notify (Created (t_next ?t)) (inserted statistics_classes ?r ?t) s)"
      by (rule table_insert_eq [OF rok])
    finally have st': "st' = st1\<lparr>st_table := inserted statistics_classes ?r ?t\<rparr>" using cm by (simp add: node_commit_def split_def Let_def)
    have nodes: "st_nodes st' = st_nodes st @ [?r]"
      using use_index_ok(2) [OF ok] by (simp add: st' st_nodes_def inserted_indexed(2) [OF classes_proper idx])
    moreover have "st_ok st'"
      by (rule st_ok_append [OF ok room None [unfolded key] p])
        (use nodes key abs(2) inserted_indexed(1) [OF classes_proper idx] in \<open>simp_all add: st'\<close>)
    ultimately show "st_ok st' \<and> st_nodes st' = (if st_find st key = None then st_nodes st @ [?r] else st_nodes st)" using None by simp
  qed
qed

definition plus_function :: "function_statistics \<Rightarrow> call_statistics \<Rightarrow> call_statistics" where
  "plus_function f x = x\<lparr>cl_function := add_stats (cl_function x) f\<rparr>"

lemma plus_function_sel [simp]:
  "cl_id (plus_function f x) = cl_id x" "callnode (plus_function f x) = callnode x" "cl_parent_id (plus_function f x) = cl_parent_id x"
  "cl_function (plus_function f x) = add_stats (cl_function x) f"
  by (simp_all add: plus_function_def callnode_def)

lemma st_ok_replace:
  assumes "st_ok st" "indexed statistics_classes (st_table st')" "st_next_id st' = st_next_id st"
    "st_nodes st' = map (\<lambda>x. if callnode x = key then plus_function f x else x) (st_nodes st)"
  shows "st_ok st'"
proof -
  have "st_size st' = st_size st" using arg_cong [OF assms(4), of length] by (simp add: st_size_def st_nodes_def)
  moreover have "map cl_id (st_nodes st') = map cl_id (st_nodes st)" "map callnode (st_nodes st') = map callnode (st_nodes st)"
    by (simp_all add: assms(4))
  moreover have "\<forall>r\<in>set (st_nodes st'). cl_parent_id r < cl_id r" using assms(1) by (auto simp: assms(4) st_ok_def)
  ultimately show ?thesis using assms(1-3) by (simp add: st_ok_def)
qed

lemma visit_present:
  assumes ok: "st_ok st" and r: "st_find st key = Some r" and nr: "node_record key st = (tr, st1)"
  shows "\<not> tr_new tr" "st_ok (node_add tr f st1)" "node_id tr (node_add tr f st1) = cl_id r"
    "st_nodes (node_add tr f st1) = map (\<lambda>x. if callnode x = key then plus_function f x else x) (st_nodes st)"
proof -
  obtain h where nr': "node_record key st = (table_modify h, use_index st)" and h: "um_find (st_records st) h = Some r"
    by (rule node_record_present [OF ok r])
  with nr have tr: "tr = table_modify h" and st1: "st1 = use_index st" by simp_all
  have idx: "indexed statistics_classes (st_table st1)" using use_index_ok(1) [OF ok] by (simp add: st_ok_def st1)
  have h1: "um_find (st_records st1) h = Some r" using h use_index_ok(2) [OF ok] by (simp add: st1)
  have a: "node_add tr f st1 = st1\<lparr>st_table := record_write h (plus_function f r) (st_table st1)\<rparr>"
    by (simp add: node_add_def tr table_modify_def h1 plus_function_def)
  have keys: "ic_keyer (statistics_classes ty) (plus_function f r) = ic_keyer (statistics_classes ty) r" for ty
    by (cases "ty = 0") simp_all
  note w = record_write_indexed [OF idx h1 keys]
  have key: "callnode r = key" using ok r by (simp add: st_find_iff)
  have same: "fst x = h \<longleftrightarrow> callnode (snd x) = key" if x: "x \<in> set (st_records st)" for x
  proof -
    have d: "distinct (map fst (st_records st))" "distinct (map (\<lambda>x. callnode (snd x)) (st_records st))"
      using ok by (simp_all add: st_ok_def indexed_def records_ok_def st_nodes_def comp_def)
    have "(h, r) \<in> set (st_records st)" using h by (rule map_of_SomeD)
    with d x key show ?thesis using eq_key_imp_eq_value [OF d(1), of h "snd x" r] inj_onD [of "\<lambda>x. callnode (snd x)" "set (st_records st)" x "(h, r)"]
      by (cases x) (auto simp: distinct_map)
  qed
  have only: "callnode (snd x) = key \<Longrightarrow> x \<in> set (st_records st) \<Longrightarrow> snd x = r" for x
    using same [of x] h ok by (cases x) (auto simp: st_ok_def indexed_def records_ok_def)
  show nodes: "st_nodes (node_add tr f st1) = map (\<lambda>x. if callnode x = key then plus_function f x else x) (st_nodes st)"
    unfolding a using same only use_index_ok(2) [OF ok] by (auto simp: st_nodes_def record_write_def st1)
  show "st_ok (node_add tr f st1)"
    by (rule st_ok_replace [OF ok _ _ nodes]) (use w(1) use_index_ok(3) in \<open>simp_all add: a [unfolded st1] st1\<close>)
  show "\<not> tr_new tr" by (simp add: tr table_modify_def)
  show "node_id tr (node_add tr f st1) = cl_id r" unfolding node_id_def a by (simp add: tr table_modify_def w(3))
qed

section \<open>Paths\<close>

text \<open>The record at a path of addresses in a thread, innermost first, and its number.\<close>

type_synonym node_finder = "statistics_key \<Rightarrow> call_statistics option"

fun path_id :: "node_finder \<Rightarrow> u32 \<Rightarrow> u64 list \<Rightarrow> u32 option" where
  "path_id F t [] = Some 0"
| "path_id F t (a # p) = Option.bind (path_id F t p) (\<lambda>i. map_option cl_id (F (Node_Key t i a)))"

fun path_node :: "node_finder \<Rightarrow> u32 \<Rightarrow> u64 list \<Rightarrow> call_statistics option" where
  "path_node F t [] = None"
| "path_node F t (a # p) = Option.bind (path_id F t p) (\<lambda>i. F (Node_Key t i a))"

definition finder_ok :: "node_finder \<Rightarrow> bool" where
  "finder_ok F \<longleftrightarrow> (\<forall>k r. F k = Some r \<longrightarrow> callnode r = k \<and> cl_parent_id r < cl_id r)
     \<and> (\<forall>k k' r r'. F k = Some r \<longrightarrow> F k' = Some r' \<longrightarrow> cl_id r = cl_id r' \<longrightarrow> k = k')"

lemma finder_okD:
  assumes "finder_ok F" "F k = Some r"
  shows "callnode r = k" "cl_parent_id r < cl_id r" "cl_id r \<noteq> 0" "F k' = Some r' \<Longrightarrow> cl_id r = cl_id r' \<Longrightarrow> k = k'"
proof -
  show "callnode r = k" and l: "cl_parent_id r < cl_id r" and "F k' = Some r' \<Longrightarrow> cl_id r = cl_id r' \<Longrightarrow> k = k'"
    using assms unfolding finder_ok_def by blast+
  show "cl_id r \<noteq> 0" using l by (metis word_not_simps(1))
qed

lemma st_ids_distinct: "st_ok st \<Longrightarrow> distinct (map cl_id (st_nodes st))"
proof -
  assume ok: "st_ok st"
  have "i = j" if "(of_nat i :: u32) = of_nat j" "i < 2 ^ 32" "j < 2 ^ 32" for i j
    using arg_cong [OF that(1), of unat] that(2,3) by (simp add: unat_of_nat)
  then have "inj_on (of_nat :: nat \<Rightarrow> u32) {1..<Suc (st_size st)}" using ok by (auto simp: inj_on_def st_ok_def)
  then have "distinct (map (of_nat :: nat \<Rightarrow> u32) [1..<Suc (st_size st)])" unfolding distinct_map by (simp only: distinct_upt set_upt simp_thms)
  moreover have "map cl_id (st_nodes st) = map of_nat [1..<Suc (st_size st)]" using ok unfolding st_ok_def by blast
  ultimately show ?thesis by (simp only:)
qed

lemma st_finder_ok: "st_ok st \<Longrightarrow> finder_ok (st_find st)"
proof -
  assume ok: "st_ok st"
  have inj: "inj_on cl_id (set (st_nodes st))" using st_ids_distinct [OF ok] by (simp add: distinct_map)
  show ?thesis unfolding finder_ok_def
  proof (intro conjI allI impI)
    fix k r assume "st_find st k = Some r"
    with ok show "callnode r = k" "cl_parent_id r < cl_id r" by (auto simp: st_find_iff st_ok_def)
  next
    fix k k' r r' assume "st_find st k = Some r" "st_find st k' = Some r'" "cl_id r = cl_id r'"
    with inj_onD [OF inj, of r r'] show "k = k'" by (auto simp: st_find_iff [OF ok])
  qed
qed

lemma path_id_zero: "finder_ok F \<Longrightarrow> path_id F t p = Some 0 \<Longrightarrow> p = []"
  by (cases p) (auto simp: bind_eq_Some_conv dest: finder_okD)

lemma path_id_inj:
  "finder_ok F \<Longrightarrow> path_id F t p = Some i \<Longrightarrow> path_id F t' p' = Some i \<Longrightarrow> i \<noteq> 0 \<Longrightarrow> t = t' \<and> p = p'"
proof (induction p arbitrary: i p')
  case Nil
  then show ?case by simp
next
  case (Cons a p)
  from Cons.prems obtain a' q where p': "p' = a' # q" by (cases p') auto
  from Cons.prems p' obtain j j' r r' where r: "path_id F t p = Some j" "F (Node_Key t j a) = Some r" "cl_id r = i"
    and r': "path_id F t' q = Some j'" "F (Node_Key t' j' a') = Some r'" "cl_id r' = i"
    by (auto simp: bind_eq_Some_conv)
  then have "Node_Key t j a = Node_Key t' j' a'" using finder_okD(4) [OF Cons.prems(1) r(2) r'(2)] by simp
  with r r' path_id_zero [OF Cons.prems(1)] Cons.IH [OF Cons.prems(1), of j q] p' show ?case
    by (cases "j = 0") auto
qed

text \<open>A changed record keeps its number; a new one is at the end of its path and nothing is under it.\<close>

lemma path_id_replace:
  assumes "F k = Some r" "cl_id r' = cl_id r"
  shows "path_id (F(k \<mapsto> r')) t p = path_id F t p"
proof -
  have "map_option cl_id ((F(k \<mapsto> r')) k') = map_option cl_id (F k')" for k' using assms by simp
  then show ?thesis by (induction p) (simp_all del: fun_upd_apply)
qed

lemma path_node_key:
  assumes "finder_ok F" "path_id F t0 q = Some i" "path_id F t0 p = Some i"
  shows "p = q"
  using path_id_inj [OF assms(1,3,2)] path_id_zero [OF assms(1)] assms(2,3) by (cases "i = 0") auto

lemma path_node_replace:
  assumes "finder_ok F" "path_id F t0 q = Some i" "F (Node_Key t0 i a0) = Some r" "cl_id r' = cl_id r"
  shows "path_node (F(Node_Key t0 i a0 \<mapsto> r')) t p = (if t = t0 \<and> p = a0 # q then Some r' else path_node F t p)"
proof (cases p)
  case (Cons a p')
  have "path_id F t p' = Some i \<Longrightarrow> t = t0 \<Longrightarrow> p' = q" using path_node_key [OF assms(1,2)] by simp
  moreover have "path_id (F(Node_Key t0 i a0 \<mapsto> r')) t p' = path_id F t p'" by (rule path_id_replace [of F _ r, OF assms(3,4)])
  ultimately show ?thesis using assms(2) by (cases "path_id F t p'") (auto simp: Cons)
qed simp

lemma path_id_append:
  assumes "finder_ok F" "path_id F t0 q = Some i" "F (Node_Key t0 i a0) = None"
    and fresh: "\<And>k s. F k = Some s \<Longrightarrow> cl_id s \<noteq> cl_id r' \<and> cl_parent_id s \<noteq> cl_id r'" "cl_id r' \<noteq> i" "cl_id r' \<noteq> 0"
  shows "path_id (F(Node_Key t0 i a0 \<mapsto> r')) t p = (if t = t0 \<and> p = a0 # q then Some (cl_id r') else path_id F t p)"
proof (induction p)
  case Nil
  then show ?case by simp
next
  case (Cons a p)
  show ?case
  proof (cases "t = t0 \<and> p = a0 # q")
    case True
    have none: "F (Node_Key t0 (cl_id r') a) = None"
    proof (rule ccontr)
      assume "F (Node_Key t0 (cl_id r') a) \<noteq> None"
      then obtain s where s: "F (Node_Key t0 (cl_id r') a) = Some s" by blast
      from finder_okD(1) [OF assms(1) s] fresh(1) [OF s] show False by (simp add: callnode_def)
    qed
    from True Cons assms(2,3) fresh(2) none show ?thesis by simp
  next
    case False
    have q: "path_id F t p = Some i \<Longrightarrow> t = t0 \<Longrightarrow> p = q" using path_node_key [OF assms(1,2)] by simp
    have same: "path_id (F(Node_Key t0 i a0 \<mapsto> r')) t p = path_id F t p" using Cons False by (simp only: if_False)
    show ?thesis
    proof (cases "t = t0 \<and> a # p = a0 # q")
      case True
      then show ?thesis using assms(2) same by (simp only: path_id.simps) simp
    next
      case other: False
      then have "(F(Node_Key t0 i a0 \<mapsto> r')) (Node_Key t j a) = F (Node_Key t j a)" if "path_id F t p = Some j" for j
        using q that by auto
      then show ?thesis using other by (cases "path_id F t p") (simp_all only: path_id.simps same Option.bind.simps if_False)
    qed
  qed
qed

lemma path_node_append:
  assumes "finder_ok F" "path_id F t0 q = Some i" "F (Node_Key t0 i a0) = None"
    and fresh: "\<And>k s. F k = Some s \<Longrightarrow> cl_id s \<noteq> cl_id r' \<and> cl_parent_id s \<noteq> cl_id r'" "cl_id r' \<noteq> i" "cl_id r' \<noteq> 0"
  shows "path_node (F(Node_Key t0 i a0 \<mapsto> r')) t p = (if t = t0 \<and> p = a0 # q then Some r' else path_node F t p)"
proof (cases p)
  case (Cons a p')
  have ids: "path_id (F(Node_Key t0 i a0 \<mapsto> r')) t p' = (if t = t0 \<and> p' = a0 # q then Some (cl_id r') else path_id F t p')"
    by (rule path_id_append [OF assms])
  have none: "F (Node_Key t0 (cl_id r') b) = None" for b
  proof (rule ccontr)
    assume "F (Node_Key t0 (cl_id r') b) \<noteq> None"
    then obtain s where s: "F (Node_Key t0 (cl_id r') b) = Some s" by blast
    from finder_okD(1) [OF assms(1) s] fresh(1) [OF s] show False by (simp add: callnode_def)
  qed
  have q: "path_id F t p' = Some i \<Longrightarrow> t = t0 \<Longrightarrow> p' = q" using path_node_key [OF assms(1,2)] by simp
  show ?thesis
  proof (cases "t = t0 \<and> p' = a0 # q")
    case True
    then show ?thesis using assms(2,3) fresh(2) none ids by (simp add: Cons)
  next
    case False
    then have "path_id (F(Node_Key t0 i a0 \<mapsto> r')) t p' = path_id F t p'" unfolding ids by (simp only: if_False)
    then show ?thesis using q assms(2) by (cases "path_id F t p'") (auto simp: Cons)
  qed
qed simp

section \<open>Reading adds up\<close>

definition path_stats :: "statistics \<Rightarrow> u32 \<Rightarrow> u64 list \<Rightarrow> function_statistics option" where
  "path_stats st t p = map_option cl_function (path_node (st_find st) t p)"

definition plus_stats :: "function_statistics \<Rightarrow> function_statistics option \<Rightarrow> function_statistics option" where
  "plus_stats f g = Some (add_stats (case g of None \<Rightarrow> function_statistics_init | Some g \<Rightarrow> g) f)"

text \<open>The nodes of an update with their paths, in the order they are read.\<close>

fun flatten :: "u64 list \<Rightarrow> (u64 \<times> u64 call_graph_node) list \<Rightarrow> (u64 list \<times> function_statistics) list" where
  "flatten q [] = []"
| "flatten q ((a, Node f callees) # items) = (a # q, f) # flatten (a # q) callees @ flatten q items"

lemma find_snoc: "find P (xs @ [y]) = (case find P xs of Some x \<Rightarrow> Some x | None \<Rightarrow> if P y then Some y else None)"
  by (induction xs) auto

lemma st_find_append:
  "st_ok st' \<Longrightarrow> st_nodes st' = st_nodes st @ [r] \<Longrightarrow> st_find st (callnode r) = None \<Longrightarrow> st_find st' = (st_find st)(callnode r \<mapsto> r)"
proof (rule ext)
  fix k assume "st_ok st'" "st_nodes st' = st_nodes st @ [r]" "st_find st (callnode r) = None"
  then show "st_find st' k = ((st_find st)(callnode r \<mapsto> r)) k"
    using find_snoc [of "\<lambda>r. callnode r = k" "st_nodes st" r] by (auto simp: st_find_def split: option.splits)
qed

lemma st_find_replace:
  assumes "st_nodes st' = map (\<lambda>x. if callnode x = key then plus_function f x else x) (st_nodes st)"
  shows "st_find st' k = (if k = key then map_option (plus_function f) (st_find st k) else st_find st k)"
proof -
  have "find (\<lambda>r. callnode r = k) (map (\<lambda>x. if callnode x = key then plus_function f x else x) xs)
    = (if k = key then map_option (plus_function f) (find (\<lambda>r. callnode r = k) xs) else find (\<lambda>r. callnode r = k) xs)" for xs
    by (induction xs) auto
  then show ?thesis by (simp add: st_find_def assms)
qed

lemma st_id_bound: "st_ok st \<Longrightarrow> r \<in> set (st_nodes st) \<Longrightarrow> unat (cl_id r) \<le> st_size st"
proof -
  assume ok: "st_ok st" and r: "r \<in> set (st_nodes st)"
  from ok have "map cl_id (st_nodes st) = map of_nat [1..<Suc (st_size st)]" unfolding st_ok_def by blast
  from arg_cong [OF this, of set] have "cl_id ` set (st_nodes st) = of_nat ` {1..<Suc (st_size st)}" by (simp only: set_map set_upt)
  with r obtain i where i: "cl_id r = of_nat i" "i < Suc (st_size st)" by fastforce
  have "unat (of_nat i :: u32) \<le> i" by (simp add: unat_of_nat)
  with i show ?thesis by simp
qed

lemma path_id_bound: "st_ok st \<Longrightarrow> path_id (st_find st) t p = Some i \<Longrightarrow> unat i \<le> st_size st"
  by (cases p) (auto simp: bind_eq_Some_conv st_find_iff dest: st_id_bound)

lemma next_id_fresh:
  assumes "st_ok st" "Suc (st_size st) < 2 ^ 32"
  shows "unat (st_next_id st) = Suc (st_size st)"
proof -
  have "st_next_id st = of_nat (Suc (st_size st))" using assms(1) by (simp add: st_ok_def)
  then show ?thesis using assms(2) by (simp only: unat_of_nat) simp
qed

text \<open>Picking or adding the record at a place leaves the statistics of the others.\<close>

lemma touch_paths:
  assumes ok: "st_ok st" and room: "Suc (st_size st) < 2 ^ 32" and q: "path_id (st_find st) thread q = Some i" and key: "key = Node_Key thread i a"
    and nr: "node_record key st = (tr, st1)" and cm: "node_commit notify tr (st1, s) = (st', s')"
  shows "st_ok st'" "st_size st' \<le> Suc (st_size st)" "st_find st' key \<noteq> None"
    "path_id (st_find st) t p = Some j \<Longrightarrow> path_id (st_find st') t p = Some j"
    "path_stats st' t p = (if t = thread \<and> p = a # q \<and> path_stats st t p = None then Some function_statistics_init else path_stats st t p)"
proof -
  note tt = touch [OF ok room path_id_bound [OF ok q] key nr cm]
  show "st_ok st'" by (rule tt(1))
  show "st_size st' \<le> Suc (st_size st)" using arg_cong [OF tt(2), of length] by (simp add: st_size_def st_nodes_def split: if_splits)
  have at: "path_node (st_find st) thread (a # q) = st_find st key" using q key by simp
  let ?r = "set_callnode (construct (st_next_id st)) key"
  show "st_find st' key \<noteq> None"
    "path_id (st_find st) t p = Some j \<Longrightarrow> path_id (st_find st') t p = Some j"
    "path_stats st' t p = (if t = thread \<and> p = a # q \<and> path_stats st t p = None then Some function_statistics_init else path_stats st t p)"
  proof (atomize (full), cases "st_find st key")
    case (Some r)
    then have F: "st_find st' = st_find st" using tt(2) by (simp add: st_find_def fun_eq_iff)
    show "st_find st' key \<noteq> None \<and> (path_id (st_find st) t p = Some j \<longrightarrow> path_id (st_find st') t p = Some j) \<and>
      path_stats st' t p = (if t = thread \<and> p = a # q \<and> path_stats st t p = None then Some function_statistics_init else path_stats st t p)"
      using Some at by (auto simp: F path_stats_def)
  next
    case None
    have k: "callnode ?r = Node_Key thread i a" by (simp add: key callnode_def)
    have F: "st_find st' = (st_find st)(Node_Key thread i a \<mapsto> ?r)"
      using st_find_append [OF tt(1), of st ?r] tt(2) None k key by simp
    have n: "unat (st_next_id st) = Suc (st_size st)" by (rule next_id_fresh [OF ok room])
    have idr: "cl_id ?r = st_next_id st" by (simp add: key construct_def)
    have fresh: "cl_id s \<noteq> cl_id ?r \<and> cl_parent_id s \<noteq> cl_id ?r" if s: "st_find st k = Some s" for k s
    proof -
      have "unat (cl_id s) \<le> st_size st" using s ok by (auto simp: st_find_iff intro: st_id_bound)
      moreover have "cl_parent_id s < cl_id s" using finder_okD(2) [OF st_finder_ok [OF ok] s] .
      ultimately show ?thesis using n idr by (auto simp: word_less_nat_alt)
    qed
    have fresh_i: "cl_id ?r \<noteq> i" using path_id_bound [OF ok q] n idr by auto
    have fresh_0: "cl_id ?r \<noteq> 0" using n idr by auto
    have ids: "path_id (st_find st') t p = (if t = thread \<and> p = a # q then Some (cl_id ?r) else path_id (st_find st) t p)"
      unfolding F by (rule path_id_append [OF st_finder_ok [OF ok] q None [unfolded key]]) (use fresh fresh_i fresh_0 in blast)+
    have nodes: "path_node (st_find st') t p = (if t = thread \<and> p = a # q then Some ?r else path_node (st_find st) t p)"
      unfolding F by (rule path_node_append [OF st_finder_ok [OF ok] q None [unfolded key]]) (use fresh fresh_i fresh_0 in blast)+
    have fr: "cl_function ?r = function_statistics_init" by (simp add: key construct_def)
    have found: "st_find st' key = Some ?r" by (simp add: F key)
    have "path_id (st_find st) thread (a # q) = None" using q None key by simp
    then show "st_find st' key \<noteq> None \<and> (path_id (st_find st) t p = Some j \<longrightarrow> path_id (st_find st') t p = Some j) \<and>
      path_stats st' t p = (if t = thread \<and> p = a # q \<and> path_stats st t p = None then Some function_statistics_init else path_stats st t p)"
      using at None fr found by (auto simp: ids nodes path_stats_def simp del: path_id.simps path_node.simps)
  qed
qed

lemma add_paths:
  assumes ok: "st_ok st" and q: "path_id (st_find st) thread q = Some i" and key: "key = Node_Key thread i a"
    and r: "st_find st key = Some r" and nr: "node_record key st = (tr, st1)"
  shows "\<not> tr_new tr" "st_ok (node_add tr f st1)" "st_size (node_add tr f st1) = st_size st"
    "path_id (st_find (node_add tr f st1)) t p = path_id (st_find st) t p"
    "path_id (st_find st) thread (a # q) = Some (node_id tr (node_add tr f st1))"
    "path_stats (node_add tr f st1) t p
      = (if t = thread \<and> p = a # q then Some (add_stats (cl_function r) f) else path_stats st t p)"
proof -
  note v = visit_present [OF ok r nr]
  show "\<not> tr_new tr" "st_ok (node_add tr f st1)" by (fact v)+
  show "st_size (node_add tr f st1) = st_size st" using arg_cong [OF v(4), of length] by (simp add: st_size_def st_nodes_def)
  have F: "st_find (node_add tr f st1) = (st_find st)(Node_Key thread i a \<mapsto> plus_function f r)"
    using st_find_replace [OF v(4)] r key by (auto simp: fun_eq_iff)
  show "path_id (st_find (node_add tr f st1)) t p = path_id (st_find st) t p"
    unfolding F by (rule path_id_replace [of _ _ r]) (use r key in simp_all)
  show "path_id (st_find st) thread (a # q) = Some (node_id tr (node_add tr f st1))" using q r key v(3) by simp
  have "path_node (st_find (node_add tr f st1)) t p = (if t = thread \<and> p = a # q then Some (plus_function f r) else path_node (st_find st) t p)"
    unfolding F by (rule path_node_replace [of _ _ _ _ _ r, OF st_finder_ok [OF ok] q]) (use r key in simp_all)
  then show "path_stats (node_add tr f st1) t p
      = (if t = thread \<and> p = a # q then Some (add_stats (cl_function r) f) else path_stats st t p)"
    by (simp add: path_stats_def)
qed

text \<open>One node of an update.\<close>

lemma read_node:
  assumes ok: "st_ok st" and room: "Suc (st_size st) < 2 ^ 32" and q: "path_id (st_find st) thread q = Some i" and key: "key = Node_Key thread i a"
    and 1: "node_record key st = (tr, st1)" "node_commit notify tr (st1, s) = (st2, s2)" "node_record key st2 = (tr', st3)"
  shows "\<not> tr_new tr'" "st_ok (node_add tr' f st3)" "st_size (node_add tr' f st3) \<le> Suc (st_size st)"
    "path_id (st_find st) t p = Some j \<Longrightarrow> path_id (st_find (node_add tr' f st3)) t p = Some j"
    "path_id (st_find (node_add tr' f st3)) thread (a # q) = Some (node_id tr' (node_add tr' f st3))"
    "path_stats (node_add tr' f st3) t p = (if t = thread \<and> p = a # q then plus_stats f (path_stats st t p) else path_stats st t p)"
proof -
  note t = touch_paths [OF ok room q key 1(1,2)]
  obtain r where r: "st_find st2 key = Some r" using t(3) by blast
  have q2: "path_id (st_find st2) thread q = Some i" by (rule t(4) [OF q])
  note v = add_paths [OF t(1) q2 key r 1(3)]
  show "\<not> tr_new tr'" "st_ok (node_add tr' f st3)" by (fact v)+
  show "st_size (node_add tr' f st3) \<le> Suc (st_size st)" using t(2) by (simp add: v(3))
  show "path_id (st_find st) t p = Some j \<Longrightarrow> path_id (st_find (node_add tr' f st3)) t p = Some j" using t(4) [of t p j] by (simp only: v(4))
  show "path_id (st_find (node_add tr' f st3)) thread (a # q) = Some (node_id tr' (node_add tr' f st3))" unfolding v(4) by (rule v(5))
  have "path_stats st2 thread (a # q) = Some (cl_function r)" using q2 r key by (simp add: path_stats_def)
  then have "cl_function r = (case path_stats st thread (a # q) of None \<Rightarrow> function_statistics_init | Some g \<Rightarrow> g)"
    unfolding t(5) by (cases "path_stats st thread (a # q)") simp_all
  then show "path_stats (node_add tr' f st3) t p = (if t = thread \<and> p = a # q then plus_stats f (path_stats st t p) else path_stats st t p)"
    unfolding v(6) t(5) by (simp add: plus_stats_def)
qed

definition contributions :: "u64 list \<Rightarrow> (u64 list \<times> function_statistics) list \<Rightarrow> function_statistics list" where
  "contributions p xs = map snd (filter (\<lambda>x. fst x = p) xs)"

lemma contributions_simps [simp]:
  "contributions p [] = []" "contributions p ((p', f) # xs) = (if p' = p then [f] else []) @ contributions p xs"
  "contributions p (xs @ ys) = contributions p xs @ contributions p ys"
  by (simp_all add: contributions_def)

lemma read_items_adds:
  "st_ok (fst ss) \<Longrightarrow> path_id (st_find (fst ss)) thread q = Some parent_id \<Longrightarrow> st_size (fst ss) + length (flatten q items) < 2 ^ 32
   \<Longrightarrow> st_ok (fst (read_items notify thread parent_id items ss))
     \<and> st_size (fst (read_items notify thread parent_id items ss)) \<le> st_size (fst ss) + length (flatten q items)
     \<and> (\<forall>t p j. path_id (st_find (fst ss)) t p = Some j \<longrightarrow> path_id (st_find (fst (read_items notify thread parent_id items ss))) t p = Some j)
     \<and> (\<forall>t p. path_stats (fst (read_items notify thread parent_id items ss)) t p
          = (if t = thread then fold plus_stats (contributions p (flatten q items)) (path_stats (fst ss) t p) else path_stats (fst ss) t p))"
proof (induction q items arbitrary: parent_id ss rule: flatten.induct)
  case (1 q)
  then show ?case by simp
next
  case (2 q a f callees items)
  let ?key = "Node_Key thread parent_id a"
  obtain tr st1 where 1: "node_record ?key (fst ss) = (tr, st1)" by fastforce
  obtain st2 s2 where 2: "node_commit notify tr (st1, snd ss) = (st2, s2)" by fastforce
  obtain tr' st3 where 3: "node_record ?key st2 = (tr', st3)" by fastforce
  let ?st = "node_add tr' f st3"
  let ?ss4 = "read_items notify thread (node_id tr' ?st) callees (?st, s2)"
  let ?ss5 = "node_commit notify tr' ?ss4"
  have room: "Suc (st_size (fst ss)) < 2 ^ 32" using "2.prems"(3) by simp
  note n = read_node [OF "2.prems"(1) room "2.prems"(2) refl 1 2 3]
  have room1: "st_size ?st + length (flatten (a # q) callees) < 2 ^ 32" using n(3) [of f] "2.prems"(3) by simp
  have ih1: "st_ok (fst ?ss4) \<and> st_size (fst ?ss4) \<le> st_size ?st + length (flatten (a # q) callees)
     \<and> (\<forall>t p j. path_id (st_find ?st) t p = Some j \<longrightarrow> path_id (st_find (fst ?ss4)) t p = Some j)
     \<and> (\<forall>t p. path_stats (fst ?ss4) t p
          = (if t = thread then fold plus_stats (contributions p (flatten (a # q) callees)) (path_stats ?st t p) else path_stats ?st t p))"
    using "2.IH"(1) [of "(?st, s2)" "node_id tr' ?st"] n(2,5) room1 by simp
  have c: "fst ?ss5 = fst ?ss4" by (rule node_commit_modified [OF n(1)])
  have q5: "path_id (st_find (fst ?ss5)) thread q = Some parent_id" using ih1 n(4) [OF "2.prems"(2)] unfolding c by blast
  have room2: "st_size (fst ?ss5) + length (flatten q items) < 2 ^ 32" using ih1 n(3) [of f] "2.prems"(3) unfolding c by simp
  have ih2: "st_ok (fst (read_items notify thread parent_id items ?ss5)) \<and> st_size (fst (read_items notify thread parent_id items ?ss5)) \<le> st_size (fst ?ss5) + length (flatten q items)
     \<and> (\<forall>t p j. path_id (st_find (fst ?ss5)) t p = Some j \<longrightarrow> path_id (st_find (fst (read_items notify thread parent_id items ?ss5))) t p = Some j)
     \<and> (\<forall>t p. path_stats (fst (read_items notify thread parent_id items ?ss5)) t p
          = (if t = thread then fold plus_stats (contributions p (flatten q items)) (path_stats (fst ?ss5) t p) else path_stats (fst ?ss5) t p))"
    using "2.IH"(2) [OF _ q5 room2] ih1 c by simp
  have e: "read_items notify thread parent_id ((a, Node f callees) # items) ss = read_items notify thread parent_id items ?ss5"
    by (simp add: 1 2 3 Let_def)
  show ?case unfolding e
  proof (intro conjI allI impI)
    show "st_ok (fst (read_items notify thread parent_id items ?ss5))" using ih2 by blast
    show "st_size (fst (read_items notify thread parent_id items ?ss5)) \<le> st_size (fst ss) + length (flatten q ((a, Node f callees) # items))"
      using ih1 ih2 n(3) [of f] unfolding c by simp
    show "path_id (st_find (fst (read_items notify thread parent_id items ?ss5))) t p = Some j" if "path_id (st_find (fst ss)) t p = Some j" for t p j
      using ih1 ih2 n(4) [OF that] unfolding c by blast
    show "path_stats (fst (read_items notify thread parent_id items ?ss5)) t p
        = (if t = thread then fold plus_stats (contributions p (flatten q ((a, Node f callees) # items))) (path_stats (fst ss) t p) else path_stats (fst ss) t p)" for t p
    proof -
      from ih2 have s5: "path_stats (fst (read_items notify thread parent_id items ?ss5)) t p
        = (if t = thread then fold plus_stats (contributions p (flatten q items)) (path_stats (fst ?ss4) t p) else path_stats (fst ?ss4) t p)"
        unfolding c by blast
      from ih1 have s4: "path_stats (fst ?ss4) t p
        = (if t = thread then fold plus_stats (contributions p (flatten (a # q) callees)) (path_stats ?st t p) else path_stats ?st t p)" by blast
      show ?thesis unfolding s5 s4 n(6) [of f t p] by (cases "t = thread"; cases "p = a # q") auto
    qed
  qed
qed

definition update_size :: "statistics_update \<Rightarrow> nat" where
  "update_size u = (\<Sum>x\<leftarrow>u. length (flatten [] (snd x)))"

definition update_contributions :: "u32 \<Rightarrow> u64 list \<Rightarrow> statistics_update \<Rightarrow> function_statistics list" where
  "update_contributions t p u = concat (map (\<lambda>x. if fst x = t then contributions p (flatten [] (snd x)) else []) u)"

lemma read_threads_adds:
  "st_ok (fst ss) \<Longrightarrow> st_size (fst ss) + update_size u < 2 ^ 32
   \<Longrightarrow> st_ok (fst (snd (read_threads notify b u (threads, ss))))
     \<and> st_size (fst (snd (read_threads notify b u (threads, ss)))) \<le> st_size (fst ss) + update_size u
     \<and> (\<forall>t p. path_stats (fst (snd (read_threads notify b u (threads, ss)))) t p
          = fold plus_stats (update_contributions t p u) (path_stats (fst ss) t p))
     \<and> fst (read_threads notify b u (threads, ss)) = (if b \<and> u \<noteq> [] then [] else threads) @ map fst u"
proof (induction u arbitrary: b threads ss)
  case Nil
  then show ?case by (simp add: update_size_def update_contributions_def)
next
  case (Cons x u)
  obtain thread nodes where x: "x = (thread, nodes)" by fastforce
  let ?ss = "read_items notify thread 0 nodes ss"
  have size: "update_size (x # u) = length (flatten [] nodes) + update_size u" by (simp add: update_size_def x)
  have "path_id (st_find (fst ss)) thread [] = Some 0" "st_size (fst ss) + length (flatten [] nodes) < 2 ^ 32"
    using Cons.prems(2) by (simp_all add: size)
  note r = read_items_adds [OF Cons.prems(1) this, of notify]
  have "st_size (fst ?ss) + update_size u < 2 ^ 32" using r Cons.prems(2) by (simp add: size)
  note ih = Cons.IH [OF conjunct1 [OF r] this, of False "(if b then [] else threads) @ [thread]"]
  have e: "read_threads notify b (x # u) (threads, ss) = read_threads notify False u ((if b then [] else threads) @ [thread], ?ss)"
    by (simp add: x)
  show ?case unfolding e
  proof (intro conjI allI)
    show "st_ok (fst (snd (read_threads notify False u ((if b then [] else threads) @ [thread], ?ss))))" using ih by blast
    show "st_size (fst (snd (read_threads notify False u ((if b then [] else threads) @ [thread], ?ss)))) \<le> st_size (fst ss) + update_size (x # u)"
      using ih r by (simp add: size)
    show "fst (read_threads notify False u ((if b then [] else threads) @ [thread], ?ss)) = (if b \<and> x # u \<noteq> [] then [] else threads) @ map fst (x # u)"
      using ih by (simp add: x)
    show "path_stats (fst (snd (read_threads notify False u ((if b then [] else threads) @ [thread], ?ss)))) t p
      = fold plus_stats (update_contributions t p (x # u)) (path_stats (fst ss) t p)" for t p
    proof -
      from ih have 1: "path_stats (fst (snd (read_threads notify False u ((if b then [] else threads) @ [thread], ?ss)))) t p
        = fold plus_stats (update_contributions t p u) (path_stats (fst ?ss) t p)" by blast
      from r have 2: "path_stats (fst ?ss) t p
        = (if t = thread then fold plus_stats (contributions p (flatten [] nodes)) (path_stats (fst ss) t p) else path_stats (fst ss) t p)" by blast
      show ?thesis unfolding 1 2 by (simp add: x update_contributions_def)
    qed
  qed
qed

lemma read_update_adds:
  assumes "st_ok st" "st_size st + update_size u < 2 ^ 32" "read_update notify u (threads, st, s) = (threads', st', s')"
  shows "st_ok st'" "st_size st' \<le> st_size st + update_size u"
    "path_stats st' t p = fold plus_stats (update_contributions t p u) (path_stats st t p)"
    "threads' = (if u = [] then threads else map fst u)"
proof -
  have f: "st_find (use_index st) = st_find st" using use_index_ok(2) [OF assms(1)] by (simp add: st_find_def st_nodes_def fun_eq_iff)
  have i: "st_ok (use_index st)" "st_size (use_index st) = st_size st" "path_stats (use_index st) = path_stats st"
    using use_index_ok [of st] assms(1) f by (simp_all add: st_size_def path_stats_def [abs_def])
  have e: "threads' = fst (read_threads notify True u (threads, use_index st, s))" "st' = fst (snd (read_threads notify True u (threads, use_index st, s)))"
    using assms(3) by (simp_all add: read_update_def Let_def split_def use_index_def)
  have "st_size (fst (use_index st, s)) + update_size u < 2 ^ 32" using assms(2) i(2) by simp
  with read_threads_adds [of "(use_index st, s)" u notify True threads] i
  have all: "st_ok st' \<and> st_size st' \<le> st_size st + update_size u \<and> (\<forall>t p. path_stats st' t p = fold plus_stats (update_contributions t p u) (path_stats st t p))
     \<and> threads' = (if True \<and> u \<noteq> [] then [] else threads) @ map fst u" unfolding e by simp
  show "st_ok st'" "st_size st' \<le> st_size st + update_size u" using all by simp_all
  show "path_stats st' t p = fold plus_stats (update_contributions t p u) (path_stats st t p)" using all by blast
  show "threads' = (if u = [] then threads else map fst u)" using all by auto
qed

end
