(* ===== verification/Statistics_Update.thy ===== *)
theory Statistics_Update
  imports Statistics_Table
begin

text \<open>
  A profiling session from traces to the table of the frontend: what the analyzer has is sent and cleared with every
  update the frontend asks for, and read into the table. The trees the analyzer builds have every path once.
\<close>

section \<open>Trees of statistics\<close>

text \<open>A path occurs at most once in a tree.\<close>

fun tree_ok :: "'k call_graph_node \<Rightarrow> bool" where
  "tree_ok (Node f cs) \<longleftrightarrow> um_ok cs \<and> (\<forall>c\<in>set cs. tree_ok (snd c))"

lemma flatten_paths: "x \<in> set (flatten q items) \<Longrightarrow> \<exists>r a. fst x = r @ a # q \<and> a \<in> fst ` set items"
proof (induction q items arbitrary: x rule: flatten.induct)
  case (1 q)
  then show ?case by simp
next
  case (2 q a f callees items)
  from "2.prems" consider "x = (a # q, f)" | "x \<in> set (flatten (a # q) callees)" | "x \<in> set (flatten q items)" by auto
  then show ?case
  proof cases
    case 1
    then show ?thesis by (intro exI [of _ "[]"] exI [of _ a]) simp
  next
    case 2
    from "2.IH"(1) [OF this] obtain r b where "fst x = r @ b # a # q" by blast
    then show ?thesis by (intro exI [of _ "r @ [b]"] exI [of _ a]) simp
  next
    case 3
    from "2.IH"(2) [OF this] show ?thesis by auto
  qed
qed

lemma contributions_absent: "(\<And>x. x \<in> set xs \<Longrightarrow> fst x \<noteq> p) \<Longrightarrow> contributions p xs = []"
  by (auto simp: contributions_def filter_empty_conv)

lemma same_suffix: "r @ a # q = r' @ b # q \<longleftrightarrow> r = r' \<and> a = b"
  by auto

lemma contributions_tree:
  "tree_ok (Node s items) \<Longrightarrow> p \<noteq> []
   \<Longrightarrow> contributions (rev p @ q) (flatten q items) = (case stats_at p (Node s items) of None \<Rightarrow> [] | Some f \<Rightarrow> [f])"
proof (induction q items arbitrary: p s rule: flatten.induct)
  case (1 q)
  then show ?case by (cases p) (simp_all add: stats_at_def)
next
  case (2 q a f callees items)
  from "2.prems"(2) obtain b r where p: "p = b # r" by (cases p) auto
  have ok: "tree_ok (Node f callees)" "tree_ok (Node s items)" "a \<notin> fst ` set items" using "2.prems"(1) by (auto simp: um_ok_def)
  have path: "rev p @ q = rev r @ b # q" by (simp add: p)
  show ?case
  proof (cases "b = a")
    case True
    have rest: "contributions (rev r @ a # q) (flatten q items) = []"
    proof (rule contributions_absent)
      fix x assume "x \<in> set (flatten q items)"
      from flatten_paths [OF this] obtain r' c where "fst x = r' @ c # q" "c \<in> fst ` set items" by blast
      with ok(3) show "fst x \<noteq> rev r @ a # q" by (auto simp: same_suffix)
    qed
    show ?thesis
    proof (cases r)
      case Nil
      have "contributions (a # q) (flatten (a # q) callees) = []"
        by (rule contributions_absent) (use flatten_paths in fastforce)
      then show ?thesis using rest True Nil by (simp add: p stats_at_def)
    next
      case (Cons c r')
      have "contributions (rev r @ a # q) (flatten (a # q) callees) = (case stats_at r (Node f callees) of None \<Rightarrow> [] | Some f \<Rightarrow> [f])"
        by (rule "2.IH"(1) [OF ok(1)]) (simp add: Cons)
      moreover have "a # q \<noteq> rev r @ a # q" by (simp add: Cons)
      ultimately show ?thesis using rest True unfolding path by (simp add: p stats_at_def)
    qed
  next
    case False
    have inner: "contributions (rev r @ b # q) (flatten (a # q) callees) = []"
    proof (rule contributions_absent)
      fix x assume "x \<in> set (flatten (a # q) callees)"
      from flatten_paths [OF this] obtain r' c where "fst x = (r' @ [c]) @ a # q" by auto
      with False show "fst x \<noteq> rev r @ b # q" by (simp only: same_suffix) simp
    qed
    have "a # q \<noteq> rev r @ b # q" using False same_suffix [of "[]" a q "rev r" b] by simp
    with inner "2.IH"(2) [OF ok(2) "2.prems"(2)] False show ?thesis unfolding path by (simp add: p stats_at_def)
  qed
qed

lemma tree_ok_assign: "tree_ok (Node s cs) \<Longrightarrow> tree_ok c \<Longrightarrow> tree_ok (Node s' (um_assign k c cs))"
proof -
  assume ok: "tree_ok (Node s cs)" "tree_ok c"
  have "x \<in> set (um_assign k c cs) \<Longrightarrow> snd x = c \<or> x \<in> set cs" for x by (induction cs) (auto split: if_splits)
  then have "tree_ok (snd x)" if "x \<in> set (um_assign k c cs)" for x using that ok by (cases x) fastforce
  moreover have "um_ok (um_assign k c cs)" using ok(1) by (simp add: um_ok_assign)
  ultimately show ?thesis by (intro tree_ok.simps [THEN iffD2] conjI ballI)
qed

lemma tree_ok_upd_at: "tree_ok t \<Longrightarrow> (\<And>n. tree_ok n \<Longrightarrow> tree_ok (f n)) \<Longrightarrow> tree_ok (upd_at p f t)"
proof (induction p arbitrary: t)
  case Nil
  then show ?case by simp
next
  case (Cons k p)
  obtain s cs where t: "t = Node s cs" by (cases t)
  show ?case
  proof (cases "um_find cs k")
    case None
    then show ?thesis using Cons.prems(1) by (simp add: t)
  next
    case (Some c)
    then have "tree_ok c" using Cons.prems(1) by (auto simp: t dest!: map_of_SomeD)
    then have "tree_ok (upd_at p f c)" using Cons by blast
    with Cons.prems(1) Some show ?thesis using tree_ok_assign [of s cs _ s k] by (simp add: t)
  qed
qed

lemma tree_ok_get_node: "tree_ok n \<Longrightarrow> tree_ok (get_node k n)"
  using tree_ok_assign [of "node_stats n" "node_callees n" call_graph_node_init "node_stats n" k]
  by (cases n) (auto simp: get_node_def um_insert_def call_graph_node_init_def split: option.splits)

lemma tree_ok_on_stats: "tree_ok n \<Longrightarrow> tree_ok (on_stats g n)"
  by (cases n) (simp add: on_stats_def)

lemma tree_ok_record: "tree_ok t \<Longrightarrow> ss_record io tot r (s, t) = Some (s', t') \<Longrightarrow> tree_ok t'"
  by (auto simp: ss_record_def ss_enter_def ss_exit_def Let_def intro!: tree_ok_upd_at tree_ok_get_node tree_ok_on_stats
      split: option.splits list.splits)

lemma tree_ok_run: "tree_ok t \<Longrightarrow> ss_run io tot rs (s, t) = Some (s', t') \<Longrightarrow> tree_ok t'"
  by (induction rs arbitrary: s t) (auto split: option.splits dest: tree_ok_record)

lemma tree_ok_reset_above: "tree_ok t \<Longrightarrow> tree_ok (snd (reset_above path is t))"
  by (induction path "is" t rule: reset_above.induct) (auto simp: Let_def split_def intro!: tree_ok_upd_at tree_ok_get_node split: option.splits)

lemma tree_ok_update: "update ss trace m = Some (ss', m') \<Longrightarrow> tree_ok (Node function_statistics_init m) \<Longrightarrow> tree_ok (Node function_statistics_init m')"
proof -
  assume u: "update ss trace m = Some (ss', m')" and ok: "tree_ok (Node function_statistics_init m)"
  have "tree_ok (snd (reset_stack (stack ss) (Node function_statistics_init m)))"
    using ok tree_ok_reset_above [OF ok] by (auto simp: reset_stack_def split_def Let_def split: list.splits)
  moreover obtain s t where "ss_run (inner_overhead ss) (total_overhead ss) trace (reset_stack (stack ss) (Node function_statistics_init m)) = Some (s, t)"
    and m': "m' = node_callees t" using u by (auto simp: update_def split: option.splits)
  ultimately have "tree_ok t" by (metis tree_ok_run prod.collapse)
  then show ?thesis by (cases t) (simp add: m')
qed

text \<open>No maximum is negative.\<close>

definition maxima_ok :: "'k call_graph_node \<Rightarrow> bool" where
  "maxima_ok t \<longleftrightarrow> (\<forall>q. 0 \<le> max_call_time (stats0 q t))"

lemma maxima_ok_record: "maxima_ok t \<Longrightarrow> ss_record io tot r (s, t) = Some (s', t') \<Longrightarrow> maxima_ok t'"
  by (auto simp: maxima_ok_def ss_record_def ss_enter_def ss_exit_def Let_def stats0_on_stats has_node_def le_max_iff_disj
      split: option.splits list.splits)

lemma maxima_ok_run: "maxima_ok t \<Longrightarrow> ss_run io tot rs (s, t) = Some (s', t') \<Longrightarrow> maxima_ok t'"
  by (induction rs arbitrary: s t) (auto split: option.splits dest: maxima_ok_record)

lemma maxima_ok_update:
  assumes "linked (stack ss)" "update ss trace m = Some (ss', m')" "maxima_ok (Node function_statistics_init m)"
  shows "maxima_ok (Node function_statistics_init m')"
proof (rule maxima_ok_run [OF _ update_runs(1) [OF assms(1,2)]])
  show "maxima_ok (reset_tree ss m)" using assms(3) by (simp add: maxima_ok_def reset_tree(3) [OF assms(1)])
qed

section \<open>A session\<close>

text \<open>Where traces are analyzed and the frontend asks for updates in any order; the tree of a thread and its statistics.\<close>

abbreviation thread_tree :: "u32 \<Rightarrow> u64 analyzer \<Rightarrow> u64 call_graph_node" where
  "thread_tree tid an \<equiv> Node function_statistics_init (ta_statistics (thread_state tid an))"

inductive profiling ::
  "'s statistics_subscribers \<Rightarrow> overhead \<Rightarrow> 's \<Rightarrow> (u32 \<times> u64 call_record list) list \<Rightarrow> u64 analyzer \<Rightarrow> u32 list \<times> statistics \<times> 's \<Rightarrow> bool"
  for notify ov s0 where
  connect: "profiling notify ov s0 [] (analyzer_init ov) ([], statistics_init, s0)"
| collect: "profiling notify ov s0 bs an c \<Longrightarrow> an_accept_calls tid calls an = Some an' \<Longrightarrow> profiling notify ov s0 (bs @ [(tid, calls)]) an' c"
| refresh: "profiling notify ov s0 bs an c \<Longrightarrow> st_size (fst (snd c)) + update_size (statistics_message an) < 2 ^ 32
    \<Longrightarrow> profiling notify ov s0 bs (an_clear an) (read_update notify (statistics_message an) c)"

lemma thread_state_clear: "thread_state tid (an_clear an) = ta_clear (thread_state tid an)"
proof -
  have "um_find (map (\<lambda>(tid, ta). (tid, ta_clear ta)) ts) tid = map_option ta_clear (um_find ts tid)" for ts :: "(u32, 'a thread_analyzer) umap"
    by (induction ts) auto
  then show ?thesis by (simp add: thread_state_def an_clear_def thread_analyzer_init_def ta_clear_def split: option.splits)
qed

lemma message_find: "um_find (statistics_message an) tid = map_option ta_statistics (um_find (an_threads an) tid)"
proof -
  have "um_find (map (\<lambda>(tid, ta). (tid, ta_statistics ta)) ts) tid = map_option ta_statistics (um_find ts tid)" for ts :: "(u32, u64 thread_analyzer) umap"
    by (induction ts) auto
  then show ?thesis by (simp add: statistics_message_def)
qed

definition analyzer_ok :: "u64 analyzer \<Rightarrow> bool" where
  "analyzer_ok an \<longleftrightarrow> an_ok an \<and> um_ok (an_threads an) \<and> (\<forall>tid. tree_ok (thread_tree tid an) \<and> maxima_ok (thread_tree tid an))"

lemma maxima_ok_empty: "maxima_ok (Node function_statistics_init [])"
  by (simp add: maxima_ok_def stats0_empty)

lemma analyzer_ok_init: "analyzer_ok (analyzer_init ov)"
  using an_ok_init [of ov] by (simp add: analyzer_ok_def) (simp add: thread_state_def analyzer_init_def thread_analyzer_init_def maxima_ok_empty)

lemma analyzer_ok_clear: "analyzer_ok an \<Longrightarrow> analyzer_ok (an_clear an)"
proof -
  assume ok: "analyzer_ok an"
  have "um_ok (an_threads (an_clear an))" using ok by (simp add: analyzer_ok_def um_ok_def an_clear_def comp_def split_def)
  then show ?thesis using ok by (simp add: analyzer_ok_def an_ok_def thread_state_clear ta_ok_def ta_clear_def maxima_ok_empty)
qed

lemma ta_accept_update:
  "ta_accept_calls calls ta = Some ta' \<longleftrightarrow> update (ta_stack ta) calls (ta_statistics ta) = Some (ta_stack ta', ta_statistics ta')"
  by (cases ta') (auto simp: ta_accept_calls_def)

lemma analyzer_ok_accept:
  assumes ok: "analyzer_ok an" and a: "an_accept_calls tid calls an = Some an'"
  shows "analyzer_ok an'"
proof -
  note st = accept_thread_state [OF a]
  have "um_ok (an_threads an')" using a ok
    by (auto simp: an_accept_calls_def analyzer_ok_def Let_def dict_simps split: option.splits)
  moreover have "tree_ok (thread_tree t an') \<and> maxima_ok (thread_tree t an')" for t
  proof (cases "t = tid")
    case True
    have l: "linked (stack (ta_stack (thread_state t an)))" using ok by (simp add: analyzer_ok_def an_ok_def ta_ok_def)
    from st(1) True have "update (ta_stack (thread_state t an)) calls (ta_statistics (thread_state t an)) = Some (ta_stack (thread_state t an'), ta_statistics (thread_state t an'))"
      by (simp add: ta_accept_update)
    from tree_ok_update [OF this] maxima_ok_update [OF l this] ok show ?thesis by (simp add: analyzer_ok_def)
  next
    case False
    then have "thread_state t an' = thread_state t an" using st(2,4) by (auto intro: thread_state_cong)
    then show ?thesis using ok by (simp add: analyzer_ok_def)
  qed
  moreover have "an_ok an'" using ok accept_an_ok [OF _ a] by (simp add: analyzer_ok_def)
  ultimately show ?thesis by (simp add: analyzer_ok_def)
qed

text \<open>What an update of the analyzer adds for a path.\<close>

lemma message_contributions:
  assumes "analyzer_ok an" "p \<noteq> []"
  shows "update_contributions tid (rev p) (statistics_message an) = (case stats_at p (thread_tree tid an) of None \<Rightarrow> [] | Some f \<Rightarrow> [f])"
proof -
  have single: "update_contributions tid q u = (case um_find u tid of None \<Rightarrow> [] | Some nodes \<Rightarrow> contributions q (flatten [] nodes))" if "um_ok u" for u q
    using that
  proof (induction u)
    case (Cons x u)
    have "fst x \<notin> fst ` set u" using Cons.prems by (simp add: um_ok_def)
    then have "fst y \<noteq> fst x" if "y \<in> set u" for y using imageI [OF that, of fst] by metis
    then have "update_contributions (fst x) q u = []" by (auto simp: update_contributions_def)
    moreover have "update_contributions tid q (x # u) = (if fst x = tid then contributions q (flatten [] (snd x)) else []) @ update_contributions tid q u"
      by (simp add: update_contributions_def)
    ultimately show ?case using Cons by (cases x) (auto simp: um_ok_def)
  qed (simp add: update_contributions_def)
  have "um_ok (statistics_message an)" using assms(1) by (simp add: analyzer_ok_def um_ok_def statistics_message_def comp_def split_def)
  from single [OF this] have e: "update_contributions tid (rev p) (statistics_message an)
      = (case um_find (an_threads an) tid of None \<Rightarrow> [] | Some ta \<Rightarrow> contributions (rev p) (flatten [] (ta_statistics ta)))"
    by (simp add: message_find split: option.splits)
  have "tree_ok (thread_tree tid an)" using assms(1) by (simp add: analyzer_ok_def)
  from contributions_tree [OF this assms(2), of "[]"] show ?thesis unfolding e
    by (cases "um_find (an_threads an) tid") (use assms(2) in \<open>auto simp: thread_state_def thread_analyzer_init_def stats_at_def neq_Nil_conv\<close>)
qed

section \<open>The profile the frontend has\<close>

definition shown :: "statistics \<Rightarrow> u32 \<Rightarrow> u64 list \<Rightarrow> function_statistics" where
  "shown st tid p = (case path_stats st tid (rev p) of None \<Rightarrow> function_statistics_init | Some f \<Rightarrow> f)"

lemma statistics_init_ok: "st_ok statistics_init" "path_stats statistics_init t p = None"
proof -
  show "st_ok statistics_init" by (simp add: st_ok_def statistics_init_def st_size_def st_nodes_def indexed_init) (simp add: table_init_def)
  have "st_find statistics_init = (\<lambda>_. None)" by (simp add: fun_eq_iff st_find_def st_nodes_def statistics_init_def table_init_def)
  then have "path_node (st_find statistics_init) t p = None" by (cases p) (simp_all add: bind_eq_None_conv)
  then show "path_stats statistics_init t p = None" by (simp add: path_stats_def)
qed

lemma refresh_shown:
  assumes "analyzer_ok an" "st_ok st" "st_size st + update_size (statistics_message an) < 2 ^ 32"
    "read_update notify (statistics_message an) (threads, st, s) = (threads', st', s')" "p \<noteq> []" "0 \<le> max_call_time (shown st tid p)"
  shows "shown st' tid p = add_stats (shown st tid p) (stats0 p (thread_tree tid an))"
proof -
  from read_update_adds(3) [OF assms(2-4)] message_contributions [OF assms(1,5), of tid]
  have "path_stats st' tid (rev p) = (case stats_at p (thread_tree tid an) of None \<Rightarrow> path_stats st tid (rev p) | Some f \<Rightarrow> plus_stats f (path_stats st tid (rev p)))"
    by (simp split: option.splits)
  then show ?thesis using add_stats_init [OF assms(6)]
    by (auto simp: shown_def stats0_def plus_stats_def split: option.splits)
qed

text \<open>Batches that are accepted thread by thread are accepted together.\<close>

lemma accept_all_exists:
  "an_ok an \<Longrightarrow> (\<forall>tid\<in>fst ` set bs. ta_accept_calls (thread_trace tid bs) (thread_state tid an) \<noteq> None) \<Longrightarrow> \<exists>an'. an_accept_all bs an = Some an'"
proof (induction bs arbitrary: an)
  case Nil
  then show ?case by simp
next
  case (Cons b bs)
  obtain t calls where b: "b = (t, calls)" by (cases b)
  have ok: "ta_ok (thread_state t an)" using Cons.prems(1) by (simp add: an_ok_def)
  have tt: "thread_trace t (b # bs) = calls @ thread_trace t bs" by (simp add: b thread_trace_def)
  have "t \<in> fst ` set (b # bs)" by (simp add: b)
  with Cons.prems(2) have "ta_accept_calls (calls @ thread_trace t bs) (thread_state t an) \<noteq> None" unfolding tt [symmetric] by blast
  then obtain ta where ta: "ta_accept_calls calls (thread_state t an) = Some ta" "ta_accept_calls (thread_trace t bs) ta \<noteq> None"
    by (cases "ta_accept_calls calls (thread_state t an)") (auto simp: ta_accept_append [OF ok])
  have "an_accept_calls t calls an \<noteq> None" using ta(1)
    by (auto simp: an_accept_calls_def thread_state_def Let_def dict_simps split: option.splits if_splits)
  then obtain an1 where an1: "an_accept_calls t calls an = Some an1" by blast
  note st = accept_thread_state [OF an1]
  have "ta_accept_calls (thread_trace tid bs) (thread_state tid an1) \<noteq> None" if "tid \<in> fst ` set bs" for tid
  proof (cases "tid = t")
    case True
    then show ?thesis using ta st(1) by simp
  next
    case False
    then have "thread_state tid an1 = thread_state tid an" using st(2,4) by (auto intro: thread_state_cong)
    moreover have "thread_trace tid (b # bs) = thread_trace tid bs" using False by (simp add: b thread_trace_def)
    moreover have "tid \<in> fst ` set (b # bs)" using that by simp
    ultimately show ?thesis using Cons.prems(2) by metis
  qed
  with Cons.IH [OF accept_an_ok [OF Cons.prems(1) an1]] obtain an' where "an_accept_all bs an1 = Some an'" by blast
  then show ?case by (simp add: b an1)
qed

lemma analyzed_append: "an_accept_all (bs @ cs) an = Option.bind (an_accept_all bs an) (an_accept_all cs)"
proof (induction bs arbitrary: an)
  case (Cons b bs)
  then show ?case by (cases "an_accept_calls (fst b) (snd b) an") simp_all
qed simp

lemma accept_all_ok: "analyzer_ok an \<Longrightarrow> an_accept_all bs an = Some an' \<Longrightarrow> analyzer_ok an'"
  by (induction bs arbitrary: an) (auto simp: bind_eq_Some_conv dest: analyzer_ok_accept)

lemma accept_all_thread_state:
  assumes "an_ok an" "an_accept_all bs an = Some an'"
  shows "ta_accept_calls (thread_trace tid bs) (thread_state tid an) = Some (thread_state tid an') \<or> tid \<notin> fst ` set bs \<and> thread_state tid an' = thread_state tid an"
  using accept_all_thread [OF assms, of tid] by (cases "tid \<in> fst ` set bs") (auto intro: thread_state_cong)

text \<open>Analyzing a portion apart from what came before gives the whole when added to it.\<close>

lemma portion_added:
  assumes w: "analyzer_ok w" and apart: "\<And>tid. thread_state tid a = ta_clear (thread_state tid w)" and a: "an_ok a" "an_accept_all bs a = Some a'"
  shows "\<exists>w'. an_accept_all bs w = Some w' \<and> (\<forall>tid. ta_stack (thread_state tid w') = ta_stack (thread_state tid a')
    \<and> (\<forall>p. stats0 p (thread_tree tid w') = add_stats (stats0 p (thread_tree tid w)) (stats0 p (thread_tree tid a'))))"
proof -
  have okw: "an_ok w" using w by (simp add: analyzer_ok_def)
  have add: "\<exists>m'. update (ta_stack (thread_state tid w)) (thread_trace tid bs) (ta_statistics (thread_state tid w)) = Some (ta_stack (thread_state tid a'), m') \<and>
    (\<forall>p. stats0 p (Node function_statistics_init m') = add_stats (stats0 p (thread_tree tid w)) (stats0 p (thread_tree tid a')))"
    if "tid \<in> fst ` set bs" for tid
  proof (rule portions_add_up)
    show "linked (stack (ta_stack (thread_state tid w)))" using okw by (simp add: an_ok_def ta_ok_def)
    show "update (ta_stack (thread_state tid w)) (thread_trace tid bs) [] = Some (ta_stack (thread_state tid a'), ta_statistics (thread_state tid a'))"
      using accept_all_thread_state [OF a, of tid] that by (simp add: ta_accept_update apart ta_clear_def)
    show "\<forall>p. 0 \<le> max_call_time (stats0 p (thread_tree tid w))" using w by (simp add: analyzer_ok_def maxima_ok_def)
  qed
  have "ta_accept_calls (thread_trace tid bs) (thread_state tid w) \<noteq> None" if "tid \<in> fst ` set bs" for tid
    using add [OF that] by (auto simp: ta_accept_calls_def)
  with accept_all_exists [OF okw] obtain w' where w': "an_accept_all bs w = Some w'" by blast
  have "ta_stack (thread_state tid w') = ta_stack (thread_state tid a')
    \<and> (\<forall>p. stats0 p (thread_tree tid w') = add_stats (stats0 p (thread_tree tid w)) (stats0 p (thread_tree tid a')))" for tid
  proof (cases "tid \<in> fst ` set bs")
    case True
    from add [OF this] accept_all_thread_state [OF okw w', of tid] True show ?thesis by (auto simp: ta_accept_update)
  next
    case False
    have "thread_state tid w' = thread_state tid w" using accept_all_thread [OF okw w', of tid] False by (auto intro: thread_state_cong)
    moreover have "thread_state tid a' = ta_clear (thread_state tid w)" using accept_all_thread [OF a, of tid] False apart [of tid] by (metis thread_state_cong)
    moreover have "0 \<le> max_call_time (stats0 p (thread_tree tid w))" for p using w by (simp add: analyzer_ok_def maxima_ok_def)
    ultimately show ?thesis by (simp add: ta_clear_def stats0_empty add_stats_init)
  qed
  with w' show ?thesis by blast
qed

lemma profiling_parts:
  assumes "profiling notify ov s0 bs an c"
  shows "\<exists>before since w a. bs = before @ since \<and> an_accept_all before (analyzer_init ov) = Some w \<and> analyzer_ok a \<and> an_accept_all since a = Some an
    \<and> (\<forall>tid. thread_state tid a = ta_clear (thread_state tid w)) \<and> st_ok (fst (snd c))
    \<and> (\<forall>tid p. p \<noteq> [] \<longrightarrow> shown (fst (snd c)) tid p = stats0 p (thread_tree tid w))"
  using assms
proof (induction rule: profiling.induct)
  case connect
  have fresh: "thread_state tid (analyzer_init ov) = ta_clear (thread_state tid (analyzer_init ov))" for tid
    by (simp add: thread_state_def analyzer_init_def thread_analyzer_init_def ta_clear_def)
  have empty: "stats0 p (thread_tree tid (analyzer_init ov)) = function_statistics_init" for p tid
    by (simp add: thread_state_def analyzer_init_def thread_analyzer_init_def stats0_empty)
  show ?case
    by (intro exI [of _ "[]"] exI [of _ "analyzer_init ov"] conjI allI)
      (rule fresh | simp add: statistics_init_ok analyzer_ok_init shown_def empty)+
next
  case (collect bs an c tid calls an')
  then obtain before since w a where h: "bs = before @ since" "an_accept_all before (analyzer_init ov) = Some w" "analyzer_ok a" "an_accept_all since a = Some an"
    "\<forall>tid. thread_state tid a = ta_clear (thread_state tid w)" "st_ok (fst (snd c))" "\<forall>tid p. p \<noteq> [] \<longrightarrow> shown (fst (snd c)) tid p = stats0 p (thread_tree tid w)"
    by blast
  have "an_accept_all (since @ [(tid, calls)]) a = Some an'" using h(4) collect.hyps(2) by (simp add: analyzed_append)
  then show ?case using h(1-3,5-7) by (intro exI [of _ before] exI [of _ "since @ [(tid, calls)]"] exI [of _ w] exI [of _ a]) simp
next
  case (refresh bs an c)
  then obtain before since w a where h: "bs = before @ since" "an_accept_all before (analyzer_init ov) = Some w" "analyzer_ok a" "an_accept_all since a = Some an"
    "\<forall>tid. thread_state tid a = ta_clear (thread_state tid w)" "st_ok (fst (snd c))" "\<forall>tid p. p \<noteq> [] \<longrightarrow> shown (fst (snd c)) tid p = stats0 p (thread_tree tid w)"
    by blast
  have okw: "analyzer_ok w" by (rule accept_all_ok [OF analyzer_ok_init h(2)])
  have oka: "an_ok a" using h(3) by (simp add: analyzer_ok_def)
  have okan: "analyzer_ok an" by (rule accept_all_ok [OF h(3,4)])
  from portion_added [OF okw _ oka h(4)] h(5) obtain w' where w': "an_accept_all since w = Some w'"
    "\<forall>tid. ta_stack (thread_state tid w') = ta_stack (thread_state tid an) \<and> (\<forall>p. stats0 p (thread_tree tid w') = add_stats (stats0 p (thread_tree tid w)) (stats0 p (thread_tree tid an)))"
    by blast
  obtain threads st s where c: "c = (threads, st, s)" by (cases c) auto
  obtain threads' st' s' where r: "read_update notify (statistics_message an) (threads, st, s) = (threads', st', s')" by (cases "read_update notify (statistics_message an) (threads, st, s)") auto
  have room: "st_size st + update_size (statistics_message an) < 2 ^ 32" "st_ok st" using refresh.hyps(2) h(6) by (simp_all add: c)
  have "shown st' tid p = stats0 p (thread_tree tid w')" if p: "p \<noteq> []" for tid p
  proof -
    have eq: "shown st tid p = stats0 p (thread_tree tid w)" using h(7) p by (simp add: c)
    then have "0 \<le> max_call_time (shown st tid p)" using okw by (simp add: analyzer_ok_def maxima_ok_def)
    from refresh_shown [OF okan room(2,1) r p this] eq w'(2) show ?thesis by simp
  qed
  moreover have "an_accept_all (before @ since) (analyzer_init ov) = Some w'" using h(2) w'(1) by (simp add: analyzed_append)
  moreover have "thread_state tid (an_clear an) = ta_clear (thread_state tid w')" for tid
    using w'(2) by (simp add: thread_state_clear ta_clear_def)
  moreover have "st_ok st'" by (rule read_update_adds(1) [OF room(2,1) r])
  ultimately show ?case
    by (intro exI [of _ "before @ since"] exI [of _ "[]"] exI [of _ w'] exI [of _ "an_clear an"]) (simp add: h(1) c r analyzer_ok_clear [OF okan])
qed

text \<open>Looking a call up by its number, as the views of the table do.\<close>

definition node_by_id :: "statistics \<Rightarrow> lookup" where
  "node_by_id st i = unique_find (st_records st) (fst (table_component statistics_classes 1 (st_table st))) (Id_Key i)"

lemma node_by_id_iff:
  assumes ok: "st_ok st"
  shows "node_by_id st i = Some r \<longleftrightarrow> r \<in> set (st_nodes st) \<and> cl_id r = i"
proof -
  let ?ix = "fst (table_component statistics_classes 1 (st_table st))"
  have idx: "indexed statistics_classes (st_table st)" using ok by (simp add: st_ok_def)
  then have d: "distinct (map fst (st_records st))" by (simp add: indexed_def records_ok_def)
  have e: "set (equal_range (Id_Key i) ?ix) = {h. \<exists>r. (h, r) \<in> set (st_records st) \<and> cl_id r = i}"
    using equal_range_inv(2) [OF table_component_indexed(3) [OF classes_proper idx, of 1], of "Id_Key i"] by simp
  have inj: "inj_on cl_id (set (st_nodes st))" using st_ids_distinct [OF ok] by (simp add: distinct_map)
  have one: "um_find (st_records st) h = Some r \<Longrightarrow> r \<in> set (st_nodes st)" for h r
    by (force simp: st_nodes_def dest: map_of_SomeD)
  show ?thesis
  proof (cases "equal_range (Id_Key i) ?ix")
    case Nil
    then have "cl_id r \<noteq> i" if "r \<in> set (st_nodes st)" for r using e that by (fastforce simp: st_nodes_def)
    then show ?thesis using Nil by (auto simp: node_by_id_def unique_find_def)
  next
    case (Cons h hs)
    then have "h \<in> set (equal_range (Id_Key i) ?ix)" by simp
    then obtain r' where "(h, r') \<in> set (st_records st)" "cl_id r' = i" unfolding e by blast
    then have r': "um_find (st_records st) h = Some r'" "cl_id r' = i" using d by simp_all
    then have "node_by_id st i = Some r'" unfolding node_by_id_def unique_find_def Cons by simp
    then show ?thesis using inj_onD [OF inj, of r r'] one [OF r'(1)] r'(2) by auto
  qed
qed

lemma st_ok_forest:
  assumes ok: "st_ok st"
  shows "forest (node_by_id st)"
proof -
  have "ancestors (node_by_id st) i \<noteq> None" for i
  proof (induction "unat i" arbitrary: i rule: less_induct)
    case less
    show ?case
    proof (cases "node_by_id st i")
      case None
      then show ?thesis by (subst ancestors.simps) simp
    next
      case (Some r)
      then have "cl_parent_id r < i" using ok by (auto simp: node_by_id_iff [OF ok] st_ok_def)
      then have "ancestors (node_by_id st) (cl_parent_id r) \<noteq> None" using less by (simp add: word_less_nat_alt)
      then show ?thesis using Some by (subst ancestors.simps) auto
    qed
  qed
  then show ?thesis unfolding forest_def by (auto simp: node_by_id_iff [OF ok])
qed

section \<open>Properties\<close>

text \<open>The whole profile is what the frontend has and what the collector still has, together.\<close>

lemma whole_profile:
  assumes "profiling notify ov s0 bs an (threads, st, s)" and "p \<noteq> []"
  shows "\<exists>whole. an_accept_all bs (analyzer_init ov) = Some whole
    \<and> stats0 p (thread_tree tid whole) = add_stats (shown st tid p) (stats0 p (thread_tree tid an))
    \<and> (\<forall>an0. an = an_clear an0 \<longrightarrow> shown st tid p = stats0 p (thread_tree tid whole))"
proof -
  from profiling_parts [OF assms(1)] obtain before since w a where h: "bs = before @ since" "an_accept_all before (analyzer_init ov) = Some w"
    "analyzer_ok a" "an_accept_all since a = Some an" "\<And>tid. thread_state tid a = ta_clear (thread_state tid w)"
    "\<forall>tid p. p \<noteq> [] \<longrightarrow> shown st tid p = stats0 p (thread_tree tid w)" by auto
  have okw: "analyzer_ok w" by (rule accept_all_ok [OF analyzer_ok_init h(2)])
  have oka: "an_ok a" using h(3) by (simp add: analyzer_ok_def)
  from portion_added [OF okw h(5) oka h(4)] obtain w' where w': "an_accept_all since w = Some w'"
    "\<forall>tid. ta_stack (thread_state tid w') = ta_stack (thread_state tid an) \<and> (\<forall>p. stats0 p (thread_tree tid w') = add_stats (stats0 p (thread_tree tid w)) (stats0 p (thread_tree tid an)))"
    by blast
  have all: "an_accept_all bs (analyzer_init ov) = Some w'" using h(1,2) w'(1) by (simp add: analyzed_append)
  have sum: "stats0 p (thread_tree tid w') = add_stats (shown st tid p) (stats0 p (thread_tree tid an))" using w'(2) h(6) assms(2) by simp
  have eq: "shown st tid p = stats0 p (thread_tree tid w')" if "an = an_clear an0" for an0
  proof -
    have "0 \<le> max_call_time (shown st tid p)" using h(6) assms(2) okw by (simp add: analyzer_ok_def maxima_ok_def)
    then show ?thesis unfolding sum by (simp add: that thread_state_clear ta_clear_def stats0_empty add_stats_init)
  qed
  show ?thesis using all sum eq by (intro exI [of _ w'] conjI allI impI)
qed

text \<open>
  C3. The frontend has the whole profile: however the traces of the threads are cut into batches, whichever way
  batches and updates alternate, the statistics in the table for a path of calls of a thread, with what the collector has not
  sent yet, are those one analysis of all the traces gives. After an update nothing is left to send.
\<close>

theorem frontend_has_whole_profile:
  assumes "profiling notify ov s0 bs an (threads, st, s)" and "p \<noteq> []"
  shows "\<exists>whole. an_accept_all bs (analyzer_init ov) = Some whole
    \<and> stats0 p (thread_tree tid whole) = add_stats (shown st tid p) (stats0 p (thread_tree tid an))
    \<and> (\<forall>an0. an = an_clear an0 \<longrightarrow> shown st tid p = stats0 p (thread_tree tid whole))"
  using assms by (rule whole_profile)

text \<open>
  C21. The table of calls of a session is a forest whatever updates arrive: a call is found by its number, numbers start from
  one and are not used twice, and following the parents of a call ends.
\<close>

theorem statistics_form_a_forest:
  assumes "profiling notify ov s0 bs an (threads, st, s)"
  shows "forest (node_by_id st) \<and> dom (node_by_id st) = {1..of_nat (st_size st)} \<and> (\<forall>x\<in>ran (node_by_id st). cl_parent_id x < cl_id x)"
proof -
  from profiling_parts [OF assms] have ok: "st_ok st" by auto
  have ids: "cl_id ` set (st_nodes st) = of_nat ` {1..<Suc (st_size st)}"
  proof -
    from ok have "map cl_id (st_nodes st) = map of_nat [1..<Suc (st_size st)]" unfolding st_ok_def by blast
    from arg_cong [OF this, of set] show ?thesis by (simp only: set_map set_upt)
  qed
  have n: "st_size st < 2 ^ 32" using ok by (simp add: st_ok_def)
  have "(of_nat ` {1..<Suc (st_size st)} :: u32 set) = {1..of_nat (st_size st)}"
  proof (intro set_eqI iffI)
    fix x :: u32 assume "x \<in> of_nat ` {1..<Suc (st_size st)}"
    then obtain k where "x = of_nat k" "1 \<le> k" "k \<le> st_size st" by auto
    then show "x \<in> {1..of_nat (st_size st)}" using n by (simp add: word_le_nat_alt unat_of_nat)
  next
    fix x :: u32 assume "x \<in> {1..of_nat (st_size st)}"
    then have "1 \<le> unat x" "unat x \<le> st_size st" using n by (auto simp: word_le_nat_alt unat_of_nat)
    then show "x \<in> of_nat ` {1..<Suc (st_size st)}" by (intro image_eqI [of _ _ "unat x"]) simp_all
  qed
  moreover have "dom (node_by_id st) = cl_id ` set (st_nodes st)" using node_by_id_iff [OF ok] by (auto simp: dom_def)
  moreover have "\<forall>x\<in>ran (node_by_id st). cl_parent_id x < cl_id x" using ok node_by_id_iff [OF ok] by (auto simp: ran_def st_ok_def)
  ultimately show ?thesis using st_ok_forest [OF ok] ids by simp
qed

definition sample_batch :: "u32 \<times> u64 call_record list" where
  "sample_batch = (1, [\<lparr>timestamp = 10, callee = Some 7\<rparr>, \<lparr>timestamp = 14, callee = Some 8\<rparr>, \<lparr>timestamp = 20, callee = None\<rparr>, \<lparr>timestamp = 30, callee = None\<rparr>])"

definition sample_tree :: "u64 nodes_map" where
  "sample_tree = [(7, Node \<lparr>times_called = 1, inclusive_time = 16, exclusive_time = 11, max_call_time = 16\<rparr>
      [(8, Node \<lparr>times_called = 1, inclusive_time = 5, exclusive_time = 5, max_call_time = 5\<rparr> [])])]"

lemma sample_accept:
  "\<exists>an ss. an_accept_calls (fst sample_batch) (snd sample_batch) (analyzer_init \<lparr>inner = 1, outer = 2\<rparr>) = Some an
     \<and> an_threads an = [(1, \<lparr>ta_statistics = sample_tree, ta_stack = ss\<rparr>)]"
  by (simp add: sample_batch_def sample_tree_def an_accept_calls_def analyzer_init_def thread_analyzer_init_def ta_accept_calls_def
      shadow_stack_eval)

lemma sample_session:
  "\<exists>an threads st. profiling (\<lambda>_ _ s. s) \<lparr>inner = 1, outer = 2\<rparr> () [sample_batch] (an_clear an) (threads, st, ())"
proof -
  from sample_accept obtain an ss where an: "an_accept_calls (fst sample_batch) (snd sample_batch) (analyzer_init \<lparr>inner = 1, outer = 2\<rparr>) = Some an"
    and t: "an_threads an = [(1, \<lparr>ta_statistics = sample_tree, ta_stack = ss\<rparr>)]" by blast
  have "profiling (\<lambda>_ _ s. s) \<lparr>inner = 1, outer = 2\<rparr> () ([] @ [(fst sample_batch, snd sample_batch)]) an ([], statistics_init, ())"
    by (rule profiling.collect [OF profiling.connect an])
  moreover have "st_size (fst (snd ([] :: u32 list, statistics_init, ()))) + update_size (statistics_message an) < 2 ^ 32"
    by (simp add: statistics_message_def t sample_tree_def update_size_def st_size_def statistics_init_def table_init_def)
  ultimately have "profiling (\<lambda>_ _ s. s) \<lparr>inner = 1, outer = 2\<rparr> () [sample_batch] (an_clear an)
     (read_update (\<lambda>_ _ s. s) (statistics_message an) ([], statistics_init, ()))" using profiling.refresh by fastforce
  then show ?thesis by (metis old.unit.exhaust prod_cases3)
qed

theorem frontend_has_whole_profile_witness:
  "\<exists>an threads st. profiling (\<lambda>_ _ s. s) \<lparr>inner = 1, outer = 2\<rparr> () [sample_batch] an (threads, st, ())
     \<and> shown st 1 [7, 8] = \<lparr>times_called = 1, inclusive_time = 5, exclusive_time = 5, max_call_time = 5\<rparr>"
proof -
  from sample_session obtain an threads st where p: "profiling (\<lambda>_ _ s. s) \<lparr>inner = 1, outer = 2\<rparr> () [sample_batch] (an_clear an) (threads, st, ())" by blast
  from frontend_has_whole_profile [OF p, of "[7, 8]" 1] obtain whole where
    w: "an_accept_all [sample_batch] (analyzer_init \<lparr>inner = 1, outer = 2\<rparr>) = Some whole" "shown st 1 [7, 8] = stats0 [7, 8] (thread_tree 1 whole)" by auto
  from sample_accept w(1) have "ta_statistics (thread_state 1 whole) = sample_tree" by (auto simp: thread_state_def)
  then have "shown st 1 [7, 8] = \<lparr>times_called = 1, inclusive_time = 5, exclusive_time = 5, max_call_time = 5\<rparr>"
    unfolding w(2) by (simp add: stats0_def stats_at_def sample_tree_def)
  with p show ?thesis by blast
qed

theorem statistics_form_a_forest_witness:
  "\<exists>an threads st. profiling (\<lambda>_ _ s. s) \<lparr>inner = 1, outer = 2\<rparr> () [sample_batch] an (threads, st, ()) \<and> forest (node_by_id st)"
proof -
  from sample_session obtain an threads st where p: "profiling (\<lambda>_ _ s. s) \<lparr>inner = 1, outer = 2\<rparr> () [sample_batch] (an_clear an) (threads, st, ())" by blast
  from statistics_form_a_forest [OF p] p show ?thesis by blast
qed

end
