(* ===== verification/Frontend_Manager.thy ===== *)
theory Frontend_Manager
  imports Prelude
begin

text \<open>
  The sessions of the frontend process, \<^verbatim>\<open>frontend/frontend_manager.h\<close> and \<^verbatim>\<open>frontend/src/frontend_manager.cpp\<close>. An instance
  is held by a session, by a user interface, or by both, and is named by a handle, the iterator of its list node. Sessions and user
  interfaces are numbers. Disconnecting a session asks its remote side to go; that the session is then released, at
  once or later, is an event of its own. Titles are not represented.
\<close>

section \<open>Instances\<close>

record instance_impl =
  in_ui :: "nat option"
  in_frontend :: "nat option"
  in_connected :: bool

record frontend_manager =
  fm_instances :: "(nat, instance_impl) umap"
  fm_next :: nat
  fm_active :: "nat option"

definition frontend_manager_init :: frontend_manager where
  "frontend_manager_init = \<lparr>fm_instances = [], fm_next = 0, fm_active = None\<rparr>"

definition instance_impl_new :: "nat option \<Rightarrow> instance_impl" where
  "instance_impl_new f = \<lparr>in_ui = None, in_frontend = f, in_connected = False\<rparr>"

definition instances_count :: "frontend_manager \<Rightarrow> nat" where
  "instances_count m = length (fm_instances m)"

definition get_instance :: "nat \<Rightarrow> frontend_manager \<Rightarrow> nat option" where
  "get_instance i m = (if i \<ge> length (fm_instances m) then None else Some (fst (fm_instances m ! i)))"

definition fm_insert :: "nat option \<Rightarrow> frontend_manager \<Rightarrow> nat \<times> frontend_manager" where
  "fm_insert f m = (fm_next m, m\<lparr>fm_instances := fm_instances m @ [(fm_next m, instance_impl_new f)], fm_next := fm_next m + 1\<rparr>)"

text \<open>A new session; the deleter of its pointer is \<open>session_released\<close>.\<close>

definition attach :: "nat \<Rightarrow> frontend_manager \<Rightarrow> nat \<times> frontend_manager" where
  "attach f m = fm_insert (Some f) m"

definition set_ui :: "nat \<Rightarrow> nat \<Rightarrow> frontend_manager \<Rightarrow> frontend_manager" where
  "set_ui i ui m =
     (case um_find (fm_instances m) i of
        None \<Rightarrow> m
      | Some x \<Rightarrow> m\<lparr>fm_instances := um_assign i (x\<lparr>in_connected := True, in_ui := Some ui\<rparr>) (fm_instances m), fm_active := Some i\<rparr>)"

definition prepare_ui :: "nat \<Rightarrow> nat option \<Rightarrow> frontend_manager \<Rightarrow> frontend_manager" where
  "prepare_ui i ui m = (case ui of None \<Rightarrow> m | Some u \<Rightarrow> set_ui i u m)"

definition load_session :: "nat option \<Rightarrow> frontend_manager \<Rightarrow> frontend_manager" where
  "load_session ui m = (let (i, m) = fm_insert None m in prepare_ui i ui m)"

definition on_ui_activated :: "nat \<Rightarrow> frontend_manager \<Rightarrow> frontend_manager" where
  "on_ui_activated i m = m\<lparr>fm_active := Some i\<rparr>"

text \<open>The sessions that are asked to disconnect come with the result.\<close>

definition reset_entry :: "nat \<Rightarrow> frontend_manager \<Rightarrow> nat list \<times> frontend_manager" where
  "reset_entry i m =
     (case um_find (fm_instances m) i of
        None \<Rightarrow> ([], m)
      | Some x \<Rightarrow>
          (case in_frontend x of
             Some f \<Rightarrow> ([f], m\<lparr>fm_instances := um_assign i (x\<lparr>in_connected := False, in_ui := None\<rparr>) (fm_instances m)\<rparr>)
           | None \<Rightarrow> ([], m\<lparr>fm_instances := um_erase i (fm_instances m)\<rparr>)))"

definition on_ui_closed :: "nat \<Rightarrow> frontend_manager \<Rightarrow> nat list \<times> frontend_manager" where
  "on_ui_closed i m = reset_entry i (if fm_active m = Some i then m\<lparr>fm_active := None\<rparr> else m)"

fun reset_entries :: "nat list \<Rightarrow> frontend_manager \<Rightarrow> nat list \<times> frontend_manager" where
  "reset_entries [] m = ([], m)"
| "reset_entries (i # is) m = (let (fs, m) = reset_entry i m; (gs, m) = reset_entries is m in (fs @ gs, m))"

definition close_all :: "frontend_manager \<Rightarrow> nat list \<times> frontend_manager" where
  "close_all m = (let (fs, m) = reset_entries (map fst (fm_instances m)) m in (fs, m\<lparr>fm_active := None\<rparr>))"

definition session_released :: "nat \<Rightarrow> frontend_manager \<Rightarrow> frontend_manager" where
  "session_released i m =
     (case um_find (fm_instances m) i of
        None \<Rightarrow> m
      | Some x \<Rightarrow>
          let m = (if fm_active m = Some i then m\<lparr>fm_active := None\<rparr> else m);
              x = x\<lparr>in_frontend := None\<rparr>
          in if in_ui x = None then m\<lparr>fm_instances := um_erase i (fm_instances m)\<rparr>
             else m\<lparr>fm_instances := um_assign i x (fm_instances m)\<rparr>)"

section \<open>What happens to a manager\<close>

text \<open>
  A session is initialized while it is attached; a user interface is heard of while it is connected. \<open>makes_ui\<close> are the results the
  factory of user interfaces may give for a loaded session.
\<close>

inductive managed :: "nat option set \<Rightarrow> frontend_manager \<Rightarrow> bool" for makes_ui where
  constructed: "managed makes_ui frontend_manager_init"
| connects: "managed makes_ui m \<Longrightarrow> managed makes_ui (snd (attach f m))"
| initialized: "managed makes_ui m \<Longrightarrow> um_find (fm_instances m) i = Some x \<Longrightarrow> in_frontend x \<noteq> None \<Longrightarrow> managed makes_ui (prepare_ui i ui m)"
| loads: "managed makes_ui m \<Longrightarrow> ui \<in> makes_ui \<Longrightarrow> managed makes_ui (load_session ui m)"
| activates: "managed makes_ui m \<Longrightarrow> um_find (fm_instances m) i = Some x \<Longrightarrow> in_connected x \<Longrightarrow> managed makes_ui (on_ui_activated i m)"
| closes: "managed makes_ui m \<Longrightarrow> um_find (fm_instances m) i = Some x \<Longrightarrow> in_connected x \<Longrightarrow> managed makes_ui (snd (on_ui_closed i m))"
| releases: "managed makes_ui m \<Longrightarrow> um_find (fm_instances m) i = Some x \<Longrightarrow> in_frontend x \<noteq> None \<Longrightarrow> managed makes_ui (session_released i m)"
| closes_all: "managed makes_ui m \<Longrightarrow> managed makes_ui (snd (close_all m))"

section \<open>Instances live as long as they are held\<close>

definition held_by_some :: "instance_impl \<Rightarrow> bool" where
  "held_by_some x \<longleftrightarrow> in_frontend x \<noteq> None \<or> in_ui x \<noteq> None"

definition instance_ok :: "instance_impl \<Rightarrow> bool" where
  "instance_ok x \<longleftrightarrow> in_connected x = (in_ui x \<noteq> None)"

definition fm_ok :: "frontend_manager \<Rightarrow> bool" where
  "fm_ok m \<longleftrightarrow> um_ok (fm_instances m)
     \<and> (\<forall>i x. um_find (fm_instances m) i = Some x \<longrightarrow> i < fm_next m \<and> instance_ok x \<and> held_by_some x)
     \<and> (\<forall>i. fm_active m = Some i \<longrightarrow> (\<exists>x. um_find (fm_instances m) i = Some x \<and> in_ui x \<noteq> None))"

lemma fm_okD:
  assumes "fm_ok m"
  shows "um_ok (fm_instances m)" "um_find (fm_instances m) i = Some x \<Longrightarrow> i < fm_next m \<and> instance_ok x \<and> held_by_some x"
    "fm_active m = Some i \<Longrightarrow> \<exists>x. um_find (fm_instances m) i = Some x \<and> in_ui x \<noteq> None"
  using assms unfolding fm_ok_def by blast+

lemma assign_last: "k \<notin> fst ` set xs \<Longrightarrow> um_assign k v (xs @ [(k, w)]) = xs @ [(k, v)]"
  by (induction xs) auto

text \<open>Changing an instance, dropping it, adding one.\<close>

lemma fm_ok_assign:
  assumes ok: "fm_ok m" and i: "um_find (fm_instances m) i = Some y" and x: "instance_ok x" "held_by_some x"
    and a: "\<And>j. a = Some j \<Longrightarrow> if j = i then in_ui x \<noteq> None else fm_active m = Some j"
  shows "fm_ok (m\<lparr>fm_instances := um_assign i x (fm_instances m), fm_active := a\<rparr>)"
  unfolding fm_ok_def
proof (intro conjI allI impI; simp)
  show "um_ok (um_assign i x (fm_instances m))" using fm_okD(1) [OF ok] by (rule um_ok_assign)
next
  fix j z assume "um_find (um_assign i x (fm_instances m)) j = Some z"
  then show "j < fm_next m" "instance_ok z" "held_by_some z" using fm_okD(2) [OF ok] i x by (auto simp: dict_simps split: if_splits)
next
  fix j assume "a = Some j"
  from a [OF this] fm_okD(3) [OF ok, of j] show "\<exists>z. um_find (um_assign i x (fm_instances m)) j = Some z \<and> (\<exists>u. in_ui z = Some u)"
    by (auto simp: dict_simps split: if_splits)
qed

lemma fm_ok_erase:
  assumes ok: "fm_ok m" and a: "a = None \<or> a = fm_active m \<and> a \<noteq> Some i"
  shows "fm_ok (m\<lparr>fm_instances := um_erase i (fm_instances m), fm_active := a\<rparr>)"
  unfolding fm_ok_def
proof (intro conjI allI impI; simp)
  show "um_ok (um_erase i (fm_instances m))" using fm_okD(1) [OF ok] by (rule um_ok_erase)
next
  fix j z assume "um_find (um_erase i (fm_instances m)) j = Some z"
  then show "j < fm_next m" "instance_ok z" "held_by_some z" using fm_okD(2) [OF ok] by (auto simp: dict_simps split: if_splits)
next
  fix j assume "a = Some j"
  with a fm_okD(3) [OF ok, of j] show "\<exists>z. um_find (um_erase i (fm_instances m)) j = Some z \<and> (\<exists>u. in_ui z = Some u)"
    by (auto simp: dict_simps)
qed

lemma fm_ok_add:
  assumes ok: "fm_ok m" and x: "instance_ok x" "held_by_some x" and a: "a = fm_active m \<or> a = Some (fm_next m) \<and> in_ui x \<noteq> None"
  shows "fm_ok (m\<lparr>fm_instances := fm_instances m @ [(fm_next m, x)], fm_next := Suc (fm_next m), fm_active := a\<rparr>)"
proof -
  have new: "um_find (fm_instances m) (fm_next m) = None" using fm_okD(2) [OF ok, of "fm_next m"] by (cases "um_find (fm_instances m) (fm_next m)") auto
  have "fm_next m \<notin> fst ` set (fm_instances m)" using new by (simp add: map_of_eq_None_iff)
  then have "um_ok (fm_instances m @ [(fm_next m, x)])" using fm_okD(1) [OF ok] by (auto simp: um_ok_def)
  moreover have find: "um_find (fm_instances m @ [(fm_next m, x)]) j = (if j = fm_next m then Some x else um_find (fm_instances m) j)" for j
    using new by (simp add: map_add_def split: option.splits)
  ultimately show ?thesis using fm_okD(2,3) [OF ok] new x a unfolding fm_ok_def by (auto simp: less_Suc_eq split: if_splits)
qed

lemma fm_ok_attach: "fm_ok m \<Longrightarrow> fm_ok (snd (attach f m))"
  using fm_ok_add [of m "instance_impl_new (Some f)" "fm_active m"]
  by (simp add: attach_def fm_insert_def instance_ok_def held_by_some_def instance_impl_new_def)

lemma fm_ok_load: "fm_ok m \<Longrightarrow> fm_ok (load_session (Some u) m)"
proof -
  assume ok: "fm_ok m"
  let ?n = "fm_next m" and ?x = "\<lparr>in_ui = Some u, in_frontend = None, in_connected = True\<rparr>"
  have new: "um_find (fm_instances m) ?n = None" using fm_okD(2) [OF ok, of ?n] by (cases "um_find (fm_instances m) ?n") auto
  then have "?n \<notin> fst ` set (fm_instances m)" by (simp add: map_of_eq_None_iff)
  then have "um_assign ?n ?x (fm_instances m @ [(?n, y)]) = fm_instances m @ [(?n, ?x)]" for y
    by (rule assign_last)
  moreover have "um_find (fm_instances m @ [(?n, y)]) ?n = Some y" for y using new by (simp add: map_add_def)
  ultimately have "load_session (Some u) m = m\<lparr>fm_instances := fm_instances m @ [(?n, ?x)], fm_next := Suc ?n, fm_active := Some ?n\<rparr>"
    by (simp add: load_session_def fm_insert_def prepare_ui_def set_ui_def instance_impl_new_def)
  then show ?thesis using fm_ok_add [OF ok, of ?x "Some ?n"] by (simp add: instance_ok_def held_by_some_def)
qed

lemma fm_ok_set_ui: "fm_ok m \<Longrightarrow> um_find (fm_instances m) i = Some x \<Longrightarrow> fm_ok (set_ui i u m)"
  using fm_ok_assign [of m i x "x\<lparr>in_connected := True, in_ui := Some u\<rparr>" "Some i"]
  by (simp add: set_ui_def instance_ok_def held_by_some_def)

lemma fm_ok_inactive: "fm_ok m \<Longrightarrow> fm_ok (m\<lparr>fm_active := None\<rparr>)"
  by (simp add: fm_ok_def)

lemma fm_active_same: "m\<lparr>fm_instances := x, fm_active := fm_active m\<rparr> = m\<lparr>fm_instances := x\<rparr>"
  by simp

lemma fm_ok_reset:
  assumes ok: "fm_ok m" and a: "fm_active m \<noteq> Some i"
  shows "fm_ok (snd (reset_entry i m))" "fm_active (snd (reset_entry i m)) = fm_active m"
proof -
  show "fm_active (snd (reset_entry i m)) = fm_active m" by (simp add: reset_entry_def split: option.splits)
  show "fm_ok (snd (reset_entry i m))"
  proof (cases "um_find (fm_instances m) i")
    case None
    then show ?thesis using ok by (simp add: reset_entry_def)
  next
    case (Some x)
    show ?thesis
    proof (cases "in_frontend x")
      case None
      then show ?thesis using fm_ok_erase [OF ok, of "fm_active m" i] a Some by (simp add: reset_entry_def)
    next
      case f: (Some f)
      have "fm_ok (m\<lparr>fm_instances := um_assign i (x\<lparr>in_connected := False, in_ui := None\<rparr>) (fm_instances m), fm_active := fm_active m\<rparr>)"
        by (rule fm_ok_assign [OF ok Some]) (use a f in \<open>auto simp: instance_ok_def held_by_some_def\<close>)
      then show ?thesis using Some f by (simp add: reset_entry_def)
    qed
  qed
qed

lemma fm_ok_released:
  assumes ok: "fm_ok m" and x: "um_find (fm_instances m) i = Some x"
  shows "fm_ok (session_released i m)"
proof -
  let ?a = "if fm_active m = Some i then None else fm_active m"
  show ?thesis
  proof (cases "in_ui x")
    case None
    have "fm_ok (m\<lparr>fm_instances := um_erase i (fm_instances m), fm_active := ?a\<rparr>)" by (rule fm_ok_erase [OF ok]) auto
    then show ?thesis using x None by (cases m; cases "fm_active m = Some i") (simp_all add: session_released_def Let_def)
  next
    case (Some u)
    have "fm_ok (m\<lparr>fm_instances := um_assign i (x\<lparr>in_frontend := None\<rparr>) (fm_instances m), fm_active := ?a\<rparr>)"
      by (rule fm_ok_assign [OF ok x]) (use fm_okD(2) [OF ok x] Some in \<open>auto simp: instance_ok_def held_by_some_def split: if_splits\<close>)
    then show ?thesis using x Some by (cases m; cases "fm_active m = Some i") (simp_all add: session_released_def Let_def)
  qed
qed

lemma reset_entry_inactive: "reset_entry i (m\<lparr>fm_active := a\<rparr>) = (fst (reset_entry i m), (snd (reset_entry i m))\<lparr>fm_active := a\<rparr>)"
  by (simp add: reset_entry_def split: option.splits)

lemma reset_entries_inactive:
  "reset_entries is (m\<lparr>fm_active := a\<rparr>) = (fst (reset_entries is m), (snd (reset_entries is m))\<lparr>fm_active := a\<rparr>)"
  by (induction "is" arbitrary: m) (simp_all add: reset_entry_inactive split_def Let_def)

lemma fm_ok_reset_entries: "fm_ok m \<Longrightarrow> fm_active m = None \<Longrightarrow> fm_ok (snd (reset_entries is m)) \<and> fm_active (snd (reset_entries is m)) = None"
  by (induction "is" arbitrary: m) (simp_all add: split_def Let_def fm_ok_reset)

lemma close_all_eq: "close_all m = reset_entries (map fst (fm_instances m)) (m\<lparr>fm_active := None\<rparr>)"
  by (simp add: close_all_def split_def Let_def reset_entries_inactive)

lemma managed_ok: "managed makes_ui m \<Longrightarrow> None \<notin> makes_ui \<Longrightarrow> fm_ok m"
proof (induction rule: managed.induct)
  case constructed
  then show ?case by (simp add: fm_ok_def frontend_manager_init_def)
next
  case (connects m f)
  then show ?case by (simp add: fm_ok_attach)
next
  case (initialized m i x ui)
  then show ?case by (simp add: prepare_ui_def fm_ok_set_ui split: option.splits)
next
  case (loads m ui)
  then show ?case by (cases ui) (simp_all add: fm_ok_load)
next
  case (activates m i x)
  then have "in_ui x \<noteq> None" using fm_okD(2) [of m i x] by (simp add: instance_ok_def)
  with activates show ?case by (simp add: fm_ok_def on_ui_activated_def)
next
  case (closes m i x)
  then show ?case unfolding on_ui_closed_def by (cases "fm_active m = Some i") (simp_all add: fm_ok_reset fm_ok_inactive)
next
  case (releases m i x)
  then show ?case by (simp add: fm_ok_released)
next
  case (closes_all m)
  then show ?case using fm_ok_reset_entries [of "m\<lparr>fm_active := None\<rparr>"] by (simp add: close_all_eq fm_ok_inactive)
qed

text \<open>Closing everything asks every session to go, and when they have gone nothing is left.\<close>

fun release_all :: "nat list \<Rightarrow> frontend_manager \<Rightarrow> frontend_manager" where
  "release_all [] m = m"
| "release_all (i # is) m = release_all is (session_released i m)"

lemma reset_entry_find:
  "um_find (fm_instances (snd (reset_entry i m))) j =
     (if j = i then (case um_find (fm_instances m) i of
        None \<Rightarrow> None
      | Some x \<Rightarrow> if in_frontend x = None then None else Some (x\<lparr>in_connected := False, in_ui := None\<rparr>))
      else um_find (fm_instances m) j)"
  by (auto simp: reset_entry_def dict_simps split: option.splits)

lemma reset_entries_find:
  "um_find (fm_instances (snd (reset_entries is m))) j =
     (if j \<in> set is then (case um_find (fm_instances m) j of
        None \<Rightarrow> None
      | Some x \<Rightarrow> if in_frontend x = None then None else Some (x\<lparr>in_connected := False, in_ui := None\<rparr>))
      else um_find (fm_instances m) j)"
  by (induction "is" arbitrary: m) (auto simp: split_def Let_def reset_entry_find split: option.splits)

lemma close_all_find:
  "um_find (fm_instances (snd (close_all m))) j =
     (case um_find (fm_instances m) j of
        None \<Rightarrow> None
      | Some x \<Rightarrow> if in_frontend x = None then None else Some (x\<lparr>in_connected := False, in_ui := None\<rparr>))"
  unfolding close_all_eq reset_entries_find by (auto simp: map_of_eq_None_iff [symmetric] split: option.splits)

lemma release_all_find:
  "(\<And>j x. um_find (fm_instances m) j = Some x \<Longrightarrow> in_ui x = None) \<Longrightarrow>
   um_find (fm_instances (release_all is m)) j = (if j \<in> set is then None else um_find (fm_instances m) j)"
proof (induction "is" arbitrary: m)
  case Nil
  then show ?case by simp
next
  case (Cons i "is")
  have f: "um_find (fm_instances (session_released i m)) k = (if k = i then None else um_find (fm_instances m) k)" for k
    using Cons.prems [of i] by (auto simp: session_released_def Let_def dict_simps split: option.splits)
  have u: "um_find (fm_instances (session_released i m)) k = Some x \<Longrightarrow> in_ui x = None" for k x
    using Cons.prems [of k x] by (simp add: f split: if_splits)
  have "um_find (fm_instances (release_all is (session_released i m))) j
      = (if j \<in> set is then None else um_find (fm_instances (session_released i m)) j)" by (rule Cons.IH) (rule u)
  then show ?case by (simp add: f)
qed

section \<open>Properties\<close>

text \<open>
  An instance exists exactly as long as a session or a user interface holds it, and the active instance is one
  with a user interface, never one that is gone, whatever comes of sessions and user interfaces and in whichever order.
  Closing all leaves only instances whose sessions were asked to disconnect, and none when these have gone. It is
  required that the factory makes a user interface for each loaded session.
\<close>

theorem instances_live_while_held:
  assumes "managed makes_ui m" "None \<notin> makes_ui"
  shows "(\<forall>i x. um_find (fm_instances m) i = Some x \<longrightarrow> in_frontend x \<noteq> None \<or> in_ui x \<noteq> None)
    \<and> (\<forall>i. fm_active m = Some i \<longrightarrow> (\<exists>x. um_find (fm_instances m) i = Some x \<and> in_ui x \<noteq> None))
    \<and> fm_instances (release_all (map fst (fm_instances (snd (close_all m)))) (snd (close_all m))) = []"
proof -
  have ok: "fm_ok m" using assms by (rule managed_ok)
  let ?m = "snd (close_all m)"
  have "in_ui x = None" if "um_find (fm_instances ?m) j = Some x" for j x
    using that by (auto simp: close_all_find split: option.splits if_splits)
  from release_all_find [OF this] have "um_find (fm_instances (release_all (map fst (fm_instances ?m)) ?m)) j = None" for j
    by (auto simp: map_of_eq_None_iff)
  then have "fm_instances (release_all (map fst (fm_instances ?m)) ?m) = []"
    by (metis empty_set image_is_empty list.exhaust list.set_intros(1) map_of_eq_None_iff rev_image_eqI empty_iff)
  then show ?thesis using fm_okD(2,3) [OF ok] unfolding held_by_some_def by blast
qed

theorem instances_live_while_held_witness:
  "\<exists>m. managed {Some 3} m \<and> instances_count m = 2 \<and> fm_active m = Some 1
     \<and> fm_instances (release_all (map fst (fm_instances (snd (close_all m)))) (snd (close_all m))) = []"
proof -
  let ?m = "load_session (Some 3) (snd (attach 7 frontend_manager_init))"
  have r: "managed {Some 3} ?m" by (intro managed.loads managed.connects managed.constructed) simp
  have "instances_count ?m = 2 \<and> fm_active ?m = Some 1"
    by (simp add: load_session_def attach_def fm_insert_def frontend_manager_init_def prepare_ui_def set_ui_def instances_count_def)
  with r instances_live_while_held [OF r] show ?thesis by blast
qed

text \<open>A session loaded for which the factory makes no user interface stays until everything is closed.\<close>

lemma loaded_without_ui_stays:
  "fm_ok m \<Longrightarrow> um_find (fm_instances (load_session None m)) (fm_next m) = Some (instance_impl_new None)"
  using fm_okD(2) [of m "fm_next m"]
  by (cases "um_find (fm_instances m) (fm_next m)") (auto simp: load_session_def fm_insert_def prepare_ui_def map_add_def)

end
