(* ===== verification/Socket_Framing.thy ===== *)
theory Socket_Framing
  imports Prelude
begin

text \<open>
  Messages on a stream socket, \<^verbatim>\<open>ipc/endpoint_sockets.h\<close>, the helpers and \<^verbatim>\<open>handle_session\<close> of
  \<^verbatim>\<open>ipc/src/server_endpoint_sockets.cpp\<close>, and \<^verbatim>\<open>ipc/src/client_endpoint_sockets.cpp\<close>. A message is its length in four
  bytes, most significant first, and its bytes. The socket is a parameter: \<open>recv n s\<close> is a call of
  \<^verbatim>\<open>recv\<close> for \<open>n\<close> bytes with \<^verbatim>\<open>MSG_WAITALL\<close> on a socket in state \<open>s\<close>, of which \<open>waits_for_all\<close> is the documented behaviour: all the
  bytes asked for, or those that came before the other side closed the connection. What a call of \<^verbatim>\<open>send\<close> is given
  is sent whole, as a blocking socket does.

  A host is little endian or not (\<open>le\<close>). Bytes of a variable that a call did not fill are those of \<open>junk\<close>.
\<close>

section \<open>Numbers on the wire\<close>

text \<open>The members of a \<^verbatim>\<open>byte_representation<unsigned>\<close>: how the host stores a number.\<close>

definition host_bytes :: "bool \<Rightarrow> u32 \<Rightarrow> u8 list" where
  "host_bytes le v = (let b = [ucast v, ucast (drop_bit 8 v), ucast (drop_bit 16 v), ucast (drop_bit 24 v)] in if le then b else rev b)"

fun bytes_value :: "u8 list \<Rightarrow> u32" where
  "bytes_value [] = 0"
| "bytes_value (b # bs) = or (ucast b) (push_bit 8 (bytes_value bs))"

definition host_value :: "bool \<Rightarrow> u8 list \<Rightarrow> u32" where
  "host_value le bs = bytes_value (if le then bs else rev bs)"

function swap_from :: "nat \<Rightarrow> u8 list \<Rightarrow> u8 list" where
  "swap_from i bytes =
     (if i < length bytes div 2
      then let j = length bytes - 1 - i in swap_from (i + 1) (bytes[i := bytes ! j, j := bytes ! i]) else bytes)"
  by pat_completeness auto
termination by (relation "measure (\<lambda>(i, bytes). length bytes div 2 - i)") (auto simp: Let_def)

declare swap_from.simps [simp del]

definition reorder :: "bool \<Rightarrow> u8 list \<Rightarrow> u8 list" where
  "reorder le bytes = (if host_bytes le 0xFF ! 0 \<noteq> 0 then swap_from 0 bytes else bytes)"

definition send_scalar :: "bool \<Rightarrow> u32 \<Rightarrow> u8 list" where
  "send_scalar le v = reorder le (host_bytes le v)"

definition recv_scalar :: "(nat \<Rightarrow> 's \<Rightarrow> u8 list \<times> 's) \<Rightarrow> u8 list \<Rightarrow> bool \<Rightarrow> 's \<Rightarrow> nat \<times> u32 \<times> 's" where
  "recv_scalar recv junk le s =
     (let (bytes, s') = recv 4 s in (length bytes, host_value le (reorder le (bytes @ drop (length bytes) (take 4 junk))), s'))"

section \<open>Messages\<close>

text \<open>\<^verbatim>\<open>socket_handler::message\<close> and \<^verbatim>\<open>client_session::message\<close> write the same.\<close>

definition socket_message :: "bool \<Rightarrow> u8 list \<Rightarrow> u8 list" where
  "socket_message le payload = (let size = (of_nat (length payload) :: u32) in send_scalar le size @ take (unat size) payload)"

text \<open>A vector resized keeps its bytes; \<^verbatim>\<open>recv\<close> writes over the first ones.\<close>

definition resize :: "nat \<Rightarrow> u8 list \<Rightarrow> u8 list" where
  "resize n buffer = take n buffer @ replicate (n - length buffer) 0"

definition recv_into :: "(nat \<Rightarrow> 's \<Rightarrow> u8 list \<times> 's) \<Rightarrow> nat \<Rightarrow> u8 list \<Rightarrow> 's \<Rightarrow> u8 list \<times> 's" where
  "recv_into recv n buffer s = (let (data, s') = recv n s in (data @ drop (length data) buffer, s'))"

text \<open>What an inbound channel is called with. An empty message takes the address of an element of an empty vector.\<close>

datatype inbound_call = Message "u8 list" | Disconnect | Undefined

datatype status = proceed | remove_this | exit

definition handle_session ::
  "(nat \<Rightarrow> 's \<Rightarrow> u8 list \<times> 's) \<Rightarrow> u8 list \<Rightarrow> bool \<Rightarrow> u8 list \<Rightarrow> 's \<Rightarrow> status \<times> inbound_call \<times> u8 list \<times> 's" where
  "handle_session recv junk le buffer s =
     (let (result, size, s) = recv_scalar recv junk le s
      in if result > 0 then
           let buffer = resize (unat size) buffer
           in if size = 0 then (proceed, Undefined, buffer, s)
              else let (buffer, s) = recv_into recv (unat size) buffer s in (proceed, Message buffer, buffer, s)
         else (remove_this, Disconnect, buffer, s))"

text \<open>The thread of a client; \<open>None\<close> if it never ends.\<close>

partial_function (option) client_worker ::
  "(nat \<Rightarrow> 's \<Rightarrow> u8 list \<times> 's) \<Rightarrow> bool \<Rightarrow> u8 list \<Rightarrow> 's \<Rightarrow> inbound_call list option" where
  "client_worker recv le buffer s =
     (let (bytes, s) = recv 4 s
      in if length bytes = 4 then
           let size = host_value le (reorder le bytes);
               buffer = resize (unat size) buffer
           in if size = 0 then Some [Undefined]
              else let (buffer, s) = recv_into recv (unat size) buffer s
                   in Option.bind (client_worker recv le buffer s) (\<lambda>cs. Some (Message buffer # cs))
         else Some [Disconnect])"

section \<open>Numbers\<close>

definition waits_for_all :: "(nat \<Rightarrow> 's \<Rightarrow> u8 list \<times> 's) \<Rightarrow> ('s \<Rightarrow> u8 list) \<Rightarrow> bool" where
  "waits_for_all recv content \<longleftrightarrow> (\<forall>n s. fst (recv n s) = take n (content s) \<and> content (snd (recv n s)) = drop n (content s))"

lemma waits_for_allD:
  assumes "waits_for_all recv content" "recv n s = (bs, s')"
  shows "bs = take n (content s)" "content s' = drop n (content s)"
  using assms unfolding waits_for_all_def by (metis fst_conv, metis snd_conv)

lemma swap_four: "swap_from 0 [a, b, c, d] = [d, c, b, a]"
proof -
  have "swap_from (Suc (Suc 0)) [d, c, b, a] = [d, c, b, a]" by (subst swap_from.simps) simp
  then have "swap_from 1 [d, b, c, a] = [d, c, b, a]" by (subst swap_from.simps) (simp add: Let_def)
  then show ?thesis by (subst swap_from.simps) (simp add: Let_def numeral_3_eq_3)
qed

lemma reorder_four: "length bs = 4 \<Longrightarrow> reorder le bs = (if le then rev bs else bs)"
proof -
  assume "length bs = 4"
  then obtain a b c d where bs: "bs = [a, b, c, d]" by (auto simp: length_Suc_conv numeral_eq_Suc)
  have "host_bytes le 0xFF ! 0 \<noteq> 0 \<longleftrightarrow> le" by (simp add: host_bytes_def Let_def)
  then show ?thesis by (simp add: reorder_def bs swap_four)
qed

definition network_bytes :: "u32 \<Rightarrow> u8 list" where
  "network_bytes v = [ucast (drop_bit 24 v), ucast (drop_bit 16 v), ucast (drop_bit 8 v), ucast v]"

lemma network_bytes_length [simp]: "length (network_bytes v) = 4"
  by (simp add: network_bytes_def)

lemma send_scalar_network: "send_scalar le v = network_bytes v"
  unfolding send_scalar_def by (subst reorder_four) (simp_all add: host_bytes_def network_bytes_def Let_def)

lemma bytes_value_four:
  "bytes_value [ucast v, ucast (drop_bit 8 v), ucast (drop_bit 16 v), ucast (drop_bit 24 (v :: u32))] = v"
proof (rule bit_word_eqI)
  fix n assume n: "n < LENGTH(32)"
  then consider "n < 8" | "8 \<le> n" "n < 16" | "16 \<le> n" "n < 24" | "24 \<le> n" "n < 32" by fastforce
  then show "bit (bytes_value [ucast v, ucast (drop_bit 8 v), ucast (drop_bit 16 v), ucast (drop_bit 24 v)]) n = bit v n"
    by cases (auto simp: bit_simps)
qed

lemma host_value_network: "host_value le (reorder le (network_bytes v)) = v"
  using bytes_value_four [of v] by (simp add: host_value_def reorder_four) (simp add: network_bytes_def)

section \<open>What is sent is received\<close>

abbreviation sendable :: "u8 list \<Rightarrow> bool" where
  "sendable m \<equiv> m \<noteq> [] \<and> length m < 2 ^ 32"

lemma sendable_size: "sendable m \<Longrightarrow> unat (of_nat (length m) :: u32) = length m \<and> (of_nat (length m) :: u32) \<noteq> 0"
  by (auto simp: unat_of_nat word_unat_eq_iff)

lemma socket_message_frame: "sendable m \<Longrightarrow> socket_message le m = network_bytes (of_nat (length m)) @ m"
  by (simp add: socket_message_def send_scalar_network Let_def sendable_size)

lemma recv_scalar_network:
  assumes "waits_for_all recv content" "content s = network_bytes v @ rest"
  shows "\<exists>s'. recv_scalar recv junk le s = (4, v, s') \<and> content s' = rest"
proof -
  obtain bs s' where r: "recv 4 s = (bs, s')" by (cases "recv 4 s")
  from waits_for_allD [OF assms(1) r] assms(2) have "bs = network_bytes v" "content s' = rest" by simp_all
  with r show ?thesis by (simp add: recv_scalar_def host_value_network)
qed

lemma recv_into_exact:
  assumes "waits_for_all recv content" "content s = m @ rest" "length buffer = length m"
  shows "\<exists>s'. recv_into recv (length m) buffer s = (m, s') \<and> content s' = rest"
proof -
  obtain bs s' where r: "recv (length m) s = (bs, s')" by (cases "recv (length m) s")
  from waits_for_allD [OF assms(1) r] assms(2) have "bs = m" "content s' = rest" by simp_all
  with r assms(3) show ?thesis by (simp add: recv_into_def)
qed

lemma resize_length [simp]: "length (resize n buffer) = n"
  by (simp add: resize_def)

lemma handle_session_message:
  assumes "waits_for_all recv content" "content s = socket_message le' m @ rest" "sendable m"
  shows "\<exists>s'. handle_session recv junk le buffer s = (proceed, Message m, m, s') \<and> content s' = rest"
proof -
  from recv_scalar_network [OF assms(1), of s "of_nat (length m)" "m @ rest" junk le] assms(2,3)
  obtain s1 where 1: "recv_scalar recv junk le s = (4, of_nat (length m), s1)" "content s1 = m @ rest"
    by (auto simp: socket_message_frame)
  from recv_into_exact [OF assms(1) 1(2), of "resize (length m) buffer"]
  obtain s2 where 2: "recv_into recv (length m) (resize (length m) buffer) s1 = (m, s2)" "content s2 = rest" by auto
  show ?thesis using 1 2 sendable_size [OF assms(3)] by (simp add: handle_session_def)
qed

lemma handle_session_end:
  assumes "waits_for_all recv content" "content s = []"
  shows "\<exists>s'. handle_session recv junk le buffer s = (remove_this, Disconnect, buffer, s') \<and> content s' = []"
proof -
  obtain bs s' where r: "recv 4 s = (bs, s')" by (cases "recv 4 s")
  from waits_for_allD [OF assms(1) r] assms(2) have "bs = []" "content s' = []" by simp_all
  with r show ?thesis by (simp add: handle_session_def recv_scalar_def)
qed

text \<open>
  C39. A client is called with exactly the messages the server sent, in order and each with its bytes, and is then told once
  that the connection is gone; its thread ends. The two hosts may differ in the order of their bytes. Messages are not
  empty and are shorter than 4 GB; the socket keeps the order of bytes and \<^verbatim>\<open>MSG_WAITALL\<close> waits for all that is asked for.
\<close>

theorem client_gets_messages:
  assumes "waits_for_all recv content" "\<forall>m\<in>set ms. sendable m" "content s = concat (map (socket_message le') ms)"
  shows "client_worker recv le buffer s = Some (map Message ms @ [Disconnect])"
  using assms(2,3)
proof (induction ms arbitrary: buffer s)
  case Nil
  obtain bs s' where r: "recv 4 s = (bs, s')" by (cases "recv 4 s")
  from waits_for_allD [OF assms(1) r] Nil have "bs = []" by simp
  with r show ?case by (subst client_worker.simps) simp
next
  case (Cons m ms)
  let ?rest = "concat (map (socket_message le') ms)" and ?n = "of_nat (length m) :: u32"
  have m: "sendable m" using Cons.prems by simp
  obtain bs s1 where r: "recv 4 s = (bs, s1)" by (cases "recv 4 s")
  have "content s = network_bytes ?n @ m @ ?rest" using Cons.prems by (simp add: socket_message_frame m)
  with waits_for_allD [OF assms(1) r] have bs: "bs = network_bytes ?n" and s1: "content s1 = m @ ?rest" by simp_all
  from recv_into_exact [OF assms(1) s1, of "resize (length m) buffer"]
  obtain s2 where 2: "recv_into recv (length m) (resize (length m) buffer) s1 = (m, s2)" "content s2 = ?rest" by auto
  have "client_worker recv le m s2 = Some (map Message ms @ [Disconnect])" using Cons.IH [of s2 m] Cons.prems 2(2) by simp
  with r bs 2(1) sendable_size [OF m] show ?case
    by (subst client_worker.simps) (simp add: host_value_network)
qed

theorem client_gets_messages_witness:
  "client_worker (\<lambda>n s. (take n s, drop n s)) True [9, 9, 9, 9, 9, 9] [0, 0, 0, 2, 7, 8, 0, 0, 0, 1, 5] =
     Some [Message [7, 8], Message [5], Disconnect]"
proof -
  have "waits_for_all (\<lambda>n s. (take n s, drop n s)) (\<lambda>s. s)" by (simp add: waits_for_all_def)
  note w = client_gets_messages [OF this, of "[[7, 8], [5]]" _ False True "[9, 9, 9, 9, 9, 9]"]
  have "socket_message False [7, 8] = [0, 0, 0, 2, 7, 8]" "socket_message False [5] = [0, 0, 0, 1, 5]"
    by (simp_all add: socket_message_frame network_bytes_def)
  with w show ?thesis by simp
qed

text \<open>
  The client takes a length that is cut short for the end; the server does not: one byte of a length is enough for a message, made
  of what the variable held.
\<close>

lemma server_accepts_cut_length:
  "handle_session (\<lambda>n s. (take n s, drop n s)) [0, 0, 0, 3] True [] [0] = (proceed, Message [0, 0, 0], [0, 0, 0], [])"
proof -
  have "recv_scalar (\<lambda>n s. (take n s, drop n s)) [0, 0, 0, 3] True [0] = (1, 3, [])"
    by (simp add: recv_scalar_def host_value_def reorder_four)
  then show ?thesis by (simp add: handle_session_def recv_into_def resize_def) (simp add: numeral_3_eq_3)
qed

end
