(* ===== verification/Socket_Server.thy ===== *)
theory Socket_Server
  imports Socket_Framing
begin

text \<open>
  The thread of the socket server, \<^verbatim>\<open>ipc/src/server_endpoint_sockets.cpp\<close>. Handlers are called one at a time
  as their sockets become ready; here any handler may be called next, which includes the order of the loop over the sockets that
  \<^verbatim>\<open>select\<close> reports. A session is named by the identifier of its handler, and \<open>sv_log\<close> has what it was called with.
  The state of a socket comes with everything its other side will ever send. \<open>conn\<close> is the result of \<^verbatim>\<open>accept\<close>; \<open>sv_accepted\<close>
  remembers it for the statements below.
\<close>

section \<open>The server\<close>

datatype handler_fn = accept_preinit | handle_preinit | accept_regular | handle_aux | session_handler

record 's socket_handler =
  sh_id :: u32
  sh_handler :: handler_fn
  sh_socket :: 's

datatype socket_event = Created | Called inbound_call | Released

record 's server =
  sv_next_id :: u32
  sv_handlers :: "'s socket_handler list"
  sv_buffer :: "u8 list"
  sv_running :: bool
  sv_log :: "(u32 \<times> socket_event) list"
  sv_accepted :: "(u32 \<times> 's) list"

definition init_magic :: u32 where
  "init_magic = 0xFFFFFFFE"

definition server_init :: "'s \<Rightarrow> 's server" where
  "server_init server_socket =
     \<lparr>sv_next_id = 101, sv_handlers = [\<lparr>sh_id = 100, sh_handler = accept_preinit, sh_socket = server_socket\<rparr>], sv_buffer = [],
      sv_running = True, sv_log = [], sv_accepted = []\<rparr>"

text \<open>A handler erased releases the session it was bound to.\<close>

definition sv_erase :: "'s socket_handler \<Rightarrow> 's server \<Rightarrow> 's server" where
  "sv_erase h sv = sv\<lparr>sv_handlers := remove1 h (sv_handlers sv),
     sv_log := sv_log sv @ (if sh_handler h = session_handler then [(sh_id h, Released)] else [])\<rparr>"

definition sv_socket :: "u32 \<Rightarrow> 's \<Rightarrow> 's socket_handler list \<Rightarrow> 's socket_handler list" where
  "sv_socket i s hs = map (\<lambda>h. if sh_id h = i then h\<lparr>sh_socket := s\<rparr> else h) hs"

text \<open>No status stands for an exception; a failed \<^verbatim>\<open>accept\<close> throws.\<close>

definition do_accept_preinit :: "'s option \<Rightarrow> 's server \<Rightarrow> status option \<times> 's server" where
  "do_accept_preinit conn sv =
     (case conn of
        None \<Rightarrow> (None, sv)
      | Some s \<Rightarrow>
          (Some proceed, sv\<lparr>sv_handlers := sv_handlers sv @ [\<lparr>sh_id = sv_next_id sv, sh_handler = handle_preinit, sh_socket = s\<rparr>],
             sv_next_id := sv_next_id sv + 1, sv_accepted := sv_accepted sv @ [(sv_next_id sv, s)]\<rparr>))"

definition do_accept_regular :: "'s option \<Rightarrow> 's server \<Rightarrow> status option \<times> 's server" where
  "do_accept_regular conn sv =
     (case conn of
        None \<Rightarrow> (None, sv)
      | Some s \<Rightarrow>
          (Some proceed, sv\<lparr>sv_handlers := sv_handlers sv @ [\<lparr>sh_id = sv_next_id sv, sh_handler = session_handler, sh_socket = s\<rparr>],
             sv_next_id := sv_next_id sv + 1, sv_log := sv_log sv @ [(sv_next_id sv, Created)],
             sv_accepted := sv_accepted sv @ [(sv_next_id sv, s)]\<rparr>))"

text \<open>The acceptor is the first handler; all others but that of the auxiliary connection get a session.\<close>

definition bind_handlers :: "u32 \<Rightarrow> 's socket_handler list \<Rightarrow> 's socket_handler list" where
  "bind_handlers i hs =
     (case hs of
        [] \<Rightarrow> []
      | a # hs \<Rightarrow> a\<lparr>sh_handler := accept_regular\<rparr> #
          map (\<lambda>h. if sh_id h = i then h\<lparr>sh_handler := handle_aux\<rparr> else h\<lparr>sh_handler := session_handler\<rparr>) hs)"

definition do_handle_preinit ::
  "(nat \<Rightarrow> 's \<Rightarrow> u8 list \<times> 's) \<Rightarrow> ('s \<Rightarrow> u8 list) \<Rightarrow> u8 list \<Rightarrow> bool \<Rightarrow> 's socket_handler \<Rightarrow> 's server \<Rightarrow> status option \<times> 's server" where
  "do_handle_preinit recv peek junk le h sv =
     (let (result, magic, _) = recv_scalar (\<lambda>_ s. (peek s, s)) junk le (sh_socket h)
      in if result = 4 \<and> magic = init_magic then
           let (_, _, s) = recv_scalar recv junk le (sh_socket h);
               hs = bind_handlers (sh_id h) (sv_socket (sh_id h) s (sv_handlers sv))
           in (Some proceed, sv\<lparr>sv_handlers := hs,
                sv_log := sv_log sv @ map (\<lambda>x. (sh_id x, Created)) (filter (\<lambda>x. sh_handler x = session_handler) (tl hs))\<rparr>)
         else (Some proceed, sv))"

definition do_handle_session ::
  "(nat \<Rightarrow> 's \<Rightarrow> u8 list \<times> 's) \<Rightarrow> u8 list \<Rightarrow> bool \<Rightarrow> 's socket_handler \<Rightarrow> 's server \<Rightarrow> status option \<times> 's server" where
  "do_handle_session recv junk le h sv =
     (let (st, call, buffer, s) = handle_session recv junk le (sv_buffer sv) (sh_socket h)
      in (Some st, sv\<lparr>sv_handlers := sv_socket (sh_id h) s (sv_handlers sv), sv_buffer := buffer, sv_log := sv_log sv @ [(sh_id h, Called call)]\<rparr>))"

definition do_handle_aux ::
  "(nat \<Rightarrow> 's \<Rightarrow> u8 list \<times> 's) \<Rightarrow> u8 list \<Rightarrow> bool \<Rightarrow> 's socket_handler \<Rightarrow> 's server \<Rightarrow> status option \<times> 's server" where
  "do_handle_aux recv junk le h sv =
     (let (result, i, s) = recv_scalar recv junk le (sh_socket h);
          sv = sv\<lparr>sv_handlers := sv_socket (sh_id h) s (sv_handlers sv)\<rparr>
      in if result > 0 then
           (case find (\<lambda>x. sh_id x = i) (sv_handlers sv) of Some x \<Rightarrow> (Some proceed, sv_erase x sv) | None \<Rightarrow> (Some exit, sv))
         else (Some exit, sv))"

definition call_handler ::
  "(nat \<Rightarrow> 's \<Rightarrow> u8 list \<times> 's) \<Rightarrow> ('s \<Rightarrow> u8 list) \<Rightarrow> u8 list \<Rightarrow> bool \<Rightarrow> 's option \<Rightarrow> 's socket_handler \<Rightarrow> 's server \<Rightarrow> status option \<times> 's server" where
  "call_handler recv peek junk le conn h sv =
     (case sh_handler h of
        accept_preinit \<Rightarrow> do_accept_preinit conn sv
      | handle_preinit \<Rightarrow> do_handle_preinit recv peek junk le h sv
      | accept_regular \<Rightarrow> do_accept_regular conn sv
      | handle_aux \<Rightarrow> do_handle_aux recv junk le h sv
      | session_handler \<Rightarrow> do_handle_session recv junk le h sv)"

text \<open>A handler that is to be removed is the one that was called, as it is after the call.\<close>

definition run_turn ::
  "(nat \<Rightarrow> 's \<Rightarrow> u8 list \<times> 's) \<Rightarrow> ('s \<Rightarrow> u8 list) \<Rightarrow> u8 list \<Rightarrow> bool \<Rightarrow> 's option \<Rightarrow> 's socket_handler \<Rightarrow> 's server \<Rightarrow> 's server" where
  "run_turn recv peek junk le conn h sv =
     (case call_handler recv peek junk le conn h sv of
        (Some proceed, sv) \<Rightarrow> sv
      | (Some remove_this, sv) \<Rightarrow> (case find (\<lambda>x. sh_id x = sh_id h) (sv_handlers sv) of Some x \<Rightarrow> sv_erase x sv | None \<Rightarrow> sv)
      | (Some exit, sv) \<Rightarrow> sv\<lparr>sv_running := False\<rparr>
      | (None, sv) \<Rightarrow> sv\<lparr>sv_running := False\<rparr>)"

text \<open>Closing a session from this side, and stopping the server, are written to the auxiliary connection.\<close>

definition handler_disconnect :: "bool \<Rightarrow> u32 \<Rightarrow> u8 list" where
  "handler_disconnect le i = send_scalar le i"

definition stop_server :: "bool \<Rightarrow> u8 list" where
  "stop_server le = send_scalar le 0"

text \<open>Fewer than \<open>2 ^ 32\<close> connections come in the life of a server. Each call finds other bytes in its variables.\<close>

inductive serving :: "(nat \<Rightarrow> 's \<Rightarrow> u8 list \<times> 's) \<Rightarrow> ('s \<Rightarrow> u8 list) \<Rightarrow> bool \<Rightarrow> 's server \<Rightarrow> bool" for recv peek le where
  started: "serving recv peek le (server_init s)"
| turn: "serving recv peek le sv \<Longrightarrow> sv_running sv \<Longrightarrow> h \<in> set (sv_handlers sv) \<Longrightarrow> unat (sv_next_id sv) < 2 ^ 32 - 1 \<Longrightarrow>
    serving recv peek le (run_turn recv peek junk le conn h sv)"

section \<open>Handlers\<close>

definition log_of :: "u32 \<Rightarrow> 's server \<Rightarrow> socket_event list" where
  "log_of i sv = map snd (filter (\<lambda>x. fst x = i) (sv_log sv))"

definition bound :: "'s socket_handler list \<Rightarrow> bool" where
  "bound hs \<longleftrightarrow> sh_handler ` set hs \<subseteq> {accept_regular, handle_aux, session_handler}"

definition handlers_ok :: "'s socket_handler list \<Rightarrow> bool" where
  "handlers_ok hs \<longleftrightarrow> bound hs \<or> (\<exists>k. map sh_handler hs = accept_preinit # replicate k handle_preinit)"

definition used_ids :: "'s server \<Rightarrow> u32 set" where
  "used_ids sv = sh_id ` set (sv_handlers sv) \<union> fst ` set (sv_log sv) \<union> fst ` set (sv_accepted sv)"

definition server_ok :: "'s server \<Rightarrow> bool" where
  "server_ok sv \<longleftrightarrow> distinct (map sh_id (sv_handlers sv)) \<and> handlers_ok (sv_handlers sv) \<and> (\<forall>i\<in>used_ids sv. i < sv_next_id sv)"

lemma sv_socket_ids [simp]: "map sh_id (sv_socket i s hs) = map sh_id hs"
  by (induction hs) (simp_all add: sv_socket_def)

lemma bind_handlers_ids [simp]: "map sh_id (bind_handlers i hs) = map sh_id hs"
  by (simp add: bind_handlers_def split: list.splits)

lemma ids_image [simp]:
  "sh_id ` set (sv_socket i s hs) = sh_id ` set hs" "sh_id ` set (bind_handlers i hs) = sh_id ` set hs"
  by (metis list.set_map sv_socket_ids, metis list.set_map bind_handlers_ids)

lemma sv_socket_handlers [simp]: "map sh_handler (sv_socket i s hs) = map sh_handler hs"
  by (induction hs) (simp_all add: sv_socket_def)

lemma sv_socket_bound [simp]: "bound (sv_socket i s hs) = bound hs"
  unfolding bound_def by (metis list.set_map sv_socket_handlers)

lemma sv_socket_ok [simp]: "handlers_ok (sv_socket i s hs) = handlers_ok hs"
  by (simp add: handlers_ok_def)

lemma bind_handlers_bound: "bound (bind_handlers i hs)"
  unfolding bound_def bind_handlers_def by (auto split: list.splits)

lemma bound_of:
  assumes "handlers_ok hs" "h \<in> set hs"
  shows "sh_handler h \<in> {accept_regular, handle_aux, session_handler} \<longleftrightarrow> bound hs"
proof (cases "bound hs")
  case True
  then show ?thesis using assms(2) unfolding bound_def by auto
next
  case False
  then obtain k where k: "map sh_handler hs = accept_preinit # replicate k handle_preinit" using assms(1) by (auto simp: handlers_ok_def)
  have "sh_handler h \<in> set (map sh_handler hs)" using assms(2) by simp
  then have "sh_handler h \<in> {accept_preinit, handle_preinit}" unfolding k by (auto split: if_splits)
  then show ?thesis using False by auto
qed

lemma next_id_less: "unat n < 2 ^ 32 - 1 \<Longrightarrow> n < n + (1 :: u32)"
  by (simp add: word_less_nat_alt unat_word_ariths)

lemma distinct_map_remove1: "distinct (map f xs) \<Longrightarrow> distinct (map f (remove1 x xs))"
  by (induction xs) (auto dest: notin_set_remove1 set_remove1_subset [THEN subsetD])

lemma sv_erase_ok:
  assumes "server_ok sv" "bound (sv_handlers sv)" "x \<in> set (sv_handlers sv)"
  shows "server_ok (sv_erase x sv)"
proof -
  have sub: "set (remove1 x (sv_handlers sv)) \<subseteq> set (sv_handlers sv)" by (rule set_remove1_subset)
  have b: "bound (remove1 x (sv_handlers sv))" using assms(2) sub unfolding bound_def by blast
  have u: "used_ids (sv_erase x sv) \<subseteq> used_ids sv" using sub assms(3) unfolding used_ids_def sv_erase_def by auto
  show ?thesis using assms(1) b u unfolding server_ok_def by (auto simp: sv_erase_def handlers_ok_def distinct_map_remove1)
qed

lemma sv_socket_update_ok:
  assumes "server_ok sv" "i \<in> sh_id ` set (sv_handlers sv)"
  shows "server_ok (sv\<lparr>sv_handlers := sv_socket i s (sv_handlers sv), sv_buffer := b, sv_log := sv_log sv @ map (Pair i) es\<rparr>)"
proof -
  let ?sv = "sv\<lparr>sv_handlers := sv_socket i s (sv_handlers sv), sv_buffer := b, sv_log := sv_log sv @ map (Pair i) es\<rparr>"
  have "used_ids ?sv \<subseteq> used_ids sv" using assms(2) unfolding used_ids_def by auto
  then show ?thesis using assms(1) unfolding server_ok_def by auto
qed

lemma find_id: "find (\<lambda>x. sh_id x = i) hs = Some x \<Longrightarrow> x \<in> set hs \<and> sh_id x = i"
  by (auto simp: find_Some_iff)

lemma accept_ok:
  assumes "server_ok sv" "unat (sv_next_id sv) < 2 ^ 32 - 1" "handlers_ok (sv_handlers sv @ [h])" "sh_id h = sv_next_id sv"
  shows "server_ok (sv\<lparr>sv_handlers := sv_handlers sv @ [h], sv_next_id := sv_next_id sv + 1,
    sv_log := sv_log sv @ map (Pair (sv_next_id sv)) es, sv_accepted := sv_accepted sv @ [(sv_next_id sv, s)]\<rparr>)"
proof -
  let ?sv = "sv\<lparr>sv_handlers := sv_handlers sv @ [h], sv_next_id := sv_next_id sv + 1,
    sv_log := sv_log sv @ map (Pair (sv_next_id sv)) es, sv_accepted := sv_accepted sv @ [(sv_next_id sv, s)]\<rparr>"
  have u: "used_ids ?sv \<subseteq> insert (sv_next_id sv) (used_ids sv)" using assms(4) unfolding used_ids_def by auto
  have l: "\<forall>i\<in>used_ids sv. i < sv_next_id sv" using assms(1) by (simp add: server_ok_def)
  then have "sv_next_id sv \<notin> sh_id ` set (sv_handlers sv)" unfolding used_ids_def by auto
  moreover have "\<forall>i\<in>used_ids ?sv. i < sv_next_id sv + 1"
  proof
    fix i assume "i \<in> used_ids ?sv"
    then have "i = sv_next_id sv \<or> i < sv_next_id sv" using u l by auto
    then show "i < sv_next_id sv + 1" using next_id_less [OF assms(2)] by auto
  qed
  ultimately show ?thesis using assms(1,3,4) unfolding server_ok_def by auto
qed

section \<open>The life of a session\<close>

abbreviation calls :: "u8 list list \<Rightarrow> socket_event list" where
  "calls ms \<equiv> map (\<lambda>m. Called (Message m)) ms"

abbreviation frames :: "bool \<Rightarrow> u8 list list \<Rightarrow> u8 list" where
  "frames le ms \<equiv> concat (map (socket_message le) ms)"

text \<open>The other side is a client: it sends messages, and the first is not of the length that announces the auxiliary connection.\<close>

definition client_stream :: "bool \<Rightarrow> u8 list list \<Rightarrow> bool" where
  "client_stream le ms \<longleftrightarrow> (\<forall>m\<in>set ms. sendable m) \<and> (\<forall>m ms'. ms = m # ms' \<longrightarrow> of_nat (length m) \<noteq> init_magic)"

definition peeks :: "('s \<Rightarrow> u8 list) \<Rightarrow> ('s \<Rightarrow> u8 list) \<Rightarrow> bool" where
  "peeks peek content \<longleftrightarrow> (\<forall>s. \<exists>n\<le>4. peek s = take n (content s))"

definition session_ok :: "('s \<Rightarrow> u8 list) \<Rightarrow> bool \<Rightarrow> u32 \<Rightarrow> u8 list list \<Rightarrow> 's server \<Rightarrow> bool" where
  "session_ok content le i ms sv \<longleftrightarrow>
     (\<exists>h\<in>set (sv_handlers sv). sh_id h = i \<and> sh_handler h = handle_preinit \<and> content (sh_socket h) = frames le ms \<and> log_of i sv = []) \<or>
     (\<exists>h\<in>set (sv_handlers sv). sh_id h = i \<and> sh_handler h = session_handler \<and>
        (\<exists>n. content (sh_socket h) = frames le (drop n ms) \<and> log_of i sv = Created # calls (take n ms))) \<or>
     (i \<notin> sh_id ` set (sv_handlers sv) \<and>
        ((\<exists>n. log_of i sv = Created # calls (take n ms) @ [Released]) \<or> log_of i sv = Created # calls ms @ [Called Disconnect, Released]))"

lemma log_of_append [simp]: "log_of i (sv\<lparr>sv_log := sv_log sv @ es\<rparr>) = log_of i sv @ map snd (filter (\<lambda>x. fst x = i) es)"
  by (simp add: log_of_def)

text \<open>Changes that leave a session alone.\<close>

lemma session_ok_frame:
  assumes "session_ok content le i ms sv" "log_of i sv' = log_of i sv"
    and "{h \<in> set (sv_handlers sv'). sh_id h = i} = {h \<in> set (sv_handlers sv). sh_id h = i}"
  shows "session_ok content le i ms sv'"
proof -
  have "\<And>h. h \<in> set (sv_handlers sv') \<and> sh_id h = i \<longleftrightarrow> h \<in> set (sv_handlers sv) \<and> sh_id h = i" using assms(3) by blast
  moreover from this have "i \<in> sh_id ` set (sv_handlers sv') \<longleftrightarrow> i \<in> sh_id ` set (sv_handlers sv)" unfolding image_iff by blast
  ultimately show ?thesis using assms(1,2) unfolding session_ok_def by (simp only:) blast
qed

lemma handler_unique: "distinct (map sh_id hs) \<Longrightarrow> g \<in> set hs \<Longrightarrow> h \<in> set hs \<Longrightarrow> sh_id g = sh_id h \<Longrightarrow> g = h"
  by (metis distinct_map inj_onD)

lemma not_magic:
  assumes "peeks peek content" "client_stream le' ms" "content s = frames le' ms"
  shows "\<not> (fst (recv_scalar (\<lambda>_ s. (peek s, s)) junk le s) = 4 \<and> fst (snd (recv_scalar (\<lambda>_ s. (peek s, s)) junk le s)) = init_magic)"
proof
  assume m: "fst (recv_scalar (\<lambda>_ s. (peek s, s)) junk le s) = 4 \<and> fst (snd (recv_scalar (\<lambda>_ s. (peek s, s)) junk le s)) = init_magic"
  obtain n where n: "n \<le> 4" "peek s = take n (content s)" using assms(1) unfolding peeks_def by blast
  from m have l: "length (peek s) = 4" by (simp add: recv_scalar_def)
  with n have p: "peek s = take 4 (content s)" by (cases "n = 4") auto
  then obtain x xs where ms: "ms = x # xs" using l assms(3) by (cases ms) auto
  have x: "sendable x" "of_nat (length x) \<noteq> init_magic" using assms(2) unfolding client_stream_def ms by auto
  have "peek s = network_bytes (of_nat (length x))" using p assms(3) by (simp add: ms socket_message_frame [OF x(1)])
  then show False using m x(2) by (simp add: recv_scalar_def host_value_network)
qed

lemma session_okE:
  assumes "session_ok content le i ms sv"
  obtains (early) g where "g \<in> set (sv_handlers sv)" "sh_id g = i" "sh_handler g = handle_preinit" "content (sh_socket g) = frames le ms" "log_of i sv = []"
  | (live) g n where "g \<in> set (sv_handlers sv)" "sh_id g = i" "sh_handler g = session_handler" "content (sh_socket g) = frames le (drop n ms)"
      "log_of i sv = Created # calls (take n ms)"
  | (gone) "i \<notin> sh_id ` set (sv_handlers sv)"
      "(\<exists>n. log_of i sv = Created # calls (take n ms) @ [Released]) \<or> log_of i sv = Created # calls ms @ [Called Disconnect, Released]"
  using assms unfolding session_ok_def by blast

definition sessions_ok :: "('s \<Rightarrow> u8 list) \<Rightarrow> 's server \<Rightarrow> bool" where
  "sessions_ok content sv \<longleftrightarrow> (\<forall>i s le ms. (i, s) \<in> set (sv_accepted sv) \<longrightarrow> client_stream le ms \<longrightarrow> content s = frames le ms \<longrightarrow>
     session_ok content le i ms sv)"

lemma sessions_okD:
  "sessions_ok content sv \<Longrightarrow> (i, s) \<in> set (sv_accepted sv) \<Longrightarrow> client_stream le ms \<Longrightarrow> content s = frames le ms \<Longrightarrow>
   session_ok content le i ms sv"
  unfolding sessions_ok_def by blast

lemma server_okD:
  assumes "server_ok sv"
  shows "distinct (map sh_id (sv_handlers sv))" "handlers_ok (sv_handlers sv)"
    "h \<in> set (sv_handlers sv) \<Longrightarrow> sh_id h < sv_next_id sv" "(i, s) \<in> set (sv_accepted sv) \<Longrightarrow> i < sv_next_id sv"
    "log_of (sv_next_id sv) sv = []"
proof -
  show "distinct (map sh_id (sv_handlers sv))" "handlers_ok (sv_handlers sv)" using assms by (simp_all add: server_ok_def)
  have u: "\<forall>i\<in>used_ids sv. i < sv_next_id sv" using assms by (simp add: server_ok_def)
  then show "h \<in> set (sv_handlers sv) \<Longrightarrow> sh_id h < sv_next_id sv" by (simp add: used_ids_def)
  show "(i, s) \<in> set (sv_accepted sv) \<Longrightarrow> i < sv_next_id sv" using u by (force simp: used_ids_def)
  have "\<forall>x\<in>set (sv_log sv). fst x \<noteq> sv_next_id sv" using u by (force simp: used_ids_def)
  then show "log_of (sv_next_id sv) sv = []" by (simp add: log_of_def filter_empty_conv)
qed

text \<open>A connection more.\<close>

lemma accept_sessions_ok:
  assumes ok: "server_ok sv" and ss: "sessions_ok content sv" and h: "sh_id h = sv_next_id sv" "sh_socket h = s"
    and kind: "sh_handler h = handle_preinit \<and> es = [] \<or> sh_handler h = session_handler \<and> es = [Created]"
  shows "sessions_ok content (sv\<lparr>sv_handlers := sv_handlers sv @ [h], sv_next_id := sv_next_id sv + 1,
    sv_log := sv_log sv @ map (Pair (sv_next_id sv)) es, sv_accepted := sv_accepted sv @ [(sv_next_id sv, s)]\<rparr>)" (is "sessions_ok content ?sv")
  unfolding sessions_ok_def
proof (intro allI impI)
  fix i s' le ms
  assume i: "(i, s') \<in> set (sv_accepted ?sv)" and c: "client_stream le ms" "content s' = frames le ms"
  show "session_ok content le i ms ?sv"
  proof (cases "i = sv_next_id sv")
    case True
    then have s: "content (sh_socket h) = frames le ms" using i c(2) h(2) server_okD(4) [OF ok, of i s'] by auto
    have l: "log_of i ?sv = es" using server_okD(5) [OF ok] by (simp add: True log_of_def filter_map comp_def)
    have m: "h \<in> set (sv_handlers ?sv)" "sh_id h = i" using h True by simp_all
    have "\<exists>n. content (sh_socket h) = frames le (drop n ms) \<and> [Created] = Created # calls (take n ms)"
      using s by (intro exI [of _ 0]) simp
    then have "es = [Created] \<Longrightarrow> sh_handler h = session_handler \<Longrightarrow> ?thesis"
      unfolding session_ok_def l by (intro disjI2 disjI1 bexI [OF _ m(1)] conjI m(2)) simp_all
    moreover have "es = [] \<Longrightarrow> sh_handler h = handle_preinit \<Longrightarrow> ?thesis"
      unfolding session_ok_def l by (intro disjI1 bexI [OF _ m(1)] conjI m(2) s)
    ultimately show ?thesis using kind by (elim disjE conjE)
  next
    case False
    then have "(i, s') \<in> set (sv_accepted sv)" using i by simp
    from sessions_okD [OF ss this c] show ?thesis
    proof (rule session_ok_frame)
      show "log_of i ?sv = log_of i sv" using False by (simp add: log_of_def filter_map comp_def)
      show "{x \<in> set (sv_handlers ?sv). sh_id x = i} = {x \<in> set (sv_handlers sv). sh_id x = i}" using False h by auto
    qed
  qed
qed

lemma do_accept_preinit_ok:
  assumes ok: "server_ok sv" "sessions_ok content sv" and n: "unat (sv_next_id sv) < 2 ^ 32 - 1"
    and h: "h \<in> set (sv_handlers sv)" "sh_handler h = accept_preinit" and r: "do_accept_preinit (Some s) sv = (st, sv')"
  shows "st = Some proceed \<and> server_ok sv' \<and> sessions_ok content sv'"
proof -
  let ?h = "\<lparr>sh_id = sv_next_id sv, sh_handler = handle_preinit, sh_socket = s\<rparr>"
  have "\<not> bound (sv_handlers sv)" using bound_of [OF server_okD(2) [OF ok(1)] h(1)] h(2) by simp
  then obtain k where k: "map sh_handler (sv_handlers sv) = accept_preinit # replicate k handle_preinit"
    using server_okD(2) [OF ok(1)] by (auto simp: handlers_ok_def)
  then have "map sh_handler (sv_handlers sv @ [?h]) = accept_preinit # replicate (Suc k) handle_preinit" by (simp add: replicate_append_same)
  then have "handlers_ok (sv_handlers sv @ [?h])" unfolding handlers_ok_def by (intro disjI2 exI)
  from accept_ok [OF ok(1) n this, where es = "[]" and s = s] accept_sessions_ok [OF ok, where h = ?h and s = s and es = "[]"] show ?thesis
    using r by (simp add: do_accept_preinit_def)
qed

lemma do_accept_regular_ok:
  assumes ok: "server_ok sv" "sessions_ok content sv" and n: "unat (sv_next_id sv) < 2 ^ 32 - 1"
    and h: "h \<in> set (sv_handlers sv)" "sh_handler h = accept_regular" and r: "do_accept_regular (Some s) sv = (st, sv')"
  shows "st = Some proceed \<and> server_ok sv' \<and> sessions_ok content sv'"
proof -
  let ?h = "\<lparr>sh_id = sv_next_id sv, sh_handler = session_handler, sh_socket = s\<rparr>"
  have "bound (sv_handlers sv)" using bound_of [OF server_okD(2) [OF ok(1)] h(1)] h(2) by simp
  then have "handlers_ok (sv_handlers sv @ [?h])" by (simp add: handlers_ok_def bound_def)
  from accept_ok [OF ok(1) n this, where es = "[Created]" and s = s] accept_sessions_ok [OF ok, where h = ?h and s = s and es = "[Created]"] show ?thesis
    using r by (simp add: do_accept_regular_def)
qed

text \<open>The auxiliary connection is recognized.\<close>

lemma filter_unique: "distinct (map f xs) \<Longrightarrow> x \<in> set xs \<Longrightarrow> filter (\<lambda>y. f y = f x) xs = [x]"
  by (induction xs) (auto simp: filter_empty_conv image_iff)

lemma bind_handlers_session:
  assumes d: "distinct (map sh_id hs)" and k: "map sh_handler hs = accept_preinit # replicate k handle_preinit"
    and g: "g \<in> set hs" "sh_handler g = handle_preinit" "sh_id g \<noteq> j"
  shows "g\<lparr>sh_handler := session_handler\<rparr> \<in> set (tl (bind_handlers j hs))"
proof -
  obtain a rest where hs: "hs = a # rest" "sh_handler a = accept_preinit" using k by (cases hs) auto
  with g have "g \<in> set rest" by auto
  with g(3) show ?thesis unfolding bind_handlers_def hs by force
qed

lemma created_once:
  assumes d: "distinct (map sh_id hs)" and g: "g \<in> set (tl hs)" "sh_handler g = session_handler"
  shows "filter (\<lambda>x. fst x = sh_id g) (map (\<lambda>x. (sh_id x, Created)) (filter (\<lambda>x. sh_handler x = session_handler) (tl hs))) = [(sh_id g, Created)]"
proof -
  let ?xs = "filter (\<lambda>x. sh_handler x = session_handler) (tl hs)"
  have "distinct (map sh_id ?xs)" using d by (simp add: map_tl distinct_tl distinct_map_filter)
  from filter_unique [OF this, of g] g show ?thesis by (simp add: filter_map comp_def)
qed

lemma do_handle_preinit_ok:
  assumes ok: "server_ok sv" "sessions_ok content sv" and p: "peeks peek content"
    and h: "h \<in> set (sv_handlers sv)" "sh_handler h = handle_preinit" and r: "do_handle_preinit recv peek junk le h sv = (st, sv')"
  shows "st = Some proceed \<and> server_ok sv' \<and> sessions_ok content sv'"
proof (cases "fst (recv_scalar (\<lambda>_ s. (peek s, s)) junk le (sh_socket h)) = 4 \<and>
    fst (snd (recv_scalar (\<lambda>_ s. (peek s, s)) junk le (sh_socket h))) = init_magic")
  case False
  then show ?thesis using r ok by (auto simp: do_handle_preinit_def Let_def split: prod.splits if_splits)
next
  case True
  obtain x y s where rs: "recv_scalar recv junk le (sh_socket h) = (x, y, s)" by (metis prod_cases3)
  define hs where "hs = bind_handlers (sh_id h) (sv_socket (sh_id h) s (sv_handlers sv))"
  define es where "es = map (\<lambda>x. (sh_id x, Created)) (filter (\<lambda>x. sh_handler x = session_handler) (tl hs))"
  have sv': "st = Some proceed" "sv' = sv\<lparr>sv_handlers := hs, sv_log := sv_log sv @ es\<rparr>"
    using r True by (auto simp: do_handle_preinit_def rs hs_def es_def Let_def split: prod.splits)
  have ids: "map sh_id hs = map sh_id (sv_handlers sv)" "sh_id ` set hs = sh_id ` set (sv_handlers sv)" by (simp_all add: hs_def)
  have tl: "set (tl hs) \<subseteq> set hs" by (cases hs) auto
  have es: "fst ` set es \<subseteq> sh_id ` set hs" using tl by (auto simp: es_def)
  have so: "server_ok sv'"
    using ok(1) es ids unfolding server_ok_def sv'(2) by (auto simp: used_ids_def handlers_ok_def hs_def bind_handlers_bound)
  have nb: "\<not> bound (sv_handlers sv)" using bound_of [OF server_okD(2) [OF ok(1)] h(1)] h(2) by simp
  then obtain k where k: "map sh_handler (sv_handlers sv) = accept_preinit # replicate k handle_preinit"
    using server_okD(2) [OF ok(1)] by (auto simp: handlers_ok_def)
  have "sessions_ok content sv'" unfolding sessions_ok_def
  proof (intro allI impI)
    fix i s' le' ms
    assume i: "(i, s') \<in> set (sv_accepted sv')" and c: "client_stream le' ms" "content s' = frames le' ms"
    then have "session_ok content le' i ms sv" using sessions_okD [OF ok(2)] by (simp add: sv'(2))
    then show "session_ok content le' i ms sv'"
    proof (cases rule: session_okE)
      case (early g)
      note 1 = early
      have ne: "sh_id g \<noteq> sh_id h"
      proof
        assume "sh_id g = sh_id h"
        then have "g = h" using handler_unique [OF server_okD(1) [OF ok(1)]] 1(1) h(1) by blast
        then show False using not_magic [OF p c(1)] 1(4) True by blast
      qed
      let ?g = "g\<lparr>sh_handler := session_handler\<rparr>"
      have "g \<in> set (sv_socket (sh_id h) s (sv_handlers sv))" using 1(1) ne by (auto simp: sv_socket_def)
      then have g: "?g \<in> set (tl hs)"
        unfolding hs_def using 1(3) ne k server_okD(1) [OF ok(1)] by (intro bind_handlers_session) simp_all
      have "filter (\<lambda>x. fst x = i) es = [(i, Created)]"
        using created_once [OF _ g] ids(1) server_okD(1) [OF ok(1)] 1(2) by (simp add: es_def)
      then have "log_of i sv' = [Created]" using 1(5) by (simp add: sv'(2) log_of_def)
      moreover have "?g \<in> set (sv_handlers sv')" using g tl by (auto simp: sv'(2))
      ultimately show ?thesis
        unfolding session_ok_def using 1 by (intro disjI2 disjI1 bexI [of _ ?g] conjI exI [of _ 0]) simp_all
    next
      case (live g n)
      then show ?thesis using bound_of [OF server_okD(2) [OF ok(1)] live(1)] nb by simp
    next
      case gone
      note 3 = gone(1)
      have "\<forall>x\<in>set es. fst x \<noteq> i" using 3 es ids(2) by auto
      then have "log_of i sv' = log_of i sv" by (simp add: sv'(2) log_of_def filter_empty_conv)
      moreover have "i \<notin> sh_id ` set (sv_handlers sv')" using 3 ids(2) by (simp add: sv'(2))
      ultimately show ?thesis using \<open>session_ok content le' i ms sv\<close> 3 unfolding session_ok_def by auto
    qed
  qed
  with so sv'(1) show ?thesis by blast
qed

text \<open>A session is called; others do not notice.\<close>

lemma sv_socket_other: "i \<noteq> j \<Longrightarrow> {h \<in> set (sv_socket j s hs). sh_id h = i} = {h \<in> set hs. sh_id h = i}"
  by (auto simp: sv_socket_def)

lemma sv_socket_this: "h \<in> set hs \<Longrightarrow> h\<lparr>sh_socket := s\<rparr> \<in> set (sv_socket (sh_id h) s hs)"
  by (auto simp: sv_socket_def)

lemma remove1_other: "sh_id x \<noteq> i \<Longrightarrow> {h \<in> set (remove1 x hs). sh_id h = i} = {h \<in> set hs. sh_id h = i}"
  by (induction hs) auto

lemma remove1_this: "distinct (map sh_id hs) \<Longrightarrow> x \<in> set hs \<Longrightarrow> sh_id x \<notin> sh_id ` set (remove1 x hs)"
  using handler_unique [of hs] by (fastforce simp: set_remove1_eq distinct_map)

lemma find_id_unique: "distinct (map sh_id hs) \<Longrightarrow> x \<in> set hs \<Longrightarrow> find (\<lambda>y. sh_id y = sh_id x) hs = Some x"
  by (induction hs) auto

lemma session_turn_ok:
  assumes ok: "server_ok sv" "sessions_ok content sv" and w: "waits_for_all recv content"
    and h: "h \<in> set (sv_handlers sv)" "sh_handler h = session_handler"
  shows "server_ok (run_turn recv peek junk le conn h sv) \<and> sessions_ok content (run_turn recv peek junk le conn h sv)"
proof -
  obtain st call buffer s where hs: "handle_session recv junk le (sv_buffer sv) (sh_socket h) = (st, call, buffer, s)" by (metis prod_cases4)
  then have st: "st = proceed \<or> st = remove_this" by (auto simp: handle_session_def Let_def split: prod.splits if_splits)
  let ?h = "h\<lparr>sh_socket := s\<rparr>"
  let ?sv = "sv\<lparr>sv_handlers := sv_socket (sh_id h) s (sv_handlers sv), sv_buffer := buffer, sv_log := sv_log sv @ map (Pair (sh_id h)) [Called call]\<rparr>"
  note d = server_okD(1) [OF ok(1)]
  have ok1: "server_ok ?sv" using h(1) by (intro sv_socket_update_ok ok(1)) auto
  have m: "?h \<in> set (sv_handlers ?sv)" using sv_socket_this [OF h(1)] by simp
  have f: "find (\<lambda>y. sh_id y = sh_id h) (sv_handlers ?sv) = Some ?h"
    using find_id_unique [OF server_okD(1) [OF ok1] m] by simp
  have b: "bound (sv_handlers ?sv)" using bound_of [OF server_okD(2) [OF ok(1)] h(1)] h(2) by simp
  let ?r = "if st = proceed then ?sv else sv_erase ?h ?sv"
  have r: "run_turn recv peek junk le conn h sv = ?r" using st h(2) f
    by (auto simp: run_turn_def call_handler_def do_handle_session_def hs)
  have "server_ok ?r" using ok1 sv_erase_ok [OF ok1 b m] by simp
  moreover have "sessions_ok content ?r" unfolding sessions_ok_def
  proof (intro allI impI)
    fix i s' le' ms
    assume "(i, s') \<in> set (sv_accepted ?r)" and c: "client_stream le' ms" "content s' = frames le' ms"
    then have a: "session_ok content le' i ms sv" using sessions_okD [OF ok(2)] by (simp add: sv_erase_def split: if_splits)
    show "session_ok content le' i ms ?r"
    proof (cases "i = sh_id h")
      case False
      from a show ?thesis
      proof (rule session_ok_frame)
        show "log_of i ?r = log_of i sv" using False h(2) by (simp add: log_of_def sv_erase_def)
        show "{x \<in> set (sv_handlers ?r). sh_id x = i} = {x \<in> set (sv_handlers sv). sh_id x = i}"
          using False by (simp add: sv_erase_def remove1_other sv_socket_other)
      qed
    next
      case True
      have u: "g = h" if "g \<in> set (sv_handlers sv)" "sh_id g = i" for g using handler_unique [OF d that(1) h(1)] that(2) True by simp
      have "i \<in> sh_id ` set (sv_handlers sv)" using h(1) True by blast
      with a obtain n where n: "content (sh_socket h) = frames le' (drop n ms)" "log_of i sv = Created # calls (take n ms)"
      proof (cases rule: session_okE)
        case (early g)
        then show ?thesis using u h(2) by force
      next
        case (live g n)
        then show ?thesis using u that by blast
      qed blast
      show ?thesis
      proof (cases "drop n ms")
        case Nil
        from handle_session_end [OF w, of "sh_socket h" junk le "sv_buffer sv"] n(1) Nil hs have e: "st = remove_this" "call = Disconnect" by auto
        have "log_of i ?r = Created # calls ms @ [Called Disconnect, Released]"
          using e n(2) Nil h(2) True by (simp add: log_of_def sv_erase_def)
        moreover have "i \<notin> sh_id ` set (sv_handlers ?r)"
          using e remove1_this [OF server_okD(1) [OF ok1] m] True by (simp add: sv_erase_def)
        ultimately show ?thesis unfolding session_ok_def by blast
      next
        case (Cons x xs)
        then have xs: "drop (Suc n) ms = xs" and t: "take (Suc n) ms = take n ms @ [x]" and nl: "n < length ms"
          by (metis drop_Suc list.sel(3) tl_drop, metis hd_drop_conv_nth list.sel(1) take_Suc_conv_app_nth drop_eq_Nil list.distinct(1) not_le)
            (metis drop_eq_Nil list.distinct(1) Cons not_le)
        have "sendable x" using c(1) Cons unfolding client_stream_def by (metis in_set_dropD list.set_intros(1))
        with handle_session_message [OF w, of "sh_socket h" le' x "frames le' xs" junk le "sv_buffer sv"] n(1) Cons hs
        have e: "st = proceed" "call = Message x" "content s = frames le' xs" by auto
        have "log_of i ?r = Created # calls (take (Suc n) ms)" using e n(2) t True by (simp add: log_of_def)
        moreover have "?h \<in> set (sv_handlers ?r)" using m e by simp
        ultimately show ?thesis unfolding session_ok_def
          using True h(2) e xs by (intro disjI2 disjI1 bexI [of _ ?h] conjI exI [of _ "Suc n"]) simp_all
      qed
    qed
  qed
  ultimately show ?thesis unfolding r by blast
qed

text \<open>A session is closed from this side.\<close>

lemma erase_sessions_ok:
  assumes ok: "server_ok sv" "sessions_ok content sv" and x: "x \<in> set (sv_handlers sv)" and b: "bound (sv_handlers sv)"
  shows "sessions_ok content (sv_erase x sv)"
  unfolding sessions_ok_def
proof (intro allI impI)
  fix i s le ms
  assume "(i, s) \<in> set (sv_accepted (sv_erase x sv))" and c: "client_stream le ms" "content s = frames le ms"
  then have a: "session_ok content le i ms sv" using sessions_okD [OF ok(2)] by (simp add: sv_erase_def)
  show "session_ok content le i ms (sv_erase x sv)"
  proof (cases "i = sh_id x")
    case False
    from a show ?thesis
    proof (rule session_ok_frame)
      show "log_of i (sv_erase x sv) = log_of i sv" using False by (simp add: log_of_def sv_erase_def)
      show "{g \<in> set (sv_handlers (sv_erase x sv)). sh_id g = i} = {g \<in> set (sv_handlers sv). sh_id g = i}"
        using False by (simp add: sv_erase_def remove1_other)
    qed
  next
    case True
    have u: "g = x" if "g \<in> set (sv_handlers sv)" "sh_id g = i" for g
      using handler_unique [OF server_okD(1) [OF ok(1)] that(1) x] that(2) True by simp
    from a show ?thesis
    proof (cases rule: session_okE)
      case (early g)
      then show ?thesis using bound_of [OF server_okD(2) [OF ok(1)] early(1)] b by simp
    next
      case (live g n)
      have "sh_handler x = session_handler" using u [OF live(1,2)] live(3) by simp
      then have "log_of i (sv_erase x sv) = Created # calls (take n ms) @ [Released]" using live(5) True by (simp add: log_of_def sv_erase_def)
      moreover have "i \<notin> sh_id ` set (sv_handlers (sv_erase x sv))"
        using remove1_this [OF server_okD(1) [OF ok(1)] x] True by (simp add: sv_erase_def)
      ultimately show ?thesis unfolding session_ok_def by blast
    next
      case gone
      then show ?thesis using x True by blast
    qed
  qed
qed

lemma sv_running_ok [simp]:
  "server_ok (sv\<lparr>sv_running := r\<rparr>) = server_ok sv" "sessions_ok content (sv\<lparr>sv_running := r\<rparr>) = sessions_ok content sv"
  by (simp_all add: server_ok_def used_ids_def sessions_ok_def session_ok_def log_of_def)

lemma aux_socket_ok:
  assumes ok: "server_ok sv" "sessions_ok content sv" and h: "h \<in> set (sv_handlers sv)" "sh_handler h = handle_aux"
  shows "server_ok (sv\<lparr>sv_handlers := sv_socket (sh_id h) s (sv_handlers sv)\<rparr>)"
    "sessions_ok content (sv\<lparr>sv_handlers := sv_socket (sh_id h) s (sv_handlers sv)\<rparr>)"
proof -
  show "server_ok (sv\<lparr>sv_handlers := sv_socket (sh_id h) s (sv_handlers sv)\<rparr>)"
    using sv_socket_update_ok [OF ok(1), where i = "sh_id h" and s = s and b = "sv_buffer sv" and es = "[]"] h(1) by simp
  show "sessions_ok content (sv\<lparr>sv_handlers := sv_socket (sh_id h) s (sv_handlers sv)\<rparr>)" unfolding sessions_ok_def
  proof (intro allI impI)
    fix i s' le ms
    assume "(i, s') \<in> set (sv_accepted (sv\<lparr>sv_handlers := sv_socket (sh_id h) s (sv_handlers sv)\<rparr>))"
      and c: "client_stream le ms" "content s' = frames le ms"
    then have a: "session_ok content le i ms sv" using sessions_okD [OF ok(2)] by simp
    have u: "g = h" if "g \<in> set (sv_handlers sv)" "sh_id g = sh_id h" for g
      using handler_unique [OF server_okD(1) [OF ok(1)] that(1) h(1)] that(2) by simp
    from a have "i \<noteq> sh_id h"
    proof (cases rule: session_okE)
      case (early g)
      then show ?thesis using u [of g] h(2) by auto
    next
      case (live g n)
      then show ?thesis using u [of g] h(2) by auto
    next
      case gone
      then show ?thesis using h(1) by blast
    qed
    with a show "session_ok content le i ms (sv\<lparr>sv_handlers := sv_socket (sh_id h) s (sv_handlers sv)\<rparr>)"
      by (intro session_ok_frame [OF a]) (simp_all add: sv_socket_other log_of_def)
  qed
qed

lemma aux_turn_ok:
  assumes ok: "server_ok sv" "sessions_ok content sv" and h: "h \<in> set (sv_handlers sv)" "sh_handler h = handle_aux"
  shows "server_ok (run_turn recv peek junk le conn h sv) \<and> sessions_ok content (run_turn recv peek junk le conn h sv)"
proof -
  obtain n i s where rs: "recv_scalar recv junk le (sh_socket h) = (n, i, s)" by (metis prod_cases3)
  let ?sv = "sv\<lparr>sv_handlers := sv_socket (sh_id h) s (sv_handlers sv)\<rparr>"
  note k = aux_socket_ok [OF ok h, of s]
  have b: "bound (sv_handlers ?sv)" using bound_of [OF server_okD(2) [OF ok(1)] h(1)] h(2) by simp
  show ?thesis
  proof (cases "n > 0 \<and> find (\<lambda>x. sh_id x = i) (sv_handlers ?sv) \<noteq> None")
    case True
    then obtain x where x: "find (\<lambda>x. sh_id x = i) (sv_handlers ?sv) = Some x" by blast
    then have "run_turn recv peek junk le conn h sv = sv_erase x ?sv"
      using True h(2) by (simp add: run_turn_def call_handler_def do_handle_aux_def rs)
    then show ?thesis using sv_erase_ok [OF k(1) b] erase_sessions_ok [OF k _ b] find_id [OF x] by simp
  next
    case False
    then have "run_turn recv peek junk le conn h sv = ?sv\<lparr>sv_running := False\<rparr>"
      using h(2) by (auto simp: run_turn_def call_handler_def do_handle_aux_def rs Let_def split: option.splits)
    then show ?thesis using k by simp
  qed
qed

lemma serving_ok:
  assumes "serving recv peek le sv" "waits_for_all recv content" "peeks peek content"
  shows "server_ok sv \<and> sessions_ok content sv"
  using assms(1)
proof (induction rule: serving.induct)
  case (started s)
  show ?case by (simp add: server_init_def server_ok_def sessions_ok_def used_ids_def handlers_ok_def)
next
  case (turn sv h junk conn)
  then have ok: "server_ok sv" "sessions_ok content sv" by blast+
  show ?case
  proof (cases "sh_handler h")
    case accept_preinit
    then show ?thesis using do_accept_preinit_ok [OF ok turn.hyps(4) turn.hyps(3) accept_preinit]
      by (cases conn) (auto simp: run_turn_def call_handler_def do_accept_preinit_def ok)
  next
    case handle_preinit
    obtain st sv' where r: "do_handle_preinit recv peek junk le h sv = (st, sv')" by fastforce
    with do_handle_preinit_ok [OF ok assms(3) turn.hyps(3) handle_preinit r] handle_preinit show ?thesis
      by (simp add: run_turn_def call_handler_def)
  next
    case accept_regular
    then show ?thesis using do_accept_regular_ok [OF ok turn.hyps(4) turn.hyps(3) accept_regular]
      by (cases conn) (auto simp: run_turn_def call_handler_def do_accept_regular_def ok)
  next
    case handle_aux
    then show ?thesis using aux_turn_ok [OF ok turn.hyps(3)] by blast
  next
    case session_handler
    then show ?thesis using session_turn_ok [OF ok assms(2) turn.hyps(3)] by blast
  qed
qed

section \<open>Properties\<close>

text \<open>
  C19. A connection to the server has one session, called in the order of its life and with its own messages only, whatever other
  connections do meanwhile. A client that connected, before or after the auxiliary connection was recognized, and sends the
  messages \<open>ms\<close> either waits for its session, or its session was created and called with the first messages in order, each whole; a session that is
  told of a disconnection has had all of them; a session is released after that, or when it was closed from this side, and is not
  called again.
\<close>

theorem sessions_get_their_messages:
  assumes "serving recv peek le sv" "waits_for_all recv content" "peeks peek content"
    and "(i, s) \<in> set (sv_accepted sv)" "client_stream le' ms" "content s = frames le' ms"
  shows "(\<exists>n. log_of i sv \<in> {[], Created # calls (take n ms), Created # calls (take n ms) @ [Released], Created # calls ms @ [Called Disconnect, Released]}) \<and>
    (i \<in> sh_id ` set (sv_handlers sv) \<longleftrightarrow> Released \<notin> set (log_of i sv))"
proof -
  have nr: "Released \<notin> set (calls xs)" for xs by auto
  have "session_ok content le' i ms sv" by (rule sessions_okD [OF conjunct2 [OF serving_ok [OF assms(1-3)]] assms(4-6)])
  then show ?thesis
  proof (cases rule: session_okE)
    case (early g)
    then have "i \<in> sh_id ` set (sv_handlers sv)" by blast
    with early(5) show ?thesis by simp
  next
    case (live g n)
    then have "i \<in> sh_id ` set (sv_handlers sv)" by blast
    moreover have "Released \<notin> set (log_of i sv)" using nr by (simp add: live(5))
    moreover have "log_of i sv \<in> {[], Created # calls (take n ms), Created # calls (take n ms) @ [Released], Created # calls ms @ [Called Disconnect, Released]}"
      unfolding live(5) by blast
    ultimately show ?thesis by blast
  next
    case gone
    from gone(2) show ?thesis
    proof
      assume "\<exists>n. log_of i sv = Created # calls (take n ms) @ [Released]"
      then obtain n where l: "log_of i sv = Created # calls (take n ms) @ [Released]" by blast
      show ?thesis unfolding l using gone(1) by (intro conjI exI [of _ n]) simp_all
    next
      assume l: "log_of i sv = Created # calls ms @ [Called Disconnect, Released]"
      show ?thesis unfolding l using gone(1) by simp
    qed
  qed
qed

text \<open>
  A client that connects before the auxiliary connection is recognized; sockets are the bytes still to come. The server is little
  endian, the client is not.
\<close>

abbreviation take_bytes :: "nat \<Rightarrow> u8 list \<Rightarrow> u8 list \<times> u8 list" where
  "take_bytes n s \<equiv> (take n s, drop n s)"

lemma example_streams:
  "send_scalar True init_magic = [255, 255, 255, 254]" "socket_message False [7, 8] = [0, 0, 0, 2, 7, 8]"
  by (simp_all add: send_scalar_network network_bytes_def init_magic_def socket_message_frame)

lemmas turn_defs = run_turn_def call_handler_def do_accept_preinit_def do_handle_preinit_def do_handle_session_def do_handle_aux_def
  server_init_def recv_scalar_def reorder_four host_value_def bind_handlers_def sv_socket_def sv_erase_def init_magic_def
  handle_session_def recv_into_def resize_def

abbreviation example_handlers :: "handler_fn \<Rightarrow> handler_fn \<Rightarrow> handler_fn \<Rightarrow> u8 list \<Rightarrow> u8 list \<Rightarrow> u8 list socket_handler list" where
  "example_handlers f g h s t \<equiv> [\<lparr>sh_id = 100, sh_handler = f, sh_socket = []\<rparr>, \<lparr>sh_id = 101, sh_handler = g, sh_socket = s\<rparr>,
     \<lparr>sh_id = 102, sh_handler = h, sh_socket = t\<rparr>]"

abbreviation example_turn :: "u8 list option \<Rightarrow> nat \<Rightarrow> u8 list server \<Rightarrow> u8 list server" where
  "example_turn conn k sv \<equiv> run_turn take_bytes (take 4) [0, 0, 0, 0] True conn (sv_handlers sv ! k) sv"

definition example_server :: "u8 list \<Rightarrow> u8 list server" where
  "example_server aux = \<lparr>sv_next_id = 103, sv_handlers = example_handlers accept_regular session_handler handle_aux [0, 0, 0, 2, 7, 8] aux,
     sv_buffer = [], sv_running = True, sv_log = [(101, Created)],
     sv_accepted = [(101, [0, 0, 0, 2, 7, 8]), (102, [255, 255, 255, 254] @ aux)]\<rparr>"

lemma turn_at: "serving take_bytes (take 4) True sv \<Longrightarrow> sv_running sv \<Longrightarrow> k < length (sv_handlers sv) \<Longrightarrow> unat (sv_next_id sv) < 2 ^ 32 - 1 \<Longrightarrow>
    serving take_bytes (take 4) True (example_turn conn k sv)"
  by (rule serving.turn) simp_all

lemma example_serving: "serving take_bytes (take 4) True (example_server aux)"
proof -
  let ?c = "[0, 0, 0, 2, 7, 8] :: u8 list" and ?a = "[255, 255, 255, 254] @ aux"
  let ?sv1 = "\<lparr>sv_next_id = 102, sv_handlers = [\<lparr>sh_id = 100, sh_handler = accept_preinit, sh_socket = []\<rparr>, \<lparr>sh_id = 101, sh_handler = handle_preinit, sh_socket = ?c\<rparr>],
    sv_buffer = [], sv_running = True, sv_log = [], sv_accepted = [(101, ?c)]\<rparr>"
  let ?sv2 = "\<lparr>sv_next_id = 103, sv_handlers = example_handlers accept_preinit handle_preinit handle_preinit ?c ?a,
    sv_buffer = [], sv_running = True, sv_log = [], sv_accepted = [(101, ?c), (102, ?a)]\<rparr>"
  have "serving take_bytes (take 4) True (server_init [])" by (rule serving.started)
  from turn_at [OF this, of 0 "Some ?c"] have "serving take_bytes (take 4) True ?sv1" by (simp add: turn_defs)
  from turn_at [OF this, of 0 "Some ?a"] have "serving take_bytes (take 4) True ?sv2" by (simp add: turn_defs)
  from turn_at [OF this, of 2 None] show ?thesis by (simp add: turn_defs example_server_def)
qed

abbreviation example_end :: "u8 list \<Rightarrow> u8 list server" where
  "example_end aux \<equiv> example_turn None 1 (example_turn None 1 (example_server aux))"

lemma example_ends:
  "example_end aux = \<lparr>sv_next_id = 103, sv_handlers = [\<lparr>sh_id = 100, sh_handler = accept_regular, sh_socket = []\<rparr>, \<lparr>sh_id = 102, sh_handler = handle_aux, sh_socket = aux\<rparr>],
     sv_buffer = [7, 8], sv_running = True, sv_log = [(101, Created), (101, Called (Message [7, 8])), (101, Called Disconnect), (101, Released)],
     sv_accepted = [(101, [0, 0, 0, 2, 7, 8]), (102, [255, 255, 255, 254] @ aux)]\<rparr>"
proof -
  have "example_turn None 1 (example_server aux) = (example_server aux)\<lparr>
    sv_handlers := example_handlers accept_regular session_handler handle_aux [] aux, sv_buffer := [7, 8], sv_log := [(101, Created), (101, Called (Message [7, 8]))]\<rparr>"
    by (simp add: turn_defs example_server_def)
  then show ?thesis by (simp add: turn_defs example_server_def)
qed

lemma example_end_serving: "serving take_bytes (take 4) True (example_end aux)"
proof -
  have "sv_running (example_server aux)" "length (sv_handlers (example_server aux)) = 3" "sv_next_id (example_server aux) = 103"
    by (simp_all add: example_server_def)
  then have 1: "serving take_bytes (take 4) True (example_turn None 1 (example_server aux))" by (intro turn_at example_serving) simp_all
  have "sv_running (example_turn None 1 (example_server aux))" "length (sv_handlers (example_turn None 1 (example_server aux))) = 3"
    "sv_next_id (example_turn None 1 (example_server aux)) = 103"
    by (simp_all add: turn_defs example_server_def)
  then have "1 < length (sv_handlers (example_turn None 1 (example_server aux)))"
    "unat (sv_next_id (example_turn None 1 (example_server aux))) < 2 ^ 32 - 1" by (simp_all only:) simp_all
  from turn_at [OF 1 _ this] show ?thesis by (simp add: turn_defs example_server_def)
qed

theorem sessions_get_their_messages_witness:
  "\<exists>n. log_of 101 (example_end []) \<in> {[], Created # calls (take n [[7, 8]]), Created # calls (take n [[7, 8]]) @ [Released],
      Created # calls [[7, 8]] @ [Called Disconnect, Released]} \<and>
    log_of 101 (example_end []) = [Created, Called (Message [7, 8]), Called Disconnect, Released]"
proof -
  have w: "waits_for_all take_bytes (\<lambda>s. s)" by (simp add: waits_for_all_def)
  have p: "peeks (take 4) (\<lambda>s. s)" unfolding peeks_def by auto
  have a: "(101, [0, 0, 0, 2, 7, 8]) \<in> set (sv_accepted (example_end []))" unfolding example_ends by simp
  have c: "client_stream False [[7, 8]]" by (simp add: client_stream_def init_magic_def)
  have f: "[0, 0, 0, 2, 7, 8] = frames False [[7, 8]]" by (simp add: example_streams)
  have "log_of 101 (example_end []) = [Created, Called (Message [7, 8]), Called Disconnect, Released]"
    unfolding example_ends by (simp add: log_of_def)
  with sessions_get_their_messages [OF example_end_serving w p a c f] show ?thesis by blast
qed

text \<open>
  An identifier on the auxiliary connection that no handler has is taken for the request to stop. A session closed from this side while its client
  disconnects is such: the client's end removes the handler, then its identifier arrives, and the server serves no one any more.
\<close>

lemma late_disconnect_stops_server:
  "serving take_bytes (take 4) True (example_turn None 1 (example_end (handler_disconnect True 101))) \<and>
   \<not> sv_running (example_turn None 1 (example_end (handler_disconnect True 101)))"
proof -
  have d: "handler_disconnect True 101 = [0, 0, 0, 101]" by (simp add: handler_disconnect_def send_scalar_network network_bytes_def)
  show ?thesis
  proof
    show "serving take_bytes (take 4) True (example_turn None 1 (example_end (handler_disconnect True 101)))"
      by (rule turn_at [OF example_end_serving]; subst example_ends) simp_all
    show "\<not> sv_running (example_turn None 1 (example_end (handler_disconnect True 101)))"
      unfolding example_ends d by (simp add: turn_defs)
  qed
qed

end
