(* ===== verification/Symbol_Resolver.thy ===== *)
theory Symbol_Resolver
  imports Prelude
begin

text \<open>
  Names of addresses, \<^verbatim>\<open>frontend/src/symbol_resolver.cpp\<close> with \<^verbatim>\<open>find_range\<close> of \<^verbatim>\<open>frontend/helpers.h\<close>. Mappings are what
  their index by base lists, in its order. Metadata of a module comes through a request, at once if it is at hand
  (\<open>at_hand\<close>) or later. A pointer to a symbol is the symbol; the metadata it points into are not changed.
\<close>

section \<open>The resolver\<close>

record symbol_info =
  sy_name :: string
  sy_rva :: u32
  sy_size :: u32
  sy_file_id :: u32
  sy_line :: u32

record module_info_metadata =
  md_symbols :: "symbol_info list"
  md_source_files :: "(u32, string) umap"

text \<open>An ordered container as the list of its elements; what is before the upper bound ends with the element to return.\<close>

definition find_range :: "('k::linorder \<times> 'v) list \<Rightarrow> 'k \<Rightarrow> ('k \<times> 'v) option" where
  "find_range container v =
     (let i = length (takeWhile (\<lambda>x. fst x \<le> v) container) in if i \<noteq> 0 then Some (container ! (i - 1)) else None)"

text \<open>Assignment in a \<^verbatim>\<open>std::map\<close>.\<close>

fun map_put :: "'k::linorder \<Rightarrow> 'v \<Rightarrow> ('k \<times> 'v) list \<Rightarrow> ('k \<times> 'v) list" where
  "map_put k v [] = [(k, v)]"
| "map_put k v ((k', v') # xs) = (if k < k' then (k, v) # (k', v') # xs else if k = k' then (k, v) # xs else (k', v') # map_put k v xs)"

record symbol_resolver =
  rs_symbols_ordered :: "(u32, (u32 \<times> symbol_info) list) umap"
  rs_file_lines :: "(u32, (u32, string) umap) umap"
  rs_requests :: "u32 list"

definition symbol_resolver_init :: symbol_resolver where
  "symbol_resolver_init = \<lparr>rs_symbols_ordered = [], rs_file_lines = [], rs_requests = []\<rparr>"

definition metadata_ready :: "u32 \<Rightarrow> module_info_metadata \<Rightarrow> symbol_resolver \<Rightarrow> symbol_resolver" where
  "metadata_ready persistent_id md r =
     (let cached = (case um_find (rs_symbols_ordered r) persistent_id of None \<Rightarrow> [] | Some c \<Rightarrow> c);
          cached = foldl (\<lambda>c j. map_put (sy_rva j) j c) cached (md_symbols md)
      in \<lparr>rs_symbols_ordered = um_assign persistent_id cached (rs_symbols_ordered r),
          rs_file_lines = um_assign persistent_id (md_source_files md) (rs_file_lines r),
          rs_requests = remove1 persistent_id (rs_requests r)\<rparr>)"

definition request_symbols :: "(u32 \<Rightarrow> module_info_metadata option) \<Rightarrow> u32 \<Rightarrow> symbol_resolver \<Rightarrow> symbol_resolver" where
  "request_symbols at_hand persistent_id r =
     (if um_find (rs_symbols_ordered r) persistent_id \<noteq> None \<or> persistent_id \<in> set (rs_requests r) then r
      else let r = r\<lparr>rs_requests := persistent_id # rs_requests r\<rparr>
           in case at_hand persistent_id of None \<Rightarrow> r | Some md \<Rightarrow> metadata_ready persistent_id md r)"

definition find_symbol_by_va ::
  "(u32 \<Rightarrow> module_info_metadata option) \<Rightarrow> (u64 \<times> u32) list \<Rightarrow> u64 \<Rightarrow> symbol_resolver \<Rightarrow> (u32 \<times> symbol_info) option \<times> symbol_resolver" where
  "find_symbol_by_va at_hand mappings address r =
     (case find_range mappings address of
        None \<Rightarrow> (None, r)
      | Some (base, persistent_id) \<Rightarrow>
          let r = request_symbols at_hand persistent_id r
          in (case um_find (rs_symbols_ordered r) persistent_id of
                None \<Rightarrow> (None, r)
              | Some cached \<Rightarrow>
                  let rva = ucast (address - base)
                  in (case find_range cached rva of
                        None \<Rightarrow> (None, r)
                      | Some (_, candidate) \<Rightarrow>
                          (if rva - sy_rva candidate < sy_size candidate then Some (persistent_id, candidate) else None, r))))"

definition symbol_name_by_va :: "(u32 \<Rightarrow> module_info_metadata option) \<Rightarrow> (u64 \<times> u32) list \<Rightarrow> u64 \<Rightarrow> symbol_resolver \<Rightarrow> string \<times> symbol_resolver" where
  "symbol_name_by_va at_hand mappings address r =
     (let (s, r) = find_symbol_by_va at_hand mappings address r in (case s of None \<Rightarrow> '''' | Some (_, symbol) \<Rightarrow> sy_name symbol, r))"

definition symbol_fileline_by_va ::
  "(u32 \<Rightarrow> module_info_metadata option) \<Rightarrow> (u64 \<times> u32) list \<Rightarrow> u64 \<Rightarrow> symbol_resolver \<Rightarrow> (string \<times> u32) option \<times> symbol_resolver" where
  "symbol_fileline_by_va at_hand mappings address r =
     (let (s, r) = find_symbol_by_va at_hand mappings address r
      in (case s of
            None \<Rightarrow> None
          | Some (persistent_id, symbol) \<Rightarrow>
              (case um_find (rs_file_lines r) persistent_id of
                 None \<Rightarrow> None
               | Some files \<Rightarrow> map_option (\<lambda>path. (path, sy_line symbol)) (um_find files (sy_file_id symbol))), r))"

section \<open>Ranges\<close>

lemma sorted_last: "sorted (map f xs) \<Longrightarrow> y \<in> set xs \<Longrightarrow> f y \<le> f (last xs)"
  by (induction xs rule: rev_induct) (auto simp: sorted_append)

lemma find_range_sorted:
  assumes "sorted (map fst c)"
  shows "find_range c v = None \<longleftrightarrow> (\<forall>x\<in>set c. v < fst x)"
    "find_range c v = Some x \<Longrightarrow> x \<in> set c \<and> fst x \<le> v \<and> (\<forall>y\<in>set c. fst y \<le> v \<longrightarrow> fst y \<le> fst x)"
proof -
  let ?t = "takeWhile (\<lambda>x. fst x \<le> v) c"
  have t: "\<forall>y\<in>set ?t. fst y \<le> v" by (auto dest: set_takeWhileD)
  have d: "v < fst y" if "y \<in> set c" "y \<notin> set ?t" for y
  proof -
    have c: "c = ?t @ dropWhile (\<lambda>x. fst x \<le> v) c" by simp
    with that have y: "y \<in> set (dropWhile (\<lambda>x. fst x \<le> v) c)" by (metis Un_iff set_append)
    then obtain z zs where z: "dropWhile (\<lambda>x. fst x \<le> v) c = z # zs" by (cases "dropWhile (\<lambda>x. fst x \<le> v) c") auto
    then have "\<not> fst z \<le> v" using hd_dropWhile [of "\<lambda>x. fst x \<le> v" c] by simp
    moreover have "sorted (map fst (z # zs))" using assms c z by (metis map_append sorted_append)
    then have "fst z \<le> fst y" using y z by auto
    ultimately show ?thesis by simp
  qed
  show "find_range c v = None \<longleftrightarrow> (\<forall>x\<in>set c. v < fst x)"
  proof (cases "?t = []")
    case True
    then have "find_range c v = None" by (simp add: find_range_def)
    moreover have "\<forall>x\<in>set c. v < fst x" using d True by (metis empty_iff empty_set)
    ultimately show ?thesis by simp
  next
    case False
    then obtain x where "x \<in> set ?t" by (cases ?t) auto
    then have "x \<in> set c" "fst x \<le> v" using t by (auto dest: set_takeWhileD)
    then have "\<not> (\<forall>x\<in>set c. v < fst x)" by (meson leD)
    then show ?thesis using False by (simp add: find_range_def)
  qed
  assume "find_range c v = Some x"
  then have ne: "?t \<noteq> []" and x: "x = c ! (length ?t - 1)" by (auto simp: find_range_def Let_def split: if_splits)
  have l: "x = last ?t" using ne unfolding x by (simp add: last_conv_nth takeWhile_nth)
  then have "x \<in> set ?t" using ne by simp
  moreover have "fst y \<le> fst x" if "y \<in> set c" "fst y \<le> v" for y
  proof -
    have y: "y \<in> set ?t" using d that by (meson leD)
    have "sorted (map fst ?t)" using assms by (metis map_append sorted_append takeWhile_dropWhile_id)
    from sorted_last [OF this y] show ?thesis by (simp add: l)
  qed
  ultimately show "x \<in> set c \<and> fst x \<le> v \<and> (\<forall>y\<in>set c. fst y \<le> v \<longrightarrow> fst y \<le> fst x)"
    using t by (auto dest: set_takeWhileD)
qed

lemma find_range_SomeI:
  assumes c: "sorted_wrt (<) (map fst c)" and x: "x \<in> set c" "fst x \<le> v" "\<forall>y\<in>set c. fst y \<le> v \<longrightarrow> fst y \<le> fst x"
  shows "find_range c v = Some x"
proof -
  have s: "sorted (map fst c)" "distinct (map fst c)" using c by (simp_all add: strict_sorted_iff)
  have "find_range c v \<noteq> None" using find_range_sorted(1) [OF s(1)] x(1,2) by (meson leD)
  then obtain y where y: "find_range c v = Some y" by blast
  note f = find_range_sorted(2) [OF s(1) y]
  have "fst y = fst x"
  proof (rule antisym)
    show "fst y \<le> fst x" using f x(3) by blast
    show "fst x \<le> fst y" using f x(1,2) by blast
  qed
  then have "y = x" using f x(1) s(2) by (metis distinct_map inj_onD)
  with y show ?thesis by simp
qed

section \<open>What is cached\<close>

lemma map_put_set: "sorted_wrt (<) (map fst c) \<Longrightarrow> set (map_put k v c) = insert (k, v) {x \<in> set c. fst x \<noteq> k}"
proof (induction c)
  case (Cons x xs)
  obtain k' v' where x: "x = (k', v')" by (cases x)
  have gt: "\<forall>y\<in>set xs. k' < fst y" using Cons.prems by (simp add: x)
  consider "k < k'" | "k = k'" | "k' < k" by (rule linorder_cases)
  then show ?case
  proof cases
    case 1
    then have "\<forall>y\<in>set xs. fst y \<noteq> k" using gt by fastforce
    with 1 show ?thesis by (auto simp: x)
  next
    case 2
    then have "\<forall>y\<in>set xs. fst y \<noteq> k" using gt by fastforce
    with 2 show ?thesis by (auto simp: x)
  next
    case 3
    then have "set (map_put k v xs) = insert (k, v) {x \<in> set xs. fst x \<noteq> k}" using Cons by (simp add: x)
    with 3 show ?thesis by (auto simp: x)
  qed
qed simp

lemma map_put_sorted: "sorted_wrt (<) (map fst c) \<Longrightarrow> sorted_wrt (<) (map fst (map_put k v c))"
proof (induction c)
  case (Cons x xs)
  obtain k' v' where x: "x = (k', v')" by (cases x)
  have gt: "\<forall>y\<in>set xs. k' < fst y" and xs: "sorted_wrt (<) (map fst xs)" using Cons.prems by (simp_all add: x)
  show ?case
  proof (cases "k < k'")
    case True
    then show ?thesis using gt xs by (auto simp: x dest: less_trans)
  next
    case False
    then show ?thesis using gt xs Cons.IH map_put_set [OF xs, of k v] by (auto simp: x)
  qed
qed simp

abbreviation by_rva :: "symbol_info list \<Rightarrow> (u32 \<times> symbol_info) list" where
  "by_rva symbols \<equiv> foldl (\<lambda>c j. map_put (sy_rva j) j c) [] symbols"

lemma by_rva_sorted: "sorted_wrt (<) (map fst (by_rva symbols))"
  by (induction symbols rule: rev_induct) (simp_all add: map_put_sorted)

text \<open>Of several symbols at one offset the last is kept.\<close>

definition last_at_offset :: "symbol_info list \<Rightarrow> symbol_info \<Rightarrow> bool" where
  "last_at_offset symbols s \<longleftrightarrow> (\<exists>before after. symbols = before @ s # after \<and> (\<forall>t\<in>set after. sy_rva t \<noteq> sy_rva s))"

lemma last_at_offset_mem: "last_at_offset symbols s \<Longrightarrow> s \<in> set symbols"
  by (auto simp: last_at_offset_def)

lemma last_at_offset_append:
  "last_at_offset (symbols @ [t]) s \<longleftrightarrow> s = t \<or> last_at_offset symbols s \<and> sy_rva s \<noteq> sy_rva t"
proof (cases "s = t")
  case False
  have "last_at_offset (symbols @ [t]) s" if "symbols = before @ s # after" "\<forall>u\<in>set after. sy_rva u \<noteq> sy_rva s" "sy_rva s \<noteq> sy_rva t" for before after
    unfolding last_at_offset_def using that by (intro exI [of _ before] exI [of _ "after @ [t]"]) auto
  moreover have "last_at_offset symbols s \<and> sy_rva s \<noteq> sy_rva t" if "symbols @ [t] = before @ s # after" "\<forall>u\<in>set after. sy_rva u \<noteq> sy_rva s" for before after
    using that False by (cases after rule: rev_cases) (auto simp: last_at_offset_def)
  ultimately show ?thesis using False unfolding last_at_offset_def by blast
qed (auto simp: last_at_offset_def intro: exI [of _ symbols])

lemma by_rva_append: "set (by_rva (symbols @ [t])) = insert (sy_rva t, t) {x \<in> set (by_rva symbols). fst x \<noteq> sy_rva t}"
  by (simp add: map_put_set [OF by_rva_sorted])

lemma by_rva_mem: "(k, s) \<in> set (by_rva symbols) \<longleftrightarrow> k = sy_rva s \<and> last_at_offset symbols s"
proof (induction symbols arbitrary: k s rule: rev_induct)
  case (snoc t symbols)
  have "(k, s) \<in> set (by_rva (symbols @ [t])) \<longleftrightarrow> (k, s) = (sy_rva t, t) \<or> (k, s) \<in> set (by_rva symbols) \<and> k \<noteq> sy_rva t"
    unfolding by_rva_append by auto
  also have "\<dots> \<longleftrightarrow> k = sy_rva s \<and> (s = t \<or> last_at_offset symbols s \<and> sy_rva s \<noteq> sy_rva t)" unfolding snoc by auto
  finally show ?case unfolding last_at_offset_append .
qed (simp add: last_at_offset_def)

lemma by_rva_keys: "s \<in> set symbols \<Longrightarrow> sy_rva s \<in> fst ` set (by_rva symbols)"
proof (induction symbols rule: rev_induct)
  case (snoc t symbols)
  show ?case
  proof (cases "sy_rva s = sy_rva t")
    case False
    then have "s \<in> set symbols" using snoc.prems by auto
    from snoc.IH [OF this] False show ?thesis unfolding by_rva_append by auto
  qed (simp only: by_rva_append, simp)
qed simp

lemma by_rva_set: "distinct (map sy_rva symbols) \<Longrightarrow> set (by_rva symbols) = (\<lambda>s. (sy_rva s, s)) ` set symbols"
proof (induction symbols rule: rev_induct)
  case (snoc s symbols)
  have "set (by_rva (symbols @ [s])) = insert (sy_rva s, s) {x \<in> (\<lambda>s. (sy_rva s, s)) ` set symbols. fst x \<noteq> sy_rva s}"
    using snoc map_put_set [OF by_rva_sorted] by simp
  also have "{x \<in> (\<lambda>s. (sy_rva s, s)) ` set symbols. fst x \<noteq> sy_rva s} = (\<lambda>s. (sy_rva s, s)) ` set symbols"
    using snoc.prems by (auto simp: image_iff)
  finally show ?case by simp
qed simp

section \<open>The states of a resolver\<close>

text \<open>\<open>md\<close> are the metadata the profiled process has; what is at hand and what comes as an answer are these.\<close>

abbreviation offers :: "(u32 \<Rightarrow> module_info_metadata) \<Rightarrow> (u32 \<Rightarrow> module_info_metadata option) \<Rightarrow> bool" where
  "offers md at_hand \<equiv> \<forall>p m. at_hand p = Some m \<longrightarrow> m = md p"

inductive resolving :: "(u32 \<Rightarrow> module_info_metadata) \<Rightarrow> symbol_resolver \<Rightarrow> bool" for md where
  created: "resolving md symbol_resolver_init"
| looked_up: "resolving md r \<Longrightarrow> offers md at_hand \<Longrightarrow> resolving md (snd (find_symbol_by_va at_hand mappings address r))"
| answered: "resolving md r \<Longrightarrow> p \<in> set (rs_requests r) \<Longrightarrow> resolving md (metadata_ready p (md p) r)"

definition resolver_ok :: "(u32 \<Rightarrow> module_info_metadata) \<Rightarrow> symbol_resolver \<Rightarrow> bool" where
  "resolver_ok md r \<longleftrightarrow> distinct (rs_requests r) \<and>
     (\<forall>p. um_find (rs_symbols_ordered r) p \<in> {None, Some (by_rva (md_symbols (md p)))}) \<and>
     (\<forall>p. um_find (rs_file_lines r) p = (if um_find (rs_symbols_ordered r) p = None then None else Some (md_source_files (md p)))) \<and>
     (\<forall>p\<in>set (rs_requests r). um_find (rs_symbols_ordered r) p = None)"

lemma resolver_okD:
  assumes "resolver_ok md r"
  shows "distinct (rs_requests r)"
    "um_find (rs_symbols_ordered r) p = Some c \<Longrightarrow> c = by_rva (md_symbols (md p))"
    "um_find (rs_symbols_ordered r) p = Some c \<Longrightarrow> um_find (rs_file_lines r) p = Some (md_source_files (md p))"
    "p \<in> set (rs_requests r) \<Longrightarrow> um_find (rs_symbols_ordered r) p = None"
proof -
  have c: "um_find (rs_symbols_ordered r) p \<in> {None, Some (by_rva (md_symbols (md p)))}"
    and f: "um_find (rs_file_lines r) p = (if um_find (rs_symbols_ordered r) p = None then None else Some (md_source_files (md p)))"
    using assms unfolding resolver_ok_def by blast+
  show "distinct (rs_requests r)" using assms by (simp add: resolver_ok_def)
  show "um_find (rs_symbols_ordered r) p = Some c \<Longrightarrow> c = by_rva (md_symbols (md p))" using c by simp
  show "um_find (rs_symbols_ordered r) p = Some c \<Longrightarrow> um_find (rs_file_lines r) p = Some (md_source_files (md p))" using f by simp
  show "p \<in> set (rs_requests r) \<Longrightarrow> um_find (rs_symbols_ordered r) p = None" using assms unfolding resolver_ok_def by blast
qed

lemma metadata_ready_ok:
  assumes "resolver_ok md r" "um_find (rs_symbols_ordered r) p = None"
  shows "resolver_ok md (metadata_ready p (md p) r)"
  using assms unfolding resolver_ok_def metadata_ready_def
  by (simp add: um_find_assign Let_def set_remove1_eq distinct_remove1)

lemma request_symbols_ok:
  assumes "resolver_ok md r" "offers md at_hand"
  shows "resolver_ok md (request_symbols at_hand p r)"
proof (cases "um_find (rs_symbols_ordered r) p \<noteq> None \<or> p \<in> set (rs_requests r)")
  case True
  then show ?thesis using assms(1) by (simp add: request_symbols_def)
next
  case False
  let ?r = "r\<lparr>rs_requests := p # rs_requests r\<rparr>"
  have ok: "resolver_ok md ?r" using assms(1) False by (simp add: resolver_ok_def)
  show ?thesis
  proof (cases "at_hand p")
    case None
    then show ?thesis using ok False by (simp add: request_symbols_def)
  next
    case (Some m)
    then have "m = md p" using assms(2) by blast
    then show ?thesis using metadata_ready_ok [OF ok, of p] False Some by (simp add: request_symbols_def)
  qed
qed

lemma find_symbol_state: "snd (find_symbol_by_va at_hand mappings address r) =
    (case find_range mappings address of None \<Rightarrow> r | Some (base, p) \<Rightarrow> request_symbols at_hand p r)"
  by (simp add: find_symbol_by_va_def Let_def split: option.splits prod.splits)

lemma resolving_ok: "resolving md r \<Longrightarrow> resolver_ok md r"
proof (induction rule: resolving.induct)
  case created
  show ?case by (simp add: resolver_ok_def symbol_resolver_init_def)
next
  case (looked_up r at_hand mappings address)
  then show ?case by (simp add: find_symbol_state request_symbols_ok split: option.splits prod.splits)
next
  case (answered r p)
  then show ?case using metadata_ready_ok resolver_okD(4) by blast
qed

section \<open>Lookups\<close>

text \<open>A symbol ends before the next begins.\<close>

abbreviation laid_out :: "symbol_info list \<Rightarrow> bool" where
  "laid_out symbols \<equiv> distinct (map sy_rva symbols) \<and>
     (\<forall>s\<in>set symbols. \<forall>t\<in>set symbols. sy_rva s < sy_rva t \<longrightarrow> unat (sy_rva s) + unat (sy_size s) \<le> unat (sy_rva t))"

abbreviation covers :: "symbol_info \<Rightarrow> u32 \<Rightarrow> bool" where
  "covers s rva \<equiv> unat (sy_rva s) \<le> unat rva \<and> unat rva < unat (sy_rva s) + unat (sy_size s)"

lemma within: "sy_rva s \<le> rva \<Longrightarrow> rva - sy_rva s < sy_size s \<longleftrightarrow> covers s rva"
  by (simp add: word_less_nat_alt word_le_nat_alt unat_sub) linarith

text \<open>The symbol with the greatest offset not above \<open>rva\<close>.\<close>

definition nearest :: "symbol_info list \<Rightarrow> u32 \<Rightarrow> symbol_info \<Rightarrow> bool" where
  "nearest symbols rva s \<longleftrightarrow> last_at_offset symbols s \<and> sy_rva s \<le> rva \<and> (\<forall>t\<in>set symbols. sy_rva t \<le> rva \<longrightarrow> sy_rva t \<le> sy_rva s)"

lemma find_nearest: "(\<exists>x. find_range (by_rva symbols) rva = Some (x, s)) \<longleftrightarrow> nearest symbols rva s"
proof
  have srt: "sorted (map fst (by_rva symbols))" using by_rva_sorted by (simp add: strict_sorted_iff)
  assume "\<exists>x. find_range (by_rva symbols) rva = Some (x, s)"
  then obtain x where f: "find_range (by_rva symbols) rva = Some (x, s)" by blast
  from find_range_sorted(2) [OF srt f] have x: "(x, s) \<in> set (by_rva symbols)" "x \<le> rva" "\<forall>y\<in>set (by_rva symbols). fst y \<le> rva \<longrightarrow> fst y \<le> x" by auto
  from x(1) have "x = sy_rva s" "last_at_offset symbols s" by (simp_all only: by_rva_mem)
  moreover have "sy_rva t \<le> x" if "t \<in> set symbols" "sy_rva t \<le> rva" for t
  proof -
    from by_rva_keys [OF that(1)] obtain y where y: "y \<in> set (by_rva symbols)" "sy_rva t = fst y" by blast
    from x(3) [rule_format, OF y(1)] y(2) that(2) show ?thesis by simp
  qed
  ultimately show "nearest symbols rva s" using x(2) unfolding nearest_def by simp
next
  assume n: "nearest symbols rva s"
  have "find_range (by_rva symbols) rva = Some (sy_rva s, s)"
  proof (rule find_range_SomeI [OF by_rva_sorted])
    show "(sy_rva s, s) \<in> set (by_rva symbols)" unfolding by_rva_mem using n by (simp only: nearest_def)
    show "fst (sy_rva s, s) \<le> rva" using n by (simp add: nearest_def)
    have "sy_rva t \<le> sy_rva s" if "(k, t) \<in> set (by_rva symbols)" "k \<le> rva" for k t
    proof -
      from that(1) have "k = sy_rva t" "t \<in> set symbols" unfolding by_rva_mem by (simp_all add: last_at_offset_mem)
      then show ?thesis using n that(2) unfolding nearest_def by blast
    qed
    then show "\<forall>y\<in>set (by_rva symbols). fst y \<le> rva \<longrightarrow> fst y \<le> fst (sy_rva s, s)" using by_rva_mem by force
  qed
  then show "\<exists>x. find_range (by_rva symbols) rva = Some (x, s)" by blast
qed

lemma symbol_at:
  assumes "laid_out symbols"
  shows "(\<exists>x. find_range (by_rva symbols) rva = Some (x, s) \<and> rva - sy_rva s < sy_size s) \<longleftrightarrow> s \<in> set symbols \<and> covers s rva"
proof
  have srt: "sorted (map fst (by_rva symbols))" using by_rva_sorted by (simp add: strict_sorted_iff)
  have set: "set (by_rva symbols) = (\<lambda>s. (sy_rva s, s)) ` set symbols" using assms by_rva_set by blast
  assume "\<exists>x. find_range (by_rva symbols) rva = Some (x, s) \<and> rva - sy_rva s < sy_size s"
  then obtain x where f: "find_range (by_rva symbols) rva = Some (x, s)" and lt: "rva - sy_rva s < sy_size s" by blast
  from find_range_sorted(2) [OF srt f] have "s \<in> set symbols" "sy_rva s \<le> rva" by (auto simp: set)
  with lt show "s \<in> set symbols \<and> covers s rva" by (simp only: within)
next
  assume s: "s \<in> set symbols \<and> covers s rva"
  then have le: "sy_rva s \<le> rva" by (simp add: word_le_nat_alt)
  have "sy_rva t \<le> sy_rva s" if t: "t \<in> set symbols" "sy_rva t \<le> rva" for t
  proof (rule ccontr)
    assume "\<not> sy_rva t \<le> sy_rva s"
    then have "unat (sy_rva s) + unat (sy_size s) \<le> unat (sy_rva t)" using assms s t(1) by simp
    then show False using s t(2) by (simp add: word_le_nat_alt)
  qed
  then have "find_range (by_rva symbols) rva = Some (sy_rva s, s)"
    using by_rva_set s le assms by (intro find_range_SomeI by_rva_sorted) auto
  then show "\<exists>x. find_range (by_rva symbols) rva = Some (x, s) \<and> rva - sy_rva s < sy_size s"
    using within [OF le] s by blast
qed

lemma request_symbols_cached:
  assumes "resolver_ok md r" "offers md at_hand"
  shows "um_find (rs_symbols_ordered (request_symbols at_hand p r)) p =
      (if um_find (rs_symbols_ordered r) p \<noteq> None \<or> p \<notin> set (rs_requests r) \<and> at_hand p \<noteq> None then Some (by_rva (md_symbols (md p))) else None)"
    "um_find (rs_symbols_ordered (request_symbols at_hand p r)) p = None \<Longrightarrow> p \<in> set (rs_requests (request_symbols at_hand p r))"
proof (atomize (full), cases "um_find (rs_symbols_ordered r) p")
  case None
  show "um_find (rs_symbols_ordered (request_symbols at_hand p r)) p =
      (if um_find (rs_symbols_ordered r) p \<noteq> None \<or> p \<notin> set (rs_requests r) \<and> at_hand p \<noteq> None then Some (by_rva (md_symbols (md p))) else None) \<and>
    (um_find (rs_symbols_ordered (request_symbols at_hand p r)) p = None \<longrightarrow> p \<in> set (rs_requests (request_symbols at_hand p r)))"
  proof (cases "at_hand p")
    case (Some m)
    then have "m = md p" using assms(2) by blast
    then show ?thesis using None Some by (simp add: request_symbols_def metadata_ready_def um_find_assign Let_def)
  qed (use None in \<open>simp add: request_symbols_def\<close>)
next
  case (Some c)
  then show "um_find (rs_symbols_ordered (request_symbols at_hand p r)) p =
      (if um_find (rs_symbols_ordered r) p \<noteq> None \<or> p \<notin> set (rs_requests r) \<and> at_hand p \<noteq> None then Some (by_rva (md_symbols (md p))) else None) \<and>
    (um_find (rs_symbols_ordered (request_symbols at_hand p r)) p = None \<longrightarrow> p \<in> set (rs_requests (request_symbols at_hand p r)))"
    using resolver_okD(2) [OF assms(1) Some] by (simp add: request_symbols_def)
qed

lemma rva_of:
  fixes address base :: u64
  assumes "base \<le> address" "unat address - unat base < 2 ^ 32"
  shows "unat (ucast (address - base) :: u32) = unat address - unat base"
  using assms by (simp add: unsigned_ucast_eq unsigned_take_bit_eq take_bit_eq_mod unat_sub word_le_nat_alt)

text \<open>
  C24. What a lookup finds, in every state a resolver gets to by lookups and by answers to its requests. Nothing, where no module has its base
  at or below the address. Otherwise the module is the one with the greatest such base. Its metadata are known if they came before, or are at hand and
  no request for them is under way; while they are not known nothing is found and a request is under way. When they are, the symbol
  found is the one with the greatest offset not above that of the address, cut to 32 bits, the last listed if there are several, if the
  address is before its end, and nothing otherwise. Where symbols do not overlap and the address is within 4 GB of the base, that is exactly the
  symbol whose range \<^verbatim>\<open>[base + rva, base + rva + size)\<close> has the address.
\<close>

theorem symbols_are_resolved:
  fixes address :: u64
  assumes "resolving md r" "offers md at_hand" "sorted_wrt (<) (map fst mappings)"
  defines "found \<equiv> fst (find_symbol_by_va at_hand mappings address r)" and "r' \<equiv> snd (find_symbol_by_va at_hand mappings address r)"
  shows "((\<forall>m\<in>set mappings. address < fst m) \<longrightarrow> found = None \<and> r' = r) \<and>
    (\<forall>base p. (base, p) \<in> set mappings \<and> base \<le> address \<and> (\<forall>m\<in>set mappings. fst m \<le> address \<longrightarrow> fst m \<le> base) \<longrightarrow>
      (if um_find (rs_symbols_ordered r) p \<noteq> None \<or> p \<notin> set (rs_requests r) \<and> at_hand p \<noteq> None
       then (\<forall>q s. found = Some (q, s) \<longleftrightarrow> q = p \<and> nearest (md_symbols (md p)) (ucast (address - base)) s \<and>
                unat (address - base) mod 2 ^ 32 < unat (sy_rva s) + unat (sy_size s)) \<and>
            (laid_out (md_symbols (md p)) \<and> unat address - unat base < 2 ^ 32 \<longrightarrow>
              (\<forall>q s. found = Some (q, s) \<longleftrightarrow> q = p \<and> s \<in> set (md_symbols (md p)) \<and>
                unat base + unat (sy_rva s) \<le> unat address \<and> unat address < unat base + unat (sy_rva s) + unat (sy_size s)))
       else found = None \<and> p \<in> set (rs_requests r')))"
proof -
  have s: "sorted (map fst mappings)" using assms(3) by (simp add: strict_sorted_iff)
  have none: "found = None \<and> r' = r" if "\<forall>m\<in>set mappings. address < fst m"
    using that find_range_sorted(1) [OF s, of address] by (simp add: found_def r'_def find_symbol_by_va_def)
  have "if um_find (rs_symbols_ordered r) p \<noteq> None \<or> p \<notin> set (rs_requests r) \<and> at_hand p \<noteq> None
       then (\<forall>q s. found = Some (q, s) \<longleftrightarrow> q = p \<and> nearest (md_symbols (md p)) (ucast (address - base)) s \<and>
                unat (address - base) mod 2 ^ 32 < unat (sy_rva s) + unat (sy_size s)) \<and>
            (laid_out (md_symbols (md p)) \<and> unat address - unat base < 2 ^ 32 \<longrightarrow>
              (\<forall>q s. found = Some (q, s) \<longleftrightarrow> q = p \<and> s \<in> set (md_symbols (md p)) \<and>
                unat base + unat (sy_rva s) \<le> unat address \<and> unat address < unat base + unat (sy_rva s) + unat (sy_size s)))
       else found = None \<and> p \<in> set (rs_requests r')"
    if b: "(base, p) \<in> set mappings" "base \<le> address" "\<forall>m\<in>set mappings. fst m \<le> address \<longrightarrow> fst m \<le> base" for base p
  proof -
    let ?rva = "ucast (address - base) :: u32" and ?symbols = "md_symbols (md p)"
    have m: "find_range mappings address = Some (base, p)" using assms(3) b by (intro find_range_SomeI) simp_all
    note c = request_symbols_cached [OF resolving_ok [OF assms(1)] assms(2), of p]
    have r': "r' = request_symbols at_hand p r" by (simp add: r'_def find_symbol_state m)
    show ?thesis
    proof (cases "um_find (rs_symbols_ordered r) p \<noteq> None \<or> p \<notin> set (rs_requests r) \<and> at_hand p \<noteq> None")
      case True
      then have "um_find (rs_symbols_ordered (request_symbols at_hand p r)) p = Some (by_rva ?symbols)" using c(1) by simp
      then have f: "found = Some (q, s) \<longleftrightarrow> q = p \<and> (\<exists>x. find_range (by_rva ?symbols) ?rva = Some (x, s) \<and> ?rva - sy_rva s < sy_size s)" for q s
        by (auto simp: found_def find_symbol_by_va_def m Let_def split: option.splits prod.splits if_splits)
      have "(\<exists>x. find_range (by_rva ?symbols) ?rva = Some (x, s) \<and> ?rva - sy_rva s < sy_size s) \<longleftrightarrow>
          nearest ?symbols ?rva s \<and> unat (address - base) mod 2 ^ 32 < unat (sy_rva s) + unat (sy_size s)" for s
      proof -
        have "unat ?rva = unat (address - base) mod 2 ^ 32" by (simp add: unsigned_ucast_eq unsigned_take_bit_eq take_bit_eq_mod)
        then have "?rva - sy_rva s < sy_size s \<longleftrightarrow> unat (address - base) mod 2 ^ 32 < unat (sy_rva s) + unat (sy_size s)" if "sy_rva s \<le> ?rva"
          using within [OF that] that by (simp add: word_le_nat_alt)
        then show ?thesis using find_nearest [of ?symbols ?rva s] unfolding nearest_def by blast
      qed
      moreover have "(\<exists>x. find_range (by_rva ?symbols) ?rva = Some (x, s) \<and> ?rva - sy_rva s < sy_size s) \<longleftrightarrow>
          s \<in> set ?symbols \<and> unat base + unat (sy_rva s) \<le> unat address \<and> unat address < unat base + unat (sy_rva s) + unat (sy_size s)"
        if l: "laid_out ?symbols" "unat address - unat base < 2 ^ 32" for s
      proof -
        have "covers s ?rva \<longleftrightarrow> unat base + unat (sy_rva s) \<le> unat address \<and> unat address < unat base + unat (sy_rva s) + unat (sy_size s)"
          using b(2) by (simp only: rva_of [OF b(2) l(2)] word_le_nat_alt) linarith
        then show ?thesis using symbol_at [OF l(1), of ?rva s] by blast
      qed
      ultimately show ?thesis using True by (simp add: f)
    next
      case False
      then have n: "um_find (rs_symbols_ordered (request_symbols at_hand p r)) p = None" using c(1) by simp
      then have "found = None" by (simp add: found_def find_symbol_by_va_def m Let_def)
      then show ?thesis using c(2) [OF n] False r' by auto
    qed
  qed
  with none show ?thesis by blast
qed

theorem symbols_are_resolved_witness:
  "fst (find_symbol_by_va
      (\<lambda>p. Some \<lparr>md_symbols = [\<lparr>sy_name = ''f'', sy_rva = 16, sy_size = 8, sy_file_id = 1, sy_line = 10\<rparr>,
                             \<lparr>sy_name = ''g'', sy_rva = 32, sy_size = 16, sy_file_id = 1, sy_line = 20\<rparr>], md_source_files = []\<rparr>)
      [(4096, 1), (65536, 2)] 4135 symbol_resolver_init) =
    Some (1, \<lparr>sy_name = ''g'', sy_rva = 32, sy_size = 16, sy_file_id = 1, sy_line = 20\<rparr>)"
proof -
  let ?m = "\<lparr>md_symbols = [\<lparr>sy_name = ''f'', sy_rva = 16, sy_size = 8, sy_file_id = 1, sy_line = 10\<rparr>,
                           \<lparr>sy_name = ''g'', sy_rva = 32, sy_size = 16, sy_file_id = 1, sy_line = 20\<rparr>], md_source_files = []\<rparr>"
  have "resolving (\<lambda>p. ?m) symbol_resolver_init" by (rule resolving.created)
  note w = symbols_are_resolved [OF this, of "\<lambda>p. Some ?m" "[(4096, 1), (65536, 2)]" 4135, THEN conjunct2, rule_format, of 4096 1]
  let ?g = "\<lparr>sy_name = ''g'', sy_rva = 32, sy_size = 16, sy_file_id = 1, sy_line = 20\<rparr>"
  have known: "um_find (rs_symbols_ordered symbol_resolver_init) 1 \<noteq> None \<or> 1 \<notin> set (rs_requests symbol_resolver_init) \<and> Some ?m \<noteq> None"
    by (simp add: symbol_resolver_init_def)
  show ?thesis by (rule w [unfolded if_P [OF known], THEN conjunct2, rule_format, of 1 ?g, THEN iffD2]) (auto simp: symbol_resolver_init_def)
qed

text \<open>The offset into a module is cut to 32 bits: 4 GB past the last base the symbols come again.\<close>

lemma far_addresses_alias:
  assumes "find_range mappings address = Some (base, p)" "find_range mappings (address + 2 ^ 32) = Some (base, p)"
  shows "find_symbol_by_va at_hand mappings (address + 2 ^ 32) r = find_symbol_by_va at_hand mappings address r"
proof -
  have u: "unat (ucast x :: u32) = unat x mod 2 ^ 32" for x :: u64
    by (simp add: unsigned_ucast_eq unsigned_take_bit_eq take_bit_eq_mod)
  have "unat (address + 2 ^ 32 - base) mod 2 ^ 32 = unat ((address - base) + 2 ^ 32) mod 2 ^ 32" by (simp add: algebra_simps)
  also have "\<dots> = (unat (address - base) + 2 ^ 32) mod 2 ^ 64 mod 2 ^ 32" by (simp add: unat_word_ariths)
  also have "\<dots> = unat (address - base) mod 2 ^ 32" by (simp add: mod_mod_cancel)
  finally have "(ucast (address + 2 ^ 32 - base) :: u32) = ucast (address - base)"
    unfolding u [symmetric] by (simp only: word_unat_eq_iff)
  then show ?thesis unfolding find_symbol_by_va_def assms option.case prod.case by (simp only:)
qed

lemma fileline_by_va:
  assumes "resolving md r" "offers md at_hand" "find_symbol_by_va at_hand mappings address r = (Some (p, s), r')"
  shows "symbol_fileline_by_va at_hand mappings address r =
    (map_option (\<lambda>path. (path, sy_line s)) (um_find (md_source_files (md p)) (sy_file_id s)), r')"
proof -
  have ok: "resolver_ok md r'" using resolving_ok [OF resolving.looked_up [OF assms(1,2), of mappings address]] assms(3) by simp
  have "um_find (rs_symbols_ordered r') p \<noteq> None"
    using assms(3) by (auto simp: find_symbol_by_va_def Let_def split: option.splits prod.splits if_splits)
  then show ?thesis using resolver_okD(3) [OF ok, of p] assms(3) by (auto simp: symbol_fileline_by_va_def)
qed

end
