(* ===== verification/Frontend_Session.thy ===== *)
theory Frontend_Session
  imports Symbol_Resolver Multiplexing Strings
begin

text \<open>
  The frontend's side of a session: requests of metadata, which come from the table of modules, a file or the collector
  (\<^verbatim>\<open>frontend/src/frontend_metadata.cpp\<close>), and the end of a session (\<^verbatim>\<open>finalize\<close> of \<^verbatim>\<open>frontend/src/frontend.cpp\<close>),
  over the multiplexed requests of \<^verbatim>\<open>Multiplexing\<close>. A request for metadata is known by its node. The one who asks is the finalization, which keeps
  its handles, or another, who gives its handle back when called, as the resolver of symbols does. What a file has, or that there is
  none, and what the collector answers are arguments of the steps.
\<close>

section \<open>Metadata\<close>

datatype ready_cb = Other | Finalizing nat

text \<open>What the multiplexed request of a module is doing: reading a file, or waiting for the collector (with the file to write).\<close>

datatype underlying = Reading string | Asked "string option"

record finalization =
  fz_remaining :: u32
  fz_enable :: bool
  fz_requested :: "u32 list"

record frontend =
  fe_modules :: "(u32, module_info_metadata) umap"
  fe_cache_paths :: "(u32, string) umap"
  fe_mx :: "(u32, ready_cb) mx_map"
  fe_nodes :: nat
  fe_underlying :: "(u32, underlying) umap"
  fe_finals :: "finalization list"
  fe_disconnects :: nat
  fe_stored :: "(string \<times> module_info_metadata) list"
  fe_called :: "(u32 \<times> nat \<times> ready_cb \<times> module_info_metadata) list"
  fe_begun :: "u32 list"
  fe_abandoned :: "u32 list"

definition frontend_init :: frontend where
  "frontend_init = \<lparr>fe_modules = [], fe_cache_paths = [], fe_mx = [], fe_nodes = 0, fe_underlying = [], fe_finals = [], fe_disconnects = 0,
     fe_stored = [], fe_called = [], fe_begun = [], fe_abandoned = []\<rparr>"

text \<open>
  The underlying requests that were begun, and those that went with the last handle before they had an answer, are kept: each began with
  reading a file or with a message to the collector.
\<close>

text \<open>A handle given back; with the last one the underlying request goes.\<close>

definition release_handle :: "u32 \<Rightarrow> nat \<Rightarrow> frontend \<Rightarrow> frontend" where
  "release_handle persistent_id node fe =
     (let mx = destroy_inner persistent_id node (fe_mx fe); last = (um_find mx persistent_id = None)
      in fe\<lparr>fe_mx := mx, fe_underlying := (if last then um_erase persistent_id (fe_underlying fe) else fe_underlying fe),
            fe_abandoned := (if last \<and> um_find (fe_underlying fe) persistent_id \<noteq> None then fe_abandoned fe @ [persistent_id] else fe_abandoned fe)\<rparr>)"

definition finalization_ready :: "nat \<Rightarrow> frontend \<Rightarrow> frontend" where
  "finalization_ready k fe =
     (let f = fe_finals fe ! k; f = f\<lparr>fz_remaining := fz_remaining f - 1\<rparr>
      in fe\<lparr>fe_finals := (fe_finals fe)[k := f],
            fe_disconnects := (if fz_remaining f = 0 \<and> fz_enable f then fe_disconnects fe + 1 else fe_disconnects fe)\<rparr>)"

definition call_ready :: "u32 \<Rightarrow> nat \<Rightarrow> ready_cb \<Rightarrow> module_info_metadata \<Rightarrow> frontend \<Rightarrow> frontend" where
  "call_ready persistent_id node ready m fe =
     (let fe = fe\<lparr>fe_called := fe_called fe @ [(persistent_id, node, ready, m)]\<rparr>
      in case ready of Other \<Rightarrow> release_handle persistent_id node fe | Finalizing k \<Rightarrow> finalization_ready k fe)"

fun invoke_from :: "nat \<Rightarrow> nat \<Rightarrow> u32 \<Rightarrow> module_info_metadata \<Rightarrow> frontend \<Rightarrow> frontend" where
  "invoke_from 0 i persistent_id m fe = fe"
| "invoke_from (Suc n) i persistent_id m fe =
     (let node = fst (mx_callbacks (mx_of (fe_mx fe) persistent_id) ! i);
          fe = (case invoke_at persistent_id i (fe_mx fe) of None \<Rightarrow> fe | Some ready \<Rightarrow> call_ready persistent_id node ready m fe)
      in invoke_from n (i + 1) persistent_id m fe)"

definition mx_invoke :: "u32 \<Rightarrow> module_info_metadata \<Rightarrow> frontend \<Rightarrow> frontend" where
  "mx_invoke persistent_id m fe =
     (let fe = fe\<lparr>fe_mx := enter_invocation persistent_id (fe_mx fe)\<rparr>;
          fe = invoke_from (length (mx_callbacks (mx_of (fe_mx fe) persistent_id))) 0 persistent_id m fe;
          mx = exit_invocation persistent_id (fe_mx fe)
      in fe\<lparr>fe_mx := mx, fe_underlying := um_erase persistent_id (fe_underlying fe)\<rparr>)"

definition request_metadata_nw :: "u32 \<Rightarrow> string option \<Rightarrow> frontend \<Rightarrow> frontend" where
  "request_metadata_nw persistent_id store fe = fe\<lparr>fe_underlying := um_assign persistent_id (Asked store) (fe_underlying fe)\<rparr>"

definition request_metadata_nw_cached :: "u32 \<Rightarrow> frontend \<Rightarrow> frontend" where
  "request_metadata_nw_cached persistent_id fe =
     (let fe = fe\<lparr>fe_begun := fe_begun fe @ [persistent_id]\<rparr>
      in case um_find (fe_cache_paths fe) persistent_id of
        None \<Rightarrow> request_metadata_nw persistent_id None fe
      | Some cache_path \<Rightarrow> fe\<lparr>fe_underlying := um_assign persistent_id (Reading cache_path) (fe_underlying fe)\<rparr>)"

definition request_metadata :: "u32 \<Rightarrow> ready_cb \<Rightarrow> frontend \<Rightarrow> frontend" where
  "request_metadata persistent_id ready fe =
     (let node = fe_nodes fe;
          (underlying, mx) = mx_create persistent_id node ready (fe_mx fe);
          fe = fe\<lparr>fe_mx := mx, fe_nodes := node + 1\<rparr>
      in case um_find (fe_modules fe) persistent_id of
           Some m \<Rightarrow> call_ready persistent_id node ready m fe
         | None \<Rightarrow> if underlying then request_metadata_nw_cached persistent_id fe else fe)"

definition metadata_read :: "u32 \<Rightarrow> string \<Rightarrow> module_info_metadata option \<Rightarrow> frontend \<Rightarrow> frontend" where
  "metadata_read persistent_id cache_path m fe =
     (case m of
        Some m \<Rightarrow> mx_invoke persistent_id m (fe\<lparr>fe_modules := um_assign persistent_id m (fe_modules fe)\<rparr>)
      | None \<Rightarrow> request_metadata_nw persistent_id (Some cache_path) fe)"

definition metadata_received :: "u32 \<Rightarrow> string option \<Rightarrow> module_info_metadata \<Rightarrow> frontend \<Rightarrow> frontend" where
  "metadata_received persistent_id store m fe =
     (let fe = fe\<lparr>fe_modules := um_assign persistent_id m (fe_modules fe)\<rparr>;
          fe = (case store of None \<Rightarrow> fe | Some cache_path \<Rightarrow> fe\<lparr>fe_stored := fe_stored fe @ [(cache_path, m)]\<rparr>)
      in mx_invoke persistent_id m fe)"

section \<open>The end of a session\<close>

definition finalize_entry :: "(u64 \<times> u32) list \<Rightarrow> nat \<Rightarrow> u64 \<Rightarrow> frontend \<Rightarrow> frontend" where
  "finalize_entry mappings k address fe =
     (case find_range mappings address of
        None \<Rightarrow> fe
      | Some (_, persistent_id) \<Rightarrow>
          let f = fe_finals fe ! k
          in if persistent_id \<in> set (fz_requested f) then fe
             else request_metadata persistent_id (Finalizing k)
                    (fe\<lparr>fe_finals := (fe_finals fe)[k := f\<lparr>fz_requested := persistent_id # fz_requested f, fz_remaining := fz_remaining f + 1\<rparr>]\<rparr>))"

definition finalize :: "(u64 \<times> u32) list \<Rightarrow> u64 list \<Rightarrow> frontend \<Rightarrow> frontend" where
  "finalize mappings addresses fe =
     (let k = length (fe_finals fe);
          fe = fe\<lparr>fe_finals := fe_finals fe @ [\<lparr>fz_remaining = 0, fz_enable = False, fz_requested = []\<rparr>]\<rparr>;
          fe = fold (finalize_entry mappings k) addresses fe;
          f = fe_finals fe ! k
      in if fz_remaining f = 0 then fe\<lparr>fe_disconnects := fe_disconnects fe + 1\<rparr>
         else fe\<lparr>fe_finals := (fe_finals fe)[k := f\<lparr>fz_enable := True\<rparr>]\<rparr>)"

text \<open>The name of the file with the metadata of a module.\<close>

definition construct_cache_path :: "string \<Rightarrow> string \<Rightarrow> u32 \<Rightarrow> string option" where
  "construct_cache_path cache_directory path hash =
     map_option (\<lambda>h. path_join cache_directory (path_file path) @ ''-'' @ h @ ''.symcache'') (itoa_unsigned 16 32 (unat hash) 8 CHR ''0'')"

text \<open>A new mapping of a module gives its file a name.\<close>

definition mapping_created :: "u32 \<Rightarrow> string \<Rightarrow> frontend \<Rightarrow> frontend" where
  "mapping_created persistent_id cache_path fe = fe\<lparr>fe_cache_paths := um_assign persistent_id cache_path (fe_cache_paths fe)\<rparr>"

section \<open>Invocations\<close>

abbreviation callbacks_of :: "u32 \<Rightarrow> frontend \<Rightarrow> (nat \<times> ready_cb option) list" where
  "callbacks_of p fe \<equiv> mx_callbacks (mx_of (fe_mx fe) p)"

text \<open>Between events no invocation is under way and no callback is empty.\<close>

definition calm :: "'c multiplexing_request \<Rightarrow> bool" where
  "calm mx \<longleftrightarrow> \<not> mx_in_progress mx \<and> \<not> mx_require_cleanup mx \<and> mx_callbacks mx \<noteq> [] \<and> distinct (map fst (mx_callbacks mx)) \<and>
     (\<forall>c\<in>snd ` set (mx_callbacks mx). c \<noteq> None)"

definition answer :: "u32 \<Rightarrow> module_info_metadata \<Rightarrow> nat \<times> ready_cb option \<Rightarrow> frontend \<Rightarrow> frontend" where
  "answer p m x fe =
     (case snd x of
        None \<Rightarrow> fe
      | Some c \<Rightarrow>
          let fe = fe\<lparr>fe_called := fe_called fe @ [(p, fst x, c, m)]\<rparr> in case c of Other \<Rightarrow> fe | Finalizing k \<Rightarrow> finalization_ready k fe)"

definition cleared :: "nat \<times> ready_cb option \<Rightarrow> nat \<times> ready_cb option" where
  "cleared x = (if snd x = Some Other then (fst x, None) else x)"

lemma answer_mx: "answer p m x (fe\<lparr>fe_mx := M\<rparr>) = (answer p m x fe)\<lparr>fe_mx := M\<rparr>"
  by (auto simp: answer_def finalization_ready_def Let_def split: option.splits ready_cb.splits)

lemma answer_fields [simp]:
  "fe_mx (answer p m x fe) = fe_mx fe" "fe_underlying (answer p m x fe) = fe_underlying fe" "fe_modules (answer p m x fe) = fe_modules fe"
  "fe_nodes (answer p m x fe) = fe_nodes fe" "fe_cache_paths (answer p m x fe) = fe_cache_paths fe"
  "fe_begun (answer p m x fe) = fe_begun fe" "fe_abandoned (answer p m x fe) = fe_abandoned fe"
  by (auto simp: answer_def finalization_ready_def Let_def split: option.splits ready_cb.splits)

lemma fold_answer_fields [simp]:
  "fe_mx (fold (answer p m) xs fe) = fe_mx fe" "fe_underlying (fold (answer p m) xs fe) = fe_underlying fe"
  "fe_modules (fold (answer p m) xs fe) = fe_modules fe" "fe_nodes (fold (answer p m) xs fe) = fe_nodes fe"
  "fe_cache_paths (fold (answer p m) xs fe) = fe_cache_paths fe" "fe_begun (fold (answer p m) xs fe) = fe_begun fe"
  "fe_abandoned (fold (answer p m) xs fe) = fe_abandoned fe"
  by (induction xs arbitrary: fe) simp_all

lemma mark_none:
  assumes "distinct (map fst (xs @ x # ys))" "snd x = Some Other"
  shows "map (\<lambda>(n, c). (n, if n = fst x then None else c)) (map cleared xs @ x # ys) = map cleared xs @ cleared x # ys"
proof -
  let ?f = "\<lambda>(n, c). (n, if n = fst x then None else c)"
  have ne: "fst z \<noteq> fst x" if "z \<in> set xs \<union> set ys" for z using assms(1) that by (auto simp: image_iff)
  have id: "?f z = z" if "fst z \<noteq> fst x" for z :: "nat \<times> ready_cb option" using that by (cases z) simp
  have "map ?f (map cleared xs) = map cleared xs"
  proof (rule map_idI)
    fix z assume "z \<in> set (map cleared xs)"
    then obtain w where w: "w \<in> set xs" "z = cleared w" by auto
    then have "fst z \<noteq> fst x" using ne [of w] by (simp add: cleared_def)
    then show "?f z = z" by (rule id)
  qed
  moreover have "map ?f ys = ys" using ne id by (intro map_idI) blast
  moreover have "?f x = cleared x" using assms(2) by (cases x) (simp add: cleared_def)
  ultimately show ?thesis by (simp only: map_append list.map)
qed

lemma invoke_from_answers:
  assumes "um_find (fe_mx fe) p = Some mx" "mx_in_progress mx" "mx_callbacks mx = map cleared xs @ ys"
    and "distinct (map fst (xs @ ys))" "\<forall>c\<in>snd ` set ys. c \<noteq> None"
  shows "\<exists>b. invoke_from (length ys) (length xs) p m fe =
    (fold (answer p m) ys fe)\<lparr>fe_mx := um_assign p (mx\<lparr>mx_callbacks := map cleared (xs @ ys), mx_require_cleanup := b\<rparr>) (fe_mx fe)\<rparr> \<and>
    (b \<longleftrightarrow> mx_require_cleanup mx \<or> Some Other \<in> snd ` set ys)"
  using assms
proof (induction ys arbitrary: fe mx xs)
  case Nil
  have "mx\<lparr>mx_callbacks := map cleared xs, mx_require_cleanup := mx_require_cleanup mx\<rparr> = mx" using Nil.prems(3) by simp
  then show ?case using um_assign_same [OF Nil.prems(1)] by (intro exI [of _ "mx_require_cleanup mx"]) simp
next
  case (Cons y ys)
  obtain c where c: "snd y = Some c" using Cons.prems(5) by (cases "snd y") auto
  have nth: "mx_callbacks (mx_of (fe_mx fe) p) ! length xs = y"
    using Cons.prems(1,3) by (simp add: mx_of_def nth_append)
  have at: "invoke_at p (length xs) (fe_mx fe) = Some c"
    using Cons.prems(1,3) c by (simp add: invoke_at_def nth_append)
  let ?fe = "call_ready p (fst y) c m fe"
  have step: "invoke_from (length (y # ys)) (length xs) p m fe = invoke_from (length ys) (length (xs @ [y])) p m ?fe"
    by (simp add: nth at)
  let ?mx = "mx\<lparr>mx_callbacks := map cleared (xs @ [y]) @ ys, mx_require_cleanup := mx_require_cleanup mx \<or> c = Other\<rparr>"
  have fe: "?fe = (answer p m y fe)\<lparr>fe_mx := um_assign p ?mx (fe_mx fe)\<rparr>"
  proof (cases c)
    case Other
    have "destroy_inner p (fst y) (fe_mx fe) = um_assign p ?mx (fe_mx fe)"
      unfolding destroy_inner_def Cons.prems(1,3) option.case mark_none [OF Cons.prems(4) c [unfolded Other]]
      using Cons.prems(2) Other by simp
    then show ?thesis using Other c by (simp add: call_ready_def answer_def release_handle_def um_find_assign Let_def)
  next
    case (Finalizing k)
    have "?mx = mx" using Cons.prems(3) c Finalizing by (simp add: cleared_def)
    then have "um_assign p ?mx (fe_mx fe) = fe_mx fe" using um_assign_same [OF Cons.prems(1)] by simp
    then show ?thesis using Finalizing c by (simp add: call_ready_def answer_def finalization_ready_def Let_def)
  qed
  have 1: "um_find (fe_mx ?fe) p = Some ?mx" unfolding fe by (simp add: um_find_assign)
  from Cons.IH [OF 1, of "xs @ [y]"] Cons.prems(2,4,5) obtain b where
    b: "invoke_from (length ys) (length (xs @ [y])) p m ?fe = (fold (answer p m) ys ?fe)\<lparr>fe_mx := um_assign p (?mx\<lparr>mx_callbacks := map cleared ((xs @ [y]) @ ys), mx_require_cleanup := b\<rparr>) (fe_mx ?fe)\<rparr>"
      "b \<longleftrightarrow> mx_require_cleanup ?mx \<or> Some Other \<in> snd ` set ys" by auto
  have f: "fold (answer p m) ys (fe'\<lparr>fe_mx := M\<rparr>) = (fold (answer p m) ys fe')\<lparr>fe_mx := M\<rparr>" for fe' M
    by (induction ys arbitrary: fe') (simp_all add: answer_mx)
  have "invoke_from (length (y # ys)) (length xs) p m fe =
    (fold (answer p m) (y # ys) fe)\<lparr>fe_mx := um_assign p (mx\<lparr>mx_callbacks := map cleared (xs @ y # ys), mx_require_cleanup := b\<rparr>) (fe_mx fe)\<rparr>"
    unfolding step b(1) unfolding fe f by (simp add: um_assign_assign)
  moreover have "b \<longleftrightarrow> mx_require_cleanup mx \<or> Some Other \<in> snd ` set (y # ys)" using b(2) c by auto
  ultimately show ?case by blast
qed

definition kept :: "(nat \<times> ready_cb option) list \<Rightarrow> (nat \<times> ready_cb option) list" where
  "kept cs = filter (\<lambda>x. snd x \<noteq> Some Other) cs"

lemma cleared_kept: "\<forall>c\<in>snd ` set cs. c \<noteq> None \<Longrightarrow> filter (\<lambda>(n, c). c \<noteq> None) (map cleared cs) = kept cs"
  by (induction cs) (auto simp: kept_def cleared_def)

lemma cleared_same: "Some Other \<notin> snd ` set cs \<Longrightarrow> map cleared cs = cs \<and> kept cs = cs"
  by (induction cs) (auto simp: kept_def cleared_def)

definition mx_entry :: "'c multiplexing_request \<Rightarrow> (nat \<times> 'c option) list \<Rightarrow> 'c multiplexing_request option" where
  "mx_entry mx cs = (if cs = [] then None else Some (mx\<lparr>mx_callbacks := cs\<rparr>))"

lemma mx_invoke_answers:
  assumes mx: "um_find (fe_mx fe) p = Some mx" and c: "calm mx"
  shows "\<exists>M. mx_invoke p m fe = (fold (answer p m) (mx_callbacks mx) fe)\<lparr>fe_mx := M, fe_underlying := um_erase p (fe_underlying fe)\<rparr> \<and>
    (\<forall>q. um_find M q = (if q = p then mx_entry mx (kept (mx_callbacks mx)) else um_find (fe_mx fe) q))"
proof -
  let ?mx = "mx\<lparr>mx_in_progress := True\<rparr>" and ?cs = "mx_callbacks mx"
  let ?fe = "fe\<lparr>fe_mx := enter_invocation p (fe_mx fe)\<rparr>"
  have e: "enter_invocation p (fe_mx fe) = um_assign p ?mx (fe_mx fe)" by (simp add: enter_invocation_def mx)
  have f: "um_find (fe_mx ?fe) p = Some ?mx" by (simp add: e um_find_assign)
  from invoke_from_answers [OF f, of "[]" ?cs m] c obtain b where
    b: "invoke_from (length ?cs) 0 p m ?fe = (fold (answer p m) ?cs ?fe)\<lparr>fe_mx := um_assign p (?mx\<lparr>mx_callbacks := map cleared ?cs, mx_require_cleanup := b\<rparr>) (fe_mx ?fe)\<rparr>"
      "b \<longleftrightarrow> Some Other \<in> snd ` set ?cs" by (auto simp: calm_def)
  have fo: "fold (answer p m) xs (fe'\<lparr>fe_mx := M\<rparr>) = (fold (answer p m) xs fe')\<lparr>fe_mx := M\<rparr>" for fe' M xs
    by (induction xs arbitrary: fe') (simp_all add: answer_mx)
  let ?M = "exit_invocation p (um_assign p (?mx\<lparr>mx_callbacks := map cleared ?cs, mx_require_cleanup := b\<rparr>) (fe_mx ?fe))"
  have "mx_invoke p m fe = (fold (answer p m) ?cs fe)\<lparr>fe_mx := ?M, fe_underlying := um_erase p (fe_underlying fe)\<rparr>"
    using f b(1) by (simp add: mx_invoke_def mx_of_def fo)
  moreover have "um_find ?M q = (if q = p then mx_entry mx (kept ?cs) else um_find (fe_mx fe) q)" for q
  proof -
    have "(if b then filter (\<lambda>(n, c). c \<noteq> None) (map cleared ?cs) else map cleared ?cs) = kept ?cs"
      using cleared_kept [of ?cs] cleared_same [of ?cs] b(2) c by (auto simp: calm_def)
    then show ?thesis using c
      by (cases b) (auto simp: exit_invocation_def destroy_if_empty_def mx_entry_def dict_simps e Let_def calm_def)
  qed
  ultimately show ?thesis by blast
qed

section \<open>Answers to finalizations\<close>

definition finals_in :: "(nat \<times> ready_cb option) list \<Rightarrow> nat set" where
  "finals_in cs = {k. Some (Finalizing k) \<in> snd ` set cs}"

abbreviation remaining :: "frontend \<Rightarrow> nat \<Rightarrow> u32" where
  "remaining fe k \<equiv> fz_remaining (fe_finals fe ! k)"

lemma answer_finals:
  "fe_finals (answer p m x fe) = (case snd x of Some (Finalizing k) \<Rightarrow> (fe_finals fe)[k := (fe_finals fe ! k)\<lparr>fz_remaining := remaining fe k - 1\<rparr>] | _ \<Rightarrow> fe_finals fe)"
  "fe_disconnects (answer p m x fe) = fe_disconnects fe + (case snd x of Some (Finalizing k) \<Rightarrow> (if remaining fe k = 1 \<and> fz_enable (fe_finals fe ! k) then 1 else 0) | _ \<Rightarrow> 0)"
  by (auto simp: answer_def finalization_ready_def Let_def split: option.splits ready_cb.splits)

lemma finals_in_simps [simp]:
  "finals_in [] = {}" "finals_in (x # cs) = (case snd x of Some (Finalizing k) \<Rightarrow> insert k (finals_in cs) | _ \<Rightarrow> finals_in cs)"
  by (auto simp: finals_in_def split: option.splits ready_cb.splits)

lemma finals_in_finite [simp]: "finite (finals_in cs)"
  by (induction cs) (auto split: option.splits ready_cb.splits)

definition finals_after :: "nat set \<Rightarrow> frontend \<Rightarrow> frontend \<Rightarrow> bool" where
  "finals_after ks fe fe' \<longleftrightarrow> length (fe_finals fe') = length (fe_finals fe) \<and>
     (\<forall>k < length (fe_finals fe). fe_finals fe' ! k = (if k \<in> ks then (fe_finals fe ! k)\<lparr>fz_remaining := remaining fe k - 1\<rparr> else fe_finals fe ! k)) \<and>
     fe_disconnects fe' = fe_disconnects fe + card {k \<in> ks. remaining fe k = 1 \<and> fz_enable (fe_finals fe ! k)}"

lemma finals_after_insert:
  assumes fe': "fe_finals fe' = (fe_finals fe)[j := (fe_finals fe ! j)\<lparr>fz_remaining := remaining fe j - 1\<rparr>]"
    "fe_disconnects fe' = fe_disconnects fe + (if remaining fe j = 1 \<and> fz_enable (fe_finals fe ! j) then 1 else 0)"
    and ks: "j < length (fe_finals fe)" "j \<notin> ks" "finite ks" "\<forall>k\<in>ks. k < length (fe_finals fe)" and a: "finals_after ks fe' fe''"
  shows "finals_after (insert j ks) fe fe''"
proof -
  let ?P = "\<lambda>fe k. remaining fe k = 1 \<and> fz_enable (fe_finals fe ! k)"
  have "fe_finals fe' ! k = fe_finals fe ! k" if "k \<in> ks" for k
  proof -
    have "k \<noteq> j" using that ks(2) by blast
    then show ?thesis by (simp add: fe'(1))
  qed
  then have same: "{k \<in> ks. ?P fe' k} = {k \<in> ks. ?P fe k}" by auto
  have "{k \<in> insert j ks. ?P fe k} = (if ?P fe j then insert j {k \<in> ks. ?P fe k} else {k \<in> ks. ?P fe k})" by auto
  then have "card {k \<in> insert j ks. ?P fe k} = (if ?P fe j then 1 else 0) + card {k \<in> ks. ?P fe k}" using ks(2,3) by simp
  then have "fe_disconnects fe'' = fe_disconnects fe + card {k \<in> insert j ks. ?P fe k}"
    using a same fe'(2) by (simp add: finals_after_def)
  moreover have "length (fe_finals fe'') = length (fe_finals fe)" using a fe'(1) by (simp add: finals_after_def)
  moreover have "fe_finals fe'' ! k = (if k \<in> insert j ks then (fe_finals fe ! k)\<lparr>fz_remaining := remaining fe k - 1\<rparr> else fe_finals fe ! k)"
    if "k < length (fe_finals fe)" for k
  proof (cases "k = j")
    case True
    then show ?thesis using a that ks(2) by (simp add: finals_after_def fe'(1))
  next
    case False
    then have "fe_finals fe' ! k = fe_finals fe ! k" "k < length (fe_finals fe')" using that by (simp_all add: fe'(1))
    then show ?thesis using a False unfolding finals_after_def by simp
  qed
  ultimately show ?thesis unfolding finals_after_def by blast
qed

lemma fold_answer_finals:
  assumes "distinct (filter (\<lambda>c. c \<noteq> Some Other) (map snd cs))" "\<forall>k\<in>finals_in cs. k < length (fe_finals fe)"
  shows "finals_after (finals_in cs) fe (fold (answer p m) cs fe)"
  using assms
proof (induction cs arbitrary: fe)
  case Nil
  show ?case by (simp add: finals_after_def)
next
  case (Cons x cs)
  let ?fe = "answer p m x fe"
  show ?case
  proof (cases "\<exists>j. snd x = Some (Finalizing j)")
    case True
    then obtain j where j: "snd x = Some (Finalizing j)" by blast
    have d: "j \<notin> finals_in cs" using Cons.prems(1) j by (force simp: finals_in_def)
    have fe: "fe_finals ?fe = (fe_finals fe)[j := (fe_finals fe ! j)\<lparr>fz_remaining := remaining fe j - 1\<rparr>]"
      "fe_disconnects ?fe = fe_disconnects fe + (if remaining fe j = 1 \<and> fz_enable (fe_finals fe ! j) then 1 else 0)"
      by (simp_all add: answer_finals j)
    have "finals_after (finals_in cs) ?fe (fold (answer p m) cs ?fe)"
      using Cons.IH [of ?fe] Cons.prems j fe(1) by (simp split: if_splits)
    from finals_after_insert [OF fe _ d _ _ this] Cons.prems(2) j show ?thesis by simp
  next
    case False
    then have n: "finals_in (x # cs) = finals_in cs" by (auto split: option.splits ready_cb.splits)
    have fe: "fe_finals ?fe = fe_finals fe" "fe_disconnects ?fe = fe_disconnects fe" using False
      by (auto simp: answer_finals split: option.splits ready_cb.splits)
    have "finals_after (finals_in cs) ?fe (fold (answer p m) cs ?fe)"
      using Cons.IH [of ?fe] Cons.prems fe(1) n by (simp split: if_splits)
    then show ?thesis unfolding n by (simp add: finals_after_def fe)
  qed
qed

section \<open>The invariant\<close>

definition requests_fine :: "frontend \<Rightarrow> bool" where
  "requests_fine fe \<longleftrightarrow>
     (\<forall>p mx. um_find (fe_mx fe) p = Some mx \<longrightarrow> calm mx \<and> (\<forall>n\<in>fst ` set (mx_callbacks mx). n < fe_nodes fe)) \<and>
     (\<forall>p. um_find (fe_underlying fe) p \<noteq> None \<longleftrightarrow> um_find (fe_mx fe) p \<noteq> None \<and> um_find (fe_modules fe) p = None) \<and>
     (\<forall>p q. p \<noteq> q \<longrightarrow> fst ` set (callbacks_of p fe) \<inter> fst ` set (callbacks_of q fe) = {})"

text \<open>The first \<open>c\<close> finalizations have asked for all they need.\<close>

definition finals_fine :: "nat \<Rightarrow> frontend \<Rightarrow> bool" where
  "finals_fine c fe \<longleftrightarrow> c \<le> length (fe_finals fe) \<and>
     (\<forall>p. distinct (filter (\<lambda>c. c \<noteq> Some Other) (map snd (callbacks_of p fe))) \<and>
        finals_in (callbacks_of p fe) = {k. k < length (fe_finals fe) \<and> p \<in> set (fz_requested (fe_finals fe ! k))}) \<and>
     (\<forall>k < length (fe_finals fe). let f = fe_finals fe ! k in
        length (fz_requested f) < 2 ^ 32 \<and> distinct (fz_requested f) \<and>
        fz_remaining f = of_nat (card {p \<in> set (fz_requested f). um_find (fe_modules fe) p = None}) \<and>
        (k < c \<longrightarrow> fz_remaining f \<noteq> 0 \<longrightarrow> fz_enable f) \<and> (c \<le> k \<longrightarrow> \<not> fz_enable f)) \<and>
     fe_disconnects fe = card {k. k < c \<and> remaining fe k = 0}"

definition calls_fine :: "frontend \<Rightarrow> bool" where
  "calls_fine fe \<longleftrightarrow> distinct (map (fst \<circ> snd) (fe_called fe)) \<and>
     (\<forall>x\<in>set (fe_called fe). fst (snd x) < fe_nodes fe \<and> um_find (fe_modules fe) (fst x) = Some (snd (snd (snd x)))) \<and>
     (\<forall>p. \<forall>n\<in>fst ` set (callbacks_of p fe). n \<in> (fst \<circ> snd) ` set (fe_called fe) \<longleftrightarrow> um_find (fe_modules fe) p \<noteq> None)"

lemma requests_fineD:
  assumes "requests_fine fe"
  shows "um_find (fe_mx fe) p = Some mx \<Longrightarrow> calm mx \<and> (\<forall>n\<in>fst ` set (mx_callbacks mx). n < fe_nodes fe)"
    "um_find (fe_underlying fe) p \<noteq> None \<longleftrightarrow> um_find (fe_mx fe) p \<noteq> None \<and> um_find (fe_modules fe) p = None"
    "p \<noteq> q \<Longrightarrow> fst ` set (callbacks_of p fe) \<inter> fst ` set (callbacks_of q fe) = {}"
proof -
  note f = assms [unfolded requests_fine_def]
  show "um_find (fe_mx fe) p = Some mx \<Longrightarrow> calm mx \<and> (\<forall>n\<in>fst ` set (mx_callbacks mx). n < fe_nodes fe)"
    by (rule f [THEN conjunct1, rule_format])
  show "um_find (fe_underlying fe) p \<noteq> None \<longleftrightarrow> um_find (fe_mx fe) p \<noteq> None \<and> um_find (fe_modules fe) p = None"
    by (rule f [THEN conjunct2, THEN conjunct1, rule_format])
  show "p \<noteq> q \<Longrightarrow> fst ` set (callbacks_of p fe) \<inter> fst ` set (callbacks_of q fe) = {}"
    by (rule f [THEN conjunct2, THEN conjunct2, rule_format])
qed

lemma finals_fineD:
  assumes "finals_fine c fe"
  shows "c \<le> length (fe_finals fe)" "distinct (filter (\<lambda>c. c \<noteq> Some Other) (map snd (callbacks_of p fe)))"
    "finals_in (callbacks_of p fe) = {k. k < length (fe_finals fe) \<and> p \<in> set (fz_requested (fe_finals fe ! k))}"
    "k < length (fe_finals fe) \<Longrightarrow> length (fz_requested (fe_finals fe ! k)) < 2 ^ 32 \<and> distinct (fz_requested (fe_finals fe ! k)) \<and>
      remaining fe k = of_nat (card {p \<in> set (fz_requested (fe_finals fe ! k)). um_find (fe_modules fe) p = None})"
    "k < c \<Longrightarrow> remaining fe k \<noteq> 0 \<Longrightarrow> fz_enable (fe_finals fe ! k)" "k < length (fe_finals fe) \<Longrightarrow> c \<le> k \<Longrightarrow> \<not> fz_enable (fe_finals fe ! k)"
    "fe_disconnects fe = card {k. k < c \<and> remaining fe k = 0}"
proof -
  note f = assms [unfolded finals_fine_def Let_def]
  show "c \<le> length (fe_finals fe)" "fe_disconnects fe = card {k. k < c \<and> remaining fe k = 0}" using f by blast+
  show "distinct (filter (\<lambda>c. c \<noteq> Some Other) (map snd (callbacks_of p fe)))" using f by blast
  show "finals_in (callbacks_of p fe) = {k. k < length (fe_finals fe) \<and> p \<in> set (fz_requested (fe_finals fe ! k))}" using f by blast
  show "k < length (fe_finals fe) \<Longrightarrow> length (fz_requested (fe_finals fe ! k)) < 2 ^ 32 \<and> distinct (fz_requested (fe_finals fe ! k)) \<and>
      remaining fe k = of_nat (card {p \<in> set (fz_requested (fe_finals fe ! k)). um_find (fe_modules fe) p = None})" using f by blast
  show "k < c \<Longrightarrow> remaining fe k \<noteq> 0 \<Longrightarrow> fz_enable (fe_finals fe ! k)" using f by (meson less_le_trans)
  show "k < length (fe_finals fe) \<Longrightarrow> c \<le> k \<Longrightarrow> \<not> fz_enable (fe_finals fe ! k)" using f by blast
qed

lemma calls_fineD:
  assumes "calls_fine fe"
  shows "distinct (map (fst \<circ> snd) (fe_called fe))"
    "x \<in> set (fe_called fe) \<Longrightarrow> fst (snd x) < fe_nodes fe \<and> um_find (fe_modules fe) (fst x) = Some (snd (snd (snd x)))"
    "n \<in> fst ` set (callbacks_of p fe) \<Longrightarrow> n \<in> (fst \<circ> snd) ` set (fe_called fe) \<longleftrightarrow> um_find (fe_modules fe) p \<noteq> None"
  using assms unfolding calls_fine_def by blast+

text \<open>How many metadata are missing.\<close>

lemma remaining_card:
  assumes "finals_fine c fe" "k < length (fe_finals fe)"
  shows "card {p \<in> set (fz_requested (fe_finals fe ! k)). um_find (fe_modules fe) p = None} < 2 ^ 32"
proof -
  have "card {p \<in> set (fz_requested (fe_finals fe ! k)). um_find (fe_modules fe) p = None} \<le> card (set (fz_requested (fe_finals fe ! k)))"
    by (rule card_mono) auto
  also have "\<dots> < 2 ^ 32" using finals_fineD(4) [OF assms] card_length le_less_trans by blast
  finally show ?thesis .
qed

lemma of_nat_zero: "n < 2 ^ 32 \<Longrightarrow> (of_nat n :: u32) = 0 \<longleftrightarrow> n = 0"
  by (auto simp: word_unat_eq_iff unat_of_nat)

lemma remaining_zero:
  assumes "finals_fine c fe" "k < length (fe_finals fe)"
  shows "remaining fe k = 0 \<longleftrightarrow> (\<forall>p\<in>set (fz_requested (fe_finals fe ! k)). um_find (fe_modules fe) p \<noteq> None)"
  using finals_fineD(4) [OF assms] of_nat_zero [OF remaining_card [OF assms]] by auto

lemma remaining_minus:
  assumes "p \<in> X" "finite X" shows "(of_nat (card X) :: u32) - 1 = of_nat (card (X - {p}))"
  using card.remove [OF assms(2,1)] by simp

section \<open>Metadata arrive\<close>

lemma fold_answer_called:
  "\<forall>c\<in>snd ` set cs. c \<noteq> None \<Longrightarrow> fe_called (fold (answer p m) cs fe) = fe_called fe @ map (\<lambda>x. (p, fst x, the (snd x), m)) cs"
proof (induction cs arbitrary: fe)
  case (Cons x cs)
  have "fe_called (answer p m x fe) = fe_called fe @ [(p, fst x, the (snd x), m)]"
    using Cons.prems by (cases "snd x") (auto simp: answer_def finalization_ready_def Let_def split: ready_cb.splits)
  then show ?case using Cons by simp
qed simp

lemma kept_props:
  "set (kept cs) \<subseteq> set cs" "finals_in (kept cs) = finals_in cs" "distinct (map fst cs) \<Longrightarrow> distinct (map fst (kept cs))"
  "filter (\<lambda>c. c \<noteq> Some Other) (map snd (kept cs)) = filter (\<lambda>c. c \<noteq> Some Other) (map snd cs)"
proof -
  show "set (kept cs) \<subseteq> set cs" by (auto simp: kept_def)
  show "finals_in (kept cs) = finals_in cs" unfolding kept_def finals_in_def by force
  show "distinct (map fst cs) \<Longrightarrow> distinct (map fst (kept cs))" by (simp add: kept_def distinct_map_filter)
  show "filter (\<lambda>c. c \<noteq> Some Other) (map snd (kept cs)) = filter (\<lambda>c. c \<noteq> Some Other) (map snd cs)"
    by (simp add: kept_def filter_map comp_def)
qed

lemma mx_of_entry [simp]: "um_find M p = mx_entry mx cs \<Longrightarrow> mx_callbacks (mx_of M p) = cs"
  by (auto simp: mx_of_def mx_entry_def mx_new_def split: if_splits)

lemma mx_entry_calm: "calm mx \<Longrightarrow> mx_entry mx cs = Some mx' \<Longrightarrow> set cs \<subseteq> set (mx_callbacks mx) \<Longrightarrow> distinct (map fst cs) \<Longrightarrow>
    calm mx' \<and> mx_callbacks mx' = cs"
  by (auto simp: calm_def mx_entry_def split: if_splits)

text \<open>The answer \<open>m\<close> for the module \<open>p\<close>.\<close>

definition delivered :: "u32 \<Rightarrow> module_info_metadata \<Rightarrow> frontend \<Rightarrow> frontend \<Rightarrow> bool" where
  "delivered p m fe fe'' \<longleftrightarrow> um_find (fe_underlying fe) p \<noteq> None \<and>
     (\<exists>st. fe'' = mx_invoke p m (fe\<lparr>fe_modules := um_assign p m (fe_modules fe), fe_stored := st\<rparr>))"

lemma delivered_missing:
  assumes "requests_fine fe" "delivered p m fe fe''"
  shows "um_find (fe_modules fe) p = None" "um_find (fe_mx fe) p = Some (mx_of (fe_mx fe) p)" "calm (mx_of (fe_mx fe) p)"
    "\<forall>x\<in>snd ` set (callbacks_of p fe). x \<noteq> None" "distinct (map fst (callbacks_of p fe))" "\<forall>n\<in>fst ` set (callbacks_of p fe). n < fe_nodes fe"
proof -
  show 1: "um_find (fe_modules fe) p = None" "um_find (fe_mx fe) p = Some (mx_of (fe_mx fe) p)"
    using requests_fineD(2) [OF assms(1), of p] assms(2) by (auto simp: delivered_def mx_of_def)
  from requests_fineD(1) [OF assms(1) 1(2)] show "calm (mx_of (fe_mx fe) p)" "\<forall>x\<in>snd ` set (callbacks_of p fe). x \<noteq> None"
    "distinct (map fst (callbacks_of p fe))" "\<forall>n\<in>fst ` set (callbacks_of p fe). n < fe_nodes fe"
    by (simp_all add: calm_def)
qed

lemma delivered_result:
  assumes "requests_fine fe" "delivered p m fe fe''"
  shows "\<exists>M st. fe'' = (fold (answer p m) (callbacks_of p fe) (fe\<lparr>fe_modules := um_assign p m (fe_modules fe), fe_stored := st\<rparr>))
      \<lparr>fe_mx := M, fe_underlying := um_erase p (fe_underlying fe)\<rparr> \<and>
    (\<forall>q. um_find M q = (if q = p then mx_entry (mx_of (fe_mx fe) p) (kept (callbacks_of p fe)) else um_find (fe_mx fe) q))"
proof -
  obtain st where fe'': "fe'' = mx_invoke p m (fe\<lparr>fe_modules := um_assign p m (fe_modules fe), fe_stored := st\<rparr>)"
    using assms(2) unfolding delivered_def by blast
  let ?fe = "fe\<lparr>fe_modules := um_assign p m (fe_modules fe), fe_stored := st\<rparr>"
  have "um_find (fe_mx ?fe) p = Some (mx_of (fe_mx fe) p)" using delivered_missing(2) [OF assms] by simp
  from mx_invoke_answers [OF this delivered_missing(3) [OF assms], of m] obtain M where
    "mx_invoke p m ?fe = (fold (answer p m) (callbacks_of p fe) ?fe)\<lparr>fe_mx := M, fe_underlying := um_erase p (fe_underlying ?fe)\<rparr>"
    "\<forall>q. um_find M q = (if q = p then mx_entry (mx_of (fe_mx fe) p) (kept (callbacks_of p fe)) else um_find (fe_mx ?fe) q)" by blast
  then show ?thesis unfolding fe'' by (intro exI [of _ M] exI [of _ st]) simp
qed

lemma delivered_fields:
  assumes "requests_fine fe" "delivered p m fe fe''"
  shows "fe_modules fe'' = um_assign p m (fe_modules fe)" "fe_underlying fe'' = um_erase p (fe_underlying fe)" "fe_nodes fe'' = fe_nodes fe"
    "um_find (fe_mx fe'') q = (if q = p then mx_entry (mx_of (fe_mx fe) p) (kept (callbacks_of p fe)) else um_find (fe_mx fe) q)"
    "callbacks_of q fe'' = (if q = p then kept (callbacks_of p fe) else callbacks_of q fe)"
    "fe_called fe'' = fe_called fe @ map (\<lambda>x. (p, fst x, the (snd x), m)) (callbacks_of p fe)"
proof -
  let ?cs = "callbacks_of p fe"
  from delivered_result [OF assms] obtain M st where
    M: "fe'' = (fold (answer p m) ?cs (fe\<lparr>fe_modules := um_assign p m (fe_modules fe), fe_stored := st\<rparr>))\<lparr>fe_mx := M, fe_underlying := um_erase p (fe_underlying fe)\<rparr>"
    "\<And>q. um_find M q = (if q = p then mx_entry (mx_of (fe_mx fe) p) (kept ?cs) else um_find (fe_mx fe) q)" by blast
  show "fe_modules fe'' = um_assign p m (fe_modules fe)" "fe_underlying fe'' = um_erase p (fe_underlying fe)" "fe_nodes fe'' = fe_nodes fe"
    by (simp_all add: M(1))
  show u: "um_find (fe_mx fe'') q = (if q = p then mx_entry (mx_of (fe_mx fe) p) (kept ?cs) else um_find (fe_mx fe) q)" for q by (simp add: M)
  show "callbacks_of q fe'' = (if q = p then kept ?cs else callbacks_of q fe)"
    using u [of q] by (cases "q = p") (simp_all add: mx_of_def mx_entry_def mx_new_def)
  show "fe_called fe'' = fe_called fe @ map (\<lambda>x. (p, fst x, the (snd x), m)) ?cs"
    using fold_answer_called [OF delivered_missing(4) [OF assms], of p m] by (simp add: M(1))
qed

lemma delivered_requests_fine:
  assumes rf: "requests_fine fe" and d: "delivered p m fe fe''"
  shows "requests_fine fe''"
  unfolding requests_fine_def
proof (intro conjI allI impI)
  note f = delivered_fields [OF rf d] and g = delivered_missing [OF rf d]
  {
    fix q mx assume mx: "um_find (fe_mx fe'') q = Some mx"
    show "calm mx" "\<forall>n\<in>fst ` set (mx_callbacks mx). n < fe_nodes fe''"
    proof (atomize (full), cases "q = p")
      case True
      then have "calm mx \<and> mx_callbacks mx = kept (callbacks_of p fe)"
        using mx_entry_calm [OF g(3), of "kept (callbacks_of p fe)" mx] mx kept_props(1,3) g(5) by (simp add: f)
      then show "calm mx \<and> (\<forall>n\<in>fst ` set (mx_callbacks mx). n < fe_nodes fe'')"
        using image_mono [OF kept_props(1) [of "callbacks_of p fe"], of fst] g(6) unfolding f(3) by (metis subsetD)
    next
      case False
      then show "calm mx \<and> (\<forall>n\<in>fst ` set (mx_callbacks mx). n < fe_nodes fe'')"
        using requests_fineD(1) [OF rf, of q mx] mx by (simp add: f)
    qed
  next
    fix q
    show "(um_find (fe_underlying fe'') q \<noteq> None) = (um_find (fe_mx fe'') q \<noteq> None \<and> um_find (fe_modules fe'') q = None)"
      using requests_fineD(2) [OF rf, of q] by (simp add: f dict_simps)
  next
    fix q r :: u32 assume "q \<noteq> r"
    then show "fst ` set (callbacks_of q fe'') \<inter> fst ` set (callbacks_of r fe'') = {}"
      using requests_fineD(3) [OF rf, of q r] kept_props(1) [of "callbacks_of p fe"] by (auto simp: f(5))
  }
qed

lemma calls_fineI:
  assumes "distinct (map (fst \<circ> snd) (fe_called fe))"
    "\<And>x. x \<in> set (fe_called fe) \<Longrightarrow> fst (snd x) < fe_nodes fe \<and> um_find (fe_modules fe) (fst x) = Some (snd (snd (snd x)))"
    "\<And>p n. n \<in> fst ` set (callbacks_of p fe) \<Longrightarrow> n \<in> (fst \<circ> snd) ` set (fe_called fe) \<longleftrightarrow> um_find (fe_modules fe) p \<noteq> None"
  shows "calls_fine fe"
  unfolding calls_fine_def using assms by (intro conjI ballI allI) simp_all

lemma delivered_calls_fine:
  assumes rf: "requests_fine fe" and cf: "calls_fine fe" and d: "delivered p m fe fe''"
  shows "calls_fine fe''"
proof -
  note f = delivered_fields [OF rf d] and g = delivered_missing [OF rf d]
  let ?cs = "callbacks_of p fe"
  let ?new = "map (\<lambda>x. (p, fst x, the (snd x), m)) ?cs"
  have nodes: "map (fst \<circ> snd) ?new = map fst ?cs" by (simp add: comp_def)
  have fresh: "n \<notin> (fst \<circ> snd) ` set (fe_called fe)" if "n \<in> fst ` set ?cs" for n
    using calls_fineD(3) [OF cf that] g(1) by simp
  have set: "(fst \<circ> snd) ` set (fe_called fe'') = (fst \<circ> snd) ` set (fe_called fe) \<union> fst ` set ?cs"
    by (simp add: f(6) image_Un image_image)
  show ?thesis
  proof (rule calls_fineI)
    have "set (map (fst \<circ> snd) (fe_called fe)) \<inter> set (map fst ?cs) = {}" using fresh by auto
    then show "distinct (map (fst \<circ> snd) (fe_called fe''))"
      unfolding f(6) map_append nodes using calls_fineD(1) [OF cf] g(5) by (simp only: distinct_append)
  next
    fix x assume x: "x \<in> set (fe_called fe'')"
    show "fst (snd x) < fe_nodes fe'' \<and> um_find (fe_modules fe'') (fst x) = Some (snd (snd (snd x)))"
    proof (cases "x \<in> set (fe_called fe)")
      case True
      from calls_fineD(2) [OF cf True] g(1) have "fst x \<noteq> p" by auto
      with calls_fineD(2) [OF cf True] show ?thesis by (simp add: f(1,3) dict_simps)
    next
      case False
      then obtain y where "y \<in> set ?cs" "x = (p, fst y, the (snd y), m)" using x by (auto simp: f(6))
      then show ?thesis using g(6) by (simp add: f(1,3) dict_simps)
    qed
  next
    fix q n assume n: "n \<in> fst ` set (callbacks_of q fe'')"
    show "n \<in> (fst \<circ> snd) ` set (fe_called fe'') \<longleftrightarrow> um_find (fe_modules fe'') q \<noteq> None"
    proof (cases "q = p")
      case True
      then have "n \<in> fst ` set ?cs" using n image_mono [OF kept_props(1) [of ?cs], of fst] unfolding f(5) by auto
      then show ?thesis unfolding set using True by (simp add: f(1) dict_simps)
    next
      case False
      then have n': "n \<in> fst ` set (callbacks_of q fe)" using n by (simp add: f(5))
      moreover have "n \<notin> fst ` set ?cs" using n' requests_fineD(3) [OF rf False] by blast
      ultimately show ?thesis unfolding set using calls_fineD(3) [OF cf n'] False by (simp add: f(1) dict_simps)
    qed
  qed
qed

lemma finals_fineI:
  assumes "c \<le> length (fe_finals fe)" "\<And>p. distinct (filter (\<lambda>c. c \<noteq> Some Other) (map snd (callbacks_of p fe)))"
    "\<And>p. finals_in (callbacks_of p fe) = {k. k < length (fe_finals fe) \<and> p \<in> set (fz_requested (fe_finals fe ! k))}"
    "\<And>k. k < length (fe_finals fe) \<Longrightarrow> length (fz_requested (fe_finals fe ! k)) < 2 ^ 32 \<and> distinct (fz_requested (fe_finals fe ! k)) \<and>
      remaining fe k = of_nat (card {p \<in> set (fz_requested (fe_finals fe ! k)). um_find (fe_modules fe) p = None})"
    "\<And>k. k < c \<Longrightarrow> remaining fe k \<noteq> 0 \<Longrightarrow> fz_enable (fe_finals fe ! k)" "\<And>k. k < length (fe_finals fe) \<Longrightarrow> c \<le> k \<Longrightarrow> \<not> fz_enable (fe_finals fe ! k)"
    "fe_disconnects fe = card {k. k < c \<and> remaining fe k = 0}"
  shows "finals_fine c fe"
  unfolding finals_fine_def Let_def using assms by (intro conjI allI impI) simp_all

lemma delivered_finals_fine:
  assumes rf: "requests_fine fe" and ff: "finals_fine c fe" and d: "delivered p m fe fe''"
  shows "finals_fine c fe''" "map fz_requested (fe_finals fe'') = map fz_requested (fe_finals fe)"
proof -
  note f = delivered_fields [OF rf d] and g = delivered_missing [OF rf d]
  let ?cs = "callbacks_of p fe" and ?F = "finals_in (callbacks_of p fe)"
  obtain M st where "fe'' = (fold (answer p m) ?cs (fe\<lparr>fe_modules := um_assign p m (fe_modules fe), fe_stored := st\<rparr>))\<lparr>fe_mx := M, fe_underlying := um_erase p (fe_underlying fe)\<rparr>"
    using delivered_result [OF rf d] by blast
  moreover have "\<forall>k\<in>?F. k < length (fe_finals fe)" using finals_fineD(3) [OF ff, of p] by blast
  ultimately have "finals_after ?F fe fe''"
    using fold_answer_finals [OF finals_fineD(2) [OF ff, of p], of "fe\<lparr>fe_modules := um_assign p m (fe_modules fe), fe_stored := st\<rparr>" p m]
    by (simp add: finals_after_def)
  then have len: "length (fe_finals fe'') = length (fe_finals fe)"
    and nth: "\<And>k. k < length (fe_finals fe) \<Longrightarrow> fe_finals fe'' ! k = (if k \<in> ?F then (fe_finals fe ! k)\<lparr>fz_remaining := remaining fe k - 1\<rparr> else fe_finals fe ! k)"
    and disc: "fe_disconnects fe'' = fe_disconnects fe + card {k \<in> ?F. remaining fe k = 1 \<and> fz_enable (fe_finals fe ! k)}"
    unfolding finals_after_def by blast+
  have F: "k \<in> ?F \<longleftrightarrow> p \<in> set (fz_requested (fe_finals fe ! k))" if "k < length (fe_finals fe)" for k
    using finals_fineD(3) [OF ff, of p] that by blast
  have rq: "fz_requested (fe_finals fe'' ! k) = fz_requested (fe_finals fe ! k)" "fz_enable (fe_finals fe'' ! k) = fz_enable (fe_finals fe ! k)"
    if "k < length (fe_finals fe)" for k using nth [OF that] by simp_all
  then show "map fz_requested (fe_finals fe'') = map fz_requested (fe_finals fe)" by (intro nth_equalityI) (simp_all add: len)
  have cl: "c \<le> length (fe_finals fe)" by (rule finals_fineD(1) [OF ff])
  have nz: "remaining fe k \<noteq> 0" if "k \<in> ?F" "k < length (fe_finals fe)" for k
    using remaining_zero [OF ff that(2)] F [OF that(2)] that(1) g(1) by blast
  have r: "remaining fe'' k = (if k \<in> ?F then remaining fe k - 1 else remaining fe k)" if "k < length (fe_finals fe)" for k
    using nth [OF that] by simp
  show "finals_fine c fe''"
  proof (rule finals_fineI)
    show "c \<le> length (fe_finals fe'')" using cl len by simp
    fix q
    show "distinct (filter (\<lambda>c. c \<noteq> Some Other) (map snd (callbacks_of q fe'')))"
      using finals_fineD(2) [OF ff, of q] finals_fineD(2) [OF ff, of p] by (simp add: f(5) kept_props(4))
    have "finals_in (callbacks_of q fe'') = finals_in (callbacks_of q fe)" by (simp add: f(5) kept_props(2))
    also have "\<dots> = {k. k < length (fe_finals fe'') \<and> q \<in> set (fz_requested (fe_finals fe'' ! k))}"
      unfolding finals_fineD(3) [OF ff, of q] len using rq(1) by auto
    finally show "finals_in (callbacks_of q fe'') = {k. k < length (fe_finals fe'') \<and> q \<in> set (fz_requested (fe_finals fe'' ! k))}" .
  next
    fix k assume "k < length (fe_finals fe'')"
    then have k: "k < length (fe_finals fe)" by (simp add: len)
    let ?X = "{q \<in> set (fz_requested (fe_finals fe ! k)). um_find (fe_modules fe) q = None}"
    have X: "{q \<in> set (fz_requested (fe_finals fe ! k)). um_find (fe_modules fe'') q = None} = ?X - {p}"
      by (auto simp: f(1) dict_simps)
    have "remaining fe'' k = of_nat (card (?X - {p}))"
    proof (cases "k \<in> ?F")
      case True
      then have "p \<in> ?X" using F [OF k] g(1) by simp
      then show ?thesis using r [OF k] True finals_fineD(4) [OF ff k] remaining_minus [of p ?X] by simp
    next
      case False
      then have "?X - {p} = ?X" using F [OF k] by blast
      then show ?thesis using r [OF k] False finals_fineD(4) [OF ff k] by simp
    qed
    then show "length (fz_requested (fe_finals fe'' ! k)) < 2 ^ 32 \<and> distinct (fz_requested (fe_finals fe'' ! k)) \<and>
      remaining fe'' k = of_nat (card {p \<in> set (fz_requested (fe_finals fe'' ! k)). um_find (fe_modules fe'') p = None})"
      unfolding rq(1) [OF k] X using finals_fineD(4) [OF ff k] by simp
  next
    fix k assume k: "k < c" "remaining fe'' k \<noteq> 0"
    then have k': "k < length (fe_finals fe)" using cl by simp
    have "remaining fe k \<noteq> 0" using k(2) r [OF k'] nz [OF _ k'] by (cases "k \<in> ?F") simp_all
    then show "fz_enable (fe_finals fe'' ! k)" using rq(2) [OF k'] finals_fineD(5) [OF ff k(1)] by simp
  next
    fix k assume "k < length (fe_finals fe'')" "c \<le> k"
    then show "\<not> fz_enable (fe_finals fe'' ! k)" using rq(2) [of k] finals_fineD(6) [OF ff, of k] len by simp
  next
    have "{k. k < c \<and> remaining fe'' k = 0} = {k. k < c \<and> remaining fe k = 0} \<union> {k \<in> ?F. remaining fe k = 1 \<and> fz_enable (fe_finals fe ! k)}" (is "?A = ?B \<union> ?C")
    proof (intro set_eqI iffI)
      fix k assume "k \<in> ?A"
      then have k: "k < c" "remaining fe'' k = 0" "k < length (fe_finals fe)" using cl by auto
      show "k \<in> ?B \<union> ?C"
      proof (cases "k \<in> ?F")
        case True
        then have "remaining fe k - 1 = 0" using k r by simp
        then have "remaining fe k = 1" by simp
        moreover from this have "fz_enable (fe_finals fe ! k)" by (intro finals_fineD(5) [OF ff k(1)]) simp
        ultimately show ?thesis using True by simp
      next
        case False
        then show ?thesis using k r by simp
      qed
    next
      fix k assume "k \<in> ?B \<union> ?C"
      then show "k \<in> ?A"
      proof
        assume "k \<in> ?B"
        then show ?thesis using r [of k] nz [of k] cl by auto
      next
        assume k: "k \<in> ?C"
        then have "k < length (fe_finals fe)" using finals_fineD(3) [OF ff, of p] by blast
        then show ?thesis using k r [of k] finals_fineD(6) [OF ff, of k] by (auto simp: not_le [symmetric])
      qed
    qed
    moreover have "?B \<inter> ?C = {}" by auto
    ultimately show "fe_disconnects fe'' = card {k. k < c \<and> remaining fe'' k = 0}"
      unfolding disc finals_fineD(7) [OF ff] by (simp add: card_Un_disjoint)
  qed
qed

section \<open>Metadata are asked for\<close>

lemma mx_create_fields:
  assumes "requests_fine fe" "mx_create p n r (fe_mx fe) = (u, M)"
  shows "u \<longleftrightarrow> um_find (fe_mx fe) p = None"
    "um_find M q = (if q = p then Some ((mx_of (fe_mx fe) p)\<lparr>mx_callbacks := callbacks_of p fe @ [(n, Some r)]\<rparr>) else um_find (fe_mx fe) q)"
    "mx_callbacks (mx_of M q) = (if q = p then callbacks_of p fe @ [(n, Some r)] else callbacks_of q fe)"
proof -
  have "callbacks_of p fe = [] \<longleftrightarrow> um_find (fe_mx fe) p = None"
    using requests_fineD(1) [OF assms(1), of p] by (cases "um_find (fe_mx fe) p") (auto simp: mx_of_def mx_new_def calm_def)
  then show "u \<longleftrightarrow> um_find (fe_mx fe) p = None" using assms(2) by (simp add: mx_create_def mx_of_def Let_def)
  show f: "um_find M q = (if q = p then Some ((mx_of (fe_mx fe) p)\<lparr>mx_callbacks := callbacks_of p fe @ [(n, Some r)]\<rparr>) else um_find (fe_mx fe) q)" for q
    using assms(2) by (auto simp: mx_create_def mx_of_def Let_def dict_simps)
  show "mx_callbacks (mx_of M q) = (if q = p then callbacks_of p fe @ [(n, Some r)] else callbacks_of q fe)"
    using f [of q] by (simp add: mx_of_def)
qed

lemma callbacks_fresh:
  assumes "requests_fine fe"
  shows "fe_nodes fe \<notin> fst ` set (callbacks_of q fe)" "n \<in> fst ` set (callbacks_of q fe) \<Longrightarrow> n < fe_nodes fe"
    "\<forall>c\<in>snd ` set (callbacks_of q fe). c \<noteq> None" "distinct (map fst (callbacks_of q fe))" "\<not> mx_in_progress (mx_of (fe_mx fe) q)" "\<not> mx_require_cleanup (mx_of (fe_mx fe) q)"
proof -
  have "(\<forall>n\<in>fst ` set (callbacks_of q fe). n < fe_nodes fe) \<and> (\<forall>c\<in>snd ` set (callbacks_of q fe). c \<noteq> None) \<and> distinct (map fst (callbacks_of q fe)) \<and>
    \<not> mx_in_progress (mx_of (fe_mx fe) q) \<and> \<not> mx_require_cleanup (mx_of (fe_mx fe) q)"
  proof (cases "um_find (fe_mx fe) q")
    case None
    then show ?thesis by (simp add: mx_of_def mx_new_def)
  next
    case (Some mx)
    then show ?thesis using requests_fineD(1) [OF assms Some] by (simp add: mx_of_def calm_def)
  qed
  then show "fe_nodes fe \<notin> fst ` set (callbacks_of q fe)" "n \<in> fst ` set (callbacks_of q fe) \<Longrightarrow> n < fe_nodes fe"
    "\<forall>c\<in>snd ` set (callbacks_of q fe). c \<noteq> None" "distinct (map fst (callbacks_of q fe))" "\<not> mx_in_progress (mx_of (fe_mx fe) q)" "\<not> mx_require_cleanup (mx_of (fe_mx fe) q)"
    by blast+
qed

text \<open>A callback more for \<open>p\<close>; it was called already exactly if the metadata are there.\<close>

definition registered :: "u32 \<Rightarrow> ready_cb \<Rightarrow> frontend \<Rightarrow> frontend \<Rightarrow> bool" where
  "registered p ready fe fe' \<longleftrightarrow> fe_modules fe' = fe_modules fe \<and> fe_nodes fe' = fe_nodes fe + 1 \<and>
     (\<forall>q. um_find (fe_mx fe') q = (if q = p then Some ((mx_of (fe_mx fe) p)\<lparr>mx_callbacks := callbacks_of p fe @ [(fe_nodes fe, Some ready)]\<rparr>) else um_find (fe_mx fe) q)) \<and>
     (\<forall>q. um_find (fe_underlying fe') q \<noteq> None \<longleftrightarrow> (if q = p then um_find (fe_modules fe) p = None else um_find (fe_underlying fe) q \<noteq> None)) \<and>
     fe_called fe' = fe_called fe @ (case um_find (fe_modules fe) p of None \<Rightarrow> [] | Some m \<Rightarrow> [(p, fe_nodes fe, ready, m)])"

lemma registered_callbacks:
  assumes "registered p ready fe fe'"
  shows "callbacks_of q fe' = (if q = p then callbacks_of p fe @ [(fe_nodes fe, Some ready)] else callbacks_of q fe)"
proof -
  have "um_find (fe_mx fe') q = (if q = p then Some ((mx_of (fe_mx fe) p)\<lparr>mx_callbacks := callbacks_of p fe @ [(fe_nodes fe, Some ready)]\<rparr>) else um_find (fe_mx fe) q)"
    using assms unfolding registered_def by blast
  then show ?thesis by (simp add: mx_of_def)
qed

lemma registered_requests_fine:
  assumes rf: "requests_fine fe" and r: "registered p ready fe fe'"
  shows "requests_fine fe'"
  unfolding requests_fine_def
proof (intro conjI allI impI)
  note cb = registered_callbacks [OF r] and fr = callbacks_fresh [OF rf]
  have mx: "um_find (fe_mx fe') q = (if q = p then Some ((mx_of (fe_mx fe) p)\<lparr>mx_callbacks := callbacks_of p fe @ [(fe_nodes fe, Some ready)]\<rparr>) else um_find (fe_mx fe) q)" for q
    using r unfolding registered_def by blast
  have n: "fe_nodes fe' = fe_nodes fe + 1" "fe_modules fe' = fe_modules fe" using r unfolding registered_def by simp_all
  {
    fix q mx' assume q: "um_find (fe_mx fe') q = Some mx'"
    show "calm mx'"
    proof (cases "q = p")
      case True
      then have "mx' = (mx_of (fe_mx fe) p)\<lparr>mx_callbacks := callbacks_of p fe @ [(fe_nodes fe, Some ready)]\<rparr>" using q mx by simp
      then show ?thesis using fr(1,3,4,5,6) [of p] by (auto simp: calm_def)
    next
      case False
      then show ?thesis using q mx requests_fineD(1) [OF rf, of q mx'] by simp
    qed
    have "mx_callbacks mx' = callbacks_of q fe'" using q by (simp add: mx_of_def)
    then show "\<forall>n\<in>fst ` set (mx_callbacks mx'). n < fe_nodes fe'" unfolding cb n using fr(2) by (auto simp: less_Suc_eq)
  next
    fix q
    show "(um_find (fe_underlying fe') q \<noteq> None) = (um_find (fe_mx fe') q \<noteq> None \<and> um_find (fe_modules fe') q = None)"
      using r requests_fineD(2) [OF rf, of q] unfolding registered_def by (auto split: if_splits)
  next
    fix q q' :: u32 assume "q \<noteq> q'"
    then show "fst ` set (callbacks_of q fe') \<inter> fst ` set (callbacks_of q' fe') = {}"
      unfolding cb using requests_fineD(3) [OF rf, of q q'] fr(1) by auto
  }
qed

lemma registered_calls_fine:
  assumes rf: "requests_fine fe" and cf: "calls_fine fe" and r: "registered p ready fe fe'"
  shows "calls_fine fe'"
proof (rule calls_fineI)
  note cb = registered_callbacks [OF r] and fr = callbacks_fresh [OF rf]
  have n: "fe_nodes fe' = fe_nodes fe + 1" "fe_modules fe' = fe_modules fe" using r unfolding registered_def by simp_all
  have c: "fe_called fe' = fe_called fe @ (case um_find (fe_modules fe) p of None \<Rightarrow> [] | Some m \<Rightarrow> [(p, fe_nodes fe, ready, m)])"
    using r unfolding registered_def by blast
  have fresh: "fe_nodes fe \<notin> (fst \<circ> snd) ` set (fe_called fe)" using calls_fineD(2) [OF cf] by fastforce
  show "distinct (map (fst \<circ> snd) (fe_called fe'))" using calls_fineD(1) [OF cf] fresh by (simp add: c split: option.splits)
  show "fst (snd x) < fe_nodes fe' \<and> um_find (fe_modules fe') (fst x) = Some (snd (snd (snd x)))" if x: "x \<in> set (fe_called fe')" for x
  proof (cases "x \<in> set (fe_called fe)")
    case True
    then show ?thesis using calls_fineD(2) [OF cf True] by (simp add: n)
  next
    case False
    then show ?thesis using x by (auto simp: c n split: option.splits)
  qed
  have called: "(fst \<circ> snd) ` set (fe_called fe') = (fst \<circ> snd) ` set (fe_called fe) \<union> (if um_find (fe_modules fe) p = None then {} else {fe_nodes fe})"
    by (auto simp: c image_Un split: option.splits)
  fix q m assume m: "m \<in> fst ` set (callbacks_of q fe')"
  show "m \<in> (fst \<circ> snd) ` set (fe_called fe') \<longleftrightarrow> um_find (fe_modules fe') q \<noteq> None"
  proof (cases "m = fe_nodes fe")
    case True
    then have "q = p" using m fr(1) [of q] unfolding cb by (auto split: if_splits)
    then show ?thesis unfolding called n using True fresh by simp
  next
    case False
    then have "m \<in> fst ` set (callbacks_of q fe)" using m unfolding cb by (auto split: if_splits)
    then show ?thesis unfolding called n using calls_fineD(3) [OF cf, of m q] False by simp
  qed
qed

lemma request_missing:
  assumes rf: "requests_fine fe" and p: "um_find (fe_modules fe) p = None"
  shows "registered p ready fe (request_metadata p ready fe)" "fe_finals (request_metadata p ready fe) = fe_finals fe"
    "fe_disconnects (request_metadata p ready fe) = fe_disconnects fe"
proof -
  obtain u M where c: "mx_create p (fe_nodes fe) ready (fe_mx fe) = (u, M)" by fastforce
  note m = mx_create_fields [OF rf c]
  let ?fe = "fe\<lparr>fe_mx := M, fe_nodes := fe_nodes fe + 1\<rparr>"
  have r: "request_metadata p ready fe = (if u then request_metadata_nw_cached p ?fe else ?fe)" by (simp add: request_metadata_def c p)
  show "fe_finals (request_metadata p ready fe) = fe_finals fe" "fe_disconnects (request_metadata p ready fe) = fe_disconnects fe"
    unfolding r by (simp_all add: request_metadata_nw_cached_def request_metadata_nw_def Let_def split: option.splits)
  have "um_find (fe_underlying (request_metadata p ready fe)) q \<noteq> None \<longleftrightarrow> (if q = p then um_find (fe_modules fe) p = None else um_find (fe_underlying fe) q \<noteq> None)" for q
    unfolding r using m(1) p requests_fineD(2) [OF rf, of p]
    by (auto simp: request_metadata_nw_cached_def request_metadata_nw_def dict_simps Let_def split: option.splits)
  moreover have "fe_modules (request_metadata p ready fe) = fe_modules fe" "fe_nodes (request_metadata p ready fe) = fe_nodes fe + 1"
    "fe_mx (request_metadata p ready fe) = M" "fe_called (request_metadata p ready fe) = fe_called fe"
    unfolding r by (simp_all add: request_metadata_nw_cached_def request_metadata_nw_def Let_def split: option.splits)
  ultimately show "registered p ready fe (request_metadata p ready fe)" using m(2) p unfolding registered_def by simp
qed

lemma request_present_finalizing:
  assumes rf: "requests_fine fe" and p: "um_find (fe_modules fe) p = Some m"
  shows "registered p (Finalizing k) fe (request_metadata p (Finalizing k) fe)"
    "fe_finals (request_metadata p (Finalizing k) fe) = fe_finals (finalization_ready k fe)"
    "fe_disconnects (request_metadata p (Finalizing k) fe) = fe_disconnects (finalization_ready k fe)"
proof -
  obtain u M where c: "mx_create p (fe_nodes fe) (Finalizing k) (fe_mx fe) = (u, M)" by fastforce
  let ?fe = "fe\<lparr>fe_mx := M, fe_nodes := fe_nodes fe + 1, fe_called := fe_called fe @ [(p, fe_nodes fe, Finalizing k, m)]\<rparr>"
  have r: "request_metadata p (Finalizing k) fe = finalization_ready k ?fe" by (simp add: request_metadata_def c p call_ready_def Let_def)
  show "fe_finals (request_metadata p (Finalizing k) fe) = fe_finals (finalization_ready k fe)"
    "fe_disconnects (request_metadata p (Finalizing k) fe) = fe_disconnects (finalization_ready k fe)"
    unfolding r by (simp_all add: finalization_ready_def Let_def)
  show "registered p (Finalizing k) fe (request_metadata p (Finalizing k) fe)"
    unfolding r registered_def using mx_create_fields(2) [OF rf c] p requests_fineD(2) [OF rf, of p]
    by (simp add: finalization_ready_def Let_def)
qed

lemma request_present_other:
  assumes rf: "requests_fine fe" and p: "um_find (fe_modules fe) p = Some m"
  shows "\<exists>M U. request_metadata p Other fe = fe\<lparr>fe_mx := M, fe_nodes := fe_nodes fe + 1, fe_called := fe_called fe @ [(p, fe_nodes fe, Other, m)], fe_underlying := U\<rparr> \<and>
    (\<forall>q. um_find M q = um_find (fe_mx fe) q) \<and> (\<forall>q. um_find U q = um_find (fe_underlying fe) q)"
proof -
  obtain u M where c: "mx_create p (fe_nodes fe) Other (fe_mx fe) = (u, M)" by fastforce
  let ?mx = "(mx_of (fe_mx fe) p)\<lparr>mx_callbacks := callbacks_of p fe @ [(fe_nodes fe, Some Other)]\<rparr>"
  let ?M = "destroy_inner p (fe_nodes fe) M"
  have mp: "um_find M p = Some ?mx" using mx_create_fields(2) [OF rf c, of p] by simp
  have "filter (\<lambda>(n, c). n \<noteq> fe_nodes fe) (callbacks_of p fe) = callbacks_of p fe"
    using callbacks_fresh(1) [OF rf, of p] by (auto simp: filter_id_conv image_iff)
  then have "?M = destroy_if_empty p (mx_of (fe_mx fe) p) M"
    using callbacks_fresh(5) [OF rf, of p] by (simp add: destroy_inner_def mp)
  moreover have "callbacks_of p fe = [] \<longleftrightarrow> um_find (fe_mx fe) p = None"
    using mx_create_fields(1) [OF rf c] c by (auto simp: mx_create_def mx_of_def mx_new_def Let_def)
  ultimately have M: "um_find ?M q = um_find (fe_mx fe) q" for q
    using mx_create_fields(2) [OF rf c, of q] by (auto simp: destroy_if_empty_def dict_simps mx_of_def split: option.splits)
  have u: "um_find (fe_underlying fe) p = None" using requests_fineD(2) [OF rf, of p] p by simp
  let ?U = "if um_find ?M p = None then um_erase p (fe_underlying fe) else fe_underlying fe"
  have "um_find ?U q = um_find (fe_underlying fe) q" for q using u by (auto simp: dict_simps)
  moreover have "request_metadata p Other fe = fe\<lparr>fe_mx := ?M, fe_nodes := fe_nodes fe + 1, fe_called := fe_called fe @ [(p, fe_nodes fe, Other, m)], fe_underlying := ?U\<rparr>"
    by (simp add: request_metadata_def c p u call_ready_def release_handle_def Let_def)
  ultimately show ?thesis using M by blast
qed

definition fine :: "nat \<Rightarrow> frontend \<Rightarrow> bool" where
  "fine c fe \<longleftrightarrow> requests_fine fe \<and> finals_fine c fe \<and> calls_fine fe"

lemma finals_fine_cong:
  assumes ff: "finals_fine c fe" and eq: "fe_finals fe' = fe_finals fe" "fe_disconnects fe' = fe_disconnects fe" "fe_modules fe' = fe_modules fe"
    and cb: "\<And>q. filter (\<lambda>c. c \<noteq> Some Other) (map snd (callbacks_of q fe')) = filter (\<lambda>c. c \<noteq> Some Other) (map snd (callbacks_of q fe))"
  shows "finals_fine c fe'"
proof (rule finals_fineI)
  have fi: "finals_in cs = {k. Some (Finalizing k) \<in> set (filter (\<lambda>c. c \<noteq> Some Other) (map snd cs))}" for cs by (auto simp: finals_in_def)
  show "finals_in (callbacks_of p fe') = {k. k < length (fe_finals fe') \<and> p \<in> set (fz_requested (fe_finals fe' ! k))}" for p
    using finals_fineD(3) [OF ff, of p] unfolding fi cb eq .
qed (use finals_fineD [OF ff] in \<open>simp_all only: eq cb not_False_eq_True\<close>)

lemma request_other_fine:
  assumes f: "fine c fe"
  shows "fine c (request_metadata p Other fe)" "fe_finals (request_metadata p Other fe) = fe_finals fe"
proof -
  have rf: "requests_fine fe" and ff: "finals_fine c fe" and cf: "calls_fine fe" using f unfolding fine_def by blast+
  have "fine c (request_metadata p Other fe) \<and> fe_finals (request_metadata p Other fe) = fe_finals fe"
  proof (cases "um_find (fe_modules fe) p")
    case None
    note r = request_missing [OF rf None, of Other]
    have "finals_fine c (request_metadata p Other fe)"
      by (rule finals_fine_cong [OF ff]) (use r in \<open>simp_all add: registered_def registered_callbacks [OF r(1)]\<close>)
    then show ?thesis using registered_requests_fine [OF rf r(1)] registered_calls_fine [OF rf cf r(1)] r(2) unfolding fine_def by blast
  next
    case (Some m)
    let ?fe = "request_metadata p Other fe"
    from request_present_other [OF rf Some] obtain M U where
      r: "?fe = fe\<lparr>fe_mx := M, fe_nodes := fe_nodes fe + 1, fe_called := fe_called fe @ [(p, fe_nodes fe, Other, m)], fe_underlying := U\<rparr>"
        "\<And>q. um_find M q = um_find (fe_mx fe) q" "\<And>q. um_find U q = um_find (fe_underlying fe) q" by blast
    have cb: "callbacks_of q ?fe = callbacks_of q fe" for q using r(2) by (simp add: r(1) mx_of_def)
    have eq: "fe_nodes ?fe = fe_nodes fe + 1" "fe_modules ?fe = fe_modules fe" "fe_finals ?fe = fe_finals fe" "fe_disconnects ?fe = fe_disconnects fe"
      "fe_called ?fe = fe_called fe @ [(p, fe_nodes fe, Other, m)]" by (simp_all add: r(1))
    have mx: "um_find (fe_mx ?fe) q = um_find (fe_mx fe) q" "um_find (fe_underlying ?fe) q = um_find (fe_underlying fe) q" for q by (simp_all add: r)
    have fresh: "fe_nodes fe \<notin> (fst \<circ> snd) ` set (fe_called fe)" using calls_fineD(2) [OF cf] by fastforce
    have "requests_fine ?fe" unfolding requests_fine_def mx eq cb
      using requests_fineD [OF rf] by (intro conjI allI impI) (simp_all add: less_SucI)
    moreover have "finals_fine c ?fe" by (rule finals_fine_cong [OF ff]) (simp_all add: eq cb)
    moreover have "calls_fine ?fe"
    proof (rule calls_fineI)
      show "distinct (map (fst \<circ> snd) (fe_called ?fe))" using calls_fineD(1) [OF cf] fresh by (simp add: eq)
      show "fst (snd x) < fe_nodes ?fe \<and> um_find (fe_modules ?fe) (fst x) = Some (snd (snd (snd x)))" if "x \<in> set (fe_called ?fe)" for x
        using that calls_fineD(2) [OF cf, of x] Some by (auto simp: eq)
      show "n \<in> (fst \<circ> snd) ` set (fe_called ?fe) \<longleftrightarrow> um_find (fe_modules ?fe) q \<noteq> None" if "n \<in> fst ` set (callbacks_of q ?fe)" for n q
      proof -
        have n: "n \<in> fst ` set (callbacks_of q fe)" using that by (simp only: cb)
        then have "n \<noteq> fe_nodes fe" using callbacks_fresh(1) [OF rf, of q] by blast
        then show ?thesis using calls_fineD(3) [OF cf n] unfolding eq by simp
      qed
    qed
    ultimately show ?thesis using eq(3) unfolding fine_def by blast
  qed
  then show "fine c (request_metadata p Other fe)" "fe_finals (request_metadata p Other fe) = fe_finals fe" by blast+
qed

section \<open>Finalizations\<close>

lemma finals_fine_registered:
  assumes ff: "finals_fine c fe" and rf: "requests_fine fe" and c: "length (fe_finals fe) = Suc c"
    and p: "p \<notin> set (fz_requested (fe_finals fe ! c))" "length (fz_requested (fe_finals fe ! c)) + 1 < 2 ^ 32"
    and f: "fe_finals fe' = (fe_finals fe)[c := (fe_finals fe ! c)\<lparr>fz_requested := p # fz_requested (fe_finals fe ! c),
      fz_remaining := remaining fe c + (if um_find (fe_modules fe) p = None then 1 else 0)\<rparr>]"
    and eq: "fe_disconnects fe' = fe_disconnects fe" "fe_modules fe' = fe_modules fe"
    and cb: "\<And>q. callbacks_of q fe' = (if q = p then callbacks_of p fe @ [(n, Some (Finalizing c))] else callbacks_of q fe)"
  shows "finals_fine c fe'"
proof (rule finals_fineI)
  have len: "length (fe_finals fe') = Suc c" by (simp add: f c)
  have old: "fe_finals fe' ! k = fe_finals fe ! k" if "k < c" for k using that by (simp add: f)
  have new: "fz_requested (fe_finals fe' ! c) = p # fz_requested (fe_finals fe ! c)" "fz_enable (fe_finals fe' ! c) = fz_enable (fe_finals fe ! c)"
    "remaining fe' c = remaining fe c + (if um_find (fe_modules fe) p = None then 1 else 0)" by (simp_all add: f c)
  show "c \<le> length (fe_finals fe')" by (simp add: len)
  have nc: "c \<notin> finals_in (callbacks_of p fe)" unfolding finals_fineD(3) [OF ff] using p(1) by simp
  fix q
  show "distinct (filter (\<lambda>c. c \<noteq> Some Other) (map snd (callbacks_of q fe')))"
    using finals_fineD(2) [OF ff, of q] nc by (auto simp: cb finals_in_def image_iff)
  have "finals_in (callbacks_of q fe') = finals_in (callbacks_of q fe) \<union> (if q = p then {c} else {})" by (auto simp: cb finals_in_def)
  also have "\<dots> = {k. k < length (fe_finals fe') \<and> q \<in> set (fz_requested (fe_finals fe' ! k))}"
    unfolding finals_fineD(3) [OF ff] len c
  proof (intro set_eqI)
    fix k
    consider "k < c" | "k = c" | "Suc c \<le> k" by linarith
    then show "k \<in> {k. k < Suc c \<and> q \<in> set (fz_requested (fe_finals fe ! k))} \<union> (if q = p then {c} else {}) \<longleftrightarrow>
        k \<in> {k. k < Suc c \<and> q \<in> set (fz_requested (fe_finals fe' ! k))}"
      by cases (auto simp: old new)
  qed
  finally show "finals_in (callbacks_of q fe') = {k. k < length (fe_finals fe') \<and> q \<in> set (fz_requested (fe_finals fe' ! k))}" .
next
  have len: "length (fe_finals fe') = Suc c" by (simp add: f c)
  have old: "fe_finals fe' ! k = fe_finals fe ! k" if "k < c" for k using that by (simp add: f)
  have new: "fz_requested (fe_finals fe' ! c) = p # fz_requested (fe_finals fe ! c)" "fz_enable (fe_finals fe' ! c) = fz_enable (fe_finals fe ! c)"
    "remaining fe' c = remaining fe c + (if um_find (fe_modules fe) p = None then 1 else 0)" by (simp_all add: f c)
  show "length (fz_requested (fe_finals fe' ! k)) < 2 ^ 32 \<and> distinct (fz_requested (fe_finals fe' ! k)) \<and>
      remaining fe' k = of_nat (card {q \<in> set (fz_requested (fe_finals fe' ! k)). um_find (fe_modules fe') q = None})" if "k < length (fe_finals fe')" for k
  proof (cases "k = c")
    case True
    let ?X = "{q \<in> set (fz_requested (fe_finals fe ! c)). um_find (fe_modules fe) q = None}"
    have "{q \<in> set (p # fz_requested (fe_finals fe ! c)). um_find (fe_modules fe) q = None} = (if um_find (fe_modules fe) p = None then insert p ?X else ?X)" by auto
    then show ?thesis using True p finals_fineD(4) [OF ff, of c] c unfolding True new eq(2) by simp
  next
    case False
    then show ?thesis using that finals_fineD(4) [OF ff, of k] c by (simp add: len old eq(2))
  qed
  show "k < c \<Longrightarrow> remaining fe' k \<noteq> 0 \<Longrightarrow> fz_enable (fe_finals fe' ! k)" for k using finals_fineD(5) [OF ff, of k] by (simp add: old)
  show "k < length (fe_finals fe') \<Longrightarrow> c \<le> k \<Longrightarrow> \<not> fz_enable (fe_finals fe' ! k)" for k
    using finals_fineD(6) [OF ff, of c] c by (simp add: len less_Suc_eq new)
  have "{k. k < c \<and> remaining fe' k = 0} = {k. k < c \<and> remaining fe k = 0}" using old by auto
  then show "fe_disconnects fe' = card {k. k < c \<and> remaining fe' k = 0}" using finals_fineD(7) [OF ff] eq(1) by simp
qed

definition needed :: "(u64 \<times> u32) list \<Rightarrow> u64 list \<Rightarrow> u32 set" where
  "needed mappings addresses = {p. \<exists>a\<in>set addresses. \<exists>b. find_range mappings a = Some (b, p)}"

lemma find_range_mem: "find_range c v = Some x \<Longrightarrow> x \<in> set c"
proof -
  assume f: "find_range c v = Some x"
  let ?i = "length (takeWhile (\<lambda>x. fst x \<le> v) c)"
  have i: "?i \<noteq> 0" "x = c ! (?i - 1)" using f by (auto simp: find_range_def Let_def split: if_splits)
  have "?i \<le> length c" by (rule length_takeWhile_le)
  then have "?i - 1 < length c" using i(1) by linarith
  then show ?thesis unfolding i(2) by (rule nth_mem)
qed

lemma finals_only:
  assumes "fine c fe" "fe' = fe\<lparr>fe_finals := fs\<rparr>"
  shows "requests_fine fe'" "calls_fine fe'"
  using assms by (simp_all add: fine_def requests_fine_def calls_fine_def)

text \<open>What the loop keeps while it has asked for the modules \<open>N\<close>.\<close>

definition collecting :: "nat \<Rightarrow> u32 list list \<Rightarrow> u32 set \<Rightarrow> frontend \<Rightarrow> bool" where
  "collecting c rs N fe \<longleftrightarrow> fine c fe \<and> length (fe_finals fe) = Suc c \<and> set (fz_requested (fe_finals fe ! c)) = N \<and>
     map fz_requested (take c (fe_finals fe)) = rs"

lemma finalize_entry_collects:
  assumes f: "collecting c rs N fe" and N: "N \<subseteq> snd ` set mappings" "length mappings < 2 ^ 32"
  shows "collecting c rs (N \<union> needed mappings [a]) (finalize_entry mappings c a fe)"
proof (cases "find_range mappings a")
  case None
  then show ?thesis using f by (simp add: finalize_entry_def needed_def)
next
  case (Some bp)
  obtain b p where bp: "bp = (b, p)" by (cases bp)
  have fi: "fine c fe" and len: "length (fe_finals fe) = Suc c" and set: "set (fz_requested (fe_finals fe ! c)) = N"
    and rs: "map fz_requested (take c (fe_finals fe)) = rs" using f unfolding collecting_def by blast+
  have nd: "needed mappings [a] = {p}" using Some bp by (simp add: needed_def)
  show ?thesis
  proof (cases "p \<in> N")
    case True
    then show ?thesis using f Some by (simp add: finalize_entry_def bp set nd insert_absorb)
  next
    case False
    let ?f = "fe_finals fe ! c"
    let ?fe = "fe\<lparr>fe_finals := (fe_finals fe)[c := ?f\<lparr>fz_requested := p # fz_requested ?f, fz_remaining := fz_remaining ?f + 1\<rparr>]\<rparr>"
    let ?fe' = "request_metadata p (Finalizing c) ?fe"
    have e: "finalize_entry mappings c a fe = ?fe'" using Some bp False by (simp add: finalize_entry_def set Let_def)
    have rf: "requests_fine ?fe" "calls_fine ?fe" using finals_only [OF fi, of ?fe] by simp_all
    have ff: "finals_fine c fe" and rf0: "requests_fine fe" using fi unfolding fine_def by blast+
    have "p \<in> snd ` set mappings" using find_range_mem [OF Some] bp by force
    then have "card (insert p N) \<le> card (snd ` set mappings)" using N(1) by (intro card_mono) auto
    also have "\<dots> \<le> length mappings" by (metis card_image_le card_length dual_order.trans List.finite_set)
    finally have "card (insert p N) < 2 ^ 32" using N(2) by simp
    then have small: "length (fz_requested ?f) + 1 < 2 ^ 32"
      using False finals_fineD(4) [OF ff, of c] len set by (metis List.finite_set Suc_eq_plus1 card_insert_disjoint distinct_card lessI)
    have reg: "registered p (Finalizing c) ?fe ?fe' \<and> fe_disconnects ?fe' = fe_disconnects fe \<and>
      fe_finals ?fe' = (fe_finals fe)[c := ?f\<lparr>fz_requested := p # fz_requested ?f, fz_remaining := remaining fe c + (if um_find (fe_modules fe) p = None then 1 else 0)\<rparr>]"
    proof (cases "um_find (fe_modules fe) p")
      case None
      then show ?thesis using request_missing [OF rf(1), of p "Finalizing c"] by simp
    next
      case (Some m)
      then show ?thesis using request_present_finalizing [OF rf(1), of p m c] len finals_fineD(6) [OF ff, of c]
        by (simp add: finalization_ready_def Let_def)
    qed
    then have "registered p (Finalizing c) ?fe ?fe'" by blast
    note cb = registered_callbacks [OF this] and r2 = registered_requests_fine [OF rf(1) this] and c2 = registered_calls_fine [OF rf this]
    have "fe_modules ?fe' = fe_modules fe" using reg by (simp add: registered_def)
    then have "finals_fine c ?fe'"
      using finals_fine_registered [OF ff rf0 len _ small, of p ?fe' "fe_nodes fe"] reg False set cb by simp
    then have "fine c ?fe'" using r2 c2 unfolding fine_def by blast
    then show ?thesis unfolding collecting_def e nd using reg len set rs by simp
  qed
qed

lemma finalize_loop_collects:
  assumes "collecting c rs N fe" "N \<subseteq> snd ` set mappings" "length mappings < 2 ^ 32"
  shows "collecting c rs (N \<union> needed mappings addresses) (fold (finalize_entry mappings c) addresses fe)"
  using assms(1,2)
proof (induction addresses arbitrary: N fe)
  case Nil
  then show ?case by (simp add: needed_def)
next
  case (Cons a addresses)
  have "needed mappings [a] \<subseteq> snd ` set mappings" using find_range_mem by (force simp: needed_def)
  then have "N \<union> needed mappings [a] \<subseteq> snd ` set mappings" using Cons.prems(2) by blast
  moreover have "N \<union> needed mappings [a] \<union> needed mappings addresses = N \<union> needed mappings (a # addresses)" by (auto simp: needed_def)
  ultimately show ?case using Cons.IH [OF finalize_entry_collects [OF Cons.prems assms(3), of a]] by simp
qed

lemma finalization_opened:
  assumes f: "fine c fe" "length (fe_finals fe) = c"
  shows "collecting c (map fz_requested (fe_finals fe)) {} (fe\<lparr>fe_finals := fe_finals fe @ [\<lparr>fz_remaining = 0, fz_enable = False, fz_requested = []\<rparr>]\<rparr>)"
    (is "collecting c _ _ ?fe")
proof -
  have ff: "finals_fine c fe" using f unfolding fine_def by blast
  have "finals_fine c ?fe"
  proof (rule finals_fineI)
    fix p
    show "distinct (filter (\<lambda>c. c \<noteq> Some Other) (map snd (callbacks_of p ?fe)))" using finals_fineD(2) [OF ff, of p] by simp
    have "{k. k < length (fe_finals ?fe) \<and> p \<in> set (fz_requested (fe_finals ?fe ! k))} = {k. k < c \<and> p \<in> set (fz_requested (fe_finals fe ! k))}"
      using f(2) by (auto simp: nth_append split: if_splits)
    then show "finals_in (callbacks_of p ?fe) = {k. k < length (fe_finals ?fe) \<and> p \<in> set (fz_requested (fe_finals ?fe ! k))}"
      using finals_fineD(3) [OF ff, of p] f(2) by simp
  next
    fix k assume "k < length (fe_finals ?fe)"
    then show "length (fz_requested (fe_finals ?fe ! k)) < 2 ^ 32 \<and> distinct (fz_requested (fe_finals ?fe ! k)) \<and>
      remaining ?fe k = of_nat (card {p \<in> set (fz_requested (fe_finals ?fe ! k)). um_find (fe_modules ?fe) p = None})"
      using finals_fineD(4) [OF ff, of k] f(2) by (cases "k < c") (simp_all add: nth_append)
  next
    fix k assume "k < c" "remaining ?fe k \<noteq> 0"
    then show "fz_enable (fe_finals ?fe ! k)" using finals_fineD(5) [OF ff, of k] f(2) by (simp add: nth_append)
  next
    have "{k. k < c \<and> remaining ?fe k = 0} = {k. k < c \<and> remaining fe k = 0}" using f(2) by (auto simp: nth_append)
    then show "fe_disconnects ?fe = card {k. k < c \<and> remaining ?fe k = 0}" using finals_fineD(7) [OF ff] by simp
  qed (use f(2) in \<open>simp_all add: nth_append\<close>)
  then show ?thesis using finals_only [OF f(1), of ?fe] f(2) by (simp add: collecting_def fine_def nth_append)
qed

text \<open>The loop is over.\<close>

definition closing :: "nat \<Rightarrow> frontend \<Rightarrow> frontend" where
  "closing c fe = (if remaining fe c = 0 then fe\<lparr>fe_disconnects := fe_disconnects fe + 1\<rparr>
     else fe\<lparr>fe_finals := (fe_finals fe)[c := (fe_finals fe ! c)\<lparr>fz_enable := True\<rparr>]\<rparr>)"

lemma closing_fields:
  assumes "length (fe_finals fe) = Suc c"
  shows "length (fe_finals (closing c fe)) = Suc c" "fz_requested (fe_finals (closing c fe) ! k) = fz_requested (fe_finals fe ! k)"
    "remaining (closing c fe) k = remaining fe k" "k < c \<Longrightarrow> fe_finals (closing c fe) ! k = fe_finals fe ! k"
    "callbacks_of q (closing c fe) = callbacks_of q fe" "fe_modules (closing c fe) = fe_modules fe"
    "map fz_requested (fe_finals (closing c fe)) = map fz_requested (fe_finals fe)"
proof -
  show 1: "length (fe_finals (closing c fe)) = Suc c" "fz_requested (fe_finals (closing c fe) ! k) = fz_requested (fe_finals fe ! k)"
    "remaining (closing c fe) k = remaining fe k" "k < c \<Longrightarrow> fe_finals (closing c fe) ! k = fe_finals fe ! k" for k
    using assms by (cases "k = c"; simp add: closing_def)+
  show "callbacks_of q (closing c fe) = callbacks_of q fe" "fe_modules (closing c fe) = fe_modules fe" by (simp_all add: closing_def)
  show "map fz_requested (fe_finals (closing c fe)) = map fz_requested (fe_finals fe)" using 1 assms by (intro nth_equalityI) simp_all
qed

lemma closing_fine:
  assumes f: "fine c fe" and len: "length (fe_finals fe) = Suc c"
  shows "fine (Suc c) (closing c fe)"
proof -
  note cl = closing_fields [OF len]
  have ff: "finals_fine c fe" using f unfolding fine_def by blast
  have "finals_fine (Suc c) (closing c fe)"
  proof (rule finals_fineI)
    fix k assume k: "k < Suc c" "remaining (closing c fe) k \<noteq> 0"
    show "fz_enable (fe_finals (closing c fe) ! k)"
    proof (cases "k = c")
      case True
      then show ?thesis using k(2) len unfolding cl(3) by (simp add: closing_def)
    next
      case False
      then show ?thesis using k finals_fineD(5) [OF ff, of k] cl(3,4) [of k] by simp
    qed
  next
    have "{k. k < Suc c \<and> remaining (closing c fe) k = 0} = (if remaining fe c = 0 then insert c {k. k < c \<and> remaining fe k = 0} else {k. k < c \<and> remaining fe k = 0})"
      unfolding cl(3) by (auto simp: less_Suc_eq)
    then have "card {k. k < Suc c \<and> remaining (closing c fe) k = 0} = fe_disconnects fe + (if remaining fe c = 0 then 1 else 0)"
      using finals_fineD(7) [OF ff] by simp
    then show "fe_disconnects (closing c fe) = card {k. k < Suc c \<and> remaining (closing c fe) k = 0}" by (simp add: closing_def)
  qed (use finals_fineD(2-4) [OF ff] in \<open>simp_all add: len cl(1-3,5,6)\<close>)
  moreover have "requests_fine (closing c fe) \<and> calls_fine (closing c fe)"
    using f unfolding fine_def requests_fine_def calls_fine_def by (simp add: closing_def)
  ultimately show ?thesis unfolding fine_def by blast
qed

lemma finalize_fine:
  assumes f: "fine (length (fe_finals fe)) fe" and m: "length mappings < 2 ^ 32"
  shows "fine (length (fe_finals (finalize mappings addresses fe))) (finalize mappings addresses fe)"
    "map (set \<circ> fz_requested) (fe_finals (finalize mappings addresses fe)) = map (set \<circ> fz_requested) (fe_finals fe) @ [needed mappings addresses]"
proof -
  let ?c = "length (fe_finals fe)" and ?rs = "map fz_requested (fe_finals fe)"
  define fe1 where "fe1 = fold (finalize_entry mappings ?c) addresses (fe\<lparr>fe_finals := fe_finals fe @ [\<lparr>fz_remaining = 0, fz_enable = False, fz_requested = []\<rparr>]\<rparr>)"
  from finalize_loop_collects [OF finalization_opened [OF f refl] _ m, of addresses]
  have col: "collecting ?c ?rs (needed mappings addresses) fe1" by (simp add: fe1_def)
  then have f1: "fine ?c fe1" and len: "length (fe_finals fe1) = Suc ?c" and set: "set (fz_requested (fe_finals fe1 ! ?c)) = needed mappings addresses"
    and rs: "map fz_requested (take ?c (fe_finals fe1)) = ?rs" unfolding collecting_def by blast+
  have fe2: "finalize mappings addresses fe = closing ?c fe1" by (simp add: finalize_def Let_def fe1_def closing_def)
  note cl = closing_fields [OF len]
  show "fine (length (fe_finals (finalize mappings addresses fe))) (finalize mappings addresses fe)"
    unfolding fe2 cl(1) using f1 len by (rule closing_fine)
  have "map fz_requested (fe_finals fe1) = ?rs @ [fz_requested (fe_finals fe1 ! ?c)]"
    using rs len take_Suc_conv_app_nth [of ?c "fe_finals fe1"] by (metis lessI list.simps(8,9) map_append order_refl take_all)
  then have "map set (map fz_requested (fe_finals fe1)) = map set (?rs @ [fz_requested (fe_finals fe1 ! ?c)])" by (rule arg_cong)
  then show "map (set \<circ> fz_requested) (fe_finals (finalize mappings addresses fe)) = map (set \<circ> fz_requested) (fe_finals fe) @ [needed mappings addresses]"
    unfolding fe2 map_map [symmetric] cl(7) by (simp add: set)
qed

section \<open>Handles are given back\<close>

lemma destroy_if_empty_entry:
  "um_find (destroy_if_empty p (mx\<lparr>mx_callbacks := cs\<rparr>) M) q = (if q = p then mx_entry mx cs else um_find M q)"
  by (simp add: destroy_if_empty_def mx_entry_def dict_simps)

lemma release_fine:
  assumes f: "fine c fe" and n: "(n, Some Other) \<in> set (callbacks_of p fe)" and p: "um_find (fe_modules fe) p = None"
  shows "fine c (release_handle p n fe)" "fe_finals (release_handle p n fe) = fe_finals fe"
proof -
  have rf: "requests_fine fe" and ff: "finals_fine c fe" and cf: "calls_fine fe" using f unfolding fine_def by blast+
  let ?fe = "release_handle p n fe" and ?cs = "filter (\<lambda>(k, c). k \<noteq> n) (callbacks_of p fe)" and ?mx = "mx_of (fe_mx fe) p"
  have mx: "um_find (fe_mx fe) p = Some ?mx" using n by (auto simp: mx_of_def mx_new_def split: option.splits)
  have cm: "calm ?mx" using requests_fineD(1) [OF rf mx] by blast
  have "fe_mx ?fe = destroy_if_empty p (?mx\<lparr>mx_callbacks := ?cs\<rparr>) (fe_mx fe)"
    using callbacks_fresh(5) [OF rf, of p] by (simp add: release_handle_def Let_def destroy_inner_def mx)
  then have M: "um_find (fe_mx ?fe) q = (if q = p then mx_entry ?mx ?cs else um_find (fe_mx fe) q)" for q
    by (simp only: destroy_if_empty_entry)
  have eq: "fe_nodes ?fe = fe_nodes fe" "fe_modules ?fe = fe_modules fe" "fe_finals ?fe = fe_finals fe" "fe_disconnects ?fe = fe_disconnects fe" "fe_called ?fe = fe_called fe"
    by (simp_all add: release_handle_def Let_def)
  have U: "um_find (fe_underlying ?fe) q = (if q = p \<and> um_find (fe_mx ?fe) p = None then None else um_find (fe_underlying fe) q)" for q
    by (simp add: release_handle_def Let_def dict_simps)
  have cb: "callbacks_of q ?fe = (if q = p then ?cs else callbacks_of q fe)" for q
    using M [of q] by (cases "q = p") (simp_all add: mx_of_def mx_entry_def mx_new_def)
  have sub: "set (callbacks_of q ?fe) \<subseteq> set (callbacks_of q fe)" for q by (auto simp: cb)
  have "requests_fine ?fe" unfolding requests_fine_def
  proof (intro conjI allI impI)
    fix q mx' assume q: "um_find (fe_mx ?fe) q = Some mx'"
    then have c: "mx_callbacks mx' = callbacks_of q ?fe" by (simp add: mx_of_def)
    show "\<forall>n\<in>fst ` set (mx_callbacks mx'). n < fe_nodes ?fe"
    proof
      fix k assume "k \<in> fst ` set (mx_callbacks mx')"
      then have "k \<in> fst ` set (callbacks_of q fe)" unfolding c by (rule subsetD [OF image_mono [OF sub]])
      then show "k < fe_nodes ?fe" unfolding eq by (rule callbacks_fresh(2) [OF rf])
    qed
    show "calm mx'"
    proof (cases "q = p")
      case True
      have "distinct (map fst ?cs)" using callbacks_fresh(4) [OF rf, of p] by (simp add: distinct_map_filter)
      then show ?thesis using mx_entry_calm [OF cm, of ?cs mx'] q True by (auto simp: M)
    next
      case False
      then show ?thesis using q M requests_fineD(1) [OF rf, of q mx'] by simp
    qed
  next
    fix q
    show "(um_find (fe_underlying ?fe) q \<noteq> None) = (um_find (fe_mx ?fe) q \<noteq> None \<and> um_find (fe_modules ?fe) q = None)"
      using requests_fineD(2) [OF rf, of q] mx unfolding U eq M by (cases "q = p") simp_all
  next
    fix q r :: u32 assume "q \<noteq> r"
    from requests_fineD(3) [OF rf this] show "fst ` set (callbacks_of q ?fe) \<inter> fst ` set (callbacks_of r ?fe) = {}"
      using image_mono [OF sub [of q], of fst] image_mono [OF sub [of r], of fst] by blast
  qed
  moreover have "finals_fine c ?fe"
  proof (rule finals_fine_cong [OF ff eq(3,4,2)])
    have "k \<noteq> n \<or> d = Some Other" if "(k, d) \<in> set (callbacks_of p fe)" for k d
      using distinct_node [OF callbacks_fresh(4) [OF rf, of p] _ n] that by blast
    then have "filter (\<lambda>x. snd x \<noteq> Some Other) ?cs = filter (\<lambda>x. snd x \<noteq> Some Other) (callbacks_of p fe)"
      unfolding filter_filter by (intro filter_cong) auto
    then show "filter (\<lambda>c. c \<noteq> Some Other) (map snd (callbacks_of q ?fe)) = filter (\<lambda>c. c \<noteq> Some Other) (map snd (callbacks_of q fe))" for q
      by (simp add: cb filter_map comp_def)
  qed
  moreover have "calls_fine ?fe"
  proof (rule calls_fineI)
    show "n \<in> (fst \<circ> snd) ` set (fe_called ?fe) \<longleftrightarrow> um_find (fe_modules ?fe) q \<noteq> None" if "n \<in> fst ` set (callbacks_of q ?fe)" for n q
      unfolding eq using that image_mono [OF sub [of q], of fst] by (intro calls_fineD(3) [OF cf]) blast
  qed (use calls_fineD(1,2) [OF cf] in \<open>simp_all only: eq\<close>)
  ultimately show "fine c ?fe" unfolding fine_def by blast
  show "fe_finals ?fe = fe_finals fe" by (rule eq(3))
qed

section \<open>Sessions\<close>

text \<open>The modules each finalization needs are those of the addresses of all calls when it began.\<close>

inductive session :: "frontend \<Rightarrow> u32 set list \<Rightarrow> bool" where
  opened: "session frontend_init []"
| mapped: "session fe ns \<Longrightarrow> session (mapping_created p path fe) ns"
| asked: "session fe ns \<Longrightarrow> session (request_metadata p Other fe) ns"
| given_back: "session fe ns \<Longrightarrow> (n, Some Other) \<in> set (callbacks_of p fe) \<Longrightarrow> um_find (fe_modules fe) p = None \<Longrightarrow> session (release_handle p n fe) ns"
| read: "session fe ns \<Longrightarrow> um_find (fe_underlying fe) p = Some (Reading path) \<Longrightarrow> session (metadata_read p path m fe) ns"
| received: "session fe ns \<Longrightarrow> um_find (fe_underlying fe) p = Some (Asked st) \<Longrightarrow> session (metadata_received p st m' fe) ns"
| exits: "session fe ns \<Longrightarrow> length mappings < 2 ^ 32 \<Longrightarrow> session (finalize mappings addresses fe) (ns @ [needed mappings addresses])"

lemma mapping_created_fine: "fine c fe \<Longrightarrow> fine c (mapping_created p path fe)"
  by (simp add: fine_def requests_fine_def finals_fine_def calls_fine_def mapping_created_def)

lemma asked_remote_fine:
  assumes "fine c fe" "um_find (fe_underlying fe) p \<noteq> None"
  shows "fine c (request_metadata_nw p st fe)"
  using assms unfolding fine_def requests_fine_def finals_fine_def calls_fine_def request_metadata_nw_def
  by (auto simp: dict_simps)

lemma delivered_fine:
  assumes "fine c fe" "delivered p m fe fe''"
  shows "fine c fe''" "map (set \<circ> fz_requested) (fe_finals fe'') = map (set \<circ> fz_requested) (fe_finals fe)"
proof -
  have rf: "requests_fine fe" and ff: "finals_fine c fe" and cf: "calls_fine fe" using assms(1) unfolding fine_def by blast+
  show "fine c fe''"
    unfolding fine_def using delivered_requests_fine [OF rf assms(2)] delivered_finals_fine(1) [OF rf ff assms(2)] delivered_calls_fine [OF rf cf assms(2)] by blast
  show "map (set \<circ> fz_requested) (fe_finals fe'') = map (set \<circ> fz_requested) (fe_finals fe)"
    unfolding map_map [symmetric] delivered_finals_fine(2) [OF rf ff assms(2)] ..
qed

lemma session_fine: "session fe ns \<Longrightarrow> fine (length (fe_finals fe)) fe \<and> map (set \<circ> fz_requested) (fe_finals fe) = ns"
proof (induction rule: session.induct)
  case opened
  show ?case
    by (simp add: fine_def requests_fine_def finals_fine_def calls_fine_def frontend_init_def mx_of_def mx_new_def)
next
  case (mapped fe ns p path)
  then show ?case using mapping_created_fine by (simp add: mapping_created_def)
next
  case (asked fe ns p)
  then show ?case using request_other_fine by metis
next
  case (given_back fe ns n p)
  then show ?case using release_fine by metis
next
  case (read fe ns p path m)
  show ?case
  proof (cases m)
    case None
    have "fe_finals (request_metadata_nw p (Some path) fe) = fe_finals fe" by (simp add: request_metadata_nw_def)
    then show ?thesis using asked_remote_fine [of _ fe p "Some path"] read by (simp add: metadata_read_def None)
  next
    case (Some m')
    have "delivered p m' fe (metadata_read p path m fe)"
      unfolding delivered_def metadata_read_def Some using read.hyps(2) by (auto intro: exI [of _ "fe_stored fe"])
    then show ?thesis using delivered_fine [of "length (fe_finals fe)" fe p m'] read.IH by (metis length_map)
  qed
next
  case (received fe ns p st m)
  have "\<exists>s. metadata_received p st m fe = mx_invoke p m (fe\<lparr>fe_modules := um_assign p m (fe_modules fe), fe_stored := s\<rparr>)"
    by (cases st) (auto simp: metadata_received_def Let_def intro: exI [of _ "fe_stored fe"])
  then have "delivered p m fe (metadata_received p st m fe)" unfolding delivered_def using received.hyps(2) by auto
  then show ?case using delivered_fine [of "length (fe_finals fe)" fe p m] received.IH by (metis length_map)
next
  case (exits fe ns mappings addresses)
  have f: "fine (length (fe_finals fe)) fe" using exits.IH by blast
  show ?case using finalize_fine [OF f exits.hyps(2), of addresses] exits.IH by metis
qed

section \<open>One request for a module\<close>

text \<open>Each request that was begun was abandoned, is under way, or has put the metadata into the table.\<close>

definition begun_fine :: "frontend \<Rightarrow> bool" where
  "begun_fine fe \<longleftrightarrow> (\<forall>p. count_list (fe_begun fe) p = count_list (fe_abandoned fe) p +
     of_bool (um_find (fe_underlying fe) p \<noteq> None \<or> um_find (fe_modules fe) p \<noteq> None))"

lemma request_begun:
  assumes "requests_fine fe" "begun_fine fe"
  shows "begun_fine (request_metadata p ready fe)"
proof (cases "um_find (fe_modules fe) p")
  case None
  obtain u M where c: "mx_create p (fe_nodes fe) ready (fe_mx fe) = (u, M)" by fastforce
  have u: "u \<longleftrightarrow> um_find (fe_underlying fe) p = None"
    using mx_create_fields(1) [OF assms(1) c] requests_fineD(2) [OF assms(1), of p] None by blast
  have b: "count_list (fe_begun fe) q = count_list (fe_abandoned fe) q + of_bool (um_find (fe_underlying fe) q \<noteq> None \<or> um_find (fe_modules fe) q \<noteq> None)" for q
    using assms(2) by (simp add: begun_fine_def)
  show ?thesis unfolding begun_fine_def
  proof
    fix q
    show "count_list (fe_begun (request_metadata p ready fe)) q = count_list (fe_abandoned (request_metadata p ready fe)) q +
      of_bool (um_find (fe_underlying (request_metadata p ready fe)) q \<noteq> None \<or> um_find (fe_modules (request_metadata p ready fe)) q \<noteq> None)"
      using b [of q] u None by (cases "q = p"; cases "um_find (fe_cache_paths fe) p")
        (auto simp: request_metadata_def c request_metadata_nw_cached_def request_metadata_nw_def dict_simps Let_def)
  qed
next
  case (Some m)
  show ?thesis
  proof (cases ready)
    case Other
    from request_present_other [OF assms(1) Some] obtain M U where
      "request_metadata p Other fe = fe\<lparr>fe_mx := M, fe_nodes := fe_nodes fe + 1, fe_called := fe_called fe @ [(p, fe_nodes fe, Other, m)], fe_underlying := U\<rparr>"
      "\<forall>q. um_find U q = um_find (fe_underlying fe) q" by blast
    then show ?thesis using assms(2) by (simp add: Other begun_fine_def)
  next
    case (Finalizing k)
    then show ?thesis using assms(2) Some by (auto simp: begun_fine_def request_metadata_def call_ready_def finalization_ready_def Let_def split: prod.splits)
  qed
qed

lemma finalize_entry_begun:
  assumes "collecting c rs N fe" "begun_fine fe"
  shows "begun_fine (finalize_entry mappings c a fe)"
proof -
  have "begun_fine (request_metadata p (Finalizing c) (fe\<lparr>fe_finals := fs\<rparr>))" for p fs
    using assms by (intro request_begun) (simp_all add: collecting_def fine_def requests_fine_def begun_fine_def)
  then show ?thesis using assms(2) by (simp add: finalize_entry_def Let_def split: option.splits)
qed

lemma finalize_loop_begun:
  assumes "collecting c rs N fe" "N \<subseteq> snd ` set mappings" "length mappings < 2 ^ 32" "begun_fine fe"
  shows "begun_fine (fold (finalize_entry mappings c) addresses fe)"
  using assms(1,2,4)
proof (induction addresses arbitrary: N fe)
  case (Cons a as)
  have "needed mappings [a] \<subseteq> snd ` set mappings" using find_range_mem by (force simp: needed_def split: option.splits)
  with Cons.IH [OF finalize_entry_collects [OF Cons.prems(1,2) assms(3)] _ finalize_entry_begun [OF Cons.prems(1,3)]] Cons.prems(2)
  show ?case by simp
qed simp

lemma finalize_begun:
  assumes "fine (length (fe_finals fe)) fe" "length mappings < 2 ^ 32" "begun_fine fe"
  shows "begun_fine (finalize mappings addresses fe)"
proof -
  let ?fe = "fe\<lparr>fe_finals := fe_finals fe @ [\<lparr>fz_remaining = 0, fz_enable = False, fz_requested = []\<rparr>]\<rparr>"
  have "begun_fine ?fe" using assms(3) by (simp add: begun_fine_def)
  from finalize_loop_begun [OF finalization_opened [OF assms(1) refl] _ assms(2) this] show ?thesis
    by (simp add: finalize_def Let_def begun_fine_def)
qed

lemma delivered_begun:
  assumes "requests_fine fe" "begun_fine fe" "delivered p m fe fe''"
  shows "begun_fine fe''"
proof -
  from delivered_result [OF assms(1,3)] obtain M st where
    fe'': "fe'' = (fold (answer p m) (callbacks_of p fe) (fe\<lparr>fe_modules := um_assign p m (fe_modules fe), fe_stored := st\<rparr>))
      \<lparr>fe_mx := M, fe_underlying := um_erase p (fe_underlying fe)\<rparr>" by blast
  have "um_find (fe_underlying fe) p \<noteq> None" using assms(3) by (simp add: delivered_def)
  with assms(2) show ?thesis by (auto simp: begun_fine_def fe'' dict_simps)
qed

lemma session_begun: "session fe ns \<Longrightarrow> begun_fine fe"
proof (induction rule: session.induct)
  case (asked fe ns p)
  then show ?case using session_fine [OF asked.hyps] request_begun unfolding fine_def by blast
next
  case (given_back fe ns n p)
  have rf: "requests_fine fe" using session_fine [OF given_back.hyps(1)] unfolding fine_def by blast
  have "um_find (fe_mx fe) p \<noteq> None" using given_back.hyps(2) by (auto simp: mx_of_def mx_new_def split: option.splits)
  then have u: "um_find (fe_underlying fe) p \<noteq> None" using requests_fineD(2) [OF rf, of p] given_back.hyps(3) by simp
  show ?case unfolding begun_fine_def
  proof
    fix q
    have "count_list (fe_begun fe) q = count_list (fe_abandoned fe) q + of_bool (um_find (fe_underlying fe) q \<noteq> None \<or> um_find (fe_modules fe) q \<noteq> None)"
      using given_back.IH by (simp add: begun_fine_def)
    then show "count_list (fe_begun (release_handle p n fe)) q = count_list (fe_abandoned (release_handle p n fe)) q +
      of_bool (um_find (fe_underlying (release_handle p n fe)) q \<noteq> None \<or> um_find (fe_modules (release_handle p n fe)) q \<noteq> None)"
      using u given_back.hyps(3) by (cases "q = p") (auto simp: release_handle_def Let_def dict_simps)
  qed
next
  case (read fe ns p path m)
  show ?case
  proof (cases m)
    case None
    then show ?thesis using read.IH read.hyps(2) by (auto simp: metadata_read_def request_metadata_nw_def begun_fine_def dict_simps)
  next
    case (Some m')
    have "delivered p m' fe (metadata_read p path m fe)"
      unfolding delivered_def metadata_read_def Some using read.hyps(2) by (auto intro: exI [of _ "fe_stored fe"])
    then show ?thesis using delivered_begun read.IH session_fine [OF read.hyps(1)] unfolding fine_def by blast
  qed
next
  case (received fe ns p st m)
  have "\<exists>s. metadata_received p st m fe = mx_invoke p m (fe\<lparr>fe_modules := um_assign p m (fe_modules fe), fe_stored := s\<rparr>)"
    by (cases st) (auto simp: metadata_received_def Let_def intro: exI [of _ "fe_stored fe"])
  then have "delivered p m fe (metadata_received p st m fe)" unfolding delivered_def using received.hyps(2) by auto
  then show ?case using delivered_begun received.IH session_fine [OF received.hyps(1)] unfolding fine_def by blast
next
  case (exits fe ns mappings addresses)
  then show ?case using finalize_begun session_fine by blast
qed (simp_all add: begun_fine_def frontend_init_def mapping_created_def)

section \<open>Properties\<close>

text \<open>
  C16. A session that ends has what it needs. For each time the collector said it is exiting, the frontend disconnects exactly once,
  and exactly when the metadata of every module with a recorded call are in its table; whether they were there before, come from files or
  from the collector, in which order they come, which of them others asked for or gave up, and however many modules there are.
  When no request of metadata is under way, it has disconnected.
\<close>

theorem disconnects_when_complete:
  assumes "session fe ns"
  shows "fe_disconnects fe = card {k. k < length ns \<and> (\<forall>p\<in>ns ! k. um_find (fe_modules fe) p \<noteq> None)} \<and>
    ((\<forall>p. um_find (fe_underlying fe) p = None) \<longrightarrow> fe_disconnects fe = length ns)"
proof -
  from session_fine [OF assms] have f: "fine (length (fe_finals fe)) fe" and ns: "map (set \<circ> fz_requested) (fe_finals fe) = ns" by blast+
  have len: "length ns = length (fe_finals fe)" unfolding ns [symmetric] by simp
  have ff: "finals_fine (length ns) fe" using f len unfolding fine_def by simp
  have rf: "requests_fine fe" using f unfolding fine_def by blast
  have nk: "ns ! k = set (fz_requested (fe_finals fe ! k))" if "k < length ns" for k using that unfolding ns [symmetric] by simp
  have "{k. k < length ns \<and> remaining fe k = 0} = {k. k < length ns \<and> (\<forall>p\<in>ns ! k. um_find (fe_modules fe) p \<noteq> None)}"
    using remaining_zero [OF ff] nk len by auto
  then have 1: "fe_disconnects fe = card {k. k < length ns \<and> (\<forall>p\<in>ns ! k. um_find (fe_modules fe) p \<noteq> None)}"
    using finals_fineD(7) [OF ff] by simp
  have "fe_disconnects fe = length ns" if idle: "\<forall>p. um_find (fe_underlying fe) p = None"
  proof -
    have "um_find (fe_modules fe) p \<noteq> None" if "k < length ns" "p \<in> ns ! k" for k p
    proof -
      have "k \<in> finals_in (callbacks_of p fe)" unfolding finals_fineD(3) [OF ff] using that nk len by simp
      then have "um_find (fe_mx fe) p \<noteq> None" by (auto simp: finals_in_def mx_of_def mx_new_def split: option.splits)
      then show ?thesis using requests_fineD(2) [OF rf, of p] idle by simp
    qed
    then have "{k. k < length ns \<and> (\<forall>p\<in>ns ! k. um_find (fe_modules fe) p \<noteq> None)} = {..<length ns}" by auto
    with 1 show ?thesis by simp
  qed
  with 1 show ?thesis by blast
qed

text \<open>
  C18. Whoever asks for the metadata of a module and keeps its request gets them, once. In every state, a callback was called at most once, with
  what the table has for the module; a callback that is registered was called if the table has the metadata, and otherwise a request for
  them is under way. Of the requests begun for a module, all were abandoned by those who had asked, but for the one that is under way or has been
  answered: there are never two at a time, however many ask, and none once the table has the metadata.
\<close>

theorem metadata_are_given_once:
  assumes "session fe ns"
  shows "distinct (map (fst \<circ> snd) (fe_called fe)) \<and>
    (\<forall>(p, n, ready, m)\<in>set (fe_called fe). um_find (fe_modules fe) p = Some m) \<and>
    (\<forall>p. \<forall>n\<in>fst ` set (callbacks_of p fe).
       if um_find (fe_modules fe) p = None then n \<notin> (fst \<circ> snd) ` set (fe_called fe) \<and> um_find (fe_underlying fe) p \<noteq> None
       else n \<in> (fst \<circ> snd) ` set (fe_called fe)) \<and>
    (\<forall>p. count_list (fe_begun fe) p = count_list (fe_abandoned fe) p +
       (if um_find (fe_underlying fe) p \<noteq> None \<or> um_find (fe_modules fe) p \<noteq> None then 1 else 0))"
proof -
  have f: "fine (length (fe_finals fe)) fe" using session_fine [OF assms] by blast
  then have rf: "requests_fine fe" and cf: "calls_fine fe" unfolding fine_def by blast+
  have "um_find (fe_modules fe) p = Some m" if "(p, n, ready, m) \<in> set (fe_called fe)" for p n ready m
    using calls_fineD(2) [OF cf that] by simp
  moreover have "if um_find (fe_modules fe) p = None then n \<notin> (fst \<circ> snd) ` set (fe_called fe) \<and> um_find (fe_underlying fe) p \<noteq> None
       else n \<in> (fst \<circ> snd) ` set (fe_called fe)" if n: "n \<in> fst ` set (callbacks_of p fe)" for p n
  proof -
    have "um_find (fe_mx fe) p \<noteq> None" using n by (auto simp: mx_of_def mx_new_def split: option.splits)
    then show ?thesis using calls_fineD(3) [OF cf n] requests_fineD(2) [OF rf, of p] by auto
  qed
  moreover have "count_list (fe_begun fe) p = count_list (fe_abandoned fe) p +
      (if um_find (fe_underlying fe) p \<noteq> None \<or> um_find (fe_modules fe) p \<noteq> None then 1 else 0)" for p
    using session_begun [OF assms] by (simp add: begun_fine_def)
  ultimately show ?thesis using calls_fineD(1) [OF cf] by blast
qed

text \<open>Two modules with calls; another asked for the metadata of the first, which come last.\<close>

abbreviation example_modules :: "(u64 \<times> u32) list" where
  "example_modules \<equiv> [(4096, 1), (65536, 2)]"

abbreviation example_metadata :: module_info_metadata where
  "example_metadata \<equiv> \<lparr>md_symbols = [], md_source_files = []\<rparr>"

definition example_waiting :: frontend where
  "example_waiting = finalize example_modules [65540, 4100, 65544, 7] (request_metadata 1 Other (mapping_created 1 ''a'' frontend_init))"

definition example_complete :: frontend where
  "example_complete = metadata_received 1 (Some ''a'') example_metadata (metadata_received 2 None example_metadata (metadata_read 1 ''a'' None example_waiting))"

lemma example_needed: "needed example_modules [65540, 4100, 65544, 7] = {1, 2}"
  by (auto simp: needed_def find_range_def)

lemma example_waiting_session: "session example_waiting [{1, 2}]"
proof -
  have "session (request_metadata 1 Other (mapping_created 1 ''a'' frontend_init)) []" by (intro session.asked session.mapped session.opened)
  from session.exits [OF this, of example_modules "[65540, 4100, 65544, 7]"] show ?thesis
    unfolding example_waiting_def example_needed by simp
qed

lemma example_complete_session: "session example_complete [{1, 2}]"
proof -
  have "um_find (fe_underlying example_waiting) 1 = Some (Reading ''a'')" by code_simp
  note 1 = session.read [OF example_waiting_session this, of None]
  have "um_find (fe_underlying (metadata_read 1 ''a'' None example_waiting)) 2 = Some (Asked None)" by code_simp
  note 2 = session.received [OF 1 this, of example_metadata]
  have "um_find (fe_underlying (metadata_received 2 None example_metadata (metadata_read 1 ''a'' None example_waiting))) 1 = Some (Asked (Some ''a''))" by code_simp
  from session.received [OF 2 this, of example_metadata] show ?thesis unfolding example_complete_def .
qed

theorem disconnects_when_complete_witness:
  "fe_disconnects example_waiting = 0 \<and> fe_disconnects example_complete = 1 \<and>
    1 = card {k. k < length [{1, 2 :: u32}] \<and> (\<forall>p\<in>[{1, 2}] ! k. um_find (fe_modules example_complete) p \<noteq> None)}"
proof -
  have "fe_disconnects example_waiting = 0" "fe_disconnects example_complete = 1" by code_simp+
  with disconnects_when_complete [OF example_complete_session] show ?thesis by (metis (no_types, lifting))
qed

theorem metadata_are_given_once_witness:
  "distinct (map (fst \<circ> snd) (fe_called example_complete)) \<and> map (fst \<circ> snd) (fe_called example_complete) = [1, 0, 2] \<and>
    count_list (fe_begun example_complete) 1 = 1"
proof -
  have "fe_abandoned example_complete = []" "um_find (fe_modules example_complete) 1 \<noteq> None" by code_simp+
  moreover have "map (fst \<circ> snd) (fe_called example_complete) = [1, 0, 2]" by code_simp
  ultimately show ?thesis using metadata_are_given_once [OF example_complete_session] by simp
qed

text \<open>
  Files of modules that differ in their names or their hashes have different names.
\<close>

lemma cache_path_inj:
  assumes "construct_cache_path d p h = Some s" "construct_cache_path d q h' = Some s"
  shows "path_file p = path_file q \<and> h = h'"
proof -
  have hex: "\<exists>t. itoa_unsigned 16 32 (unat g) 8 CHR ''0'' = Some t \<and> digits_value 16 0 t = unat g \<and> length t = 8" for g :: u32
  proof -
    have g: "unat g < 2 ^ 32" using unsigned_less [of g] by simp
    have "length (itoa_digits 16 (unat g)) \<le> 8" using itoa_digits_props [of 16 "unat g" 8] g by simp
    with itoa_props [of 16 "unat g" 32 8] g show ?thesis by (auto simp: max_def split: if_splits)
  qed
  obtain t where t: "itoa_unsigned 16 32 (unat h) 8 CHR ''0'' = Some t" "digits_value 16 0 t = unat h" "length t = 8" using hex by blast
  obtain u where u: "itoa_unsigned 16 32 (unat h') 8 CHR ''0'' = Some u" "digits_value 16 0 u = unat h'" "length u = 8" using hex by blast
  have "path_join d (path_file p) @ ''-'' @ t @ ''.symcache'' = path_join d (path_file q) @ ''-'' @ u @ ''.symcache''"
    using assms t(1) u(1) by (simp add: construct_cache_path_def)
  then have eq: "path_join d (path_file p) = path_join d (path_file q)" "t = u" using t(3) u(3) by (simp_all add: append_eq_append_conv)
  have "path_file p = path_file q" using eq(1) by (simp add: path_join_def split: if_splits)
  moreover have "h = h'" using t(2) u(2) eq(2) by (metis word_unat_eq_iff)
  ultimately show ?thesis by blast
qed

end
