(* ===== verification/Threads_Session.thy ===== *)
theory Threads_Session
  imports Thread_Monitor
begin

text \<open>
  What the frontend knows of the threads of the process: \<^verbatim>\<open>update_threads\<close> of \<^verbatim>\<open>frontend/src/frontend.cpp\<close>, the handler of
  \<^verbatim>\<open>request_threads_info\<close> in \<^verbatim>\<open>collector/src/collector_app.cpp\<close> and the monitor of \<^verbatim>\<open>Thread_Monitor\<close> behind it. Requests and
  responses keep their order and may be on their way for any time. The table of threads is a map from external identifiers, as its unique index
  makes it. A record made by the index has the values of a default constructed one.
\<close>

section \<open>The exchange\<close>

definition thread_record :: thread_info where
  "thread_record = \<lparr>ti_native_id = 0, ti_description = [], ti_start_time = 0, ti_end_time = 0, ti_cpu_time = 0, ti_complete = False\<rparr>"

definition mark_incomplete :: "u32 \<Rightarrow> (u32, thread_info) umap \<Rightarrow> (u32, thread_info) umap" where
  "mark_incomplete i threads =
     (let rec = (case um_find threads i of None \<Rightarrow> thread_record | Some ti \<Rightarrow> ti) in um_assign i (rec\<lparr>ti_complete := False\<rparr>) threads)"

definition update_threads :: "u32 list \<Rightarrow> (u32, thread_info) umap \<Rightarrow> u32 list \<times> (u32, thread_info) umap" where
  "update_threads thread_ids threads =
     (let threads = fold mark_incomplete thread_ids threads
      in (map fst (filter (\<lambda>x. \<not> ti_complete (snd x)) threads), threads))"

definition threads_info :: "os_info \<Rightarrow> thread_monitor \<Rightarrow> u32 list \<Rightarrow> u32 + (u32 \<times> thread_info) list" where
  "threads_info os tm ids = get_info os tm ids"

definition threads_received :: "(u32 \<times> thread_info) list \<Rightarrow> (u32, thread_info) umap \<Rightarrow> (u32, thread_info) umap" where
  "threads_received infos threads = fold (\<lambda>(i, ti). um_assign i ti) infos threads"

record threads_session =
  th_monitor :: thread_monitor
  th_table :: "(u32, thread_info) umap"
  th_requests :: "u32 list list"
  th_responses :: "(u32 \<times> thread_info) list list"

text \<open>Statistics are reported of registered threads. Fewer than \<open>2 ^ 32\<close> threads register (\<open>n\<close> counts what happens in the process).\<close>

inductive threads_run :: "nat \<Rightarrow> threads_session \<Rightarrow> bool" where
  begun: "threads_run 0 \<lparr>th_monitor = thread_monitor_init, th_table = [], th_requests = [], th_responses = []\<rparr>"
| process: "threads_run n s \<Longrightarrow> tm_step p (th_monitor s) = Some tm \<Longrightarrow> op_ok p \<Longrightarrow> Suc n < 2 ^ 32 \<Longrightarrow> threads_run (Suc n) (s\<lparr>th_monitor := tm\<rparr>)"
| updated: "threads_run n s \<Longrightarrow> \<forall>i\<in>set reported. um_find (tm_threads (th_monitor s)) i \<noteq> None \<Longrightarrow> update_threads reported (th_table s) = (ids, t) \<Longrightarrow>
    threads_run n (s\<lparr>th_table := t, th_requests := th_requests s @ [ids]\<rparr>)"
| handled: "threads_run n s \<Longrightarrow> th_requests s = ids # rs \<Longrightarrow> os_ok os \<Longrightarrow> threads_info os (th_monitor s) ids = Inr infos \<Longrightarrow>
    threads_run n (s\<lparr>th_requests := rs, th_responses := th_responses s @ [infos]\<rparr>)"
| delivered: "threads_run n s \<Longrightarrow> th_responses s = infos # rs \<Longrightarrow>
    threads_run n (s\<lparr>th_table := threads_received infos (th_table s), th_responses := rs\<rparr>)"

section \<open>Operations\<close>

lemma find_mark: "um_find (mark_incomplete i t) j =
    (if j = i then Some ((case um_find t i of None \<Rightarrow> thread_record | Some ti \<Rightarrow> ti)\<lparr>ti_complete := False\<rparr>) else um_find t j)"
  by (simp add: mark_incomplete_def dict_simps Let_def)

lemma um_ok_mark: "um_ok t \<Longrightarrow> um_ok (mark_incomplete i t)"
  by (simp add: mark_incomplete_def dict_simps Let_def)

lemma fold_mark:
  "um_ok t \<Longrightarrow> um_ok (fold mark_incomplete is t)"
  "um_find (fold mark_incomplete is t) j = Some ti \<Longrightarrow> ti_complete ti \<Longrightarrow> j \<notin> set is \<and> um_find t j = Some ti"
  "um_find (fold mark_incomplete is t) j \<noteq> None \<longleftrightarrow> j \<in> set is \<or> um_find t j \<noteq> None"
proof (induction "is" arbitrary: t)
  case (Cons i "is")
  { case 1 then show ?case using Cons.IH(1) um_ok_mark by simp }
  { case 2 then show ?case using Cons.IH(2) [of "mark_incomplete i t"] by (auto simp: find_mark split: if_splits) }
  { case 3 show ?case using Cons.IH(3) [of "mark_incomplete i t"] by (auto simp: find_mark split: if_splits) }
qed auto

lemma update_threads_props:
  assumes "update_threads is t = (ids, t')" "um_ok t"
  shows "um_ok t'" "um_find t' j = Some ti \<Longrightarrow> ti_complete ti \<Longrightarrow> j \<notin> set is \<and> um_find t j = Some ti"
    "um_find t' j \<noteq> None \<longleftrightarrow> j \<in> set is \<or> um_find t j \<noteq> None"
    "j \<in> set ids \<longleftrightarrow> (\<exists>ti. um_find t' j = Some ti \<and> \<not> ti_complete ti)"
proof -
  have t': "t' = fold mark_incomplete is t" "ids = map fst (filter (\<lambda>x. \<not> ti_complete (snd x)) t')"
    using assms(1) by (auto simp: update_threads_def Let_def)
  show ok: "um_ok t'" using fold_mark(1) [OF assms(2)] by (simp add: t'(1))
  show "um_find t' j = Some ti \<Longrightarrow> ti_complete ti \<Longrightarrow> j \<notin> set is \<and> um_find t j = Some ti" unfolding t'(1) by (rule fold_mark(2))
  show "um_find t' j \<noteq> None \<longleftrightarrow> j \<in> set is \<or> um_find t j \<noteq> None" unfolding t'(1) by (rule fold_mark(3))
  have "um_find t' j = Some ti \<longleftrightarrow> (j, ti) \<in> set t'" for ti using ok unfolding um_ok_def by (simp add: map_of_eq_Some_iff)
  then show "j \<in> set ids \<longleftrightarrow> (\<exists>ti. um_find t' j = Some ti \<and> \<not> ti_complete ti)" unfolding t'(2) by force
qed

definition current_info :: "os_info \<Rightarrow> thread_monitor \<Rightarrow> thread_info \<Rightarrow> thread_info" where
  "current_info os tm t = (if ti_complete t then t else update_live_info os tm (ti_native_id t) t)"

lemma get_info_Cons: "get_info os tm (j # ids) = Inr infos \<Longrightarrow>
    \<exists>t vs. um_find (tm_threads tm) j = Some t \<and> get_info os tm ids = Inr vs \<and> infos = (j, current_info os tm t) # vs"
  by (auto simp: current_info_def Let_def split: option.splits sum.splits if_splits)

lemma get_info_props:
  assumes "get_info os tm ids = Inr infos"
  shows "map fst infos = ids"
    "(i, ti) \<in> set infos \<Longrightarrow> \<exists>t. um_find (tm_threads tm) i = Some t \<and> ti = current_info os tm t"
  using assms
proof (induction ids arbitrary: infos)
  case (Cons j ids)
  { case 1 then show ?case using get_info_Cons Cons.IH(1) by fastforce }
  { case 2 then show ?case using get_info_Cons [OF 2(2)] Cons.IH(2) by auto }
qed simp_all

lemma get_info_total: "\<forall>i\<in>set ids. um_find (tm_threads tm) i \<noteq> None \<Longrightarrow> \<exists>infos. get_info os tm ids = Inr infos"
  by (induction ids) (auto simp: Let_def split: option.splits sum.splits)

lemma update_live_complete: "os_ok os \<Longrightarrow> ti_complete (update_live_info os tm a ti) = ti_complete ti"
  by (simp add: update_live_info_def os_ok_def split: option.splits)

lemma received_props:
  "um_ok t \<Longrightarrow> um_ok (threads_received infos t)"
  "um_find (threads_received infos t) i = Some ti \<Longrightarrow> (i, ti) \<in> set infos \<or> um_find t i = Some ti"
  "um_find (threads_received infos t) i \<noteq> None \<longleftrightarrow> i \<in> fst ` set infos \<or> um_find t i \<noteq> None"
  "i \<notin> fst ` set infos \<Longrightarrow> um_find (threads_received infos t) i = um_find t i"
  "i \<in> fst ` set infos \<Longrightarrow> \<exists>ti. (i, ti) \<in> set infos \<and> um_find (threads_received infos t) i = Some ti"
proof (induction infos arbitrary: t)
  case (Cons x infos)
  { case 1 then show ?case using Cons.IH(1) by (cases x) (simp add: threads_received_def dict_simps) }
  { case 2 then show ?case using Cons.IH(2) [of "um_assign (fst x) (snd x) t"] by (cases x) (auto simp: threads_received_def dict_simps split: if_splits) }
  { case 3 show ?case using Cons.IH(3) [of "um_assign (fst x) (snd x) t"] by (cases x) (auto simp: threads_received_def dict_simps split: if_splits) }
  { case 4 then show ?case using Cons.IH(4) [of "um_assign (fst x) (snd x) t"] by (cases x) (auto simp: threads_received_def dict_simps) }
  { case 5
    obtain j tj where x: "x = (j, tj)" by (cases x)
    show ?case
    proof (cases "i \<in> fst ` set infos")
      case True
      then show ?thesis using Cons.IH(5) [of "um_assign j tj t"] by (auto simp: threads_received_def x)
    next
      case False
      then show ?thesis using 5 Cons.IH(4) [of "um_assign j tj t"] by (auto simp: threads_received_def x dict_simps)
    qed }
qed (auto simp: threads_received_def)

section \<open>The invariant\<close>

lemma step_keeps_threads: "tm_step p tm = Some tm' \<Longrightarrow> um_find (tm_threads tm) j \<noteq> None \<Longrightarrow> um_find (tm_threads tm') j \<noteq> None"
  by (cases p) (auto simp: register_self_def thread_exited_def bind_eq_Some_conv dict_simps Let_def split: option.splits if_splits)

text \<open>Nothing that calls itself complete differs from what the monitor has.\<close>

definition honest :: "thread_monitor \<Rightarrow> u32 \<Rightarrow> thread_info \<Rightarrow> bool" where
  "honest tm i ti \<longleftrightarrow> um_find (tm_threads tm) i \<noteq> None \<and> (ti_complete ti \<longrightarrow> um_find (tm_threads tm) i = Some ti)"

definition threads_ok :: "nat \<Rightarrow> threads_session \<Rightarrow> bool" where
  "threads_ok n s \<longleftrightarrow> (\<exists>m\<le>n. tm_inv m (th_monitor s)) \<and> um_ok (th_table s) \<and>
     (\<forall>i ti. um_find (th_table s) i = Some ti \<longrightarrow> honest (th_monitor s) i ti) \<and>
     (\<forall>infos\<in>set (th_responses s). \<forall>x\<in>set infos. honest (th_monitor s) (fst x) (snd x)) \<and>
     (\<forall>ids\<in>set (th_requests s). \<forall>i\<in>set ids. um_find (tm_threads (th_monitor s)) i \<noteq> None)"

lemma honest_step:
  assumes "tm_inv m tm" "op_ok p" "Suc m < 2 ^ 32" "tm_step p tm = Some tm'" "honest tm i ti"
  shows "honest tm' i ti"
  using assms(5) step_keeps_threads [OF assms(4), of i] step_props(2) [OF assms(1-4), of i ti] unfolding honest_def by blast

lemma current_honest:
  "um_find (tm_threads tm) i = Some t \<Longrightarrow> os_ok os \<Longrightarrow> honest tm i (current_info os tm t)"
  by (simp add: honest_def current_info_def update_live_complete)

lemma threads_run_ok: "threads_run n s \<Longrightarrow> n < 2 ^ 32 \<and> threads_ok n s"
proof (induction rule: threads_run.induct)
  case begun
  have "tm_inv 0 thread_monitor_init" by (rule tm_inv_init)
  then show ?case by (auto simp: threads_ok_def)
next
  case (process n s p tm)
  then obtain m where m: "m \<le> n" "tm_inv m (th_monitor s)" unfolding threads_ok_def by blast
  have m': "Suc m < 2 ^ 32" using m(1) process.hyps(4) by simp
  have "\<exists>m\<le>Suc n. tm_inv m tm" using step_props(1) [OF m(2) process.hyps(3) m' process.hyps(2)] m(1) by (meson Suc_le_mono le_trans)
  then show ?case
    using process honest_step [OF m(2) process.hyps(3) m' process.hyps(2)] step_keeps_threads [OF process.hyps(2)]
    unfolding threads_ok_def by simp
next
  case (updated n s reported ids t)
  then have ok: "um_ok (th_table s)" unfolding threads_ok_def by blast
  note u = update_threads_props [OF updated.hyps(3) ok]
  have h: "honest (th_monitor s) i ti" if "um_find t i = Some ti" for i ti
    using that u(2,3) [of i] updated.hyps(2) updated.IH unfolding honest_def threads_ok_def by (metis option.distinct(1) option.exhaust)
  moreover have "um_find (tm_threads (th_monitor s)) i \<noteq> None" if "i \<in> set ids" for i using that u(4) h unfolding honest_def by blast
  ultimately show ?case using updated.IH u(1) unfolding threads_ok_def by auto
next
  case (handled n s ids rs os infos)
  have "honest (th_monitor s) (fst x) (snd x)" if "x \<in> set infos" for x
    using get_info_props(2) [of os "th_monitor s" ids infos "fst x" "snd x"] handled.hyps(3,4) that current_honest
    by (auto simp: threads_info_def)
  then show ?case using handled unfolding threads_ok_def by auto
next
  case (delivered n s infos rs)
  have "honest (th_monitor s) i ti" if "um_find (threads_received infos (th_table s)) i = Some ti" for i ti
    using received_props(2) [OF that] delivered unfolding threads_ok_def by force
  then show ?case using delivered received_props(1) [of "th_table s" infos] unfolding threads_ok_def by auto
qed

section \<open>Properties\<close>

text \<open>
  C32. The frontend knows the threads of the process. Whatever happens to threads while requests and responses are on their way: what the table calls
  complete is what the collector has of a thread that ended, and requests are about threads it knows, so that they are answered. After
  an exchange that nothing else overlaps, the table has what the collector has for each thread ever reported.
\<close>

theorem frontend_knows_threads:
  assumes "threads_run n s" "os_ok os"
  shows "(\<forall>i ti. um_find (th_table s) i = Some ti \<longrightarrow> ti_complete ti \<longrightarrow> um_find (tm_threads (th_monitor s)) i = Some ti) \<and>
    (\<forall>ids\<in>set (th_requests s). \<exists>infos. threads_info os (th_monitor s) ids = Inr infos) \<and>
    (\<forall>reported ids t. (\<forall>i\<in>set reported. um_find (tm_threads (th_monitor s)) i \<noteq> None) \<longrightarrow> update_threads reported (th_table s) = (ids, t) \<longrightarrow>
      (\<exists>infos. threads_info os (th_monitor s) ids = Inr infos \<and>
        (\<forall>i. um_find (threads_received infos t) i =
          (if i \<in> set reported \<or> um_find (th_table s) i \<noteq> None then map_option (current_info os (th_monitor s)) (um_find (tm_threads (th_monitor s)) i) else None))))"
proof (intro conjI allI impI ballI)
  have ok: "threads_ok n s" using threads_run_ok [OF assms(1)] by blast
  then have h: "honest (th_monitor s) i ti" if "um_find (th_table s) i = Some ti" for i ti using that unfolding threads_ok_def by blast
  {
    fix i ti assume "um_find (th_table s) i = Some ti" "ti_complete ti"
    then show "um_find (tm_threads (th_monitor s)) i = Some ti" using h unfolding honest_def by blast
  next
    fix ids assume "ids \<in> set (th_requests s)"
    then have "\<forall>i\<in>set ids. um_find (tm_threads (th_monitor s)) i \<noteq> None" using ok unfolding threads_ok_def by blast
    then show "\<exists>infos. threads_info os (th_monitor s) ids = Inr infos" unfolding threads_info_def by (rule get_info_total)
  next
    fix reported ids t
    assume r: "\<forall>i\<in>set reported. um_find (tm_threads (th_monitor s)) i \<noteq> None" and u: "update_threads reported (th_table s) = (ids, t)"
    have "um_ok (th_table s)" using ok unfolding threads_ok_def by blast
    note up = update_threads_props [OF u this]
    have known: "um_find (tm_threads (th_monitor s)) i \<noteq> None" if "um_find t i \<noteq> None" for i
      using that up(3) [of i] r h unfolding honest_def by blast
    then have "\<forall>i\<in>set ids. um_find (tm_threads (th_monitor s)) i \<noteq> None" using up(4) by blast
    then obtain infos where infos: "threads_info os (th_monitor s) ids = Inr infos" unfolding threads_info_def using get_info_total by blast
    note gi = get_info_props [OF infos [unfolded threads_info_def]]
    have "um_find (threads_received infos t) i =
      (if i \<in> set reported \<or> um_find (th_table s) i \<noteq> None then map_option (current_info os (th_monitor s)) (um_find (tm_threads (th_monitor s)) i) else None)" for i
    proof (cases "i \<in> set ids")
      case True
      then have "i \<in> fst ` set infos" using gi(1) by (metis list.set_map)
      then obtain ti where ti: "(i, ti) \<in> set infos" "um_find (threads_received infos t) i = Some ti" using received_props(5) by blast
      have "um_find t i \<noteq> None" using True up(4) by blast
      then show ?thesis using ti(2) gi(2) [OF ti(1)] up(3) [of i] by auto
    next
      case False
      then have e: "um_find (threads_received infos t) i = um_find t i" using gi(1) received_props(4) by (metis list.set_map)
      show ?thesis
      proof (cases "um_find t i")
        case None
        then show ?thesis using e up(3) [of i] by simp
      next
        case (Some ti)
        then have c: "ti_complete ti" using False up(4) by blast
        then have "um_find (th_table s) i = Some ti" using up(2) [OF Some] by blast
        then show ?thesis using e Some h c unfolding honest_def by (auto simp: current_info_def)
      qed
    qed
    with infos show "\<exists>infos. threads_info os (th_monitor s) ids = Inr infos \<and>
        (\<forall>i. um_find (threads_received infos t) i =
          (if i \<in> set reported \<or> um_find (th_table s) i \<noteq> None then map_option (current_info os (th_monitor s)) (um_find (tm_threads (th_monitor s)) i) else None))"
      by blast
  }
qed

theorem frontend_knows_threads_witness:
  "\<exists>n s infos. threads_run n s \<and> threads_info (\<lambda>_ ti. ti\<lparr>ti_cpu_time := 9\<rparr>) (th_monitor s) [0] = Inr infos \<and>
    um_find (threads_received infos [(0, thread_record)]) 0 =
      Some \<lparr>ti_native_id = 5, ti_description = [], ti_start_time = 0, ti_end_time = 0, ti_cpu_time = 9, ti_complete = False\<rparr>"
proof -
  let ?ti = "\<lparr>ti_native_id = 5, ti_description = [], ti_start_time = 0, ti_end_time = 0, ti_cpu_time = 0, ti_complete = False\<rparr>"
  let ?tm = "\<lparr>tm_threads = [(0, ?ti)], tm_alive = [(5, 0)], tm_next_id = 1\<rparr>"
  let ?s = "\<lparr>th_monitor = ?tm, th_table = [], th_requests = [], th_responses = []\<rparr>"
  let ?os = "\<lambda>_ ti. ti\<lparr>ti_cpu_time := 9\<rparr>"
  have "tm_step (Register (\<lambda>_ ti. ti) 5) thread_monitor_init = Some ?tm"
    by (simp add: register_self_def thread_monitor_init_def um_insert_def)
  with threads_run.process [OF threads_run.begun, of "Register (\<lambda>_ ti. ti) 5" ?tm] have r: "threads_run 1 ?s" by (simp add: os_ok_def)
  have "os_ok ?os" by (simp add: os_ok_def)
  from frontend_knows_threads [OF r this, THEN conjunct2, THEN conjunct2, rule_format, of "[0]" "[0]" "[(0, thread_record)]"]
  obtain infos where "threads_info ?os ?tm [0] = Inr infos"
    "\<forall>i. um_find (threads_received infos [(0, thread_record)]) i =
       (if i \<in> set [0] \<or> um_find (th_table ?s) i \<noteq> None then map_option (current_info ?os ?tm) (um_find (tm_threads ?tm) i) else None)"
    by (auto simp: update_threads_def mark_incomplete_def thread_record_def)
  then have "threads_info ?os ?tm [0] = Inr infos \<and> um_find (threads_received infos [(0, thread_record)]) 0 = Some (?ti\<lparr>ti_cpu_time := 9\<rparr>)"
    by (simp add: current_info_def update_live_info_def)
  then show ?thesis using r by (intro exI [of _ 1] exI [of _ ?s] exI [of _ infos]) simp
qed

end
