(* ===== verification/Table_Models.thy ===== *)
theory Table_Models
  imports Views Call_Hierarchy Thread_Monitor
begin

text \<open>
  Rows on a screen that move under their observer: \<^verbatim>\<open>frontend/trackables_provider.h\<close>, \<^verbatim>\<open>frontend/projection_view.h\<close>, the rows of
  \<^verbatim>\<open>frontend/table_model_impl.h\<close> and \<^verbatim>\<open>frontend/src/threads_model.cpp\<close>, over the ordered views of \<^verbatim>\<open>Views\<close>. A trackable is known by the
  number of its list node. An index is a \<^verbatim>\<open>size_t\<close> as a natural number; \<open>npos\<close> is the library's index of no row.
\<close>

section \<open>Trackables\<close>

record 'k trackable =
  tk_key :: 'k
  tk_index :: nat

type_synonym 'k trackables = "(nat, 'k trackable) umap"

definition invalidate_trackables :: "nat \<Rightarrow> 'k trackables \<Rightarrow> 'k trackables" where
  "invalidate_trackables npos ts = map (\<lambda>(n, t). (n, t\<lparr>tk_index := npos\<rparr>)) ts"

definition place_trackables :: "'k \<Rightarrow> nat \<Rightarrow> 'k trackables \<Rightarrow> 'k trackables" where
  "place_trackables key i ts = map (\<lambda>(n, t). (n, if tk_key t = key then t\<lparr>tk_index := i\<rparr> else t)) ts"

fun fetch_rows :: "('a \<Rightarrow> 'k) \<Rightarrow> nat \<Rightarrow> 'a list \<Rightarrow> 'k trackables \<Rightarrow> 'k trackables" where
  "fetch_rows get_key i [] ts = ts"
| "fetch_rows get_key i (x # xs) ts = fetch_rows get_key (i + 1) xs (place_trackables (get_key x) i ts)"

definition fetch_trackables :: "nat \<Rightarrow> ('a \<Rightarrow> 'k) \<Rightarrow> 'a list \<Rightarrow> 'k trackables \<Rightarrow> 'k trackables" where
  "fetch_trackables npos get_key underlying ts = fetch_rows get_key 0 underlying (invalidate_trackables npos ts)"

definition track_row :: "('a \<Rightarrow> 'k) \<Rightarrow> 'a list \<Rightarrow> nat \<Rightarrow> nat \<Rightarrow> 'k trackables \<Rightarrow> 'k trackables" where
  "track_row get_key underlying index node ts = ts @ [(node, \<lparr>tk_key = get_key (underlying ! index), tk_index = index\<rparr>)]"

definition untrack :: "nat \<Rightarrow> 'k trackables \<Rightarrow> 'k trackables" where
  "untrack node ts = um_erase node ts"

section \<open>Tables\<close>

text \<open>
  A column has a comparison or none, and values or none; the context all of them are called with is that of the model and never changes. The
  access to the hierarchy of rows is derived from that context.
\<close>

record ('a, 'v) column_definition =
  get_text :: "nat \<Rightarrow> 'a \<Rightarrow> string \<Rightarrow> string"
  compare :: "('a \<Rightarrow> 'a \<Rightarrow> int) option"
  get_value :: "('a \<Rightarrow> 'v) option"

record ('a, 'k, 'v) table_model =
  tb_ordered :: "'a ordered"
  tb_trackables :: "'k trackables"
  tb_series :: "'k trackables"
  tb_extractor :: "('a \<Rightarrow> 'v) option"
  tb_columns :: "('a, 'v) column_definition list"
  tb_nodes :: nat

definition table_model_init :: "'a sorter \<Rightarrow> 'a hierarchy_access \<Rightarrow> 'a list \<Rightarrow> ('a, 'k, 'v) table_model" where
  "table_model_init sorter access underlying =
     \<lparr>tb_ordered = set_order sorter (hierarchical_less access (\<lambda>_ _. 0)) True (ordered_init sorter underlying),
      tb_trackables = [], tb_series = [], tb_extractor = None, tb_columns = [], tb_nodes = 0\<rparr>"

definition add_columns :: "('a, 'v) column_definition list \<Rightarrow> ('a, 'k, 'v) table_model \<Rightarrow> ('a, 'k, 'v) table_model" where
  "add_columns columns m = m\<lparr>tb_columns := tb_columns m @ columns\<rparr>"

definition fetch_both :: "nat \<Rightarrow> ('a \<Rightarrow> 'k) \<Rightarrow> ('a, 'k, 'v) table_model \<Rightarrow> ('a, 'k, 'v) table_model" where
  "fetch_both npos get_key m =
     m\<lparr>tb_trackables := fetch_trackables npos get_key (ordered_data (tb_ordered m)) (tb_trackables m),
       tb_series := fetch_trackables npos get_key (ordered_data (tb_ordered m)) (tb_series m)\<rparr>"

definition model_fetch :: "nat \<Rightarrow> ('a \<Rightarrow> 'k) \<Rightarrow> 'a sorter \<Rightarrow> 'a list \<Rightarrow> ('a, 'k, 'v) table_model \<Rightarrow> ('a, 'k, 'v) table_model" where
  "model_fetch npos get_key sorter underlying m = fetch_both npos get_key (m\<lparr>tb_ordered := ordered_fetch sorter underlying (tb_ordered m)\<rparr>)"

definition model_get_text :: "nat \<Rightarrow> nat \<Rightarrow> ('a, 'k, 'v) table_model \<Rightarrow> string \<Rightarrow> string option" where
  "model_get_text row column m text =
     (if column < length (tb_columns m)
      then map_option (\<lambda>x. get_text (tb_columns m ! column) row x text) (ordered_at (tb_ordered m) row) else Some text)"

text \<open>
  \<^verbatim>\<open>at\<close> raises for a column that is not there; nothing has been changed by then. Without a column the values stay those of the column before.
\<close>

definition order_rows :: "'a sorter \<Rightarrow> 'a hierarchy_access \<Rightarrow> nat option \<Rightarrow> bool \<Rightarrow> ('a, 'k, 'v) table_model \<Rightarrow> ('a, 'k, 'v) table_model option" where
  "order_rows sorter access column ascending m =
     (case column of
        None \<Rightarrow> Some (m\<lparr>tb_ordered := set_order sorter (hierarchical_less access (\<lambda>_ _. 0)) True (tb_ordered m)\<rparr>)
      | Some i \<Rightarrow>
          if i \<ge> length (tb_columns m) then None
          else
            let c = tb_columns m ! i
            in Some (m\<lparr>tb_ordered :=
                  (case compare c of
                     None \<Rightarrow> tb_ordered m
                   | Some cmp \<Rightarrow> set_order sorter (hierarchical_less access (if ascending then cmp else (\<lambda>lhs rhs. cmp rhs lhs))) True (tb_ordered m)),
                tb_extractor := get_value c\<rparr>))"

definition model_set_order ::
  "nat \<Rightarrow> ('a \<Rightarrow> 'k) \<Rightarrow> 'a sorter \<Rightarrow> 'a hierarchy_access \<Rightarrow> nat option \<Rightarrow> bool \<Rightarrow> ('a, 'k, 'v) table_model \<Rightarrow> ('a, 'k, 'v) table_model option" where
  "model_set_order npos get_key sorter access column ascending m = map_option (fetch_both npos get_key) (order_rows sorter access column ascending m)"

definition model_track :: "('a \<Rightarrow> 'k) \<Rightarrow> nat \<Rightarrow> ('a, 'k, 'v) table_model \<Rightarrow> nat \<times> ('a, 'k, 'v) table_model" where
  "model_track get_key row m =
     (tb_nodes m, m\<lparr>tb_trackables := track_row get_key (ordered_data (tb_ordered m)) row (tb_nodes m) (tb_trackables m), tb_nodes := tb_nodes m + 1\<rparr>)"

definition series_track :: "('a \<Rightarrow> 'k) \<Rightarrow> nat \<Rightarrow> ('a, 'k, 'v) table_model \<Rightarrow> nat \<times> ('a, 'k, 'v) table_model" where
  "series_track get_key row m =
     (tb_nodes m, m\<lparr>tb_series := track_row get_key (ordered_data (tb_ordered m)) row (tb_nodes m) (tb_series m), tb_nodes := tb_nodes m + 1\<rparr>)"

definition series_count :: "('a, 'k, 'v) table_model \<Rightarrow> nat" where
  "series_count m = (if tb_extractor m \<noteq> None then ordered_size (tb_ordered m) else 0)"

definition series_value :: "'v \<Rightarrow> nat \<Rightarrow> ('a, 'k, 'v) table_model \<Rightarrow> 'v option" where
  "series_value dflt index m =
     (case tb_extractor m of None \<Rightarrow> Some dflt | Some f \<Rightarrow> map_option f (ordered_at (tb_ordered m) index))"

section \<open>Threads\<close>

text \<open>
  Two rows before those of the threads, which are in the order of the time they took. A trackable of a thread's row is that of the row
  below, two added to its index; a trackable of the first two rows has a fixed index. A thread is its number and the information on it.
\<close>

definition all_threads :: u32 where "all_threads = - 2"

definition cumulative :: u32 where "cumulative = - 1"

record threads_model =
  th_view :: "(u32 \<times> thread_info) ordered"
  th_trackables :: "u32 trackables"
  th_nodes :: nat

definition threads_model_init :: "(u32 \<times> thread_info) sorter \<Rightarrow> (u32 \<times> thread_info) list \<Rightarrow> threads_model" where
  "threads_model_init sorter threads =
     \<lparr>th_view = set_order sorter (\<lambda>lhs rhs. ti_cpu_time (snd lhs) < ti_cpu_time (snd rhs)) False (ordered_init sorter threads),
      th_trackables = [], th_nodes = 0\<rparr>"

definition threads_invalidate :: "nat \<Rightarrow> (u32 \<times> thread_info) sorter \<Rightarrow> (u32 \<times> thread_info) list \<Rightarrow> threads_model \<Rightarrow> threads_model" where
  "threads_invalidate npos sorter threads m =
     (let view = ordered_fetch sorter threads (th_view m)
      in m\<lparr>th_view := view, th_trackables := fetch_trackables npos fst (ordered_data view) (th_trackables m)\<rparr>)"

definition threads_count :: "threads_model \<Rightarrow> nat" where
  "threads_count m = ordered_size (th_view m) + 2"

definition threads_key :: "threads_model \<Rightarrow> nat \<Rightarrow> u32 option" where
  "threads_key m index =
     (if index = 0 then None else if index - 1 = 0 then Some cumulative else map_option fst (ordered_at (th_view m) (index - 2)))"

datatype thread_trackable = Fixed_Row nat | Thread_Row nat

definition threads_track :: "nat \<Rightarrow> threads_model \<Rightarrow> thread_trackable \<times> threads_model" where
  "threads_track index m =
     (if index \<ge> 2
      then (Thread_Row (th_nodes m),
        m\<lparr>th_trackables := track_row fst (ordered_data (th_view m)) (index - 2) (th_nodes m) (th_trackables m), th_nodes := th_nodes m + 1\<rparr>)
      else (Fixed_Row index, m))"

definition threads_index :: "threads_model \<Rightarrow> thread_trackable \<Rightarrow> nat option" where
  "threads_index m t =
     (case t of Fixed_Row i \<Rightarrow> Some i | Thread_Row node \<Rightarrow> map_option (\<lambda>x. (tk_index x + 2) mod 2 ^ 64) (um_find (th_trackables m) node))"

section \<open>Where rows are\<close>

text \<open>A trackable is right about a list: it points at a row with its key, or nowhere if there is none.\<close>

definition points :: "nat \<Rightarrow> ('a \<Rightarrow> 'k) \<Rightarrow> 'a list \<Rightarrow> 'k trackable \<Rightarrow> bool" where
  "points npos get_key xs t \<longleftrightarrow>
     (if tk_key t \<in> get_key ` set xs then tk_index t < length xs \<and> get_key (xs ! tk_index t) = tk_key t else tk_index t = npos)"

lemma find_map_values: "um_find (map (\<lambda>(n, t). (n, f t)) ts) n = map_option f (um_find ts n)"
  by (induction ts) auto

lemma fetch_rows_find:
  "um_find (fetch_rows get_key i xs ts) n =
     map_option (\<lambda>t. if tk_key t \<in> get_key ` set xs then t\<lparr>tk_index := i + Max {j. j < length xs \<and> get_key (xs ! j) = tk_key t}\<rparr> else t) (um_find ts n)"
proof (induction xs arbitrary: i ts)
  case Nil
  show ?case by (simp add: option.map_ident)
next
  case (Cons x xs)
  let ?J = "\<lambda>t. {j. j < length xs \<and> get_key (xs ! j) = tk_key t}" and ?K = "\<lambda>t. {j. j < length (x # xs) \<and> get_key ((x # xs) ! j) = tk_key t}"
  have K: "?K t = Suc ` ?J t \<union> (if get_key x = tk_key t then {0} else {})" for t
    by (auto simp: less_Suc_eq_0_disj)
  have fin: "finite (?J t)" for t by simp
  have ne: "?J t \<noteq> {} \<longleftrightarrow> tk_key t \<in> get_key ` set xs" for t by (force simp: in_set_conv_nth)
  have M: "tk_key t \<in> get_key ` set xs \<Longrightarrow> Max (?K t) = Suc (Max (?J t))" for t
    unfolding K using ne [of t] fin [of t] by (auto simp: mono_Max_commute [OF mono_Suc, symmetric] Max_insert2 max_def)
  have Z: "tk_key t \<notin> get_key ` set xs \<Longrightarrow> get_key x = tk_key t \<Longrightarrow> Max (?K t) = 0" for t
  proof -
    assume t: "tk_key t \<notin> get_key ` set xs" "get_key x = tk_key t"
    have J: "?J t = {}" using t(1) ne [of t] by blast
    show "Max (?K t) = 0" unfolding K J using t(2) by simp
  qed
  have "um_find (fetch_rows get_key i (x # xs) ts) n = map_option (\<lambda>t. if tk_key t \<in> get_key ` set xs then t\<lparr>tk_index := i + 1 + Max (?J t)\<rparr> else t)
      (map_option (\<lambda>t. if tk_key t = get_key x then t\<lparr>tk_index := i\<rparr> else t) (um_find ts n))"
    unfolding fetch_rows.simps Cons.IH unfolding place_trackables_def find_map_values by (rule refl)
  also have "\<dots> = map_option (\<lambda>t. if tk_key t \<in> get_key ` set (x # xs) then t\<lparr>tk_index := i + Max (?K t)\<rparr> else t) (um_find ts n)"
  proof (cases "um_find ts n")
    case None
    then show ?thesis by simp
  next
    case (Some t)
    consider "tk_key t \<in> get_key ` set xs" | "tk_key t \<notin> get_key ` set xs" "get_key x = tk_key t"
      | "tk_key t \<notin> get_key ` set xs" "get_key x \<noteq> tk_key t" by blast
    then show ?thesis
    proof cases
      case 1
      then show ?thesis unfolding Some using M [of t] by (cases "get_key x = tk_key t") (simp_all del: nth_Cons_Suc list.size)
    next
      case 2
      then show ?thesis unfolding Some using Z [of t] by (simp del: list.size)
    next
      case 3
      then show ?thesis unfolding Some by auto
    qed
  qed
  finally show ?case .
qed

lemma fetch_points:
  assumes "um_find (fetch_trackables npos get_key xs ts) n = Some t"
  shows "points npos get_key xs t" "\<exists>t'. um_find ts n = Some t' \<and> tk_key t = tk_key t'"
proof -
  let ?J = "\<lambda>k. {j. j < length xs \<and> get_key (xs ! j) = k}"
  obtain t' where t': "um_find ts n = Some t'"
    "t = (if tk_key t' \<in> get_key ` set xs then t'\<lparr>tk_index := Max (?J (tk_key t'))\<rparr> else t'\<lparr>tk_index := npos\<rparr>)"
    using assms unfolding fetch_trackables_def fetch_rows_find invalidate_trackables_def find_map_values by (auto split: if_splits)
  show "\<exists>t'. um_find ts n = Some t' \<and> tk_key t = tk_key t'" using t' by auto
  have "Max (?J (tk_key t')) \<in> ?J (tk_key t')" if "tk_key t' \<in> get_key ` set xs"
    using that by (intro Max_in) (auto simp: in_set_conv_nth)
  then show "points npos get_key xs t" using t'(2) by (auto simp: points_def)
qed

text \<open>
  The trackables handed out are \<open>T\<close>, each with the key of its row; all are right about the rows, and numbered below the next one.
\<close>

definition tracked_ok :: "nat \<Rightarrow> ('a \<Rightarrow> 'k) \<Rightarrow> 'a list \<Rightarrow> nat \<Rightarrow> 'k trackables \<Rightarrow> (nat \<times> 'k) set \<Rightarrow> bool" where
  "tracked_ok npos get_key xs nodes ts T \<longleftrightarrow>
     (\<forall>n k. (n, k) \<in> T \<longleftrightarrow> (\<exists>t. um_find ts n = Some t \<and> tk_key t = k)) \<and>
     (\<forall>n t. um_find ts n = Some t \<longrightarrow> n < nodes \<and> points npos get_key xs t)"

lemma tracked_none: "tracked_ok npos get_key xs nodes [] {}"
  by (simp add: tracked_ok_def)

lemma tracked_fetch:
  assumes "tracked_ok npos get_key xs nodes ts T"
  shows "tracked_ok npos get_key ys nodes (fetch_trackables npos get_key ys ts) T"
proof -
  have T: "\<forall>n k. (n, k) \<in> T \<longleftrightarrow> (\<exists>t. um_find ts n = Some t \<and> tk_key t = k)" and n: "\<forall>n t. um_find ts n = Some t \<longrightarrow> n < nodes"
    using assms unfolding tracked_ok_def by blast+
  have f: "(um_find (fetch_trackables npos get_key ys ts) n = None) = (um_find ts n = None)" for n
    unfolding fetch_trackables_def fetch_rows_find invalidate_trackables_def find_map_values by simp
  have "(\<exists>t. um_find (fetch_trackables npos get_key ys ts) n = Some t \<and> tk_key t = k) \<longleftrightarrow> (\<exists>t. um_find ts n = Some t \<and> tk_key t = k)" for n k
    using f [of n] fetch_points(2) [of npos get_key ys ts n] by (metis (no_types, lifting) not_None_eq option.inject)
  then have 1: "\<forall>n k. (n, k) \<in> T \<longleftrightarrow> (\<exists>t. um_find (fetch_trackables npos get_key ys ts) n = Some t \<and> tk_key t = k)" using T by simp
  have 2: "j < nodes \<and> points npos get_key ys t" if "um_find (fetch_trackables npos get_key ys ts) j = Some t" for j t
    using that fetch_points [of npos get_key ys ts j t] n by auto
  show ?thesis unfolding tracked_ok_def using 1 2 by blast
qed

lemma tracked_track:
  assumes ok: "tracked_ok npos get_key xs nodes ts T" and i: "index < length xs"
  shows "tracked_ok npos get_key xs (nodes + 1) (track_row get_key xs index nodes ts) (insert (nodes, get_key (xs ! index)) T)"
proof -
  let ?t = "\<lparr>tk_key = get_key (xs ! index), tk_index = index\<rparr>" and ?ts = "track_row get_key xs index nodes ts"
  have fresh: "um_find ts nodes = None" using ok unfolding tracked_ok_def by (metis less_irrefl option.exhaust)
  have f: "um_find ?ts j = (if j = nodes then Some ?t else um_find ts j)" for j
    using fresh by (simp add: track_row_def map_add_def split: option.splits)
  have p: "points npos get_key xs ?t" using i by (simp add: points_def)
  have 1: "(j, k) \<in> insert (nodes, get_key (xs ! index)) T \<longleftrightarrow> (\<exists>t. um_find ?ts j = Some t \<and> tk_key t = k)" for j k
    using ok fresh unfolding tracked_ok_def f by (cases "j = nodes") auto
  have 2: "j < nodes + 1 \<and> points npos get_key xs t" if "um_find ?ts j = Some t" for j t
    using that ok p unfolding tracked_ok_def f by (cases "j = nodes") (auto simp: less_SucI)
  show ?thesis unfolding tracked_ok_def using 1 2 by blast
qed

lemma tracked_untrack:
  "tracked_ok npos get_key xs nodes ts T \<Longrightarrow> tracked_ok npos get_key xs nodes (untrack n ts) {x \<in> T. fst x \<noteq> n}"
  unfolding tracked_ok_def untrack_def by (auto simp: dict_simps split: if_splits)

lemma tracked_at:
  assumes "tracked_ok npos get_key xs nodes ts T" "(n, k) \<in> T"
  shows "\<exists>t. um_find ts n = Some t \<and> (k \<in> get_key ` set xs \<longrightarrow> tk_index t < length xs \<and> get_key (xs ! tk_index t) = k) \<and>
    (k \<notin> get_key ` set xs \<longrightarrow> tk_index t = npos)"
proof -
  obtain t where t: "um_find ts n = Some t" "tk_key t = k" using assms unfolding tracked_ok_def by blast
  then have "points npos get_key xs t" using assms(1) unfolding tracked_ok_def by blast
  then show ?thesis using t by (intro exI [of _ t]) (auto simp: points_def)
qed

section \<open>A table on a screen\<close>

text \<open>
  Rows are tracked and untracked, the rows underneath change, columns are added and another one is chosen. \<open>T\<close> are the trackables handed out
  and not given back, with the keys of their rows at that time.
\<close>

inductive shown :: "nat \<Rightarrow> ('a \<Rightarrow> 'k) \<Rightarrow> 'a sorter \<Rightarrow> 'a hierarchy_access \<Rightarrow> ('a, 'k, 'v) table_model \<Rightarrow> (nat \<times> 'k) set \<Rightarrow> bool"
  for npos get_key sorter access where
  opened: "shown npos get_key sorter access (table_model_init sorter access u) {}"
| columned: "shown npos get_key sorter access m T \<Longrightarrow> shown npos get_key sorter access (add_columns cs m) T"
| tracked: "shown npos get_key sorter access m T \<Longrightarrow> row < ordered_size (tb_ordered m) \<Longrightarrow> model_track get_key row m = (n, m') \<Longrightarrow>
    shown npos get_key sorter access m' (insert (n, get_key (ordered_data (tb_ordered m) ! row)) T)"
| untracked: "shown npos get_key sorter access m T \<Longrightarrow>
    shown npos get_key sorter access (m\<lparr>tb_trackables := untrack n (tb_trackables m)\<rparr>) {x \<in> T. fst x \<noteq> n}"
| refreshed: "shown npos get_key sorter access m T \<Longrightarrow> shown npos get_key sorter access (model_fetch npos get_key sorter u m) T"
| reordered: "shown npos get_key sorter access m T \<Longrightarrow> model_set_order npos get_key sorter access column ascending m = Some m' \<Longrightarrow>
    shown npos get_key sorter access m' T"

definition shown_ok :: "nat \<Rightarrow> ('a \<Rightarrow> 'k) \<Rightarrow> ('a, 'k, 'v) table_model \<Rightarrow> (nat \<times> 'k) set \<Rightarrow> bool" where
  "shown_ok npos get_key m T \<longleftrightarrow> tracked_ok npos get_key (ordered_data (tb_ordered m)) (tb_nodes m) (tb_trackables m) T"

lemma fetch_both_ok:
  "tracked_ok npos get_key xs (tb_nodes m) (tb_trackables m) T \<Longrightarrow> shown_ok npos get_key (fetch_both npos get_key m) T"
  by (simp add: shown_ok_def fetch_both_def tracked_fetch)

lemma shown_is_ok: "shown npos get_key sorter access m T \<Longrightarrow> shown_ok npos get_key m T"
proof (induction rule: shown.induct)
  case (opened u)
  show ?case by (simp add: shown_ok_def table_model_init_def tracked_none)
next
  case (columned m T cs)
  then show ?case by (simp add: shown_ok_def add_columns_def)
next
  case (tracked m T row n m')
  then show ?case using tracked_track [of npos get_key "ordered_data (tb_ordered m)" "tb_nodes m" "tb_trackables m" T row]
    by (auto simp: shown_ok_def model_track_def ordered_size_def)
next
  case (untracked m T n)
  then show ?case by (simp add: shown_ok_def tracked_untrack)
next
  case (refreshed m T u)
  then show ?case unfolding model_fetch_def shown_ok_def [of _ _ m] by (intro fetch_both_ok) simp
next
  case (reordered m T column ascending m')
  then obtain m1 where m1: "order_rows sorter access column ascending m = Some m1" "m' = fetch_both npos get_key m1"
    unfolding model_set_order_def by blast
  have "tb_trackables m1 = tb_trackables m \<and> tb_nodes m1 = tb_nodes m"
    using m1(1) by (auto simp: order_rows_def Let_def split: option.splits if_splits)
  then show ?case unfolding m1(2) using reordered.IH unfolding shown_ok_def [of _ _ m] by (intro fetch_both_ok) simp
qed

section \<open>Properties\<close>

text \<open>
  A tracked row is followed. Whatever happens to a table after a row of it was tracked - rows come and go, the order or the column changes,
  others are tracked and untracked - the index of its trackable is that of a row with the same key, and the index of no row if there is
  none; with keys that do not repeat it is the one row with the key. A table with no row has no index but \<open>npos\<close>.
\<close>

theorem tracked_rows_are_followed:
  assumes "shown npos get_key sorter access m T" "(n, k) \<in> T"
  shows "\<exists>t. um_find (tb_trackables m) n = Some t \<and>
    (k \<in> get_key ` set (ordered_data (tb_ordered m)) \<longrightarrow> (\<exists>x. ordered_at (tb_ordered m) (tk_index t) = Some x \<and> get_key x = k)) \<and>
    (k \<notin> get_key ` set (ordered_data (tb_ordered m)) \<longrightarrow> tk_index t = npos)"
  using tracked_at [OF shown_is_ok [OF assms(1), unfolded shown_ok_def] assms(2)] by (auto simp: ordered_at_def)

definition example_table :: "(nat \<times> nat, nat, nat) table_model" where
  "example_table = add_columns [\<lparr>get_text = (\<lambda>_ _ text. text), compare = Some (\<lambda>l r. int (snd l) - int (snd r)), get_value = Some snd\<rparr>]
     (table_model_init insertion_sorter (hierarchy_plain (0, 0)) [(3, 5), (2, 4), (1, 6)])"

theorem tracked_rows_are_followed_witness:
  "\<exists>m t. shown 99 fst insertion_sorter (hierarchy_plain (0, 0)) m {(0, 2)} \<and>
    ordered_data (tb_ordered m) = [(2, 7), (1, 6), (3, 5)] \<and> um_find (tb_trackables (m :: (nat \<times> nat, nat, nat) table_model)) 0 = Some t \<and> tk_index t = 0"
proof -
  let ?a = "hierarchy_plain (0, 0) :: (nat \<times> nat) hierarchy_access"
  define m1 where "m1 = snd (model_track fst 1 example_table)"
  define m2 where "m2 = the (model_set_order 99 fst insertion_sorter ?a (Some 0) False m1)"
  define m where "m = model_fetch 99 fst insertion_sorter [(1, 6), (2, 7), (3, 5)] m2"
  have d0: "ordered_data (tb_ordered example_table) = [(3, 5), (2, 4), (1, 6)]" by code_simp
  have "shown 99 fst insertion_sorter ?a example_table {}" unfolding example_table_def by (intro shown.columned shown.opened)
  then have "shown 99 fst insertion_sorter ?a m1 (insert (0, fst (ordered_data (tb_ordered example_table) ! 1)) {})"
  proof (rule shown.tracked)
    show "1 < ordered_size (tb_ordered example_table)" by (simp add: ordered_size_def d0)
    show "model_track fst 1 example_table = (0, m1)" unfolding m1_def by (simp add: model_track_def example_table_def add_columns_def table_model_init_def)
  qed
  then have "shown 99 fst insertion_sorter ?a m1 {(0, 2)}" by (simp add: d0)
  then have "shown 99 fst insertion_sorter ?a m2 {(0, 2)}"
  proof (rule shown.reordered [where column = "Some 0" and ascending = False])
    show "model_set_order 99 fst insertion_sorter ?a (Some 0) False m1 = Some m2"
      unfolding m2_def m1_def by (simp add: model_set_order_def order_rows_def model_track_def example_table_def add_columns_def table_model_init_def)
  qed
  then have s: "shown 99 fst insertion_sorter ?a m {(0, 2)}" unfolding m_def by (rule shown.refreshed)
  have d: "ordered_data (tb_ordered m) = [(2, 7), (1, 6), (3, 5)]" unfolding m_def m2_def m1_def by code_simp
  from tracked_rows_are_followed [OF s, of 0 2] obtain t where t: "um_find (tb_trackables m) 0 = Some t"
    "\<exists>x. ordered_at (tb_ordered m) (tk_index t) = Some x \<and> fst x = 2" unfolding d by auto
  from t(2) have "tk_index t = 0" unfolding ordered_at_def d by (auto simp: nth_Cons split: if_splits nat.splits)
  with s d t(1) show ?thesis by blast
qed

text \<open>
  Every row of the list of threads is found again by the trackable made for it, while the threads stay. The trackable of a thread that is
  gone points at the second row, that of all threads together, and not at none: two is added to \<open>npos\<close> too.
\<close>

lemma thread_rows:
  assumes "index < threads_count m" "ordered_size (th_view m) < 2 ^ 64 - 2" "threads_track index m = (t, m')" "th_nodes m \<notin> fst ` set (th_trackables m)"
  shows "threads_index m' t = Some index"
proof -
  have "um_find (th_trackables m) (th_nodes m) = None" using assms(4) by (simp add: map_of_eq_None_iff)
  then show ?thesis using assms(1-3)
    by (auto simp: threads_track_def threads_index_def threads_count_def track_row_def map_add_def split: if_splits)
qed

lemma gone_thread_is_cumulative:
  assumes "um_find (th_trackables m) node = Some t" "tk_key t \<notin> fst ` set threads" "mset (ordered_data (ordered_fetch sorter threads (th_view m))) = mset threads"
  shows "let m' = threads_invalidate (2 ^ 64 - 1) sorter threads m in threads_index m' (Thread_Row node) = Some 1 \<and> threads_key m' 1 = Some cumulative"
proof -
  let ?xs = "ordered_data (ordered_fetch sorter threads (th_view m))"
  have k: "tk_key t \<notin> fst ` set ?xs" using assms(2) assms(3) mset_eq_setD by metis
  have "um_find (fetch_trackables (2 ^ 64 - 1) fst ?xs (th_trackables m)) node = Some (t\<lparr>tk_index := 2 ^ 64 - 1\<rparr>)"
    unfolding fetch_trackables_def fetch_rows_find invalidate_trackables_def find_map_values using assms(1) k by simp
  then show ?thesis by (simp add: threads_invalidate_def threads_index_def threads_key_def Let_def)
qed

end
