(* ===== verification/Image_Patch_Model.thy ===== *)
theory Image_Patch_Model
  imports Table_Models Symbol_Resolver Strings Patching_Session "HOL-Library.List_Lexorder"
begin

text \<open>
  The table of functions to patch, \<^verbatim>\<open>frontend/src/image_patch_model.cpp\<close>: the symbols of all modules, filtered and ordered by one of six
  columns. The tables it reads are an argument of its operations, as they are when the operation runs; the orders of the columns look
  patches and paths up there whenever they compare. A request of metadata calls back at once for a module that is at hand, or later.
\<close>

section \<open>Orders\<close>

text \<open>A \<^verbatim>\<open>char\<close> is signed.\<close>

definition char_value :: "char \<Rightarrow> int" where
  "char_value c = (if of_char c < (128 :: int) then of_char c else of_char c - 256)"

definition nocase_toupper :: "int \<Rightarrow> int" where
  "nocase_toupper c = (if 97 \<le> c \<and> c \<le> 122 then c - 32 else c)"

definition nocase_compare :: "char \<Rightarrow> char \<Rightarrow> bool" where
  "nocase_compare lhs rhs \<longleftrightarrow> nocase_toupper (char_value lhs) < nocase_toupper (char_value rhs)"

text \<open>\<^verbatim>\<open>std::lexicographical_compare\<close>.\<close>

fun lexicographical_compare :: "('a \<Rightarrow> 'a \<Rightarrow> bool) \<Rightarrow> 'a list \<Rightarrow> 'a list \<Rightarrow> bool" where
  "lexicographical_compare lt _ [] = False"
| "lexicographical_compare lt [] (_ # _) = True"
| "lexicographical_compare lt (a # as) (b # bs) = (if lt a b then True else if lt b a then False else lexicographical_compare lt as bs)"

definition encode_state :: "patch \<Rightarrow> u32" where
  "encode_state p = push_bit 2 (of_bool (pt_error p)) + push_bit 1 (of_bool (pt_active p)) + push_bit 0 (of_bool (pt_requested p))"

definition c_patch_states :: "string list" where
  "c_patch_states = [''inactive'', ''applying'', ''active'', ''removing'', ''error'', ''error'', ''error'', ''error'']"

section \<open>The model\<close>

record patch_row =
  row_key :: "u32 \<times> u32"
  row_symbol :: symbol_info

text \<open>What the model reads: modules with their numbers, patches by module and address, and the numbers and paths of mappings.\<close>

record patch_tables =
  pt_modules :: "(u32 \<times> module_info_metadata) list"
  pt_patches :: patches
  pt_mappings :: "(u32 \<times> string) list"

record image_patch_model =
  im_module_paths :: "(u32, string) umap"
  im_filter :: "(patch_row \<Rightarrow> bool) option"
  im_order :: "(nat \<times> bool) option"
  im_view :: "patch_row list"
  im_trackables :: "(u32 \<times> u32) trackables"
  im_nodes :: nat
  im_requests :: "(u32, unit) umap"

definition flattener_equal_range :: "u32 \<times> module_info_metadata \<Rightarrow> symbol_info list" where
  "flattener_equal_range from = md_symbols (snd from)"

definition flattener_get :: "u32 \<times> module_info_metadata \<Rightarrow> symbol_info \<Rightarrow> patch_row" where
  "flattener_get l1 l2 = \<lparr>row_key = (fst l1, sy_rva l2), row_symbol = l2\<rparr>"

text \<open>The rows of the filtered view over the flattened modules, from the first iterator to the last.\<close>

definition filtered_rows :: "(patch_row \<Rightarrow> bool) option \<Rightarrow> (u32 \<times> module_info_metadata) list \<Rightarrow> patch_row list option" where
  "filtered_rows predicate modules =
     (let e = length modules;
          step = flatten_next (list_step modules) (list_deref modules) flattener_equal_range e;
          deref = flatten_deref (list_deref modules) flattener_get
      in Option.bind (flatten_iterator (list_step modules) (list_deref modules) flattener_equal_range e 0) (\<lambda>b.
         Option.bind (filter_iterator step deref (e, []) predicate b) (\<lambda>i.
           walk (find_next step deref (e, []) predicate) deref (e, []) i)))"

definition missing_first :: "('a \<Rightarrow> 'a \<Rightarrow> bool) \<Rightarrow> 'a option \<Rightarrow> 'a option \<Rightarrow> bool" where
  "missing_first lt lhs rhs =
     (case (lhs, rhs) of (None, None) \<Rightarrow> False | (None, Some _) \<Rightarrow> True | (Some _, None) \<Rightarrow> False | (Some l, Some r) \<Rightarrow> lt l r)"

definition row_less :: "patches \<Rightarrow> (u32, string) umap \<Rightarrow> nat \<Rightarrow> (patch_row \<Rightarrow> patch_row \<Rightarrow> bool) option" where
  "row_less ps paths column =
     (if column = 0 then Some (\<lambda>l r. snd (row_key l) < snd (row_key r))
      else if column = 1 then Some (\<lambda>l r. lexicographical_compare nocase_compare (sy_name (row_symbol l)) (sy_name (row_symbol r)))
      else if column = 2 then Some (\<lambda>l r. missing_first (\<lambda>x y. encode_state x < encode_state y) (um_find ps (row_key l)) (um_find ps (row_key r)))
      else if column = 3 then Some (\<lambda>l r. sy_size (row_symbol l) < sy_size (row_symbol r))
      else if column = 4 then Some (\<lambda>l r. missing_first (\<lambda>x y. lexicographical_compare nocase_compare (path_file x) (path_file y))
        (um_find paths (fst (row_key l))) (um_find paths (fst (row_key r))))
      else if column = 5 then Some (\<lambda>l r. missing_first (lexicographical_compare nocase_compare)
        (um_find paths (fst (row_key l))) (um_find paths (fst (row_key r))))
      else None)"

text \<open>The order kept by the view, with what it looks up now.\<close>

definition current_order :: "patch_tables \<Rightarrow> image_patch_model \<Rightarrow> (patch_row \<Rightarrow> patch_row \<Rightarrow> bool) option" where
  "current_order db m =
     (case im_order m of
        None \<Rightarrow> None
      | Some (column, ascending) \<Rightarrow>
          map_option (\<lambda>lt. if ascending then lt else (\<lambda>l r. lt r l)) (row_less (pt_patches db) (im_module_paths m) column))"

definition view_fetch :: "patch_row sorter \<Rightarrow> patch_tables \<Rightarrow> image_patch_model \<Rightarrow> image_patch_model option" where
  "view_fetch sorter db m =
     map_option (\<lambda>rows. m\<lparr>im_view := ordered_data (ordered_fetch sorter rows \<lparr>ordered_data = im_view m, ordered_sort = current_order db m\<rparr>)\<rparr>)
       (filtered_rows (im_filter m) (pt_modules db))"

definition patch_fetch :: "nat \<Rightarrow> image_patch_model \<Rightarrow> image_patch_model" where
  "patch_fetch npos m = m\<lparr>im_trackables := fetch_trackables npos row_key (im_view m) (im_trackables m)\<rparr>"

definition invalidate_me :: "patch_row sorter \<Rightarrow> nat \<Rightarrow> patch_tables \<Rightarrow> image_patch_model \<Rightarrow> image_patch_model option" where
  "invalidate_me sorter npos db m = map_option (patch_fetch npos) (view_fetch sorter db m)"

text \<open>\<open>asked\<close> collects the modules requested; \<open>at_hand\<close> says for which of them the callback is called in the request.\<close>

fun patch_request_missing ::
  "patch_row sorter \<Rightarrow> nat \<Rightarrow> (u32 \<Rightarrow> bool) \<Rightarrow> patch_tables \<Rightarrow> (u32 \<times> string) list \<Rightarrow> u32 list \<times> image_patch_model \<Rightarrow> (u32 list \<times> image_patch_model) option" where
  "patch_request_missing sorter npos at_hand db [] s = Some s"
| "patch_request_missing sorter npos at_hand db (i # is) (asked, m) =
     (if um_find (im_requests m) (fst i) \<noteq> None then patch_request_missing sorter npos at_hand db is (asked, m)
      else
        let m = m\<lparr>im_requests := um_insert (fst i) () (im_requests m)\<rparr>
        in Option.bind (if at_hand (fst i) then invalidate_me sorter npos db m else Some m) (\<lambda>m.
             patch_request_missing sorter npos at_hand db is (asked @ [fst i], m)))"

definition refresh ::
  "patch_row sorter \<Rightarrow> nat \<Rightarrow> (u32 \<Rightarrow> bool) \<Rightarrow> patch_tables \<Rightarrow> image_patch_model \<Rightarrow> (u32 list \<times> image_patch_model) option" where
  "refresh sorter npos at_hand db m =
     (let m = m\<lparr>im_module_paths := foldl (\<lambda>ps i. um_assign (fst i) (snd i) ps) (im_module_paths m) (pt_mappings db)\<rparr>
      in Option.bind (patch_request_missing sorter npos at_hand db (pt_mappings db) ([], m)) (\<lambda>(asked, m).
           map_option (Pair asked) (invalidate_me sorter npos db m)))"

definition image_patch_model_init ::
  "patch_row sorter \<Rightarrow> nat \<Rightarrow> (u32 \<Rightarrow> bool) \<Rightarrow> patch_tables \<Rightarrow> (u32 list \<times> image_patch_model) option" where
  "image_patch_model_init sorter npos at_hand db =
     Option.bind (filtered_rows None (pt_modules db)) (\<lambda>rows.
       refresh sorter npos at_hand db
         \<lparr>im_module_paths = [], im_filter = None, im_order = None, im_view = rows, im_trackables = [], im_nodes = 0, im_requests = []\<rparr>)"

definition patch_set_order :: "patch_row sorter \<Rightarrow> nat \<Rightarrow> patch_tables \<Rightarrow> nat \<Rightarrow> bool \<Rightarrow> image_patch_model \<Rightarrow> image_patch_model" where
  "patch_set_order sorter npos db column ascending m =
     patch_fetch npos
       (case row_less (pt_patches db) (im_module_paths m) column of
          None \<Rightarrow> m
        | Some lt \<Rightarrow>
            m\<lparr>im_order := Some (column, ascending),
              im_view := ordered_data (set_order sorter lt ascending \<lparr>ordered_data = im_view m, ordered_sort = current_order db m\<rparr>)\<rparr>)"

definition patch_set_filter ::
  "patch_row sorter \<Rightarrow> nat \<Rightarrow> patch_tables \<Rightarrow> (patch_row \<Rightarrow> bool) option \<Rightarrow> image_patch_model \<Rightarrow> image_patch_model option" where
  "patch_set_filter sorter npos db predicate m = invalidate_me sorter npos db (m\<lparr>im_filter := set_filter predicate (im_filter m)\<rparr>)"

definition patch_track :: "nat \<Rightarrow> image_patch_model \<Rightarrow> nat \<times> image_patch_model" where
  "patch_track item m =
     (im_nodes m, m\<lparr>im_trackables := track_row row_key (im_view m) item (im_nodes m) (im_trackables m), im_nodes := im_nodes m + 1\<rparr>)"

definition format_state :: "patches \<Rightarrow> u32 \<times> u32 \<Rightarrow> string" where
  "format_state ps key = (case um_find ps key of None \<Rightarrow> '''' | Some p \<Rightarrow> c_patch_states ! unat (encode_state p))"

definition format_module_name :: "(u32, string) umap \<Rightarrow> u32 \<Rightarrow> string" where
  "format_module_name paths persistent_id = (case um_find paths persistent_id of None \<Rightarrow> '''' | Some p \<Rightarrow> path_file p)"

definition format_module_path :: "(u32, string) umap \<Rightarrow> u32 \<Rightarrow> string" where
  "format_module_path paths persistent_id = (case um_find paths persistent_id of None \<Rightarrow> '''' | Some p \<Rightarrow> p)"

definition patch_get_text :: "patch_tables \<Rightarrow> image_patch_model \<Rightarrow> nat \<Rightarrow> nat \<Rightarrow> string option" where
  "patch_get_text db m item column =
     (if item < length (im_view m)
      then
        let record = im_view m ! item
        in if column = 0 then itoa_unsigned 16 32 (unat (sy_rva (row_symbol record))) 8 CHR ''0''
           else if column = 1 then Some (sy_name (row_symbol record))
           else if column = 2 then Some (format_state (pt_patches db) (row_key record))
           else if column = 3 then itoa_unsigned 10 32 (unat (sy_size (row_symbol record))) 0 CHR ''0''
           else if column = 4 then Some (format_module_name (im_module_paths m) (fst (row_key record)))
           else if column = 5 then Some (format_module_path (im_module_paths m) (fst (row_key record)))
           else Some ''''
      else None)"

section \<open>The orders are orders\<close>

definition nocase :: "string \<Rightarrow> int list" where
  "nocase s = map (\<lambda>c. nocase_toupper (char_value c)) s"

lemma nocase_lexicographical: "lexicographical_compare nocase_compare as bs \<longleftrightarrow> nocase as < nocase bs"
  by (induction nocase_compare as bs rule: lexicographical_compare.induct) (auto simp: nocase_def nocase_compare_def)

text \<open>An option in the order of lists: nothing before something.\<close>

definition rank :: "('a \<Rightarrow> 'k) \<Rightarrow> 'a option \<Rightarrow> 'k list" where
  "rank f x = (case x of None \<Rightarrow> [] | Some y \<Rightarrow> [f y])"

lemma missing_first_rank: "missing_first (\<lambda>x y. f x < (f y :: 'k :: linorder)) l r \<longleftrightarrow> rank f l < rank f r"
  by (auto simp: missing_first_def rank_def split: option.splits)

text \<open>A state has a name.\<close>

lemma state_named: "unat (encode_state p) < length c_patch_states"
  by (cases "pt_error p"; cases "pt_active p"; cases "pt_requested p") (simp_all add: encode_state_def c_patch_states_def)

lemma row_less_strict_weak:
  assumes "row_less ps paths column = Some lt"
  shows "strict_weak lt"
proof -
  have "missing_first (lexicographical_compare nocase_compare) = missing_first (\<lambda>x y. nocase x < nocase y)"
    by (intro ext) (simp add: nocase_lexicographical missing_first_def split: option.splits)
  then show ?thesis using assms
    by (auto simp: row_less_def nocase_lexicographical missing_first_rank intro!: strict_weak_key split: if_splits)
qed

section \<open>The rows\<close>

interpretation list_flatten: flattened_sequence "list_step xs" "list_deref xs" "length xs" "\<lambda>i. drop i xs" "\<lambda>i. i \<le> length xs" inner get
  for xs inner get ..

interpretation flatten_filter: filtered_sequence "flatten_next (list_step xs) (list_deref xs) inner (length xs)" "flatten_deref (list_deref xs) get"
  "(length xs, [])" "flat_rest (\<lambda>i. drop i xs) (length xs) inner get" "flat_valid (\<lambda>i. i \<le> length xs) (length xs)" p for xs inner get p ..

definition module_rows :: "(u32 \<times> module_info_metadata) list \<Rightarrow> patch_row list" where
  "module_rows modules = [\<lparr>row_key = (fst x, sy_rva s), row_symbol = s\<rparr>. x \<leftarrow> modules, s \<leftarrow> md_symbols (snd x)]"

lemma filtered_rows_eq: "filtered_rows p modules = Some (filter (filter_match p) (module_rows modules))"
proof -
  let ?inner = flattener_equal_range and ?get = flattener_get
  obtain b where b: "skip_empty (list_step modules) (list_deref modules) ?inner (length modules) 0 = Some b"
    "flat_valid (\<lambda>i. i \<le> length modules) (length modules) b"
    "flat_rest (\<lambda>i. drop i modules) (length modules) ?inner ?get b = flat ?inner ?get modules"
    using list_flatten.skip_empty_rest [of 0 modules ?inner ?get] by auto
  obtain i where i: "filter_iterator (flatten_next (list_step modules) (list_deref modules) ?inner (length modules)) (flatten_deref (list_deref modules) ?get) (length modules, []) p b = Some i"
    "matching (flat_valid (\<lambda>i. i \<le> length modules) (length modules)) (flat_rest (\<lambda>i. drop i modules) (length modules) ?inner ?get) (length modules, []) p i"
    "filter (filter_match p) (flat_rest (\<lambda>i. drop i modules) (length modules) ?inner ?get i) = filter (filter_match p) (flat ?inner ?get modules)"
    using flatten_filter.filter_iterator_rest [OF b(2), of ?inner ?get p] b(3) by auto
  have "flat ?inner ?get modules = module_rows modules"
    by (simp add: flat_def module_rows_def flattener_equal_range_def flattener_get_def [abs_def])
  then show ?thesis using flatten_filter.filtered.walk_rest [OF i(2)] i(3)
    by (simp add: filtered_rows_def Let_def flatten_iterator_def b(1) i(1))
qed

section \<open>The life of the table\<close>

text \<open>
  A table of patches from its construction on: mappings change, patches change or the metadata of a module arrive, the user picks a column
  or a filter, rows are tracked. \<open>db\<close> is what the tables were when the model last heard of them, \<open>T\<close> the trackables handed out and \<open>A\<close> the
  modules requested, in the order of the requests.
\<close>

inductive patches_shown :: "patch_row sorter \<Rightarrow> nat \<Rightarrow> patch_tables \<Rightarrow> image_patch_model \<Rightarrow> (nat \<times> u32 \<times> u32) set \<Rightarrow> u32 list \<Rightarrow> bool"
  for sorter npos where
  opened: "image_patch_model_init sorter npos at_hand db = Some (asked, m) \<Longrightarrow> patches_shown sorter npos db m {} asked"
| mapped: "patches_shown sorter npos db m T A \<Longrightarrow> refresh sorter npos at_hand db' m = Some (asked, m') \<Longrightarrow> patches_shown sorter npos db' m' T (A @ asked)"
| changed: "patches_shown sorter npos db m T A \<Longrightarrow> pt_mappings db' = pt_mappings db \<Longrightarrow> invalidate_me sorter npos db' m = Some m' \<Longrightarrow>
    patches_shown sorter npos db' m' T A"
| ordered_by: "patches_shown sorter npos db m T A \<Longrightarrow> patches_shown sorter npos db (patch_set_order sorter npos db column ascending m) T A"
| filtered_by: "patches_shown sorter npos db m T A \<Longrightarrow> patch_set_filter sorter npos db p m = Some m' \<Longrightarrow> patches_shown sorter npos db m' T A"
| row_tracked: "patches_shown sorter npos db m T A \<Longrightarrow> item < length (im_view m) \<Longrightarrow> patch_track item m = (n, m') \<Longrightarrow>
    patches_shown sorter npos db m' (insert (n, row_key (im_view m ! item)) T) A"
| row_untracked: "patches_shown sorter npos db m T A \<Longrightarrow>
    patches_shown sorter npos db (m\<lparr>im_trackables := untrack n (im_trackables m)\<rparr>) {x \<in> T. fst x \<noteq> n} A"

definition rows_ok :: "patch_tables \<Rightarrow> image_patch_model \<Rightarrow> bool" where
  "rows_ok db m \<longleftrightarrow> mset (im_view m) = mset (filter (filter_match (im_filter m)) (module_rows (pt_modules db))) \<and>
     (\<forall>lt. current_order db m = Some lt \<longrightarrow> sorted_wrt (\<lambda>x y. \<not> lt y x) (im_view m))"

definition tracks_ok :: "nat \<Rightarrow> image_patch_model \<Rightarrow> (nat \<times> u32 \<times> u32) set \<Rightarrow> bool" where
  "tracks_ok npos m T \<longleftrightarrow> tracked_ok npos row_key (im_view m) (im_nodes m) (im_trackables m) T"

definition requests_ok :: "image_patch_model \<Rightarrow> u32 list \<Rightarrow> bool" where
  "requests_ok m A \<longleftrightarrow> distinct A \<and> set A = fst ` set (im_requests m)"

lemma current_order_strict_weak: "current_order db m = Some lt \<Longrightarrow> strict_weak lt"
  by (auto simp: current_order_def split: option.splits if_splits dest!: row_less_strict_weak intro: strict_weak_flip)

lemma current_order_cong:
  assumes "im_order m' = im_order m" "im_module_paths m' = im_module_paths m"
  shows "current_order db m' = current_order db m"
  unfolding current_order_def assms ..

lemma rows_ok_cong:
  "im_order m' = im_order m \<Longrightarrow> im_module_paths m' = im_module_paths m \<Longrightarrow> im_view m' = im_view m \<Longrightarrow> im_filter m' = im_filter m \<Longrightarrow> rows_ok db m' = rows_ok db m"
  using current_order_cong [of m' m db] by (simp add: rows_ok_def)

context sorting
begin

lemma fetched_rows:
  assumes "\<forall>lt. ord = Some lt \<longrightarrow> strict_weak lt"
  shows "mset (ordered_data (ordered_fetch sorter xs \<lparr>ordered_data = ys, ordered_sort = ord\<rparr>)) = mset xs"
    "ord = Some lt \<Longrightarrow> sorted_wrt (\<lambda>x y. \<not> lt y x) (ordered_data (ordered_fetch sorter xs \<lparr>ordered_data = ys, ordered_sort = ord\<rparr>))"
  using assms by (auto simp: ordered_fetch_def Let_def sorter_mset sorter_sorted split: option.splits)

lemma ordered_rows:
  assumes "strict_weak lt"
  shows "mset (ordered_data (set_order sorter lt ascending v)) = mset (ordered_data v)"
    "sorted_wrt (\<lambda>x y. \<not> (if ascending then lt else (\<lambda>l r. lt r l)) y x) (ordered_data (set_order sorter lt ascending v))"
  using assms strict_weak_flip [OF assms] by (simp_all add: set_order_def Let_def sorter_mset sorter_sorted)

end

text \<open>Fetching never fails and gives the rows of the tables as they are, in the order in force; the trackables follow.\<close>

lemma invalidated:
  assumes s: "sorting sorter" and t: "tracks_ok npos m T"
  obtains m' where "invalidate_me sorter npos db m = Some m'" "rows_ok db m'" "tracks_ok npos m' T"
    "im_requests m' = im_requests m" "im_module_paths m' = im_module_paths m"
proof -
  let ?rows = "filter (filter_match (im_filter m)) (module_rows (pt_modules db))"
  let ?v = "ordered_data (ordered_fetch sorter ?rows \<lparr>ordered_data = im_view m, ordered_sort = current_order db m\<rparr>)"
  let ?m = "patch_fetch npos (m\<lparr>im_view := ?v\<rparr>)"
  have o: "\<forall>lt. current_order db m = Some lt \<longrightarrow> strict_weak lt" using current_order_strict_weak by blast
  have c: "current_order db ?m = current_order db m" by (rule current_order_cong) (simp_all add: patch_fetch_def)
  have "invalidate_me sorter npos db m = Some ?m" by (simp add: invalidate_me_def view_fetch_def filtered_rows_eq)
  moreover have "rows_ok db ?m"
    unfolding rows_ok_def c using sorting.fetched_rows [OF s o, where xs = ?rows and ys = "im_view m"] by (auto simp: patch_fetch_def)
  moreover have "tracks_ok npos ?m T"
    using t tracked_fetch by (fastforce simp: tracks_ok_def patch_fetch_def)
  moreover have "im_requests ?m = im_requests m" "im_module_paths ?m = im_module_paths m" by (simp_all add: patch_fetch_def)
  ultimately show thesis by (rule that)
qed

lemma requested:
  assumes s: "sorting sorter"
  shows "tracks_ok npos m T \<Longrightarrow> requests_ok m A \<Longrightarrow>
    \<exists>asked' m'. patch_request_missing sorter npos at_hand db is (asked, m) = Some (asked @ asked', m') \<and>
      tracks_ok npos m' T \<and> requests_ok m' (A @ asked') \<and> fst ` set is \<subseteq> set (A @ asked')"
proof (induction "is" arbitrary: m A asked)
  case Nil
  then show ?case by (intro exI [of _ "[]"] exI [of _ m]) simp
next
  case (Cons i "is")
  show ?case
  proof (cases "um_find (im_requests m) (fst i)")
    case (Some u)
    then have "fst i \<in> set A" using Cons.prems(2) by (auto simp: requests_ok_def dest!: map_of_SomeD intro: rev_image_eqI)
    with Cons.IH [OF Cons.prems, of asked] Some show ?thesis by auto
  next
    case None
    define m1 where "m1 = m\<lparr>im_requests := um_insert (fst i) () (im_requests m)\<rparr>"
    have t1: "tracks_ok npos m1 T" using Cons.prems(1) by (simp add: m1_def tracks_ok_def)
    have new: "fst i \<notin> set A" using None Cons.prems(2) by (simp add: requests_ok_def map_of_eq_None_iff)
    have q1: "requests_ok m1 (A @ [fst i])"
      using Cons.prems(2) None new by (auto simp: m1_def requests_ok_def um_insert_def dom_update)
    obtain m2 where m2: "(if at_hand (fst i) then invalidate_me sorter npos db m1 else Some m1) = Some m2" "tracks_ok npos m2 T" "im_requests m2 = im_requests m1"
    proof (cases "at_hand (fst i)")
      case True
      then show thesis using invalidated [OF s t1, of db] that by (metis (full_types))
    qed (use t1 that in auto)
    have q2: "requests_ok m2 (A @ [fst i])" using q1 m2(3) by (simp add: requests_ok_def)
    from Cons.IH [OF m2(2) q2, of "asked @ [fst i]"] obtain asked' m' where
      "patch_request_missing sorter npos at_hand db is (asked @ [fst i], m2) = Some ((asked @ [fst i]) @ asked', m')"
      "tracks_ok npos m' T" "requests_ok m' ((A @ [fst i]) @ asked')" "fst ` set is \<subseteq> set ((A @ [fst i]) @ asked')" by blast
    then show ?thesis using None m2(1)
      by (intro exI [of _ "fst i # asked'"] exI [of _ m']) (simp add: Let_def m1_def [symmetric])
  qed
qed

lemma refreshed_ok:
  assumes s: "sorting sorter" and t: "tracks_ok npos m T" and q: "requests_ok m A"
  shows "\<exists>asked m'. refresh sorter npos at_hand db m = Some (asked, m') \<and> rows_ok db m' \<and> tracks_ok npos m' T \<and>
    requests_ok m' (A @ asked) \<and> fst ` set (pt_mappings db) \<subseteq> set (A @ asked)"
proof -
  define m1 where "m1 = m\<lparr>im_module_paths := foldl (\<lambda>ps i. um_assign (fst i) (snd i) ps) (im_module_paths m) (pt_mappings db)\<rparr>"
  have "tracks_ok npos m1 T" "requests_ok m1 A" using t q by (simp_all add: m1_def tracks_ok_def requests_ok_def)
  from requested [OF s this, of at_hand db "pt_mappings db" "[]"] obtain asked m2 where m2:
    "patch_request_missing sorter npos at_hand db (pt_mappings db) ([], m1) = Some (asked, m2)" "tracks_ok npos m2 T"
    "requests_ok m2 (A @ asked)" "fst ` set (pt_mappings db) \<subseteq> set (A @ asked)" by auto
  obtain m3 where m3: "invalidate_me sorter npos db m2 = Some m3" "rows_ok db m3" "tracks_ok npos m3 T" "im_requests m3 = im_requests m2"
    using invalidated [OF s m2(2), of db] by blast
  show ?thesis using m2 m3
    by (intro exI [of _ asked] exI [of _ m3]) (simp add: refresh_def m1_def [symmetric] requests_ok_def)
qed

lemma patches_shown_ok:
  assumes s: "sorting sorter"
  shows "patches_shown sorter npos db m T A \<Longrightarrow> rows_ok db m \<and> tracks_ok npos m T \<and> requests_ok m A \<and> fst ` set (pt_mappings db) \<subseteq> set A"
proof (induction rule: patches_shown.induct)
  case (opened at_hand db asked m)
  let ?m = "\<lparr>im_module_paths = [], im_filter = None, im_order = None, im_view = module_rows (pt_modules db), im_trackables = [], im_nodes = 0, im_requests = []\<rparr>"
  have "tracks_ok npos ?m {}" "requests_ok ?m []" by (simp_all add: tracks_ok_def tracked_none requests_ok_def)
  from refreshed_ok [OF s this, of at_hand db] opened show ?case
    by (auto simp: image_patch_model_init_def filtered_rows_eq filter_match_def)
next
  case (mapped db m T A at_hand db' asked m')
  then show ?case using refreshed_ok [OF s, of npos m T A at_hand db'] by auto
next
  case (changed db m T A db' m')
  then show ?case using invalidated [OF s, of npos m T db'] by (metis option.inject requests_ok_def)
next
  case (filtered_by db m T A p m')
  let ?m = "m\<lparr>im_filter := set_filter p (im_filter m)\<rparr>"
  have t: "tracks_ok npos ?m T" using filtered_by.IH by (simp add: tracks_ok_def)
  obtain m2 where "invalidate_me sorter npos db ?m = Some m2" "rows_ok db m2" "tracks_ok npos m2 T" "im_requests m2 = im_requests ?m"
    using invalidated [OF s t, of db] by blast
  then show ?case using filtered_by by (auto simp: patch_set_filter_def requests_ok_def)
next
  case (row_tracked db m T A item n m')
  then show ?case using tracked_track [of npos row_key "im_view m" "im_nodes m" "im_trackables m" T item]
    by (auto simp: patch_track_def tracks_ok_def requests_ok_def cong: rows_ok_cong)
next
  case (row_untracked db m T A n)
  then show ?case using rows_ok_cong [of "m\<lparr>im_trackables := untrack n (im_trackables m)\<rparr>" m db] by (auto simp: tracks_ok_def requests_ok_def tracked_untrack)
next
  case (ordered_by db m T A column ascending)
  show ?case
  proof (cases "row_less (pt_patches db) (im_module_paths m) column")
    case None
    then show ?thesis using ordered_by.IH rows_ok_cong [of "patch_fetch npos m" m db]
      by (auto simp: patch_set_order_def patch_fetch_def tracks_ok_def requests_ok_def tracked_fetch)
  next
    case (Some lt)
    let ?v = "\<lparr>ordered_data = im_view m, ordered_sort = current_order db m\<rparr>"
    let ?m = "patch_set_order sorter npos db column ascending m"
    have m: "?m = patch_fetch npos (m\<lparr>im_order := Some (column, ascending), im_view := ordered_data (set_order sorter lt ascending ?v)\<rparr>)"
      by (simp add: patch_set_order_def Some)
    have o: "current_order db ?m = Some (if ascending then lt else (\<lambda>l r. lt r l))"
      by (simp add: m patch_fetch_def current_order_def Some)
    note r = sorting.ordered_rows [OF s row_less_strict_weak [OF Some], of ascending ?v]
    have "rows_ok db ?m" unfolding rows_ok_def o using r ordered_by.IH by (simp add: m patch_fetch_def rows_ok_def)
    moreover have "tracks_ok npos ?m T" using ordered_by.IH tracked_fetch by (fastforce simp: m patch_fetch_def tracks_ok_def)
    moreover have "requests_ok ?m A" using ordered_by.IH by (simp add: m patch_fetch_def requests_ok_def)
    ultimately show ?thesis using ordered_by.IH by blast
  qed
qed

lemma patch_model_opens:
  assumes "sorting sorter"
  shows "\<exists>asked m. image_patch_model_init sorter npos at_hand db = Some (asked, m)"
proof -
  let ?m = "\<lparr>im_module_paths = [], im_filter = None, im_order = None, im_view = module_rows (pt_modules db), im_trackables = [], im_nodes = 0, im_requests = []\<rparr>"
  have "tracks_ok npos ?m {}" "requests_ok ?m []" by (simp_all add: tracks_ok_def tracked_none requests_ok_def)
  from refreshed_ok [OF assms this, of at_hand db] show ?thesis
    by (auto simp: image_patch_model_init_def filtered_rows_eq filter_match_def)
qed

section \<open>Properties\<close>

text \<open>
  C23. The table of patches shows the symbols there are. At any time its rows are those of all symbols of all modules that pass the filter,
  each once for every occurrence; no row is before one the chosen column and direction place after it, with the states and paths as they
  are; every mapped module is requested, once; and a tracked row is found under its key, or nowhere if it is gone or filtered out. The
  operations themselves always return.
\<close>

theorem patch_table_shows_symbols:
  assumes "sorting sorter" "patches_shown sorter npos db m T A"
  shows "mset (im_view m) = mset (filter (filter_match (im_filter m)) [\<lparr>row_key = (fst x, sy_rva s), row_symbol = s\<rparr>. x \<leftarrow> pt_modules db, s \<leftarrow> md_symbols (snd x)]) \<and>
    (\<forall>lt i j. current_order db m = Some lt \<longrightarrow> i < j \<longrightarrow> j < length (im_view m) \<longrightarrow> \<not> lt (im_view m ! j) (im_view m ! i)) \<and>
    distinct A \<and> fst ` set (pt_mappings db) \<subseteq> set A \<and>
    (\<forall>n k. (n, k) \<in> T \<longrightarrow> (\<exists>t. um_find (im_trackables m) n = Some t \<and>
      (if k \<in> row_key ` set (im_view m) then tk_index t < length (im_view m) \<and> row_key (im_view m ! tk_index t) = k else tk_index t = npos))) \<and>
    (\<forall>db' at_hand p. refresh sorter npos at_hand db' m \<noteq> None \<and> invalidate_me sorter npos db' m \<noteq> None \<and> patch_set_filter sorter npos db' p m \<noteq> None)"
proof -
  have ok: "rows_ok db m" "tracks_ok npos m T" "requests_ok m A" "fst ` set (pt_mappings db) \<subseteq> set A"
    using patches_shown_ok [OF assms] by blast+
  have sorted: "\<forall>lt i j. current_order db m = Some lt \<longrightarrow> i < j \<longrightarrow> j < length (im_view m) \<longrightarrow> \<not> lt (im_view m ! j) (im_view m ! i)"
    using ok(1) unfolding rows_ok_def by (auto simp: sorted_wrt_iff_nth_less)
  have found: "\<forall>n k. (n, k) \<in> T \<longrightarrow> (\<exists>t. um_find (im_trackables m) n = Some t \<and>
      (if k \<in> row_key ` set (im_view m) then tk_index t < length (im_view m) \<and> row_key (im_view m ! tk_index t) = k else tk_index t = npos))"
  proof (intro allI impI)
    fix n k assume "(n, k) \<in> T"
    from tracked_at [OF ok(2) [unfolded tracks_ok_def] this] obtain t where "um_find (im_trackables m) n = Some t"
      "k \<in> row_key ` set (im_view m) \<longrightarrow> tk_index t < length (im_view m) \<and> row_key (im_view m ! tk_index t) = k"
      "k \<notin> row_key ` set (im_view m) \<longrightarrow> tk_index t = npos" by blast
    then show "\<exists>t. um_find (im_trackables m) n = Some t \<and>
      (if k \<in> row_key ` set (im_view m) then tk_index t < length (im_view m) \<and> row_key (im_view m ! tk_index t) = k else tk_index t = npos)"
      by (intro exI [of _ t]) (cases "k \<in> row_key ` set (im_view m)"; simp)
  qed
  have returns: "\<forall>db' at_hand p. refresh sorter npos at_hand db' m \<noteq> None \<and> invalidate_me sorter npos db' m \<noteq> None \<and> patch_set_filter sorter npos db' p m \<noteq> None"
    using refreshed_ok [OF assms(1) ok(2,3)] by (intro allI conjI) (metis option.distinct(1), simp_all add: patch_set_filter_def invalidate_me_def view_fetch_def filtered_rows_eq)
  show ?thesis
    using ok(1) [unfolded rows_ok_def module_rows_def, THEN conjunct1] sorted ok(3) [unfolded requests_ok_def, THEN conjunct1] ok(4) found returns
    by (intro conjI) assumption+
qed

definition example_symbol :: "string \<Rightarrow> u32 \<Rightarrow> u32 \<Rightarrow> symbol_info" where
  "example_symbol n rva s = \<lparr>sy_name = n, sy_rva = rva, sy_size = s, sy_file_id = 0, sy_line = 0\<rparr>"

definition example_tables :: patch_tables where
  "example_tables = \<lparr>pt_modules = [(1, \<lparr>md_symbols = [example_symbol ''b'' 16 5, example_symbol ''A'' 32 7], md_source_files = []\<rparr>)],
     pt_patches = [], pt_mappings = [(1, ''/bin/x''), (4, ''/lib/y'')]\<rparr>"

theorem patch_table_shows_symbols_witness:
  "\<exists>m A. patches_shown insertion_sorter 99 example_tables m {} A \<and> {1, 4} \<subseteq> set A \<and>
    map (\<lambda>r. sy_name (row_symbol r)) (im_view m) = [''A'', ''b'']"
proof -
  obtain asked m0 where "image_patch_model_init insertion_sorter 99 (\<lambda>_. True) example_tables = Some (asked, m0)"
    using patch_model_opens [OF insertion.sorting_axioms] by blast
  then have "patches_shown insertion_sorter 99 example_tables m0 {} asked" by (rule patches_shown.opened)
  then obtain m1 where m1: "patches_shown insertion_sorter 99 example_tables m1 {} asked" "im_filter m1 = None"
    using patches_shown.filtered_by [of insertion_sorter 99 example_tables m0 "{}" asked None]
    by (auto simp: patch_set_filter_def invalidate_me_def view_fetch_def filtered_rows_eq patch_fetch_def set_filter_def)
  let ?m = "patch_set_order insertion_sorter 99 example_tables 1 True m1"
  have m: "patches_shown insertion_sorter 99 example_tables ?m {} asked" using m1(1) by (rule patches_shown.ordered_by)
  have f: "im_filter ?m = None" using m1(2) by (simp add: patch_set_order_def patch_fetch_def row_less_def)
  have o: "current_order example_tables ?m =
      Some (\<lambda>l r. lexicographical_compare nocase_compare (sy_name (row_symbol l)) (sy_name (row_symbol r)))"
    by (simp add: patch_set_order_def patch_fetch_def current_order_def row_less_def)
  let ?r = "\<lambda>n rva s. \<lparr>row_key = (1, rva), row_symbol = example_symbol n rva s\<rparr>"
  have rows: "module_rows (pt_modules example_tables) = [?r ''b'' 16 5, ?r ''A'' 32 7]"
    by (simp add: module_rows_def example_tables_def example_symbol_def)
  note all = patch_table_shows_symbols [OF insertion.sorting_axioms m]
  have rs: "mset (im_view ?m) = {#?r ''b'' 16 5, ?r ''A'' 32 7#}"
    using all [THEN conjunct1, folded module_rows_def] unfolding f filter_match_def rows by simp
  have "length (im_view ?m) = Suc (Suc 0)" using arg_cong [OF rs, of size] by simp
  then obtain x y where xy: "im_view ?m = [x, y]" by (auto simp: length_Suc_conv)
  then have "{#x, y#} = {#?r ''b'' 16 5, ?r ''A'' 32 7#}" using rs by simp
  moreover have "\<not> lexicographical_compare nocase_compare (sy_name (row_symbol y)) (sy_name (row_symbol x))"
    using all [THEN conjunct2, THEN conjunct1, rule_format, OF o, of 0 1] xy by simp
  moreover have "lexicographical_compare nocase_compare ''A'' ''b''" by (simp add: nocase_compare_def nocase_toupper_def char_value_def)
  ultimately have "map (\<lambda>r. sy_name (row_symbol r)) (im_view ?m) = [''A'', ''b'']"
    using xy by (auto simp: example_symbol_def add_eq_conv_ex)
  moreover have "{1, 4} \<subseteq> set asked" using all by (simp add: example_tables_def)
  ultimately show ?thesis using m by (intro exI [of _ ?m] exI [of _ asked] conjI)
qed

end
