(* ===== verification/Selection.thy ===== *)
theory Selection
  imports Sdb_Groups
begin

text \<open>
  The selected rows of a table, \<^verbatim>\<open>frontend/selection_model.h\<close>: a table of keys with a unique index. A row is named by its index, of which
  \<open>get_key\<close> gives the key at that time; \<open>d\<close> is the default value of a key. What is signalled is a log.
\<close>

section \<open>Operations\<close>

definition selection_classes :: "('k, 'k) classes" where
  "selection_classes ty = \<lparr>ic_keyer = (\<lambda>record. record), ic_place = unordered_place\<rparr>"

definition self_set :: "'k \<Rightarrow> 'k \<Rightarrow> 'k" where
  "self_set record key = key"

text \<open>The table is invalidated, or the selection is: at one row, or as a whole (\<open>npos\<close>).\<close>

datatype selection_signal = Scope_Invalidated | Item_Invalidated nat | All_Invalidated

record 'k selection =
  se_scope :: "('k, 'k) table"
  se_omit_notify :: u32
  se_log :: "selection_signal list"

definition selection_init :: "('k, 'k) table \<Rightarrow> 'k selection" where
  "selection_init scope = \<lparr>se_scope = snd (table_component selection_classes 0 scope), se_omit_notify = 0, se_log = []\<rparr>"

text \<open>The slot on the invalidation of the table is silent while the selection itself invalidates it.\<close>

definition selection_slot :: "u32 \<Rightarrow> ('k, 'k, selection_signal list) subscribers" where
  "selection_slot omit sig t log =
     (if sig = Invalidate then log @ [Scope_Invalidated] @ (if omit = 0 then [All_Invalidated] else []) else log)"

definition notify_invalidate :: "nat \<Rightarrow> 'k selection \<Rightarrow> 'k selection" where
  "notify_invalidate item s =
     (let omit = se_omit_notify s;
          s = s\<lparr>se_omit_notify := omit + 1\<rparr>;
          s = (if omit = 0
               then s\<lparr>se_log := selection_slot (se_omit_notify s) Invalidate (se_scope s) (se_log s) @ [Item_Invalidated item]\<rparr>
               else s)
      in s\<lparr>se_omit_notify := se_omit_notify s - 1\<rparr>)"

definition selection_clear :: "'k selection \<Rightarrow> 'k selection" where
  "selection_clear s =
     (let (t, log) = table_clear (selection_slot (se_omit_notify s)) (se_scope s, se_log s) in s\<lparr>se_scope := t, se_log := log\<rparr>)"

text \<open>The record of a key, found or made; the index is there since the construction.\<close>

definition selection_record :: "'k \<Rightarrow> 'k \<Rightarrow> 'k selection \<Rightarrow> (transacted_record \<times> ('k, 'k) table) option" where
  "selection_record d key s =
     map_option (\<lambda>ix. unique_record self_set d ix key (se_scope s)) (um_find (t_components (se_scope s)) 0)"

definition selection_add :: "'k \<Rightarrow> (nat \<Rightarrow> 'k) \<Rightarrow> nat \<Rightarrow> 'k selection \<Rightarrow> 'k selection" where
  "selection_add d get_key item s =
     (case selection_record d (get_key item) s of
        None \<Rightarrow> s
      | Some (r, t) \<Rightarrow>
          let (t, log) = tr_commit selection_classes (selection_slot (se_omit_notify s)) r (t, se_log s)
          in notify_invalidate item (s\<lparr>se_scope := t, se_log := log\<rparr>))"

definition selection_remove :: "'k \<Rightarrow> (nat \<Rightarrow> 'k) \<Rightarrow> nat \<Rightarrow> 'k selection \<Rightarrow> 'k selection" where
  "selection_remove d get_key item s =
     (case selection_record d (get_key item) s of
        None \<Rightarrow> s
      | Some (r, t) \<Rightarrow>
          let (t, log) = tr_remove (selection_slot (se_omit_notify s)) r (t, se_log s)
          in notify_invalidate item (s\<lparr>se_scope := t, se_log := log\<rparr>))"

definition selection_contains :: "(nat \<Rightarrow> 'k) \<Rightarrow> 'k selection \<Rightarrow> nat \<Rightarrow> bool" where
  "selection_contains get_key s item =
     (case um_find (t_components (se_scope s)) 0 of
        None \<Rightarrow> False
      | Some ix \<Rightarrow> unique_find (t_records (se_scope s)) ix (get_key item) \<noteq> None)"

text \<open>From \<^verbatim>\<open>begin\<close> to \<^verbatim>\<open>end\<close>.\<close>

definition selection_list :: "'k selection \<Rightarrow> 'k list" where
  "selection_list s = map snd (t_records (se_scope s))"

section \<open>Selections as sets\<close>

text \<open>
  What a control of the user interface expects of a set of rows: every operation is that of a set of keys. The client's view of a history is
  proved once from the laws.
\<close>

datatype 'k selection_change = Select "nat \<Rightarrow> 'k" nat | Deselect "nat \<Rightarrow> 'k" nat | Deselect_All

fun set_change :: "'k selection_change \<Rightarrow> 'k set \<Rightarrow> 'k set" where
  "set_change (Select get_key item) K = insert (get_key item) K"
| "set_change (Deselect get_key item) K = K - {get_key item}"
| "set_change Deselect_All K = {}"

locale dynamic_set =
  fixes add :: "(nat \<Rightarrow> 'k) \<Rightarrow> nat \<Rightarrow> 's \<Rightarrow> 's" and remove :: "(nat \<Rightarrow> 'k) \<Rightarrow> nat \<Rightarrow> 's \<Rightarrow> 's" and clear :: "'s \<Rightarrow> 's"
    and contains :: "(nat \<Rightarrow> 'k) \<Rightarrow> 's \<Rightarrow> nat \<Rightarrow> bool" and keys :: "'s \<Rightarrow> 'k set" and invar :: "'s \<Rightarrow> bool"
  assumes keys_add: "invar s \<Longrightarrow> keys (add get_key item s) = insert (get_key item) (keys s)"
    and keys_remove: "invar s \<Longrightarrow> keys (remove get_key item s) = keys s - {get_key item}"
    and keys_clear: "invar s \<Longrightarrow> keys (clear s) = {}"
    and keys_contains: "invar s \<Longrightarrow> contains get_key s item \<longleftrightarrow> get_key item \<in> keys s"
    and invar_add: "invar s \<Longrightarrow> invar (add get_key item s)"
    and invar_remove: "invar s \<Longrightarrow> invar (remove get_key item s)"
    and invar_clear: "invar s \<Longrightarrow> invar (clear s)"
begin

fun apply_change :: "'k selection_change \<Rightarrow> 's \<Rightarrow> 's" where
  "apply_change (Select get_key item) s = add get_key item s"
| "apply_change (Deselect get_key item) s = remove get_key item s"
| "apply_change Deselect_All s = clear s"

lemma apply_change_set: "invar s \<Longrightarrow> invar (apply_change c s) \<and> keys (apply_change c s) = set_change c (keys s)"
  by (cases c) (simp_all add: keys_add keys_remove keys_clear invar_add invar_remove invar_clear)

lemma history_set: "invar s \<Longrightarrow> invar (fold apply_change cs s) \<and> keys (fold apply_change cs s) = fold set_change cs (keys s)"
  by (induction cs arbitrary: s) (simp_all add: apply_change_set)

end

section \<open>The table implements a set\<close>

definition selection_inv :: "'k selection \<Rightarrow> bool" where
  "selection_inv s \<longleftrightarrow> indexed selection_classes (se_scope s) \<and> um_find (t_components (se_scope s)) 0 \<noteq> None \<and> distinct (selection_list s)"

abbreviation selection_keys :: "'k selection \<Rightarrow> 'k set" where
  "selection_keys s \<equiv> set (selection_list s)"

lemma selection_proper: "proper selection_classes"
  by (simp add: proper_def selection_classes_def unordered.multimap_axioms)

lemma selection_keyer: "ic_keyer (selection_classes ty) x = x"
  by (simp add: selection_classes_def)

lemma notify_invalidate_simps [simp]:
  "se_scope (notify_invalidate item s) = se_scope s" "se_omit_notify (notify_invalidate item s) = se_omit_notify s"
  by (simp_all add: notify_invalidate_def Let_def)

lemma selection_lookup:
  assumes "selection_inv s" "um_find (t_components (se_scope s)) 0 = Some ix"
  shows "equal_range k ix = h # hs \<Longrightarrow> um_find (t_records (se_scope s)) h = Some k" "equal_range k ix = [] \<longleftrightarrow> k \<notin> selection_keys s"
proof -
  have i: "indexed selection_classes (se_scope s)" using assms(1) by (simp add: selection_inv_def)
  note look = unique_lookup [OF i assms(2), of k, unfolded selection_keyer]
  show "um_find (t_records (se_scope s)) h = Some k" if "equal_range k ix = h # hs" using look(1) [OF that] by auto
  have d: "distinct (map fst (t_records (se_scope s)))" using i by (simp add: indexed_def records_ok_def)
  show "equal_range k ix = [] \<longleftrightarrow> k \<notin> selection_keys s"
  proof
    assume "equal_range k ix = []"
    then show "k \<notin> selection_keys s" using look(2) map_of_is_SomeI [OF d] by (fastforce simp: selection_list_def)
  next
    assume k: "k \<notin> selection_keys s"
    show "equal_range k ix = []"
    proof (cases "equal_range k ix")
      case (Cons h hs)
      then have "um_find (t_records (se_scope s)) h = Some k" using look(1) by auto
      then have "(h, k) \<in> set (t_records (se_scope s))" by (rule map_of_SomeD)
      then show ?thesis using k by (force simp: selection_list_def)
    qed
  qed
qed

lemma selection_added:
  assumes inv: "selection_inv s"
  shows "se_scope (selection_add d get_key item s) =
    (if get_key item \<in> selection_keys s then se_scope s else inserted selection_classes (get_key item) (se_scope s))"
proof -
  let ?k = "get_key item" and ?t = "se_scope s"
  obtain ix where ix: "um_find (t_components ?t) 0 = Some ix" using inv by (auto simp: selection_inv_def)
  have ok: "records_ok ?t" using inv by (simp add: selection_inv_def indexed_def)
  note look = selection_lookup [OF inv ix, of ?k]
  show ?thesis
  proof (cases "equal_range ?k ix")
    case (Cons h hs)
    then show ?thesis using look(2)
      by (auto simp: selection_add_def selection_record_def ix unique_record_def tr_commit_def table_modify_def commit_modification_def split_def Let_def)
  next
    case Nil
    have tr: "fst (table_create d ?t) = \<lparr>tr_record = t_next ?t, tr_new = True\<rparr>" by (simp add: table_create_def)
    have "tr_commit selection_classes f (fst (unique_record self_set d ix ?k ?t)) (snd (unique_record self_set d ix ?k ?t), l) =
        table_insert selection_classes f d ?k (?t, l)" for f :: "('a, 'a, selection_signal list) subscribers" and l
      by (simp add: unique_record_def Nil split_def tr table_insert_def self_set_def Let_def)
    then show ?thesis using look(2) Nil
      by (simp add: selection_add_def selection_record_def ix split_def Let_def table_insert_eq [OF ok])
  qed
qed

lemma selection_removed:
  assumes inv: "selection_inv s"
  obtains h where "um_find (t_records (se_scope s)) h = Some (get_key item)"
      "se_scope (selection_remove d get_key item s) = deleted h (se_scope s)"
    | "get_key item \<notin> selection_keys s"
      "se_scope (selection_remove d get_key item s) = (deleted (t_next (se_scope s)) (se_scope s))\<lparr>t_next := Suc (t_next (se_scope s))\<rparr>"
proof -
  let ?k = "get_key item" and ?t = "se_scope s"
  obtain ix where ix: "um_find (t_components ?t) 0 = Some ix" using inv by (auto simp: selection_inv_def)
  have ok: "records_ok ?t" using inv by (simp add: selection_inv_def indexed_def)
  note look = selection_lookup [OF inv ix, of ?k]
  show thesis
  proof (cases "equal_range ?k ix")
    case (Cons h hs)
    have "tr_remove f (table_modify h) (?t, l) = table_delete f h (?t, l)" for f :: "('a, 'a, selection_signal list) subscribers" and l
      by (simp add: table_delete_def)
    then have "se_scope (selection_remove d get_key item s) = deleted h ?t"
      by (simp add: selection_remove_def selection_record_def ix unique_record_def Cons split_def Let_def table_delete_eq)
    then show thesis using that(1) look(1) [OF Cons] by blast
  next
    case Nil
    have tr: "fst (table_create d ?t) = \<lparr>tr_record = t_next ?t, tr_new = True\<rparr>" by (simp add: table_create_def)
    have e: "um_erase (t_next ?t) (t_records ?t @ [(t_next ?t, ?k)]) = um_erase (t_next ?t) (t_records ?t)" by (simp add: AList.delete_eq)
    have "fst (tr_remove f (fst (unique_record self_set d ix ?k ?t)) (snd (unique_record self_set d ix ?k ?t), l)) =
        (deleted (t_next ?t) ?t)\<lparr>t_next := Suc (t_next ?t)\<rparr>" for f :: "('a, 'a, selection_signal list) subscribers" and l
      using e by (simp add: unique_record_def Nil split_def tr self_set_def record_write_created [OF ok] tr_remove_def commit_removal_def Let_def
          deleted_def deindexed_def for_each_component_def)
    then have "se_scope (selection_remove d get_key item s) = (deleted (t_next ?t) ?t)\<lparr>t_next := Suc (t_next ?t)\<rparr>"
      by (simp add: selection_remove_def selection_record_def ix split_def Let_def)
    then show thesis using that(2) look(2) Nil by blast
  qed
qed

lemma erase_values:
  assumes "distinct (map fst rs)" "distinct (map snd rs)" "um_find rs h = Some k"
  shows "set (map snd (um_erase h rs)) = set (map snd rs) - {k}" "distinct (map snd (um_erase h rs))"
proof -
  have hk: "(h, k) \<in> set rs" using assms(3) by (rule map_of_SomeD)
  have same: "fst x = h \<longleftrightarrow> snd x = k" if "x \<in> set rs" for x
  proof
    assume "fst x = h"
    then show "snd x = k" using that assms(1) hk by (metis eq_key_imp_eq_value prod.collapse)
  next
    assume "snd x = k"
    then show "fst x = h" using that assms(2) hk by (metis (no_types, lifting) distinct_map inj_onD prod.sel)
  qed
  have "um_erase h rs = filter (\<lambda>x. snd x \<noteq> k) rs" unfolding AList.delete_eq case_prod_unfold using same by (intro filter_cong refl) blast
  then show "set (map snd (um_erase h rs)) = set (map snd rs) - {k}" "distinct (map snd (um_erase h rs))"
    using assms(2) by (auto simp: distinct_map_filter)
qed

lemma indexed_next: "indexed classes t \<Longrightarrow> indexed classes (t\<lparr>t_next := Suc (t_next t)\<rparr>)"
  by (auto simp: indexed_def records_ok_def less_SucI)

lemma selection_remove_set:
  assumes inv: "selection_inv s"
  shows "selection_inv (selection_remove d get_key item s) \<and>
    selection_keys (selection_remove d get_key item s) = selection_keys s - {get_key item}"
proof (rule selection_removed [OF inv, of get_key item d])
  let ?t = "se_scope s"
  have i: "indexed selection_classes ?t" "um_find (t_components ?t) 0 \<noteq> None" "distinct (map snd (t_records ?t))" "distinct (map fst (t_records ?t))"
    using inv by (simp_all add: selection_inv_def selection_list_def indexed_def records_ok_def)
  note ds = deleted_indexed [OF i(1)] components_stay(3) [OF i(2)]
  {
    fix h assume h: "um_find (t_records ?t) h = Some (get_key item)" "se_scope (selection_remove d get_key item s) = deleted h ?t"
    show ?thesis using erase_values [OF i(4,3) h(1)] ds by (simp add: selection_inv_def selection_list_def h(2))
  next
    assume h: "get_key item \<notin> selection_keys s"
      "se_scope (selection_remove d get_key item s) = (deleted (t_next ?t) ?t)\<lparr>t_next := Suc (t_next ?t)\<rparr>"
    have "t_next ?t \<notin> fst ` set (t_records ?t)" using i(1) records_fresh by (auto simp: indexed_def)
    then have e: "um_erase (t_next ?t) (t_records ?t) = t_records ?t" by (simp add: delete_id)
    have n: "t_next (deleted (t_next ?t) ?t) = t_next ?t" by (simp add: deleted_def deindexed_simps)
    have "indexed selection_classes ((deleted (t_next ?t) ?t)\<lparr>t_next := Suc (t_next ?t)\<rparr>)"
      using indexed_next [OF ds(1) [of "t_next ?t"]] by (simp add: n)
    then show ?thesis using h i(3) ds e by (simp add: selection_inv_def selection_list_def)
  }
qed

interpretation selected: dynamic_set "selection_add d" "selection_remove d" selection_clear selection_contains selection_keys selection_inv for d
proof unfold_locales
  fix s :: "'a selection" and get_key item assume inv: "selection_inv s"
  let ?t = "se_scope s"
  have i: "indexed selection_classes ?t" "um_find (t_components ?t) 0 \<noteq> None" "distinct (map snd (t_records ?t))"
    using inv by (simp_all add: selection_inv_def selection_list_def)
  note ins = inserted_indexed [OF selection_proper i(1)] components_stay(1) [OF i(2)]
  show "selection_keys (selection_add d get_key item s) = insert (get_key item) (selection_keys s)" "selection_inv (selection_add d get_key item s)"
    using i ins by (auto simp: selection_inv_def selection_list_def selection_added [OF inv])
  show "selection_keys (selection_remove d get_key item s) = selection_keys s - {get_key item}" "selection_inv (selection_remove d get_key item s)"
    using selection_remove_set [OF inv, of d get_key item] by simp_all
  have c: "se_scope (selection_clear s) = emptied ?t" by (simp add: selection_clear_def table_clear_eq)
  show "selection_keys (selection_clear s) = {}" "selection_inv (selection_clear s)"
    using components_stay(4) [OF i(2)] by (simp_all add: selection_inv_def selection_list_def c emptied_indexed)
  obtain ix where ix: "um_find (t_components ?t) 0 = Some ix" using i(2) by blast
  show "selection_contains get_key s item \<longleftrightarrow> get_key item \<in> selection_keys s"
    using selection_lookup [OF inv ix, of "get_key item"]
    by (auto simp: selection_contains_def ix unique_find_def split: list.splits)
qed

lemma selection_init_set:
  assumes "indexed selection_classes t" "distinct (map snd (t_records t))"
  shows "selection_inv (selection_init t) \<and> selection_list (selection_init t) = map snd (t_records t)"
  using table_component_indexed [OF selection_proper assms(1), of 0] assms(2)
  by (simp add: selection_inv_def selection_list_def selection_init_def)

section \<open>Properties\<close>

fun change_selection :: "'k \<Rightarrow> 'k selection_change \<Rightarrow> 'k selection \<Rightarrow> 'k selection" where
  "change_selection d (Select get_key item) s = selection_add d get_key item s"
| "change_selection d (Deselect get_key item) s = selection_remove d get_key item s"
| "change_selection d Deselect_All s = selection_clear s"

lemma selection_change_apply: "change_selection d c s = selected.apply_change d c s"
  by (cases c) simp_all

text \<open>
  A selection is a set. After any sequence of operations, with rows that meant different keys at different times, the selection lists
  each selected key once and no other, and a row is selected if its key is; adding twice is adding once, and removing what is not there
  changes nothing, though a record is made for it and removed. Each change is announced for the row it was made at, without the whole
  selection being invalidated.
\<close>

theorem selection_is_a_set:
  fixes s :: "'k selection"
  assumes "s = fold (change_selection d) cs (selection_init table_init)"
  shows "distinct (selection_list s) \<and> set (selection_list s) = fold set_change cs {} \<and>
    (selection_contains get_key s item \<longleftrightarrow> get_key item \<in> fold set_change cs {}) \<and> se_omit_notify s = 0 \<and>
    se_log (selection_add d get_key item s) = se_log s @ [Scope_Invalidated, Item_Invalidated item]"
proof -
  have "t_records (table_init :: ('k, 'k) table) = []" by (simp add: table_init_def)
  then have init: "selection_inv (selection_init table_init :: 'k selection) \<and> selection_list (selection_init table_init :: 'k selection) = []"
    using selection_init_set [of "table_init :: ('k, 'k) table", OF indexed_init] by simp
  have f: "s = fold (selected.apply_change d) cs (selection_init table_init)"
    unfolding assms by (rule fold_cong) (simp_all add: selection_change_apply fun_eq_iff)
  have h: "selection_inv s" "selection_keys s = fold set_change cs {}"
    using selected.history_set [of "selection_init table_init" d cs] init by (simp_all add: f)
  have o: "se_omit_notify (fold (change_selection d) cs s) = se_omit_notify s" for s
  proof (induction cs arbitrary: s)
    case (Cons c cs)
    then show ?case
      by (cases c) (simp_all add: selection_add_def selection_remove_def selection_clear_def split_def Let_def split: option.splits)
  qed simp
  have z: "se_omit_notify s = 0" unfolding assms o by (simp add: selection_init_def)
  obtain r t where r: "selection_record d (get_key item) s = Some (r, t)"
    using h(1) by (cases "selection_record d (get_key item) s") (auto simp: selection_inv_def selection_record_def)
  have "snd (tr_commit selection_classes (selection_slot 0) r (t, se_log s)) = se_log s"
    by (simp add: tr_commit_def commit_creation_def commit_modification_def selection_slot_def split: option.splits)
  then have "se_log (selection_add d get_key item s) = se_log s @ [Scope_Invalidated, Item_Invalidated item]"
    by (simp add: selection_add_def r split_def Let_def z notify_invalidate_def selection_slot_def)
  then show ?thesis using h z selected.keys_contains [OF h(1), of get_key item] by (simp add: selection_inv_def)
qed

theorem selection_is_a_set_witness:
  "let s = fold (change_selection 0) [Select (\<lambda>i. i + 10) 1, Deselect (\<lambda>i. i) 3, Select (\<lambda>i. i + 11) 0] (selection_init table_init)
   in selection_list s = [11 :: nat] \<and> selection_contains (\<lambda>i. i + 9) s 2"
proof -
  define s where "s = fold (change_selection 0) [Select (\<lambda>i. i + 10) 1, Deselect (\<lambda>i. i) 3, Select (\<lambda>i. i + 11) 0] (selection_init table_init :: nat selection)"
  note all = selection_is_a_set [OF s_def, of "\<lambda>i. i + 9" 2]
  have "selection_list s = [11]" using all by (cases "selection_list s" rule: remdups_adj.cases) auto
  then show ?thesis using all unfolding s_def [symmetric] by simp
qed

end
