(* ===== verification/Headers_Model.thy ===== *)
theory Headers_Model
  imports Prelude
begin

text \<open>
  Columns with their widths and the order of rows, kept over runs of the program: \<^verbatim>\<open>frontend/src/headers_model.cpp\<close> over the interface
  \<^verbatim>\<open>common/configuration.h\<close> and its implementations \<^verbatim>\<open>common/src/configuration_registry.cpp\<close> and \<^verbatim>\<open>common/src/configuration_file.cpp\<close>. The
  integers are those of the code: an index has 64 bits, a stored value 32, a width 16. Only integers are stored.
\<close>

section \<open>Hives\<close>

text \<open>The virtual methods of a hive; \<open>'h\<close> is a pointer to one, \<open>'s\<close> what they are kept in.\<close>

record ('h, 's) hive_ops =
  hv_create :: "'h \<Rightarrow> string \<Rightarrow> 's \<Rightarrow> 'h \<times> 's"
  hv_open :: "'h \<Rightarrow> string \<Rightarrow> 's \<Rightarrow> 'h option"
  hv_store :: "'h \<Rightarrow> string \<Rightarrow> u32 \<Rightarrow> 's \<Rightarrow> 's"
  hv_load :: "'h \<Rightarrow> string \<Rightarrow> 's \<Rightarrow> u32 option"

text \<open>
  The registry of the system: keys, which are paths, and values with their keys and names. Opening a key that is not there gives a hive
  with a null key, from which nothing is loaded and to which nothing is stored.
\<close>

record registry =
  rg_keys :: "string list list"
  rg_values :: "(string list \<times> string, u32) umap"

definition registry_create :: "string list option \<Rightarrow> string \<Rightarrow> registry \<Rightarrow> string list option \<times> registry" where
  "registry_create key name r =
     (case key of None \<Rightarrow> (None, r) | Some path \<Rightarrow> (Some (path @ [name]), r\<lparr>rg_keys := List.insert (path @ [name]) (rg_keys r)\<rparr>))"

definition registry_open :: "string list option \<Rightarrow> string \<Rightarrow> registry \<Rightarrow> string list option option" where
  "registry_open key name r =
     Some (case key of None \<Rightarrow> None | Some path \<Rightarrow> if path @ [name] \<in> set (rg_keys r) then Some (path @ [name]) else None)"

definition registry_store :: "string list option \<Rightarrow> string \<Rightarrow> u32 \<Rightarrow> registry \<Rightarrow> registry" where
  "registry_store key name v r = (case key of None \<Rightarrow> r | Some path \<Rightarrow> r\<lparr>rg_values := um_assign (path, name) v (rg_values r)\<rparr>)"

definition registry_load :: "string list option \<Rightarrow> string \<Rightarrow> registry \<Rightarrow> u32 option" where
  "registry_load key name r = (case key of None \<Rightarrow> None | Some path \<Rightarrow> um_find (rg_values r) (path, name))"

definition registry_hive :: "(string list option, registry) hive_ops" where
  "registry_hive = \<lparr>hv_create = registry_create, hv_open = registry_open, hv_store = registry_store, hv_load = registry_load\<rparr>"

text \<open>The hive of other systems keeps nothing.\<close>

definition file_hive :: "(unit, unit) hive_ops" where
  "file_hive = \<lparr>hv_create = (\<lambda>this name s. (this, s)), hv_open = (\<lambda>this name s. Some this), hv_store = (\<lambda>this name v s. s),
     hv_load = (\<lambda>this name s. None)\<rparr>"

section \<open>Headers\<close>

record header_column =
  hc_id :: string
  hc_width :: u16
  hc_compare :: bool
  hc_ascending :: bool

record headers_model =
  hd_columns :: "header_column list"
  hd_sort_column :: u64
  hd_sort_ascending :: bool

definition header_npos :: u64 where "header_npos = - 1"

definition c_order_by :: string where "c_order_by = ''OrderBy''"
definition c_order_direction :: string where "c_order_direction = ''OrderDirection''"
definition c_width :: string where "c_width = ''Width''"

definition store_column :: "('h, 's) hive_ops \<Rightarrow> 'h \<Rightarrow> header_column \<Rightarrow> 's \<Rightarrow> 's" where
  "store_column ops configuration i s =
     (let (cc, s) = hv_create ops configuration (hc_id i) s in hv_store ops cc c_width (scast (hc_width i)) s)"

definition headers_store :: "('h, 's) hive_ops \<Rightarrow> 'h \<Rightarrow> headers_model \<Rightarrow> 's \<Rightarrow> 's" where
  "headers_store ops configuration m s =
     (let s = hv_store ops configuration c_order_by (if hd_sort_column m \<noteq> header_npos then ucast (hd_sort_column m) else - 1) s;
          s = hv_store ops configuration c_order_direction (if hd_sort_ascending m then 1 else 0) s
      in fold (store_column ops configuration) (hd_columns m) s)"

definition update_column :: "('h, 's) hive_ops \<Rightarrow> 'h \<Rightarrow> 's \<Rightarrow> header_column \<Rightarrow> header_column" where
  "update_column ops configuration s i =
     (case hv_open ops configuration (hc_id i) s of
        None \<Rightarrow> i
      | Some cc \<Rightarrow> (case hv_load ops cc c_width s of None \<Rightarrow> i | Some stored \<Rightarrow> i\<lparr>hc_width := ucast stored\<rparr>))"

definition headers_update :: "('h, 's) hive_ops \<Rightarrow> 'h \<Rightarrow> 's \<Rightarrow> headers_model \<Rightarrow> headers_model" where
  "headers_update ops configuration s m =
     (let column = (case hv_load ops configuration c_order_by s of None \<Rightarrow> hd_sort_column m | Some stored \<Rightarrow> scast stored)
      in \<lparr>hd_columns = map (update_column ops configuration s) (hd_columns m),
          hd_sort_column = (if column < of_nat (length (hd_columns m)) then column else header_npos),
          hd_sort_ascending = (case hv_load ops configuration c_order_direction s of None \<Rightarrow> hd_sort_ascending m | Some stored \<Rightarrow> stored \<noteq> 0)\<rparr>)"

definition headers_count :: "headers_model \<Rightarrow> nat" where
  "headers_count m = length (hd_columns m)"

definition get_sort_order :: "headers_model \<Rightarrow> u64 \<times> bool" where
  "get_sort_order m = (hd_sort_column m, hd_sort_ascending m)"

definition set_width :: "nat \<Rightarrow> u16 \<Rightarrow> headers_model \<Rightarrow> headers_model option" where
  "set_width item width m =
     (if item < length (hd_columns m) then Some (m\<lparr>hd_columns := (hd_columns m)[item := (hd_columns m ! item)\<lparr>hc_width := width\<rparr>]\<rparr>) else None)"

text \<open>The new order is signalled, if there is one.\<close>

definition activate_column :: "u64 \<Rightarrow> headers_model \<Rightarrow> ((u64 \<times> bool) list \<times> headers_model) option" where
  "activate_column column m =
     (if unat column < length (hd_columns m)
      then
        let activated = hd_columns m ! unat column
        in if hc_compare activated
           then
             let ascending = (if hd_sort_column m = column then \<not> hd_sort_ascending m else hc_ascending activated)
             in Some ([(column, ascending)], m\<lparr>hd_sort_ascending := ascending, hd_sort_column := column\<rparr>)
           else Some ([], m)
      else None)"

section \<open>What is loaded after it was stored\<close>

lemma small_index: "n < 2 ^ 31 \<Longrightarrow> unat (of_nat n :: u64) = n"
  by (simp add: unat_of_nat)

lemma width_kept: "ucast (scast (w :: u16) :: u32) = w"
proof (rule bit_word_eqI)
  fix n assume "n < LENGTH(16)"
  then have "n = 15 \<or> n < 15" by auto
  then show "bit (ucast (scast w :: u32) :: u16) n = bit w n" by (auto simp: bit_simps min_def)
qed

text \<open>
  The contract of a hive, between the pointers that are its own: what was stored is loaded, other values stay, a hive once created is
  opened, and hives created under different names are different, and different from the one they are in.
\<close>

locale hive =
  fixes ops :: "('h, 's) hive_ops" and own :: "'h \<Rightarrow> bool"
  assumes load_store: "own h \<Longrightarrow> own h' \<Longrightarrow> hv_load ops h' n' (hv_store ops h n v s) = (if h' = h \<and> n' = n then Some v else hv_load ops h' n' s)"
    and own_create: "own h \<Longrightarrow> own (fst (hv_create ops h n s))"
    and load_create: "own h \<Longrightarrow> own h' \<Longrightarrow> hv_load ops h' n' (snd (hv_create ops h n s)) = hv_load ops h' n' s"
    and open_create: "own h \<Longrightarrow> hv_open ops h n (snd (hv_create ops h n s)) = Some (fst (hv_create ops h n s))"
    and open_stays: "own h \<Longrightarrow> n' \<noteq> n \<Longrightarrow> hv_open ops h n (snd (hv_create ops h n' s)) = hv_open ops h n s"
    and open_store: "own h \<Longrightarrow> own h' \<Longrightarrow> hv_open ops h n (hv_store ops h' n' v s) = hv_open ops h n s"
    and create_inj: "own h \<Longrightarrow> fst (hv_create ops h n s) = fst (hv_create ops h n' s') \<longleftrightarrow> n = n'"
    and create_other: "own h \<Longrightarrow> fst (hv_create ops h n s) \<noteq> h"
begin

lemma store_column_effect:
  assumes h: "own h"
  shows "hv_load ops h n (store_column ops h c s) = hv_load ops h n s"
    "hv_open ops h (hc_id c) (store_column ops h c s) = Some (fst (hv_create ops h (hc_id c) s))"
    "hv_load ops (fst (hv_create ops h (hc_id c) s)) c_width (store_column ops h c s) = Some (scast (hc_width c))"
    "n \<noteq> hc_id c \<Longrightarrow> hv_open ops h n (store_column ops h c s) = hv_open ops h n s"
    "n \<noteq> hc_id c \<Longrightarrow> hv_load ops (fst (hv_create ops h n s')) m (store_column ops h c s) = hv_load ops (fst (hv_create ops h n s')) m s"
proof -
  note own = own_create [OF h]
  show "hv_load ops h n (store_column ops h c s) = hv_load ops h n s"
    using create_other [OF h, of "hc_id c" s] by (simp add: store_column_def split_def Let_def load_store load_create h own eq_commute)
  show "hv_open ops h (hc_id c) (store_column ops h c s) = Some (fst (hv_create ops h (hc_id c) s))"
    by (simp add: store_column_def split_def Let_def open_store open_create h own)
  show "hv_load ops (fst (hv_create ops h (hc_id c) s)) c_width (store_column ops h c s) = Some (scast (hc_width c))"
    by (simp add: store_column_def split_def Let_def load_store own)
  show "hv_open ops h n (store_column ops h c s) = hv_open ops h n s" if "n \<noteq> hc_id c"
    using that open_stays [OF h, of "hc_id c" n s] by (simp add: store_column_def split_def Let_def open_store h own)
  show "hv_load ops (fst (hv_create ops h n s')) m (store_column ops h c s) = hv_load ops (fst (hv_create ops h n s')) m s" if "n \<noteq> hc_id c"
    using that by (simp add: store_column_def split_def Let_def load_store load_create h own create_inj)
qed

lemma columns_kept:
  assumes h: "own h"
  shows "n \<notin> hc_id ` set cs \<Longrightarrow> hv_open ops h n (fold (store_column ops h) cs s) = hv_open ops h n s"
    "n \<notin> hc_id ` set cs \<Longrightarrow> hv_load ops (fst (hv_create ops h n s')) m (fold (store_column ops h) cs s) = hv_load ops (fst (hv_create ops h n s')) m s"
    "hv_load ops h m (fold (store_column ops h) cs s) = hv_load ops h m s"
  by (induction cs arbitrary: s) (simp_all add: store_column_effect [OF h])

lemma columns_stored:
  assumes h: "own h"
  shows "distinct (map hc_id cs) \<Longrightarrow> c \<in> set cs \<Longrightarrow>
    \<exists>cc. hv_open ops h (hc_id c) (fold (store_column ops h) cs s) = Some cc \<and>
      hv_load ops cc c_width (fold (store_column ops h) cs s) = Some (scast (hc_width c))"
proof (induction cs arbitrary: s)
  case (Cons x cs)
  show ?case
  proof (cases "c = x")
    case True
    then have "hc_id x \<notin> hc_id ` set cs" using Cons.prems(1) by simp
    then show ?thesis using True by (simp add: columns_kept [OF h] store_column_effect [OF h])
  next
    case False
    then show ?thesis using Cons by simp
  qed
qed simp

lemma headers_restored:
  assumes h: "own h" and ids: "distinct (map hc_id (hd_columns m))" "map hc_id (hd_columns m0) = map hc_id (hd_columns m)"
    and few: "length (hd_columns m) < 2 ^ 31" and order: "hd_sort_column m = header_npos \<or> unat (hd_sort_column m) < length (hd_columns m)"
  shows "get_sort_order (headers_update ops h (headers_store ops h m s) m0) = get_sort_order m \<and>
    map hc_width (hd_columns (headers_update ops h (headers_store ops h m s) m0)) = map hc_width (hd_columns m)"
proof -
  define s1 where "s1 = hv_store ops h c_order_by (if hd_sort_column m \<noteq> header_npos then ucast (hd_sort_column m) else - 1) s"
  define s2 where "s2 = hv_store ops h c_order_direction (if hd_sort_ascending m then 1 else 0) s1"
  let ?s = "headers_store ops h m s"
  have s: "?s = fold (store_column ops h) (hd_columns m) s2" by (simp add: headers_store_def s1_def s2_def Let_def)
  have n: "c_order_by \<noteq> c_order_direction" by (simp add: c_order_by_def c_order_direction_def)
  have col: "hv_load ops h c_order_by ?s = Some (if hd_sort_column m \<noteq> header_npos then ucast (hd_sort_column m) else - 1)"
    unfolding s columns_kept(3) [OF h] s2_def s1_def using n by (simp add: load_store [OF h h])
  have dir: "hv_load ops h c_order_direction ?s = Some (if hd_sort_ascending m then 1 else 0)"
    unfolding s columns_kept(3) [OF h] s2_def by (simp add: load_store [OF h h])
  have len: "length (hd_columns m0) = length (hd_columns m)" using ids(2) by (metis length_map)
  have column: "(let c = scast (if hd_sort_column m \<noteq> header_npos then ucast (hd_sort_column m) else - 1 :: u32) :: u64
      in if c < of_nat (length (hd_columns m)) then c else header_npos) = hd_sort_column m"
  proof (cases "hd_sort_column m = header_npos")
    case True
    have "\<not> (- 1 :: u64) < of_nat (length (hd_columns m))" by simp
    then show ?thesis using True by (simp add: header_npos_def)
  next
    case False
    then have lt: "unat (hd_sort_column m) < length (hd_columns m)" using order by simp
    then have small: "unat (hd_sort_column m) < 2 ^ 31" using few by simp
    have "(scast (ucast (hd_sort_column m) :: u32) :: u64) = hd_sort_column m"
    proof -
      have u: "uint (hd_sort_column m) < 2 ^ 31" unfolding uint_nat of_nat_less_numeral_power_cancel_iff using small .
      have "- (2 ^ 31) \<le> uint (hd_sort_column m)" by (rule order_trans [OF _ uint_ge_0]) simp
      then have "signed_take_bit 31 (uint (hd_sort_column m)) = uint (hd_sort_column m)" using u by (rule signed_take_bit_int_eq_self)
      then have "sint (ucast (hd_sort_column m) :: u32) = uint (hd_sort_column m)"
        using u uint_ge_0 [of "hd_sort_column m"] by (simp add: sint_uint unsigned_ucast_eq take_bit_int_eq_self)
      then show ?thesis by (simp add: scast_eq)
    qed
    moreover have "hd_sort_column m < of_nat (length (hd_columns m))"
      using lt few by (simp add: word_less_nat_alt small_index)
    ultimately show ?thesis using False by simp
  qed
  have "hc_width (update_column ops h ?s x) = hc_width c" if "hc_id x = hc_id c" "c \<in> set (hd_columns m)" for x c
    using columns_stored [OF h ids(1) that(2), of s2] that(1) unfolding s update_column_def by (auto simp: width_kept)
  then have "map hc_width (map (update_column ops h ?s) (hd_columns m0)) = map hc_width (hd_columns m)"
    using ids(2) by (intro nth_equalityI) (auto simp: len, metis length_map nth_map nth_mem)
  moreover have "get_sort_order (headers_update ops h ?s m0) = get_sort_order m"
    using column by (simp add: headers_update_def get_sort_order_def col dir len Let_def)
  moreover have "hd_columns (headers_update ops h ?s m0) = map (update_column ops h ?s) (hd_columns m0)" by (simp add: headers_update_def Let_def)
  ultimately show ?thesis by simp
qed

end

interpretation registry: hive registry_hive "\<lambda>key. key \<noteq> None"
  by unfold_locales
    (auto simp: registry_hive_def registry_create_def registry_open_def registry_store_def registry_load_def dict_simps split: option.splits if_splits)

section \<open>Properties\<close>

text \<open>
  Settings survive. The order of rows and the widths of columns that were stored in the registry are those of any model with the same
  columns that is updated from it, whatever it had before and whatever else the registry holds; the numbers keep their signs through the
  three widths they have on the way. A key that cannot be opened, and the hive of other systems, leave a model as it is, except for
  a column of order it does not have.
\<close>

theorem headers_are_restored:
  assumes "distinct (map hc_id (hd_columns m))" "map hc_id (hd_columns m0) = map hc_id (hd_columns m)" "length (hd_columns m) < 2 ^ 31"
    and "hd_sort_column m = header_npos \<or> unat (hd_sort_column m) < length (hd_columns m)"
  shows "get_sort_order (headers_update registry_hive (Some path) (headers_store registry_hive (Some path) m r) m0) = get_sort_order m \<and>
    map hc_width (hd_columns (headers_update registry_hive (Some path) (headers_store registry_hive (Some path) m r) m0)) = map hc_width (hd_columns m) \<and>
    headers_update registry_hive None r m = m \<and> headers_update file_hive () (headers_store file_hive () m ()) m = m"
proof -
  have c: "(if hd_sort_column m < of_nat (length (hd_columns m)) then hd_sort_column m else header_npos) = hd_sort_column m"
    using assms(3,4) by (auto simp: word_less_nat_alt small_index)
  have "update_column registry_hive None r = (\<lambda>i. i)" "update_column file_hive () () = (\<lambda>i. i)"
    by (simp_all add: update_column_def registry_hive_def registry_open_def registry_load_def file_hive_def fun_eq_iff)
  then have "headers_update registry_hive None r m = m" "headers_update file_hive () u m = m" for u
    using c by (simp_all add: headers_update_def registry_hive_def registry_load_def file_hive_def)
  then show ?thesis using registry.headers_restored [OF _ assms, of "Some path" r] by simp
qed

definition example_headers :: headers_model where
  "example_headers = \<lparr>hd_columns = [\<lparr>hc_id = ''Name'', hc_width = - 3, hc_compare = True, hc_ascending = True\<rparr>,
     \<lparr>hc_id = ''Time'', hc_width = 120, hc_compare = True, hc_ascending = False\<rparr>], hd_sort_column = 1, hd_sort_ascending = False\<rparr>"

theorem headers_are_restored_witness:
  "let r = headers_store registry_hive (Some [''Software'']) example_headers \<lparr>rg_keys = [], rg_values = []\<rparr>;
       m = headers_update registry_hive (Some [''Software'']) r
         \<lparr>hd_columns = map (\<lambda>c. c\<lparr>hc_width := 10\<rparr>) (hd_columns example_headers), hd_sort_column = header_npos, hd_sort_ascending = True\<rparr>
   in get_sort_order m = (1, False) \<and> map hc_width (hd_columns m) = [- 3, 120]"
  using headers_are_restored [of example_headers
      "\<lparr>hd_columns = map (\<lambda>c. c\<lparr>hc_width := 10\<rparr>) (hd_columns example_headers), hd_sort_column = header_npos, hd_sort_ascending = True\<rparr>"
      "[''Software'']" "\<lparr>rg_keys = [], rg_values = []\<rparr>"]
  by (simp add: Let_def) (simp add: example_headers_def get_sort_order_def)

text \<open>A click on a column with an order sorts by it, in its own direction first and then in turns; other columns do nothing.\<close>

lemma activation_alternates:
  assumes "activate_column column m = Some (sig, m1)" "hc_compare (hd_columns m ! unat column)"
  shows "sig = [get_sort_order m1] \<and> hd_sort_column m1 = column \<and> hd_columns m1 = hd_columns m \<and>
    (hd_sort_column m \<noteq> column \<longrightarrow> hd_sort_ascending m1 = hc_ascending (hd_columns m ! unat column)) \<and>
    activate_column column m1 = Some ([(column, \<not> hd_sort_ascending m1)], m1\<lparr>hd_sort_ascending := \<not> hd_sort_ascending m1\<rparr>)"
  using assms by (auto simp: activate_column_def get_sort_order_def Let_def split: if_splits)

end
