(* ===== verification/Collector_App.thy ===== *)
theory Collector_App
  imports Statistics_Update Module_Tracker
begin

text \<open>
  The collector as an application: \<^verbatim>\<open>collector/src/collector_app.cpp\<close> on the thread of \<^verbatim>\<open>collector/src/active_server_app.cpp\<close>. All it does is
  done by tasks of one queue; the model runs any of the tasks that wait, so that the order the deadlines give is one of those it covers.
  What a reading of the collector delivers, the modules of the process at a time and the files are arguments of a task. A task of a
  session that is gone is not run, since the session has a queue of its own that goes with it.
\<close>

section \<open>State\<close>

datatype app_task = Collect | Update_Requested | Frontend_Disconnected | Stop_Requested

datatype outbound_message = Init_Sent | Modules_Loaded "mapped_module_identified list" | Statistics_Sent statistics_update
  | Modules_Unloaded "nat list" | Exiting_Sent

record 'f collector_app =
  ca_analyzer :: "u64 analyzer"
  ca_tracker :: "'f module_tracker"
  ca_session :: bool
  ca_exit_requested :: bool
  ca_exit_confirmed :: bool
  ca_tasks :: "app_task list"
  ca_outbound :: "outbound_message list"

text \<open>What one run of a task may read.\<close>

record 'f surroundings =
  sr_batches :: "(u32 \<times> u64 call_record list) list"
  sr_modules :: "mapped_module list"
  sr_fid :: "string \<Rightarrow> 'f"
  sr_files :: "string \<Rightarrow> u8 list option"

section \<open>Operations\<close>

text \<open>The worker connects and the session is initialized: the frontend is told who it is, and the first collection is scheduled.\<close>

definition initialize_session :: "'f collector_app \<Rightarrow> 'f collector_app" where
  "initialize_session a =
     a\<lparr>ca_tracker := module_tracker_init, ca_outbound := ca_outbound a @ [Init_Sent], ca_tasks := ca_tasks a @ [Collect]\<rparr>"

definition collector_app_init :: "overhead \<Rightarrow> 'f collector_app" where
  "collector_app_init ov =
     (initialize_session
        \<lparr>ca_analyzer = analyzer_init ov, ca_tracker = module_tracker_init, ca_session = False, ca_exit_requested = False,
         ca_exit_confirmed = False, ca_tasks = [], ca_outbound = []\<rparr>)\<lparr>ca_session := True\<rparr>"

definition read_collected_app :: "'f surroundings \<Rightarrow> 'f collector_app \<Rightarrow> 'f collector_app option" where
  "read_collected_app r a = map_option (\<lambda>an. a\<lparr>ca_analyzer := an\<rparr>) (an_accept_all (sr_batches r) (ca_analyzer a))"

definition collect_and_reschedule :: "'f surroundings \<Rightarrow> 'f collector_app \<Rightarrow> 'f collector_app option" where
  "collect_and_reschedule r a = map_option (\<lambda>a. a\<lparr>ca_tasks := ca_tasks a @ [Collect]\<rparr>) (read_collected_app r a)"

definition finalize_session :: "'f surroundings \<Rightarrow> 'f collector_app \<Rightarrow> (bool \<times> 'f collector_app) option" where
  "finalize_session r a = map_option (\<lambda>a. (True, a\<lparr>ca_outbound := ca_outbound a @ [Exiting_Sent]\<rparr>)) (read_collected_app r a)"

definition handle_update :: "'f surroundings \<Rightarrow> 'f collector_app \<Rightarrow> 'f collector_app option" where
  "handle_update r a =
     (case get_changes (sr_fid r) (sr_files r) (sr_modules r) (ca_tracker a) of
        None \<Rightarrow> None
      | Some (Inl e, mt) \<Rightarrow> None
      | Some (Inr (loaded, unloaded), mt) \<Rightarrow>
          Some (a\<lparr>ca_tracker := mt,
            ca_outbound := ca_outbound a @ (if loaded \<noteq> [] then [Modules_Loaded loaded] else []) @
              [Statistics_Sent (statistics_message (ca_analyzer a))] @ (if unloaded \<noteq> [] then [Modules_Unloaded unloaded] else []),
            ca_analyzer := an_clear (ca_analyzer a)\<rparr>))"

definition frontend_disconnected :: "'f collector_app \<Rightarrow> 'f collector_app" where
  "frontend_disconnected a =
     (let a = (if ca_exit_requested a then a\<lparr>ca_exit_confirmed := True\<rparr> else a) in a\<lparr>ca_session := False\<rparr>)"

definition stop_requested :: "'f surroundings \<Rightarrow> 'f collector_app \<Rightarrow> 'f collector_app option" where
  "stop_requested r a =
     (if ca_session a
      then map_option (\<lambda>(finalizing, a). if finalizing then a\<lparr>ca_exit_requested := True\<rparr> else a\<lparr>ca_exit_confirmed := True\<rparr>) (finalize_session r a)
      else Some (a\<lparr>ca_exit_confirmed := True\<rparr>))"

fun run_app_task :: "'f surroundings \<Rightarrow> app_task \<Rightarrow> 'f collector_app \<Rightarrow> 'f collector_app option" where
  "run_app_task r Collect a = collect_and_reschedule r a"
| "run_app_task r Update_Requested a = (if ca_session a then handle_update r a else Some a)"
| "run_app_task r Frontend_Disconnected a = (if ca_session a then Some (frontend_disconnected a) else Some a)"
| "run_app_task r Stop_Requested a = stop_requested r a"

text \<open>What a task adds to the batches read so far.\<close>

fun task_batches :: "'f surroundings \<Rightarrow> app_task \<Rightarrow> 'f collector_app \<Rightarrow> (u32 \<times> u64 call_record list) list" where
  "task_batches r Collect a = sr_batches r"
| "task_batches r Stop_Requested a = (if ca_session a then sr_batches r else [])"
| "task_batches r _ a = []"

section \<open>Runs\<close>

text \<open>
  The life of the application until the worker ends its loop: \<open>bs\<close> are the batches read, \<open>stopping\<close> says that the destructor has been
  called, which schedules the stop request. The frontend requests and disconnects while it is connected.
\<close>

inductive app_runs :: "overhead \<Rightarrow> (u32 \<times> u64 call_record list) list \<Rightarrow> bool \<Rightarrow> 'f collector_app \<Rightarrow> bool" for ov where
  started: "app_runs ov [] False (collector_app_init ov)"
| requested: "app_runs ov bs stopping a \<Longrightarrow> ca_session a \<Longrightarrow> app_runs ov bs stopping (a\<lparr>ca_tasks := ca_tasks a @ [Update_Requested]\<rparr>)"
| disconnected: "app_runs ov bs stopping a \<Longrightarrow> ca_session a \<Longrightarrow> app_runs ov bs stopping (a\<lparr>ca_tasks := ca_tasks a @ [Frontend_Disconnected]\<rparr>)"
| stopped: "app_runs ov bs False a \<Longrightarrow> app_runs ov bs True (a\<lparr>ca_tasks := ca_tasks a @ [Stop_Requested]\<rparr>)"
| ran: "app_runs ov bs stopping a \<Longrightarrow> ca_tasks a = before @ t # after \<Longrightarrow> run_app_task r t (a\<lparr>ca_tasks := before @ after\<rparr>) = Some a' \<Longrightarrow>
    app_runs ov (bs @ task_batches r t a) stopping a'"

definition updates_sent :: "'f collector_app \<Rightarrow> statistics_update list" where
  "updates_sent a = concat (map (\<lambda>m. case m of Statistics_Sent u \<Rightarrow> [u] | _ \<Rightarrow> []) (ca_outbound a))"

definition exit_ok :: "bool \<Rightarrow> 'f collector_app \<Rightarrow> bool" where
  "exit_ok stopping a \<longleftrightarrow>
     (ca_exit_requested a \<longrightarrow> stopping) \<and> (ca_exit_confirmed a \<longrightarrow> stopping \<and> \<not> ca_session a) \<and>
     (\<not> stopping \<longrightarrow> Stop_Requested \<notin> set (ca_tasks a)) \<and>
     (stopping \<and> Stop_Requested \<notin> set (ca_tasks a) \<longrightarrow> (if ca_session a then ca_exit_requested a else ca_exit_confirmed a)) \<and>
     count_list (ca_tasks a) Collect = 1 \<and> count_list (ca_tasks a) Stop_Requested \<le> 1 \<and>
     count_list (ca_outbound a) Exiting_Sent = of_bool (ca_exit_requested a) \<and>
     (Stop_Requested \<in> set (ca_tasks a) \<longrightarrow> \<not> ca_exit_requested a \<and> \<not> ca_exit_confirmed a)"

lemma exit_ok_frame:
  assumes "exit_ok stopping a" "ca_session a' = ca_session a" "ca_exit_requested a' = ca_exit_requested a" "ca_exit_confirmed a' = ca_exit_confirmed a"
    and "\<And>t. t = Collect \<or> t = Stop_Requested \<Longrightarrow> count_list (ca_tasks a') t = count_list (ca_tasks a) t"
    and "count_list (ca_outbound a') Exiting_Sent = count_list (ca_outbound a) Exiting_Sent"
  shows "exit_ok stopping a'"
proof -
  have c: "count_list (ca_tasks a') Collect = count_list (ca_tasks a) Collect" "count_list (ca_tasks a') Stop_Requested = count_list (ca_tasks a) Stop_Requested"
    using assms(5) by simp_all
  have m: "Stop_Requested \<in> set (ca_tasks a') \<longleftrightarrow> Stop_Requested \<in> set (ca_tasks a)"
    using c(2) count_list_0_iff by metis
  show ?thesis using assms(1) unfolding exit_ok_def assms(2-4,6) c m .
qed

lemma exit_ok_run:
  assumes ok: "exit_ok stopping a" and tasks: "ca_tasks a = before @ t # after" and run: "run_app_task r t (a\<lparr>ca_tasks := before @ after\<rparr>) = Some a'"
  shows "exit_ok stopping a'"
proof (cases t)
  case Collect
  show ?thesis using run Collect tasks
    by (intro exit_ok_frame [OF ok]) (auto simp: collect_and_reschedule_def read_collected_app_def)
next
  case Update_Requested
  show ?thesis using run Update_Requested tasks
    by (intro exit_ok_frame [OF ok]) (auto simp: handle_update_def split: if_splits option.splits prod.splits sum.splits)
next
  case Frontend_Disconnected
  let ?a = "a\<lparr>ca_tasks := before @ after\<rparr>"
  have ok': "exit_ok stopping ?a" using Frontend_Disconnected tasks by (intro exit_ok_frame [OF ok]) auto
  show ?thesis
  proof (cases "ca_session a")
    case True
    then have a': "a' = frontend_disconnected ?a" using run Frontend_Disconnected by simp
    show ?thesis using ok' True unfolding a' exit_ok_def frontend_disconnected_def Let_def
      by (cases "ca_exit_requested a"; cases stopping) simp_all
  next
    case False
    then show ?thesis using run Frontend_Disconnected ok' by simp
  qed
next
  case Stop_Requested
  have c: "count_list before Stop_Requested = 0" "count_list after Stop_Requested = 0" "count_list (before @ after) Collect = 1"
    using ok tasks Stop_Requested by (simp_all add: exit_ok_def)
  then have n: "Stop_Requested \<notin> set (before @ after)" by (simp add: count_list_0_iff)
  have o: "stopping" "\<not> ca_exit_requested a" "\<not> ca_exit_confirmed a" "count_list (ca_outbound a) Exiting_Sent = 0"
    using ok tasks Stop_Requested by (auto simp: exit_ok_def)
  show ?thesis
  proof (cases "ca_session a")
    case True
    then have "ca_session a'" "ca_exit_requested a'" "\<not> ca_exit_confirmed a'" "ca_tasks a' = before @ after" "count_list (ca_outbound a') Exiting_Sent = 1"
      using run Stop_Requested o by (auto simp: stop_requested_def finalize_session_def read_collected_app_def)
    then show ?thesis using c n o(1) by (simp add: exit_ok_def)
  next
    case False
    then have "a' = a\<lparr>ca_tasks := before @ after, ca_exit_confirmed := True\<rparr>" using run Stop_Requested by (simp add: stop_requested_def)
    then show ?thesis using c n o False by (simp add: exit_ok_def)
  qed
qed

lemma app_exit_ok: "app_runs ov bs stopping a \<Longrightarrow> exit_ok stopping a"
proof (induction rule: app_runs.induct)
  case started
  show ?case by (simp add: exit_ok_def collector_app_init_def initialize_session_def)
next
  case (requested bs stopping a)
  show ?case by (rule exit_ok_frame [OF requested.IH]) auto
next
  case (disconnected bs stopping a)
  show ?case by (rule exit_ok_frame [OF disconnected.IH]) auto
next
  case (stopped bs a)
  then have h: "Stop_Requested \<notin> set (ca_tasks a)" "\<not> ca_exit_requested a" "\<not> ca_exit_confirmed a" "count_list (ca_tasks a) Collect = 1"
    "count_list (ca_outbound a) Exiting_Sent = 0" by (auto simp: exit_ok_def)
  have "count_list (ca_tasks a) Stop_Requested = 0" using h(1) by (rule count_notin)
  then show ?case using h by (simp add: exit_ok_def)
next
  case (ran bs stopping a before t after r a')
  from ran.IH ran.hyps(2,3) show ?case by (rule exit_ok_run)
qed

text \<open>Nothing is sent to a frontend that is gone; the end is told by the task that read the collector last.\<close>

lemma quiet_after_session:
  assumes "run_app_task r t (a\<lparr>ca_tasks := ts\<rparr>) = Some a'" "\<not> ca_session a"
  shows "ca_outbound a' = ca_outbound a" "\<not> ca_session a'"
  using assms by (cases t; auto simp: collect_and_reschedule_def read_collected_app_def stop_requested_def)+

lemma last_reading:
  assumes "run_app_task r t (a\<lparr>ca_tasks := ts\<rparr>) = Some a'" "Exiting_Sent \<in> set (ca_outbound a')" "Exiting_Sent \<notin> set (ca_outbound a)"
  shows "an_accept_all (sr_batches r) (ca_analyzer a) = Some (ca_analyzer a')" "ca_outbound a' = ca_outbound a @ [Exiting_Sent]"
  using assms by (cases t; auto simp: collect_and_reschedule_def read_collected_app_def stop_requested_def finalize_session_def handle_update_def
      frontend_disconnected_def Let_def split: if_splits option.splits prod.splits sum.splits)+

text \<open>Reading any number of batches, and sending what there is, are steps of a profiling session.\<close>

lemma profiling_collect_all:
  "profiling notify ov s0 bs an c \<Longrightarrow> an_accept_all cs an = Some an' \<Longrightarrow> profiling notify ov s0 (bs @ cs) an' c"
proof (induction cs arbitrary: bs an)
  case (Cons x cs)
  then obtain an1 where an1: "an_accept_calls (fst x) (snd x) an = Some an1" "an_accept_all cs an1 = Some an'" by (auto simp: bind_eq_Some_conv)
  have "profiling notify ov s0 (bs @ [(fst x, snd x)]) an1 c" by (rule profiling.collect [OF Cons.prems(1) an1(1)])
  from Cons.IH [OF this an1(2)] show ?case by simp
qed simp

definition frontend_reads :: "'s statistics_subscribers \<Rightarrow> 's \<Rightarrow> statistics_update list \<Rightarrow> u32 list \<times> statistics \<times> 's" where
  "frontend_reads notify s0 us = fold (read_update notify) us ([], statistics_init, s0)"

lemma sent_so_far:
  assumes "run_app_task r t a = Some a'"
  shows "an_accept_all (task_batches r t a) (ca_analyzer a) = Some (ca_analyzer a') \<and> updates_sent a' = updates_sent a \<or>
    task_batches r t a = [] \<and> ca_analyzer a' = an_clear (ca_analyzer a) \<and> updates_sent a' = updates_sent a @ [statistics_message (ca_analyzer a)]"
  using assms
  by (cases t) (auto simp: collect_and_reschedule_def read_collected_app_def handle_update_def frontend_disconnected_def stop_requested_def
      finalize_session_def updates_sent_def Let_def split: if_splits option.splits prod.splits sum.splits)

lemma app_profiling:
  "app_runs ov bs stopping a \<Longrightarrow> (\<Sum>u\<leftarrow>updates_sent a. update_size u) < 2 ^ 32 \<Longrightarrow>
    profiling notify ov s0 bs (ca_analyzer a) (frontend_reads notify s0 (updates_sent a)) \<and>
    st_size (fst (snd (frontend_reads notify s0 (updates_sent a)))) \<le> (\<Sum>u\<leftarrow>updates_sent a. update_size u)"
proof (induction rule: app_runs.induct)
  case started
  have "updates_sent (collector_app_init ov :: 'a collector_app) = []" by (simp add: updates_sent_def collector_app_init_def initialize_session_def)
  then show ?case using profiling.connect [of notify ov s0]
    by (simp add: frontend_reads_def collector_app_init_def initialize_session_def st_size_def statistics_init_def table_init_def)
next
  case (ran bs stopping a before t after r a')
  let ?a = "a\<lparr>ca_tasks := before @ after\<rparr>"
  have eq: "updates_sent ?a = updates_sent a" "task_batches r t ?a = task_batches r t a" by (simp add: updates_sent_def) (cases t, simp_all)
  from sent_so_far [OF ran.hyps(3)] consider
    "an_accept_all (task_batches r t a) (ca_analyzer a) = Some (ca_analyzer a')" "updates_sent a' = updates_sent a"
    | "task_batches r t a = []" "ca_analyzer a' = an_clear (ca_analyzer a)" "updates_sent a' = updates_sent a @ [statistics_message (ca_analyzer a)]"
    using eq by auto
  then show ?case
  proof cases
    case 1
    have "(\<Sum>u\<leftarrow>updates_sent a. update_size u) < 2 ^ 32" using ran.prems 1(2) by simp
    note ih = ran.IH [OF this]
    show ?thesis unfolding 1(2) by (intro conjI profiling_collect_all [OF conjunct1 [OF ih] 1(1)] conjunct2 [OF ih])
  next
    case 2
    let ?u = "statistics_message (ca_analyzer a)" and ?c = "frontend_reads notify s0 (updates_sent a)"
    have n: "(\<Sum>u\<leftarrow>updates_sent a. update_size u) + update_size ?u < 2 ^ 32" using ran.prems 2(3) by simp
    then have ih: "profiling notify ov s0 bs (ca_analyzer a) ?c" "st_size (fst (snd ?c)) \<le> (\<Sum>u\<leftarrow>updates_sent a. update_size u)" using ran.IH by simp_all
    then have room: "st_size (fst (snd ?c)) + update_size ?u < 2 ^ 32" using n by simp
    have r: "frontend_reads notify s0 (updates_sent a') = read_update notify ?u ?c" by (simp add: 2(3) frontend_reads_def)
    have "profiling notify ov s0 bs (an_clear (ca_analyzer a)) (read_update notify ?u ?c)" by (rule profiling.refresh [OF ih(1) room])
    moreover obtain th st s where c: "?c = (th, st, s)" by (cases ?c)
    moreover obtain th' st' s' where c': "read_update notify ?u (th, st, s) = (th', st', s')" by (cases "read_update notify ?u (th, st, s)")
    have "st_ok st" using profiling_parts [OF ih(1)] c by auto
    then have "st_size st' \<le> st_size st + update_size ?u" using read_update_adds(2) [OF _ _ c'] room c by simp
    ultimately show ?thesis using ih(2) c' unfolding r by (simp add: 2)
  qed
qed (simp_all add: updates_sent_def)

section \<open>Properties\<close>

text \<open>
  C5. The collector sends what it read, once. Whatever the order of collections, requests of the frontend and the end, the trace read so far is
  accepted as a whole, and the statistics of any call in its whole profile are those in the table of a frontend that read all updates
  sent, together with those the collector still has; after an update with no collection since, they are those of the table.
\<close>

theorem collector_sends_whole_profile:
  assumes "app_runs ov bs stopping a" "(\<Sum>u\<leftarrow>updates_sent a. update_size u) < 2 ^ 32"
    and "fold (read_update notify) (updates_sent a) ([], statistics_init, s0) = (threads, st, s)" "p \<noteq> []"
  shows "\<exists>whole. an_accept_all bs (analyzer_init ov) = Some whole \<and>
    stats0 p (thread_tree tid whole) = add_stats (shown st tid p) (stats0 p (thread_tree tid (ca_analyzer a))) \<and>
    (\<forall>an0. ca_analyzer a = an_clear an0 \<longrightarrow> shown st tid p = stats0 p (thread_tree tid whole))"
proof -
  have "profiling notify ov s0 bs (ca_analyzer a) (threads, st, s)"
    using app_profiling [OF assms(1,2), of notify s0] assms(3) by (simp add: frontend_reads_def)
  then show ?thesis using assms(4) by (rule whole_profile)
qed

text \<open>
  C17. The application ends, in order. The worker leaves its loop only after the destructor has run and the frontend is gone, and once the stop
  request has been processed, a frontend that is gone, or goes, ends the loop. A frontend still connected then is told of the end, once, by the
  task that has just handed a last reading of the collector to the analyzer. Nothing is sent to a frontend that is gone. Collections go on until the
  end, one at a time.
\<close>

theorem collector_ends_in_order:
  assumes "app_runs ov bs stopping a"
  shows "(ca_exit_confirmed a \<longrightarrow> stopping \<and> \<not> ca_session a) \<and>
    (stopping \<longrightarrow> Stop_Requested \<notin> set (ca_tasks a) \<longrightarrow> \<not> ca_session a \<longrightarrow> ca_exit_confirmed a) \<and>
    (stopping \<longrightarrow> Stop_Requested \<notin> set (ca_tasks a) \<longrightarrow> ca_session a \<longrightarrow>
      Exiting_Sent \<in> set (ca_outbound a) \<and> ca_exit_confirmed (frontend_disconnected a)) \<and>
    (Exiting_Sent \<in> set (ca_outbound a) \<longrightarrow> stopping) \<and> count_list (ca_outbound a) Exiting_Sent \<le> 1 \<and> count_list (ca_tasks a) Collect = 1 \<and>
    (\<forall>before t after r a'. ca_tasks a = before @ t # after \<longrightarrow> run_app_task r t (a\<lparr>ca_tasks := before @ after\<rparr>) = Some a' \<longrightarrow>
      (\<not> ca_session a \<longrightarrow> ca_outbound a' = ca_outbound a \<and> \<not> ca_session a') \<and>
      (Exiting_Sent \<in> set (ca_outbound a') \<longrightarrow> Exiting_Sent \<notin> set (ca_outbound a) \<longrightarrow>
        an_accept_all (sr_batches r) (ca_analyzer a) = Some (ca_analyzer a') \<and> ca_outbound a' = ca_outbound a @ [Exiting_Sent]))"
proof -
  have e: "ca_exit_confirmed (frontend_disconnected a) = (ca_exit_requested a \<or> ca_exit_confirmed a)" by (simp add: frontend_disconnected_def Let_def)
  have x: "Exiting_Sent \<in> set (ca_outbound a) \<longleftrightarrow> count_list (ca_outbound a) Exiting_Sent \<noteq> 0" by (simp add: count_list_0_iff)
  have "(ca_exit_confirmed a \<longrightarrow> stopping \<and> \<not> ca_session a) \<and>
    (stopping \<longrightarrow> Stop_Requested \<notin> set (ca_tasks a) \<longrightarrow> \<not> ca_session a \<longrightarrow> ca_exit_confirmed a) \<and>
    (stopping \<longrightarrow> Stop_Requested \<notin> set (ca_tasks a) \<longrightarrow> ca_session a \<longrightarrow>
      Exiting_Sent \<in> set (ca_outbound a) \<and> ca_exit_confirmed (frontend_disconnected a)) \<and>
    (Exiting_Sent \<in> set (ca_outbound a) \<longrightarrow> stopping) \<and> count_list (ca_outbound a) Exiting_Sent \<le> 1 \<and> count_list (ca_tasks a) Collect = 1"
    using app_exit_ok [OF assms] unfolding exit_ok_def e x by (cases "ca_session a"; cases stopping) simp_all
  then show ?thesis using quiet_after_session last_reading by fastforce
qed

text \<open>A run: one batch is read, the frontend asks for an update and gets it.\<close>

definition sample_surroundings :: "string surroundings" where
  "sample_surroundings = \<lparr>sr_batches = [sample_batch], sr_modules = [], sr_fid = (\<lambda>p. p), sr_files = (\<lambda>_. None)\<rparr>"

lemma sample_app:
  "\<exists>an (a :: string collector_app). app_runs \<lparr>inner = 1, outer = 2\<rparr> [sample_batch] True a \<and> ca_analyzer a = an_clear an \<and>
    updates_sent a = [statistics_message an] \<and> update_size (statistics_message an) < 2 ^ 32 \<and> ca_session a \<and>
    Exiting_Sent \<in> set (ca_outbound a) \<and> Stop_Requested \<notin> set (ca_tasks a) \<and>
    (\<exists>ss. an_threads an = [(1, \<lparr>ta_statistics = sample_tree, ta_stack = ss\<rparr>)])"
proof -
  let ?ov = "\<lparr>inner = 1, outer = 2\<rparr>" and ?r = sample_surroundings
  obtain an ss where an: "an_accept_calls (fst sample_batch) (snd sample_batch) (analyzer_init ?ov) = Some an"
    "an_threads an = [(1, \<lparr>ta_statistics = sample_tree, ta_stack = ss\<rparr>)]" using sample_accept by blast
  let ?a0 = "collector_app_init ?ov :: string collector_app"
  let ?a1 = "?a0\<lparr>ca_tasks := [Collect, Stop_Requested]\<rparr>"
  let ?a2 = "?a1\<lparr>ca_tasks := [Collect], ca_analyzer := an, ca_outbound := [Init_Sent, Exiting_Sent], ca_exit_requested := True\<rparr>"
  let ?a3 = "?a2\<lparr>ca_tasks := [Collect, Update_Requested]\<rparr>"
  let ?a4 = "?a3\<lparr>ca_tasks := [Collect], ca_outbound := [Init_Sent, Exiting_Sent, Statistics_Sent (statistics_message an)], ca_analyzer := an_clear an\<rparr>"
  have 0: "ca_tasks ?a0 = [Collect]" "ca_outbound ?a0 = [Init_Sent]" "ca_session ?a0" "ca_analyzer ?a0 = analyzer_init ?ov" "ca_tracker ?a0 = module_tracker_init"
    by (simp_all add: collector_app_init_def initialize_session_def)
  have 1: "app_runs ?ov [] True ?a1" using app_runs.stopped [of ?ov "[]" ?a0, OF app_runs.started] by (simp add: 0)
  have 2: "app_runs ?ov ([] @ task_batches ?r Stop_Requested ?a1) True ?a2"
    by (rule app_runs.ran [OF 1, of "[Collect]" _ "[]"])
      (simp_all add: 0 an(1) stop_requested_def finalize_session_def read_collected_app_def sample_surroundings_def)
  have 3: "app_runs ?ov [sample_batch] True ?a3" using app_runs.requested [OF 2] by (simp add: 0 sample_surroundings_def)
  have "app_runs ?ov ([sample_batch] @ task_batches ?r Update_Requested ?a3) True ?a4"
    by (rule app_runs.ran [OF 3, of "[Collect]" _ "[]"])
      (simp_all add: 0 handle_update_def get_changes_def sample_surroundings_def module_tracker_init_def)
  moreover have "update_size (statistics_message an) < 2 ^ 32" by (simp add: statistics_message_def an(2) sample_tree_def update_size_def)
  ultimately show ?thesis using an(2) 0 by (intro exI [of _ an] exI [of _ ?a4]) (simp add: updates_sent_def)
qed

theorem collector_sends_whole_profile_witness:
  "\<exists>(a :: string collector_app) st. app_runs \<lparr>inner = 1, outer = 2\<rparr> [sample_batch] True a \<and>
    fst (snd (fold (read_update (\<lambda>_ _ s. s)) (updates_sent a) ([], statistics_init, ()))) = st \<and>
    shown st 1 [7, 8] = \<lparr>times_called = 1, inclusive_time = 5, exclusive_time = 5, max_call_time = 5\<rparr>"
proof -
  obtain an and a :: "string collector_app" and ss where a: "app_runs \<lparr>inner = 1, outer = 2\<rparr> [sample_batch] True a" "ca_analyzer a = an_clear an"
    "updates_sent a = [statistics_message an]" "update_size (statistics_message an) < 2 ^ 32" using sample_app by blast
  obtain threads st s where r: "fold (read_update (\<lambda>_ _ s. s)) (updates_sent a) ([], statistics_init, ()) = (threads, st, s)"
    by (cases "fold (read_update (\<lambda>_ _ s. s)) (updates_sent a) ([], statistics_init, ())")
  from collector_sends_whole_profile [OF a(1) _ r, of "[7, 8]" 1] a(2-4) obtain whole where
    w: "an_accept_all [sample_batch] (analyzer_init \<lparr>inner = 1, outer = 2\<rparr>) = Some whole" "shown st 1 [7, 8] = stats0 [7, 8] (thread_tree 1 whole)" by auto
  from sample_accept w(1) have "ta_statistics (thread_state 1 whole) = sample_tree" by (auto simp: thread_state_def)
  then have "shown st 1 [7, 8] = \<lparr>times_called = 1, inclusive_time = 5, exclusive_time = 5, max_call_time = 5\<rparr>"
    unfolding w(2) by (simp add: stats0_def stats_at_def sample_tree_def)
  with a(1) r show ?thesis by (intro exI [of _ a] exI [of _ st]) simp
qed

theorem collector_ends_in_order_witness:
  "\<exists>a :: string collector_app. app_runs \<lparr>inner = 1, outer = 2\<rparr> [sample_batch] True a \<and> \<not> ca_exit_confirmed a \<and> ca_exit_confirmed (frontend_disconnected a) \<and>
    count_list (ca_outbound a) Exiting_Sent = 1"
proof -
  obtain a :: "string collector_app" where a: "app_runs \<lparr>inner = 1, outer = 2\<rparr> [sample_batch] True a" "ca_session a" "Stop_Requested \<notin> set (ca_tasks a)"
    using sample_app by blast
  with collector_ends_in_order [OF a(1)] have "\<not> ca_exit_confirmed a" "ca_exit_confirmed (frontend_disconnected a)"
    "Exiting_Sent \<in> set (ca_outbound a)" "count_list (ca_outbound a) Exiting_Sent \<le> 1" by blast+
  moreover from this(3) have "count_list (ca_outbound a) Exiting_Sent \<noteq> 0" by (simp add: count_list_0_iff)
  ultimately show ?thesis using a(1) by (intro exI [of _ a]) simp
qed

end
