(* ===== verification/Histogram.thy ===== *)
theory Histogram
  imports Views
begin

text \<open>
  Scales and histograms, \<^verbatim>\<open>math/scale.h\<close>, \<^verbatim>\<open>math/variant.h\<close>, \<^verbatim>\<open>math/variant_scale.h\<close>, \<^verbatim>\<open>math/histogram.h\<close>. The values of a scale are a template
  argument of the code, and floating point numbers round in ways nothing here depends on: both are types of the model with the operations
  the code uses as arguments (\<open>arithmetic\<close>), the conversion of a number that does not fit included. A member the constructor leaves
  uninitialized is \<^const>\<open>None\<close>, and so is what is computed from it. An index is an \<^verbatim>\<open>unsigned int\<close>.
\<close>

section \<open>Scales\<close>

record ('v, 'f) arithmetic =
  v_zero :: 'v
  v_le :: "'v \<Rightarrow> 'v \<Rightarrow> bool"
  v_add :: "'v \<Rightarrow> 'v \<Rightarrow> 'v"
  v_sub :: "'v \<Rightarrow> 'v \<Rightarrow> 'v"
  to_float :: "'v \<Rightarrow> 'f"
  from_float :: "'f \<Rightarrow> 'v"
  index_float :: "u32 \<Rightarrow> 'f"
  f_half :: 'f
  f_one :: 'f
  f_zero :: 'f
  f_mul :: "'f \<Rightarrow> 'f \<Rightarrow> 'f"
  f_div :: "'f \<Rightarrow> 'f \<Rightarrow> 'f"
  f_int :: "'f \<Rightarrow> u32"

datatype scale_error = Invalid_Interval

record ('v, 'f) linear_scale =
  ls_base :: "'v option"
  ls_factor :: "'f option"
  ls_samples :: u32
  ls_step :: "'f option"
  ls_near :: 'v
  ls_far :: 'v

definition linear_scale_default :: "('v, 'f) arithmetic \<Rightarrow> ('v, 'f) linear_scale" where
  "linear_scale_default ar = \<lparr>ls_base = None, ls_factor = None, ls_samples = 0, ls_step = None, ls_near = v_zero ar, ls_far = v_zero ar\<rparr>"

definition linear_scale_new :: "('v, 'f) arithmetic \<Rightarrow> 'v \<Rightarrow> 'v \<Rightarrow> u32 \<Rightarrow> scale_error + ('v, 'f) linear_scale" where
  "linear_scale_new ar near far samples =
     (let s = \<lparr>ls_base = None, ls_factor = None, ls_samples = samples, ls_step = None, ls_near = near, ls_far = far\<rparr>
      in if samples = 0 then Inr (s\<lparr>ls_near := v_zero ar, ls_far := v_zero ar\<rparr>)
         else if v_le ar far near then Inl Invalid_Interval
         else if samples > 1 then
           let step = f_div ar (to_float ar (v_sub ar far near)) (index_float ar (samples - 1))
           in Inr (s\<lparr>ls_step := Some step, ls_base := Some (v_sub ar near (from_float ar (f_mul ar (f_half ar) step))),
                ls_factor := Some (f_div ar (f_one ar) step)\<rparr>)
         else Inr (s\<lparr>ls_base := Some (v_zero ar), ls_factor := Some (f_zero ar)\<rparr>))"

text \<open>The function call operator: whether there is a bin, and its index, left alone without one. The comparisons are those of \<^verbatim>\<open>int\<close>.\<close>

definition linear_index :: "('v, 'f) arithmetic \<Rightarrow> ('v, 'f) linear_scale \<Rightarrow> u32 \<Rightarrow> 'v \<Rightarrow> (bool \<times> u32) option" where
  "linear_index ar s index v =
     (if ls_samples s \<noteq> 0 then
        Option.bind (ls_base s) (\<lambda>base. Option.bind (ls_factor s) (\<lambda>factor.
          let i = f_int ar (f_mul ar (to_float ar (v_sub ar v base)) factor);
              last = ls_samples s - 1
          in Some (True, if sint i < 0 then 0 else if sint i > sint last then last else i)))
      else Some (False, index))"

definition linear_at :: "('v, 'f) arithmetic \<Rightarrow> ('v, 'f) linear_scale \<Rightarrow> u32 \<Rightarrow> 'v option" where
  "linear_at ar s index = map_option (\<lambda>step. v_add ar (ls_near s) (from_float ar (f_mul ar step (index_float ar index)))) (ls_step s)"

text \<open>A logarithmic scale is a linear one of logarithms; \<open>fr\<close> is the arithmetic of floating point numbers themselves.\<close>

record ('v, 'f) log_scale =
  lg_inner :: "('f, 'f) linear_scale"
  lg_near :: 'v
  lg_far :: 'v

record ('v, 'f) logarithms =
  lg_arithmetic :: "('v, 'f) arithmetic"
  lg_float :: "('f, 'f) arithmetic"
  log10 :: "'f \<Rightarrow> 'f"
  pow10 :: "'f \<Rightarrow> 'f"

definition lg :: "('v, 'f) logarithms \<Rightarrow> 'v \<Rightarrow> 'f" where
  "lg ar v = log10 ar (to_float (lg_arithmetic ar) v)"

definition log_scale_default :: "('v, 'f) logarithms \<Rightarrow> ('v, 'f) log_scale" where
  "log_scale_default ar = \<lparr>lg_inner = linear_scale_default (lg_float ar), lg_near = v_zero (lg_arithmetic ar), lg_far = v_zero (lg_arithmetic ar)\<rparr>"

definition log_scale_new :: "('v, 'f) logarithms \<Rightarrow> 'v \<Rightarrow> 'v \<Rightarrow> u32 \<Rightarrow> scale_error + ('v, 'f) log_scale" where
  "log_scale_new ar near far samples =
     (case linear_scale_new (lg_float ar) (lg ar near) (lg ar far) samples of
        Inl e \<Rightarrow> Inl e | Inr inner \<Rightarrow> Inr \<lparr>lg_inner = inner, lg_near = near, lg_far = far\<rparr>)"

definition log_index :: "('v, 'f) logarithms \<Rightarrow> ('v, 'f) log_scale \<Rightarrow> u32 \<Rightarrow> 'v \<Rightarrow> (bool \<times> u32) option" where
  "log_index ar s index v =
     (if v_le (lg_arithmetic ar) v (v_zero (lg_arithmetic ar)) then Some (False, index)
      else linear_index (lg_float ar) (lg_inner s) index (lg ar v))"

definition log_at :: "('v, 'f) logarithms \<Rightarrow> ('v, 'f) log_scale \<Rightarrow> u32 \<Rightarrow> 'v option" where
  "log_at ar s index = map_option (\<lambda>x. from_float (lg_arithmetic ar) (pow10 ar x)) (linear_at (lg_float ar) (lg_inner s) index)"

text \<open>
  A variant has a member of each type and the number of the one in use: 1 for the derived class, that of the logarithmic scale; any other
  number reaches the base class.
\<close>

record ('v, 'f) variant_scale =
  vr_type :: u32
  vr_linear :: "('v, 'f) linear_scale"
  vr_log :: "('v, 'f) log_scale"

definition variant_visit :: "(('v, 'f) linear_scale \<Rightarrow> 'r) \<Rightarrow> (('v, 'f) log_scale \<Rightarrow> 'r) \<Rightarrow> ('v, 'f) variant_scale \<Rightarrow> 'r" where
  "variant_visit on_linear on_log s = (if vr_type s = 1 then on_log (vr_log s) else on_linear (vr_linear s))"

definition variant_linear :: "('v, 'f) logarithms \<Rightarrow> ('v, 'f) linear_scale \<Rightarrow> ('v, 'f) variant_scale" where
  "variant_linear ar s = \<lparr>vr_type = 0, vr_linear = s, vr_log = log_scale_default ar\<rparr>"

definition variant_log :: "('v, 'f) logarithms \<Rightarrow> ('v, 'f) log_scale \<Rightarrow> ('v, 'f) variant_scale" where
  "variant_log ar s = \<lparr>vr_type = 1, vr_linear = linear_scale_default (lg_arithmetic ar), vr_log = s\<rparr>"

definition variant_samples :: "('v, 'f) variant_scale \<Rightarrow> u32" where
  "variant_samples = variant_visit ls_samples (\<lambda>s. ls_samples (lg_inner s))"

definition variant_index :: "('v, 'f) logarithms \<Rightarrow> ('v, 'f) variant_scale \<Rightarrow> u32 \<Rightarrow> 'v \<Rightarrow> (bool \<times> u32) option" where
  "variant_index ar s index v = variant_visit (\<lambda>s. linear_index (lg_arithmetic ar) s index v) (\<lambda>s. log_index ar s index v) s"

definition variant_at :: "('v, 'f) logarithms \<Rightarrow> ('v, 'f) variant_scale \<Rightarrow> u32 \<Rightarrow> 'v option" where
  "variant_at ar s index = variant_visit (\<lambda>s. linear_at (lg_arithmetic ar) s index) (\<lambda>s. log_at ar s index) s"

definition linear_equal :: "('v, 'f) linear_scale \<Rightarrow> ('v, 'f) linear_scale \<Rightarrow> bool" where
  "linear_equal lhs rhs \<longleftrightarrow> ls_samples lhs = ls_samples rhs \<and> ls_near lhs = ls_near rhs \<and> ls_far lhs = ls_far rhs"

definition log_equal :: "('v, 'f) log_scale \<Rightarrow> ('v, 'f) log_scale \<Rightarrow> bool" where
  "log_equal lhs rhs \<longleftrightarrow> ls_samples (lg_inner lhs) = ls_samples (lg_inner rhs) \<and> lg_near lhs = lg_near rhs \<and> lg_far lhs = lg_far rhs"

text \<open>The visitor of the one side visits the other; members of different types are different.\<close>

definition variant_equal :: "('v, 'f) variant_scale \<Rightarrow> ('v, 'f) variant_scale \<Rightarrow> bool" where
  "variant_equal lhs rhs =
     variant_visit (\<lambda>l. variant_visit (\<lambda>r. linear_equal l r) (\<lambda>r. False) rhs) (\<lambda>l. variant_visit (\<lambda>r. False) (\<lambda>r. log_equal l r) rhs) lhs"

section \<open>Histograms\<close>

text \<open>What a histogram uses of its scale, the template argument.\<close>

record ('s, 'x) scale_ops =
  sc_samples :: "'s \<Rightarrow> u32"
  sc_index :: "'s \<Rightarrow> u32 \<Rightarrow> 'x \<Rightarrow> (bool \<times> u32) option"
  sc_at :: "'s \<Rightarrow> u32 \<Rightarrow> 'x option"
  sc_equal :: "'s \<Rightarrow> 's \<Rightarrow> bool"

record ('s, 'y) histogram =
  hg_bins :: "'y list"
  hg_scale :: 's

definition set_scale :: "('s, 'x) scale_ops \<Rightarrow> 's \<Rightarrow> ('s, 'y::zero) histogram \<Rightarrow> ('s, 'y) histogram" where
  "set_scale sc s h = \<lparr>hg_bins = replicate (unat (sc_samples sc s)) 0, hg_scale = s\<rparr>"

text \<open>\<open>None\<close> is an index out of range, or a scale that was not initialized.\<close>

definition hist_add :: "('s, 'x) scale_ops \<Rightarrow> 'x \<Rightarrow> 'y::plus \<Rightarrow> ('s, 'y) histogram \<Rightarrow> ('s, 'y) histogram option" where
  "hist_add sc at d h =
     Option.bind (sc_index sc (hg_scale h) 0 at) (\<lambda>(found, index).
       if found then
         if unat index < length (hg_bins h) then Some (h\<lparr>hg_bins := (hg_bins h)[unat index := hg_bins h ! unat index + d]\<rparr>) else None
       else Some h)"

definition hist_reset :: "('s, 'y::zero) histogram \<Rightarrow> ('s, 'y) histogram" where
  "hist_reset h = h\<lparr>hg_bins := replicate (length (hg_bins h)) 0\<rparr>"

fun add_bins :: "'y::plus list \<Rightarrow> 'y list \<Rightarrow> 'y list option" where
  "add_bins [] rs = Some []"
| "add_bins (l # ls) [] = None"
| "add_bins (l # ls) (r # rs) = map_option (Cons (l + r)) (add_bins ls rs)"

definition hist_merge :: "('s, 'x) scale_ops \<Rightarrow> ('s, 'y::plus) histogram \<Rightarrow> ('s, 'y) histogram \<Rightarrow> ('s, 'y) histogram option" where
  "hist_merge sc lhs rhs =
     (if \<not> sc_equal sc (hg_scale lhs) (hg_scale rhs) then Some rhs
      else map_option (\<lambda>bins. lhs\<lparr>hg_bins := bins\<rparr>) (add_bins (hg_bins lhs) (hg_bins rhs)))"

fun blend_bins :: "('y \<Rightarrow> 'y \<Rightarrow> 'y) \<Rightarrow> 'y list \<Rightarrow> 'y list \<Rightarrow> 'y list option" where
  "blend_bins blend [] rs = Some []"
| "blend_bins blend (l # ls) [] = None"
| "blend_bins blend (l # ls) (r # rs) = map_option (Cons (blend l r)) (blend_bins blend ls rs)"

text \<open>\<open>blend l r\<close> is \<^verbatim>\<open>l + static_cast<Y>((r - l) * alpha)\<close>.\<close>

definition hist_interpolate ::
  "('s, 'x) scale_ops \<Rightarrow> ('y \<Rightarrow> 'y \<Rightarrow> 'y) \<Rightarrow> ('s, 'y::zero) histogram \<Rightarrow> ('s, 'y) histogram \<Rightarrow> ('s, 'y) histogram option" where
  "hist_interpolate sc blend lhs rhs =
     (let lhs = (if \<not> sc_equal sc (hg_scale lhs) (hg_scale rhs) then set_scale sc (hg_scale rhs) lhs else lhs)
      in map_option (\<lambda>bins. lhs\<lparr>hg_bins := bins\<rparr>) (blend_bins blend (hg_bins lhs) (hg_bins rhs)))"

fun hist_adds :: "('s, 'x) scale_ops \<Rightarrow> ('x \<times> 'y::plus) list \<Rightarrow> ('s, 'y) histogram \<Rightarrow> ('s, 'y) histogram option" where
  "hist_adds sc [] h = Some h"
| "hist_adds sc ((x, d) # xs) h = Option.bind (hist_add sc x d h) (hist_adds sc xs)"

section \<open>Partitions\<close>

text \<open>
  Where given parts of the counts are reached. The counts are natural numbers, which supposes that their sum fits its type. \<open>lerp\<close> is
  the interpolation \<^verbatim>\<open>previous + (next - previous) * part / d\<close>; dividing by a count of zero is \<^const>\<open>None\<close>.
\<close>

record 'x partition =
  pn_midvalue :: nat
  pn_location :: 'x

definition partition_less :: "'x partition \<Rightarrow> 'x partition \<Rightarrow> bool" where
  "partition_less lhs rhs \<longleftrightarrow> pn_midvalue lhs < pn_midvalue rhs"

text \<open>The first bin that is not empty; the last one is not looked at.\<close>

fun first_filled :: "nat \<Rightarrow> nat list \<Rightarrow> nat \<times> nat" where
  "first_filled j (y # y' # ys) = (if y \<noteq> 0 then (j, y) else first_filled (j + 1) (y' # ys))"
| "first_filled j _ = (j, 0)"

text \<open>An inner loop: partitions from the first on, while they are not above \<open>bound\<close>, get a location.\<close>

fun settle :: "nat \<Rightarrow> (nat \<Rightarrow> 'x option) \<Rightarrow> 'x partition list \<Rightarrow> ('x partition list \<times> 'x partition list) option" where
  "settle bound location [] = Some ([], [])"
| "settle bound location (p # ps) =
     (if pn_midvalue p \<le> bound
      then Option.bind (location (pn_midvalue p)) (\<lambda>x. map_option (\<lambda>(placed, rest). (p\<lparr>pn_location := x\<rparr> # placed, rest)) (settle bound location ps))
      else Some ([], p # ps))"

definition interpolated :: "('s, 'x) scale_ops \<Rightarrow> ('x \<Rightarrow> 'x \<Rightarrow> nat \<Rightarrow> nat \<Rightarrow> 'x) \<Rightarrow> 's \<Rightarrow> nat \<Rightarrow> nat \<Rightarrow> nat \<Rightarrow> nat \<Rightarrow> 'x option" where
  "interpolated sc lerp s j i part d =
     Option.bind (sc_at sc s (of_nat j)) (\<lambda>previous. Option.bind (sc_at sc s (of_nat i)) (\<lambda>following.
       if d = 0 then None else Some (lerp previous following part d)))"

fun partition_loop ::
  "('s, 'x) scale_ops \<Rightarrow> ('x \<Rightarrow> 'x \<Rightarrow> nat \<Rightarrow> nat \<Rightarrow> 'x) \<Rightarrow> ('s, nat) histogram \<Rightarrow> nat list \<Rightarrow> nat \<Rightarrow> nat \<Rightarrow> 'x partition list \<Rightarrow> 'x partition list \<Rightarrow>
   (nat \<times> 'x partition list \<times> 'x partition list) option" where
  "partition_loop sc lerp h [] j below ds ps = Some (j, ds, ps)"
| "partition_loop sc lerp h (i # is) j below ds ps =
     (if i < length (hg_bins h) then
        let d = hg_bins h ! i;
            new_total = below + d
        in Option.bind (settle new_total (\<lambda>m. interpolated sc lerp (hg_scale h) j i (m - below) d) ps) (\<lambda>(placed, ps).
             partition_loop sc lerp h is (if d \<noteq> 0 then i else j) new_total (ds @ placed) ps)
      else None)"

fun settle_all :: "'x option \<Rightarrow> 'x partition list \<Rightarrow> 'x partition list option" where
  "settle_all location [] = Some []"
| "settle_all location (p # ps) = Option.bind location (\<lambda>x. map_option (Cons (p\<lparr>pn_location := x\<rparr>)) (settle_all location ps))"

definition find_partitions ::
  "'x partition sorter \<Rightarrow> ('s, 'x) scale_ops \<Rightarrow> ('x \<Rightarrow> 'x \<Rightarrow> nat \<Rightarrow> nat \<Rightarrow> 'x) \<Rightarrow> ('s, nat) histogram \<Rightarrow> 'x partition list \<Rightarrow> 'x partition list option" where
  "find_partitions sorter sc lerp h ps =
     (let ps = sorter partition_less ps;
          (j, below) = first_filled 0 (take (unat (sc_samples sc (hg_scale h))) (hg_bins h))
      in Option.bind (settle below (\<lambda>_. sc_at sc (hg_scale h) (of_nat j)) ps) (\<lambda>(ds, ps).
         Option.bind (partition_loop sc lerp h [j + 1..<unat (sc_samples sc (hg_scale h))] j below ds ps) (\<lambda>(j, ds, ps).
           map_option (\<lambda>tail. ds @ tail) (settle_all (sc_at sc (hg_scale h) (of_nat j)) ps))))"

section \<open>Counting\<close>

text \<open>
  What a histogram relies on: a scale that was constructed has an index for a value, below its number of samples, or tells that there is
  none; scales that compare equal are equal.
\<close>

locale scale =
  fixes sc :: "('s, 'x) scale_ops" and good :: "'s \<Rightarrow> bool"
  assumes index_defined: "good s \<Longrightarrow> \<exists>found i. sc_index sc s k x = Some (found, i) \<and> (found \<longrightarrow> i < sc_samples sc s)"
    and equal_iff: "good s \<Longrightarrow> good s' \<Longrightarrow> sc_equal sc s s' \<longleftrightarrow> s = s'"

definition bin_of :: "('s, 'x) scale_ops \<Rightarrow> 's \<Rightarrow> 'x \<Rightarrow> nat option" where
  "bin_of sc s x = (case sc_index sc s 0 x of Some (True, i) \<Rightarrow> Some (unat i) | _ \<Rightarrow> None)"

definition counted :: "('s, 'x) scale_ops \<Rightarrow> 's \<Rightarrow> ('x \<times> 'y::comm_monoid_add) list \<Rightarrow> nat \<Rightarrow> 'y" where
  "counted sc s xs k = (\<Sum>(x, d)\<leftarrow>xs. if bin_of sc s x = Some k then d else 0)"

definition hist_ok :: "('s, 'x) scale_ops \<Rightarrow> ('s \<Rightarrow> bool) \<Rightarrow> ('s, 'y) histogram \<Rightarrow> bool" where
  "hist_ok sc good h \<longleftrightarrow> good (hg_scale h) \<and> length (hg_bins h) = unat (sc_samples sc (hg_scale h))"

lemma counted_append: "counted sc s (xs @ ys) k = counted sc s xs k + counted sc s ys k"
  by (simp add: counted_def)

lemma blend_bins_defined: "length ls = length rs \<Longrightarrow> blend_bins blend ls rs = Some (map2 blend ls rs)"
  by (induction ls rs rule: list_induct2) simp_all

lemma add_bins_blend: "add_bins ls rs = blend_bins (+) ls rs"
  by (induction ls rs rule: add_bins.induct) simp_all

lemmas add_bins_defined = blend_bins_defined [where blend = "(+)", folded add_bins_blend]

context scale
begin

lemma hist_add_ok:
  fixes h :: "('s, 'y::comm_monoid_add) histogram"
  assumes ok: "hist_ok sc good h"
  shows "\<exists>h'. hist_add sc x d h = Some h' \<and> hist_ok sc good h' \<and> hg_scale h' = hg_scale h \<and>
    (\<forall>k<length (hg_bins h). hg_bins h' ! k = hg_bins h ! k + (if bin_of sc (hg_scale h) x = Some k then d else 0))"
proof -
  have g: "good (hg_scale h)" "length (hg_bins h) = unat (sc_samples sc (hg_scale h))" using ok by (simp_all add: hist_ok_def)
  from index_defined [OF g(1)] obtain found i where i: "sc_index sc (hg_scale h) 0 x = Some (found, i)" "found \<longrightarrow> i < sc_samples sc (hg_scale h)" by blast
  show ?thesis
  proof (cases found)
    case True
    then have "unat i < length (hg_bins h)" using i(2) g(2) by (simp add: word_less_nat_alt)
    then show ?thesis using True i(1) ok by (auto simp: hist_add_def hist_ok_def bin_of_def nth_list_update)
  next
    case False
    then show ?thesis using i(1) ok by (simp add: hist_add_def bin_of_def)
  qed
qed

lemma hist_adds_ok:
  fixes h :: "('s, 'y::comm_monoid_add) histogram"
  shows "hist_ok sc good h \<Longrightarrow> \<exists>h'. hist_adds sc xs h = Some h' \<and> hist_ok sc good h' \<and> hg_scale h' = hg_scale h \<and>
    (\<forall>k<length (hg_bins h). hg_bins h' ! k = hg_bins h ! k + counted sc (hg_scale h) xs k)"
proof (induction xs arbitrary: h)
  case Nil
  then show ?case by (simp add: counted_def)
next
  case (Cons xd xs)
  obtain x d where xd: "xd = (x, d)" by (cases xd)
  from hist_add_ok [OF Cons.prems, of x d] obtain h1 where h1: "hist_add sc x d h = Some h1" "hist_ok sc good h1" "hg_scale h1 = hg_scale h"
    "\<forall>k<length (hg_bins h). hg_bins h1 ! k = hg_bins h ! k + (if bin_of sc (hg_scale h) x = Some k then d else 0)" by blast
  have len: "length (hg_bins h1) = length (hg_bins h)" using h1(2,3) Cons.prems by (simp add: hist_ok_def)
  from Cons.IH [OF h1(2)] obtain h2 where h2: "hist_adds sc xs h1 = Some h2" "hist_ok sc good h2" "hg_scale h2 = hg_scale h1"
    "\<forall>k<length (hg_bins h1). hg_bins h2 ! k = hg_bins h1 ! k + counted sc (hg_scale h1) xs k" by blast
  then show ?case using h1 len by (intro exI [of _ h2]) (simp add: xd counted_def add.assoc)
qed

lemma set_scale_ok: "good s \<Longrightarrow> hist_ok sc good (set_scale sc s h) \<and> hg_scale (set_scale sc s h) = s"
  by (simp add: hist_ok_def set_scale_def)

lemma portions_merge:
  fixes h1 h2 :: "('s, 'y::comm_monoid_add) histogram"
  assumes g: "good s" and a: "hist_adds sc xs (set_scale sc s g1) = Some h1" "hist_adds sc ys (set_scale sc s g2) = Some h2"
  shows "hist_merge sc h1 h2 = hist_adds sc (xs @ ys) (set_scale sc s g3)"
proof -
  let ?z = "\<lambda>g. set_scale sc s g :: ('s, 'y) histogram"
  have z: "hg_bins (?z g) = replicate (unat (sc_samples sc s)) 0" "hg_scale (?z g) = s" for g by (simp_all add: set_scale_def)
  have run: "\<exists>h. hist_adds sc zs (?z g) = Some h \<and> length (hg_bins h) = unat (sc_samples sc s) \<and> hg_scale h = s \<and>
    (\<forall>k<unat (sc_samples sc s). hg_bins h ! k = counted sc s zs k)" for zs g
    using hist_adds_ok [of "?z g" zs] set_scale_ok [OF g, of g] by (auto simp: z hist_ok_def)
  from run [of xs g1] a(1) have 1: "length (hg_bins h1) = unat (sc_samples sc s)" "hg_scale h1 = s" "\<forall>k<unat (sc_samples sc s). hg_bins h1 ! k = counted sc s xs k"
    by auto
  from run [of ys g2] a(2) have 2: "length (hg_bins h2) = unat (sc_samples sc s)" "hg_scale h2 = s" "\<forall>k<unat (sc_samples sc s). hg_bins h2 ! k = counted sc s ys k"
    by auto
  from run [of "xs @ ys" g3] obtain h where h: "hist_adds sc (xs @ ys) (?z g3) = Some h" "length (hg_bins h) = unat (sc_samples sc s)" "hg_scale h = s"
    "\<forall>k<unat (sc_samples sc s). hg_bins h ! k = counted sc s (xs @ ys) k" by blast
  have "map2 (+) (hg_bins h1) (hg_bins h2) = hg_bins h"
    using 1 2 h by (intro nth_equalityI) (simp_all add: counted_append)
  then have "hist_merge sc h1 h2 = Some (h1\<lparr>hg_bins := hg_bins h\<rparr>)"
    using 1 2 equal_iff [OF g g] by (simp add: hist_merge_def add_bins_defined)
  moreover have "h1\<lparr>hg_bins := hg_bins h\<rparr> = h" using 1(2) h(3) by (cases h1, cases h) simp
  ultimately show ?thesis using h(1) by simp
qed

end

section \<open>Locating\<close>

text \<open>The reference: the location of a single value, by a search of its own.\<close>

fun locate :: "('s, 'x) scale_ops \<Rightarrow> ('x \<Rightarrow> 'x \<Rightarrow> nat \<Rightarrow> nat \<Rightarrow> 'x) \<Rightarrow> ('s, nat) histogram \<Rightarrow> nat list \<Rightarrow> nat \<Rightarrow> nat \<Rightarrow> nat \<Rightarrow> 'x option" where
  "locate sc lerp h [] j below m = sc_at sc (hg_scale h) (of_nat j)"
| "locate sc lerp h (i # is) j below m =
     (let d = hg_bins h ! i
      in if m \<le> below + d then interpolated sc lerp (hg_scale h) j i (m - below) d
         else locate sc lerp h is (if d \<noteq> 0 then i else j) (below + d) m)"

definition quantile :: "('s, 'x) scale_ops \<Rightarrow> ('x \<Rightarrow> 'x \<Rightarrow> nat \<Rightarrow> nat \<Rightarrow> 'x) \<Rightarrow> ('s, nat) histogram \<Rightarrow> nat \<Rightarrow> 'x option" where
  "quantile sc lerp h m =
     (let (j, below) = first_filled 0 (hg_bins h)
      in if m \<le> below then sc_at sc (hg_scale h) (of_nat j) else locate sc lerp h [j + 1..<length (hg_bins h)] j below m)"

lemma settle_eq:
  "(\<And>p. p \<in> set ps \<Longrightarrow> pn_midvalue p \<le> bound \<Longrightarrow> location (pn_midvalue p) \<noteq> None) \<Longrightarrow>
    settle bound location ps =
      Some (map (\<lambda>p. p\<lparr>pn_location := the (location (pn_midvalue p))\<rparr>) (takeWhile (\<lambda>p. pn_midvalue p \<le> bound) ps), dropWhile (\<lambda>p. pn_midvalue p \<le> bound) ps)"
proof (induction ps)
  case (Cons p ps)
  then have ih: "settle bound location ps =
      Some (map (\<lambda>p. p\<lparr>pn_location := the (location (pn_midvalue p))\<rparr>) (takeWhile (\<lambda>p. pn_midvalue p \<le> bound) ps), dropWhile (\<lambda>p. pn_midvalue p \<le> bound) ps)" by simp
  have "pn_midvalue p \<le> bound \<Longrightarrow> location (pn_midvalue p) \<noteq> None" using Cons.prems by simp
  then show ?case by (auto simp: ih)
qed simp

lemma settle_all_eq: "settle_all (Some x) ps = Some (map (\<lambda>p. p\<lparr>pn_location := x\<rparr>) ps)"
  by (induction ps) simp_all

lemma sorted_above: "sorted (map f ps) \<Longrightarrow> p \<in> set (dropWhile (\<lambda>p. f p \<le> b) ps) \<Longrightarrow> b < (f p :: nat)"
proof (induction ps)
  case (Cons x ps)
  then show ?case by (cases "f x \<le> b") (force+)
qed simp

locale measured_scale = scale sc good for sc :: "('s, 'x) scale_ops" and good +
  assumes at_defined: "good s \<Longrightarrow> 1 < sc_samples sc s \<Longrightarrow> \<exists>x. sc_at sc s i = Some x"
begin

lemma partition_loop_eq:
  assumes at: "\<forall>i. \<exists>x. sc_at sc (hg_scale h) i = Some x"
  shows "\<forall>i\<in>set is. i < length (hg_bins h) \<Longrightarrow> sorted (map pn_midvalue ps) \<Longrightarrow> \<forall>p\<in>set ps. below < pn_midvalue p \<Longrightarrow>
    (\<forall>p\<in>set ps. \<exists>x. locate sc lerp h is j below (pn_midvalue p) = Some x) \<and>
    Option.bind (partition_loop sc lerp h is j below ds ps) (\<lambda>(j, ds, ps). map_option (\<lambda>tail. ds @ tail) (settle_all (sc_at sc (hg_scale h) (of_nat j)) ps)) =
      Some (ds @ map (\<lambda>p. p\<lparr>pn_location := the (locate sc lerp h is j below (pn_midvalue p))\<rparr>) ps)"
proof (induction "is" arbitrary: j below ds ps)
  case Nil
  obtain x where "sc_at sc (hg_scale h) (of_nat j) = Some x" using at by blast
  then show ?case by (simp add: settle_all_eq)
next
  case (Cons i "is")
  let ?d = "hg_bins h ! i" and ?P = "\<lambda>p. pn_midvalue p \<le> below + hg_bins h ! i"
  let ?j = "if ?d \<noteq> 0 then i else j" and ?L = "\<lambda>m. interpolated sc lerp (hg_scale h) j i (m - below) ?d"
  have def: "\<exists>x. ?L m = Some x" if "below < m" "m \<le> below + ?d" for m
  proof -
    obtain x y where "sc_at sc (hg_scale h) (of_nat j) = Some x" "sc_at sc (hg_scale h) (of_nat i) = Some y" using at by blast
    then show ?thesis using that by (simp add: interpolated_def)
  qed
  have s: "settle (below + ?d) ?L ps = Some (map (\<lambda>p. p\<lparr>pn_location := the (?L (pn_midvalue p))\<rparr>) (takeWhile ?P ps), dropWhile ?P ps)"
  proof (rule settle_eq)
    fix p assume "p \<in> set ps" "pn_midvalue p \<le> below + ?d"
    with Cons.prems(3) def show "?L (pn_midvalue p) \<noteq> None" by fastforce
  qed
  let ?ps = "dropWhile ?P ps"
  have up: "\<forall>p\<in>set ?ps. below + ?d < pn_midvalue p" using sorted_above [OF Cons.prems(2)] by blast
  have so: "sorted (map pn_midvalue ?ps)" using Cons.prems(2) by (metis map_append sorted_append takeWhile_dropWhile_id)
  have lt: "\<forall>i\<in>set is. i < length (hg_bins h)" "i < length (hg_bins h)" using Cons.prems(1) by simp_all
  note ih = Cons.IH [OF lt(1) so up, of ?j "ds @ map (\<lambda>p. p\<lparr>pn_location := the (?L (pn_midvalue p))\<rparr>) (takeWhile ?P ps)"]
  have tw: "locate sc lerp h (i # is) j below (pn_midvalue p) = ?L (pn_midvalue p)" if "p \<in> set (takeWhile ?P ps)" for p
    using set_takeWhileD [OF that] by (simp add: Let_def)
  have dw: "locate sc lerp h (i # is) j below (pn_midvalue p) = locate sc lerp h is ?j (below + ?d) (pn_midvalue p)" if "p \<in> set ?ps" for p
    using up that by (fastforce simp: Let_def)
  have split: "map f ps = map f (takeWhile ?P ps) @ map f ?ps" for f :: "'x partition \<Rightarrow> 'x partition"
    by (metis map_append takeWhile_dropWhile_id)
  have "map (\<lambda>p. p\<lparr>pn_location := the (locate sc lerp h (i # is) j below (pn_midvalue p))\<rparr>) ps =
      map (\<lambda>p. p\<lparr>pn_location := the (?L (pn_midvalue p))\<rparr>) (takeWhile ?P ps) @
      map (\<lambda>p. p\<lparr>pn_location := the (locate sc lerp h is ?j (below + ?d) (pn_midvalue p))\<rparr>) ?ps"
    unfolding split by (intro arg_cong2 [of _ _ _ _ "(@)"] map_cong refl) (simp_all only: tw dw)
  moreover have "\<exists>x. locate sc lerp h (i # is) j below (pn_midvalue p) = Some x" if "p \<in> set ps" for p
  proof (cases "?P p")
    case True
    then show ?thesis using def Cons.prems(3) that by (simp add: Let_def)
  next
    case False
    have "p \<in> set (takeWhile ?P ps) \<union> set ?ps" using that by (metis set_append takeWhile_dropWhile_id)
    with False have "p \<in> set ?ps" by (auto dest: set_takeWhileD)
    then show ?thesis using ih dw by simp
  qed
  ultimately show ?case using ih lt(2) by (simp add: s Let_def)
qed

lemma find_partitions_eq:
  assumes ok: "hist_ok sc good h" and two: "1 < sc_samples sc (hg_scale h)" and so: "sorting sorter"
  shows "(\<forall>p\<in>set ps. \<exists>x. quantile sc lerp h (pn_midvalue p) = Some x) \<and>
    find_partitions sorter sc lerp h ps =
      Some (map (\<lambda>p. p\<lparr>pn_location := the (quantile sc lerp h (pn_midvalue p))\<rparr>) (sorter partition_less ps))"
proof -
  let ?qs = "sorter partition_less ps"
  have at: "\<forall>i. \<exists>x. sc_at sc (hg_scale h) i = Some x" using ok two at_defined by (auto simp: hist_ok_def)
  have len: "length (hg_bins h) = unat (sc_samples sc (hg_scale h))" using ok by (simp add: hist_ok_def)
  have sw: "strict_weak partition_less" unfolding partition_less_def by (rule strict_weak_key)
  have m: "mset ?qs = mset ps" by (rule sorting.sorter_mset [OF so sw])
  have sorted: "sorted (map pn_midvalue ?qs)" using sorting.sorter_sorted [OF so sw, of ps] by (simp add: sorted_wrt_map partition_less_def not_less)
  obtain j below where j: "first_filled 0 (hg_bins h) = (j, below)" by (cases "first_filled 0 (hg_bins h)")
  obtain x where x: "sc_at sc (hg_scale h) (of_nat j) = Some x" using at by blast
  let ?P = "\<lambda>p. pn_midvalue p \<le> below" and ?is = "[j + 1..<length (hg_bins h)]"
  let ?f = "\<lambda>p. p\<lparr>pn_location := the (quantile sc lerp h (pn_midvalue p))\<rparr>"
  have s: "settle below (\<lambda>_. sc_at sc (hg_scale h) (of_nat j)) ?qs = Some (map (\<lambda>p. p\<lparr>pn_location := x\<rparr>) (takeWhile ?P ?qs), dropWhile ?P ?qs)"
    using settle_eq [of ?qs below "\<lambda>_. sc_at sc (hg_scale h) (of_nat j)"] by (simp add: x)
  have up: "\<forall>p\<in>set (dropWhile ?P ?qs). below < pn_midvalue p" using sorted_above [OF sorted] by blast
  have sd: "sorted (map pn_midvalue (dropWhile ?P ?qs))" using sorted by (metis map_append sorted_append takeWhile_dropWhile_id)
  have lt: "\<forall>i\<in>set ?is. i < length (hg_bins h)" by simp
  note loop = partition_loop_eq [OF at lt sd up, of lerp j "map (\<lambda>p. p\<lparr>pn_location := x\<rparr>) (takeWhile ?P ?qs)"]
  have tw: "quantile sc lerp h (pn_midvalue p) = Some x" if "p \<in> set (takeWhile ?P ?qs)" for p
    using set_takeWhileD [OF that] by (simp add: quantile_def j x)
  have dw: "quantile sc lerp h (pn_midvalue p) = locate sc lerp h ?is j below (pn_midvalue p)" if "p \<in> set (dropWhile ?P ?qs)" for p
    using up that by (fastforce simp: quantile_def j)
  have "map ?f ?qs = map ?f (takeWhile ?P ?qs) @ map ?f (dropWhile ?P ?qs)" by (metis map_append takeWhile_dropWhile_id)
  also have "\<dots> = map (\<lambda>p. p\<lparr>pn_location := x\<rparr>) (takeWhile ?P ?qs) @
      map (\<lambda>p. p\<lparr>pn_location := the (locate sc lerp h ?is j below (pn_midvalue p))\<rparr>) (dropWhile ?P ?qs)"
    by (intro arg_cong2 [of _ _ _ _ "(@)"] map_cong refl) (simp_all only: tw dw option.sel)
  finally have "find_partitions sorter sc lerp h ps = Some (map ?f ?qs)"
    using loop by (simp add: find_partitions_def j s len)
  moreover have "\<exists>x. quantile sc lerp h (pn_midvalue p) = Some x" if "p \<in> set ps" for p
  proof -
    have "p \<in> set ?qs" using that m by (metis set_mset_mset)
    then have "p \<in> set (takeWhile ?P ?qs) \<or> p \<in> set (dropWhile ?P ?qs)" by (metis Un_iff set_append takeWhile_dropWhile_id)
    then show ?thesis using tw dw loop by auto
  qed
  ultimately show ?thesis by blast
qed

end

section \<open>The scales are scales\<close>

definition linear_ops :: "('v, 'f) arithmetic \<Rightarrow> (('v, 'f) linear_scale, 'v) scale_ops" where
  "linear_ops ar = \<lparr>sc_samples = ls_samples, sc_index = linear_index ar, sc_at = linear_at ar, sc_equal = linear_equal\<rparr>"

definition log_ops :: "('v, 'f) logarithms \<Rightarrow> (('v, 'f) log_scale, 'v) scale_ops" where
  "log_ops ar = \<lparr>sc_samples = (\<lambda>s. ls_samples (lg_inner s)), sc_index = log_index ar, sc_at = log_at ar, sc_equal = log_equal\<rparr>"

definition variant_ops :: "('v, 'f) logarithms \<Rightarrow> (('v, 'f) variant_scale, 'v) scale_ops" where
  "variant_ops ar = \<lparr>sc_samples = variant_samples, sc_index = variant_index ar, sc_at = variant_at ar, sc_equal = variant_equal\<rparr>"

text \<open>The scales that are constructed; the default one is that without samples.\<close>

definition linear_good :: "('v, 'f) arithmetic \<Rightarrow> ('v, 'f) linear_scale \<Rightarrow> bool" where
  "linear_good ar s \<longleftrightarrow> (\<exists>near far samples. linear_scale_new ar near far samples = Inr s)"

definition log_good :: "('v, 'f) logarithms \<Rightarrow> ('v, 'f) log_scale \<Rightarrow> bool" where
  "log_good ar s \<longleftrightarrow> (\<exists>near far samples. log_scale_new ar near far samples = Inr s)"

definition variant_good :: "('v, 'f) logarithms \<Rightarrow> ('v, 'f) variant_scale \<Rightarrow> bool" where
  "variant_good ar s \<longleftrightarrow> (\<exists>l. linear_good (lg_arithmetic ar) l \<and> s = variant_linear ar l) \<or> (\<exists>l. log_good ar l \<and> s = variant_log ar l)"

lemma default_scales: "linear_scale_new ar near far 0 = Inr (linear_scale_default ar)"
    "log_scale_new lr (v_zero (lg_arithmetic lr)) (v_zero (lg_arithmetic lr)) 0 = Inr (log_scale_default lr)"
  by (simp_all add: linear_scale_new_def linear_scale_default_def log_scale_new_def log_scale_default_def)

lemma linear_members:
  assumes "linear_scale_new ar near far samples = Inr s"
  shows "ls_samples s = samples" "samples \<noteq> 0 \<Longrightarrow> ls_near s = near \<and> ls_far s = far \<and> ls_base s \<noteq> None \<and> ls_factor s \<noteq> None"
    "1 < samples \<Longrightarrow> ls_step s \<noteq> None" "samples = 0 \<Longrightarrow> s = linear_scale_default ar"
  using assms by (auto simp: linear_scale_new_def linear_scale_default_def Let_def split: if_splits)

lemma linear_equal_iff:
  assumes "linear_good ar s" "linear_good ar s'"
  shows "linear_equal s s' \<longleftrightarrow> s = s'"
proof -
  obtain near far n near' far' n' where n: "linear_scale_new ar near far n = Inr s" "linear_scale_new ar near' far' n' = Inr s'"
    using assms by (auto simp: linear_good_def)
  show ?thesis
  proof
    assume e: "linear_equal s s'"
    have "n = n'" using e linear_members(1) [OF n(1)] linear_members(1) [OF n(2)] by (simp add: linear_equal_def)
    show "s = s'"
    proof (cases "n = 0")
      case True
      then show ?thesis using linear_members(4) [OF n(1)] linear_members(4) [OF n(2)] \<open>n = n'\<close> by simp
    next
      case False
      then have "near = near'" "far = far'"
        using e linear_members(2) [OF n(1)] linear_members(2) [OF n(2)] \<open>n = n'\<close> by (simp_all add: linear_equal_def)
      then have "Inr s = (Inr s' :: scale_error + ('a, 'b) linear_scale)" using n \<open>n = n'\<close> by metis
      then show ?thesis by simp
    qed
  qed (simp add: linear_equal_def)
qed

lemma clamped:
  fixes i n :: u32
  assumes "n \<noteq> 0"
  shows "(if sint i < 0 then 0 else if sint i > sint (n - 1) then n - 1 else i) < n"
proof -
  have n: "0 < n" "n - 1 < n" using assms measure_unat [of n] by (simp add: word_gt_0, simp add: word_less_nat_alt)
  have "i \<le> n - 1" if "0 \<le> sint i" "sint i \<le> sint (n - 1)"
  proof -
    have s: "sint w = uint w \<or> sint w < 0" for w :: u32
      using uint_sint [of w] sint_lt [of w] by (cases "sint w < 0") (simp_all add: take_bit_int_eq_self)
    have "uint i = sint i" using s [of i] that(1) by auto
    moreover have "sint (n - 1) \<le> uint (n - 1)" using s [of "n - 1"] uint_ge_0 [of "n - 1"] by linarith
    ultimately show ?thesis using that(2) by (simp add: word_le_def)
  qed
  then show ?thesis using n by (auto simp: not_less)
qed

lemma linear_index_defined:
  assumes "linear_good ar s"
  shows "\<exists>found i. linear_index ar s k x = Some (found, i) \<and> (found \<longrightarrow> i < ls_samples s)"
proof (cases "ls_samples s = 0")
  case False
  obtain near far n where n: "linear_scale_new ar near far n = Inr s" using assms by (auto simp: linear_good_def)
  then have "ls_base s \<noteq> None" "ls_factor s \<noteq> None" using False linear_members(1,2) [OF n] by auto
  then show ?thesis using False clamped [OF False] by (auto simp: linear_index_def Let_def)
qed (auto simp: linear_index_def)

lemma linear_at_defined:
  assumes "linear_good ar s" "1 < ls_samples s"
  shows "\<exists>x. linear_at ar s i = Some x"
  using assms linear_members(1,3) by (fastforce simp: linear_good_def linear_at_def)

lemma log_good_inner:
  assumes "log_good ar s"
  shows "linear_good (lg_float ar) (lg_inner s)"
proof -
  obtain near far n where "log_scale_new ar near far n = Inr s" using assms by (auto simp: log_good_def)
  then have "linear_scale_new (lg_float ar) (lg ar near) (lg ar far) n = Inr (lg_inner s)"
    by (cases "linear_scale_new (lg_float ar) (lg ar near) (lg ar far) n") (auto simp: log_scale_new_def)
  then show ?thesis by (auto simp: linear_good_def)
qed

lemma log_equal_iff:
  assumes "log_good ar s" "log_good ar s'"
  shows "log_equal s s' \<longleftrightarrow> s = s'"
proof -
  obtain near far n near' far' n' where n: "log_scale_new ar near far n = Inr s" "log_scale_new ar near' far' n' = Inr s'"
    using assms by (auto simp: log_good_def)
  have m: "lg_near s = near" "lg_far s = far" "ls_samples (lg_inner s) = n" "lg_near s' = near'" "lg_far s' = far'" "ls_samples (lg_inner s') = n'"
    using n linear_members(1) by (fastforce simp: log_scale_new_def split: sum.splits)+
  show ?thesis
  proof
    assume "log_equal s s'"
    then have "Inr s = (Inr s' :: scale_error + ('a, 'b) log_scale)" using m n by (metis log_equal_def)
    then show "s = s'" by simp
  qed (simp add: log_equal_def)
qed

interpretation linear: measured_scale "linear_ops ar" "linear_good ar" for ar :: "('v, 'f) arithmetic"
  by unfold_locales (simp_all add: linear_ops_def linear_index_defined linear_equal_iff linear_at_defined)

lemma log_index_defined:
  assumes "log_good ar s"
  shows "\<exists>found i. log_index ar s k x = Some (found, i) \<and> (found \<longrightarrow> i < ls_samples (lg_inner s))"
  using linear_index_defined [OF log_good_inner [OF assms]] by (auto simp: log_index_def)

lemma log_at_defined:
  assumes "log_good ar s" "1 < ls_samples (lg_inner s)"
  shows "\<exists>x. log_at ar s i = Some x"
  using linear_at_defined [OF log_good_inner [OF assms(1)] assms(2), of i] by (auto simp: log_at_def)

interpretation log: measured_scale "log_ops ar" "log_good ar" for ar :: "('v, 'f) logarithms"
  by unfold_locales (simp_all add: log_ops_def log_index_defined log_equal_iff log_at_defined)

lemmas variant_visits = variant_visit_def variant_linear_def variant_log_def

interpretation varying: measured_scale "variant_ops ar" "variant_good ar" for ar :: "('v, 'f) logarithms"
proof
  fix s s' :: "('v, 'f) variant_scale" and k i x
  assume g: "variant_good ar s"
  then show "\<exists>found i. sc_index (variant_ops ar) s k x = Some (found, i) \<and> (found \<longrightarrow> i < sc_samples (variant_ops ar) s)"
    by (auto simp: variant_good_def variant_ops_def variant_index_def variant_samples_def variant_visits linear_index_defined log_index_defined)
  show "sc_equal (variant_ops ar) s s' \<longleftrightarrow> s = s'" if "variant_good ar s'"
    using g that by (auto simp: variant_good_def variant_ops_def variant_equal_def variant_visits linear_equal_iff log_equal_iff)
  show "\<exists>x. sc_at (variant_ops ar) s i = Some x" if "1 < sc_samples (variant_ops ar) s"
    using g that by (auto simp: variant_good_def variant_ops_def variant_at_def variant_samples_def variant_visits linear_at_defined log_at_defined)
qed

section \<open>Properties\<close>

lemma interpolate_takes_scale:
  assumes "hist_ok (variant_ops ar) (variant_good ar) lhs" "hist_ok (variant_ops ar) (variant_good ar) rhs"
  shows "\<exists>h. hist_interpolate (variant_ops ar) blend lhs rhs = Some h \<and> hist_ok (variant_ops ar) (variant_good ar) h \<and> hg_scale h = hg_scale rhs"
proof (cases "hg_scale lhs = hg_scale rhs")
  case True
  then show ?thesis using assms varying.equal_iff [of ar "hg_scale rhs" "hg_scale rhs"]
    by (simp add: hist_interpolate_def hist_ok_def blend_bins_defined)
next
  case False
  then show ?thesis using assms varying.equal_iff [of ar "hg_scale lhs" "hg_scale rhs"]
    by (simp add: hist_interpolate_def hist_ok_def set_scale_def blend_bins_defined)
qed

text \<open>
  C36. Histograms of the portions of a run are the histogram of the run, and its partitions are where a search for each of them alone finds
  them. The scale is any that was constructed with two samples or more, linear or logarithmic, whatever the arithmetic; the portions'
  histograms always exist: no value is counted out of range. Merging them gives the histogram that counted all values one by one, each bin
  of which holds the sum of the counts of the values with its index. Finding the partitions sorts them, gives each of them the location the
  reference search finds, and never divides by the count of an empty bin.
\<close>

theorem histogram_partitions:
  fixes g1 g2 g3 :: "(('v, 'f) variant_scale, nat) histogram"
  assumes "variant_good ar s" "1 < variant_samples s" "sorting sorter"
  defines "sc \<equiv> variant_ops ar"
  shows "\<exists>h1 h2 h. hist_adds sc xs (set_scale sc s g1) = Some h1 \<and> hist_adds sc ys (set_scale sc s g2) = Some h2 \<and> hist_merge sc h1 h2 = Some h \<and>
    hist_adds sc (xs @ ys) (set_scale sc s g3) = Some h \<and> (\<forall>k<unat (variant_samples s). hg_bins h ! k = counted sc s (xs @ ys) k) \<and>
    (\<forall>p\<in>set ps. quantile sc lerp h (pn_midvalue p) \<noteq> None) \<and>
    find_partitions sorter sc lerp h ps = Some (map (\<lambda>p. p\<lparr>pn_location := the (quantile sc lerp h (pn_midvalue p))\<rparr>) (sorter partition_less ps))"
proof -
  have n: "sc_samples sc s = variant_samples s" by (simp add: sc_def variant_ops_def)
  have run: "\<exists>h. hist_adds sc zs (set_scale sc s g) = Some h \<and> hist_ok sc (variant_good ar) h \<and> hg_scale h = s \<and>
    (\<forall>k<unat (variant_samples s). hg_bins h ! k = counted sc s zs k)" for zs and g :: "(('v, 'f) variant_scale, nat) histogram"
    using varying.set_scale_ok [OF assms(1), of g] varying.hist_adds_ok [of ar "set_scale sc s g" zs] n by (auto simp: set_scale_def sc_def)
  obtain h1 h2 h where h: "hist_adds sc xs (set_scale sc s g1) = Some h1" "hist_adds sc ys (set_scale sc s g2) = Some h2"
    "hist_adds sc (xs @ ys) (set_scale sc s g3) = Some h" "hist_ok sc (variant_good ar) h" "hg_scale h = s"
    "\<forall>k<unat (variant_samples s). hg_bins h ! k = counted sc s (xs @ ys) k"
    using run [of xs g1] run [of ys g2] run [of "xs @ ys" g3] by blast
  have "hist_merge sc h1 h2 = Some h"
    using varying.portions_merge [OF assms(1) h(1,2) [unfolded sc_def], of g3] h(3) by (simp add: sc_def)
  moreover have "1 < sc_samples (variant_ops ar) (hg_scale h)" using assms(2) n h(5) by (simp add: sc_def)
  ultimately show ?thesis
    using h varying.find_partitions_eq [OF h(4) [unfolded sc_def] _ assms(3), of ps lerp] by (auto simp: sc_def)
qed

definition fixed_point :: "(int, int) arithmetic" where
  "fixed_point = \<lparr>v_zero = 0, v_le = (\<le>), v_add = (+), v_sub = (-), to_float = (\<lambda>v. v * 1000), from_float = (\<lambda>f. f div 1000),
     index_float = (\<lambda>i. uint i * 1000), f_half = 500, f_one = 1000, f_zero = 0, f_mul = (\<lambda>a b. a * b div 1000),
     f_div = (\<lambda>a b. a * 1000 div b), f_int = (\<lambda>f. word_of_int (f div 1000))\<rparr>"

fun digits :: "nat \<Rightarrow> int" where
  "digits n = (if n < 10 then 0 else 1 + digits (n div 10))"

definition fixed_point_logs :: "(int, int) logarithms" where
  "fixed_point_logs = \<lparr>lg_arithmetic = fixed_point, lg_float = fixed_point\<lparr>to_float := id, from_float := id\<rparr>,
     log10 = (\<lambda>f. 1000 * digits (nat (f div 1000))), pow10 = (\<lambda>f. 1000 * 10 ^ nat (f div 1000))\<rparr>"

definition three_decades :: "(int, int) variant_scale" where
  "three_decades = variant_log fixed_point_logs (projr (log_scale_new fixed_point_logs 1 100 3))"

lemma three_decades_good: "variant_good fixed_point_logs three_decades" "1 < variant_samples three_decades"
proof -
  have "log_scale_new fixed_point_logs 1 100 3 = Inr (projr (log_scale_new fixed_point_logs 1 100 3))" by code_simp
  then have "log_good fixed_point_logs (projr (log_scale_new fixed_point_logs 1 100 3))" unfolding log_good_def by blast
  then show "variant_good fixed_point_logs three_decades" unfolding variant_good_def three_decades_def by blast
  show "1 < variant_samples three_decades" by code_simp
qed

definition three_decades_empty :: "((int, int) variant_scale, nat) histogram" where
  "three_decades_empty = set_scale (variant_ops fixed_point_logs) three_decades \<lparr>hg_bins = [], hg_scale = three_decades\<rparr>"

theorem histogram_partitions_witness:
  "map_option hg_bins (hist_adds (variant_ops fixed_point_logs) ([(2, 1), (15, 2)] @ [(70, 4), (0, 9)]) three_decades_empty) = Some [1, 6, 0] \<and>
   (\<exists>h1 h2 h. hist_adds (variant_ops fixed_point_logs) [(2, 1), (15, 2)] three_decades_empty = Some h1 \<and>
     hist_adds (variant_ops fixed_point_logs) [(70, 4), (0, 9)] three_decades_empty = Some h2 \<and> hist_merge (variant_ops fixed_point_logs) h1 h2 = Some h)"
proof
  show "map_option hg_bins (hist_adds (variant_ops fixed_point_logs) ([(2, 1), (15, 2)] @ [(70, 4), (0, 9)]) three_decades_empty) = Some [1, 6, 0]" by code_simp
  show "\<exists>h1 h2 h. hist_adds (variant_ops fixed_point_logs) [(2, 1), (15, 2)] three_decades_empty = Some h1 \<and>
     hist_adds (variant_ops fixed_point_logs) [(70, 4), (0, 9)] three_decades_empty = Some h2 \<and> hist_merge (variant_ops fixed_point_logs) h1 h2 = Some h"
    using histogram_partitions [OF three_decades_good insertion.sorting_axioms,
      of "[(2, 1), (15, 2)]" "\<lparr>hg_bins = [], hg_scale = three_decades\<rparr>" "[(70, 4), (0, 9)]" "\<lparr>hg_bins = [], hg_scale = three_decades\<rparr>"
        "\<lparr>hg_bins = [], hg_scale = three_decades\<rparr>" "[]" "\<lambda>a b m d. a"]
    unfolding three_decades_empty_def by blast
qed

end
