(* ===== verification/Derived_Statistics.thy ===== *)
theory Derived_Statistics
  imports Sdb_Groups Statistics_Table
begin

text \<open>
  The tables the frontend derives from the table of calls for the functions that are selected, \<^verbatim>\<open>frontend/src/derived_statistics.cpp\<close>: the
  addresses of the selection, and the callers and the callees of the functions at these addresses (keyers of \<^verbatim>\<open>frontend/keyer.h\<close>, \<^verbatim>\<open>frontend/key.h\<close>),
  put together as \<^verbatim>\<open>frontend/src/representation.cpp\<close> does for stacks of all threads. Each is a join and a grouping that follow the signals
  of what they were made from, which are themselves such tables. The key of a record may depend on other records: that of the address of
  the caller is found through the index of the table of calls by number.
\<close>

section \<open>Keyers\<close>












section \<open>Derivations\<close>













section \<open>Representations\<close>







section \<open>Tables whose keys stay\<close>




















section \<open>The table of calls\<close>

























section \<open>Derived tables follow\<close>















section \<open>Representations follow\<close>
















section \<open>Properties\<close>






















end
