(* ===== verification/Spec2Isabelle.thy ===== *)
theory Spec2Isabelle
  imports Collector_System Private_Queue Byte_Buffers Strings Views Module_Tracker Sdb_Groups Binary_Translation Image_Patch_Manager
    Ipc_Sessions Marshalled_Sessions Multiplexing Patching_Session Statistics_Update
    Frontend_Manager Socket_Server Frontend_Session Threads_Session Table_Models Image_Patch_Model Selection Headers_Model
    Collector_App Histogram Derived_Statistics
begin

text \<open>
  \<^bold>\<open>The program.\<close> MicroProfiler measures a running process. The \<^emph>\<open>collector\<close> is loaded into the process: hooks
  put at the entry and exit of functions write trace records into a queue per thread, a worker reads the
  queues, and an analyzer turns the records into trees of statistics per thread. The \<^emph>\<open>frontend\<close> is another
  process: over a session of requests and responses it asks for the statistics, the modules and the threads
  there are, keeps them in tables with live indices, joins and groups, and shows them sorted as trees or
  lists. It also asks the collector to patch functions of the process, which puts the hooks in.

  \<^bold>\<open>The theories,\<close> in the order data flows; the paths are those of the sources.

  \<^item> \<^verbatim>\<open>Prelude\<close>: machine types, hash maps as association lists behind the locale \<open>dictionary\<close>, generic lemmas.
  \<^item> \<^verbatim>\<open>Code_Memory\<close>, \<^verbatim>\<open>Binary_Translation\<close>, \<^verbatim>\<open>Jumper\<close>, \<^verbatim>\<open>Allocators\<close>, \<^verbatim>\<open>Image_Patch_Manager\<close> (\<^verbatim>\<open>patcher/\<close>, \<^verbatim>\<open>common/src/memory.cpp\<close>):
    the code of the process as bytes, the lengths of instructions, moving code, the jump put over the start of a function,
    executable memory for trampolines, and the patches of an image with their counts. Moved code keeps the targets
    a displacement can reach, a jumper diverts and restores, counters agree with active patches.
  \<^item> \<^verbatim>\<open>Calls_Collector\<close> (\<^verbatim>\<open>collector/src/calls_collector_thread.cpp\<close>): the hooks. An exit closes frames by stack pointer; the
    program returns where it would have without hooks, and the profile is exactly that of its calls.
  \<^item> \<^verbatim>\<open>Events\<close>, \<^verbatim>\<open>Buffers_Queue\<close> (\<^verbatim>\<open>mt/\<close>, \<^verbatim>\<open>collector/buffers_queue.h\<close>): the queue of a thread as steps of a producer and a consumer,
    interleaved in any way: order, bounds, and that a producer that waits is released.
  \<^item> \<^verbatim>\<open>Thread_Monitor\<close>, \<^verbatim>\<open>Thread_Queues\<close>, \<^verbatim>\<open>Collector_System\<close> (\<^verbatim>\<open>collector/thread_monitor.h\<close>, \<^verbatim>\<open>thread_queue_manager.h\<close>, \<^verbatim>\<open>src/calls_collector.cpp\<close>):
    the numbers and information of threads, one collector per thread, the collector put together with the queue and the analyzer.
  \<^item> \<^verbatim>\<open>Primitives\<close>, \<^verbatim>\<open>Shadow_Stack\<close>, \<^verbatim>\<open>Analyzer\<close> (\<^verbatim>\<open>common/primitives.h\<close>, \<^verbatim>\<open>collector/shadow_stack.h\<close>, \<^verbatim>\<open>collector/analyzer.h\<close>): traces become trees. The
    shadow stack refines a recursion over calls, conserves time, does not depend on the cutting of the trace or on other threads.
  \<^item> \<^verbatim>\<open>XXHash\<close>, \<^verbatim>\<open>Module_Tracker\<close> (\<^verbatim>\<open>collector/src/xxhash32.h\<close>, \<^verbatim>\<open>collector/module_tracker.h\<close>): modules of the process and the changes sent:
    who follows them knows files, bases, hashes and identifiers as the process had them.
  \<^item> \<^verbatim>\<open>Task_Queue\<close>, \<^verbatim>\<open>Private_Queue\<close> (\<^verbatim>\<open>scheduler/\<close>): deadlines, waiting, termination, and tasks that die with their owner.
  \<^item> \<^verbatim>\<open>Byte_Buffers\<close>, \<^verbatim>\<open>Strings\<close>, \<^verbatim>\<open>Views\<close> (\<^verbatim>\<open>common/\<close>, \<^verbatim>\<open>views/\<close>): growing buffers, UTF-8 and paths, filtered, flattened and ordered views.
  \<^item> \<^verbatim>\<open>Ipc_Sessions\<close>, \<^verbatim>\<open>Marshalled_Sessions\<close>, \<^verbatim>\<open>Multiplexing\<close> (\<^verbatim>\<open>ipc/\<close>, \<^verbatim>\<open>reqm/\<close>): requests with their responses, sessions on
    other threads, requests shared by several clients.
  \<^item> \<^verbatim>\<open>Socket_Framing\<close>, \<^verbatim>\<open>Socket_Server\<close> (\<^verbatim>\<open>ipc/src/socket_helpers.h\<close>, \<^verbatim>\<open>client_endpoint_sockets.cpp\<close>, \<^verbatim>\<open>server_endpoint_sockets.cpp\<close>): messages over
    connections; the system calls are arguments. Each session is called with its own whole messages, in order.
  \<^item> \<^verbatim>\<open>Collector_App\<close> (\<^verbatim>\<open>collector/src/collector_app.cpp\<close>, \<^verbatim>\<open>active_server_app.cpp\<close>): the collector's thread, its tasks run in any order. What
    it has sent and what it still holds is the profile of all traces, and it ends in order.
  \<^item> \<^verbatim>\<open>Sdb_Table\<close>, \<^verbatim>\<open>Sdb_Transforms\<close>, \<^verbatim>\<open>Sdb_Groups\<close> (\<^verbatim>\<open>sdb/\<close>): tables with transactions, indices, joins and groups kept up to date by signals.
  \<^item> \<^verbatim>\<open>Call_Hierarchy\<close>, \<^verbatim>\<open>Statistics_Table\<close>, \<^verbatim>\<open>Statistics_Update\<close> (\<^verbatim>\<open>frontend/\<close>): the tree of calls, its order, its flat sums, the reading of
    updates, and the theorem that spans the program from traces to the table the frontend shows.
  \<^item> \<^verbatim>\<open>Derived_Statistics\<close> (\<^verbatim>\<open>frontend/src/derived_statistics.cpp\<close>, \<^verbatim>\<open>representation.cpp\<close>): callers and callees of the selected functions, five
    tables that follow one another by signals; their rows are exactly the flat statistics of the calls concerned, and what is left
    of a selection when the calls are cleared under it.
  \<^item> \<^verbatim>\<open>Frontend_Manager\<close>, \<^verbatim>\<open>Frontend_Session\<close>, \<^verbatim>\<open>Threads_Session\<close>, \<^verbatim>\<open>Symbol_Resolver\<close> (\<^verbatim>\<open>frontend/src/\<close>): the sessions there are, metadata that are
    read from files or asked for once and the end of a session, the threads, and the symbols at addresses.
  \<^item> \<^verbatim>\<open>Table_Models\<close>, \<^verbatim>\<open>Image_Patch_Model\<close>, \<^verbatim>\<open>Selection\<close>, \<^verbatim>\<open>Headers_Model\<close> (\<^verbatim>\<open>frontend/\<close>): what the tables on screen show, the rows that
    stay tracked, selections as sets of keys, and headers that are stored and restored.
  \<^item> \<^verbatim>\<open>Histogram\<close> (\<^verbatim>\<open>math/\<close>): scales and histograms over any arithmetic; merging, and partitions found in one pass.
  \<^item> \<^verbatim>\<open>Patching_Session\<close> (\<^verbatim>\<open>frontend/src/frontend_patcher.cpp\<close>, \<^verbatim>\<open>collector/src/collector_app.cpp\<close>): requests to patch and what the frontend knows.

  \<^bold>\<open>Conventions.\<close> A class is a record and an operation a function on it; an operation that may fail returns an option or a sum
  with the exception. Undefined behaviour of the source is \<^const>\<open>None\<close>. A pointer into a container is a path, a number or
  a handle. Times are integers, since their overflow is undefined in the source; counts, numbers and addresses are words
  and wrap. Threads are steps of an inductive relation in any order. What is not in the repository (the circular buffer, serialization and
  signals of submodules, the operating system, clocks) is an argument, with the laws relied upon as hypotheses or as the assumptions of a locale
  which is then interpreted.

  \<^bold>\<open>Bounds.\<close> Where the source counts in 32 bits the theorems ask that the count fits: fewer than $2^{32}$ steps of a
  thread, fewer than $2^{32}$ rows in the table of calls. The loops of \<^verbatim>\<open>ldisasm\<close>, of paths in the tree and of deferred responses may not end and are
  partial functions; that they end under their conditions is proved.

  \<^bold>\<open>Not modelled.\<close> System calls and their wrappers but for what is said of them as arguments (COM, pipes, files, threads, lists of modules,
  injection), the formats of executables, user interface and drawing, the cumulative, filtered
  and flat representations of the calls, rulers and formatted numbers, archives of sessions, the logger; see the
  manifest for the reason of each.
\<close>

end
